(* ===== verification/Prelude.thy ===== *)
theory Prelude
  imports Main "HOL-Library.Word" "HOL-Library.Multiset"
begin

unbundle bit_operations_syntax

text \<open>
  The vocabulary the components share. Fixed-width scalars are words, as in
  \<^verbatim>\<open>src/kernel/include/types.h\<close>; \<open>Status\<close> is the common result enumeration of that header.
  Physical and user memory is a total map from 64-bit addresses to bytes (\<open>mem\<close>), so that
  pointer arithmetic wraps as it does on the machine and aliasing is visible. Byte blocks that
  one routine owns (a sector buffer, a struct image) are byte lists.

  The lemmas describe what a run of byte stores does to one address: everything is expressed
  through the distance \<open>unat (a - p)\<close> of an address from the start of the run, which stays
  correct when the run wraps around the end of the address space.
\<close>

section \<open>Scalars and status codes\<close>

named_theorems mem_simps \<open>how block stores read back\<close>
named_theorems byte_simps \<open>little- and big-endian decoding\<close>

type_synonym u8 = "8 word"
type_synonym u16 = "16 word"
type_synonym u32 = "32 word"
type_synonym u64 = "64 word"

datatype Status =
    StatusOK
  | StatusInvalidArgument
  | StatusNotFound
  | StatusAlreadyExists
  | StatusNotSupported
  | StatusNoMemory
  | StatusNoSpace
  | StatusIoError
  | StatusBusy
  | StatusFault
  | StatusFileNotFound

text \<open>The integer behind each enumerator, as a function that returns \<open>long\<close> reports it.\<close>

fun status_code :: "Status \<Rightarrow> int" where
  "status_code StatusOK = 0"
| "status_code StatusInvalidArgument = -1"
| "status_code StatusNotFound = -2"
| "status_code StatusAlreadyExists = -3"
| "status_code StatusNotSupported = -4"
| "status_code StatusNoMemory = -5"
| "status_code StatusNoSpace = -6"
| "status_code StatusIoError = -7"
| "status_code StatusBusy = -8"
| "status_code StatusFault = -9"
| "status_code StatusFileNotFound = -10"

section \<open>Memory\<close>

type_synonym mem = "u64 \<Rightarrow> u8"

text \<open>\<open>memcopy\<close> of \<^verbatim>\<open>types.h\<close>, for a source that is a buffer of its own.\<close>

primrec memcopy :: "mem \<Rightarrow> u64 \<Rightarrow> u8 list \<Rightarrow> mem" where
  "memcopy m dst [] = m"
| "memcopy m dst (b # bs) = memcopy (m(dst := b)) (dst + 1) bs"

text \<open>\<open>memzero\<close> of \<^verbatim>\<open>types.h\<close>.\<close>

primrec memzero :: "mem \<Rightarrow> u64 \<Rightarrow> nat \<Rightarrow> mem" where
  "memzero m p 0 = m"
| "memzero m p (Suc n) = memzero (m(p := 0)) (p + 1) n"

text \<open>The bytes a pointer sees.\<close>

definition mem_bytes :: "mem \<Rightarrow> u64 \<Rightarrow> nat \<Rightarrow> u8 list" where
  "mem_bytes m p n = map (\<lambda>i. m (p + of_nat i)) [0..<n]"

text \<open>The character at index \<open>i\<close> of a NUL-terminated string given by its content.\<close>

definition c_at :: "u8 list \<Rightarrow> nat \<Rightarrow> u8" where
  "c_at s i = (if i < length s then s ! i else 0)"

section \<open>Shared lemmas\<close>

lemma unat_of_nat_less:
  "i < 2 ^ LENGTH('a::len) \<Longrightarrow> unat (of_nat i :: 'a word) = i"
  by (simp add: unat_of_nat)

lemma unat_eq_of_nat: "x = of_nat n \<Longrightarrow> n < 2 ^ 64 \<Longrightarrow> unat (x :: u64) = n"
  by (simp add: unat_of_nat)

lemma unat_u32_less: "unat (x :: u32) < 4294967296"
proof -
  have "unat x < 2 ^ LENGTH(32)" by (rule unsigned_less)
  then show ?thesis by simp
qed

lemma unat_u64_less: "unat (x :: u64) < 18446744073709551616"
proof -
  have "unat x < 2 ^ LENGTH(64)" by (rule unsigned_less)
  then show ?thesis by simp
qed

lemma unat_diff_Suc:
  fixes a p :: "'a::len word"
  assumes "a \<noteq> p"
  shows "unat (a - p) = Suc (unat (a - (p + 1)))"
proof -
  have nz: "a - p \<noteq> 0" using assms by simp
  have eq: "a - (p + 1) = (a - p) - 1" by (simp add: algebra_simps)
  have "unat (a - (p + 1)) = unat (a - p) - 1" by (simp only: eq unat_minus_one [OF nz])
  moreover have "unat (a - p) \<noteq> 0" using nz by (simp add: unat_eq_0)
  ultimately show ?thesis by linarith
qed

lemma unat_diff_self_succ:
  fixes p :: "'a::len word"
  shows "unat (p - (p + 1)) = 2 ^ LENGTH('a) - 1"
  by (simp add: unsigned_minus_1_eq_mask mask_eq_exp_minus_1)

lemma unat_add_one:
  fixes a b :: "'a::len word"
  assumes "a < b"
  shows "unat (a + 1) = Suc (unat a)"
proof -
  have "unat a < unat b" using assms by (simp add: word_less_nat_alt)
  moreover have "unat b < 2 ^ LENGTH('a)" by simp
  ultimately have "unat a + 1 < 2 ^ LENGTH('a)" by linarith
  then show ?thesis by (simp add: unat_word_ariths)
qed

lemma loop_index_decreases:
  fixes index sz :: "'a::len word"
  assumes "index < sz"
  shows "unat (sz - (index + 1)) < unat (sz - index)"
  using unat_diff_Suc [of sz index] assms by auto

lemma measure_unat: "0 < (sz :: 'a::len word) \<Longrightarrow> unat (sz - 1) < unat sz"
  by (simp add: unat_minus_one word_gt_0 unat_gt_0)

lemma unat_aligned_down:
  fixes a :: u64
  shows "unat (a AND NOT (mask j)) = unat a div 2 ^ j * 2 ^ j"
proof -
  have "(a AND NOT (mask j)) + take_bit j a = (a AND NOT (mask j)) OR take_bit j a"
    by (rule disjunctive_add) (auto simp: bit_simps)
  also have "\<dots> = a" by (rule bit_word_eqI) (auto simp: bit_simps)
  finally have "a AND NOT (mask j) = a - take_bit j a" by (simp add: eq_diff_eq)
  moreover have "take_bit j a \<le> a" by (simp add: take_bit_eq_mask word_and_le2)
  ultimately have "unat (a AND NOT (mask j)) = unat a - unat (take_bit j a)" by (simp add: unat_sub)
  also have "unat (take_bit j a) = unat a mod 2 ^ j" by (metis unsigned_take_bit_eq take_bit_eq_mod)
  finally show ?thesis by (simp only: minus_mod_eq_div_mult)
qed

lemma memcopy_apply [mem_simps]:
  "length bs \<le> 2 ^ 64 \<Longrightarrow>
   memcopy m p bs a = (if unat (a - p) < length bs then bs ! unat (a - p) else m a)"
proof (induction bs arbitrary: m p)
  case Nil
  then show ?case by simp
next
  case (Cons b bs)
  then have IH: "memcopy (m(p := b)) (p + 1) bs a =
     (if unat (a - (p + 1)) < length bs then bs ! unat (a - (p + 1)) else (m(p := b)) a)"
    by simp
  show ?case
  proof (cases "a = p")
    case True
    have "unat (p - (p + 1)) = 2 ^ 64 - 1" using unat_diff_self_succ [of p] by simp
    then have "\<not> unat (p - (p + 1)) < length bs" using Cons.prems by simp
    with True IH show ?thesis by simp
  next
    case False
    with IH unat_diff_Suc [OF False] show ?thesis by simp
  qed
qed

lemma memzero_eq_memcopy: "memzero m p n = memcopy m p (replicate n 0)"
  by (induction n arbitrary: m p) auto

lemma memzero_apply [mem_simps]:
  "n \<le> 2 ^ 64 \<Longrightarrow> memzero m p n a = (if unat (a - p) < n then 0 else m a)"
  by (simp add: memzero_eq_memcopy memcopy_apply)

lemma memcopy_append: "memcopy m p (xs @ ys) = memcopy (memcopy m p xs) (p + of_nat (length xs)) ys"
  by (induction xs arbitrary: m p) (auto simp: algebra_simps)

lemma length_mem_bytes [simp]: "length (mem_bytes m p n) = n"
  by (simp add: mem_bytes_def)

lemma nth_mem_bytes [simp]: "i < n \<Longrightarrow> mem_bytes m p n ! i = m (p + of_nat i)"
  by (simp add: mem_bytes_def)

lemma mem_bytes_Suc: "mem_bytes m p (Suc n) = m p # mem_bytes m (p + 1) n"
  by (rule nth_equalityI) (auto simp: nth_Cons split: nat.split, auto simp: algebra_simps)

lemma unat_add_of_nat_diff:
  fixes p :: "'a::len word"
  assumes "i < 2 ^ LENGTH('a)"
  shows "unat (p + of_nat i - p) = i"
  using assms by (simp add: unat_of_nat_less)

lemma mem_bytes_memcopy [simp]:
  "length bs \<le> 2 ^ 64 \<Longrightarrow> mem_bytes (memcopy m p bs) p (length bs) = bs"
  by (rule nth_equalityI) (auto simp: memcopy_apply unat_of_nat_less)

lemma c_at_less [simp]: "i < length s \<Longrightarrow> c_at s i = s ! i"
  by (simp add: c_at_def)

lemma c_at_end [simp]: "c_at s (length s) = 0"
  by (simp add: c_at_def)

lemma c_at_beyond: "length s \<le> i \<Longrightarrow> c_at s i = 0"
  by (simp add: c_at_def)

lemma c_at_nonzero_less: "c_at s i \<noteq> 0 \<Longrightarrow> i < length s"
  by (simp add: c_at_def split: if_splits)

section \<open>Blocks of equal length\<close>

lemma length_concat_blocks:
  "(\<And>x. x \<in> set xs \<Longrightarrow> length x = n) \<Longrightarrow> length (concat xs) = length xs * n"
  by (induction xs) auto

lemma nth_concat_blocks:
  assumes "\<And>x. x \<in> set xs \<Longrightarrow> length x = n" and "k < length xs * n"
  shows "concat xs ! k = xs ! (k div n) ! (k mod n)"
  using assms
proof (induction xs arbitrary: k)
  case Nil
  then show ?case by simp
next
  case (Cons x xs)
  show ?case
  proof (cases "k < n")
    case True
    with Cons.prems show ?thesis by (simp add: nth_append)
  next
    case False
    with Cons.prems(2) have n: "0 < n" and "k - n < length xs * n" by (cases n, auto)
    with Cons have "concat xs ! (k - n) = xs ! ((k - n) div n) ! ((k - n) mod n)" by simp
    moreover have "(k - n) div n = k div n - 1" "(k - n) mod n = k mod n"
      using False n by (simp_all add: le_div_geq le_mod_geq)
    moreover have "0 < k div n" using False n by (simp add: div_greater_zero_iff)
    ultimately show ?thesis using False Cons.prems(1) by (simp add: nth_append)
  qed
qed

lemma slice_concat_blocks:
  assumes blk: "\<And>x. x \<in> set xs \<Longrightarrow> length x = n"
    and o: "p div n < length xs" and c: "p mod n + c \<le> n"
  shows "take c (drop p (concat xs)) = take c (drop (p mod n) (xs ! (p div n)))"
proof (rule nth_equalityI)
  have len: "length (concat xs) = length xs * n" using blk by (rule length_concat_blocks)
  have xl: "length (xs ! (p div n)) = n" using blk o nth_mem by blast
  have end': "p + c \<le> length xs * n"
  proof -
    have "p + c \<le> p div n * n + n" using c by (metis add.assoc add_le_cancel_left div_mult_mod_eq)
    also have "\<dots> = Suc (p div n) * n" by simp
    also have "\<dots> \<le> length xs * n" using o by (intro mult_le_mono1) simp
    finally show ?thesis .
  qed
  show "length (take c (drop p (concat xs))) = length (take c (drop (p mod n) (xs ! (p div n))))"
    using len xl end' c by simp
  fix i assume "i < length (take c (drop p (concat xs)))"
  then have ic: "i < c" by simp
  define q r where "q = p div n" and "r = p mod n"
  have pi: "p + i = r + i + q * n" by (simp add: q_def r_def)
  have ri: "r + i < n" using c ic by (simp add: r_def)
  have "(p + i) div n = p div n" "(p + i) mod n = p mod n + i"
    unfolding pi using ri by (simp_all add: q_def [symmetric] r_def [symmetric])
  then show "take c (drop p (concat xs)) ! i = take c (drop (p mod n) (xs ! (p div n))) ! i"
    using ic end' len xl c nth_concat_blocks [OF blk, of xs "p + i"] by simp
qed
end
