(* ===== verification/Boot_Console.thy ===== *)
theory Boot_Console
  imports Prelude "HOL-Library.Monad_Syntax"
begin

unbundle bit_operations_syntax

text \<open>
  The machine the bootloader drives, as the operations the code performs on it, and the PL011
  console of \<^verbatim>\<open>src/kernel/bootloader/console.c\<close> (the \<open>BOARD_VIRT\<close> build) on top of it.

  The hardware is a parameter: a \<open>machine\<close> record gives the effect of a 32-bit device register
  access, of the counter registers, of a cache-line operation and of the memory a device writes
  by itself, on an opaque hardware state. Busy-wait loops are \<open>partial_function (option)\<close>;
  \<open>None\<close> is a wait that never ends.
\<close>

section \<open>The machine\<close>

record VirtqDesc =
  desc_addr :: u64
  desc_len :: u32
  desc_flags :: u16
  desc_next :: u16

record VirtioBlkRequest =
  req_type :: u32
  req_reserved :: u32
  req_sector :: u64

text \<open>The memory the driver shares with the device: descriptor table, available ring, used
  index, request header, status byte, and the 512 bytes the data descriptor points to.\<close>

record Virtq =
  g_desc_table :: "VirtqDesc list"
  avail_idx :: u16
  avail_ring :: "u16 list"
  used_idx :: u16
  g_request :: VirtioBlkRequest
  g_status_byte :: u8
  sector_data :: "u8 list"

datatype cache_op = DcCvac | DcCivac

record 'h machine =
  mmio_read :: "'h \<Rightarrow> u64 \<Rightarrow> u32 \<times> 'h"
  mmio_write :: "'h \<Rightarrow> u64 \<Rightarrow> u32 \<Rightarrow> 'h"
  cntpct_el0 :: "'h \<Rightarrow> u64 \<times> 'h"
  cntfrq_el0 :: u64
  ctr_el0 :: u64
  dc_line :: "'h \<Rightarrow> cache_op \<Rightarrow> u64 \<Rightarrow> 'h"
  dma :: "'h \<Rightarrow> Virtq \<Rightarrow> Virtq \<times> 'h"

section \<open>The console\<close>

abbreviation UART0_DR :: u64 where "UART0_DR \<equiv> 0x09000000"
abbreviation UART0_FR :: u64 where "UART0_FR \<equiv> 0x09000018"
abbreviation UART0_IBRD :: u64 where "UART0_IBRD \<equiv> 0x09000024"
abbreviation UART0_FBRD :: u64 where "UART0_FBRD \<equiv> 0x09000028"
abbreviation UART0_LCRH :: u64 where "UART0_LCRH \<equiv> 0x0900002C"
abbreviation UART0_CR :: u64 where "UART0_CR \<equiv> 0x09000030"
abbreviation UART0_IMSC :: u64 where "UART0_IMSC \<equiv> 0x09000038"
abbreviation UART0_ICR :: u64 where "UART0_ICR \<equiv> 0x09000044"

definition boot_console_init :: "'h machine \<Rightarrow> 'h \<Rightarrow> Status \<times> 'h" where
  "boot_console_init mc h =
     (let h = mmio_write mc h UART0_CR 0;
          h = mmio_write mc h UART0_ICR 0x7FF;
          h = mmio_write mc h UART0_IBRD 13;
          h = mmio_write mc h UART0_FBRD 1;
          h = mmio_write mc h UART0_LCRH 0x70;
          h = mmio_write mc h UART0_IMSC 0;
          h = mmio_write mc h UART0_CR 0x301
      in (StatusOK, h))"

partial_function (option) uart_wait :: "'h machine \<Rightarrow> u32 \<Rightarrow> 'h \<Rightarrow> 'h option" where
  "uart_wait mc bit_mask h =
     (case mmio_read mc h UART0_FR of
        (v, h) \<Rightarrow> if v AND bit_mask \<noteq> 0 then uart_wait mc bit_mask h else Some h)"

definition uart_send :: "'h machine \<Rightarrow> 'h \<Rightarrow> u8 \<Rightarrow> 'h option" where
  "uart_send mc h ch = do {
     h \<leftarrow> uart_wait mc 0x20 h;
     Some (mmio_write mc h UART0_DR (ucast ch))
   }"

definition boot_console_putc :: "'h machine \<Rightarrow> 'h \<Rightarrow> u8 \<Rightarrow> 'h option" where
  "boot_console_putc mc h ch = do {
     h \<leftarrow> (if ch = 10 then uart_send mc h 13 else Some h);
     uart_send mc h ch
   }"

primrec boot_console_puts :: "'h machine \<Rightarrow> 'h \<Rightarrow> u8 list \<Rightarrow> 'h option" where
  "boot_console_puts mc h [] = Some h"
| "boot_console_puts mc h (c # cs) =
     (if c = 0 then Some h
      else do {
        h \<leftarrow> boot_console_putc mc h c;
        boot_console_puts mc h cs
      })"

definition boot_console_getc :: "'h machine \<Rightarrow> 'h \<Rightarrow> (u8 \<times> 'h) option" where
  "boot_console_getc mc h = do {
     h \<leftarrow> uart_wait mc 0x10 h;
     (let (v, h) = mmio_read mc h UART0_DR; value = ucast (v AND 0xFF) :: u8
      in Some (if value = 13 then 10 else value, h))
   }"

text \<open>The bytes of a message.\<close>

definition ascii :: "string \<Rightarrow> u8 list" where
  "ascii s = map of_char s"

section \<open>What a transmitter must do\<close>

text \<open>The bytes that go over the line for a text: every newline is preceded by a return.\<close>

definition line_bytes :: "u8 \<Rightarrow> u8 list" where
  "line_bytes c = (if c = 10 then [13, 10] else [c])"

definition wire :: "u8 list \<Rightarrow> u8 list" where
  "wire cs = concat (map line_bytes (takeWhile (\<lambda>c. c \<noteq> 0) cs))"

text \<open>
  A transmitter that becomes free after finitely many polls: \<open>busy k h\<close> holds when the full flag
  stays set for the next \<open>k\<close> reads of the flag register; \<open>sent\<close> is what the line has carried.
\<close>

locale uart =
  fixes mc :: "'h machine"
    and busy :: "nat \<Rightarrow> 'h \<Rightarrow> bool"
    and sent :: "'h \<Rightarrow> u8 list"
  assumes poll_busy: "busy (Suc k) h \<Longrightarrow> \<exists>v h'. mmio_read mc h UART0_FR = (v, h') \<and> v AND 0x20 \<noteq> 0 \<and>
        busy k h' \<and> sent h' = sent h"
    and poll_free: "busy 0 h \<Longrightarrow> \<exists>v h'. mmio_read mc h UART0_FR = (v, h') \<and> v AND 0x20 = 0 \<and>
        busy 0 h' \<and> sent h' = sent h"
    and transmit: "busy 0 h \<Longrightarrow> \<exists>k. busy k (mmio_write mc h UART0_DR (ucast (b :: u8))) \<and>
        sent (mmio_write mc h UART0_DR (ucast b)) = sent h @ [b]"
begin

definition usable :: "'h \<Rightarrow> bool" where
  "usable h \<longleftrightarrow> (\<exists>k. busy k h)"

lemma wait_ok: "busy k h \<Longrightarrow> \<exists>h'. uart_wait mc 0x20 h = Some h' \<and> busy 0 h' \<and> sent h' = sent h"
proof (induction k arbitrary: h)
  case 0
  from poll_free [OF this] show ?case by (auto simp: uart_wait.simps)
next
  case (Suc k)
  from poll_busy [OF Suc.prems] obtain v h1 where
    "mmio_read mc h UART0_FR = (v, h1)" "v AND 0x20 \<noteq> 0" "busy k h1" "sent h1 = sent h" by blast
  with Suc.IH [of h1] show ?case by (auto simp: uart_wait.simps [of mc _ h])
qed

lemma send_ok: "usable h \<Longrightarrow> \<exists>h'. uart_send mc h b = Some h' \<and> usable h' \<and> sent h' = sent h @ [b]"
  using wait_ok transmit by (fastforce simp: usable_def uart_send_def)

lemma putc_ok: "usable h \<Longrightarrow> \<exists>h'. boot_console_putc mc h c = Some h' \<and> usable h' \<and> sent h' = sent h @ line_bytes c"
  using send_ok [of h 13] send_ok [of h c] send_ok [of _ c]
  by (cases "c = 10") (fastforce simp: boot_console_putc_def line_bytes_def)+

lemma puts_ok: "usable h \<Longrightarrow> \<exists>h'. boot_console_puts mc h cs = Some h' \<and> usable h' \<and> sent h' = sent h @ wire cs"
proof (induction cs arbitrary: h)
  case Nil
  then show ?case by (simp add: wire_def)
next
  case (Cons c cs)
  from putc_ok [OF Cons.prems, of c] obtain h1 where
    "boot_console_putc mc h c = Some h1" "usable h1" "sent h1 = sent h @ line_bytes c" by blast
  with Cons show ?case by (force simp: wire_def)
qed

end

end
