(* ===== verification/Boot_Fat32.thy ===== *)
theory Boot_Fat32
  imports Prelude "HOL-Library.Monad_Syntax"
begin

unbundle bit_operations_syntax

text \<open>
  The bootloader's read-only FAT32 driver, \<^verbatim>\<open>src/kernel/bootloader/fs/fat32.c\<close>.

  A sector read goes through the block device, which is a parameter \<open>rd\<close> here:
  \<open>rd d lba\<close> is one call of \<open>boot_block_read(lba, 1, buffer)\<close> in device state \<open>d\<close>;
  \<open>None\<close> means that the call never returns, \<open>Some (None, d')\<close> that it returned a status
  other than \<open>StatusOK\<close>, \<open>Some (Some bytes, d')\<close> that it filled the sector buffer. The static
  sector buffer is written by every read before it is used, so its content between two calls
  is not part of the state. Struct arguments are values, so the \<open>NULL\<close> guards on them have no
  counterpart; the path is a byte string without its terminator, or \<open>None\<close> for \<open>NULL\<close>.

  The directory walk follows cluster links read from the disk and stops only when the disk
  says so, hence \<open>partial_function (option)\<close>; the other loops are shown to terminate.
\<close>

section \<open>Data\<close>

record BootFsFat32BootSector =
  bytes_per_sector :: u16
  sectors_per_cluster :: u8
  reserved_sectors :: u16
  fat_count :: u8
  fat_size_32 :: u32
  root_cluster :: u32
  fs_type :: "u8 list"

record BootFsFat32DirEntry =
  entry_name :: "u8 list"
  attributes :: u8
  cluster_hi :: u16
  cluster_lo :: u16
  entry_size :: u32

record BootFs =
  partition_lba :: u32
  boot_sector :: BootFsFat32BootSector
  fat_lba :: u32
  data_lba :: u32
  cluster_size :: u32

record BootFsFile =
  first_cluster :: u32
  current_cluster :: u32
  current_cluster_index :: u32
  file_size :: u32
  file_offset :: u32

type_synonym 'd sector_reader = "'d \<Rightarrow> u32 \<Rightarrow> (u8 list option \<times> 'd) option"

section \<open>Byte decoding and comparison\<close>

definition boot_read_le16 :: "u8 list \<Rightarrow> nat \<Rightarrow> u16" where
  "boot_read_le16 bytes off = ucast (bytes ! off) OR push_bit 8 (ucast (bytes ! (off + 1)))"

definition boot_read_le32 :: "u8 list \<Rightarrow> nat \<Rightarrow> u32" where
  "boot_read_le32 bytes off =
     ucast (bytes ! off) OR push_bit 8 (ucast (bytes ! (off + 1))) OR
     push_bit 16 (ucast (bytes ! (off + 2))) OR push_bit 24 (ucast (bytes ! (off + 3)))"

definition bootfs_parse_boot_sector :: "u8 list \<Rightarrow> BootFsFat32BootSector" where
  "bootfs_parse_boot_sector sector =
     \<lparr>bytes_per_sector = boot_read_le16 sector 11,
      sectors_per_cluster = sector ! 13,
      reserved_sectors = boot_read_le16 sector 14,
      fat_count = sector ! 16,
      fat_size_32 = boot_read_le32 sector 36,
      root_cluster = boot_read_le32 sector 44,
      fs_type = map (\<lambda>index. sector ! (82 + index)) [0..<8]\<rparr>"

definition bootfs_parse_dir_entry :: "u8 list \<Rightarrow> BootFsFat32DirEntry" where
  "bootfs_parse_dir_entry bytes =
     \<lparr>entry_name = map (\<lambda>index. bytes ! index) [0..<11],
      attributes = bytes ! 11,
      cluster_hi = boot_read_le16 bytes 20,
      cluster_lo = boot_read_le16 bytes 26,
      entry_size = boot_read_le32 bytes 28\<rparr>"

definition boot_char_upper :: "int \<Rightarrow> int" where
  "boot_char_upper ch = (if 97 \<le> ch \<and> ch \<le> 122 then ch - (97 - 65) else ch)"

function boot_memcmp_from :: "u8 list \<Rightarrow> u8 list \<Rightarrow> nat \<Rightarrow> nat \<Rightarrow> int" where
  "boot_memcmp_from lhs rhs index sz =
     (if index < sz then
        (if lhs ! index \<noteq> rhs ! index then uint (lhs ! index) - uint (rhs ! index)
         else boot_memcmp_from lhs rhs (Suc index) sz)
      else 0)"
  by pat_completeness auto
termination
  by (relation "measure (\<lambda>(lhs, rhs, index, sz). sz - index)") auto

definition boot_memcmp :: "u8 list \<Rightarrow> u8 list \<Rightarrow> nat \<Rightarrow> int" where
  "boot_memcmp lhs rhs sz = boot_memcmp_from lhs rhs 0 sz"

function boot_strcmp_from :: "u8 list \<Rightarrow> u8 list \<Rightarrow> nat \<Rightarrow> int" where
  "boot_strcmp_from lhs rhs i =
     (if c_at lhs i \<noteq> 0 \<and> c_at rhs i \<noteq> 0 \<and> c_at lhs i = c_at rhs i
      then boot_strcmp_from lhs rhs (Suc i)
      else uint (c_at lhs i) - uint (c_at rhs i))"
  by pat_completeness auto
termination
  by (relation "measure (\<lambda>(lhs, rhs, i). length lhs - i)")
    (auto dest: c_at_nonzero_less)

definition boot_strcmp :: "u8 list \<Rightarrow> u8 list \<Rightarrow> int" where
  "boot_strcmp lhs rhs = boot_strcmp_from lhs rhs 0"

section \<open>Mounting\<close>

definition bootfs_read_sector :: "'d sector_reader \<Rightarrow> 'd \<Rightarrow> u32 \<Rightarrow> (u8 list option \<times> 'd) option" where
  "bootfs_read_sector rd d lba = rd d lba"

definition fat32_tag :: "u8 list" where
  "fat32_tag = [70, 65, 84, 51, 50]"

definition bootfs_is_fat32_boot_sector :: "u8 list \<Rightarrow> bool" where
  "bootfs_is_fat32_boot_sector sector \<longleftrightarrow>
     sector ! 510 = 0x55 \<and>
     sector ! 511 = 0xAA \<and>
     boot_read_le16 sector 11 = 512 \<and>
     sector ! 13 \<noteq> 0 \<and>
     sector ! 16 \<noteq> 0 \<and>
     boot_read_le32 sector 36 \<noteq> 0 \<and>
     2 \<le> boot_read_le32 sector 44 \<and>
     boot_memcmp (drop 82 sector) fat32_tag 5 = 0"

function bootfs_scan_mbr :: "u8 list \<Rightarrow> nat \<Rightarrow> Status + u32" where
  "bootfs_scan_mbr sector index =
     (if index < 4 then
        (let entry = 0x1BE + index * 16; type = sector ! (entry + 4)
         in if type = 0x0B \<or> type = 0x0C then Inr (boot_read_le32 sector (entry + 8))
            else bootfs_scan_mbr sector (Suc index))
      else Inl StatusNotFound)"
  by pat_completeness auto
termination
  by (relation "measure (\<lambda>(sector, index). 4 - index)") auto

definition bootfs_find_partition_lba :: "'d sector_reader \<Rightarrow> 'd \<Rightarrow> ((Status + u32) \<times> 'd) option" where
  "bootfs_find_partition_lba rd d = do {
     (r, d) \<leftarrow> bootfs_read_sector rd d 0;
     Some (case r of
         None \<Rightarrow> (Inl StatusIoError, d)
       | Some sector \<Rightarrow>
           (if bootfs_is_fat32_boot_sector sector then (Inr 0, d)
            else (bootfs_scan_mbr sector 0, d)))
   }"

definition bootfs_of_sector :: "u32 \<Rightarrow> u8 list \<Rightarrow> BootFs" where
  "bootfs_of_sector part sector =
     (let bs = bootfs_parse_boot_sector sector;
          fat = part + ucast (reserved_sectors bs)
      in \<lparr>partition_lba = part, boot_sector = bs, fat_lba = fat,
          data_lba = fat + ucast (fat_count bs) * fat_size_32 bs,
          cluster_size = ucast (sectors_per_cluster bs) * 512\<rparr>)"

definition bootfs_init :: "'d sector_reader \<Rightarrow> 'd \<Rightarrow> ((Status + BootFs) \<times> 'd) option" where
  "bootfs_init rd d = do {
     (p, d) \<leftarrow> bootfs_find_partition_lba rd d;
     (case p of
         Inl e \<Rightarrow> Some (Inl StatusNotFound, d)
       | Inr part \<Rightarrow> do {
           (r, d) \<leftarrow> bootfs_read_sector rd d part;
           Some (case r of
               None \<Rightarrow> (Inl StatusIoError, d)
             | Some sector \<Rightarrow>
                 (if \<not> bootfs_is_fat32_boot_sector sector then (Inl StatusNotSupported, d)
                  else (Inr (bootfs_of_sector part sector), d)))
         })
   }"

section \<open>Clusters and the allocation table\<close>

definition bootfs_cluster_to_lba :: "BootFs \<Rightarrow> u32 \<Rightarrow> u32" where
  "bootfs_cluster_to_lba fs cluster =
     data_lba fs + (cluster - 2) * ucast (sectors_per_cluster (boot_sector fs))"

definition bootfs_read_fat_entry ::
  "'d sector_reader \<Rightarrow> 'd \<Rightarrow> BootFs \<Rightarrow> u32 \<Rightarrow> ((Status + u32) \<times> 'd) option" where
  "bootfs_read_fat_entry rd d fs cluster =
     (let fat_offset = cluster * 4;
          sector = fat_lba fs + fat_offset div 512;
          off = fat_offset mod 512
      in do {
        (r, d) \<leftarrow> bootfs_read_sector rd d sector;
        Some (case r of
            None \<Rightarrow> (Inl StatusIoError, d)
          | Some buf \<Rightarrow> (Inr (boot_read_le32 buf (unat off) AND 0x0FFFFFFF), d))
      })"

section \<open>Short names\<close>

primrec bootfs_scan_path :: "u8 list \<Rightarrow> nat \<Rightarrow> nat option \<Rightarrow> Status + nat option" where
  "bootfs_scan_path [] pos dot = Inr dot"
| "bootfs_scan_path (c # cs) pos dot =
     (if c = 0x2F then Inl StatusNotSupported
      else if c = 0x2E then
        (case dot of Some _ \<Rightarrow> Inl StatusInvalidArgument
         | None \<Rightarrow> bootfs_scan_path cs (Suc pos) (Some pos))
      else bootfs_scan_path cs (Suc pos) dot)"

definition upper_byte :: "u8 \<Rightarrow> u8" where
  "upper_byte c = word_of_int (boot_char_upper (uint c))"

primrec bootfs_put_upper :: "u8 list \<Rightarrow> nat \<Rightarrow> u8 list \<Rightarrow> u8 list" where
  "bootfs_put_upper name pos [] = name"
| "bootfs_put_upper name pos (c # cs) = bootfs_put_upper (name[pos := upper_byte c]) (Suc pos) cs"

definition bootfs_make_short_name :: "u8 list option \<Rightarrow> Status + u8 list" where
  "bootfs_make_short_name path =
     (case path of
        None \<Rightarrow> Inl StatusInvalidArgument
      | Some p \<Rightarrow>
          if c_at p 0 \<noteq> 0x2F then Inl StatusInvalidArgument
          else if c_at p 1 = 0 then Inl StatusInvalidArgument
          else (case bootfs_scan_path (drop 1 p) 1 None of
              Inl e \<Rightarrow> Inl e
            | Inr dot \<Rightarrow>
                (let name_len = (case dot of Some q \<Rightarrow> q - 1 | None \<Rightarrow> length p - 1);
                     ext_len = (case dot of Some q \<Rightarrow> length p - q - 1 | None \<Rightarrow> 0)
                 in if name_len = 0 \<or> 8 < name_len \<or> 3 < ext_len then Inl StatusInvalidArgument
                    else (let blank = replicate 11 0x20;
                              named = bootfs_put_upper blank 0 (take name_len (drop 1 p))
                          in Inr (case dot of
                                Some q \<Rightarrow> bootfs_put_upper named 8 (take ext_len (drop (q + 1) p))
                              | None \<Rightarrow> named)))))"

section \<open>Directory lookup\<close>

definition bootfs_entry_matches :: "u8 list \<Rightarrow> u8 list \<Rightarrow> bool" where
  "bootfs_entry_matches entry_bytes short_name \<longleftrightarrow>
     entry_bytes ! 0 \<noteq> 0xE5 \<and>
     entry_bytes ! 11 \<noteq> 0x0F \<and>
     entry_bytes ! 11 AND 0x08 = 0 \<and>
     boot_memcmp entry_bytes short_name 11 = 0"

partial_function (option) bootfs_find_root_loop ::
  "'d sector_reader \<Rightarrow> BootFs \<Rightarrow> u8 list \<Rightarrow> 'd \<Rightarrow> u32 \<Rightarrow> u32
     \<Rightarrow> ((Status + BootFsFat32DirEntry) \<times> 'd) option" where
  "bootfs_find_root_loop rd fs short_name d cluster off =
     (if 2 \<le> cluster \<and> cluster < 0x0FFFFFF8 then
        (if off < cluster_size fs then do {
           (r, d) \<leftarrow> bootfs_read_sector rd d (bootfs_cluster_to_lba fs cluster + off div 512);
           (case r of
              None \<Rightarrow> Some (Inl StatusIoError, d)
            | Some buf \<Rightarrow>
                (if drop (unat (off mod 512)) buf ! 0 = 0 then Some (Inl StatusNotFound, d)
                 else if bootfs_entry_matches (drop (unat (off mod 512)) buf) short_name
                 then Some (Inr (bootfs_parse_dir_entry (drop (unat (off mod 512)) buf)), d)
                 else bootfs_find_root_loop rd fs short_name d cluster (off + 32)))
         }
         else do {
           (n, d) \<leftarrow> bootfs_read_fat_entry rd d fs cluster;
           (case n of
              Inl e \<Rightarrow> Some (Inl StatusIoError, d)
            | Inr next \<Rightarrow> bootfs_find_root_loop rd fs short_name d next 0)
         })
      else Some (Inl StatusNotFound, d))"

definition bootfs_find_root_entry ::
  "'d sector_reader \<Rightarrow> 'd \<Rightarrow> BootFs \<Rightarrow> u8 list \<Rightarrow> ((Status + BootFsFat32DirEntry) \<times> 'd) option" where
  "bootfs_find_root_entry rd d fs short_name =
     bootfs_find_root_loop rd fs short_name d (root_cluster (boot_sector fs)) 0"

definition bootfs_file_of_entry :: "BootFsFat32DirEntry \<Rightarrow> BootFsFile" where
  "bootfs_file_of_entry entry =
     (let first = push_bit 16 (ucast (cluster_hi entry)) OR ucast (cluster_lo entry)
      in \<lparr>first_cluster = first, current_cluster = first, current_cluster_index = 0,
          file_size = entry_size entry, file_offset = 0\<rparr>)"

definition bootfs_open ::
  "'d sector_reader \<Rightarrow> 'd \<Rightarrow> BootFs \<Rightarrow> u8 list option \<Rightarrow> ((Status + BootFsFile) \<times> 'd) option" where
  "bootfs_open rd d fs path =
     (case path of
        None \<Rightarrow> Some (Inl StatusInvalidArgument, d)
      | Some p \<Rightarrow>
          (case bootfs_make_short_name (Some p) of
             Inl e \<Rightarrow> Some (Inl StatusInvalidArgument, d)
           | Inr short_name \<Rightarrow> do {
               (r, d) \<leftarrow> bootfs_find_root_entry rd d fs short_name;
               Some (case r of
                   Inl e \<Rightarrow> (Inl StatusNotFound, d)
                 | Inr entry \<Rightarrow> (Inr (bootfs_file_of_entry entry), d))
             }))"

section \<open>Positioned reads\<close>

function bootfs_locate_loop ::
  "'d sector_reader \<Rightarrow> BootFs \<Rightarrow> 'd \<Rightarrow> u32 \<Rightarrow> u32 \<Rightarrow> u32 \<Rightarrow> ((Status + u32 \<times> u32) \<times> 'd) option" where
  "bootfs_locate_loop rd fs d cluster index target =
     (if index < target then do {
        (n, d) \<leftarrow> bootfs_read_fat_entry rd d fs cluster;
        (case n of
           Inl e \<Rightarrow> Some (Inl StatusIoError, d)
         | Inr next \<Rightarrow>
             (if next < 2 \<or> 0x0FFFFFF8 \<le> next then Some (Inl StatusNotFound, d)
              else bootfs_locate_loop rd fs d next (index + 1) target))
      }
      else Some (Inr (cluster, index), d))"
  by pat_completeness auto
termination
proof (relation "measure (\<lambda>(rd, fs, d, cluster, index, target). unat (target - index))", goal_cases)
  case 1
  show ?case by simp
next
  case (2 rd fs d cluster index target)
  then have "target \<noteq> index" by auto
  from unat_diff_Suc [OF this] show ?case by simp
qed

definition bootfs_locate_cluster ::
  "'d sector_reader \<Rightarrow> 'd \<Rightarrow> BootFs \<Rightarrow> BootFsFile \<Rightarrow> u32
     \<Rightarrow> ((Status + u32) \<times> BootFsFile \<times> 'd) option" where
  "bootfs_locate_cluster rd d fs file off =
     (let target_index = off div cluster_size fs;
          restart = (current_cluster file = 0 \<or> target_index < current_cluster_index file);
          cluster = (if restart then first_cluster file else current_cluster file);
          index = (if restart then 0 else current_cluster_index file)
      in do {
        (r, d) \<leftarrow> bootfs_locate_loop rd fs d cluster index target_index;
        Some (case r of
            Inl e \<Rightarrow> (Inl e, file, d)
          | Inr (c, i) \<Rightarrow> (Inr c, file\<lparr>current_cluster := c, current_cluster_index := i\<rparr>, d))
      })"

definition bootfs_seek :: "BootFsFile \<Rightarrow> u32 \<Rightarrow> Status \<times> BootFsFile" where
  "bootfs_seek file off =
     (if file_size file < off then (StatusInvalidArgument, file)
      else (let f = file\<lparr>file_offset := off\<rparr>
            in (StatusOK,
                if off = 0 then f\<lparr>current_cluster := first_cluster f, current_cluster_index := 0\<rparr>
                else f)))"

lemma unat_pos: "(0::u32) < sz \<Longrightarrow> 0 < unat sz"
  by (simp add: word_less_nat_alt)

lemma chunk_decreases:
  fixes sz so :: u32
  assumes "0 < sz" and le: "\<not> sz < 512 - so mod 512"
  shows "unat (sz - (512 - so mod 512)) < unat sz"
proof -
  have "so mod 512 < 512" by (simp add: word_mod_less_divisor)
  then have "0 < (512::u32) - so mod 512" by (auto simp: word_gt_0)
  then have "0 < unat (512 - so mod 512)" by (rule unat_pos)
  moreover have "unat (sz - (512 - so mod 512)) = unat sz - unat (512 - so mod 512)"
    using le by (simp add: unat_sub)
  ultimately show ?thesis using unat_pos [OF assms(1)] by simp
qed

function bootfs_read_loop ::
  "'d sector_reader \<Rightarrow> BootFs \<Rightarrow> 'd \<Rightarrow> BootFsFile \<Rightarrow> u32 \<Rightarrow> u8 list
     \<Rightarrow> ((Status + u8 list) \<times> BootFsFile \<times> 'd) option" where
  "bootfs_read_loop rd fs d file sz out =
     (if 0 < sz then do {
        (r, file, d) \<leftarrow> bootfs_locate_cluster rd d fs file (file_offset file);
        (case r of
           Inl e \<Rightarrow> Some (Inl StatusIoError, file, d)
         | Inr cluster \<Rightarrow>
             (let cluster_offset = file_offset file mod cluster_size fs;
                  sector_in_cluster = cluster_offset div 512;
                  sector_offset = cluster_offset mod 512;
                  sector_lba = bootfs_cluster_to_lba fs cluster + sector_in_cluster
              in do {
                (b, d) \<leftarrow> bootfs_read_sector rd d sector_lba;
                (case b of
                   None \<Rightarrow> Some (Inl StatusIoError, file, d)
                 | Some buf \<Rightarrow>
                     (let chunk = (let c = 512 - sector_offset in if sz < c then sz else c)
                      in bootfs_read_loop rd fs d
                           (file\<lparr>file_offset := file_offset file + chunk\<rparr>)
                           (sz - chunk)
                           (out @ take (unat chunk) (drop (unat sector_offset) buf))))
              }))
      }
      else Some (Inr out, file, d))"
  by pat_completeness auto
termination
proof (relation "measure (\<lambda>(rd, fs, d, file, sz, out). unat sz)", goal_cases)
  case 1
  show ?case by simp
next
  case 2
  then show ?case
    by (auto simp: Let_def intro!: chunk_decreases unat_pos)
qed

definition bootfs_read ::
  "'d sector_reader \<Rightarrow> 'd \<Rightarrow> BootFs \<Rightarrow> BootFsFile \<Rightarrow> u32
     \<Rightarrow> ((Status + u8 list) \<times> BootFsFile \<times> 'd) option" where
  "bootfs_read rd d fs file sz =
     (if file_size file \<le> file_offset file then Some (Inr [], file, d)
      else (let remaining = file_size file - file_offset file
            in bootfs_read_loop rd fs d file (if remaining < sz then remaining else sz) []))"


declare bootfs_locate_loop.simps [simp del] bootfs_read_loop.simps [simp del]
  boot_memcmp_from.simps [simp del] boot_strcmp_from.simps [simp del] bootfs_scan_mbr.simps [simp del]

section \<open>The disk the driver reads\<close>

text \<open>What the disk holds, read as FAT32: the link of a cluster and the sectors of a cluster.\<close>

definition fat_sector :: "BootFs \<Rightarrow> u32 \<Rightarrow> u32" where
  "fat_sector fs c = fat_lba fs + c * 4 div 512"

definition fat_link :: "(u32 \<Rightarrow> u8 list) \<Rightarrow> BootFs \<Rightarrow> u32 \<Rightarrow> u32" where
  "fat_link img fs c = boot_read_le32 (img (fat_sector fs c)) (unat (c * 4 mod 512)) AND 0x0FFFFFFF"

definition cluster_valid :: "u32 \<Rightarrow> bool" where
  "cluster_valid c \<longleftrightarrow> 2 \<le> c \<and> c < 0x0FFFFFF8"

definition spc :: "BootFs \<Rightarrow> nat" where
  "spc fs = unat (sectors_per_cluster (boot_sector fs))"

definition cluster_sectors :: "(u32 \<Rightarrow> u8 list) \<Rightarrow> BootFs \<Rightarrow> u32 \<Rightarrow> u8 list list" where
  "cluster_sectors img fs c = map (\<lambda>s. img (bootfs_cluster_to_lba fs c + of_nat s)) [0..<spc fs]"

definition chain_bytes :: "(u32 \<Rightarrow> u8 list) \<Rightarrow> BootFs \<Rightarrow> u32 list \<Rightarrow> u8 list" where
  "chain_bytes img fs cs = concat (concat (map (cluster_sectors img fs) cs))"

text \<open>A list of clusters in which each one's link is the next, all of them data clusters.\<close>

fun linked :: "(u32 \<Rightarrow> u8 list) \<Rightarrow> BootFs \<Rightarrow> u32 list \<Rightarrow> bool" where
  "linked img fs (c # c' # cs) = (fat_link img fs c = c' \<and> cluster_valid c' \<and> linked img fs (c' # cs))"
| "linked img fs _ = True"

text \<open>The geometry \<open>bootfs_init\<close> establishes.\<close>

definition fs_ok :: "BootFs \<Rightarrow> bool" where
  "fs_ok fs \<longleftrightarrow> sectors_per_cluster (boot_sector fs) \<noteq> 0 \<and>
     cluster_size fs = ucast (sectors_per_cluster (boot_sector fs)) * 512"

text \<open>An open file over a cluster chain: the cached position is on the chain.\<close>

definition file_on :: "BootFs \<Rightarrow> u32 list \<Rightarrow> BootFsFile \<Rightarrow> bool" where
  "file_on fs cs file \<longleftrightarrow>
     cs \<noteq> [] \<and> first_cluster file = hd cs \<and>
     (current_cluster file = 0 \<or>
      unat (current_cluster_index file) < length cs \<and>
      current_cluster file = cs ! unat (current_cluster_index file)) \<and>
     unat (file_size file) \<le> length cs * (spc fs * 512)"

lemma unat_cluster_size: "fs_ok fs \<Longrightarrow> unat (cluster_size fs) = spc fs * 512"
proof -
  assume "fs_ok fs"
  then have eq: "cluster_size fs = ucast (sectors_per_cluster (boot_sector fs)) * 512"
    by (simp add: fs_ok_def)
  have b: "unat (sectors_per_cluster (boot_sector fs)) < 256"
    using unsigned_less [of "sectors_per_cluster (boot_sector fs)"] by simp
  then have "unat (ucast (sectors_per_cluster (boot_sector fs)) :: u32)
      = unat (sectors_per_cluster (boot_sector fs))"
    by (simp add: unsigned_ucast_eq take_bit_nat_eq_self)
  with b show ?thesis by (simp add: eq spc_def unat_word_ariths)
qed

lemma spc_pos: "fs_ok fs \<Longrightarrow> 0 < spc fs"
  by (simp add: fs_ok_def spc_def unat_gt_0)

lemma linked_nth:
  "linked img fs cs \<Longrightarrow> Suc i < length cs \<Longrightarrow>
   fat_link img fs (cs ! i) = cs ! Suc i \<and> cluster_valid (cs ! Suc i)"
  by (induction img fs cs arbitrary: i rule: linked.induct) (auto simp: nth_Cons split: nat.split)

lemma fat_entry_in_sector: "unat ((c :: u32) * 4 mod 512) + 3 < 512"
proof -
  have "unat (c * 4 mod 512) = (unat c * 4) mod 2 ^ 32 mod 512"
    by (simp add: unat_mod unat_word_ariths)
  also have "\<dots> = (unat c * 4) mod 512"
    using mod_mod_cancel [of 512 "2 ^ 32" "unat c * 4"] by simp
  also have "\<dots> = (unat c mod 128) * 4"
    using mult_mod_left [of "unat c" 128 4] by simp
  finally have "unat (c * 4 mod 512) = (unat c mod 128) * 4" .
  moreover have "unat c mod 128 < 128" by simp
  ultimately show ?thesis by linarith
qed

lemma chain_slice:
  assumes img: "\<And>lba. length (img lba) = 512"
    and sp: "0 < spc fs" and p: "p < length cs * (spc fs * 512)" and c: "p mod 512 + n \<le> 512"
  shows "take n (drop p (chain_bytes img fs cs)) =
    take n (drop (p mod 512)
      (img (bootfs_cluster_to_lba fs (cs ! (p div (spc fs * 512))) + of_nat (p div 512 mod spc fs))))"
proof -
  let ?ss = "concat (map (cluster_sectors img fs) cs)"
  have b1: "\<And>x. x \<in> set (map (cluster_sectors img fs) cs) \<Longrightarrow> length x = spc fs"
    by (auto simp: cluster_sectors_def)
  have b2: "\<And>x. x \<in> set ?ss \<Longrightarrow> length x = 512"
    by (auto simp: cluster_sectors_def img)
  have k: "p div 512 < length cs * spc fs"
    using p by (simp add: less_mult_imp_div_less mult.assoc)
  have len: "length ?ss = length cs * spc fs"
    using length_concat_blocks [of "map (cluster_sectors img fs) cs", OF b1] by simp
  have kd: "p div 512 div spc fs < length cs" using k by (rule less_mult_imp_div_less)
  have "?ss ! (p div 512) = cluster_sectors img fs (cs ! (p div 512 div spc fs)) ! (p div 512 mod spc fs)"
    using nth_concat_blocks [of "map (cluster_sectors img fs) cs", OF b1, where k = "p div 512"] k kd by simp
  also have "\<dots> = img (bootfs_cluster_to_lba fs (cs ! (p div 512 div spc fs)) + of_nat (p div 512 mod spc fs))"
    using sp by (simp add: cluster_sectors_def)
  finally have s: "?ss ! (p div 512) =
    img (bootfs_cluster_to_lba fs (cs ! (p div (spc fs * 512))) + of_nat (p div 512 mod spc fs))"
    by (simp add: div_mult2_eq [symmetric] mult.commute)
  show ?thesis
    unfolding chain_bytes_def using slice_concat_blocks [of ?ss 512 p n, OF b2] k len c s by simp
qed

lemma length_chain_bytes:
  assumes "\<And>lba. length (img lba) = 512"
  shows "length (chain_bytes img fs cs) = length cs * (spc fs * 512)"
proof -
  have b1: "\<And>x. x \<in> set (map (cluster_sectors img fs) cs) \<Longrightarrow> length x = spc fs"
    by (auto simp: cluster_sectors_def)
  have b2: "\<And>x. x \<in> set (concat (map (cluster_sectors img fs) cs)) \<Longrightarrow> length x = 512"
    by (auto simp: cluster_sectors_def assms)
  show ?thesis
    unfolding chain_bytes_def
    using length_concat_blocks [of "concat (map (cluster_sectors img fs) cs)", OF b2]
      length_concat_blocks [of "map (cluster_sectors img fs) cs", OF b1]
    by (simp add: mult.assoc)
qed

lemma position_in_cluster:
  assumes "fs_ok fs"
  shows "unat (off mod cluster_size fs mod 512) = unat off mod 512"
    and "off mod cluster_size fs div 512 = of_nat (unat off div 512 mod spc fs)"
proof -
  have m: "unat off mod (spc fs * 512) = 512 * (unat off div 512 mod spc fs) + unat off mod 512"
    by (simp add: mult.commute [of "spc fs"] mod_mult2_eq)
  show "unat (off mod cluster_size fs mod 512) = unat off mod 512"
    by (simp add: unat_mod unat_cluster_size [OF assms] m)
  have "unat (off mod cluster_size fs div 512) = unat off div 512 mod spc fs"
    by (simp add: unat_div unat_mod unat_cluster_size [OF assms] m)
  then show "off mod cluster_size fs div 512 = of_nat (unat off div 512 mod spc fs)"
    by (metis of_nat_unat ucast_id)
qed

lemma sector_chunk:
  fixes sz so :: u32
  assumes "0 < sz" and "unat so < 512"
  defines "n \<equiv> (if sz < 512 - so then sz else 512 - so)"
  shows "0 < unat n" and "n \<le> sz" and "unat so + unat n \<le> 512"
proof -
  have "so \<le> 512" using assms(2) by (simp add: word_le_nat_alt)
  then have u: "unat (512 - so) = 512 - unat so" by (simp add: unat_sub)
  show "0 < unat n" using assms(2) unat_pos [OF assms(1)] u by (simp add: n_def)
  show "n \<le> sz" by (auto simp: n_def)
  show "unat so + unat n \<le> 512" using assms(2) u by (auto simp: n_def word_less_nat_alt)
qed

text \<open>All sectors a chain of clusters occupies, and the allocation-table sectors of its links.\<close>

definition chain_readable :: "(u32 \<Rightarrow> bool) \<Rightarrow> BootFs \<Rightarrow> u32 list \<Rightarrow> bool" where
  "chain_readable readable fs cs \<longleftrightarrow>
     (\<forall>c \<in> set cs. readable (fat_sector fs c) \<and>
        (\<forall>s < spc fs. readable (bootfs_cluster_to_lba fs c + of_nat s)))"

section \<open>The contract of the block device, and what the driver makes of it\<close>

text \<open>
  A reader that returns the sectors of an image: it answers every read of a readable sector
  with that sector and stays usable.
\<close>

locale sector_disk =
  fixes rd :: "'d sector_reader"
    and ok :: "'d \<Rightarrow> bool"
    and readable :: "u32 \<Rightarrow> bool"
    and img :: "u32 \<Rightarrow> u8 list"
  assumes read_ok: "ok d \<Longrightarrow> readable lba \<Longrightarrow> \<exists>d'. rd d lba = Some (Some (img lba), d') \<and> ok d'"
    and img_length: "length (img lba) = 512"
begin

definition after :: "'d \<Rightarrow> u32 \<Rightarrow> 'd" where
  "after d lba = snd (the (rd d lba))"

lemma read_after [simp]:
  assumes "ok d" and "readable lba"
  shows "rd d lba = Some (Some (img lba), after d lba)" and "ok (after d lba)"
  using read_ok [OF assms] by (auto simp: after_def)

lemma read_fat_entry_ok:
  assumes "ok d" and "readable (fat_sector fs c)"
  shows "\<exists>d'. bootfs_read_fat_entry rd d fs c = Some (Inr (fat_link img fs c), d') \<and> ok d'"
  using assms
  by (auto simp: bootfs_read_fat_entry_def bootfs_read_sector_def fat_link_def fat_sector_def Let_def)

lemma locate_loop_ok:
  assumes "ok d" and "linked img fs cs" and "chain_readable readable fs cs"
    and "index \<le> target" and "unat target < length cs" and "cluster = cs ! unat index"
  shows "\<exists>d'. bootfs_locate_loop rd fs d cluster index target =
                Some (Inr (cs ! unat target, target), d') \<and> ok d'"
  using assms
proof (induction "unat target - unat index" arbitrary: d cluster index)
  case 0
  then have "index = target" by (simp add: word_le_nat_alt word_unat_eq_iff)
  with 0 show ?case by (simp add: bootfs_locate_loop.simps)
next
  case (Suc n)
  then have lt: "index < target" by (simp add: word_less_nat_alt)
  then have s: "unat (index + 1) = Suc (unat index)" by (rule unat_add_one)
  then have i: "Suc (unat index) < length cs" and tgt: "index + 1 \<le> target"
    using lt Suc.prems(5) by (simp_all add: word_less_nat_alt word_le_nat_alt)
  have "readable (fat_sector fs cluster)"
    using Suc.prems(3,6) i by (simp add: chain_readable_def)
  with Suc.prems(1) obtain d1 where
    e: "bootfs_read_fat_entry rd d fs cluster = Some (Inr (fat_link img fs cluster), d1)" and d1: "ok d1"
    using read_fat_entry_ok by blast
  have l: "fat_link img fs cluster = cs ! unat (index + 1)" "cluster_valid (cs ! unat (index + 1))"
    using linked_nth [OF Suc.prems(2) i] Suc.prems(6) s by simp_all
  have "n = unat target - unat (index + 1)" using Suc.hyps(2) s by simp
  from Suc.hyps(1) [OF this d1 Suc.prems(2,3) tgt Suc.prems(5) refl] l lt e
  show ?case by (auto simp: bootfs_locate_loop.simps [of rd fs d] cluster_valid_def not_le)
qed

lemma locate_cluster_ok:
  assumes "ok d" and fs: "fs_ok fs" and cs: "linked img fs cs" "chain_readable readable fs cs"
    and f: "file_on fs cs f" and off: "unat off < length cs * (spc fs * 512)"
  shows "\<exists>d' f'. bootfs_locate_cluster rd d fs f off = Some (Inr (cs ! (unat off div (spc fs * 512))), f', d')
     \<and> ok d' \<and> file_on fs cs f' \<and> file_offset f' = file_offset f \<and> file_size f' = file_size f"
proof -
  define t where "t = off div cluster_size fs"
  have ut: "unat t = unat off div (spc fs * 512)"
    by (simp add: t_def unat_div unat_cluster_size [OF fs])
  have tl: "unat t < length cs" using off by (simp add: ut less_mult_imp_div_less)
  define restart where "restart \<longleftrightarrow> current_cluster f = 0 \<or> t < current_cluster_index f"
  define c where "c = (if restart then first_cluster f else current_cluster f)"
  define i where "i = (if restart then 0 else current_cluster_index f)"
  have "c = cs ! unat i" "i \<le> t"
    using f by (auto simp: c_def i_def restart_def file_on_def hd_conv_nth)
  from locate_loop_ok [OF assms(1) cs this(2) tl this(1)]
  obtain d' where "bootfs_locate_loop rd fs d c i t = Some (Inr (cs ! unat t, t), d')" "ok d'"
    by blast
  then show ?thesis using f tl ut
    by (auto simp: bootfs_locate_cluster_def Let_def t_def [symmetric] restart_def [symmetric]
        c_def [symmetric] i_def [symmetric] file_on_def)
qed

text \<open>One turn of the read loop consumes the part of the request that lies in one sector.\<close>

lemma read_step:
  assumes fs: "fs_ok fs" and cs: "linked img fs cs" "chain_readable readable fs cs"
    and d: "ok d" and f: "file_on fs cs f" and sz: "0 < sz"
    and fit: "unat (file_offset f) + unat sz \<le> unat (file_size f)"
  shows "\<exists>n d' f'. bootfs_read_loop rd fs d f sz out = bootfs_read_loop rd fs d' f' (sz - n)
        (out @ take (unat n) (drop (unat (file_offset f)) (chain_bytes img fs cs))) \<and>
      0 < unat n \<and> n \<le> sz \<and> ok d' \<and> file_on fs cs f' \<and> file_size f' = file_size f \<and>
      file_offset f' = file_offset f + n"
proof -
  define p where "p = unat (file_offset f)"
  let ?k = "p div 512 mod spc fs"
  let ?lba = "bootfs_cluster_to_lba fs (cs ! (p div (spc fs * 512))) + of_nat ?k"
  have plt: "p < length cs * (spc fs * 512)"
    using f fit unat_pos [OF sz] by (simp add: p_def file_on_def)
  obtain d1 f1 where loc: "bootfs_locate_cluster rd d fs f (file_offset f) =
      Some (Inr (cs ! (p div (spc fs * 512))), f1, d1)" and d1: "ok d1" and f1: "file_on fs cs f1"
    and same: "file_offset f1 = file_offset f" "file_size f1 = file_size f"
    using locate_cluster_ok [OF d fs cs f, of "file_offset f"] plt by (auto simp: p_def)
  let ?so = "file_offset f mod cluster_size fs mod 512"
  note pos = position_in_cluster [OF fs, of "file_offset f", folded p_def]
  define n where "n = (let c = 512 - ?so in if sz < c then sz else c)"
  have n: "0 < unat n" "n \<le> sz" "p mod 512 + unat n \<le> 512"
    using sector_chunk [OF sz, of ?so] pos(1) by (simp_all add: n_def Let_def)
  have r: "readable ?lba"
    using cs(2) spc_pos [OF fs] less_mult_imp_div_less [OF plt] by (simp add: chain_readable_def)
  have "take (unat n) (drop (p mod 512) (img ?lba)) = take (unat n) (drop p (chain_bytes img fs cs))"
    using chain_slice [of img fs p cs "unat n"] img_length spc_pos [OF fs] plt n(3) by simp
  then have "bootfs_read_loop rd fs d f sz out = bootfs_read_loop rd fs (after d1 ?lba)
      (f1\<lparr>file_offset := file_offset f1 + n\<rparr>) (sz - n) (out @ take (unat n) (drop p (chain_bytes img fs cs)))"
    using sz loc d1 r pos
    by (cases "sz < 512 - ?so")
      (simp_all add: bootfs_read_loop.simps [of rd fs d] bootfs_read_sector_def n_def Let_def same)
  moreover have "file_on fs cs (f1\<lparr>file_offset := file_offset f1 + n\<rparr>)" using f1 by (simp add: file_on_def)
  ultimately show ?thesis
    using n(1,2) read_after(2) [OF d1 r] same
    by (intro exI [of _ n] exI [of _ "after d1 ?lba"] exI [of _ "f1\<lparr>file_offset := file_offset f1 + n\<rparr>"])
      (simp add: p_def)
qed

lemma read_loop_ok:
  assumes fs: "fs_ok fs" and cs: "linked img fs cs" "chain_readable readable fs cs"
    and "ok d" and "file_on fs cs f" and "unat (file_offset f) + unat sz \<le> unat (file_size f)"
  shows "\<exists>d' f'. bootfs_read_loop rd fs d f sz out =
      Some (Inr (out @ take (unat sz) (drop (unat (file_offset f)) (chain_bytes img fs cs))), f', d') \<and>
      ok d' \<and> file_on fs cs f' \<and> file_size f' = file_size f \<and>
      unat (file_offset f') = unat (file_offset f) + unat sz"
  using assms(4-)
proof (induction "unat sz" arbitrary: d f sz out rule: less_induct)
  case less
  let ?C = "chain_bytes img fs cs" and ?p = "unat (file_offset f)"
  show ?case
  proof (cases "0 < sz")
    case False
    then have "sz = 0" by (simp add: word_gt_0)
    with less.prems show ?thesis by (simp add: bootfs_read_loop.simps)
  next
    case True
    obtain n d1 f1 where step: "bootfs_read_loop rd fs d f sz out =
        bootfs_read_loop rd fs d1 f1 (sz - n) (out @ take (unat n) (drop ?p ?C))"
      and n: "0 < unat n" "n \<le> sz" and st: "ok d1" "file_on fs cs f1" "file_size f1 = file_size f"
      and off: "file_offset f1 = file_offset f + n"
      using read_step [OF fs cs less.prems(1,2) True less.prems(3), of out] by (elim exE conjE)
    have le: "unat n \<le> unat sz" and left: "unat (sz - n) = unat sz - unat n"
      using n(2) by (simp_all add: word_le_nat_alt unat_sub)
    have off1: "unat (file_offset f1) = ?p + unat n"
      using less.prems(3) le unat_u32_less [of "file_size f"] by (simp add: off unat_word_ariths)
    have "unat (sz - n) < unat sz" "unat (file_offset f1) + unat (sz - n) \<le> unat (file_size f1)"
      using left n le off1 less.prems(3) st(3) by simp_all
    note IH = less.hyps [OF this(1) st(1,2) this(2)]
    have "take (unat n) (drop ?p ?C) @ take (unat (sz - n)) (drop (?p + unat n) ?C) = take (unat sz) (drop ?p ?C)"
      using le take_add [of "unat n" "unat (sz - n)" "drop ?p ?C"] by (simp add: left add.commute)
    then have "\<exists>d' f'. bootfs_read_loop rd fs d f sz out = Some (Inr (out @ take (unat sz) (drop ?p ?C)), f', d') \<and>
        ok d' \<and> file_on fs cs f' \<and> file_size f' = file_size f1 \<and>
        unat (file_offset f') = ?p + unat n + unat (sz - n)"
      using IH [of "out @ take (unat n) (drop ?p ?C)"] unfolding step off1 by simp
    with st(3) left le show ?thesis by simp
  qed
qed

lemma read_ok_bytes:
  assumes "fs_ok fs" "linked img fs cs" "chain_readable readable fs cs" "ok d" "file_on fs cs f"
    and "unat (file_offset f) \<le> unat (file_size f)"
  shows "\<exists>d' f'. bootfs_read rd d fs f sz =
      Some (Inr (take (min (unat sz) (unat (file_size f) - unat (file_offset f)))
                  (drop (unat (file_offset f)) (chain_bytes img fs cs))), f', d') \<and>
      ok d' \<and> file_on fs cs f' \<and> file_size f' = file_size f \<and>
      unat (file_offset f') = unat (file_offset f) + min (unat sz) (unat (file_size f) - unat (file_offset f))"
proof (cases "file_size f \<le> file_offset f")
  case True
  with assms show ?thesis by (simp add: bootfs_read_def word_le_nat_alt)
next
  case False
  define n where "n = (if file_size f - file_offset f < sz then file_size f - file_offset f else sz)"
  have "unat n = min (unat sz) (unat (file_size f) - unat (file_offset f))"
    using False by (auto simp: n_def unat_sub word_less_nat_alt word_le_nat_alt)
  with read_loop_ok [OF assms(1-5), of n "[]"] False assms(6) show ?thesis
    by (simp add: bootfs_read_def Let_def n_def [symmetric])
qed

end

section \<open>The root directory\<close>

text \<open>
  The 32-byte records of a directory cluster, and the reference search over a list of records:
  \<open>None\<close> when the records run out undecided, \<open>Some None\<close> at the end mark, \<open>Some (Some e)\<close> at
  the first record that carries the name.
\<close>

definition cluster_entries :: "(u32 \<Rightarrow> u8 list) \<Rightarrow> BootFs \<Rightarrow> u32 \<Rightarrow> u8 list list" where
  "cluster_entries img fs c =
     map (\<lambda>j. take 32 (drop (j * 32 mod 512) (img (bootfs_cluster_to_lba fs c + of_nat (j * 32 div 512)))))
       [0..<spc fs * 16]"

definition dir_entries :: "(u32 \<Rightarrow> u8 list) \<Rightarrow> BootFs \<Rightarrow> u32 list \<Rightarrow> u8 list list" where
  "dir_entries img fs cs = concat (map (cluster_entries img fs) cs)"

text \<open>A record that is neither deleted nor part of a long name nor a volume label, and carries the name.\<close>

definition record_named :: "u8 list \<Rightarrow> u8 list \<Rightarrow> bool" where
  "record_named e name \<longleftrightarrow> e ! 0 \<noteq> 0xE5 \<and> e ! 11 \<noteq> 0x0F \<and> \<not> bit (e ! 11) 3 \<and> (\<forall>k < 11. e ! k = name ! k)"

fun dir_scan :: "u8 list \<Rightarrow> u8 list list \<Rightarrow> u8 list option option" where
  "dir_scan name [] = None"
| "dir_scan name (e # es) =
     (if e ! 0 = 0 then Some None
      else if record_named e name then Some (Some e)
      else dir_scan name es)"

definition dir_find :: "u8 list \<Rightarrow> u8 list list \<Rightarrow> Status + BootFsFat32DirEntry" where
  "dir_find name es =
     (case dir_scan name es of Some (Some e) \<Rightarrow> Inr (bootfs_parse_dir_entry e) | _ \<Rightarrow> Inl StatusNotFound)"

lemma dir_scan_append:
  "dir_scan name (xs @ ys) = (case dir_scan name xs of None \<Rightarrow> dir_scan name ys | Some r \<Rightarrow> Some r)"
  by (induction xs) auto

lemma boot_memcmp_from_zero:
  "boot_memcmp_from xs ys i n = 0 \<longleftrightarrow> (\<forall>k. i \<le> k \<and> k < n \<longrightarrow> xs ! k = ys ! k)"
proof (induction xs ys i n rule: boot_memcmp_from.induct)
  case (1 xs ys i n)
  show ?case
  proof (cases "i < n")
    case False
    then show ?thesis by (auto simp: boot_memcmp_from.simps)
  next
    case True
    have d: "uint (xs ! i) - uint (ys ! i) = 0 \<longleftrightarrow> xs ! i = ys ! i" by (simp add: word_uint_eq_iff)
    show ?thesis
    proof (cases "xs ! i = ys ! i")
      case False
      with True d show ?thesis by (auto simp: boot_memcmp_from.simps [of xs ys i n])
    next
      case eq: True
      have "(\<forall>k. i \<le> k \<and> k < n \<longrightarrow> xs ! k = ys ! k) \<longleftrightarrow> (\<forall>k. Suc i \<le> k \<and> k < n \<longrightarrow> xs ! k = ys ! k)"
        using eq by (metis Suc_leI le_neq_implies_less Suc_leD)
      with eq True "1.IH" show ?thesis by (simp add: boot_memcmp_from.simps [of xs ys i n])
    qed
  qed
qed

lemma boot_memcmp_zero: "boot_memcmp xs ys n = 0 \<longleftrightarrow> (\<forall>k<n. xs ! k = ys ! k)"
  by (simp add: boot_memcmp_def boot_memcmp_from_zero)

lemma entry_prefix:
  assumes "32 \<le> length x"
  shows "record_named (take 32 x) name = bootfs_entry_matches x name"
    and "bootfs_parse_dir_entry (take 32 x) = bootfs_parse_dir_entry x"
    and "take 32 x ! 0 = x ! 0"
proof -
  have "w AND 8 = 0 \<longleftrightarrow> \<not> bit w 3" for w :: u8 using and_exp_eq_0_iff_not_bit [of w 3] by simp
  with assms show "record_named (take 32 x) name = bootfs_entry_matches x name"
    by (simp add: bootfs_entry_matches_def record_named_def boot_memcmp_zero)
  show "bootfs_parse_dir_entry (take 32 x) = bootfs_parse_dir_entry x" "take 32 x ! 0 = x ! 0"
    using assms by (simp_all add: bootfs_parse_dir_entry_def boot_read_le16_def boot_read_le32_def)
qed

lemma entry_position:
  assumes fs: "fs_ok fs" and j: "j < spc fs * 16"
  shows "(of_nat (j * 32) :: u32) div 512 = of_nat (j div 16)"
    and "unat ((of_nat (j * 32) :: u32) mod 512) = j * 32 mod 512"
    and "of_nat (j * 32) < cluster_size fs"
    and "j * 32 mod 512 + 32 \<le> 512"
proof -
  let ?off = "of_nat (j * 32) :: u32"
  have "j * 32 < 2 ^ LENGTH(32)"
    using j unat_cluster_size [OF fs] unat_u32_less [of "cluster_size fs"] by simp
  then have u: "unat ?off = j * 32" by (rule unat_of_nat_less)
  have "unat (?off div 512) = j div 16" by (simp add: unat_div u del: of_nat_mult)
  then show "?off div 512 = of_nat (j div 16)" by (metis of_nat_unat ucast_id)
  show "unat (?off mod 512) = j * 32 mod 512" by (simp add: unat_mod u del: of_nat_mult)
  show "?off < cluster_size fs"
    using j u unat_cluster_size [OF fs] by (simp add: word_less_nat_alt del: of_nat_mult)
  have "j * 32 mod 512 = (j mod 16) * 32" using mult_mod_left [of j 16 32] by simp
  moreover have "j mod 16 < 16" by simp
  ultimately show "j * 32 mod 512 + 32 \<le> 512" by linarith
qed

context sector_disk
begin

lemma scan_cluster:
  assumes fs: "fs_ok fs" and r: "chain_readable readable fs [c]" and v: "cluster_valid c"
    and "ok d" and "j \<le> spc fs * 16"
  shows "\<exists>d'. ok d' \<and> bootfs_find_root_loop rd fs name d c (of_nat (j * 32)) =
    (case dir_scan name (drop j (cluster_entries img fs c)) of
       None \<Rightarrow> bootfs_find_root_loop rd fs name d' c (cluster_size fs)
     | Some None \<Rightarrow> Some (Inl StatusNotFound, d')
     | Some (Some e) \<Rightarrow> Some (Inr (bootfs_parse_dir_entry e), d'))"
  using assms(4,5)
proof (induction "spc fs * 16 - j" arbitrary: d j)
  case 0
  have "of_nat (spc fs * 512) = cluster_size fs"
    using unat_cluster_size [OF fs] by (metis of_nat_unat ucast_id)
  moreover have "j * 32 = spc fs * 512" using 0 by simp
  ultimately have "of_nat (j * 32) = cluster_size fs" by (simp only:)
  with 0 show ?case by (auto simp: cluster_entries_def simp del: of_nat_mult)
next
  case (Suc n)
  then have j: "j < spc fs * 16" and n: "n = spc fs * 16 - Suc j" by simp_all
  define off where "off = (of_nat (j * 32) :: u32)"
  define lba where "lba = bootfs_cluster_to_lba fs c + off div 512"
  define x where "x = drop (unat (off mod 512)) (img lba)"
  note kd = entry_position(1) [OF fs j, folded off_def] and km = entry_position(2) [OF fs j, folded off_def]
    and lt = entry_position(3) [OF fs j, folded off_def]
  have rd: "readable lba" using r j by (auto simp: chain_readable_def lba_def kd)
  have len: "32 \<le> length x" using entry_position(4) [OF fs j] by (simp add: x_def img_length km)
  have ent: "drop j (cluster_entries img fs c) = take 32 x # drop (Suc j) (cluster_entries img fs c)"
    using j by (subst Cons_nth_drop_Suc [symmetric]) (simp_all add: cluster_entries_def x_def lba_def km kd)
  have step: "bootfs_find_root_loop rd fs name d c off =
      (if x ! 0 = 0 then Some (Inl StatusNotFound, after d lba)
       else if bootfs_entry_matches x name then Some (Inr (bootfs_parse_dir_entry x), after d lba)
       else bootfs_find_root_loop rd fs name (after d lba) c (off + 32))"
    using v lt rd Suc.prems(1)
    by (subst bootfs_find_root_loop.simps)
      (simp add: cluster_valid_def bootfs_read_sector_def x_def lba_def [symmetric])
  have nxt: "off + 32 = of_nat (Suc j * 32)" by (simp add: off_def)
  obtain d' where d': "ok d'" "bootfs_find_root_loop rd fs name (after d lba) c (off + 32) =
    (case dir_scan name (drop (Suc j) (cluster_entries img fs c)) of
       None \<Rightarrow> bootfs_find_root_loop rd fs name d' c (cluster_size fs)
     | Some None \<Rightarrow> Some (Inl StatusNotFound, d')
     | Some (Some e) \<Rightarrow> Some (Inr (bootfs_parse_dir_entry e), d'))"
    using Suc.hyps(1) [OF n read_after(2) [OF Suc.prems(1) rd]] j unfolding nxt by auto
  show ?case
    unfolding off_def [symmetric] step ent using read_after(2) [OF Suc.prems(1) rd] d'
    by (auto simp: entry_prefix [OF len])
qed

lemma find_root_loop_ok:
  assumes fs: "fs_ok fs" and "linked img fs cs" "chain_readable readable fs cs" "cs \<noteq> []" "cluster_valid (hd cs)"
    and "\<not> cluster_valid (fat_link img fs (last cs))" and "ok d"
  shows "\<exists>d'. ok d' \<and> bootfs_find_root_loop rd fs name d (hd cs) 0 =
           Some (dir_find name (dir_entries img fs cs), d')"
  using assms(2-)
proof (induction cs arbitrary: d)
  case Nil
  then show ?case by simp
next
  case (Cons c cs)
  have r1: "chain_readable readable fs [c]" using Cons.prems(2) by (simp add: chain_readable_def)
  obtain d1 where d1: "ok d1" and scan: "bootfs_find_root_loop rd fs name d c 0 =
    (case dir_scan name (cluster_entries img fs c) of
       None \<Rightarrow> bootfs_find_root_loop rd fs name d1 c (cluster_size fs)
     | Some None \<Rightarrow> Some (Inl StatusNotFound, d1)
     | Some (Some e) \<Rightarrow> Some (Inr (bootfs_parse_dir_entry e), d1))"
    using scan_cluster [OF fs r1 _ Cons.prems(6), of 0 name] Cons.prems(4) by auto
  have fr: "readable (fat_sector fs c)" using Cons.prems(2) by (simp add: chain_readable_def)
  obtain d2 where d2: "ok d2" and link: "bootfs_find_root_loop rd fs name d1 c (cluster_size fs) =
      bootfs_find_root_loop rd fs name d2 (fat_link img fs c) 0"
    using read_fat_entry_ok [OF d1 fr] Cons.prems(4)
    by (auto simp: bootfs_find_root_loop.simps [of rd fs name d1] cluster_valid_def)
  have more: "\<exists>d'. ok d' \<and> bootfs_find_root_loop rd fs name d2 (fat_link img fs c) 0 =
      Some (dir_find name (dir_entries img fs cs), d')"
  proof (cases cs)
    case Nil
    with Cons.prems(5) d2 show ?thesis
      by (auto simp: bootfs_find_root_loop.simps [of rd fs name d2] cluster_valid_def dir_find_def dir_entries_def)
  next
    case (Cons c' cs')
    with Cons.prems Cons.IH [OF _ _ _ _ _ d2] show ?thesis by (simp add: chain_readable_def)
  qed
  show ?case
    using scan link more d1
    by (cases "dir_scan name (cluster_entries img fs c)")
      (auto simp: dir_find_def dir_entries_def dir_scan_append split: option.splits)
qed

end


section \<open>Mounting and short names\<close>

lemma bootfs_of_sector_ok:
  assumes "bootfs_is_fat32_boot_sector s"
  shows "fs_ok (bootfs_of_sector part s)" and "2 \<le> root_cluster (boot_sector (bootfs_of_sector part s))"
    and "bytes_per_sector (boot_sector (bootfs_of_sector part s)) = 512"
  using assms
  by (simp_all add: bootfs_is_fat32_boot_sector_def bootfs_of_sector_def Let_def fs_ok_def
      bootfs_parse_boot_sector_def)

lemma bootfs_init_sector:
  assumes "bootfs_init rd d = Some (Inr fs, d')"
  shows "\<exists>part s. bootfs_is_fat32_boot_sector s \<and> fs = bootfs_of_sector part s"
proof -
  obtain p d1 where p: "bootfs_find_partition_lba rd d = Some (p, d1)"
    using assms by (auto simp: bootfs_init_def bind_eq_Some_conv)
  then obtain part where q: "p = Inr part"
    using assms by (cases p) (auto simp: bootfs_init_def)
  obtain r d2 where r: "bootfs_read_sector rd d1 part = Some (r, d2)"
    using assms p q by (auto simp: bootfs_init_def bind_eq_Some_conv)
  obtain s where "r = Some s" using assms p q r by (cases r) (auto simp: bootfs_init_def)
  with assms p q r show ?thesis by (auto simp: bootfs_init_def split: if_splits)
qed

text \<open>The partition the master boot record names: its first entry of a FAT32 type.\<close>

definition mbr_type :: "u8 list \<Rightarrow> nat \<Rightarrow> u8" where
  "mbr_type s i = s ! (0x1BE + i * 16 + 4)"

definition mbr_start :: "u8 list \<Rightarrow> nat \<Rightarrow> u32" where
  "mbr_start s i = boot_read_le32 s (0x1BE + i * 16 + 8)"

definition mbr_partition :: "u8 list \<Rightarrow> u32 option" where
  "mbr_partition s = map_option (mbr_start s) (find (\<lambda>i. mbr_type s i \<in> {0x0B, 0x0C}) [0..<4])"

lemma scan_mbr_find:
  "bootfs_scan_mbr s i =
     (case find (\<lambda>i. mbr_type s i \<in> {0x0B, 0x0C}) [i..<4] of
        None \<Rightarrow> Inl StatusNotFound | Some j \<Rightarrow> Inr (mbr_start s j))"
proof (induction s i rule: bootfs_scan_mbr.induct)
  case (1 s i)
  then show ?case
    by (cases "i < 4")
      (auto simp: bootfs_scan_mbr.simps [of s i] upt_conv_Cons mbr_type_def mbr_start_def Let_def)
qed

definition disk_partition :: "(u32 \<Rightarrow> u8 list) \<Rightarrow> u32 option" where
  "disk_partition img = (if bootfs_is_fat32_boot_sector (img 0) then Some 0 else mbr_partition (img 0))"

definition disk_mount :: "(u32 \<Rightarrow> u8 list) \<Rightarrow> Status + BootFs" where
  "disk_mount img =
     (case disk_partition img of
        None \<Rightarrow> Inl StatusNotFound
      | Some part \<Rightarrow>
          if bootfs_is_fat32_boot_sector (img part) then Inr (bootfs_of_sector part (img part))
          else Inl StatusNotSupported)"

context sector_disk
begin

lemma find_partition_ok:
  assumes "ok d" and "readable 0"
  shows "bootfs_find_partition_lba rd d =
     Some (case disk_partition img of None \<Rightarrow> Inl StatusNotFound | Some p \<Rightarrow> Inr p, after d 0)"
  using assms
  by (simp add: bootfs_find_partition_lba_def bootfs_read_sector_def disk_partition_def mbr_partition_def
      scan_mbr_find option.map_sel split: option.split)

lemma init_ok:
  assumes "ok d" and "readable 0" and "\<And>p. disk_partition img = Some p \<Longrightarrow> readable p"
  shows "\<exists>d'. bootfs_init rd d = Some (disk_mount img, d') \<and> ok d'"
proof (cases "disk_partition img")
  case None
  with assms find_partition_ok [OF assms(1,2)] show ?thesis
    by (simp add: bootfs_init_def disk_mount_def)
next
  case (Some p)
  with assms find_partition_ok [OF assms(1,2)] show ?thesis
    by (simp add: bootfs_init_def disk_mount_def bootfs_read_sector_def)
qed

end

lemma put_upper_length [simp]: "length (bootfs_put_upper name pos cs) = length name"
  by (induction cs arbitrary: name pos) auto

lemma put_upper_eq:
  "pos + length cs \<le> length name \<Longrightarrow>
   bootfs_put_upper name pos cs = take pos name @ map upper_byte cs @ drop (pos + length cs) name"
proof (induction cs arbitrary: name pos)
  case Nil
  then show ?case by simp
next
  case (Cons c cs)
  then have "bootfs_put_upper name pos (c # cs) =
      take (Suc pos) (name[pos := upper_byte c]) @ map upper_byte cs @
      drop (Suc pos + length cs) (name[pos := upper_byte c])"
    by simp
  moreover have "take (Suc pos) (name[pos := upper_byte c]) = take pos name @ [upper_byte c]"
    using Cons.prems by (simp add: take_Suc_conv_app_nth)
  ultimately show ?case by simp
qed

lemma scan_path_no_dot:
  "0x2F \<notin> set cs \<Longrightarrow> 0x2E \<notin> set cs \<Longrightarrow> bootfs_scan_path cs pos dot = Inr dot"
  by (induction cs arbitrary: pos) auto

lemma scan_path_append:
  "0x2F \<notin> set xs \<Longrightarrow> 0x2E \<notin> set xs \<Longrightarrow>
   bootfs_scan_path (xs @ ys) pos dot = bootfs_scan_path ys (pos + length xs) dot"
  by (induction xs arbitrary: pos) auto

definition pad :: "nat \<Rightarrow> u8 list \<Rightarrow> u8 list" where
  "pad n xs = xs @ replicate (n - length xs) 0x20"

text \<open>The 8.3 name of a base and an extension.\<close>

definition short_name :: "u8 list \<Rightarrow> u8 list \<Rightarrow> u8 list" where
  "short_name base ext = pad 8 (map upper_byte base) @ pad 3 (map upper_byte ext)"

lemma put_upper_base:
  assumes "length base \<le> 8"
  shows "bootfs_put_upper (replicate 11 0x20) 0 base = pad 8 (map upper_byte base) @ replicate 3 0x20"
proof -
  have "(11::nat) - length base = (8 - length base) + 3" using assms by simp
  then have "replicate (11 - length base) (0x20 :: u8) = replicate (8 - length base) 0x20 @ replicate 3 0x20"
    by (simp only: replicate_add)
  with assms show ?thesis by (simp add: put_upper_eq pad_def del: replicate_Suc)
qed

lemma put_upper_ext:
  assumes "length ext \<le> 3" and "length xs = 8"
  shows "bootfs_put_upper (xs @ replicate 3 0x20) 8 ext = xs @ pad 3 (map upper_byte ext)"
  using assms by (simp add: put_upper_eq pad_def del: replicate_Suc)

lemma length_pad: "length xs \<le> n \<Longrightarrow> length (pad n xs) = n"
  by (simp add: pad_def)

lemma scan_path_inv:
  "bootfs_scan_path cs pos None = Inr dot \<Longrightarrow>
   0x2F \<notin> set cs \<and>
   (case dot of None \<Rightarrow> 0x2E \<notin> set cs
    | Some q \<Rightarrow> \<exists>xs ys. cs = xs @ 0x2E # ys \<and> q = pos + length xs \<and> 0x2E \<notin> set xs \<and> 0x2E \<notin> set ys)"
proof (induction cs arbitrary: pos)
  case Nil
  then show ?case by auto
next
  case (Cons c cs)
  have tail: "bootfs_scan_path ys i (Some j) = Inr d \<Longrightarrow> d = Some j \<and> 0x2E \<notin> set ys \<and> 0x2F \<notin> set ys" for ys i j d
    by (induction ys arbitrary: i) (auto split: if_splits)
  show ?case
  proof (cases "c = 0x2E")
    case True
    with Cons.prems tail [of cs "Suc pos" pos dot] show ?thesis
      by (auto intro!: exI [of _ "[]"])
  next
    case False
    with Cons.prems have tl: "c \<noteq> 0x2F" "bootfs_scan_path cs (Suc pos) None = Inr dot"
      by (auto split: if_splits)
    show ?thesis
    proof (cases dot)
      case None
      with tl False Cons.IH [OF tl(2)] show ?thesis by simp
    next
      case (Some q)
      with Cons.IH [OF tl(2)] obtain xs ys where "cs = xs @ 0x2E # ys" "q = Suc pos + length xs"
        "0x2E \<notin> set xs" "0x2E \<notin> set ys" "0x2F \<notin> set cs" by auto
      with tl False show ?thesis
        unfolding Some option.case by (intro conjI exI [of _ "c # xs"] exI [of _ ys]) auto
    qed
  qed
qed

definition is_short_path :: "u8 list \<Rightarrow> u8 list \<Rightarrow> u8 list \<Rightarrow> bool" where
  "is_short_path p base ext \<longleftrightarrow>
     (p = 0x2F # base \<and> ext = [] \<or> p = 0x2F # base @ 0x2E # ext) \<and>
     {0x2F, 0x2E} \<inter> set (base @ ext) = {} \<and>
     0 < length base \<and> length base \<le> 8 \<and> length ext \<le> 3"

lemma make_short_name_plain:
  assumes "0x2F \<notin> set base" "0x2E \<notin> set base" "0 \<notin> set base" "base \<noteq> []" "length base \<le> 8"
  shows "bootfs_make_short_name (Some (0x2F # base)) = Inr (short_name base [])"
proof -
  have "c_at (0x2F # base) 1 \<noteq> 0" using assms(3,4) by (cases base) auto
  with assms show ?thesis
    by (simp add: bootfs_make_short_name_def scan_path_no_dot put_upper_base short_name_def pad_def)
qed

lemma make_short_name_ext:
  assumes b: "0x2F \<notin> set base" "0x2E \<notin> set base" "0 \<notin> set base" "base \<noteq> []" "length base \<le> 8"
    and e: "0x2F \<notin> set ext" "0x2E \<notin> set ext" "length ext \<le> 3"
  shows "bootfs_make_short_name (Some (0x2F # base @ 0x2E # ext)) = Inr (short_name base ext)"
proof -
  have "c_at (0x2F # base @ 0x2E # ext) 1 \<noteq> 0" using b(3,4) by (cases base) auto
  moreover have "bootfs_scan_path (base @ 0x2E # ext) 1 None = Inr (Some (1 + length base))"
    using b e by (simp add: scan_path_append scan_path_no_dot)
  ultimately show ?thesis using b e
    by (simp add: bootfs_make_short_name_def put_upper_base put_upper_ext short_name_def length_pad)
qed

lemma make_short_name_inv:
  assumes "bootfs_make_short_name (Some p) = Inr nm"
  shows "\<exists>base ext. is_short_path p base ext"
proof -
  obtain cs where p: "p = 0x2F # cs"
    using assms by (cases p) (auto simp: bootfs_make_short_name_def c_at_def split: if_splits)
  obtain dot where s: "bootfs_scan_path cs 1 None = Inr dot"
    using assms p by (cases "bootfs_scan_path cs 1 None") (auto simp: bootfs_make_short_name_def split: if_splits)
  show ?thesis
  proof (cases dot)
    case None
    with assms p s scan_path_inv [OF s] show ?thesis
      by (intro exI [of _ cs] exI [of _ "[]"])
        (auto simp: bootfs_make_short_name_def is_short_path_def Let_def split: if_splits)
  next
    case (Some q)
    with scan_path_inv [OF s] obtain xs ys where "cs = xs @ 0x2E # ys" "q = 1 + length xs"
      "0x2E \<notin> set xs" "0x2E \<notin> set ys" "0x2F \<notin> set cs" by auto
    with assms p s Some show ?thesis
      by (intro exI [of _ xs] exI [of _ ys])
        (auto simp: bootfs_make_short_name_def is_short_path_def Let_def split: if_splits)
  qed
qed

lemma make_short_name_iff:
  assumes "0 \<notin> set p"
  shows "bootfs_make_short_name (Some p) = Inr nm \<longleftrightarrow> (\<exists>base ext. is_short_path p base ext \<and> nm = short_name base ext)"
proof -
  have "is_short_path p base ext \<Longrightarrow> bootfs_make_short_name (Some p) = Inr (short_name base ext)" for base ext
    using assms make_short_name_plain [of base] make_short_name_ext [of base ext]
    by (auto simp: is_short_path_def)
  with make_short_name_inv [of p nm] show ?thesis by (metis sum.inject(2))
qed

lemma length_short_name: "is_short_path p base ext \<Longrightarrow> length (short_name base ext) = 11"
  by (simp add: is_short_path_def short_name_def length_pad)

section \<open>No read writes past the request\<close>

lemma read_loop_bounded:
  "bootfs_read_loop rd fs d f sz out = Some (Inr bs, f', d') \<Longrightarrow> length bs \<le> length out + unat sz"
proof (induction "unat sz" arbitrary: d f sz out rule: less_induct)
  case less
  show ?case
  proof (cases "0 < sz")
    case False
    with less.prems show ?thesis by (simp add: bootfs_read_loop.simps)
  next
    case True
    from less.prems obtain r f1 d1 where l0: "bootfs_locate_cluster rd d fs f (file_offset f) = Some (r, f1, d1)"
      by (auto simp: bootfs_read_loop.simps [of rd fs d] True bind_eq_Some_conv)
    with less.prems True obtain c where l: "bootfs_locate_cluster rd d fs f (file_offset f) = Some (Inr c, f1, d1)"
      by (cases r) (auto simp: bootfs_read_loop.simps [of rd fs d])
    define so where "so = file_offset f1 mod cluster_size fs mod 512"
    define n where "n = (if sz < 512 - so then sz else 512 - so)"
    have "unat so < 512" by (simp add: so_def unat_mod)
    note n = sector_chunk [OF True this, folded n_def]
    obtain buf d2 where step: "bootfs_read_loop rd fs d2 (f1\<lparr>file_offset := file_offset f1 + n\<rparr>) (sz - n)
        (out @ take (unat n) (drop (unat so) buf)) = Some (Inr bs, f', d')"
      using less.prems l True
      by (auto simp: bootfs_read_loop.simps [of rd fs d] bind_eq_Some_conv Let_def n_def [symmetric]
          so_def [symmetric] split: option.splits)
    have "unat (sz - n) = unat sz - unat n" "unat n \<le> unat sz"
      using n(2) by (simp_all add: unat_sub word_le_nat_alt)
    with less.hyps [OF _ step] n(1) show ?thesis by auto
  qed
qed

lemma open_root_ok:
  assumes "sector_disk rd ok readable img" and "fs_ok fs" and "linked img fs cs"
    and "chain_readable readable fs cs" and "cs \<noteq> []" and "hd cs = root_cluster (boot_sector fs)"
    and "cluster_valid (hd cs)" and "\<not> cluster_valid (fat_link img fs (last cs))" and "ok d"
    and "bootfs_make_short_name (Some p) = Inr nm"
  shows "\<exists>d'. ok d' \<and> bootfs_open rd d fs (Some p) =
     Some (map_sum id bootfs_file_of_entry (dir_find nm (dir_entries img fs cs)), d')"
proof -
  obtain d' where "ok d'" "bootfs_find_root_loop rd fs nm d (hd cs) 0 = Some (dir_find nm (dir_entries img fs cs), d')"
    using sector_disk.find_root_loop_ok [OF assms(1-5,7-9)] by blast
  moreover have "dir_find nm es = Inl e \<Longrightarrow> e = StatusNotFound" for es e
    by (auto simp: dir_find_def split: option.splits)
  ultimately show ?thesis using assms(6,10)
    by (cases "dir_find nm (dir_entries img fs cs)")
      (auto simp: bootfs_open_def bootfs_find_root_entry_def)
qed

section \<open>Properties\<close>

text \<open>C14: Reading an open file returns exactly the requested bytes of the concatenated
  clusters of its chain, cut at the file size, advances the offset by that many bytes and
  keeps the cluster cache on the chain, across sector and cluster boundaries; it always returns.\<close>

theorem bootfs_read_correct:
  assumes "sector_disk rd ok readable img" and "fs_ok fs" and "linked img fs cs"
    and "chain_readable readable fs cs" and "ok d" and "file_on fs cs f"
    and "unat (file_offset f) \<le> unat (file_size f)"
  shows "let n = min (unat sz) (unat (file_size f) - unat (file_offset f)) in
    \<exists>d' f'. bootfs_read rd d fs f sz =
      Some (Inr (take n (drop (unat (file_offset f)) (chain_bytes img fs cs))), f', d') \<and>
      ok d' \<and> file_on fs cs f' \<and> file_size f' = file_size f \<and>
      unat (file_offset f') = unat (file_offset f) + n"
  unfolding Let_def by (rule sector_disk.read_ok_bytes [OF assms])

text \<open>A two-cluster disk: cluster 3 links to cluster 4, which ends the chain; cluster 2 is the
  root directory, with one entry.\<close>

definition demo_fs :: BootFs where
  "demo_fs = \<lparr>partition_lba = 0,
     boot_sector = \<lparr>bytes_per_sector = 512, sectors_per_cluster = 1, reserved_sectors = 1, fat_count = 1,
       fat_size_32 = 1, root_cluster = 2, fs_type = fat32_tag\<rparr>,
     fat_lba = 1, data_lba = 2, cluster_size = 512\<rparr>"

definition demo_fat :: "u8 list" where
  "demo_fat = [0, 0, 0, 0, 0, 0, 0, 0, 0xFF, 0xFF, 0xFF, 0x0F, 4, 0, 0, 0, 0xFF, 0xFF, 0xFF, 0x0F] @ replicate 492 0"

definition demo_root :: "u8 list" where
  "demo_root = [75, 69, 82, 78, 69, 76, 32, 32, 73, 77, 71, 0x20] @ replicate 14 0 @ [3, 0, 88, 2, 0, 0] @ replicate 480 0"

definition demo_img :: "u32 \<Rightarrow> u8 list" where
  "demo_img lba = (if lba = 1 then demo_fat else if lba = 2 then demo_root
     else if lba = 3 then replicate 512 1 else if lba = 4 then replicate 512 2 else replicate 512 0)"

definition demo_read :: "unit sector_reader" where
  "demo_read d lba = Some (Some (demo_img lba), d)"

definition demo_file :: BootFsFile where
  "demo_file = \<lparr>first_cluster = 3, current_cluster = 3, current_cluster_index = 0,
     file_size = 600, file_offset = 0\<rparr>"

lemma demo_disk: "sector_disk demo_read (\<lambda>_. True) (\<lambda>_. True) demo_img"
  by unfold_locales (simp_all add: demo_read_def demo_img_def demo_fat_def demo_root_def)

lemma demo_facts:
  "fs_ok demo_fs" "spc demo_fs = 1" "linked demo_img demo_fs [3, 4]" "linked demo_img demo_fs [2]"
  "\<not> cluster_valid (fat_link demo_img demo_fs 2)" "cluster_valid 2"
  "file_on demo_fs [3, 4] demo_file" "chain_readable (\<lambda>_. True) demo_fs cs"
  "root_cluster (boot_sector demo_fs) = 2"
  by (simp_all add: fs_ok_def demo_fs_def spc_def fat_link_def fat_sector_def demo_img_def demo_fat_def
      cluster_valid_def boot_read_le32_def file_on_def demo_file_def chain_readable_def)

theorem bootfs_read_correct_witness:
  "\<exists>d' f'. bootfs_read demo_read () demo_fs demo_file 1000 =
      Some (Inr (take 600 (chain_bytes demo_img demo_fs [3, 4])), f', d') \<and>
      True \<and> file_on demo_fs [3, 4] f' \<and> file_size f' = 600 \<and> unat (file_offset f') = 600"
  using bootfs_read_correct [OF demo_disk demo_facts(1,3,8) _ demo_facts(7), where sz = 1000 and d = "()"]
  by (simp add: demo_file_def)

text \<open>What a record says: the little-endian numbers behind its cluster and size fields.\<close>

definition le_value :: "u8 list \<Rightarrow> nat" where
  "le_value bs = foldr (\<lambda>b n. unat b + 256 * n) bs 0"

definition record_file :: "u8 list \<Rightarrow> BootFsFile" where
  "record_file e =
     (let c = of_nat (le_value [e ! 26, e ! 27, e ! 20, e ! 21])
      in \<lparr>first_cluster = c, current_cluster = c, current_cluster_index = 0,
          file_size = of_nat (le_value [e ! 28, e ! 29, e ! 30, e ! 31]), file_offset = 0\<rparr>)"

definition dir_lookup :: "u8 list \<Rightarrow> u8 list list \<Rightarrow> Status + u8 list" where
  "dir_lookup name es = (case dir_scan name es of Some (Some e) \<Rightarrow> Inr e | _ \<Rightarrow> Inl StatusNotFound)"

lemma le32_bytes:
  fixes a b c d :: u8
  shows "(ucast a OR push_bit 8 (ucast b) OR push_bit 16 (ucast c) OR push_bit 24 (ucast d) :: u32) = of_nat (le_value [a, b, c, d])"
proof -
  have lt: "bit v n \<Longrightarrow> n < 8" for v :: u8 and n using bit_imp_le_length [of v n] by simp
  have "(of_nat (le_value [a, b, c, d]) :: u32) = ((ucast a + push_bit 8 (ucast b)) + push_bit 16 (ucast c)) + push_bit 24 (ucast d)"
    by (simp add: le_value_def push_bit_eq_mult algebra_simps)
  also have "\<dots> = ((ucast a OR push_bit 8 (ucast b)) OR push_bit 16 (ucast c)) OR push_bit 24 (ucast d)"
    by (subst disjunctive_add; (subst disjunctive_add)?; (subst disjunctive_add)?) (auto simp: bit_simps dest: lt)
  finally show ?thesis by (simp add: or.assoc)
qed

lemma file_of_record: "bootfs_file_of_entry (bootfs_parse_dir_entry e) = record_file e"
proof -
  have hi: "(push_bit 16 (ucast (ucast a OR push_bit 8 (ucast b) :: u16)) OR ucast (ucast c OR push_bit 8 (ucast d) :: u16) :: u32) =
      ucast c OR push_bit 8 (ucast d) OR push_bit 16 (ucast a) OR push_bit 24 (ucast b)" (is "?x = ?y") for a b c d :: u8
  proof (rule bit_word_eqI)
    fix n assume "n < LENGTH(32)"
    moreover have lt: "bit v n \<Longrightarrow> n < 8" for v :: u8 and n using bit_imp_le_length [of v n] by simp
    ultimately consider "n < 8" | "8 \<le> n" "n < 16" | "16 \<le> n" "n < 24" | "24 \<le> n" "n < 32" by (simp; arith)
    then show "bit ?x n \<longleftrightarrow> bit ?y n" by cases (auto simp: bit_simps less_diff_conv2 dest: lt)
  qed
  show ?thesis
    by (simp add: bootfs_file_of_entry_def bootfs_parse_dir_entry_def record_file_def Let_def boot_read_le16_def
        boot_read_le32_def hi le32_bytes)
qed

lemma lookup_file: "map_sum id bootfs_file_of_entry (dir_find name es) = map_sum id record_file (dir_lookup name es)"
  by (simp add: dir_find_def dir_lookup_def file_of_record split: option.split)

text \<open>C15: Opening a path on a readable volume always returns, and it is the reference search of
  the root directory's records, cluster by cluster, for the path's 8.3 name: the file starts at
  the first cluster of the first matching record with that record's size, and no matching
  record before the end mark gives \<open>StatusNotFound\<close>.\<close>

theorem bootfs_open_correct:
  assumes "sector_disk rd ok readable img" and "fs_ok fs" and "linked img fs cs"
    and "chain_readable readable fs cs" and "cs \<noteq> []" and "hd cs = root_cluster (boot_sector fs)"
    and "cluster_valid (hd cs)" and "\<not> cluster_valid (fat_link img fs (last cs))" and "ok d"
    and "bootfs_make_short_name (Some p) = Inr nm"
  shows "\<exists>d'. ok d' \<and> bootfs_open rd d fs (Some p) =
     Some (map_sum id record_file (dir_lookup nm (dir_entries img fs cs)), d')"
  unfolding lookup_file [symmetric] by (rule open_root_ok [OF assms])

lemma demo_name: "bootfs_make_short_name (Some [0x2F, 107, 46, 105]) = Inr [75, 32, 32, 32, 32, 32, 32, 32, 73, 32, 32]"
  by code_simp

theorem bootfs_open_correct_witness:
  "\<exists>d'. True \<and> bootfs_open demo_read () demo_fs (Some [0x2F, 107, 46, 105]) =
     Some (map_sum id record_file
       (dir_lookup [75, 32, 32, 32, 32, 32, 32, 32, 73, 32, 32] (dir_entries demo_img demo_fs [2])), d')"
  by (rule bootfs_open_correct [OF demo_disk demo_facts(1,4,8) _ _ _ _ _ demo_name])
    (simp_all add: demo_facts)

text \<open>A path has a short name exactly when it is a slash, a base of one to eight bytes and
  an optional dot with up to three more, without further slashes or dots; the name is then the
  upper-case base and extension, each padded with blanks to eight and three bytes.\<close>

theorem bootfs_make_short_name_correct:
  assumes "0 \<notin> set p"
  shows "bootfs_make_short_name (Some p) = Inr nm \<longleftrightarrow>
    (\<exists>base ext. is_short_path p base ext \<and> nm = short_name base ext \<and> length nm = 11)"
  using make_short_name_iff [OF assms, of nm] length_short_name by metis

theorem bootfs_make_short_name_correct_witness:
  "bootfs_make_short_name (Some [0x2F, 107, 46, 105]) = Inr [75, 32, 32, 32, 32, 32, 32, 32, 73, 32, 32] \<longleftrightarrow>
   (\<exists>base ext. is_short_path [0x2F, 107, 46, 105] base ext \<and>
      [75, 32, 32, 32, 32, 32, 32, 32, 73, 32, 32] = short_name base ext \<and>
      length [75, 32, 32, 32, 32, 32, 32, 32, 73, 32, 32 :: u8] = 11)"
  by (rule bootfs_make_short_name_correct) simp



text \<open>Whatever the disk holds, a mounted volume has a usable geometry: 512-byte sectors, a
  cluster of at least one sector whose size in bytes does not wrap, and a root cluster past the
  two reserved entries. No later division or cluster address can be by or below zero.\<close>

theorem bootfs_init_geometry:
  assumes "bootfs_init rd d = Some (Inr fs, d')"
  shows "bytes_per_sector (boot_sector fs) = 512 \<and> 2 \<le> root_cluster (boot_sector fs) \<and>
    0 < spc fs \<and> unat (cluster_size fs) = spc fs * 512"
proof -
  obtain part s where s: "bootfs_is_fat32_boot_sector s" "fs = bootfs_of_sector part s"
    using bootfs_init_sector [OF assms] by (elim exE conjE)
  from bootfs_of_sector_ok [OF s(1), of part] show ?thesis
    by (simp add: s(2) [symmetric] spc_pos unat_cluster_size)
qed

definition demo_boot :: "u8 list" where
  "demo_boot = replicate 11 0 @ [0, 2, 1, 1, 0, 1] @ replicate 19 0 @ [1, 0, 0, 0, 0, 0, 0, 0, 2, 0, 0, 0] @
     replicate 34 0 @ fat32_tag @ replicate 423 0 @ [0x55, 0xAA]"

lemma demo_boot_mounts:
  "bootfs_init (\<lambda>d lba. Some (Some demo_boot, d)) () = Some (Inr (bootfs_of_sector 0 demo_boot), ())"
  by code_simp

theorem bootfs_init_geometry_witness:
  "bytes_per_sector (boot_sector (bootfs_of_sector 0 demo_boot)) = 512 \<and>
   2 \<le> root_cluster (boot_sector (bootfs_of_sector 0 demo_boot)) \<and>
   0 < spc (bootfs_of_sector 0 demo_boot) \<and>
   unat (cluster_size (bootfs_of_sector 0 demo_boot)) = spc (bootfs_of_sector 0 demo_boot) * 512"
  by (rule bootfs_init_geometry [OF demo_boot_mounts])

text \<open>Whatever the device and the disk answer, a read that succeeds delivers no more bytes
  than were asked for and no more than the file has left, so it stays in the caller's buffer.\<close>

theorem bootfs_read_bounded:
  assumes "bootfs_read rd d fs f sz = Some (Inr bs, f', d')"
  shows "length bs \<le> unat sz \<and> length bs \<le> unat (file_size f) - unat (file_offset f)"
proof (cases "file_size f \<le> file_offset f")
  case True
  with assms show ?thesis by (simp add: bootfs_read_def)
next
  case False
  with assms read_loop_bounded [of rd fs d f _ "[]" bs f' d'] show ?thesis
    by (force simp: bootfs_read_def Let_def unat_sub word_less_nat_alt word_le_nat_alt split: if_splits)
qed

theorem bootfs_read_bounded_witness:
  "length [1, 1, 1 :: u8] \<le> unat (3 :: u32) \<and>
   length [1, 1, 1 :: u8] \<le> unat (file_size demo_file) - unat (file_offset demo_file)"
proof (rule bootfs_read_bounded)
  show "bootfs_read demo_read () demo_fs demo_file 3 = Some (Inr [1, 1, 1], demo_file\<lparr>file_offset := 3\<rparr>, ())"
    by code_simp
qed

end
