(* ===== verification/Boot_Block.thy ===== *)
theory Boot_Block
  imports Boot_Console Boot_Fat32
begin

text \<open>
  The virtio-blk driver of \<^verbatim>\<open>src/kernel/bootloader/block_device.c\<close> (the \<open>BOARD_VIRT\<close> build).

  The driver's globals are the record \<open>BootBlock\<close>; the queue memory it shares with the device is
  \<open>g_vq\<close>, the linker's addresses of it are a \<open>BlockLayout\<close>. Memory the device writes becomes
  visible to the CPU at the cache invalidations at the head of the polling loop, where the model
  applies the machine's \<open>dma\<close>. Barriers have no state and are left out; every other call of the
  code is there, each cache-line operation included. The polling loop may wait forever when the
  counter frequency reads zero, hence \<open>partial_function (option)\<close>.
\<close>

record BlockLayout =
  desc_at :: u64
  avail_at :: u64
  used_at :: u64
  request_at :: u64
  status_at :: u64

record 'h BootBlock =
  g_vq :: Virtq
  g_last_used_idx :: u16
  g_slot_index :: u32
  g_block_ready :: bool
  hardware :: 'h

section \<open>Diagnostics\<close>

function boot_block_digits :: "u32 \<Rightarrow> u8 list \<Rightarrow> u8 list" where
  "boot_block_digits value digits =
     (if 0 < value then boot_block_digits (value div 10) (digits @ [48 + ucast (value mod 10)])
      else digits)"
  by pat_completeness auto
termination
proof (relation "measure (\<lambda>(value, digits). unat value)", goal_cases)
  case 1
  show ?case by simp
next
  case 2
  then show ?case by (simp add: unat_div word_less_nat_alt)
qed

primrec boot_console_put_all :: "'h machine \<Rightarrow> 'h \<Rightarrow> u8 list \<Rightarrow> 'h option" where
  "boot_console_put_all mc h [] = Some h"
| "boot_console_put_all mc h (c # cs) = do {
     h \<leftarrow> boot_console_putc mc h c;
     boot_console_put_all mc h cs
   }"

definition boot_block_put_u32 :: "'h machine \<Rightarrow> 'h \<Rightarrow> u32 \<Rightarrow> 'h option" where
  "boot_block_put_u32 mc h value =
     (if value = 0 then boot_console_putc mc h 48
      else boot_console_put_all mc h (rev (boot_block_digits value [])))"

definition hex_digit :: "u32 \<Rightarrow> u8" where
  "hex_digit v = ascii ''0123456789abcdef'' ! unat (v AND 0xF)"

definition boot_block_hex_digits :: "u32 \<Rightarrow> u8 list" where
  "boot_block_hex_digits value = map (\<lambda>shift. hex_digit (drop_bit shift value)) [28, 24, 20, 16, 12, 8, 4, 0]"

definition boot_block_put_hex_u32 :: "'h machine \<Rightarrow> 'h \<Rightarrow> u32 \<Rightarrow> 'h option" where
  "boot_block_put_hex_u32 mc h value = do {
     h \<leftarrow> boot_console_puts mc h (ascii ''0x'');
     boot_console_put_all mc h (boot_block_hex_digits value)
   }"

section \<open>Time and caches\<close>

definition boot_block_timeout_ticks :: "'h machine \<Rightarrow> u32 \<Rightarrow> u64" where
  "boot_block_timeout_ticks mc timeout_msec =
     (if cntfrq_el0 mc = 0 \<or> timeout_msec = 0 then 0
      else (cntfrq_el0 mc * ucast timeout_msec + 999) div 1000)"

definition boot_block_cache_line_size :: "'h machine \<Rightarrow> u32" where
  "boot_block_cache_line_size mc = push_bit (unat (drop_bit 16 (ctr_el0 mc) AND 0xF)) 4"

partial_function (option) boot_block_cache_lines ::
  "'h machine \<Rightarrow> cache_op \<Rightarrow> u64 \<Rightarrow> u64 \<Rightarrow> u64 \<Rightarrow> 'h \<Rightarrow> 'h option" where
  "boot_block_cache_lines mc op begin_at end_at line_size h =
     (if begin_at < end_at
      then boot_block_cache_lines mc op (begin_at + line_size) end_at line_size (dc_line mc h op begin_at)
      else Some h)"

definition boot_block_cache_range :: "'h machine \<Rightarrow> cache_op \<Rightarrow> u64 \<Rightarrow> u64 \<Rightarrow> 'h \<Rightarrow> 'h option" where
  "boot_block_cache_range mc op address sz h =
     (if address = 0 \<or> sz = 0 then Some h
      else (let line_size = ucast (boot_block_cache_line_size mc) :: u64;
                begin_at = address AND NOT (line_size - 1);
                end_at = (address + sz + line_size - 1) AND NOT (line_size - 1)
            in boot_block_cache_lines mc op begin_at end_at line_size h))"

definition boot_block_cache_clean_range :: "'h machine \<Rightarrow> u64 \<Rightarrow> u64 \<Rightarrow> 'h \<Rightarrow> 'h option" where
  "boot_block_cache_clean_range mc address sz h = boot_block_cache_range mc DcCvac address sz h"

definition boot_block_cache_invalidate_range :: "'h machine \<Rightarrow> u64 \<Rightarrow> u64 \<Rightarrow> 'h \<Rightarrow> 'h option" where
  "boot_block_cache_invalidate_range mc address sz h = boot_block_cache_range mc DcCivac address sz h"

section \<open>Registers\<close>

definition boot_block_reg :: "u32 \<Rightarrow> u32 \<Rightarrow> u64" where
  "boot_block_reg slot off = 0x0A000000 + ucast slot * 0x200 + ucast off"

definition boot_block_read_reg :: "'h machine \<Rightarrow> 'h BootBlock \<Rightarrow> u32 \<Rightarrow> u32 \<times> 'h BootBlock" where
  "boot_block_read_reg mc b off =
     (case mmio_read mc (hardware b) (boot_block_reg (g_slot_index b) off) of
        (v, h) \<Rightarrow> (v, b\<lparr>hardware := h\<rparr>))"

definition boot_block_write_reg :: "'h machine \<Rightarrow> 'h BootBlock \<Rightarrow> u32 \<Rightarrow> u32 \<Rightarrow> 'h BootBlock" where
  "boot_block_write_reg mc b off value =
     b\<lparr>hardware := mmio_write mc (hardware b) (boot_block_reg (g_slot_index b) off) value\<rparr>"

definition boot_block_write_addr :: "'h machine \<Rightarrow> 'h BootBlock \<Rightarrow> u32 \<Rightarrow> u32 \<Rightarrow> u64 \<Rightarrow> 'h BootBlock" where
  "boot_block_write_addr mc b low_offset high_offset address =
     (let b = boot_block_write_reg mc b low_offset (ucast (address AND 0xFFFFFFFF))
      in boot_block_write_reg mc b high_offset (ucast (drop_bit 32 address)))"

definition boot_block_log_timeout ::
  "'h machine \<Rightarrow> 'h BootBlock \<Rightarrow> u32 \<Rightarrow> u16 \<Rightarrow> u32 \<Rightarrow> 'h BootBlock option" where
  "boot_block_log_timeout mc b sector used_index interrupt_status = do {
     h \<leftarrow> boot_console_puts mc (hardware b) (ascii ''[bootloader] virtio-blk request timed out sector='');
     h \<leftarrow> boot_block_put_u32 mc h sector;
     h \<leftarrow> boot_console_puts mc h (ascii '' used='');
     h \<leftarrow> boot_block_put_u32 mc h (ucast used_index);
     h \<leftarrow> boot_console_puts mc h (ascii '' last='');
     h \<leftarrow> boot_block_put_u32 mc h (ucast (g_last_used_idx b));
     h \<leftarrow> boot_console_puts mc h (ascii '' avail='');
     h \<leftarrow> boot_block_put_u32 mc h (ucast (avail_idx (g_vq b)));
     h \<leftarrow> boot_console_puts mc h (ascii '' status='');
     h \<leftarrow> boot_block_put_hex_u32 mc h (ucast (g_status_byte (g_vq b)));
     h \<leftarrow> boot_console_puts mc h (ascii '' irq='');
     h \<leftarrow> boot_block_put_hex_u32 mc h interrupt_status;
     h \<leftarrow> boot_console_puts mc h (ascii '' slot='');
     h \<leftarrow> boot_block_put_u32 mc h (g_slot_index b);
     h \<leftarrow> boot_console_putc mc h 10;
     Some (b\<lparr>hardware := h\<rparr>)
   }"

section \<open>Finding and starting the device\<close>

function boot_block_find_from :: "'h machine \<Rightarrow> 'h BootBlock \<Rightarrow> u32 \<Rightarrow> Status \<times> 'h BootBlock" where
  "boot_block_find_from mc b slot =
     (let b = b\<lparr>g_slot_index := slot\<rparr> in
      if slot < 32 then
        (case boot_block_read_reg mc b 0x000 of (magic, b) \<Rightarrow>
           if magic \<noteq> 0x74726976 then boot_block_find_from mc b (slot + 1)
           else (case boot_block_read_reg mc b 0x004 of (version, b) \<Rightarrow>
             if version \<noteq> 2 then boot_block_find_from mc b (slot + 1)
             else (case boot_block_read_reg mc b 0x008 of (device, b) \<Rightarrow>
               if device \<noteq> 2 then boot_block_find_from mc b (slot + 1)
               else (StatusOK, b))))
      else (StatusNotFound, b))"
  by pat_completeness auto
termination
proof (relation "measure (\<lambda>(mc, b, slot). 32 - unat slot)")
  show "wf (measure (\<lambda>(mc :: 'a machine, b :: 'a BootBlock, slot :: u32). 32 - unat slot))" by simp
next
  have dec: "slot < 32 \<Longrightarrow> 32 - unat (slot + 1) < 32 - unat slot" for slot :: u32
    using unat_add_one [of slot 32] by (simp add: word_less_nat_alt)
  fix mc :: "'a machine" and b b' b1 :: "'a BootBlock" and slot :: u32
  assume "slot < 32"
  then show "((mc, b1, slot + 1), mc, b', slot) \<in> measure (\<lambda>(mc, b, slot). 32 - unat slot)" using dec by simp
  then show "((mc, b1, slot + 1), mc, b', slot) \<in> measure (\<lambda>(mc, b, slot). 32 - unat slot)" .
  then show "((mc, b1, slot + 1), mc, b', slot) \<in> measure (\<lambda>(mc, b, slot). 32 - unat slot)" .
qed

definition boot_block_find_device :: "'h machine \<Rightarrow> 'h BootBlock \<Rightarrow> Status \<times> 'h BootBlock" where
  "boot_block_find_device mc b = boot_block_find_from mc b 0"

definition blank_virtq :: "Virtq \<Rightarrow> Virtq" where
  "blank_virtq q = q\<lparr>g_desc_table := replicate 8 \<lparr>desc_addr = 0, desc_len = 0, desc_flags = 0, desc_next = 0\<rparr>,
     avail_idx := 0, avail_ring := replicate 8 0, used_idx := 0\<rparr>"

definition boot_block_start_queue :: "'h machine \<Rightarrow> BlockLayout \<Rightarrow> 'h BootBlock \<Rightarrow> u32 \<Rightarrow> Status \<times> 'h BootBlock" where
  "boot_block_start_queue mc lay b status =
     (let b = boot_block_write_reg mc b 0x030 0;
          (queue_max, b) = boot_block_read_reg mc b 0x034
      in if queue_max < 8 then (StatusNoSpace, boot_block_write_reg mc b 0x070 (status OR 0x80))
         else (let b = boot_block_write_reg mc b 0x038 8;
                   b = boot_block_write_addr mc b 0x080 0x084 (desc_at lay);
                   b = boot_block_write_addr mc b 0x090 0x094 (avail_at lay);
                   b = boot_block_write_addr mc b 0x0A0 0x0A4 (used_at lay);
                   b = boot_block_write_reg mc b 0x044 1;
                   b = boot_block_write_reg mc b 0x070 (status OR 0x04)
               in (StatusOK, b\<lparr>g_block_ready := True\<rparr>)))"

definition boot_block_negotiate :: "'h machine \<Rightarrow> BlockLayout \<Rightarrow> 'h BootBlock \<Rightarrow> Status \<times> 'h BootBlock" where
  "boot_block_negotiate mc lay b =
     (let b = boot_block_write_reg mc b 0x070 0;
          status = 0x01;
          b = boot_block_write_reg mc b 0x070 status;
          status = status OR 0x02;
          b = boot_block_write_reg mc b 0x070 status;
          b = boot_block_write_reg mc b 0x014 1;
          (features, b) = boot_block_read_reg mc b 0x010
      in if features AND 1 = 0 then (StatusNotSupported, boot_block_write_reg mc b 0x070 (status OR 0x80))
         else (let b = boot_block_write_reg mc b 0x024 0;
                   b = boot_block_write_reg mc b 0x020 0;
                   b = boot_block_write_reg mc b 0x024 1;
                   b = boot_block_write_reg mc b 0x020 1;
                   status = status OR 0x08;
                   b = boot_block_write_reg mc b 0x070 status;
                   (accepted, b) = boot_block_read_reg mc b 0x070
               in if accepted AND 0x08 = 0
                  then (StatusNotSupported, boot_block_write_reg mc b 0x070 (status OR 0x80))
                  else boot_block_start_queue mc lay b status))"

definition boot_block_init :: "'h machine \<Rightarrow> BlockLayout \<Rightarrow> 'h BootBlock \<Rightarrow> Status \<times> 'h BootBlock" where
  "boot_block_init mc lay b =
     (let b = b\<lparr>g_vq := blank_virtq (g_vq b), g_last_used_idx := 0, g_block_ready := False\<rparr>
      in case boot_block_find_device mc b of
           (st, b) \<Rightarrow>
             if st \<noteq> StatusOK then (StatusNotFound, b)
             else (case boot_block_read_reg mc b 0x00C of
               (vendor, b) \<Rightarrow>
                 if vendor \<noteq> 0x554D4551 then (StatusNotSupported, b)
                 else boot_block_negotiate mc lay b))"

section \<open>Reading sectors\<close>

definition boot_block_prepare :: "BlockLayout \<Rightarrow> u32 \<Rightarrow> u64 \<Rightarrow> Virtq \<Rightarrow> Virtq" where
  "boot_block_prepare lay sector buffer q =
     q\<lparr>g_request := \<lparr>req_type = 0, req_reserved = 0, req_sector = ucast sector\<rparr>,
       g_status_byte := 0xFF,
       g_desc_table := (g_desc_table q)
         [0 := \<lparr>desc_addr = request_at lay, desc_len = 16, desc_flags = 1, desc_next = 1\<rparr>,
          1 := \<lparr>desc_addr = buffer, desc_len = 512, desc_flags = 1 OR 2, desc_next = 2\<rparr>,
          2 := \<lparr>desc_addr = status_at lay, desc_len = 1, desc_flags = 2, desc_next = 0\<rparr>]\<rparr>"

definition boot_block_publish :: "Virtq \<Rightarrow> Virtq" where
  "boot_block_publish q =
     q\<lparr>avail_ring := (avail_ring q)[unat (avail_idx q mod 8) := 0], avail_idx := avail_idx q + 1\<rparr>"

partial_function (option) boot_block_poll ::
  "'h machine \<Rightarrow> BlockLayout \<Rightarrow> u32 \<Rightarrow> u64 \<Rightarrow> u64 \<Rightarrow> u64 \<Rightarrow> 'h BootBlock \<Rightarrow> (Status \<times> 'h BootBlock) option" where
  "boot_block_poll mc lay sector buffer start_ticks timeout_ticks b = do {
     h \<leftarrow> boot_block_cache_invalidate_range mc (used_at lay) 70 (hardware b);
     h \<leftarrow> boot_block_cache_invalidate_range mc (status_at lay) 1 h;
     (case dma mc h (g_vq b) of
        (q, h) \<Rightarrow>
          (let b = b\<lparr>g_vq := q, hardware := h\<rparr>; used_index = used_idx q
           in if used_index \<noteq> g_last_used_idx b then
                (let b = b\<lparr>g_last_used_idx := used_index\<rparr>;
                     (irq, b) = boot_block_read_reg mc b 0x060;
                     b = boot_block_write_reg mc b 0x064 irq
                 in do {
                   h \<leftarrow> boot_block_cache_invalidate_range mc buffer 512 (hardware b);
                   Some (if g_status_byte (g_vq b) = 0 then StatusOK else StatusIoError, b\<lparr>hardware := h\<rparr>)
                 })
              else
                (let (expired, b) =
                       (if timeout_ticks \<noteq> 0
                        then (case cntpct_el0 mc (hardware b) of
                                (now, h) \<Rightarrow> (timeout_ticks \<le> now - start_ticks, b\<lparr>hardware := h\<rparr>))
                        else (False, b))
                 in if expired then
                      (let (irq, b) = boot_block_read_reg mc (b\<lparr>g_block_ready := False\<rparr>) 0x060
                       in do {
                         b \<leftarrow> boot_block_log_timeout mc b sector (used_idx (g_vq b)) irq;
                         Some (StatusBusy, b)
                       })
                    else boot_block_poll mc lay sector buffer start_ticks timeout_ticks b)))
   }"

definition boot_block_submit ::
  "'h machine \<Rightarrow> BlockLayout \<Rightarrow> 'h BootBlock \<Rightarrow> u32 \<Rightarrow> u64 \<Rightarrow> (Status \<times> 'h BootBlock) option" where
  "boot_block_submit mc lay b sector buffer =
     (let (start_ticks, h) = cntpct_el0 mc (hardware b);
          timeout_ticks = boot_block_timeout_ticks mc 1000;
          q = boot_block_prepare lay sector buffer (g_vq b)
      in do {
        h \<leftarrow> boot_block_cache_invalidate_range mc buffer 512 h;
        h \<leftarrow> boot_block_cache_invalidate_range mc (status_at lay) 1 h;
        h \<leftarrow> boot_block_cache_invalidate_range mc (used_at lay) 70 h;
        h \<leftarrow> boot_block_cache_clean_range mc (request_at lay) 16 h;
        h \<leftarrow> boot_block_cache_clean_range mc (desc_at lay) 128 h;
        h \<leftarrow> boot_block_cache_clean_range mc (avail_at lay) 22 h;
        boot_block_poll mc lay sector buffer start_ticks timeout_ticks
          (boot_block_write_reg mc (b\<lparr>g_vq := boot_block_publish q, hardware := h\<rparr>) 0x050 0)
      })"

text \<open>The buffer's content is the list of the sectors read into it so far.\<close>

function boot_block_read_from ::
  "'h machine \<Rightarrow> BlockLayout \<Rightarrow> 'h BootBlock \<Rightarrow> u32 \<Rightarrow> u32 \<Rightarrow> u64 \<Rightarrow> u32 \<Rightarrow> u8 list
     \<Rightarrow> (Status \<times> u8 list \<times> 'h BootBlock) option" where
  "boot_block_read_from mc lay b lba sector_count buffer index bytes =
     (if index < sector_count then do {
        (st, b) \<leftarrow> boot_block_submit mc lay b (lba + index) (buffer + ucast index * 512);
        (if st \<noteq> StatusOK then Some (st, bytes, b)
         else boot_block_read_from mc lay b lba sector_count buffer (index + 1) (bytes @ sector_data (g_vq b)))
      }
      else Some (StatusOK, bytes, b))"
  by pat_completeness auto
termination
proof (relation "measure (\<lambda>(mc, lay, b, lba, sector_count, buffer, index, bytes). unat (sector_count - index))",
    goal_cases)
  case 1
  show ?case by simp
next
  case (2 mc lay b lba sector_count buffer index bytes)
  then have "sector_count \<noteq> index" by auto
  from unat_diff_Suc [OF this] show ?case by simp
qed

definition boot_block_read ::
  "'h machine \<Rightarrow> BlockLayout \<Rightarrow> 'h BootBlock \<Rightarrow> u32 \<Rightarrow> u32 \<Rightarrow> u64
     \<Rightarrow> (Status \<times> u8 list \<times> 'h BootBlock) option" where
  "boot_block_read mc lay b lba sector_count buffer =
     (if \<not> g_block_ready b \<or> buffer = 0 \<or> sector_count = 0 then Some (StatusInvalidArgument, [], b)
      else boot_block_read_from mc lay b lba sector_count buffer 0 [])"

definition boot_block_is_ready :: "'h BootBlock \<Rightarrow> bool" where
  "boot_block_is_ready b = g_block_ready b"

text \<open>The reader the file system driver calls: one sector into its static buffer.\<close>

definition boot_block_reader :: "'h machine \<Rightarrow> BlockLayout \<Rightarrow> u64 \<Rightarrow> 'h BootBlock sector_reader" where
  "boot_block_reader mc lay buffer b lba = do {
     (st, bytes, b) \<leftarrow> boot_block_read mc lay b lba 1 buffer;
     Some (if st = StatusOK then Some bytes else None, b)
   }"

declare boot_block_digits.simps [simp del] boot_block_find_from.simps [simp del]
  boot_block_read_from.simps [simp del]


section \<open>Cache maintenance ends\<close>

lemma cache_line_size_power:
  "\<exists>j. 2 \<le> j \<and> j < 32 \<and> (ucast (boot_block_cache_line_size mc) :: u64) = 2 ^ j"
proof -
  define k where "k = unat (drop_bit 16 (ctr_el0 mc) AND 0xF)"
  have "drop_bit 16 (ctr_el0 mc) AND 0xF = take_bit 4 (drop_bit 16 (ctr_el0 mc))"
    by (simp add: take_bit_eq_mask mask_numeral)
  then have "k = take_bit 4 (unat (drop_bit 16 (ctr_el0 mc)))"
    by (simp add: k_def unsigned_take_bit_eq)
  then have "k < 16" using take_bit_nat_less_exp [of 4] by simp
  then have "k = 0 \<or> k = 1 \<or> k = 2 \<or> k = 3 \<or> k = 4 \<or> k = 5 \<or> k = 6 \<or> k = 7 \<or>
      k = 8 \<or> k = 9 \<or> k = 10 \<or> k = 11 \<or> k = 12 \<or> k = 13 \<or> k = 14 \<or> k = 15" by arith
  then have "(ucast (push_bit k 4 :: u32) :: u64) = 2 ^ (k + 2)" by auto
  with \<open>k < 16\<close> show ?thesis
    by (intro exI [of _ "k + 2"]) (simp add: boot_block_cache_line_size_def k_def)
qed

lemma aligned_down: "2 ^ j dvd unat (a AND NOT (2 ^ j - 1 :: u64))"
proof -
  have "take_bit j (a AND NOT (mask j)) = 0" by (simp add: take_bit_not_mask_eq_0)
  then have "take_bit j (unat (a AND NOT (mask j))) = 0"
    by (metis unsigned_take_bit_eq unsigned_0)
  then show ?thesis by (simp add: take_bit_eq_0_iff mask_eq_exp_minus_1)
qed

lemma cache_lines_ok:
  assumes keep: "\<And>h a. I h \<Longrightarrow> I (dc_line mc h op a)"
    and L: "0 < unat line_size" "unat line_size dvd unat end_at"
    and "unat line_size dvd unat begin_at" "I h"
  shows "\<exists>h'. boot_block_cache_lines mc op begin_at end_at line_size h = Some h' \<and> I h'"
  using assms(4,5)
proof (induction "unat end_at - unat begin_at" arbitrary: begin_at h rule: less_induct)
  case less
  show ?case
  proof (cases "begin_at < end_at")
    case False
    with less.prems show ?thesis by (simp add: boot_block_cache_lines.simps)
  next
    case True
    then have lt: "unat begin_at < unat end_at" by (simp add: word_less_nat_alt)
    then have "unat line_size dvd unat end_at - unat begin_at" using L(2) less.prems(1) by simp
    then have le: "unat begin_at + unat line_size \<le> unat end_at"
      using lt dvd_imp_le [of "unat line_size" "unat end_at - unat begin_at"] by simp
    then have u: "unat (begin_at + line_size) = unat begin_at + unat line_size"
      using unat_u64_less [of end_at] by (simp add: unat_word_ariths)
    have "unat end_at - unat (begin_at + line_size) < unat end_at - unat begin_at"
      "unat line_size dvd unat (begin_at + line_size)" "I (dc_line mc h op begin_at)"
      using lt L le u less.prems keep by simp_all
    from less.hyps [OF this] True show ?thesis by (simp add: boot_block_cache_lines.simps [of mc op begin_at])
  qed
qed

lemma cache_range_ok:
  assumes keep: "\<And>h a. I h \<Longrightarrow> I (dc_line mc h op a)" and "I h"
  shows "\<exists>h'. boot_block_cache_range mc op address sz h = Some h' \<and> I h'"
proof -
  obtain j where j: "j < 32" "(ucast (boot_block_cache_line_size mc) :: u64) = 2 ^ j"
    using cache_line_size_power by blast
  have "(2 :: nat) ^ j < 2 ^ LENGTH(64)" using j(1) by (intro power_strict_increasing) simp_all
  then have u: "unat (2 ^ j :: u64) = 2 ^ j" by (metis of_nat_numeral of_nat_power unat_of_nat_less)
  have "\<exists>h'. boot_block_cache_lines mc op (address AND NOT (2 ^ j - 1))
      ((address + sz + 2 ^ j - 1) AND NOT (2 ^ j - 1)) (2 ^ j) h = Some h' \<and> I h'"
    by (rule cache_lines_ok [where I = I, OF keep]) (simp_all add: u aligned_down \<open>I h\<close>)
  with \<open>I h\<close> j(2) show ?thesis by (simp add: boot_block_cache_range_def Let_def)
qed

section \<open>The contract of a virtio block device\<close>

text \<open>What the driver has put into shared memory when it asks for a sector: the three-link chain of
  header, data buffer and status byte, published in the slot of the available ring before its index.\<close>

definition read_request :: "BlockLayout \<Rightarrow> u64 \<Rightarrow> u32 \<Rightarrow> Virtq \<Rightarrow> bool" where
  "read_request lay buffer sector q \<longleftrightarrow>
     g_request q = \<lparr>req_type = 0, req_reserved = 0, req_sector = ucast sector\<rparr> \<and>
     take 3 (g_desc_table q) =
       [\<lparr>desc_addr = request_at lay, desc_len = 16, desc_flags = 1, desc_next = 1\<rparr>,
        \<lparr>desc_addr = buffer, desc_len = 512, desc_flags = 3, desc_next = 2\<rparr>,
        \<lparr>desc_addr = status_at lay, desc_len = 1, desc_flags = 2, desc_next = 0\<rparr>] \<and>
     avail_ring q ! unat ((avail_idx q - 1) mod 8) = 0 \<and> avail_idx q = used_idx q + 1"

text \<open>
  \<open>ready h\<close>: the device is idle. \<open>started t h\<close>: idle, and the counter was read as \<open>t\<close>.
  \<open>serving k t h\<close>: notified, the answer appears after \<open>k\<close> more polls, in time.
\<close>

locale virtio_block =
  fixes mc :: "'h machine" and lay :: BlockLayout and slot :: u32 and buffer :: u64
    and img :: "u32 \<Rightarrow> u8 list"
    and ready :: "'h \<Rightarrow> bool" and started :: "u64 \<Rightarrow> 'h \<Rightarrow> bool" and serving :: "nat \<Rightarrow> u64 \<Rightarrow> 'h \<Rightarrow> bool"
  assumes buffer: "buffer \<noteq> 0"
    and img_len: "length (img s) = 512"
    and count_start: "ready h \<Longrightarrow> \<exists>t h'. cntpct_el0 mc h = (t, h') \<and> started t h'"
    and started_dc: "started t h \<Longrightarrow> started t (dc_line mc h op a)"
    and notify: "started t h \<Longrightarrow> \<exists>k. serving k t (mmio_write mc h (boot_block_reg slot 0x050) 0)"
    and serving_dc: "serving k t h \<Longrightarrow> serving k t (dc_line mc h op a)"
    and serving_count: "serving k t h \<Longrightarrow> boot_block_timeout_ticks mc 1000 \<noteq> 0 \<Longrightarrow>
        \<exists>t' h'. cntpct_el0 mc h = (t', h') \<and> t' - t < boot_block_timeout_ticks mc 1000 \<and> serving k t h'"
    and dma_wait: "serving (Suc k) t h \<Longrightarrow> \<exists>h'. dma mc h q = (q, h') \<and> serving k t h'"
    and dma_done: "serving 0 t h \<Longrightarrow> read_request lay buf s q \<Longrightarrow>
        \<exists>h'. dma mc h q = (q\<lparr>used_idx := avail_idx q, g_status_byte := 0, sector_data := img s\<rparr>, h') \<and> ready h'"
    and ready_dc: "ready h \<Longrightarrow> ready (dc_line mc h op a)"
    and ready_irq: "ready h \<Longrightarrow> \<exists>v h'. mmio_read mc h (boot_block_reg slot 0x060) = (v, h') \<and> ready h'"
    and ready_ack: "ready h \<Longrightarrow> ready (mmio_write mc h (boot_block_reg slot 0x064) v)"
begin

definition block_ok :: "'h BootBlock \<Rightarrow> bool" where
  "block_ok b \<longleftrightarrow> g_block_ready b \<and> g_slot_index b = slot \<and> ready (hardware b) \<and>
     length (g_desc_table (g_vq b)) = 8 \<and> length (avail_ring (g_vq b)) = 8 \<and>
     used_idx (g_vq b) = g_last_used_idx b \<and> avail_idx (g_vq b) = g_last_used_idx b"

definition asking :: "u64 \<Rightarrow> u32 \<Rightarrow> 'h BootBlock \<Rightarrow> bool" where
  "asking buf s b \<longleftrightarrow> g_block_ready b \<and> g_slot_index b = slot \<and> read_request lay buf s (g_vq b) \<and>
     length (g_desc_table (g_vq b)) = 8 \<and> length (avail_ring (g_vq b)) = 8 \<and>
     used_idx (g_vq b) = g_last_used_idx b"

lemma invalidate_ok:
  assumes "\<And>h a. I h \<Longrightarrow> I (dc_line mc h DcCivac a)" and "I h"
  shows "\<exists>h'. boot_block_cache_invalidate_range mc address sz h = Some h' \<and> I h'"
  unfolding boot_block_cache_invalidate_range_def by (rule cache_range_ok) (use assms in auto)

lemma clean_ok:
  assumes "\<And>h a. I h \<Longrightarrow> I (dc_line mc h DcCvac a)" and "I h"
  shows "\<exists>h'. boot_block_cache_clean_range mc address sz h = Some h' \<and> I h'"
  unfolding boot_block_cache_clean_range_def by (rule cache_range_ok) (use assms in auto)

lemma poll_ok:
  assumes "serving k t (hardware b)" and "asking buf s b"
  shows "\<exists>b'. boot_block_poll mc lay s buf t (boot_block_timeout_ticks mc 1000) b = Some (StatusOK, b') \<and>
    block_ok b' \<and> sector_data (g_vq b') = img s"
  using assms
proof (induction k arbitrary: b)
  case 0
  obtain h1 where h1: "boot_block_cache_invalidate_range mc (used_at lay) 70 (hardware b) = Some h1" "serving 0 t h1"
    using invalidate_ok [OF serving_dc 0(1)] by blast
  obtain h2 where h2: "boot_block_cache_invalidate_range mc (status_at lay) 1 h1 = Some h2" "serving 0 t h2"
    using invalidate_ok [OF serving_dc h1(2)] by blast
  have rq: "read_request lay buf s (g_vq b)" using 0 by (simp add: asking_def)
  then have ne: "avail_idx (g_vq b) \<noteq> g_last_used_idx b" using 0(2) by (simp add: asking_def read_request_def)
  obtain h3 where h3: "dma mc h2 (g_vq b) =
      ((g_vq b)\<lparr>used_idx := avail_idx (g_vq b), g_status_byte := 0, sector_data := img s\<rparr>, h3)" "ready h3"
    using dma_done [OF h2(2) rq] by blast
  obtain v h4 where h4: "mmio_read mc h3 (boot_block_reg slot 0x060) = (v, h4)" "ready h4"
    using ready_irq [OF h3(2)] by blast
  obtain h5 where h5: "boot_block_cache_invalidate_range mc buf 512
      (mmio_write mc h4 (boot_block_reg slot 0x064) v) = Some h5" "ready h5"
    using invalidate_ok [OF ready_dc ready_ack [OF h4(2)]] by blast
  show ?case
    using 0(2) h1 h2 h3 h4 h5 ne
    by (simp add: boot_block_poll.simps [of mc] asking_def block_ok_def boot_block_read_reg_def
        boot_block_write_reg_def Let_def)
next
  case (Suc k)
  obtain h1 where h1: "boot_block_cache_invalidate_range mc (used_at lay) 70 (hardware b) = Some h1" "serving (Suc k) t h1"
    using invalidate_ok [OF serving_dc Suc.prems(1)] by blast
  obtain h2 where h2: "boot_block_cache_invalidate_range mc (status_at lay) 1 h1 = Some h2" "serving (Suc k) t h2"
    using invalidate_ok [OF serving_dc h1(2)] by blast
  obtain h3 where h3: "dma mc h2 (g_vq b) = (g_vq b, h3)" "serving k t h3"
    using dma_wait [OF h2(2)] by blast
  show ?case
  proof (cases "boot_block_timeout_ticks mc 1000 = 0")
    case True
    have "boot_block_poll mc lay s buf t 0 b = boot_block_poll mc lay s buf t 0 (b\<lparr>hardware := h3\<rparr>)"
      using h1 h2 h3 Suc.prems(2)
      by (simp add: boot_block_poll.simps [of mc lay s buf t 0 b] asking_def Let_def)
    with Suc.IH [of "b\<lparr>hardware := h3\<rparr>"] h3(2) Suc.prems(2) True show ?thesis by (simp add: asking_def)
  next
    case False
    then obtain t' h4 where h4: "cntpct_el0 mc h3 = (t', h4)" "t' - t < boot_block_timeout_ticks mc 1000"
      "serving k t h4" using serving_count [OF h3(2)] by blast
    from h4(2) have "\<not> boot_block_timeout_ticks mc 1000 \<le> t' - t" by (simp only: not_le)
    note h4 = h4(1,3) this
    have "boot_block_poll mc lay s buf t (boot_block_timeout_ticks mc 1000) b =
        boot_block_poll mc lay s buf t (boot_block_timeout_ticks mc 1000) (b\<lparr>hardware := h4\<rparr>)"
      using h1 h2 h3 h4 Suc.prems(2) False
      by (simp add: boot_block_poll.simps [of mc lay s buf t "boot_block_timeout_ticks mc 1000" b] asking_def Let_def)
    with Suc.IH [of "b\<lparr>hardware := h4\<rparr>"] h4(2) Suc.prems(2) show ?thesis by (simp add: asking_def)
  qed
qed

lemma prepare_publish_request:
  assumes "length (g_desc_table q) = 8" "length (avail_ring q) = 8" "used_idx q = avail_idx q"
  shows "read_request lay buf s (boot_block_publish (boot_block_prepare lay s buf q))"
proof -
  have "unat (avail_idx q mod 8) < 8" by (simp add: unat_mod)
  moreover obtain d0 d1 d2 ds where "g_desc_table q = d0 # d1 # d2 # ds"
    using assms(1) by (auto simp: length_Suc_conv numeral_eq_Suc)
  ultimately show ?thesis using assms
    by (simp add: read_request_def boot_block_publish_def boot_block_prepare_def numeral_eq_Suc)
qed

lemma submit_ok:
  assumes "block_ok b"
  shows "\<exists>b'. boot_block_submit mc lay b s buf = Some (StatusOK, b') \<and> block_ok b' \<and> sector_data (g_vq b') = img s"
proof -
  obtain t h0 where h0: "cntpct_el0 mc (hardware b) = (t, h0)" "started t h0"
    using count_start [of "hardware b"] assms unfolding block_ok_def by blast
  obtain h1 where h1: "boot_block_cache_invalidate_range mc buf 512 h0 = Some h1" "started t h1"
    using invalidate_ok [OF started_dc h0(2)] by blast
  obtain h2 where h2: "boot_block_cache_invalidate_range mc (status_at lay) 1 h1 = Some h2" "started t h2"
    using invalidate_ok [OF started_dc h1(2)] by blast
  obtain h3 where h3: "boot_block_cache_invalidate_range mc (used_at lay) 70 h2 = Some h3" "started t h3"
    using invalidate_ok [OF started_dc h2(2)] by blast
  obtain h4 where h4: "boot_block_cache_clean_range mc (request_at lay) 16 h3 = Some h4" "started t h4"
    using clean_ok [OF started_dc h3(2)] by blast
  obtain h5 where h5: "boot_block_cache_clean_range mc (desc_at lay) 128 h4 = Some h5" "started t h5"
    using clean_ok [OF started_dc h4(2)] by blast
  obtain h6 where h6: "boot_block_cache_clean_range mc (avail_at lay) 22 h5 = Some h6" "started t h6"
    using clean_ok [OF started_dc h5(2)] by blast
  obtain k where k: "serving k t (mmio_write mc h6 (boot_block_reg slot 0x050) 0)"
    using notify [OF h6(2)] by blast
  let ?b = "boot_block_write_reg mc (b\<lparr>g_vq := boot_block_publish (boot_block_prepare lay s buf (g_vq b)),
      hardware := h6\<rparr>) 0x050 0"
  have "asking buf s ?b"
    using assms prepare_publish_request [of "g_vq b" buf s]
    by (simp add: asking_def block_ok_def boot_block_write_reg_def)
      (simp add: boot_block_publish_def boot_block_prepare_def)
  moreover have "serving k t (hardware ?b)"
    using k assms by (simp add: boot_block_write_reg_def block_ok_def)
  moreover have "boot_block_submit mc lay b s buf =
      boot_block_poll mc lay s buf t (boot_block_timeout_ticks mc 1000) ?b"
    using h0 h1 h2 h3 h4 h5 h6 by (simp add: boot_block_submit_def Let_def)
  ultimately show ?thesis using poll_ok by simp
qed

lemma read_from_ok:
  assumes "block_ok b" and "index \<le> n"
  shows "\<exists>b'. boot_block_read_from mc lay b lba n buf index bytes =
      Some (StatusOK, bytes @ concat (map (\<lambda>i. img (lba + of_nat i)) [unat index..<unat n]), b') \<and> block_ok b'"
  using assms
proof (induction "unat n - unat index" arbitrary: b index bytes)
  case 0
  then have "index = n" by (simp add: word_le_nat_alt word_unat_eq_iff)
  with 0 show ?case by (simp add: boot_block_read_from.simps)
next
  case (Suc k)
  then have lt: "index < n" by (simp add: word_less_nat_alt)
  then have u: "unat (index + 1) = Suc (unat index)" by (rule unat_add_one)
  obtain b1 where b1: "boot_block_submit mc lay b (lba + index) (buf + ucast index * 512) = Some (StatusOK, b1)"
    "block_ok b1" "sector_data (g_vq b1) = img (lba + index)"
    using submit_ok [OF Suc.prems(1)] by blast
  have "k = unat n - unat (index + 1)" "index + 1 \<le> n" using Suc.hyps(2) u lt by (simp_all add: word_le_nat_alt word_less_nat_alt)
  note IH = Suc.hyps(1) [OF this(1) b1(2) this(2)]
  have "[unat index..<unat n] = unat index # [unat (index + 1)..<unat n]"
    using lt u by (simp add: upt_conv_Cons word_less_nat_alt)
  moreover have "of_nat (unat index) = index" by (metis of_nat_unat ucast_id)
  ultimately show ?case using IH [of "bytes @ img (lba + index)"] b1 lt
    by (simp add: boot_block_read_from.simps [of mc lay b])
qed

lemma read_ok_sectors:
  assumes "block_ok b" and "buf \<noteq> 0" and "n \<noteq> 0"
  shows "\<exists>b'. boot_block_read mc lay b lba n buf =
      Some (StatusOK, concat (map (\<lambda>i. img (lba + of_nat i)) [0..<unat n]), b') \<and> block_ok b'"
  using read_from_ok [OF assms(1), of 0 n lba buf "[]"] assms
  by (simp add: boot_block_read_def block_ok_def)

lemma reader_ok:
  assumes "block_ok b"
  shows "\<exists>b'. boot_block_reader mc lay buffer b lba = Some (Some (img lba), b') \<and> block_ok b'"
proof -
  obtain b' where "boot_block_submit mc lay b lba buffer = Some (StatusOK, b')" "block_ok b'"
    "sector_data (g_vq b') = img lba"
    using submit_ok [OF assms, of lba] by blast
  moreover have "g_block_ready b" using assms by (simp add: block_ok_def)
  ultimately show ?thesis
    by (simp add: boot_block_reader_def boot_block_read_def boot_block_read_from.simps buffer)
qed

end

sublocale virtio_block \<subseteq> disk: sector_disk "boot_block_reader mc lay buffer" block_ok "\<lambda>_. True" img
  by unfold_locales (use reader_ok img_len in auto)

section \<open>A machine with a virtio disk\<close>

text \<open>A device that answers after two polls from a fixed image, and a transmitter that is full for
  one poll after each byte; the state is the pending poll count, the transmitter's, and the line.\<close>

record sim =
  sim_pending :: nat
  sim_tx :: nat
  sim_line :: "u8 list"

definition sim_machine :: "sim machine" where
  "sim_machine =
     \<lparr>mmio_read = (\<lambda>h a. if a = UART0_FR then (if sim_tx h = 0 then (0, h) else (0x20, h\<lparr>sim_tx := sim_tx h - 1\<rparr>)) else (0, h)),
      mmio_write = (\<lambda>h a v. if a = UART0_DR then h\<lparr>sim_tx := 1, sim_line := sim_line h @ [ucast v]\<rparr>
                          else if a = 0x0A000050 then h\<lparr>sim_pending := 2\<rparr> else h),
      cntpct_el0 = (\<lambda>h. (0, h)), cntfrq_el0 = 62500000, ctr_el0 = 0x00040000,
      dc_line = (\<lambda>h op a. h),
      dma = (\<lambda>h q. if sim_pending h = 0
               then (q\<lparr>used_idx := avail_idx q, g_status_byte := 0,
                       sector_data := demo_img (ucast (req_sector (g_request q)))\<rparr>, h)
               else (q, h\<lparr>sim_pending := sim_pending h - 1\<rparr>))\<rparr>"

definition sim_layout :: BlockLayout where
  "sim_layout = \<lparr>desc_at = 0x40001000, avail_at = 0x40002000, used_at = 0x40003000, request_at = 0x40004000,
     status_at = 0x40004010\<rparr>"

lemma ucast_ucast_u8 [simp]: "ucast (ucast (x :: u8) :: u32) = x"
  by (rule bit_word_eqI) (simp add: bit_unsigned_iff)

lemma ucast_ucast_u32 [simp]: "ucast (ucast (x :: u32) :: u64) = x"
  by (rule bit_word_eqI) (simp add: bit_unsigned_iff)

interpretation sim_uart: uart sim_machine "\<lambda>k h. sim_tx h = k" sim_line
  by unfold_locales (auto simp: sim_machine_def)

interpretation sim_blk: virtio_block sim_machine sim_layout 0 "0x40005000" demo_img "\<lambda>_. True" "\<lambda>t _. t = 0"
  "\<lambda>k t h. t = 0 \<and> sim_pending h = k"
proof unfold_locales
  show "length (demo_img s) = 512" for s by (simp add: demo_img_def demo_fat_def demo_root_def)
  show "\<exists>h'. dma sim_machine h q = (q\<lparr>used_idx := avail_idx q, g_status_byte := 0, sector_data := demo_img s\<rparr>, h') \<and> True"
    if "t = 0 \<and> sim_pending h = 0" "read_request sim_layout buf s q" for t :: u64 and h buf s q
    using that by (auto simp: sim_machine_def read_request_def)
  have "boot_block_timeout_ticks sim_machine 1000 = 62500000"
    by (simp add: boot_block_timeout_ticks_def sim_machine_def)
  then show "\<exists>t' h'. cntpct_el0 sim_machine h = (t', h') \<and>
      t' - t < boot_block_timeout_ticks sim_machine 1000 \<and> t = 0 \<and> sim_pending h' = k"
    if "t = 0 \<and> sim_pending h = k" for k t h
    using that by (simp add: sim_machine_def)
qed (auto simp: sim_machine_def boot_block_reg_def)

section \<open>Readiness\<close>

lemma log_timeout_keeps: "boot_block_log_timeout mc b s u i = Some b' \<Longrightarrow> g_block_ready b' = g_block_ready b"
  by (auto simp: boot_block_log_timeout_def bind_eq_Some_conv)

lemma read_write_reg_ready [simp]:
  "g_block_ready (snd (boot_block_read_reg mc b off)) = g_block_ready b"
  "g_block_ready (boot_block_write_reg mc b off v) = g_block_ready b"
  "g_block_ready (boot_block_write_addr mc b lo hi w) = g_block_ready b"
  by (simp_all add: boot_block_read_reg_def boot_block_write_reg_def boot_block_write_addr_def Let_def split: prod.split)

lemma read_reg_ready: "boot_block_read_reg mc x off = (v, y) \<Longrightarrow> g_block_ready y = g_block_ready x"
  using read_write_reg_ready(1) [of mc x off] by simp

lemma find_from_ready: "g_block_ready (snd (boot_block_find_from mc b slot)) = g_block_ready b"
proof (induction mc b slot rule: boot_block_find_from.induct)
  case (1 mc b slot)
  show ?case
    using 1 by (auto simp: boot_block_find_from.simps [of mc b slot] Let_def dest!: read_reg_ready split: prod.splits)
qed

lemma init_ready_iff:
  "g_block_ready (snd (boot_block_init mc lay b)) \<longleftrightarrow> fst (boot_block_init mc lay b) = StatusOK"
proof -
  let ?b0 = "b\<lparr>g_vq := blank_virtq (g_vq b), g_last_used_idx := 0, g_block_ready := False\<rparr>"
  have start: "\<not> g_block_ready x \<Longrightarrow> g_block_ready (snd (boot_block_start_queue mc lay x st)) \<longleftrightarrow>
      fst (boot_block_start_queue mc lay x st) = StatusOK" for x st
    by (auto simp: boot_block_start_queue_def Let_def read_reg_ready split: prod.split)
  have neg: "\<not> g_block_ready x \<Longrightarrow> g_block_ready (snd (boot_block_negotiate mc lay x)) \<longleftrightarrow>
      fst (boot_block_negotiate mc lay x) = StatusOK" for x
    by (auto simp: boot_block_negotiate_def Let_def read_reg_ready start split: prod.split)
  obtain st b1 where f: "boot_block_find_device mc ?b0 = (st, b1)" by (metis surj_pair)
  then have "\<not> g_block_ready b1"
    using find_from_ready [of mc ?b0 0] by (simp add: boot_block_find_device_def)
  then show ?thesis
    by (auto simp: boot_block_init_def Let_def f read_reg_ready neg split: prod.split)
qed

lemma poll_busy_not_ready:
  "boot_block_poll mc lay s buf t n b = Some r \<Longrightarrow> fst r = StatusBusy \<longrightarrow> \<not> g_block_ready (snd r)"
proof (erule boot_block_poll.raw_induct [rotated], goal_cases)
  case (1 poll mc lay s buf t n b r)
  obtain h1 where h1: "boot_block_cache_invalidate_range mc (used_at lay) 70 (hardware b) = Some h1"
    using 1(2) by (cases "boot_block_cache_invalidate_range mc (used_at lay) 70 (hardware b)") auto
  obtain h2 where h2: "boot_block_cache_invalidate_range mc (status_at lay) 1 h1 = Some h2"
    using 1(2) h1 by (cases "boot_block_cache_invalidate_range mc (status_at lay) 1 h1") auto
  obtain q h3 where q: "dma mc h2 (g_vq b) = (q, h3)" by (metis surj_pair)
  let ?b = "b\<lparr>g_vq := q, hardware := h3\<rparr>"
  obtain irq b1 where b1: "boot_block_read_reg mc (?b\<lparr>g_last_used_idx := used_idx q\<rparr>) 0x060 = (irq, b1)"
    by (metis surj_pair)
  obtain now h4 where h4: "cntpct_el0 mc h3 = (now, h4)" by (metis surj_pair)
  obtain irq2 b2 where b2: "boot_block_read_reg mc (b\<lparr>g_vq := q, hardware := h4, g_block_ready := False\<rparr>) 0x060 = (irq2, b2)"
    by (metis surj_pair)
  show ?case
  proof (cases "used_idx q = g_last_used_idx b")
    case False
    with 1(2) h1 h2 q b1 show ?thesis by (auto simp: Let_def bind_eq_Some_conv split: if_splits)
  next
    case True
    have "\<not> g_block_ready b2" using read_reg_ready [OF b2] by simp
    with True 1(2) h1 h2 q h4 b2 show ?thesis
      by (auto simp: Let_def bind_eq_Some_conv dest: 1(1) log_timeout_keeps read_reg_ready split: if_splits)
  qed
qed

section \<open>Decimal output\<close>

definition decimal_value :: "u8 list \<Rightarrow> nat" where
  "decimal_value ds = foldl (\<lambda>a d. a * 10 + (unat d - 48)) 0 ds"

lemma digits_append: "boot_block_digits v ds = ds @ boot_block_digits v []"
proof (induction "unat v" arbitrary: v ds rule: less_induct)
  case less
  show ?case
  proof (cases "0 < v")
    case False
    then show ?thesis by (simp add: boot_block_digits.simps)
  next
    case True
    then have "unat (v div 10) < unat v" by (simp add: unat_div word_less_nat_alt)
    from less.hyps [OF this, of "ds @ [48 + ucast (v mod 10)]"] less.hyps [OF this, of "[48 + ucast (v mod 10)]"] True
    show ?thesis by (simp add: boot_block_digits.simps [of v ds] boot_block_digits.simps [of v "[]"])
  qed
qed

lemma unat_digit: "unat (48 + ucast (v mod 10) :: u8) = 48 + unat (v :: u32) mod 10"
proof -
  have "unat v mod 10 < 10" by simp
  then have "unat (ucast (v mod 10) :: u8) = unat v mod 10"
    by (simp add: unsigned_ucast_eq take_bit_nat_eq_self unat_mod)
  then show ?thesis using \<open>unat v mod 10 < 10\<close> by (simp add: unat_word_ariths)
qed

lemma decimal_digits: "decimal_value (rev (boot_block_digits v [])) = unat v"
proof (induction "unat v" arbitrary: v rule: less_induct)
  case less
  show ?case
  proof (cases "v = 0")
    case True
    then show ?thesis by (simp add: boot_block_digits.simps decimal_value_def)
  next
    case False
    then have v: "0 < v" by (simp add: word_gt_0)
    have "unat (v div 10) < unat v" using v by (simp add: unat_div word_less_nat_alt)
    note IH = less.hyps [OF this]
    have "boot_block_digits v [] = (48 + ucast (v mod 10)) # boot_block_digits (v div 10) []"
      using v digits_append [of "v div 10" "[48 + ucast (v mod 10)]"]
      by (simp add: boot_block_digits.simps [of v "[]"])
    with IH show ?thesis by (simp add: decimal_value_def unat_digit unat_div)
  qed
qed

context uart
begin

lemma put_all_ok:
  "usable h \<Longrightarrow> \<exists>h'. boot_console_put_all mc h cs = Some h' \<and> usable h' \<and> sent h' = sent h @ concat (map line_bytes cs)"
proof (induction cs arbitrary: h)
  case Nil
  then show ?case by simp
next
  case (Cons c cs)
  from putc_ok [OF Cons.prems, of c] obtain h1 where
    "boot_console_putc mc h c = Some h1" "usable h1" "sent h1 = sent h @ line_bytes c" by blast
  with Cons.IH [of h1] show ?case by auto
qed

end

lemma digits_no_newline:
  assumes "d \<in> set (boot_block_digits v [])"
  shows "48 \<le> unat d \<and> unat d < 58"
  using assms
proof (induction "unat v" arbitrary: v rule: less_induct)
  case less
  then have v: "0 < v" by (cases "0 < v") (simp_all add: boot_block_digits.simps)
  then have lt: "unat (v div 10) < unat v" by (simp add: unat_div word_less_nat_alt)
  have "boot_block_digits v [] = (48 + ucast (v mod 10)) # boot_block_digits (v div 10) []"
    using v digits_append [of "v div 10" "[48 + ucast (v mod 10)]"]
    by (simp add: boot_block_digits.simps [of v "[]"])
  with less.prems less.hyps [OF lt] show ?case by (auto simp: unat_digit)
qed

lemma line_bytes_digits:
  assumes "\<And>d. d \<in> set ds \<Longrightarrow> 48 \<le> unat d"
  shows "concat (map line_bytes ds) = ds"
proof -
  have "d \<in> set ds \<Longrightarrow> line_bytes d = [d]" for d
    using assms [of d] by (auto simp: line_bytes_def)
  then show ?thesis by (induction ds) auto
qed

section \<open>Properties\<close>


definition sim_block :: "sim BootBlock" where
  "sim_block = \<lparr>g_vq = blank_virtq \<lparr>g_desc_table = [], avail_idx = 0, avail_ring = [], used_idx = 0,
       g_request = \<lparr>req_type = 0, req_reserved = 0, req_sector = 0\<rparr>, g_status_byte = 0, sector_data = []\<rparr>,
     g_last_used_idx = 0, g_slot_index = 0, g_block_ready = True,
     hardware = \<lparr>sim_pending = 0, sim_tx = 0, sim_line = []\<rparr>\<rparr>"

lemma sim_block_ok: "virtio_block.block_ok 0 (\<lambda>_. True) sim_block"
  by (simp add: sim_blk.block_ok_def sim_block_def blank_virtq_def)


text \<open>A request that times out makes the driver unusable: whatever the device did, a
  \<open>StatusBusy\<close> answer leaves the ready flag down, and every later read is refused without
  touching the device.\<close>

theorem boot_block_timeout_disables:
  assumes "boot_block_submit mc lay b sector buf = Some (StatusBusy, b')"
  shows "\<not> boot_block_is_ready b' \<and> boot_block_read mc lay b' lba n buf' = Some (StatusInvalidArgument, [], b')"
proof -
  obtain t h where t: "cntpct_el0 mc (hardware b) = (t, h)" by (metis surj_pair)
  from assms obtain b0 where "boot_block_poll mc lay sector buf t (boot_block_timeout_ticks mc 1000) b0 = Some (StatusBusy, b')"
    by (auto simp: boot_block_submit_def Let_def t bind_eq_Some_conv)
  from poll_busy_not_ready [OF this] show ?thesis
    by (simp add: boot_block_is_ready_def boot_block_read_def)
qed

text \<open>A machine whose device never answers and whose clock jumps past the deadline.\<close>

definition dead_machine :: "sim machine" where
  "dead_machine = sim_machine\<lparr>dma := (\<lambda>h q. (q, h)),
     cntpct_el0 := (\<lambda>h. (of_nat (sim_pending h) * 100000000, h\<lparr>sim_pending := Suc (sim_pending h)\<rparr>)),
     mmio_read := (\<lambda>h a. (0, h)), mmio_write := (\<lambda>h a v. h)\<rparr>"

lemma dead_cache: "\<exists>h'. boot_block_cache_range dead_machine op a n h = Some h' \<and> h' = h"
  by (rule cache_range_ok) (simp_all add: dead_machine_def sim_machine_def)

lemma dead_output:
  "uart_send dead_machine h c = Some h" "boot_console_putc dead_machine h c = Some h"
  "boot_console_puts dead_machine h cs = Some h" "boot_console_put_all dead_machine h cs = Some h"
  "boot_block_put_u32 dead_machine h v = Some h" "boot_block_put_hex_u32 dead_machine h v = Some h"
proof -
  show send: "uart_send dead_machine h c = Some h" for h c
    by (simp add: uart_send_def uart_wait.simps dead_machine_def)
  show putc: "boot_console_putc dead_machine h c = Some h" for h c
    by (simp add: boot_console_putc_def send)
  show puts: "boot_console_puts dead_machine h cs = Some h" for cs
    by (induction cs) (simp_all add: putc)
  show all: "boot_console_put_all dead_machine h cs = Some h" for cs
    by (induction cs) (simp_all add: putc)
  show "boot_block_put_u32 dead_machine h v = Some h" "boot_block_put_hex_u32 dead_machine h v = Some h"
    by (simp_all add: boot_block_put_u32_def boot_block_put_hex_u32_def putc all puts)
qed

lemma dead_submit:
  "\<exists>b'. boot_block_submit dead_machine sim_layout sim_block 3 0x40005000 = Some (StatusBusy, b')"
proof -
  have c: "boot_block_cache_range dead_machine op a n h = Some h" for op a n h
    using dead_cache by blast
  have t: "boot_block_timeout_ticks dead_machine 1000 = 62500000"
    by (simp add: boot_block_timeout_ticks_def dead_machine_def sim_machine_def)
  have m: "dma dead_machine h q = (q, h)" "mmio_read dead_machine h a = (0, h)" "mmio_write dead_machine h a w = h"
    "cntpct_el0 dead_machine h = (of_nat (sim_pending h) * 100000000, h\<lparr>sim_pending := Suc (sim_pending h)\<rparr>)" for h q a w
    by (simp_all add: dead_machine_def)
  show ?thesis
    by (simp add: boot_block_submit_def Let_def c t m boot_block_cache_clean_range_def
        boot_block_cache_invalidate_range_def boot_block_poll.simps boot_block_write_reg_def
        boot_block_read_reg_def sim_block_def boot_block_publish_def boot_block_prepare_def blank_virtq_def
        boot_block_log_timeout_def dead_output)
qed

theorem boot_block_timeout_disables_witness:
  "\<exists>b'. boot_block_submit dead_machine sim_layout sim_block 3 0x40005000 = Some (StatusBusy, b') \<and>
     \<not> boot_block_is_ready b' \<and> boot_block_read dead_machine sim_layout b' 0 1 1 = Some (StatusInvalidArgument, [], b')"
  using dead_submit boot_block_timeout_disables by blast

text \<open>Starting the block device reports success exactly when it leaves the driver ready; every
  failed probe, feature negotiation or queue set-up leaves it not ready.\<close>

theorem boot_block_init_ready:
  "boot_block_is_ready (snd (boot_block_init mc lay b)) \<longleftrightarrow> fst (boot_block_init mc lay b) = StatusOK"
  unfolding boot_block_is_ready_def by (rule init_ready_iff)

text \<open>On a transmitter that becomes free after finitely many polls, printing a number ends,
  and what goes over the line are the decimal digits of that number.\<close>

theorem boot_block_put_u32_prints:
  assumes "uart mc busy sent" and "uart.usable busy h"
  shows "\<exists>h' ds. boot_block_put_u32 mc h v = Some h' \<and> uart.usable busy h' \<and> sent h' = sent h @ ds \<and>
    decimal_value ds = unat v \<and> (\<forall>d \<in> set ds. 48 \<le> unat d \<and> unat d < 58)"
proof (cases "v = 0")
  case True
  with uart.putc_ok [OF assms, of 48] show ?thesis
    by (auto simp: boot_block_put_u32_def line_bytes_def decimal_value_def)
next
  case False
  let ?ds = "rev (boot_block_digits v [])"
  have "concat (map line_bytes ?ds) = ?ds"
    using digits_no_newline by (intro line_bytes_digits) auto
  with uart.put_all_ok [OF assms, of ?ds] False digits_no_newline decimal_digits [of v] show ?thesis
    by (auto simp: boot_block_put_u32_def)
qed

theorem boot_block_put_u32_prints_witness:
  "\<exists>h' ds. boot_block_put_u32 sim_machine \<lparr>sim_pending = 0, sim_tx = 1, sim_line = []\<rparr> 1234 = Some h' \<and>
    uart.usable (\<lambda>k h. sim_tx h = k) h' \<and>
    sim_line h' = sim_line \<lparr>sim_pending = 0, sim_tx = 1, sim_line = []\<rparr> @ ds \<and>
    decimal_value ds = unat (1234 :: u32) \<and> (\<forall>d \<in> set ds. 48 \<le> unat d \<and> unat d < 58)"
  by (rule boot_block_put_u32_prints [OF sim_uart.uart_axioms]) (simp add: sim_uart.usable_def)

end
