(* ===== verification/Boot_Image.thy ===== *)
theory Boot_Image
  imports Boot_Fat32
begin

text \<open>
  The kernel image loader of \<^verbatim>\<open>src/kernel/bootloader/main.c\<close>: header validation
  (\<open>boot_validate_header\<close>) and the copy of the payload to its load address
  (\<open>boot_copy_kernel\<close>), over the header layout of \<^verbatim>\<open>kernel_format.h\<close>.

  Physical memory is a byte map; the staging buffer \<open>g_copy_buffer\<close> is the byte list that
  \<open>bootfs_read\<close> returns. The copy loop is a \<open>partial_function (option)\<close>: \<open>None\<close> is a loop
  that never ends, which a header with a wrapping payload range can provoke.
\<close>

record KernelImageHeader =
  magic :: "u8 list"
  version :: u32
  header_size :: u32
  machine :: u32
  flags :: u32
  load_address :: u64
  image_base :: u64
  entry_point :: u64
  payload_offset :: u64
  payload_size :: u64
  memory_size :: u64
  alignment :: u64

record BootTarget =
  board_name :: "u8 list"
  kernel_path :: "u8 list"
  load_phys_base :: u64

definition boot_read_le64 :: "u8 list \<Rightarrow> nat \<Rightarrow> u64" where
  "boot_read_le64 bytes off =
     ucast (boot_read_le32 bytes off) OR push_bit 32 (ucast (boot_read_le32 bytes (off + 4)))"

text \<open>The packed struct the 80 header bytes are read into.\<close>

definition header_of_bytes :: "u8 list \<Rightarrow> KernelImageHeader" where
  "header_of_bytes b =
     \<lparr>magic = take 8 b, version = boot_read_le32 b 8, header_size = boot_read_le32 b 12,
      machine = boot_read_le32 b 16, flags = boot_read_le32 b 20, load_address = boot_read_le64 b 24,
      image_base = boot_read_le64 b 32, entry_point = boot_read_le64 b 40,
      payload_offset = boot_read_le64 b 48, payload_size = boot_read_le64 b 56,
      memory_size = boot_read_le64 b 64, alignment = boot_read_le64 b 72\<rparr>"

definition boot_header_magic_valid :: "KernelImageHeader \<Rightarrow> bool" where
  "boot_header_magic_valid header \<longleftrightarrow>
     magic header ! 0 = 75 \<and> magic header ! 1 = 69 \<and> magic header ! 2 = 82 \<and> magic header ! 3 = 78 \<and>
     magic header ! 4 = 69 \<and> magic header ! 5 = 76 \<and> magic header ! 6 = 0 \<and> magic header ! 7 = 0"

definition boot_validate_header :: "BootTarget \<Rightarrow> KernelImageHeader \<Rightarrow> u32 \<Rightarrow> Status" where
  "boot_validate_header target header fsize =
     (if \<not> boot_header_magic_valid header then StatusFault
      else if version header \<noteq> 1 \<or> machine header \<noteq> 183 then StatusNotSupported
      else if header_size header < 80 \<or> payload_offset header < ucast (header_size header) then StatusFault
      else if memory_size header < payload_size header then StatusFault
      else if ucast fsize < payload_offset header + payload_size header then StatusFault
      else if memory_size header = 0 \<or> load_address header AND 0xFFF \<noteq> 0 then StatusFault
      else if load_address header \<noteq> load_phys_base target then StatusFault
      else (let image_end = load_address header + memory_size header
            in if image_end < load_address header \<or> entry_point header < image_base header \<or>
                  image_base header + memory_size header \<le> entry_point header
               then StatusFault else StatusOK))"

partial_function (option) boot_copy_loop ::
  "'d sector_reader \<Rightarrow> BootFs \<Rightarrow> KernelImageHeader \<Rightarrow> 'd \<Rightarrow> BootFsFile \<Rightarrow> mem \<Rightarrow> u64
     \<Rightarrow> (Status \<times> BootFsFile \<times> 'd \<times> mem) option" where
  "boot_copy_loop rd fs header d f m copied =
     (if copied < payload_size header then
        (let left = ucast (payload_size header - copied) :: u32;
             chunk = (if 4096 < left then 4096 else left)
         in do {
           (r, f, d) \<leftarrow> bootfs_read rd d fs f chunk;
           (case r of
              Inl e \<Rightarrow> Some (StatusIoError, f, d, m)
            | Inr bs \<Rightarrow>
                (if length bs \<noteq> unat chunk then Some (StatusIoError, f, d, m)
                 else boot_copy_loop rd fs header d f
                        (memcopy m (load_address header + copied) bs) (copied + ucast chunk)))
         })
      else Some (StatusOK, f, d, m))"

definition boot_copy_kernel ::
  "'d sector_reader \<Rightarrow> BootFs \<Rightarrow> 'd \<Rightarrow> BootFsFile \<Rightarrow> KernelImageHeader \<Rightarrow> mem
     \<Rightarrow> (Status \<times> BootFsFile \<times> 'd \<times> mem) option" where
  "boot_copy_kernel rd fs d f header m =
     (case bootfs_seek f (ucast (payload_offset header)) of
        (st, f) \<Rightarrow>
          (if st \<noteq> StatusOK then Some (StatusIoError, f, d, m)
           else do {
             (st, f, d, m) \<leftarrow> boot_copy_loop rd fs header d f m 0;
             Some (if st \<noteq> StatusOK then (st, f, d, m)
                   else (StatusOK, f, d,
                     (if payload_size header < memory_size header
                      then memzero m (load_address header + payload_size header)
                             (unat (memory_size header - payload_size header))
                      else m)))
           }))"


section \<open>Header validation\<close>

lemma no_wrap_iff:
  fixes a b :: u64
  shows "a \<le> a + b \<longleftrightarrow> unat a + unat b < 2 ^ 64"
proof -
  have "unat a + unat b < 2 ^ 64 \<longleftrightarrow> unat (a + b) = unat a + unat b"
    using unat_u64_less [of "a + b"] by (auto simp: unat_word_ariths)
  moreover have "a \<le> a + b \<longleftrightarrow> unat (a + b) = unat a + unat b"
    using unat_u64_less [of a] unat_u64_less [of b]
    by (auto simp: word_le_nat_alt unat_word_ariths mod_if)
  ultimately show ?thesis by simp
qed

lemma boot_validate_header_OK:
  assumes "boot_validate_header target h fsize = StatusOK"
  shows "boot_header_magic_valid h" "version h = 1" "machine h = 183"
    "load_address h = load_phys_base target" "load_address h AND 0xFFF = 0"
    "80 \<le> header_size h" "ucast (header_size h) \<le> payload_offset h"
    "payload_size h \<le> memory_size h" "0 < memory_size h"
    "payload_offset h + payload_size h \<le> ucast fsize"
    "load_address h \<le> load_address h + memory_size h"
    "image_base h \<le> entry_point h" "entry_point h < image_base h + memory_size h"
  using assms
  by (simp_all add: boot_validate_header_def Let_def not_less not_le word_gt_0 split: if_splits)

section \<open>Copying the payload\<close>

context sector_disk
begin

lemma copy_loop_ok:
  assumes fs: "fs_ok fs" "linked img fs cs" "chain_readable readable fs cs"
    and P: "unat (payload_size h) < 2 ^ 32"
    and "ok d" "file_on fs cs f" "copied \<le> payload_size h"
    and "unat (file_offset f) + (unat (payload_size h) - unat copied) \<le> unat (file_size f)"
  shows "\<exists>d' f'. boot_copy_loop rd fs h d f m copied =
      Some (StatusOK, f', d', memcopy m (load_address h + copied)
        (take (unat (payload_size h) - unat copied) (drop (unat (file_offset f)) (chain_bytes img fs cs)))) \<and>
      ok d' \<and> file_on fs cs f'"
  using assms(5-)
proof (induction "unat (payload_size h) - unat copied" arbitrary: d f m copied rule: less_induct)
  case less
  let ?C = "chain_bytes img fs cs" and ?o = "unat (file_offset f)"
  show ?case
  proof (cases "copied < payload_size h")
    case False
    then have "unat (payload_size h) - unat copied = 0" by (simp add: word_less_nat_alt)
    with False less.prems show ?thesis by (simp add: boot_copy_loop.simps)
  next
    case True
    define left where "left = (ucast (payload_size h - copied) :: u32)"
    define chunk where "chunk = (if 4096 < left then 4096 else left)"
    have d: "unat (payload_size h - copied) = unat (payload_size h) - unat copied"
      using True by (simp add: unat_sub)
    then have lu: "unat left = unat (payload_size h) - unat copied"
      using P by (simp add: left_def unsigned_ucast_eq take_bit_nat_eq_self)
    have pos: "0 < unat left" using True lu by (simp add: word_less_nat_alt)
    then have c: "0 < unat chunk" "unat chunk \<le> unat left"
      by (auto simp: chunk_def word_less_nat_alt)
    obtain f1 d1 where rdf: "bootfs_read rd d fs f chunk = Some (Inr (take (unat chunk) (drop ?o ?C)), f1, d1)"
      and st: "ok d1" "file_on fs cs f1" "file_size f1 = file_size f" "unat (file_offset f1) = ?o + unat chunk"
      using read_ok_bytes [OF fs less.prems(1,2), of chunk] less.prems(4) c lu by (auto simp: min_def)
    have len: "length (take (unat chunk) (drop ?o ?C)) = unat chunk"
      using less.prems(2,4) c lu length_chain_bytes [of img fs cs, OF img_length]
      by (auto simp: file_on_def min_def)
    have cc: "unat (copied + ucast chunk) = unat copied + unat chunk"
      using c lu unat_u64_less [of "payload_size h"] unat_u32_less [of chunk]
      by (simp add: unat_word_ariths unsigned_ucast_eq take_bit_nat_eq_self)
    have "unat (payload_size h) - unat (copied + ucast chunk) < unat (payload_size h) - unat copied"
      "copied + ucast chunk \<le> payload_size h"
      "unat (file_offset f1) + (unat (payload_size h) - unat (copied + ucast chunk)) \<le> unat (file_size f1)"
      using c lu cc st less.prems(4) by (simp_all add: word_le_nat_alt)
    note IH = less.hyps [OF this(1) st(1,2) this(2,3)]
    have split: "take (unat (payload_size h) - unat copied) (drop ?o ?C) = take (unat chunk) (drop ?o ?C) @
        take (unat (payload_size h) - unat (copied + ucast chunk)) (drop (unat (file_offset f1)) ?C)"
      using c lu take_add [of "unat chunk" "unat left - unat chunk" "drop ?o ?C"]
      by (simp add: cc st(4) add.commute)
    have "boot_copy_loop rd fs h d f m copied = boot_copy_loop rd fs h d1 f1
        (memcopy m (load_address h + copied) (take (unat chunk) (drop ?o ?C))) (copied + ucast chunk)"
      using True rdf len by (simp add: boot_copy_loop.simps [of rd fs h d] Let_def left_def [symmetric]
        chunk_def [symmetric])
    moreover have "memcopy m (load_address h + copied) (take (unat chunk) (drop ?o ?C) @ ys) =
        memcopy (memcopy m (load_address h + copied) (take (unat chunk) (drop ?o ?C)))
          (load_address h + (copied + ucast chunk)) ys" for ys
      unfolding memcopy_append len by (simp add: add.assoc)
    ultimately show ?thesis using IH unfolding split by simp
  qed
qed

end

lemma file_on_seek:
  assumes "file_on fs cs f" and "off \<le> file_size f"
  shows "\<exists>f'. bootfs_seek f off = (StatusOK, f') \<and> file_on fs cs f' \<and> file_offset f' = off \<and> file_size f' = file_size f"
  using assms by (auto simp: bootfs_seek_def file_on_def Let_def hd_conv_nth)

text \<open>The memory image the header describes: the payload, then zeros.\<close>

definition load_image :: "KernelImageHeader \<Rightarrow> u8 list \<Rightarrow> u8 list" where
  "load_image h content =
     take (unat (payload_size h)) (drop (unat (payload_offset h)) content) @
     replicate (unat (memory_size h) - unat (payload_size h)) 0"

lemma load_image_store:
  assumes "payload_size h \<le> memory_size h"
    and "length bs = unat (payload_size h)"
  shows "(if payload_size h < memory_size h
          then memzero (memcopy m (load_address h) bs) (load_address h + payload_size h)
                 (unat (memory_size h - payload_size h))
          else memcopy m (load_address h) bs) =
         memcopy m (load_address h) (bs @ replicate (unat (memory_size h) - unat (payload_size h)) 0)"
proof -
  have "of_nat (length bs) = payload_size h" using assms(2) by (metis of_nat_unat ucast_id)
  with assms show ?thesis
    by (auto simp: memcopy_append memzero_eq_memcopy unat_sub word_less_nat_alt word_le_nat_alt)
qed

lemma copy_kernel_ok:
  assumes disk: "sector_disk rd ok readable img" and fs: "fs_ok fs" "linked img fs cs"
    "chain_readable readable fs cs" and "ok d" and f: "file_on fs cs f"
    and v: "boot_validate_header target h (file_size f) = StatusOK"
    and wrap: "unat (payload_offset h) + unat (payload_size h) < 2 ^ 64"
  shows "\<exists>f' d' m'. boot_copy_kernel rd fs d f h m = Some (StatusOK, f', d', m') \<and> ok d' \<and>
    mem_bytes m' (load_address h) (unat (memory_size h)) = load_image h (chain_bytes img fs cs) \<and>
    (\<forall>a. unat (memory_size h) \<le> unat (a - load_address h) \<longrightarrow> m' a = m a)"
proof -
  note hdr = boot_validate_header_OK [OF v]
  have sum: "unat (payload_offset h) + unat (payload_size h) \<le> unat (file_size f)"
    using hdr(10) wrap unat_u32_less [of "file_size f"]
    by (simp add: word_le_nat_alt unat_word_ariths unsigned_ucast_eq take_bit_nat_eq_self)
  define off where "off = (ucast (payload_offset h) :: u32)"
  have uo: "unat off = unat (payload_offset h)"
    using sum unat_u32_less [of "file_size f"] by (simp add: off_def unsigned_ucast_eq take_bit_nat_eq_self)
  obtain f1 where f1: "bootfs_seek f off = (StatusOK, f1)" "file_on fs cs f1" "file_offset f1 = off"
    "file_size f1 = file_size f"
    using file_on_seek [OF f, of off] sum by (auto simp: uo word_le_nat_alt)
  let ?bs = "take (unat (payload_size h)) (drop (unat (payload_offset h)) (chain_bytes img fs cs))"
  have P: "unat (payload_size h) < 2 ^ 32" using sum unat_u32_less [of "file_size f"] by simp
  obtain d' f' where loop: "boot_copy_loop rd fs h d f1 m 0 = Some (StatusOK, f', d', memcopy m (load_address h) ?bs)"
    and d': "ok d'"
    using sector_disk.copy_loop_ok [OF disk fs P \<open>ok d\<close> f1(2), of 0 m] sum f1 uo by auto
  have len: "length ?bs = unat (payload_size h)"
    using f sum uo length_chain_bytes [of img fs cs, OF sector_disk.img_length [OF disk]]
    by (auto simp: file_on_def min_def)
  let ?img = "load_image h (chain_bytes img fs cs)"
  have ilen: "length ?img = unat (memory_size h)"
    using len hdr(8) by (simp add: load_image_def word_le_nat_alt)
  have "boot_copy_kernel rd fs d f h m = Some (StatusOK, f', d', memcopy m (load_address h) ?img)"
    using f1(1) loop load_image_store [OF hdr(8) len, of m]
    by (simp add: boot_copy_kernel_def off_def [symmetric] load_image_def)
  moreover have "mem_bytes (memcopy m (load_address h) ?img) (load_address h) (unat (memory_size h)) = ?img"
    using mem_bytes_memcopy [of ?img m "load_address h"] ilen unat_u64_less [of "memory_size h"] by simp
  moreover have "\<forall>a. unat (memory_size h) \<le> unat (a - load_address h) \<longrightarrow>
      memcopy m (load_address h) ?img a = m a"
    using ilen unat_u64_less [of "memory_size h"] by (simp add: memcopy_apply)
  ultimately show ?thesis using d' by blast
qed

section \<open>Properties\<close>

text \<open>C17: When the header validates and its payload range does not wrap, copying the kernel
  returns \<open>StatusOK\<close> and memory holds, at the load address, exactly the payload bytes of the
  file followed by zeros up to the memory size; no other byte of memory changes.\<close>

theorem boot_copy_kernel_correct:
  assumes "sector_disk rd ok readable img" and "fs_ok fs" "linked img fs cs"
    "chain_readable readable fs cs" and "ok d" and "file_on fs cs f"
    and "boot_validate_header target h (file_size f) = StatusOK"
    and "unat (payload_offset h) + unat (payload_size h) < 2 ^ 64"
  shows "\<exists>f' d' m'. boot_copy_kernel rd fs d f h m = Some (StatusOK, f', d', m') \<and> ok d' \<and>
    mem_bytes m' (load_address h) (unat (memory_size h)) = load_image h (chain_bytes img fs cs) \<and>
    (\<forall>a. unat (memory_size h) \<le> unat (a - load_address h) \<longrightarrow> m' a = m a)"
  using copy_kernel_ok [OF assms] .

definition demo_target :: BootTarget where
  "demo_target = \<lparr>board_name = [118], kernel_path = [47, 107], load_phys_base = 0x40100000\<rparr>"

definition demo_header :: KernelImageHeader where
  "demo_header = \<lparr>magic = [75, 69, 82, 78, 69, 76, 0, 0], version = 1, header_size = 80, machine = 183, flags = 0,
     load_address = 0x40100000, image_base = 0xFFFF000040100000, entry_point = 0xFFFF000040100000,
     payload_offset = 80, payload_size = 520, memory_size = 4096, alignment = 4096\<rparr>"

lemma demo_header_valid: "boot_validate_header demo_target demo_header (file_size demo_file) = StatusOK"
  by code_simp

theorem boot_copy_kernel_correct_witness:
  "\<exists>f' d' m'. boot_copy_kernel demo_read demo_fs () demo_file demo_header (\<lambda>_. 7) =
     Some (StatusOK, f', d', m') \<and> True \<and>
    mem_bytes m' (load_address demo_header) (unat (memory_size demo_header)) =
      load_image demo_header (chain_bytes demo_img demo_fs [3, 4]) \<and>
    (\<forall>a. unat (memory_size demo_header) \<le> unat (a - load_address demo_header) \<longrightarrow> m' a = 7)"
  by (rule boot_copy_kernel_correct [OF demo_disk demo_facts(1,3,8) _ demo_facts(7) demo_header_valid])
    (simp_all add: demo_header_def)

text \<open>What validation guarantees: the image is loaded page-aligned at the board's load base,
  neither the physical nor the virtual range wraps, the payload fits the memory size and the
  entry point lies inside the image.\<close>

theorem boot_validate_header_sound:
  assumes "boot_validate_header target h fsize = StatusOK"
  shows "load_address h = load_phys_base target \<and> load_address h AND 0xFFF = 0 \<and>
    unat (load_address h) + unat (memory_size h) < 2 ^ 64 \<and>
    unat (payload_size h) \<le> unat (memory_size h) \<and>
    unat (image_base h) \<le> unat (entry_point h) \<and>
    unat (entry_point h) < unat (image_base h) + unat (memory_size h) \<and>
    unat (image_base h) + unat (memory_size h) < 2 ^ 64"
proof -
  note hdr = boot_validate_header_OK [OF assms]
  have "image_base h \<le> image_base h + memory_size h"
    using hdr(12,13) by (metis le_less_trans less_imp_le)
  then have nw: "unat (image_base h) + unat (memory_size h) < 2 ^ 64" by (simp only: no_wrap_iff)
  then have "unat (entry_point h) < unat (image_base h) + unat (memory_size h)"
    using hdr(13) by (simp add: word_less_nat_alt unat_word_ariths)
  moreover have "unat (load_address h) + unat (memory_size h) < 2 ^ 64" using hdr(11) by (simp only: no_wrap_iff)
  ultimately show ?thesis using nw hdr(4,5,8,12) unfolding word_le_nat_alt by blast
qed

theorem boot_validate_header_sound_witness:
  "load_address demo_header = load_phys_base demo_target \<and> load_address demo_header AND 0xFFF = 0 \<and>
    unat (load_address demo_header) + unat (memory_size demo_header) < 2 ^ 64 \<and>
    unat (payload_size demo_header) \<le> unat (memory_size demo_header) \<and>
    unat (image_base demo_header) \<le> unat (entry_point demo_header) \<and>
    unat (entry_point demo_header) < unat (image_base demo_header) + unat (memory_size demo_header) \<and>
    unat (image_base demo_header) + unat (memory_size demo_header) < 2 ^ 64"
  by (rule boot_validate_header_sound [OF demo_header_valid])

text \<open>The end of the payload is computed in 64 bits without an overflow check. A header whose
  payload is 4 GiB at an offset just below the top validates; the first chunk is then the low
  half of the payload size, zero, and the copy loop makes no progress.\<close>

definition wrap_header :: KernelImageHeader where
  "wrap_header = demo_header\<lparr>payload_offset := 0xFFFFFFFF00000060, payload_size := 0x100000000,
     memory_size := 0x100000000\<rparr>"

lemma wrap_header_facts:
  "boot_header_magic_valid wrap_header" "version wrap_header = 1" "machine wrap_header = 183"
  "\<not> header_size wrap_header < 80" "\<not> payload_offset wrap_header < ucast (header_size wrap_header)"
  "\<not> memory_size wrap_header < payload_size wrap_header" "payload_offset wrap_header + payload_size wrap_header = 96"
  "memory_size wrap_header \<noteq> 0" "load_address wrap_header AND 0xFFF = 0"
  "load_address wrap_header = load_phys_base demo_target"
  "\<not> load_address wrap_header + memory_size wrap_header < load_address wrap_header"
  "\<not> entry_point wrap_header < image_base wrap_header"
  "\<not> image_base wrap_header + memory_size wrap_header \<le> entry_point wrap_header"
  "ucast (payload_size wrap_header) = (0 :: u32)" "0 < payload_size wrap_header"
  by code_simp+

lemma copy_loop_some:
  "boot_copy_loop rd fs h d f m copied = Some y \<Longrightarrow> \<not> (copied = 0 \<and> h = wrap_header)"
proof (erule boot_copy_loop.raw_induct [rotated])
  fix loop :: "'a sector_reader \<Rightarrow> _" and rd :: "'a sector_reader" and fs h d f m copied y
  assume IH: "\<And>rd fs h d f m copied y. loop rd fs h d f m copied = Some y \<Longrightarrow> \<not> (copied = 0 \<and> h = wrap_header)"
    and step: "(if copied < payload_size h then
        (let left = ucast (payload_size h - copied) :: u32;
             chunk = (if 4096 < left then 4096 else left)
         in do {
           (r, f, d) \<leftarrow> bootfs_read rd d fs f chunk;
           (case r of
              Inl e \<Rightarrow> Some (StatusIoError, f, d, m)
            | Inr bs \<Rightarrow>
                (if length bs \<noteq> unat chunk then Some (StatusIoError, f, d, m)
                 else loop rd fs h d f (memcopy m (load_address h + copied) bs) (copied + ucast chunk)))
         })
      else Some (StatusOK, f, d, m)) = Some y"
  obtain f1 where "bootfs_read rd d fs f 0 = Some (Inr [], f1, d)"
    by (auto simp: bootfs_read_def bootfs_read_loop.simps)
  with step have "loop rd fs wrap_header d f1 m 0 = Some y" if "copied = 0 \<and> h = wrap_header"
    using that by (simp add: wrap_header_facts Let_def)
  with IH show "\<not> (copied = 0 \<and> h = wrap_header)" by blast
qed

lemma copy_loop_stuck: "boot_copy_loop rd fs wrap_header d f m 0 = None"
  using copy_loop_some [of rd fs wrap_header d f m 0] by (cases "boot_copy_loop rd fs wrap_header d f m 0") auto

text \<open>Header validation does not rule out a payload range that wraps past 2^64: such a header
  is accepted for every file of at least 96 bytes, and the copy of the kernel then never returns.\<close>

theorem boot_copy_kernel_wrap_hangs:
  assumes "0x60 \<le> file_size f"
  shows "boot_validate_header demo_target wrap_header (file_size f) = StatusOK \<and>
    boot_copy_kernel rd fs d f wrap_header m = None"
proof -
  have "(96 :: u64) \<le> ucast (file_size f)"
    using assms unat_u32_less [of "file_size f"]
    by (simp add: word_le_nat_alt unsigned_ucast_eq take_bit_nat_eq_self)
  then have "\<not> ucast (file_size f) < payload_offset wrap_header + payload_size wrap_header"
    unfolding wrap_header_facts(7) by (simp add: not_less)
  then have "boot_validate_header demo_target wrap_header (file_size f) = StatusOK"
    unfolding boot_validate_header_def Let_def
    using wrap_header_facts(1-6,8-13) by (simp only: if_False if_True simp_thms)
  moreover obtain f1 where "bootfs_seek f 0x60 = (StatusOK, f1)"
    using assms by (simp add: bootfs_seek_def Let_def not_less)
  moreover have "ucast (payload_offset wrap_header) = (0x60 :: u32)"
    by (simp add: wrap_header_def)
  ultimately show ?thesis by (simp add: boot_copy_kernel_def copy_loop_stuck)
qed

theorem boot_copy_kernel_wrap_hangs_witness:
  "boot_validate_header demo_target wrap_header (file_size demo_file) = StatusOK \<and>
    boot_copy_kernel demo_read demo_fs () demo_file wrap_header (\<lambda>_. 0) = None"
  by (rule boot_copy_kernel_wrap_hangs) (simp add: demo_file_def)

end
