(* ===== verification/Boot_Mmu.thy ===== *)
theory Boot_Mmu
  imports Prelude
begin

unbundle bit_operations_syntax

text \<open>
  The bootloader's translation tables, \<^verbatim>\<open>src/kernel/bootloader/arch/aarch64/mmu.c\<close>, with the
  descriptor constants of \<^verbatim>\<open>mmu_defs.h\<close> and the board windows of \<^verbatim>\<open>boot_mmu_board.h\<close>.

  The six static tables are lists of 512 descriptors, their addresses (chosen by the linker) a
  record; the system registers the code writes are the other fields of the result. The
  architecture's table walk for the 4 KiB granule is written down as the specification: the
  theorems say what the MMU does with these tables.
\<close>

section \<open>Descriptors\<close>

definition AARCH64_MMU_DEVICE_FLAGS :: u64 where
  "AARCH64_MMU_DEVICE_FLAGS = push_bit 2 0 OR push_bit 6 0 OR push_bit 53 1 OR push_bit 54 1 OR push_bit 8 2 OR push_bit 10 1"

definition AARCH64_MMU_KERNEL_CODE_FLAGS :: u64 where
  "AARCH64_MMU_KERNEL_CODE_FLAGS = push_bit 2 1 OR push_bit 6 0 OR push_bit 54 1 OR push_bit 8 3 OR push_bit 10 1"

definition AARCH64_MMU_MAIR_VALUE :: u64 where
  "AARCH64_MMU_MAIR_VALUE = push_bit 0 0x04 OR push_bit 8 0xFF OR push_bit 16 0x44"

definition aarch64_mmu_tcr_value :: u64 where
  "aarch64_mmu_tcr_value =
     16 OR push_bit 16 16 OR push_bit 8 1 OR push_bit 10 1 OR push_bit 12 3 OR push_bit 14 0 OR push_bit 30 2 OR
     push_bit 16 (push_bit 8 1) OR push_bit 16 (push_bit 10 1) OR push_bit 16 (push_bit 12 3)"

definition aarch64_mmu_level_index :: "u64 \<Rightarrow> nat \<Rightarrow> u64" where
  "aarch64_mmu_level_index address shift = drop_bit shift address AND 0x1FF"

definition make_table_descriptor :: "u64 \<Rightarrow> u64" where
  "make_table_descriptor table = table OR 0x3"

definition make_block_descriptor :: "u64 \<Rightarrow> u64 \<Rightarrow> u64" where
  "make_block_descriptor phys fl = phys OR fl OR 0x1"

section \<open>Building the tables\<close>

record BootMmuBoard =
  device_base :: u64
  device_limit :: u64
  extra_ram_base :: u64

definition board_virt :: BootMmuBoard where
  "board_virt = \<lparr>device_base = 0x08000000, device_limit = 0x10000000, extra_ram_base = 0x40000000\<rparr>"

definition board_raspi3 :: BootMmuBoard where
  "board_raspi3 = \<lparr>device_base = 0x3F000000, device_limit = 0x40000000, extra_ram_base = 0\<rparr>"

record BootMmuTables =
  g_boot_ttbr0_l0 :: u64
  g_boot_ttbr0_l1 :: u64
  g_boot_ttbr0_l2 :: u64
  g_boot_ttbr1_l0 :: u64
  g_boot_ttbr1_l1 :: u64
  g_boot_ttbr1_l2 :: u64

record BootMmu =
  ttbr0_l0 :: "u64 list"
  ttbr0_l1 :: "u64 list"
  ttbr0_l2 :: "u64 list"
  ttbr1_l0 :: "u64 list"
  ttbr1_l1 :: "u64 list"
  ttbr1_l2 :: "u64 list"
  ttbr0_el1 :: u64
  ttbr1_el1 :: u64
  mair_el1 :: u64
  tcr_el1 :: u64
  sctlr_el1 :: u64

definition block_flags :: "BootMmuBoard \<Rightarrow> u64 \<Rightarrow> u64" where
  "block_flags board phys =
     (if device_base board \<le> phys \<and> phys < device_limit board
      then AARCH64_MMU_DEVICE_FLAGS else AARCH64_MMU_KERNEL_CODE_FLAGS)"

definition map_low_gib :: "BootMmuBoard \<Rightarrow> u64 list" where
  "map_low_gib board =
     map (\<lambda>index. let phys = push_bit 21 (of_nat index) in make_block_descriptor phys (block_flags board phys))
       [0..<512]"

definition boot_l1_table :: "BootMmuBoard \<Rightarrow> u64 \<Rightarrow> u64 list" where
  "boot_l1_table board l2 =
     (let l1 = (replicate 512 0)[0 := make_table_descriptor l2]
      in if extra_ram_base board \<noteq> 0
         then l1[1 := make_block_descriptor (extra_ram_base board) AARCH64_MMU_KERNEL_CODE_FLAGS]
         else l1)"

definition boot_enable_mmu :: "BootMmuBoard \<Rightarrow> BootMmuTables \<Rightarrow> u64 \<Rightarrow> BootMmu" where
  "boot_enable_mmu board tb sctlr =
     \<lparr>ttbr0_l0 = (replicate 512 0)[0 := make_table_descriptor (g_boot_ttbr0_l1 tb)],
      ttbr0_l1 = boot_l1_table board (g_boot_ttbr0_l2 tb),
      ttbr0_l2 = map_low_gib board,
      ttbr1_l0 = (replicate 512 0)[0 := make_table_descriptor (g_boot_ttbr1_l1 tb)],
      ttbr1_l1 = boot_l1_table board (g_boot_ttbr1_l2 tb),
      ttbr1_l2 = map_low_gib board,
      ttbr0_el1 = g_boot_ttbr0_l0 tb,
      ttbr1_el1 = g_boot_ttbr1_l0 tb,
      mair_el1 = AARCH64_MMU_MAIR_VALUE,
      tcr_el1 = aarch64_mmu_tcr_value,
      sctlr_el1 = sctlr OR push_bit 0 1 OR push_bit 2 1 OR push_bit 12 1\<rparr>"

section \<open>The architecture's table walk\<close>

text \<open>Four-level walk with a 4 KiB granule, down to a level 1 or level 2 block: the descriptor's
  low bits say invalid, block or table; the result is the output address and the descriptor.
  \<open>mem\<close> gives the table at an address.\<close>

definition walk :: "(u64 \<Rightarrow> u64 list option) \<Rightarrow> u64 \<Rightarrow> u64 \<Rightarrow> (u64 \<times> u64) option" where
  "walk tables root va =
     (case tables root of None \<Rightarrow> None | Some t0 \<Rightarrow>
      let d0 = t0 ! unat (aarch64_mmu_level_index va 39) in
      if d0 AND 3 \<noteq> 3 then None else
      (case tables (d0 AND 0x0000FFFFFFFFF000) of None \<Rightarrow> None | Some t1 \<Rightarrow>
       let d1 = t1 ! unat (aarch64_mmu_level_index va 30) in
       if d1 AND 3 = 1 then Some ((d1 AND 0x0000FFFFC0000000) OR (va AND 0x3FFFFFFF), d1)
       else if d1 AND 3 \<noteq> 3 then None else
       (case tables (d1 AND 0x0000FFFFFFFFF000) of None \<Rightarrow> None | Some t2 \<Rightarrow>
        let d2 = t2 ! unat (aarch64_mmu_level_index va 21) in
        if d2 AND 3 = 1 then Some ((d2 AND 0x0000FFFFFFE00000) OR (va AND 0x1FFFFF), d2) else None)))"

text \<open>Where the tables lie: six different 4 KiB aligned pages of the 48-bit physical space.\<close>

definition tables_placed :: "BootMmuTables \<Rightarrow> bool" where
  "tables_placed tb \<longleftrightarrow>
     (let as = [g_boot_ttbr0_l0 tb, g_boot_ttbr0_l1 tb, g_boot_ttbr0_l2 tb,
                g_boot_ttbr1_l0 tb, g_boot_ttbr1_l1 tb, g_boot_ttbr1_l2 tb]
      in distinct as \<and> list_all (\<lambda>a. a AND 0x0000FFFFFFFFF000 = a) as)"

definition table_memory :: "BootMmuTables \<Rightarrow> BootMmu \<Rightarrow> u64 \<Rightarrow> u64 list option" where
  "table_memory tb m =
     [g_boot_ttbr0_l0 tb \<mapsto> ttbr0_l0 m, g_boot_ttbr0_l1 tb \<mapsto> ttbr0_l1 m, g_boot_ttbr0_l2 tb \<mapsto> ttbr0_l2 m,
      g_boot_ttbr1_l0 tb \<mapsto> ttbr1_l0 m, g_boot_ttbr1_l1 tb \<mapsto> ttbr1_l1 m, g_boot_ttbr1_l2 tb \<mapsto> ttbr1_l2 m]"


section \<open>Descriptor fields\<close>

lemma and_mask_low: "(x :: u64) AND 0x1FF = take_bit 9 x" "x AND 0x1FFFFF = take_bit 21 x"
  "x AND 0x3FFFFFFF = take_bit 30 x" "x AND 3 = take_bit 2 x"
  by (simp_all add: take_bit_eq_mask mask_numeral)

lemma flags_fields:
  "fl \<in> {AARCH64_MMU_DEVICE_FLAGS, AARCH64_MMU_KERNEL_CODE_FLAGS} \<Longrightarrow>
   fl AND 0x0000FFFFFFE00000 = 0 \<and> fl AND 0x0000FFFFC0000000 = 0 \<and> fl AND 3 = 0"
  by (auto simp: AARCH64_MMU_DEVICE_FLAGS_def AARCH64_MMU_KERNEL_CODE_FLAGS_def)

lemma block_flags_in: "block_flags board phys \<in> {AARCH64_MMU_DEVICE_FLAGS, AARCH64_MMU_KERNEL_CODE_FLAGS}"
  by (simp add: block_flags_def)

lemma shifted_index:
  assumes "i < 512"
  shows "push_bit 21 (of_nat i :: u64) AND 0x0000FFFFFFE00000 = push_bit 21 (of_nat i)"
    and "push_bit 21 (of_nat i :: u64) AND 3 = 0"
proof -
  have "of_nat i AND mask 27 = (of_nat i :: u64)"
    using assms by (simp add: take_bit_eq_mask [symmetric] take_bit_of_nat take_bit_nat_eq_self)
  then have "push_bit 21 (of_nat i :: u64) AND push_bit 21 (mask 27) = push_bit 21 (of_nat i)"
    by (simp only: push_bit_and [symmetric])
  then show "push_bit 21 (of_nat i :: u64) AND 0x0000FFFFFFE00000 = push_bit 21 (of_nat i)"
    by (simp add: mask_numeral)
  show "push_bit 21 (of_nat i :: u64) AND 3 = 0"
    by (simp add: and_mask_low take_bit_push_bit)
qed

lemma block_fields:
  assumes "i < 512" and "fl \<in> {AARCH64_MMU_DEVICE_FLAGS, AARCH64_MMU_KERNEL_CODE_FLAGS}"
  shows "make_block_descriptor (push_bit 21 (of_nat i)) fl AND 0x0000FFFFFFE00000 = push_bit 21 (of_nat i)"
    and "make_block_descriptor (push_bit 21 (of_nat i)) fl AND 3 = 1"
  using shifted_index [OF assms(1)] flags_fields [OF assms(2)]
  by (simp_all add: make_block_descriptor_def word_ao_dist)

lemma table_fields:
  assumes "a AND 0x0000FFFFFFFFF000 = a"
  shows "make_table_descriptor a AND 3 = 3" and "make_table_descriptor a AND 0x0000FFFFFFFFF000 = a"
proof -
  have "a AND 3 = (a AND 0x0000FFFFFFFFF000) AND 3" by (simp only: assms)
  also have "\<dots> = 0" by (simp add: and.assoc)
  finally show "make_table_descriptor a AND 3 = 3" by (simp add: make_table_descriptor_def word_ao_dist)
  show "make_table_descriptor a AND 0x0000FFFFFFFFF000 = a"
    by (simp add: make_table_descriptor_def word_ao_dist assms)
qed

section \<open>Address fields\<close>

lemma level_index_low:
  assumes "s + 9 \<le> 48"
  shows "unat (aarch64_mmu_level_index va s) = (unat (take_bit 48 va) div 2 ^ s) mod 512"
proof -
  have "aarch64_mmu_level_index va s = take_bit 9 (drop_bit s (take_bit 48 va))"
    using assms by (intro bit_word_eqI)
      (auto simp: aarch64_mmu_level_index_def and_mask_low bit_take_bit_iff bit_drop_bit_eq)
  then have "unat (aarch64_mmu_level_index va s) = take_bit 9 (drop_bit s (unat (take_bit 48 va)))"
    by (simp only: unsigned_take_bit_eq unat_drop_bit_eq)
  then show ?thesis by (simp add: take_bit_eq_mod drop_bit_eq_div)
qed

lemma split_at: "push_bit s (drop_bit s w) OR take_bit s w = (w :: u64)"
  by (rule bit_word_eqI) (auto simp: bit_simps)

lemma of_nat_drop_bit: "of_nat (unat (w :: u64) div 2 ^ s) = drop_bit s w"
proof -
  have "unat (drop_bit s w) = unat w div 2 ^ s" unfolding unat_drop_bit_eq by (simp add: drop_bit_eq_div)
  then show ?thesis by (metis of_nat_unat ucast_id)
qed

section \<open>What the tables translate\<close>

definition boot_translation :: "BootMmuBoard \<Rightarrow> u64 \<Rightarrow> (u64 \<times> u64) option" where
  "boot_translation board off =
     (if unat off < 2 ^ 30
      then (let phys = push_bit 21 (drop_bit 21 off)
            in Some (off, make_block_descriptor phys (block_flags board phys)))
      else if unat off < 2 ^ 31 \<and> extra_ram_base board \<noteq> 0
      then Some (off, make_block_descriptor (extra_ram_base board) AARCH64_MMU_KERNEL_CODE_FLAGS)
      else None)"

lemma extra_block:
  "make_block_descriptor 0x40000000 AARCH64_MMU_KERNEL_CODE_FLAGS AND 3 = 1"
  "make_block_descriptor 0x40000000 AARCH64_MMU_KERNEL_CODE_FLAGS AND 0x0000FFFFC0000000 = 0x40000000"
  by (simp_all add: make_block_descriptor_def AARCH64_MMU_KERNEL_CODE_FLAGS_def)

lemma walk_boot_tables:
  assumes b: "board = board_virt \<or> board = board_raspi3"
    and l0: "tables root = Some ((replicate 512 0)[0 := make_table_descriptor a1])"
    and l1: "tables a1 = Some (boot_l1_table board a2)" and l2: "tables a2 = Some (map_low_gib board)"
    and a: "a1 AND 0x0000FFFFFFFFF000 = a1" "a2 AND 0x0000FFFFFFFFF000 = a2"
  shows "walk tables root va = boot_translation board (take_bit 48 va)"
proof -
  define off where "off = take_bit 48 va"
  have bound: "unat off < 2 ^ 48"
    using take_bit_nat_less_exp [of 48 "unat va"] by (simp add: off_def unsigned_take_bit_eq)
  note ix = level_index_low [of 39 va] level_index_low [of 30 va] level_index_low [of 21 va]
  have low: "take_bit 30 va = take_bit 30 off" "take_bit 21 va = take_bit 21 off"
    by (simp_all add: off_def)
  consider "unat off < 2 ^ 30" | "2 ^ 30 \<le> unat off" "unat off < 2 ^ 31" | "2 ^ 31 \<le> unat off" by linarith
  then show ?thesis
  proof cases
    case 1
    have i: "unat off div 2 ^ 21 < 512" using 1 by (simp add: less_mult_imp_div_less)
    have z: "unat (aarch64_mmu_level_index va 39) = 0" "unat (aarch64_mmu_level_index va 30) = 0"
      "unat (aarch64_mmu_level_index va 21) = unat off div 2 ^ 21"
      using 1 i ix by (simp_all add: off_def [symmetric])
    have d2: "map_low_gib board ! (unat off div 2 ^ 21) =
        make_block_descriptor (push_bit 21 (drop_bit 21 off)) (block_flags board (push_bit 21 (drop_bit 21 off)))"
      using i unfolding map_low_gib_def using of_nat_drop_bit [of off 21] by (simp add: Let_def)
    have d1: "boot_l1_table board a2 ! 0 = make_table_descriptor a2" by (simp add: boot_l1_table_def Let_def)
    note f = block_fields [OF i block_flags_in [of board "push_bit 21 (drop_bit 21 off)"], unfolded of_nat_drop_bit]
    show ?thesis
      unfolding walk_def z l0 option.case Let_def
      using 1 l1 l2 a d1 d2 f low split_at [of 21 off]
      by (simp add: table_fields boot_translation_def off_def [symmetric] Let_def and_mask_low(2))
  next
    case 2
    have q: "unat off div 2 ^ 30 = 1" using 2 by auto
    have z: "unat (aarch64_mmu_level_index va 39) = 0" "unat (aarch64_mmu_level_index va 30) = 1"
      using 2 q ix by (simp_all add: off_def [symmetric])
    have "push_bit 30 1 OR take_bit 30 off = off"
      using split_at [of 30 off] of_nat_drop_bit [of off 30] q by simp
    then have pa: "0x40000000 OR (va AND 0x3FFFFFFF) = off" by (simp add: and_mask_low low)
    have d1: "boot_l1_table board_virt a2 ! 1 = make_block_descriptor 0x40000000 AARCH64_MMU_KERNEL_CODE_FLAGS"
      "boot_l1_table board_raspi3 a2 ! 1 = 0"
      by (simp_all add: boot_l1_table_def board_virt_def board_raspi3_def Let_def)
    have t: "boot_translation board_virt off = Some (off, make_block_descriptor 0x40000000 AARCH64_MMU_KERNEL_CODE_FLAGS)"
      "boot_translation board_raspi3 off = None"
      using 2 by (simp_all add: boot_translation_def board_virt_def board_raspi3_def)
    show ?thesis
      unfolding walk_def z l0 option.case Let_def off_def [symmetric]
      using b l1 a(1) d1 t extra_block pa by (auto simp: table_fields)
  next
    case 3
    have t: "boot_translation board off = None" using 3 by (simp add: boot_translation_def)
    show ?thesis
    proof (cases "unat off div 2 ^ 39 = 0")
      case False
      moreover have "unat off div 2 ^ 39 < 512" using bound by (simp add: less_mult_imp_div_less)
      ultimately have "(replicate 512 0)[0 := make_table_descriptor a1] ! unat (aarch64_mmu_level_index va 39) = 0"
        using ix(1) by (simp add: off_def [symmetric])
      then show ?thesis using l0 t by (simp add: walk_def off_def [symmetric])
    next
      case True
      then have "unat off < 2 ^ 39" by (simp add: div_eq_0_iff)
      then have "unat off div 2 ^ 30 < 512" by (simp add: less_mult_imp_div_less)
      moreover have "2 \<le> unat off div 2 ^ 30" using 3 by (simp add: less_eq_div_iff_mult_less_eq)
      ultimately have "boot_l1_table board a2 ! unat (aarch64_mmu_level_index va 30) = 0"
        using ix(2) by (simp add: off_def [symmetric] boot_l1_table_def Let_def)
      moreover have "unat (aarch64_mmu_level_index va 39) = 0"
        using ix(1) True by (simp add: off_def [symmetric])
      ultimately show ?thesis using l0 l1 a(1) t
        by (simp add: walk_def off_def [symmetric] table_fields)
    qed
  qed
qed

section \<open>Properties\<close>

text \<open>C19: With the tables the bootloader builds, the MMU maps both address halves the same way:
  the first gigabyte of each onto physical memory at the same offset, in 2 MiB blocks whose
  attributes are device attributes exactly inside the board's device window; the second
  gigabyte onto the extra RAM where the board has it; every other address faults.\<close>

theorem boot_enable_mmu_translates:
  assumes "tables_placed tb" and "board = board_virt \<or> board = board_raspi3"
  shows "let m = boot_enable_mmu board tb sctlr in
    walk (table_memory tb m) (ttbr0_el1 m) va = boot_translation board (take_bit 48 va) \<and>
    walk (table_memory tb m) (ttbr1_el1 m) va = boot_translation board (take_bit 48 va)"
proof -
  let ?m = "boot_enable_mmu board tb sctlr"
  note walk = walk_boot_tables [OF assms(2), of "table_memory tb ?m"]
  have "walk (table_memory tb ?m) (ttbr0_el1 ?m) va = boot_translation board (take_bit 48 va)"
    using assms(1) by (intro walk [of _ "g_boot_ttbr0_l1 tb" "g_boot_ttbr0_l2 tb"])
      (simp_all add: tables_placed_def table_memory_def boot_enable_mmu_def Let_def)
  moreover have "walk (table_memory tb ?m) (ttbr1_el1 ?m) va = boot_translation board (take_bit 48 va)"
    using assms(1) by (intro walk [of _ "g_boot_ttbr1_l1 tb" "g_boot_ttbr1_l2 tb"])
      (simp_all add: tables_placed_def table_memory_def boot_enable_mmu_def Let_def)
  ultimately show ?thesis by (simp add: Let_def)
qed

definition demo_tables :: BootMmuTables where
  "demo_tables = \<lparr>g_boot_ttbr0_l0 = 0x40080000, g_boot_ttbr0_l1 = 0x40081000, g_boot_ttbr0_l2 = 0x40082000,
     g_boot_ttbr1_l0 = 0x40083000, g_boot_ttbr1_l1 = 0x40084000, g_boot_ttbr1_l2 = 0x40085000\<rparr>"

theorem boot_enable_mmu_translates_witness:
  "let m = boot_enable_mmu board_virt demo_tables 0 in
    walk (table_memory demo_tables m) (ttbr0_el1 m) 0xFFFF000040100000 =
      boot_translation board_virt (take_bit 48 0xFFFF000040100000) \<and>
    walk (table_memory demo_tables m) (ttbr1_el1 m) 0xFFFF000040100000 =
      boot_translation board_virt (take_bit 48 0xFFFF000040100000)"
  by (rule boot_enable_mmu_translates) (simp_all add: tables_placed_def demo_tables_def)

end
