(* ===== verification/Boot_Main.thy ===== *)
theory Boot_Main
  imports Boot_Block Boot_Image Boot_Mmu
begin

text \<open>
  The bootloader's entry, \<open>boot_main\<close> of \<^verbatim>\<open>src/kernel/bootloader/main.c\<close>: console, block device,
  volume, kernel file, header, payload, MMU, jump, each failure ending in \<open>boot_panic\<close>.

  \<open>boot_panic\<close> halts the machine after printing its message: the outcome \<open>BootPanic\<close>. The jump to
  the kernel does not return either: the outcome \<open>BootJump\<close> carries the entry point, physical
  memory and the MMU's state at that moment. \<open>None\<close> is a boot that hangs in a wait or a loop.
\<close>

datatype boot_outcome = BootPanic "u8 list" | BootJump u64 mem BootMmu

definition boot_trace :: "'h machine \<Rightarrow> 'h BootBlock \<Rightarrow> string \<Rightarrow> 'h BootBlock option" where
  "boot_trace mc b message = do {
     h \<leftarrow> boot_console_puts mc (hardware b) (ascii ''[bootloader] '');
     h \<leftarrow> boot_console_puts mc h (ascii message);
     h \<leftarrow> boot_console_puts mc h [10];
     Some (b\<lparr>hardware := h\<rparr>)
   }"

definition boot_panic :: "'h machine \<Rightarrow> 'h BootBlock \<Rightarrow> string \<Rightarrow> (boot_outcome \<times> 'h BootBlock) option" where
  "boot_panic mc b message = do {
     b \<leftarrow> boot_trace mc b message;
     Some (BootPanic (ascii message), b)
   }"

text \<open>From the validated header on.\<close>

definition boot_load ::
  "'h machine \<Rightarrow> BlockLayout \<Rightarrow> u64 \<Rightarrow> BootMmuBoard \<Rightarrow> BootMmuTables \<Rightarrow> u64 \<Rightarrow> BootFs \<Rightarrow> BootFsFile \<Rightarrow>
   KernelImageHeader \<Rightarrow> 'h BootBlock \<Rightarrow> mem \<Rightarrow> (boot_outcome \<times> 'h BootBlock) option" where
  "boot_load mc lay sector_buffer board tb sctlr fs f header b m = do {
     (st, f, b, m) \<leftarrow> boot_copy_kernel (boot_block_reader mc lay sector_buffer) fs b f header m;
     (if st \<noteq> StatusOK then boot_panic mc b ''unable to copy kernel image payload''
      else do {
        b \<leftarrow> boot_trace mc b ''enabling MMU for higher-half kernel handoff'';
        b \<leftarrow> boot_trace mc b ''jumping to loaded kernel entry point'';
        Some (BootJump (entry_point header) m (boot_enable_mmu board tb sctlr), b)
      })
   }"

definition boot_open_kernel ::
  "'h machine \<Rightarrow> BlockLayout \<Rightarrow> u64 \<Rightarrow> BootTarget \<Rightarrow> BootMmuBoard \<Rightarrow> BootMmuTables \<Rightarrow> u64 \<Rightarrow> BootFs \<Rightarrow>
   'h BootBlock \<Rightarrow> mem \<Rightarrow> (boot_outcome \<times> 'h BootBlock) option" where
  "boot_open_kernel mc lay sector_buffer target board tb sctlr fs b m = do {
     (r, b) \<leftarrow> bootfs_open (boot_block_reader mc lay sector_buffer) b fs (Some (kernel_path target));
     (case r of
        Inl e \<Rightarrow> boot_panic mc b ''unable to open kernel image''
      | Inr f \<Rightarrow>
          (if file_size f < 80 then boot_panic mc b ''kernel image is smaller than its header''
           else do {
             (r, f, b) \<leftarrow> bootfs_read (boot_block_reader mc lay sector_buffer) b fs f 80;
             (case r of
                Inl e \<Rightarrow> boot_panic mc b ''unable to read kernel image header''
              | Inr bs \<Rightarrow>
                  (if length bs \<noteq> 80 then boot_panic mc b ''unable to read kernel image header''
                   else (let header = header_of_bytes bs
                         in if boot_validate_header target header (file_size f) \<noteq> StatusOK
                            then boot_panic mc b ''kernel image header validation failed''
                            else boot_load mc lay sector_buffer board tb sctlr fs f header b m)))
           }))
   }"

definition boot_main ::
  "'h machine \<Rightarrow> BlockLayout \<Rightarrow> u64 \<Rightarrow> BootTarget \<Rightarrow> BootMmuBoard \<Rightarrow> BootMmuTables \<Rightarrow> u64 \<Rightarrow>
   'h BootBlock \<Rightarrow> mem \<Rightarrow> (boot_outcome \<times> 'h BootBlock) option" where
  "boot_main mc lay sector_buffer target board tb sctlr b m =
     (let (st, h) = boot_console_init mc (hardware b); b = b\<lparr>hardware := h\<rparr>
      in if st \<noteq> StatusOK then boot_panic mc b ''console init failed''
         else do {
           b \<leftarrow> boot_trace mc b ''UART console ready'';
           (let (st, b) = boot_block_init mc lay b
            in if st \<noteq> StatusOK then boot_panic mc b ''block device init failed''
               else do {
                 b \<leftarrow> boot_trace mc b ''block device ready'';
                 b \<leftarrow> boot_trace mc b ''mounting FAT32 boot volume'';
                 (r, b) \<leftarrow> bootfs_init (boot_block_reader mc lay sector_buffer) b;
                 (case r of
                    Inl e \<Rightarrow> boot_panic mc b ''unable to mount FAT32 boot volume''
                  | Inr fs \<Rightarrow> do {
                      b \<leftarrow> boot_trace mc b ''FAT32 boot volume ready'';
                      boot_open_kernel mc lay sector_buffer target board tb sctlr fs b m
                    })
               })
         })"


section \<open>The copy stays in the image\<close>

lemma chunk_le_left:
  fixes left :: u64
  shows "unat (if 4096 < (ucast left :: u32) then 4096 else ucast left :: u32) \<le> unat left"
proof -
  have "unat (ucast left :: u32) \<le> unat left" by (simp add: unsigned_ucast_eq take_bit_nat_less_eq_self)
  then show ?thesis by (auto simp: word_less_nat_alt)
qed

lemma store_confined:
  assumes "unat c + length bs \<le> unat n" and "unat (n :: u64) \<le> unat (a - base)"
  shows "memcopy m (base + c) bs a = m a"
proof -
  have "c \<le> a - base" using assms by (simp add: word_le_nat_alt)
  then have "unat (a - (base + c)) = unat (a - base) - unat c"
    using unat_sub [of c "a - base"] by (simp add: diff_diff_eq)
  then have "\<not> unat (a - (base + c)) < length bs" using assms by linarith
  with assms unat_u64_less [of n] show ?thesis by (simp add: memcopy_apply)
qed

lemma copy_loop_confined:
  "boot_copy_loop rd fs h d f m copied = Some r \<Longrightarrow>
   copied \<le> payload_size h \<longrightarrow>
   (\<forall>a. unat (payload_size h) \<le> unat (a - load_address h) \<longrightarrow> snd (snd (snd r)) a = m a)"
proof (erule boot_copy_loop.raw_induct [rotated], goal_cases)
  case (1 loop rd fs h d f m copied r)
  let ?left = "ucast (payload_size h - copied) :: u32"
  let ?chunk = "if 4096 < ?left then 4096 else ?left"
  show ?case
  proof (cases "copied < payload_size h")
    case False
    with 1(2) show ?thesis by auto
  next
    case True
    obtain x f1 d1 where rd: "bootfs_read rd d fs f ?chunk = Some (x, f1, d1)"
      using 1(2) True by (auto simp: Let_def bind_eq_Some_conv)
    show ?thesis
    proof (cases "\<exists>bs. x = Inr bs \<and> length bs = unat ?chunk")
      case False
      with 1(2) True rd show ?thesis by (cases x) (auto simp: Let_def)
    next
      case True
      then obtain bs where bs: "x = Inr bs" "length bs = unat ?chunk" by blast
      have step: "loop rd fs h d1 f1 (memcopy m (load_address h + copied) bs) (copied + ucast ?chunk) = Some r"
        using 1(2) \<open>copied < payload_size h\<close> rd bs by (simp add: Let_def)
      have u: "unat (payload_size h - copied) = unat (payload_size h) - unat copied"
        using \<open>copied < payload_size h\<close> by (simp add: unat_sub)
      have le: "unat copied + length bs \<le> unat (payload_size h)"
        using chunk_le_left [of "payload_size h - copied"] bs(2) u \<open>copied < payload_size h\<close>
        by (simp add: word_less_nat_alt)
      have "unat (copied + ucast ?chunk) = unat copied + unat ?chunk"
        using le bs(2) unat_u64_less [of "payload_size h"] unat_u32_less [of ?chunk]
        by (simp add: unat_word_ariths unsigned_ucast_eq take_bit_nat_eq_self)
      then have "copied + ucast ?chunk \<le> payload_size h" using le bs(2) by (simp add: word_le_nat_alt)
      with 1(1) [OF step] store_confined [OF le] show ?thesis by simp
    qed
  qed
qed

lemma copy_kernel_confined:
  assumes "boot_copy_kernel rd fs d f h m = Some (st, f', d', m')" and "payload_size h \<le> memory_size h"
    and "unat (memory_size h) \<le> unat (a - load_address h)"
  shows "m' a = m a"
proof -
  obtain s f1 where sk: "bootfs_seek f (ucast (payload_offset h)) = (s, f1)" by (metis surj_pair)
  show ?thesis
  proof (cases "s = StatusOK")
    case False
    with assms(1) sk show ?thesis by (simp add: boot_copy_kernel_def)
  next
    case True
    with assms(1) sk obtain s2 f2 d2 m2 where l: "boot_copy_loop rd fs h d f1 m 0 = Some (s2, f2, d2, m2)"
      by (auto simp: boot_copy_kernel_def bind_eq_Some_conv)
    have p: "unat (payload_size h) \<le> unat (memory_size h)" using assms(2) by (simp add: word_le_nat_alt)
    then have m2: "m2 a = m a" using copy_loop_confined [OF l] assms(3) by simp
    have "memzero m2 (load_address h + payload_size h) (unat (memory_size h - payload_size h)) a = m2 a"
      unfolding memzero_eq_memcopy using p assms(2,3)
      by (intro store_confined [of _ _ "memory_size h"]) (simp_all add: unat_sub)
    with m2 l sk True assms(1) show ?thesis
      by (auto simp: boot_copy_kernel_def split: if_splits)
  qed
qed

lemma boot_panic_outcome: "boot_panic mc b msg = Some (out, b') \<Longrightarrow> out = BootPanic (ascii msg)"
  by (auto simp: boot_panic_def bind_eq_Some_conv)

definition boots :: "BootTarget \<Rightarrow> BootMmuBoard \<Rightarrow> BootMmuTables \<Rightarrow> u64 \<Rightarrow> mem \<Rightarrow> boot_outcome \<Rightarrow> bool" where
  "boots target board tb sctlr m out \<longleftrightarrow>
     (\<forall>e m' mmu. out = BootJump e m' mmu \<longrightarrow>
        (\<exists>h fsize. boot_validate_header target h fsize = StatusOK \<and> e = entry_point h \<and>
           mmu = boot_enable_mmu board tb sctlr \<and>
           (\<forall>a. unat (memory_size h) \<le> unat (a - load_phys_base target) \<longrightarrow> m' a = m a)))"

lemma boots_panic: "boot_panic mc b msg = Some (out, b') \<Longrightarrow> boots target board tb sctlr m out"
  by (auto dest!: boot_panic_outcome simp: boots_def)

lemma boot_load_boots:
  assumes "boot_load mc lay buf board tb sctlr fs f h b m = Some (out, b')"
    and v: "boot_validate_header target h fsize = StatusOK"
  shows "boots target board tb sctlr m out"
proof -
  obtain st f1 b1 m1 where c: "boot_copy_kernel (boot_block_reader mc lay buf) fs b f h m = Some (st, f1, b1, m1)"
    using assms(1) by (auto simp: boot_load_def bind_eq_Some_conv)
  show ?thesis
  proof (cases "st = StatusOK")
    case False
    with c assms(1) boots_panic show ?thesis by (simp add: boot_load_def)
  next
    case True
    with c assms(1) have "out = BootJump (entry_point h) m1 (boot_enable_mmu board tb sctlr)"
      by (auto simp: boot_load_def bind_eq_Some_conv)
    with v copy_kernel_confined [OF c] boot_validate_header_OK(4,8) [OF v] show ?thesis
      by (auto simp: boots_def)
  qed
qed

lemma boot_open_kernel_boots:
  assumes "boot_open_kernel mc lay buf target board tb sctlr fs b m = Some (out, b')"
  shows "boots target board tb sctlr m out"
proof -
  obtain r b1 where o: "bootfs_open (boot_block_reader mc lay buf) b fs (Some (kernel_path target)) = Some (r, b1)"
    using assms by (auto simp: boot_open_kernel_def bind_eq_Some_conv)
  show ?thesis
  proof (cases "\<exists>f. r = Inr f \<and> \<not> file_size f < 80")
    case False
    with o assms show ?thesis by (cases r) (auto simp: boot_open_kernel_def intro: boots_panic)
  next
    case True
    then obtain f where f: "r = Inr f" "\<not> file_size f < 80" by blast
    obtain x f1 b2 where rd: "bootfs_read (boot_block_reader mc lay buf) b1 fs f 80 = Some (x, f1, b2)"
      using assms o f by (auto simp: boot_open_kernel_def bind_eq_Some_conv)
    with assms o f show ?thesis
      by (cases x) (auto simp: boot_open_kernel_def Let_def intro: boots_panic boot_load_boots split: if_splits)
  qed
qed

section \<open>A bootable disk\<close>

text \<open>The disk holds a FAT32 volume \<open>fs\<close> with root directory \<open>rs\<close>, where the kernel path names the
  file with clusters \<open>cs\<close>, whose first 80 bytes are a header valid for the board.\<close>

definition kernel_on_disk ::
  "(u32 \<Rightarrow> u8 list) \<Rightarrow> BootTarget \<Rightarrow> BootFs \<Rightarrow> u32 list \<Rightarrow> u32 list \<Rightarrow> KernelImageHeader \<Rightarrow> bool" where
  "kernel_on_disk img target fs rs cs h \<longleftrightarrow>
     disk_mount img = Inr fs \<and>
     linked img fs rs \<and> rs \<noteq> [] \<and> hd rs = root_cluster (boot_sector fs) \<and> cluster_valid (hd rs) \<and>
     \<not> cluster_valid (fat_link img fs (last rs)) \<and>
     (case bootfs_make_short_name (Some (kernel_path target)) of
        Inl _ \<Rightarrow> False
      | Inr nm \<Rightarrow>
          (case dir_find nm (dir_entries img fs rs) of
             Inl _ \<Rightarrow> False
           | Inr e \<Rightarrow>
               linked img fs cs \<and> file_on fs cs (bootfs_file_of_entry e) \<and> 80 \<le> entry_size e \<and>
               h = header_of_bytes (take 80 (chain_bytes img fs cs)) \<and>
               boot_validate_header target h (entry_size e) = StatusOK)) \<and>
     unat (payload_offset h) + unat (payload_size h) < 2 ^ 64"

lemma disk_mount_ok: "disk_mount img = Inr fs \<Longrightarrow> fs_ok fs"
  by (auto simp: disk_mount_def bootfs_of_sector_ok split: option.splits if_splits)

section \<open>A machine that boots\<close>

text \<open>
  The hardware contract of a complete boot: a virtio disk in the first slot whose identification
  and feature registers read as the driver requires, and a transmitter that accepts every byte;
  neither disturbs the idle disk.
\<close>

locale boot_hw = virtio_block mc lay 0 buffer img ready started serving
  for mc :: "'h machine" and lay buffer img ready started serving +
  fixes regs :: "u32 \<Rightarrow> u32"
  assumes reg_read: "ready h \<Longrightarrow> \<exists>h'. mmio_read mc h (boot_block_reg 0 off) = (regs off, h') \<and> ready h'"
    and other_write: "ready h \<Longrightarrow> a \<noteq> boot_block_reg 0 0x050 \<Longrightarrow> ready (mmio_write mc h a v)"
    and console: "ready h \<Longrightarrow> \<exists>h'. uart_send mc h c = Some h' \<and> ready h'"
    and identity: "regs 0x000 = 0x74726976" "regs 0x004 = 2" "regs 0x008 = 2" "regs 0x00C = 0x554D4551"
    and features: "regs 0x010 AND 1 \<noteq> 0" "regs 0x070 AND 8 \<noteq> 0" "8 \<le> regs 0x034"
begin

lemma puts_ready: "ready h \<Longrightarrow> \<exists>h'. boot_console_puts mc h cs = Some h' \<and> ready h'"
proof (induction cs arbitrary: h)
  case Nil
  then show ?case by simp
next
  case (Cons c cs)
  have "\<exists>h1. boot_console_putc mc h c = Some h1 \<and> ready h1"
    using console [OF Cons.prems, of 13] console [OF Cons.prems, of c] console [of _ c]
    by (cases "c = 10") (auto simp: boot_console_putc_def)
  with Cons show ?case by auto
qed

lemma trace_ready:
  assumes "ready (hardware b)"
  shows "\<exists>h'. boot_trace mc b msg = Some (b\<lparr>hardware := h'\<rparr>) \<and> ready h'"
proof -
  obtain h1 where h1: "boot_console_puts mc (hardware b) (ascii ''[bootloader] '') = Some h1" "ready h1"
    using puts_ready [OF assms] by blast
  obtain h2 where h2: "boot_console_puts mc h1 (ascii msg) = Some h2" "ready h2"
    using puts_ready [OF h1(2)] by blast
  obtain h3 where h3: "boot_console_puts mc h2 [10] = Some h3" "ready h3"
    using puts_ready [OF h2(2)] by blast
  show ?thesis
    unfolding boot_trace_def h1 bind.bind_lunit h2 h3 using h3(2) by blast
qed

lemma trace_ok: "block_ok b \<Longrightarrow> \<exists>b'. boot_trace mc b msg = Some b' \<and> block_ok b'"
  using trace_ready [of b msg] by (auto simp: block_ok_def)

definition up :: "Virtq \<Rightarrow> 'h BootBlock \<Rightarrow> bool" where
  "up q b \<longleftrightarrow> g_vq b = q \<and> g_last_used_idx b = 0 \<and> g_slot_index b = 0 \<and> ready (hardware b)"

lemma up_read:
  assumes "up q b"
  shows "\<exists>b'. boot_block_read_reg mc b off = (regs off, b') \<and> up q b'"
  using reg_read [of "hardware b" off] assms unfolding up_def boot_block_read_reg_def by auto

lemma up_write:
  assumes "up q b" and "off < 0x200" and "off \<noteq> 0x050"
  shows "up q (boot_block_write_reg mc b off v)"
proof -
  have "unat off < 512" using assms(2) by (simp add: word_less_nat_alt)
  moreover have "unat (ucast off :: u64) = unat off" using unat_u32_less [of off]
    by (simp add: unsigned_ucast_eq take_bit_nat_eq_self)
  ultimately have "unat (boot_block_reg 0 off) = 167772160 + unat off"
    by (simp add: boot_block_reg_def unat_word_ariths)
  moreover have "unat off \<noteq> 80" using assms(3) by (simp add: word_unat_eq_iff)
  moreover have "unat (boot_block_reg 0 0x050) = 167772240" by (simp add: boot_block_reg_def)
  ultimately have "unat (boot_block_reg 0 off) \<noteq> unat (boot_block_reg 0 0x050)" by linarith
  then have "boot_block_reg 0 off \<noteq> boot_block_reg 0 0x050" by auto
  with assms(1) other_write show ?thesis by (simp add: up_def boot_block_write_reg_def)
qed

lemma up_write_addr:
  "up q b \<Longrightarrow> lo < 0x200 \<Longrightarrow> lo \<noteq> 0x050 \<Longrightarrow> hi < 0x200 \<Longrightarrow> hi \<noteq> 0x050 \<Longrightarrow>
   up q (boot_block_write_addr mc b lo hi a)"
  by (simp add: boot_block_write_addr_def Let_def up_write)

lemma start_queue_ok:
  assumes "up q b"
  shows "\<exists>b'. boot_block_start_queue mc lay b st = (StatusOK, b') \<and> g_block_ready b' \<and> up q b'"
proof -
  obtain b1 where b1: "boot_block_read_reg mc (boot_block_write_reg mc b 0x030 0) 0x034 = (regs 0x034, b1)" "up q b1"
    using up_read [of q "boot_block_write_reg mc b 0x030 0"] up_write [OF assms, of "0x030" 0] by auto
  let ?b2 = "boot_block_write_addr mc (boot_block_write_reg mc b1 0x038 8) 0x080 0x084 (desc_at lay)"
  let ?b3 = "boot_block_write_addr mc (boot_block_write_addr mc ?b2 0x090 0x094 (avail_at lay)) 0x0A0 0x0A4 (used_at lay)"
  let ?b4 = "boot_block_write_reg mc (boot_block_write_reg mc ?b3 0x044 1) 0x070 (st OR 4)"
  have "up q ?b4" using b1(2) by (simp add: up_write up_write_addr)
  moreover have "\<not> regs 0x034 < 8" using features(3) by (simp only: not_less)
  ultimately show ?thesis using b1(1) by (simp add: boot_block_start_queue_def Let_def up_def)
qed

lemma negotiate_ok:
  assumes "up q b"
  shows "\<exists>b'. boot_block_negotiate mc lay b = (StatusOK, b') \<and> g_block_ready b' \<and> up q b'"
proof -
  let ?w = "boot_block_write_reg mc"
  let ?b1 = "?w (?w (?w (?w b 0x070 0) 0x070 1) 0x070 3) 0x014 1"
  have "up q ?b1" using assms by (simp add: up_write)
  then obtain b2 where b2: "boot_block_read_reg mc ?b1 0x010 = (regs 0x010, b2)" "up q b2"
    using up_read by blast
  let ?b3 = "?w (?w (?w (?w (?w b2 0x024 0) 0x020 0) 0x024 1) 0x020 1) 0x070 11"
  have "up q ?b3" using b2(2) by (simp add: up_write)
  then obtain b4 where b4: "boot_block_read_reg mc ?b3 0x070 = (regs 0x070, b4)" "up q b4"
    using up_read by blast
  from start_queue_ok [OF b4(2), of 11] b2(1) b4(1) features show ?thesis
    by (simp add: boot_block_negotiate_def Let_def)
qed

lemma block_init_ok:
  assumes "ready (hardware b)"
  shows "\<exists>b'. boot_block_init mc lay b = (StatusOK, b') \<and> block_ok b'"
proof -
  let ?q = "blank_virtq (g_vq b)"
  let ?b0 = "b\<lparr>g_vq := ?q, g_last_used_idx := 0, g_block_ready := False, g_slot_index := 0\<rparr>"
  have u0: "up ?q ?b0" using assms by (simp add: up_def)
  obtain b1 where b1: "boot_block_read_reg mc ?b0 0x000 = (regs 0x000, b1)" "up ?q b1"
    using up_read [OF u0] by blast
  obtain b2 where b2: "boot_block_read_reg mc b1 0x004 = (regs 0x004, b2)" "up ?q b2"
    using up_read [OF b1(2)] by blast
  obtain b3 where b3: "boot_block_read_reg mc b2 0x008 = (regs 0x008, b3)" "up ?q b3"
    using up_read [OF b2(2)] by blast
  obtain b4 where b4: "boot_block_read_reg mc b3 0x00C = (regs 0x00C, b4)" "up ?q b4"
    using up_read [OF b3(2)] by blast
  have find: "boot_block_find_device mc (b\<lparr>g_vq := ?q, g_last_used_idx := 0, g_block_ready := False\<rparr>) = (StatusOK, b3)"
    using b1 b2 b3 by (simp add: boot_block_find_device_def boot_block_find_from.simps Let_def identity)
  obtain b5 where "boot_block_negotiate mc lay b4 = (StatusOK, b5)" "g_block_ready b5" "up ?q b5"
    using negotiate_ok [OF b4(2)] by blast
  with find b4 show ?thesis
    by (simp add: boot_block_init_def Let_def identity block_ok_def up_def blank_virtq_def)
qed

lemma boot_load_ok:
  assumes "block_ok b" "fs_ok fs" "linked img fs cs" "file_on fs cs f"
    "boot_validate_header target h (file_size f) = StatusOK"
    "unat (payload_offset h) + unat (payload_size h) < 2 ^ 64"
  shows "\<exists>m' b'. boot_load mc lay buffer board tb sctlr fs f h b m =
      Some (BootJump (entry_point h) m' (boot_enable_mmu board tb sctlr), b') \<and>
    mem_bytes m' (load_address h) (unat (memory_size h)) = load_image h (chain_bytes img fs cs) \<and>
    (\<forall>a. unat (memory_size h) \<le> unat (a - load_address h) \<longrightarrow> m' a = m a)"
proof -
  have cr: "chain_readable (\<lambda>_. True) fs cs" by (simp add: chain_readable_def)
  obtain f' b1 m' where c: "boot_copy_kernel (boot_block_reader mc lay buffer) fs b f h m = Some (StatusOK, f', b1, m')"
    "block_ok b1" and m': "mem_bytes m' (load_address h) (unat (memory_size h)) = load_image h (chain_bytes img fs cs)"
    "\<forall>a. unat (memory_size h) \<le> unat (a - load_address h) \<longrightarrow> m' a = m a"
    using copy_kernel_ok [OF disk.sector_disk_axioms assms(2,3) cr assms(1,4,5,6)] by blast
  obtain b2 where b2: "boot_trace mc b1 ''enabling MMU for higher-half kernel handoff'' = Some b2" "block_ok b2"
    using trace_ok [OF c(2)] by blast
  obtain b3 where "boot_trace mc b2 ''jumping to loaded kernel entry point'' = Some b3"
    using trace_ok [OF b2(2)] by blast
  with c b2 m' show ?thesis by (simp add: boot_load_def)
qed

lemma open_kernel_ok:
  assumes "block_ok b" and k: "kernel_on_disk img target fs rs cs h"
  shows "\<exists>m' b'. boot_open_kernel mc lay buffer target board tb sctlr fs b m =
      Some (BootJump (entry_point h) m' (boot_enable_mmu board tb sctlr), b') \<and>
    mem_bytes m' (load_address h) (unat (memory_size h)) = load_image h (chain_bytes img fs cs) \<and>
    (\<forall>a. unat (memory_size h) \<le> unat (a - load_address h) \<longrightarrow> m' a = m a)"
proof -
  obtain nm e where nm: "bootfs_make_short_name (Some (kernel_path target)) = Inr nm"
    and e: "dir_find nm (dir_entries img fs rs) = Inr e"
    and f: "linked img fs cs" "file_on fs cs (bootfs_file_of_entry e)" "80 \<le> entry_size e"
    and h: "h = header_of_bytes (take 80 (chain_bytes img fs cs))"
    and v: "boot_validate_header target h (entry_size e) = StatusOK"
    using k unfolding kernel_on_disk_def by (auto split: sum.splits)
  have rs: "linked img fs rs" "rs \<noteq> []" "hd rs = root_cluster (boot_sector fs)" "cluster_valid (hd rs)"
    "\<not> cluster_valid (fat_link img fs (last rs))" and fs: "fs_ok fs"
    and wrap: "unat (payload_offset h) + unat (payload_size h) < 2 ^ 64"
    using k disk_mount_ok by (auto simp: kernel_on_disk_def)
  have cr: "chain_readable (\<lambda>_. True) fs xs" for xs by (simp add: chain_readable_def)
  obtain b1 where b1: "bootfs_open (boot_block_reader mc lay buffer) b fs (Some (kernel_path target)) =
      Some (Inr (bootfs_file_of_entry e), b1)" "block_ok b1"
    using open_root_ok [OF disk.sector_disk_axioms fs rs(1) cr rs(2-5) assms(1) nm] e by auto
  let ?f = "bootfs_file_of_entry e"
  have sz: "file_size ?f = entry_size e" "file_offset ?f = 0" by (simp_all add: bootfs_file_of_entry_def Let_def)
  have ge: "80 \<le> unat (entry_size e)" using f(3) by (simp add: word_le_nat_alt)
  obtain b2 f1 where rd: "bootfs_read (boot_block_reader mc lay buffer) b1 fs ?f 80 =
      Some (Inr (take 80 (chain_bytes img fs cs)), f1, b2)" "block_ok b2" "file_on fs cs f1" "file_size f1 = entry_size e"
    using disk.read_ok_bytes [OF fs f(1) cr b1(2) f(2), of 80] ge by (auto simp: sz min_def)
  have "unat (entry_size e) \<le> length (chain_bytes img fs cs)"
    using f(2) length_chain_bytes [of img fs cs, OF img_len] by (simp add: file_on_def sz)
  then have len: "length (take 80 (chain_bytes img fs cs)) = 80" using ge by simp
  have ns: "\<not> file_size ?f < 80" using f(3) by (simp add: sz not_less)
  show ?thesis
    using boot_load_ok [OF rd(2) fs f(1) rd(3), of target h board tb sctlr m] v wrap b1(1) rd(1,4) len ns h
    by (simp add: boot_open_kernel_def Let_def)
qed

lemma boot_main_ok:
  assumes "ready (hardware b)" and k: "kernel_on_disk img target fs rs cs h"
  shows "\<exists>m' b'. boot_main mc lay buffer target board tb sctlr b m =
      Some (BootJump (entry_point h) m' (boot_enable_mmu board tb sctlr), b') \<and>
    mem_bytes m' (load_address h) (unat (memory_size h)) = load_image h (chain_bytes img fs cs) \<and>
    (\<forall>a. unat (memory_size h) \<le> unat (a - load_address h) \<longrightarrow> m' a = m a)"
proof -
  have uart: "a \<noteq> boot_block_reg 0 0x050" if "a \<in> {UART0_CR, UART0_ICR, UART0_IBRD, UART0_FBRD, UART0_LCRH, UART0_IMSC}" for a
    using that by (auto simp: boot_block_reg_def)
  obtain h0 where ci: "boot_console_init mc (hardware b) = (StatusOK, h0)" "ready h0"
    using assms(1) by (simp add: boot_console_init_def Let_def other_write uart)
  obtain h1 where b1: "boot_trace mc (b\<lparr>hardware := h0\<rparr>) ''UART console ready'' = Some (b\<lparr>hardware := h1\<rparr>)" "ready h1"
    using trace_ready [of "b\<lparr>hardware := h0\<rparr>"] ci(2) by auto
  obtain b2 where b2: "boot_block_init mc lay (b\<lparr>hardware := h1\<rparr>) = (StatusOK, b2)" "block_ok b2"
    using block_init_ok [of "b\<lparr>hardware := h1\<rparr>"] b1(2) by auto
  obtain b3 where b3: "boot_trace mc b2 ''block device ready'' = Some b3" "block_ok b3"
    using trace_ok [OF b2(2)] by blast
  obtain b4 where b4: "boot_trace mc b3 ''mounting FAT32 boot volume'' = Some b4" "block_ok b4"
    using trace_ok [OF b3(2)] by blast
  have "disk_mount img = Inr fs" using k by (simp add: kernel_on_disk_def)
  then obtain b5 where b5: "bootfs_init (boot_block_reader mc lay buffer) b4 = Some (Inr fs, b5)" "block_ok b5"
    using disk.init_ok [OF b4(2)] by auto
  obtain b6 where b6: "boot_trace mc b5 ''FAT32 boot volume ready'' = Some b6" "block_ok b6"
    using trace_ok [OF b5(2)] by blast
  show ?thesis
    using open_kernel_ok [OF b6(2) k, of board tb sctlr m] ci(1) b1(1) b2(1) b3(1) b4(1) b5(1) b6(1)
    by (simp add: boot_main_def Let_def)
qed

end

section \<open>A bootable machine\<close>

text \<open>A disk with a 4-byte kernel, and a machine with that disk.\<close>

definition boot_img :: "u32 \<Rightarrow> u8 list" where
  "boot_img lba =
     (if lba = 0 then demo_boot
      else if lba = 1 then [0, 0, 0, 0, 0, 0, 0, 0, 0xFF, 0xFF, 0xFF, 0x0F, 0xFF, 0xFF, 0xFF, 0x0F] @ replicate 496 0
      else if lba = 2 then [75, 32, 32, 32, 32, 32, 32, 32, 32, 32, 32, 0x20] @ replicate 14 0 @ [3, 0, 84, 0, 0, 0] @ replicate 480 0
      else [75, 69, 82, 78, 69, 76, 0, 0, 1, 0, 0, 0, 80, 0, 0, 0, 183, 0, 0, 0, 0, 0, 0, 0,
            0, 0, 0x10, 0x40, 0, 0, 0, 0, 0, 0, 0x10, 0x40, 0, 0, 0xFF, 0xFF, 4, 0, 0x10, 0x40, 0, 0, 0xFF, 0xFF,
            80, 0, 0, 0, 0, 0, 0, 0, 4, 0, 0, 0, 0, 0, 0, 0, 8, 0, 0, 0, 0, 0, 0, 0, 0, 16, 0, 0, 0, 0, 0, 0,
            1, 2, 3, 4] @ replicate 428 0)"

definition boot_machine :: "sim machine" where
  "boot_machine =
     \<lparr>mmio_read = (\<lambda>h a.
        if a = 0x0A000000 then (0x74726976, h) else if a = 0x0A000004 then (2, h)
        else if a = 0x0A000008 then (2, h) else if a = 0x0A00000C then (0x554D4551, h)
        else if a = 0x0A000010 then (1, h) else if a = 0x0A000070 then (0x0B, h)
        else if a = 0x0A000034 then (8, h) else (0, h)),
      mmio_write = (\<lambda>h a v. h),
      cntpct_el0 = (\<lambda>h. (0, h)), cntfrq_el0 = 0, ctr_el0 = 0x000F0000,
      dc_line = (\<lambda>h op a. h),
      dma = (\<lambda>h q. (q\<lparr>used_idx := avail_idx q, g_status_byte := 0,
                       sector_data := boot_img (ucast (req_sector (g_request q)))\<rparr>, h))\<rparr>"

interpretation boot_sim: boot_hw boot_machine sim_layout "0x40005000" boot_img "\<lambda>_. True" "\<lambda>t _. t = 0"
  "\<lambda>k t _. k = 0 \<and> t = 0" "\<lambda>off. fst (mmio_read boot_machine undefined (boot_block_reg 0 off))"
proof unfold_locales
  show "length (boot_img s) = 512" for s
    by (simp add: boot_img_def demo_boot_def fat32_tag_def)
  show "\<exists>h'. dma boot_machine h q = (q\<lparr>used_idx := avail_idx q, g_status_byte := 0, sector_data := boot_img s\<rparr>, h') \<and> True"
    if "read_request sim_layout buf s q" for h buf s q
    using that by (simp add: boot_machine_def read_request_def)
  show "\<exists>h'. uart_send boot_machine h c = Some h' \<and> True" for h c
    by (simp add: uart_send_def uart_wait.simps boot_machine_def)
qed (auto simp: boot_machine_def boot_block_reg_def boot_block_timeout_ticks_def)

abbreviation sim_volume :: BootFs where
  "sim_volume \<equiv> bootfs_of_sector 0 demo_boot"

lemma boot_img_volume:
  "sectors_per_cluster (boot_sector sim_volume) = 1" "root_cluster (boot_sector sim_volume) = 2"
  "fat_lba sim_volume = 1" "data_lba sim_volume = 2" "fs_ok sim_volume" "spc sim_volume = 1"
  by code_simp+

lemma boot_img_mount: "disk_mount boot_img = Inr sim_volume"
  by code_simp

lemma boot_img_root_ends: "\<not> cluster_valid (fat_link boot_img sim_volume 2)"
  by (simp add: fat_link_def fat_sector_def boot_img_volume boot_img_def cluster_valid_def boot_read_le32_def)

lemma boot_img_name: "bootfs_make_short_name (Some (kernel_path demo_target)) = Inr (75 # replicate 10 32)"
  by code_simp

lemma boot_img_entry:
  "dir_find (75 # replicate 10 32) (dir_entries boot_img sim_volume [2]) =
   Inr (bootfs_parse_dir_entry (take 32 (boot_img 2)))"
proof -
  have "record_named (take 32 (boot_img 2)) (75 # replicate 10 32)" by code_simp
  moreover have "take 32 (boot_img 2) ! 0 = 75" by code_simp
  ultimately show ?thesis
    by (simp add: dir_find_def dir_entries_def cluster_entries_def upt_conv_Cons bootfs_cluster_to_lba_def boot_img_volume)
qed

lemma boot_img_chain: "chain_bytes boot_img sim_volume [3] = boot_img 3"
  by (simp add: chain_bytes_def cluster_sectors_def bootfs_cluster_to_lba_def boot_img_volume)

lemma boot_img_file:
  "file_on sim_volume [3] (bootfs_file_of_entry (bootfs_parse_dir_entry (take 32 (boot_img 2))))"
  "entry_size (bootfs_parse_dir_entry (take 32 (boot_img 2))) = 84"
proof -
  show e: "entry_size (bootfs_parse_dir_entry (take 32 (boot_img 2))) = 84" by code_simp
  have "first_cluster (bootfs_file_of_entry (bootfs_parse_dir_entry (take 32 (boot_img 2)))) = 3" by code_simp
  then show "file_on sim_volume [3] (bootfs_file_of_entry (bootfs_parse_dir_entry (take 32 (boot_img 2))))"
    using e by (simp add: file_on_def boot_img_volume bootfs_file_of_entry_def Let_def)
qed

lemma boot_img_header:
  "boot_validate_header demo_target (header_of_bytes (take 80 (boot_img 3))) 84 = StatusOK"
  "payload_offset (header_of_bytes (take 80 (boot_img 3))) = 80"
  "payload_size (header_of_bytes (take 80 (boot_img 3))) = 4"
  by code_simp+

lemma boot_img_bootable:
  "kernel_on_disk boot_img demo_target sim_volume [2] [3] (header_of_bytes (take 80 (boot_img 3)))"
  by (simp add: kernel_on_disk_def boot_img_mount boot_img_volume boot_img_root_ends boot_img_name
      boot_img_entry boot_img_chain boot_img_file boot_img_header) (simp add: cluster_valid_def)

section \<open>Properties\<close>


lemma boot_sim_boots:
  "\<exists>m' b'. boot_main boot_machine sim_layout 0x40005000 demo_target board_virt demo_tables 0 sim_block (\<lambda>_. 7) =
     Some (BootJump (entry_point (header_of_bytes (take 80 (boot_img 3)))) m' (boot_enable_mmu board_virt demo_tables 0), b')"
  using boot_sim.boot_main_ok [OF _ boot_img_bootable] by blast




end
