(* ===== verification/Crt_String.thy ===== *)
theory Crt_String
  imports Prelude "HOL-Library.Monad_Syntax" "HOL-Library.Sublist"
begin

text \<open>
  The memory and string functions of the user runtime, \<^verbatim>\<open>src/applications/runtime/crt.c\<close>, over
  byte-addressed memory. \<open>size_t\<close> and pointers are 64-bit words and indices wrap as in the code;
  \<open>NULL\<close> is address 0. A function that writes returns its pointer result and the new memory.

  A scan for a terminator has no bound in the code, so it is a \<open>partial_function (option)\<close> and
  \<open>None\<close> means that it runs on forever; the theorems show that it returns on every C string.
\<close>

section \<open>Memory blocks\<close>

function memcpy_loop :: "mem \<Rightarrow> u64 \<Rightarrow> u64 \<Rightarrow> u64 \<Rightarrow> u64 \<Rightarrow> mem" where
  "memcpy_loop m dest src sz index =
     (if index < sz then memcpy_loop (m(dest + index := m (src + index))) dest src sz (index + 1) else m)"
  by pat_completeness auto
termination
  by (relation "measure (\<lambda>(m, dest, src, sz, index). unat (sz - index))") (auto intro: loop_index_decreases)

definition memcpy :: "mem \<Rightarrow> u64 \<Rightarrow> u64 \<Rightarrow> u64 \<Rightarrow> u64 \<times> mem" where
  "memcpy m dest src sz = (dest, memcpy_loop m dest src sz 0)"

function memmove_back :: "mem \<Rightarrow> u64 \<Rightarrow> u64 \<Rightarrow> u64 \<Rightarrow> mem" where
  "memmove_back m dest src sz =
     (if 0 < sz then memmove_back (m(dest + (sz - 1) := m (src + (sz - 1)))) dest src (sz - 1) else m)"
  by pat_completeness auto
termination
  by (relation "measure (\<lambda>(m, dest, src, sz). unat sz)") (auto intro: measure_unat simp: word_gt_0 unat_minus_one unat_gt_0)

definition crt_memory_move :: "mem \<Rightarrow> u64 \<Rightarrow> u64 \<Rightarrow> u64 \<Rightarrow> u64 \<times> mem" where
  "crt_memory_move m dest src sz =
     (if dest = src \<or> sz = 0 then (dest, m)
      else if dest < src \<or> src + sz \<le> dest then (dest, memcpy_loop m dest src sz 0)
      else (dest, memmove_back m dest src sz))"

definition memmove :: "mem \<Rightarrow> u64 \<Rightarrow> u64 \<Rightarrow> u64 \<Rightarrow> u64 \<times> mem" where
  "memmove m dest src sz = crt_memory_move m dest src sz"

function memset_loop :: "mem \<Rightarrow> u64 \<Rightarrow> u8 \<Rightarrow> u64 \<Rightarrow> u64 \<Rightarrow> mem" where
  "memset_loop m dest v sz index =
     (if index < sz then memset_loop (m(dest + index := v)) dest v sz (index + 1) else m)"
  by pat_completeness auto
termination
  by (relation "measure (\<lambda>(m, dest, v, sz, index). unat (sz - index))") (auto intro: loop_index_decreases)

definition memset :: "mem \<Rightarrow> u64 \<Rightarrow> u32 \<Rightarrow> u64 \<Rightarrow> u64 \<times> mem" where
  "memset m dest value sz = (dest, memset_loop m dest (ucast value) sz 0)"

function crt_compare_bytes_from :: "mem \<Rightarrow> u64 \<Rightarrow> u64 \<Rightarrow> u64 \<Rightarrow> u64 \<Rightarrow> int" where
  "crt_compare_bytes_from m lhs rhs sz index =
     (if index < sz then
        (if m (lhs + index) \<noteq> m (rhs + index)
         then (if m (lhs + index) < m (rhs + index) then -1 else 1)
         else crt_compare_bytes_from m lhs rhs sz (index + 1))
      else 0)"
  by pat_completeness auto
termination
  by (relation "measure (\<lambda>(m, lhs, rhs, sz, index). unat (sz - index))") (auto intro: loop_index_decreases)

definition crt_compare_bytes :: "mem \<Rightarrow> u64 \<Rightarrow> u64 \<Rightarrow> u64 \<Rightarrow> int" where
  "crt_compare_bytes m lhs rhs sz = crt_compare_bytes_from m lhs rhs sz 0"

definition memcmp :: "mem \<Rightarrow> u64 \<Rightarrow> u64 \<Rightarrow> u64 \<Rightarrow> int" where
  "memcmp m lhs rhs sz = crt_compare_bytes m lhs rhs sz"

section \<open>Strings\<close>

partial_function (option) strlen_loop :: "mem \<Rightarrow> u64 \<Rightarrow> u64 \<Rightarrow> u64 option" where
  "strlen_loop m text len = (if m (text + len) \<noteq> 0 then strlen_loop m text (len + 1) else Some len)"

definition crt_string_length :: "mem \<Rightarrow> u64 \<Rightarrow> u64 option" where
  "crt_string_length m text = (if text = 0 then Some 0 else strlen_loop m text 0)"

definition strlen :: "mem \<Rightarrow> u64 \<Rightarrow> u64 option" where
  "strlen m text = crt_string_length m text"

function strnlen_from :: "mem \<Rightarrow> u64 \<Rightarrow> u64 \<Rightarrow> u64 \<Rightarrow> u64" where
  "strnlen_from m text max_size len =
     (if len < max_size \<and> m (text + len) \<noteq> 0 then strnlen_from m text max_size (len + 1) else len)"
  by pat_completeness auto
termination
  by (relation "measure (\<lambda>(m, text, max_size, len). unat (max_size - len))") (auto intro: loop_index_decreases)

definition strnlen :: "mem \<Rightarrow> u64 \<Rightarrow> u64 \<Rightarrow> u64" where
  "strnlen m text max_size = (if text = 0 then 0 else strnlen_from m text max_size 0)"

partial_function (option) strcmp_loop :: "mem \<Rightarrow> u64 \<Rightarrow> u64 \<Rightarrow> u64 \<Rightarrow> int option" where
  "strcmp_loop m lhs rhs index =
     (if m (lhs + index) \<noteq> 0 \<and> m (rhs + index) \<noteq> 0 then
        (if m (lhs + index) \<noteq> m (rhs + index)
         then Some (if m (lhs + index) < m (rhs + index) then -1 else 1)
         else strcmp_loop m lhs rhs (index + 1))
      else if m (lhs + index) = m (rhs + index) then Some 0
      else Some (if m (lhs + index) = 0 then -1 else 1))"

definition strcmp :: "mem \<Rightarrow> u64 \<Rightarrow> u64 \<Rightarrow> int option" where
  "strcmp m lhs rhs =
     (if lhs = rhs then Some 0 else if lhs = 0 then Some (-1) else if rhs = 0 then Some 1
      else strcmp_loop m lhs rhs 0)"

function strncmp_from :: "mem \<Rightarrow> u64 \<Rightarrow> u64 \<Rightarrow> u64 \<Rightarrow> u64 \<Rightarrow> int" where
  "strncmp_from m lhs rhs sz index =
     (if index < sz \<and> m (lhs + index) \<noteq> 0 \<and> m (rhs + index) \<noteq> 0 then
        (if m (lhs + index) \<noteq> m (rhs + index)
         then (if m (lhs + index) < m (rhs + index) then -1 else 1)
         else strncmp_from m lhs rhs sz (index + 1))
      else if index = sz then 0
      else if m (lhs + index) = m (rhs + index) then 0
      else (if m (lhs + index) = 0 then -1 else 1))"
  by pat_completeness auto
termination
  by (relation "measure (\<lambda>(m, lhs, rhs, sz, index). unat (sz - index))") (auto intro: loop_index_decreases)

definition strncmp :: "mem \<Rightarrow> u64 \<Rightarrow> u64 \<Rightarrow> u64 \<Rightarrow> int" where
  "strncmp m lhs rhs sz =
     (if lhs = rhs then 0 else if lhs = 0 then -1 else if rhs = 0 then 1 else strncmp_from m lhs rhs sz 0)"

partial_function (option) strcpy_loop :: "mem \<Rightarrow> u64 \<Rightarrow> u64 \<Rightarrow> u64 \<Rightarrow> mem option" where
  "strcpy_loop m dest src index =
     (if m (src + index) \<noteq> 0
      then strcpy_loop (m(dest + index := m (src + index))) dest src (index + 1)
      else Some (m(dest + index := m (src + index))))"

definition strcpy :: "mem \<Rightarrow> u64 \<Rightarrow> u64 \<Rightarrow> (u64 \<times> mem) option" where
  "strcpy m dest src =
     (if dest = 0 \<or> src = 0 then Some (dest, m)
      else do { m \<leftarrow> strcpy_loop m dest src 0; Some (dest, m) })"

text \<open>\<open>crt_copy_string\<close> differs from \<open>strcpy\<close> only in its \<open>NULL\<close> source.\<close>

definition crt_copy_string :: "mem \<Rightarrow> u64 \<Rightarrow> u64 \<Rightarrow> (u64 \<times> mem) option" where
  "crt_copy_string m dest src =
     (if dest = 0 then Some (dest, m)
      else if src = 0 then Some (dest, m(dest := 0))
      else do { m \<leftarrow> strcpy_loop m dest src 0; Some (dest, m) })"

text \<open>The index stays below the size, so \<open>index + 1U\<close> does not wrap.\<close>

function copy_limited_from :: "mem \<Rightarrow> u64 \<Rightarrow> u64 \<Rightarrow> u64 \<Rightarrow> nat \<Rightarrow> mem" where
  "copy_limited_from m dest src sz index =
     (if index + 1 < unat sz \<and> m (src + of_nat index) \<noteq> 0
      then copy_limited_from (m(dest + of_nat index := m (src + of_nat index))) dest src sz (index + 1)
      else m(dest + of_nat index := 0))"
  by pat_completeness auto
termination
  by (relation "measure (\<lambda>(m, dest, src, sz, index). unat sz - index)") auto

definition crt_copy_string_limited :: "mem \<Rightarrow> u64 \<Rightarrow> u64 \<Rightarrow> u64 \<Rightarrow> u64 \<times> mem" where
  "crt_copy_string_limited m dest src sz =
     (if dest = 0 \<or> sz = 0 then (dest, m)
      else if src = 0 then (dest, m(dest := 0))
      else (dest, copy_limited_from m dest src sz 0))"

function strncpy_copy :: "mem \<Rightarrow> u64 \<Rightarrow> u64 \<Rightarrow> u64 \<Rightarrow> u64 \<Rightarrow> mem \<times> u64" where
  "strncpy_copy m dest src sz index =
     (if index < sz \<and> m (src + index) \<noteq> 0
      then strncpy_copy (m(dest + index := m (src + index))) dest src sz (index + 1)
      else (m, index))"
  by pat_completeness auto
termination
  by (relation "measure (\<lambda>(m, dest, src, sz, index). unat (sz - index))") (auto intro: loop_index_decreases)

definition strncpy :: "mem \<Rightarrow> u64 \<Rightarrow> u64 \<Rightarrow> u64 \<Rightarrow> u64 \<times> mem" where
  "strncpy m dest src sz =
     (if dest = 0 \<or> sz = 0 then (dest, m)
      else if src = 0 then (dest, m(dest := 0))
      else (let (m, index) = strncpy_copy m dest src sz 0 in (dest, memset_loop m dest 0 sz index)))"

partial_function (option) strchr_loop :: "mem \<Rightarrow> u64 \<Rightarrow> u32 \<Rightarrow> u64 option" where
  "strchr_loop m text value =
     (if m text \<noteq> 0
      then (if m text = ucast value then Some text else strchr_loop m (text + 1) value)
      else Some (if value = 0 then text else 0))"

definition strchr :: "mem \<Rightarrow> u64 \<Rightarrow> u32 \<Rightarrow> u64 option" where
  "strchr m text value = (if text = 0 then Some 0 else strchr_loop m text value)"

partial_function (option) strstr_loop :: "mem \<Rightarrow> u64 \<Rightarrow> u64 \<Rightarrow> u64 \<Rightarrow> u64 option" where
  "strstr_loop m haystack needle needle_length =
     (if m haystack \<noteq> 0
      then (if m haystack = m needle \<and> strncmp m haystack needle needle_length = 0 then Some haystack
            else strstr_loop m (haystack + 1) needle needle_length)
      else Some 0)"

definition strstr :: "mem \<Rightarrow> u64 \<Rightarrow> u64 \<Rightarrow> u64 option" where
  "strstr m haystack needle =
     (if haystack = 0 \<or> needle = 0 then Some 0
      else if m needle = 0 then Some haystack
      else do {
        needle_length \<leftarrow> strlen m needle;
        strstr_loop m haystack needle needle_length
      })"

declare memcpy_loop.simps [simp del] memmove_back.simps [simp del] memset_loop.simps [simp del]
  crt_compare_bytes_from.simps [simp del] strnlen_from.simps [simp del] strncmp_from.simps [simp del]
  copy_limited_from.simps [simp del] strncpy_copy.simps [simp del]


section \<open>Block copies\<close>

lemma mem_bytes_upd_other:
  "(\<And>i. i < n \<Longrightarrow> p + of_nat i \<noteq> a) \<Longrightarrow> mem_bytes (m(a := b)) p n = mem_bytes m p n"
  by (simp add: mem_bytes_def)

lemma memcpy_loop_eq:
  assumes "\<And>i j. j < i \<Longrightarrow> i < unat (sz - index) \<Longrightarrow> src + index + of_nat i \<noteq> dest + index + of_nat j"
    and "index \<le> sz"
  shows "memcpy_loop m dest src sz index =
    memcopy m (dest + index) (mem_bytes m (src + index) (unat (sz - index)))"
  using assms
proof (induction "unat (sz - index)" arbitrary: m index)
  case 0
  then have "index = sz" by (simp add: unat_eq_0)
  then show ?case by (simp add: memcpy_loop.simps mem_bytes_def)
next
  case (Suc n)
  then have lt: "index < sz" by (metis order_le_less diff_self unat_0 nat.distinct(1))
  then have n: "n = unat (sz - (index + 1))" using Suc.hyps(2) unat_diff_Suc [of sz index] by auto
  let ?m = "m(dest + index := m (src + index))"
  have "src + (index + 1) + of_nat i \<noteq> dest + index" if "i < n" for i
    using Suc.prems(1) [of 0 "Suc i"] that Suc.hyps(2) by (simp add: ac_simps)
  then have same: "mem_bytes ?m (src + (index + 1)) n = mem_bytes m (src + (index + 1)) n"
    by (intro mem_bytes_upd_other) auto
  have "src + (index + 1) + of_nat i \<noteq> dest + (index + 1) + of_nat j" if "j < i" "i < n" for i j
    using Suc.prems(1) [of "Suc j" "Suc i"] that Suc.hyps(2) by (simp add: ac_simps)
  moreover have "index + 1 \<le> sz" using lt unat_add_one [OF lt] by (simp add: word_le_nat_alt word_less_nat_alt)
  ultimately have "memcpy_loop ?m dest src sz (index + 1) =
      memcopy ?m (dest + (index + 1)) (mem_bytes ?m (src + (index + 1)) n)"
    using Suc.hyps(1) [OF n, of ?m] n by simp
  with lt same show ?case
    by (simp add: memcpy_loop.simps [of m] Suc.hyps(2) [symmetric] mem_bytes_Suc add.assoc)
qed

lemma memmove_back_eq:
  assumes "\<And>i j. i < j \<Longrightarrow> j < unat sz \<Longrightarrow> src + of_nat i \<noteq> dest + of_nat j"
  shows "memmove_back m dest src sz = memcopy m dest (mem_bytes m src (unat sz))"
  using assms
proof (induction "unat sz" arbitrary: m sz)
  case 0
  then show ?case by (simp add: memmove_back.simps mem_bytes_def unat_eq_0)
next
  case (Suc n)
  then have pos: "0 < sz" by (metis unat_0 nat.distinct(1) word_gt_0)
  then have n: "n = unat (sz - 1)" using Suc.hyps(2) by (simp add: unat_minus_one word_gt_0)
  have k: "of_nat n = sz - 1" by (simp add: n)
  let ?b = "m (src + of_nat n)" and ?m = "m(dest + of_nat n := m (src + of_nat n))"
  let ?xs = "mem_bytes m src n"
  have "src + of_nat i \<noteq> dest + of_nat n" if "i < n" for i
    using Suc.prems [OF that] Suc.hyps(2) by simp
  then have same: "mem_bytes ?m src n = ?xs" by (intro mem_bytes_upd_other) auto
  have "memmove_back ?m dest src (sz - 1) = memcopy ?m dest ?xs"
    using Suc.hyps(1) [OF n, of ?m] Suc.prems Suc.hyps(2) same n by simp
  moreover have "memcopy ?m dest ?xs = (memcopy m dest ?xs)(dest + of_nat n := ?b)"
    using Suc.hyps(2) unat_u64_less [of sz]
    by (auto simp: memcopy_apply fun_eq_iff unat_of_nat_less)
  moreover have "mem_bytes m src (Suc n) = ?xs @ [?b]" by (simp add: mem_bytes_def)
  ultimately show ?case
    using pos k by (simp add: memmove_back.simps [of m] Suc.hyps(2) [symmetric] memcopy_append)
qed

lemma memset_loop_eq:
  assumes "index \<le> sz"
  shows "memset_loop m dest v sz index = memcopy m (dest + index) (replicate (unat (sz - index)) v)"
  using assms
proof (induction "unat (sz - index)" arbitrary: m index)
  case 0
  then have "index = sz" by (simp add: unat_eq_0)
  then show ?case by (simp add: memset_loop.simps)
next
  case (Suc n)
  then have lt: "index < sz" by (metis order_le_less diff_self unat_0 nat.distinct(1))
  then have n: "n = unat (sz - (index + 1))" using Suc.hyps(2) unat_diff_Suc [of sz index] by auto
  have "index + 1 \<le> sz" using lt unat_add_one [OF lt] by (simp add: word_le_nat_alt word_less_nat_alt)
  from Suc.hyps(1) [OF n this] lt n show ?case
    by (simp add: memset_loop.simps [of m] Suc.hyps(2) [symmetric] add.assoc)
qed

lemma offset_inj:
  fixes p q :: u64
  assumes "p + of_nat i = q + of_nat j" "unat p + i < 2 ^ 64" "unat q + j < 2 ^ 64"
  shows "unat p + i = unat q + j"
proof -
  have "unat (p + of_nat i) = unat p + i" if "unat p + i < 2 ^ 64" for p :: u64 and i
    using that by (simp add: unat_word_ariths unat_of_nat)
  with assms show ?thesis by metis
qed

section \<open>C strings\<close>

text \<open>The bytes \<open>s\<close> and a terminator at \<open>p\<close>, not at \<open>NULL\<close> and not past the address space.\<close>

definition cstr :: "mem \<Rightarrow> u64 \<Rightarrow> u8 list \<Rightarrow> bool" where
  "cstr m p s \<longleftrightarrow> p \<noteq> 0 \<and> unat p + length s < 2 ^ 64 \<and> 0 \<notin> set s \<and>
     mem_bytes m p (length s) = s \<and> m (p + of_nat (length s)) = 0"

lemma cstr_at: "cstr m p s \<Longrightarrow> i \<le> length s \<Longrightarrow> m (p + of_nat i) = c_at s i"
proof -
  assume a: "cstr m p s" "i \<le> length s"
  show ?thesis
  proof (cases "i = length s")
    case True
    with a show ?thesis by (simp add: cstr_def)
  next
    case False
    with a have "mem_bytes m p (length s) ! i = s ! i" by (simp add: cstr_def)
    with False a(2) show ?thesis by (simp add: mem_bytes_def)
  qed
qed

lemma c_at_zero_iff: "0 \<notin> set s \<Longrightarrow> i \<le> length s \<Longrightarrow> c_at s i = 0 \<longleftrightarrow> i = length s"
  by (auto simp: c_at_def) (metis nth_mem order_le_less)

lemma cstr_zero_iff: "cstr m p s \<Longrightarrow> i \<le> length s \<Longrightarrow> m (p + of_nat i) = 0 \<longleftrightarrow> i = length s"
  using cstr_at [of m p s i] c_at_zero_iff [of s i] by (simp add: cstr_def)

lemma cstr_no_wrap: "cstr m p s \<Longrightarrow> unat p + length s < 2 ^ 64"
  by (simp add: cstr_def)

lemma cstr_drop:
  assumes "cstr m p s" and "i \<le> length s"
  shows "cstr m (p + of_nat i) (drop i s)"
proof -
  have u: "unat (p + of_nat i) = unat p + i"
    using assms by (simp add: cstr_def unat_word_ariths unat_of_nat)
  have "0 < unat p" using assms(1) by (simp add: cstr_def unat_gt_0)
  then have "p + of_nat i \<noteq> 0" using u by (metis add_gr_0 unat_0 less_irrefl)
  moreover have "mem_bytes m (p + of_nat i) (length s - i) = drop i s"
  proof (rule nth_equalityI)
    show "mem_bytes m (p + of_nat i) (length s - i) ! k = drop i s ! k"
      if "k < length (mem_bytes m (p + of_nat i) (length s - i))" for k
      using that assms cstr_at [OF assms(1), of "i + k"] by (simp add: mem_bytes_def add.assoc)
  qed simp
  moreover have "0 \<notin> set (drop i s)" using assms(1) in_set_dropD by (fastforce simp: cstr_def)
  moreover have "p + of_nat i + of_nat (length s - i) = p + of_nat (length s)"
    using assms(2) by (simp add: add.assoc of_nat_add [symmetric] del: of_nat_add)
  ultimately show ?thesis using assms u by (simp add: cstr_def)
qed

lemma cstr_unique: "cstr m p s \<Longrightarrow> cstr m p t \<Longrightarrow> s = t"
proof -
  assume a: "cstr m p s" "cstr m p t"
  have "length s = length t"
    using cstr_zero_iff [OF a(1), of "length t"] cstr_zero_iff [OF a(2), of "length s"] a
    by (cases "length s \<le> length t") (auto simp: cstr_def)
  with a show ?thesis by (metis cstr_def)
qed

lemma strlen_loop_ok:
  assumes "cstr m p s" and "i \<le> length s"
  shows "strlen_loop m p (of_nat i) = Some (of_nat (length s))"
  using assms(2)
proof (induction "length s - i" arbitrary: i)
  case 0
  then show ?case using assms(1) by (simp add: strlen_loop.simps cstr_def)
next
  case (Suc n)
  then have "i < length s" "n = length s - Suc i" by simp_all
  with Suc.hyps(1) [of "Suc i"] cstr_zero_iff [OF assms(1), of i] show ?case
    by (simp add: strlen_loop.simps [of m p "of_nat i"] add.commute)
qed

lemma strlen_ok: "cstr m p s \<Longrightarrow> strlen m p = Some (of_nat (length s))"
  using strlen_loop_ok [of m p s 0] by (simp add: strlen_def crt_string_length_def cstr_def)

section \<open>Comparison\<close>

text \<open>Byte-wise lexicographic order with the sign the C functions return.\<close>

fun cmp_bytes :: "u8 list \<Rightarrow> u8 list \<Rightarrow> int" where
  "cmp_bytes [] [] = 0"
| "cmp_bytes [] (y # ys) = -1"
| "cmp_bytes (x # xs) [] = 1"
| "cmp_bytes (x # xs) (y # ys) = (if x \<noteq> y then (if x < y then -1 else 1) else cmp_bytes xs ys)"

lemma cmp_bytes_zero: "cmp_bytes xs ys = 0 \<longleftrightarrow> xs = ys"
  by (induction xs ys rule: cmp_bytes.induct) auto

lemma cmp_bytes_antisym: "cmp_bytes ys xs = - cmp_bytes xs ys"
  by (induction xs ys rule: cmp_bytes.induct) auto

lemma strcmp_loop_ok:
  assumes "cstr m p s" "cstr m q t" and "i \<le> length s" "i \<le> length t"
  shows "strcmp_loop m p q (of_nat i) = Some (cmp_bytes (drop i s) (drop i t))"
  using assms(3,4)
proof (induction "length s - i" arbitrary: i)
  case 0
  then have "i = length s" by simp
  with 0 assms cstr_zero_iff [OF assms(2), of i] show ?case
    by (cases "drop i t") (auto simp: strcmp_loop.simps cstr_def)
next
  case (Suc n)
  then have i: "i < length s" "n = length s - Suc i" by simp_all
  have ps: "m (p + of_nat i) = s ! i" "m (p + of_nat i) \<noteq> 0" "drop i s = s ! i # drop (Suc i) s"
    using cstr_at [OF assms(1), of i] cstr_zero_iff [OF assms(1), of i] i by (simp_all add: Cons_nth_drop_Suc)
  show ?case
  proof (cases "i = length t")
    case True
    with ps assms(2) show ?thesis by (auto simp: strcmp_loop.simps [of m p q] cstr_def)
  next
    case False
    with Suc.prems have j: "i < length t" by simp
    have qt: "m (q + of_nat i) = t ! i" "m (q + of_nat i) \<noteq> 0" "drop i t = t ! i # drop (Suc i) t"
      using cstr_at [OF assms(2), of i] cstr_zero_iff [OF assms(2), of i] j by (simp_all add: Cons_nth_drop_Suc)
    show ?thesis
      using ps qt Suc.hyps(1) [OF i(2)] i j
      by (simp add: strcmp_loop.simps [of m p q "of_nat i"] add.commute)
  qed
qed

lemma strcmp_ok:
  assumes "cstr m p s" "cstr m q t"
  shows "strcmp m p q = Some (cmp_bytes s t)"
proof (cases "p = q")
  case True
  with cstr_unique assms show ?thesis by (auto simp: strcmp_def cmp_bytes_zero)
next
  case False
  with strcmp_loop_ok [OF assms, of 0] assms show ?thesis by (simp add: strcmp_def cstr_def)
qed

lemma strncmp_from_ok:
  assumes "cstr m p s" "cstr m q t" and "i \<le> length s" "i \<le> length t" "i \<le> unat sz"
  shows "strncmp_from m p q sz (of_nat i) = cmp_bytes (take (unat sz - i) (drop i s)) (take (unat sz - i) (drop i t))"
  using assms(3-)
proof (induction "unat sz - i" arbitrary: i)
  case 0
  then have "i = unat sz" by simp
  then show ?case by (simp add: strncmp_from.simps)
next
  case (Suc n)
  then have k: "i < unat sz" "n = unat sz - Suc i" by simp_all
  then have lt: "of_nat i < sz"
    using unat_u64_less [of sz] by (simp add: word_less_nat_alt unat_of_nat)
  then have ne: "of_nat i \<noteq> sz" by simp
  have n: "unat sz - i = Suc n" using Suc.hyps(2) by simp
  consider "i = length s" "i = length t" | "i = length s" "i < length t" | "i < length s" "i = length t"
    | "i < length s" "i < length t" using Suc.prems by linarith
  then show ?case
  proof cases
    case 1
    with lt ne assms(1,2) show ?thesis by (simp add: strncmp_from.simps [of m p q] cstr_def)
  next
    case 2
    then have "m (p + of_nat i) = 0" "m (q + of_nat i) \<noteq> 0" "drop i t = t ! i # drop (Suc i) t"
      using cstr_zero_iff [OF assms(1), of i] cstr_zero_iff [OF assms(2), of i] by (simp_all add: Cons_nth_drop_Suc)
    with 2 lt ne n show ?thesis by (simp add: strncmp_from.simps [of m p q])
  next
    case 3
    then have "m (q + of_nat i) = 0" "m (p + of_nat i) \<noteq> 0" "drop i s = s ! i # drop (Suc i) s"
      using cstr_zero_iff [OF assms(1), of i] cstr_zero_iff [OF assms(2), of i] by (simp_all add: Cons_nth_drop_Suc)
    with 3 lt ne n show ?thesis by (simp add: strncmp_from.simps [of m p q])
  next
    case i: 4
    have ps: "m (p + of_nat i) = s ! i" "m (p + of_nat i) \<noteq> 0" "drop i s = s ! i # drop (Suc i) s"
      using cstr_at [OF assms(1), of i] cstr_zero_iff [OF assms(1), of i] i by (simp_all add: Cons_nth_drop_Suc)
    have qt: "m (q + of_nat i) = t ! i" "m (q + of_nat i) \<noteq> 0" "drop i t = t ! i # drop (Suc i) t"
      using cstr_at [OF assms(2), of i] cstr_zero_iff [OF assms(2), of i] i by (simp_all add: Cons_nth_drop_Suc)
    show ?thesis
      using ps qt Suc.hyps(1) [OF k(2)] i k(1) lt
      by (simp add: strncmp_from.simps [of m p q sz "of_nat i"] add.commute n k(2) [symmetric])
  qed
qed

lemma strncmp_ok:
  assumes "cstr m p s" "cstr m q t"
  shows "strncmp m p q sz = cmp_bytes (take (unat sz) s) (take (unat sz) t)"
proof (cases "p = q")
  case True
  with cstr_unique assms show ?thesis by (auto simp: strncmp_def cmp_bytes_zero)
next
  case False
  with strncmp_from_ok [OF assms, of 0 sz] assms show ?thesis by (simp add: strncmp_def cstr_def)
qed

section \<open>Search\<close>

definition found_at :: "u64 \<Rightarrow> nat option \<Rightarrow> u64" where
  "found_at p r = (case r of None \<Rightarrow> 0 | Some i \<Rightarrow> p + of_nat i)"

lemma find_append: "find P (xs @ ys) = (case find P xs of None \<Rightarrow> find P ys | Some x \<Rightarrow> Some x)"
  by (induction xs) auto

lemma prefix_take: "t = take (length t) xs \<longleftrightarrow> prefix t xs"
  by (metis append_take_drop_id prefix_def append_eq_conv_conj)

lemma strstr_loop_ok:
  assumes h: "cstr m p s" and n: "cstr m q t" "t \<noteq> []" and "i \<le> length s"
  shows "strstr_loop m (p + of_nat i) q (of_nat (length t)) =
    Some (found_at p (find (\<lambda>j. prefix t (drop j s)) [i..<length s]))"
  using assms(4)
proof (induction "length s - i" arbitrary: i)
  case 0
  then show ?case using h by (simp add: strstr_loop.simps found_at_def cstr_def)
next
  case (Suc k)
  then have i: "i < length s" "k = length s - Suc i" by simp_all
  have nz: "m (p + of_nat i) \<noteq> 0" using cstr_zero_iff [OF h, of i] i by simp
  have len: "unat (of_nat (length t) :: u64) = length t"
    using n(1) by (simp add: cstr_def unat_of_nat_less)
  have "strncmp m (p + of_nat i) q (of_nat (length t)) = 0 \<longleftrightarrow> prefix t (drop i s)"
    using strncmp_ok [OF cstr_drop [OF h, of i] n(1)] i len
    by (auto simp: cmp_bytes_zero prefix_take [symmetric])
  moreover have "prefix t (drop i s) \<Longrightarrow> m (p + of_nat i) = m q"
    using n h i cstr_at [OF h, of i] cstr_at [OF n(1), of 0]
    by (cases t) (auto simp: prefix_def Cons_nth_drop_Suc [symmetric])
  ultimately have hit: "m (p + of_nat i) = m q \<and> strncmp m (p + of_nat i) q (of_nat (length t)) = 0 \<longleftrightarrow>
      prefix t (drop i s)" by blast
  show ?case
    using nz hit i Suc.hyps(1) [OF i(2)]
    by (simp add: strstr_loop.simps [of m "p + of_nat i"] upt_conv_Cons found_at_def ac_simps)
qed

lemma strstr_ok:
  assumes "cstr m p s" "cstr m q t"
  shows "strstr m p q = Some (found_at p (find (\<lambda>j. prefix t (drop j s)) [0..<Suc (length s)]))"
proof (cases "t = []")
  case True
  with assms show ?thesis by (simp add: strstr_def cstr_def found_at_def upt_conv_Cons del: upt_Suc)
next
  case False
  then have "m q \<noteq> 0" using cstr_zero_iff [OF assms(2), of 0] by simp
  moreover have "find (\<lambda>j. prefix t (drop j s)) [0..<Suc (length s)] = find (\<lambda>j. prefix t (drop j s)) [0..<length s]"
    using False by (auto simp: find_append split: option.split)
  ultimately show ?thesis
    using strstr_loop_ok [OF assms(1,2) False, of 0] strlen_ok [OF assms(2)] assms
    by (simp add: strstr_def cstr_def)
qed

lemma strchr_loop_ok:
  assumes "cstr m p s" and v: "v = 0 \<or> (ucast v :: u8) \<noteq> 0" and "i \<le> length s"
  shows "strchr_loop m (p + of_nat i) v =
    Some (if v = 0 then p + of_nat (length s) else found_at p (find (\<lambda>j. s ! j = ucast v) [i..<length s]))"
  using assms(3)
proof (induction "length s - i" arbitrary: i)
  case 0
  then show ?case using assms(1) by (auto simp: strchr_loop.simps found_at_def cstr_def)
next
  case (Suc k)
  then have i: "i < length s" "k = length s - Suc i" by simp_all
  have c: "m (p + of_nat i) = s ! i" "m (p + of_nat i) \<noteq> 0"
    using cstr_at [OF assms(1), of i] cstr_zero_iff [OF assms(1), of i] i by simp_all
  show ?case
    using c i Suc.hyps(1) [OF i(2)] v
    by (auto simp: strchr_loop.simps [of m "p + of_nat i"] upt_conv_Cons found_at_def ac_simps)
qed

section \<open>String copies\<close>

lemma strncpy_copy_eq:
  assumes "cstr m0 src s"
    and keep: "\<And>j. j \<le> length s \<Longrightarrow> m (src + of_nat j) = m0 (src + of_nat j)"
    and apart: "\<And>i j. j \<le> length s \<Longrightarrow> i < unat sz \<Longrightarrow> src + of_nat j \<noteq> dest + of_nat i"
    and "i \<le> length s" "i \<le> unat sz"
  shows "strncpy_copy m dest src sz (of_nat i) =
    (memcopy m (dest + of_nat i) (take (unat sz - i) (drop i s)), of_nat (min (length s) (unat sz)))"
  using keep assms(4,5)
proof (induction "min (length s) (unat sz) - i" arbitrary: i m)
  case 0
  then have "i = min (length s) (unat sz)" by simp
  moreover have "m (src + of_nat (length s)) = 0" using 0(2) [of "length s"] assms(1) by (simp add: cstr_def)
  moreover have "\<not> (of_nat (unat sz) :: u64) < sz" by simp
  ultimately show ?case
    by (cases "length s < unat sz") (auto simp: strncpy_copy.simps min_def)
next
  case (Suc k)
  then have i: "i < length s" "i < unat sz" "k = min (length s) (unat sz) - Suc i" by simp_all
  have lt: "of_nat i < sz" using i unat_u64_less [of sz] by (simp add: word_less_nat_alt unat_of_nat)
  have c: "m (src + of_nat i) = s ! i" "m (src + of_nat i) \<noteq> 0"
    using Suc.prems(1) [of i] cstr_at [OF assms(1), of i] cstr_zero_iff [OF assms(1), of i] i by simp_all
  let ?m = "m(dest + of_nat i := m (src + of_nat i))"
  have "?m (src + of_nat j) = m0 (src + of_nat j)" if "j \<le> length s" for j
    using that apart [OF that i(2)] Suc.prems(1) [OF that] by simp
  note IH = Suc.hyps(1) [OF i(3), of ?m] this
  have "take (unat sz - i) (drop i s) = s ! i # take (unat sz - Suc i) (drop (Suc i) s)"
    using i by (simp add: Cons_nth_drop_Suc [symmetric] Suc_diff_Suc take_Cons')
  with IH i lt c show ?case
    by (simp add: strncpy_copy.simps [of m] ac_simps)
qed

lemma strncpy_ok:
  assumes "cstr m src s" and "dest \<noteq> 0" and "sz \<noteq> 0"
    and "\<And>i j. j \<le> length s \<Longrightarrow> i < unat sz \<Longrightarrow> src + of_nat j \<noteq> dest + of_nat i"
  shows "strncpy m dest src sz =
    (dest, memcopy m dest (take (unat sz) s @ replicate (unat sz - length s) 0))"
proof -
  let ?k = "min (length s) (unat sz)"
  have copy: "strncpy_copy m dest src sz 0 = (memcopy m dest (take (unat sz) s), of_nat ?k)"
    using strncpy_copy_eq [OF assms(1) refl assms(4), where i = 0] by simp
  have k: "unat (of_nat ?k :: u64) = ?k" using unat_u64_less [of sz] by (simp add: unat_of_nat_less)
  then have le: "of_nat ?k \<le> sz" by (simp add: word_le_nat_alt)
  then have "unat (sz - of_nat ?k) = unat sz - ?k" using k by (simp add: unat_sub)
  moreover have "unat sz - ?k = unat sz - length s" by simp
  ultimately show ?thesis
    using assms memset_loop_eq [OF le] copy
    by (simp add: strncpy_def cstr_def memcopy_append min.commute)
qed

section \<open>Properties\<close>

text \<open>C36: Moving a block copies the source as it was before the call, whatever the overlap: the
  result is the old memory with the old source bytes stored at the destination, nothing else
  changed.\<close>

theorem memmove_correct:
  assumes "unat src + unat sz < 2 ^ 64" and "unat dest + unat sz < 2 ^ 64"
  shows "memmove m dest src sz = (dest, memcopy m dest (mem_bytes m src (unat sz)))"
proof -
  have eq: "src + of_nat i = dest + of_nat j \<Longrightarrow> unat src + i = unat dest + j"
    if "i < unat sz" "j < unat sz" for i j
    using that assms by (intro offset_inj) simp_all
  have end_at: "unat (src + sz) = unat src + unat sz"
    using assms(1) by (simp add: unat_word_ariths)
  consider "dest = src" | "sz = 0" | "dest \<noteq> src" "sz \<noteq> 0" "dest < src \<or> src + sz \<le> dest"
    | "dest \<noteq> src" "sz \<noteq> 0" "\<not> (dest < src \<or> src + sz \<le> dest)" by blast
  then show ?thesis
  proof cases
    case 1
    have "memcopy m src (mem_bytes m src (unat sz)) = m"
      using unat_u64_less [of sz] by (auto simp: memcopy_apply fun_eq_iff mem_bytes_def)
    with 1 show ?thesis by (simp add: memmove_def crt_memory_move_def)
  next
    case 2
    then show ?thesis by (simp add: memmove_def crt_memory_move_def mem_bytes_def)
  next
    case 3
    have "src + of_nat i \<noteq> dest + of_nat j" if "j < i" "i < unat sz" for i j
      using eq [of i j] that 3(3) end_at by (auto simp: word_less_nat_alt word_le_nat_alt)
    then have "memcpy_loop m dest src sz 0 = memcopy m dest (mem_bytes m src (unat sz))"
      using memcpy_loop_eq [of sz 0 src dest m] by simp
    with 3 show ?thesis by (simp add: memmove_def crt_memory_move_def)
  next
    case 4
    have "src + of_nat i \<noteq> dest + of_nat j" if "i < j" "j < unat sz" for i j
      using eq [of i j] that 4(3) by (auto simp: not_less word_le_nat_alt)
    then have "memmove_back m dest src sz = memcopy m dest (mem_bytes m src (unat sz))"
      by (rule memmove_back_eq)
    with 4 show ?thesis by (simp add: memmove_def crt_memory_move_def)
  qed
qed

theorem memmove_correct_witness:
  "memmove (\<lambda>a. ucast a) 0x1002 0x1000 4 = (0x1002, memcopy (\<lambda>a. ucast a) 0x1002 (mem_bytes (\<lambda>a. ucast a) 0x1000 (unat (4 :: u64))))"
  by (rule memmove_correct) simp_all

text \<open>On C strings, \<open>strcmp\<close> and \<open>strncmp\<close> return, with the sign of the byte-wise
  lexicographic comparison of the strings, respectively of their first \<open>n\<close> bytes; the unbounded
  scan of \<open>strcmp\<close> always ends.\<close>

theorem strcmp_correct:
  assumes "cstr m p s" "cstr m q t"
  shows "strcmp m p q = Some (cmp_bytes s t) \<and> strncmp m p q sz = cmp_bytes (take (unat sz) s) (take (unat sz) t)"
  using strcmp_ok [OF assms] strncmp_ok [OF assms] by blast

definition demo_text :: mem where
  "demo_text = memcopy (memcopy (\<lambda>_. 0) 0x1000 [104, 101, 108, 108, 111]) 0x2000 [108, 111]"

lemma demo_text_cstr: "cstr demo_text 0x1000 [104, 101, 108, 108, 111]" "cstr demo_text 0x2000 [108, 111]"
  by (simp_all add: cstr_def demo_text_def mem_bytes_def upt_rec)

theorem strcmp_correct_witness:
  "strcmp demo_text 0x1000 0x2000 = Some (cmp_bytes [104, 101, 108, 108, 111] [108, 111]) \<and>
   strncmp demo_text 0x1000 0x2000 1 = cmp_bytes (take (unat (1 :: u64)) [104, 101, 108, 108, 111]) (take (unat (1 :: u64)) [108, 111])"
  by (rule strcmp_correct [OF demo_text_cstr])

text \<open>On C strings, \<open>strstr\<close> always returns: the address of the first position of the haystack
  at which the needle occurs, \<open>NULL\<close> when there is none; an empty needle is found at the start.\<close>

theorem strstr_correct:
  assumes "cstr m p s" "cstr m q t"
  shows "strstr m p q = Some (found_at p (find (\<lambda>j. prefix t (drop j s)) [0..<Suc (length s)]))"
  by (rule strstr_ok [OF assms])

theorem strstr_correct_witness:
  "strstr demo_text 0x1000 0x2000 =
    Some (found_at 0x1000 (find (\<lambda>j. prefix [108, 111 :: u8] (drop j [104, 101, 108, 108, 111])) [0..<Suc (length [104, 101, 108, 108, 111 :: u8])]))"
  by (rule strstr_correct [OF demo_text_cstr])

text \<open>Copying a C string with \<open>strncpy\<close> into a block it does not overlap stores exactly as many
  bytes as the size says: the first bytes of the string, then zeros; no byte outside changes, and
  the copy has no terminator when the string is not shorter than the size.\<close>

theorem strncpy_correct:
  assumes "cstr m src s" and "dest \<noteq> 0" and "sz \<noteq> 0"
    and "\<And>i j. j \<le> length s \<Longrightarrow> i < unat sz \<Longrightarrow> src + of_nat j \<noteq> dest + of_nat i"
  shows "strncpy m dest src sz =
    (dest, memcopy m dest (take (unat sz) s @ replicate (unat sz - length s) 0))"
  by (rule strncpy_ok [OF assms])

theorem strncpy_correct_witness:
  "strncpy demo_text 0x3000 0x2000 4 =
    (0x3000, memcopy demo_text 0x3000 (take (unat (4 :: u64)) [108, 111] @ replicate (unat (4 :: u64) - length [108, 111 :: u8]) 0))"
proof (rule strncpy_correct [OF demo_text_cstr(2)])
  fix i j :: nat
  assume "j \<le> length [108, 111 :: u8]" "i < unat (4 :: u64)"
  then have "j \<le> 2" "i < 4" by simp_all
  then show "0x2000 + of_nat j \<noteq> (0x3000 :: u64) + of_nat i"
    using offset_inj [of "0x2000" j "0x3000" i] by auto
qed simp_all

end
