(* ===== verification/Crt_Format.thy ===== *)
theory Crt_Format
  imports Crt_String
begin

unbundle bit_operations_syntax

text \<open>
  The formatter behind \<open>printf\<close> of \<^verbatim>\<open>src/applications/runtime/crt.c\<close> (\<open>format_*\<close>, \<open>vsnprintf\<close>,
  \<open>vsprintf\<close>, \<open>vprintf\<close>), the integer parser behind \<open>strtol\<close>/\<open>strtoul\<close>, and the integer helpers.

  The output buffer is byte-addressed memory, written at the addresses the code computes. The
  format and the texts of \<open>%s\<close> are byte strings without their terminator (reading them while the
  buffer overwrites them is undefined in C); a \<open>va_list\<close> is the list of its remaining arguments,
  each a 64-bit slot or a text. Field widths are integers: an overflowing width is undefined in C.
\<close>

datatype va_arg = VaWord u64 | VaText "u8 list option"

definition va_word :: "va_arg list \<Rightarrow> u64" where
  "va_word args = (case args of VaWord w # _ \<Rightarrow> w | _ \<Rightarrow> 0)"

definition va_text :: "va_arg list \<Rightarrow> u8 list option" where
  "va_text args = (case args of VaText t # _ \<Rightarrow> t | _ \<Rightarrow> None)"

record FormatSink =
  sink_buffer :: u64
  sink_capacity :: u64
  sink_length :: u64

type_synonym sink_state = "FormatSink \<times> mem"

section \<open>Pushing bytes\<close>

definition format_push_char :: "sink_state \<Rightarrow> u8 \<Rightarrow> sink_state" where
  "format_push_char st ch =
     (case st of (sink, m) \<Rightarrow>
        (sink\<lparr>sink_length := sink_length sink + 1\<rparr>,
         if sink_buffer sink \<noteq> 0 \<and> 0 < sink_capacity sink \<and> sink_length sink + 1 < sink_capacity sink
         then m(sink_buffer sink + sink_length sink := ch) else m))"

definition null_text :: "u8 list" where
  "null_text = [40, 110, 117, 108, 108, 41]"

primrec format_push_bytes :: "sink_state \<Rightarrow> u8 list \<Rightarrow> sink_state" where
  "format_push_bytes st [] = st"
| "format_push_bytes st (c # cs) = format_push_bytes (format_push_char st c) cs"

definition format_push_text :: "sink_state \<Rightarrow> u8 list option \<Rightarrow> sink_state" where
  "format_push_text st text = format_push_bytes st (case text of None \<Rightarrow> null_text | Some t \<Rightarrow> t)"

function format_push_padding :: "sink_state \<Rightarrow> int \<Rightarrow> u8 \<Rightarrow> sink_state" where
  "format_push_padding st n pad_char =
     (if 0 < n then format_push_padding (format_push_char st pad_char) (n - 1) pad_char else st)"
  by pat_completeness auto
termination
  by (relation "measure (\<lambda>(st, n, pad_char). nat n)") auto

definition format_text_length :: "u8 list option \<Rightarrow> u64" where
  "format_text_length text = (case text of None \<Rightarrow> 6 | Some t \<Rightarrow> of_nat (length t))"

section \<open>Numbers\<close>

definition digit_char :: "bool \<Rightarrow> u64 \<Rightarrow> u8" where
  "digit_char uppercase d =
     (if uppercase then [48, 49, 50, 51, 52, 53, 54, 55, 56, 57, 65, 66, 67, 68, 69, 70]
      else [48, 49, 50, 51, 52, 53, 54, 55, 56, 57, 97, 98, 99, 100, 101, 102]) ! unat d"

text \<open>The digits as they are put into the scratch array, least significant first.\<close>

function format_scratch :: "bool \<Rightarrow> u32 \<Rightarrow> u64 \<Rightarrow> u8 list" where
  "format_scratch uppercase base value =
     (if value \<noteq> 0 \<and> 2 \<le> base
      then digit_char uppercase (value mod ucast base) # format_scratch uppercase base (value div ucast base)
      else [])"
  by pat_completeness auto
termination
proof (relation "measure (\<lambda>(uppercase, base, value). unat value)", goal_cases)
  case 1
  show ?case by simp
next
  case (2 uppercase base v)
  have "unat (ucast base :: u64) = unat base"
    using unat_u32_less [of base] by (simp add: unsigned_ucast_eq take_bit_nat_eq_self)
  moreover have "2 \<le> unat base" using 2 by (simp add: word_le_nat_alt)
  moreover have "0 < unat v" using 2 by (simp add: unat_gt_0)
  ultimately show ?case by (simp add: unat_div)
qed

definition format_unsigned :: "u64 \<Rightarrow> u32 \<Rightarrow> bool \<Rightarrow> u8 list" where
  "format_unsigned value base uppercase =
     (if base < 2 \<or> 16 < base then []
      else if value = 0 then [48]
      else rev (format_scratch uppercase base value))"

definition format_number ::
  "sink_state \<Rightarrow> u64 \<Rightarrow> bool \<Rightarrow> u32 \<Rightarrow> bool \<Rightarrow> int \<Rightarrow> bool \<Rightarrow> bool \<Rightarrow> sink_state" where
  "format_number st value negative base uppercase width zero_pad prefix_hex =
     (let digits = format_unsigned value base uppercase;
          prefix_length = (if negative then 1 else 0) + (if prefix_hex then 2 else 0);
          gap = width - (int (length digits) + prefix_length);
          st = (if \<not> zero_pad then format_push_padding st gap 32 else st);
          st = (if negative then format_push_char st 45 else st);
          st = (if prefix_hex then format_push_char (format_push_char st 48) (if uppercase then 88 else 120) else st);
          st = (if zero_pad then format_push_padding st gap 48 else st)
      in format_push_bytes st digits)"

section \<open>Directives\<close>

fun format_width :: "u8 list \<Rightarrow> int \<Rightarrow> int \<times> u8 list" where
  "format_width (c # fmt) width =
     (if 48 \<le> c \<and> c \<le> 57 then format_width fmt (width * 10 + (uint c - 48)) else (width, c # fmt))"
| "format_width [] width = (width, [])"

fun format_longs :: "u8 list \<Rightarrow> nat \<Rightarrow> nat \<times> u8 list" where
  "format_longs (c # fmt) n =
     (if c = 108 then format_longs fmt (Suc n) else if c = 122 then format_longs fmt 1 else (n, c # fmt))"
| "format_longs [] n = (n, [])"

lemma length_format_width: "length (snd (format_width fmt w)) \<le> length fmt"
  by (induction fmt w rule: format_width.induct) auto

lemma length_format_longs: "length (snd (format_longs fmt n)) \<le> length fmt"
  by (induction fmt n rule: format_longs.induct) auto

text \<open>A signed argument: \<open>long\<close> and \<open>long long\<close> are the slot, \<open>int\<close> its low half sign-extended.\<close>

definition va_signed :: "nat \<Rightarrow> va_arg list \<Rightarrow> u64" where
  "va_signed long_count args = (if long_count \<noteq> 0 then va_word args else scast (ucast (va_word args) :: u32))"

definition va_unsigned :: "nat \<Rightarrow> va_arg list \<Rightarrow> u64" where
  "va_unsigned long_count args = (if long_count \<noteq> 0 then va_word args else ucast (ucast (va_word args) :: u32))"

definition format_directive ::
  "sink_state \<Rightarrow> u8 \<Rightarrow> int \<Rightarrow> bool \<Rightarrow> nat \<Rightarrow> va_arg list \<Rightarrow> sink_state \<times> va_arg list" where
  "format_directive st spec width zero_pad long_count args =
     (if spec = 99 then (format_push_char st (ucast (va_word args)), tl args)
      else if spec = 115 then
        (let text = va_text args;
             st = format_push_padding st (width - sint (ucast (format_text_length text) :: u32)) 32
         in (format_push_text st text, tl args))
      else if spec = 100 \<or> spec = 105 then
        (let value = va_signed long_count args;
             magnitude = (if value <s 0 then - value else value)
         in (format_number st magnitude (value <s 0) 10 False width zero_pad False, tl args))
      else if spec = 117 then
        (format_number st (va_unsigned long_count args) False 10 False width zero_pad False, tl args)
      else if spec = 120 \<or> spec = 88 then
        (format_number st (va_unsigned long_count args) False 16 (spec = 88) width zero_pad False, tl args)
      else if spec = 112 then
        (format_number st (va_word args) False 16 False (if 0 < width then width else 2) True True, tl args)
      else (format_push_char (format_push_char st 37) spec, args))"

function format_loop :: "sink_state \<Rightarrow> u8 list \<Rightarrow> va_arg list \<Rightarrow> sink_state" where
  "format_loop st fmt args =
     (case fmt of
        [] \<Rightarrow> st
      | c # fmt \<Rightarrow>
          if c \<noteq> 37 then format_loop (format_push_char st c) fmt args
          else if fmt \<noteq> [] \<and> hd fmt = 37 then format_loop (format_push_char st 37) (tl fmt) args
          else
            (let zero_pad = (fmt \<noteq> [] \<and> hd fmt = 48);
                 fmt = (if zero_pad then tl fmt else fmt);
                 (width, fmt) = format_width fmt 0;
                 (long_count, fmt) = format_longs fmt 0
             in (case fmt of
                   [] \<Rightarrow> st
                 | spec # rest \<Rightarrow>
                     (let (st, args) = format_directive st spec width zero_pad long_count args
                      in format_loop st rest args))))"
  by pat_completeness auto
termination
proof (relation "measure (\<lambda>(st, fmt, args). length fmt)", goal_cases)
  case 1
  show ?case by simp
next
  case 2
  then show ?case by simp
next
  case 3
  then show ?case by simp
next
  case (4 st fmt args c rest zp fmt1 wf width fmt2 lf longs fmt3 spec rest3 sa st1 args1)
  have "length fmt1 \<le> length rest" using 4 by auto
  moreover have "length fmt2 \<le> length fmt1" using 4 length_format_width [of fmt1 0] by (metis snd_conv)
  moreover have "length fmt3 \<le> length fmt2" using 4 length_format_longs [of fmt2 0] by (metis snd_conv)
  ultimately show ?case using 4 by auto
qed

definition format_vprintf :: "sink_state \<Rightarrow> u8 list option \<Rightarrow> va_arg list \<Rightarrow> int \<times> mem" where
  "format_vprintf st fmt args =
     (let (sink, m) = (case fmt of None \<Rightarrow> st | Some f \<Rightarrow> format_loop st f args);
          m = (if sink_buffer sink \<noteq> 0 \<and> 0 < sink_capacity sink
               then m(sink_buffer sink +
                      (if sink_length sink < sink_capacity sink then sink_length sink else sink_capacity sink - 1) := 0)
               else m)
      in (sint (ucast (sink_length sink) :: u32), m))"

definition crt_vformat_to_buffer :: "mem \<Rightarrow> u64 \<Rightarrow> u64 \<Rightarrow> u8 list option \<Rightarrow> va_arg list \<Rightarrow> int \<times> mem" where
  "crt_vformat_to_buffer m buffer sz fmt args =
     format_vprintf (\<lparr>sink_buffer = buffer, sink_capacity = sz, sink_length = 0\<rparr>, m) fmt args"

definition vsnprintf :: "mem \<Rightarrow> u64 \<Rightarrow> u64 \<Rightarrow> u8 list option \<Rightarrow> va_arg list \<Rightarrow> int \<times> mem" where
  "vsnprintf m buffer sz fmt args = crt_vformat_to_buffer m buffer sz fmt args"

definition vsprintf :: "mem \<Rightarrow> u64 \<Rightarrow> u8 list option \<Rightarrow> va_arg list \<Rightarrow> int \<times> mem" where
  "vsprintf m buffer fmt args = crt_vformat_to_buffer m buffer (-1) fmt args"

declare format_push_padding.simps [simp del] format_scratch.simps [simp del] format_loop.simps [simp del]

section \<open>Parsing integers\<close>

definition crt_ascii_tolower :: "int \<Rightarrow> int" where
  "crt_ascii_tolower value = (if 65 \<le> value \<and> value \<le> 90 then value + (97 - 65) else value)"

definition crt_ascii_toupper :: "int \<Rightarrow> int" where
  "crt_ascii_toupper value = (if 97 \<le> value \<and> value \<le> 122 then value - (97 - 65) else value)"

definition crt_ascii_isalpha :: "int \<Rightarrow> bool" where
  "crt_ascii_isalpha value \<longleftrightarrow> (65 \<le> value \<and> value \<le> 90) \<or> (97 \<le> value \<and> value \<le> 122)"

definition crt_ascii_isdigit :: "int \<Rightarrow> bool" where
  "crt_ascii_isdigit value \<longleftrightarrow> 48 \<le> value \<and> value \<le> 57"

definition crt_ascii_isspace :: "int \<Rightarrow> bool" where
  "crt_ascii_isspace value \<longleftrightarrow> value \<in> {32, 9, 10, 13, 12, 11}"

definition digit_of :: "u8 \<Rightarrow> int option" where
  "digit_of c =
     (if crt_ascii_isdigit (uint c) then Some (uint c - 48)
      else if crt_ascii_isalpha (uint c) then Some (crt_ascii_tolower (uint c) - 97 + 10)
      else None)"

fun parse_digits :: "int \<Rightarrow> u8 list \<Rightarrow> u64 \<Rightarrow> u64 \<times> u8 list" where
  "parse_digits used_base (c # cs) value =
     (case digit_of c of
        None \<Rightarrow> (value, c # cs)
      | Some digit \<Rightarrow>
          if digit < 0 \<or> used_base \<le> digit then (value, c # cs)
          else parse_digits used_base cs (value * word_of_int used_base + word_of_int digit))"
| "parse_digits used_base [] value = (value, [])"

text \<open>\<open>text\<close> is the string, the second result the rest that \<open>endptr\<close> points to.\<close>

definition crt_parse_unsigned :: "u8 list option \<Rightarrow> int \<Rightarrow> bool \<Rightarrow> Status + (u64 \<times> u8 list)" where
  "crt_parse_unsigned text base negative =
     (case text of
        None \<Rightarrow> Inl StatusInvalidArgument
      | Some t \<Rightarrow>
          (let cursor = dropWhile (\<lambda>c. crt_ascii_isspace (uint c)) t;
               (negative, cursor) =
                 (if c_at cursor 0 = 43 \<or> c_at cursor 0 = 45 then (c_at cursor 0 = 45, tl cursor) else (negative, cursor));
               hex = (c_at cursor 0 = 48 \<and> (c_at cursor 1 = 120 \<or> c_at cursor 1 = 88));
               (used_base, cursor) =
                 (if base = 0 then
                    (if c_at cursor 0 = 48 then (if hex then (16, drop 2 cursor) else (8, cursor)) else (10, cursor))
                  else if base = 16 \<and> hex then (16, drop 2 cursor)
                  else (base, cursor));
               (value, cursor) = parse_digits used_base cursor 0
           in Inr (if negative then - value else value, cursor)))"

definition strtol :: "u8 list option \<Rightarrow> int \<Rightarrow> int" where
  "strtol text base = (case crt_parse_unsigned text base False of Inl _ \<Rightarrow> 0 | Inr (v, _) \<Rightarrow> sint v)"

definition strtoul :: "u8 list option \<Rightarrow> int \<Rightarrow> u64" where
  "strtoul text base = (case crt_parse_unsigned text base False of Inl _ \<Rightarrow> 0 | Inr (v, _) \<Rightarrow> v)"


section \<open>What a format denotes\<close>

text \<open>The text a format and its arguments stand for, independent of any buffer.\<close>

definition padding :: "int \<Rightarrow> u8 \<Rightarrow> u8 list" where
  "padding n c = replicate (nat n) c"

definition render_number :: "u64 \<Rightarrow> bool \<Rightarrow> u32 \<Rightarrow> bool \<Rightarrow> int \<Rightarrow> bool \<Rightarrow> bool \<Rightarrow> u8 list" where
  "render_number v negative base uppercase width zero_pad prefix_hex =
     (let digits = format_unsigned v base uppercase;
          sign = (if negative then [45] else []) @ (if prefix_hex then [48, if uppercase then 88 else 120] else []);
          gap = width - int (length (sign @ digits))
      in if zero_pad then sign @ padding gap 48 @ digits else padding gap 32 @ sign @ digits)"

definition shown_text :: "u8 list option \<Rightarrow> u8 list" where
  "shown_text text = (case text of None \<Rightarrow> null_text | Some t \<Rightarrow> t)"

definition render_directive :: "u8 \<Rightarrow> int \<Rightarrow> bool \<Rightarrow> nat \<Rightarrow> va_arg list \<Rightarrow> u8 list \<times> va_arg list" where
  "render_directive spec width zero_pad long_count args =
     (if spec = 99 then ([ucast (va_word args)], tl args)
      else if spec = 115 then
        (padding (width - sint (ucast (format_text_length (va_text args)) :: u32)) 32 @ shown_text (va_text args), tl args)
      else if spec = 100 \<or> spec = 105 then
        (let v = va_signed long_count args
         in (render_number (if v <s 0 then - v else v) (v <s 0) 10 False width zero_pad False, tl args))
      else if spec = 117 then (render_number (va_unsigned long_count args) False 10 False width zero_pad False, tl args)
      else if spec = 120 \<or> spec = 88 then
        (render_number (va_unsigned long_count args) False 16 (spec = 88) width zero_pad False, tl args)
      else if spec = 112 then
        (render_number (va_word args) False 16 False (if 0 < width then width else 2) True True, tl args)
      else ([37, spec], args))"

text \<open>A directive is what follows a percent sign, up to its conversion character.\<close>

definition split_directive :: "u8 list \<Rightarrow> bool \<times> int \<times> nat \<times> u8 list" where
  "split_directive fmt =
     (let zero_pad = (fmt \<noteq> [] \<and> hd fmt = 48);
          (width, fmt) = format_width (if zero_pad then tl fmt else fmt) 0;
          (long_count, fmt) = format_longs fmt 0
      in (zero_pad, width, long_count, fmt))"

lemma length_split_directive: "split_directive fmt = (z, w, l, rest) \<Longrightarrow> length rest \<le> length fmt"
proof -
  assume a: "split_directive fmt = (z, w, l, rest)"
  let ?f = "if fmt \<noteq> [] \<and> hd fmt = 48 then tl fmt else fmt"
  have "rest = snd (format_longs (snd (format_width ?f 0)) 0)"
    using a by (auto simp: split_directive_def Let_def split: prod.splits)
  moreover have "length ?f \<le> length fmt" by auto
  ultimately show ?thesis
    using length_format_longs [of "snd (format_width ?f 0)" 0] length_format_width [of ?f 0] by simp
qed

function render :: "u8 list \<Rightarrow> va_arg list \<Rightarrow> u8 list" where
  "render [] args = []"
| "render (c # fmt) args =
     (if c \<noteq> 37 then c # render fmt args
      else if fmt \<noteq> [] \<and> hd fmt = 37 then 37 # render (tl fmt) args
      else (case split_directive fmt of
              (z, w, l, []) \<Rightarrow> []
            | (z, w, l, spec # rest) \<Rightarrow>
                (case render_directive spec w z l args of (out, args) \<Rightarrow> out @ render rest args)))"
  by pat_completeness auto
termination
  by (relation "measure (\<lambda>(fmt, args). length fmt)") (auto dest!: length_split_directive [OF sym])

section \<open>The sink holds what was pushed\<close>

definition sink_holds :: "mem \<Rightarrow> u64 \<Rightarrow> u64 \<Rightarrow> u8 list \<Rightarrow> sink_state \<Rightarrow> bool" where
  "sink_holds m0 buf cap out st \<longleftrightarrow> length out < 2 ^ 64 \<and>
     st = (\<lparr>sink_buffer = buf, sink_capacity = cap, sink_length = of_nat (length out)\<rparr>,
           if buf \<noteq> 0 then memcopy m0 buf (take (unat cap - 1) out) else m0)"

lemma push_char_holds:
  assumes "sink_holds m0 buf cap out st" and "Suc (length out) < 2 ^ 64"
  shows "sink_holds m0 buf cap (out @ [c]) (format_push_char st c)"
proof -
  have "unat (of_nat (Suc (length out)) :: u64) = Suc (length out)"
    using assms(2) by (intro unat_of_nat_less) simp
  moreover have suc: "of_nat (length out) + 1 = (of_nat (Suc (length out)) :: u64)" by simp
  ultimately have c: "of_nat (length out) + 1 < cap \<longleftrightarrow> Suc (length out) < unat cap"
    by (simp only: word_less_nat_alt)
  have p: "Suc (length out) < unat cap \<Longrightarrow> 0 < cap" by (simp add: word_less_nat_alt)
  have st: "st = (\<lparr>sink_buffer = buf, sink_capacity = cap, sink_length = of_nat (length out)\<rparr>,
      if buf \<noteq> 0 then memcopy m0 buf (take (unat cap - 1) out) else m0)"
    using assms(1) by (simp add: sink_holds_def)
  show ?thesis
  proof (cases "Suc (length out) < unat cap")
    case True
    then have "take (unat cap - 1) out = out" "take (unat cap - 1) (out @ [c]) = out @ [c]" by simp_all
    then show ?thesis
      unfolding sink_holds_def st format_push_char_def using True assms(2) c p
      by (simp add: memcopy_append add.commute)
  next
    case False
    then have "take (unat cap - 1) (out @ [c]) = take (unat cap - 1) out" by simp
    then show ?thesis
      unfolding sink_holds_def st format_push_char_def using False assms(2) c
      by (simp add: add.commute)
  qed
qed

lemma push_bytes_holds:
  "sink_holds m0 buf cap out st \<Longrightarrow> length (out @ cs) < 2 ^ 64 \<Longrightarrow>
   sink_holds m0 buf cap (out @ cs) (format_push_bytes st cs)"
proof (induction cs arbitrary: out st)
  case Nil
  then show ?case by simp
next
  case (Cons c cs)
  with push_char_holds [of m0 buf cap out st c] Cons.IH [of "out @ [c]"] show ?case by simp
qed

lemma push_padding_holds:
  "sink_holds m0 buf cap out st \<Longrightarrow> length (out @ padding n c) < 2 ^ 64 \<Longrightarrow>
   sink_holds m0 buf cap (out @ padding n c) (format_push_padding st n c)"
proof (induction "nat n" arbitrary: n out st)
  case 0
  then show ?case by (simp add: format_push_padding.simps padding_def)
next
  case (Suc k)
  then have n: "0 < n" "k = nat (n - 1)" by simp_all
  then have pad: "padding n c = c # padding (n - 1) c"
    using Suc.hyps(2) by (simp add: padding_def) (metis replicate_Suc)
  have "sink_holds m0 buf cap (out @ [c]) (format_push_char st c)"
    using Suc.prems by (intro push_char_holds) (simp_all add: pad)
  from Suc.hyps(1) [OF n(2) this] Suc.prems(2) n(1) show ?case
    by (simp add: format_push_padding.simps [of st] pad)
qed

lemma push_number_holds:
  assumes "sink_holds m0 buf cap out st" and "length (out @ render_number v neg base up w z hex) < 2 ^ 64"
  shows "sink_holds m0 buf cap (out @ render_number v neg base up w z hex) (format_number st v neg base up w z hex)"
proof -
  let ?ds = "format_unsigned v base up"
  let ?sign = "if neg then [45 :: u8] else []" and ?hex = "if hex then [48, if up then 88 else 120 :: u8] else []"
  let ?gap = "w - (int (length ?ds) + ((if neg then 1 else 0) + (if hex then 2 else 0)))"
  let ?pre = "if z then [] else padding ?gap 32" and ?post = "if z then padding ?gap 48 else []"
  have r: "render_number v neg base up w z hex = ?pre @ ?sign @ ?hex @ ?post @ ?ds"
    by (simp add: render_number_def Let_def algebra_simps)
  define s1 where "s1 = (if \<not> z then format_push_padding st ?gap 32 else st)"
  define s2 where "s2 = (if neg then format_push_char s1 45 else s1)"
  define s3 where "s3 = (if hex then format_push_char (format_push_char s2 48) (if up then 88 else 120) else s2)"
  define s4 where "s4 = (if z then format_push_padding s3 ?gap 48 else s3)"
  have h1: "sink_holds m0 buf cap (out @ ?pre) s1"
    using assms by (auto simp: s1_def r intro: push_padding_holds)
  have h2: "sink_holds m0 buf cap (out @ ?pre @ ?sign) s2"
    using h1 push_bytes_holds [OF h1, of ?sign] assms(2) by (auto simp: s2_def r)
  have h3: "sink_holds m0 buf cap (out @ ?pre @ ?sign @ ?hex) s3"
    using h2 push_bytes_holds [OF h2, of ?hex] assms(2) by (auto simp: s3_def r)
  have h4: "sink_holds m0 buf cap (out @ ?pre @ ?sign @ ?hex @ ?post) s4"
    using h3 push_padding_holds [OF h3, of ?gap 48] assms(2) by (auto simp: s4_def r)
  have "sink_holds m0 buf cap (out @ ?pre @ ?sign @ ?hex @ ?post @ ?ds) (format_push_bytes s4 ?ds)"
    using push_bytes_holds [OF h4, of ?ds] assms(2) by (simp add: r)
  moreover have "format_number st v neg base up w z hex = format_push_bytes s4 ?ds"
    by (simp add: format_number_def Let_def s1_def s2_def s3_def s4_def)
  ultimately show ?thesis by (simp only: r)
qed

lemma directive_holds:
  assumes "sink_holds m0 buf cap out st" and r: "render_directive spec w z l args = (new, args')"
    and len: "length (out @ new) < 2 ^ 64"
  shows "snd (format_directive st spec w z l args) = args' \<and>
    sink_holds m0 buf cap (out @ new) (fst (format_directive st spec w z l args))"
proof -
  note num = push_number_holds [OF assms(1)]
  consider "spec = 99" | "spec = 115" | "spec = 100 \<or> spec = 105" | "spec = 117" | "spec = 120 \<or> spec = 88" | "spec = 112"
    | "spec \<notin> {99, 115, 100, 105, 117, 120, 88, 112}" by auto
  then show ?thesis
  proof cases
    case 1
    with r len push_char_holds [OF assms(1)] show ?thesis
      by (auto simp: render_directive_def format_directive_def)
  next
    case 2
    let ?gap = "w - sint (ucast (format_text_length (va_text args)) :: u32)"
    have "sink_holds m0 buf cap (out @ padding ?gap 32) (format_push_padding st ?gap 32)"
      using 2 r len by (intro push_padding_holds [OF assms(1)]) (auto simp: render_directive_def)
    from push_bytes_holds [OF this, of "shown_text (va_text args)"] 2 r len show ?thesis
      by (auto simp: render_directive_def format_directive_def Let_def format_push_text_def shown_text_def)
  next
    case 3
    with r len num show ?thesis by (auto simp: render_directive_def format_directive_def Let_def)
  next
    case 4
    with r len num show ?thesis by (auto simp: render_directive_def format_directive_def)
  next
    case 5
    with r len num show ?thesis by (auto simp: render_directive_def format_directive_def)
  next
    case 6
    with r len num show ?thesis by (auto simp: render_directive_def format_directive_def)
  next
    case 7
    with r len push_bytes_holds [OF assms(1), of "[37, spec]"] show ?thesis
      by (auto simp: render_directive_def format_directive_def)
  qed
qed

lemma format_loop_holds:
  "sink_holds m0 buf cap out st \<Longrightarrow> length (out @ render fmt args) < 2 ^ 64 \<Longrightarrow>
   sink_holds m0 buf cap (out @ render fmt args) (format_loop st fmt args)"
proof (induction fmt args arbitrary: out st rule: render.induct)
  case (1 args)
  then show ?case by (simp add: format_loop.simps)
next
  case (2 c fmt args)
  show ?case
  proof (cases "c = 37")
    case False
    with 2(5) push_char_holds [OF 2(4), of c] 2(1) [OF False, of "out @ [c]" "format_push_char st c"] show ?thesis
      by (simp add: format_loop.simps [of st "c # fmt"])
  next
    case c: True
    show ?thesis
    proof (cases "fmt \<noteq> [] \<and> hd fmt = 37")
      case True
      with c 2(5) push_char_holds [OF 2(4), of 37] 2(2) [of "out @ [37]" "format_push_char st 37"] show ?thesis
        by (simp add: format_loop.simps [of st "37 # fmt"])
    next
      case False
      obtain z w l rest where sd: "split_directive fmt = (z, w, l, rest)" by (metis prod_cases4)
      have loop: "format_loop st (c # fmt) args =
          (case rest of [] \<Rightarrow> st
           | spec # rest \<Rightarrow> (case format_directive st spec w z l args of (st, args) \<Rightarrow> format_loop st rest args))"
        using False sd unfolding c
        by (auto simp: format_loop.simps [of st "37 # fmt"] split_directive_def Let_def split: prod.splits list.splits)
      show ?thesis
      proof (cases rest)
        case Nil
        with loop c False sd 2(4) show ?thesis by auto
      next
        case (Cons spec rest')
        obtain new args' where rd: "render_directive spec w z l args = (new, args')" by (metis surj_pair)
        have r: "render (c # fmt) args = new @ render rest' args'" using c False sd Cons rd by auto
        have "sink_holds m0 buf cap (out @ new) (fst (format_directive st spec w z l args))"
          "snd (format_directive st spec w z l args) = args'"
          using directive_holds [OF 2(4) rd] 2(5) r by simp_all
        note new = this
        have "sink_holds m0 buf cap o1 s1 \<Longrightarrow> length (o1 @ render rest' args') < 2 ^ 64 \<Longrightarrow>
            sink_holds m0 buf cap (o1 @ render rest' args') (format_loop s1 rest' args')" for o1 s1
          using 2(3) c False sd Cons rd by auto
        from this [OF new(1)] new(2) loop Cons r 2(5) show ?thesis by (simp add: case_prod_beta del: render.simps)
      qed
    qed
  qed
qed

section \<open>Printed numbers read back\<close>

lemma digit_table:
  "list_all (\<lambda>k. digit_of (digit_char True (of_nat k)) = Some (int k)) [0..<16]"
  "list_all (\<lambda>k. digit_of (digit_char False (of_nat k)) = Some (int k)) [0..<16]"
  by code_simp+

lemma digit_of_digit_char:
  assumes "unat d < 16"
  shows "digit_of (digit_char up d) = Some (int (unat d))"
proof -
  have "digit_of (digit_char up (of_nat k)) = Some (int k)" if "k < 16" for k
    using digit_table that by (cases up) (auto simp: list_all_iff)
  from this [OF assms] show ?thesis by simp
qed

lemma unat_ucast_u32: "unat (ucast (x :: u32) :: u64) = unat x"
  using unat_u32_less [of x] by (simp add: unsigned_ucast_eq take_bit_nat_eq_self)

lemma parse_format_scratch:
  assumes "2 \<le> base" "base \<le> 16"
  shows "parse_digits (uint base) (rev (format_scratch up base v) @ rest) acc =
    parse_digits (uint base) rest (acc * ucast base ^ length (format_scratch up base v) + v)"
proof (induction "unat v" arbitrary: v rest rule: less_induct)
  case less
  show ?case
  proof (cases "v = 0")
    case True
    then show ?thesis by (simp add: format_scratch.simps)
  next
    case False
    let ?B = "ucast base :: u64"
    have b: "2 \<le> unat base" "unat base \<le> 16" using assms by (simp_all add: word_le_nat_alt)
    have lt: "unat (v div ?B) < unat v"
      using False b by (simp add: unat_div unat_ucast_u32 unat_gt_0)
    have d: "unat (v mod ?B) < unat base" using b by (simp add: unat_mod unat_ucast_u32)
    then have dc: "digit_of (digit_char up (v mod ?B)) = Some (int (unat (v mod ?B)))"
      using b by (intro digit_of_digit_char) simp
    have ib: "int (unat (v mod ?B)) < uint base" using d unfolding uint_nat by (simp only: of_nat_less_iff)
    have wb: "word_of_int (uint base) = ?B" by (simp only: ucast_eq)
    have wd: "word_of_int (int (unat (v mod ?B))) = v mod ?B" by simp
    have step: "format_scratch up base v = digit_char up (v mod ?B) # format_scratch up base (v div ?B)"
      using False assms(1) by (simp add: format_scratch.simps [of up base v])
    have "parse_digits (uint base) (rev (format_scratch up base v) @ rest) acc =
        parse_digits (uint base) (digit_char up (v mod ?B) # rest)
          (acc * ?B ^ length (format_scratch up base (v div ?B)) + v div ?B)"
      using less.hyps [OF lt, of "digit_char up (v mod ?B) # rest"] by (simp add: step)
    also have "\<dots> = parse_digits (uint base) rest
        ((acc * ?B ^ length (format_scratch up base (v div ?B)) + v div ?B) * ?B + v mod ?B)"
      using ib by (simp only: parse_digits.simps dc option.case wb wd) (simp add: not_le)
    also have "(acc * ?B ^ length (format_scratch up base (v div ?B)) + v div ?B) * ?B + v mod ?B =
        acc * ?B ^ length (format_scratch up base v) + v"
      using word_mod_div_equality [of v ?B] by (simp add: step algebra_simps)
    finally show ?thesis .
  qed
qed

lemma format_scratch_digits:
  assumes "2 \<le> base" "base \<le> 16" "c \<in> set (format_scratch up base v)"
  shows "\<exists>d. unat d < 16 \<and> c = digit_char up d"
  using assms(3)
proof (induction "unat v" arbitrary: v rule: less_induct)
  case less
  let ?B = "ucast base :: u64"
  have b: "2 \<le> unat base" "unat base \<le> 16" using assms by (simp_all add: word_le_nat_alt)
  have v: "v \<noteq> 0" using less.prems by (auto simp: format_scratch.simps [of up base v])
  then have lt: "unat (v div ?B) < unat v" using b by (simp add: unat_div unat_ucast_u32 unat_gt_0)
  have "unat (v mod ?B) < unat base" using b by (simp add: unat_mod unat_ucast_u32)
  then have "unat (v mod ?B) < 16" using b by simp
  with less.prems less.hyps [OF lt] v assms(1) show ?case
    by (auto simp: format_scratch.simps [of up base v])
qed

lemma format_unsigned_digits:
  assumes "2 \<le> base" "base \<le> 16" "c \<in> set (format_unsigned v base up)"
  shows "\<exists>d. unat d < 16 \<and> c = digit_char up d"
proof (cases "v = 0")
  case True
  with assms have "c = digit_char up 0" by (auto simp: format_unsigned_def digit_char_def split: if_splits)
  then show ?thesis by (intro exI [of _ 0]) simp
next
  case False
  with assms format_scratch_digits [OF assms(1,2)] show ?thesis
    by (auto simp: format_unsigned_def split: if_splits)
qed

definition plain_char :: "u8 \<Rightarrow> bool" where
  "plain_char c \<longleftrightarrow> \<not> crt_ascii_isspace (uint c) \<and> c \<noteq> 43 \<and> c \<noteq> 45 \<and> c \<noteq> 120 \<and> c \<noteq> 88"

lemma plain_table:
  "list_all (\<lambda>k. plain_char (digit_char True (of_nat k))) [0..<16]"
  "list_all (\<lambda>k. plain_char (digit_char False (of_nat k))) [0..<16]"
  by code_simp+

lemma digit_char_plain:
  assumes "unat d < 16"
  shows "plain_char (digit_char up d)"
proof -
  have "plain_char (digit_char up (of_nat k))" if "k < 16" for k
    using plain_table that by (cases up) (auto simp: list_all_iff)
  from this [OF assms] show ?thesis by simp
qed

lemma format_unsigned_nonempty: "2 \<le> base \<Longrightarrow> base \<le> 16 \<Longrightarrow> format_unsigned v base up \<noteq> []"
  by (auto simp: format_unsigned_def format_scratch.simps [of up base v] not_less)

lemma parse_format_unsigned:
  assumes "2 \<le> base" "base \<le> 16"
  shows "crt_parse_unsigned (Some (format_unsigned v base up)) (uint base) neg =
    Inr (if neg then - v else v, [])"
proof -
  let ?t = "format_unsigned v base up"
  obtain c cs where t: "?t = c # cs" using format_unsigned_nonempty [OF assms] by (metis neq_Nil_conv)
  have plain: "plain_char x" if "x \<in> set ?t" for x
    using format_unsigned_digits [OF assms that] digit_char_plain by auto
  have c: "\<not> crt_ascii_isspace (uint c)" "c \<noteq> 43" "c \<noteq> 45" using plain [of c] t by (auto simp: plain_char_def)
  have x: "c_at ?t 1 \<noteq> 120" "c_at ?t 1 \<noteq> 88"
    using plain [of "cs ! 0"] t by (cases cs; auto simp: c_at_def plain_char_def)+
  have p: "parse_digits (uint base) ?t 0 = (v, [])"
  proof (cases "v = 0")
    case True
    have "digit_of 48 = Some 0" by code_simp
    moreover have "0 < uint base" using assms(1) by (simp add: word_le_def)
    ultimately show ?thesis using True assms by (auto simp: format_unsigned_def not_less not_le)
  next
    case False
    with assms parse_format_scratch [OF assms, of up v "[]" 0] show ?thesis
      by (auto simp: format_unsigned_def not_less not_le)
  qed
  have "uint base \<noteq> 0" using assms(1) by (simp add: word_le_def)
  with c x p t show ?thesis
    by (simp add: crt_parse_unsigned_def Let_def)
qed

section \<open>Properties\<close>

text \<open>C37: Formatting into a buffer stores exactly the denoted text, cut to one byte less than the
  buffer's size, and a terminator, writes nothing outside the buffer, and returns the length the
  whole text has (as an \<open>int\<close>).\<close>

theorem vsnprintf_correct:
  assumes "buf \<noteq> 0" and "sz \<noteq> 0" and "length (render fmt args) < 2 ^ 64"
  shows "vsnprintf m buf sz (Some fmt) args =
    (sint (of_nat (length (render fmt args)) :: u32),
     memcopy m buf (take (unat sz - 1) (render fmt args) @ [0]))"
proof -
  let ?r = "render fmt args" and ?st = "(\<lparr>sink_buffer = buf, sink_capacity = sz, sink_length = 0\<rparr>, m)"
  have "sink_holds m buf sz [] ?st" using assms(1) by (simp add: sink_holds_def)
  from format_loop_holds [OF this, of fmt args] assms
  have loop: "format_loop ?st fmt args =
      (\<lparr>sink_buffer = buf, sink_capacity = sz, sink_length = of_nat (length ?r)\<rparr>, memcopy m buf (take (unat sz - 1) ?r))"
    by (simp add: sink_holds_def)
  have u: "unat (of_nat (length ?r) :: u64) = length ?r" using assms(3) by (intro unat_of_nat_less) simp
  have pos: "0 < unat sz" using assms(2) by (simp add: unat_gt_0)
  have at_end: "(if of_nat (length ?r) < sz then of_nat (length ?r) else sz - 1) = of_nat (length (take (unat sz - 1) ?r))"
  proof (cases "length ?r < unat sz")
    case True
    then have "of_nat (length ?r) < sz" by (simp add: word_less_nat_alt u)
    with True show ?thesis by (simp add: min_absorb1)
  next
    case False
    then have "\<not> of_nat (length ?r) < sz" by (simp add: word_less_nat_alt u)
    moreover have "length (take (unat sz - 1) ?r) = unat (sz - 1)"
      using False assms(2) by (simp add: unat_minus_one)
    ultimately show ?thesis by simp
  qed
  have "ucast (of_nat (length ?r) :: u64) = (of_nat (length ?r) :: u32)"
    using u by (simp add: word_unat_eq_iff unsigned_ucast_eq unat_of_nat take_bit_eq_mod)
  then show ?thesis
    using loop at_end assms pos
    by (simp add: vsnprintf_def crt_vformat_to_buffer_def format_vprintf_def memcopy_append word_gt_0 split: if_splits)
qed

theorem vsnprintf_correct_witness:
  "vsnprintf (\<lambda>_. 7) 0x1000 8 (Some [37, 48, 53, 100, 33, 37, 115]) [VaWord 0xFFFFFFD6, VaText (Some [104, 105])] =
    (sint (of_nat (length (render [37, 48, 53, 100, 33, 37, 115] [VaWord 0xFFFFFFD6, VaText (Some [104, 105])])) :: u32),
     memcopy (\<lambda>_. 7) 0x1000
       (take (unat (8 :: u64) - 1) (render [37, 48, 53, 100, 33, 37, 115] [VaWord 0xFFFFFFD6, VaText (Some [104, 105])]) @ [0]))"
proof (rule vsnprintf_correct)
  have "render [37, 48, 53, 100, 33, 37, 115] [VaWord 0xFFFFFFD6, VaText (Some [104, 105])] =
      [45, 48, 48, 52, 50, 33, 104, 105]" by code_simp
  then show "length (render [37, 48, 53, 100, 33, 37, 115] [VaWord 0xFFFFFFD6, VaText (Some [104, 105])]) < 2 ^ 64"
    by simp
qed simp_all

text \<open>Every number printed in a base from 2 to 16, in either case, reads back through
  \<open>strtoul\<close> in that base as the same number.\<close>

theorem strtoul_format_unsigned:
  assumes "2 \<le> base" "base \<le> 16"
  shows "strtoul (Some (format_unsigned v base up)) (uint base) = v"
  using parse_format_unsigned [OF assms, of v up False] by (simp add: strtoul_def)

theorem strtoul_format_unsigned_witness: "strtoul (Some (format_unsigned 0xBEEF 16 True)) (uint (16 :: u32)) = 0xBEEF"
  by (rule strtoul_format_unsigned) simp_all

text \<open>Printing a \<open>long\<close> with \<open>%ld\<close> and reading the text with \<open>strtol\<close> gives the number back,
  for every 64-bit value, the most negative one included.\<close>

theorem strtol_printed_long: "strtol (Some (render [37, 108, 100] [VaWord w])) 10 = sint w"
proof -
  have "render [37, 108, 100] [VaWord w] =
      (if w <s 0 then 45 # format_unsigned (- w) 10 False else format_unsigned w 10 False)"
    by (simp add: split_directive_def render_directive_def va_signed_def va_word_def render_number_def padding_def)
  moreover have "crt_parse_unsigned (Some (45 # format_unsigned (- w) 10 False)) 10 False = Inr (w, [])"
  proof -
    have "crt_parse_unsigned (Some (45 # t)) 10 False = (case crt_parse_unsigned (Some t) 10 True of Inr (v, r) \<Rightarrow> Inr (v, r))"
      if "t \<noteq> []" "plain_char (hd t)" for t
      using that by (cases t) (auto simp: crt_parse_unsigned_def crt_ascii_isspace_def plain_char_def Let_def split: prod.split)
    moreover have "plain_char (hd (format_unsigned (- w) 10 False))"
      using format_unsigned_digits [of 10 "hd (format_unsigned (- w) 10 False)" "- w" False]
        format_unsigned_nonempty [of 10 "- w" False] digit_char_plain by auto
    ultimately show ?thesis
      using parse_format_unsigned [of 10 "- w" False True] format_unsigned_nonempty [of 10 "- w" False] by simp
  qed
  ultimately show ?thesis
    using parse_format_unsigned [of 10 w False False] by (simp add: strtol_def)
qed

end
