(* ===== verification/Heap.thy ===== *)
theory Heap
  imports Prelude
begin

text \<open>
  The allocator as its clients see it: the outcomes of the successive requests are given
  (\<open>grants\<close>), and requests and live blocks are counted, so that leaks on the error paths of a
  client are visible.
\<close>

record heap =
  grants :: "nat \<Rightarrow> bool"
  asked :: nat
  live :: nat

definition malloc :: "heap \<Rightarrow> bool \<times> heap" where
  "malloc h =
     (if grants h (asked h) then (True, h\<lparr>asked := Suc (asked h), live := Suc (live h)\<rparr>)
      else (False, h\<lparr>asked := Suc (asked h)\<rparr>))"

definition free :: "heap \<Rightarrow> heap" where
  "free h = h\<lparr>live := live h - 1\<rparr>"

lemma malloc_live: "malloc h = (ok, h') \<Longrightarrow> live h' = live h + of_bool ok \<and> grants h' = grants h"
  by (auto simp: malloc_def split: if_splits)

lemma free_live [simp]: "live (free h) = live h - 1" "grants (free h) = grants h"
  by (simp_all add: free_def)

end
