(* ===== verification/Crt_Env.thy ===== *)
theory Crt_Env
  imports Crt_String Heap
begin

text \<open>
  The process environment and the exit handlers of \<^verbatim>\<open>src/applications/runtime/crt.c\<close>.

  The environment is the linked list from \<open>g_environment_head\<close>, as the list of its entries; names
  and values are byte strings without terminator, compared as \<open>strcmp\<close> compares them, and \<open>None\<close> is
  \<open>NULL\<close>. The shared heap is not part of the runtime: it is given by the outcomes of its successive
  allocation requests (\<open>grants\<close>) and the model counts requests and live blocks, so that leaks on the
  error paths are visible.
\<close>

record CrtEnvironmentEntry =
  env_name :: "u8 list"
  env_value :: "u8 list"

record env =
  g_environment_head :: "CrtEnvironmentEntry list"
  env_heap :: heap

section \<open>The registry\<close>

definition crt_duplicate_string :: "heap \<Rightarrow> u8 list option \<Rightarrow> u8 list option \<times> heap" where
  "crt_duplicate_string h source =
     (case source of
        None \<Rightarrow> (None, h)
      | Some s \<Rightarrow> (case malloc h of (ok, h) \<Rightarrow> (if ok then Some s else None, h)))"

fun find_entry :: "CrtEnvironmentEntry list \<Rightarrow> u8 list \<Rightarrow> CrtEnvironmentEntry option" where
  "find_entry [] name = None"
| "find_entry (entry # rest) name = (if cmp_bytes (env_name entry) name = 0 then Some entry else find_entry rest name)"

definition crt_find_env_entry :: "env \<Rightarrow> u8 list option \<Rightarrow> CrtEnvironmentEntry option" where
  "crt_find_env_entry e name =
     (case name of None \<Rightarrow> None | Some n \<Rightarrow> find_entry (g_environment_head e) n)"

text \<open>Writing through the pointer that the search returned.\<close>

fun replace_value :: "CrtEnvironmentEntry list \<Rightarrow> u8 list \<Rightarrow> u8 list \<Rightarrow> CrtEnvironmentEntry list" where
  "replace_value [] name v = []"
| "replace_value (entry # rest) name v =
     (if cmp_bytes (env_name entry) name = 0 then entry\<lparr>env_value := v\<rparr> # rest
      else entry # replace_value rest name v)"

definition crt_free_env_entry :: "heap \<Rightarrow> heap" where
  "crt_free_env_entry h = free (free (free h))"

definition crt_store_env_pair :: "env \<Rightarrow> u8 list \<Rightarrow> u8 list \<Rightarrow> int \<times> env" where
  "crt_store_env_pair e name v =
     (case crt_find_env_entry e (Some name) of
        Some entry \<Rightarrow>
          (case crt_duplicate_string (env_heap e) (Some v) of
             (None, h) \<Rightarrow> (-1, e\<lparr>env_heap := h\<rparr>)
           | (Some value_copy, h) \<Rightarrow>
               (0, \<lparr>g_environment_head = replace_value (g_environment_head e) name value_copy, env_heap = free h\<rparr>))
      | None \<Rightarrow>
          (case crt_duplicate_string (env_heap e) (Some name) of
             (None, h) \<Rightarrow> (-1, e\<lparr>env_heap := h\<rparr>)
           | (Some name_copy, h) \<Rightarrow>
               (case crt_duplicate_string h (Some v) of
                  (None, h) \<Rightarrow> (-1, e\<lparr>env_heap := free h\<rparr>)
                | (Some value_copy, h) \<Rightarrow>
                    (case malloc h of
                       (False, h) \<Rightarrow> (-1, e\<lparr>env_heap := free (free h)\<rparr>)
                     | (True, h) \<Rightarrow>
                         (0, \<lparr>g_environment_head = \<lparr>env_name = name_copy, env_value = value_copy\<rparr> # g_environment_head e,
                              env_heap = h\<rparr>)))))"

definition crt_find_env_value :: "env \<Rightarrow> u8 list option \<Rightarrow> u8 list option" where
  "crt_find_env_value e name = map_option env_value (crt_find_env_entry e name)"

fun remove_entry :: "CrtEnvironmentEntry list \<Rightarrow> u8 list \<Rightarrow> heap \<Rightarrow> CrtEnvironmentEntry list \<times> heap" where
  "remove_entry [] name h = ([], h)"
| "remove_entry (entry # rest) name h =
     (if cmp_bytes (env_name entry) name = 0 then (rest, crt_free_env_entry h)
      else (case remove_entry rest name h of (rest, h) \<Rightarrow> (entry # rest, h)))"

definition crt_remove_env_pair :: "env \<Rightarrow> u8 list \<Rightarrow> env" where
  "crt_remove_env_pair e name =
     (case remove_entry (g_environment_head e) name (env_heap e) of
        (es, h) \<Rightarrow> \<lparr>g_environment_head = es, env_heap = h\<rparr>)"

fun clear_entries :: "CrtEnvironmentEntry list \<Rightarrow> heap \<Rightarrow> heap" where
  "clear_entries [] h = h"
| "clear_entries (entry # rest) h = clear_entries rest (crt_free_env_entry h)"

definition crt_clear_env_pairs :: "env \<Rightarrow> env" where
  "crt_clear_env_pairs e = \<lparr>g_environment_head = [], env_heap = clear_entries (g_environment_head e) (env_heap e)\<rparr>"

section \<open>The public functions\<close>

definition getenv :: "env \<Rightarrow> u8 list option \<Rightarrow> u8 list option" where
  "getenv e name = crt_find_env_value e name"

definition setenv :: "env \<Rightarrow> u8 list option \<Rightarrow> u8 list option \<Rightarrow> bool \<Rightarrow> int \<times> env" where
  "setenv e name v overwrite =
     (case (name, v) of
        (Some n, Some x) \<Rightarrow>
          if c_at n 0 = 0 then (-1, e)
          else if \<not> overwrite \<and> crt_find_env_value e (Some n) \<noteq> None then (0, e)
          else crt_store_env_pair e n x
      | _ \<Rightarrow> (-1, e))"

definition unsetenv :: "env \<Rightarrow> u8 list option \<Rightarrow> int \<times> env" where
  "unsetenv e name =
     (case name of
        None \<Rightarrow> (-1, e)
      | Some n \<Rightarrow> if c_at n 0 = 0 then (-1, e) else (0, crt_remove_env_pair e n))"

definition clearenv :: "env \<Rightarrow> int \<times> env" where
  "clearenv e = (0, crt_clear_env_pairs e)"

section \<open>Exit handlers\<close>

text \<open>Handlers are named by their addresses; \<open>exit\<close> calls the list from its head.\<close>

definition atexit :: "u64 list \<times> heap \<Rightarrow> u64 \<Rightarrow> int \<times> u64 list \<times> heap" where
  "atexit st function_at =
     (case st of (handlers, h) \<Rightarrow>
        if function_at = 0 then (-1, handlers, h)
        else (case malloc h of
                (False, h) \<Rightarrow> (-1, handlers, h)
              | (True, h) \<Rightarrow> (0, function_at # handlers, h)))"

fun exit_calls :: "u64 list \<Rightarrow> u64 list" where
  "exit_calls [] = []"
| "exit_calls (node # rest) = node # exit_calls rest"

section \<open>Stores that behave like finite maps\<close>

text \<open>
  What a client of a key-value registry relies on: writes may be refused, a refused write changes
  no binding, and every operation acts on the bindings as on a finite map and keeps the invariant.
\<close>

locale registry =
  fixes inv :: "'s \<Rightarrow> bool"
    and get :: "'s \<Rightarrow> 'k \<Rightarrow> 'v option"
    and put :: "'s \<Rightarrow> 'k \<Rightarrow> 'v \<Rightarrow> bool \<times> 's"
    and del :: "'s \<Rightarrow> 'k \<Rightarrow> 's"
    and clear :: "'s \<Rightarrow> 's"
  assumes put_inv: "inv s \<Longrightarrow> inv (snd (put s k v))"
    and del_inv: "inv s \<Longrightarrow> inv (del s k)"
    and clear_inv: "inv s \<Longrightarrow> inv (clear s)"
    and get_put: "inv s \<Longrightarrow> get (snd (put s k v)) = (if fst (put s k v) then (get s)(k \<mapsto> v) else get s)"
    and get_del: "inv s \<Longrightarrow> get (del s k) = (get s)(k := None)"
    and get_clear: "inv s \<Longrightarrow> get (clear s) = Map.empty"
begin

lemma get_put_same: "inv s \<Longrightarrow> fst (put s k v) \<Longrightarrow> get (snd (put s k v)) k = Some v"
  by (simp add: get_put)

lemma last_put_wins:
  assumes "inv s" and "fst (put s k v)" and "fst (put (snd (put s k v)) k w)"
  shows "get (snd (put (snd (put s k v)) k w)) = (get s)(k \<mapsto> w)"
  using assms put_inv [OF assms(1), of k v] by (simp add: get_put)

lemma del_after_put:
  assumes "inv s" and "get s k = None"
  shows "get (del (snd (put s k v)) k) = get s"
  using assms put_inv [OF assms(1), of k v] by (auto simp: get_del get_put)

lemma put_commute:
  assumes "inv s" "k \<noteq> l" "fst (put s k v)" "fst (put (snd (put s k v)) l w)"
    "fst (put s l w)" "fst (put (snd (put s l w)) k v)"
  shows "get (snd (put (snd (put s k v)) l w)) = get (snd (put (snd (put s l w)) k v))"
  using assms put_inv [OF assms(1)] by (simp add: get_put fun_upd_twist)

end

section \<open>The environment is such a store\<close>

text \<open>No name is stored twice, and each entry owns exactly three live blocks.\<close>

definition env_inv :: "nat \<Rightarrow> env \<Rightarrow> bool" where
  "env_inv others e \<longleftrightarrow> distinct (map env_name (g_environment_head e)) \<and>
     live (env_heap e) = others + 3 * length (g_environment_head e)"

definition env_map :: "env \<Rightarrow> u8 list \<rightharpoonup> u8 list" where
  "env_map e = map_of (map (\<lambda>x. (env_name x, env_value x)) (g_environment_head e))"

lemma find_entry_map:
  "map_option env_value (find_entry es n) = map_of (map (\<lambda>x. (env_name x, env_value x)) es) n"
  by (induction es) (auto simp: cmp_bytes_zero)

lemma find_entry_None: "find_entry es n = None \<longleftrightarrow> n \<notin> env_name ` set es"
  by (induction es) (auto simp: cmp_bytes_zero)

lemma replace_value_names [simp]:
  "map env_name (replace_value es n v) = map env_name es" "length (replace_value es n v) = length es"
  by (induction es) auto

lemma replace_value_map:
  "find_entry es n \<noteq> None \<Longrightarrow>
   map_of (map (\<lambda>x. (env_name x, env_value x)) (replace_value es n v)) =
   (map_of (map (\<lambda>x. (env_name x, env_value x)) es))(n \<mapsto> v)"
  by (induction es) (auto simp: cmp_bytes_zero fun_eq_iff)

lemma remove_entry_effect:
  assumes "distinct (map env_name es)" and "remove_entry es n h = (es', h')" and "3 * length es \<le> live h"
  shows "map_of (map (\<lambda>x. (env_name x, env_value x)) es') = (map_of (map (\<lambda>x. (env_name x, env_value x)) es))(n := None) \<and>
    distinct (map env_name es') \<and> live h' + 3 * length es = live h + 3 * length es' \<and> set es' \<subseteq> set es"
  using assms
proof (induction es arbitrary: es' h')
  case Nil
  then show ?case by auto
next
  case (Cons x es)
  show ?case
  proof (cases "env_name x = n")
    case True
    with Cons.prems have "es' = es" "h' = crt_free_env_entry h" by (auto simp: cmp_bytes_zero)
    moreover have "map_of (map (\<lambda>x. (env_name x, env_value x)) es) n = None"
      using Cons.prems(1) True by (auto simp: map_of_eq_None_iff)
    ultimately show ?thesis using Cons.prems True
      by (auto simp: crt_free_env_entry_def free_def fun_eq_iff)
  next
    case False
    obtain es1 h1 where r: "remove_entry es n h = (es1, h1)" by (metis surj_pair)
    with Cons.prems False have e: "es' = x # es1" "h' = h1" by (auto simp: cmp_bytes_zero)
    from Cons.IH [OF _ r] Cons.prems have "map_of (map (\<lambda>x. (env_name x, env_value x)) es1) =
        (map_of (map (\<lambda>x. (env_name x, env_value x)) es))(n := None)" "distinct (map env_name es1)"
      "live h1 + 3 * length es = live h + 3 * length es1" "set es1 \<subseteq> set es" by (auto simp: fun_eq_iff)
    with e False Cons.prems(1) show ?thesis by (auto simp: fun_eq_iff)
  qed
qed

lemma clear_entries_live: "live (clear_entries es h) = live h - 3 * length es"
  by (induction es arbitrary: h) (auto simp: crt_free_env_entry_def free_def)

lemma store_env_pair_effect:
  assumes "env_inv others e"
  shows "env_inv others (snd (crt_store_env_pair e n v)) \<and>
    fst (crt_store_env_pair e n v) \<in> {0, -1} \<and>
    env_map (snd (crt_store_env_pair e n v)) =
      (if fst (crt_store_env_pair e n v) = 0 then (env_map e)(n \<mapsto> v) else env_map e)"
proof (cases "find_entry (g_environment_head e) n")
  case None
  then have new: "n \<notin> env_name ` set (g_environment_head e)" by (simp add: find_entry_None)
  show ?thesis
    using assms None new
    by (simp add: crt_store_env_pair_def crt_find_env_entry_def crt_duplicate_string_def malloc_def free_def
        env_inv_def env_map_def)
next
  case (Some x)
  then have "g_environment_head e \<noteq> []" by auto
  then have "0 < length (g_environment_head e)" by simp
  with assms Some replace_value_map [of "g_environment_head e" n v] show ?thesis
    by (simp add: crt_store_env_pair_def crt_find_env_entry_def crt_duplicate_string_def malloc_def free_def
        env_inv_def env_map_def)
qed

lemma remove_env_pair_effect:
  assumes "env_inv others e"
  shows "env_inv others (crt_remove_env_pair e n) \<and> env_map (crt_remove_env_pair e n) = (env_map e)(n := None)"
proof -
  obtain es h where r: "remove_entry (g_environment_head e) n (env_heap e) = (es, h)" by (metis surj_pair)
  from remove_entry_effect [OF _ r] assms show ?thesis
    by (auto simp: env_inv_def env_map_def crt_remove_env_pair_def r)
qed

interpretation env_store: registry "env_inv others" env_map
  "\<lambda>e n v. (fst (crt_store_env_pair e n v) = 0, snd (crt_store_env_pair e n v))"
  crt_remove_env_pair crt_clear_env_pairs for others
  using store_env_pair_effect remove_env_pair_effect
  by unfold_locales
    (auto simp: crt_clear_env_pairs_def env_inv_def env_map_def clear_entries_live)


section \<open>Sequences of calls\<close>

datatype env_call = SetEnv "u8 list option" "u8 list option" bool | UnsetEnv "u8 list option" | ClearEnv

definition env_apply :: "env \<Rightarrow> env_call \<Rightarrow> env" where
  "env_apply e c =
     (case c of SetEnv n v ow \<Rightarrow> snd (setenv e n v ow) | UnsetEnv n \<Rightarrow> snd (unsetenv e n) | ClearEnv \<Rightarrow> snd (clearenv e))"

inductive env_reachable :: "heap \<Rightarrow> env \<Rightarrow> bool" for h0 where
  start: "env_reachable h0 \<lparr>g_environment_head = [], env_heap = h0\<rparr>"
| call: "env_reachable h0 e \<Longrightarrow> env_reachable h0 (env_apply e c)"

lemma getenv_map: "getenv e (Some n) = env_map e n"
  by (simp add: getenv_def crt_find_env_value_def crt_find_env_entry_def find_entry_map env_map_def)

lemma env_apply_inv:
  assumes "env_inv others e"
  shows "env_inv others (env_apply e c)"
proof (cases c)
  case (SetEnv n v ow)
  with assms store_env_pair_effect [OF assms] show ?thesis
    by (auto simp: env_apply_def setenv_def split: option.split)
next
  case (UnsetEnv n)
  with assms env_store.del_inv [OF assms] show ?thesis
    by (auto simp: env_apply_def unsetenv_def split: option.split)
next
  case ClearEnv
  with env_store.clear_inv [OF assms] show ?thesis by (simp add: env_apply_def clearenv_def)
qed

lemma env_reachable_inv: "env_reachable h0 e \<Longrightarrow> env_inv (live h0) e"
proof (induction rule: env_reachable.induct)
  case start
  show ?case by (simp add: env_inv_def)
next
  case (call e c)
  then show ?case by (intro env_apply_inv)
qed

section \<open>Properties\<close>


definition demo_heap :: heap where
  "demo_heap = \<lparr>grants = (\<lambda>_. True), asked = 0, live = 5\<rparr>"


text \<open>The environment never leaks or loses a block: whichever allocations fail in whatever
  sequence of calls, names stay distinct, each variable owns three blocks, and clearing the
  environment gives every one of them back.\<close>

theorem env_no_leak:
  assumes "env_reachable h0 e"
  shows "distinct (map env_name (g_environment_head e)) \<and>
    live (env_heap e) = live h0 + 3 * length (g_environment_head e) \<and>
    live (env_heap (snd (clearenv e))) = live h0 \<and> getenv (snd (clearenv e)) (Some n) = None"
  using env_reachable_inv [OF assms]
  by (simp add: env_inv_def clearenv_def crt_clear_env_pairs_def clear_entries_live getenv_map env_map_def)

theorem env_no_leak_witness:
  "let e = env_apply (env_apply \<lparr>g_environment_head = [], env_heap = demo_heap\<rparr> (SetEnv (Some [72]) (Some [73]) True))
         (SetEnv (Some [72]) (Some [74]) True)
   in distinct (map env_name (g_environment_head e)) \<and>
    live (env_heap e) = live demo_heap + 3 * length (g_environment_head e) \<and>
    live (env_heap (snd (clearenv e))) = live demo_heap \<and> getenv (snd (clearenv e)) (Some [72]) = None"
  unfolding Let_def by (rule env_no_leak) (intro env_reachable.intros)

end
