(* ===== verification/Crt_Time.thy ===== *)
theory Crt_Time
  imports Crt_Format "HOL-Library.Signed_Division"
begin

text \<open>
  Calendar time of \<^verbatim>\<open>src/applications/runtime/crt.c\<close>: \<open>gmtime\<close>, \<open>mktime\<close> and \<open>strftime\<close>.

  Seconds and broken-down fields are integers; \<open>sdiv\<close> and \<open>smod\<close> are C's division, which rounds
  toward zero. The fields of a time that \<open>gmtime\<close> produces from a 64-bit count of seconds fit the
  code's types as long as the year does. \<open>mktime\<close> is modelled with the condition the compiler
  reads: \<open>&&\<close> binds tighter than \<open>||\<close>.
\<close>

record tm =
  tm_sec :: int
  tm_min :: int
  tm_hour :: int
  tm_mday :: int
  tm_mon :: int
  tm_year :: int
  tm_wday :: int
  tm_yday :: int

definition month_lengths :: "int list" where
  "month_lengths = [31, 28, 31, 30, 31, 30, 31, 31, 30, 31, 30, 31]"

definition is_leap :: "int \<Rightarrow> bool" where
  "is_leap year \<longleftrightarrow> (year smod 4 = 0 \<and> year smod 100 \<noteq> 0) \<or> year smod 400 = 0"

section \<open>Breaking time down\<close>

function year_loop :: "int \<Rightarrow> int \<Rightarrow> int \<times> int" where
  "year_loop days year =
     (if 365 \<le> days then
        (let year_length = (if is_leap year then 366 else 365)
         in if days < year_length then (days, year) else year_loop (days - year_length) (year + 1))
      else (days, year))"
  by pat_completeness auto
termination
  by (relation "measure (\<lambda>(days, year). nat days)") (auto simp: Let_def split: if_splits)

function month_loop :: "int \<Rightarrow> int \<Rightarrow> nat \<Rightarrow> int \<times> int" where
  "month_loop days year month =
     (if month < 12 then
        (let month_length = (if month = 1 \<and> is_leap year then 29 else month_lengths ! month)
         in if days < month_length then (int month, days + 1)
            else month_loop (days - month_length) year (month + 1))
      else (0, 1))"
  by pat_completeness auto
termination
  by (relation "measure (\<lambda>(days, year, month). 12 - month)") auto

definition crt_time_to_tm :: "int \<Rightarrow> tm" where
  "crt_time_to_tm seconds =
     (let days = seconds sdiv 86400;
          remainder = seconds smod 86400;
          (remainder, days) = (if remainder < 0 then (remainder + 86400, days - 1) else (remainder, days));
          hour = remainder sdiv 3600;
          remainder = remainder smod 3600;
          wday = (days + 4) smod 7;
          wday = (if wday < 0 then wday + 7 else wday);
          (days, year) = year_loop days 1970;
          (mon, mday) = month_loop days year 0
      in \<lparr>tm_sec = remainder smod 60, tm_min = remainder sdiv 60, tm_hour = hour, tm_mday = mday, tm_mon = mon,
          tm_year = year - 1900, tm_wday = wday, tm_yday = days\<rparr>)"

definition gmtime :: "int option \<Rightarrow> tm" where
  "gmtime t = crt_time_to_tm (case t of None \<Rightarrow> 0 | Some s \<Rightarrow> s)"

section \<open>And back\<close>

function year_days :: "int \<Rightarrow> int \<Rightarrow> int \<Rightarrow> int" where
  "year_days year end_year days =
     (if year < end_year then year_days (year + 1) end_year (if is_leap year then days + 365 + 1 else days + 365) else days)"
  by pat_completeness auto
termination
  by (relation "measure (\<lambda>(year, end_year, days). nat (end_year - year))") auto

function month_days :: "int \<Rightarrow> nat \<Rightarrow> int \<Rightarrow> int \<Rightarrow> int" where
  "month_days year month mon days =
     (if int month < mon then
        (let month_length =
               (if (month = 1 \<and> (year smod 4 = 0 \<and> year smod 100 \<noteq> 0)) \<or> year smod 400 = 0 then 29
                else month_lengths ! month)
         in month_days year (month + 1) mon (days + month_length))
      else days)"
  by pat_completeness auto
termination
  by (relation "measure (\<lambda>(year, month, mon, days). nat (mon - int month))") auto

definition crt_tm_to_time :: "tm \<Rightarrow> int" where
  "crt_tm_to_time t =
     (let days = year_days 1970 (tm_year t + 1900) 0;
          days = month_days (tm_year t + 1900) 0 (tm_mon t) days;
          days = days + tm_mday t - 1
      in days * 86400 + tm_hour t * 3600 + tm_min t * 60 + tm_sec t)"

definition mktime :: "tm option \<Rightarrow> int" where
  "mktime t = (case t of None \<Rightarrow> 0 | Some v \<Rightarrow> crt_tm_to_time v)"

section \<open>Formatting\<close>

text \<open>The text \<open>strftime\<close> puts into its scratch buffer for one conversion character; the second
  result is whether the cursor moves past that character.\<close>

definition strftime_field :: "tm \<Rightarrow> u8 option \<Rightarrow> u8 list" where
  "strftime_field t c =
     (let number = (\<lambda>fmt n. take 63 (render fmt [VaWord (word_of_int n)]));
          four = [37, 48, 52, 100]; two = [37, 48, 50, 100]
      in if c = Some 89 then number four (tm_year t + 1900)
         else if c = Some 109 then number two (tm_mon t + 1)
         else if c = Some 100 then number two (tm_mday t)
         else if c = Some 72 then number two (tm_hour t)
         else if c = Some 77 then number two (tm_min t)
         else if c = Some 83 then number two (tm_sec t)
         else if c = Some 37 then [37]
         else (case c of None \<Rightarrow> [37] | Some x \<Rightarrow> [37, x]))"

fun strftime_loop :: "nat \<Rightarrow> tm \<Rightarrow> u8 list \<Rightarrow> u8 list \<Rightarrow> u8 list" where
  "strftime_loop sz t [] out = out"
| "strftime_loop sz t (c # cs) out =
     (if length out + 1 < sz then
        (if c \<noteq> 37 then strftime_loop sz t cs (out @ [c])
         else (case cs of
                 [] \<Rightarrow> out @ take (sz - 1 - length out) (strftime_field t None)
               | x # rest \<Rightarrow>
                   strftime_loop sz t rest (out @ take (sz - 1 - length out) (strftime_field t (Some x)))))
      else out)"

definition strftime :: "u64 \<Rightarrow> u8 list \<Rightarrow> tm \<Rightarrow> u8 list" where
  "strftime sz format t = (if sz = 0 then [] else strftime_loop (unat sz) t format [])"

declare year_loop.simps [simp del] month_loop.simps [simp del] year_days.simps [simp del] month_days.simps [simp del]


section \<open>The calendar\<close>

definition year_length :: "int \<Rightarrow> int" where
  "year_length y = (if is_leap y then 366 else 365)"

definition month_length :: "int \<Rightarrow> nat \<Rightarrow> int" where
  "month_length y k = (if k = 1 \<and> is_leap y then 29 else month_lengths ! k)"

text \<open>Days from the start of 1970 to the start of a year, and of a year to the start of a month.\<close>

definition days_before_year :: "int \<Rightarrow> int" where
  "days_before_year y = (\<Sum>k \<in> {1970..<y}. year_length k)"

definition days_before_month :: "int \<Rightarrow> nat \<Rightarrow> int" where
  "days_before_month y n = (\<Sum>k<n. month_length y k)"

definition calendar_seconds :: "tm \<Rightarrow> int" where
  "calendar_seconds t =
     (days_before_year (tm_year t + 1900) + days_before_month (tm_year t + 1900) (nat (tm_mon t)) + tm_mday t - 1) * 86400 +
     tm_hour t * 3600 + tm_min t * 60 + tm_sec t"

definition tm_ok :: "tm \<Rightarrow> bool" where
  "tm_ok t \<longleftrightarrow> 0 \<le> tm_sec t \<and> tm_sec t < 60 \<and> 0 \<le> tm_min t \<and> tm_min t < 60 \<and> 0 \<le> tm_hour t \<and> tm_hour t < 24 \<and>
     0 \<le> tm_mon t \<and> tm_mon t < 12 \<and> 70 \<le> tm_year t \<and>
     1 \<le> tm_mday t \<and> tm_mday t \<le> month_length (tm_year t + 1900) (nat (tm_mon t)) \<and>
     0 \<le> tm_wday t \<and> tm_wday t < 7 \<and>
     tm_yday t = days_before_month (tm_year t + 1900) (nat (tm_mon t)) + tm_mday t - 1"

lemma days_before_year_Suc: "1970 \<le> y \<Longrightarrow> days_before_year (y + 1) = days_before_year y + year_length y"
proof -
  assume "1970 \<le> y"
  then have "{1970..<y + 1} = insert y {1970..<y}" by auto
  then show ?thesis by (simp add: days_before_year_def)
qed

lemma year_loop_ok:
  assumes "0 \<le> days" "1970 \<le> year" "year_loop days year = (d, y)"
  shows "0 \<le> d \<and> d < year_length y \<and> year \<le> y \<and> days_before_year y + d = days_before_year year + days"
  using assms
proof (induction days year rule: year_loop.induct)
  case (1 days year)
  show ?case
  proof (cases "365 \<le> days \<and> \<not> days < year_length year")
    case True
    then have "year_loop days year = year_loop (days - year_length year) (year + 1)"
      by (simp add: year_loop.simps [of days year] year_length_def Let_def)
    with "1.IH" [OF _ refl] "1.prems" True days_before_year_Suc [OF "1.prems"(2)] show ?thesis
      by (auto simp: year_length_def split: if_splits)
  next
    case False
    then have "year_loop days year = (days, year)"
      by (auto simp: year_loop.simps [of days year] year_length_def Let_def)
    with False "1.prems" show ?thesis by (auto simp: year_length_def split: if_splits)
  qed
qed

lemma month_length_pos: "k < 12 \<Longrightarrow> 0 < month_length y k"
proof -
  assume "k < 12"
  then have "k \<in> set [0..<12]" by simp
  then show ?thesis by (auto simp: month_length_def month_lengths_def upt_rec)
qed

lemma days_before_month_12: "days_before_month y 12 = year_length y"
  by (simp add: days_before_month_def month_length_def month_lengths_def year_length_def numeral_eq_Suc)

lemma month_loop_ok:
  assumes "month \<le> 12" "0 \<le> days" "days_before_month year month + days < year_length year"
    "month_loop days year month = (mon, mday)"
  shows "\<exists>n. mon = int n \<and> n < 12 \<and> 1 \<le> mday \<and> mday \<le> month_length year n \<and>
    days_before_month year n + mday - 1 = days_before_month year month + days"
  using assms
proof (induction days year month rule: month_loop.induct)
  case (1 days year month)
  have lt: "month < 12"
    using "1.prems"(1-3) days_before_month_12 [of year] by (cases "month = 12") auto
  have s: "days_before_month year (Suc month) = days_before_month year month + month_length year month"
    by (simp add: days_before_month_def)
  show ?case
  proof (cases "days < month_length year month")
    case True
    with lt have "month_loop days year month = (int month, days + 1)"
      by (simp add: month_loop.simps [of days year month] month_length_def Let_def)
    with True lt "1.prems" show ?thesis by auto
  next
    case False
    with lt have eq: "month_loop days year month = month_loop (days - month_length year month) year (month + 1)"
      by (simp add: month_loop.simps [of days year month] month_length_def Let_def)
    have "\<exists>n. mon = int n \<and> n < 12 \<and> 1 \<le> mday \<and> mday \<le> month_length year n \<and>
        days_before_month year n + mday - 1 = days_before_month year (month + 1) + (days - month_length year month)"
      using "1.IH" [OF lt refl] False lt "1.prems" eq s by (auto simp: month_length_def)
    with s show ?thesis by auto
  qed
qed

lemma sdiv_smod_nonneg: "0 \<le> (a :: int) \<Longrightarrow> 0 < b \<Longrightarrow> a sdiv b = a div b \<and> a smod b = a mod b"
  by (cases "a = 0") (auto simp: signed_divide_int_def signed_modulo_int_def sgn_if)

lemma time_to_tm_ok:
  assumes "0 \<le> s"
  shows "tm_ok (crt_time_to_tm s) \<and> calendar_seconds (crt_time_to_tm s) = s"
proof -
  define q where "q = s div 86400"
  define r where "r = s mod 86400"
  define h where "h = r div 3600"
  define u where "u = r mod 3600"
  have q: "0 \<le> q" "s = q * 86400 + r" using assms by (simp_all add: q_def r_def pos_imp_zdiv_nonneg_iff)
  have r: "0 \<le> r" "r < 86400" by (simp_all add: r_def)
  have u: "0 \<le> u" "u < 3600" "r = h * 3600 + u" by (simp_all add: u_def h_def)
  have h: "0 \<le> h" "h < 24" using r u by linarith+
  obtain d y where yl: "year_loop q 1970 = (d, y)" by (metis surj_pair)
  have y: "0 \<le> d" "d < year_length y" "1970 \<le> y" "days_before_year y + d = q"
    using year_loop_ok [OF q(1) _ yl] by (auto simp: days_before_year_def)
  obtain mon mday where ml: "month_loop d y 0 = (mon, mday)" by (metis surj_pair)
  obtain n where n: "mon = int n" "n < 12" "1 \<le> mday" "mday \<le> month_length y n" "days_before_month y n + mday - 1 = d"
    using month_loop_ok [OF _ y(1) _ ml] y(2) by (auto simp: days_before_month_def)
  have sd: "s sdiv 86400 = q" "s smod 86400 = r" "r sdiv 3600 = h" "r smod 3600 = u"
    "u sdiv 60 = u div 60" "u smod 60 = u mod 60" "(q + 4) smod 7 = (q + 4) mod 7"
    using sdiv_smod_nonneg [of s 86400] sdiv_smod_nonneg [of r 3600] sdiv_smod_nonneg [of u 60]
      sdiv_smod_nonneg [of "q + 4" 7] assms q(1) r(1) u(1)
    by (simp_all only: q_def r_def h_def u_def)
  have t: "crt_time_to_tm s =
      \<lparr>tm_sec = u mod 60, tm_min = u div 60, tm_hour = h, tm_mday = mday, tm_mon = mon,
       tm_year = y - 1900, tm_wday = (q + 4) mod 7, tm_yday = d\<rparr>"
    unfolding crt_time_to_tm_def Let_def sd using r(1) sd yl ml by simp
  have m: "u div 60 < 60" "0 \<le> u div 60" "u = u div 60 * 60 + u mod 60"
    using u by (simp_all add: pos_imp_zdiv_nonneg_iff)
  have "tm_ok (crt_time_to_tm s)" using t n y h m by (auto simp: tm_ok_def)
  moreover have "days_before_year y + days_before_month y n + mday - 1 = q" using n(5) y(4) by linarith
  then have "calendar_seconds (crt_time_to_tm s) = s"
    unfolding calendar_seconds_def t using n(1) q(2) u(3) m(3) by simp
  ultimately show ?thesis by blast
qed

section \<open>Reading time back\<close>

lemma year_days_ok: "1970 \<le> year \<Longrightarrow> year \<le> y \<Longrightarrow>
  year_days year y days = days + days_before_year y - days_before_year year"
proof (induction year y days rule: year_days.induct)
  case (1 year y days)
  show ?case
  proof (cases "year < y")
    case True
    with 1 days_before_year_Suc [of year] show ?thesis
      by (simp add: year_days.simps [of year y] year_length_def split: if_splits)
  next
    case False
    with 1 have "year = y" by simp
    then show ?thesis by (simp add: year_days.simps [of y y])
  qed
qed

lemma month_days_ok:
  assumes "year smod 400 \<noteq> 0" "n \<le> k"
  shows "month_days year n (int k) days = days + days_before_month year k - days_before_month year n"
  using assms(2)
proof (induction "k - n" arbitrary: n days)
  case 0
  then show ?case by (simp add: month_days.simps)
next
  case (Suc j)
  then have "int n < int k" "j = k - Suc n" by simp_all
  moreover have "(if (n = 1 \<and> (year smod 4 = 0 \<and> year smod 100 \<noteq> 0)) \<or> year smod 400 = 0 then 29
      else month_lengths ! n) = month_length year n"
    using assms(1) by (simp add: month_length_def is_leap_def)
  ultimately show ?case
    using Suc.hyps(1) [of "Suc n" "days + month_length year n"]
    by (simp add: month_days.simps [of year n] days_before_month_def Let_def)
qed

lemma tm_to_time_ok:
  assumes "tm_ok t" "(tm_year t + 1900) smod 400 \<noteq> 0"
  shows "crt_tm_to_time t = calendar_seconds t"
proof -
  have "1970 \<le> tm_year t + 1900" "tm_mon t = int (nat (tm_mon t))" using assms(1) by (auto simp: tm_ok_def)
  then show ?thesis
    using year_days_ok [of 1970 "tm_year t + 1900" 0] month_days_ok [OF assms(2), of 0 "nat (tm_mon t)"]
    by (simp add: crt_tm_to_time_def calendar_seconds_def Let_def days_before_year_def days_before_month_def)
qed

text \<open>In years divisible by 400 the leap-year test of \<open>mktime\<close> applies to every month, because of
  operator precedence: a date in March 2000 comes out two days early.\<close>

lemma mktime_leap_century:
  assumes "tm_year t = 100" "tm_mon t = 2"
  shows "mktime (Some t) = calendar_seconds t - 2 * 86400"
proof -
  have leap: "is_leap 2000" "(2000 :: int) smod 400 = 0"
    by (simp_all add: is_leap_def signed_modulo_int_def signed_divide_int_def)
  have "month_days 2000 0 2 days = days + 29 + 29" for days
    by (simp add: month_days.simps leap(2) numeral_eq_Suc)
  moreover have "days_before_month 2000 2 = 60"
    by (simp add: days_before_month_def month_length_def month_lengths_def leap(1) numeral_2_eq_2)
  ultimately show ?thesis
    using assms year_days_ok [of 1970 2000 0]
    by (simp add: mktime_def crt_tm_to_time_def calendar_seconds_def Let_def days_before_year_def)
qed

lemma strftime_loop_bounded: "length out < sz \<Longrightarrow> length (strftime_loop sz t cs out) < sz"
  by (induction sz t cs out rule: strftime_loop.induct) (auto split: list.split)

lemma strftime_bounded: "sz \<noteq> 0 \<Longrightarrow> length (strftime sz format t) < unat sz"
  using strftime_loop_bounded [of "[]" "unat sz" t format] by (simp add: strftime_def unat_gt_0)

section \<open>Properties\<close>




end
