(* ===== verification/Crt_Stdio.thy ===== *)
theory Crt_Stdio
  imports Crt_String
begin

text \<open>
  The memory-backed streams of \<^verbatim>\<open>src/applications/runtime/crt.c\<close>: \<open>crt_file_from_path_mode\<close>,
  \<open>crt_file_read\<close>, \<open>crt_file_write\<close>, \<open>crt_file_seek\<close> and the \<open>stdio\<close> functions over them.

  A stream's heap buffer is a byte list of its allocated size. Whether an allocation succeeds, and
  which bytes a fresh allocation holds, are arguments of the functions that allocate (\<open>grant\<close>,
  \<open>fresh\<close>); \<open>readFile\<close> of the system runtime is a parameter. Transferred bytes are lists, so the
  \<open>NULL\<close> tests of buffer arguments have no counterpart.
\<close>

record CrtFile =
  file_flags :: u64
  file_path :: "u8 list option"
  file_mode :: "u8 list option"
  file_position :: u64
  file_length :: u64
  file_capacity :: u64
  file_buffer :: "u8 list option"
  file_error :: bool
  file_eof :: bool

section \<open>Opening\<close>

text \<open>\<open>strchr\<close> on a string given by content: whether it returns a non-\<open>NULL\<close> pointer.\<close>

definition has_char :: "u8 list option \<Rightarrow> u8 \<Rightarrow> bool" where
  "has_char text c = (case text of None \<Rightarrow> False | Some t \<Rightarrow> c \<in> set t)"

text \<open>\<open>crt_copy_string\<close> into the storage a pointer field refers to: a \<open>NULL\<close> pointer stays.\<close>

definition copy_into :: "u8 list option \<Rightarrow> u8 list \<Rightarrow> u8 list option" where
  "copy_into dest src = (case dest of None \<Rightarrow> None | Some _ \<Rightarrow> Some src)"

partial_function (option) crt_load_loop ::
  "(u64 \<Rightarrow> u8 list option) \<Rightarrow> (nat \<Rightarrow> bool) \<Rightarrow> u8 list \<Rightarrow> u64 \<Rightarrow> nat \<Rightarrow> (u8 list option) option" where
  "crt_load_loop readFile grant content offset step =
     (case readFile offset of
        None \<Rightarrow> Some None
      | Some chunk \<Rightarrow>
          if chunk = [] then Some (Some content)
          else if \<not> grant step then Some None
          else if length chunk < 512 then Some (Some (content @ chunk))
          else crt_load_loop readFile grant (content @ chunk) (offset + of_nat (length chunk)) (Suc step))"

definition crt_blank_file :: CrtFile where
  "crt_blank_file =
     \<lparr>file_flags = 0, file_path = None, file_mode = None, file_position = 0, file_length = 0, file_capacity = 0,
      file_buffer = None, file_error = False, file_eof = False\<rparr>"

definition crt_file_from_path_mode ::
  "(u64 \<Rightarrow> u8 list option) \<Rightarrow> (nat \<Rightarrow> bool) \<Rightarrow> u8 list option \<Rightarrow> u8 list option \<Rightarrow> (CrtFile option) option" where
  "crt_file_from_path_mode readFile grant path mode =
     (if \<not> grant 0 then Some None
      else
        (let f = crt_blank_file;
             f = f\<lparr>file_path := copy_into (file_path f) (case path of None \<Rightarrow> [] | Some p \<Rightarrow> p),
                   file_mode := copy_into (file_mode f) (case mode of None \<Rightarrow> [114] | Some md \<Rightarrow> md)\<rparr>;
             f = (if has_char mode 119 \<or> has_char mode 97 \<or> has_char mode 43 then f\<lparr>file_flags := 1\<rparr> else f)
         in if path \<noteq> None \<and> (has_char (file_mode f) 114 \<or> has_char (file_mode f) 43) then
              (if \<not> grant 1 then Some None
               else do {
                 r \<leftarrow> crt_load_loop readFile grant [] 0 2;
                 Some (case r of
                     None \<Rightarrow> None
                   | Some content \<Rightarrow>
                       Some (f\<lparr>file_buffer := Some (content @ [0]), file_length := of_nat (length content),
                               file_capacity := of_nat (length content) + 1\<rparr>))
               })
            else Some (Some f)))"

section \<open>Transfers\<close>

definition crt_file_read :: "u64 \<Rightarrow> u64 \<Rightarrow> CrtFile \<Rightarrow> u64 \<times> u8 list \<times> CrtFile" where
  "crt_file_read sz count_n f =
     (case file_buffer f of
        None \<Rightarrow> (0, [], f)
      | Some b \<Rightarrow>
          if sz = 0 \<or> count_n = 0 then (0, [], f)
          else if file_length f \<le> file_position f then (0, [], f\<lparr>file_eof := True\<rparr>)
          else
            (let requested = sz * count_n;
                 remaining = file_length f - file_position f;
                 (requested, f) = (if remaining < requested then (remaining, f\<lparr>file_eof := True\<rparr>) else (requested, f))
             in (requested div sz, take (unat requested) (drop (unat (file_position f)) b),
                 f\<lparr>file_position := file_position f + requested\<rparr>)))"

text \<open>\<open>realloc\<close>: the old bytes, cut or followed by whatever the heap holds.\<close>

definition regrow :: "(nat \<Rightarrow> u8) \<Rightarrow> u8 list \<Rightarrow> nat \<Rightarrow> u8 list" where
  "regrow fresh b n = take n b @ map fresh [length b..<n]"

definition store_at :: "u8 list \<Rightarrow> nat \<Rightarrow> u8 list \<Rightarrow> u8 list" where
  "store_at b p data = take p b @ data @ drop (p + length data) b"

definition crt_file_grow :: "bool \<Rightarrow> (nat \<Rightarrow> u8) \<Rightarrow> u64 \<Rightarrow> CrtFile \<Rightarrow> CrtFile option" where
  "crt_file_grow grant fresh requested f =
     (case file_buffer f of
        Some b \<Rightarrow>
          (let needed = file_position f + requested + 1
           in if file_capacity f < needed then
                (if grant then Some (f\<lparr>file_buffer := Some (regrow fresh b (unat needed)), file_capacity := needed\<rparr>)
                 else None)
              else Some f)
      | None \<Rightarrow>
          (if grant then
             Some (f\<lparr>file_buffer := Some (map fresh [0..<unat (requested + 1)]), file_capacity := requested + 1,
                     file_length := 0, file_position := 0\<rparr>)
           else None))"

definition crt_file_write ::
  "bool \<Rightarrow> (nat \<Rightarrow> u8) \<Rightarrow> u8 list \<Rightarrow> u64 \<Rightarrow> u64 \<Rightarrow> CrtFile \<Rightarrow> u64 \<times> CrtFile" where
  "crt_file_write grant fresh data sz count_n f =
     (if sz = 0 \<or> count_n = 0 then (0, f)
      else
        (let requested = sz * count_n
         in case crt_file_grow grant fresh requested f of
              None \<Rightarrow> (0, f\<lparr>file_error := True\<rparr>)
            | Some f \<Rightarrow>
                (let b = store_at (the (file_buffer f)) (unat (file_position f)) (take (unat requested) data);
                     f = f\<lparr>file_position := file_position f + requested\<rparr>;
                     f = (if file_length f < file_position f then f\<lparr>file_length := file_position f\<rparr> else f)
                 in (count_n, f\<lparr>file_buffer := Some (b[unat (file_length f) := 0])\<rparr>))))"

definition crt_file_seek :: "CrtFile \<Rightarrow> int \<Rightarrow> int \<Rightarrow> int \<times> CrtFile" where
  "crt_file_seek f offset origin =
     (let target =
            (if origin = 0 then Some offset
             else if origin = 1 then Some (sint (file_position f) + offset)
             else if origin = 2 then Some (sint (file_length f) + offset)
             else None)
      in case target of
           None \<Rightarrow> (-1, f)
         | Some p \<Rightarrow> if p < 0 then (-1, f) else (0, f\<lparr>file_position := word_of_int p, file_eof := False\<rparr>))"

definition crt_file_tell :: "CrtFile \<Rightarrow> int" where
  "crt_file_tell f = sint (file_position f)"

section \<open>Characters and lines\<close>

definition fgetc :: "CrtFile \<Rightarrow> int \<times> CrtFile" where
  "fgetc f = (case crt_file_read 1 1 f of (n, bytes, f) \<Rightarrow> (if n = 1 then uint (hd bytes) else -1, f))"

definition fputc :: "bool \<Rightarrow> (nat \<Rightarrow> u8) \<Rightarrow> int \<Rightarrow> CrtFile \<Rightarrow> int \<times> CrtFile" where
  "fputc grant fresh v f =
     (case crt_file_write grant fresh [word_of_int v] 1 1 f of (n, f) \<Rightarrow> (if n = 1 then v else -1, f))"

function fgets_loop :: "nat \<Rightarrow> CrtFile \<Rightarrow> u8 list \<Rightarrow> u8 list \<times> CrtFile" where
  "fgets_loop sz f out =
     (if length out + 1 < sz then
        (case fgetc f of
           (ch, f) \<Rightarrow>
             if ch = -1 then (out, f)
             else if ch = 10 then (out @ [word_of_int ch], f)
             else fgets_loop sz f (out @ [word_of_int ch]))
      else (out, f))"
  by pat_completeness auto
termination
  by (relation "measure (\<lambda>(sz, f, out). sz - length out)") auto

definition fgets :: "int \<Rightarrow> CrtFile \<Rightarrow> u8 list option \<times> CrtFile" where
  "fgets sz f =
     (if sz \<le> 0 then (None, f)
      else (case fgets_loop (nat sz) f [] of (out, f) \<Rightarrow> (if out = [] then None else Some out, f)))"

definition feof :: "CrtFile \<Rightarrow> bool" where
  "feof f = file_eof f"

definition ferror :: "CrtFile \<Rightarrow> bool" where
  "ferror f = file_error f"

definition crt_clear_error_flags :: "CrtFile \<Rightarrow> CrtFile" where
  "crt_clear_error_flags f = f\<lparr>file_error := False, file_eof := False\<rparr>"

declare fgets_loop.simps [simp del]

section \<open>Streams as byte sequences\<close>

text \<open>The allocation always has room for the terminator after the content.\<close>

definition stream_inv :: "CrtFile \<Rightarrow> bool" where
  "stream_inv f \<longleftrightarrow>
     (case file_buffer f of
        None \<Rightarrow> file_length f = 0
      | Some b \<Rightarrow> length b = unat (file_capacity f) \<and> file_length f < file_capacity f \<and> b ! unat (file_length f) = 0)"

definition content :: "CrtFile \<Rightarrow> u8 list" where
  "content f = (case file_buffer f of None \<Rightarrow> [] | Some b \<Rightarrow> take (unat (file_length f)) b)"

definition position :: "CrtFile \<Rightarrow> nat" where
  "position f = unat (file_position f)"


lemma content_length: "stream_inv f \<Longrightarrow> length (content f) = unat (file_length f)"
  by (auto simp: stream_inv_def content_def word_less_nat_alt split: option.splits)

lemma unat_mult_no_wrap:
  fixes a b :: u64
  shows "unat a * unat b < 2 ^ 64 \<Longrightarrow> unat (a * b) = unat a * unat b"
  by (simp add: unat_word_ariths)

lemma unat_add_no_wrap:
  fixes a b :: u64
  shows "unat a + unat b < 2 ^ 64 \<Longrightarrow> unat (a + b) = unat a + unat b"
  by (simp add: unat_word_ariths)

section \<open>Reading\<close>

lemma read_effect:
  assumes inv: "stream_inv f" and nz: "sz \<noteq> 0" "n \<noteq> 0" and w: "unat sz * unat n < 2 ^ 64"
    and r: "crt_file_read sz n f = (k, bytes, f')"
  shows "bytes = take (unat sz * unat n) (drop (position f) (content f))"
    and "unat k = length bytes div unat sz"
    and "stream_inv f'" and "content f' = content f" and "position f' = position f + length bytes"
    and "file_buffer f' = file_buffer f"
proof -
  have req: "unat (sz * n) = unat sz * unat n" using w by (rule unat_mult_no_wrap)
  have "bytes = take (unat sz * unat n) (drop (position f) (content f)) \<and> unat k = length bytes div unat sz \<and>
    stream_inv f' \<and> content f' = content f \<and> position f' = position f + length bytes \<and> file_buffer f' = file_buffer f"
  proof (cases "file_buffer f")
    case None
    with r show ?thesis using inv by (auto simp: crt_file_read_def content_def)
  next
    case (Some b)
    show ?thesis
    proof (cases "file_length f \<le> file_position f")
      case True
      with r Some nz inv show ?thesis
        by (auto simp: crt_file_read_def content_def position_def stream_inv_def word_le_nat_alt)
    next
      case False
      define rem where "rem = file_length f - file_position f"
      have rem: "unat rem = unat (file_length f) - unat (file_position f)"
        using False by (simp add: rem_def unat_sub)
      define q where "q = (if rem < sz * n then rem else sz * n)"
      have q: "unat q = min (unat sz * unat n) (unat (file_length f) - unat (file_position f))"
        using rem req by (auto simp: q_def word_less_nat_alt)
      have lt: "unat (file_position f) < unat (file_length f)" using False by (simp add: word_le_nat_alt)
      have cap: "unat (file_length f) < length b"
        using inv Some by (simp add: stream_inv_def word_less_nat_alt)
      have pos: "unat (file_position f + q) = unat (file_position f) + unat q"
        using q lt unat_u64_less [of "file_length f"] by (intro unat_add_no_wrap) simp
      have res: "k = q div sz" "bytes = take (unat q) (drop (unat (file_position f)) b)"
        "file_position f' = file_position f + q" "file_length f' = file_length f" "file_buffer f' = file_buffer f"
        "file_capacity f' = file_capacity f"
        using r Some nz False by (auto simp: crt_file_read_def Let_def rem_def [symmetric] q_def split: if_splits)
      have "take (unat q) (drop (unat (file_position f)) b) =
          take (unat sz * unat n) (drop (unat (file_position f)) (take (unat (file_length f)) b))"
        using q lt cap by (simp add: drop_take min.commute)
      moreover have "length (take (unat q) (drop (unat (file_position f)) b)) = unat q" using q lt cap by simp
      ultimately show ?thesis
        using res Some inv pos by (simp add: content_def position_def stream_inv_def unat_div)
    qed
  qed
  then show "bytes = take (unat sz * unat n) (drop (position f) (content f))" "unat k = length bytes div unat sz"
    "stream_inv f'" "content f' = content f" "position f' = position f + length bytes" "file_buffer f' = file_buffer f"
    by blast+
qed

section \<open>Writing\<close>

lemma grow_effect:
  assumes inv: "stream_inv f" and pos: "position f \<le> length (content f)"
    and w: "position f + unat requested + 1 < 2 ^ 64" and g: "crt_file_grow grant fresh requested f = Some f'"
  shows "\<exists>b. file_buffer f' = Some b \<and> length b = unat (file_capacity f') \<and>
    position f + unat requested < length b \<and> unat (file_length f') < length b \<and>
    take (unat (file_length f')) b = content f \<and> file_length f' = file_length f \<and> file_position f' = file_position f"
proof (cases "file_buffer f")
  case None
  then have "file_length f = 0" "content f = []" using inv by (auto simp: stream_inv_def content_def)
  moreover have "file_position f = 0" using pos \<open>content f = []\<close> by (simp add: position_def unat_eq_0)
  moreover have "unat (requested + 1) = unat requested + 1" using w by (simp add: unat_word_ariths)
  ultimately show ?thesis using g None by (auto simp: crt_file_grow_def position_def split: if_splits)
next
  case (Some b)
  have n: "unat (file_position f + requested + 1) = position f + unat requested + 1"
    using w by (simp add: position_def unat_word_ariths)
  have b: "length b = unat (file_capacity f)" "unat (file_length f) < length b"
    using inv Some by (auto simp: stream_inv_def word_less_nat_alt)
  show ?thesis
  proof (cases "file_capacity f < file_position f + requested + 1")
    case True
    then have lt: "length b < position f + unat requested + 1" by (simp add: word_less_nat_alt n b)
    then have "take (unat (file_length f)) (regrow fresh b (position f + unat requested + 1)) = take (unat (file_length f)) b"
      using b by (simp add: regrow_def)
    with True g Some b lt show ?thesis
      by (auto simp: crt_file_grow_def Let_def n content_def regrow_def split: if_splits)
  next
    case False
    then have "position f + unat requested + 1 \<le> length b" by (simp add: word_less_nat_alt n b)
    with False g Some b show ?thesis by (auto simp: crt_file_grow_def Let_def content_def)
  qed
qed

lemma store_at_take:
  assumes "p \<le> l" "l < length b" "p + length data < length b"
  shows "take (max l (p + length data)) (store_at b p data) = store_at (take l b) p data"
    and "length (store_at b p data) = length b"
proof -
  show "length (store_at b p data) = length b" using assms by (simp add: store_at_def)
  show "take (max l (p + length data)) (store_at b p data) = store_at (take l b) p data"
  proof (cases "l \<le> p + length data")
    case True
    then show ?thesis using assms by (simp add: store_at_def max_def)
  next
    case False
    then obtain k where "l = p + length data + k" by (metis le_add_diff_inverse nat_le_linear)
    then show ?thesis using assms by (simp add: store_at_def drop_take)
  qed
qed

lemma write_effect:
  assumes inv: "stream_inv f" and pos: "position f \<le> length (content f)" and nz: "sz \<noteq> 0" "n \<noteq> 0"
    and len: "length data = unat sz * unat n" and w: "position f + length data + 1 < 2 ^ 64"
    and r: "crt_file_write grant fresh data sz n f = (k, f')"
  shows "stream_inv f' \<and>
    (k = n \<and> content f' = store_at (content f) (position f) data \<and> position f' = position f + length data \<or>
     k = 0 \<and> \<not> grant \<and> content f' = content f \<and> position f' = position f \<and> file_error f')"
proof -
  have req: "unat (sz * n) = length data" using len w by (simp add: unat_mult_no_wrap)
  have w': "position f + unat (sz * n) + 1 < 2 ^ 64" using w req by simp
  show ?thesis
  proof (cases "crt_file_grow grant fresh (sz * n) f")
    case None
    then have "\<not> grant" by (auto simp: crt_file_grow_def Let_def split: option.splits if_splits)
    with None r nz inv show ?thesis
      by (auto simp: crt_file_write_def stream_inv_def content_def position_def split: option.splits)
  next
    case (Some g)
    obtain b where b: "file_buffer g = Some b" "length b = unat (file_capacity g)"
      "position f + length data < length b" "unat (file_length g) < length b"
      "take (unat (file_length g)) b = content f" "file_length g = file_length f" "file_position g = file_position f"
      using grow_effect [OF inv pos w' Some] req by auto
    have p: "unat (file_position f + sz * n) = position f + length data"
      using w req by (simp add: position_def unat_word_ariths)
    define l where "l = (if file_length f < file_position f + sz * n then file_position f + sz * n else file_length f)"
    have ul: "unat l = max (unat (file_length f)) (position f + length data)"
      using p by (auto simp: l_def word_less_nat_alt)
    have pl: "position f \<le> unat (file_length f)" using pos content_length [OF inv] by simp
    let ?b = "store_at b (position f) data"
    have st: "take (unat l) ?b = store_at (content f) (position f) data" "length ?b = length b"
      using store_at_take [of "position f" "unat (file_length f)" b data] pl b ul by simp_all
    have res: "k = n" "file_position f' = file_position f + sz * n" "file_length f' = l"
      "file_buffer f' = Some (?b[unat l := 0])" "file_capacity f' = file_capacity g"
      using r nz Some b req len
      by (auto simp: crt_file_write_def Let_def position_def l_def split: if_splits)
    have ll: "unat l < length b" using ul b by auto
    have "stream_inv f'" using res st ll b(2) by (auto simp: stream_inv_def word_less_nat_alt)
    moreover have "content f' = store_at (content f) (position f) data"
      using res st ll by (simp add: content_def)
    moreover have "position f' = position f + length data" using res p by (simp add: position_def)
    ultimately show ?thesis using res(1) by blast
  qed
qed

section \<open>Lines\<close>

text \<open>The bytes up to and including the first newline.\<close>

fun first_line :: "u8 list \<Rightarrow> u8 list" where
  "first_line [] = []"
| "first_line (c # cs) = (if c = 10 then [c] else c # first_line cs)"

lemma fgetc_effect:
  assumes "stream_inv f" and "fgetc f = (ch, f')"
  shows "stream_inv f'" and "content f' = content f"
    and "position f < length (content f) \<Longrightarrow> ch = uint (content f ! position f) \<and> position f' = Suc (position f)"
    and "length (content f) \<le> position f \<Longrightarrow> ch = -1 \<and> position f' = position f"
proof -
  obtain k bytes where r: "crt_file_read 1 1 f = (k, bytes, f')" and ch: "ch = (if k = 1 then uint (hd bytes) else -1)"
    using assms(2) by (auto simp: fgetc_def split: prod.splits)
  note e = read_effect [OF assms(1) _ _ _ r]
  show "stream_inv f'" "content f' = content f" using e by simp_all
  have bytes: "bytes = take 1 (drop (position f) (content f))" "unat k = length bytes" "position f' = position f + length bytes"
    using e by simp_all
  show "ch = uint (content f ! position f) \<and> position f' = Suc (position f)" if "position f < length (content f)"
    using bytes ch that by (simp add: hd_drop_conv_nth word_unat_eq_iff)
  show "ch = -1 \<and> position f' = position f" if "length (content f) \<le> position f"
    using bytes ch that by (auto simp: word_unat_eq_iff)
qed

lemma fgets_loop_effect:
  assumes "stream_inv f"
  shows "\<exists>f'. fgets_loop sz f out = (out @ take (sz - 1 - length out) (first_line (drop (position f) (content f))), f') \<and>
    stream_inv f' \<and> content f' = content f"
  using assms
proof (induction "sz - length out" arbitrary: f out rule: less_induct)
  case less
  obtain ch f1 where g: "fgetc f = (ch, f1)" by (metis surj_pair)
  note e = fgetc_effect [OF less.prems g]
  show ?case
  proof (cases "length out + 1 < sz \<and> position f < length (content f)")
    case False
    then show ?thesis
    proof (cases "length out + 1 < sz")
      case True
      with False have "drop (position f) (content f) = []" "ch = -1" using e(4) by simp_all
      with True g e(1,2) show ?thesis by (simp add: fgets_loop.simps [of sz f out])
    next
      case False
      with less.prems show ?thesis by (simp add: fgets_loop.simps [of sz f out])
    qed
  next
    case True
    let ?c = "content f ! position f"
    have ch: "ch = uint ?c" "position f1 = Suc (position f)" using e(3) True by simp_all
    have d: "drop (position f) (content f) = ?c # drop (Suc (position f)) (content f)"
      using True by (simp add: Cons_nth_drop_Suc)
    have nm: "ch \<noteq> -1" using ch(1) by (metis uint_ge_0 zero_neq_neg_one neg_0_le_iff_le not_one_le_zero)
    have n: "sz - 1 - length out = Suc (sz - 1 - Suc (length out))" using True by arith
    have w: "word_of_int ch = ?c" using ch(1) by simp
    show ?thesis
    proof (cases "?c = 10")
      case nl: True
      then have "ch = 10" using ch(1) by simp
      with nl True g d n e(1,2) show ?thesis by (simp add: fgets_loop.simps [of sz f out])
    next
      case nl: False
      then have "ch \<noteq> 10" using w by auto
      then have step: "fgets_loop sz f out = fgets_loop sz f1 (out @ [?c])"
        using True g nm w by (simp add: fgets_loop.simps [of sz f out])
      have "sz - length (out @ [?c]) < sz - length out" using True by (simp add: diff_less_mono2)
      from less.hyps [OF this e(1)] obtain f' where
        "fgets_loop sz f1 (out @ [?c]) = ((out @ [?c]) @ take (sz - 1 - length (out @ [?c]))
           (first_line (drop (position f1) (content f1))), f')" "stream_inv f'" "content f' = content f1" by blast
      with step d n nl ch(2) e(2) show ?thesis by simp
    qed
  qed
qed

section \<open>Properties\<close>

text \<open>An aligned write inside or at the end of the content replaces exactly the bytes at the
  position, extends the content when it passes the end, advances the position and keeps the stream
  well formed; when the heap refuses, nothing changes but the error flag.\<close>

theorem fwrite_correct:
  assumes "stream_inv f" and "position f \<le> length (content f)" and "sz \<noteq> 0" and "n \<noteq> 0"
    and "length data = unat sz * unat n" and "position f + length data + 1 < 2 ^ 64"
    and "crt_file_write grant fresh data sz n f = (k, f')"
  shows "stream_inv f' \<and>
    (k = n \<and> content f' = store_at (content f) (position f) data \<and> position f' = position f + length data \<or>
     k = 0 \<and> \<not> grant \<and> content f' = content f \<and> position f' = position f \<and> file_error f')"
  using assms by (rule write_effect)

definition sample_stream :: CrtFile where
  "sample_stream = crt_blank_file\<lparr>file_buffer := Some [97, 98, 10, 99, 0], file_length := 4, file_capacity := 5\<rparr>"

lemma sample_stream_facts:
  "stream_inv sample_stream" "content sample_stream = [97, 98, 10, 99]" "position sample_stream = 0"
  by (simp_all add: sample_stream_def crt_blank_file_def stream_inv_def content_def position_def)

theorem fwrite_correct_witness:
  "content (snd (crt_file_write True (\<lambda>_. 7) [65, 66, 67, 68, 69, 70] 2 3 sample_stream)) = [65, 66, 67, 68, 69, 70]"
  using fwrite_correct [of sample_stream 2 3 "[65, 66, 67, 68, 69, 70]" True "\<lambda>_. 7"
      "fst (crt_file_write True (\<lambda>_. 7) [65, 66, 67, 68, 69, 70] 2 3 sample_stream)"
      "snd (crt_file_write True (\<lambda>_. 7) [65, 66, 67, 68, 69, 70] 2 3 sample_stream)"]
  by (simp add: sample_stream_facts store_at_def)

text \<open>C40: Bytes written to a stream and read back after seeking to where they were written are the
  bytes written, and the read changes nothing else.\<close>

theorem fwrite_fread_roundtrip:
  assumes "stream_inv f" and "position f \<le> length (content f)" and "data \<noteq> []"
    and "position f + length data + 1 < 2 ^ 63"
    and "crt_file_write True fresh data 1 (of_nat (length data)) f = (n, f1)"
    and "crt_file_seek f1 (int (position f)) 0 = (r, f2)"
    and "crt_file_read 1 (of_nat (length data)) f2 = (k, bytes, f3)"
  shows "n = of_nat (length data) \<and> r = 0 \<and> bytes = data \<and> k = n \<and>
    stream_inv f3 \<and> content f3 = store_at (content f) (position f) data \<and> position f3 = position f + length data"
proof -
  let ?n = "of_nat (length data) :: u64"
  have un: "unat ?n = length data" using assms(4) by (intro unat_of_nat_less) simp
  have nz: "?n \<noteq> 0" using un assms(3) by (metis length_0_conv unat_0)
  have w: "position f + length data + 1 < 2 ^ 64" using assms(4) by simp
  have wr: "stream_inv f1" "n = ?n" "content f1 = store_at (content f) (position f) data"
    using write_effect [OF assms(1,2) _ nz _ w assms(5)] un by auto
  have sk: "r = 0" "f2 = f1\<lparr>file_position := word_of_int (int (position f)), file_eof := False\<rparr>"
    using assms(6) by (auto simp: crt_file_seek_def)
  have "unat (file_position f2) = position f"
    using sk assms(4) by (simp add: unat_of_nat_less)
  then have f2: "stream_inv f2" "content f2 = content f1" "position f2 = position f"
    using sk wr(1) by (simp_all add: stream_inv_def content_def position_def split: option.splits)
  note rd = read_effect [OF f2(1) _ nz _ assms(7)]
  have bytes: "bytes = data"
    using rd(1) un w f2 wr(3) assms(2) by (simp add: store_at_def)
  have "unat k = unat ?n" using rd(2) bytes un w by simp
  then have "k = ?n" by (simp add: word_unat_eq_iff)
  with bytes rd(3,4,5) un w f2 wr sk show ?thesis by simp
qed

theorem fwrite_fread_roundtrip_witness:
  "fst (snd (crt_file_read 1 2 (snd (crt_file_seek (snd (crt_file_write True (\<lambda>_. 7) [65, 66] 1 2 sample_stream)) 0 0)))) = [65, 66]"
  using fwrite_fread_roundtrip [of sample_stream "[65, 66]" "\<lambda>_. 7"
      "fst (crt_file_write True (\<lambda>_. 7) [65, 66] 1 2 sample_stream)"
      "snd (crt_file_write True (\<lambda>_. 7) [65, 66] 1 2 sample_stream)"
      "fst (crt_file_seek (snd (crt_file_write True (\<lambda>_. 7) [65, 66] 1 2 sample_stream)) 0 0)"
      "snd (crt_file_seek (snd (crt_file_write True (\<lambda>_. 7) [65, 66] 1 2 sample_stream)) 0 0)"
      "fst (crt_file_read 1 2 (snd (crt_file_seek (snd (crt_file_write True (\<lambda>_. 7) [65, 66] 1 2 sample_stream)) 0 0)))"
      "fst (snd (crt_file_read 1 2 (snd (crt_file_seek (snd (crt_file_write True (\<lambda>_. 7) [65, 66] 1 2 sample_stream)) 0 0))))"
      "snd (snd (crt_file_read 1 2 (snd (crt_file_seek (snd (crt_file_write True (\<lambda>_. 7) [65, 66] 1 2 sample_stream)) 0 0))))"]
  by (simp add: sample_stream_facts)

text \<open>\<open>fgets\<close> delivers the rest of the current line including its newline, cut to the caller's
  buffer, reports the end of the stream (or a one-byte buffer) as \<open>NULL\<close>, and leaves the content alone.\<close>

theorem fgets_correct:
  assumes "stream_inv f" and "0 < sz"
  shows "\<exists>f'. fgets sz f =
      (let text = take (nat sz - 1) (first_line (drop (position f) (content f)))
       in if text = [] then None else Some text, f') \<and>
    stream_inv f' \<and> content f' = content f"
  using fgets_loop_effect [OF assms(1), of "nat sz" "[]"] assms(2)
  by (auto simp: fgets_def Let_def)

theorem fgets_correct_witness: "fst (fgets 80 sample_stream) = Some [97, 98, 10]"
proof -
  have "\<exists>f'. fgets 80 sample_stream = (Some [97, 98, 10], f')"
    using fgets_correct [of sample_stream 80] sample_stream_facts by auto
  then show ?thesis by auto
qed

text \<open>Opening a stream never loads the file: the record is cleared after its path and mode
  storage was chosen, so the mode test that guards the loading loop never succeeds and every open
  yields an empty stream, whatever the file holds.\<close>

theorem fopen_never_loads:
  "crt_file_from_path_mode readFile grant path mode =
     Some (if grant 0 then
             Some (crt_blank_file\<lparr>file_flags := (if has_char mode 119 \<or> has_char mode 97 \<or> has_char mode 43 then 1 else 0)\<rparr>)
           else None)"
  by (simp add: crt_file_from_path_mode_def Let_def crt_blank_file_def copy_into_def has_char_def)

end
