(* ===== verification/Cells.thy ===== *)
theory Cells
  imports Prelude
begin

text \<open>
  64-bit fields in byte memory, little endian, as the compiled C code reads and writes them. A
  field store is a run of eight byte stores, so overlapping objects alias the way they do on the
  machine. Frames are stated by address: \<open>touches m m' T\<close> says that two memories differ at addresses
  of the set \<open>T\<close> only.
\<close>

primrec le_word :: "u8 list \<Rightarrow> u64" where
  "le_word [] = 0"
| "le_word (b # bs) = ucast b + 256 * le_word bs"

primrec word_le :: "nat \<Rightarrow> u64 \<Rightarrow> u8 list" where
  "word_le 0 v = []"
| "word_le (Suc n) v = ucast v # word_le n (drop_bit 8 v)"

definition load64 :: "mem \<Rightarrow> u64 \<Rightarrow> u64" where
  "load64 m a = le_word (mem_bytes m a 8)"

definition store64 :: "mem \<Rightarrow> u64 \<Rightarrow> u64 \<Rightarrow> mem" where
  "store64 m a v = memcopy m a (word_le 8 v)"

definition touches :: "mem \<Rightarrow> mem \<Rightarrow> nat set \<Rightarrow> bool" where
  "touches m m' T \<longleftrightarrow> (\<forall>x. unat x \<notin> T \<longrightarrow> m' x = m x)"

section \<open>Field access\<close>

lemma length_word_le [simp]: "length (word_le n v) = n"
  by (induction n arbitrary: v) auto

lemma le_word_word_le: "n \<le> 8 \<Longrightarrow> unat (le_word (word_le n v)) = unat v mod 2 ^ (8 * n)"
proof (induction n arbitrary: v)
  case (Suc n)
  define r where "r = le_word (word_le n (drop_bit 8 v))"
  have r: "unat r = unat v div 256 mod 2 ^ (8 * n)"
    using Suc by (simp add: r_def unat_drop_bit_eq unat_div drop_bit_eq_div)
  have c: "unat (ucast (ucast v :: u8) :: u64) = unat v mod 256"
    by (simp add: unsigned_ucast_eq take_bit_eq_mod unat_mod)
  have m: "unat v mod 256 + 256 * (unat v div 256 mod 2 ^ (8 * n)) = unat v mod (256 * 2 ^ (8 * n))"
    by (simp add: mod_mult2_eq)
  have "256 * 2 ^ (8 * n) \<le> (2 :: nat) ^ 64"
    using Suc.prems power_increasing [of "8 * Suc n" 64 "2 :: nat"] by (simp add: power_add)
  moreover have "unat v mod (256 * 2 ^ (8 * n)) < 256 * 2 ^ (8 * n)" by (rule mod_less_divisor) simp
  ultimately have "unat v mod (256 * 2 ^ (8 * n)) < 2 ^ 64" by (rule order.strict_trans2 [rotated])
  then have "unat v mod 256 + 256 * unat r < 2 ^ 64" by (simp only: r m)
  then have "unat (of_nat (unat v mod 256 + 256 * unat r) :: u64) = unat v mod 256 + 256 * unat r"
    by (intro unat_of_nat_less) simp
  moreover have "ucast (ucast v :: u8) + 256 * r = of_nat (unat v mod 256 + 256 * unat r)"
    unfolding c [symmetric] by simp
  ultimately have "unat (ucast (ucast v :: u8) + 256 * r) = unat v mod 256 + 256 * unat r" by metis
  then show ?case by (simp add: r_def [symmetric] r m power_add)
qed simp

lemma load_store_same [simp]: "load64 (store64 m a v) a = v"
proof -
  have "mem_bytes (store64 m a v) a 8 = word_le 8 v"
    using mem_bytes_memcopy [of "word_le 8 v" m a] by (simp add: store64_def)
  moreover have "unat (le_word (word_le 8 v)) = unat v"
    using le_word_word_le [of 8 v] unat_u64_less [of v] by simp
  ultimately show ?thesis by (metis load64_def unsigned_word_eqI)
qed

lemma store64_outside: "8 \<le> unat (x - a) \<Longrightarrow> store64 m a v x = m x"
  by (simp add: store64_def memcopy_apply)

lemma store64_elsewhere: "unat x < unat a \<or> unat a + 8 \<le> unat x \<Longrightarrow> unat a + 8 \<le> 2 ^ 64 \<Longrightarrow> store64 m a v x = m x"
proof (rule store64_outside)
  assume *: "unat x < unat a \<or> unat a + 8 \<le> unat x" "unat a + 8 \<le> 2 ^ 64"
  show "8 \<le> unat (x - a)"
    using * by (auto simp: unat_sub_if' )
qed

lemma load64_cong: "(\<And>i. i < 8 \<Longrightarrow> m' (a + of_nat i) = m (a + of_nat i)) \<Longrightarrow> load64 m' a = load64 m a"
  unfolding load64_def mem_bytes_def by (intro arg_cong [where f = le_word] map_cong) auto

lemma load_store_apart:
  assumes "8 \<le> unat (c - a)" "8 \<le> unat (a - c)"
  shows "load64 (store64 m a v) c = load64 m c"
proof (rule load64_cong)
  fix i :: nat assume i: "i < 8"
  have s: "unat (c - a) + unat (a - c) = 2 ^ 64"
    using assms by (auto simp: unat_sub_if' split: if_splits)
  have "c + of_nat i - a = (c - a) + of_nat i" by (simp add: algebra_simps)
  moreover have "unat ((c - a) + of_nat i) = unat (c - a) + i"
    using i s assms(2) by (simp add: unat_word_ariths unat_of_nat_less)
  ultimately have "8 \<le> unat (c + of_nat i - a)" using assms(1) by (metis trans_le_add1)
  then show "store64 m a v (c + of_nat i) = m (c + of_nat i)" by (rule store64_outside)
qed

section \<open>Frames\<close>

lemma touches_refl [simp]: "touches m m T"
  by (simp add: touches_def)

lemma touches_trans: "touches m m' T \<Longrightarrow> touches m' m'' U \<Longrightarrow> T \<union> U \<subseteq> V \<Longrightarrow> touches m m'' V"
  unfolding touches_def by (metis UnCI subsetD)

lemma touches_mono: "touches m m' T \<Longrightarrow> T \<subseteq> U \<Longrightarrow> touches m m' U"
  by (auto simp: touches_def)

lemma touchesD: "touches m m' T \<Longrightarrow> unat x \<notin> T \<Longrightarrow> m' x = m x"
  by (simp add: touches_def)

lemma touches_store:
  "unat a + 8 \<le> 2 ^ 64 \<Longrightarrow> {unat a..<unat a + 8} \<subseteq> T \<Longrightarrow> touches m (store64 m a v) T"
  unfolding touches_def by (auto intro!: store64_elsewhere simp: subset_iff) (metis atLeastLessThan_iff leI)

lemma load64_touches:
  assumes "touches m m' T" "T \<inter> {unat a..<unat a + 8} = {}" "unat a + 8 \<le> 2 ^ 64"
  shows "load64 m' a = load64 m a"
proof (rule load64_cong)
  fix i :: nat assume i: "i < 8"
  then have "unat (a + of_nat i) = unat a + i" using assms(3) by (simp add: unat_word_ariths unat_of_nat_less)
  then have "unat (a + of_nat i) \<notin> T" using assms(2) i by auto
  then show "m' (a + of_nat i) = m (a + of_nat i)" using assms(1) by (simp add: touches_def)
qed

end
