(* ===== verification/Shared_Heap.thy ===== *)
theory Shared_Heap
  imports Cells
begin

text \<open>
  The process-wide heap of \<^verbatim>\<open>src/applications/include/user_runtime.h\<close>: a fixed window of the address
  space that a doubly linked list of block headers tiles. The list lives in the byte memory that
  holds the payloads too, so a header store that hit a payload, or the reverse, would show. \<open>0\<close> is
  \<open>NULL\<close>; addresses and sizes are 64-bit words and wrap. \<open>sizeof (UserSharedHeapState)\<close> is 24 and
  \<open>sizeof (UserSharedHeapBlock)\<close> is 32. The list walk is a partial function, since a damaged list may
  be cyclic.

  The spin lock is taken by a load-exclusive/store-exclusive pair. Whether the store-exclusive of
  the successive attempts succeeds is an input (\<open>sx\<close>); when the attempts run out the caller is still
  spinning (\<open>None\<close>). Each operation is one critical section.
\<close>

record UserSharedHeapState =
  magic :: u64
  lock_word :: u64
  head :: u64

record UserSharedHeapBlock =
  payload_bytes :: u64
  flags :: u64
  next_block :: u64
  prev_block :: u64

abbreviation USER_HEAP_BASE :: u64 where "USER_HEAP_BASE \<equiv> 0x20000000"
abbreviation USER_HEAP_LIMIT :: u64 where "USER_HEAP_LIMIT \<equiv> 0x40000000"
abbreviation USER_HEAP_BYTES :: u64 where "USER_HEAP_BYTES \<equiv> USER_HEAP_LIMIT - USER_HEAP_BASE"
abbreviation USER_SHARED_HEAP_MAGIC :: u64 where "USER_SHARED_HEAP_MAGIC \<equiv> 0x554845415031"
abbreviation USER_SHARED_HEAP_BLOCK_FREE :: u64 where "USER_SHARED_HEAP_BLOCK_FREE \<equiv> 1"

section \<open>Operations\<close>

definition user_shared_heap_align_up :: "u64 \<Rightarrow> u64" where
  "user_shared_heap_align_up v = (v + 15) AND NOT 15"

definition user_shared_heap_state :: "mem \<Rightarrow> UserSharedHeapState" where
  "user_shared_heap_state m =
     \<lparr>magic = load64 m USER_HEAP_BASE, lock_word = load64 m (USER_HEAP_BASE + 8),
      head = load64 m (USER_HEAP_BASE + 16)\<rparr>"

definition user_shared_heap_block :: "mem \<Rightarrow> u64 \<Rightarrow> UserSharedHeapBlock" where
  "user_shared_heap_block m b =
     \<lparr>payload_bytes = load64 m b, flags = load64 m (b + 8), next_block = load64 m (b + 16),
      prev_block = load64 m (b + 24)\<rparr>"

text \<open>Stores to the fields of a block header.\<close>

abbreviation set_payload_bytes :: "mem \<Rightarrow> u64 \<Rightarrow> u64 \<Rightarrow> mem" where
  "set_payload_bytes m b v \<equiv> store64 m b v"
abbreviation set_flags :: "mem \<Rightarrow> u64 \<Rightarrow> u64 \<Rightarrow> mem" where
  "set_flags m b v \<equiv> store64 m (b + 8) v"
abbreviation set_next :: "mem \<Rightarrow> u64 \<Rightarrow> u64 \<Rightarrow> mem" where
  "set_next m b v \<equiv> store64 m (b + 16) v"
abbreviation set_prev :: "mem \<Rightarrow> u64 \<Rightarrow> u64 \<Rightarrow> mem" where
  "set_prev m b v \<equiv> store64 m (b + 24) v"

definition user_shared_heap_first_block :: u64 where
  "user_shared_heap_first_block = USER_HEAP_BASE + user_shared_heap_align_up 24"

definition user_shared_heap_contains_pointer :: "u64 \<Rightarrow> bool" where
  "user_shared_heap_contains_pointer p \<longleftrightarrow> USER_HEAP_BASE \<le> p \<and> p < USER_HEAP_LIMIT"

definition user_shared_heap_block_is_free :: "mem \<Rightarrow> u64 \<Rightarrow> bool" where
  "user_shared_heap_block_is_free m b \<longleftrightarrow>
     b \<noteq> 0 \<and> flags (user_shared_heap_block m b) AND USER_SHARED_HEAP_BLOCK_FREE \<noteq> 0"

definition user_shared_heap_try_lock_once :: "bool \<Rightarrow> mem \<Rightarrow> bool \<times> mem" where
  "user_shared_heap_try_lock_once sx m =
     (if lock_word (user_shared_heap_state m) = 0 \<and> sx then (True, store64 m (USER_HEAP_BASE + 8) 1)
      else (False, m))"

definition user_shared_heap_initialize_locked :: "mem \<Rightarrow> mem" where
  "user_shared_heap_initialize_locked m =
     (if magic (user_shared_heap_state m) = USER_SHARED_HEAP_MAGIC \<and> head (user_shared_heap_state m) \<noteq> 0 then m
      else
        (let b = user_shared_heap_first_block;
             m = store64 m USER_HEAP_BASE USER_SHARED_HEAP_MAGIC;
             m = store64 m (USER_HEAP_BASE + 16) b;
             m = set_payload_bytes m b (USER_HEAP_BYTES - user_shared_heap_align_up 24 - 32);
             m = set_flags m b USER_SHARED_HEAP_BLOCK_FREE;
             m = set_next m b 0
         in set_prev m b 0))"

primrec user_shared_heap_lock :: "bool list \<Rightarrow> mem \<Rightarrow> mem option" where
  "user_shared_heap_lock [] m = None"
| "user_shared_heap_lock (sx # sxs) m =
     (case user_shared_heap_try_lock_once sx m of
        (True, m) \<Rightarrow> Some (user_shared_heap_initialize_locked m)
      | (False, m) \<Rightarrow> user_shared_heap_lock sxs m)"

definition user_shared_heap_unlock :: "mem \<Rightarrow> mem" where
  "user_shared_heap_unlock m = store64 m (USER_HEAP_BASE + 8) 0"

definition user_shared_heap_split_block :: "mem \<Rightarrow> u64 \<Rightarrow> u64 \<Rightarrow> mem" where
  "user_shared_heap_split_block m b bytes =
     (if b = 0 then m
      else if payload_bytes (user_shared_heap_block m b) \<le> bytes + 32 + 16 then m
      else
        (let remainder = b + 32 + bytes;
             m = set_payload_bytes m remainder (payload_bytes (user_shared_heap_block m b) - bytes - 32);
             m = set_flags m remainder USER_SHARED_HEAP_BLOCK_FREE;
             m = set_next m remainder (next_block (user_shared_heap_block m b));
             m = set_prev m remainder b;
             nx = next_block (user_shared_heap_block m remainder);
             m = (if nx \<noteq> 0 then set_prev m nx remainder else m);
             m = set_payload_bytes m b bytes
         in set_next m b remainder))"

text \<open>
  The absorption of a block by its predecessor, which the code writes out three times: twice in
  \<open>user_shared_heap_coalesce\<close> and once in \<open>user_shared_heap_realloc\<close>.
\<close>

definition absorb_block :: "mem \<Rightarrow> u64 \<Rightarrow> u64 \<Rightarrow> mem" where
  "absorb_block m b victim =
     (let m = set_payload_bytes m b
                (payload_bytes (user_shared_heap_block m b) + (32 + payload_bytes (user_shared_heap_block m victim)));
          m = set_next m b (next_block (user_shared_heap_block m victim));
          nx = next_block (user_shared_heap_block m b)
      in if nx \<noteq> 0 then set_prev m nx b else m)"

definition user_shared_heap_coalesce :: "mem \<Rightarrow> u64 \<Rightarrow> mem" where
  "user_shared_heap_coalesce m b =
     (if b = 0 then m
      else
        (let nx = next_block (user_shared_heap_block m b);
             m = (if nx \<noteq> 0 \<and> user_shared_heap_block_is_free m nx then absorb_block m b nx else m);
             pv = prev_block (user_shared_heap_block m b)
         in if pv \<noteq> 0 \<and> user_shared_heap_block_is_free m pv then absorb_block m pv b else m))"

partial_function (option) heap_walk :: "mem \<Rightarrow> u64 \<Rightarrow> u64 \<Rightarrow> (u64 \<times> mem) option" where
  "heap_walk m bytes b =
     (if b = 0 then Some (0, m)
      else if \<not> user_shared_heap_block_is_free m b \<or> payload_bytes (user_shared_heap_block m b) < bytes
      then heap_walk m bytes (next_block (user_shared_heap_block m b))
      else
        (let m = user_shared_heap_split_block m b bytes;
             m = set_flags m b (flags (user_shared_heap_block m b) AND NOT USER_SHARED_HEAP_BLOCK_FREE)
         in Some (b + 32, m)))"

definition user_shared_heap_malloc_locked :: "mem \<Rightarrow> u64 \<Rightarrow> (u64 \<times> mem) option" where
  "user_shared_heap_malloc_locked m bytes = heap_walk m bytes (head (user_shared_heap_state m))"

definition user_shared_heap_free_locked :: "mem \<Rightarrow> u64 \<Rightarrow> mem" where
  "user_shared_heap_free_locked m ptr =
     (if ptr = 0 \<or> \<not> user_shared_heap_contains_pointer ptr then m
      else
        (let b = ptr - 32;
             m = set_flags m b (flags (user_shared_heap_block m b) OR USER_SHARED_HEAP_BLOCK_FREE)
         in user_shared_heap_coalesce m b))"

definition user_shared_heap_malloc :: "bool list \<Rightarrow> mem \<Rightarrow> u64 \<Rightarrow> (u64 \<times> mem) option" where
  "user_shared_heap_malloc sx m sz =
     (let bytes = user_shared_heap_align_up (if sz \<noteq> 0 then sz else 1)
      in case user_shared_heap_lock sx m of
           None \<Rightarrow> None
         | Some m \<Rightarrow>
             (case user_shared_heap_malloc_locked m bytes of
                None \<Rightarrow> None
              | Some (p, m) \<Rightarrow> Some (p, user_shared_heap_unlock m)))"

definition user_shared_heap_free :: "bool list \<Rightarrow> mem \<Rightarrow> u64 \<Rightarrow> mem option" where
  "user_shared_heap_free sx m ptr =
     (if ptr = 0 \<or> \<not> user_shared_heap_contains_pointer ptr then Some m
      else
        (case user_shared_heap_lock sx m of
           None \<Rightarrow> None
         | Some m \<Rightarrow> Some (user_shared_heap_unlock (user_shared_heap_free_locked m ptr))))"

text \<open>The copy loop of \<open>user_shared_heap_realloc\<close>, byte by byte upwards.\<close>

primrec copy_up :: "nat \<Rightarrow> mem \<Rightarrow> u64 \<Rightarrow> u64 \<Rightarrow> mem" where
  "copy_up 0 m dst src = m"
| "copy_up (Suc n) m dst src = copy_up n (m(dst := m src)) (dst + 1) (src + 1)"

definition user_shared_heap_realloc :: "bool list \<Rightarrow> mem \<Rightarrow> u64 \<Rightarrow> u64 \<Rightarrow> (u64 \<times> mem) option" where
  "user_shared_heap_realloc sx m ptr sz =
     (if ptr = 0 then user_shared_heap_malloc sx m sz
      else if sz = 0 then map_option (\<lambda>m. (0, m)) (user_shared_heap_free sx m ptr)
      else if \<not> user_shared_heap_contains_pointer ptr then Some (0, m)
      else
        (case user_shared_heap_lock sx m of
           None \<Rightarrow> None
         | Some m \<Rightarrow>
             (let b = ptr - 32; bytes = user_shared_heap_align_up sz;
                  old_bytes = payload_bytes (user_shared_heap_block m b);
                  nx = next_block (user_shared_heap_block m b)
              in if bytes \<le> old_bytes then
                   Some (ptr, user_shared_heap_unlock (user_shared_heap_split_block m b bytes))
                 else if nx \<noteq> 0 \<and> user_shared_heap_block_is_free m nx \<and>
                         bytes \<le> old_bytes + 32 + payload_bytes (user_shared_heap_block m nx) then
                   Some (ptr, user_shared_heap_unlock (user_shared_heap_split_block (absorb_block m b nx) b bytes))
                 else
                   (case user_shared_heap_malloc_locked m bytes of
                      None \<Rightarrow> None
                    | Some (replacement, m) \<Rightarrow>
                        if replacement = 0 then Some (0, user_shared_heap_unlock m)
                        else
                          (let old_bytes = payload_bytes (user_shared_heap_block m b);
                               copy_bytes = (if old_bytes < sz then old_bytes else sz);
                               m = copy_up (unat copy_bytes) m replacement ptr
                           in Some (replacement, user_shared_heap_unlock (user_shared_heap_free_locked m ptr)))))))"


section \<open>The block list\<close>

text \<open>
  A segment is the payload size of a block and whether it is free. \<open>linked m p a ss\<close>: from address
  \<open>a\<close> on, the headers of \<open>m\<close> describe the segments \<open>ss\<close>, back to back, with \<open>p\<close> the predecessor of the first.
\<close>

type_synonym segment = "nat \<times> bool"

primrec span :: "segment list \<Rightarrow> nat" where
  "span [] = 0"
| "span (s # ss) = 32 + fst s + span ss"

primrec linked :: "mem \<Rightarrow> u64 \<Rightarrow> nat \<Rightarrow> segment list \<Rightarrow> bool" where
  "linked m p a [] \<longleftrightarrow> True"
| "linked m p a (s # ss) \<longleftrightarrow>
     user_shared_heap_block m (of_nat a) =
       \<lparr>payload_bytes = of_nat (fst s), flags = of_bool (snd s),
        next_block = (if ss = [] then 0 else of_nat (a + 32 + fst s)), prev_block = p\<rparr> \<and>
     linked m (of_nat a) (a + 32 + fst s) ss"

lemma span_append [simp]: "span (xs @ ys) = span xs + span ys"
  by (induction xs) auto

lemma block_store [simp]:
  "user_shared_heap_block (set_payload_bytes m b v) b = (user_shared_heap_block m b)\<lparr>payload_bytes := v\<rparr>"
  "user_shared_heap_block (set_flags m b v) b = (user_shared_heap_block m b)\<lparr>flags := v\<rparr>"
  "user_shared_heap_block (set_next m b v) b = (user_shared_heap_block m b)\<lparr>next_block := v\<rparr>"
  "user_shared_heap_block (set_prev m b v) b = (user_shared_heap_block m b)\<lparr>prev_block := v\<rparr>"
  by (simp_all add: user_shared_heap_block_def load_store_apart)

lemma block_touches:
  assumes "touches m m' T" "T \<inter> {unat b..<unat b + 32} = {}" "unat b + 32 \<le> 2 ^ 64"
  shows "user_shared_heap_block m' b = user_shared_heap_block m b"
proof -
  have "load64 m' (b + of_nat k) = load64 m (b + of_nat k)" if "k \<le> 24" for k
  proof (rule load64_touches [OF assms(1)])
    have "unat (b + of_nat k) = unat b + k" using that assms(3) by (simp add: unat_word_ariths unat_of_nat_less)
    then show "T \<inter> {unat (b + of_nat k)..<unat (b + of_nat k) + 8} = {}" "unat (b + of_nat k) + 8 \<le> 2 ^ 64"
      using assms(2,3) that by auto
  qed
  from this [of 0] this [of 8] this [of 16] this [of 24] show ?thesis by (simp add: user_shared_heap_block_def)
qed

lemma touches_field:
  assumes "a + 32 \<le> 2 ^ 64" "k \<le> 24"
  shows "touches m (store64 m (of_nat a + of_nat k) v) {a..<a + 32}"
proof (rule touches_store)
  have "unat (of_nat (a + k) :: u64) = a + k" using assms by (intro unat_of_nat_less) simp
  then have "unat (of_nat a + of_nat k :: u64) = a + k" by simp
  then show "unat (of_nat a + of_nat k :: u64) + 8 \<le> 2 ^ 64"
    "{unat (of_nat a + of_nat k :: u64)..<unat (of_nat a + of_nat k :: u64) + 8} \<subseteq> {a..<a + 32}"
    using assms by auto
qed

lemma touches_block:
  assumes "a + 32 \<le> 2 ^ 64"
  shows "touches m (set_payload_bytes m (of_nat a) v) {a..<a + 32}"
    "touches m (set_flags m (of_nat a) v) {a..<a + 32}"
    "touches m (set_next m (of_nat a) v) {a..<a + 32}"
    "touches m (set_prev m (of_nat a) v) {a..<a + 32}"
  using touches_field [OF assms, of 0] touches_field [OF assms, of 8] touches_field [OF assms, of 16]
    touches_field [OF assms, of 24] by simp_all

lemma linked_touches:
  assumes "linked m p a ss" "touches m m' T" "T \<inter> {a..<a + span ss} = {}" "a + span ss \<le> 2 ^ 63"
  shows "linked m' p a ss"
  using assms
proof (induction ss arbitrary: p a)
  case (Cons s ss)
  have u: "unat (of_nat a :: u64) = a" using Cons.prems(4) by (intro unat_of_nat_less) simp
  have "user_shared_heap_block m' (of_nat a) = user_shared_heap_block m (of_nat a)"
    using Cons.prems(3,4) by (intro block_touches [OF Cons.prems(2)]) (auto simp: u)
  moreover have "linked m' (of_nat a) (a + 32 + fst s) ss"
    using Cons.prems by (intro Cons.IH) (auto simp: add.assoc)
  ultimately show ?case using Cons.prems(1) by simp
qed simp

lemma linked_replace:
  assumes "linked m p a (pre @ ss)" "touches m m' T" "T \<inter> {a..<a + span pre} = {}" "a + span pre \<le> 2 ^ 63"
    and "\<And>q. linked m q (a + span pre) ss \<Longrightarrow> linked m' q (a + span pre) ts" "(ss = []) = (ts = [])"
  shows "linked m' p a (pre @ ts)"
  using assms
proof (induction pre arbitrary: p a)
  case (Cons s pre)
  have u: "unat (of_nat a :: u64) = a" using Cons.prems(4) by (intro unat_of_nat_less) simp
  have "user_shared_heap_block m' (of_nat a) = user_shared_heap_block m (of_nat a)"
    using Cons.prems(3,4) by (intro block_touches [OF Cons.prems(2)]) (auto simp: u)
  moreover have "linked m' (of_nat a) (a + 32 + fst s) (pre @ ts)"
    using Cons.prems by (intro Cons.IH) (auto simp: add.assoc)
  ultimately show ?case using Cons.prems(1,6) by simp
qed simp

lemma linked_drop: "linked m p a (pre @ ss) \<Longrightarrow> \<exists>q. linked m q (a + span pre) ss"
  by (induction pre arbitrary: p a) (auto simp: add.assoc, metis add.assoc)

lemma linked_prev: "linked m p a (pre @ w # s # ss) \<Longrightarrow> linked m (of_nat (a + span pre)) (a + span pre + 32 + fst w) (s # ss)"
  using linked_drop [of m p a pre "w # s # ss"] by auto


section \<open>What the list operations do to the segments\<close>

text \<open>The bytes that belong to the allocator: headers and the payloads of free blocks.\<close>

primrec idle :: "nat \<Rightarrow> segment list \<Rightarrow> nat set" where
  "idle a [] = {}"
| "idle a (s # ss) = {a..<a + 32} \<union> (if snd s then {a + 32..<a + 32 + fst s} else {}) \<union> idle (a + 32 + fst s) ss"

lemma idle_append: "idle a (xs @ ys) = idle a xs \<union> idle (a + span xs) ys"
  by (induction xs arbitrary: a) (auto simp: add.assoc)

lemma idle_subset: "idle a ss \<subseteq> {a..<a + span ss}"
proof (induction ss arbitrary: a)
  case (Cons s ss)
  from Cons.IH [of "a + 32 + fst s"] show ?case by (auto simp: subset_iff)
qed simp

text \<open>The back link of the first block of a tail, which may be empty.\<close>

abbreviation first_link :: "nat \<Rightarrow> segment list \<Rightarrow> u64" where
  "first_link a ss \<equiv> (if ss = [] then 0 else of_nat a)"

definition relink :: "mem \<Rightarrow> u64 \<Rightarrow> u64 \<Rightarrow> mem" where
  "relink m nx b = (if nx \<noteq> 0 then set_prev m nx b else m)"

lemma of_nat_u64_eq_0: "a < 2 ^ 64 \<Longrightarrow> (of_nat a :: u64) = 0 \<longleftrightarrow> a = 0"
  using unat_of_nat_less [where ?'a = 64, of a] unat_eq_0 [of "of_nat a :: u64"] by simp

lemma relink_linked:
  assumes "linked m p a ss" "a + span ss \<le> 2 ^ 63" "0 < a"
  shows "linked (relink m (first_link a ss) b) b a ss"
    and "touches m (relink m (first_link a ss) b) (idle a ss)"
proof -
  have a: "(of_nat a :: u64) \<noteq> 0" using assms by (simp add: of_nat_u64_eq_0)
  show "touches m (relink m (first_link a ss) b) (idle a ss)"
    using assms(2) touches_mono [OF touches_block(4) [of a m b]] by (cases ss) (auto simp: relink_def Un_assoc)
  show "linked (relink m (first_link a ss) b) b a ss"
  proof (cases ss)
    case (Cons s ss')
    have "linked (set_prev m (of_nat a) b) (of_nat a) (a + 32 + fst s) ss'"
      using assms Cons by (intro linked_touches [OF _ touches_block(4)]) auto
    then show ?thesis using assms(1) Cons a by (simp add: relink_def)
  qed simp
qed

text \<open>Rewriting the first header and relinking the block behind it.\<close>

lemma linked_header:
  assumes "linked m p c ss" "touches m m1 {a..<a + 32}" "a + 32 \<le> c" "c + span ss \<le> 2 ^ 63" "0 < a"
    and "user_shared_heap_block m1 (of_nat a) =
       \<lparr>payload_bytes = of_nat (c - a - 32), flags = of_bool f, next_block = first_link c ss, prev_block = q\<rparr>"
  shows "linked (relink m1 (first_link c ss) (of_nat a)) q a ((c - a - 32, f) # ss)"
    and "touches m (relink m1 (first_link c ss) (of_nat a)) ({a..<a + 32} \<union> idle c ss)"
proof -
  let ?m = "relink m1 (first_link c ss) (of_nat a)"
  have l1: "linked m1 p c ss"
    using assms by (intro linked_touches [OF assms(1,2)]) auto
  have c: "0 < c" using assms by simp
  note r = relink_linked [OF l1 assms(4) c, of "of_nat a"]
  show "touches m ?m ({a..<a + 32} \<union> idle c ss)"
    using touches_trans [OF assms(2) r(2)] by auto
  have u: "unat (of_nat a :: u64) = a" using assms(3,4) by (intro unat_of_nat_less) simp
  have "user_shared_heap_block ?m (of_nat a) = user_shared_heap_block m1 (of_nat a)"
    using assms(3,4) idle_subset [of c ss] by (intro block_touches [OF r(2)]) (auto simp: u)
  with r(1) assms(3,6) show "linked ?m q a ((c - a - 32, f) # ss)" by simp
qed

lemma absorb_block_eq:
  "absorb_block m b v =
     relink (set_next (set_payload_bytes m b (payload_bytes (user_shared_heap_block m b) + (32 + payload_bytes (user_shared_heap_block m v)))) b
        (next_block (user_shared_heap_block
          (set_payload_bytes m b (payload_bytes (user_shared_heap_block m b) + (32 + payload_bytes (user_shared_heap_block m v)))) v)))
       (next_block (user_shared_heap_block
          (set_payload_bytes m b (payload_bytes (user_shared_heap_block m b) + (32 + payload_bytes (user_shared_heap_block m v)))) v)) b"
  by (simp add: absorb_block_def relink_def Let_def)

lemma absorb_linked:
  assumes l: "linked m p a ((n, f) # (k, g) # ss)" and B: "a + span ((n, f) # (k, g) # ss) \<le> 2 ^ 63" and a: "0 < a"
    and vd: "v = of_nat (a + 32 + n)" and cd: "c = a + 64 + n + k"
  shows "linked (absorb_block m (of_nat a) v) p a ((n + 32 + k, f) # ss)"
    and "touches m (absorb_block m (of_nat a) v) ({a..<a + 32} \<union> idle c ss)"
proof -
  let ?m1 = "set_payload_bytes m (of_nat a) (of_nat (n + 32 + k))"
  let ?m2 = "set_next ?m1 (of_nat a) (first_link c ss)"
  have v: "unat v = a + 32 + n" unfolding vd using B by (intro unat_of_nat_less) simp
  have t1: "touches m ?m1 {a..<a + 32}" using B by (intro touches_block) simp
  have bv: "user_shared_heap_block ?m1 v = user_shared_heap_block m v"
    using B by (intro block_touches [OF t1]) (auto simp: v)
  have mv: "user_shared_heap_block m v =
      \<lparr>payload_bytes = of_nat k, flags = of_bool g, next_block = first_link c ss, prev_block = of_nat a\<rparr>"
    and lt: "linked m v c ss" using l by (simp_all add: vd cd add_ac)
  have ma: "user_shared_heap_block m (of_nat a) =
      \<lparr>payload_bytes = of_nat n, flags = of_bool f, next_block = v, prev_block = p\<rparr>"
    using l by (simp add: vd)
  have "of_nat n + (32 + of_nat k) = (of_nat (n + 32 + k) :: u64)" by (simp add: add_ac)
  then have eq: "absorb_block m (of_nat a) v = relink ?m2 (first_link c ss) (of_nat a)"
    unfolding absorb_block_eq mv ma UserSharedHeapBlock.simps by (simp only: bv mv UserSharedHeapBlock.simps)
  have t2: "touches m ?m2 {a..<a + 32}"
    using B by (intro touches_trans [OF t1 touches_block(3)]) auto
  have hd: "user_shared_heap_block ?m2 (of_nat a) =
      \<lparr>payload_bytes = of_nat (c - a - 32), flags = of_bool f, next_block = first_link c ss, prev_block = p\<rparr>"
    by (simp add: ma cd add_ac)
  have n: "c - a - 32 = n + 32 + k" "a + 32 \<le> c" "c + span ss \<le> 2 ^ 63" using B by (simp_all add: cd)
  show "linked (absorb_block m (of_nat a) v) p a ((n + 32 + k, f) # ss)"
    using linked_header(1) [OF lt t2 n(2,3) a hd] unfolding eq n(1) .
  show "touches m (absorb_block m (of_nat a) v) ({a..<a + 32} \<union> idle c ss)"
    using linked_header(2) [OF lt t2 n(2,3) a hd] unfolding eq .
qed

lemma split_block_eq:
  assumes "b \<noteq> 0" and blk: "user_shared_heap_block m b = blk" and "\<not> payload_bytes blk \<le> bytes + 32 + 16"
    and R: "b + 32 + bytes = R" and d: "payload_bytes blk - bytes - 32 = d"
    and m0: "user_shared_heap_block (set_flags (set_payload_bytes m R d) R 1) b = blk"
  shows "user_shared_heap_split_block m b bytes =
     set_next (set_payload_bytes (relink (set_prev (set_next (set_flags (set_payload_bytes m R d) R 1) R (next_block blk)) R b)
       (next_block blk) R) b bytes) b R"
  using assms(1,3) unfolding user_shared_heap_split_block_def Let_def R blk d m0 by (simp add: relink_def)

lemma split_linked:
  assumes l: "linked m p a ((n, f) # ss)" and B: "a + span ((n, f) # ss) \<le> 2 ^ 63" and a: "0 < a" and k: "k \<le> n"
    and md: "m' = user_shared_heap_split_block m (of_nat a) (of_nat k)"
  shows "linked m' p a (if n \<le> k + 48 then (n, f) # ss else (k, f) # (n - k - 32, True) # ss)" (is "linked _ _ _ ?ss")
    and "touches m m' ({a..<a + 32} \<union> {a + 32 + k..<a + 32 + n} \<union> idle (a + 32 + n) ss)" (is "touches _ _ ?T")
proof -
  have ma: "user_shared_heap_block m (of_nat a) =
      \<lparr>payload_bytes = of_nat n, flags = of_bool f, next_block = first_link (a + 32 + n) ss, prev_block = p\<rparr>"
    and lt: "linked m (of_nat a) (a + 32 + n) ss"
    using l by simp_all
  have a0: "(of_nat a :: u64) \<noteq> 0" using a B by (simp add: of_nat_u64_eq_0)
  have u: "unat (of_nat n :: u64) = n" "unat (of_nat k + 48 :: u64) = k + 48" "unat (of_nat a :: u64) = a"
    using B k unat_of_nat_less [where ?'a = 64, of "k + 48"] by (simp_all add: unat_of_nat_less)
  have le: "(of_nat n :: u64) \<le> of_nat k + 48 \<longleftrightarrow> n \<le> k + 48" by (simp add: word_le_nat_alt u)
  have "linked m' p a ?ss \<and> touches m m' ?T"
  proof (cases "n \<le> k + 48")
    case True
    then show ?thesis using l le a0 ma by (simp add: md user_shared_heap_split_block_def add.assoc)
  next
    case False
    define r c where "r = a + 32 + k" and "c = a + 32 + n"
    let ?R = "of_nat r :: u64"
    let ?m0 = "set_flags (set_payload_bytes m ?R (of_nat (c - r - 32))) ?R 1"
    let ?m1 = "set_prev (set_next ?m0 ?R (first_link c ss)) ?R (of_nat a)"
    let ?m2 = "relink ?m1 (first_link c ss) ?R"
    let ?m3 = "set_next (set_payload_bytes ?m2 (of_nat a) (of_nat k)) (of_nat a) ?R"
    have rc: "r + 32 \<le> c" "a + 32 \<le> r" "c + span ss \<le> 2 ^ 63" "0 < r" using False B by (simp_all add: r_def c_def)
    have t0: "touches m ?m0 {r..<r + 32}"
      using rc by (intro touches_trans [OF touches_block(1) touches_block(2)]) auto
    have "touches ?m0 ?m1 {r..<r + 32}"
      using rc by (intro touches_trans [OF touches_block(3) touches_block(4)]) auto
    with t0 have t1: "touches m ?m1 {r..<r + 32}" by (rule touches_trans) simp
    have hd: "user_shared_heap_block ?m1 ?R =
       \<lparr>payload_bytes = of_nat (c - r - 32), flags = of_bool True, next_block = first_link c ss, prev_block = of_nat a\<rparr>"
      by simp
    note l2 = linked_header [OF lt [folded c_def] t1 rc(1,3,4) hd]
    have ba: "user_shared_heap_block m1 (of_nat a) = user_shared_heap_block m (of_nat a)"
      if "touches m m1 T" "T \<subseteq> {r..}" for m1 T
      using that rc by (intro block_touches [OF that(1)]) (auto simp: u)
    have ba0: "user_shared_heap_block ?m0 (of_nat a) = user_shared_heap_block m (of_nat a)"
      by (rule ba [OF t0]) auto
    have ba2: "user_shared_heap_block ?m2 (of_nat a) = user_shared_heap_block m (of_nat a)"
      using rc idle_subset [of c ss] by (intro ba [OF l2(2)]) auto
    have t3: "touches ?m2 ?m3 {a..<a + 32}"
      using rc by (intro touches_trans [OF touches_block(1) touches_block(3)]) auto
    have num: "of_nat n - of_nat k - 32 = (of_nat (c - r - 32) :: u64)"
      using False by (simp add: c_def r_def of_nat_diff algebra_simps)
    have "of_nat a + 32 + of_nat k = ?R" "\<not> (of_nat n :: u64) \<le> of_nat k + 32 + 16"
      using False le by (simp_all add: r_def add.assoc)
    then have "m' = ?m3"
      using split_block_eq [OF a0 ma, of "of_nat k" ?R "of_nat (c - r - 32)"] num ba0 [unfolded ma]
      unfolding md by (simp add: c_def del: of_nat_diff of_nat_diff_if)
    moreover have "linked ?m3 p a ?ss"
    proof -
      have "linked ?m3 (of_nat a) r ((c - r - 32, True) # ss)"
        using rc by (intro linked_touches [OF l2(1) t3]) auto
      moreover have "c - r - 32 = n - k - 32" by (simp add: c_def r_def)
      ultimately show ?thesis using False ba2 ma by (simp add: r_def)
    qed
    moreover have "touches m ?m3 ?T"
      using rc by (intro touches_trans [OF l2(2) t3]) (auto simp: r_def c_def)
    ultimately show ?thesis by simp
  qed
  then show "linked m' p a ?ss" "touches m m' ?T" by simp_all
qed

section \<open>First fit and release on segments\<close>

definition carve :: "nat \<Rightarrow> nat \<Rightarrow> segment list \<Rightarrow> segment list" where
  "carve k n ss = (if n \<le> k + 48 then (n, False) # ss else (k, False) # (n - k - 32, True) # ss)"

fun first_fit :: "nat \<Rightarrow> nat \<Rightarrow> segment list \<Rightarrow> (nat \<times> segment list) option" where
  "first_fit k a [] = None"
| "first_fit k a (s # ss) =
     (if snd s \<and> k \<le> fst s then Some (a + 32, carve k (fst s) ss)
      else map_option (\<lambda>(p, ts). (p, s # ts)) (first_fit k (a + 32 + fst s) ss))"

fun join :: "segment \<Rightarrow> segment list \<Rightarrow> segment list" where
  "join (n, True) ((k, True) # ss) = (n + 32 + k, True) # ss"
| "join s ss = s # ss"

primrec release :: "nat \<Rightarrow> nat \<Rightarrow> segment list \<Rightarrow> segment list" where
  "release p a [] = []"
| "release p a (s # ss) =
     (if p = a + 32 then join (fst s, True) ss
      else if p = a + 32 + fst s + 32 then join s (release p (a + 32 + fst s) ss)
      else s # release p (a + 32 + fst s) ss)"

text \<open>The live blocks: payload address and payload size.\<close>

primrec allocs :: "nat \<Rightarrow> segment list \<Rightarrow> nat \<rightharpoonup> nat" where
  "allocs a [] = Map.empty"
| "allocs a (s # ss) = (if snd s then allocs (a + 32 + fst s) ss else (allocs (a + 32 + fst s) ss)(a + 32 \<mapsto> fst s))"

lemma allocs_SomeD: "allocs a ss p = Some n \<Longrightarrow> a + 32 \<le> p \<and> p + n \<le> a + span ss"
  by (induction ss arbitrary: a) (fastforce split: if_splits)+

lemma allocs_below: "p < a + 32 \<Longrightarrow> allocs a ss p = None"
  using allocs_SomeD by (metis not_le not_None_eq)

lemma allocs_idle: "allocs a ss p = Some n \<Longrightarrow> {p..<p + n} \<inter> idle a ss = {}"
proof (induction ss arbitrary: a)
  case (Cons s ss)
  show ?case
  proof (cases "p = a + 32 \<and> \<not> snd s")
    case True
    with Cons.prems have "n = fst s" by simp
    then show ?thesis using True idle_subset [of "a + 32 + fst s" ss] by auto
  next
    case False
    with Cons.prems have *: "allocs (a + 32 + fst s) ss p = Some n" by (simp split: if_splits)
    from allocs_SomeD [OF *] Cons.IH [OF *] show ?thesis by (auto split: if_splits)
  qed
qed simp

lemma allocs_disjoint:
  assumes "allocs a ss p = Some n" "allocs a ss q = Some k" "p < q"
  shows "p + n + 32 \<le> q"
  using assms
proof (induction ss arbitrary: a)
  case (Cons s ss)
  show ?case
  proof (cases "p = a + 32 \<and> \<not> snd s")
    case True
    with Cons.prems have "n = fst s" "allocs (a + 32 + fst s) ss q = Some k" by (simp_all split: if_splits)
    then show ?thesis using True allocs_SomeD by fastforce
  next
    case False
    with Cons.prems have "allocs (a + 32 + fst s) ss p = Some n" by (simp split: if_splits)
    moreover from this have "q \<noteq> a + 32" using allocs_SomeD Cons.prems(3) by fastforce
    ultimately show ?thesis using Cons by (simp split: if_splits)
  qed
qed simp

lemma first_fit_ok:
  assumes "first_fit k a ss = Some (p, ts)"
  shows "span ts = span ss \<and> ts \<noteq> [] \<and>
    (\<exists>n. k \<le> n \<and> n \<le> k + 48 \<and> allocs a ts = (allocs a ss)(p \<mapsto> n) \<and> allocs a ss p = None \<and> {p..<p + n} \<subseteq> idle a ss)"
  using assms
proof (induction ss arbitrary: a ts)
  case (Cons s ss)
  show ?case
  proof (cases "snd s \<and> k \<le> fst s")
    case True
    with Cons.prems have "p = a + 32" "ts = carve k (fst s) ss" by auto
    then show ?thesis using True
      by (auto simp: carve_def allocs_below add_ac intro!: exI [of _ "if fst s \<le> k + 48 then fst s else k"])
  next
    case False
    then obtain us where us: "first_fit k (a + 32 + fst s) ss = Some (p, us)" "ts = s # us"
      using Cons.prems by auto
    from Cons.IH [OF us(1)] obtain n where n: "span us = span ss" "k \<le> n" "n \<le> k + 48"
      "allocs (a + 32 + fst s) us = (allocs (a + 32 + fst s) ss)(p \<mapsto> n)"
      "allocs (a + 32 + fst s) ss p = None" "{p..<p + n} \<subseteq> idle (a + 32 + fst s) ss" by blast
    have "a + 32 < p" using allocs_SomeD [of "a + 32 + fst s" us p n] n(4) by simp
    then have "span ts = span ss + 32 + fst s" "allocs a ts = (allocs a (s # ss))(p \<mapsto> n)" "allocs a (s # ss) p = None"
      "{p..<p + n} \<subseteq> idle a (s # ss)"
      using n us(2) by (auto simp: fun_upd_twist)
    then show ?thesis using n us(2) by auto
  qed
qed simp

lemma first_fit_None: "first_fit k a ss = None \<longleftrightarrow> (\<forall>s\<in>set ss. snd s \<longrightarrow> fst s < k)"
  by (induction ss arbitrary: a) auto

lemma span_join [simp]: "span (join s ss) = 32 + fst s + span ss"
  by (cases "(s, ss)" rule: join.cases) auto

lemma allocs_join: "allocs a (join s ss) = allocs a (s # ss)"
  by (cases "(s, ss)" rule: join.cases) (auto simp: add_ac)

lemma release_nonempty [simp]: "release p a ss = [] \<longleftrightarrow> ss = []"
  by (cases ss) (auto elim!: join.elims)

lemma join_nonempty [simp]: "join s ss \<noteq> []"
  by (cases "(s, ss)" rule: join.cases) auto

lemma span_release [simp]: "span (release p a ss) = span ss"
  by (induction ss arbitrary: a) auto

lemma allocs_release:
  assumes "p \<in> dom (allocs a ss)"
  shows "allocs a (release p a ss) = (allocs a ss)(p := None)"
  using assms
proof (induction ss arbitrary: a)
  case (Cons s ss)
  show ?case
  proof (cases "p = a + 32")
    case True
    then show ?thesis using Cons.prems by (auto simp: allocs_join allocs_below fun_upd_idem split: if_splits)
  next
    case False
    then have "p \<in> dom (allocs (a + 32 + fst s) ss)" using Cons.prems by (auto split: if_splits)
    from Cons.IH [OF this] False show ?thesis by (auto simp: allocs_join fun_upd_twist)
  qed
qed simp

section \<open>The list operations refine the segment operations\<close>

lemma block_is_free_iff:
  assumes "user_shared_heap_block m (of_nat a) = \<lparr>payload_bytes = n, flags = of_bool f, next_block = x, prev_block = y\<rparr>"
    and "0 < a" "a < 2 ^ 63"
  shows "user_shared_heap_block_is_free m (of_nat a) \<longleftrightarrow> f"
  using assms by (simp add: user_shared_heap_block_is_free_def of_nat_u64_eq_0)

lemma set_flags_linked:
  assumes "linked m q a ((n, f) # ss)" "a + span ((n, f) # ss) \<le> 2 ^ 63"
  shows "linked (set_flags m (of_nat a) (of_bool g)) q a ((n, g) # ss)"
    and "touches m (set_flags m (of_nat a) (of_bool g)) {a..<a + 32}"
proof -
  show t: "touches m (set_flags m (of_nat a) (of_bool g)) {a..<a + 32}" using assms(2) by (intro touches_block) simp
  have "linked (set_flags m (of_nat a) (of_bool g)) (of_nat a) (a + 32 + n) ss"
    using assms by (intro linked_touches [OF _ t]) auto
  then show "linked (set_flags m (of_nat a) (of_bool g)) q a ((n, g) # ss)" using assms(1) by simp
qed

lemma heap_walk_linked:
  assumes "linked m q a ss" "a + span ss \<le> 2 ^ 63" "0 < a"
  shows "case first_fit (unat k) a ss of
      None \<Rightarrow> heap_walk m k (first_link a ss) = Some (0, m)
    | Some (p, ts) \<Rightarrow> \<exists>m'. heap_walk m k (first_link a ss) = Some (of_nat p, m') \<and> linked m' q a ts \<and>
        touches m m' (idle a ss)"
  using assms
proof (induction ss arbitrary: q a)
  case Nil
  show ?case by (subst heap_walk.simps) simp
next
  case (Cons s ss)
  obtain n f where s: "s = (n, f)" by (cases s)
  have a0: "(of_nat a :: u64) \<noteq> 0" using Cons.prems by (simp add: of_nat_u64_eq_0)
  have ma: "user_shared_heap_block m (of_nat a) =
      \<lparr>payload_bytes = of_nat n, flags = of_bool f, next_block = first_link (a + 32 + n) ss, prev_block = q\<rparr>"
    using Cons.prems(1) s by simp
  have fr: "user_shared_heap_block_is_free m (of_nat a) \<longleftrightarrow> f"
    using Cons.prems by (intro block_is_free_iff [OF ma]) auto
  have un: "unat (of_nat n :: u64) = n" using Cons.prems s by (intro unat_of_nat_less) simp
  have lt: "(of_nat n :: u64) < k \<longleftrightarrow> n < unat k" by (simp add: word_less_nat_alt un)
  show ?case
  proof (cases "f \<and> unat k \<le> n")
    case True
    define m1 where "m1 = user_shared_heap_split_block m (of_nat a) k"
    have sp: "linked m1 q a (if n \<le> unat k + 48 then (n, f) # ss else (unat k, f) # (n - unat k - 32, True) # ss)"
      and t1: "touches m m1 ({a..<a + 32} \<union> {a + 32 + unat k..<a + 32 + n} \<union> idle (a + 32 + n) ss)"
      using split_linked [of m q a n f ss "unat k" m1] Cons.prems True s by (simp_all add: m1_def)
    define us where "us = (if n \<le> unat k + 48 then ss else (n - unat k - 32, True) # ss)"
    define j where "j = (if n \<le> unat k + 48 then n else unat k)"
    have l1: "linked m1 q a ((j, f) # us)" and cv: "carve (unat k) n ss = (j, False) # us"
      and B1: "a + span ((j, f) # us) \<le> 2 ^ 63"
      using sp Cons.prems(2) s by (auto simp: j_def us_def carve_def split: if_splits)
    let ?m2 = "set_flags m1 (of_nat a) (of_bool False)"
    have w: "heap_walk m k (of_nat a) = Some (of_nat a + 32, ?m2)"
      using True fr lt a0 ma l1 by (subst heap_walk.simps) (simp add: m1_def)
    have "linked ?m2 q a ((j, False) # us)" "touches m1 ?m2 {a..<a + 32}"
      using set_flags_linked [OF l1 B1] by blast+
    moreover from this have "touches m ?m2 (idle a (s # ss))"
      using t1 True by (elim touches_trans) (auto simp: s)
    ultimately show ?thesis using True w s cv by auto
  next
    case False
    then have w: "heap_walk m k (of_nat a) = heap_walk m k (first_link (a + 32 + n) ss)"
      using fr lt a0 ma by (subst heap_walk.simps) auto
    have tl: "linked m (of_nat a) (a + 32 + n) ss" "a + 32 + n + span ss \<le> 2 ^ 63"
      using Cons.prems s by (simp_all add: add.assoc)
    show ?thesis
    proof (cases "first_fit (unat k) (a + 32 + n) ss")
      case None
      then show ?thesis using False s w Cons.IH [OF tl] by auto
    next
      case (Some r)
      obtain p ts where r: "r = (p, ts)" by (cases r)
      then obtain m' where m': "heap_walk m k (first_link (a + 32 + n) ss) = Some (of_nat p, m')"
        "linked m' (of_nat a) (a + 32 + n) ts" "touches m m' (idle (a + 32 + n) ss)"
        using Some Cons.IH [OF tl] by auto
      have ts: "ts \<noteq> []" "ss \<noteq> []" using first_fit_ok Some r by fastforce+
      have "unat (of_nat a :: u64) = a" using Cons.prems by (intro unat_of_nat_less) simp
      then have "user_shared_heap_block m' (of_nat a) = user_shared_heap_block m (of_nat a)"
        using Cons.prems idle_subset [of "a + 32 + n" ss] by (intro block_touches [OF m'(3)]) auto
      then have "linked m' q a (s # ts)" using ma m'(2) ts s by simp
      moreover have "touches m m' (idle a (s # ss))" using m'(3) by (rule touches_mono) (simp add: s)
      ultimately show ?thesis using False s w m'(1) Some r by auto
    qed
  qed
qed

lemma absorb_next_linked:
  assumes l: "linked m q a ((n, True) # ss)" and B: "a + span ((n, True) # ss) \<le> 2 ^ 63" and a: "0 < a"
    and nx: "nx = next_block (user_shared_heap_block m (of_nat a))"
    and m': "m' = (if nx \<noteq> 0 \<and> user_shared_heap_block_is_free m nx then absorb_block m (of_nat a) nx else m)"
  shows "linked m' q a (join (n, True) ss)"
    and "touches m m' (idle a ((n, f) # ss))"
proof -
  have "linked m' q a (join (n, True) ss) \<and> touches m m' (idle a ((n, f) # ss))"
  proof (cases ss)
    case Nil
    then show ?thesis using l nx m' by simp
  next
    case (Cons s us)
    obtain k g where s: "s = (k, g)" by (cases s)
    have v: "nx = of_nat (a + 32 + n)" using l nx Cons by simp
    have v0: "nx \<noteq> 0" unfolding v using B Cons by (subst of_nat_u64_eq_0) auto
    have "user_shared_heap_block m nx = \<lparr>payload_bytes = of_nat k, flags = of_bool g,
        next_block = first_link (a + 32 + n + 32 + k) us, prev_block = of_nat a\<rparr>"
      using l Cons s by (simp add: v)
    then have fr: "user_shared_heap_block_is_free m nx \<longleftrightarrow> g"
      using B Cons unfolding v by (intro block_is_free_iff) auto
    show ?thesis
    proof (cases g)
      case True
      then have "m' = absorb_block m (of_nat a) nx" using m' v0 fr by simp
      then show ?thesis
        using absorb_linked [OF l [unfolded Cons s] B [unfolded Cons s] a v refl] Cons s True
        by (auto simp: add_ac elim!: touches_mono)
    next
      case False
      then show ?thesis using m' fr l Cons s by simp
    qed
  qed
  then show "linked m' q a (join (n, True) ss)" "touches m m' (idle a ((n, f) # ss))" by auto
qed

fun join_last :: "segment list \<Rightarrow> segment list \<Rightarrow> segment list" where
  "join_last [] ss = ss"
| "join_last [w] ss = join w ss"
| "join_last (w # v # ws) ss = w # join_last (v # ws) ss"

lemma join_last_snoc: "join_last (ws @ [w]) ss = ws @ join w ss"
proof (induction ws)
  case (Cons v ws)
  then show ?case by (cases "ws @ [w]") auto
qed simp

lemma release_at:
  "release (a + span pre + 32) a (pre @ (n, f) # post) = join_last pre (join (n, True) post)"
proof (induction pre arbitrary: a)
  case (Cons w ws)
  have "release (a + 32 + fst w + span ws + 32) (a + 32 + fst w) (ws @ (n, f) # post) = join_last ws (join (n, True) post)"
    by (rule Cons.IH)
  then show ?case by (cases ws) (auto simp: add_ac)
qed simp

lemma idle_join: "join (n, True) post = (n', True) # us \<Longrightarrow> idle (a + 32 + n') us \<subseteq> idle a ((n, f) # post)"
  by (cases "((n, True), post)" rule: join.cases) (auto simp: add_ac)

lemma coalesce_linked:
  assumes l: "linked m 0 a (pre @ (n, True) # post)" and B: "a + span (pre @ (n, True) # post) \<le> 2 ^ 63" and a: "0 < a"
    and m': "m' = user_shared_heap_coalesce m (of_nat (a + span pre))"
  shows "linked m' 0 a (join_last pre (join (n, True) post))"
    and "touches m m' (idle a (pre @ (n, f) # post))"
proof -
  define b where "b = (of_nat (a + span pre) :: u64)"
  have b0: "b \<noteq> 0" unfolding b_def using B a by (subst of_nat_u64_eq_0) auto
  define nx where "nx = next_block (user_shared_heap_block m b)"
  define m1 where "m1 = (if nx \<noteq> 0 \<and> user_shared_heap_block_is_free m nx then absorb_block m b nx else m)"
  have m'1: "m' = (let pv = prev_block (user_shared_heap_block m1 b)
      in if pv \<noteq> 0 \<and> user_shared_heap_block_is_free m1 pv then absorb_block m1 pv b else m1)"
    using b0 m' unfolding user_shared_heap_coalesce_def Let_def m1_def nx_def b_def by simp
  obtain q where q: "linked m q (a + span pre) ((n, True) # post)" using linked_drop [OF l] by blast
  have nxt: "linked m1 q (a + span pre) (join (n, True) post)" if "linked m q (a + span pre) ((n, True) # post)" for q
    by (rule absorb_next_linked(1) [OF that _ _ nx_def [unfolded b_def] m1_def [unfolded b_def]]) (use B a in simp_all)
  have t1: "touches m m1 (idle (a + span pre) ((n, f) # post))"
    by (rule absorb_next_linked(2) [OF q _ _ nx_def [unfolded b_def] m1_def [unfolded b_def]]) (use B a in simp_all)
  have l1: "linked m1 0 a (pre @ join (n, True) post)"
    using B idle_subset [of "a + span pre" "(n, f) # post"]
    by (intro linked_replace [OF l t1]) (auto intro: nxt)
  obtain n' us where j: "join (n, True) post = (n', True) # us"
    by (cases "((n, True), post)" rule: join.cases) auto
  have t1': "touches m m1 (idle a (pre @ (n, f) # post))" by (rule touches_mono [OF t1]) (simp add: idle_append)
  have "linked m' 0 a (join_last pre (join (n, True) post)) \<and> touches m m' (idle a (pre @ (n, f) # post))"
  proof (cases pre rule: rev_cases)
    case Nil
    have "prev_block (user_shared_heap_block m1 b) = 0" using l1 Nil j by (simp add: b_def)
    then show ?thesis using l1 t1' Nil m'1 by simp
  next
    case (snoc ws w)
    obtain k g where w: "w = (k, g)" by (cases w)
    define v where "v = a + span ws"
    have bv: "b = of_nat (v + 32 + k)" by (simp add: b_def snoc w v_def add_ac)
    from linked_prev [of m1 0 a ws w "(n', True)" us] l1
    have pv: "prev_block (user_shared_heap_block m1 b) = of_nat v" by (simp add: snoc w j b_def v_def add_ac)
    have v: "0 < v" "v + span (w # (n', True) # us) \<le> 2 ^ 63" "(of_nat v :: u64) \<noteq> 0"
    proof -
      have "span ((n', True) # us) = span ((n, True) # post)" unfolding j [symmetric] by simp
      with B a show "0 < v" "v + span (w # (n', True) # us) \<le> 2 ^ 63" by (simp_all add: snoc v_def)
      with w show "(of_nat v :: u64) \<noteq> 0" by (subst of_nat_u64_eq_0) auto
    qed
    obtain x where x: "linked m1 x v (w # (n', True) # us)"
      using linked_drop [of m1 0 a ws "w # (n', True) # us"] l1 by (auto simp: snoc j v_def)
    have fr: "user_shared_heap_block_is_free m1 (of_nat v) \<longleftrightarrow> g"
      using x v w by (intro block_is_free_iff) auto
    show ?thesis
    proof (cases g)
      case False
      then show ?thesis using l1 t1' m'1 pv fr by (simp add: snoc w join_last_snoc j)
    next
      case True
      have m'2: "m' = absorb_block m1 (of_nat v) b" using m'1 pv v fr True by simp
      have ab: "linked m' x v ((k + 32 + n', True) # us)"
        and t: "touches m1 m' ({v..<v + 32} \<union> idle (v + 64 + k + n') us)"
        if "linked m1 x v (w # (n', True) # us)" for x
        using absorb_linked [OF that [unfolded w] v(2) [unfolded w] v(1) bv refl] True m'2 by simp_all
      have "linked m' 0 a (ws @ (k + 32 + n', True) # us)"
      proof (rule linked_replace [where ss = "w # (n', True) # us", OF _ t [OF x]])
        show "linked m1 0 a (ws @ w # (n', True) # us)" using l1 by (simp add: snoc j)
        show "({v..<v + 32} \<union> idle (v + 64 + k + n') us) \<inter> {a..<a + span ws} = {}"
          using idle_subset [of "v + 64 + k + n'" us] by (auto simp: v_def)
      qed (use v ab in \<open>auto simp: v_def\<close>)
      moreover have "touches m m' (idle a (pre @ (n, f) # post))"
        using idle_join [OF j, of "v + 32 + k" f]
        by (intro touches_trans [OF t1' t [OF x]]) (auto simp: idle_append snoc w v_def add_ac)
      ultimately show ?thesis using True by (simp add: snoc w join_last_snoc j)
    qed
  qed
  then show "linked m' 0 a (join_last pre (join (n, True) post))" "touches m m' (idle a (pre @ (n, f) # post))" by auto
qed


lemma allocs_split:
  "allocs a ss p = Some n \<Longrightarrow> \<exists>pre post. ss = pre @ (n, False) # post \<and> p = a + span pre + 32"
proof (induction ss arbitrary: a)
  case (Cons s ss)
  show ?case
  proof (cases "p = a + 32 \<and> \<not> snd s")
    case True
    with Cons.prems have "s # ss = [] @ (n, False) # ss \<and> p = a + span [] + 32" by (cases s) simp
    then show ?thesis by blast
  next
    case False
    with Cons.prems have "allocs (a + 32 + fst s) ss p = Some n" by (simp split: if_splits)
    then obtain pre post where "ss = pre @ (n, False) # post" "p = a + 32 + fst s + span pre + 32" using Cons.IH by blast
    then have "s # ss = (s # pre) @ (n, False) # post \<and> p = a + span (s # pre) + 32" by simp
    then show ?thesis by blast
  qed
qed simp

section \<open>The heap\<close>

text \<open>
  \<open>heap_list m ss\<close>: the state record is initialised and the list tiles the whole window with \<open>ss\<close>;
  \<open>heap_holds m ss\<close>: so it will be once an operation has entered its critical section (a heap that
  was never touched counts as one free block), and the lock is free.
\<close>

definition granular :: "segment \<Rightarrow> bool" where
  "granular s \<longleftrightarrow> 16 dvd fst s \<and> 0 < fst s"

definition heap_list :: "mem \<Rightarrow> segment list \<Rightarrow> bool" where
  "heap_list m ss \<longleftrightarrow>
     magic (user_shared_heap_state m) = USER_SHARED_HEAP_MAGIC \<and>
     head (user_shared_heap_state m) = of_nat 0x20000020 \<and>
     linked m 0 0x20000020 ss \<and> span ss = 0x1FFFFFE0 \<and> list_all granular ss"

definition heap_fresh :: "mem \<Rightarrow> bool" where
  "heap_fresh m \<longleftrightarrow>
     \<not> (magic (user_shared_heap_state m) = USER_SHARED_HEAP_MAGIC \<and> head (user_shared_heap_state m) \<noteq> 0)"

definition heap_holds :: "mem \<Rightarrow> segment list \<Rightarrow> bool" where
  "heap_holds m ss \<longleftrightarrow>
     lock_word (user_shared_heap_state m) = 0 \<and>
     (heap_list m ss \<or> heap_fresh m \<and> ss = [(0x1FFFFFC0, True)])"

abbreviation live_blocks :: "segment list \<Rightarrow> nat \<rightharpoonup> nat" where
  "live_blocks \<equiv> allocs 0x20000020"

abbreviation idle_bytes :: "segment list \<Rightarrow> nat set" where
  "idle_bytes ss \<equiv> {0x20000000..<0x20000020} \<union> idle 0x20000020 ss"

lemma state_touches:
  assumes "touches m m' T" "T \<inter> {0x20000000..<0x20000020} = {}"
  shows "user_shared_heap_state m' = user_shared_heap_state m"
proof -
  have "load64 m' a = load64 m a" if "0x20000000 \<le> unat a" "unat a \<le> 0x20000018" for a
    using that assms(2) by (intro load64_touches [OF assms(1)]) auto
  then show ?thesis by (simp add: user_shared_heap_state_def)
qed

lemma state_store:
  "user_shared_heap_state (store64 m USER_HEAP_BASE v) = (user_shared_heap_state m)\<lparr>magic := v\<rparr>"
  "user_shared_heap_state (store64 m (USER_HEAP_BASE + 8) v) = (user_shared_heap_state m)\<lparr>lock_word := v\<rparr>"
  "user_shared_heap_state (store64 m (USER_HEAP_BASE + 16) v) = (user_shared_heap_state m)\<lparr>head := v\<rparr>"
  by (simp_all add: user_shared_heap_state_def load_store_apart)

lemma touches_state:
  "touches m (store64 m USER_HEAP_BASE v) {0x20000000..<0x20000020}"
  "touches m (store64 m (USER_HEAP_BASE + 8) v) {0x20000000..<0x20000020}"
  "touches m (store64 m (USER_HEAP_BASE + 16) v) {0x20000000..<0x20000020}"
  by (auto intro!: touches_store)

lemma heap_list_lock:
  assumes "heap_list m ss"
  shows "heap_list (store64 m (USER_HEAP_BASE + 8) v) ss"
  using assms linked_touches [OF _ touches_state(2), of m 0 "0x20000020" ss v]
  by (auto simp: heap_list_def state_store [simplified])

lemma first_block [simp]: "user_shared_heap_first_block = of_nat 0x20000020"
  by (simp add: user_shared_heap_first_block_def user_shared_heap_align_up_def)

lemma initialize_fresh:
  assumes f: "heap_fresh m"
  shows "heap_list (user_shared_heap_initialize_locked m) [(0x1FFFFFC0, True)]"
    and "touches m (user_shared_heap_initialize_locked m) {0x20000000..<0x20000040}"
    and "lock_word (user_shared_heap_state (user_shared_heap_initialize_locked m)) = lock_word (user_shared_heap_state m)"
proof -
  let ?b = "of_nat 0x20000020 :: u64"
  let ?m1 = "store64 (store64 m USER_HEAP_BASE USER_SHARED_HEAP_MAGIC) (USER_HEAP_BASE + 16) ?b"
  let ?m2 = "set_prev (set_next (set_flags (set_payload_bytes ?m1 ?b 0x1FFFFFC0) ?b 1) ?b 0) ?b 0"
  have eq: "user_shared_heap_initialize_locked m = ?m2"
    using f unfolding user_shared_heap_initialize_locked_def heap_fresh_def first_block Let_def
    by (auto simp: user_shared_heap_align_up_def)
  have t1: "touches m ?m1 {0x20000000..<0x20000020}"
    by (rule touches_trans [OF touches_state(1) touches_state(3)]) simp
  have "touches ?m1 (set_flags (set_payload_bytes ?m1 ?b 0x1FFFFFC0) ?b 1) {0x20000020..<0x20000020 + 32}"
    by (rule touches_trans [OF touches_block(1) touches_block(2)]) simp_all
  moreover have "touches (set_flags (set_payload_bytes ?m1 ?b 0x1FFFFFC0) ?b 1) ?m2 {0x20000020..<0x20000020 + 32}"
    by (rule touches_trans [OF touches_block(3) touches_block(4)]) simp_all
  ultimately have t2: "touches ?m1 ?m2 {0x20000020..<0x20000020 + 32}" by (rule touches_trans) simp
  show "touches m (user_shared_heap_initialize_locked m) {0x20000000..<0x20000040}"
    unfolding eq by (rule touches_trans [OF t1 t2]) auto
  have st: "user_shared_heap_state ?m2 = user_shared_heap_state ?m1" by (rule state_touches [OF t2]) auto
  have bl: "user_shared_heap_block ?m2 ?b = \<lparr>payload_bytes = 0x1FFFFFC0, flags = 1, next_block = 0, prev_block = 0\<rparr>"
    by (simp only: block_store) simp
  show "heap_list (user_shared_heap_initialize_locked m) [(0x1FFFFFC0, True)]"
    unfolding eq heap_list_def st using bl by (simp add: state_store [simplified] granular_def)
  show "lock_word (user_shared_heap_state (user_shared_heap_initialize_locked m)) = lock_word (user_shared_heap_state m)"
    unfolding eq st by (simp add: state_store [simplified])
qed

lemma initialize_list: "heap_list m ss \<Longrightarrow> user_shared_heap_initialize_locked m = m"
  by (simp add: heap_list_def user_shared_heap_initialize_locked_def)

lemma lock_holds:
  assumes h: "heap_holds m ss" and sx: "True \<in> set sx"
  shows "\<exists>m1. user_shared_heap_lock sx m = Some m1 \<and> heap_list m1 ss \<and> touches m m1 (idle_bytes ss)"
proof -
  let ?m = "store64 m (USER_HEAP_BASE + 8) 1"
  have lw: "lock_word (user_shared_heap_state m) = 0" using h by (simp add: heap_holds_def)
  then have "user_shared_heap_lock sx m = Some (user_shared_heap_initialize_locked ?m)"
    using sx by (induction sx) (auto simp: user_shared_heap_try_lock_once_def)
  moreover have "heap_list (user_shared_heap_initialize_locked ?m) ss \<and>
      touches m (user_shared_heap_initialize_locked ?m) (idle_bytes ss)"
  proof (cases "heap_list m ss")
    case True
    then show ?thesis
      using heap_list_lock [OF True, of 1] initialize_list touches_mono [OF touches_state(2) [of m 1], of "idle_bytes ss"]
      by (metis sup_ge1)
  next
    case False
    with h have f: "heap_fresh m" and ss: "ss = [(0x1FFFFFC0, True)]" by (auto simp: heap_holds_def)
    have "heap_fresh ?m" using f by (simp add: heap_fresh_def state_store [simplified])
    note i = initialize_fresh [OF this]
    have "{0x20000000..<0x20000020} \<union> {0x20000000..<0x20000040} \<subseteq> idle_bytes ss" by (auto simp: ss)
    from i(1) touches_trans [OF touches_state(2) i(2) this] show ?thesis unfolding ss by simp
  qed
  ultimately show ?thesis by blast
qed

lemma unlock_holds:
  assumes "heap_list m ss"
  shows "heap_holds (user_shared_heap_unlock m) ss" and "touches m (user_shared_heap_unlock m) (idle_bytes ts)"
  using heap_list_lock [OF assms, of 0] touches_mono [OF touches_state(2) [of m 0], of "idle_bytes ts"]
  by (auto simp: heap_holds_def user_shared_heap_unlock_def state_store [simplified])

lemma state_in_list:
  assumes "heap_list m ss" "linked m' 0 0x20000020 ts" "touches m m' (idle 0x20000020 ss)" "span ts = 0x1FFFFFE0"
    "list_all granular ts"
  shows "heap_list m' ts"
proof -
  have "user_shared_heap_state m' = user_shared_heap_state m"
    using idle_subset [of "0x20000020" ss] by (intro state_touches [OF assms(3)]) force
  then show ?thesis using assms by (simp add: heap_list_def)
qed

lemma unat_align_up: "unat (user_shared_heap_align_up v) = unat (v + 15) div 16 * 16"
  using unat_aligned_down [of "v + 15" 4] by (simp add: user_shared_heap_align_up_def mask_numeral)

lemma align_up_dvd: "16 dvd unat (user_shared_heap_align_up v)"
  by (simp add: unat_align_up)

lemma align_up_nowrap:
  assumes "unat v + 15 < 2 ^ 64"
  shows "unat v \<le> unat (user_shared_heap_align_up v)" "unat (user_shared_heap_align_up v) < unat v + 16"
proof -
  have u: "unat (v + 15) = unat v + 15" using assms by (simp add: unat_word_ariths)
  have "unat (user_shared_heap_align_up v) = unat v + 15 - (unat v + 15) mod 16"
    unfolding unat_align_up u by (rule minus_mod_eq_div_mult [symmetric])
  then show "unat v \<le> unat (user_shared_heap_align_up v)" "unat (user_shared_heap_align_up v) < unat v + 16"
    using mod_less_divisor [of 16 "unat v + 15"] by linarith+
qed

lemma first_fit_granular:
  "first_fit k a ss = Some (p, ts) \<Longrightarrow> list_all granular ss \<Longrightarrow> 16 dvd k \<Longrightarrow> 0 < k \<Longrightarrow> list_all granular ts"
proof (induction ss arbitrary: a ts)
  case (Cons s ss)
  have "16 dvd n - k - 32" if "16 dvd n" "k \<le> n" for n using that Cons.prems(3) by (simp add: dvd_diff_nat)
  with Cons show ?case by (auto simp: carve_def granular_def split: if_splits)
qed simp

lemma malloc_locked_list:
  assumes h: "heap_list m ss" and k: "16 dvd unat k" "0 < unat k"
  shows "case first_fit (unat k) 0x20000020 ss of
      None \<Rightarrow> user_shared_heap_malloc_locked m k = Some (0, m)
    | Some (p, ts) \<Rightarrow> \<exists>m'. user_shared_heap_malloc_locked m k = Some (of_nat p, m') \<and> heap_list m' ts \<and>
        touches m m' (idle 0x20000020 ss)"
proof -
  have ne: "ss \<noteq> []" using h by (auto simp: heap_list_def)
  have w: "user_shared_heap_malloc_locked m k = heap_walk m k (first_link 0x20000020 ss)"
    using h ne by (simp add: user_shared_heap_malloc_locked_def heap_list_def)
  have "linked m 0 0x20000020 ss" "0x20000020 + span ss \<le> 2 ^ 63" "0 < (0x20000020 :: nat)"
    using h by (simp_all add: heap_list_def)
  note r = heap_walk_linked [OF this, of k, folded w]
  show ?thesis
  proof (cases "first_fit (unat k) 0x20000020 ss")
    case None
    with r show ?thesis by simp
  next
    case (Some x)
    obtain p ts where x: "x = (p, ts)" by (cases x)
    with r Some obtain m' where m': "user_shared_heap_malloc_locked m k = Some (of_nat p, m')"
      "linked m' 0 0x20000020 ts" "touches m m' (idle 0x20000020 ss)" by auto
    have "span ts = 0x1FFFFFE0" "list_all granular ts"
      using first_fit_ok first_fit_granular Some x h k by (auto simp: heap_list_def)
    with m' state_in_list [OF h m'(2,3)] show ?thesis using Some x by auto
  qed
qed

lemma join_granular: "granular s \<Longrightarrow> list_all granular ss \<Longrightarrow> list_all granular (join s ss)"
  by (cases "(s, ss)" rule: join.cases) (auto simp: granular_def)

lemma release_granular: "list_all granular ss \<Longrightarrow> list_all granular (release p a ss)"
proof (induction ss arbitrary: a)
  case (Cons s ss)
  have "granular (fst s, True)" using Cons.prems by (simp add: granular_def)
  moreover have "list_all granular (release p (a + 32 + fst s) ss)" using Cons by simp
  ultimately show ?case using Cons.prems join_granular [of s] join_granular [of "(fst s, True)" ss] by auto
qed simp

lemma free_locked_list:
  assumes h: "heap_list m ss" and p: "live_blocks ss p = Some n"
  shows "heap_list (user_shared_heap_free_locked m (of_nat p)) (release p 0x20000020 ss)"
    and "touches m (user_shared_heap_free_locked m (of_nat p)) (idle 0x20000020 ss)"
    and "user_shared_heap_contains_pointer (of_nat p)" "unat (of_nat p :: u64) = p"
proof -
  have l: "linked m 0 0x20000020 ss" and sp: "span ss = 0x1FFFFFE0" using h by (simp_all add: heap_list_def)
  obtain pre post where ss: "ss = pre @ (n, False) # post" and pp: "p = 0x20000020 + span pre + 32"
    using allocs_split [OF p] by blast
  have b: "p < 2 ^ 64" "0x20000020 \<le> p" using sp ss pp by simp_all
  then show u: "unat (of_nat p :: u64) = p" by (intro unat_of_nat_less) simp
  show c: "user_shared_heap_contains_pointer (of_nat p)"
  proof -
    have "0 < n" using h ss by (simp add: heap_list_def granular_def)
    then have "p < 0x40000000" using sp ss pp by simp
    then show ?thesis using b(2) u by (simp add: user_shared_heap_contains_pointer_def word_le_nat_alt word_less_nat_alt)
  qed
  define b where "b = (0x20000020 :: nat) + span pre"
  have pb: "of_nat p - 32 = (of_nat b :: u64)" by (simp add: pp b_def)
  obtain q where q: "linked m q b ((n, False) # post)" using linked_drop [OF l [unfolded ss]] unfolding b_def by blast
  let ?m = "set_flags m (of_nat b) (of_bool True)"
  have B: "b + span ((n, False) # post) \<le> 2 ^ 63" using sp ss by (simp add: b_def)
  note f = set_flags_linked [OF _ B, where g = True]
  have t: "touches m ?m {b..<b + 32}" using f(2) [OF q] .
  have l1: "linked ?m 0 0x20000020 (pre @ (n, True) # post)"
  proof (rule linked_replace [OF l [unfolded ss] t])
    show "linked ?m q (0x20000020 + span pre) ((n, True) # post)"
      if "linked m q (0x20000020 + span pre) ((n, False) # post)" for q
      using f(1) that unfolding b_def by blast
  qed (use sp ss in \<open>auto simp: b_def\<close>)
  have fl: "flags (user_shared_heap_block m (of_nat b)) OR 1 = 1" using q by simp
  have eq: "user_shared_heap_free_locked m (of_nat p) = user_shared_heap_coalesce ?m (of_nat b)"
    using c u b unfolding user_shared_heap_free_locked_def Let_def pb fl by auto
  have B1: "0x20000020 + span (pre @ (n, True) # post) \<le> 2 ^ 63" using sp ss by simp
  note co = coalesce_linked [OF l1 B1, folded b_def, OF _ eq]
  have rel: "release p 0x20000020 ss = join_last pre (join (n, True) post)"
    unfolding ss pp by (rule release_at)
  have t2: "touches m (user_shared_heap_free_locked m (of_nat p)) (idle 0x20000020 ss)"
    by (rule touches_trans [OF t co(2) [of False]]) (auto simp: ss idle_append b_def)
  then show "touches m (user_shared_heap_free_locked m (of_nat p)) (idle 0x20000020 ss)" .
  show "heap_list (user_shared_heap_free_locked m (of_nat p)) (release p 0x20000020 ss)"
    using co(1) sp h release_granular [of ss] unfolding rel [symmetric]
    by (intro state_in_list [OF h _ t2]) (auto simp: heap_list_def)
qed

section \<open>Fragmentation\<close>

text \<open>No two free blocks are neighbours: \<open>user_shared_heap_coalesce\<close> keeps free space in one piece.\<close>

definition tight :: "segment list \<Rightarrow> bool" where
  "tight ss \<longleftrightarrow> successively (\<lambda>s t. \<not> (snd s \<and> snd t)) ss"

lemma tight_Cons: "tight (s # ss) \<longleftrightarrow> (ss \<noteq> [] \<longrightarrow> \<not> (snd s \<and> snd (hd ss))) \<and> tight ss"
  by (cases ss) (auto simp: tight_def)

lemma first_fit_hd: "first_fit k a ss = Some (p, ts) \<Longrightarrow> snd (hd ts) \<Longrightarrow> snd (hd ss)"
  by (cases ss) (auto split: if_splits)

lemma first_fit_tight: "first_fit k a ss = Some (p, ts) \<Longrightarrow> tight ss \<Longrightarrow> tight ts"
proof (induction ss arbitrary: a ts)
  case (Cons s ss)
  then show ?case
    by (auto simp: tight_Cons carve_def split: if_splits dest: first_fit_hd)
qed simp

lemma join_last_tight:
  assumes "tight (pre @ (n, False) # post)"
  shows "tight (join_last pre (join (n, True) post))"
proof -
  obtain n' us where j: "join (n, True) post = (n', True) # us" and us: "us = [] \<or> \<not> snd (hd us)" "tight us"
    using assms by (cases "((n, True), post)" rule: join.cases)
      (auto simp: tight_def successively_append_iff successively_Cons)
  show ?thesis
  proof (cases pre rule: rev_cases)
    case Nil
    then show ?thesis using us by (auto simp: j tight_Cons)
  next
    case (snoc ws w)
    obtain k g where w: "w = (k, g)" by (cases w)
    show ?thesis using assms us snoc w
      by (cases g) (auto simp: join_last_snoc j tight_def successively_append_iff successively_Cons)
  qed
qed

lemma release_tight: "allocs a ss p = Some n \<Longrightarrow> tight ss \<Longrightarrow> tight (release p a ss)"
  by (auto dest!: allocs_split simp: release_at join_last_tight)

lemma allocs_empty: "allocs a ss = Map.empty \<Longrightarrow> s \<in> set ss \<Longrightarrow> snd s"
proof (induction ss arbitrary: a)
  case (Cons t ss)
  then have "snd t" by (auto split: if_splits)
  with Cons show ?case by auto
qed simp

lemma tight_free:
  assumes "allocs a ss = Map.empty" "tight ss" "span ss = 32 + n"
  shows "ss = [(n, True)]"
proof (cases ss)
  case (Cons s us)
  have "us = []" using allocs_empty [OF assms(1)] assms(2) Cons by (cases us) (auto simp: tight_Cons)
  then show ?thesis using assms allocs_empty [OF assms(1), of s] Cons by (cases s) auto
qed (use assms in simp)

section \<open>The operations\<close>

lemma malloc_holds:
  fixes sz :: u64
  assumes h: "heap_holds m ss" and sx: "True \<in> set sx" and sz: "unat sz + 15 < 2 ^ 64"
    and k: "k = (if sz = 0 then 16 else (unat sz + 15) div 16 * 16)"
  shows "case first_fit k 0x20000020 ss of
      None \<Rightarrow> \<exists>m'. user_shared_heap_malloc sx m sz = Some (0, m') \<and> heap_holds m' ss \<and> touches m m' (idle_bytes ss)
    | Some (p, ts) \<Rightarrow> \<exists>m'. user_shared_heap_malloc sx m sz = Some (of_nat p, m') \<and> heap_holds m' ts \<and>
        touches m m' (idle_bytes ss)"
proof -
  let ?k = "user_shared_heap_align_up (if sz \<noteq> 0 then sz else 1)"
  have "unat (sz + 15) = unat sz + 15" using sz by (simp add: unat_word_ariths)
  then have uk: "unat ?k = k" by (auto simp: k unat_align_up)
  have k0: "16 dvd unat ?k" "0 < unat ?k"
    using align_up_dvd align_up_nowrap(1) [of "if sz \<noteq> 0 then sz else 1"] sz unat_gt_0 [of sz] by auto
  obtain m1 where m1: "user_shared_heap_lock sx m = Some m1" "heap_list m1 ss" "touches m m1 (idle_bytes ss)"
    using lock_holds [OF h sx] by blast
  note ml = malloc_locked_list [OF m1(2) k0, unfolded uk]
  show ?thesis
  proof (cases "first_fit k 0x20000020 ss")
    case None
    then have "user_shared_heap_malloc sx m sz = Some (0, user_shared_heap_unlock m1)"
      using ml m1 by (simp add: user_shared_heap_malloc_def Let_def)
    moreover have "touches m (user_shared_heap_unlock m1) (idle_bytes ss)"
      by (rule touches_trans [OF m1(3) unlock_holds(2) [OF m1(2), of ss]]) simp
    ultimately show ?thesis using None unlock_holds(1) [OF m1(2)] by simp
  next
    case (Some x)
    obtain p ts where x: "x = (p, ts)" by (cases x)
    with ml Some obtain m2 where m2: "user_shared_heap_malloc_locked m1 ?k = Some (of_nat p, m2)"
      "heap_list m2 ts" "touches m1 m2 (idle 0x20000020 ss)" by auto
    then have "user_shared_heap_malloc sx m sz = Some (of_nat p, user_shared_heap_unlock m2)"
      using m1 by (simp add: user_shared_heap_malloc_def Let_def)
    moreover have "touches m (user_shared_heap_unlock m2) (idle_bytes ss)"
      by (rule touches_trans [OF touches_trans [OF m1(3) m2(3) order_refl] unlock_holds(2) [OF m2(2), of ss]]) auto
    ultimately show ?thesis using Some x unlock_holds(1) [OF m2(2)] by simp
  qed
qed

lemma free_holds:
  assumes h: "heap_holds m ss" and sx: "True \<in> set sx" and p: "live_blocks ss p = Some n"
  shows "\<exists>m'. user_shared_heap_free sx m (of_nat p) = Some m' \<and> heap_holds m' (release p 0x20000020 ss) \<and>
    touches m m' (idle_bytes ss)"
proof -
  obtain m1 where m1: "user_shared_heap_lock sx m = Some m1" "heap_list m1 ss" "touches m m1 (idle_bytes ss)"
    using lock_holds [OF h sx] by blast
  note f = free_locked_list [OF m1(2) p]
  have "of_nat p \<noteq> (0 :: u64)" using f(4) allocs_SomeD [OF p] by auto
  then have "user_shared_heap_free sx m (of_nat p) = Some (user_shared_heap_unlock (user_shared_heap_free_locked m1 (of_nat p)))"
    using f(3) m1(1) by (simp add: user_shared_heap_free_def)
  moreover have "touches m (user_shared_heap_unlock (user_shared_heap_free_locked m1 (of_nat p))) (idle_bytes ss)"
    by (rule touches_trans [OF touches_trans [OF m1(3) f(2) order_refl] unlock_holds(2) [OF f(1), of ss]]) auto
  ultimately show ?thesis using unlock_holds(1) [OF f(1)] by blast
qed

text \<open>A client may write to every byte that is not the allocator's.\<close>

lemma linked_payload:
  assumes "linked m p a ss" "touches m m' T" "T \<inter> idle a ss = {}" "a + span ss \<le> 2 ^ 63"
  shows "linked m' p a ss"
  using assms
proof (induction ss arbitrary: p a)
  case (Cons s ss)
  have u: "unat (of_nat a :: u64) = a" using Cons.prems(4) by (intro unat_of_nat_less) simp
  have "user_shared_heap_block m' (of_nat a) = user_shared_heap_block m (of_nat a)"
    using Cons.prems(3,4) by (intro block_touches [OF Cons.prems(2)]) (auto simp: u)
  moreover have "linked m' (of_nat a) (a + 32 + fst s) ss"
    using Cons.prems by (intro Cons.IH) (auto simp: add.assoc)
  ultimately show ?case using Cons.prems(1) by simp
qed simp

lemma write_holds:
  assumes "heap_holds m ss" "touches m m' T" "T \<inter> idle_bytes ss = {}"
  shows "heap_holds m' ss"
proof -
  have "user_shared_heap_state m' = user_shared_heap_state m"
    using assms(3) by (intro state_touches [OF assms(2)]) auto
  moreover have "linked m' 0 0x20000020 ss" if "linked m 0 0x20000020 ss" "span ss = 0x1FFFFFE0"
    using that assms(3) by (intro linked_payload [OF that(1) assms(2)]) auto
  ultimately show ?thesis using assms(1) by (auto simp: heap_holds_def heap_list_def heap_fresh_def)
qed

lemma live_not_idle: "live_blocks ss p = Some n \<Longrightarrow> {p..<p + n} \<inter> idle_bytes ss = {}"
  using allocs_idle [of "0x20000020" ss p n] allocs_SomeD [of "0x20000020" ss p n] by auto

lemma lock_SomeD: "user_shared_heap_lock sx m = Some m1 \<Longrightarrow> True \<in> set sx"
  by (induction sx) (auto simp: user_shared_heap_try_lock_once_def split: if_splits bool.splits prod.splits)

lemma unat_of_live: "live_blocks ss p = Some n \<Longrightarrow> span ss = 0x1FFFFFE0 \<Longrightarrow> unat (of_nat p :: u64) = p"
  using allocs_SomeD [of "0x20000020" ss p n] by (intro unat_of_nat_less) simp

lemma heap_holds_span: "heap_holds m ss \<Longrightarrow> span ss = 0x1FFFFFE0"
  by (auto simp: heap_holds_def heap_list_def)

lemma heap_holds_granular: "heap_holds m ss \<Longrightarrow> list_all granular ss"
  by (auto simp: heap_holds_def heap_list_def granular_def)

lemma allocs_aligned: "allocs a ss p = Some n \<Longrightarrow> list_all granular ss \<Longrightarrow> 16 dvd a \<Longrightarrow> 16 dvd p \<and> 16 dvd n"
proof (induction ss arbitrary: a)
  case (Cons s ss)
  have "16 dvd a + 32 + fst s" "16 dvd a + 32" using Cons.prems by (auto simp: granular_def)
  with Cons show ?case by (auto simp: granular_def split: if_splits)
qed simp

section \<open>The contract of an allocator\<close>

text \<open>The bytes of the live blocks \<open>L\<close> are the same in two memories.\<close>

definition keeps :: "mem \<Rightarrow> mem \<Rightarrow> (nat \<rightharpoonup> nat) \<Rightarrow> bool" where
  "keeps m m' L \<longleftrightarrow> (\<forall>p n x. L p = Some n \<longrightarrow> p \<le> unat x \<longrightarrow> unat x < p + n \<longrightarrow> m' x = m x)"

lemma keeps_trans: "keeps m m' L \<Longrightarrow> keeps m' m'' L \<Longrightarrow> keeps m m'' L"
  by (auto simp: keeps_def)

lemma keeps_sub: "keeps m m' L \<Longrightarrow> K \<subseteq>\<^sub>m L \<Longrightarrow> keeps m m' K"
  unfolding keeps_def map_le_def by (metis domI)

lemma keeps_idle: "touches m m' (idle_bytes ss) \<Longrightarrow> keeps m m' (live_blocks ss)"
  unfolding keeps_def using live_not_idle by (fastforce intro: touchesD)

locale allocator =
  fixes holds :: "mem \<Rightarrow> (nat \<rightharpoonup> nat) \<Rightarrow> bool"
    and alloc :: "mem \<Rightarrow> u64 \<Rightarrow> (u64 \<times> mem) option"
    and dealloc :: "mem \<Rightarrow> u64 \<Rightarrow> mem option"
  assumes alloc_ok: "holds m L \<Longrightarrow> unat sz + 15 < 2 ^ 64 \<Longrightarrow>
      \<exists>p m'. alloc m sz = Some (p, m') \<and> keeps m m' L \<and>
        (p = 0 \<and> holds m' L \<or>
         p \<noteq> 0 \<and> L (unat p) = None \<and> (\<exists>n. unat sz \<le> n \<and> holds m' (L(unat p \<mapsto> n))))"
    and dealloc_ok: "holds m L \<Longrightarrow> L p = Some n \<Longrightarrow>
      \<exists>m'. dealloc m (of_nat p) = Some m' \<and> keeps m m' (L(p := None)) \<and> holds m' (L(p := None))"
    and write_ok: "holds m L \<Longrightarrow> L p = Some n \<Longrightarrow> touches m m' {p..<p + n} \<Longrightarrow> holds m' L"
    and apart: "holds m L \<Longrightarrow> L p = Some n \<Longrightarrow> L q = Some k \<Longrightarrow> p < q \<Longrightarrow> p + n \<le> q"
    and addressable: "holds m L \<Longrightarrow> L p = Some n \<Longrightarrow> 0 < p \<and> p + n \<le> 2 ^ 63 \<and> 16 dvd p"
begin

lemma write_keeps:
  assumes "holds m L" "L p = Some n" "touches m m' {p..<p + n}"
  shows "keeps m m' (L(p := None))"
  unfolding keeps_def
proof (intro allI impI)
  fix q k and x :: u64 assume q: "(L(p := None)) q = Some k" "q \<le> unat x" "unat x < q + k"
  then have "q \<noteq> p" "L q = Some k" by (auto split: if_splits)
  then have "unat x \<notin> {p..<p + n}"
    using apart [OF assms(1,2), of q k] apart [OF assms(1) _ assms(2), of q k] q(2,3) by (cases "p < q") auto
  then show "m' x = m x" using assms(3) by (rule touchesD [rotated])
qed

text \<open>A fresh block may be filled at once; everything that was live before is kept.\<close>

lemma alloc_fill:
  assumes "holds m L" "unat sz + 15 < 2 ^ 64" and a: "alloc m sz = Some (p, m1)" "p \<noteq> 0"
    and f: "touches m1 m' {unat p..<unat p + unat sz}"
  shows "\<exists>n. unat sz \<le> n \<and> L (unat p) = None \<and> holds m' (L(unat p \<mapsto> n)) \<and> keeps m m' L"
proof -
  from alloc_ok [OF assms(1,2)] a obtain n where n: "keeps m m1 L" "L (unat p) = None" "unat sz \<le> n"
    "holds m1 (L(unat p \<mapsto> n))" by auto
  have t: "touches m1 m' {unat p..<unat p + n}" using n(3) by (intro touches_mono [OF f]) auto
  have "holds m' (L(unat p \<mapsto> n))" using write_ok [OF n(4) _ t] by simp
  moreover have "keeps m1 m' L" using write_keeps [OF n(4) _ t] n(2) by (simp add: fun_upd_idem)
  ultimately show ?thesis using n keeps_trans by blast
qed

lemma alloc_dealloc:
  assumes "holds m L" "unat sz + 15 < 2 ^ 64" and a: "alloc m sz = Some (p, m1)" "p \<noteq> 0"
  shows "\<exists>m'. dealloc m1 p = Some m' \<and> holds m' L \<and> keeps m m' L"
proof -
  from alloc_ok [OF assms(1,2)] a obtain n where n: "keeps m m1 L" "L (unat p) = None"
    "holds m1 (L(unat p \<mapsto> n))" by auto
  from dealloc_ok [OF n(3), of "unat p" n] obtain m' where "dealloc m1 p = Some m'"
    "keeps m1 m' (L(unat p := None))" "holds m' (L(unat p := None))" by auto
  then show ?thesis using n(1,2) keeps_trans by (auto simp: fun_upd_idem)
qed

end

definition heap_live :: "mem \<Rightarrow> (nat \<rightharpoonup> nat) \<Rightarrow> bool" where
  "heap_live m L \<longleftrightarrow> (\<exists>ss. heap_holds m ss \<and> live_blocks ss = L)"

lemma heap_live_alloc:
  assumes h: "heap_holds m ss" and sx: "True \<in> set sx" and sz: "unat sz + 15 < 2 ^ 64"
  shows "\<exists>p m' ts. user_shared_heap_malloc sx m sz = Some (p, m') \<and> touches m m' (idle_bytes ss) \<and> heap_holds m' ts \<and>
    (tight ss \<longrightarrow> tight ts) \<and>
    (p = 0 \<and> ts = ss \<or>
     p \<noteq> 0 \<and> live_blocks ss (unat p) = None \<and> (\<exists>n. unat sz \<le> n \<and> live_blocks ts = (live_blocks ss)(unat p \<mapsto> n)))"
proof -
  define k where "k = (if sz = 0 then 16 else (unat sz + 15) div 16 * 16)"
  have k: "unat sz \<le> k"
    using align_up_nowrap(1) [OF sz] sz by (auto simp: k_def unat_align_up unat_word_ariths)
  note m = malloc_holds [OF h sx sz k_def]
  show ?thesis
  proof (cases "first_fit k 0x20000020 ss")
    case None
    with m show ?thesis by auto
  next
    case (Some x)
    obtain p ts where x: "x = (p, ts)" by (cases x)
    with m Some obtain m' where m': "user_shared_heap_malloc sx m sz = Some (of_nat p, m')" "heap_holds m' ts"
      "touches m m' (idle_bytes ss)" by auto
    from first_fit_ok Some x obtain n where n: "span ts = span ss" "k \<le> n"
      "live_blocks ts = (live_blocks ss)(p \<mapsto> n)" "live_blocks ss p = None" by blast
    have u: "unat (of_nat p :: u64) = p" using unat_of_live [of ts p n] n heap_holds_span [OF h] by simp
    have p0: "of_nat p \<noteq> (0 :: u64)" using allocs_SomeD [of "0x20000020" ts p n] n(3) u by auto
    have "\<exists>j. unat sz \<le> j \<and> live_blocks ts = (live_blocks ss)(p \<mapsto> j)" using n k le_trans by blast
    then show ?thesis
      using m' n(4) p0 u first_fit_tight [OF Some [unfolded x]] by (intro exI [of _ "of_nat p"] exI [of _ m'] exI [of _ ts]) auto
  qed
qed

interpretation shared: allocator heap_live "user_shared_heap_malloc (busy @ True # rest)" "user_shared_heap_free (busy @ True # rest)"
  for busy rest
proof unfold_locales
  fix m L and sz :: u64
  assume "heap_live m L" "unat sz + 15 < 2 ^ 64"
  then obtain ss where ss: "heap_holds m ss" "live_blocks ss = L" by (auto simp: heap_live_def)
  from heap_live_alloc [OF this(1), of "busy @ True # rest" sz] \<open>unat sz + 15 < 2 ^ 64\<close> ss(2)
  show "\<exists>p m'. user_shared_heap_malloc (busy @ True # rest) m sz = Some (p, m') \<and> keeps m m' L \<and>
      (p = 0 \<and> heap_live m' L \<or> p \<noteq> 0 \<and> L (unat p) = None \<and> (\<exists>n. unat sz \<le> n \<and> heap_live m' (L(unat p \<mapsto> n))))"
    using keeps_idle unfolding heap_live_def by fastforce
next
  fix m L p n
  assume "heap_live m L" "L p = Some n"
  then obtain ss where ss: "heap_holds m ss" "live_blocks ss = L" by (auto simp: heap_live_def)
  from free_holds [OF this(1), of "busy @ True # rest" p n] \<open>L p = Some n\<close> ss(2)
  obtain m' where m': "user_shared_heap_free (busy @ True # rest) m (of_nat p) = Some m'"
    "heap_holds m' (release p 0x20000020 ss)" "touches m m' (idle_bytes ss)" by auto
  have "live_blocks (release p 0x20000020 ss) = L(p := None)" using ss(2) \<open>L p = Some n\<close> by (simp add: allocs_release domI)
  moreover have "keeps m m' (L(p := None))"
    using keeps_sub [OF keeps_idle [OF m'(3)]] ss(2) by (simp add: map_le_def)
  ultimately show "\<exists>m'. user_shared_heap_free (busy @ True # rest) m (of_nat p) = Some m' \<and>
      keeps m m' (L(p := None)) \<and> heap_live m' (L(p := None))"
    using m' by (auto simp: heap_live_def)
next
  fix m L p n m'
  assume "heap_live m L" "L p = Some n" "touches m m' {p..<p + n}"
  then show "heap_live m' L" unfolding heap_live_def using write_holds live_not_idle by metis
next
  fix m L p n q k
  assume "heap_live m L" "L p = Some n" "L q = Some k" "p < q"
  then show "p + n \<le> q" unfolding heap_live_def using allocs_disjoint by fastforce
next
  fix m L p n
  assume "heap_live m L" "L p = Some n"
  then obtain ss where "heap_holds m ss" "live_blocks ss p = Some n" by (auto simp: heap_live_def)
  then show "0 < p \<and> p + n \<le> 2 ^ 63 \<and> 16 dvd p"
    using allocs_SomeD [of _ ss p n] allocs_aligned [of "0x20000020" ss p n] heap_holds_span heap_holds_granular by fastforce
qed

end
