(* ===== verification/Shared_Heap_Client.thy ===== *)
theory Shared_Heap_Client
  imports Shared_Heap
begin

text \<open>
  The process-wide heap in use: the states a process reaches by allocating, freeing and writing to
  its blocks, resizing, and the properties of the whole allocator.
\<close>


section \<open>A process that uses the heap\<close>

text \<open>
  The states a process can reach by allocating, freeing and writing inside the blocks it holds;
  \<open>L\<close> records the pointers it holds with the sizes it asked for.
\<close>

inductive heap_client :: "mem \<Rightarrow> (nat \<rightharpoonup> nat) \<Rightarrow> bool" where
  heap_start: "lock_word (user_shared_heap_state m) = 0 \<Longrightarrow> heap_fresh m \<Longrightarrow> heap_client m Map.empty"
| heap_malloc: "heap_client m L \<Longrightarrow> unat sz + 15 < 2 ^ 64 \<Longrightarrow> user_shared_heap_malloc sx m sz = Some (p, m') \<Longrightarrow>
    heap_client m' (if p = 0 then L else L(unat p \<mapsto> unat sz))"
| heap_free: "heap_client m L \<Longrightarrow> L p = Some n \<Longrightarrow> user_shared_heap_free sx m (of_nat p) = Some m' \<Longrightarrow>
    heap_client m' (L(p := None))"
| heap_write: "heap_client m L \<Longrightarrow> L p = Some n \<Longrightarrow> p \<le> unat a \<Longrightarrow> unat a < p + n \<Longrightarrow> heap_client (m(a := v)) L"

definition covers :: "(nat \<rightharpoonup> nat) \<Rightarrow> (nat \<rightharpoonup> nat) \<Rightarrow> bool" where
  "covers K L \<longleftrightarrow> dom K = dom L \<and> (\<forall>p n k. L p = Some n \<longrightarrow> K p = Some k \<longrightarrow> n \<le> k)"

lemma coversD: "covers K L \<Longrightarrow> L p = Some n \<Longrightarrow> \<exists>k. K p = Some k \<and> n \<le> k"
  unfolding covers_def by blast

lemma covers_update: "covers K L \<Longrightarrow> n \<le> k \<Longrightarrow> covers (K(p \<mapsto> k)) (L(p \<mapsto> n))"
  unfolding covers_def by (simp add: dom_fun_upd)

lemma covers_delete: "covers K L \<Longrightarrow> covers (K(p := None)) (L(p := None))"
  unfolding covers_def by (simp add: dom_fun_upd)

lemma live_pointer:
  assumes "heap_holds m ss" "live_blocks ss p = Some n"
  shows "user_shared_heap_contains_pointer (of_nat p)" "of_nat p \<noteq> (0 :: u64)" "unat (of_nat p :: u64) = p"
proof -
  have "heap_list m ss" using assms by (auto simp: heap_holds_def)
  from free_locked_list(3,4) [OF this assms(2)]
  show "user_shared_heap_contains_pointer (of_nat p)" "unat (of_nat p :: u64) = p" by simp_all
  then show "of_nat p \<noteq> (0 :: u64)" by (auto simp: user_shared_heap_contains_pointer_def)
qed

lemma free_SomeD:
  assumes "user_shared_heap_free sx m (of_nat p) = Some m'" "heap_holds m ss" "live_blocks ss p = Some n"
  shows "True \<in> set sx"
  using assms(1) live_pointer [OF assms(2,3)]
  by (auto simp: user_shared_heap_free_def split: option.splits dest: lock_SomeD)

lemma malloc_SomeD: "user_shared_heap_malloc sx m sz = Some r \<Longrightarrow> True \<in> set sx"
  by (auto simp: user_shared_heap_malloc_def Let_def split: option.splits dest: lock_SomeD)

lemma heap_client_inv: "heap_client m L \<Longrightarrow> \<exists>ss. heap_holds m ss \<and> tight ss \<and> covers (live_blocks ss) L"
proof (induction rule: heap_client.induct)
  case (heap_start m)
  then have "heap_holds m [(0x1FFFFFC0, True)]" by (simp add: heap_holds_def)
  then show ?case by (intro exI [of _ "[(0x1FFFFFC0, True)]"]) (simp add: tight_def covers_def)
next
  case (heap_malloc m L sz sx p m')
  then obtain ss where ss: "heap_holds m ss" "tight ss" "covers (live_blocks ss) L" by blast
  from heap_live_alloc [OF ss(1) malloc_SomeD [OF heap_malloc.hyps(3)] heap_malloc.hyps(2)] heap_malloc.hyps(3) ss(2)
  obtain ts where ts: "heap_holds m' ts" "tight ts" "p = 0 \<and> ts = ss \<or> p \<noteq> 0 \<and> (\<exists>n. unat sz \<le> n \<and> live_blocks ts = (live_blocks ss)(unat p \<mapsto> n))"
    by auto
  then have "covers (live_blocks ts) (if p = 0 then L else L(unat p \<mapsto> unat sz))"
    using ss(3) by (auto intro: covers_update)
  with ts show ?case by blast
next
  case (heap_free m L p n sx m')
  then obtain ss where ss: "heap_holds m ss" "tight ss" "covers (live_blocks ss) L" by blast
  from coversD [OF ss(3) heap_free.hyps(2)] obtain k where k: "live_blocks ss p = Some k" by blast
  have sx: "True \<in> set sx" using heap_free.hyps(3) ss(1) k by (rule free_SomeD)
  from free_holds [OF ss(1) sx k] heap_free.hyps(3) have "heap_holds m' (release p 0x20000020 ss)" by simp
  moreover have "covers (live_blocks (release p 0x20000020 ss)) (L(p := None))"
    using covers_delete [OF ss(3)] k by (simp add: allocs_release domI)
  ultimately show ?case using release_tight [OF k ss(2)] by blast
next
  case (heap_write m L p n a v)
  then obtain ss where ss: "heap_holds m ss" "tight ss" "covers (live_blocks ss) L" by blast
  from coversD [OF ss(3) heap_write.hyps(2)] obtain k where k: "live_blocks ss p = Some k" "n \<le> k" by blast
  have "touches m (m(a := v)) {p..<p + k}" using heap_write.hyps(3,4) k(2) by (auto simp: touches_def)
  then have "heap_holds (m(a := v)) ss" using write_holds [OF ss(1)] live_not_idle [OF k(1)] by blast
  with ss show ?case by blast
qed

section \<open>Resizing\<close>

lemma allocs_replace:
  "allocs (a + span pre) ys = (allocs (a + span pre) xs)(p \<mapsto> j) \<Longrightarrow> allocs a (pre @ ys) = (allocs a (pre @ xs))(p \<mapsto> j)"
proof (induction pre arbitrary: a)
  case (Cons s pre)
  have eq: "allocs (a + 32 + fst s + span pre) ys = (allocs (a + 32 + fst s + span pre) xs)(p \<mapsto> j)"
    using Cons.prems by (simp only: span.simps add.assoc)
  then have "allocs (a + 32 + fst s + span pre) ys p = Some j" by simp
  from allocs_SomeD [OF this] have "p \<noteq> a + 32" by simp
  then show ?case using Cons.IH [OF eq] by (auto simp: fun_eq_iff)
qed simp

lemma allocs_carve: "k \<le> n \<Longrightarrow> allocs a (carve k n ss) = (allocs a ((n, f) # ss))(a + 32 \<mapsto> if n \<le> k + 48 then n else k)"
  by (auto simp: carve_def allocs_below fun_upd_idem add_ac)

lemma linked_live_header:
  assumes "linked m 0 0x20000020 ss" "live_blocks ss p = Some n"
  shows "payload_bytes (user_shared_heap_block m (of_nat p - 32)) = of_nat n"
proof -
  from allocs_split [OF assms(2)] obtain pre post where ss: "ss = pre @ (n, False) # post"
    and p: "p = 0x20000020 + span pre + 32" by blast
  from linked_drop [OF assms(1) [unfolded ss]] obtain q where "linked m q (0x20000020 + span pre) ((n, False) # post)" by blast
  moreover have "of_nat p - 32 = (of_nat (0x20000020 + span pre) :: u64)" by (simp add: p)
  ultimately show ?thesis by simp
qed

lemma live_header:
  "heap_list m ss \<Longrightarrow> live_blocks ss p = Some n \<Longrightarrow> payload_bytes (user_shared_heap_block m (of_nat p - 32)) = of_nat n"
  unfolding heap_list_def by (blast intro: linked_live_header)

lemma list_write:
  assumes "heap_list m ss" "touches m m' T" "T \<inter> idle_bytes ss = {}"
  shows "heap_list m' ss"
proof -
  have "user_shared_heap_state m' = user_shared_heap_state m"
    using assms(3) by (intro state_touches [OF assms(2)]) auto
  moreover have "linked m' 0 0x20000020 ss"
    using assms by (intro linked_payload [OF _ assms(2)]) (auto simp: heap_list_def)
  ultimately show ?thesis using assms(1) by (simp add: heap_list_def)
qed

lemma list_replace:
  assumes h: "heap_list m (pre @ ss)" and b: "b = 0x20000020 + span pre"
    and t: "touches m m' T" "T \<subseteq> {b..<b + span ss}"
    and l: "\<And>q. linked m q b ss \<Longrightarrow> linked m' q b ts" and ts: "span ts = span ss" "list_all granular ts" "ss \<noteq> []" "ts \<noteq> []"
  shows "heap_list m' (pre @ ts)"
proof -
  have "user_shared_heap_state m' = user_shared_heap_state m"
    using t(2) b by (intro state_touches [OF t(1)]) force
  moreover have "linked m' 0 0x20000020 (pre @ ts)"
  proof (rule linked_replace [OF _ t(1)])
    show "T \<inter> {0x20000020..<0x20000020 + span pre} = {}" using t(2) b by force
  qed (use h l b ts in \<open>auto simp: heap_list_def\<close>)
  ultimately show ?thesis using h ts by (simp add: heap_list_def)
qed

lemma split_in_place:
  assumes h: "heap_list m (pre @ (n, False) # post)" and b: "b = 0x20000020 + span pre" and k: "unat k \<le> n" "16 dvd unat k" "0 < unat k"
    and m': "m' = user_shared_heap_split_block m (of_nat b) k"
  shows "heap_list m' (pre @ carve (unat k) n post)"
    and "touches m m' ({b..<b + 32} \<union> {b + 32 + unat k..<b + 32 + n} \<union> idle (b + 32 + n) post)"
proof -
  have B: "b + span ((n, False) # post) \<le> 2 ^ 63" "0 < b" using h b by (auto simp: heap_list_def)
  have l: "linked m 0 0x20000020 (pre @ (n, False) # post)" using h by (simp add: heap_list_def)
  from linked_drop [OF l] obtain q where q: "linked m q b ((n, False) # post)" using b by auto
  have m'k: "m' = user_shared_heap_split_block m (of_nat b) (of_nat (unat k))" using m' by simp
  note sp = split_linked [OF _ B k(1) m'k]
  show t: "touches m m' ({b..<b + 32} \<union> {b + 32 + unat k..<b + 32 + n} \<union> idle (b + 32 + n) post)" using sp(2) [OF q] .
  have g: "granular (n, False)" "list_all granular post" using h by (auto simp: heap_list_def)
  have "16 dvd n - unat k - 32" using g(1) k(2) by (simp add: granular_def dvd_diff_nat)
  then have gt: "list_all granular (carve (unat k) n post)" using g k(3) by (auto simp: carve_def granular_def k(2))
  show "heap_list m' (pre @ carve (unat k) n post)"
  proof (rule list_replace [OF h b t])
    show "{b..<b + 32} \<union> {b + 32 + unat k..<b + 32 + n} \<union> idle (b + 32 + n) post \<subseteq> {b..<b + span ((n, False) # post)}"
      using idle_subset [of "b + 32 + n" post] by auto
    show "linked m' q b (carve (unat k) n post)" if "linked m q b ((n, False) # post)" for q
      using sp(1) [OF that] by (simp add: carve_def)
  qed (use gt k(1) in \<open>auto simp: carve_def\<close>)
qed

lemma absorb_in_place:
  assumes h: "heap_list m (pre @ (n, False) # (r, True) # post)" and b: "b = 0x20000020 + span pre"
    and m': "m' = absorb_block m (of_nat b) (of_nat (b + 32 + n))"
  shows "heap_list m' (pre @ (n + 32 + r, False) # post)"
    and "touches m m' ({b..<b + 32} \<union> idle (b + 64 + n + r) post)"
proof -
  have B: "b + span ((n, False) # (r, True) # post) \<le> 2 ^ 63" "0 < b" using h b by (auto simp: heap_list_def)
  have l: "linked m 0 0x20000020 (pre @ (n, False) # (r, True) # post)" using h by (simp add: heap_list_def)
  from linked_drop [OF l] obtain q where q: "linked m q b ((n, False) # (r, True) # post)" using b by auto
  note ab = absorb_linked [OF _ B refl refl]
  show t: "touches m m' ({b..<b + 32} \<union> idle (b + 64 + n + r) post)" using ab(2) [OF q] unfolding m' .
  show "heap_list m' (pre @ (n + 32 + r, False) # post)"
  proof (rule list_replace [OF h b t])
    show "{b..<b + 32} \<union> idle (b + 64 + n + r) post \<subseteq> {b..<b + span ((n, False) # (r, True) # post)}"
      using idle_subset [of "b + 64 + n + r" post] by auto
    show "linked m' q b ((n + 32 + r, False) # post)" if "linked m q b ((n, False) # (r, True) # post)" for q
      using ab(1) [OF that] unfolding m' .
  qed (use h in \<open>auto simp: heap_list_def granular_def\<close>)
qed

text \<open>The copy loop, for blocks that do not overlap.\<close>

lemma copy_up_memcopy:
  assumes "unat src + n \<le> 2 ^ 64" "unat dst + n \<le> 2 ^ 64"
    and "unat src + n \<le> unat dst \<or> unat dst + n \<le> unat src"
  shows "copy_up n m dst src = memcopy m dst (mem_bytes m src n)"
  using assms
proof (induction n arbitrary: m dst src)
  case (Suc n)
  show ?case
  proof (cases n)
    case 0
    then show ?thesis by (simp add: mem_bytes_def)
  next
    case (Suc k)
    have u: "unat (src + 1) = unat src + 1" "unat (dst + 1) = unat dst + 1"
      using Suc.prems \<open>n = Suc k\<close> by (simp_all add: unat_word_ariths)
    have "mem_bytes (m(dst := m src)) (src + 1) n = mem_bytes m (src + 1) n"
    proof (rule nth_equalityI)
      fix i assume "i < length (mem_bytes (m(dst := m src)) (src + 1) n)"
      then have i: "i < n" by simp
      have "unat (src + 1 + of_nat i) = unat src + 1 + i"
        using Suc.prems(1) i u by (simp add: unat_word_ariths unat_of_nat_less)
      then have "unat (src + 1 + of_nat i) \<noteq> unat dst" using Suc.prems(3) i by auto
      then have "src + 1 + of_nat i \<noteq> dst" by blast
      then show "mem_bytes (m(dst := m src)) (src + 1) n ! i = mem_bytes m (src + 1) n ! i" using i by simp
    qed simp
    moreover have "copy_up n (m(dst := m src)) (dst + 1) (src + 1) =
        memcopy (m(dst := m src)) (dst + 1) (mem_bytes (m(dst := m src)) (src + 1) n)"
      using Suc.prems u by (intro Suc.IH) auto
    ultimately show ?thesis by (simp add: mem_bytes_Suc)
  qed
qed (simp add: mem_bytes_def)

lemma touches_memcopy:
  assumes "unat p + length bs \<le> 2 ^ 64"
  shows "touches m (memcopy m p bs) {unat p..<unat p + length bs}"
  unfolding touches_def
proof (intro allI impI)
  fix x :: u64 assume x: "unat x \<notin> {unat p..<unat p + length bs}"
  have "\<not> unat (x - p) < length bs" using x assms by (auto simp: unat_sub_if')
  then show "memcopy m p bs x = m x" using assms by (simp add: memcopy_apply)
qed

lemma keeps_except:
  assumes t: "touches m m' (idle_bytes ss \<union> {p..<p + n})" and p: "live_blocks ss p = Some n"
  shows "keeps m m' ((live_blocks ss)(p := None))"
  unfolding keeps_def
proof (intro allI impI)
  fix q k and x :: u64 assume q: "((live_blocks ss)(p := None)) q = Some k" "q \<le> unat x" "unat x < q + k"
  then have qp: "q \<noteq> p" "live_blocks ss q = Some k" by (auto split: if_splits)
  then have "unat x \<notin> {p..<p + n}"
    using allocs_disjoint [OF p qp(2)] allocs_disjoint [OF qp(2) p] q(2,3) by (cases "p < q") auto
  moreover have "unat x \<notin> idle_bytes ss" using live_not_idle [OF qp(2)] q(2,3) by auto
  ultimately show "m' x = m x" using t by (intro touchesD [OF t]) blast
qed

text \<open>
  What resizing promises for the block at \<open>p\<close> of \<open>n\<close> bytes: a null result leaves every block as it was;
  otherwise the new block holds the old content as far as both sizes reach, and every other block is kept.
\<close>

definition resized :: "mem \<Rightarrow> (nat \<rightharpoonup> nat) \<Rightarrow> nat \<Rightarrow> nat \<Rightarrow> nat \<Rightarrow> u64 \<Rightarrow> mem \<Rightarrow> (nat \<rightharpoonup> nat) \<Rightarrow> bool" where
  "resized m L p n sz q m' L' \<longleftrightarrow>
     (if q = 0 then L' = L \<and> keeps m m' L
      else keeps m m' (L(p := None)) \<and>
        (L(p := None)) (unat q) = None \<and> (\<exists>k. sz \<le> k \<and> L' = (L(p := None))(unat q \<mapsto> k)) \<and>
        (\<forall>i < min n sz. m' (q + of_nat i) = m (of_nat p + of_nat i)))"

lemma resized_in_place:
  assumes t: "touches m m' (idle_bytes ss \<union> {p + k..<p + n})" and p: "live_blocks ss p = Some n"
    and u: "unat (of_nat p :: u64) = p" "of_nat p \<noteq> (0 :: u64)" and B: "p + n \<le> 2 ^ 63"
    and L': "live_blocks ts = (live_blocks ss)(p \<mapsto> j)" "sz \<le> j" and k: "min n sz \<le> k"
  shows "resized m (live_blocks ss) p n sz (of_nat p) m' (live_blocks ts)"
proof -
  have "m' (of_nat p + of_nat i) = m (of_nat p + of_nat i)" if i: "i < min n sz" for i
  proof (rule touchesD [OF t])
    have "unat (of_nat p + of_nat i :: u64) = p + i" using i B u unat_of_nat_less [where ?'a = 64, of "p + i"] by simp
    moreover have "p + i \<in> {p..<p + n}" "p + i \<notin> {p + k..<p + n}" using i k by auto
    ultimately show "unat (of_nat p + of_nat i :: u64) \<notin> idle_bytes ss \<union> {p + k..<p + n}"
      using live_not_idle [OF p] by (metis (no_types, lifting) IntI UnE empty_iff)
  qed
  moreover have "keeps m m' ((live_blocks ss)(p := None))"
    by (rule keeps_except [OF touches_mono [OF t] p]) auto
  ultimately show ?thesis using u L' by (auto simp: resized_def)
qed

lemma realloc_shrink:
  assumes h: "heap_list m ss" and p: "live_blocks ss p = Some n" and k: "unat k \<le> n" "16 dvd unat k" "0 < unat k" "sz \<le> unat k"
  shows "\<exists>m1 ts. user_shared_heap_split_block m (of_nat p - 32) k = m1 \<and> heap_list m1 ts \<and>
    touches m m1 (idle_bytes ss \<union> {p + unat k..<p + n}) \<and> (\<exists>j. live_blocks ts = (live_blocks ss)(p \<mapsto> j) \<and> sz \<le> j)"
proof -
  from allocs_split [OF p] obtain pre post where ss: "ss = pre @ (n, False) # post"
    and pp: "p = 0x20000020 + span pre + 32" by blast
  define b where "b = (0x20000020 :: nat) + span pre"
  have pb: "of_nat p - 32 = (of_nat b :: u64)" "p = b + 32" by (simp_all add: pp b_def)
  note sp = split_in_place [OF h [unfolded ss] b_def k(1-3) refl]
  have "live_blocks (pre @ carve (unat k) n post) = (live_blocks ss)(p \<mapsto> if n \<le> unat k + 48 then n else unat k)"
    unfolding ss by (rule allocs_replace) (use allocs_carve [OF k(1), of b post False] pb in \<open>simp add: b_def\<close>)
  moreover have "sz \<le> (if n \<le> unat k + 48 then n else unat k)" using k by simp
  moreover have "touches m (user_shared_heap_split_block m (of_nat p - 32) k) (idle_bytes ss \<union> {p + unat k..<p + n})"
  proof -
    have "idle b ((n, False) # post) \<subseteq> idle_bytes ss" unfolding ss idle_append b_def by blast
    then show ?thesis unfolding pb(1) by (intro touches_mono [OF sp(2)]) (auto simp: pb(2))
  qed
  ultimately show ?thesis using sp(1) unfolding pb(1) by blast
qed

lemma realloc_grow:
  assumes h: "heap_list m ss" and p: "live_blocks ss p = Some n" and k: "n < unat k" "16 dvd unat k" "sz \<le> unat k"
    and nx: "nx = next_block (user_shared_heap_block m (of_nat p - 32))"
    and fr: "nx \<noteq> 0" "user_shared_heap_block_is_free m nx"
      "k \<le> of_nat n + 32 + payload_bytes (user_shared_heap_block m nx)"
  shows "\<exists>m1 ts. user_shared_heap_split_block (absorb_block m (of_nat p - 32) nx) (of_nat p - 32) k = m1 \<and> heap_list m1 ts \<and>
    touches m m1 (idle_bytes ss \<union> {p + n..<p + n}) \<and> (\<exists>j. live_blocks ts = (live_blocks ss)(p \<mapsto> j) \<and> sz \<le> j)"
proof -
  from allocs_split [OF p] obtain pre post where ss: "ss = pre @ (n, False) # post"
    and pp: "p = 0x20000020 + span pre + 32" by blast
  define b where "b = (0x20000020 :: nat) + span pre"
  have pb: "of_nat p - 32 = (of_nat b :: u64)" "p = b + 32" by (simp_all add: pp b_def)
  have sp: "span ss = 0x1FFFFFE0" and l: "linked m 0 0x20000020 ss" using h by (simp_all add: heap_list_def)
  from linked_drop [OF l [unfolded ss]] obtain q where q: "linked m q b ((n, False) # post)" using b_def by auto
  have "post \<noteq> []" using q nx fr(1) by (auto simp: pb(1))
  then obtain r g us where post: "post = (r, g) # us" by (metis list.exhaust surj_pair)
  have v: "nx = of_nat (b + 32 + n)" using q nx post by (simp add: pb(1))
  have blk: "user_shared_heap_block m (of_nat (b + 32 + n)) = \<lparr>payload_bytes = of_nat r, flags = of_bool g,
      next_block = first_link (b + 32 + n + 32 + r) us, prev_block = of_nat b\<rparr>" using q post by simp
  have "user_shared_heap_block_is_free m (of_nat (b + 32 + n)) \<longleftrightarrow> g"
    using sp ss post by (intro block_is_free_iff [OF blk]) (auto simp: b_def)
  then have g: "g" using fr(2) v by simp
  define m1 where "m1 = absorb_block m (of_nat b) (of_nat (b + 32 + n))"
  note ab = absorb_in_place [OF h [unfolded ss post g [THEN eqTrueI]] b_def m1_def]
  have "unat (of_nat (n + 32 + r) :: u64) = n + 32 + r"
    using sp ss post by (intro unat_of_nat_less) simp
  then have kr: "unat k \<le> n + 32 + r" using fr(3) unfolding v blk by (simp add: word_le_nat_alt)
  have k0: "0 < unat k" using k(1) by simp
  note sl = split_in_place [OF ab(1) b_def kr k(2) k0 refl]
  let ?j = "if n + 32 + r \<le> unat k + 48 then n + 32 + r else unat k"
  have "live_blocks (pre @ carve (unat k) (n + 32 + r) us) = (live_blocks ss)(p \<mapsto> ?j)"
    unfolding ss post
  proof (rule allocs_replace)
    show "allocs (0x20000020 + span pre) (carve (unat k) (n + 32 + r) us) =
        (allocs (0x20000020 + span pre) ((n, False) # (r, g) # us))(p \<mapsto> ?j)"
      using allocs_carve [OF kr, of b us False] g unfolding b_def [symmetric] pb(2) by (simp add: add_ac)
  qed
  moreover have "sz \<le> ?j" using k kr by simp
  moreover have "touches m (user_shared_heap_split_block m1 (of_nat b) k) (idle_bytes ss \<union> {p + n..<p + n})"
  proof (rule touches_trans [OF ab(2) sl(2)])
    have "idle b ((n, False) # post) \<subseteq> idle_bytes ss" unfolding ss idle_append b_def by blast
    moreover have "{b..<b + 32} \<union> {b + 32 + n..<b + 64 + n + r} \<union> idle (b + 64 + n + r) us \<subseteq> idle b ((n, False) # post)"
      using g by (auto simp: post add_ac)
    moreover have "{b + 32 + unat k..<b + 64 + n + r} \<subseteq> {b + 32 + n..<b + 64 + n + r}" using k(1) by auto
    moreover have e: "b + 32 + (n + 32 + r) = b + 64 + n + r" by simp
    ultimately show "{b..<b + 32} \<union> idle (b + 64 + n + r) us \<union>
        ({b..<b + 32} \<union> {b + 32 + unat k..<b + 32 + (n + 32 + r)} \<union> idle (b + 32 + (n + 32 + r)) us)
      \<subseteq> idle_bytes ss \<union> {p + n..<p + n}" unfolding e by blast
  qed
  ultimately show ?thesis using sl(1) unfolding pb(1) v m1_def by blast
qed

lemma realloc_move:
  assumes h: "heap_list m ss" and p: "live_blocks ss p = Some n" and k: "16 dvd unat k" "0 < unat k" "unat sz \<le> unat k"
    and ml: "user_shared_heap_malloc_locked m k = Some (q, m2)" and q0: "q \<noteq> 0"
    and c: "c = min n (unat sz)"
  shows "\<exists>ts. heap_list (user_shared_heap_free_locked (copy_up c m2 q (of_nat p)) (of_nat p)) ts \<and>
    payload_bytes (user_shared_heap_block m2 (of_nat p - 32)) = of_nat n \<and>
    resized m (live_blocks ss) p n (unat sz) q (user_shared_heap_free_locked (copy_up c m2 q (of_nat p)) (of_nat p)) (live_blocks ts)"
proof -
  from malloc_locked_list [OF h k(1,2)] ml q0 obtain r ts where r: "first_fit (unat k) 0x20000020 ss = Some (r, ts)"
    and q: "q = of_nat r" and m2: "heap_list m2 ts" "touches m m2 (idle 0x20000020 ss)"
    by (auto split: option.splits)
  from first_fit_ok [OF r] obtain j where j: "unat k \<le> j" "live_blocks ts = (live_blocks ss)(r \<mapsto> j)"
    "live_blocks ss r = None" by blast
  have rj: "live_blocks ts r = Some j" and pn: "live_blocks ts p = Some n" and rp: "r \<noteq> p" using j p by auto
  have sp: "span ts = 0x1FFFFFE0" using m2(1) by (simp add: heap_list_def)
  have ur: "unat q = r" unfolding q using unat_of_live [OF rj sp] .
  have up: "unat (of_nat p :: u64) = p" using unat_of_live [OF pn sp] .
  note br = allocs_SomeD [OF rj] and bp = allocs_SomeD [OF pn]
  have cl: "c \<le> n" "c \<le> j" using c k(3) j(1) by auto
  have dis: "p + n \<le> r \<or> r + j \<le> p"
    using allocs_disjoint [OF rj pn] allocs_disjoint [OF pn rj] rp by (cases "p < r") auto
  define m3 where "m3 = copy_up c m2 q (of_nat p)"
  have m3: "m3 = memcopy m2 q (mem_bytes m2 (of_nat p) c)"
    unfolding m3_def using br bp sp cl dis by (intro copy_up_memcopy) (auto simp: ur up)
  have t3: "touches m2 m3 {r..<r + j}"
    using touches_memcopy [of q "mem_bytes m2 (of_nat p) c" m2] br sp cl unfolding m3 ur
    by (auto elim!: touches_mono)
  have h3: "heap_list m3 ts" using live_not_idle [OF rj] by (intro list_write [OF m2(1) t3]) blast
  note f = free_locked_list [OF h3 pn]
  let ?m4 = "user_shared_heap_free_locked m3 (of_nat p)"
  have L: "live_blocks (release p 0x20000020 ts) = ((live_blocks ss)(p := None))(r \<mapsto> j)"
    using pn j(2) rp by (simp add: allocs_release domI fun_upd_twist)
  have k2: "keeps m m2 (live_blocks ss)" by (rule keeps_idle [OF touches_mono [OF m2(2)]]) blast
  have k3: "keeps m2 m3 (live_blocks ss)"
    using keeps_except [OF touches_mono [OF t3] rj] j(2,3) by (simp add: fun_upd_idem)
  have k4: "keeps m3 ?m4 (live_blocks ts)" by (rule keeps_idle [OF touches_mono [OF f(2)]]) blast
  have le: "(live_blocks ss)(p := None) \<subseteq>\<^sub>m live_blocks ss" "live_blocks ss \<subseteq>\<^sub>m live_blocks ts"
    using j(2,3) by (auto simp: map_le_def)
  have K: "keeps m ?m4 ((live_blocks ss)(p := None))"
    using keeps_sub [OF keeps_trans [OF keeps_trans [OF k2 k3] keeps_sub [OF k4 le(2)]] le(1)] .
  have con: "?m4 (q + of_nat i) = m (of_nat p + of_nat i)" if i: "i < c" for i
  proof -
    have ui: "unat (q + of_nat i) = r + i" "unat (of_nat p + of_nat i :: u64) = p + i"
      using i cl br bp sp ur up by (simp_all add: unat_word_ariths unat_of_nat_less)
    have "?m4 (q + of_nat i) = m3 (q + of_nat i)" using k4 rj ui i cl unfolding keeps_def by simp
    also have "\<dots> = m2 (of_nat p + of_nat i)"
      using i cl br sp unfolding m3 by (simp add: memcopy_apply unat_of_nat_less)
    also have "\<dots> = m (of_nat p + of_nat i)" using k2 p ui i cl unfolding keeps_def by simp
    finally show ?thesis .
  qed
  have "resized m (live_blocks ss) p n (unat sz) q ?m4 (live_blocks (release p 0x20000020 ts))"
  proof -
    have "unat sz \<le> j" using k(3) j(1) by simp
    then have "\<exists>i. unat sz \<le> i \<and> live_blocks (release p 0x20000020 ts) = ((live_blocks ss)(p := None))(unat q \<mapsto> i)"
      using L ur by blast
    then show ?thesis using q0 K con c j(3) ur unfolding resized_def by simp
  qed
  then show ?thesis using f(1) live_header [OF m2(1) pn] unfolding m3_def by blast
qed

lemma resized_around:
  assumes k: "keeps m m1 L" "keeps m2 m3 L'" and r: "resized m1 L p n sz q m2 L'" and q0: "q \<noteq> 0"
    and p: "L p = Some n" "unat (of_nat p :: u64) = p" "p + n \<le> 2 ^ 63"
    and q: "\<And>i j. L' i = Some j \<Longrightarrow> i + j \<le> 2 ^ 63"
  shows "resized m L p n sz q m3 L'"
proof -
  from r q0 obtain j where j: "keeps m1 m2 (L(p := None))" "sz \<le> j" "L' = (L(p := None))(unat q \<mapsto> j)"
    "(L(p := None)) (unat q) = None"
    and con: "\<And>i. i < min n sz \<Longrightarrow> m2 (q + of_nat i) = m1 (of_nat p + of_nat i)" by (auto simp: resized_def)
  have le: "L(p := None) \<subseteq>\<^sub>m L" by (auto simp: map_le_def)
  have K2: "keeps m m2 (L(p := None))" using keeps_trans [OF keeps_sub [OF k(1) le] j(1)] .
  moreover have "L(p := None) \<subseteq>\<^sub>m L'" using j(3,4) by (auto simp: map_le_def)
  ultimately have "keeps m m3 (L(p := None))" using keeps_trans keeps_sub [OF k(2)] by blast
  moreover have "m3 (q + of_nat i) = m (of_nat p + of_nat i)" if i: "i < min n sz" for i
  proof -
    have "unat q + j \<le> 2 ^ 63" using q [of "unat q" j] j(3) by simp
    then have ui: "unat (q + of_nat i) = unat q + i" "unat (of_nat p + of_nat i :: u64) = p + i"
      using i j(2) p(2,3) by (simp_all add: unat_word_ariths unat_of_nat_less)
    have "m3 (q + of_nat i) = m2 (q + of_nat i)"
      using k(2) j(2,3) ui i unfolding keeps_def by (metis add_less_cancel_left fun_upd_same le_add1 less_le_trans min_less_iff_conj)
    also have "\<dots> = m1 (of_nat p + of_nat i)" using con i .
    also have "\<dots> = m (of_nat p + of_nat i)" using k(1) p(1) ui i unfolding keeps_def by simp
    finally show ?thesis .
  qed
  ultimately show ?thesis using q0 j unfolding resized_def by auto
qed

lemma malloc_locked_total:
  assumes h: "heap_list m ss" and k: "16 dvd unat k" "0 < unat k"
  shows "\<exists>q m2. user_shared_heap_malloc_locked m k = Some (q, m2) \<and> (q = 0 \<longrightarrow> m2 = m)"
proof (cases "first_fit (unat k) 0x20000020 ss")
  case None
  with malloc_locked_list [OF h k] show ?thesis by simp
next
  case (Some x)
  obtain p ts where x: "x = (p, ts)" by (cases x)
  with malloc_locked_list [OF h k] Some obtain m2 where m2: "user_shared_heap_malloc_locked m k = Some (of_nat p, m2)"
    "heap_list m2 ts" by auto
  from first_fit_ok [OF Some [unfolded x]] obtain n where n: "live_blocks ts p = Some n" by auto
  have "of_nat p \<noteq> (0 :: u64)"
    using unat_of_live [OF n] m2(2) allocs_SomeD [OF n] by (auto simp: heap_list_def)
  with m2(1) show ?thesis by blast
qed

lemma realloc_holds:
  fixes sz :: u64
  assumes h: "heap_holds m ss" and sx: "True \<in> set sx" and p: "live_blocks ss p = Some n"
    and sz: "sz \<noteq> 0" "unat sz + 15 < 2 ^ 64"
  shows "\<exists>q m' ts. user_shared_heap_realloc sx m (of_nat p) sz = Some (q, m') \<and> heap_holds m' ts \<and>
    resized m (live_blocks ss) p n (unat sz) q m' (live_blocks ts)"
proof -
  define k where "k = user_shared_heap_align_up sz"
  have k: "16 dvd unat k" "unat sz \<le> unat k" "0 < unat k"
    using align_up_dvd align_up_nowrap(1) [OF sz(2)] sz(1) unat_gt_0 [of sz] by (auto simp: k_def)
  note pt = live_pointer [OF h p]
  have pb: "p + n \<le> 2 ^ 63" using allocs_SomeD [OF p] heap_holds_span [OF h] by simp
  have un: "unat (of_nat n :: u64) = n" using pb by (intro unat_of_nat_less) simp
  obtain m1 where m1: "user_shared_heap_lock sx m = Some m1" "heap_list m1 ss" "touches m m1 (idle_bytes ss)"
    using lock_holds [OF h sx] by blast
  note hd = live_header [OF m1(2) p]
  define nx where "nx = next_block (user_shared_heap_block m1 (of_nat p - 32))"
  have fin: "\<exists>q m' ts. Some (of_nat p, user_shared_heap_unlock m2) = Some (q, m') \<and> heap_holds m' ts \<and>
      resized m (live_blocks ss) p n (unat sz) q m' (live_blocks ts)"
    if "heap_list m2 ts" "touches m1 m2 (idle_bytes ss \<union> {p + j..<p + n})" "min n (unat sz) \<le> j"
      "\<exists>j. live_blocks ts = (live_blocks ss)(p \<mapsto> j) \<and> unat sz \<le> j" for m2 ts j
  proof -
    have "touches m (user_shared_heap_unlock m2) (idle_bytes ss \<union> {p + j..<p + n})"
      by (rule touches_trans [OF touches_trans [OF m1(3) that(2) order_refl] unlock_holds(2) [OF that(1), of ss]]) blast
    from that resized_in_place [OF this p pt(3,2) pb _ _ that(3)] unlock_holds(1) [OF that(1)] show ?thesis by blast
  qed
  have k1: "keeps m m' (live_blocks ss)" if "keeps m1 m' (live_blocks ss)" for m'
    using keeps_trans [OF keeps_idle [OF m1(3)] that] .
  show ?thesis
  proof (cases "unat k \<le> n")
    case True
    then have "user_shared_heap_realloc sx m (of_nat p) sz =
        Some (of_nat p, user_shared_heap_unlock (user_shared_heap_split_block m1 (of_nat p - 32) k))"
      using pt sz(1) m1(1) hd by (simp add: user_shared_heap_realloc_def Let_def k_def [symmetric] word_le_nat_alt un)
    then show ?thesis using realloc_shrink [OF m1(2) p True k(1,3,2)] fin k(2) by (metis min.coboundedI2)
  next
    case False
    show ?thesis
    proof (cases "nx \<noteq> 0 \<and> user_shared_heap_block_is_free m1 nx \<and> k \<le> of_nat n + 32 + payload_bytes (user_shared_heap_block m1 nx)")
      case True
      then have "user_shared_heap_realloc sx m (of_nat p) sz =
          Some (of_nat p, user_shared_heap_unlock (user_shared_heap_split_block (absorb_block m1 (of_nat p - 32) nx) (of_nat p - 32) k))"
        using False pt sz(1) m1(1) hd
        by (simp add: user_shared_heap_realloc_def Let_def k_def [symmetric] nx_def [symmetric] word_le_nat_alt [of k "of_nat n"] un)
      then show ?thesis
        using realloc_grow [OF m1(2) p _ k(1,2) nx_def] True False fin by (metis min.cobounded1 not_le)
    next
      case nogrow: False
      obtain q m2 where ml: "user_shared_heap_malloc_locked m1 k = Some (q, m2)" "q = 0 \<longrightarrow> m2 = m1"
        using malloc_locked_total [OF m1(2) k(1,3)] by blast
      define c where "c = min n (unat sz)"
      let ?m4 = "user_shared_heap_free_locked (copy_up c m2 q (of_nat p)) (of_nat p)"
      show ?thesis
      proof (cases "q = 0")
        case True
        then have "user_shared_heap_realloc sx m (of_nat p) sz = Some (0, user_shared_heap_unlock m1)"
          using nogrow False pt sz(1) m1(1) hd ml unfolding user_shared_heap_realloc_def Let_def k_def [symmetric]
          by (auto simp: nx_def [symmetric] word_le_nat_alt [of k "of_nat n"] un)
        moreover have "resized m (live_blocks ss) p n (unat sz) 0 (user_shared_heap_unlock m1) (live_blocks ss)"
          using k1 [OF keeps_idle [OF unlock_holds(2) [OF m1(2), of ss]]] by (simp add: resized_def)
        ultimately show ?thesis using unlock_holds(1) [OF m1(2)] by blast
      next
        case q0: False
        from realloc_move [OF m1(2) p k(1,3,2) ml(1) q0 c_def] obtain ts where ts: "heap_list ?m4 ts"
          "payload_bytes (user_shared_heap_block m2 (of_nat p - 32)) = of_nat n"
          "resized m1 (live_blocks ss) p n (unat sz) q ?m4 (live_blocks ts)" by blast
        have cc: "unat (if of_nat n < sz then of_nat n else sz) = c" by (simp add: c_def word_less_nat_alt un)
        have "user_shared_heap_realloc sx m (of_nat p) sz = Some (q, user_shared_heap_unlock ?m4)"
          using nogrow False pt sz(1) m1(1) hd ml q0 ts(2) cc
          unfolding user_shared_heap_realloc_def Let_def k_def [symmetric]
          by (auto simp: nx_def [symmetric] word_le_nat_alt [of k "of_nat n"] un)
        moreover have "resized m (live_blocks ss) p n (unat sz) q (user_shared_heap_unlock ?m4) (live_blocks ts)"
        proof (rule resized_around [OF keeps_idle [OF m1(3)] keeps_idle [OF unlock_holds(2) [OF ts(1)]] ts(3) q0 p pt(3) pb])
          fix i j assume "live_blocks ts i = Some j"
          from allocs_SomeD [OF this] ts(1) show "i + j \<le> 2 ^ 63" by (auto simp: heap_list_def)
        qed
        ultimately show ?thesis using unlock_holds(1) [OF ts(1)] by blast
      qed
    qed
  qed
qed


section \<open>Properties\<close>

text \<open>C30: Allocation is first fit. On a heap whose list holds the segments \<open>ss\<close>, with the lock obtained, a
  request that does not overflow the rounding returns: null, with the blocks as they were, when no
  free segment has the rounded size; otherwise the payload of the first that has, split when more
  than 48 bytes would be left over. The content of every live block is kept.
\<close>

theorem user_shared_heap_malloc_first_fit:
  fixes sz :: u64
  assumes "heap_holds m ss" "True \<in> set sx" "unat sz + 15 < 2 ^ 64"
  shows "\<exists>m'. keeps m m' (live_blocks ss) \<and>
    (case first_fit (if sz = 0 then 16 else (unat sz + 15) div 16 * 16) 0x20000020 ss of
       None \<Rightarrow> user_shared_heap_malloc sx m sz = Some (0, m') \<and> heap_holds m' ss
     | Some (p, ts) \<Rightarrow> user_shared_heap_malloc sx m sz = Some (of_nat p, m') \<and> heap_holds m' ts)"
proof (cases "first_fit (if sz = 0 then 16 else (unat sz + 15) div 16 * 16) 0x20000020 ss")
  case None
  then show ?thesis using malloc_holds [OF assms refl] keeps_idle by fastforce
next
  case (Some x)
  then show ?thesis using malloc_holds [OF assms refl] keeps_idle by (cases x) fastforce
qed

lemma zero_heap: "heap_holds (\<lambda>_. 0) [(0x1FFFFFC0, True)]" "heap_client (\<lambda>_. 0) Map.empty"
proof -
  have "load64 (\<lambda>_. 0) a = 0" for a by (simp add: load64_def mem_bytes_def eval_nat_numeral)
  then have s: "lock_word (user_shared_heap_state (\<lambda>_. 0)) = 0" "heap_fresh (\<lambda>_. 0)"
    by (simp_all add: user_shared_heap_state_def heap_fresh_def)
  then show "heap_holds (\<lambda>_. 0) [(0x1FFFFFC0, True)]" "heap_client (\<lambda>_. 0) Map.empty"
    by (auto simp: heap_holds_def intro: heap_start)
qed

theorem user_shared_heap_malloc_first_fit_witness:
  "\<exists>m'. user_shared_heap_malloc [False, True] (\<lambda>_. 0) 100 = Some (0x20000040, m') \<and>
     heap_holds m' [(112, False), (0x1FFFFF30, True)]"
  using user_shared_heap_malloc_first_fit [OF zero_heap(1), of "[False, True]" 100]
  by (auto simp: carve_def)

text \<open>C31: Releasing a live block returns, makes the block and its free neighbours one free segment, takes
  exactly this block out of the live ones and keeps the content of all the others.
\<close>

theorem user_shared_heap_free_correct:
  assumes "heap_holds m ss" "True \<in> set sx" "live_blocks ss p = Some n"
  shows "\<exists>m'. user_shared_heap_free sx m (of_nat p) = Some m' \<and> heap_holds m' (release p 0x20000020 ss) \<and>
    live_blocks (release p 0x20000020 ss) = (live_blocks ss)(p := None) \<and> keeps m m' ((live_blocks ss)(p := None))"
proof -
  from free_holds [OF assms] obtain m' where m': "user_shared_heap_free sx m (of_nat p) = Some m'"
    "heap_holds m' (release p 0x20000020 ss)" "touches m m' (idle_bytes ss)" by blast
  have "keeps m m' ((live_blocks ss)(p := None))"
    using keeps_except [OF touches_mono [OF m'(3)] assms(3)] by blast
  then show ?thesis using m' assms(3) by (simp add: allocs_release domI)
qed

lemma heap_after_malloc:
  "\<exists>m'. user_shared_heap_malloc [True] (\<lambda>_. 0) 100 = Some (0x20000040, m') \<and> heap_holds m' [(112, False), (0x1FFFFF30, True)]"
  using malloc_holds [OF zero_heap(1), of "[True]" 100 112] by (auto simp: carve_def)

theorem user_shared_heap_free_correct_witness:
  "\<exists>m m'. heap_holds m [(112, False), (0x1FFFFF30, True)] \<and> user_shared_heap_free [True] m 0x20000040 = Some m' \<and>
     heap_holds m' [(0x1FFFFFC0, True)]"
proof -
  obtain m where m: "heap_holds m [(112, False), (0x1FFFFF30, True)]" using heap_after_malloc by blast
  from user_shared_heap_free_correct [OF m, of "[True]" "0x20000040" 112] m show ?thesis by auto
qed

text \<open>C32: Resizing a live block to a size that is not zero and does not overflow the rounding returns. A
  null result leaves every block as it was. Otherwise the block has at least the new size, holds the
  old content as far as both sizes reach, and every other live block keeps its place and content.
\<close>

theorem user_shared_heap_realloc_correct:
  fixes sz :: u64
  assumes "heap_holds m ss" "True \<in> set sx" "live_blocks ss p = Some n" "sz \<noteq> 0" "unat sz + 15 < 2 ^ 64"
  shows "\<exists>q m' ts. user_shared_heap_realloc sx m (of_nat p) sz = Some (q, m') \<and> heap_holds m' ts \<and>
    resized m (live_blocks ss) p n (unat sz) q m' (live_blocks ts)"
  by (rule realloc_holds [OF assms])

theorem user_shared_heap_realloc_correct_witness:
  "\<exists>m q m' ts. heap_holds m [(112, False), (0x1FFFFF30, True)] \<and>
     user_shared_heap_realloc [True] m 0x20000040 1000 = Some (q, m') \<and> heap_holds m' ts \<and>
     resized m [0x20000040 \<mapsto> 112] 0x20000040 112 1000 q m' (live_blocks ts)"
proof -
  obtain m where m: "heap_holds m [(112, False), (0x1FFFFF30, True)]" using heap_after_malloc by blast
  from user_shared_heap_realloc_correct [OF m, of "[True]" "0x20000040" 112 1000] m show ?thesis by auto
qed

text \<open>C29: In every state a process can reach, the blocks it holds are 16-byte aligned, lie behind the first
  header inside the heap window, and no two of them share a byte.
\<close>

theorem heap_client_safe:
  assumes "heap_client m L" "L p = Some n"
  shows "16 dvd p \<and> 0x20000040 \<le> p \<and> p + n \<le> 0x40000000 \<and>
    (\<forall>q k. L q = Some k \<and> q \<noteq> p \<longrightarrow> {p..<p + n} \<inter> {q..<q + k} = {})"
proof -
  from heap_client_inv [OF assms(1)] obtain ss where ss: "heap_holds m ss" "covers (live_blocks ss) L" by blast
  from coversD [OF ss(2) assms(2)] obtain i where i: "live_blocks ss p = Some i" "n \<le> i" by blast
  have "{p..<p + n} \<inter> {q..<q + k} = {}" if "L q = Some k" "q \<noteq> p" for q k
  proof -
    from coversD [OF ss(2) that(1)] obtain j where j: "live_blocks ss q = Some j" "k \<le> j" by blast
    show ?thesis using allocs_disjoint [OF i(1) j(1)] allocs_disjoint [OF j(1) i(1)] i(2) j(2) that(2)
      by (cases "p < q") auto
  qed
  moreover have "16 dvd p" using allocs_aligned [OF i(1) heap_holds_granular [OF ss(1)]] by simp
  moreover have "0x20000040 \<le> p" "p + n \<le> 0x40000000"
    using allocs_SomeD [OF i(1)] heap_holds_span [OF ss(1)] i(2) by simp_all
  ultimately show ?thesis by blast
qed

lemma client_after_malloc: "\<exists>m. heap_client m [0x20000040 \<mapsto> 100]"
proof -
  obtain m' where "user_shared_heap_malloc [True] (\<lambda>_. 0) 100 = Some (0x20000040, m')" using heap_after_malloc by blast
  from heap_malloc [OF zero_heap(2) _ this] show ?thesis by auto
qed

theorem heap_client_safe_witness:
  "\<exists>m. heap_client m [0x20000040 \<mapsto> 100] \<and> 0x20000040 + 100 \<le> (0x40000000 :: nat)"
proof -
  obtain m where m: "heap_client m [0x20000040 \<mapsto> 100]" using client_after_malloc by blast
  from heap_client_safe [OF m, of "0x20000040" 100] m show ?thesis by auto
qed

text \<open>C34: The allocator never hangs a process that obtains the lock: from every reachable state, each
  allocation that does not overflow the rounding returns, and so does the release of each block held.
\<close>

theorem heap_client_returns:
  assumes "heap_client m L" "True \<in> set sx"
  shows "(unat sz + 15 < 2 ^ 64 \<longrightarrow> (\<exists>p m'. user_shared_heap_malloc sx m sz = Some (p, m'))) \<and>
    (L q \<noteq> None \<longrightarrow> (\<exists>m'. user_shared_heap_free sx m (of_nat q) = Some m'))"
proof -
  from heap_client_inv [OF assms(1)] obtain ss where ss: "heap_holds m ss" "covers (live_blocks ss) L" by blast
  have "\<exists>m'. user_shared_heap_free sx m (of_nat q) = Some m'" if "L q = Some n" for n
    using coversD [OF ss(2) that] free_holds [OF ss(1) assms(2)] by blast
  moreover have "\<exists>p m'. user_shared_heap_malloc sx m sz = Some (p, m')" if "unat sz + 15 < 2 ^ 64"
    using heap_live_alloc [OF ss(1) assms(2) that] by blast
  ultimately show ?thesis by blast
qed

theorem heap_client_returns_witness:
  "\<exists>m. heap_client m [0x20000040 \<mapsto> 100] \<and> (\<exists>p m'. user_shared_heap_malloc [False, True] m 5000 = Some (p, m')) \<and>
     (\<exists>m'. user_shared_heap_free [True] m 0x20000040 = Some m')"
proof -
  obtain m where m: "heap_client m [0x20000040 \<mapsto> 100]" using client_after_malloc by blast
  from heap_client_returns [OF m, of "[False, True]" 5000] heap_client_returns [OF m, of "[True]" 0 "0x20000040"] m
  show ?thesis by auto
qed



text \<open>A request within 15 bytes of the end of the address space overflows the rounding and asks for
  nothing: on a heap with any free block it is granted, with a payload of at most 48 bytes.
\<close>

theorem user_shared_heap_malloc_overflow:
  fixes sz :: u64
  assumes "heap_holds m ss" "True \<in> set sx" "2 ^ 64 \<le> unat sz + 15" "s \<in> set ss" "snd s"
  shows "\<exists>p m'. user_shared_heap_malloc sx m sz = Some (p, m') \<and> p \<noteq> 0 \<and>
    unat (payload_bytes (user_shared_heap_block m' (p - 32))) \<le> 48"
proof -
  obtain m1 where m1: "user_shared_heap_lock sx m = Some m1" "heap_list m1 ss" using lock_holds [OF assms(1,2)] by blast
  have sz0: "sz \<noteq> 0" using assms(3) by auto
  have "unat (sz + 15) = unat sz + 15 - 2 ^ 64" using assms(3) unat_u64_less [of sz] by (simp add: unat_word_ariths mod_if)
  then have "unat (sz + 15) < 15" using unat_u64_less [of sz] by simp
  then have k: "user_shared_heap_align_up sz = 0" using unat_align_up [of sz] by (simp add: unat_eq_0 [symmetric] del: unat_eq_0)
  have l: "linked m1 0 0x20000020 ss" and sp: "span ss = 0x1FFFFFE0" using m1(2) by (simp_all add: heap_list_def)
  have ne: "ss \<noteq> []" using assms(4) by auto
  from assms(4,5) obtain p ts where r: "first_fit 0 0x20000020 ss = Some (p, ts)"
    using first_fit_None [of 0 "0x20000020" ss] by (cases "first_fit 0 0x20000020 ss") auto
  from first_fit_ok [OF r] obtain n where n: "n \<le> 48" "live_blocks ts p = Some n" "span ts = 0x1FFFFFE0" using sp by auto
  from heap_walk_linked [OF l, of 0] r ne sp obtain m2 where m2: "heap_walk m1 0 (of_nat 0x20000020) = Some (of_nat p, m2)"
    "linked m2 0 0x20000020 ts" by auto
  have ml: "user_shared_heap_malloc sx m sz = Some (of_nat p, user_shared_heap_unlock m2)"
    using m1 m2(1) sz0 k by (simp add: user_shared_heap_malloc_def user_shared_heap_malloc_locked_def heap_list_def)
  have "linked (user_shared_heap_unlock m2) 0 0x20000020 ts"
    unfolding user_shared_heap_unlock_def using n(3) by (intro linked_touches [OF m2(2) touches_state(2)]) auto
  from linked_live_header [OF this n(2)] have "payload_bytes (user_shared_heap_block (user_shared_heap_unlock m2) (of_nat p - 32)) = of_nat n" .
  moreover have "unat (of_nat n :: u64) = n" using n(1) by (intro unat_of_nat_less) simp
  moreover have "of_nat p \<noteq> (0 :: u64)" using unat_of_live [OF n(2,3)] allocs_SomeD [OF n(2)] by auto
  ultimately show ?thesis using ml n(1) by auto
qed

theorem user_shared_heap_malloc_overflow_witness:
  "\<exists>p m'. user_shared_heap_malloc [True] (\<lambda>_. 0) 0xFFFFFFFFFFFFFFFF = Some (p, m') \<and> p \<noteq> 0 \<and>
    unat (payload_bytes (user_shared_heap_block m' (p - 32))) \<le> 48"
  using user_shared_heap_malloc_overflow [OF zero_heap(1), of "[True]" "0xFFFFFFFFFFFFFFFF" "(0x1FFFFFC0, True)"] by simp
end
