(* ===== verification/Crt_Alloc.thy ===== *)
theory Crt_Alloc
  imports Shared_Heap_Client Crt_String
begin

text \<open>
  The allocation functions of the user runtime, \<^verbatim>\<open>src/applications/runtime/crt.c\<close>, on top of the
  process-wide heap. \<open>aligned_alloc\<close> hides the pointer of the underlying block in a 16-byte tag in
  front of the pointer it returns; \<open>free\<close> looks for the tag in front of every pointer it is given.
\<close>

record CrtAlignedAllocationHeader =
  tag_magic :: u64
  raw :: u64

abbreviation CRT_ALIGNED_ALLOCATION_MAGIC :: u64 where "CRT_ALIGNED_ALLOCATION_MAGIC \<equiv> 0x435254414C49474E"

definition aligned_header :: "mem \<Rightarrow> u64 \<Rightarrow> CrtAlignedAllocationHeader" where
  "aligned_header m a = \<lparr>tag_magic = load64 m a, raw = load64 m (a + 8)\<rparr>"

definition crt_malloc :: "bool list \<Rightarrow> mem \<Rightarrow> u64 \<Rightarrow> (u64 \<times> mem) option" where
  "crt_malloc sx m sz = user_shared_heap_malloc sx m sz"

definition crt_free :: "bool list \<Rightarrow> mem \<Rightarrow> u64 \<Rightarrow> mem option" where
  "crt_free sx m ptr =
     (if ptr = 0 then Some m
      else
        (let h = aligned_header m (ptr - 16)
         in if tag_magic h = CRT_ALIGNED_ALLOCATION_MAGIC \<and> raw h \<noteq> 0 \<and> user_shared_heap_contains_pointer (raw h)
            then user_shared_heap_free sx m (raw h)
            else user_shared_heap_free sx m ptr))"

definition calloc :: "bool list \<Rightarrow> mem \<Rightarrow> u64 \<Rightarrow> u64 \<Rightarrow> (u64 \<times> mem) option" where
  "calloc sx m n sz =
     (let total = n * sz
      in case crt_malloc sx m (if total \<noteq> 0 then total else 1) of
           None \<Rightarrow> None
         | Some (memory, m) \<Rightarrow> Some (memory, if memory \<noteq> 0 then snd (memset m memory 0 total) else m))"

definition crt_realloc :: "bool list \<Rightarrow> mem \<Rightarrow> u64 \<Rightarrow> u64 \<Rightarrow> (u64 \<times> mem) option" where
  "crt_realloc sx m ptr sz = user_shared_heap_realloc sx m ptr sz"

definition aligned_alloc :: "bool list \<Rightarrow> mem \<Rightarrow> u64 \<Rightarrow> u64 \<Rightarrow> (u64 \<times> mem) option" where
  "aligned_alloc sx m alignment sz =
     (if alignment = 0 then Some (0, m)
      else if alignment AND (alignment - 1) \<noteq> 0 then Some (0, m)
      else if - 1 - 16 < alignment then Some (0, m)
      else if - 1 - alignment - 16 < sz then Some (0, m)
      else
        (case crt_malloc sx m (sz + alignment + 16) of
           None \<Rightarrow> None
         | Some (r, m) \<Rightarrow>
             if r = 0 then Some (0, m)
             else
               (let aligned = (r + 16 + (alignment - 1)) AND NOT (alignment - 1);
                    h = aligned - 16;
                    m = store64 m h CRT_ALIGNED_ALLOCATION_MAGIC;
                    m = store64 m (h + 8) r
                in Some (aligned, m))))"

section \<open>Lemmas\<close>

lemma live_untagged:
  assumes "heap_live m L" "L p = Some n"
  shows "tag_magic (aligned_header m (of_nat p - 16)) \<noteq> CRT_ALIGNED_ALLOCATION_MAGIC"
proof -
  obtain ss where ss: "heap_holds m ss" "live_blocks ss = L" using assms(1) by (auto simp: heap_live_def)
  with assms(2) have h: "heap_list m ss" by (auto simp: heap_holds_def)
  from allocs_split [of _ ss p n] assms(2) ss(2) obtain pre post where s: "ss = pre @ (n, False) # post"
    and p: "p = 0x20000020 + span pre + 32" by blast
  have l: "linked m 0 0x20000020 ss" and sp: "span ss = 0x1FFFFFE0" using h by (simp_all add: heap_list_def)
  from linked_drop [OF l [unfolded s]] obtain q where "linked m q (0x20000020 + span pre) ((n, False) # post)" by blast
  then have "next_block (user_shared_heap_block m (of_nat (0x20000020 + span pre))) = first_link (p + n) post"
    by (simp add: p add_ac)
  moreover have "of_nat p - 16 = (of_nat (0x20000020 + span pre) + 16 :: u64)" by (simp add: p)
  ultimately have "tag_magic (aligned_header m (of_nat p - 16)) = first_link (p + n) post"
    by (simp add: aligned_header_def user_shared_heap_block_def)
  moreover have pn: "p + n \<le> 0x40000000" using sp s p by simp
  have "unat (of_nat (p + n) :: u64) = p + n" using pn by (intro unat_of_nat_less) simp
  then have "unat (of_nat (p + n) :: u64) < unat CRT_ALIGNED_ALLOCATION_MAGIC" using pn by simp
  then have "(of_nat (p + n) :: u64) \<noteq> CRT_ALIGNED_ALLOCATION_MAGIC" by (metis less_irrefl)
  ultimately show ?thesis by auto
qed

lemma crt_free_plain:
  assumes "heap_live m L" "L p = Some n"
  shows "crt_free sx m (of_nat p) = user_shared_heap_free sx m (of_nat p)"
  using live_untagged [OF assms] by (auto simp: crt_free_def Let_def user_shared_heap_free_def)

text \<open>The runtime's pair of functions meets the allocator's contract too.\<close>

interpretation crt: allocator heap_live "crt_malloc (busy @ True # rest)" "crt_free (busy @ True # rest)"
  for busy rest
proof unfold_locales
  fix m L p n
  assume h: "heap_live m L" "L p = Some n"
  from shared.dealloc_ok [OF this] crt_free_plain [OF h]
  show "\<exists>m'. crt_free (busy @ True # rest) m (of_nat p) = Some m' \<and> keeps m m' (L(p := None)) \<and> heap_live m' (L(p := None))"
    by metis
qed (use shared.alloc_ok shared.write_ok shared.apart shared.addressable in \<open>auto simp: crt_malloc_def\<close>)

lemma calloc_eq:
  "calloc sx m n sz = map_option (\<lambda>(p, m). (p, if p \<noteq> 0 then memzero m p (unat (n * sz)) else m))
     (crt_malloc sx m (if n * sz \<noteq> 0 then n * sz else 1))"
  using memset_loop_eq [of 0 "n * sz" _ _ 0]
  by (auto simp: calloc_def Let_def memset_def memzero_eq_memcopy split: option.splits)

lemma aligned_address:
  fixes r :: u64
  assumes r: "unat r + 16 + 2 ^ j \<le> 2 ^ 64"
    and a: "a = (r + 16 + (2 ^ j - 1)) AND NOT (2 ^ j - 1)"
  shows "2 ^ j dvd unat a" "unat r + 16 \<le> unat a" "unat a < unat r + 16 + 2 ^ j"
proof -
  have "unat (of_nat (unat r + 16 + (2 ^ j - 1)) :: u64) = unat r + 16 + (2 ^ j - 1)"
    using r by (intro unat_of_nat_less) simp
  moreover have "r + 16 + (2 ^ j - 1) = of_nat (unat r + 16 + (2 ^ j - 1))" by (simp add: of_nat_diff)
  ultimately have u: "unat (r + 16 + (2 ^ j - 1)) = unat r + 16 + (2 ^ j - 1)" by simp
  have e: "unat a = (unat r + 16 + (2 ^ j - 1)) div 2 ^ j * 2 ^ j"
    unfolding a using unat_aligned_down [of "r + 16 + (2 ^ j - 1)" j] u by (simp add: mask_eq_exp_minus_1)
  then show "2 ^ j dvd unat a" by simp
  have d: "unat a = unat r + 16 + (2 ^ j - 1) - (unat r + 16 + (2 ^ j - 1)) mod 2 ^ j"
    unfolding e by (rule minus_mod_eq_div_mult [symmetric])
  have "(unat r + 16 + (2 ^ j - 1)) mod 2 ^ j < 2 ^ j" by simp
  with d show "unat r + 16 \<le> unat a" by linarith
  show "unat a < unat r + 16 + 2 ^ j" using d by (simp add: less_imp_diff_less)
qed


lemma aligned_guards:
  fixes sz :: u64
  assumes "unat sz + 2 ^ j + 31 < 2 ^ 64"
  shows "(2 ^ j :: u64) \<noteq> 0" "(2 ^ j :: u64) AND (2 ^ j - 1) = 0" "\<not> - 1 - 16 < (2 ^ j :: u64)"
    "\<not> - 1 - 2 ^ j - 16 < sz" "unat (sz + 2 ^ j + 16) = unat sz + 2 ^ j + 16"
proof -
  have "(2 :: nat) ^ j < 2 ^ 64" using assms by simp
  then have j: "j < 64" by (rule power_less_imp_less_exp [rotated]) simp
  have u: "unat (2 ^ j :: u64) = 2 ^ j" using unat_of_nat_less [where ?'a = 64, of "2 ^ j"] assms by simp
  then show n0: "(2 ^ j :: u64) \<noteq> 0" by (metis power_not_zero unat_0 zero_neq_numeral)
  have "(2 ^ j :: u64) AND mask j = 0" by (rule bit_word_eqI) (auto simp: bit_simps)
  then show "(2 ^ j :: u64) AND (2 ^ j - 1) = 0" by (simp add: mask_eq_exp_minus_1)
  show "\<not> - 1 - 16 < (2 ^ j :: u64)" using assms by (simp add: word_less_nat_alt u)
  have "- 1 - 2 ^ j - 16 = (of_nat (2 ^ 64 - 17 - 2 ^ j) :: u64)"
    using assms by (simp add: of_nat_diff)
  moreover have "unat (of_nat (2 ^ 64 - 17 - 2 ^ j) :: u64) = 2 ^ 64 - 17 - 2 ^ j" by (intro unat_of_nat_less) simp
  ultimately have "unat (- 1 - 2 ^ j - 16 :: u64) = 2 ^ 64 - 17 - 2 ^ j" by simp
  then show "\<not> - 1 - 2 ^ j - 16 < sz" using assms by (simp add: word_less_nat_alt)
  have "unat (of_nat (unat sz + 2 ^ j + 16) :: u64) = unat sz + 2 ^ j + 16" using assms by (intro unat_of_nat_less) simp
  then show "unat (sz + 2 ^ j + 16) = unat sz + 2 ^ j + 16" by simp
qed

text \<open>The tag in front of an aligned pointer, and what \<open>free\<close> makes of it.\<close>

lemma tag_store:
  assumes t: "touches (store64 (store64 m (p - 16) CRT_ALIGNED_ALLOCATION_MAGIC) (p - 16 + 8) r) m2 {unat p..<unat p + n}"
    and p: "16 \<le> unat p"
  shows "aligned_header m2 (p - 16) = \<lparr>tag_magic = CRT_ALIGNED_ALLOCATION_MAGIC, raw = r\<rparr>"
proof -
  have u: "unat (p - 16) = unat p - 16" "unat (p - 16 + 8) = unat p - 8"
    using p unat_u64_less [of p] by (simp_all add: unat_sub_if' unat_word_ariths)
  have "load64 m2 (p - 16) = load64 (store64 (store64 m (p - 16) CRT_ALIGNED_ALLOCATION_MAGIC) (p - 16 + 8) r) (p - 16)"
    "load64 m2 (p - 16 + 8) = load64 (store64 (store64 m (p - 16) CRT_ALIGNED_ALLOCATION_MAGIC) (p - 16 + 8) r) (p - 16 + 8)"
    using p unat_u64_less [of p] by (intro load64_touches [OF t]; simp only: u; auto)+
  then show ?thesis by (simp add: aligned_header_def load_store_apart)
qed

lemma touches_tag:
  assumes p: "lo + 16 \<le> unat p" "unat p \<le> hi"
  shows "touches m (store64 (store64 m (p - 16) v) (p - 16 + 8) r) {lo..<hi}"
proof -
  have u: "unat (p - 16) = unat p - 16" "unat (p - 16 + 8) = unat p - 8"
    using p unat_u64_less [of p] by (simp_all add: unat_sub_if' unat_word_ariths)
  have "touches m (store64 m (p - 16) v) {lo..<hi}"
    using p unat_u64_less [of p] by (intro touches_store; simp only: u; auto)
  moreover have "touches m1 (store64 m1 (p - 16 + 8) r) {lo..<hi}" for m1
    using p unat_u64_less [of p] by (intro touches_store; simp only: u; auto)
  ultimately show ?thesis by (rule touches_trans) simp
qed

lemma aligned_alloc_eq:
  fixes sz :: u64
  assumes "unat sz + 2 ^ j + 31 < 2 ^ 64" and a: "a = (r + 16 + (2 ^ j - 1)) AND NOT (2 ^ j - 1)"
    and ml: "crt_malloc sx m (sz + 2 ^ j + 16) = Some (r, m1)"
  shows "aligned_alloc sx m (2 ^ j) sz =
    (if r = 0 then Some (0, m1)
     else Some (a, store64 (store64 m1 (a - 16) CRT_ALIGNED_ALLOCATION_MAGIC) (a - 16 + 8) r))"
  using aligned_guards [OF assms(1)] ml unfolding aligned_alloc_def Let_def a by simp

section \<open>Properties\<close>

text \<open>C35: \<open>free\<close> on a plain heap pointer is exactly the heap's release: the search for a tag in front of the
  pointer reads the list links of the block header, which never look like the tag.
\<close>

theorem crt_free_untagged:
  assumes "heap_live m L" "p \<in> dom L"
  shows "crt_free sx m (of_nat p) = user_shared_heap_free sx m (of_nat p)"
  using assms crt_free_plain by blast

lemma live_after_malloc: "\<exists>m. heap_live m [0x20000040 \<mapsto> 112]"
proof -
  obtain m where "heap_holds m [(112, False), (0x1FFFFF30, True)]" using heap_after_malloc by blast
  then show ?thesis by (intro exI [of _ m]) (auto simp: heap_live_def intro!: exI [of _ "[(112, False), (0x1FFFFF30, True)]"])
qed

theorem crt_free_untagged_witness:
  "\<exists>m. heap_live m [0x20000040 \<mapsto> 112] \<and> crt_free [True] m 0x20000040 = user_shared_heap_free [True] m 0x20000040"
proof -
  obtain m where m: "heap_live m [0x20000040 \<mapsto> 112]" using live_after_malloc by blast
  from crt_free_untagged [OF m, of "0x20000040" "[True]"] m show ?thesis by auto
qed

text \<open>\<open>calloc\<close> of a product that does not overflow returns null with every block as it was, or a new block
  of at least that many bytes, all zero; the content of the blocks that were live is kept.
\<close>

theorem calloc_correct:
  fixes n sz :: u64
  assumes h: "heap_live m L" and sx: "True \<in> set sx" and o: "unat n * unat sz + 15 < 2 ^ 64"
  shows "\<exists>p m'. calloc sx m n sz = Some (p, m') \<and> keeps m m' L \<and>
    (if p = 0 then heap_live m' L
     else L (unat p) = None \<and> (\<exists>k. unat n * unat sz \<le> k \<and> heap_live m' (L(unat p \<mapsto> k))) \<and>
       (\<forall>i < unat n * unat sz. m' (p + of_nat i) = 0))"
proof -
  obtain busy rest where sxd: "sx = busy @ True # rest" using split_list [OF sx] by blast
  define t where "t = n * sz"
  have ut: "unat t = unat n * unat sz" using o by (simp add: t_def unat_word_ariths)
  define req where "req = (if t \<noteq> 0 then t else 1)"
  have rq: "unat req + 15 < 2 ^ 64" "unat t \<le> unat req" using o ut by (auto simp: req_def)
  from crt.alloc_ok [OF h rq(1)] obtain p m1 where p: "crt_malloc sx m req = Some (p, m1)" "keeps m m1 L"
    and pc: "p = 0 \<and> heap_live m1 L \<or> p \<noteq> 0 \<and> L (unat p) = None \<and> (\<exists>k. unat req \<le> k \<and> heap_live m1 (L(unat p \<mapsto> k)))"
    unfolding sxd by blast
  have c: "calloc sx m n sz = Some (p, if p \<noteq> 0 then memzero m1 p (unat t) else m1)"
    using p(1) unfolding calloc_eq req_def t_def by simp
  show ?thesis
  proof (cases "p = 0")
    case True
    then show ?thesis using c p(2) pc by auto
  next
    case False
    then obtain k where k: "unat req \<le> k" "heap_live m1 (L(unat p \<mapsto> k))" using pc by blast
    have b: "unat p + k \<le> 2 ^ 63" using shared.addressable [OF k(2), of "unat p" k] by simp
    have "touches m1 (memzero m1 p (unat t)) {unat p..<unat p + unat t}"
      unfolding memzero_eq_memcopy using touches_memcopy [of p "replicate (unat t) 0" m1] b k(1) rq(2) by simp
    then have f: "touches m1 (memzero m1 p (unat t)) {unat p..<unat p + unat req}"
      using rq(2) by (elim touches_mono) auto
    from crt.alloc_fill [OF h rq(1) p(1) [unfolded sxd] False f] obtain k' where "unat req \<le> k'" "L (unat p) = None"
      "heap_live (memzero m1 p (unat t)) (L(unat p \<mapsto> k'))" "keeps m (memzero m1 p (unat t)) L" by blast
    moreover have "memzero m1 p (unat t) (p + of_nat i) = 0" if "i < unat t" for i
      using that unat_u64_less [of t] by (simp add: memzero_apply unat_of_nat_less)
    ultimately show ?thesis using c False rq(2) ut by (auto intro: le_trans)
  qed
qed

theorem calloc_correct_witness:
  "\<exists>m p m'. heap_live m [0x20000040 \<mapsto> 112] \<and> calloc [True] m 10 20 = Some (p, m') \<and>
     keeps m m' [0x20000040 \<mapsto> 112]"
proof -
  obtain m where m: "heap_live m [0x20000040 \<mapsto> 112]" using live_after_malloc by blast
  from calloc_correct [OF m, of "[True]" 10 20] m show ?thesis by auto
qed

text \<open>\<open>aligned_alloc\<close> with a power of two returns null with every block as it was, or a multiple of the
  alignment at which the requested bytes overlap no live block; whatever the client then writes to
  those bytes, \<open>free\<close> of the returned pointer finds the underlying block again and releases it, so that
  the live blocks are those from before the call, with their content.
\<close>

theorem aligned_alloc_free_roundtrip:
  fixes sz :: u64
  assumes h: "heap_live m L" and sx: "True \<in> set sx" and o: "unat sz + 2 ^ j + 31 < 2 ^ 64"
  shows "\<exists>p m'. aligned_alloc sx m (2 ^ j) sz = Some (p, m') \<and> keeps m m' L \<and>
    (if p = 0 then heap_live m' L
     else 2 ^ j dvd unat p \<and>
       (\<forall>q k. L q = Some k \<longrightarrow> {q..<q + k} \<inter> {unat p..<unat p + unat sz} = {}) \<and>
       (\<forall>m2. touches m' m2 {unat p..<unat p + unat sz} \<longrightarrow>
          (\<exists>m3. crt_free sx m2 p = Some m3 \<and> heap_live m3 L \<and> keeps m m3 L)))"
proof -
  obtain busy rest where sxd: "sx = busy @ True # rest" using split_list [OF sx] by blast
  define t where "t = sz + 2 ^ j + 16"
  have ut: "unat t = unat sz + 2 ^ j + 16" using aligned_guards(5) [OF o] by (simp add: t_def)
  have rq: "unat t + 15 < 2 ^ 64" using o ut by simp
  from crt.alloc_ok [OF h rq] obtain r m1 where r: "crt_malloc sx m t = Some (r, m1)" "keeps m m1 L"
    and rc: "r = 0 \<and> heap_live m1 L \<or> r \<noteq> 0 \<and> L (unat r) = None \<and> (\<exists>k. unat t \<le> k \<and> heap_live m1 (L(unat r \<mapsto> k)))"
    unfolding sxd by blast
  define p where "p = (r + 16 + (2 ^ j - 1)) AND NOT (2 ^ j - 1)"
  define m' where "m' = store64 (store64 m1 (p - 16) CRT_ALIGNED_ALLOCATION_MAGIC) (p - 16 + 8) r"
  have al: "aligned_alloc sx m (2 ^ j) sz = (if r = 0 then Some (0, m1) else Some (p, m'))"
    using aligned_alloc_eq [OF o p_def r(1) [unfolded t_def]] by (simp add: m'_def)
  show ?thesis
  proof (cases "r = 0")
    case True
    then show ?thesis using al r(2) rc by auto
  next
    case False
    then obtain k where k: "unat t \<le> k" "heap_live m1 (L(unat r \<mapsto> k))" "L (unat r) = None" using rc by blast
    have b: "unat r + k \<le> 2 ^ 63" using shared.addressable [OF k(2), of "unat r" k] by simp
    have pa: "2 ^ j dvd unat p" "unat r + 16 \<le> unat p" "unat p < unat r + 16 + 2 ^ j"
      using b k(1) ut by (intro aligned_address [OF _ p_def]; simp)+
    then have pin: "unat p + unat sz \<le> unat r + k" "p \<noteq> 0" using k(1) ut by auto
    have tm: "touches m1 m' {unat r..<unat r + k}" unfolding m'_def using pa pin by (intro touches_tag) auto
    have keep: "heap_live m2 (L(unat r \<mapsto> k)) \<and> keeps m m2 L" if "touches m1 m2 {unat r..<unat r + k}" for m2
      using shared.write_ok [OF k(2) _ that] shared.write_keeps [OF k(2) _ that] r(2) k(3) keeps_trans
      by (auto simp: fun_upd_idem)
    have "\<exists>m3. crt_free sx m2 p = Some m3 \<and> heap_live m3 L \<and> keeps m m3 L"
      if m2: "touches m' m2 {unat p..<unat p + unat sz}" for m2
    proof -
      have "touches m1 m2 {unat r..<unat r + k}" using pa pin by (intro touches_trans [OF tm m2]) auto
      note kp = keep [OF this]
      have "aligned_header m2 (p - 16) = \<lparr>tag_magic = CRT_ALIGNED_ALLOCATION_MAGIC, raw = r\<rparr>"
        using tag_store [OF m2 [unfolded m'_def]] pa by simp
      moreover have "user_shared_heap_contains_pointer r"
      proof -
        obtain ss where "heap_holds m2 ss" "live_blocks ss (unat r) = Some k" using kp by (auto simp: heap_live_def)
        from live_pointer(1) [OF this] show ?thesis by simp
      qed
      ultimately have "crt_free sx m2 p = user_shared_heap_free sx m2 r" using False pin by (simp add: crt_free_def)
      moreover from shared.dealloc_ok [of m2 "L(unat r \<mapsto> k)" "unat r" k busy rest] kp k(3)
      obtain m3 where "user_shared_heap_free sx m2 r = Some m3" "keeps m2 m3 L" "heap_live m3 L"
        unfolding sxd by (auto simp: fun_upd_idem)
      ultimately show ?thesis using kp keeps_trans by auto
    qed
    moreover have "{q..<q + i} \<inter> {unat p..<unat p + unat sz} = {}" if "L q = Some i" for q i
    proof -
      have "q \<noteq> unat r" using that k(3) by auto
      then show ?thesis
        using shared.apart [OF k(2), of "unat r" k q i] shared.apart [OF k(2), of q i "unat r" k] that pa(2) pin(1)
        by (cases "q < unat r") auto
    qed
    ultimately show ?thesis using al False pa(1) pin(2) keep [OF tm] by auto
  qed
qed

theorem aligned_alloc_free_roundtrip_witness:
  "\<exists>m p m'. heap_live m [0x20000040 \<mapsto> 112] \<and> aligned_alloc [True] m 4096 100 = Some (p, m') \<and>
     keeps m m' [0x20000040 \<mapsto> 112] \<and> (p = 0 \<or> 4096 dvd unat p)"
proof -
  obtain m where m: "heap_live m [0x20000040 \<mapsto> 112]" using live_after_malloc by blast
  from aligned_alloc_free_roundtrip [OF m, of "[True]" 100 12] obtain p m' where
    "aligned_alloc [True] m 4096 100 = Some (p, m')" "keeps m m' [0x20000040 \<mapsto> 112]" "p = 0 \<or> 4096 dvd unat p"
    by (auto split: if_splits)
  with m show ?thesis by blast
qed

end
