(* ===== verification/Checked.thy ===== *)
theory Checked
  imports Prelude
begin

text \<open>
  Computations that touch arrays. A step either delivers a value, returns one of the program's
  status codes (\<open>Fail\<close>), or makes an access outside its array (\<open>Wild\<close>), which the C code would
  perform silently. Every array access of a model in this style goes through \<open>fetch\<close> or \<open>store\<close>, so
  that memory safety is the statement that \<open>Wild\<close> is not a result. \<open>sbind\<close> is the early return on a
  status other than \<open>StatusOK\<close>.
\<close>

datatype failure = Fail Status | Wild

type_synonym 'a outcome = "failure + 'a"

definition sbind :: "'a outcome \<Rightarrow> ('a \<Rightarrow> 'b outcome) \<Rightarrow> 'b outcome" where
  "sbind m f = (case m of Inl e \<Rightarrow> Inl e | Inr x \<Rightarrow> f x)"

definition fetch :: "'a list \<Rightarrow> nat \<Rightarrow> 'a outcome" where
  "fetch xs i = (if i < length xs then Inr (xs ! i) else Inl Wild)"

definition store :: "'a list \<Rightarrow> nat \<Rightarrow> 'a \<Rightarrow> 'a list outcome" where
  "store xs i v = (if i < length xs then Inr (xs[i := v]) else Inl Wild)"

text \<open>
  \<open>delivers m P\<close>: if \<open>m\<close> delivers a value, it satisfies \<open>P\<close>; \<open>yields m P\<close>: besides, \<open>m\<close> makes no access
  outside its arrays.
\<close>

definition delivers :: "'a outcome \<Rightarrow> ('a \<Rightarrow> bool) \<Rightarrow> bool" where
  "delivers m P \<longleftrightarrow> (\<forall>x. m = Inr x \<longrightarrow> P x)"

definition yields :: "'a outcome \<Rightarrow> ('a \<Rightarrow> bool) \<Rightarrow> bool" where
  "yields m P \<longleftrightarrow> m \<noteq> Inl Wild \<and> delivers m P"

named_theorems delivers_rules \<open>what the steps deliver\<close>
named_theorems yields_rules \<open>what the steps deliver without leaving their arrays\<close>

section \<open>Rules\<close>

lemma sbind_cong [fundef_cong]:
  "m = m' \<Longrightarrow> (\<And>x. m' = Inr x \<Longrightarrow> f x = g x) \<Longrightarrow> sbind m f = sbind m' g"
  by (auto simp: sbind_def split: sum.split)

lemma sbind_simps [simp]: "sbind (Inl e) f = Inl e" "sbind (Inr x) f = f x"
  by (simp_all add: sbind_def)

lemma sbind_Inr_iff: "sbind m f = Inr y \<longleftrightarrow> (\<exists>x. m = Inr x \<and> f x = Inr y)"
  by (auto simp: sbind_def split: sum.split)

lemma sbind_Inl_iff: "sbind m f = Inl e \<longleftrightarrow> m = Inl e \<or> (\<exists>x. m = Inr x \<and> f x = Inl e)"
  by (auto simp: sbind_def split: sum.split)

lemma sbind_InrE:
  assumes "sbind m f = Inr y"
  obtains x where "m = Inr x" "f x = Inr y"
  using assms by (auto simp: sbind_Inr_iff)

lemma fetch_ok [simp]: "i < length xs \<Longrightarrow> fetch xs i = Inr (xs ! i)"
  by (simp add: fetch_def)

lemma fetch_InrD: "fetch xs i = Inr v \<Longrightarrow> i < length xs \<and> v = xs ! i"
  by (simp add: fetch_def split: if_splits)

lemma store_ok [simp]: "i < length xs \<Longrightarrow> store xs i v = Inr (xs[i := v])"
  by (simp add: store_def)

lemma store_InrD: "store xs i v = Inr ys \<Longrightarrow> i < length xs \<and> ys = xs[i := v]"
  by (simp add: store_def split: if_splits)

section \<open>Stepping through a computation\<close>

lemma delivers_simps [simp]: "delivers (Inl e) P" "delivers (Inr x) P \<longleftrightarrow> P x"
  by (simp_all add: delivers_def)

lemma deliversD: "delivers m P \<Longrightarrow> m = Inr x \<Longrightarrow> P x"
  by (simp add: delivers_def)

lemma delivers_mono: "delivers m Q \<Longrightarrow> (\<And>x. m = Inr x \<Longrightarrow> Q x \<Longrightarrow> P x) \<Longrightarrow> delivers m P"
  by (simp add: delivers_def)

lemma delivers_bind [delivers_rules]:
  "(\<And>x. m = Inr x \<Longrightarrow> delivers (f x) P) \<Longrightarrow> delivers (sbind m f) P"
  by (auto simp: delivers_def sbind_Inr_iff)

lemma delivers_if [delivers_rules]:
  "(c \<Longrightarrow> delivers m P) \<Longrightarrow> (\<not> c \<Longrightarrow> delivers n P) \<Longrightarrow> delivers (if c then m else n) P"
  by simp

lemma delivers_prod [delivers_rules]:
  "(\<And>a b. x = (a, b) \<Longrightarrow> delivers (f a b) P) \<Longrightarrow> delivers (case x of (a, b) \<Rightarrow> f a b) P"
  by (cases x) simp

lemma yields_simps [simp]: "yields (Inl (Fail e)) P" "\<not> yields (Inl Wild) P" "yields (Inr x) P \<longleftrightarrow> P x"
  by (simp_all add: yields_def)

lemma yieldsD: "yields m P \<Longrightarrow> m = Inr x \<Longrightarrow> P x"
  by (simp add: yields_def delivers_def)

lemma yields_safe: "yields m P \<Longrightarrow> m \<noteq> Inl Wild"
  by (simp add: yields_def)

lemma yields_mono: "yields m Q \<Longrightarrow> (\<And>x. m = Inr x \<Longrightarrow> Q x \<Longrightarrow> P x) \<Longrightarrow> yields m P"
  by (simp add: yields_def delivers_def)

lemma yields_bind [yields_rules]:
  "yields m Q \<Longrightarrow> (\<And>x. m = Inr x \<Longrightarrow> Q x \<Longrightarrow> yields (f x) P) \<Longrightarrow> yields (sbind m f) P"
  by (auto simp: yields_def delivers_def sbind_Inr_iff sbind_Inl_iff)

lemma yields_if [yields_rules]:
  "(c \<Longrightarrow> yields m P) \<Longrightarrow> (\<not> c \<Longrightarrow> yields n P) \<Longrightarrow> yields (if c then m else n) P"
  by simp

lemma yields_prod [yields_rules]:
  "(\<And>a b. x = (a, b) \<Longrightarrow> yields (f a b) P) \<Longrightarrow> yields (case x of (a, b) \<Rightarrow> f a b) P"
  by (cases x) simp

lemma yields_fetch: "i < length xs \<Longrightarrow> P (xs ! i) \<Longrightarrow> yields (fetch xs i) P"
  by simp

lemma yields_store: "i < length xs \<Longrightarrow> P (xs[i := v]) \<Longrightarrow> yields (store xs i v) P"
  by simp

end
