(* ===== verification/Png_Huffman.thy ===== *)
theory Png_Huffman
  imports Checked
begin

text \<open>
  The bit reader and the Huffman trees of the PNG decoder (\<^verbatim>\<open>src/applications/libs/png/png.c\<close>,
  \<open>png_bit_reader_init\<close> to \<open>png_build_dynamic_trees\<close>).

  A tree is the list of its initialised nodes, so \<open>node_count\<close> is its length and a reference to a
  node that was never initialised is \<open>Wild\<close>. Buffer sizes and offsets are natural numbers: they are
  bounded by the size of a buffer in memory. After an error the reader is not used again, so errors
  carry no reader.
\<close>

record PngBitReader =
  reader_data :: "u8 list"
  reader_size :: nat
  byte_offset :: nat
  bit_buffer :: u32
  bit_count :: nat

record PngHuffmanNode =
  left :: int
  right :: int
  symbol :: int

type_synonym PngHuffmanTree = "PngHuffmanNode list"

abbreviation PNG_MAX_HUFFMAN_NODES :: nat where
  "PNG_MAX_HUFFMAN_NODES \<equiv> 2048"

section \<open>The bit reader\<close>

definition png_bit_reader_init :: "u8 list \<Rightarrow> nat \<Rightarrow> PngBitReader" where
  "png_bit_reader_init data n =
     \<lparr>reader_data = data, reader_size = n, byte_offset = 0, bit_buffer = 0, bit_count = 0\<rparr>"

function png_bit_reader_ensure_bits :: "PngBitReader \<Rightarrow> nat \<Rightarrow> PngBitReader outcome" where
  "png_bit_reader_ensure_bits reader bits =
     (if bit_count reader < bits then
        if reader_size reader \<le> byte_offset reader then Inl (Fail StatusFault)
        else sbind (fetch (reader_data reader) (byte_offset reader)) (\<lambda>b.
          png_bit_reader_ensure_bits
            (reader\<lparr>bit_buffer := bit_buffer reader OR push_bit (bit_count reader) (ucast b),
                    bit_count := bit_count reader + 8,
                    byte_offset := byte_offset reader + 1\<rparr>) bits)
      else Inr reader)"
  by pat_completeness auto
termination
  by (relation "measure (\<lambda>(reader, bits). bits - bit_count reader)") auto

declare png_bit_reader_ensure_bits.simps [simp del]

definition png_bit_reader_read_bits :: "PngBitReader \<Rightarrow> nat \<Rightarrow> (u32 \<times> PngBitReader) outcome" where
  "png_bit_reader_read_bits reader bits =
     (if bits = 0 then Inr (0, reader)
      else sbind (png_bit_reader_ensure_bits reader bits) (\<lambda>reader.
        Inr (bit_buffer reader AND (push_bit bits 1 - 1),
             reader\<lparr>bit_buffer := drop_bit bits (bit_buffer reader), bit_count := bit_count reader - bits\<rparr>)))"

definition png_bit_reader_align_byte :: "PngBitReader \<Rightarrow> PngBitReader" where
  "png_bit_reader_align_byte reader = reader\<lparr>bit_buffer := 0, bit_count := 0\<rparr>"

text \<open>The bits that are left; every read consumes exactly what it delivers.\<close>

definition remaining :: "PngBitReader \<Rightarrow> nat" where
  "remaining reader = 8 * (reader_size reader - byte_offset reader) + bit_count reader"

lemma ensure_remaining:
  "png_bit_reader_ensure_bits reader bits = Inr reader' \<Longrightarrow>
     remaining reader' = remaining reader \<and> bits \<le> bit_count reader'"
proof (induction reader bits rule: png_bit_reader_ensure_bits.induct)
  case (1 reader bits)
  from 1(2) [unfolded png_bit_reader_ensure_bits.simps [of reader bits]] 1(1) show ?case
    by (auto simp: remaining_def sbind_Inr_iff split: if_splits)
qed

lemma read_bits_remaining:
  "png_bit_reader_read_bits reader bits = Inr (v, reader') \<Longrightarrow> remaining reader' + bits = remaining reader"
  using ensure_remaining [of reader bits]
  by (auto simp: png_bit_reader_read_bits_def sbind_Inr_iff remaining_def split: if_splits)

section \<open>Trees\<close>

definition blank_node :: PngHuffmanNode where
  "blank_node = \<lparr>left = -1, right = -1, symbol = -1\<rparr>"

definition png_huffman_reset :: PngHuffmanTree where
  "png_huffman_reset = [blank_node]"

definition node_at :: "PngHuffmanTree \<Rightarrow> int \<Rightarrow> PngHuffmanNode outcome" where
  "node_at tree i = (if i < 0 then Inl Wild else fetch tree (nat i))"

text \<open>The child in the direction of a bit, added when it does not exist.\<close>

definition child_node :: "PngHuffmanTree \<Rightarrow> int \<Rightarrow> bool \<Rightarrow> (int \<times> PngHuffmanTree) outcome" where
  "child_node tree i to_right =
     sbind (node_at tree i) (\<lambda>node.
       let child = (if to_right then right node else left node)
       in if child < 0 then
            if PNG_MAX_HUFFMAN_NODES \<le> length tree then Inl (Fail StatusNoMemory)
            else
              (let next_index = int (length tree);
                   node = (if to_right then node\<lparr>right := next_index\<rparr> else node\<lparr>left := next_index\<rparr>)
               in sbind (store tree (nat i) node) (\<lambda>tree. Inr (next_index, tree @ [blank_node])))
          else Inr (child, tree))"

function png_insert_loop :: "PngHuffmanTree \<Rightarrow> u32 \<Rightarrow> nat \<Rightarrow> int \<Rightarrow> int \<Rightarrow> nat \<Rightarrow> PngHuffmanTree outcome" where
  "png_insert_loop tree code len code_symbol node_index bit_index =
     (if bit_index < len then
        sbind (child_node tree node_index (drop_bit bit_index code AND 1 \<noteq> 0)) (\<lambda>(child, tree).
          if bit_index = len - 1 then
            sbind (node_at tree child) (\<lambda>node. store tree (nat child) (node\<lparr>symbol := code_symbol\<rparr>))
          else png_insert_loop tree code len code_symbol child (bit_index + 1))
      else Inr tree)"
  by pat_completeness auto
termination
  by (relation "measure (\<lambda>(tree, code, len, code_symbol, node_index, bit_index). len - bit_index)") auto

declare png_insert_loop.simps [simp del]

definition png_huffman_insert :: "PngHuffmanTree \<Rightarrow> u32 \<Rightarrow> nat \<Rightarrow> int \<Rightarrow> PngHuffmanTree outcome" where
  "png_huffman_insert tree code len code_symbol =
     (if len = 0 then Inl (Fail StatusInvalidArgument) else png_insert_loop tree code len code_symbol 0 0)"

definition png_reverse_bits :: "u32 \<Rightarrow> nat \<Rightarrow> u32" where
  "png_reverse_bits code len = foldl (\<lambda>reversed bit_index. push_bit 1 reversed OR (drop_bit bit_index code AND 1)) 0 [0..<len]"

section \<open>Canonical codes\<close>

fun png_count_lengths :: "u8 list \<Rightarrow> u32 list \<Rightarrow> bool \<Rightarrow> (u32 list \<times> bool) outcome" where
  "png_count_lengths [] counts saw = Inr (counts, saw)"
| "png_count_lengths (l # ls) counts saw =
     (if 15 < l then Inl (Fail StatusNotSupported)
      else if l \<noteq> 0 then
        sbind (fetch counts (unat l)) (\<lambda>n.
          sbind (store counts (unat l) (n + 1)) (\<lambda>counts. png_count_lengths ls counts True))
      else png_count_lengths ls counts saw)"

function png_first_codes :: "u32 list \<Rightarrow> nat \<Rightarrow> u32 \<Rightarrow> u32 list \<Rightarrow> u32 list outcome" where
  "png_first_codes counts len code next_code =
     (if len \<le> 15 then
        sbind (fetch counts (len - 1)) (\<lambda>n.
          let code = push_bit 1 (code + n)
          in sbind (store next_code len code) (\<lambda>next_code. png_first_codes counts (len + 1) code next_code))
      else Inr next_code)"
  by pat_completeness auto
termination
  by (relation "measure (\<lambda>(counts, len, code, next_code). 16 - len)") auto

declare png_first_codes.simps [simp del]

fun png_insert_codes :: "u8 list \<Rightarrow> int \<Rightarrow> u32 list \<Rightarrow> PngHuffmanTree \<Rightarrow> PngHuffmanTree outcome" where
  "png_insert_codes [] code_symbol next_code tree = Inr tree"
| "png_insert_codes (l # ls) code_symbol next_code tree =
     (if l \<noteq> 0 then
        sbind (fetch next_code (unat l)) (\<lambda>c.
          sbind (png_huffman_insert tree (png_reverse_bits c (unat l)) (unat l) code_symbol) (\<lambda>tree.
            sbind (store next_code (unat l) (c + 1)) (\<lambda>next_code.
              png_insert_codes ls (code_symbol + 1) next_code tree)))
      else png_insert_codes ls (code_symbol + 1) next_code tree)"

text \<open>The code-length table is the list of its \<open>symbol_count\<close> entries.\<close>

definition png_huffman_build :: "u8 list \<Rightarrow> PngHuffmanTree outcome" where
  "png_huffman_build lengths =
     (if lengths = [] then Inl (Fail StatusInvalidArgument)
      else
        sbind (png_count_lengths lengths (replicate 16 0) False) (\<lambda>(counts, saw_symbol).
          if \<not> saw_symbol then Inl (Fail StatusNotSupported)
          else sbind (png_first_codes counts 1 0 (replicate 16 0)) (\<lambda>next_code.
            png_insert_codes lengths 0 next_code png_huffman_reset)))"

section \<open>Decoding\<close>

function png_decode_loop :: "PngBitReader \<Rightarrow> PngHuffmanTree \<Rightarrow> int \<Rightarrow> (int \<times> PngBitReader) outcome" where
  "png_decode_loop reader tree node_index =
     (if node_index < 0 \<or> int (length tree) \<le> node_index then Inl (Fail StatusFault)
      else sbind (node_at tree node_index) (\<lambda>node.
        if 0 \<le> symbol node then Inr (symbol node, reader)
        else sbind (png_bit_reader_read_bits reader 1) (\<lambda>(b, reader).
          png_decode_loop reader tree (if b \<noteq> 0 then right node else left node))))"
  by pat_completeness auto
termination
  by (relation "measure (\<lambda>(reader, tree, node_index). remaining reader)") (auto dest: read_bits_remaining)

declare png_decode_loop.simps [simp del]

definition png_huffman_decode_symbol :: "PngBitReader \<Rightarrow> PngHuffmanTree \<Rightarrow> (int \<times> PngBitReader) outcome" where
  "png_huffman_decode_symbol reader tree = png_decode_loop reader tree 0"

section \<open>The trees of a block\<close>

definition fixed_literal_lengths :: "u8 list" where
  "fixed_literal_lengths =
     map (\<lambda>code_symbol :: nat. if code_symbol \<le> 143 then 8 else if code_symbol \<le> 255 then 9 else if code_symbol \<le> 279 then 7 else 8) [0..<288]"

definition png_build_fixed_trees :: "(PngHuffmanTree \<times> PngHuffmanTree) outcome" where
  "png_build_fixed_trees =
     (case png_huffman_build fixed_literal_lengths of
        Inl Wild \<Rightarrow> Inl Wild
      | Inl (Fail _) \<Rightarrow> Inl (Fail StatusFault)
      | Inr literal_tree \<Rightarrow>
          (case png_huffman_build (replicate 32 5) of
             Inl Wild \<Rightarrow> Inl Wild
           | Inl (Fail _) \<Rightarrow> Inl (Fail StatusFault)
           | Inr distance_tree \<Rightarrow> Inr (literal_tree, distance_tree)))"

type_synonym length_tables = "u8 list \<times> u8 list"

definition png_store_dynamic_length :: "length_tables \<Rightarrow> nat \<Rightarrow> nat \<Rightarrow> nat \<Rightarrow> u8 \<Rightarrow> length_tables outcome" where
  "png_store_dynamic_length tables hlit hdist index v =
     (case tables of (literal_lengths, distance_lengths) \<Rightarrow>
        if index < hlit then sbind (store literal_lengths index v) (\<lambda>ls. Inr (ls, distance_lengths))
        else if index - hlit < hdist then sbind (store distance_lengths (index - hlit) v) (\<lambda>ds. Inr (literal_lengths, ds))
        else Inl (Fail StatusFault))"

definition kCodeLengthOrder :: "nat list" where
  "kCodeLengthOrder = [16, 17, 18, 0, 8, 7, 9, 6, 10, 5, 11, 4, 12, 3, 13, 2, 14, 1, 15]"

function png_read_code_lengths :: "PngBitReader \<Rightarrow> nat \<Rightarrow> nat \<Rightarrow> u8 list \<Rightarrow> (u8 list \<times> PngBitReader) outcome" where
  "png_read_code_lengths reader hclen index lengths =
     (if index < hclen then
        sbind (png_bit_reader_read_bits reader 3) (\<lambda>(extra_bits, reader).
          sbind (fetch kCodeLengthOrder index) (\<lambda>slot.
            sbind (store lengths slot (ucast extra_bits)) (\<lambda>lengths.
              png_read_code_lengths reader hclen (index + 1) lengths)))
      else Inr (lengths, reader))"
  by pat_completeness auto
termination
  by (relation "measure (\<lambda>(reader, hclen, index, lengths). hclen - index)") auto

declare png_read_code_lengths.simps [simp del]

fun png_repeat_length :: "nat \<Rightarrow> length_tables \<Rightarrow> nat \<Rightarrow> nat \<Rightarrow> nat \<Rightarrow> u8 \<Rightarrow> (length_tables \<times> nat) outcome" where
  "png_repeat_length 0 tables hlit hdist index v = Inr (tables, index)"
| "png_repeat_length (Suc repeat_count) tables hlit hdist index v =
     sbind (png_store_dynamic_length tables hlit hdist index v) (\<lambda>tables.
       if hlit + hdist < index + 1 then Inl (Fail StatusFault)
       else png_repeat_length repeat_count tables hlit hdist (index + 1) v)"

lemma repeat_index:
  "png_repeat_length n tables hlit hdist index v = Inr (tables', index') \<Longrightarrow> index' = index + n"
  by (induction n tables hlit hdist index v rule: png_repeat_length.induct) (auto simp: sbind_Inr_iff split: if_splits)

text \<open>One turn of the loop over the code lengths: reader, index, value to repeat and tables.\<close>

type_synonym length_state = "PngBitReader \<times> nat \<times> u8 \<times> length_tables"

definition png_read_repeat :: "nat \<Rightarrow> nat \<Rightarrow> nat \<Rightarrow> nat \<Rightarrow> length_state \<Rightarrow> length_state outcome" where
  "png_read_repeat bits base hlit hdist state =
     (case state of (reader, index, repeat_value, tables) \<Rightarrow>
        sbind (png_bit_reader_read_bits reader bits) (\<lambda>(extra_bits, reader).
          sbind (png_repeat_length (base + unat extra_bits) tables hlit hdist index repeat_value) (\<lambda>(tables, index).
            Inr (reader, index, repeat_value, tables))))"

definition png_length_step :: "PngHuffmanTree \<Rightarrow> nat \<Rightarrow> nat \<Rightarrow> length_state \<Rightarrow> length_state outcome" where
  "png_length_step tree hlit hdist state =
     (case state of (reader, index, repeat_value, tables) \<Rightarrow>
        sbind (png_huffman_decode_symbol reader tree) (\<lambda>(decoded_symbol, reader).
          if 0 \<le> decoded_symbol \<and> decoded_symbol \<le> 15 then
            (let repeat_value = word_of_int decoded_symbol
             in sbind (png_store_dynamic_length tables hlit hdist index repeat_value) (\<lambda>tables.
                  Inr (reader, index + 1, repeat_value, tables)))
          else if decoded_symbol = 16 then
            if index = 0 then Inl (Fail StatusFault)
            else png_read_repeat 2 3 hlit hdist (reader, index, repeat_value, tables)
          else if decoded_symbol = 17 then png_read_repeat 3 3 hlit hdist (reader, index, 0, tables)
          else if decoded_symbol = 18 then png_read_repeat 7 11 hlit hdist (reader, index, 0, tables)
          else Inl (Fail StatusNotSupported)))"

lemma read_repeat_index:
  "png_read_repeat bits base hlit hdist (r, i, v, t) = Inr (r', i', v', t') \<Longrightarrow> i + base \<le> i'"
  by (auto simp: png_read_repeat_def sbind_Inr_iff dest!: repeat_index)

lemma length_step_index:
  "png_length_step tree hlit hdist (r, i, v, t) = Inr (r', i', v', t') \<Longrightarrow> i < i'"
  by (auto simp: png_length_step_def sbind_Inr_iff Let_def split: if_splits dest!: read_repeat_index)

function png_read_lengths :: "PngHuffmanTree \<Rightarrow> nat \<Rightarrow> nat \<Rightarrow> length_state \<Rightarrow> (length_tables \<times> PngBitReader) outcome" where
  "png_read_lengths tree hlit hdist (reader, index, repeat_value, tables) =
     (if index < hlit + hdist then
        sbind (png_length_step tree hlit hdist (reader, index, repeat_value, tables)) (png_read_lengths tree hlit hdist)
      else Inr (tables, reader))"
  by pat_completeness auto
termination
  by (relation "measure (\<lambda>(tree, hlit, hdist, (reader, index, repeat_value, tables)). hlit + hdist - index)")
    (auto dest!: length_step_index)

declare png_read_lengths.simps [simp del]

definition png_build_dynamic_trees :: "PngBitReader \<Rightarrow> (PngHuffmanTree \<times> PngHuffmanTree \<times> PngBitReader) outcome" where
  "png_build_dynamic_trees reader =
     sbind (png_bit_reader_read_bits reader 5) (\<lambda>(hlit, reader).
     sbind (png_bit_reader_read_bits reader 5) (\<lambda>(hdist, reader).
     sbind (png_bit_reader_read_bits reader 4) (\<lambda>(hclen, reader).
       let hlit = unat (hlit + 257); hdist = unat (hdist + 1); hclen = unat (hclen + 4)
       in if 288 < hlit \<or> 32 < hdist then Inl (Fail StatusNotSupported)
          else
            sbind (png_read_code_lengths reader hclen 0 (replicate 19 0)) (\<lambda>(code_length_lengths, reader).
            sbind (png_huffman_build code_length_lengths) (\<lambda>code_length_tree.
            sbind (png_read_lengths code_length_tree hlit hdist (reader, 0, 0, (replicate 288 0, replicate 32 0)))
              (\<lambda>((literal_lengths, distance_lengths), reader).
            sbind (png_huffman_build literal_lengths) (\<lambda>literal_tree.
            sbind (png_huffman_build distance_lengths) (\<lambda>distance_tree.
              Inr (literal_tree, distance_tree, reader)))))))))"

section \<open>Array safety\<close>

text \<open>A reader whose window lies inside its data.\<close>

definition window_ok :: "PngBitReader \<Rightarrow> bool" where
  "window_ok reader \<longleftrightarrow> reader_size reader \<le> length (reader_data reader) \<and> byte_offset reader \<le> reader_size reader"

text \<open>The reader after reading: same data, further on.\<close>

definition same_source :: "PngBitReader \<Rightarrow> PngBitReader \<Rightarrow> bool" where
  "same_source reader r \<longleftrightarrow> window_ok r \<and> reader_data r = reader_data reader \<and> reader_size r = reader_size reader"

lemma same_source_trans [trans]: "same_source a b \<Longrightarrow> same_source b c \<Longrightarrow> same_source a c"
  by (simp add: same_source_def)

lemma same_source_window: "same_source a b \<Longrightarrow> window_ok b"
  by (simp add: same_source_def)

lemma ensure_yields: "window_ok reader \<Longrightarrow> yields (png_bit_reader_ensure_bits reader bits) (same_source reader)"
proof (induction reader bits rule: png_bit_reader_ensure_bits.induct)
  case (1 reader bits)
  show ?case
  proof (cases "bit_count reader < bits \<and> byte_offset reader < reader_size reader")
    case True
    let ?b = "reader_data reader ! byte_offset reader"
    let ?r = "reader\<lparr>bit_buffer := bit_buffer reader OR push_bit (bit_count reader) (ucast ?b),
        bit_count := bit_count reader + 8, byte_offset := byte_offset reader + 1\<rparr>"
    have f: "fetch (reader_data reader) (byte_offset reader) = Inr ?b" using True 1(2) by (simp add: window_ok_def)
    have w: "window_ok ?r" using True 1(2) by (simp add: window_ok_def)
    have "yields (png_bit_reader_ensure_bits ?r bits) (same_source ?r)" using 1(1) [OF _ _ f w] True by simp
    then have "yields (png_bit_reader_ensure_bits ?r bits) (same_source reader)"
      by (rule yields_mono) (simp add: same_source_def)
    with True f show ?thesis by (simp add: png_bit_reader_ensure_bits.simps [of reader bits] del: One_nat_def add_Suc_right)
  next
    case False
    with 1(2) show ?thesis by (auto simp: png_bit_reader_ensure_bits.simps [of reader bits] same_source_def)
  qed
qed

lemma read_bits_yields:
  "window_ok reader \<Longrightarrow> yields (png_bit_reader_read_bits reader bits) (\<lambda>(v, r). same_source reader r)"
  unfolding png_bit_reader_read_bits_def
  by (auto intro!: yields_if yields_bind [OF ensure_yields] simp: same_source_def window_ok_def)

text \<open>Every child reference of a tree is negative or one of its nodes.\<close>

definition tree_ok :: "PngHuffmanTree \<Rightarrow> bool" where
  "tree_ok tree \<longleftrightarrow> tree \<noteq> [] \<and> length tree \<le> PNG_MAX_HUFFMAN_NODES \<and>
     (\<forall>node \<in> set tree. left node < int (length tree) \<and> right node < int (length tree))"

definition node_ok :: "PngHuffmanTree \<Rightarrow> int \<Rightarrow> bool" where
  "node_ok tree i \<longleftrightarrow> 0 \<le> i \<and> i < int (length tree)"

lemma node_at_ok: "node_ok tree i \<Longrightarrow> node_at tree i = Inr (tree ! nat i)"
  by (simp add: node_ok_def node_at_def nat_less_iff)

lemma child_node_yields:
  assumes "tree_ok tree" and "node_ok tree i"
  shows "yields (child_node tree i to_right) (\<lambda>(child, tree'). tree_ok tree' \<and> node_ok tree' child)"
proof -
  let ?node = "tree ! nat i" and ?n = "int (length tree)"
  have i: "nat i < length tree" using assms(2) by (simp add: node_ok_def nat_less_iff)
  then have mem: "?node \<in> set tree" by simp
  have upd: "tree_ok (tree[nat i := node'] @ [blank_node])"
    if "left node' \<le> ?n" "right node' \<le> ?n" "length tree < PNG_MAX_HUFFMAN_NODES" for node'
    using that assms(1) set_update_subset_insert [of tree "nat i" node']
    by (fastforce simp: tree_ok_def blank_node_def)
  have old: "left ?node < ?n" "right ?node < ?n" using assms(1) mem by (simp_all add: tree_ok_def)
  have new: "tree_ok (tree[nat i := ?node\<lparr>right := ?n\<rparr>] @ [blank_node])"
    "tree_ok (tree[nat i := ?node\<lparr>left := ?n\<rparr>] @ [blank_node])" if "length tree < PNG_MAX_HUFFMAN_NODES"
    using upd [of "?node\<lparr>right := ?n\<rparr>"] upd [of "?node\<lparr>left := ?n\<rparr>"] old that by simp_all
  show ?thesis
    using assms i old new by (auto simp: child_node_def node_at_ok Let_def node_ok_def)
qed

lemma store_symbol_yields:
  assumes "tree_ok tree" and "node_ok tree i"
  shows "yields (sbind (node_at tree i) (\<lambda>node. store tree (nat i) (node\<lparr>symbol := s\<rparr>))) tree_ok"
proof -
  have i: "nat i < length tree" using assms(2) by (simp add: node_ok_def nat_less_iff)
  have "tree_ok (tree[nat i := (tree ! nat i)\<lparr>symbol := s\<rparr>])"
    using assms(1) i set_update_subset_insert [of tree "nat i" "(tree ! nat i)\<lparr>symbol := s\<rparr>"]
    by (fastforce simp: tree_ok_def)
  with i show ?thesis by (simp add: node_at_ok [OF assms(2)])
qed

lemma insert_loop_yields:
  "tree_ok tree \<Longrightarrow> node_ok tree i \<Longrightarrow> yields (png_insert_loop tree code len s i k) tree_ok"
proof (induction "len - k" arbitrary: tree i k rule: less_induct)
  case less
  show ?case
  proof (cases "k < len")
    case True
    show ?thesis
      by (subst png_insert_loop.simps)
        (use True in \<open>auto intro!: yields_prod yields_if yields_bind [OF child_node_yields [OF less(2,3)]] less(1) store_symbol_yields
          simp del: One_nat_def\<close>)
  next
    case False
    with less(2) show ?thesis by (subst png_insert_loop.simps) simp
  qed
qed

lemma insert_yields: "tree_ok tree \<Longrightarrow> yields (png_huffman_insert tree code len s) tree_ok"
  by (auto simp: png_huffman_insert_def tree_ok_def node_ok_def intro!: insert_loop_yields)

lemma count_lengths_yields:
  "length counts = 16 \<Longrightarrow>
   yields (png_count_lengths ls counts saw) (\<lambda>(counts', saw'). length counts' = 16 \<and> (\<forall>l \<in> set ls. l \<le> 15))"
proof (induction ls counts saw rule: png_count_lengths.induct)
  case (2 l ls counts saw)
  show ?case
  proof (cases "15 < l")
    case False
    then have l: "l \<le> 15" "unat l < 16" by (auto simp: word_le_nat_alt word_less_nat_alt)
    have "yields (png_count_lengths ls c s) (\<lambda>(counts', saw'). length counts' = 16 \<and> (\<forall>l \<in> set (l # ls). l \<le> 15))"
      if "yields (png_count_lengths ls c s) (\<lambda>(counts', saw'). length counts' = 16 \<and> (\<forall>l \<in> set ls. l \<le> 15))" for c s
      using yields_mono [OF that] l by force
    then show ?thesis using 2 l by simp
  qed simp
qed simp

lemma first_codes_yields:
  "length counts = 16 \<Longrightarrow> length nc = 16 \<Longrightarrow> yields (png_first_codes counts len code nc) (\<lambda>nc'. length nc' = 16)"
proof (induction counts len code nc rule: png_first_codes.induct)
  case (1 counts len code nc)
  then show ?case
    by (subst png_first_codes.simps) (auto simp: Let_def)
qed

lemma insert_codes_yields:
  "length nc = 16 \<Longrightarrow> tree_ok tree \<Longrightarrow> \<forall>l \<in> set ls. l \<le> 15 \<Longrightarrow> yields (png_insert_codes ls s nc tree) tree_ok"
proof (induction ls s nc tree rule: png_insert_codes.induct)
  case (2 l ls s nc tree)
  then have "unat l < 16" by (simp add: word_le_nat_alt)
  with 2 show ?case by (auto intro!: yields_bind [OF insert_yields])
qed simp

lemma huffman_build_yields: "yields (png_huffman_build lengths) tree_ok"
proof -
  have "tree_ok png_huffman_reset" by (simp add: tree_ok_def png_huffman_reset_def blank_node_def)
  then show ?thesis
    unfolding png_huffman_build_def
    by (auto intro!: yields_if yields_prod yields_bind [OF count_lengths_yields] yields_bind [OF first_codes_yields]
        insert_codes_yields)
qed

lemma decode_loop_yields:
  "window_ok reader \<Longrightarrow> yields (png_decode_loop reader tree i) (\<lambda>(s, r). 0 \<le> s \<and> same_source reader r)"
proof (induction reader tree i rule: png_decode_loop.induct)
  case (1 reader tree i)
  let ?P = "\<lambda>(s, r). 0 \<le> s \<and> same_source reader r"
  show ?case
  proof (cases "node_ok tree i \<and> symbol (tree ! nat i) < 0")
    case True
    then have n: "\<not> (i < 0 \<or> int (length tree) \<le> i)" "node_at tree i = Inr (tree ! nat i)" "\<not> 0 \<le> symbol (tree ! nat i)"
      by (auto simp: node_ok_def node_at_ok)
    have "yields (png_decode_loop r tree (if b \<noteq> 0 then right (tree ! nat i) else left (tree ! nat i))) ?P"
      if "png_bit_reader_read_bits reader 1 = Inr (b, r)" "same_source reader r" for b r
      using 1(1) [OF n that(1) refl same_source_window [OF that(2)]]
      by (rule yields_mono) (use that(2) in \<open>auto intro: same_source_trans\<close>)
    then have "yields (sbind (png_bit_reader_read_bits reader 1) (\<lambda>(b, r).
        png_decode_loop r tree (if b \<noteq> 0 then right (tree ! nat i) else left (tree ! nat i)))) ?P"
      by (intro yields_bind [OF read_bits_yields [OF 1(2)]] yields_prod) simp
    then show ?thesis
      by (subst png_decode_loop.simps) (simp only: n if_False sbind_simps)
  next
    case False
    then show ?thesis using 1(2)
      by (subst png_decode_loop.simps) (auto simp: node_ok_def node_at_def nat_less_iff same_source_def)
  qed
qed

lemma decode_symbol_yields:
  "window_ok reader \<Longrightarrow> yields (png_huffman_decode_symbol reader tree) (\<lambda>(s, r). 0 \<le> s \<and> same_source reader r)"
  unfolding png_huffman_decode_symbol_def by (rule decode_loop_yields)

lemma fixed_trees_yields: "yields png_build_fixed_trees (\<lambda>_. True)"
  using huffman_build_yields [of fixed_literal_lengths] huffman_build_yields [of "replicate 32 5"]
  by (auto simp: png_build_fixed_trees_def split: sum.split failure.split)

text \<open>The two tables of a dynamic block keep their sizes.\<close>

definition tables_ok :: "length_tables \<Rightarrow> bool" where
  "tables_ok tables \<longleftrightarrow> length (fst tables) = 288 \<and> length (snd tables) = 32"

lemma store_length_yields:
  "tables_ok t \<Longrightarrow> hlit \<le> 288 \<Longrightarrow> hdist \<le> 32 \<Longrightarrow> yields (png_store_dynamic_length t hlit hdist i v) tables_ok"
  by (cases t) (simp add: png_store_dynamic_length_def tables_ok_def)

lemma repeat_length_yields:
  "tables_ok t \<Longrightarrow> hlit \<le> 288 \<Longrightarrow> hdist \<le> 32 \<Longrightarrow>
   yields (png_repeat_length n t hlit hdist i v) (\<lambda>(t', i'). tables_ok t')"
  by (induction n arbitrary: t i) (auto intro!: yields_bind [OF store_length_yields])

definition lengths_ok :: "PngBitReader \<Rightarrow> length_state \<Rightarrow> bool" where
  "lengths_ok reader st \<longleftrightarrow> (case st of (r, i, v, t) \<Rightarrow> same_source reader r \<and> tables_ok t)"

lemma read_repeat_yields:
  assumes "same_source reader r" "tables_ok t" "hlit \<le> 288" "hdist \<le> 32"
  shows "yields (png_read_repeat bits base hlit hdist (r, i, v, t)) (lengths_ok reader)"
  unfolding png_read_repeat_def using assms
  by (auto intro!: yields_prod yields_bind [OF read_bits_yields [OF same_source_window [OF assms(1)]]]
      yields_bind [OF repeat_length_yields] intro: same_source_trans simp: lengths_ok_def)

lemma length_step_yields:
  assumes "window_ok reader" "tables_ok t" "hlit \<le> 288" "hdist \<le> 32"
  shows "yields (png_length_step tree hlit hdist (reader, i, v, t)) (lengths_ok reader)"
  unfolding png_length_step_def using assms
  by (auto simp: Let_def intro!: yields_prod yields_if yields_bind [OF decode_symbol_yields]
      yields_bind [OF store_length_yields] read_repeat_yields) (simp_all add: lengths_ok_def)

lemma read_lengths_yields:
  "window_ok reader \<Longrightarrow> tables_ok t \<Longrightarrow> hlit \<le> 288 \<Longrightarrow> hdist \<le> 32 \<Longrightarrow>
   yields (png_read_lengths tree hlit hdist (reader, i, v, t)) (\<lambda>(t', r). same_source reader r \<and> tables_ok t')"
proof (induction "hlit + hdist - i" arbitrary: reader i v t rule: less_induct)
  case less
  have "yields (png_read_lengths tree hlit hdist x) (\<lambda>(t', r). same_source reader r \<and> tables_ok t')"
    if "i < hlit + hdist" "png_length_step tree hlit hdist (reader, i, v, t) = Inr x" "lengths_ok reader x" for x
  proof -
    obtain r i' v' t' where x: "x = (r, i', v', t')" by (metis surj_pair)
    have "i < i'" using that(2) x length_step_index by blast
    then have "hlit + hdist - i' < hlit + hdist - i" using that(1) by (rule diff_less_mono2)
    moreover have ok: "same_source reader r" "tables_ok t'" using that(3) x by (simp_all add: lengths_ok_def)
    ultimately have "yields (png_read_lengths tree hlit hdist x) (\<lambda>(t', q). same_source r q \<and> tables_ok t')"
      using less(1) [of i' r t' v'] less(4,5) x by (auto intro: same_source_window)
    then show ?thesis by (rule yields_mono) (use ok in \<open>auto intro: same_source_trans\<close>)
  qed
  then show ?case
    by (subst png_read_lengths.simps)
      (use less in \<open>auto simp: same_source_def intro!: yields_if yields_bind [OF length_step_yields]\<close>)
qed

lemma read_code_lengths_yields:
  "window_ok reader \<Longrightarrow> hclen \<le> 19 \<Longrightarrow> length ls = 19 \<Longrightarrow>
   yields (png_read_code_lengths reader hclen i ls) (\<lambda>(ls', r). same_source reader r)"
proof (induction "hclen - i" arbitrary: reader i ls rule: less_induct)
  case less
  show ?case
  proof (cases "i < hclen")
    case True
    then have i: "i < length kCodeLengthOrder" using less(3) by (simp add: kCodeLengthOrder_def)
    have "kCodeLengthOrder ! i < 19"
      using nth_mem [OF i] by (simp add: kCodeLengthOrder_def) linarith
    moreover have "yields (png_read_code_lengths r hclen (i + 1) ls') (\<lambda>(ls', q). same_source reader q)"
      if "same_source reader r" "length ls' = 19" for r ls'
    proof -
      have "hclen - (i + 1) < hclen - i" using True by (intro diff_less_mono2) simp_all
      from less(1) [OF this same_source_window [OF that(1)] less(3) that(2)] show ?thesis
        by (rule yields_mono) (use that(1) in \<open>auto intro: same_source_trans\<close>)
    qed
    ultimately show ?thesis using True i less(4)
      by (subst png_read_code_lengths.simps)
        (auto intro!: yields_prod yields_bind [OF read_bits_yields [OF less(2)]] simp del: One_nat_def add_Suc_right)
  next
    case False
    then show ?thesis using less(2) by (subst png_read_code_lengths.simps) (simp add: same_source_def)
  qed
qed

lemma read_bits_value: "bits \<noteq> 0 \<Longrightarrow> png_bit_reader_read_bits reader bits = Inr (v, r) \<Longrightarrow>
    \<exists>q. png_bit_reader_ensure_bits reader bits = Inr q \<and> v = take_bit bits (bit_buffer q)"
  by (auto simp: png_bit_reader_read_bits_def sbind_Inr_iff take_bit_eq_mask mask_eq_exp_minus_1 push_bit_of_1)

lemma read_bits_less:
  assumes "png_bit_reader_read_bits reader bits = Inr (v, r)"
  shows "unat v < 2 ^ bits"
proof (cases "bits = 0")
  case True
  with assms show ?thesis by (simp add: png_bit_reader_read_bits_def)
next
  case False
  from read_bits_value [OF this assms] obtain q :: PngBitReader where "v = take_bit bits (bit_buffer q)" by blast
  then have "unat v = take_bit bits (unat (bit_buffer q))" by (simp add: unsigned_take_bit_eq)
  then show ?thesis by simp
qed

lemma dynamic_trees_yields:
  assumes "window_ok reader"
  shows "yields (png_build_dynamic_trees reader) (\<lambda>(lt, dt, r). same_source reader r)"
proof -
  have rest: "yields (let hlit = unat (hl + 257); hdist = unat (hd + 1); hclen = unat (hc + 4)
       in if 288 < hlit \<or> 32 < hdist then Inl (Fail StatusNotSupported)
          else sbind (png_read_code_lengths r hclen 0 (replicate 19 0)) (\<lambda>(cl, r).
            sbind (png_huffman_build cl) (\<lambda>ct.
            sbind (png_read_lengths ct hlit hdist (r, 0, 0, (replicate 288 0, replicate 32 0))) (\<lambda>((ll, dl), r).
            sbind (png_huffman_build ll) (\<lambda>lt. sbind (png_huffman_build dl) (\<lambda>dt. Inr (lt, dt, r)))))))
      (\<lambda>(lt, dt, q). same_source reader q)"
    if "same_source reader r" "unat (hc :: u32) < 16" for hl hd hc :: u32 and r
  proof -
    have hc: "unat (hc + 4) \<le> 19" using that(2) by (simp add: unat_word_ariths)
    have w: "window_ok r" using that(1) by (rule same_source_window)
    show ?thesis unfolding Let_def
      by (auto simp: tables_ok_def intro!: yields_if yields_prod yields_bind [OF read_code_lengths_yields [OF w hc]]
          yields_bind [OF huffman_build_yields] yields_bind [OF read_lengths_yields]
          intro: same_source_window same_source_trans [OF that(1) same_source_trans])
  qed
  show ?thesis
    unfolding png_build_dynamic_trees_def
    apply (intro yields_prod yields_bind [OF read_bits_yields] rest)
    using assms by (auto intro: same_source_window same_source_trans dest: read_bits_less)
qed

end
