(* ===== verification/Png_Inflate.thy ===== *)
theory Png_Inflate
  imports Png_Huffman
begin

text \<open>
  Inflation of the zlib stream of a PNG file (\<open>png_inflate_zlib\<close> of
  \<^verbatim>\<open>src/applications/libs/png/png.c\<close>) with its tables, \<open>png_read_le_u16\<close>, \<open>png_read_be_u32\<close> and
  \<open>png_adler32\<close>. The output buffer is a list of its allocated size that the blocks write by index.
  The cooperative yield has no effect on the decoder's state.
\<close>

definition kDeflateLengthBase :: "nat list" where
  "kDeflateLengthBase =
     [3, 4, 5, 6, 7, 8, 9, 10, 11, 13, 15, 17, 19, 23, 27, 31, 35, 43, 51, 59, 67, 83, 99, 115, 131, 163, 195, 227, 258]"

definition kDeflateLengthExtra :: "nat list" where
  "kDeflateLengthExtra =
     [0, 0, 0, 0, 0, 0, 0, 0, 1, 1, 1, 1, 2, 2, 2, 2, 3, 3, 3, 3, 4, 4, 4, 4, 5, 5, 5, 5, 0]"

definition kDeflateDistanceBase :: "nat list" where
  "kDeflateDistanceBase =
     [1, 2, 3, 4, 5, 7, 9, 13, 17, 25, 33, 49, 65, 97, 129, 193, 257, 385, 513, 769, 1025, 1537, 2049, 3073, 4097, 6145,
      8193, 12289, 16385, 24577]"

definition kDeflateDistanceExtra :: "nat list" where
  "kDeflateDistanceExtra =
     [0, 0, 0, 0, 1, 1, 2, 2, 3, 3, 4, 4, 5, 5, 6, 6, 7, 7, 8, 8, 9, 9, 10, 10, 11, 11, 12, 12, 13, 13]"

definition png_read_be_u32 :: "u8 list \<Rightarrow> nat \<Rightarrow> u32 outcome" where
  "png_read_be_u32 data off =
     sbind (fetch data off) (\<lambda>b0. sbind (fetch data (off + 1)) (\<lambda>b1.
     sbind (fetch data (off + 2)) (\<lambda>b2. sbind (fetch data (off + 3)) (\<lambda>b3.
       Inr (push_bit 24 (ucast b0) OR push_bit 16 (ucast b1) OR push_bit 8 (ucast b2) OR ucast b3)))))"

definition png_read_le_u16 :: "u8 list \<Rightarrow> nat \<Rightarrow> u16 outcome" where
  "png_read_le_u16 data off =
     sbind (fetch data off) (\<lambda>b0. sbind (fetch data (off + 1)) (\<lambda>b1. Inr (ucast b0 OR push_bit 8 (ucast b1))))"

section \<open>The checksum\<close>

fun adler_loop :: "u8 list \<Rightarrow> u32 \<Rightarrow> u32 \<Rightarrow> u32 \<times> u32" where
  "adler_loop [] s1 s2 = (s1, s2)"
| "adler_loop (b # bs) s1 s2 = (let s1 = (s1 + ucast b) mod 65521; s2 = (s2 + s1) mod 65521 in adler_loop bs s1 s2)"

definition png_adler32 :: "u8 list \<Rightarrow> u32" where
  "png_adler32 data = (case adler_loop data 1 0 of (s1, s2) \<Rightarrow> push_bit 16 s2 OR s1)"

section \<open>Copies\<close>

fun png_copy_bytes :: "nat \<Rightarrow> u8 list \<Rightarrow> nat \<Rightarrow> u8 list \<Rightarrow> nat \<Rightarrow> u8 list outcome" where
  "png_copy_bytes 0 data off output output_index = Inr output"
| "png_copy_bytes (Suc n) data off output output_index =
     sbind (fetch data off) (\<lambda>b.
       sbind (store output output_index b) (\<lambda>output. png_copy_bytes n data (off + 1) output (output_index + 1)))"

fun png_copy_match :: "nat \<Rightarrow> nat \<Rightarrow> u8 list \<Rightarrow> nat \<Rightarrow> u8 list outcome" where
  "png_copy_match 0 from_index output output_index = Inr output"
| "png_copy_match (Suc n) from_index output output_index =
     sbind (fetch output from_index) (\<lambda>b.
       sbind (store output output_index b) (\<lambda>output. png_copy_match n (from_index + 1) output (output_index + 1)))"

section \<open>Blocks\<close>

text \<open>A base value plus the extra bits of its entry.\<close>

definition png_read_extended :: "PngBitReader \<Rightarrow> nat list \<Rightarrow> nat list \<Rightarrow> nat \<Rightarrow> (nat \<times> PngBitReader) outcome" where
  "png_read_extended reader base extra i =
     sbind (fetch base i) (\<lambda>v.
       sbind (fetch extra i) (\<lambda>bits.
         if bits \<noteq> 0 then
           sbind (png_bit_reader_read_bits reader bits) (\<lambda>(extra_value, reader). Inr (v + unat extra_value, reader))
         else Inr (v, reader)))"

lemma length_base_ge: "i < length kDeflateLengthBase \<Longrightarrow> 3 \<le> kDeflateLengthBase ! i"
proof -
  have "\<forall>v \<in> set kDeflateLengthBase. 3 \<le> v" by (simp add: kDeflateLengthBase_def)
  then show "i < length kDeflateLengthBase \<Longrightarrow> 3 \<le> kDeflateLengthBase ! i" by (simp add: nth_mem)
qed

lemma read_length_ge:
  "png_read_extended reader kDeflateLengthBase kDeflateLengthExtra i = Inr (v, reader') \<Longrightarrow> 3 \<le> v"
  by (auto simp: png_read_extended_def sbind_Inr_iff dest!: fetch_InrD split: if_splits
      intro: length_base_ge trans_le_add1)

text \<open>One symbol of a compressed block; the flag tells whether the block goes on.\<close>

type_synonym inflate_state = "PngBitReader \<times> u8 list \<times> nat"

definition png_inflate_match ::
  "PngHuffmanTree \<Rightarrow> nat \<Rightarrow> int \<Rightarrow> inflate_state \<Rightarrow> inflate_state outcome" where
  "png_inflate_match distance_tree output_size sy state =
     (case state of (reader, output, output_index) \<Rightarrow>
        sbind (png_read_extended reader kDeflateLengthBase kDeflateLengthExtra (nat sy - 257)) (\<lambda>(length_value, reader).
        sbind (png_huffman_decode_symbol reader distance_tree) (\<lambda>(sy, reader).
          if sy < 0 \<or> 29 < sy then Inl (Fail StatusNotSupported)
          else
            sbind (png_read_extended reader kDeflateDistanceBase kDeflateDistanceExtra (nat sy)) (\<lambda>(distance_value, reader).
              if distance_value = 0 \<or> output_index < distance_value then Inl (Fail StatusFault)
              else if output_size < output_index + length_value then Inl (Fail StatusNoSpace)
              else sbind (png_copy_match length_value (output_index - distance_value) output output_index) (\<lambda>output.
                Inr (reader, output, output_index + length_value))))))"

definition png_inflate_symbol ::
  "PngHuffmanTree \<Rightarrow> PngHuffmanTree \<Rightarrow> nat \<Rightarrow> inflate_state \<Rightarrow> (bool \<times> inflate_state) outcome" where
  "png_inflate_symbol literal_tree distance_tree output_size state =
     (case state of (reader, output, output_index) \<Rightarrow>
        sbind (png_huffman_decode_symbol reader literal_tree) (\<lambda>(sy, reader).
          if 0 \<le> sy \<and> sy < 256 then
            if output_size \<le> output_index then Inl (Fail StatusNoSpace)
            else sbind (store output output_index (word_of_int sy)) (\<lambda>output.
              Inr (True, reader, output, output_index + 1))
          else if sy = 256 then Inr (False, reader, output, output_index)
          else if sy < 257 \<or> 285 < sy then Inl (Fail StatusNotSupported)
          else sbind (png_inflate_match distance_tree output_size sy (reader, output, output_index)) (\<lambda>state.
            Inr (True, state))))"

lemma inflate_match_index:
  "png_inflate_match dt n sy (r, out, i) = Inr (r', out', i') \<Longrightarrow> i < i' \<and> i' \<le> n"
  by (auto simp: png_inflate_match_def sbind_Inr_iff split: if_splits dest!: read_length_ge)

lemma inflate_symbol_index:
  "png_inflate_symbol lt dt n (r, out, i) = Inr (True, r', out', i') \<Longrightarrow> i < i' \<and> i' \<le> n"
  by (auto simp: png_inflate_symbol_def sbind_Inr_iff split: if_splits dest!: inflate_match_index)

function png_inflate_codes ::
  "PngHuffmanTree \<Rightarrow> PngHuffmanTree \<Rightarrow> nat \<Rightarrow> inflate_state \<Rightarrow> inflate_state outcome" where
  "png_inflate_codes literal_tree distance_tree output_size (reader, output, output_index) =
     sbind (png_inflate_symbol literal_tree distance_tree output_size (reader, output, output_index)) (\<lambda>(again, state).
       if again then png_inflate_codes literal_tree distance_tree output_size state else Inr state)"
  by pat_completeness auto
termination
  by (relation "measure (\<lambda>(lt, dt, output_size, (reader, output, output_index)). output_size - output_index)")
    (auto dest!: inflate_symbol_index)

declare png_inflate_codes.simps [simp del]

definition png_inflate_stored :: "nat \<Rightarrow> inflate_state \<Rightarrow> inflate_state outcome" where
  "png_inflate_stored output_size state =
     (case state of (reader, output, output_index) \<Rightarrow>
      let reader = png_bit_reader_align_byte reader
      in if reader_size reader < byte_offset reader + 4 then Inl (Fail StatusFault)
         else
           sbind (png_read_le_u16 (reader_data reader) (byte_offset reader)) (\<lambda>block_length.
           sbind (png_read_le_u16 (reader_data reader) (byte_offset reader + 2)) (\<lambda>block_length_complement.
             let reader = reader\<lparr>byte_offset := byte_offset reader + 4\<rparr>
             in if block_length XOR 0xFFFF \<noteq> block_length_complement then Inl (Fail StatusFault)
                else if reader_size reader < byte_offset reader + unat block_length then Inl (Fail StatusFault)
                else if output_size < output_index + unat block_length then Inl (Fail StatusNoSpace)
                else
                  sbind (png_copy_bytes (unat block_length) (reader_data reader) (byte_offset reader) output output_index)
                    (\<lambda>output. Inr (reader\<lparr>byte_offset := byte_offset reader + unat block_length\<rparr>, output,
                                  output_index + unat block_length)))))"

definition png_inflate_block :: "u32 \<Rightarrow> nat \<Rightarrow> inflate_state \<Rightarrow> inflate_state outcome" where
  "png_inflate_block block_type output_size state =
     (if block_type = 0 then png_inflate_stored output_size state
      else
        (case state of (reader, output, output_index) \<Rightarrow>
           sbind
             (if block_type = 1 then sbind png_build_fixed_trees (\<lambda>(lt, dt). Inr (lt, dt, reader))
              else if block_type = 2 then png_build_dynamic_trees reader
              else Inl (Fail StatusNotSupported))
             (\<lambda>(literal_tree, distance_tree, reader).
                png_inflate_codes literal_tree distance_tree output_size (reader, output, output_index))))"

section \<open>Consumption\<close>

text \<open>Nothing hands bits back: this is why the block loop ends.\<close>

lemma decode_remaining: "delivers (png_decode_loop reader tree i) (\<lambda>(sy, r). remaining r \<le> remaining reader)"
proof (induction reader tree i rule: png_decode_loop.induct)
  case (1 reader tree i)
  show ?case
    by (subst png_decode_loop.simps)
      (auto intro!: delivers_rules delivers_mono [OF 1(1)] dest: read_bits_remaining simp del: One_nat_def if_split)
qed

lemma decode_symbol_remaining:
  "png_huffman_decode_symbol reader tree = Inr (sy, r) \<Longrightarrow> remaining r \<le> remaining reader"
  using deliversD [OF decode_remaining] by (fastforce simp: png_huffman_decode_symbol_def)

lemma read_extended_remaining:
  "png_read_extended reader base extra i = Inr (v, r) \<Longrightarrow> remaining r \<le> remaining reader"
  by (auto simp: png_read_extended_def sbind_Inr_iff dest: read_bits_remaining split: if_splits)

lemma read_code_lengths_remaining:
  "delivers (png_read_code_lengths reader hclen index lengths) (\<lambda>(ls, r). remaining r \<le> remaining reader)"
proof (induction reader hclen index lengths rule: png_read_code_lengths.induct)
  case (1 reader hclen index lengths)
  show ?case
    by (subst png_read_code_lengths.simps)
      (auto intro!: delivers_rules delivers_mono [OF 1(1)] dest: read_bits_remaining simp del: One_nat_def add_Suc_right)
qed

lemma length_step_remaining:
  "png_length_step tree hlit hdist (reader, st) = Inr (r, st') \<Longrightarrow> remaining r \<le> remaining reader"
  by (cases st)
    (fastforce simp: png_length_step_def png_read_repeat_def sbind_Inr_iff Let_def split: if_splits
      dest: read_bits_remaining decode_symbol_remaining)

lemma read_lengths_remaining:
  "delivers (png_read_lengths tree hlit hdist (reader, st)) (\<lambda>(t, r). remaining r \<le> remaining reader)"
proof (induction tree hlit hdist "(reader, st)" arbitrary: reader st rule: png_read_lengths.induct)
  case (1 tree hlit hdist reader index v tables)
  have "delivers (png_read_lengths tree hlit hdist x) (\<lambda>(t, r). remaining r \<le> remaining reader)"
    if "index < hlit + hdist" "png_length_step tree hlit hdist (reader, index, v, tables) = Inr x" for x
  proof -
    obtain r s where Pair: "x = (r, s)" by (metis surj_pair)
    show ?thesis
      using delivers_mono [OF 1(1) [OF that(1) that(2) [unfolded Pair]]] length_step_remaining [OF that(2) [unfolded Pair]]
      unfolding Pair by force
  qed
  then show ?case by (subst png_read_lengths.simps) (auto intro!: delivers_rules)
qed

lemma dynamic_trees_remaining:
  "png_build_dynamic_trees reader = Inr (lt, dt, r) \<Longrightarrow> remaining r \<le> remaining reader"
  by (fastforce simp: png_build_dynamic_trees_def sbind_Inr_iff Let_def split: if_splits
      dest!: read_bits_remaining deliversD [OF read_code_lengths_remaining] deliversD [OF read_lengths_remaining])

lemma inflate_symbol_remaining:
  "png_inflate_symbol lt dt n (reader, st) = Inr (again, r, st') \<Longrightarrow> remaining r \<le> remaining reader"
  by (cases st)
    (fastforce simp: png_inflate_symbol_def png_inflate_match_def sbind_Inr_iff split: if_splits
      dest!: decode_symbol_remaining read_extended_remaining)

lemma inflate_codes_remaining:
  "delivers (png_inflate_codes lt dt n (reader, st)) (\<lambda>(r, st). remaining r \<le> remaining reader)"
proof (induction lt dt n "(reader, st)" arbitrary: reader st rule: png_inflate_codes.induct)
  case (1 lt dt n reader out i)
  have "delivers (if again then png_inflate_codes lt dt n x else Inr x) (\<lambda>(r, st). remaining r \<le> remaining reader)"
    if eq: "png_inflate_symbol lt dt n (reader, out, i) = Inr (again, x)" for again x
  proof -
    obtain r s where Pair: "x = (r, s)" by (metis surj_pair)
    have "remaining r \<le> remaining reader" using inflate_symbol_remaining eq Pair by simp
    moreover have "again \<Longrightarrow> delivers (png_inflate_codes lt dt n x) (\<lambda>(r', st). remaining r' \<le> remaining r)"
      using 1(1) [OF eq] Pair by simp
    ultimately show ?thesis using Pair by (fastforce simp: delivers_def)
  qed
  then show ?case by (subst png_inflate_codes.simps) (auto intro!: delivers_rules)
qed

lemma inflate_block_remaining:
  "png_inflate_block bt n (reader, st) = Inr (r, st') \<Longrightarrow> remaining r \<le> remaining reader"
proof -
  assume eq: "png_inflate_block bt n (reader, st) = Inr (r, st')"
  obtain out i where st: "st = (out, i)" by (cases st)
  show ?thesis
  proof (cases "bt = 0")
    case True
    then show ?thesis using eq
      by (auto simp: st png_inflate_block_def png_inflate_stored_def png_bit_reader_align_byte_def remaining_def sbind_Inr_iff
          Let_def split: if_splits)
  next
    case False
    then obtain lt dt r1 where tr: "remaining r1 \<le> remaining reader"
      and c: "png_inflate_codes lt dt n (r1, out, i) = Inr (r, st')"
      using eq by (auto simp: st png_inflate_block_def sbind_Inr_iff split: if_splits dest: dynamic_trees_remaining)
    show ?thesis using deliversD [OF inflate_codes_remaining c] tr by simp
  qed
qed

section \<open>The stream\<close>

function png_inflate_blocks :: "nat \<Rightarrow> inflate_state \<Rightarrow> inflate_state outcome" where
  "png_inflate_blocks output_size (reader, output, output_index) =
     sbind (png_bit_reader_read_bits reader 1) (\<lambda>(final_block, reader).
     sbind (png_bit_reader_read_bits reader 2) (\<lambda>(block_type, reader).
     sbind (png_inflate_block block_type output_size (reader, output, output_index)) (\<lambda>state.
       if final_block = 0 then png_inflate_blocks output_size state else Inr state)))"
  by pat_completeness auto
termination
  by (relation "measure (\<lambda>(output_size, (reader, output, output_index)). remaining reader)")
    (fastforce dest: read_bits_remaining inflate_block_remaining)+

declare png_inflate_blocks.simps [simp del]

text \<open>\<open>output\<close> is the buffer of \<open>output_size\<close> bytes; the result is the buffer filled.\<close>

definition png_inflate_zlib :: "u8 list \<Rightarrow> u8 list \<Rightarrow> nat \<Rightarrow> u8 list outcome" where
  "png_inflate_zlib compressed output output_size =
     (if length compressed < 6 then Inl (Fail StatusIoError)
      else
        sbind (fetch compressed 0) (\<lambda>cmf. sbind (fetch compressed 1) (\<lambda>flg.
          if cmf AND 0x0F \<noteq> 8 \<or> (push_bit 8 (ucast cmf) OR ucast flg :: u32) mod 31 \<noteq> 0 \<or> flg AND 0x20 \<noteq> 0
          then Inl (Fail StatusNotSupported)
          else
            sbind (png_inflate_blocks output_size (png_bit_reader_init (drop 2 compressed) (length compressed - 6), output, 0))
              (\<lambda>(reader, output, output_index).
                if output_index \<noteq> output_size then Inl (Fail StatusIoError)
                else
                  sbind (png_read_be_u32 compressed (length compressed - 4)) (\<lambda>checksum.
                    if checksum \<noteq> png_adler32 (take output_size output) then Inl (Fail StatusIoError)
                    else Inr output)))))"

section \<open>Array safety\<close>

lemma copy_stored_yields:
  "off + n \<le> length data \<Longrightarrow> i + n \<le> length out \<Longrightarrow>
   yields (png_copy_bytes n data off out i) (\<lambda>out'. length out' = length out)"
proof (induction n arbitrary: off out i)
  case (Suc n)
  then show ?case using Suc.IH [of "Suc off" "Suc i" "out[i := data ! off]"] by simp
qed simp

lemma copy_match_yields:
  "f < i \<Longrightarrow> i + n \<le> length out \<Longrightarrow> yields (png_copy_match n f out i) (\<lambda>out'. length out' = length out)"
proof (induction n arbitrary: f out i)
  case (Suc n)
  then show ?case using Suc.IH [of "Suc f" "Suc i" "out[i := out ! f]"] by simp
qed simp

lemma read_extended_yields:
  assumes "window_ok reader" "i < length base" "i < length extra"
  shows "yields (png_read_extended reader base extra i) (\<lambda>(v, r). same_source reader r)"
  using assms unfolding png_read_extended_def
  by (auto intro!: yields_if yields_prod yields_bind [OF read_bits_yields] simp: same_source_def)

text \<open>The state of an inflation over a given source, with the output index inside a buffer of size \<open>n\<close>.\<close>

definition inflating :: "PngBitReader \<Rightarrow> nat \<Rightarrow> inflate_state \<Rightarrow> bool" where
  "inflating reader n st \<longleftrightarrow> (case st of (r, out, i) \<Rightarrow> same_source reader r \<and> length out = n \<and> i \<le> n)"

lemma same_source_refl: "window_ok r \<Longrightarrow> same_source r r"
  by (simp add: same_source_def)

lemma inflate_match_yields:
  assumes "inflating reader n (r, out, i)" "257 \<le> sy" "sy \<le> 285"
  shows "yields (png_inflate_match dt n sy (r, out, i)) (inflating reader n)"
proof -
  have st: "same_source reader r" "length out = n" "i \<le> n" using assms(1) by (simp_all add: inflating_def)
  have w: "window_ok r" using st(1) by (rule same_source_window)
  have len: "nat sy - 257 < length kDeflateLengthBase" "nat sy - 257 < length kDeflateLengthExtra"
    using assms(2,3) by (simp_all add: kDeflateLengthBase_def kDeflateLengthExtra_def nat_diff_distrib' nat_less_iff)
  have dist: "nat s < length kDeflateDistanceBase" "nat s < length kDeflateDistanceExtra" if "\<not> 29 < s" for s
    using that by (simp_all add: kDeflateDistanceBase_def kDeflateDistanceExtra_def)
  show ?thesis
    unfolding png_inflate_match_def prod.case
    apply (rule yields_bind [OF read_extended_yields [OF w len]])
    apply (rule yields_prod)
    apply (rule yields_bind [OF decode_symbol_yields], fastforce dest: same_source_window)
    apply (rule yields_prod)
    apply (rule yields_if, simp)
    apply (rule yields_bind [OF read_extended_yields [OF _ dist]])
    apply (fastforce dest: same_source_window, simp, simp)
    apply (rule yields_prod)
    apply (intro yields_if, simp, simp)
    apply (rule yields_bind [OF copy_match_yields])
    using st by (auto simp: inflating_def intro: same_source_trans)
qed

lemma inflate_symbol_yields:
  assumes "inflating reader n (r, out, i)"
  shows "yields (png_inflate_symbol lt dt n (r, out, i)) (\<lambda>(again, st). inflating reader n st)"
proof -
  have st: "same_source reader r" "length out = n" "i \<le> n" using assms(1) by (simp_all add: inflating_def)
  have w: "window_ok r" using st(1) by (rule same_source_window)
  show ?thesis
    unfolding png_inflate_symbol_def prod.case
    apply (rule yields_bind [OF decode_symbol_yields [OF w]])
    apply (rule yields_prod)
    apply (intro yields_if, simp)
    using st apply (auto simp: inflating_def intro: same_source_trans)[1]
    using st apply (auto simp: inflating_def intro: same_source_trans)[1]
    apply simp
    apply (rule yields_bind [OF inflate_match_yields [of reader]])
    using st by (auto simp: inflating_def intro: same_source_trans)
qed

lemma inflate_codes_yields:
  "inflating reader n st \<Longrightarrow> yields (png_inflate_codes lt dt n st) (inflating reader n)"
proof (induction lt dt n st rule: png_inflate_codes.induct)
  case (1 lt dt n r out i)
  show ?case
    by (subst png_inflate_codes.simps)
      (auto intro!: yields_prod yields_if yields_bind [OF inflate_symbol_yields [OF 1(2)]] 1(1))
qed

lemma le_u16_yields: "off + 2 \<le> length data \<Longrightarrow> yields (png_read_le_u16 data off) (\<lambda>_. True)"
  by (simp add: png_read_le_u16_def)

lemma be_u32_yields: "off + 4 \<le> length data \<Longrightarrow> yields (png_read_be_u32 data off) (\<lambda>_. True)"
  by (simp add: png_read_be_u32_def)

lemma inflate_stored_yields:
  assumes "inflating reader n st"
  shows "yields (png_inflate_stored n st) (inflating reader n)"
proof -
  obtain r out i where st: "st = (r, out, i)" by (metis surj_pair)
  have ok: "same_source reader r" "length out = n" "i \<le> n" using assms by (simp_all add: st inflating_def)
  then have "reader_size r \<le> length (reader_data r)" by (auto simp: same_source_def window_ok_def)
  with ok show ?thesis
    unfolding png_inflate_stored_def st prod.case Let_def png_bit_reader_align_byte_def
    by (auto intro!: yields_if yields_bind [OF le_u16_yields] yields_bind [OF copy_stored_yields]
        simp: inflating_def same_source_def window_ok_def)
qed

lemma inflate_block_yields:
  assumes "inflating reader n st"
  shows "yields (png_inflate_block bt n st) (inflating reader n)"
proof -
  obtain r out i where st: "st = (r, out, i)" by (metis surj_pair)
  have ok: "same_source reader r" "length out = n" "i \<le> n" using assms by (simp_all add: st inflating_def)
  have trees: "yields (if bt = 1 then sbind png_build_fixed_trees (\<lambda>(lt, dt). Inr (lt, dt, r))
      else if bt = 2 then png_build_dynamic_trees r else Inl (Fail StatusNotSupported)) (\<lambda>(lt, dt, q). same_source r q)"
    using same_source_window [OF ok(1)] same_source_refl
    by (auto intro!: yields_if yields_prod yields_bind [OF fixed_trees_yields] dynamic_trees_yields)
  have codes: "yields (png_inflate_codes lt dt n (q, out, i)) (inflating reader n)" if "same_source r q" for lt dt q
    using that ok by (intro inflate_codes_yields) (auto simp: inflating_def intro: same_source_trans)
  show ?thesis
    unfolding png_inflate_block_def st prod.case using assms
    by (intro yields_if inflate_stored_yields yields_bind [OF trees]) (auto simp: st intro: codes)
qed

lemma inflate_blocks_yields:
  "inflating reader n st \<Longrightarrow> yields (png_inflate_blocks n st) (inflating reader n)"
proof (induction n st rule: png_inflate_blocks.induct)
  case (1 n r out i)
  then have w: "window_ok r" by (auto simp: inflating_def intro: same_source_window)
  show ?case
    apply (subst png_inflate_blocks.simps)
    apply (rule yields_bind [OF read_bits_yields [OF w]], rule yields_prod)
    apply (rule yields_bind [OF read_bits_yields], fastforce dest: same_source_window, rule yields_prod)
    apply (rule yields_bind [OF inflate_block_yields [where reader = reader]])
    using 1(2) apply (auto simp: inflating_def intro: same_source_trans)[1]
    apply (rule yields_if)
    using 1(1) apply blast
    apply simp
    done
qed

lemma inflate_zlib_yields:
  assumes "length out = n"
  shows "yields (png_inflate_zlib data out n) (\<lambda>out'. length out' = n)"
proof (cases "length data < 6")
  case False
  let ?r = "png_bit_reader_init (drop 2 data) (length data - 6)"
  have i: "inflating ?r n (?r, out, 0)"
    using assms False by (simp add: inflating_def same_source_def window_ok_def png_bit_reader_init_def)
  have "data \<noteq> []" using False by auto
  with False show ?thesis
    unfolding png_inflate_zlib_def
    by (auto intro!: yields_if yields_prod yields_bind [OF inflate_blocks_yields [OF i]] yields_bind [OF be_u32_yields]
        simp: inflating_def)
qed (simp add: png_inflate_zlib_def)

section \<open>Stored streams\<close>

definition le16 :: "u16 \<Rightarrow> u8 list" where
  "le16 w = [ucast w, ucast (drop_bit 8 w)]"

definition be32 :: "u32 \<Rightarrow> u8 list" where
  "be32 w = [ucast (drop_bit 24 w), ucast (drop_bit 16 w), ucast (drop_bit 8 w), ucast w]"

lemma length_le16 [simp]: "length (le16 w) = 2" "length (be32 v) = 4"
  by (simp_all add: le16_def be32_def)

lemma read_le16: "png_read_le_u16 (pre @ le16 w @ rest) (length pre) = Inr w"
proof -
  have "ucast (ucast w :: u8) OR push_bit 8 (ucast (ucast (drop_bit 8 w) :: u8)) = w"
    by (rule bit_word_eqI) (auto simp: bit_simps not_less)
  then show ?thesis by (simp add: png_read_le_u16_def le16_def nth_append)
qed

lemma read_be32: "png_read_be_u32 (pre @ be32 w @ rest) (length pre) = Inr w"
proof -
  have "push_bit 24 (ucast (ucast (drop_bit 24 w) :: u8)) OR push_bit 16 (ucast (ucast (drop_bit 16 w) :: u8)) OR
      push_bit 8 (ucast (ucast (drop_bit 8 w) :: u8)) OR ucast (ucast w :: u8) = w" (is "?x = w")
  proof (rule bit_word_eqI)
    fix n assume "n < LENGTH(32)"
    then consider "n < 8" | "8 \<le> n" "n < 16" | "16 \<le> n" "n < 24" | "24 \<le> n" "n < 32" by (simp; arith)
    then show "bit ?x n \<longleftrightarrow> bit w n" by cases (auto simp: bit_simps less_diff_conv2)
  qed
  then show ?thesis by (simp add: png_read_be_u32_def be32_def nth_append)
qed

lemma copy_stored_effect:
  "off + n \<le> length data \<Longrightarrow> i + n \<le> length out \<Longrightarrow>
   png_copy_bytes n data off out i = Inr (take i out @ take n (drop off data) @ drop (i + n) out)"
proof (induction n arbitrary: off out i)
  case (Suc n)
  then have "take (Suc n) (drop off data) = data ! off # take n (drop (Suc off) data)"
    by (simp add: take_Suc_conv_app_nth Cons_nth_drop_Suc [symmetric])
  with Suc show ?case by (simp add: take_Suc_conv_app_nth upd_conv_take_nth_drop ac_simps)
qed simp

text \<open>A stored block, and the stream that stores its data in blocks of at most 65535 bytes.\<close>

definition stored_block :: "bool \<Rightarrow> u8 list \<Rightarrow> u8 list" where
  "stored_block final payload =
     [if final then 1 else 0] @ le16 (of_nat (length payload)) @ le16 (of_nat (length payload) XOR 0xFFFF) @ payload"

function stored_blocks :: "u8 list \<Rightarrow> u8 list" where
  "stored_blocks payload =
     (if length payload \<le> 65535 then stored_block True payload
      else stored_block False (take 65535 payload) @ stored_blocks (drop 65535 payload))"
  by pat_completeness auto
termination
  by (relation "measure length") auto

declare stored_blocks.simps [simp del]

definition zlib_stored :: "u8 list \<Rightarrow> u8 list" where
  "zlib_stored payload = [0x78, 0x01] @ stored_blocks payload @ be32 (png_adler32 payload)"

lemma ensure_done: "bits \<le> bit_count r \<Longrightarrow> png_bit_reader_ensure_bits r bits = Inr r"
  by (simp add: png_bit_reader_ensure_bits.simps [of r])

lemma read_block_header:
  assumes "bit_count r = 0" "bit_buffer r = 0" "byte_offset r < reader_size r"
    "byte_offset r < length (reader_data r)" "reader_data r ! byte_offset r = (if final then 1 else 0)"
  shows "\<exists>q. png_bit_reader_read_bits r 1 = Inr (if final then 1 else 0, q) \<and>
    (\<exists>q'. png_bit_reader_read_bits q 2 = Inr (0, q') \<and>
      png_bit_reader_align_byte q' = r\<lparr>byte_offset := byte_offset r + 1\<rparr>)"
proof -
  let ?r = "r\<lparr>bit_buffer := if final then 1 else 0, bit_count := 8, byte_offset := byte_offset r + 1\<rparr>"
  have e: "png_bit_reader_ensure_bits r 1 = Inr ?r"
    using assms by (simp add: png_bit_reader_ensure_bits.simps [of r] ensure_done)
  have e2: "png_bit_reader_ensure_bits (?r\<lparr>bit_buffer := 0, bit_count := 7\<rparr>) 2 = Inr (?r\<lparr>bit_buffer := 0, bit_count := 7\<rparr>)"
    by (simp add: ensure_done)
  have 1: "png_bit_reader_read_bits r 1 = Inr (if final then 1 else 0, ?r\<lparr>bit_buffer := 0, bit_count := 7\<rparr>)"
    by (simp only: png_bit_reader_read_bits_def e sbind_simps) simp
  show ?thesis
    unfolding 1 using assms(1,2) e2
    by (auto simp: png_bit_reader_read_bits_def png_bit_reader_align_byte_def)
qed

text \<open>A stored block at the reader's position appends its payload to the output.\<close>

lemma stored_block_step:
  assumes r: "bit_count r = 0" "bit_buffer r = 0" "byte_offset r = length pre"
    and data: "reader_data r = pre @ stored_block final payload @ rest"
    and sz: "length pre + length (stored_block final payload) \<le> reader_size r"
    and len: "length payload < 2 ^ 16" and room: "i + length payload \<le> n" "length out = n"
  shows "png_inflate_blocks n (r, out, i) =
    (let st = (r\<lparr>byte_offset := length pre + length (stored_block final payload)\<rparr>,
               take i out @ payload @ drop (i + length payload) out, i + length payload)
     in if final then Inr st else png_inflate_blocks n st)"
proof -
  let ?w = "of_nat (length payload) :: u16"
  have un: "unat ?w = length payload" using len by (intro unat_of_nat_less) simp
  have blk: "length (stored_block final payload) = 5 + length payload" by (simp add: stored_block_def le16_def)
  let ?b = "if final then 1 else 0 :: u8"
  have d1: "reader_data r = (pre @ [?b]) @ le16 ?w @ (le16 (?w XOR 0xFFFF) @ payload @ rest)"
    and d2: "reader_data r = (pre @ [?b] @ le16 ?w) @ le16 (?w XOR 0xFFFF) @ (payload @ rest)"
    and d3: "reader_data r = (pre @ [?b] @ le16 ?w @ le16 (?w XOR 0xFFFF)) @ payload @ rest"
    by (simp_all add: data stored_block_def)
  have l1: "png_read_le_u16 (reader_data r) (Suc (length pre)) = Inr ?w"
    using read_le16 [of "pre @ [?b]"] unfolding d1 by simp
  have l2: "png_read_le_u16 (reader_data r) (Suc (length pre) + 2) = Inr (?w XOR 0xFFFF)"
  proof -
    have eq: "Suc (length pre) + 2 = length (pre @ [?b] @ le16 ?w)" by simp
    show ?thesis unfolding eq d2 by (rule read_le16)
  qed
  have p: "take (length payload) (drop (length pre + 5) (reader_data r)) = payload"
    unfolding d3 by (simp add: le16_def)
  have dl: "length pre + 5 + length payload \<le> length (reader_data r)" unfolding d3 by (simp add: le16_def)
  have hd: "reader_data r ! byte_offset r = ?b" using r by (simp add: data stored_block_def nth_append)
  from read_block_header [OF r(1,2) _ _ hd] sz blk r(3) dl obtain q q' where
    h: "png_bit_reader_read_bits r 1 = Inr (if final then 1 else 0, q)" "png_bit_reader_read_bits q 2 = Inr (0, q')"
    and al: "png_bit_reader_align_byte q' = r\<lparr>byte_offset := Suc (length pre)\<rparr>" by auto
  have "png_inflate_block 0 n (q', out, i) =
    Inr (r\<lparr>byte_offset := length pre + length (stored_block final payload)\<rparr>,
         take i out @ payload @ drop (i + length payload) out, i + length payload)"
    using sz blk l1 l2 p dl room un
    by (simp add: png_inflate_block_def png_inflate_stored_def al Let_def copy_stored_effect numeral_eq_Suc)
  then show ?thesis using h by (subst png_inflate_blocks.simps) (simp add: Let_def)
qed

lemma stored_blocks_inflate:
  assumes "bit_count r = 0" "bit_buffer r = 0" "byte_offset r = length pre"
    and "reader_data r = pre @ stored_blocks payload @ rest" "length pre + length (stored_blocks payload) \<le> reader_size r"
    and "length out = n" "i + length payload = n"
  shows "\<exists>r'. png_inflate_blocks n (r, out, i) = Inr (r', take i out @ payload, n)"
  using assms
proof (induction payload arbitrary: r pre out i rule: stored_blocks.induct)
  case (1 payload)
  show ?case
  proof (cases "length payload \<le> 65535")
    case True
    then have b: "stored_blocks payload = stored_block True payload" by (simp add: stored_blocks.simps)
    show ?thesis
      using stored_block_step [of r pre True payload rest i n out] 1(2-) True by (simp add: b Let_def)
  next
    case False
    let ?h = "take 65535 payload" and ?t = "drop 65535 payload"
    have b: "stored_blocks payload = stored_block False ?h @ stored_blocks ?t"
      using False by (simp add: stored_blocks.simps [of payload])
    let ?pre = "pre @ stored_block False ?h" and ?out = "take i out @ ?h @ drop (i + length ?h) out"
    let ?r = "r\<lparr>byte_offset := length ?pre\<rparr>"
    have "png_inflate_blocks n (r, out, i) = png_inflate_blocks n (?r, ?out, i + length ?h)"
      using stored_block_step [of r pre False ?h "stored_blocks ?t @ rest" i n out] 1(2-) False
      by (simp add: b Let_def)
    moreover have "\<exists>r'. png_inflate_blocks n (?r, ?out, i + length ?h) = Inr (r', take (i + length ?h) ?out @ ?t, n)"
      using 1(2-) False by (intro 1(1) [where pre = ?pre]) (simp_all add: b)
    moreover have "take (i + length ?h) ?out @ ?t = take i out @ payload"
      using 1(7,8) False by simp
    ultimately show ?thesis by simp
  qed
qed

lemma inflate_stored_ok:
  assumes "length out = length payload"
  shows "png_inflate_zlib (zlib_stored payload) out (length payload) = Inr payload"
proof -
  let ?z = "zlib_stored payload" and ?a = "be32 (png_adler32 payload)"
  let ?r = "png_bit_reader_init (drop 2 ?z) (length ?z - 6)"
  have a: "length ?a = 4" by (simp add: be32_def)
  have z: "?z = ([0x78, 0x01] @ stored_blocks payload) @ ?a @ []" by (simp add: zlib_stored_def)
  have "1 \<le> length (stored_blocks payload)" by (subst stored_blocks.simps) (simp add: stored_block_def)
  then have lz: "\<not> length ?z < 6" "length ?z - 4 = length ([0x78, 0x01] @ stored_blocks payload)"
    by (simp_all add: zlib_stored_def a)
  have c: "png_read_be_u32 ?z (length ?z - 4) = Inr (png_adler32 payload)"
    unfolding lz(2) by (subst z) (rule read_be32)
  have "\<exists>r'. png_inflate_blocks (length payload) (?r, out, 0) = Inr (r', take 0 out @ payload, length payload)"
    by (rule stored_blocks_inflate [where pre = "[]" and rest = ?a])
      (simp_all add: png_bit_reader_init_def zlib_stored_def assms a)
  then obtain r' where "png_inflate_blocks (length payload) (?r, out, 0) = Inr (r', payload, length payload)" by auto
  moreover have "push_bit 1 15360 OR 1 = (30721 :: u32)" by code_simp
  moreover have "fetch ?z 0 = Inr 0x78" "fetch ?z 1 = Inr 0x01" by (simp_all add: zlib_stored_def)
  ultimately show ?thesis using lz(1) c by (simp add: png_inflate_zlib_def del: One_nat_def)
qed

text \<open>Any byte sequence stored uncompressed in a zlib stream, in as many stored blocks as it needs,
  is inflated to exactly that sequence, whatever the output buffer held before.\<close>

theorem inflate_stored_roundtrip:
  assumes "length out = length payload"
  shows "png_inflate_zlib (zlib_stored payload) out (length payload) = Inr payload"
  using assms by (rule inflate_stored_ok)

theorem inflate_stored_roundtrip_witness:
  "png_inflate_zlib (zlib_stored [1, 2, 3]) [9, 9, 9] 3 = Inr [1, 2, 3]"
  using inflate_stored_roundtrip [of "[9, 9, 9]" "[1, 2, 3]"] by (simp add: numeral_eq_Suc)



end
