(* ===== verification/Png_Image.thy ===== *)
theory Png_Image
  imports Png_Inflate Heap
begin

text \<open>
  The PNG file layer of \<^verbatim>\<open>src/applications/libs/png/png.c\<close>: chunk parsing, collection of the image
  data, reconstruction of the scanlines and drawing into the caller's canvas
  (\<open>png_parse_ihdr\<close> to \<open>PngRenderMemoryToMemory\<close>).

  The allocator decides each request (theory Heap) and a fresh block holds arbitrary bytes
  (\<open>fresh\<close>). Buffers are lists of their allocated size, \<open>None\<close> is \<open>NULL\<close>; \<open>readFile\<close> of the
  system runtime is a parameter. Sizes are natural numbers, with the wrap-around written out where
  the code multiplies; 32-bit pixel coordinates are words where they are added.
\<close>

record PngHeader =
  width :: u32
  height :: u32
  bit_depth :: u8
  color_type :: u8
  compression_method :: u8
  filter_method :: u8
  interlace_method :: u8

record RosPngMemory =
  mem_x :: u32
  mem_y :: u32
  mem_width :: u32
  mem_height :: u32
  mem_buffer :: "u32 list"

section \<open>Header\<close>

definition kPngSignature :: "u8 list" where
  "kPngSignature = [0x89, 0x50, 0x4E, 0x47, 0x0D, 0x0A, 0x1A, 0x0A]"

fun png_same_bytes :: "nat \<Rightarrow> u8 list \<Rightarrow> u8 list \<Rightarrow> nat \<Rightarrow> bool outcome" where
  "png_same_bytes 0 xs ys i = Inr True"
| "png_same_bytes (Suc n) xs ys i =
     sbind (fetch xs i) (\<lambda>x. sbind (fetch ys i) (\<lambda>y. if x \<noteq> y then Inr False else png_same_bytes n xs ys (i + 1)))"

definition png_has_signature :: "u8 list \<Rightarrow> bool outcome" where
  "png_has_signature data = (if length data < 8 then Inr False else png_same_bytes 8 data kPngSignature 0)"

definition png_channels_for_color_type :: "u8 \<Rightarrow> u32" where
  "png_channels_for_color_type ct = (if ct = 0 then 1 else if ct = 2 then 3 else if ct = 4 then 2 else if ct = 6 then 4 else 0)"

text \<open>The chunk payload of \<open>len\<close> bytes that starts at \<open>off\<close>.\<close>

definition png_parse_ihdr :: "u8 list \<Rightarrow> nat \<Rightarrow> nat \<Rightarrow> PngHeader outcome" where
  "png_parse_ihdr data off len =
     (if len \<noteq> 13 then Inl (Fail StatusInvalidArgument)
      else
        sbind (png_read_be_u32 data off) (\<lambda>w. sbind (png_read_be_u32 data (off + 4)) (\<lambda>h.
        sbind (fetch data (off + 8)) (\<lambda>bd. sbind (fetch data (off + 9)) (\<lambda>ct.
        sbind (fetch data (off + 10)) (\<lambda>cm. sbind (fetch data (off + 11)) (\<lambda>fm. sbind (fetch data (off + 12)) (\<lambda>im.
          if w = 0 \<or> h = 0 \<or> cm \<noteq> 0 \<or> fm \<noteq> 0 \<or> im \<noteq> 0 \<or> bd \<noteq> 8 then Inl (Fail StatusNotSupported)
          else if png_channels_for_color_type ct = 0 then Inl (Fail StatusNotSupported)
          else if 0x3FFFFFFF < w \<or> 0x3FFFFFFF < h then Inl (Fail StatusNoSpace)
          else Inr \<lparr>width = w, height = h, bit_depth = bd, color_type = ct, compression_method = cm,
                    filter_method = fm, interlace_method = im\<rparr>))))))))"

section \<open>Growing buffers\<close>

definition png_allocate :: "heap \<Rightarrow> nat \<Rightarrow> bool \<times> heap" where
  "png_allocate h bytes = (if bytes = 0 then (False, h) else malloc h)"

definition png_release :: "u8 list option \<Rightarrow> heap \<Rightarrow> heap" where
  "png_release buffer h = (case buffer of None \<Rightarrow> h | Some _ \<Rightarrow> free h)"

text \<open>The doubling loop; it is entered with a capacity that is not zero.\<close>

function png_grow_capacity :: "nat \<Rightarrow> nat \<Rightarrow> nat outcome" where
  "png_grow_capacity new_capacity required_bytes =
     (if 0 < new_capacity \<and> new_capacity < required_bytes then
        if (2 ^ 64 - 1) div 2 < new_capacity then Inl (Fail StatusNoMemory)
        else png_grow_capacity (new_capacity * 2) required_bytes
      else Inr new_capacity)"
  by pat_completeness auto
termination
  by (relation "measure (\<lambda>(new_capacity, required_bytes). required_bytes - new_capacity)") auto

declare png_grow_capacity.simps [simp del]

type_synonym byte_buffer = "u8 list option \<times> nat"

definition png_reallocate_bytes ::
  "(nat \<Rightarrow> u8) \<Rightarrow> heap \<Rightarrow> byte_buffer \<Rightarrow> nat \<Rightarrow> nat \<Rightarrow> byte_buffer outcome \<times> heap" where
  "png_reallocate_bytes fresh h buf used_bytes required_bytes =
     (case buf of (buffer, capacity) \<Rightarrow>
        if required_bytes \<le> capacity then (Inr (buffer, capacity), h)
        else
          (case png_grow_capacity (if capacity = 0 then 4096 else capacity) required_bytes of
             Inl e \<Rightarrow> (Inl e, h)
           | Inr new_capacity \<Rightarrow>
               (case png_allocate h new_capacity of (ok, h) \<Rightarrow>
                  if \<not> ok then (Inl (Fail StatusNoMemory), h)
                  else
                    (case png_copy_bytes used_bytes (case buffer of None \<Rightarrow> [] | Some b \<Rightarrow> b) 0 (map fresh [0..<new_capacity]) 0 of
                       Inl e \<Rightarrow> (Inl e, h)
                     | Inr replacement \<Rightarrow> (Inr (Some replacement, new_capacity), png_release buffer h)))))"

text \<open>The bytes go behind the \<open>n\<close> used ones.\<close>

definition png_append_bytes ::
  "(nat \<Rightarrow> u8) \<Rightarrow> heap \<Rightarrow> byte_buffer \<Rightarrow> nat \<Rightarrow> u8 list \<Rightarrow> nat \<Rightarrow> nat \<Rightarrow> (byte_buffer \<times> nat) outcome \<times> heap" where
  "png_append_bytes fresh h buf n data off len =
     (let required_bytes = (n + len) mod 2 ^ 64
      in case png_reallocate_bytes fresh h buf n required_bytes of
           (Inl e, h) \<Rightarrow> (Inl e, h)
         | (Inr (buffer, capacity), h) \<Rightarrow>
             (case png_copy_bytes len data off (case buffer of None \<Rightarrow> [] | Some b \<Rightarrow> b) n of
                Inl e \<Rightarrow> (Inl e, h)
              | Inr b \<Rightarrow> (Inr ((map_option (\<lambda>_. b) buffer, capacity), required_bytes), h)))"

section \<open>Chunks\<close>

record png_parse =
  parse_header :: "PngHeader option"
  parse_idat :: byte_buffer
  parse_idat_size :: nat

definition png_chunk ::
  "(nat \<Rightarrow> u8) \<Rightarrow> u8 list \<Rightarrow> nat \<Rightarrow> u32 \<Rightarrow> u32 \<Rightarrow> png_parse \<Rightarrow> heap \<Rightarrow> png_parse outcome \<times> heap" where
  "png_chunk fresh data off chunk_length chunk_type p h =
     (if chunk_type = 0x49484452 then
        (case png_parse_ihdr data off (unat chunk_length) of
           Inl e \<Rightarrow> (Inl e, h)
         | Inr header \<Rightarrow> (Inr (p\<lparr>parse_header := Some header\<rparr>), h))
      else if chunk_type = 0x49444154 then
        (case png_append_bytes fresh h (parse_idat p) (parse_idat_size p) data off (unat chunk_length) of
           (Inl e, h) \<Rightarrow> (Inl e, h)
         | (Inr (buf, n), h) \<Rightarrow> (Inr (p\<lparr>parse_idat := buf, parse_idat_size := n\<rparr>), h))
      else if chunk_type = 0x504C5445 then (Inr p, h)
      else if chunk_type AND 0x20000000 = 0 then (Inl (Fail StatusNotSupported), h)
      else (Inr p, h))"

text \<open>
  The chunk loop delivers the parse state and whether an end chunk was seen. On an error it also
  delivers the state whose buffer the caller releases.
\<close>

function png_parse_chunks ::
  "(nat \<Rightarrow> u8) \<Rightarrow> u8 list \<Rightarrow> nat \<Rightarrow> png_parse \<Rightarrow> heap \<Rightarrow> bool outcome \<times> png_parse \<times> heap" where
  "png_parse_chunks fresh data offset p h =
     (if offset + 8 \<le> length data then
        (case sbind (png_read_be_u32 data offset) (\<lambda>l. sbind (png_read_be_u32 data (offset + 4)) (\<lambda>t. Inr (l, t))) of
           Inl e \<Rightarrow> (Inl e, p, h)
         | Inr (chunk_length, chunk_type) \<Rightarrow>
             (let offset = offset + 8
              in if length data < offset + unat chunk_length + 4 then (Inl (Fail StatusIoError), p, h)
                 else if chunk_type = 0x49454E44 then (Inr True, p, h)
                 else
                   (case png_chunk fresh data offset chunk_length chunk_type p h of
                      (Inl e, h) \<Rightarrow> (Inl e, p, h)
                    | (Inr p, h) \<Rightarrow> png_parse_chunks fresh data (offset + unat chunk_length + 4) p h)))
      else (Inr False, p, h))"
  by pat_completeness auto
termination
  by (relation "measure (\<lambda>(fresh, data, offset, p, h). length data - offset)") auto

declare png_parse_chunks.simps [simp del]

text \<open>Delivers the header, the buffer with the collected image data and its length.\<close>

definition png_parse_png_file ::
  "(nat \<Rightarrow> u8) \<Rightarrow> u8 list \<Rightarrow> heap \<Rightarrow> (PngHeader \<times> u8 list option \<times> nat) outcome \<times> heap" where
  "png_parse_png_file fresh file_bytes h =
     (case png_has_signature file_bytes of
        Inl e \<Rightarrow> (Inl e, h)
      | Inr ok \<Rightarrow>
          if \<not> ok then (Inl (Fail StatusNotSupported), h)
          else
            (case png_parse_chunks fresh file_bytes 8 \<lparr>parse_header = None, parse_idat = (None, 0), parse_idat_size = 0\<rparr> h of
               (r, p, h) \<Rightarrow>
                 (case (r, parse_header p) of
                    (Inl e, _) \<Rightarrow> (Inl e, png_release (fst (parse_idat p)) h)
                  | (Inr True, Some header) \<Rightarrow>
                      if parse_idat_size p = 0 then (Inl (Fail StatusIoError), png_release (fst (parse_idat p)) h)
                      else (Inr (header, fst (parse_idat p), parse_idat_size p), h)
                  | _ \<Rightarrow> (Inl (Fail StatusIoError), png_release (fst (parse_idat p)) h))))"

section \<open>Scanlines\<close>

definition png_paeth_predictor :: "u8 \<Rightarrow> u8 \<Rightarrow> u8 \<Rightarrow> u8" where
  "png_paeth_predictor left_v up up_left =
     (let p = uint left_v + uint up - uint up_left;
          pa = (if p < uint left_v then uint left_v - p else p - uint left_v);
          pb = (if p < uint up then uint up - p else p - uint up);
          pc = (if p < uint up_left then uint up_left - p else p - uint up_left)
      in if pa \<le> pb \<and> pa \<le> pc then left_v else if pb \<le> pc then up else up_left)"

fun png_row_loop :: "nat \<Rightarrow> (u8 list \<Rightarrow> nat \<Rightarrow> u8 outcome) \<Rightarrow> u8 list \<Rightarrow> nat \<Rightarrow> u8 list outcome" where
  "png_row_loop 0 predict row index = Inr row"
| "png_row_loop (Suc n) predict row index =
     sbind (predict row index) (\<lambda>v. sbind (fetch row index) (\<lambda>b. sbind (store row index (b + v)) (\<lambda>row.
       png_row_loop n predict row (index + 1))))"

definition left_byte :: "nat \<Rightarrow> u8 list \<Rightarrow> nat \<Rightarrow> u8 outcome" where
  "left_byte bpp row index = (if bpp \<le> index then fetch row (index - bpp) else Inr 0)"

definition up_byte :: "u8 list option \<Rightarrow> nat \<Rightarrow> u8 outcome" where
  "up_byte previous_row index = (case previous_row of None \<Rightarrow> Inr 0 | Some p \<Rightarrow> fetch p index)"

definition up_left_byte :: "nat \<Rightarrow> u8 list option \<Rightarrow> nat \<Rightarrow> u8 outcome" where
  "up_left_byte bpp previous_row index =
     (case previous_row of None \<Rightarrow> Inr 0 | Some p \<Rightarrow> if bpp \<le> index then fetch p (index - bpp) else Inr 0)"

definition average_byte :: "u8 \<Rightarrow> u8 \<Rightarrow> u8" where
  "average_byte left_v up = ucast (drop_bit 1 (ucast left_v + ucast up :: u32))"

definition png_unfilter_row :: "u8 list \<Rightarrow> u8 list option \<Rightarrow> nat \<Rightarrow> nat \<Rightarrow> u8 \<Rightarrow> u8 list outcome" where
  "png_unfilter_row row previous_row row_bytes bpp filter_type =
     (if bpp = 0 then Inl (Fail StatusInvalidArgument)
      else if filter_type = 0 then Inr row
      else if filter_type = 1 then png_row_loop (row_bytes - bpp) (\<lambda>row i. fetch row (i - bpp)) row bpp
      else if filter_type = 2 then
        (case previous_row of None \<Rightarrow> Inr row | Some p \<Rightarrow> png_row_loop row_bytes (\<lambda>row i. fetch p i) row 0)
      else if filter_type = 3 then
        png_row_loop row_bytes
          (\<lambda>row i. sbind (left_byte bpp row i) (\<lambda>left_v. sbind (up_byte previous_row i) (\<lambda>up. Inr (average_byte left_v up)))) row 0
      else if filter_type = 4 then
        png_row_loop row_bytes
          (\<lambda>row i. sbind (left_byte bpp row i) (\<lambda>left_v. sbind (up_byte previous_row i) (\<lambda>up.
             sbind (up_left_byte bpp previous_row i) (\<lambda>up_left. Inr (png_paeth_predictor left_v up up_left))))) row 0
      else Inl (Fail StatusNotSupported))"

section \<open>Drawing\<close>

definition argb :: "u8 \<Rightarrow> u8 \<Rightarrow> u8 \<Rightarrow> u8 \<Rightarrow> u32" where
  "argb alpha red green blue =
     push_bit 24 (ucast alpha) OR push_bit 16 (ucast red) OR push_bit 8 (ucast green) OR ucast blue"

text \<open>The pixel of a row; the byte index is a 32-bit product.\<close>

definition png_pixel :: "u8 \<Rightarrow> u8 list \<Rightarrow> nat \<Rightarrow> u32 outcome" where
  "png_pixel ct row source_x =
     (if ct = 6 then
        (let i = source_x * 4 mod 2 ^ 32
         in sbind (fetch row i) (\<lambda>red. sbind (fetch row ((i + 1) mod 2 ^ 32)) (\<lambda>green.
            sbind (fetch row ((i + 2) mod 2 ^ 32)) (\<lambda>blue. sbind (fetch row ((i + 3) mod 2 ^ 32)) (\<lambda>alpha.
              Inr (argb alpha red green blue))))))
      else if ct = 2 then
        (let i = source_x * 3 mod 2 ^ 32
         in sbind (fetch row i) (\<lambda>red. sbind (fetch row ((i + 1) mod 2 ^ 32)) (\<lambda>green.
            sbind (fetch row ((i + 2) mod 2 ^ 32)) (\<lambda>blue. Inr (argb 255 red green blue)))))
      else if ct = 0 then sbind (fetch row source_x) (\<lambda>red. Inr (argb 255 red red red))
      else
        (let i = source_x * 2 mod 2 ^ 32
         in sbind (fetch row i) (\<lambda>red. sbind (fetch row ((i + 1) mod 2 ^ 32)) (\<lambda>alpha. Inr (argb alpha red red red)))))"

function png_blit_loop :: "u8 \<Rightarrow> u8 list \<Rightarrow> nat \<Rightarrow> nat \<Rightarrow> nat \<Rightarrow> nat \<Rightarrow> nat \<Rightarrow> u32 list \<Rightarrow> u32 list outcome" where
  "png_blit_loop ct row source_width canvas_width dest_x dest_y source_x canvas =
     (if source_x < source_width \<and> dest_x + source_x < canvas_width then
        sbind (png_pixel ct row source_x) (\<lambda>pixel.
          sbind (store canvas (dest_y * canvas_width + dest_x + source_x) pixel) (\<lambda>canvas.
            png_blit_loop ct row source_width canvas_width dest_x dest_y (source_x + 1) canvas))
      else Inr canvas)"
  by pat_completeness auto
termination
  by (relation "measure (\<lambda>(ct, row, source_width, canvas_width, dest_x, dest_y, source_x, canvas). source_width - source_x)") auto

declare png_blit_loop.simps [simp del]

definition png_blit_row :: "u8 list \<Rightarrow> u32 \<Rightarrow> u32 list \<Rightarrow> u32 \<Rightarrow> u32 \<Rightarrow> u32 \<Rightarrow> u32 \<Rightarrow> u8 \<Rightarrow> u32 list outcome" where
  "png_blit_row row source_width canvas canvas_width canvas_height dest_x dest_y ct =
     (if canvas_width = 0 \<or> canvas_height = 0 then Inl (Fail StatusInvalidArgument)
      else if canvas_height \<le> dest_y then Inr canvas
      else if canvas_width \<le> dest_x then Inr canvas
      else if ct = 6 \<or> ct = 2 \<or> ct = 0 \<or> ct = 4 then
        png_blit_loop ct row (unat source_width) (unat canvas_width) (unat dest_x) (unat dest_y) 0 canvas
      else Inl (Fail StatusNotSupported))"

section \<open>Rendering\<close>

text \<open>One scanline: the canvas and the two row buffers after their swap.\<close>

definition png_render_row ::
  "PngHeader \<Rightarrow> nat \<Rightarrow> nat \<Rightarrow> RosPngMemory \<Rightarrow> u8 list \<Rightarrow> nat \<Rightarrow> nat \<Rightarrow> u8 list \<Rightarrow> u8 list \<Rightarrow> u32 list \<Rightarrow>
     (u32 list \<times> u8 list \<times> u8 list) outcome" where
  "png_render_row header bpp row_bytes memory raw row_index scanline_offset current_row previous_row canvas =
     sbind (fetch raw scanline_offset) (\<lambda>filter_type.
     sbind (png_copy_bytes (row_bytes - 1) raw (scanline_offset + 1) current_row 0) (\<lambda>current_row.
     sbind (png_unfilter_row current_row (if row_index = 0 then None else Some previous_row) (row_bytes - 1) bpp filter_type)
       (\<lambda>current_row.
     sbind (png_blit_row current_row (width header) canvas (mem_width memory) (mem_height memory) (mem_x memory)
              (mem_y memory + of_nat row_index) (color_type header)) (\<lambda>canvas.
     sbind (png_copy_bytes (row_bytes - 1) current_row 0 previous_row 0) (\<lambda>previous_row.
       Inr (canvas, previous_row, current_row))))))"

fun png_render_rows ::
  "nat \<Rightarrow> PngHeader \<Rightarrow> nat \<Rightarrow> nat \<Rightarrow> RosPngMemory \<Rightarrow> u8 list \<Rightarrow> nat \<Rightarrow> nat \<Rightarrow> u8 list \<Rightarrow> u8 list \<Rightarrow> u32 list \<Rightarrow>
     failure option \<times> u32 list" where
  "png_render_rows 0 header bpp row_bytes memory raw row_index off current_row previous_row canvas = (None, canvas)"
| "png_render_rows (Suc n) header bpp row_bytes memory raw row_index off current_row previous_row canvas =
     (case png_render_row header bpp row_bytes memory raw row_index off current_row previous_row canvas of
        Inl e \<Rightarrow> (Some e, canvas)
      | Inr (canvas, current_row, previous_row) \<Rightarrow>
          png_render_rows n header bpp row_bytes memory raw (row_index + 1) (off + 1 + (row_bytes - 1)) current_row previous_row
            canvas)"

text \<open>The part after the image data is inflated: row buffers, clipping test, rows, releases.\<close>

definition png_render_raw ::
  "(nat \<Rightarrow> u8) \<Rightarrow> PngHeader \<Rightarrow> nat \<Rightarrow> nat \<Rightarrow> RosPngMemory \<Rightarrow> u8 list \<Rightarrow> heap \<Rightarrow> failure option \<times> u32 list \<times> heap" where
  "png_render_raw fresh header bpp row_bytes memory raw h =
     (case png_allocate h (row_bytes - 1) of (ok, h) \<Rightarrow>
        if \<not> ok then (Some (Fail StatusNoMemory), mem_buffer memory, free h)
        else
          (case png_allocate h (row_bytes - 1) of (ok, h) \<Rightarrow>
             if \<not> ok then (Some (Fail StatusNoMemory), mem_buffer memory, free (free h))
             else if mem_width memory \<le> mem_x memory \<or> mem_height memory \<le> mem_y memory
             then (None, mem_buffer memory, free (free (free h)))
             else
               (let row = map fresh [0..<row_bytes - 1]
                in case png_render_rows (unat (height header)) header bpp row_bytes memory raw 0 0 row row (mem_buffer memory) of
                     (e, canvas) \<Rightarrow> (e, canvas, free (free (free h))))))"

definition png_render_memory_to_memory ::
  "(nat \<Rightarrow> u8) \<Rightarrow> u8 list \<Rightarrow> RosPngMemory \<Rightarrow> heap \<Rightarrow> failure option \<times> u32 list \<times> heap" where
  "png_render_memory_to_memory fresh bytes memory h =
     (if mem_width memory = 0 \<or> mem_height memory = 0 then (Some (Fail StatusInvalidArgument), mem_buffer memory, h)
      else
        (case png_parse_png_file fresh bytes h of
           (Inl e, h) \<Rightarrow> (Some e, mem_buffer memory, h)
         | (Inr (header, idat, idat_size), h) \<Rightarrow>
             (let channels = png_channels_for_color_type (color_type header)
              in if channels = 0 then (Some (Fail StatusNotSupported), mem_buffer memory, png_release idat h)
                 else
                   (let bpp = unat channels;
                        row_bytes = (unat (width header) * bpp + 1) mod 2 ^ 64;
                        raw_size = row_bytes * unat (height header) mod 2 ^ 64
                    in case png_allocate h raw_size of (ok, h) \<Rightarrow>
                         if \<not> ok then (Some (Fail StatusNoMemory), mem_buffer memory, png_release idat h)
                         else
                           (case png_inflate_zlib (take idat_size (case idat of None \<Rightarrow> [] | Some b \<Rightarrow> b))
                                   (map fresh [0..<raw_size]) raw_size of
                              Inl e \<Rightarrow> (Some e, mem_buffer memory, free (png_release idat h))
                            | Inr raw \<Rightarrow> png_render_raw fresh header bpp row_bytes memory raw (png_release idat h))))))"

section \<open>Entry points\<close>

definition png_get_info_from_bytes :: "u8 list \<Rightarrow> (u32 \<times> u32) outcome" where
  "png_get_info_from_bytes bytes =
     (if length bytes < 33 then Inl (Fail StatusIoError)
      else
        sbind (png_has_signature bytes) (\<lambda>ok.
          if \<not> ok then Inl (Fail StatusNotSupported)
          else
            sbind (png_read_be_u32 bytes 8) (\<lambda>chunk_length. sbind (png_read_be_u32 bytes 12) (\<lambda>chunk_type.
              if chunk_length \<noteq> 13 \<or> chunk_type \<noteq> 0x49484452 then Inl (Fail StatusNotSupported)
              else sbind (png_parse_ihdr bytes 16 13) (\<lambda>header. Inr (width header, height header))))))"

text \<open>
  \<open>readFile\<close> gets the offset and the room of the buffer; it delivers a negative status or the bytes
  it stored. A status the caller passes on unchanged is kept as the integer it is.
\<close>

type_synonym read_file = "nat \<Rightarrow> nat \<Rightarrow> int + u8 list"

definition PngGetInfo :: "read_file \<Rightarrow> (u32 \<times> u32) outcome + int" where
  "PngGetInfo readFile =
     (case readFile 0 33 of
        Inl status \<Rightarrow> Inr status
      | Inr bytes \<Rightarrow>
          if length bytes < 33 then Inl (Inl (Fail StatusIoError)) else Inl (png_get_info_from_bytes (take 33 bytes)))"

definition PngGetInfoFromMemory :: "u8 list \<Rightarrow> (u32 \<times> u32) outcome" where
  "PngGetInfoFromMemory bytes = png_get_info_from_bytes bytes"

text \<open>The file reader: the bytes read, the status that stopped it, or a failure of its own.\<close>

datatype loaded = Loaded "u8 list" | ReadFailed int | LoadFailed failure

partial_function (option) png_read_loop ::
  "(nat \<Rightarrow> u8) \<Rightarrow> read_file \<Rightarrow> u8 list \<Rightarrow> nat \<Rightarrow> heap \<Rightarrow> (loaded \<times> heap) option" where
  "png_read_loop fresh readFile buffer used h =
     (let available = length buffer - used
      in if available = 0 then
           (case png_reallocate_bytes fresh h (Some buffer, length buffer) used (length buffer * 2 mod 2 ^ 64) of
              (Inl e, h) \<Rightarrow> Some (LoadFailed e, free h)
            | (Inr (buffer', capacity), h) \<Rightarrow>
                png_read_loop fresh readFile (case buffer' of None \<Rightarrow> [] | Some b \<Rightarrow> b) used h)
         else
           (case readFile used available of
              Inl status \<Rightarrow> Some (ReadFailed status, free h)
            | Inr bytes \<Rightarrow>
                (case png_copy_bytes (length bytes) bytes 0 buffer used of
                   Inl e \<Rightarrow> Some (LoadFailed e, h)
                 | Inr buffer \<Rightarrow>
                     if bytes = [] \<or> length bytes < available then
                       (let n = used + length bytes
                        in if n = 0 then Some (LoadFailed (Fail StatusIoError), free h) else Some (Loaded (take n buffer), h))
                     else png_read_loop fresh readFile buffer (used + length bytes) h)))"

definition png_read_entire_file :: "(nat \<Rightarrow> u8) \<Rightarrow> read_file \<Rightarrow> heap \<Rightarrow> (loaded \<times> heap) option" where
  "png_read_entire_file fresh readFile h =
     (case png_allocate h 4096 of (ok, h) \<Rightarrow>
        if \<not> ok then Some (LoadFailed (Fail StatusNoMemory), h)
        else png_read_loop fresh readFile (map fresh [0..<4096]) 0 h)"

definition PngRenderFileToMemory ::
  "(nat \<Rightarrow> u8) \<Rightarrow> read_file \<Rightarrow> RosPngMemory \<Rightarrow> heap \<Rightarrow> ((failure option + int) \<times> u32 list \<times> heap) option" where
  "PngRenderFileToMemory fresh readFile memory h =
     (case png_read_entire_file fresh readFile h of
        None \<Rightarrow> None
      | Some (LoadFailed e, h) \<Rightarrow> Some (Inl (Some e), mem_buffer memory, h)
      | Some (ReadFailed status, h) \<Rightarrow> Some (Inr status, mem_buffer memory, h)
      | Some (Loaded bytes, h) \<Rightarrow>
          (case png_render_memory_to_memory fresh bytes memory h of (e, canvas, h) \<Rightarrow> Some (Inl e, canvas, free h)))"

definition PngRenderMemoryToMemory ::
  "(nat \<Rightarrow> u8) \<Rightarrow> u8 list \<Rightarrow> RosPngMemory \<Rightarrow> heap \<Rightarrow> failure option \<times> u32 list \<times> heap" where
  "PngRenderMemoryToMemory fresh bytes memory h = png_render_memory_to_memory fresh bytes memory h"

end
