(* ===== verification/Png_Rows.thy ===== *)
theory Png_Rows
  imports Png_Image
begin

text \<open>
  What the scanline and drawing routines of the PNG decoder do: reconstruction inverts the five
  filters of the PNG specification, and drawing changes exactly the clipped part of one canvas row.
\<close>

section \<open>The filters of the specification\<close>

text \<open>The predictor closest to \<open>a + b - c\<close>, with ties broken in the order left, up, upper left.\<close>

definition paeth_spec :: "u8 \<Rightarrow> u8 \<Rightarrow> u8 \<Rightarrow> u8" where
  "paeth_spec a b c =
     (let d = (\<lambda>v. \<bar>uint a + uint b - uint c - uint v\<bar>)
      in if d a = Min {d a, d b, d c} then a else if d b = Min {d a, d b, d c} then b else c)"

definition predicted :: "u8 \<Rightarrow> nat \<Rightarrow> u8 list option \<Rightarrow> u8 list \<Rightarrow> nat \<Rightarrow> u8" where
  "predicted ft bpp prev raw i =
     (let a = (if bpp \<le> i then raw ! (i - bpp) else 0);
          b = (case prev of None \<Rightarrow> 0 | Some p \<Rightarrow> p ! i);
          c = (case prev of None \<Rightarrow> 0 | Some p \<Rightarrow> if bpp \<le> i then p ! (i - bpp) else 0)
      in if ft = 1 then a else if ft = 2 then b else if ft = 3 then word_of_int ((uint a + uint b) div 2)
         else if ft = 4 then paeth_spec a b c else 0)"

definition filter_row :: "u8 \<Rightarrow> nat \<Rightarrow> u8 list option \<Rightarrow> u8 list \<Rightarrow> u8 list" where
  "filter_row ft bpp prev raw = map (\<lambda>i. raw ! i - predicted ft bpp prev raw i) [0..<length raw]"

lemma paeth_predictor_spec: "png_paeth_predictor a b c = paeth_spec a b c"
  by (auto simp: png_paeth_predictor_def paeth_spec_def Let_def min_def)

lemma average_byte_spec: "average_byte a b = word_of_int ((uint a + uint b) div 2)"
proof -
  have lt: "uint a < 256" "uint b < 256" using uint_lt2p [of a] uint_lt2p [of b] by simp_all
  have "uint (ucast a + ucast b :: u32) = uint a + uint b"
    using lt by (simp add: uint_word_ariths unsigned_ucast_eq take_bit_eq_mod)
  then have "uint (drop_bit 1 (ucast a + ucast b :: u32)) = (uint a + uint b) div 2"
    by (simp add: drop_bit_eq_div uint_div)
  then show ?thesis
    by (metis average_byte_def ucast_eq)
qed

section \<open>Reconstruction\<close>

lemma row_loop_restores:
  assumes "length row = length raw" "i + n = length raw"
    and "\<And>k. k < i \<Longrightarrow> row ! k = raw ! k" "\<And>k. i \<le> k \<Longrightarrow> k < length raw \<Longrightarrow> row ! k = raw ! k - p k"
    and "\<And>row' k. i \<le> k \<Longrightarrow> k < length raw \<Longrightarrow> length row' = length raw \<Longrightarrow> (\<And>j. j < k \<Longrightarrow> row' ! j = raw ! j) \<Longrightarrow>
      predict row' k = Inr (p k)"
  shows "png_row_loop n predict row i = Inr raw"
  using assms
proof (induction n arbitrary: row i)
  case 0
  then show ?case by (auto intro!: nth_equalityI)
next
  case (Suc n)
  then have i: "i < length raw" by simp
  have "predict row i = Inr (p i)" using Suc.prems i by simp
  moreover have "row ! i + p i = raw ! i" using Suc.prems(4) [of i] i by simp
  moreover have "png_row_loop n predict (row[i := raw ! i]) (Suc i) = Inr raw"
  proof (rule Suc.IH)
    show "(row[i := raw ! i]) ! k = raw ! k" if "k < Suc i" for k
      using that Suc.prems(1,3) i by (cases "k = i") simp_all
    show "predict row' k = Inr (p k)" if "Suc i \<le> k" "k < length raw" "length row' = length raw"
      "\<And>j. j < k \<Longrightarrow> row' ! j = raw ! j" for row' k
      using that Suc.prems(5) [of k row'] by simp
  qed (use Suc.prems in simp_all)
  ultimately show ?case using i Suc.prems(1) by simp
qed

lemma unfilter_row_restores:
  assumes "0 < bpp" "ft \<le> 4" "\<And>p. prev = Some p \<Longrightarrow> length p = length raw"
  shows "png_unfilter_row (filter_row ft bpp prev raw) prev (length raw) bpp ft = Inr raw"
proof -
  have len: "length (filter_row ft bpp prev raw) = length raw" by (simp add: filter_row_def)
  have nth: "filter_row ft bpp prev raw ! k = raw ! k - predicted ft bpp prev raw k" if "k < length raw" for k
    using that by (simp add: filter_row_def)
  have zero: "filter_row ft bpp prev raw = raw" if "\<And>k. k < length raw \<Longrightarrow> predicted ft bpp prev raw k = 0"
    using that by (auto simp: filter_row_def intro!: nth_equalityI)
  note restore = row_loop_restores [OF len, of _ _ "predicted ft bpp prev raw"]
  have "unat ft \<le> 4" using assms(2) by (simp add: word_le_nat_alt)
  then consider "ft = 0" | "ft = 1" | "ft = 2" | "ft = 3" | "ft = 4"
    by (auto simp: word_unat_eq_iff dest!: le_neq_implies_less) arith
  then show ?thesis
  proof cases
    case 1
    then have "filter_row ft bpp prev raw = raw" by (intro zero) (simp add: predicted_def)
    with 1 assms(1) show ?thesis by (simp add: png_unfilter_row_def)
  next
    case 2
    then have pr: "predicted ft bpp prev raw k = (if bpp \<le> k then raw ! (k - bpp) else 0)" for k
      by (simp add: predicted_def)
    have "png_row_loop (length raw - bpp) (\<lambda>row i. fetch row (i - bpp)) (filter_row ft bpp prev raw) bpp = Inr raw"
    proof (cases "bpp \<le> length raw")
      case True
      then show ?thesis using assms(1) by (intro restore) (auto simp: nth pr)
    next
      case False
      then show ?thesis using zero pr by simp
    qed
    with 2 assms(1) show ?thesis by (simp add: png_unfilter_row_def)
  next
    case 3
    have none: "prev = None \<Longrightarrow> filter_row ft bpp prev raw = raw" by (rule zero) (simp add: predicted_def 3)
    have some: "png_row_loop (length raw) (\<lambda>row i. fetch p i) (filter_row ft bpp prev raw) 0 = Inr raw" if "prev = Some p" for p
      using assms(3) [OF that] by (intro restore) (auto simp: nth, simp add: predicted_def 3 that)
    show ?thesis
    proof (cases prev)
      case None
      with none 3 assms(1) show ?thesis by (simp add: png_unfilter_row_def)
    next
      case (Some p)
      with some [OF Some] 3 assms(1) show ?thesis by (simp add: png_unfilter_row_def)
    qed
  next
    case 4
    let ?f = "\<lambda>row i. sbind (left_byte bpp row i) (\<lambda>l. sbind (up_byte prev i) (\<lambda>up. Inr (average_byte l up)))"
    have "png_row_loop (length raw) ?f (filter_row ft bpp prev raw) 0 = Inr raw"
    proof (rule restore)
      fix row' :: "u8 list" and k
      assume "k < length raw" "length row' = length raw" "\<And>j. j < k \<Longrightarrow> row' ! j = raw ! j"
      then show "?f row' k = Inr (predicted ft bpp prev raw k)"
        using assms(1,3) unfolding predicted_def 4
        by (auto simp: left_byte_def up_byte_def average_byte_spec split: option.split)
    qed (simp_all add: nth)
    with 4 assms(1) show ?thesis by (simp add: png_unfilter_row_def)
  next
    case 5
    let ?f = "\<lambda>row i. sbind (left_byte bpp row i) (\<lambda>l. sbind (up_byte prev i) (\<lambda>up. sbind (up_left_byte bpp prev i) (\<lambda>ul.
      Inr (png_paeth_predictor l up ul))))"
    have "png_row_loop (length raw) ?f (filter_row ft bpp prev raw) 0 = Inr raw"
    proof (rule restore)
      fix row' :: "u8 list" and k
      assume "k < length raw" "length row' = length raw" "\<And>j. j < k \<Longrightarrow> row' ! j = raw ! j"
      then show "?f row' k = Inr (predicted ft bpp prev raw k)"
        using assms(1,3) unfolding predicted_def 5
        by (auto simp: left_byte_def up_byte_def up_left_byte_def paeth_predictor_spec split: option.split)
    qed (simp_all add: nth)
    with 5 assms(1) show ?thesis by (simp add: png_unfilter_row_def)
  qed
qed

lemma row_loop_yields:
  assumes "\<And>row' k. i \<le> k \<Longrightarrow> k < i + n \<Longrightarrow> length row' = length row \<Longrightarrow> yields (predict row' k) (\<lambda>_. True)"
    and "n = 0 \<or> i + n \<le> length row"
  shows "yields (png_row_loop n predict row i) (\<lambda>row'. length row' = length row)"
  using assms
proof (induction n arbitrary: row i)
  case (Suc n)
  have "yields (png_row_loop n predict (row[i := row ! i + v]) (Suc i)) (\<lambda>row'. length row' = length row)" for v
    using Suc.IH [of "Suc i" "row[i := row ! i + v]"] Suc.prems by simp
  with Suc.prems show ?case by (auto intro!: yields_bind [OF Suc.prems(1)])
qed simp

lemma unfilter_row_yields:
  assumes "\<And>p. prev = Some p \<Longrightarrow> length p = length row"
  shows "yields (png_unfilter_row row prev (length row) bpp ft) (\<lambda>row'. length row' = length row)"
proof -
  have lb: "yields (left_byte bpp row' k) (\<lambda>_. True)" "yields (up_byte prev k) (\<lambda>_. True)"
    "yields (up_left_byte bpp prev k) (\<lambda>_. True)" if "k < length row" "length row' = length row" for row' k
    using that assms by (auto simp: left_byte_def up_byte_def up_left_byte_def split: option.split)
  have 3: "yields (sbind (left_byte bpp row' k) (\<lambda>l. sbind (up_byte prev k) (\<lambda>up. Inr (average_byte l up)))) (\<lambda>_. True)"
    if "k < length row" "length row' = length row" for row' k
    by (rule yields_bind [OF lb(1) [OF that]], rule yields_bind [OF lb(2) [OF that]]) simp
  have 4: "yields (sbind (left_byte bpp row' k) (\<lambda>l. sbind (up_byte prev k) (\<lambda>up. sbind (up_left_byte bpp prev k) (\<lambda>ul.
      Inr (png_paeth_predictor l up ul))))) (\<lambda>_. True)"
    if "k < length row" "length row' = length row" for row' k
    by (rule yields_bind [OF lb(1) [OF that]], rule yields_bind [OF lb(2) [OF that]], rule yields_bind [OF lb(3) [OF that]]) simp
  have up: "yields (case prev of None \<Rightarrow> Inr row | Some p \<Rightarrow> png_row_loop (length row) (\<lambda>row i. fetch p i) row 0)
      (\<lambda>row'. length row' = length row)"
    using assms by (auto intro!: row_loop_yields split: option.split)
  show ?thesis
    unfolding png_unfilter_row_def
    by (intro yields_if row_loop_yields up 3 4) auto
qed

section \<open>Drawing\<close>

text \<open>The pixel a row of the specification has at \<open>x\<close>: greyscale, RGB, grey with alpha or RGBA.\<close>

definition pixel_at :: "u8 \<Rightarrow> u8 list \<Rightarrow> nat \<Rightarrow> u32" where
  "pixel_at ct row x =
     (if ct = 6 then argb (row ! (4 * x + 3)) (row ! (4 * x)) (row ! (4 * x + 1)) (row ! (4 * x + 2))
      else if ct = 2 then argb 255 (row ! (3 * x)) (row ! (3 * x + 1)) (row ! (3 * x + 2))
      else if ct = 0 then argb 255 (row ! x) (row ! x) (row ! x)
      else argb (row ! (2 * x + 1)) (row ! (2 * x)) (row ! (2 * x)) (row ! (2 * x)))"

lemma pixel_ok:
  assumes "ct = 6 \<or> ct = 2 \<or> ct = 0 \<or> ct = 4" "x < sw" "sw \<le> 0x3FFFFFFF"
    and "sw * unat (png_channels_for_color_type ct) \<le> length row"
  shows "png_pixel ct row x = Inr (pixel_at ct row x)"
proof -
  have "x < 1073741823" using assms(2,3) by simp
  with assms(1) assms(2,4) show ?thesis
    by (elim disjE) (simp_all add: png_pixel_def pixel_at_def png_channels_for_color_type_def mult.commute [of x] Let_def)
qed

lemma blit_loop_effect:
  assumes "ct = 6 \<or> ct = 2 \<or> ct = 0 \<or> ct = 4" "sw \<le> 0x3FFFFFFF"
    and "sw * unat (png_channels_for_color_type ct) \<le> length row"
    and "dy * cw + cw \<le> length canvas"
  shows "\<exists>canvas'. png_blit_loop ct row sw cw dx dy x canvas = Inr canvas' \<and> length canvas' = length canvas \<and>
    (\<forall>i < length canvas. canvas' ! i =
       (if dy * cw + dx + x \<le> i \<and> i < dy * cw + cw \<and> i < dy * cw + dx + sw then pixel_at ct row (i - (dy * cw + dx)) else canvas ! i))"
  using assms(4)
proof (induction "sw - x" arbitrary: x canvas rule: less_induct)
  case less
  let ?b = "dy * cw + dx"
  show ?case
  proof (cases "x < sw \<and> dx + x < cw")
    case True
    let ?c = "canvas[?b + x := pixel_at ct row x]"
    have inb: "?b + x < length canvas" using True less(2) by linarith
    have "sw - (x + 1) < sw - x" using True by (intro diff_less_mono2) simp_all
    from less(1) [OF this, of ?c] less(2) obtain c' where
      c': "png_blit_loop ct row sw cw dx dy (x + 1) ?c = Inr c'" "length c' = length canvas"
        "\<And>i. i < length canvas \<Longrightarrow> c' ! i =
          (if ?b + (x + 1) \<le> i \<and> i < dy * cw + cw \<and> i < ?b + sw then pixel_at ct row (i - ?b) else ?c ! i)" by auto
    have "png_blit_loop ct row sw cw dx dy x canvas = Inr c'"
      using True c'(1) inb pixel_ok [OF assms(1) _ assms(2,3)]
      by (subst png_blit_loop.simps) (simp del: One_nat_def add_Suc_right)
    moreover have "c' ! i = (if ?b + x \<le> i \<and> i < dy * cw + cw \<and> i < ?b + sw then pixel_at ct row (i - ?b) else canvas ! i)"
      if "i < length canvas" for i
      using c'(3) [OF that] True inb by (cases "i = ?b + x") auto
    ultimately show ?thesis using c'(2) by blast
  next
    case False
    then have none: "\<not> (?b + x \<le> i \<and> i < dy * cw + cw \<and> i < ?b + sw)" for i by auto
    have "png_blit_loop ct row sw cw dx dy x canvas = Inr canvas"
      by (subst png_blit_loop.simps) (simp only: False if_False)
    then show ?thesis by (auto simp: none)
  qed
qed

text \<open>Canvas coordinates.\<close>

definition canvas_at :: "u32 list \<Rightarrow> nat \<Rightarrow> nat \<Rightarrow> nat \<Rightarrow> u32" where
  "canvas_at canvas cw x y = canvas ! (y * cw + x)"

lemma row_before: "y < y' \<Longrightarrow> x < cw \<Longrightarrow> y * cw + x < y' * (cw :: nat)"
proof -
  assume "y < y'" "x < cw"
  then have "Suc y * cw \<le> y' * cw" by (intro mult_le_mono1) simp
  with \<open>x < cw\<close> show ?thesis by simp
qed

lemma blit_row_effect:
  assumes ct: "png_channels_for_color_type ct \<noteq> 0" and sw: "sw \<le> 0x3FFFFFFF"
    and row: "unat sw * unat (png_channels_for_color_type ct) \<le> length row"
    and canvas: "length canvas = unat cw * unat ch" and dx: "dx < cw" and cw: "cw \<noteq> 0" "ch \<noteq> 0"
  shows "\<exists>canvas'. png_blit_row row sw canvas cw ch dx dy ct = Inr canvas' \<and> length canvas' = length canvas \<and>
    (\<forall>x y. x < unat cw \<longrightarrow> y < unat ch \<longrightarrow> canvas_at canvas' (unat cw) x y =
       (if y = unat dy \<and> unat dx \<le> x \<and> x < unat dx + unat sw then pixel_at ct row (x - unat dx) else canvas_at canvas (unat cw) x y))"
proof (cases "ch \<le> dy")
  case True
  have "y \<noteq> unat dy" if "y < unat ch" for y using that True by (auto simp: word_le_nat_alt)
  then show ?thesis using True cw by (auto simp: png_blit_row_def)
next
  case False
  let ?w = "unat cw" and ?d = "unat dy"
  have c: "ct = 6 \<or> ct = 2 \<or> ct = 0 \<or> ct = 4" using ct by (auto simp: png_channels_for_color_type_def split: if_splits)
  have dy: "?d < unat ch" using False by (simp add: word_le_nat_alt)
  then have "Suc ?d * ?w \<le> unat ch * ?w" by (intro mult_le_mono1) simp
  then have room: "?d * ?w + ?w \<le> length canvas" by (simp add: canvas ac_simps)
  have sw': "unat sw \<le> 0x3FFFFFFF" using sw by (simp add: word_le_nat_alt)
  from blit_loop_effect [OF c sw' row room, of "unat dx" 0] obtain c' where
    c': "png_blit_loop ct row (unat sw) ?w (unat dx) ?d 0 canvas = Inr c'" "length c' = length canvas"
      "\<And>i. i < length canvas \<Longrightarrow> c' ! i = (if ?d * ?w + unat dx \<le> i \<and> i < ?d * ?w + ?w \<and> i < ?d * ?w + unat dx + unat sw
        then pixel_at ct row (i - (?d * ?w + unat dx)) else canvas ! i)" by auto
  have "canvas_at c' ?w x y = (if y = ?d \<and> unat dx \<le> x \<and> x < unat dx + unat sw then pixel_at ct row (x - unat dx)
      else canvas_at canvas ?w x y)" if x: "x < ?w" and y: "y < unat ch" for x y
  proof -
    have i: "y * ?w + x < length canvas" using row_before [OF y x] by (simp add: canvas ac_simps)
    consider "y < ?d" | "y = ?d" | "?d < y" by linarith
    then show ?thesis
    proof cases
      case 1
      then show ?thesis using c'(3) [OF i] row_before [OF 1 x] by (simp add: canvas_at_def)
    next
      case 2
      then show ?thesis using c'(3) [OF i] x by (simp add: canvas_at_def)
    next
      case 3
      have "?d * ?w + ?w \<le> y * ?w + x"
      proof -
        have "Suc ?d * ?w \<le> y * ?w" using 3 by (intro mult_le_mono1) simp
        then show ?thesis by simp
      qed
      then show ?thesis using c'(3) [OF i] 3 by (simp add: canvas_at_def)
    qed
  qed
  moreover have "png_blit_row row sw canvas cw ch dx dy ct = Inr c'"
    using c'(1) c cw False dx by (auto simp: png_blit_row_def)
  ultimately show ?thesis using c'(2) by blast
qed

section \<open>Properties\<close>

text \<open>Reconstructing a scanline inverts the filter it was encoded with, for each of the five filter
  types of the PNG specification, any pixel size and with or without a previous row.\<close>

theorem unfilter_row_inverts:
  assumes "0 < bpp" and "ft \<le> 4" and "\<And>p. prev = Some p \<Longrightarrow> length p = length raw"
  shows "png_unfilter_row (filter_row ft bpp prev raw) prev (length raw) bpp ft = Inr raw"
  using assms by (rule unfilter_row_restores)

theorem unfilter_row_inverts_witness:
  "png_unfilter_row (filter_row 4 1 (Some [5, 6, 7]) [1, 200, 3]) (Some [5, 6, 7]) 3 1 4 = Inr [1, 200, 3]"
  using unfilter_row_inverts [of 1 4 "Some [5, 6, 7]" "[1, 200, 3]"] by (simp add: numeral_eq_Suc)

text \<open>Drawing a scanline stores, for every canvas position, the source pixel if the position lies in the
  drawn row and in the horizontal range of the image, and leaves every other pixel as it was; it
  never leaves the canvas or the row.\<close>

theorem blit_row_correct:
  assumes "png_channels_for_color_type ct \<noteq> 0" and "sw \<le> 0x3FFFFFFF"
    and "unat sw * unat (png_channels_for_color_type ct) \<le> length row"
    and "length canvas = unat cw * unat ch" and "dx < cw" and "cw \<noteq> 0" and "ch \<noteq> 0"
  shows "\<exists>canvas'. png_blit_row row sw canvas cw ch dx dy ct = Inr canvas' \<and> length canvas' = length canvas \<and>
    (\<forall>x y. x < unat cw \<longrightarrow> y < unat ch \<longrightarrow> canvas_at canvas' (unat cw) x y =
       (if y = unat dy \<and> unat dx \<le> x \<and> x < unat dx + unat sw then pixel_at ct row (x - unat dx) else canvas_at canvas (unat cw) x y))"
  using assms by (rule blit_row_effect)

theorem blit_row_correct_witness:
  "\<exists>canvas'. png_blit_row [10, 20, 30] 1 [7, 8, 9, 6] 2 2 1 1 2 = Inr canvas' \<and>
     canvas_at canvas' 2 1 1 = argb 255 10 20 30 \<and> canvas_at canvas' 2 0 1 = 9"
proof -
  have c: "png_channels_for_color_type 2 = 3" by (simp add: png_channels_for_color_type_def)
  obtain canvas' where "png_blit_row [10, 20, 30] 1 [7, 8, 9, 6] 2 2 1 1 2 = Inr canvas'"
    and px: "\<And>x y. x < 2 \<Longrightarrow> y < 2 \<Longrightarrow> canvas_at canvas' 2 x y =
      (if y = 1 \<and> 1 \<le> x \<and> x < 2 then pixel_at 2 [10, 20, 30] (x - 1) else canvas_at [7, 8, 9, 6] 2 x y)"
    using blit_row_correct [of 2 1 "[10, 20, 30]" "[7, 8, 9, 6]" 2 2 1 1] c by auto
  moreover have "canvas_at canvas' 2 1 1 = argb 255 10 20 30" "canvas_at canvas' 2 0 1 = 9"
    using px [of 1 1] px [of 0 1] by (simp_all add: pixel_at_def canvas_at_def)
  ultimately show ?thesis by blast
qed

end
