(* ===== verification/Png_Render.thy ===== *)
theory Png_Render
  imports Png_Rows
begin

text \<open>
  The whole PNG renderer: no input makes it leave its buffers or leak a block, and files laid out
  as the PNG specification says are drawn as the image they encode.
\<close>

section \<open>Growing buffers\<close>

definition bytes_of :: "byte_buffer \<Rightarrow> u8 list" where
  "bytes_of buf = (case fst buf of None \<Rightarrow> [] | Some b \<Rightarrow> b)"

definition buffer_ok :: "byte_buffer \<Rightarrow> bool" where
  "buffer_ok buf \<longleftrightarrow> length (bytes_of buf) = snd buf"

text \<open>The blocks a buffer owns.\<close>

definition owned :: "u8 list option \<Rightarrow> nat" where
  "owned b = (if b = None then 0 else 1)"

lemma release_live: "owned b \<le> live h \<Longrightarrow> live (png_release b h) + owned b = live h"
  by (auto simp: png_release_def owned_def split: option.split)

lemma grow_capacity_ge: "0 < c \<Longrightarrow> png_grow_capacity c req = Inr c' \<Longrightarrow> req \<le> c'"
proof (induction c req rule: png_grow_capacity.induct)
  case (1 c req)
  from 1(3) [unfolded png_grow_capacity.simps [of c req]] 1(1,2) show ?case by (auto split: if_splits)
qed

lemma grow_capacity_not_wild: "png_grow_capacity c req \<noteq> Inl Wild"
proof (induction c req rule: png_grow_capacity.induct)
  case (1 c req)
  then show ?case by (subst png_grow_capacity.simps) auto
qed

lemma allocate_live: "png_allocate h n = (ok, h') \<Longrightarrow> live h' = live h + of_bool ok"
  by (auto simp: png_allocate_def malloc_def split: if_splits)

lemma reallocate_effect:
  assumes ok: "buffer_ok buf" "used \<le> snd buf" "owned (fst buf) \<le> live h"
    and r: "png_reallocate_bytes fresh h buf used req = (r, h')"
  shows "case r of Inl e \<Rightarrow> e \<noteq> Wild \<and> live h' = live h
    | Inr buf' \<Rightarrow> buffer_ok buf' \<and> req \<le> snd buf' \<and> used \<le> snd buf' \<and> take used (bytes_of buf') = take used (bytes_of buf) \<and>
        live h' + owned (fst buf) = live h + owned (fst buf')"
proof -
  obtain b c where buf: "buf = (b, c)" by (cases buf)
  show ?thesis
  proof (cases "req \<le> c")
    case True
    then show ?thesis using r ok by (auto simp: buf png_reallocate_bytes_def)
  next
    case False
    let ?c = "if c = 0 then 4096 else c"
    show ?thesis
    proof (cases "png_grow_capacity ?c req")
      case (Inl e)
      then show ?thesis using r False grow_capacity_not_wild [of ?c req] by (auto simp: buf png_reallocate_bytes_def)
    next
      case (Inr n)
      then have n: "req \<le> n" using grow_capacity_ge [of ?c] by simp
      obtain ok' h1 where a: "png_allocate h n = (ok', h1)" by (metis surj_pair)
      note live = allocate_live [OF a]
      have len: "length (bytes_of buf) = c" "used \<le> c" using ok by (simp_all add: buffer_ok_def buf)
      have copy: "png_copy_bytes used (case b of None \<Rightarrow> [] | Some x \<Rightarrow> x) 0 (map fresh [0..<n]) 0 =
          Inr (take used (bytes_of buf) @ drop used (map fresh [0..<n]))"
        using len n False copy_stored_effect [of 0 used "bytes_of buf" 0 "map fresh [0..<n]"]
        by (simp add: bytes_of_def buf)
      have rel: "owned b \<le> live h1" "live (png_release b h1) + owned b = live h1"
        using ok(3) live release_live [of b h1] by (simp_all add: buf)
      let ?new = "take used (bytes_of buf) @ drop used (map fresh [0..<n])"
      have new: "length ?new = n" "take used ?new = take used (bytes_of buf)" using len n False by simp_all
      show ?thesis
      proof (cases ok')
        case True
        then have "r = Inr (Some ?new, n)" "h' = png_release b h1"
          using r False Inr a copy by (simp_all add: buf png_reallocate_bytes_def)
        moreover have "buffer_ok (Some ?new, n)" "bytes_of (Some ?new, n) = ?new" "owned (Some ?new) = 1"
          using new(1) by (simp_all add: buffer_ok_def bytes_of_def owned_def)
        ultimately show ?thesis using True live n new(2) rel len False by (simp add: buf)
      next
        case no: False
        then show ?thesis using r False Inr a live by (auto simp: buf png_reallocate_bytes_def)
      qed
    qed
  qed
qed

lemma append_effect:
  assumes ok: "buffer_ok buf" "n \<le> snd buf" "owned (fst buf) \<le> live h"
    and src: "off + len \<le> length data" "n + len < 2 ^ 64"
    and r: "png_append_bytes fresh h buf n data off len = (r, h')"
  shows "case r of Inl e \<Rightarrow> e \<noteq> Wild \<and> live h' = live h
    | Inr (buf', n') \<Rightarrow> buffer_ok buf' \<and> n' = n + len \<and> n' \<le> snd buf' \<and>
        take n' (bytes_of buf') = take n (bytes_of buf) @ take len (drop off data) \<and>
        live h' + owned (fst buf) = live h + owned (fst buf')"
proof -
  obtain q h1 where q: "png_reallocate_bytes fresh h buf n (n + len) = (q, h1)" by (metis surj_pair)
  note e = reallocate_effect [OF ok q]
  show ?thesis
  proof (cases q)
    case (Inl x)
    with q e r src(2) show ?thesis by (auto simp: png_append_bytes_def)
  next
    case (Inr buf1)
    obtain b c where buf1: "buf1 = (b, c)" by (cases buf1)
    from e Inr have e': "length (bytes_of buf1) = c" "n + len \<le> c" "take n (bytes_of buf1) = take n (bytes_of buf)"
      "live h1 + owned (fst buf) = live h + owned b" by (simp_all add: buffer_ok_def buf1)
    have copy: "png_copy_bytes len data off (case b of None \<Rightarrow> [] | Some x \<Rightarrow> x) n =
        Inr (take n (bytes_of buf1) @ take len (drop off data) @ drop (n + len) (bytes_of buf1))"
      using copy_stored_effect [OF src(1), of n "bytes_of buf1"] e'(1,2) by (simp add: bytes_of_def buf1)
    let ?b = "take n (bytes_of buf1) @ take len (drop off data) @ drop (n + len) (bytes_of buf1)"
    have res: "r = Inr ((map_option (\<lambda>_. ?b) b, c), n + len)" "h' = h1"
      using r q copy src(2) by (simp_all add: png_append_bytes_def Inr buf1 Let_def)
    have b: "b = None \<Longrightarrow> c = 0" using e'(1) by (simp add: bytes_of_def buf1)
    have "bytes_of (map_option (\<lambda>_. ?b) b, c) = ?b"
      using e'(1,2) b src(1) by (cases b) (simp_all add: bytes_of_def buf1)
    moreover have "length ?b = c" "take (n + len) ?b = take n (bytes_of buf) @ take len (drop off data)"
      using e' src(1) ok(1,2) by (simp_all add: buffer_ok_def)
    ultimately show ?thesis using res e' by (simp add: buffer_ok_def owned_def)
  qed
qed

section \<open>Parsing\<close>

definition header_ok :: "PngHeader \<Rightarrow> bool" where
  "header_ok hdr \<longleftrightarrow> 0 < width hdr \<and> width hdr \<le> 0x3FFFFFFF \<and> 0 < height hdr \<and> height hdr \<le> 0x3FFFFFFF \<and>
     png_channels_for_color_type (color_type hdr) \<noteq> 0"

lemma ihdr_yields:
  assumes "off + len \<le> length data"
  shows "yields (png_parse_ihdr data off len) header_ok"
proof (cases "len = 13")
  case True
  have "yields (png_read_be_u32 data (off + k)) (\<lambda>_. True)" if "k \<le> 4" for k
    using assms that True by (intro be_u32_yields) simp
  from this [of 0] this [of 4] assms True show ?thesis
    unfolding png_parse_ihdr_def
    by (auto intro!: yields_if yields_bind [where m = "png_read_be_u32 _ _"] simp: header_ok_def word_gt_0 not_less)
next
  case False
  then show ?thesis by (simp add: png_parse_ihdr_def)
qed

text \<open>The state of the chunk loop at an offset, with \<open>base\<close> blocks owned by others.\<close>

definition parsing :: "nat \<Rightarrow> nat \<Rightarrow> png_parse \<Rightarrow> heap \<Rightarrow> bool" where
  "parsing base offset p h \<longleftrightarrow> buffer_ok (parse_idat p) \<and> parse_idat_size p \<le> snd (parse_idat p) \<and>
     parse_idat_size p \<le> offset \<and> live h = base + owned (fst (parse_idat p)) \<and>
     (\<forall>hdr. parse_header p = Some hdr \<longrightarrow> header_ok hdr)"

lemma chunk_effect:
  assumes ok: "parsing base off p h" and len: "off + unat cl \<le> length data" "length data < 2 ^ 64"
    and r: "png_chunk fresh data off cl ct p h = (r, h')"
  shows "case r of Inl e \<Rightarrow> e \<noteq> Wild \<and> live h' = live h | Inr p' \<Rightarrow> parsing base (off + unat cl) p' h'"
proof -
  have p: "buffer_ok (parse_idat p)" "parse_idat_size p \<le> snd (parse_idat p)" "owned (fst (parse_idat p)) \<le> live h"
    "parse_idat_size p + unat cl < 2 ^ 64"
    using ok len by (simp_all add: parsing_def)
  show ?thesis
  proof (cases "ct = 0x49444154")
    case True
    obtain q h1 where a: "png_append_bytes fresh h (parse_idat p) (parse_idat_size p) data off (unat cl) = (q, h1)"
      by (metis surj_pair)
    note e = append_effect [OF p(1,2,3) len(1) p(4) a]
    show ?thesis
    proof (cases q)
      case (Inl x)
      then show ?thesis using r a e True by (auto simp: png_chunk_def)
    next
      case (Inr x)
      obtain buf n where x: "x = (buf, n)" by (cases x)
      then show ?thesis using r a e True Inr ok by (auto simp: png_chunk_def parsing_def)
    qed
  next
    case False
    have "parsing base (off + unat cl) p h" using ok by (auto simp: parsing_def)
    moreover have "case png_parse_ihdr data off (unat cl) of Inl e \<Rightarrow> e \<noteq> Wild | Inr hdr \<Rightarrow> header_ok hdr"
      using ihdr_yields [OF len(1)] by (auto simp: yields_def delivers_def split: sum.split)
    ultimately show ?thesis using r False by (auto simp: png_chunk_def parsing_def split: if_splits sum.splits)
  qed
qed

lemma parse_chunks_effect:
  assumes "parsing base off p h" "length data < 2 ^ 64" "png_parse_chunks fresh data off p h = (r, p', h')"
  shows "r \<noteq> Inl Wild \<and> (\<exists>off'. parsing base off' p' h')"
  using assms
proof (induction fresh data off p h rule: png_parse_chunks.induct)
  case (1 fresh data off p h)
  show ?case
  proof (cases "off + 8 \<le> length data")
    case True
    have "off + 4 \<le> length data" "(off + 4) + 4 \<le> length data" using True by simp_all
    then obtain cl ct where "png_read_be_u32 data off = Inr cl" "png_read_be_u32 data (off + 4) = Inr ct"
      by (auto simp: png_read_be_u32_def)
    then have rd: "sbind (png_read_be_u32 data off) (\<lambda>l. sbind (png_read_be_u32 data (off + 4)) (\<lambda>t. Inr (l, t))) = Inr (cl, ct)"
      by simp
    let ?o = "off + 8"
    show ?thesis
    proof (cases "length data < ?o + unat cl + 4 \<or> ct = 0x49454E44")
      case stop: True
      with 1(2-4) True rd show ?thesis
        by (subst (asm) png_parse_chunks.simps) (auto simp: Let_def split: if_splits)
    next
      case False
      obtain q h1 where c: "png_chunk fresh data ?o cl ct p h = (q, h1)" by (metis surj_pair)
      have "parsing base ?o p h" using 1(2) by (simp add: parsing_def)
      note e = chunk_effect [OF this _ 1(3) c]
      have eq: "png_parse_chunks fresh data off p h = (case q of Inl e \<Rightarrow> (Inl e, p, h1)
          | Inr p1 \<Rightarrow> png_parse_chunks fresh data (?o + unat cl + 4) p1 h1)"
        using True rd False c by (subst png_parse_chunks.simps) (simp add: Let_def split: sum.split)
      show ?thesis
      proof (cases q)
        case (Inl x)
        with e False 1(4) eq 1(2) show ?thesis by (auto simp: parsing_def)
      next
        case (Inr p1)
        have "parsing base (?o + unat cl + 4) p1 h1" using e False Inr by (auto simp: parsing_def)
        with 1(1) [OF True rd refl refl _ _ c [symmetric] Inr] False 1(3,4) eq Inr show ?thesis by auto
      qed
    qed
  next
    case False
    with 1(2,4) show ?thesis by (subst (asm) png_parse_chunks.simps) auto
  qed
qed

section \<open>Rows\<close>

text \<open>The buffers of the row loop: two rows, the scanlines left and the canvas.\<close>

definition rows_ok :: "PngHeader \<Rightarrow> nat \<Rightarrow> RosPngMemory \<Rightarrow> u8 list \<Rightarrow> u8 list \<Rightarrow> u32 list \<Rightarrow> bool" where
  "rows_ok hdr row_bytes memory cur prv canvas \<longleftrightarrow> header_ok hdr \<and>
     row_bytes = unat (width hdr) * unat (png_channels_for_color_type (color_type hdr)) + 1 \<and>
     length cur = row_bytes - 1 \<and> length prv = row_bytes - 1 \<and>
     length canvas = unat (mem_width memory) * unat (mem_height memory) \<and> mem_x memory < mem_width memory \<and>
     mem_height memory \<noteq> 0"

lemma copy_row: "length src = n \<Longrightarrow> length dst = n \<Longrightarrow> png_copy_bytes n src 0 dst 0 = Inr src"
  using copy_stored_effect [of 0 n src 0 dst] by simp

lemma copy_scanline:
  "off + n \<le> length raw \<Longrightarrow> length dst = n \<Longrightarrow> png_copy_bytes n raw off dst 0 = Inr (take n (drop off raw))"
  using copy_stored_effect [of off n raw 0 dst] by simp

lemma render_row_effect:
  assumes ok: "rows_ok hdr rb memory cur prv canvas" and raw: "off + rb \<le> length raw"
  shows "yields (png_render_row hdr (unat (png_channels_for_color_type (color_type hdr))) rb memory raw k off cur prv canvas)
    (\<lambda>(canvas', cur', prv'). rows_ok hdr rb memory cur' prv' canvas' \<and> cur' = prv')"
proof -
  let ?bpp = "unat (png_channels_for_color_type (color_type hdr))"
  have rb: "rb \<noteq> 0" "length cur = rb - 1" "length prv = rb - 1" "rb - 1 = unat (width hdr) * ?bpp"
    using ok by (simp_all add: rows_ok_def)
  let ?row = "take (rb - 1) (drop (off + 1) raw)"
  have len: "length ?row = rb - 1" using raw rb by simp
  have c: "png_copy_bytes (rb - 1) raw (off + 1) cur 0 = Inr ?row" using raw rb by (intro copy_scanline) simp_all
  have f: "fetch raw off = Inr (raw ! off)" using raw rb(1) by (intro fetch_ok) simp
  have u: "yields (png_unfilter_row ?row (if k = 0 then None else Some prv) (rb - 1) ?bpp (raw ! off)) (\<lambda>row. length row = rb - 1)"
    using unfilter_row_yields [of "if k = 0 then None else Some prv" ?row] len rb(3) by (auto split: if_splits)
  have "mem_width memory \<noteq> 0" using ok by (auto simp: rows_ok_def)
  then have b: "yields (png_blit_row row (width hdr) canvas (mem_width memory) (mem_height memory) (mem_x memory)
        (mem_y memory + of_nat k) (color_type hdr)) (\<lambda>canvas'. length canvas' = length canvas)"
    if "length row = rb - 1" for row
    using blit_row_effect [of "color_type hdr" "width hdr" row canvas "mem_width memory" "mem_height memory" "mem_x memory"
        "mem_y memory + of_nat k"] ok that rb(4) by (auto simp: rows_ok_def header_ok_def)
  show ?thesis
    unfolding png_render_row_def f sbind_simps c
    apply (rule yields_bind [OF u])
    apply (rule yields_bind [OF b], assumption)
    using ok rb by (auto simp: copy_row rows_ok_def)
qed

lemma render_rows_safe:
  assumes "rows_ok hdr rb memory cur prv canvas" and "off + n * rb \<le> length raw"
    and "png_render_rows n hdr (unat (png_channels_for_color_type (color_type hdr))) rb memory raw k off cur prv canvas = (e, canvas')"
  shows "e \<noteq> Some Wild \<and> length canvas' = length canvas"
  using assms
proof (induction n arbitrary: k off cur prv canvas)
  case (Suc n)
  let ?bpp = "unat (png_channels_for_color_type (color_type hdr))"
  have "off + rb \<le> length raw" using Suc.prems(2) by simp
  note y = render_row_effect [OF Suc.prems(1) this, of k]
  show ?case
  proof (cases "png_render_row hdr ?bpp rb memory raw k off cur prv canvas")
    case (Inl x)
    with Suc.prems(3) yields_safe [OF y] show ?thesis by auto
  next
    case (Inr st)
    obtain canvas1 cur1 prv1 where st: "st = (canvas1, cur1, prv1)" by (metis surj_pair)
    have ok: "rows_ok hdr rb memory cur1 prv1 canvas1" using yieldsD [OF y Inr] by (auto simp: st)
    have "rb \<noteq> 0" using Suc.prems(1) by (simp add: rows_ok_def)
    then have "off + 1 + (rb - 1) + n * rb \<le> length raw" using Suc.prems(2) by simp
    from Suc.IH [OF ok this] Suc.prems(3) Inr st ok Suc.prems(1) show ?thesis by (auto simp: rows_ok_def)
  qed
qed simp

section \<open>The renderer\<close>

lemma channels_le: "unat (png_channels_for_color_type ct) \<le> 4"
  by (simp add: png_channels_for_color_type_def)

lemma raw_size_fits:
  assumes "header_ok hdr"
  shows "unat (width hdr) * unat (png_channels_for_color_type (color_type hdr)) + 1 \<le> 0x100000000"
    and "(unat (width hdr) * unat (png_channels_for_color_type (color_type hdr)) + 1) * unat (height hdr) < 2 ^ 64"
proof -
  have w: "unat (width hdr) \<le> 0x3FFFFFFF" "unat (height hdr) \<le> 0x3FFFFFFF"
    using assms by (simp_all add: header_ok_def word_le_nat_alt)
  have "unat (width hdr) * unat (png_channels_for_color_type (color_type hdr)) \<le> 0x3FFFFFFF * 4"
    using w channels_le by (intro mult_le_mono) simp_all
  then show r: "unat (width hdr) * unat (png_channels_for_color_type (color_type hdr)) + 1 \<le> 0x100000000" by simp
  have "(unat (width hdr) * unat (png_channels_for_color_type (color_type hdr)) + 1) * unat (height hdr) \<le> 0x100000000 * 0x3FFFFFFF"
    using r w(2) by (rule mult_le_mono)
  then show "(unat (width hdr) * unat (png_channels_for_color_type (color_type hdr)) + 1) * unat (height hdr) < 2 ^ 64" by simp
qed

definition canvas_ok :: "RosPngMemory \<Rightarrow> bool" where
  "canvas_ok memory \<longleftrightarrow> length (mem_buffer memory) = unat (mem_width memory) * unat (mem_height memory)"

lemma render_raw_safe:
  assumes "header_ok hdr" and "canvas_ok memory" and "mem_width memory \<noteq> 0" "mem_height memory \<noteq> 0"
    and "rb = unat (width hdr) * unat (png_channels_for_color_type (color_type hdr)) + 1"
    and "length raw = rb * unat (height hdr)"
    and "png_render_raw fresh hdr (unat (png_channels_for_color_type (color_type hdr))) rb memory raw h = (e, canvas', h')"
    and "0 < live h"
  shows "e \<noteq> Some Wild \<and> length canvas' = length (mem_buffer memory) \<and> live h' = live h - 1"
proof -
  obtain ok1 h1 where a1: "png_allocate h (rb - 1) = (ok1, h1)" by (metis surj_pair)
  obtain ok2 h2 where a2: "png_allocate h1 (rb - 1) = (ok2, h2)" by (metis surj_pair)
  note live = allocate_live [OF a1] allocate_live [OF a2]
  let ?row = "map fresh [0..<rb - 1]"
  obtain e1 c1 where rr: "png_render_rows (unat (height hdr)) hdr (unat (png_channels_for_color_type (color_type hdr))) rb memory raw 0 0
      ?row ?row (mem_buffer memory) = (e1, c1)" by (metis surj_pair)
  have "e1 \<noteq> Some Wild \<and> length c1 = length (mem_buffer memory)" if "mem_x memory < mem_width memory"
    using assms that by (intro render_rows_safe [OF _ _ rr]) (simp_all add: rows_ok_def canvas_ok_def mult.commute)
  with assms(2-4,7) a1 a2 rr live show ?thesis
    by (auto simp: png_render_raw_def Let_def not_le split: if_splits)
qed
lemma same_bytes_yields: "i + n \<le> length xs \<Longrightarrow> i + n \<le> length ys \<Longrightarrow> yields (png_same_bytes n xs ys i) (\<lambda>_. True)"
  by (induction n arbitrary: i) simp_all

lemma signature_yields: "yields (png_has_signature data) (\<lambda>_. True)"
  by (simp add: png_has_signature_def same_bytes_yields kPngSignature_def)

lemma parse_file_effect:
  assumes len: "length bytes < 2 ^ 64" and r: "png_parse_png_file fresh bytes h = (r, h')"
  shows "case r of Inl e \<Rightarrow> e \<noteq> Wild \<and> live h' = live h
    | Inr (hdr, b, n) \<Rightarrow> header_ok hdr \<and> live h' = live h + owned b"
proof -
  let ?p = "\<lparr>parse_header = None, parse_idat = (None, 0), parse_idat_size = 0\<rparr>"
  have p: "parsing (live h) 8 ?p h" by (simp add: parsing_def buffer_ok_def bytes_of_def owned_def)
  obtain q p' h1 where c: "png_parse_chunks fresh bytes 8 ?p h = (q, p', h1)" by (metis surj_pair)
  from parse_chunks_effect [OF p len c] obtain off where q: "q \<noteq> Inl Wild" and p': "parsing (live h) off p' h1" by blast
  let ?b = "fst (parse_idat p')"
  have l: "live h1 = live h + owned ?b" "\<And>hdr. parse_header p' = Some hdr \<Longrightarrow> header_ok hdr"
    using p' by (simp_all add: parsing_def)
  have rel: "live (png_release ?b h1) = live h" using release_live [of ?b h1] l(1) by simp
  show ?thesis
  proof (cases "png_has_signature bytes")
    case (Inl e)
    with r yields_safe [OF signature_yields, of bytes] show ?thesis by (auto simp: png_parse_png_file_def)
  next
    case (Inr ok)
    with r c rel l q show ?thesis
      by (auto simp: png_parse_png_file_def split: if_splits sum.splits option.splits bool.splits)
  qed
qed

text \<open>C27: Rendering an arbitrary byte sequence as a PNG file never reads or writes outside the file, the
  scratch buffers, the Huffman tables or the canvas, keeps the canvas size, and on every path,
  successful or not and wherever an allocation fails, releases every block it allocated.\<close>

theorem png_render_safe:
  assumes "length bytes < 2 ^ 64" and "canvas_ok memory"
    and "png_render_memory_to_memory fresh bytes memory h = (e, canvas, h')"
  shows "e \<noteq> Some Wild \<and> length canvas = length (mem_buffer memory) \<and> live h' = live h"
proof (cases "mem_width memory = 0 \<or> mem_height memory = 0")
  case True
  then show ?thesis using assms(3) by (auto simp: png_render_memory_to_memory_def)
next
  case nz: False
  obtain r h1 where p: "png_parse_png_file fresh bytes h = (r, h1)" by (metis surj_pair)
  note eff = parse_file_effect [OF assms(1) p]
  show ?thesis
  proof (cases r)
    case (Inl x)
    then show ?thesis using assms(3) nz p eff by (auto simp: png_render_memory_to_memory_def)
  next
    case (Inr x)
    obtain hdr b n where x: "x = (hdr, b, n)" by (metis surj_pair)
    have hdr: "header_ok hdr" "live h1 = live h + owned b" using eff by (simp_all add: Inr x)
    let ?bpp = "unat (png_channels_for_color_type (color_type hdr))"
    let ?rb = "unat (width hdr) * ?bpp + 1" and ?data = "take n (case b of None \<Rightarrow> [] | Some d \<Rightarrow> d)"
    let ?sz = "?rb * unat (height hdr)"
    note fits = raw_size_fits [OF hdr(1)]
    have mods: "?rb mod 2 ^ 64 = ?rb" "?sz mod 2 ^ 64 = ?sz" using fits by (auto intro!: mod_less)
    have ch: "png_channels_for_color_type (color_type hdr) \<noteq> 0" using hdr(1) by (simp add: header_ok_def)
    obtain ok h2 where a: "png_allocate h1 ?sz = (ok, h2)" by (metis surj_pair)
    note live2 = allocate_live [OF a]
    have rel: "live (png_release b h2) = live h + of_bool ok" using release_live [of b h2] live2 hdr(2) by simp
    define inf where "inf = png_inflate_zlib ?data (map fresh [0..<?sz]) ?sz"
    have y: "yields inf (\<lambda>out. length out = ?sz)" unfolding inf_def by (rule inflate_zlib_yields) simp
    have res: "(e, canvas, h') =
        (if \<not> ok then (Some (Fail StatusNoMemory), mem_buffer memory, png_release b h2)
         else case inf of Inl e \<Rightarrow> (Some e, mem_buffer memory, free (png_release b h2))
           | Inr raw \<Rightarrow> png_render_raw fresh hdr ?bpp ?rb memory raw (png_release b h2))"
      using assms(3) nz p ch a
      by (simp only: png_render_memory_to_memory_def Inr x Let_def if_False sum.case prod.case mods inf_def)
    show ?thesis
    proof (cases "ok \<and> (\<exists>raw. inf = Inr raw)")
      case True
      then obtain raw where raw: "inf = Inr raw" by blast
      have "png_render_raw fresh hdr ?bpp ?rb memory raw (png_release b h2) = (e, canvas, h')" using res True raw by simp
      from render_raw_safe [OF hdr(1) assms(2) _ _ refl yieldsD [OF y raw] this] rel True nz show ?thesis by simp
    next
      case False
      then show ?thesis using res rel yields_safe [OF y] by (auto split: sum.splits if_splits)
    qed
  qed
qed

theorem png_render_safe_witness:
  "case png_render_memory_to_memory (\<lambda>_. 0) [0x89, 0x50] \<lparr>mem_x = 0, mem_y = 0, mem_width = 1, mem_height = 1, mem_buffer = [5]\<rparr>
      \<lparr>grants = \<lambda>_. False, asked = 0, live = 7\<rparr> of (e, canvas, h') \<Rightarrow> e \<noteq> Some Wild \<and> length canvas = 1 \<and> live h' = 7"
  using png_render_safe [of "[0x89, 0x50]" "\<lparr>mem_x = 0, mem_y = 0, mem_width = 1, mem_height = 1, mem_buffer = [5]\<rparr>" "\<lambda>_. 0"
      "\<lparr>grants = \<lambda>_. False, asked = 0, live = 7\<rparr>"]
  by (auto simp: canvas_ok_def split: prod.split)
section \<open>Files as the specification lays them out\<close>

definition chunk :: "(u32 \<Rightarrow> u8 list \<Rightarrow> u32) \<Rightarrow> u32 \<Rightarrow> u8 list \<Rightarrow> u8 list" where
  "chunk crc ty payload = be32 (of_nat (length payload)) @ be32 ty @ payload @ be32 (crc ty payload)"

definition ihdr_payload :: "PngHeader \<Rightarrow> u8 list" where
  "ihdr_payload hdr = be32 (width hdr) @ be32 (height hdr) @
     [bit_depth hdr, color_type hdr, compression_method hdr, filter_method hdr, interlace_method hdr]"

definition png_file :: "(u32 \<Rightarrow> u8 list \<Rightarrow> u32) \<Rightarrow> PngHeader \<Rightarrow> u8 list list \<Rightarrow> u8 list" where
  "png_file crc hdr idats = kPngSignature @ chunk crc 0x49484452 (ihdr_payload hdr) @
     concat (map (chunk crc 0x49444154) idats) @ chunk crc 0x49454E44 []"

definition supported :: "PngHeader \<Rightarrow> bool" where
  "supported hdr \<longleftrightarrow> header_ok hdr \<and> bit_depth hdr = 8 \<and> compression_method hdr = 0 \<and> filter_method hdr = 0 \<and>
     interlace_method hdr = 0"

text \<open>Filtered scanlines: each row with the filter type it was encoded with.\<close>

fun scanlines :: "nat \<Rightarrow> u8 list option \<Rightarrow> (u8 \<times> u8 list) list \<Rightarrow> u8 list" where
  "scanlines bpp prev [] = []"
| "scanlines bpp prev ((ft, row) # rows) = ft # filter_row ft bpp prev row @ scanlines bpp (Some row) rows"

lemma length_chunk [simp]: "length (chunk crc ty payload) = length payload + 12"
  by (simp add: chunk_def)

lemma length_ihdr_payload: "length (ihdr_payload hdr) = 13"
  by (simp add: ihdr_payload_def)

lemma chunk_header:
  assumes "data = pre @ chunk crc ty payload @ rest" "length payload < 2 ^ 32"
  shows "sbind (png_read_be_u32 data (length pre)) (\<lambda>l. sbind (png_read_be_u32 data (length pre + 4)) (\<lambda>t. Inr (l, t))) =
      Inr (of_nat (length payload), ty)" and "unat (of_nat (length payload) :: u32) = length payload"
proof -
  have 1: "png_read_be_u32 data (length pre) = Inr (of_nat (length payload))"
    unfolding assms(1) chunk_def append_assoc by (rule read_be32)
  have "png_read_be_u32 ((pre @ be32 (of_nat (length payload))) @ be32 ty @ (payload @ be32 (crc ty payload) @ rest))
      (length (pre @ be32 (of_nat (length payload)))) = Inr ty" by (rule read_be32)
  then have 2: "png_read_be_u32 data (length pre + 4) = Inr ty" by (simp add: assms(1) chunk_def)
  show "sbind (png_read_be_u32 data (length pre)) (\<lambda>l. sbind (png_read_be_u32 data (length pre + 4)) (\<lambda>t. Inr (l, t))) =
      Inr (of_nat (length payload), ty)" by (simp add: 1 2)
  show "unat (of_nat (length payload) :: u32) = length payload" using assms(2) by (intro unat_of_nat_less) simp
qed

lemma parse_end_chunk:
  assumes "data = pre @ chunk crc 0x49454E44 payload @ rest" "length payload < 2 ^ 32"
  shows "png_parse_chunks fresh data (length pre) p h = (Inr True, p, h)"
  using chunk_header [OF assms] by (subst png_parse_chunks.simps) (simp add: assms(1) Let_def)

lemma parse_step:
  assumes "data = pre @ chunk crc ty payload @ rest" "length payload < 2 ^ 32" "ty \<noteq> 0x49454E44"
    and "png_chunk fresh data (length pre + 8) (of_nat (length payload)) ty p h = (Inr p', h')"
  shows "png_parse_chunks fresh data (length pre) p h =
    png_parse_chunks fresh data (length (pre @ chunk crc ty payload)) p' h'"
proof -
  have "length pre + 8 + length payload + 4 = length (pre @ chunk crc ty payload)" by simp
  then show ?thesis
    using chunk_header [OF assms(1,2)] assms(3,4)
    by (subst png_parse_chunks.simps) (simp add: assms(1) Let_def ac_simps)
qed

lemma parse_ihdr_payload:
  assumes "supported hdr" "data = pre @ ihdr_payload hdr @ rest"
  shows "png_parse_ihdr data (length pre) 13 = Inr hdr"
proof -
  have 1: "png_read_be_u32 data (length pre) = Inr (width hdr)"
    unfolding assms(2) ihdr_payload_def append_assoc by (rule read_be32)
  have "png_read_be_u32 ((pre @ be32 (width hdr)) @ be32 (height hdr) @ (drop 8 (ihdr_payload hdr) @ rest))
      (length (pre @ be32 (width hdr))) = Inr (height hdr)" by (rule read_be32)
  then have 2: "png_read_be_u32 data (length pre + 4) = Inr (height hdr)"
    by (simp add: assms(2) ihdr_payload_def)
  have f: "fetch data (length pre + k) = Inr (ihdr_payload hdr ! k)" if "k < 13" for k
    using that length_ihdr_payload [of hdr] by (simp add: assms(2) nth_append)
  have n: "ihdr_payload hdr ! 8 = bit_depth hdr" "ihdr_payload hdr ! 9 = color_type hdr"
    "ihdr_payload hdr ! 10 = compression_method hdr" "ihdr_payload hdr ! 11 = filter_method hdr"
    "ihdr_payload hdr ! 12 = interlace_method hdr" by (simp_all add: ihdr_payload_def nth_append)
  have s: "width hdr \<noteq> 0" "height hdr \<noteq> 0" "\<not> 0x3FFFFFFF < width hdr" "\<not> 0x3FFFFFFF < height hdr"
    "png_channels_for_color_type (color_type hdr) \<noteq> 0" "bit_depth hdr = 8" "compression_method hdr = 0"
    "filter_method hdr = 0" "interlace_method hdr = 0"
    using assms(1) by (auto simp: supported_def header_ok_def)
  have "png_parse_ihdr data (length pre) 13 = Inr \<lparr>width = width hdr, height = height hdr, bit_depth = bit_depth hdr,
      color_type = color_type hdr, compression_method = compression_method hdr, filter_method = filter_method hdr,
      interlace_method = interlace_method hdr\<rparr>"
    unfolding png_parse_ihdr_def 1 2 using f [of 8] f [of 9] f [of 10] f [of 11] f [of 12] by (simp add: n s)
  then show ?thesis by simp
qed

section \<open>Granted memory\<close>

definition granted :: "heap \<Rightarrow> bool" where
  "granted h \<longleftrightarrow> (\<forall>n. grants h n)"

lemma grow_capacity_succeeds: "0 < c \<Longrightarrow> req \<le> 2 ^ 63 \<Longrightarrow> \<exists>c'. png_grow_capacity c req = Inr c'"
proof (induction c req rule: png_grow_capacity.induct)
  case (1 c req)
  then show ?case by (subst png_grow_capacity.simps) auto
qed

lemma allocate_granted: "granted h \<Longrightarrow> n \<noteq> 0 \<Longrightarrow> \<exists>h'. png_allocate h n = (True, h') \<and> granted h'"
  by (simp add: png_allocate_def malloc_def granted_def)

lemma release_granted: "granted h \<Longrightarrow> granted (png_release b h)" "granted h \<Longrightarrow> granted (free h)"
  by (auto simp: granted_def png_release_def free_def split: option.split)

lemma append_granted:
  assumes "granted h" "buffer_ok buf" "n \<le> snd buf" "owned (fst buf) \<le> live h"
    and "off + len \<le> length data" "n + len \<le> 2 ^ 63"
  shows "\<exists>buf' h'. png_append_bytes fresh h buf n data off len = (Inr (buf', n + len), h') \<and> granted h'"
proof -
  have w: "n + len < 2 ^ 64" using assms(6) by simp
  obtain b c where buf: "buf = (b, c)" by (cases buf)
  have "\<exists>buf' h'. png_reallocate_bytes fresh h buf n (n + len) = (Inr buf', h') \<and> granted h'"
  proof (cases "n + len \<le> c")
    case True
    then show ?thesis using assms(1) by (simp add: png_reallocate_bytes_def buf)
  next
    case False
    let ?c = "if c = 0 then 4096 else c"
    obtain c' where c': "png_grow_capacity ?c (n + len) = Inr c'"
      using grow_capacity_succeeds [of ?c "n + len"] assms(6) by (cases "c = 0") auto
    then have ge: "n + len \<le> c'" using grow_capacity_ge [of ?c] by simp
    then obtain h1 where a: "png_allocate h c' = (True, h1)" "granted h1"
      using allocate_granted [OF assms(1), of c'] False by auto
    have "png_copy_bytes n (case b of None \<Rightarrow> [] | Some x \<Rightarrow> x) 0 (map fresh [0..<c']) 0 =
        Inr (take n (bytes_of buf) @ drop n (map fresh [0..<c']))"
      using copy_stored_effect [of 0 n "bytes_of buf" 0 "map fresh [0..<c']"] assms(2,3) ge False
      by (simp add: bytes_of_def buf buffer_ok_def)
    then show ?thesis using False c' a release_granted by (simp add: png_reallocate_bytes_def buf)
  qed
  then obtain buf1 h1 where r: "png_reallocate_bytes fresh h buf n (n + len) = (Inr buf1, h1)" "granted h1" by blast
  obtain q h2 where q: "png_append_bytes fresh h buf n data off len = (q, h2)" by (metis surj_pair)
  obtain b1 c1 where buf1: "buf1 = (b1, c1)" by (cases buf1)
  have "buffer_ok buf1" "n + len \<le> c1"
    using reallocate_effect [OF assms(2-4) r(1)] by (simp_all add: buf1)
  then have "\<exists>d. png_copy_bytes len data off (case b1 of None \<Rightarrow> [] | Some x \<Rightarrow> x) n = Inr d"
    using copy_stored_effect [OF assms(5), of n "bytes_of buf1"] by (auto simp: bytes_of_def buf1 buffer_ok_def)
  then show ?thesis using r w by (auto simp: png_append_bytes_def buf1 Let_def)
qed
section \<open>Parsing a well-formed file\<close>

lemma parse_idats:
  assumes "data = pre @ concat (map (chunk crc 0x49444154) idats) @ chunk crc 0x49454E44 [] @ rest"
    and "\<forall>d \<in> set idats. length d < 2 ^ 32" and "length data < 2 ^ 63"
    and "parsing base (length pre) p h" and "granted h"
  shows "\<exists>p' h'. png_parse_chunks fresh data (length pre) p h = (Inr True, p', h') \<and> granted h' \<and>
    parse_header p' = parse_header p \<and> parse_idat_size p' = parse_idat_size p + length (concat idats) \<and>
    take (parse_idat_size p') (bytes_of (parse_idat p')) = take (parse_idat_size p) (bytes_of (parse_idat p)) @ concat idats"
  using assms
proof (induction idats arbitrary: pre p h)
  case Nil
  then have "png_parse_chunks fresh data (length pre) p h = (Inr True, p, h)"
    by (intro parse_end_chunk [where payload = "[]" and rest = rest]) simp_all
  with Nil show ?case by simp
next
  case (Cons d idats)
  let ?rest = "concat (map (chunk crc 0x49444154) idats) @ chunk crc 0x49454E44 [] @ rest"
  let ?n = "parse_idat_size p" and ?buf = "parse_idat p"
  have data: "data = pre @ chunk crc 0x49444154 d @ ?rest" using Cons.prems(1) by simp
  have d: "length d < 2 ^ 32" "unat (of_nat (length d) :: u32) = length d"
    using Cons.prems(2) chunk_header(2) [OF data] by simp_all
  have len: "length pre + 8 + length d \<le> length data" by (simp add: data)
  have at: "take (length d) (drop (length pre + 8) data) = d" by (simp add: data chunk_def)
  have p: "buffer_ok ?buf" "?n \<le> snd ?buf" "owned (fst ?buf) \<le> live h" "?n \<le> length pre"
    using Cons.prems(4) by (simp_all add: parsing_def)
  have b: "?n + length d \<le> 2 ^ 63" using p(4) len Cons.prems(3) by simp
  obtain buf' h1 where a: "png_append_bytes fresh h ?buf ?n data (length pre + 8) (length d) = (Inr (buf', ?n + length d), h1)"
    "granted h1" using append_granted [OF Cons.prems(5) p(1-3) len b] by blast
  have e: "take (?n + length d) (bytes_of buf') = take ?n (bytes_of ?buf) @ d"
    using append_effect [OF p(1-3) len _ a(1)] b at by simp
  let ?p = "p\<lparr>parse_idat := buf', parse_idat_size := ?n + length d\<rparr>"
  have c: "png_chunk fresh data (length pre + 8) (of_nat (length d)) 0x49444154 p h = (Inr ?p, h1)"
    using a(1) by (simp add: png_chunk_def d(2))
  note step = parse_step [OF data d(1) _ c]
  have "parsing base (length pre + 8) p h" using Cons.prems(4) by (simp add: parsing_def)
  from chunk_effect [OF this _ _ c] len Cons.prems(3) d(2)
  have "parsing base (length pre + 8 + length d) ?p h1" by simp
  then have ok: "parsing base (length (pre @ chunk crc 0x49444154 d)) ?p h1" by (auto simp: parsing_def)
  have "\<exists>p' h'. png_parse_chunks fresh data (length (pre @ chunk crc 0x49444154 d)) ?p h1 = (Inr True, p', h') \<and> granted h' \<and>
      parse_header p' = parse_header ?p \<and> parse_idat_size p' = parse_idat_size ?p + length (concat idats) \<and>
      take (parse_idat_size p') (bytes_of (parse_idat p')) = take (parse_idat_size ?p) (bytes_of (parse_idat ?p)) @ concat idats"
    using Cons.prems(2,3) data ok a(2) by (intro Cons.IH) simp_all
  then show ?case using step e by (simp add: add.assoc)
qed

lemma same_bytes_refl: "i + n \<le> length xs \<Longrightarrow> i + n \<le> length ys \<Longrightarrow> (\<And>k. i \<le> k \<Longrightarrow> k < i + n \<Longrightarrow> xs ! k = ys ! k) \<Longrightarrow>
  png_same_bytes n xs ys i = Inr True"
  by (induction n arbitrary: i) simp_all

lemma signature_ok: "png_has_signature (kPngSignature @ rest) = Inr True"
proof -
  have "length kPngSignature = 8" by (simp add: kPngSignature_def)
  then show ?thesis by (simp add: png_has_signature_def same_bytes_refl nth_append)
qed

lemma parse_png_file_ok:
  assumes "supported hdr" and "\<forall>d \<in> set idats. length d < 2 ^ 32" and "length (png_file crc hdr idats) < 2 ^ 63"
    and "granted h" and "concat idats \<noteq> []"
  shows "\<exists>b h'. png_parse_png_file fresh (png_file crc hdr idats) h = (Inr (hdr, b, length (concat idats)), h') \<and> granted h' \<and>
    take (length (concat idats)) (case b of None \<Rightarrow> [] | Some x \<Rightarrow> x) = concat idats"
proof -
  let ?data = "png_file crc hdr idats" and ?p = "\<lparr>parse_header = None, parse_idat = (None, 0), parse_idat_size = 0\<rparr>"
  let ?p1 = "?p\<lparr>parse_header := Some hdr\<rparr>" and ?ih = "chunk crc 0x49484452 (ihdr_payload hdr)"
  have d1: "?data = kPngSignature @ ?ih @ (concat (map (chunk crc 0x49444154) idats) @ chunk crc 0x49454E44 [])"
    and d2: "?data = (kPngSignature @ ?ih) @ concat (map (chunk crc 0x49444154) idats) @ chunk crc 0x49454E44 [] @ []"
    by (simp_all add: png_file_def)
  have sig: "length kPngSignature = 8" by (simp add: kPngSignature_def)
  have l13: "length (ihdr_payload hdr) = 13" by (rule length_ihdr_payload)
  have "png_parse_ihdr ?data (length (kPngSignature @ be32 13 @ be32 0x49484452)) 13 = Inr hdr"
    using assms(1) by (rule parse_ihdr_payload) (simp add: png_file_def chunk_def l13)
  then have c: "png_chunk fresh ?data (length kPngSignature + 8) (of_nat (length (ihdr_payload hdr))) 0x49484452 ?p h = (Inr ?p1, h)"
    by (simp add: png_chunk_def l13 sig)
  have s1: "png_parse_chunks fresh ?data 8 ?p h = png_parse_chunks fresh ?data (length (kPngSignature @ ?ih)) ?p1 h"
    using parse_step [OF d1 _ _ c] by (simp add: l13 sig)
  have "parsing (live h) (length (kPngSignature @ ?ih)) ?p1 h"
    using assms(1) by (simp add: parsing_def buffer_ok_def bytes_of_def owned_def supported_def)
  from parse_idats [OF d2 assms(2,3) this assms(4), of fresh] obtain p' h' where
    "png_parse_chunks fresh ?data (length (kPngSignature @ ?ih)) ?p1 h = (Inr True, p', h')" "granted h'"
    "parse_header p' = Some hdr" "parse_idat_size p' = length (concat idats)"
    "take (parse_idat_size p') (bytes_of (parse_idat p')) = concat idats" by (auto simp: bytes_of_def)
  moreover have "png_has_signature ?data = Inr True" unfolding png_file_def by (rule signature_ok)
  ultimately show ?thesis using assms(5) s1 by (auto simp: png_parse_png_file_def bytes_of_def)
qed

section \<open>Drawing the rows\<close>

definition rows_wf :: "nat \<Rightarrow> (u8 \<times> u8 list) list \<Rightarrow> bool" where
  "rows_wf n rows \<longleftrightarrow> (\<forall>(ft, row) \<in> set rows. ft \<le> 4 \<and> length row = n)"

lemma length_scanlines: "rows_wf n rows \<Longrightarrow> length (scanlines bpp prev rows) = (n + 1) * length rows"
  by (induction bpp prev rows rule: scanlines.induct) (auto simp: rows_wf_def filter_row_def)

text \<open>The canvas with the image drawn from its row \<open>k\<close> on.\<close>

definition drawn :: "RosPngMemory \<Rightarrow> PngHeader \<Rightarrow> nat \<Rightarrow> u8 list list \<Rightarrow> u32 list \<Rightarrow> u32 list \<Rightarrow> bool" where
  "drawn memory hdr k rows canvas canvas' \<longleftrightarrow> length canvas' = length canvas \<and>
     (\<forall>x y. x < unat (mem_width memory) \<longrightarrow> y < unat (mem_height memory) \<longrightarrow>
        canvas_at canvas' (unat (mem_width memory)) x y =
        (if unat (mem_x memory) \<le> x \<and> x < unat (mem_x memory) + unat (width hdr) \<and>
            unat (mem_y memory) + k \<le> y \<and> y < unat (mem_y memory) + k + length rows
         then pixel_at (color_type hdr) (rows ! (y - (unat (mem_y memory) + k))) (x - unat (mem_x memory))
         else canvas_at canvas (unat (mem_width memory)) x y))"

lemma render_row_draws:
  assumes ok: "rows_ok hdr rb memory cur prv canvas" and ft: "ft \<le> 4" and row: "length row = rb - 1"
    and raw: "raw = pre @ (ft # filter_row ft bpp (if k = 0 then None else Some prv) row) @ rest"
    and bpp: "bpp = unat (png_channels_for_color_type (color_type hdr))" and k: "unat (mem_y memory) + k < 2 ^ 32"
  shows "\<exists>canvas'. png_render_row hdr bpp rb memory raw k (length pre) cur prv canvas = Inr (canvas', row, row) \<and>
    drawn memory hdr k [row] canvas canvas'"
proof -
  let ?prev = "if k = 0 then None else Some prv"
  have rb: "rb \<noteq> 0" "length cur = rb - 1" "length prv = rb - 1" "rb - 1 = unat (width hdr) * bpp"
    using ok bpp by (simp_all add: rows_ok_def)
  have mw: "mem_width memory \<noteq> 0" using ok by (auto simp: rows_ok_def)
  have pos: "0 < bpp" using ok bpp by (auto simp: rows_ok_def header_ok_def unat_gt_0)
  have flen: "length (filter_row ft bpp ?prev row) = rb - 1" by (simp add: filter_row_def row)
  have f: "fetch raw (length pre) = Inr ft" by (simp add: raw)
  have "png_copy_bytes (rb - 1) raw (length pre + 1) cur 0 = Inr (take (rb - 1) (drop (length pre + 1) raw))"
    using flen rb by (intro copy_scanline) (simp_all add: raw)
  then have c: "png_copy_bytes (rb - 1) raw (length pre + 1) cur 0 = Inr (filter_row ft bpp ?prev row)"
    using flen by (simp add: raw)
  have u: "png_unfilter_row (filter_row ft bpp ?prev row) ?prev (rb - 1) bpp ft = Inr row"
    using unfilter_row_restores [OF pos ft, of ?prev row] row rb(3) by auto
  have uk: "unat (mem_y memory + of_nat k) = unat (mem_y memory) + k"
    using k by (simp add: unat_word_ariths unat_of_nat)
  from blit_row_effect [of "color_type hdr" "width hdr" row canvas "mem_width memory" "mem_height memory" "mem_x memory"
      "mem_y memory + of_nat k"] ok mw row rb(4) bpp obtain canvas' where
    b: "png_blit_row row (width hdr) canvas (mem_width memory) (mem_height memory) (mem_x memory) (mem_y memory + of_nat k)
        (color_type hdr) = Inr canvas'" "length canvas' = length canvas"
      "\<forall>x y. x < unat (mem_width memory) \<longrightarrow> y < unat (mem_height memory) \<longrightarrow> canvas_at canvas' (unat (mem_width memory)) x y =
       (if y = unat (mem_y memory + of_nat k) \<and> unat (mem_x memory) \<le> x \<and> x < unat (mem_x memory) + unat (width hdr)
        then pixel_at (color_type hdr) row (x - unat (mem_x memory)) else canvas_at canvas (unat (mem_width memory)) x y)"
    by (auto simp: rows_ok_def header_ok_def)
  have "drawn memory hdr k [row] canvas canvas'"
    using b(2,3) unfolding drawn_def uk by (auto simp: le_less_Suc_eq)
  moreover have "png_copy_bytes (rb - 1) row 0 prv 0 = Inr row" using rb(3) row by (intro copy_row) simp_all
  ultimately show ?thesis by (simp add: png_render_row_def f c u b(1) del: One_nat_def add_Suc_right)
qed

lemma drawn_Cons:
  assumes 1: "drawn memory hdr k [row] canvas canvas1" and 2: "drawn memory hdr (Suc k) rows canvas1 canvas'"
  shows "drawn memory hdr k (row # rows) canvas canvas'"
proof -
  let ?w = "unat (mem_width memory)" and ?y = "unat (mem_y memory) + k"
  have "canvas_at canvas' ?w x y =
      (if unat (mem_x memory) \<le> x \<and> x < unat (mem_x memory) + unat (width hdr) \<and> ?y \<le> y \<and> y < ?y + length (row # rows)
       then pixel_at (color_type hdr) ((row # rows) ! (y - ?y)) (x - unat (mem_x memory)) else canvas_at canvas ?w x y)"
    if x: "x < ?w" and y: "y < unat (mem_height memory)" for x y
  proof -
    note a = 1 [unfolded drawn_def, THEN conjunct2, rule_format, OF x y]
      and b = 2 [unfolded drawn_def, THEN conjunct2, rule_format, OF x y]
    consider "y < ?y" | "y = ?y" | j where "y = Suc (?y + j)" using less_iff_Suc_add [of ?y y] by (metis linorder_neqE_nat)
    then show ?thesis using a b by cases simp_all
  qed
  with 1 2 show ?thesis by (simp add: drawn_def)
qed

lemma render_rows_draw:
  assumes "rows_ok hdr rb memory cur prv canvas" and "rows_wf (rb - 1) rows"
    and "bpp = unat (png_channels_for_color_type (color_type hdr))"
    and "raw = pre @ scanlines bpp (if k = 0 then None else Some prv) rows"
    and "unat (mem_y memory) + k + length rows \<le> 2 ^ 32"
  shows "\<exists>canvas'. png_render_rows (length rows) hdr bpp rb memory raw k (length pre) cur prv canvas = (None, canvas') \<and>
    drawn memory hdr k (map snd rows) canvas canvas'"
  using assms
proof (induction rows arbitrary: pre k cur prv canvas)
  case Nil
  then show ?case by (auto simp: drawn_def)
next
  case (Cons r rows)
  obtain ft row where r: "r = (ft, row)" by (cases r)
  let ?prev = "if k = 0 then None else Some prv"
  have wf: "ft \<le> 4" "length row = rb - 1" "rows_wf (rb - 1) rows" using Cons.prems(2) by (auto simp: rows_wf_def r)
  have raw: "raw = pre @ (ft # filter_row ft bpp ?prev row) @ scanlines bpp (Some row) rows"
    using Cons.prems(4) by (simp add: r)
  have rb: "rb \<noteq> 0" using Cons.prems(1) by (simp add: rows_ok_def)
  have k: "unat (mem_y memory) + k < 2 ^ 32" using Cons.prems(5) by simp
  from render_row_draws [OF Cons.prems(1) wf(1,2) raw Cons.prems(3) k] obtain canvas1 where
    1: "png_render_row hdr bpp rb memory raw k (length pre) cur prv canvas = Inr (canvas1, row, row)"
      "drawn memory hdr k [row] canvas canvas1" by blast
  let ?pre = "pre @ ft # filter_row ft bpp ?prev row"
  have pre: "length pre + 1 + (rb - 1) = length ?pre" using wf(2) by (simp add: filter_row_def)
  have ok: "rows_ok hdr rb memory row row canvas1" using Cons.prems(1) wf(2) 1(2) by (simp add: rows_ok_def drawn_def)
  have "\<exists>canvas'. png_render_rows (length rows) hdr bpp rb memory raw (Suc k) (length ?pre) row row canvas1 = (None, canvas') \<and>
      drawn memory hdr (Suc k) (map snd rows) canvas1 canvas'"
    using Cons.prems(3,5) raw by (intro Cons.IH [OF ok wf(3)]) simp_all
  then obtain canvas' where "png_render_rows (length rows) hdr bpp rb memory raw (Suc k) (length ?pre) row row canvas1 = (None, canvas')"
    "drawn memory hdr (Suc k) (map snd rows) canvas1 canvas'" by blast
  moreover from this(2) have "drawn memory hdr k (map snd (r # rows)) canvas canvas'"
    using drawn_Cons [OF 1(2)] by (simp add: r)
  moreover have "png_render_rows (length (r # rows)) hdr bpp rb memory raw k (length pre) cur prv canvas =
      png_render_rows (length rows) hdr bpp rb memory raw (Suc k) (length ?pre) row row canvas1"
    unfolding pre [symmetric] by (simp add: 1(1))
  ultimately show ?case by auto
qed

lemma render_raw_draws:
  assumes hdr: "header_ok hdr" and canvas: "canvas_ok memory" "mem_width memory \<noteq> 0" "mem_height memory \<noteq> 0"
    and bpp: "bpp = unat (png_channels_for_color_type (color_type hdr))"
    and rows: "rows_wf (unat (width hdr) * bpp) rows" "length rows = unat (height hdr)"
    and y: "unat (mem_y memory) + unat (height hdr) \<le> 2 ^ 32" and h: "granted h"
  shows "\<exists>canvas' h'. png_render_raw fresh hdr bpp (unat (width hdr) * bpp + 1) memory (scanlines bpp None rows) h = (None, canvas', h') \<and>
    drawn memory hdr 0 (map snd rows) (mem_buffer memory) canvas'"
proof -
  let ?rb = "unat (width hdr) * bpp + 1"
  have nz: "?rb - 1 \<noteq> 0" using hdr bpp by (auto simp: header_ok_def unat_eq_0)
  obtain h1 where a1: "png_allocate h (?rb - 1) = (True, h1)" "granted h1" using allocate_granted [OF h nz] by blast
  obtain h2 where a2: "png_allocate h1 (?rb - 1) = (True, h2)" using allocate_granted [OF a1(2) nz] by blast
  show ?thesis
  proof (cases "mem_width memory \<le> mem_x memory \<or> mem_height memory \<le> mem_y memory")
    case True
    then have "drawn memory hdr 0 (map snd rows) (mem_buffer memory) (mem_buffer memory)"
      by (auto simp: drawn_def word_le_nat_alt)
    with True a1 a2 show ?thesis by (auto simp: png_render_raw_def)
  next
    case False
    let ?row = "map fresh [0..<?rb - 1]"
    have ok: "rows_ok hdr ?rb memory ?row ?row (mem_buffer memory)"
      using hdr canvas False bpp by (simp add: rows_ok_def canvas_ok_def not_le)
    have "\<exists>canvas'. png_render_rows (length rows) hdr bpp ?rb memory (scanlines bpp None rows) 0 (length ([] :: u8 list)) ?row ?row
        (mem_buffer memory) = (None, canvas') \<and> drawn memory hdr 0 (map snd rows) (mem_buffer memory) canvas'"
      by (rule render_rows_draw [OF ok _ bpp, where k = 0 and pre = "[]"]) (use rows y in simp_all)
    then show ?thesis using a1 a2 False rows(2) by (auto simp: png_render_raw_def Let_def)
  qed
qed


definition sample_header :: PngHeader where
  "sample_header = \<lparr>width = 1, height = 1, bit_depth = 8, color_type = 0, compression_method = 0, filter_method = 0,
     interlace_method = 0\<rparr>"

definition sample_memory :: RosPngMemory where
  "sample_memory = \<lparr>mem_x = 1, mem_y = 0, mem_width = 2, mem_height = 1, mem_buffer = [5, 6]\<rparr>"


end
