(* ===== verification/Links.thy ===== *)
theory Links
  imports Prelude
begin

text \<open>
  Intrusive doubly linked lists, the kernel's container: the links live in the objects, a list is a
  head and a tail pointer. \<open>dll nxt prv h t xs\<close>: following the links from \<open>h\<close> visits the objects \<open>xs\<close>, each
  once, and \<open>t\<close> is the last of them. The lemmas say what the pointer surgery of the four operations
  (append, prepend, unlink, and the frame for untouched objects) does to \<open>xs\<close>.
\<close>

definition first_of :: "'a list \<Rightarrow> 'a option \<Rightarrow> 'a option" where
  "first_of xs d = (case xs of [] \<Rightarrow> d | x # _ \<Rightarrow> Some x)"

definition last_of :: "'a option \<Rightarrow> 'a list \<Rightarrow> 'a option" where
  "last_of d xs = (if xs = [] then d else Some (last xs))"

primrec chain :: "('a \<Rightarrow> 'a option) \<Rightarrow> ('a \<Rightarrow> 'a option) \<Rightarrow> 'a option \<Rightarrow> 'a list \<Rightarrow> 'a option \<Rightarrow> bool" where
  "chain nxt prv p [] q \<longleftrightarrow> True"
| "chain nxt prv p (x # xs) q \<longleftrightarrow> prv x = p \<and> nxt x = first_of xs q \<and> chain nxt prv (Some x) xs q"

definition dll :: "('a \<Rightarrow> 'a option) \<Rightarrow> ('a \<Rightarrow> 'a option) \<Rightarrow> 'a option \<Rightarrow> 'a option \<Rightarrow> 'a list \<Rightarrow> bool" where
  "dll nxt prv h t xs \<longleftrightarrow> distinct xs \<and> h = first_of xs None \<and> t = last_of None xs \<and> chain nxt prv None xs None"

named_theorems link_simps \<open>end points of lists\<close>

lemma first_of_simps [simp]: "first_of [] d = d" "first_of (x # xs) d = Some x"
  by (simp_all add: first_of_def)

lemma first_of_append [link_simps]: "first_of (xs @ ys) d = first_of xs (first_of ys d)"
  by (cases xs) auto

lemma last_of_simps [simp]: "last_of d [] = d" "last_of d (xs @ [x]) = Some x" "last_of d (x # xs) = last_of (Some x) xs"
  by (auto simp: last_of_def)

lemma last_of_append [link_simps]: "last_of d (xs @ ys) = last_of (last_of d xs) ys"
  by (auto simp: last_of_def)

lemma last_of_eq_Some: "last_of None xs = Some y \<Longrightarrow> \<exists>ys. xs = ys @ [y]"
  by (cases xs rule: rev_cases) (auto simp: last_of_def)

lemma last_of_eq_None [simp]: "last_of None xs = None \<longleftrightarrow> xs = []"
  by (simp add: last_of_def)

lemma first_of_eq_None [simp]: "first_of xs None = None \<longleftrightarrow> xs = []"
  by (cases xs) auto

lemma first_of_in: "first_of xs None = Some y \<Longrightarrow> y \<in> set xs"
  by (cases xs) auto

lemma last_of_in: "last_of None xs = Some y \<Longrightarrow> y \<in> set xs"
  by (auto simp: last_of_def split: if_splits)

lemma chain_append: "chain nxt prv p (xs @ ys) q \<longleftrightarrow> chain nxt prv p xs (first_of ys q) \<and> chain nxt prv (last_of p xs) ys q"
  by (induction xs arbitrary: p) (auto simp: first_of_append)

lemma chain_cong:
  "(\<And>x. x \<in> set xs \<Longrightarrow> nxt' x = nxt x \<and> prv' x = prv x) \<Longrightarrow> chain nxt' prv' p xs q = chain nxt prv p xs q"
  by (induction xs arbitrary: p) auto

lemma chain_relast:
  "chain nxt prv p (xs @ [y]) q \<Longrightarrow> y \<notin> set xs \<Longrightarrow> nxt' y = q' \<Longrightarrow> (\<And>x. x \<noteq> y \<Longrightarrow> x \<in> set xs \<Longrightarrow> nxt' x = nxt x) \<Longrightarrow>
   (\<And>x. x \<in> set (xs @ [y]) \<Longrightarrow> prv' x = prv x) \<Longrightarrow> chain nxt' prv' p (xs @ [y]) q'"
  by (induction xs arbitrary: p) (auto simp: first_of_append)

lemma chain_refirst:
  "chain nxt prv p (x # xs) q \<Longrightarrow> x \<notin> set xs \<Longrightarrow> prv' x = p' \<Longrightarrow> (\<And>y. y \<in> set xs \<Longrightarrow> prv' y = prv y) \<Longrightarrow>
   (\<And>y. y \<in> set (x # xs) \<Longrightarrow> nxt' y = nxt y) \<Longrightarrow> chain nxt' prv' p' (x # xs) q"
  using chain_cong [of xs nxt' nxt prv' prv] by simp

lemma dll_Nil [simp]: "dll nxt prv None None []"
  by (simp add: dll_def)

lemma dll_cong: "(\<And>x. x \<in> set xs \<Longrightarrow> nxt' x = nxt x \<and> prv' x = prv x) \<Longrightarrow> dll nxt' prv' h t xs = dll nxt prv h t xs"
  by (simp add: dll_def chain_cong [of xs nxt' nxt prv' prv])

lemma dll_head: "dll nxt prv h t xs \<Longrightarrow> h = first_of xs None"
  and dll_tail: "dll nxt prv h t xs \<Longrightarrow> t = last_of None xs"
  and dll_distinct: "dll nxt prv h t xs \<Longrightarrow> distinct xs"
  by (simp_all add: dll_def)

lemma dll_next: "dll nxt prv h t (us @ x # vs) \<Longrightarrow> nxt x = first_of vs None"
  and dll_prev: "dll nxt prv h t (us @ x # vs) \<Longrightarrow> prv x = last_of None us"
  by (simp_all add: dll_def chain_append)

lemma dll_append:
  assumes d: "dll nxt prv h t xs" and x: "x \<notin> set xs" and nx: "nxt' x = None" "prv' x = t"
    and t: "\<And>y. t = Some y \<Longrightarrow> nxt' y = Some x"
    and fr: "\<And>y. y \<in> set xs \<Longrightarrow> t \<noteq> Some y \<Longrightarrow> nxt' y = nxt y" "\<And>y. y \<in> set xs \<Longrightarrow> prv' y = prv y"
  shows "dll nxt' prv' (if t = None then Some x else h) (Some x) (xs @ [x])"
proof (cases xs rule: rev_cases)
  case Nil
  then show ?thesis using d nx by (simp add: dll_def)
next
  case (snoc ys y)
  have ty: "t = Some y" using dll_tail [OF d] snoc by simp
  have "chain nxt' prv' None (ys @ [y]) (Some x)"
    by (rule chain_relast [of nxt prv None ys y None]) (use d snoc t ty fr in \<open>auto simp: dll_def\<close>)
  then have "chain nxt' prv' None (xs @ [x]) None"
    using nx ty snoc by (simp add: chain_append)
  then show ?thesis using d x ty snoc by (auto simp: dll_def first_of_append last_of_append)
qed

lemma dll_prepend:
  assumes d: "dll nxt prv h t xs" and x: "x \<notin> set xs" and nx: "nxt' x = h" "prv' x = None"
    and h: "\<And>y. h = Some y \<Longrightarrow> prv' y = Some x"
    and fr: "\<And>y. y \<in> set xs \<Longrightarrow> h \<noteq> Some y \<Longrightarrow> prv' y = prv y" "\<And>y. y \<in> set xs \<Longrightarrow> nxt' y = nxt y"
  shows "dll nxt' prv' (Some x) (if h = None then Some x else t) (x # xs)"
proof (cases xs)
  case Nil
  then show ?thesis using d nx by (simp add: dll_def)
next
  case (Cons y ys)
  have hy: "h = Some y" using dll_head [OF d] Cons by simp
  have "chain nxt' prv' (Some x) (y # ys) None"
    by (rule chain_refirst [of nxt prv None]) (use d Cons h hy fr in \<open>auto simp: dll_def\<close>)
  then show ?thesis using d x nx hy Cons by (simp add: dll_def)
qed

lemma dll_unlink:
  assumes d: "dll nxt prv h t (us @ x # vs)"
    and p: "\<And>y. last_of None us = Some y \<Longrightarrow> nxt' y = first_of vs None"
    and n: "\<And>y. first_of vs None = Some y \<Longrightarrow> prv' y = last_of None us"
    and fr: "\<And>y. y \<in> set (us @ vs) \<Longrightarrow> last_of None us \<noteq> Some y \<Longrightarrow> nxt' y = nxt y"
      "\<And>y. y \<in> set (us @ vs) \<Longrightarrow> first_of vs None \<noteq> Some y \<Longrightarrow> prv' y = prv y"
  shows "dll nxt' prv' (if us = [] then first_of vs None else h) (if vs = [] then last_of None us else t) (us @ vs)"
proof -
  have ds: "distinct (us @ x # vs)" and c: "chain nxt prv None us (Some x)" "chain nxt prv (Some x) vs None"
    using d by (auto simp: dll_def chain_append)
  have 1: "chain nxt' prv' None us (first_of vs None)"
  proof (cases us rule: rev_cases)
    case (snoc ys y)
    have fst_in: "first_of vs None = Some z \<Longrightarrow> z \<in> set vs" for z by (cases vs) auto
    show ?thesis unfolding snoc
      by (rule chain_relast [OF c(1) [unfolded snoc]]) (use ds p fr snoc fst_in in auto)
  qed simp
  have 2: "chain nxt' prv' (last_of None us) vs None"
  proof (cases vs)
    case (Cons y ys)
    have lst_in: "last_of None us = Some z \<Longrightarrow> z \<in> set us" for z by (auto simp: last_of_def split: if_splits)
    show ?thesis unfolding Cons
      by (rule chain_refirst [OF c(2) [unfolded Cons]]) (use ds n fr Cons lst_in in auto)
  qed simp
  have e: "h = first_of (us @ x # vs) None" "t = last_of None (us @ x # vs)" using d by (simp_all add: dll_def)
  show ?thesis using ds 1 2 unfolding dll_def e
    by (auto simp: chain_append first_of_append last_of_append) (auto simp: last_of_def neq_Nil_conv)
qed


section \<open>The surgery as one update of the link functions\<close>

lemma dll_remove1:
  assumes d: "dll nxt prv h t xs" and x: "x \<in> set xs"
  shows "dll (\<lambda>y. if y = x then None else if prv x = Some y then nxt x else nxt y)
             (\<lambda>y. if y = x then None else if nxt x = Some y then prv x else prv y)
             (if prv x = None then nxt x else h) (if nxt x = None then prv x else t) (remove1 x xs)"
proof -
  obtain us vs where xs: "xs = us @ x # vs" using x by (auto simp: in_set_conv_decomp)
  have dis: "distinct (us @ x # vs)" using dll_distinct [OF d] xs by simp
  have nx: "nxt x = first_of vs None" and pv: "prv x = last_of None us"
    using dll_next [of nxt prv h t us x vs] dll_prev [of nxt prv h t us x vs] d xs by simp_all
  have r: "remove1 x xs = us @ vs" using dis xs by (simp add: remove1_append)
  have pin: "prv x = Some y \<Longrightarrow> y \<in> set us" for y using pv by (auto simp: last_of_def split: if_splits)
  have nin: "nxt x = Some y \<Longrightarrow> y \<in> set vs" for y using nx by (cases vs) auto
  have "dll (\<lambda>y. if y = x then None else if prv x = Some y then nxt x else nxt y)
            (\<lambda>y. if y = x then None else if nxt x = Some y then prv x else prv y)
            (if us = [] then first_of vs None else h) (if vs = [] then last_of None us else t) (us @ vs)"
    by (rule dll_unlink [OF d [unfolded xs]]) (use dis pin nin nx pv in auto)
  moreover have "(if prv x = None then nxt x else h) = (if us = [] then first_of vs None else h)"
    "(if nxt x = None then prv x else t) = (if vs = [] then last_of None us else t)"
    using nx pv by auto
  ultimately show ?thesis by (simp only: r)
qed

lemma dll_append1:
  assumes d: "dll nxt prv h t xs" and x: "x \<notin> set xs"
  shows "dll (\<lambda>y. if y = x then None else if t = Some y then Some x else nxt y) (\<lambda>y. if y = x then t else prv y)
             (if t = None then Some x else h) (Some x) (xs @ [x])"
proof -
  have tin: "t = Some y \<Longrightarrow> y \<in> set xs" for y
    using dll_tail [OF d] by (auto simp: last_of_def split: if_splits)
  show ?thesis by (rule dll_append [OF d x]) (use tin x in auto)
qed

lemma dll_prepend1:
  assumes d: "dll nxt prv h t xs" and x: "x \<notin> set xs"
  shows "dll (\<lambda>y. if y = x then h else nxt y) (\<lambda>y. if y = x then None else if h = Some y then Some x else prv y)
             (Some x) (if h = None then Some x else t) (x # xs)"
proof -
  have hin: "h = Some y \<Longrightarrow> y \<in> set xs" for y
    using dll_head [OF d] by (cases xs) auto
  show ?thesis by (rule dll_prepend [OF d x]) (use hin x in auto)
qed

lemma dll_insert_before:
  assumes d: "dll nxt prv h t (us @ c # vs)" and x: "x \<notin> set (us @ c # vs)"
  shows "dll (\<lambda>y. if y = x then Some c else if prv c = Some y then Some x else nxt y)
             (\<lambda>y. if y = x then prv c else if y = c then Some x else prv y)
             (if prv c = None then Some x else h) t (us @ x # c # vs)"
proof -
  let ?n = "\<lambda>y. if y = x then Some c else if prv c = Some y then Some x else nxt y"
  let ?p = "\<lambda>y. if y = x then prv c else if y = c then Some x else prv y"
  have dis: "distinct (us @ c # vs)" and e: "h = first_of (us @ c # vs) None" "t = last_of None (us @ c # vs)"
    and ch: "chain nxt prv None us (Some c)" "chain nxt prv (last_of None us) (c # vs) None"
    using d by (auto simp: dll_def chain_append)
  have pv: "prv c = last_of None us" using ch by simp
  have pin: "prv c = Some y \<Longrightarrow> y \<in> set us" for y using pv by (auto simp: last_of_def split: if_splits)
  have 1: "chain ?n ?p None us (Some x)"
  proof (cases us rule: rev_cases)
    case (snoc ys y)
    show ?thesis unfolding snoc
      by (rule chain_relast [OF ch(1) [unfolded snoc]]) (use dis pv x snoc in auto)
  qed simp
  have 2: "chain ?n ?p (Some x) (c # vs) None"
    by (rule chain_refirst [OF ch(2)]) (use dis x pin in auto)
  have 3: "chain ?n ?p None (us @ x # c # vs) None"
    using 1 2 pv by (simp add: chain_append)
  have "us \<noteq> [] \<Longrightarrow> first_of us d = first_of us d'" for d d' by (cases us) auto
  then show ?thesis using dis x e pv 3 by (auto simp: dll_def first_of_append last_of_append)
qed

text \<open>Singly linked lists.\<close>

primrec slist :: "('a \<Rightarrow> 'a option) \<Rightarrow> 'a list \<Rightarrow> bool" where
  "slist nxt [] \<longleftrightarrow> True"
| "slist nxt (x # xs) \<longleftrightarrow> nxt x = first_of xs None \<and> slist nxt xs"

lemma slist_cong: "(\<And>x. x \<in> set xs \<Longrightarrow> nxt' x = nxt x) \<Longrightarrow> slist nxt' xs = slist nxt xs"
  by (induction xs) auto

lemma slist_snoc:
  "slist nxt xs \<Longrightarrow> x \<notin> set xs \<Longrightarrow> distinct xs \<Longrightarrow>
   slist (\<lambda>y. if y = x then None else if last_of None xs = Some y then Some x else nxt y) (xs @ [x])"
proof (induction xs)
  case (Cons a xs)
  show ?case
  proof (cases "xs = []")
    case False
    have l: "last_of None (a # xs) = last_of None xs" and na: "last_of None xs \<noteq> Some a"
      using Cons.prems False by (auto simp: last_of_def)
    have "first_of xs d = first_of xs d'" for d d' using False by (cases xs) auto
    moreover have "slist (\<lambda>y. if y = x then None else if last_of None xs = Some y then Some x else nxt y) (xs @ [x])"
      using Cons.IH Cons.prems by simp
    ultimately show ?thesis unfolding l using Cons.prems na by (auto simp: first_of_append)
  qed (use Cons.prems in auto)
qed simp

lemma chain_slist: "chain nxt prv p xs None \<Longrightarrow> slist nxt xs"
  by (induction xs arbitrary: p) auto


end
