(* ===== verification/Kernel_Pages.thy ===== *)
theory Kernel_Pages
  imports Links
begin

text \<open>
  The kernel's physical page allocator, \<^verbatim>\<open>src/kernel/mm/physical.cpp\<close>: one descriptor per page of the
  managed pool, reference counts, and a doubly linked list of the free descriptors. A descriptor
  pointer is an index into \<open>page_array\<close>; the descriptor array is a store of its own, the page contents are
  the byte memory \<open>ram\<close>, indexed by physical address. The board constants are the argument \<open>cfg\<close>.
  Saving and restoring the interrupt mask has no effect on this state.
\<close>

record PageFlags =
  allocated :: bool
  kernel_page :: bool

record Page =
  phys_addr :: u64
  ref_count :: u32
  page_flags :: PageFlags
  next_page :: "nat option"
  prev_page :: "nat option"

record PageList =
  list_head :: "nat option"
  list_tail :: "nat option"
  list_size :: u32

record board_config =
  PhysicalPagePoolBase :: u64
  PhysicalPagePoolSize :: u64
  EarlyHeapPhysicalBase :: u64
  EarlyHeapSize :: u64

record PhysicalMemory =
  num_pages :: u32
  page_array :: "nat \<Rightarrow> Page"
  free_pages :: PageList
  initialized :: bool
  reserved_heap_base :: u64
  managed_phys_base :: u64
  ram :: mem

abbreviation PageSize :: u64 where "PageSize \<equiv> 0x1000"

text \<open>The two boards.\<close>

definition raspi3_board :: board_config where
  "raspi3_board = \<lparr>PhysicalPagePoolBase = 0x06000000, PhysicalPagePoolSize = 0x39000000, EarlyHeapPhysicalBase = 0x02000000, EarlyHeapSize = 0x04000000\<rparr>"

definition virt_board :: board_config where
  "virt_board = \<lparr>PhysicalPagePoolBase = 0x48000000, PhysicalPagePoolSize = 0x08000000, EarlyHeapPhysicalBase = 0x42000000, EarlyHeapSize = 0x06000000\<rparr>"

section \<open>The free list\<close>

definition set_page :: "PhysicalMemory \<Rightarrow> nat \<Rightarrow> (Page \<Rightarrow> Page) \<Rightarrow> PhysicalMemory" where
  "set_page s i f = s\<lparr>page_array := (page_array s)(i := f (page_array s i))\<rparr>"

definition set_list :: "PhysicalMemory \<Rightarrow> (PageList \<Rightarrow> PageList) \<Rightarrow> PhysicalMemory" where
  "set_list s f = s\<lparr>free_pages := f (free_pages s)\<rparr>"

definition remove_page_list :: "PhysicalMemory \<Rightarrow> nat \<Rightarrow> PhysicalMemory" where
  "remove_page_list s node =
     (let nx = next_page (page_array s node); pv = prev_page (page_array s node);
          s = (case pv of Some p \<Rightarrow> set_page s p (\<lambda>x. x\<lparr>next_page := nx\<rparr>) | None \<Rightarrow> set_list s (\<lambda>l. l\<lparr>list_head := nx\<rparr>));
          s = (case nx of Some n \<Rightarrow> set_page s n (\<lambda>x. x\<lparr>prev_page := pv\<rparr>) | None \<Rightarrow> set_list s (\<lambda>l. l\<lparr>list_tail := pv\<rparr>));
          s = (if 0 < list_size (free_pages s) then set_list s (\<lambda>l. l\<lparr>list_size := list_size l - 1\<rparr>) else s)
      in set_page s node (\<lambda>x. x\<lparr>next_page := None, prev_page := None\<rparr>))"

definition append_page_list :: "PhysicalMemory \<Rightarrow> nat \<Rightarrow> PhysicalMemory" where
  "append_page_list s node =
     (let s = set_page s node (\<lambda>x. x\<lparr>next_page := None\<rparr>);
          s = (case list_tail (free_pages s) of
                 Some t \<Rightarrow> set_page (set_page s t (\<lambda>x. x\<lparr>next_page := Some node\<rparr>)) node (\<lambda>x. x\<lparr>prev_page := Some t\<rparr>)
               | None \<Rightarrow> set_list (set_page s node (\<lambda>x. x\<lparr>prev_page := None\<rparr>)) (\<lambda>l. l\<lparr>list_head := Some node\<rparr>))
      in set_list s (\<lambda>l. l\<lparr>list_tail := Some node, list_size := list_size l + 1\<rparr>))"

definition prepend_page_list :: "PhysicalMemory \<Rightarrow> nat \<Rightarrow> PhysicalMemory" where
  "prepend_page_list s node =
     (let s = set_page s node (\<lambda>x. x\<lparr>prev_page := None\<rparr>);
          s = (case list_head (free_pages s) of
                 Some h \<Rightarrow> set_page (set_page s node (\<lambda>x. x\<lparr>next_page := Some h\<rparr>)) h (\<lambda>x. x\<lparr>prev_page := Some node\<rparr>)
               | None \<Rightarrow> set_list (set_page s node (\<lambda>x. x\<lparr>next_page := None\<rparr>)) (\<lambda>l. l\<lparr>list_tail := Some node\<rparr>))
      in set_list s (\<lambda>l. l\<lparr>list_head := Some node, list_size := list_size l + 1\<rparr>))"

definition pop_page_list :: "PhysicalMemory \<Rightarrow> nat option \<times> PhysicalMemory" where
  "pop_page_list s =
     (case list_head (free_pages s) of
        None \<Rightarrow> (None, s)
      | Some res \<Rightarrow>
          (let s = set_list s (\<lambda>l. l\<lparr>list_head := next_page (page_array s res)\<rparr>);
               s = (case list_head (free_pages s) of Some h \<Rightarrow> set_page s h (\<lambda>x. x\<lparr>prev_page := None\<rparr>) | None \<Rightarrow> s);
               s = set_list s (\<lambda>l. l\<lparr>list_size := list_size l - 1\<rparr>);
               s = (if list_head (free_pages s) = None then set_list s (\<lambda>l. l\<lparr>list_tail := None\<rparr>) else s)
           in (Some res, set_page s res (\<lambda>x. x\<lparr>next_page := None, prev_page := None\<rparr>))))"

definition pop_page_list_tail :: "PhysicalMemory \<Rightarrow> nat option \<times> PhysicalMemory" where
  "pop_page_list_tail s =
     (case list_tail (free_pages s) of
        None \<Rightarrow> (None, s)
      | Some res \<Rightarrow>
          (let s = set_list s (\<lambda>l. l\<lparr>list_tail := prev_page (page_array s res)\<rparr>);
               s = (case list_tail (free_pages s) of
                      Some t \<Rightarrow> set_page s t (\<lambda>x. x\<lparr>next_page := None\<rparr>)
                    | None \<Rightarrow> set_list s (\<lambda>l. l\<lparr>list_head := None\<rparr>));
               s = set_list s (\<lambda>l. l\<lparr>list_size := list_size l - 1\<rparr>)
           in (Some res, set_page s res (\<lambda>x. x\<lparr>next_page := None, prev_page := None\<rparr>))))"

definition size_page_list :: "PhysicalMemory \<Rightarrow> u32" where
  "size_page_list s = list_size (free_pages s)"

definition page_from_phys :: "PhysicalMemory \<Rightarrow> u64 \<Rightarrow> u64 \<Rightarrow> nat option" where
  "page_from_phys s phys_base phys =
     (if phys < phys_base \<or> ucast (num_pages s) * PageSize \<le> phys - phys_base then None
      else Some (unat ((phys - phys_base) div PageSize)))"

section \<open>Operations\<close>

definition claim_page :: "PhysicalMemory \<Rightarrow> nat \<Rightarrow> PhysicalMemory" where
  "claim_page s i = set_page s i (\<lambda>x. x\<lparr>page_flags := \<lparr>allocated = True, kernel_page = True\<rparr>, ref_count := 1\<rparr>)"

definition init_page :: "u64 \<Rightarrow> PhysicalMemory \<Rightarrow> nat \<Rightarrow> PhysicalMemory" where
  "init_page phys_base s i =
     append_page_list (set_page s i (\<lambda>_. \<lparr>phys_addr = phys_base + of_nat i * PageSize, ref_count = 0,
       page_flags = \<lparr>allocated = False, kernel_page = False\<rparr>, next_page = None, prev_page = None\<rparr>)) i"

definition reserve_page :: "u32 \<Rightarrow> PhysicalMemory \<Rightarrow> nat \<Rightarrow> PhysicalMemory" where
  "reserve_page n s i = (if unat n \<le> i then s else claim_page (remove_page_list s i) i)"

definition init :: "board_config \<Rightarrow> PhysicalMemory \<Rightarrow> Status \<times> PhysicalMemory" where
  "init cfg s =
     (if initialized s then (StatusOK, s)
      else if PhysicalPagePoolBase cfg = 0 \<or> PhysicalPagePoolSize cfg < PageSize then (StatusNotSupported, s)
      else
        (let phys_base = PhysicalPagePoolBase cfg; phys_size = PhysicalPagePoolSize cfg;
             n = ucast (phys_size div PageSize) :: u32; s = s\<lparr>num_pages := n\<rparr>
         in if n = 0 then (StatusNotSupported, s)
            else
              (let page_array_bytes = ucast n * 32 :: u64;
                   page_array_pages = ucast ((page_array_bytes + PageSize - 1) div PageSize) :: u32;
                   page_array_phys = phys_base + phys_size - ucast page_array_pages * PageSize;
                   s = s\<lparr>free_pages := \<lparr>list_head = None, list_tail = None, list_size = 0\<rparr>\<rparr>;
                   s = fold (\<lambda>i s. init_page phys_base s i) [0..<unat n] s;
                   start_index = unat ((page_array_phys - phys_base) div PageSize);
                   s = (if phys_base \<le> page_array_phys \<and> start_index < unat n
                        then fold (\<lambda>j s. reserve_page n s (start_index + j)) [0..<unat page_array_pages] s else s)
               in (StatusOK, s\<lparr>managed_phys_base := phys_base, reserved_heap_base := EarlyHeapPhysicalBase cfg,
                               initialized := True\<rparr>))))"

definition clear_page :: "PhysicalMemory \<Rightarrow> u64 \<Rightarrow> PhysicalMemory" where
  "clear_page s phys = s\<lparr>ram := memzero (ram s) phys 4096\<rparr>"

definition alloc_page :: "PhysicalMemory \<Rightarrow> u64 \<times> PhysicalMemory" where
  "alloc_page s =
     (if \<not> initialized s then (0, s)
      else
        (case pop_page_list_tail s of
           (None, s) \<Rightarrow> (0, s)
         | (Some page, s) \<Rightarrow>
             (let s = claim_page s page; phys = phys_addr (page_array s page) in (phys, clear_page s phys))))"

primrec contiguous_from :: "nat \<Rightarrow> PhysicalMemory \<Rightarrow> nat option \<Rightarrow> u64 \<Rightarrow> bool" where
  "contiguous_from 0 s cursor expected_phys \<longleftrightarrow> True"
| "contiguous_from (Suc n) s cursor expected_phys \<longleftrightarrow>
     (case cursor of
        None \<Rightarrow> False
      | Some c \<Rightarrow> phys_addr (page_array s c) = expected_phys \<and>
          contiguous_from n s (next_page (page_array s c)) (expected_phys + PageSize))"

primrec take_pages :: "nat \<Rightarrow> PhysicalMemory \<Rightarrow> bool \<times> PhysicalMemory" where
  "take_pages 0 s = (True, s)"
| "take_pages (Suc n) s =
     (case pop_page_list s of
        (None, s) \<Rightarrow> (False, s)
      | (Some page, s) \<Rightarrow> (let s = claim_page s page in take_pages n (clear_page s (phys_addr (page_array s page)))))"

definition reserve_contiguous_pages :: "PhysicalMemory \<Rightarrow> u32 \<Rightarrow> u64 \<times> PhysicalMemory" where
  "reserve_contiguous_pages s page_count =
     (if \<not> initialized s \<or> page_count = 0 then (0, s)
      else if list_size (free_pages s) < page_count then (0, s)
      else
        (case list_head (free_pages s) of
           None \<Rightarrow> (0, s)
         | Some cursor \<Rightarrow>
             (let base_phys = phys_addr (page_array s cursor)
              in if \<not> contiguous_from (unat page_count) s (Some cursor) base_phys then (0, s)
                 else
                   (case take_pages (unat page_count) s of
                      (False, s) \<Rightarrow> (0, s)
                    | (True, s) \<Rightarrow> (base_phys, s)))))"

definition drop_page :: "PhysicalMemory \<Rightarrow> u64 \<Rightarrow> PhysicalMemory" where
  "drop_page s page_phys =
     (case page_from_phys s (managed_phys_base s) page_phys of
        None \<Rightarrow> s
      | Some page \<Rightarrow>
          prepend_page_list (set_page s page
            (\<lambda>x. x\<lparr>page_flags := \<lparr>allocated = False, kernel_page = False\<rparr>, ref_count := 0\<rparr>)) page)"

primrec release_pages :: "nat \<Rightarrow> u64 \<Rightarrow> PhysicalMemory \<Rightarrow> PhysicalMemory" where
  "release_pages 0 base_phys s = s"
| "release_pages (Suc n) base_phys s = release_pages n base_phys (drop_page s (base_phys + of_nat n * PageSize))"

definition release_contiguous_pages :: "PhysicalMemory \<Rightarrow> u64 \<Rightarrow> u32 \<Rightarrow> PhysicalMemory" where
  "release_contiguous_pages s base_phys page_count =
     (if \<not> initialized s \<or> base_phys = 0 \<or> page_count = 0 then s
      else release_pages (unat page_count) base_phys s)"

definition retain_page :: "PhysicalMemory \<Rightarrow> u64 \<Rightarrow> PhysicalMemory" where
  "retain_page s phys =
     (if \<not> initialized s then s
      else
        (case page_from_phys s (managed_phys_base s) phys of
           None \<Rightarrow> s
         | Some page \<Rightarrow>
             set_page s page (\<lambda>x. x\<lparr>page_flags := (page_flags x)\<lparr>allocated := True\<rparr>, ref_count := ref_count x + 1\<rparr>)))"

definition free_page :: "PhysicalMemory \<Rightarrow> u64 \<Rightarrow> PhysicalMemory" where
  "free_page s phys =
     (if \<not> initialized s then s
      else
        (case page_from_phys s (managed_phys_base s) (phys AND NOT (PageSize - 1)) of
           None \<Rightarrow> s
         | Some page \<Rightarrow>
             if ref_count (page_array s page) = 0 then s
             else
               (let s = set_page s page (\<lambda>x. x\<lparr>ref_count := ref_count x - 1\<rparr>)
                in if 0 < ref_count (page_array s page) then s
                   else append_page_list
                     (set_page s page (\<lambda>x. x\<lparr>page_flags := \<lparr>allocated = False, kernel_page = False\<rparr>\<rparr>)) page)))"

definition free_page_count :: "PhysicalMemory \<Rightarrow> u32" where
  "free_page_count s = (if \<not> initialized s then 0 else size_page_list s)"

definition page_refcount :: "PhysicalMemory \<Rightarrow> u64 \<Rightarrow> u32" where
  "page_refcount s phys =
     (if \<not> initialized s then 0
      else
        (case page_from_phys s (managed_phys_base s) (phys AND NOT (PageSize - 1)) of
           None \<Rightarrow> 0
         | Some page \<Rightarrow> ref_count (page_array s page)))"

definition is_valid_phys_page :: "PhysicalMemory \<Rightarrow> u64 \<Rightarrow> bool" where
  "is_valid_phys_page s phys \<longleftrightarrow>
     initialized s \<and> managed_phys_base s \<le> phys \<and> phys - managed_phys_base s < ucast (num_pages s) * PageSize \<and>
     phys AND (PageSize - 1) = 0"

definition reserved_heap_physical_base :: "board_config \<Rightarrow> PhysicalMemory \<Rightarrow> u64" where
  "reserved_heap_physical_base cfg s =
     (if initialized s \<and> reserved_heap_base s \<noteq> 0 then reserved_heap_base s else EarlyHeapPhysicalBase cfg)"


section \<open>The invariant\<close>

abbreviation page_next :: "PhysicalMemory \<Rightarrow> nat \<Rightarrow> nat option" where
  "page_next s \<equiv> \<lambda>i. next_page (page_array s i)"
abbreviation page_prev :: "PhysicalMemory \<Rightarrow> nat \<Rightarrow> nat option" where
  "page_prev s \<equiv> \<lambda>i. prev_page (page_array s i)"

text \<open>The list holds \<open>fs\<close>; counts and addresses are not its business.\<close>

definition free_list :: "PhysicalMemory \<Rightarrow> nat list \<Rightarrow> bool" where
  "free_list s fs \<longleftrightarrow>
     dll (page_next s) (page_prev s) (list_head (free_pages s)) (list_tail (free_pages s)) fs \<and>
     list_size (free_pages s) = of_nat (length fs)"

definition refs :: "PhysicalMemory \<Rightarrow> nat \<Rightarrow> nat" where
  "refs s i = unat (ref_count (page_array s i))"

definition page_count_of :: "PhysicalMemory \<Rightarrow> nat" where
  "page_count_of s = unat (num_pages s)"

definition page_address :: "PhysicalMemory \<Rightarrow> nat \<Rightarrow> u64" where
  "page_address s i = managed_phys_base s + of_nat i * PageSize"

definition geometry_ok :: "PhysicalMemory \<Rightarrow> bool" where
  "geometry_ok s \<longleftrightarrow> initialized s \<and> 0 < unat (managed_phys_base s) \<and> 4096 dvd unat (managed_phys_base s) \<and>
     unat (managed_phys_base s) + page_count_of s * 4096 < 2 ^ 64"

definition pages_ok :: "PhysicalMemory \<Rightarrow> nat list \<Rightarrow> bool" where
  "pages_ok s fs \<longleftrightarrow> geometry_ok s \<and> free_list s fs \<and>
     set fs = {i. i < page_count_of s \<and> refs s i = 0} \<and>
     (\<forall>i < page_count_of s. phys_addr (page_array s i) = page_address s i \<and>
        (allocated (page_flags (page_array s i)) \<longleftrightarrow> refs s i \<noteq> 0))"

section \<open>The list operations on the list of free pages\<close>

lemma page_state_simps [simp]:
  "page_array (set_page s i f) = (page_array s)(i := f (page_array s i))"
  "free_pages (set_page s i f) = free_pages s" "num_pages (set_page s i f) = num_pages s"
  "initialized (set_page s i f) = initialized s" "managed_phys_base (set_page s i f) = managed_phys_base s"
  "reserved_heap_base (set_page s i f) = reserved_heap_base s"
  "ram (set_page s i f) = ram s"
  "page_array (set_list s g) = page_array s" "free_pages (set_list s g) = g (free_pages s)"
  "num_pages (set_list s g) = num_pages s" "initialized (set_list s g) = initialized s"
  "managed_phys_base (set_list s g) = managed_phys_base s" "ram (set_list s g) = ram s"
  "reserved_heap_base (set_list s g) = reserved_heap_base s"
  "page_array (clear_page s p) = page_array s" "free_pages (clear_page s p) = free_pages s"
  "num_pages (clear_page s p) = num_pages s" "initialized (clear_page s p) = initialized s"
  "managed_phys_base (clear_page s p) = managed_phys_base s" "ram (clear_page s p) = memzero (ram s) p 4096"
  "reserved_heap_base (clear_page s p) = reserved_heap_base s"
  by (simp_all add: set_page_def set_list_def clear_page_def)

text \<open>What a list operation leaves alone: everything but links and list ends.\<close>

definition links_only :: "PhysicalMemory \<Rightarrow> PhysicalMemory \<Rightarrow> bool" where
  "links_only s s' \<longleftrightarrow> num_pages s' = num_pages s \<and> initialized s' = initialized s \<and>
     managed_phys_base s' = managed_phys_base s \<and> reserved_heap_base s' = reserved_heap_base s \<and> ram s' = ram s \<and>
     (\<forall>i. phys_addr (page_array s' i) = phys_addr (page_array s i) \<and> ref_count (page_array s' i) = ref_count (page_array s i) \<and>
          page_flags (page_array s' i) = page_flags (page_array s i))"

lemma append_page_list_ok:
  assumes "free_list s fs" "i \<notin> set fs"
  shows "free_list (append_page_list s i) (fs @ [i])" "links_only s (append_page_list s i)"
proof -
  show "links_only s (append_page_list s i)"
    by (auto simp: append_page_list_def links_only_def Let_def split: option.split)
  have d: "dll (page_next s) (page_prev s) (list_head (free_pages s)) (list_tail (free_pages s)) fs"
    using assms(1) by (simp add: free_list_def)
  have t: "list_tail (free_pages s) = last_of None fs" using dll_tail [OF d] .
  have "dll (page_next (append_page_list s i)) (page_prev (append_page_list s i))
     (if list_tail (free_pages s) = None then Some i else list_head (free_pages s)) (Some i) (fs @ [i])"
    by (rule dll_append [OF d assms(2)])
      (use assms(2) t in \<open>auto simp: append_page_list_def Let_def last_of_def split: option.split if_splits\<close>)
  moreover have "list_head (free_pages (append_page_list s i)) = (if list_tail (free_pages s) = None then Some i else list_head (free_pages s))"
    "list_tail (free_pages (append_page_list s i)) = Some i"
    "list_size (free_pages (append_page_list s i)) = list_size (free_pages s) + 1"
    by (auto simp: append_page_list_def Let_def split: option.split)
  ultimately show "free_list (append_page_list s i) (fs @ [i])"
    using assms(1) by (simp add: free_list_def)
qed

lemma prepend_page_list_ok:
  assumes "free_list s fs" "i \<notin> set fs"
  shows "free_list (prepend_page_list s i) (i # fs)" "links_only s (prepend_page_list s i)"
proof -
  show "links_only s (prepend_page_list s i)"
    by (auto simp: prepend_page_list_def links_only_def Let_def split: option.split)
  have d: "dll (page_next s) (page_prev s) (list_head (free_pages s)) (list_tail (free_pages s)) fs"
    using assms(1) by (simp add: free_list_def)
  have t: "list_head (free_pages s) = first_of fs None" using dll_head [OF d] .
  have "dll (page_next (prepend_page_list s i)) (page_prev (prepend_page_list s i)) (Some i)
     (if list_head (free_pages s) = None then Some i else list_tail (free_pages s)) (i # fs)"
    by (rule dll_prepend [OF d assms(2)])
      (use assms(2) t in \<open>auto simp: prepend_page_list_def Let_def first_of_def split: option.split list.splits\<close>)
  moreover have "list_tail (free_pages (prepend_page_list s i)) = (if list_head (free_pages s) = None then Some i else list_tail (free_pages s))"
    "list_head (free_pages (prepend_page_list s i)) = Some i"
    "list_size (free_pages (prepend_page_list s i)) = list_size (free_pages s) + 1"
    by (auto simp: prepend_page_list_def Let_def split: option.split)
  ultimately show "free_list (prepend_page_list s i) (i # fs)"
    using assms(1) by (simp add: free_list_def add.commute)
qed

lemma remove_page_list_ok:
  assumes "free_list s (us @ i # vs)" "length (us @ i # vs) < 2 ^ 32"
  shows "free_list (remove_page_list s i) (us @ vs)" "links_only s (remove_page_list s i)"
proof -
  show "links_only s (remove_page_list s i)"
    by (auto simp: remove_page_list_def links_only_def Let_def split: option.split)
  have d: "dll (page_next s) (page_prev s) (list_head (free_pages s)) (list_tail (free_pages s)) (us @ i # vs)"
    using assms(1) by (simp add: free_list_def)
  have nx: "page_next s i = first_of vs None" and pv: "page_prev s i = last_of None us" using dll_next [OF d] dll_prev [OF d] .
  have ds: "distinct (us @ i # vs)" using dll_distinct [OF d] .
  have l: "last_of None us = Some y \<Longrightarrow> y \<in> set us" "first_of vs None = Some y \<Longrightarrow> y \<in> set vs" for y
    by (auto simp: last_of_def first_of_def split: if_splits list.splits)
  have sz: "(0 :: u32) < of_nat (length (us @ i # vs))"
    unfolding word_less_nat_alt using assms(2) by (subst unat_of_nat_less) simp_all
  have "dll (page_next (remove_page_list s i)) (page_prev (remove_page_list s i))
     (if us = [] then first_of vs None else list_head (free_pages s)) (if vs = [] then last_of None us else list_tail (free_pages s)) (us @ vs)"
    by (rule dll_unlink [OF d])
      (use ds l in \<open>auto simp: remove_page_list_def Let_def nx pv split: option.split\<close>)
  moreover have "list_head (free_pages (remove_page_list s i)) = (if us = [] then first_of vs None else list_head (free_pages s))"
    "list_tail (free_pages (remove_page_list s i)) = (if vs = [] then last_of None us else list_tail (free_pages s))"
    by (auto simp: remove_page_list_def Let_def nx pv split: option.split)
  moreover have "list_size (free_pages (remove_page_list s i)) = list_size (free_pages s) - 1"
    using sz assms(1) by (auto simp: remove_page_list_def Let_def free_list_def split: option.split)
  ultimately show "free_list (remove_page_list s i) (us @ vs)"
    using assms(1) by (simp add: free_list_def)
qed

lemma list_size_pos:
  assumes "free_list s fs" "fs \<noteq> []" "length fs < 2 ^ 32"
  shows "0 < list_size (free_pages s)"
proof -
  have "unat (of_nat (length fs) :: u32) = length fs" using assms(3) by (intro unat_of_nat_less) simp
  then show ?thesis using assms by (simp add: free_list_def word_less_nat_alt)
qed

lemma pop_page_list_eq:
  assumes "free_list s (i # vs)" "length (i # vs) < 2 ^ 32"
  shows "pop_page_list s = (Some i, remove_page_list s i)"
proof -
  have d: "dll (page_next s) (page_prev s) (list_head (free_pages s)) (list_tail (free_pages s)) ([] @ i # vs)"
    using assms(1) by (simp add: free_list_def)
  have "list_head (free_pages s) = Some i" "prev_page (page_array s i) = None" using dll_head [OF d] dll_prev [OF d] by simp_all
  then show ?thesis using list_size_pos [OF assms(1) _ assms(2)]
    by (auto simp: pop_page_list_def remove_page_list_def Let_def set_page_def set_list_def split: option.split)
qed

lemma pop_page_list_tail_eq:
  assumes "free_list s (us @ [i])" "length (us @ [i]) < 2 ^ 32"
  shows "pop_page_list_tail s = (Some i, remove_page_list s i)"
proof -
  have d: "dll (page_next s) (page_prev s) (list_head (free_pages s)) (list_tail (free_pages s)) (us @ i # [])"
    using assms(1) by (simp add: free_list_def)
  have "list_tail (free_pages s) = Some i" "next_page (page_array s i) = None" using dll_tail [OF d] dll_next [OF d] by simp_all
  then show ?thesis using list_size_pos [OF assms(1) _ assms(2)]
    by (auto simp: pop_page_list_tail_def remove_page_list_def Let_def set_page_def set_list_def split: option.split)
qed

section \<open>Addresses\<close>

lemma unat_page_address:
  assumes "geometry_ok s" "i < page_count_of s"
  shows "unat (page_address s i) = unat (managed_phys_base s) + i * 4096"
proof -
  have b: "unat (managed_phys_base s) + i * 4096 < 2 ^ 64" using assms by (auto simp: geometry_ok_def)
  have "page_address s i = of_nat (unat (managed_phys_base s) + i * 4096)" by (simp add: page_address_def)
  then show ?thesis using b by (rule unat_eq_of_nat)
qed

lemma page_address_nonzero: "geometry_ok s \<Longrightarrow> i < page_count_of s \<Longrightarrow> page_address s i \<noteq> 0"
  using unat_page_address [of s i] by (auto simp: geometry_ok_def)

lemma page_from_phys_inside:
  assumes g: "geometry_ok s" and i: "i < page_count_of s" and x: "unat x = unat (page_address s i) + off" "off < 4096"
  shows "page_from_phys s (managed_phys_base s) x = Some i"
proof -
  have u: "unat x = unat (managed_phys_base s) + i * 4096 + off" using x unat_page_address [OF g i] by simp
  have d: "unat (x - managed_phys_base s) = i * 4096 + off" using u by (simp add: unat_sub word_le_nat_alt)
  have b: "page_count_of s * 4096 < 2 ^ 64" using g by (simp add: geometry_ok_def)
  have "ucast (num_pages s) * PageSize = of_nat (page_count_of s * 4096)" by (simp add: page_count_of_def)
  then have n: "unat (ucast (num_pages s) * PageSize) = page_count_of s * 4096"
    using b by (rule unat_eq_of_nat)
  have "i * 4096 + off < page_count_of s * 4096" using i x(2) by simp
  then have "\<not> (x < managed_phys_base s \<or> ucast (num_pages s) * PageSize \<le> x - managed_phys_base s)"
    using u d n by (simp add: word_less_nat_alt word_le_nat_alt)
  moreover have "unat ((x - managed_phys_base s) div PageSize) = i" using d x(2) by (simp add: unat_div)
  ultimately show ?thesis by (simp add: page_from_phys_def)
qed

lemma page_from_phys_range:
  assumes g: "geometry_ok s" and p: "page_from_phys s (managed_phys_base s) x = Some i"
  shows "i < page_count_of s"
proof -
  have b: "page_count_of s * 4096 < 2 ^ 64" using g by (simp add: geometry_ok_def)
  have "ucast (num_pages s) * PageSize = of_nat (page_count_of s * 4096)" by (simp add: page_count_of_def)
  then have n: "unat (ucast (num_pages s) * PageSize) = page_count_of s * 4096"
    using b by (rule unat_eq_of_nat)
  have "unat (x - managed_phys_base s) < page_count_of s * 4096" "i = unat (x - managed_phys_base s) div 4096"
    using p n by (auto simp: page_from_phys_def unat_div word_le_nat_alt not_le split: if_splits)
  then show ?thesis by (simp add: less_mult_imp_div_less)
qed

section \<open>Taking and returning a page\<close>

definition same_pool :: "PhysicalMemory \<Rightarrow> PhysicalMemory \<Rightarrow> bool" where
  "same_pool s s' \<longleftrightarrow> num_pages s' = num_pages s \<and> initialized s' = initialized s \<and>
     managed_phys_base s' = managed_phys_base s \<and> reserved_heap_base s' = reserved_heap_base s"

lemma same_pool_refl [simp]: "same_pool s s"
  by (simp add: same_pool_def)

lemma same_pool_trans: "same_pool s s' \<Longrightarrow> same_pool s' s'' \<Longrightarrow> same_pool s s''"
  by (simp add: same_pool_def)

lemma same_poolD:
  assumes "same_pool s s'"
  shows "page_count_of s' = page_count_of s" "page_address s' = page_address s" "geometry_ok s' = geometry_ok s"
    "initialized s' = initialized s" "managed_phys_base s' = managed_phys_base s"
  using assms by (auto simp: same_pool_def page_count_of_def page_address_def geometry_ok_def fun_eq_iff)

lemma links_only_pool: "links_only s s' \<Longrightarrow> same_pool s s'"
  by (simp add: links_only_def same_pool_def)

lemma free_list_cong:
  assumes "free_pages s' = free_pages s" "\<And>j. next_page (page_array s' j) = next_page (page_array s j)"
    "\<And>j. prev_page (page_array s' j) = prev_page (page_array s j)"
  shows "free_list s' fs = free_list s fs"
  using assms by (simp add: free_list_def)

lemma pages_ok_free_list: "pages_ok s fs \<Longrightarrow> free_list s fs"
  and pages_ok_geometry: "pages_ok s fs \<Longrightarrow> geometry_ok s"
  by (simp_all add: pages_ok_def)

lemma pages_ok_distinct: "pages_ok s fs \<Longrightarrow> distinct fs"
  by (auto simp: pages_ok_def free_list_def dest: dll_distinct)

lemma pages_ok_mem: "pages_ok s fs \<Longrightarrow> i \<in> set fs \<longleftrightarrow> i < page_count_of s \<and> refs s i = 0"
  by (simp add: pages_ok_def)

lemma pages_ok_length:
  assumes "pages_ok s fs"
  shows "length fs \<le> page_count_of s" "length fs < 2 ^ 32"
proof -
  have "set fs \<subseteq> {..<page_count_of s}" using assms by (auto simp: pages_ok_def)
  then have "card (set fs) \<le> card {..<page_count_of s}" by (intro card_mono) auto
  then show le: "length fs \<le> page_count_of s" using distinct_card [OF pages_ok_distinct [OF assms]] by simp
  show "length fs < 2 ^ 32" using le unat_u32_less [of "num_pages s"] by (simp add: page_count_of_def)
qed

text \<open>One page changes hands: the list, its count and its allocation flag, and nothing else.\<close>

lemma pages_ok_change:
  assumes ok: "pages_ok s fs" and sp: "same_pool s s'" and l: "free_list s' fs'" and r: "refs s' = (refs s)(i := k)"
    and i: "i < page_count_of s" and m: "set fs' = (if k = 0 then insert i (set fs) else set fs - {i})"
    and o: "\<And>j. phys_addr (page_array s' j) = phys_addr (page_array s j)"
      "\<And>j. j \<noteq> i \<Longrightarrow> page_flags (page_array s' j) = page_flags (page_array s j)"
    and f: "allocated (page_flags (page_array s' i)) \<longleftrightarrow> k \<noteq> 0"
  shows "pages_ok s' fs'"
proof -
  have "set fs' = {j. j < page_count_of s \<and> refs s' j = 0}" using ok i m r by (auto simp: pages_ok_def)
  then show ?thesis using ok l r f o unfolding pages_ok_def by (auto simp: same_poolD [OF sp])
qed

lemma take_page_ok:
  assumes ok: "pages_ok s (us @ i # vs)" and s': "s' = claim_page (remove_page_list s i) i"
  shows "pages_ok s' (us @ vs)" "refs s' = (refs s)(i := 1)" "same_pool s s'" "ram s' = ram s"
    "phys_addr (page_array s' i) = page_address s i" "i < page_count_of s"
proof -
  note len = pages_ok_length(2) [OF ok]
  note rm = remove_page_list_ok [OF pages_ok_free_list [OF ok] len]
  have i: "i < page_count_of s" using pages_ok_mem [OF ok, of i] by simp
  show r: "refs s' = (refs s)(i := 1)" using rm(2) by (auto simp: s' refs_def claim_page_def links_only_def fun_eq_iff)
  show sp: "same_pool s s'" using rm(2) by (simp add: s' same_pool_def claim_page_def links_only_def)
  show "ram s' = ram s" using rm(2) by (simp add: s' claim_page_def links_only_def)
  show "phys_addr (page_array s' i) = page_address s i"
    using rm(2) ok i by (simp add: s' claim_page_def links_only_def pages_ok_def)
  show "i < page_count_of s" by (rule i)
  have l: "free_list s' (us @ vs)"
    using rm(1) by (subst free_list_cong [of s' "remove_page_list s i"]) (auto simp: s' claim_page_def)
  show "pages_ok s' (us @ vs)"
    using pages_ok_distinct [OF ok] rm(2)
    by (intro pages_ok_change [OF ok sp l r i]) (auto simp: s' claim_page_def links_only_def)
qed

lemma give_page_ok:
  assumes ok: "pages_ok s fs" and i: "i < page_count_of s" "refs s i \<noteq> 0"
    and s1: "s1 = set_page s i (\<lambda>x. x\<lparr>page_flags := \<lparr>allocated = False, kernel_page = False\<rparr>, ref_count := 0\<rparr>)"
  shows "pages_ok (append_page_list s1 i) (fs @ [i])" "pages_ok (prepend_page_list s1 i) (i # fs)"
    "refs (append_page_list s1 i) = (refs s)(i := 0)" "refs (prepend_page_list s1 i) = (refs s)(i := 0)"
    "same_pool s (append_page_list s1 i)" "same_pool s (prepend_page_list s1 i)"
    "ram (append_page_list s1 i) = ram s" "ram (prepend_page_list s1 i) = ram s"
proof -
  have n: "i \<notin> set fs" using pages_ok_mem [OF ok] i by simp
  have l1: "free_list s1 fs"
    using pages_ok_free_list [OF ok] by (subst free_list_cong [of s1 s]) (auto simp: s1)
  note ap = append_page_list_ok [OF l1 n] and pr = prepend_page_list_ok [OF l1 n]
  show ra: "refs (append_page_list s1 i) = (refs s)(i := 0)" and rp: "refs (prepend_page_list s1 i) = (refs s)(i := 0)"
    using ap(2) pr(2) by (auto simp: refs_def s1 links_only_def fun_eq_iff)
  show sa: "same_pool s (append_page_list s1 i)" and sp: "same_pool s (prepend_page_list s1 i)"
    using ap(2) pr(2) by (simp_all add: same_pool_def s1 links_only_def)
  show "ram (append_page_list s1 i) = ram s" "ram (prepend_page_list s1 i) = ram s"
    using ap(2) pr(2) by (simp_all add: s1 links_only_def)
  show "pages_ok (append_page_list s1 i) (fs @ [i])"
    using ap(2) by (intro pages_ok_change [OF ok sa ap(1) ra i(1)]) (auto simp: s1 links_only_def)
  show "pages_ok (prepend_page_list s1 i) (i # fs)"
    using pr(2) by (intro pages_ok_change [OF ok sp pr(1) rp i(1)]) (auto simp: s1 links_only_def)
qed

section \<open>The operations\<close>

lemma clear_page_simps [simp]: "refs (clear_page s p) = refs s" "pages_ok (clear_page s p) fs = pages_ok s fs"
  "same_pool s' (clear_page s p) = same_pool s' s"
  by (auto simp: refs_def pages_ok_def geometry_ok_def free_list_def page_count_of_def page_address_def same_pool_def)

lemma alloc_page_ok:
  assumes "pages_ok s (us @ [i])"
  shows "\<exists>s'. alloc_page s = (page_address s i, s') \<and> pages_ok s' us \<and> refs s' = (refs s)(i := 1) \<and> same_pool s s' \<and>
    ram s' = memzero (ram s) (page_address s i) 4096"
proof -
  define s1 where "s1 = claim_page (remove_page_list s i) i"
  note t = take_page_ok [OF assms s1_def]
  have "pop_page_list_tail s = (Some i, remove_page_list s i)"
    using pop_page_list_tail_eq [OF pages_ok_free_list [OF assms] pages_ok_length(2) [OF assms]] .
  moreover have "initialized s" using pages_ok_geometry [OF assms] by (simp add: geometry_ok_def)
  ultimately have "alloc_page s = (page_address s i, clear_page s1 (page_address s i))"
    using t(5) by (simp add: alloc_page_def s1_def [symmetric] Let_def)
  then show ?thesis using t by simp
qed

lemma alloc_page_empty: "pages_ok s [] \<Longrightarrow> alloc_page s = (0, s)"
  by (simp add: pages_ok_def free_list_def dll_def alloc_page_def pop_page_list_tail_def)

lemma page_lookup:
  assumes g: "geometry_ok s" and i: "i < page_count_of s" and x: "unat (page_address s i) \<le> unat x" "unat x < unat (page_address s i) + 4096"
  shows "page_from_phys s (managed_phys_base s) x = Some i"
    "page_from_phys s (managed_phys_base s) (x AND NOT (PageSize - 1)) = Some i"
proof -
  show "page_from_phys s (managed_phys_base s) x = Some i"
    using x by (intro page_from_phys_inside [OF g i, of _ "unat x - unat (page_address s i)"]) auto
  obtain b where b: "unat (managed_phys_base s) = 4096 * b" using g by (auto simp: geometry_ok_def elim: dvdE)
  have "unat (page_address s i) = 4096 * (b + i)" using unat_page_address [OF g i] b by simp
  then have "unat x div 4096 = b + i" using x by (intro div_nat_eqI) auto
  then have "unat (x AND NOT (mask 12)) = unat (page_address s i)"
    using unat_aligned_down [of x 12] \<open>unat (page_address s i) = 4096 * (b + i)\<close> by simp
  then have "unat (x AND NOT (PageSize - 1)) = unat (page_address s i) + 0" by (simp add: mask_numeral)
  then show "page_from_phys s (managed_phys_base s) (x AND NOT (PageSize - 1)) = Some i"
    by (rule page_from_phys_inside [OF g i]) simp
qed

lemma free_page_ok:
  assumes ok: "pages_ok s fs" and i: "i < page_count_of s"
    and x: "unat (page_address s i) \<le> unat x" "unat x < unat (page_address s i) + 4096"
  shows "refs s i = 0 \<Longrightarrow> free_page s x = s"
    and "refs s i \<noteq> 0 \<Longrightarrow> pages_ok (free_page s x) (if refs s i = 1 then fs @ [i] else fs)"
    and "refs s i \<noteq> 0 \<Longrightarrow> refs (free_page s x) = (refs s)(i := refs s i - 1)"
    and "same_pool s (free_page s x)" "ram (free_page s x) = ram s"
proof -
  note g = pages_ok_geometry [OF ok]
  have ini: "initialized s" using g by (simp add: geometry_ok_def)
  note lk = page_lookup(2) [OF g i x]
  let ?c = "ref_count (page_array s i)"
  have c0: "?c = 0 \<longleftrightarrow> refs s i = 0" by (simp add: refs_def unat_eq_0)
  let ?s1 = "set_page s i (\<lambda>p. p\<lparr>ref_count := ref_count p - 1\<rparr>)"
  let ?s2 = "set_page s i (\<lambda>p. p\<lparr>page_flags := \<lparr>allocated = False, kernel_page = False\<rparr>, ref_count := 0\<rparr>)"
  show z: "refs s i = 0 \<Longrightarrow> free_page s x = s" using c0 lk by (simp add: free_page_def)
  have m1: "?c \<noteq> 0 \<Longrightarrow> unat (?c - 1) = refs s i - 1" by (simp add: refs_def unat_minus_one)
  have one: "refs s i = 1 \<Longrightarrow> free_page s x = append_page_list ?s2 i"
  proof -
    assume "refs s i = 1"
    then have "unat ?c = unat (1 :: u32)" by (simp add: refs_def)
    then have "?c = 1" by (simp only: unsigned_word_eqI)
    have cm: "p\<lparr>ref_count := c, page_flags := f\<rparr> = p\<lparr>page_flags := f, ref_count := c\<rparr>" for p :: Page and c f
      by (cases p) simp
    show ?thesis using \<open>?c = 1\<close> ini lk by (simp add: free_page_def Let_def set_page_def) (simp only: cm)
  qed
  have more: "1 < refs s i \<Longrightarrow> free_page s x = ?s1"
  proof -
    assume r: "1 < refs s i"
    then have "?c \<noteq> 0" using c0 by simp
    then have "0 < ?c - 1" using m1 r by (simp add: word_less_nat_alt)
    then show ?thesis using ini lk \<open>?c \<noteq> 0\<close> by (simp add: free_page_def Let_def)
  qed
  have s1: "free_list ?s1 fs" "same_pool s ?s1"
    using pages_ok_free_list [OF ok] by (auto simp: free_list_cong [of ?s1 s] same_pool_def)
  have r1: "1 < refs s i \<Longrightarrow> refs ?s1 = (refs s)(i := refs s i - 1)"
    using m1 c0 by (auto simp: refs_def fun_eq_iff)
  have ok1: "1 < refs s i \<Longrightarrow> pages_ok ?s1 fs"
    using pages_ok_mem [OF ok, of i] ok i
    by (intro pages_ok_change [OF ok s1(2) s1(1) r1 i]) (auto simp: pages_ok_def)
  have gt: "refs s i \<noteq> 0 \<Longrightarrow> refs s i \<noteq> 1 \<Longrightarrow> 1 < refs s i" by simp
  note gp = give_page_ok [OF ok i _ refl]
  show "refs s i \<noteq> 0 \<Longrightarrow> pages_ok (free_page s x) (if refs s i = 1 then fs @ [i] else fs)"
    using gt one more ok1 gp(1) by (cases "refs s i = 1") simp_all
  show "refs s i \<noteq> 0 \<Longrightarrow> refs (free_page s x) = (refs s)(i := refs s i - 1)"
    using gt one more r1 gp(3) by (cases "refs s i = 1") simp_all
  show "same_pool s (free_page s x)"
    using gt z one more s1(2) gp(5) by (cases "refs s i = 0"; cases "refs s i = 1") simp_all
  show "ram (free_page s x) = ram s"
    using gt z one more gp(7) by (cases "refs s i = 0"; cases "refs s i = 1") simp_all
qed

lemma retain_page_ok:
  assumes ok: "pages_ok s fs" and i: "i < page_count_of s" and r: "0 < refs s i" "Suc (refs s i) < 2 ^ 32"
  shows "pages_ok (retain_page s (page_address s i)) fs" "refs (retain_page s (page_address s i)) = (refs s)(i := Suc (refs s i))"
    "same_pool s (retain_page s (page_address s i))" "ram (retain_page s (page_address s i)) = ram s"
proof -
  note g = pages_ok_geometry [OF ok]
  let ?s1 = "set_page s i (\<lambda>x. x\<lparr>page_flags := (page_flags x)\<lparr>allocated := True\<rparr>, ref_count := ref_count x + 1\<rparr>)"
  have e: "retain_page s (page_address s i) = ?s1"
    using g page_lookup(1) [OF g i, of "page_address s i"] by (simp add: retain_page_def geometry_ok_def)
  have "unat (ref_count (page_array s i) + 1) = Suc (refs s i)" using r(2) by (simp add: refs_def unat_word_ariths)
  then show rr: "refs (retain_page s (page_address s i)) = (refs s)(i := Suc (refs s i))"
    unfolding e by (auto simp: refs_def fun_eq_iff)
  show sp: "same_pool s (retain_page s (page_address s i))" "ram (retain_page s (page_address s i)) = ram s"
    unfolding e by (simp_all add: same_pool_def)
  have l: "free_list (retain_page s (page_address s i)) fs"
    unfolding e using pages_ok_free_list [OF ok] by (auto simp: free_list_cong [of ?s1 s])
  show "pages_ok (retain_page s (page_address s i)) fs"
    using r(1) pages_ok_mem [OF ok, of i]
    by (intro pages_ok_change [OF ok sp(1) l rr i]) (auto simp: e)
qed

lemma page_address_inj:
  "geometry_ok s \<Longrightarrow> i < page_count_of s \<Longrightarrow> j \<le> page_count_of s \<Longrightarrow> page_address s i = page_address s j \<Longrightarrow> i = j"
proof -
  assume g: "geometry_ok s" and i: "i < page_count_of s" and j: "j \<le> page_count_of s" and e: "page_address s i = page_address s j"
  have "page_address s j = of_nat (unat (managed_phys_base s) + j * 4096)" by (simp add: page_address_def)
  moreover have "unat (managed_phys_base s) + j * 4096 < 2 ^ 64"
    using g j mult_le_mono1 [OF j, of 4096] by (simp add: geometry_ok_def)
  ultimately have "unat (page_address s j) = unat (managed_phys_base s) + j * 4096" by (rule unat_eq_of_nat)
  with unat_page_address [OF g i] e show ?thesis by simp
qed

lemma contiguous_from_iff:
  assumes ok: "pages_ok s (us @ xs)" and i: "i \<le> page_count_of s"
  shows "contiguous_from k s (first_of xs None) (page_address s i) \<longleftrightarrow> k \<le> length xs \<and> take k xs = [i..<i + k]"
  using ok i
proof (induction k arbitrary: us xs i)
  case 0
  then show ?case by simp
next
  case (Suc k)
  show ?case
  proof (cases xs)
    case Nil
    then show ?thesis by simp
  next
    case (Cons x ys)
    have x: "x < page_count_of s" "phys_addr (page_array s x) = page_address s x"
      using Suc.prems(1) pages_ok_mem [OF Suc.prems(1), of x] Cons by (auto simp: pages_ok_def)
    have nx: "next_page (page_array s x) = first_of ys None"
      using Suc.prems(1) dll_next [of "page_next s" "page_prev s" _ _ us x ys] by (auto simp: Cons pages_ok_def free_list_def)
    have eq: "page_address s x = page_address s i \<longleftrightarrow> x = i"
      using page_address_inj [OF pages_ok_geometry [OF Suc.prems(1)] x(1) Suc.prems(2)] by auto
    have sc: "page_address s i + PageSize = page_address s (Suc i)" by (simp add: page_address_def algebra_simps)
    have up: "[i..<i + Suc k] = i # [Suc i..<Suc i + k]" by (simp add: upt_conv_Cons)
    show ?thesis
    proof (cases "x = i")
      case True
      then have "contiguous_from k s (first_of ys None) (page_address s (Suc i)) \<longleftrightarrow> k \<le> length ys \<and> take k ys = [Suc i..<Suc i + k]"
        using Suc.IH [of "us @ [x]" ys "Suc i"] Suc.prems(1) x(1) Cons by simp
      then show ?thesis using True x nx eq sc Cons up by simp
    next
      case False
      then show ?thesis using x eq Cons up by simp
    qed
  qed
qed

lemma take_pages_ok:
  assumes "pages_ok s (xs @ ys)"
  shows "\<exists>s'. take_pages (length xs) s = (True, s') \<and> pages_ok s' ys \<and> same_pool s s' \<and>
    refs s' = (\<lambda>j. if j \<in> set xs then 1 else refs s j) \<and>
    ram s' = fold (\<lambda>i m. memzero m (page_address s i) 4096) xs (ram s)"
  using assms
proof (induction xs arbitrary: s)
  case Nil
  then show ?case by simp
next
  case (Cons x xs)
  define s1 where "s1 = claim_page (remove_page_list s x) x"
  have ok: "pages_ok s ([] @ x # xs @ ys)" using Cons.prems by simp
  note t = take_page_ok [OF ok s1_def]
  let ?s2 = "clear_page s1 (page_address s x)"
  have pop: "pop_page_list s = (Some x, remove_page_list s x)"
    using pop_page_list_eq [of s x "xs @ ys"] pages_ok_free_list [OF ok] pages_ok_length(2) [OF ok] by simp
  have ok2: "pages_ok ?s2 (xs @ ys)"
    using t(1) by simp
  have sp2: "same_pool s ?s2" "refs ?s2 = (refs s)(x := 1)" "ram ?s2 = memzero (ram s) (page_address s x) 4096"
    using t by simp_all
  from Cons.IH [OF ok2] obtain s' where s': "take_pages (length xs) ?s2 = (True, s')" "pages_ok s' ys" "same_pool ?s2 s'"
    "refs s' = (\<lambda>j. if j \<in> set xs then 1 else refs ?s2 j)"
    "ram s' = fold (\<lambda>i m. memzero m (page_address s i) 4096) xs (ram ?s2)"
    using same_poolD(2) [OF sp2(1)] by auto
  have "take_pages (length (x # xs)) s = (True, s')" using pop s'(1) t(5) by (simp add: s1_def [symmetric] Let_def)
  moreover have "refs s' = (\<lambda>j. if j \<in> set (x # xs) then 1 else refs s j)" using s'(4) sp2(2) by (auto simp: fun_eq_iff)
  moreover have "same_pool s s'" using same_pool_trans [OF sp2(1) s'(3)] .
  ultimately show ?case using s'(2,5) sp2(3) by (intro exI [of _ s']) simp
qed

lemma reserve_contiguous_ok:
  assumes ok: "pages_ok s fs" and k: "0 < k" "unat k \<le> length fs" "take (unat k) fs = [i..<i + unat k]"
  shows "\<exists>s'. reserve_contiguous_pages s k = (page_address s i, s') \<and> pages_ok s' (drop (unat k) fs) \<and> same_pool s s' \<and>
    refs s' = (\<lambda>j. if j \<in> {i..<i + unat k} then 1 else refs s j) \<and>
    ram s' = fold (\<lambda>i m. memzero m (page_address s i) 4096) [i..<i + unat k] (ram s)"
proof -
  have u: "0 < unat k" using k(1) by (simp add: word_less_nat_alt)
  have "hd (take (unat k) fs) = i" unfolding k(3) using u by (simp add: upt_conv_Cons)
  then obtain ys where fs: "fs = i # ys" using k(2) u by (cases fs; cases "unat k") auto
  have i: "i < page_count_of s" "phys_addr (page_array s i) = page_address s i"
    using pages_ok_mem [OF ok, of i] ok fs by (auto simp: pages_ok_def)
  have hd: "list_head (free_pages s) = Some i" using ok fs by (auto simp: pages_ok_def free_list_def dest: dll_head)
  have sz: "\<not> list_size (free_pages s) < k"
    using ok k(2) pages_ok_length(2) [OF ok]
    by (simp add: pages_ok_def free_list_def word_less_nat_alt unat_of_nat_less)
  have c: "contiguous_from (unat k) s (Some i) (page_address s i)"
    using contiguous_from_iff [of s "[]" fs i "unat k"] ok i(1) k(2,3) fs by simp
  from take_pages_ok [of s "take (unat k) fs" "drop (unat k) fs"] ok k(2)
  obtain s' where "take_pages (unat k) s = (True, s')" "pages_ok s' (drop (unat k) fs)" "same_pool s s'"
    "refs s' = (\<lambda>j. if j \<in> set (take (unat k) fs) then 1 else refs s j)"
    "ram s' = fold (\<lambda>i m. memzero m (page_address s i) 4096) (take (unat k) fs) (ram s)" by (auto simp: min_absorb2)
  then show ?thesis
    using hd sz c i k u pages_ok_geometry [OF ok]
    by (auto simp: reserve_contiguous_pages_def geometry_ok_def word_gt_0)
qed

lemma drop_page_ok:
  assumes "pages_ok s fs" "j < page_count_of s" "refs s j \<noteq> 0" "x = page_address s j"
  shows "\<exists>s1. drop_page s x = s1 \<and> pages_ok s1 (j # fs) \<and> refs s1 = (refs s)(j := 0) \<and> same_pool s s1 \<and> ram s1 = ram s"
proof -
  have "page_from_phys s (managed_phys_base s) x = Some j"
    using page_lookup(1) [OF pages_ok_geometry [OF assms(1)] assms(2), of x] assms(4) by simp
  then show ?thesis using give_page_ok(2,4,6,8) [OF assms(1-3) refl] by (simp add: drop_page_def)
qed

lemma release_pages_ok:
  assumes "pages_ok s fs" "i + n \<le> page_count_of s" "\<And>j. j \<in> {i..<i + n} \<Longrightarrow> refs s j \<noteq> 0" "a = page_address s i"
  shows "pages_ok (release_pages n a s) ([i..<i + n] @ fs) \<and>
    refs (release_pages n a s) = (\<lambda>j. if j \<in> {i..<i + n} then 0 else refs s j) \<and>
    same_pool s (release_pages n a s) \<and> ram (release_pages n a s) = ram s"
  using assms
proof (induction n arbitrary: s fs)
  case 0
  then show ?case by simp
next
  case (Suc n)
  have "i + n < page_count_of s" "refs s (i + n) \<noteq> 0" "a + of_nat n * PageSize = page_address s (i + n)"
    using Suc.prems by (auto simp: page_address_def algebra_simps)
  from drop_page_ok [OF Suc.prems(1) this] obtain s1 where s1: "drop_page s (a + of_nat n * PageSize) = s1"
    "pages_ok s1 ((i + n) # fs)" "refs s1 = (refs s)(i + n := 0)" "same_pool s s1" "ram s1 = ram s" by blast
  have pr: "i + n \<le> page_count_of s1" "\<And>j. j \<in> {i..<i + n} \<Longrightarrow> refs s1 j \<noteq> 0" "a = page_address s1 i"
    using Suc.prems s1(3) by (auto simp: same_poolD [OF s1(4)])
  note ih = Suc.IH [OF s1(2) pr]
  have e: "release_pages (Suc n) a s = release_pages n a s1" "[i..<i + Suc n] @ fs = [i..<i + n] @ (i + n) # fs"
    using s1(1) by simp_all
  have "(\<lambda>j. if j \<in> {i..<i + n} then 0 else refs s1 j) = (\<lambda>j. if j \<in> {i..<i + Suc n} then 0 else refs s j)"
    using s1(3) by (auto simp: fun_eq_iff)
  then show ?case unfolding e using ih s1(4,5) same_pool_trans by simp
qed

section \<open>Initialisation\<close>

definition activate :: "board_config \<Rightarrow> PhysicalMemory \<Rightarrow> PhysicalMemory" where
  "activate cfg s = s\<lparr>managed_phys_base := PhysicalPagePoolBase cfg, reserved_heap_base := EarlyHeapPhysicalBase cfg, initialized := True\<rparr>"

lemma fold_commute_fun: "(\<And>x s. f x (g s) = g (f x s)) \<Longrightarrow> g (fold f xs s) = fold f xs (g s)"
  by (induction xs arbitrary: s) auto

lemma init_page_activate: "init_page b (activate cfg s) i = activate cfg (init_page b s i)"
  by (auto simp: init_page_def append_page_list_def activate_def Let_def set_page_def set_list_def split: option.split)

lemma reserve_page_activate: "reserve_page n (activate cfg s) i = activate cfg (reserve_page n s i)"
  by (auto simp: reserve_page_def remove_page_list_def claim_page_def activate_def Let_def set_page_def set_list_def split: option.split)

lemma init_pages_ok:
  assumes "m \<le> page_count_of s" "free_list s []"
  shows "\<exists>s'. fold (\<lambda>i s. init_page (managed_phys_base s0) s i) [0..<m] s = s' \<and> same_pool s s' \<and> ram s' = ram s \<and> free_list s' [0..<m] \<and>
    (\<forall>j < m. phys_addr (page_array s' j) = managed_phys_base s0 + of_nat j * PageSize \<and> refs s' j = 0 \<and>
       \<not> allocated (page_flags (page_array s' j)))"
  using assms(1)
proof (induction m)
  case 0
  then show ?case using assms(2) by simp
next
  case (Suc m)
  then obtain s1 where s1: "fold (\<lambda>i s. init_page (managed_phys_base s0) s i) [0..<m] s = s1" "same_pool s s1" "ram s1 = ram s"
    "free_list s1 [0..<m]" "\<forall>j < m. phys_addr (page_array s1 j) = managed_phys_base s0 + of_nat j * PageSize \<and> refs s1 j = 0 \<and>
       \<not> allocated (page_flags (page_array s1 j))" by auto
  let ?s2 = "set_page s1 m (\<lambda>_. \<lparr>phys_addr = managed_phys_base s0 + of_nat m * PageSize, ref_count = 0,
       page_flags = \<lparr>allocated = False, kernel_page = False\<rparr>, next_page = None, prev_page = None\<rparr>)"
  have "dll (page_next ?s2) (page_prev ?s2) h t [0..<m] = dll (page_next s1) (page_prev s1) h t [0..<m]" for h t
    by (rule dll_cong) auto
  then have l2: "free_list ?s2 [0..<m]" using s1(4) by (simp add: free_list_def)
  note ap = append_page_list_ok [OF l2, of m]
  have "init_page (managed_phys_base s0) s1 m = append_page_list ?s2 m" by (simp add: init_page_def)
  then show ?case using s1 ap
    by (intro exI [of _ "append_page_list ?s2 m"]) (auto simp: links_only_def same_pool_def refs_def less_Suc_eq)
qed

lemma reserve_pages_ok:
  assumes "pages_ok s [0..<page_count_of s]" "b + k \<le> page_count_of s" and that: "num_pages s0 = num_pages s"
  shows "\<exists>s'. fold (\<lambda>j s. reserve_page (num_pages s0) s (b + j)) [0..<k] s = s' \<and> same_pool s s' \<and> ram s' = ram s \<and>
    pages_ok s' ([0..<b] @ [b + k..<page_count_of s]) \<and> refs s' = (\<lambda>j. if j \<in> {b..<b + k} then 1 else refs s j)"
  using assms(2)
proof (induction k)
  case 0
  then have "[0..<b] @ [b..<page_count_of s] = [0..<page_count_of s]" 
    using upt_add_eq_append [of 0 b "page_count_of s - b"] by simp
  then show ?case using assms(1) by simp
next
  case (Suc k)
  then obtain s1 where s1: "fold (\<lambda>j s. reserve_page (num_pages s0) s (b + j)) [0..<k] s = s1" "same_pool s s1" "ram s1 = ram s"
    "pages_ok s1 ([0..<b] @ [b + k..<page_count_of s])" "refs s1 = (\<lambda>j. if j \<in> {b..<b + k} then 1 else refs s j)" by auto
  have up: "[b + k..<page_count_of s] = (b + k) # [b + Suc k..<page_count_of s]" using Suc.prems by (simp add: upt_conv_Cons)
  define s2 where "s2 = claim_page (remove_page_list s1 (b + k)) (b + k)"
  note t = take_page_ok [OF s1(4) [unfolded up] s2_def]
  have "\<not> unat (num_pages s0) \<le> b + k" using Suc.prems that by (simp add: page_count_of_def)
  then have "fold (\<lambda>j s. reserve_page (num_pages s0) s (b + j)) [0..<Suc k] s = s2"
    using s1(1) by (simp add: reserve_page_def s2_def)
  moreover have "refs s2 = (\<lambda>j. if j \<in> {b..<b + Suc k} then 1 else refs s j)"
    using t(2) s1(5) by (auto simp: fun_eq_iff)
  ultimately show ?case using t(1,3,4) s1(2,3) same_pool_trans by simp
qed

text \<open>A pool the allocator can manage: page aligned, not at address 0, and not beyond the address space.\<close>

definition pool_of :: "board_config \<Rightarrow> nat \<Rightarrow> bool" where
  "pool_of cfg n \<longleftrightarrow> 0 < n \<and> n < 2 ^ 32 \<and> unat (PhysicalPagePoolSize cfg) = n * 4096 \<and> 0 < unat (PhysicalPagePoolBase cfg) \<and>
     4096 dvd unat (PhysicalPagePoolBase cfg) \<and> unat (PhysicalPagePoolBase cfg) + n * 4096 < 2 ^ 64"

definition descriptor_pages :: "nat \<Rightarrow> nat" where
  "descriptor_pages n = (n * 32 + 4095) div 4096"

lemma descriptor_pages_le: "0 < n \<Longrightarrow> 0 < descriptor_pages n \<and> descriptor_pages n \<le> n"
  by (auto simp: descriptor_pages_def div_greater_zero_iff less_mult_imp_div_less intro!: order.strict_implies_order div_le_dividend)

lemma init_numbers:
  assumes p: "pool_of cfg n" and bd: "b = PhysicalPagePoolBase cfg" and sd: "sz = PhysicalPagePoolSize cfg"
    and md: "m = (ucast (sz div PageSize) :: u32)" and pd: "pp = (ucast ((ucast m * 32 + PageSize - 1 :: u64) div PageSize) :: u32)"
    and ad: "a = b + sz - ucast pp * PageSize"
  shows "unat m = n" "m \<noteq> 0" "unat pp = descriptor_pages n" "b \<le> a" "unat ((a - b) div PageSize) = n - descriptor_pages n"
    "b \<noteq> 0" "\<not> sz < PageSize"
proof -
  have us: "unat sz = n * 4096" and n: "0 < n" "n < 2 ^ 32" and ub: "0 < unat b" "unat b + n * 4096 < 2 ^ 64"
    using p by (auto simp: pool_of_def bd sd)
  show b0: "b \<noteq> 0" using ub(1) by auto
  show "\<not> sz < PageSize" using us n(1) by (simp add: word_less_nat_alt)
  have "unat (sz div PageSize) = n" using us by (simp add: unat_div)
  then show um: "unat m = n" unfolding md using n(2) by (simp add: unsigned_ucast_eq take_bit_nat_eq_self)
  then show "m \<noteq> 0" using n(1) by auto
  have "ucast m * 32 + PageSize - 1 = (of_nat (n * 32 + 4095) :: u64)" unfolding um [symmetric] by (simp add: algebra_simps)
  then have "unat (ucast m * 32 + PageSize - 1 :: u64) = n * 32 + 4095" using n(2) by (intro unat_eq_of_nat) simp_all
  then have "unat ((ucast m * 32 + PageSize - 1 :: u64) div PageSize) = descriptor_pages n"
    by (simp add: unat_div descriptor_pages_def)
  moreover note dp = descriptor_pages_le [OF n(1)]
  ultimately show up: "unat pp = descriptor_pages n" unfolding pd using n(2) by (simp add: unsigned_ucast_eq take_bit_nat_eq_self)
  have szn: "sz = of_nat (n * 4096)" unfolding us [symmetric] by simp
  have abn: "a - b = of_nat ((n - descriptor_pages n) * 4096)"
  proof -
    have "(ucast pp :: u64) = of_nat (descriptor_pages n)" unfolding up [symmetric] by simp
    then show ?thesis using dp szn unfolding ad by (simp add: of_nat_diff algebra_simps)
  qed
  then have uab: "unat (a - b) = (n - descriptor_pages n) * 4096" using n(2) by (intro unat_eq_of_nat) simp_all
  then show "unat ((a - b) div PageSize) = n - descriptor_pages n" by (simp add: unat_div)
  have "a = of_nat (unat b + (n - descriptor_pages n) * 4096)"
    using abn by (simp add: algebra_simps)
  moreover have "(n - descriptor_pages n) * 4096 \<le> n * 4096" by simp
  then have "unat b + (n - descriptor_pages n) * 4096 < 2 ^ 64" using ub(2) by linarith
  ultimately have "unat a = unat b + (n - descriptor_pages n) * 4096" by (rule unat_eq_of_nat)
  then show "b \<le> a" by (simp add: word_le_nat_alt)
qed

lemma pool_init_ok:
  assumes ni: "\<not> initialized s" and p: "pool_of cfg n"
  shows "\<exists>s'. init cfg s = (StatusOK, s') \<and> pages_ok s' [0..<n - descriptor_pages n] \<and> page_count_of s' = n \<and>
    managed_phys_base s' = PhysicalPagePoolBase cfg \<and> ram s' = ram s \<and>
    (\<forall>i < n. refs s' i = of_bool (n - descriptor_pages n \<le> i))"
proof -
  define b sz where "b = PhysicalPagePoolBase cfg" and "sz = PhysicalPagePoolSize cfg"
  define m where "m = (ucast (sz div PageSize) :: u32)"
  define pp where "pp = (ucast ((ucast m * 32 + PageSize - 1 :: u64) div PageSize) :: u32)"
  define a where "a = b + sz - ucast pp * PageSize"
  note num = init_numbers [OF p b_def sz_def m_def pp_def a_def]
  note dp = descriptor_pages_le [of n]
  have n0: "0 < n" using p by (simp add: pool_of_def)
  define s0 where "s0 = s\<lparr>num_pages := m, free_pages := \<lparr>list_head = None, list_tail = None, list_size = 0\<rparr>\<rparr>"
  define s1 where "s1 = fold (\<lambda>i s. init_page b s i) [0..<n] s0"
  define s2 where "s2 = fold (\<lambda>j s. reserve_page m s (n - descriptor_pages n + j)) [0..<descriptor_pages n] s1"
  have i: "init cfg s = (StatusOK, activate cfg s2)"
    using ni num n0 dp
    unfolding init_def Let_def b_def [symmetric] sz_def [symmetric] m_def [symmetric] pp_def [symmetric] a_def [symmetric]
    by (simp add: activate_def b_def s2_def s1_def s0_def)
  have g1: "activate cfg s1 = fold (\<lambda>i s. init_page b s i) [0..<n] (activate cfg s0)"
    unfolding s1_def by (rule fold_commute_fun) (rule init_page_activate)
  have g2: "activate cfg s2 = fold (\<lambda>j s. reserve_page m s (n - descriptor_pages n + j)) [0..<descriptor_pages n] (activate cfg s1)"
    unfolding s2_def by (rule fold_commute_fun) (rule reserve_page_activate)
  have pc0: "page_count_of (activate cfg s0) = n" "managed_phys_base (activate cfg s0) = b" "free_list (activate cfg s0) []"
    using num by (simp_all add: page_count_of_def activate_def s0_def b_def free_list_def)
  from init_pages_ok [of n "activate cfg s0" "activate cfg s0", unfolded pc0] g1
  have s1: "same_pool (activate cfg s0) (activate cfg s1)" "ram (activate cfg s1) = ram s" "free_list (activate cfg s1) [0..<n]"
    "\<forall>j < n. phys_addr (page_array (activate cfg s1) j) = b + of_nat j * PageSize \<and> refs (activate cfg s1) j = 0 \<and>
       \<not> allocated (page_flags (page_array (activate cfg s1) j))"
    using pc0(3) by (auto simp: activate_def s0_def)
  note sp = same_poolD [OF s1(1), unfolded pc0]
  have geo: "geometry_ok (activate cfg s1)"
    unfolding sp(3) using p pc0 by (simp add: geometry_ok_def pool_of_def b_def activate_def)
  have ok1: "pages_ok (activate cfg s1) [0..<page_count_of (activate cfg s1)]"
    using geo s1 sp by (auto simp: pages_ok_def page_address_def pc0)
  have "n - descriptor_pages n + descriptor_pages n \<le> page_count_of (activate cfg s1)" "num_pages (activate cfg s0) = num_pages (activate cfg s1)"
    using sp dp n0 s1(1) by (auto simp: same_pool_def)
  from reserve_pages_ok [OF ok1 this] g2
  have "same_pool (activate cfg s1) (activate cfg s2)" "ram (activate cfg s2) = ram (activate cfg s1)"
    "pages_ok (activate cfg s2) ([0..<n - descriptor_pages n] @ [n - descriptor_pages n + descriptor_pages n..<n])"
    "refs (activate cfg s2) = (\<lambda>j. if j \<in> {n - descriptor_pages n..<n - descriptor_pages n + descriptor_pages n} then 1 else refs (activate cfg s1) j)"
    using sp by (auto simp: activate_def s0_def)
  then show ?thesis
    using i s1(2,4) sp same_poolD [of "activate cfg s1" "activate cfg s2"] dp n0
    by (intro exI [of _ "activate cfg s2"]) (auto simp: b_def)
qed

section \<open>Users of the pool\<close>

text \<open>
  The states the kernel reaches when every user of a page takes and drops references it holds: \<open>R i\<close>
  counts the references to page \<open>i\<close> that are held (the descriptor pages hold their own for ever).
\<close>

inductive pool_client :: "PhysicalMemory \<Rightarrow> (nat \<Rightarrow> nat) \<Rightarrow> bool" where
  pool_start: "\<not> initialized s \<Longrightarrow> pool_of cfg n \<Longrightarrow> init cfg s = (StatusOK, s') \<Longrightarrow>
    pool_client s' (\<lambda>i. of_bool (n - descriptor_pages n \<le> i \<and> i < n))"
| pool_alloc: "pool_client s R \<Longrightarrow> alloc_page s = (page_address s i, s') \<Longrightarrow> i < page_count_of s \<Longrightarrow>
    pool_client s' (R(i := Suc (R i)))"
| pool_retain: "pool_client s R \<Longrightarrow> 0 < R i \<Longrightarrow> Suc (R i) < 2 ^ 32 \<Longrightarrow> pool_client (retain_page s (page_address s i)) (R(i := Suc (R i)))"
| pool_free: "pool_client s R \<Longrightarrow> 0 < R i \<Longrightarrow> unat (page_address s i) \<le> unat x \<Longrightarrow> unat x < unat (page_address s i) + 4096 \<Longrightarrow>
    pool_client (free_page s x) (R(i := R i - 1))"
| pool_reserve: "pool_client s R \<Longrightarrow> reserve_contiguous_pages s k = (page_address s i, s') \<Longrightarrow> i < page_count_of s \<Longrightarrow>
    pool_client s' (\<lambda>j. if j \<in> {i..<i + unat k} then Suc (R j) else R j)"
| pool_release: "pool_client s R \<Longrightarrow> (\<And>j. j \<in> {i..<i + unat k} \<Longrightarrow> R j = 1) \<Longrightarrow>
    pool_client (release_contiguous_pages s (page_address s i) k) (\<lambda>j. if j \<in> {i..<i + unat k} then 0 else R j)"

lemma reserve_cases:
  assumes ok: "pages_ok s fs" and r: "reserve_contiguous_pages s k = (page_address s i, s')" and i: "i < page_count_of s"
  shows "0 < k \<and> unat k \<le> length fs \<and> take (unat k) fs = [i..<i + unat k]"
proof -
  have nz: "page_address s i \<noteq> 0" using page_address_nonzero [OF pages_ok_geometry [OF ok] i] .
  obtain c where c: "0 < k" "list_head (free_pages s) = Some c" "contiguous_from (unat k) s (Some c) (phys_addr (page_array s c))"
    "page_address s i = phys_addr (page_array s c)"
    using r nz by (auto simp: reserve_contiguous_pages_def Let_def word_gt_0 split: if_splits option.splits prod.splits bool.splits)
  obtain ys where fs: "fs = c # ys" using c(2) ok by (cases fs) (auto simp: pages_ok_def free_list_def dest: dll_head)
  have cn: "c < page_count_of s" "phys_addr (page_array s c) = page_address s c"
    using pages_ok_mem [OF ok, of c] ok fs by (auto simp: pages_ok_def)
  then have "i = c" using page_address_inj [OF pages_ok_geometry [OF ok] i, of c] c(4) by simp
  then show ?thesis using contiguous_from_iff [of s "[]" fs i "unat k"] ok i c fs cn by simp
qed

lemma alloc_cases:
  assumes ok: "pages_ok s fs" and a: "alloc_page s = (page_address s i, s')" and i: "i < page_count_of s"
  shows "\<exists>us. fs = us @ [i]"
proof (cases fs rule: rev_cases)
  case Nil
  then show ?thesis using alloc_page_empty [of s] ok a page_address_nonzero [OF pages_ok_geometry [OF ok] i] by simp
next
  case (snoc us j)
  from alloc_page_ok [OF ok [unfolded snoc]] a have e: "page_address s i = page_address s j" by auto
  have "j < page_count_of s" using pages_ok_mem [OF ok, of j] snoc by simp
  then have "i = j" using page_address_inj [OF pages_ok_geometry [OF ok] i, of j] e by simp
  then show ?thesis using snoc by simp
qed

definition counts :: "PhysicalMemory \<Rightarrow> (nat \<Rightarrow> nat) \<Rightarrow> bool" where
  "counts s R \<longleftrightarrow> (\<forall>i. R i = (if i < page_count_of s then refs s i else 0))"

lemma counts_held: "counts s R \<Longrightarrow> 0 < R i \<Longrightarrow> i < page_count_of s \<and> refs s i = R i"
  by (metis counts_def not_gr_zero)

lemma pool_client_inv: "pool_client s R \<Longrightarrow> \<exists>fs. pages_ok s fs \<and> counts s R"
proof (induction rule: pool_client.induct)
  case (pool_start s cfg n s')
  from pool_init_ok [OF pool_start.hyps(1,2)] pool_start.hyps(3) show ?case by (auto simp: counts_def)
next
  case (pool_alloc s R i s')
  then obtain fs where fs: "pages_ok s fs" "counts s R" by blast
  from alloc_cases [OF fs(1) pool_alloc.hyps(2,3)] obtain us where us: "fs = us @ [i]" by blast
  from alloc_page_ok [OF fs(1) [unfolded us]] pool_alloc.hyps(2)
  have s': "pages_ok s' us" "refs s' = (refs s)(i := 1)" "same_pool s s'" by auto
  have "refs s i = 0" using pages_ok_mem [OF fs(1), of i] us by simp
  then show ?case using s' fs(2) pool_alloc.hyps(3)
    by (intro exI [of _ us]) (auto simp: counts_def same_poolD [OF s'(3)])
next
  case (pool_retain s R i)
  then obtain fs where fs: "pages_ok s fs" "counts s R" by blast
  have i: "i < page_count_of s" and r: "refs s i = R i" using counts_held [OF fs(2) pool_retain.hyps(2)] by simp_all
  have "0 < refs s i" "Suc (refs s i) < 2 ^ 32" using pool_retain.hyps(2,3) r by simp_all
  note rp = retain_page_ok [OF fs(1) i this]
  show ?case using rp fs(2) i by (intro exI [of _ fs]) (auto simp: counts_def same_poolD [OF rp(3)])
next
  case (pool_free s R i x)
  then obtain fs where fs: "pages_ok s fs" "counts s R" by blast
  have i: "i < page_count_of s" and r: "refs s i = R i" using counts_held [OF fs(2) pool_free.hyps(2)] by simp_all
  note fp = free_page_ok [OF fs(1) i pool_free.hyps(3,4)]
  have "refs s i \<noteq> 0" using pool_free.hyps(2) r by simp
  then show ?case using fp(2,3) fs(2) i
    by (intro exI [of _ "if refs s i = 1 then fs @ [i] else fs"]) (auto simp: counts_def same_poolD [OF fp(4)])
next
  case (pool_reserve s R k i s')
  then obtain fs where fs: "pages_ok s fs" "counts s R" by blast
  note rc = reserve_cases [OF fs(1) pool_reserve.hyps(2,3)]
  from reserve_contiguous_ok [OF fs(1), of k i] rc pool_reserve.hyps(2)
  have s': "pages_ok s' (drop (unat k) fs)" "same_pool s s'" "refs s' = (\<lambda>j. if j \<in> {i..<i + unat k} then 1 else refs s j)" by auto
  have free: "j < page_count_of s \<and> refs s j = 0" if "j \<in> {i..<i + unat k}" for j
  proof -
    have "j \<in> set (take (unat k) fs)" using rc that by simp
    then have "j \<in> set fs" by (rule in_set_takeD)
    then show ?thesis using pages_ok_mem [OF fs(1), of j] by simp
  qed
  then show ?case using s' fs(2)
    by (intro exI [of _ "drop (unat k) fs"]) (auto simp: counts_def same_poolD [OF s'(2)])
next
  case (pool_release s R i k)
  then obtain fs where fs: "pages_ok s fs" "counts s R" by blast
  have held: "j < page_count_of s \<and> refs s j \<noteq> 0" if "j \<in> {i..<i + unat k}" for j
    using counts_held [OF fs(2), of j] pool_release.hyps(2) [OF that] by simp
  show ?case
  proof (cases "k = 0")
    case True
    then have "release_contiguous_pages s (page_address s i) k = s" by (simp add: release_contiguous_pages_def)
    then show ?thesis using fs True by auto
  next
    case False
    then have u: "0 < unat k" by (simp add: unat_gt_0)
    then obtain l where l: "unat k = Suc l" by (cases "unat k") auto
    have i: "i < page_count_of s" "i + unat k \<le> page_count_of s" using held [of i] held [of "i + l"] l by auto
    have e: "release_contiguous_pages s (page_address s i) k = release_pages (unat k) (page_address s i) s"
      using False page_address_nonzero [OF pages_ok_geometry [OF fs(1)] i(1)] pages_ok_geometry [OF fs(1)]
      by (simp add: release_contiguous_pages_def geometry_ok_def)
    have "\<And>j. j \<in> {i..<i + unat k} \<Longrightarrow> refs s j \<noteq> 0" using held by blast
    note rl = release_pages_ok [OF fs(1) i(2) this refl]
    define s' where "s' = release_pages (unat k) (page_address s i) s"
    have s': "pages_ok s' ([i..<i + unat k] @ fs)" "refs s' = (\<lambda>j. if j \<in> {i..<i + unat k} then 0 else refs s j)"
      "page_count_of s' = page_count_of s"
      using rl same_poolD(1) [of s s'] by (simp_all add: s'_def)
    have "counts s' (\<lambda>j. if j \<in> {i..<i + unat k} then 0 else R j)"
      using fs(2) s'(2,3) by (auto simp: counts_def)
    then show ?thesis unfolding e s'_def [symmetric] using s'(1) by blast
  qed
qed

section \<open>Properties\<close>

text \<open>Initialising a page-aligned pool of \<open>n\<close> pages leaves the invariant of the allocator: every page is free,
  in address order, except the last ones, which hold the descriptors and have one reference each.\<close>

theorem physical_init_correct:
  assumes "\<not> initialized s" "pool_of cfg n"
  shows "\<exists>s'. init cfg s = (StatusOK, s') \<and> pages_ok s' [0..<n - descriptor_pages n] \<and> page_count_of s' = n \<and>
    managed_phys_base s' = PhysicalPagePoolBase cfg \<and> ram s' = ram s \<and>
    (\<forall>i < n. refs s' i = of_bool (n - descriptor_pages n \<le> i))"
  by (rule pool_init_ok [OF assms])

lemma boards_ok: "pool_of raspi3_board 0x39000" "pool_of virt_board 0x8000"
  by (simp_all add: pool_of_def raspi3_board_def virt_board_def)

definition blank_memory :: PhysicalMemory where
  "blank_memory = \<lparr>num_pages = 0, page_array = (\<lambda>_. \<lparr>phys_addr = 0, ref_count = 0, page_flags = \<lparr>allocated = False, kernel_page = False\<rparr>,
     next_page = None, prev_page = None\<rparr>), free_pages = \<lparr>list_head = None, list_tail = None, list_size = 0\<rparr>,
     initialized = False, reserved_heap_base = 0, managed_phys_base = 0, ram = (\<lambda>_. 0)\<rparr>"

theorem physical_init_correct_witness:
  "\<exists>s'. init raspi3_board blank_memory = (StatusOK, s') \<and> pages_ok s' [0..<231648] \<and> page_count_of s' = 0x39000"
  using physical_init_correct [OF _ boards_ok(1), of blank_memory] by (auto simp: blank_memory_def descriptor_pages_def)


lemma client_exists: "\<exists>s. pool_client s (\<lambda>i. of_bool (0x39000 - descriptor_pages 0x39000 \<le> i \<and> i < 0x39000)) \<and> page_count_of s = 0x39000"
proof -
  have "\<not> initialized blank_memory" by (simp add: blank_memory_def)
  from pool_init_ok [OF this boards_ok(1)] pool_start [OF this boards_ok(1)] show ?thesis by blast
qed


text \<open>C23: In every reachable state an allocation either reports exhaustion, which happens only when no page is
  free and changes nothing, or hands out a page nobody refers to, cleared, and clears no other byte.\<close>

theorem pool_client_alloc:
  assumes "pool_client s R"
  shows "(alloc_page s = (0, s) \<and> (\<forall>i < page_count_of s. R i \<noteq> 0)) \<or>
    (\<exists>i s'. alloc_page s = (page_address s i, s') \<and> i < page_count_of s \<and> R i = 0 \<and> page_address s i \<noteq> 0 \<and>
       (\<forall>x. ram s' x = (if unat (x - page_address s i) < 4096 then 0 else ram s x)))"
proof -
  from pool_client_inv [OF assms] obtain fs where fs: "pages_ok s fs" "counts s R" by blast
  show ?thesis
  proof (cases fs rule: rev_cases)
    case Nil
    then show ?thesis using alloc_page_empty [of s] fs by (auto simp: pages_ok_def counts_def)
  next
    case (snoc us i)
    have i: "i < page_count_of s" "R i = 0" using pages_ok_mem [OF fs(1), of i] fs(2) snoc by (auto simp: counts_def)
    from alloc_page_ok [OF fs(1) [unfolded snoc]] page_address_nonzero [OF pages_ok_geometry [OF fs(1)] i(1)] i
    show ?thesis by (auto simp: memzero_apply)
  qed
qed

theorem pool_client_alloc_witness:
  "\<exists>s R i s'. pool_client s R \<and> alloc_page s = (page_address s i, s') \<and> R i = 0"
proof -
  obtain s where s: "pool_client s (\<lambda>i. of_bool (0x39000 - descriptor_pages 0x39000 \<le> i \<and> i < 0x39000))" "page_count_of s = 0x39000"
    using client_exists by (elim exE conjE)
  have "\<exists>i < page_count_of s. of_bool (0x39000 - descriptor_pages 0x39000 \<le> i \<and> i < 0x39000) = (0 :: nat)"
    unfolding s(2) by (intro exI [of _ 0]) (simp add: descriptor_pages_def)
  then show ?thesis using pool_client_alloc [OF s(1)] s(1) by blast
qed

text \<open>Reserving a run of pages that heads the free list and releasing it again leaves the free list, the
  counts and the rest of the pool as they were.\<close>

theorem reserve_release_roundtrip:
  assumes ok: "pages_ok s fs" and k: "0 < k" "unat k \<le> length fs" "take (unat k) fs = [i..<i + unat k]"
  shows "\<exists>s1. reserve_contiguous_pages s k = (page_address s i, s1) \<and>
    pages_ok (release_contiguous_pages s1 (page_address s i) k) fs \<and> refs (release_contiguous_pages s1 (page_address s i) k) = refs s"
proof -
  from reserve_contiguous_ok [OF assms] obtain s1 where s1: "reserve_contiguous_pages s k = (page_address s i, s1)"
    "pages_ok s1 (drop (unat k) fs)" "same_pool s s1" "refs s1 = (\<lambda>j. if j \<in> {i..<i + unat k} then 1 else refs s j)" by blast
  have free: "j < page_count_of s \<and> refs s j = 0" if "j \<in> {i..<i + unat k}" for j
    using pages_ok_mem [OF ok, of j] in_set_takeD [of j "unat k" fs] that k(3) by simp
  have u: "0 < unat k" using k(1) by (simp add: word_gt_0 unat_gt_0)
  then obtain l where l: "unat k = Suc l" by (cases "unat k") auto
  have i: "i < page_count_of s" "i + unat k \<le> page_count_of s1"
    using free [of i] free [of "i + l"] l same_poolD(1) [OF s1(3)] by auto
  have e: "release_contiguous_pages s1 (page_address s i) k = release_pages (unat k) (page_address s i) s1"
    using k(1) page_address_nonzero [OF pages_ok_geometry [OF ok] i(1)] pages_ok_geometry [OF s1(2)]
    by (simp add: release_contiguous_pages_def geometry_ok_def word_gt_0)
  have "\<And>j. j \<in> {i..<i + unat k} \<Longrightarrow> refs s1 j \<noteq> 0" "page_address s i = page_address s1 i"
    using s1(4) same_poolD(2) [OF s1(3)] by simp_all
  note rl = release_pages_ok [OF s1(2) i(2) this]
  have "[i..<i + unat k] @ drop (unat k) fs = fs" unfolding k(3) [symmetric] by simp
  moreover have "(\<lambda>j. if j \<in> {i..<i + unat k} then 0 else refs s1 j) = refs s" using s1(4) free by (auto simp: fun_eq_iff)
  ultimately show ?thesis using s1(1) rl by (intro exI [of _ s1]) (simp add: e)
qed

theorem reserve_release_roundtrip_witness:
  "\<exists>s s1. pages_ok s [0..<231648] \<and> reserve_contiguous_pages s 16 = (page_address s 0, s1) \<and>
     pages_ok (release_contiguous_pages s1 (page_address s 0) 16) [0..<231648]"
proof -
  obtain s where s: "pages_ok s [0..<231648]"
    using pool_init_ok [OF _ boards_ok(1), of blank_memory] by (auto simp: blank_memory_def descriptor_pages_def)
  from reserve_release_roundtrip [OF s, of 16 0] s show ?thesis by (auto simp: take_upt)
qed

end
