(* ===== verification/Kernel_Heap.thy ===== *)
theory Kernel_Heap
  imports Kernel_Pages Cells "HOL-Library.Monad_Syntax"
begin

unbundle bit_operations_syntax

text \<open>
  The kernel heap, \<^verbatim>\<open>src/kernel/heap/heap.cpp\<close>: an arena tiled by segments in a doubly linked chain, each
  free, one general allocation, or a slab of equal blocks; slabs with free blocks hang in one list per size
  class; the arena grows at its end by pages of the physical allocator.

  Segment and block headers are stores from addresses to records, payload bytes and tail canaries are the
  bytes of physical memory seen through the kernel's direct map. A nullable pointer is a \<open>u64 option\<close>, a
  pointer the code has already tested a \<open>u64\<close>; an allocation's address is \<open>0\<close> when the code returns NULL.
  A loop over the chain is a \<open>partial_function\<close>: \<open>None\<close> would be a loop that never ends. Log output and the
  saving and restoring of the interrupt mask have no effect on this state.
\<close>

section \<open>Data\<close>

record HeapBlockHeader =
  blk_magic :: u32
  blk_kind :: u16
  blk_bin_index :: u16
  requested_size :: u64
  owner_segment :: "u64 option"
  next_free :: "u64 option"

record HeapSegment =
  seg_magic :: u32
  seg_kind :: u16
  seg_bin_index :: u16
  total_size :: u64
  seg_next :: "u64 option"
  seg_prev :: "u64 option"
  available_next :: "u64 option"
  available_prev :: "u64 option"
  block_list :: "u64 option"
  user_bytes :: u64
  block_stride :: u64
  block_count :: u32
  seg_free_count :: u32
  allocation_count :: u32
  seg_flags :: u32
  alignment_padding :: u64

record HeapAllocationLayout =
  layout_valid :: bool
  segment_start :: u64
  block_header_start :: u64
  payload_start :: u64
  prefix_bytes :: u64
  required_bytes :: u64

record HeapStats =
  total_bytes :: u64
  used_bytes :: u64
  free_bytes :: u64

record KernelHeap =
  segs :: "u64 \<Rightarrow> HeapSegment"
  blocks :: "u64 \<Rightarrow> HeapBlockHeader"
  g_heap_segment_list_head :: "u64 option"
  g_small_bin_available_heads :: "u64 option list"
  g_heap_start_address :: u64
  g_heap_end_address :: u64
  g_heap_initialized :: bool
  pool :: PhysicalMemory

abbreviation (input) KernelVaBase :: u64 where "KernelVaBase \<equiv> 0xFFFF000000000000"
abbreviation (input) HeapMinimumAlignment :: u64 where "HeapMinimumAlignment \<equiv> 16"
abbreviation (input) HeapInvalidBinIndex :: u16 where "HeapInvalidBinIndex \<equiv> 0xFFFF"
abbreviation (input) HeapSegmentMagic :: u32 where "HeapSegmentMagic \<equiv> 0x4853474D"
abbreviation (input) HeapBlockAllocatedMagic :: u32 where "HeapBlockAllocatedMagic \<equiv> 0x48424C4B"
abbreviation (input) HeapBlockFreedMagic :: u32 where "HeapBlockFreedMagic \<equiv> 0x48465245"
abbreviation (input) HeapTailCanaryBase :: u64 where "HeapTailCanaryBase \<equiv> 0xC0DEC0DE5A17F00D"
abbreviation (input) HeapTailCanaryBytes :: u64 where "HeapTailCanaryBytes \<equiv> 8"
abbreviation (input) HeapAllocatedPoison :: u8 where "HeapAllocatedPoison \<equiv> 0xA5"
abbreviation (input) HeapFreedPoison :: u8 where "HeapFreedPoison \<equiv> 0xDD"
abbreviation (input) HeapSegmentFlagInAvailableList :: u32 where "HeapSegmentFlagInAvailableList \<equiv> 1"
abbreviation (input) HeapGrowthUnitBytes :: u64 where "HeapGrowthUnitBytes \<equiv> 0x1000"
abbreviation (input) L2BlockSize :: u64 where "L2BlockSize \<equiv> 0x200000"
abbreviation (input) HeapSegmentFree :: u16 where "HeapSegmentFree \<equiv> 1"
abbreviation (input) HeapSegmentGeneral :: u16 where "HeapSegmentGeneral \<equiv> 2"
abbreviation (input) HeapSegmentSlab :: u16 where "HeapSegmentSlab \<equiv> 3"
abbreviation (input) HeapBlockGeneral :: u16 where "HeapBlockGeneral \<equiv> 1"
abbreviation (input) HeapBlockSlab :: u16 where "HeapBlockSlab \<equiv> 2"

text \<open>\<open>sizeof(HeapSegment)\<close> and \<open>sizeof(HeapBlockHeader)\<close>: the fields in order, with natural alignment.\<close>

abbreviation (input) segment_bytes :: u64 where "segment_bytes \<equiv> 96"
abbreviation (input) header_bytes :: u64 where "header_bytes \<equiv> 32"

definition HeapSmallBins :: "u64 list" where
  "HeapSmallBins = [32, 64, 128, 256, 512]"

definition zero_segment :: HeapSegment where
  "zero_segment = \<lparr>seg_magic = 0, seg_kind = 0, seg_bin_index = 0, total_size = 0, seg_next = None, seg_prev = None,
     available_next = None, available_prev = None, block_list = None, user_bytes = 0, block_stride = 0, block_count = 0,
     seg_free_count = 0, allocation_count = 0, seg_flags = 0, alignment_padding = 0\<rparr>"

definition zero_block_header :: HeapBlockHeader where
  "zero_block_header = \<lparr>blk_magic = 0, blk_kind = 0, blk_bin_index = 0, requested_size = 0, owner_segment = None, next_free = None\<rparr>"

definition set_seg :: "KernelHeap \<Rightarrow> u64 \<Rightarrow> (HeapSegment \<Rightarrow> HeapSegment) \<Rightarrow> KernelHeap" where
  "set_seg h s f = h\<lparr>segs := (segs h)(s := f (segs h s))\<rparr>"

definition set_blk :: "KernelHeap \<Rightarrow> u64 \<Rightarrow> (HeapBlockHeader \<Rightarrow> HeapBlockHeader) \<Rightarrow> KernelHeap" where
  "set_blk h b f = h\<lparr>blocks := (blocks h)(b := f (blocks h b))\<rparr>"

text \<open>The kernel's view of physical memory: the direct map at \<open>KernelVaBase\<close>.\<close>

definition physical_to_kernel :: "u64 \<Rightarrow> u64" where
  "physical_to_kernel address = address + KernelVaBase"

definition bytes :: "KernelHeap \<Rightarrow> mem" where
  "bytes h = (\<lambda>a. ram (pool h) (a - KernelVaBase))"

definition set_bytes :: "KernelHeap \<Rightarrow> mem \<Rightarrow> KernelHeap" where
  "set_bytes h m = h\<lparr>pool := (pool h)\<lparr>ram := (\<lambda>x. m (x + KernelVaBase))\<rparr>\<rparr>"

section \<open>Arithmetic\<close>

definition is_power_of_two :: "u64 \<Rightarrow> bool" where
  "is_power_of_two v \<longleftrightarrow> v \<noteq> 0 \<and> v AND (v - 1) = 0"

definition align_up :: "u64 \<Rightarrow> u64 \<Rightarrow> u64" where
  "align_up v alignment = (v + (alignment - 1)) AND NOT (alignment - 1)"

definition align_up_address :: "u64 \<Rightarrow> u64 \<Rightarrow> u64" where
  "align_up_address v alignment = (v + (alignment - 1)) AND NOT (alignment - 1)"

definition align_down_address :: "u64 \<Rightarrow> u64 \<Rightarrow> u64" where
  "align_down_address v alignment = v AND NOT (alignment - 1)"

definition heap_small_bin_index_for_request :: "u64 \<Rightarrow> u64 \<Rightarrow> nat option" where
  "heap_small_bin_index_for_request sz alignment =
     (if sz = 0 \<or> HeapMinimumAlignment < alignment then None
      else find (\<lambda>index. sz \<le> HeapSmallBins ! index) [0..<length HeapSmallBins])"

definition heap_slab_segment_bytes :: "nat \<Rightarrow> u64" where
  "heap_slab_segment_bytes bin_index = align_up PageSize HeapMinimumAlignment"

definition heap_growth_bytes_for_request :: "u64 \<Rightarrow> u64 \<Rightarrow> u64" where
  "heap_growth_bytes_for_request sz alignment =
     (let minimum_bytes =
            (if heap_small_bin_index_for_request sz alignment \<noteq> None \<and> alignment \<le> HeapMinimumAlignment
             then heap_slab_segment_bytes 0
             else align_up (segment_bytes + header_bytes + sz + alignment + HeapTailCanaryBytes) HeapMinimumAlignment);
          minimum_bytes = (if minimum_bytes < HeapGrowthUnitBytes then HeapGrowthUnitBytes else minimum_bytes)
      in align_up minimum_bytes HeapGrowthUnitBytes)"

primrec fill_bytes :: "mem \<Rightarrow> u64 \<Rightarrow> u8 \<Rightarrow> nat \<Rightarrow> mem" where
  "fill_bytes m p v 0 = m"
| "fill_bytes m p v (Suc n) = fill_bytes (m(p := v)) (p + 1) v n"

definition minimum_free_segment_size :: u64 where
  "minimum_free_segment_size = align_up (segment_bytes + HeapMinimumAlignment) HeapMinimumAlignment"

section \<open>Addresses and canaries\<close>

definition heap_range_valid :: "KernelHeap \<Rightarrow> u64 \<Rightarrow> u64 \<Rightarrow> bool" where
  "heap_range_valid h address n =
     (if address = 0 \<or> n = 0 \<or> g_heap_start_address h = 0 \<or> g_heap_end_address h \<le> g_heap_start_address h then False
      else if address < g_heap_start_address h then False
      else if g_heap_end_address h < address then False
      else n \<le> g_heap_end_address h - address)"

definition heap_segment_end_address :: "KernelHeap \<Rightarrow> u64 \<Rightarrow> u64" where
  "heap_segment_end_address h s = s + total_size (segs h s)"

definition heap_segment_payload_bytes :: "KernelHeap \<Rightarrow> u64 \<Rightarrow> u64" where
  "heap_segment_payload_bytes h s =
     (if total_size (segs h s) \<le> segment_bytes then 0 else total_size (segs h s) - segment_bytes)"

definition heap_block_payload_pointer :: "u64 \<Rightarrow> u64" where
  "heap_block_payload_pointer header = header + header_bytes"

definition heap_expected_tail_canary :: "KernelHeap \<Rightarrow> u64 \<Rightarrow> u64" where
  "heap_expected_tail_canary h header =
     (let b = blocks h header
      in HeapTailCanaryBase XOR header XOR requested_size b XOR push_bit 48 (ucast (blk_kind b))
           XOR push_bit 32 (ucast (blk_bin_index b)))"

definition heap_tail_canary_pointer :: "KernelHeap \<Rightarrow> u64 \<Rightarrow> u64" where
  "heap_tail_canary_pointer h header = heap_block_payload_pointer header + requested_size (blocks h header)"

definition heap_write_tail_canary :: "KernelHeap \<Rightarrow> u64 \<Rightarrow> KernelHeap" where
  "heap_write_tail_canary h header =
     set_bytes h (store64 (bytes h) (heap_tail_canary_pointer h header) (heap_expected_tail_canary h header))"

definition heap_tail_canary_valid :: "KernelHeap \<Rightarrow> u64 \<Rightarrow> bool" where
  "heap_tail_canary_valid h header \<longleftrightarrow>
     load64 (bytes h) (heap_tail_canary_pointer h header) = heap_expected_tail_canary h header"

definition heap_segment_pointer_valid :: "KernelHeap \<Rightarrow> u64 option \<Rightarrow> bool" where
  "heap_segment_pointer_valid h segment =
     (case segment of
        None \<Rightarrow> False
      | Some s \<Rightarrow>
          heap_range_valid h s segment_bytes \<and> seg_magic (segs h s) = HeapSegmentMagic \<and>
          \<not> (total_size (segs h s) < minimum_free_segment_size \<or>
             total_size (segs h s) AND (HeapMinimumAlignment - 1) \<noteq> 0) \<and>
          heap_range_valid h s (total_size (segs h s)))"

definition heap_block_header_inside_segment :: "KernelHeap \<Rightarrow> u64 \<Rightarrow> u64 \<Rightarrow> bool" where
  "heap_block_header_inside_segment h s header \<longleftrightarrow>
     heap_range_valid h header header_bytes \<and> s \<le> header \<and> header + header_bytes \<le> heap_segment_end_address h s"

definition heap_general_capacity_bytes :: "KernelHeap \<Rightarrow> u64 \<Rightarrow> u64 \<Rightarrow> u64" where
  "heap_general_capacity_bytes h s header =
     (let payload = heap_block_payload_pointer header; segment_end = heap_segment_end_address h s
      in if segment_end \<le> payload \<or> segment_end - payload < HeapTailCanaryBytes then 0
         else segment_end - payload - HeapTailCanaryBytes)"

section \<open>The lists of slabs with free blocks\<close>

definition heap_segment_in_available_list :: "HeapSegment \<Rightarrow> bool" where
  "heap_segment_in_available_list g \<longleftrightarrow> seg_flags g AND HeapSegmentFlagInAvailableList \<noteq> 0"

definition heap_small_bin_insert_available :: "KernelHeap \<Rightarrow> u64 \<Rightarrow> KernelHeap" where
  "heap_small_bin_insert_available h s =
     (let g = segs h s
      in if seg_kind g \<noteq> HeapSegmentSlab \<or> length HeapSmallBins \<le> unat (seg_bin_index g) \<or> seg_free_count g = 0 \<or>
            heap_segment_in_available_list g then h
         else
           let first = g_small_bin_available_heads h ! unat (seg_bin_index g);
               h = set_seg h s (\<lambda>g. g\<lparr>available_prev := None, available_next := first\<rparr>);
               h = (case first of None \<Rightarrow> h | Some x \<Rightarrow> set_seg h x (\<lambda>g. g\<lparr>available_prev := Some s\<rparr>));
               h = h\<lparr>g_small_bin_available_heads := (g_small_bin_available_heads h)[unat (seg_bin_index g) := Some s]\<rparr>
           in set_seg h s (\<lambda>g. g\<lparr>seg_flags := seg_flags g OR HeapSegmentFlagInAvailableList\<rparr>))"

definition heap_small_bin_remove_available :: "KernelHeap \<Rightarrow> u64 \<Rightarrow> KernelHeap" where
  "heap_small_bin_remove_available h s =
     (let g = segs h s
      in if seg_kind g \<noteq> HeapSegmentSlab \<or> length HeapSmallBins \<le> unat (seg_bin_index g) \<or>
            \<not> heap_segment_in_available_list g then h
         else
           let h = (case available_prev g of
                      Some p \<Rightarrow> set_seg h p (\<lambda>x. x\<lparr>available_next := available_next g\<rparr>)
                    | None \<Rightarrow> h\<lparr>g_small_bin_available_heads :=
                                 (g_small_bin_available_heads h)[unat (seg_bin_index g) := available_next g]\<rparr>);
               h = (case available_next (segs h s) of
                      Some n \<Rightarrow> set_seg h n (\<lambda>x. x\<lparr>available_prev := available_prev (segs h s)\<rparr>)
                    | None \<Rightarrow> h)
           in set_seg h s (\<lambda>g. g\<lparr>available_prev := None, available_next := None,
                seg_flags := seg_flags g AND NOT HeapSegmentFlagInAvailableList\<rparr>))"

section \<open>Segments\<close>

definition heap_mark_segment_free :: "KernelHeap \<Rightarrow> u64 \<Rightarrow> u64 \<Rightarrow> KernelHeap" where
  "heap_mark_segment_free h s sz =
     set_seg h s (\<lambda>g. zero_segment\<lparr>seg_magic := HeapSegmentMagic, seg_kind := HeapSegmentFree,
       seg_bin_index := HeapInvalidBinIndex, total_size := sz, seg_next := seg_next g, seg_prev := seg_prev g\<rparr>)"

definition heap_mark_segment_allocated :: "KernelHeap \<Rightarrow> u64 \<Rightarrow> u16 \<Rightarrow> u16 \<Rightarrow> KernelHeap" where
  "heap_mark_segment_allocated h s kind bin_index =
     set_seg h s (\<lambda>g. zero_segment\<lparr>seg_magic := HeapSegmentMagic, seg_kind := kind, seg_bin_index := bin_index,
       total_size := total_size g, seg_next := seg_next g, seg_prev := seg_prev g\<rparr>)"

text \<open>\<open>set_seg_prev h n p\<close>: the common \<open>if (n != NULL) n->prev = p\<close>.\<close>

definition set_seg_prev :: "KernelHeap \<Rightarrow> u64 option \<Rightarrow> u64 \<Rightarrow> KernelHeap" where
  "set_seg_prev h n p = (case n of None \<Rightarrow> h | Some x \<Rightarrow> set_seg h x (\<lambda>g. g\<lparr>seg_prev := Some p\<rparr>))"

definition heap_split_segment_prefix :: "KernelHeap \<Rightarrow> u64 \<Rightarrow> u64 \<Rightarrow> u64 \<times> KernelHeap" where
  "heap_split_segment_prefix h s pre =
     (let original_size = total_size (segs h s)
      in if seg_kind (segs h s) \<noteq> HeapSegmentFree \<or> pre < minimum_free_segment_size \<or> original_size \<le> pre then (s, h)
         else
           let suffix = s + pre; nx = seg_next (segs h s);
               h = heap_mark_segment_free h s pre;
               h = heap_mark_segment_free h suffix (original_size - pre);
               h = set_seg h s (\<lambda>g. g\<lparr>seg_next := Some suffix\<rparr>);
               h = set_seg h suffix (\<lambda>g. g\<lparr>seg_prev := Some s\<rparr>);
               h = set_seg h suffix (\<lambda>g. g\<lparr>seg_next := nx\<rparr>)
           in (suffix, set_seg_prev h nx suffix))"

definition heap_split_segment_tail :: "KernelHeap \<Rightarrow> u64 \<Rightarrow> u64 \<Rightarrow> KernelHeap" where
  "heap_split_segment_tail h s leading_bytes =
     (let original_size = total_size (segs h s);
          remainder_bytes = (if leading_bytes < original_size then original_size - leading_bytes else 0)
      in if original_size \<le> leading_bytes \<or> remainder_bytes < minimum_free_segment_size then h
         else
           let remainder = s + leading_bytes; nx = seg_next (segs h s);
               h = heap_mark_segment_free h remainder remainder_bytes;
               h = set_seg h remainder (\<lambda>g. g\<lparr>seg_prev := Some s\<rparr>);
               h = set_seg h remainder (\<lambda>g. g\<lparr>seg_next := nx\<rparr>);
               h = set_seg_prev h nx remainder;
               h = set_seg h s (\<lambda>g. g\<lparr>total_size := leading_bytes\<rparr>)
           in set_seg h s (\<lambda>g. g\<lparr>seg_next := Some remainder\<rparr>))"

partial_function (option) coalesce_left :: "KernelHeap \<Rightarrow> u64 \<Rightarrow> (u64 \<times> KernelHeap) option" where
  "coalesce_left h s =
     (case seg_prev (segs h s) of
        None \<Rightarrow> Some (s, h)
      | Some lf \<Rightarrow>
          if seg_kind (segs h lf) \<noteq> HeapSegmentFree then Some (s, h)
          else
            let nx = seg_next (segs h s);
                h = set_seg h lf (\<lambda>g. g\<lparr>total_size := total_size g + total_size (segs h s)\<rparr>);
                h = set_seg h lf (\<lambda>g. g\<lparr>seg_next := nx\<rparr>)
            in coalesce_left (set_seg_prev h nx lf) lf)"

partial_function (option) coalesce_right :: "KernelHeap \<Rightarrow> u64 \<Rightarrow> (u64 \<times> KernelHeap) option" where
  "coalesce_right h s =
     (case seg_next (segs h s) of
        None \<Rightarrow> Some (s, h)
      | Some rt \<Rightarrow>
          if seg_kind (segs h rt) \<noteq> HeapSegmentFree then Some (s, h)
          else
            let nx = seg_next (segs h rt);
                h = set_seg h s (\<lambda>g. g\<lparr>total_size := total_size g + total_size (segs h rt)\<rparr>);
                h = set_seg h s (\<lambda>g. g\<lparr>seg_next := nx\<rparr>)
            in coalesce_right (set_seg_prev h nx s) s)"

definition heap_coalesce_free_segment :: "KernelHeap \<Rightarrow> u64 \<Rightarrow> (u64 \<times> KernelHeap) option" where
  "heap_coalesce_free_segment h s =
     (if seg_kind (segs h s) \<noteq> HeapSegmentFree then Some (s, h)
      else do { (s, h) \<leftarrow> coalesce_left h s; coalesce_right h s })"

section \<open>Growth\<close>

partial_function (option) tail_from :: "KernelHeap \<Rightarrow> u64 \<Rightarrow> u64 option" where
  "tail_from h s = (case seg_next (segs h s) of None \<Rightarrow> Some s | Some n \<Rightarrow> tail_from h n)"

definition heap_tail_segment_locked :: "KernelHeap \<Rightarrow> u64 option option" where
  "heap_tail_segment_locked h =
     (case g_heap_segment_list_head h of None \<Rightarrow> Some None | Some s \<Rightarrow> map_option Some (tail_from h s))"

definition heap_append_growth_locked :: "KernelHeap \<Rightarrow> u64 \<Rightarrow> (Status \<times> KernelHeap) option" where
  "heap_append_growth_locked h growth_bytes =
     (let page_count = ucast (growth_bytes div PageSize) :: u32;
          (growth_phys, pl) = reserve_contiguous_pages (pool h) page_count;
          h = h\<lparr>pool := pl\<rparr>;
          expected_address = g_heap_end_address h;
          growth_address = physical_to_kernel growth_phys
      in if growth_bytes = 0 \<or> growth_bytes mod PageSize \<noteq> 0 then Some (StatusInvalidArgument, h)
         else if growth_phys = 0 then Some (StatusNoMemory, h)
         else if growth_address \<noteq> expected_address
         then Some (StatusFault, h\<lparr>pool := release_contiguous_pages (pool h) growth_phys page_count\<rparr>)
         else do {
           tail \<leftarrow> heap_tail_segment_locked h;
           case tail of
             None \<Rightarrow> Some (StatusFault, h\<lparr>pool := release_contiguous_pages (pool h) growth_phys page_count\<rparr>)
           | Some t \<Rightarrow>
               (let h = h\<lparr>g_heap_end_address := g_heap_end_address h + growth_bytes\<rparr>
                in if seg_kind (segs h t) = HeapSegmentFree
                   then Some (StatusOK, set_seg h t (\<lambda>g. g\<lparr>total_size := total_size g + growth_bytes\<rparr>))
                   else
                     let appended = growth_address;
                         h = heap_mark_segment_free h appended growth_bytes;
                         h = set_seg h appended (\<lambda>g. g\<lparr>seg_prev := Some t\<rparr>);
                         h = set_seg h appended (\<lambda>g. g\<lparr>seg_next := None\<rparr>)
                     in Some (StatusOK, set_seg h t (\<lambda>g. g\<lparr>seg_next := Some appended\<rparr>)))
         })"

definition heap_grow_locked :: "KernelHeap \<Rightarrow> u64 \<Rightarrow> u64 \<Rightarrow> (Status \<times> KernelHeap) option" where
  "heap_grow_locked h sz alignment = heap_append_growth_locked h (heap_growth_bytes_for_request sz alignment)"

section \<open>Validation\<close>

definition heap_validate_general_segment_locked :: "KernelHeap \<Rightarrow> u64 \<Rightarrow> bool" where
  "heap_validate_general_segment_locked h s =
     (let g = segs h s
      in if allocation_count g \<noteq> 1 \<or> seg_free_count g \<noteq> 0 \<or> block_count g \<noteq> 1 then False
         else
           (case block_list g of
              None \<Rightarrow> False
            | Some header \<Rightarrow>
                (let b = blocks h header; payload = heap_block_payload_pointer header
                 in if \<not> heap_block_header_inside_segment h s header then False
                    else if blk_magic b \<noteq> HeapBlockAllocatedMagic \<or> blk_kind b \<noteq> HeapBlockGeneral \<or>
                      owner_segment b \<noteq> Some s then False
                    else if user_bytes g \<noteq> requested_size b \<or> requested_size b = 0 then False
                    else if payload \<le> header \<or>
                      heap_segment_end_address h s < payload + requested_size b + HeapTailCanaryBytes then False
                    else heap_tail_canary_valid h header)))"

text \<open>The loop over a slab's blocks counts the allocated and the freed ones; \<open>None\<close> is a failed check.\<close>

definition slab_block_base :: "u64 \<Rightarrow> u64" where
  "slab_block_base s = align_up_address (s + segment_bytes) HeapMinimumAlignment"

primrec scan_blocks :: "KernelHeap \<Rightarrow> u64 \<Rightarrow> nat list \<Rightarrow> u32 \<Rightarrow> u32 \<Rightarrow> (u32 \<times> u32) option" where
  "scan_blocks h s [] allocs frees = Some (allocs, frees)"
| "scan_blocks h s (index # rest) allocs frees =
     (let g = segs h s; header = slab_block_base s + of_nat index * block_stride g; b = blocks h header
      in if \<not> heap_block_header_inside_segment h s header then None
         else if blk_kind b \<noteq> HeapBlockSlab \<or> blk_bin_index b \<noteq> seg_bin_index g \<or> owner_segment b \<noteq> Some s then None
         else if blk_magic b = HeapBlockAllocatedMagic then
           (if requested_size b = 0 \<or> user_bytes g < requested_size b \<or> \<not> heap_tail_canary_valid h header then None
            else scan_blocks h s rest (allocs + 1) frees)
         else if blk_magic b = HeapBlockFreedMagic then scan_blocks h s rest allocs (frees + 1)
         else None)"

text \<open>The walk of a slab's free list with the bitmap of the blocks seen: \<open>Some None\<close> is a failed check,
  \<open>Some (Some w)\<close> a walk of \<open>w\<close> nodes.\<close>

partial_function (option) walk_free_list ::
  "KernelHeap \<Rightarrow> u64 \<Rightarrow> u64 option \<Rightarrow> u64 list \<Rightarrow> u32 \<Rightarrow> u32 option option" where
  "walk_free_list h s node free_seen walked =
     (case node of
        None \<Rightarrow> Some (Some walked)
      | Some address \<Rightarrow>
          let g = segs h s; b = blocks h address; relative = address - slab_block_base s;
              index = ucast (relative div block_stride g) :: u32;
              word_index = unat (index div 64); bit_index = unat (index mod 64)
          in if address < slab_block_base s \<or> heap_segment_end_address h s \<le> address \<or>
                relative mod block_stride g \<noteq> 0 \<or> block_count g \<le> index then Some None
             else if blk_magic b \<noteq> HeapBlockFreedMagic \<or> owner_segment b \<noteq> Some s then Some None
             else if free_seen ! word_index AND push_bit bit_index 1 \<noteq> 0 then Some None
             else
               let free_seen = free_seen[word_index := free_seen ! word_index OR push_bit bit_index 1];
                   walked = walked + 1
               in if block_count g < walked then Some None
                  else walk_free_list h s (next_free b) free_seen walked)"

definition heap_validate_slab_segment_locked :: "KernelHeap \<Rightarrow> u64 \<Rightarrow> bool option" where
  "heap_validate_slab_segment_locked h s =
     (let g = segs h s; block_base = slab_block_base s; segment_end = heap_segment_end_address h s
      in if length HeapSmallBins \<le> unat (seg_bin_index g) \<or> block_stride g = 0 \<or> block_count g = 0 then Some False
         else if user_bytes g \<noteq> HeapSmallBins ! unat (seg_bin_index g) then Some False
         else if seg_free_count g + allocation_count g \<noteq> block_count g then Some False
         else if segment_end \<le> block_base \<or> segment_end < block_base + ucast (block_count g) * block_stride g
         then Some False
         else if 512 < block_count g then Some False
         else
           (case scan_blocks h s [0..<unat (block_count g)] 0 0 of
              None \<Rightarrow> Some False
            | Some (allocs, frees) \<Rightarrow>
                if allocs \<noteq> allocation_count g \<or> frees \<noteq> seg_free_count g then Some False
                else do {
                  w \<leftarrow> walk_free_list h s (block_list g) (replicate 8 0) 0;
                  Some (w = Some (seg_free_count g))
                }))"

definition heap_validate_body :: "KernelHeap \<Rightarrow> u64 \<Rightarrow> bool option" where
  "heap_validate_body h s =
     (if seg_kind (segs h s) = HeapSegmentGeneral then Some (heap_validate_general_segment_locked h s)
      else if seg_kind (segs h s) = HeapSegmentSlab then heap_validate_slab_segment_locked h s
      else Some (seg_kind (segs h s) = HeapSegmentFree))"

partial_function (option) validate_chain :: "KernelHeap \<Rightarrow> u64 option \<Rightarrow> u64 option \<Rightarrow> u64 \<Rightarrow> bool option" where
  "validate_chain h segment previous expected =
     (case segment of
        None \<Rightarrow> Some (expected = g_heap_end_address h)
      | Some s \<Rightarrow>
          if \<not> heap_segment_pointer_valid h segment then Some False
          else if s \<noteq> expected then Some False
          else if seg_prev (segs h s) \<noteq> previous then Some False
          else if (case seg_next (segs h s) of
                     None \<Rightarrow> False | Some n \<Rightarrow> n \<noteq> heap_segment_end_address h s) then Some False
          else if seg_kind (segs h s) = HeapSegmentFree \<and>
            (case seg_next (segs h s) of None \<Rightarrow> False | Some n \<Rightarrow> seg_kind (segs h n) = HeapSegmentFree) then Some False
          else do {
            ok \<leftarrow> heap_validate_body h s;
            if \<not> ok then Some False
            else validate_chain h (seg_next (segs h s)) (Some s) (heap_segment_end_address h s)
          })"

definition heap_validate_locked :: "KernelHeap \<Rightarrow> bool option" where
  "heap_validate_locked h =
     (if \<not> g_heap_initialized h \<or> g_heap_segment_list_head h = None then Some False
      else validate_chain h (g_heap_segment_list_head h) None (g_heap_start_address h))"

section \<open>Placing an allocation\<close>

definition no_layout :: HeapAllocationLayout where
  "no_layout = \<lparr>layout_valid = False, segment_start = 0, block_header_start = 0, payload_start = 0, prefix_bytes = 0,
     required_bytes = 0\<rparr>"

text \<open>The tail-biased placement of large alignments; \<open>None\<close> when the code falls through to the general one.\<close>

definition tail_layout :: "KernelHeap \<Rightarrow> u64 \<Rightarrow> u64 \<Rightarrow> u64 \<Rightarrow> HeapAllocationLayout option" where
  "tail_layout h s sz alignment =
     (let original_end = heap_segment_end_address h s; metadata_bytes = segment_bytes + header_bytes
      in if L2BlockSize \<le> alignment \<and> s < original_end \<and>
            metadata_bytes + sz + HeapTailCanaryBytes \<le> original_end - s
         then
           (let latest_payload_limit = original_end - sz - HeapTailCanaryBytes;
                tail_payload_start = align_down_address latest_payload_limit alignment
            in if s + metadata_bytes \<le> tail_payload_start
               then
                 (let tail_segment_start = tail_payload_start - metadata_bytes;
                      tail_prefix_bytes = tail_segment_start - s
                  in if s \<le> tail_segment_start \<and> (tail_prefix_bytes = 0 \<or> minimum_free_segment_size \<le> tail_prefix_bytes)
                     then
                       (let payload = align_up_address (tail_segment_start + metadata_bytes) alignment
                        in if payload + sz + HeapTailCanaryBytes \<le> original_end
                           then Some \<lparr>layout_valid = True, segment_start = tail_segment_start,
                             block_header_start = payload - header_bytes, payload_start = payload,
                             prefix_bytes = tail_prefix_bytes, required_bytes = original_end - tail_segment_start\<rparr>
                           else None)
                     else None)
               else None)
         else None)"

definition heap_compute_general_layout :: "KernelHeap \<Rightarrow> u64 \<Rightarrow> u64 \<Rightarrow> u64 \<Rightarrow> HeapAllocationLayout" where
  "heap_compute_general_layout h s sz alignment =
     (if seg_kind (segs h s) \<noteq> HeapSegmentFree \<or> sz = 0 \<or> \<not> is_power_of_two alignment then no_layout
      else
        (case tail_layout h s sz alignment of
           Some l \<Rightarrow> l
         | None \<Rightarrow>
             (let payload_without_prefix = align_up_address (s + segment_bytes + header_bytes) alignment;
                  shifted = payload_without_prefix - segment_bytes - header_bytes;
                  use_prefix = s < shifted \<and> minimum_free_segment_size \<le> shifted - s;
                  start = (if use_prefix then shifted else s);
                  pre = (if use_prefix then shifted - s else 0);
                  payload = align_up_address (start + segment_bytes + header_bytes) alignment;
                  req = align_up (payload + sz + HeapTailCanaryBytes - start) HeapMinimumAlignment
              in \<lparr>layout_valid = (pre + req \<le> total_size (segs h s)), segment_start = start,
                   block_header_start = payload - header_bytes, payload_start = payload, prefix_bytes = pre,
                   required_bytes = req\<rparr>)))"

text \<open>Best fit: the first free segment with the least waste. A corrupt segment ends the search with no
  candidate.\<close>

partial_function (option) best_reserve ::
  "KernelHeap \<Rightarrow> u64 \<Rightarrow> u64 option \<Rightarrow> (u64 \<times> u64) option \<Rightarrow> (u64 \<times> u64) option option" where
  "best_reserve h wanted segment best =
     (case segment of
        None \<Rightarrow> Some best
      | Some s \<Rightarrow>
          if \<not> heap_segment_pointer_valid h segment then Some None
          else
            let g = segs h s;
                best =
                  (if seg_kind g \<noteq> HeapSegmentFree \<or> total_size g < wanted then best
                   else
                     (case best of
                        None \<Rightarrow> Some (s, total_size g - wanted)
                      | Some (_, waste) \<Rightarrow> if total_size g - wanted < waste then Some (s, total_size g - wanted) else best))
            in best_reserve h wanted (seg_next g) best)"

definition heap_reserve_segment :: "KernelHeap \<Rightarrow> u64 \<Rightarrow> (u64 option \<times> KernelHeap) option" where
  "heap_reserve_segment h wanted = do {
     best \<leftarrow> best_reserve h wanted (g_heap_segment_list_head h) None;
     Some (case best of
             None \<Rightarrow> (None, h)
           | Some (s, _) \<Rightarrow> (Some s, heap_split_segment_tail h s wanted)) }"

partial_function (option) best_general ::
  "KernelHeap \<Rightarrow> u64 \<Rightarrow> u64 \<Rightarrow> u64 option \<Rightarrow> (u64 \<times> HeapAllocationLayout \<times> u64) option \<Rightarrow>
   (u64 \<times> HeapAllocationLayout \<times> u64) option option" where
  "best_general h sz alignment segment best =
     (case segment of
        None \<Rightarrow> Some best
      | Some s \<Rightarrow>
          if \<not> heap_segment_pointer_valid h segment then Some None
          else
            let g = segs h s; l = heap_compute_general_layout h s sz alignment;
                waste = total_size g - prefix_bytes l - required_bytes l;
                best =
                  (if seg_kind g \<noteq> HeapSegmentFree \<or> \<not> layout_valid l then best
                   else
                     (case best of
                        None \<Rightarrow> Some (s, l, waste)
                      | Some (_, _, best_waste) \<Rightarrow> if waste < best_waste then Some (s, l, waste) else best))
            in best_general h sz alignment (seg_next g) best)"

section \<open>Slabs\<close>

definition slab_stride :: "nat \<Rightarrow> u64" where
  "slab_stride bin_index =
     align_up (header_bytes + HeapSmallBins ! bin_index + HeapTailCanaryBytes) HeapMinimumAlignment"

primrec init_blocks :: "KernelHeap \<Rightarrow> u64 \<Rightarrow> nat \<Rightarrow> nat \<Rightarrow> u64 option \<Rightarrow> u64 option \<times> KernelHeap" where
  "init_blocks h s bin_index 0 first = (first, h)"
| "init_blocks h s bin_index (Suc index) first =
     (let header = slab_block_base s + of_nat index * slab_stride bin_index;
          h = set_blk h header (\<lambda>_. zero_block_header\<lparr>blk_magic := HeapBlockFreedMagic, blk_kind := HeapBlockSlab,
                blk_bin_index := of_nat bin_index, owner_segment := Some s, next_free := first\<rparr>);
          h = set_bytes h (fill_bytes (bytes h) (heap_block_payload_pointer header) HeapFreedPoison
                (unat (user_bytes (segs h s) + HeapTailCanaryBytes)))
      in init_blocks h s bin_index index (Some header))"

definition heap_initialize_slab_segment :: "KernelHeap \<Rightarrow> u64 \<Rightarrow> nat \<Rightarrow> bool \<times> KernelHeap" where
  "heap_initialize_slab_segment h s bin_index =
     (let stride = slab_stride bin_index;
          available_bytes = heap_segment_end_address h s - slab_block_base s;
          n = ucast (available_bytes div stride) :: u32
      in if length HeapSmallBins \<le> bin_index \<or> n = 0 then (False, h)
         else
           let h = heap_mark_segment_allocated h s HeapSegmentSlab (of_nat bin_index);
               h = set_seg h s (\<lambda>g. g\<lparr>user_bytes := HeapSmallBins ! bin_index, block_stride := stride, block_count := n,
                     seg_free_count := n, allocation_count := 0\<rparr>);
               (first, h) = init_blocks h s bin_index (unat n) None;
               h = set_seg h s (\<lambda>g. g\<lparr>block_list := first\<rparr>)
           in (True, heap_small_bin_insert_available h s))"

definition heap_create_slab_segment :: "KernelHeap \<Rightarrow> nat \<Rightarrow> (u64 option \<times> KernelHeap) option" where
  "heap_create_slab_segment h bin_index = do {
     (segment, h) \<leftarrow> heap_reserve_segment h (heap_slab_segment_bytes bin_index);
     case segment of
       None \<Rightarrow> Some (None, h)
     | Some s \<Rightarrow>
         (case heap_initialize_slab_segment h s bin_index of
            (True, h) \<Rightarrow> Some (Some s, h)
          | (False, h) \<Rightarrow> do {
              (_, h) \<leftarrow> heap_coalesce_free_segment (heap_mark_segment_free h s (total_size (segs h s))) s;
              Some (None, h) }) }"

partial_function (option) stats_from :: "KernelHeap \<Rightarrow> u64 option \<Rightarrow> HeapStats \<Rightarrow> HeapStats option" where
  "stats_from h segment st =
     (case segment of
        None \<Rightarrow> Some st
      | Some s \<Rightarrow>
          let g = segs h s; payload = heap_segment_payload_bytes h s
          in stats_from h (seg_next g)
               (if seg_kind g = HeapSegmentFree
                then st\<lparr>total_bytes := total_bytes st + payload, free_bytes := free_bytes st + payload\<rparr>
                else if seg_kind g = HeapSegmentGeneral
                then st\<lparr>total_bytes := total_bytes st + payload, used_bytes := used_bytes st + payload\<rparr>
                else if seg_kind g = HeapSegmentSlab
                then st\<lparr>total_bytes := total_bytes st + ucast (block_count g) * block_stride g,
                        used_bytes := used_bytes st + ucast (allocation_count g) * block_stride g,
                        free_bytes := free_bytes st + ucast (seg_free_count g) * block_stride g\<rparr>
                else st))"

definition heap_refresh_stats :: "KernelHeap \<Rightarrow> HeapStats option" where
  "heap_refresh_stats h =
     stats_from h (g_heap_segment_list_head h) \<lparr>total_bytes = 0, used_bytes = 0, free_bytes = 0\<rparr>"

section \<open>Allocation\<close>

text \<open>The header and the owner of a live allocation, \<open>None\<close> when a check fails.\<close>

definition heap_lookup_live_allocation_locked :: "KernelHeap \<Rightarrow> u64 \<Rightarrow> (u64 \<times> u64) option" where
  "heap_lookup_live_allocation_locked h pointer =
     (if pointer = 0 then None
      else if \<not> heap_range_valid h pointer 1 \<or> pointer < g_heap_start_address h + header_bytes then None
      else
        let header = pointer - header_bytes; b = blocks h header
        in if \<not> heap_range_valid h header header_bytes then None
           else if blk_magic b \<noteq> HeapBlockAllocatedMagic then None
           else if \<not> heap_segment_pointer_valid h (owner_segment b) then None
           else
             (case owner_segment b of
                None \<Rightarrow> None
              | Some s \<Rightarrow>
                  if \<not> heap_block_header_inside_segment h s header then None
                  else if blk_kind b = HeapBlockGeneral \<and> seg_kind (segs h s) \<noteq> HeapSegmentGeneral then None
                  else if blk_kind b = HeapBlockSlab \<and> seg_kind (segs h s) \<noteq> HeapSegmentSlab then None
                  else if \<not> heap_tail_canary_valid h header then None
                  else Some (header, s)))"

definition heap_alloc_small_locked :: "KernelHeap \<Rightarrow> nat \<Rightarrow> u64 \<Rightarrow> (u64 \<times> KernelHeap) option" where
  "heap_alloc_small_locked h bin_index sz = do {
     (segment, h) \<leftarrow> (case g_small_bin_available_heads h ! bin_index of
                        Some s \<Rightarrow> Some (Some s, h)
                      | None \<Rightarrow> heap_create_slab_segment h bin_index);
     case segment of
       None \<Rightarrow> Some (0, h)
     | Some s \<Rightarrow>
         (case block_list (segs h s) of
            None \<Rightarrow> Some (0, h)
          | Some header \<Rightarrow>
              if seg_free_count (segs h s) = 0 then Some (0, h)
              else
                let h = set_seg h s (\<lambda>g. g\<lparr>block_list := next_free (blocks h header)\<rparr>);
                    h = set_blk h header (\<lambda>b. b\<lparr>next_free := None, blk_magic := HeapBlockAllocatedMagic,
                          requested_size := sz\<rparr>);
                    h = set_seg h s (\<lambda>g. g\<lparr>seg_free_count := seg_free_count g - 1,
                          allocation_count := allocation_count g + 1\<rparr>);
                    h = (if seg_free_count (segs h s) = 0 then heap_small_bin_remove_available h s else h);
                    h = set_bytes h (fill_bytes (bytes h) (heap_block_payload_pointer header) HeapAllocatedPoison
                          (unat (user_bytes (segs h s) + HeapTailCanaryBytes)))
                in Some (heap_block_payload_pointer header, heap_write_tail_canary h header)) }"

definition heap_alloc_general_locked :: "KernelHeap \<Rightarrow> u64 \<Rightarrow> u64 \<Rightarrow> (u64 \<times> KernelHeap) option" where
  "heap_alloc_general_locked h sz alignment = do {
     best \<leftarrow> best_general h sz alignment (g_heap_segment_list_head h) None;
     Some (case best of
             None \<Rightarrow> (0, h)
           | Some (s, l, _) \<Rightarrow>
               (let (s, l, h) =
                      (if minimum_free_segment_size \<le> prefix_bytes l
                       then let (s, h) = heap_split_segment_prefix h s (prefix_bytes l)
                            in (s, heap_compute_general_layout h s sz alignment, h)
                       else (s, l, h));
                    h = heap_split_segment_tail h s (required_bytes l);
                    h = heap_mark_segment_allocated h s HeapSegmentGeneral HeapInvalidBinIndex;
                    h = set_seg h s (\<lambda>g. g\<lparr>user_bytes := sz, block_count := 1, allocation_count := 1\<rparr>);
                    header = block_header_start l;
                    h = set_blk h header (\<lambda>_. zero_block_header\<lparr>blk_magic := HeapBlockAllocatedMagic,
                          blk_kind := HeapBlockGeneral, blk_bin_index := HeapInvalidBinIndex, requested_size := sz,
                          owner_segment := Some s\<rparr>);
                    h = set_seg h s (\<lambda>g. g\<lparr>block_list := Some header\<rparr>)
                in (heap_block_payload_pointer header, heap_write_tail_canary h header))) }"

section \<open>Release and resizing\<close>

definition heap_free_small_locked :: "KernelHeap \<Rightarrow> u64 \<Rightarrow> u64 \<Rightarrow> KernelHeap option" where
  "heap_free_small_locked h s header =
     (let was_full = seg_free_count (segs h s) = 0;
          h = set_bytes h (fill_bytes (bytes h) (heap_block_payload_pointer header) HeapFreedPoison
                (unat (user_bytes (segs h s) + HeapTailCanaryBytes)));
          h = set_blk h header (\<lambda>b. b\<lparr>blk_magic := HeapBlockFreedMagic, requested_size := 0,
                next_free := block_list (segs h s)\<rparr>);
          h = set_seg h s (\<lambda>g. g\<lparr>block_list := Some header, seg_free_count := seg_free_count g + 1,
                allocation_count := allocation_count g - 1\<rparr>);
          h = (if was_full then heap_small_bin_insert_available h s else h)
      in if allocation_count (segs h s) = 0
         then
           let h = heap_small_bin_remove_available h s;
               h = heap_mark_segment_free h s (total_size (segs h s))
           in map_option snd (heap_coalesce_free_segment h s)
         else Some h)"

definition heap_free_general_locked :: "KernelHeap \<Rightarrow> u64 \<Rightarrow> u64 \<Rightarrow> KernelHeap option" where
  "heap_free_general_locked h s header =
     (let payload_bytes = heap_general_capacity_bytes h s header + HeapTailCanaryBytes;
          h = set_bytes h (fill_bytes (bytes h) (heap_block_payload_pointer header) HeapFreedPoison (unat payload_bytes));
          h = set_blk h header (\<lambda>b. b\<lparr>blk_magic := HeapBlockFreedMagic, requested_size := 0\<rparr>);
          h = heap_mark_segment_free h s (total_size (segs h s))
      in map_option snd (heap_coalesce_free_segment h s))"

text \<open>\<open>settle h s\<close>: after a tail was split off, merge it with a free right neighbour.\<close>

definition settle :: "KernelHeap \<Rightarrow> u64 \<Rightarrow> KernelHeap option" where
  "settle h s =
     (case seg_next (segs h s) of
        None \<Rightarrow> Some h
      | Some n \<Rightarrow>
          if seg_kind (segs h n) = HeapSegmentFree then map_option snd (heap_coalesce_free_segment h n) else Some h)"

definition resize_header :: "KernelHeap \<Rightarrow> u64 \<Rightarrow> u64 \<Rightarrow> u64 \<Rightarrow> KernelHeap" where
  "resize_header h s header sz =
     (let h = set_seg h s (\<lambda>g. g\<lparr>user_bytes := sz\<rparr>);
          h = set_blk h header (\<lambda>b. b\<lparr>requested_size := sz\<rparr>)
      in heap_write_tail_canary h header)"

definition heap_realloc_general_in_place_locked ::
  "KernelHeap \<Rightarrow> u64 \<Rightarrow> u64 \<Rightarrow> u64 \<Rightarrow> u64 \<Rightarrow> (u64 \<times> KernelHeap) option" where
  "heap_realloc_general_in_place_locked h s header pointer sz =
     (let required = align_up (pointer + sz + HeapTailCanaryBytes - s) HeapMinimumAlignment
      in if sz \<le> heap_general_capacity_bytes h s header
         then do {
           h \<leftarrow> (if required < total_size (segs h s) then settle (heap_split_segment_tail h s required) s else Some h);
           Some (pointer, resize_header h s header sz) }
         else
           (case seg_next (segs h s) of
              None \<Rightarrow> Some (0, h)
            | Some n \<Rightarrow>
                if seg_kind (segs h n) \<noteq> HeapSegmentFree then Some (0, h)
                else
                  let merged_total = total_size (segs h s) + total_size (segs h n)
                  in if required \<le> merged_total
                     then do {
                       let nn = seg_next (segs h n);
                       let h = set_seg h s (\<lambda>g. g\<lparr>total_size := merged_total\<rparr>);
                       let h = set_seg h s (\<lambda>g. g\<lparr>seg_next := nn\<rparr>);
                       let h = set_seg_prev h nn s;
                       h \<leftarrow> settle (heap_split_segment_tail h s required) s;
                       Some (pointer, resize_header h s header sz) }
                     else Some (0, h)))"

definition heap_init_impl :: "board_config \<Rightarrow> KernelHeap \<Rightarrow> Status \<times> KernelHeap" where
  "heap_init_impl cfg h =
     (let heap_phys = reserved_heap_physical_base cfg (pool h);
          heap_bytes = align_up (EarlyHeapSize cfg) HeapMinimumAlignment
      in if g_heap_initialized h then (StatusOK, h)
         else if heap_phys = 0 \<or> heap_bytes < minimum_free_segment_size \<or> \<not> is_power_of_two PageSize
         then (StatusNotSupported, h)
         else
           let heap_start = physical_to_kernel heap_phys;
               h = h\<lparr>g_heap_start_address := heap_start, g_heap_end_address := heap_start + heap_bytes,
                     g_small_bin_available_heads := replicate (length HeapSmallBins) None,
                     g_heap_segment_list_head := Some heap_start\<rparr>;
               h = heap_mark_segment_free h heap_start heap_bytes
           in (StatusOK, h\<lparr>g_heap_initialized := True\<rparr>))"

text \<open>The small path, then the general path: the body of the first attempt and of the retry.\<close>

definition alloc_attempt :: "KernelHeap \<Rightarrow> u64 \<Rightarrow> u64 \<Rightarrow> (u64 \<times> KernelHeap) option" where
  "alloc_attempt h sz alignment = do {
     (r, h) \<leftarrow> (case heap_small_bin_index_for_request sz alignment of
                  Some bin_index \<Rightarrow> heap_alloc_small_locked h bin_index sz
                | None \<Rightarrow> Some (0, h));
     if r = 0 then heap_alloc_general_locked h sz alignment else Some (r, h) }"

definition heap_alloc_impl :: "KernelHeap \<Rightarrow> u64 \<Rightarrow> u64 \<Rightarrow> (u64 \<times> KernelHeap) option" where
  "heap_alloc_impl h sz alignment =
     (if \<not> g_heap_initialized h \<or> sz = 0 then Some (0, h)
      else
        let alignment = (if alignment < HeapMinimumAlignment then HeapMinimumAlignment else alignment)
        in if \<not> is_power_of_two alignment then Some (0, h)
           else do {
             (r, h) \<leftarrow> alloc_attempt h sz alignment;
             if r \<noteq> 0 then Some (r, h)
             else do {
               (st, h) \<leftarrow> heap_grow_locked h sz alignment;
               if st \<noteq> StatusOK then Some (0, h) else alloc_attempt h sz alignment } })"

definition heap_free_impl :: "KernelHeap \<Rightarrow> u64 \<Rightarrow> KernelHeap option" where
  "heap_free_impl h pointer =
     (if \<not> g_heap_initialized h \<or> pointer = 0 then Some h
      else
        (case heap_lookup_live_allocation_locked h pointer of
           None \<Rightarrow> Some h
         | Some (header, s) \<Rightarrow>
             if blk_kind (blocks h header) = HeapBlockSlab then heap_free_small_locked h s header
             else heap_free_general_locked h s header))"

definition heap_move :: "KernelHeap \<Rightarrow> u64 \<Rightarrow> u64 \<Rightarrow> u64 \<Rightarrow> (u64 \<times> KernelHeap) option" where
  "heap_move h pointer copy_bytes sz = do {
     (replacement, h) \<leftarrow> heap_alloc_impl h sz 0;
     if replacement = 0 then Some (0, h)
     else do {
       let n = (if sz < copy_bytes then sz else copy_bytes);
       h \<leftarrow> heap_free_impl (set_bytes h (memcopy (bytes h) replacement (mem_bytes (bytes h) pointer (unat n)))) pointer;
       Some (replacement, h) } }"

definition heap_realloc_impl :: "KernelHeap \<Rightarrow> u64 \<Rightarrow> u64 \<Rightarrow> (u64 \<times> KernelHeap) option" where
  "heap_realloc_impl h pointer sz =
     (if pointer = 0 then heap_alloc_impl h sz 0
      else if sz = 0 then map_option (\<lambda>h. (0, h)) (heap_free_impl h pointer)
      else if \<not> g_heap_initialized h then Some (0, h)
      else
        (case heap_lookup_live_allocation_locked h pointer of
           None \<Rightarrow> Some (0, h)
         | Some (header, s) \<Rightarrow>
             (let copy_bytes = requested_size (blocks h header)
              in if blk_kind (blocks h header) = HeapBlockSlab
                 then
                   (case heap_small_bin_index_for_request sz HeapMinimumAlignment of
                      Some new_bin \<Rightarrow>
                        if of_nat new_bin = seg_bin_index (segs h s)
                        then Some (pointer,
                          heap_write_tail_canary (set_blk h header (\<lambda>b. b\<lparr>requested_size := sz\<rparr>)) header)
                        else heap_move h pointer copy_bytes sz
                    | None \<Rightarrow> heap_move h pointer copy_bytes sz)
                 else do {
                   (grown, h) \<leftarrow> heap_realloc_general_in_place_locked h s header pointer sz;
                   if grown \<noteq> 0 then Some (grown, h) else heap_move h pointer copy_bytes sz })))"

definition heap_stats_impl :: "KernelHeap \<Rightarrow> HeapStats option" where
  "heap_stats_impl h =
     (if g_heap_initialized h then heap_refresh_stats h else Some \<lparr>total_bytes = 0, used_bytes = 0, free_bytes = 0\<rparr>)"

definition heap_debug_validate_impl :: "KernelHeap \<Rightarrow> bool option" where
  "heap_debug_validate_impl h = heap_validate_locked h"

end
