(* ===== verification/Kernel_Heap_Inv.thy ===== *)
theory Kernel_Heap_Inv
  imports Kernel_Heap
begin

unbundle bit_operations_syntax

text \<open>
  What a well-formed kernel heap is. The segments \<open>ss\<close> tile the arena in address order and are linked
  in that order (\<open>tiling\<close>); every segment's contents fit its kind (\<open>body_ok\<close>); the available lists hold
  exactly the slabs with a free block (\<open>avail_ok\<close>); free pages of the physical allocator lie outside
  the arena. The lemmas give the frame of each part: what may change without disturbing it.
\<close>

section \<open>Alignment\<close>

lemma unat_power2: "k < 64 \<Longrightarrow> unat ((2 :: u64) ^ k) = 2 ^ k"
proof -
  assume "k < 64"
  then have "(2 :: nat) ^ k < 2 ^ 64" by (intro power_strict_increasing) auto
  then have "unat (of_nat (2 ^ k) :: u64) = 2 ^ k" by (intro unat_of_nat_less) simp
  then show ?thesis by simp
qed

lemma unat_mask64: "k < 64 \<Longrightarrow> unat (mask k :: u64) = 2 ^ k - 1"
proof -
  assume k: "k < 64"
  have "(1 :: u64) \<le> 2 ^ k" using unat_power2 [OF k] by (simp add: word_le_nat_alt)
  then show ?thesis by (simp add: mask_eq_exp_minus_1 unat_sub unat_power2 [OF k])
qed

lemma power_of_two_mask:
  assumes "is_power_of_two v"
  obtains k where "k < 64" "v = 2 ^ k" "unat v = 2 ^ k" "v - 1 = mask k"
proof -
  define k where "k = (LEAST i. bit v i)"
  have nz: "v \<noteq> 0" and an: "v AND (v - 1) = 0" using assms by (simp_all add: is_power_of_two_def)
  from nz obtain i where "bit v i" by (metis bit_eq_iff bit_0_eq bot_apply bot_bool_def)
  then have bk: "bit v k" unfolding k_def by (rule LeastI)
  have low: "j < k \<Longrightarrow> \<not> bit v j" for j unfolding k_def by (rule not_less_Least)
  have k64: "k < 64" using bk bit_imp_le_length [of v k] by simp
  have "v - 1 = (v AND NOT (mask (Suc k))) OR mask k"
  proof -
    have "v = (v AND NOT (mask (Suc k))) OR push_bit k 1"
    proof (rule bit_word_eqI)
      fix j assume "j < LENGTH(64)"
      consider "j < k" | "j = k" | "k < j" by linarith
      then show "bit v j = bit (v AND NOT (mask (Suc k)) OR push_bit k 1) j"
        using low [of j] bk k64 \<open>j < LENGTH(64)\<close> by cases (auto simp: bit_simps)
    qed
    also have "\<dots> = (v AND NOT (mask (Suc k))) + push_bit k 1"
      by (rule disjunctive_add [symmetric]) (auto simp: bit_simps)
    finally have "v - 1 = (v AND NOT (mask (Suc k))) + (push_bit k 1 - 1)" by simp
    also have "push_bit k 1 - 1 = (mask k :: u64)" by (simp add: mask_eq_exp_minus_1)
    also have "(v AND NOT (mask (Suc k))) + mask k = (v AND NOT (mask (Suc k))) OR mask k"
      by (rule disjunctive_add) (auto simp: bit_simps)
    finally show ?thesis .
  qed
  then have "v AND (v AND NOT (mask (Suc k)) OR mask k) = 0" using an by simp
  then have "v AND NOT (mask (Suc k)) = 0"
    by (simp add: word_ao_dist2 or_eq_0_iff)
  then have "\<And>j. Suc k \<le> j \<Longrightarrow> \<not> bit v j"
  proof -
    fix j assume j: "Suc k \<le> j"
    show "\<not> bit v j"
    proof
      assume b: "bit v j"
      then have "j < 64" using bit_imp_le_length [of v j] by simp
      then have "bit (v AND NOT (mask (Suc k))) j" using j b by (auto simp: bit_simps)
      then show False using \<open>v AND NOT (mask (Suc k)) = 0\<close> by simp
    qed
  qed
  note hi = this
  have e: "v = push_bit k 1"
  proof (rule bit_word_eqI)
    fix j assume "j < LENGTH(64)"
    consider "j < k" | "j = k" | "Suc k \<le> j" by linarith
    then show "bit v j = bit (push_bit k 1 :: u64) j"
      using low [of j] bk k64 hi [of j] \<open>j < LENGTH(64)\<close> by cases (auto simp: bit_simps)
  qed
  have v2: "v = 2 ^ k" using e by simp
  have uv: "unat v = 2 ^ k" unfolding v2 using k64 by (rule unat_power2)
  have "v - 1 = mask k" unfolding v2 by (simp add: mask_eq_exp_minus_1)
  then show ?thesis using that [OF k64 v2 uv] by simp
qed


lemma power_of_twoI: "k < 64 \<Longrightarrow> is_power_of_two (2 ^ k)"
proof -
  assume k: "k < 64"
  have "(2 :: u64) ^ k \<noteq> 0" using k by simp
  moreover have "(2 :: u64) ^ k - 1 = mask k" by (simp add: mask_eq_exp_minus_1)
  moreover have "(2 :: u64) ^ k AND mask k = 0"
    by (rule bit_word_eqI) (auto simp: bit_simps)
  ultimately show ?thesis by (simp add: is_power_of_two_def)
qed

lemma align_up_nat:
  assumes "k < 64" "unat v + 2 ^ k \<le> 2 ^ 64"
  shows "unat (align_up v (2 ^ k)) = (unat v + (2 ^ k - 1)) div 2 ^ k * 2 ^ k"
proof -
  have m: "(2 :: u64) ^ k - 1 = mask k" by (simp add: mask_eq_exp_minus_1)
  have "(1 :: nat) \<le> 2 ^ k" by simp
  then have "unat v + (2 ^ k - 1) < 2 ^ 64" using assms(2) by linarith
  then have "unat (v + mask k) = unat v + (2 ^ k - 1)"
    using unat_mask64 [OF assms(1)] by (simp add: unat_word_ariths)
  then show ?thesis by (simp add: align_up_def m unat_aligned_down)
qed

lemma align_down_nat: "k < 64 \<Longrightarrow> unat (align_down_address v (2 ^ k)) = unat v div 2 ^ k * 2 ^ k"
  by (simp add: align_down_address_def mask_eq_exp_minus_1 [symmetric] unat_aligned_down)

lemma align_up_address_eq: "align_up_address = align_up"
  by (intro ext) (simp add: align_up_def align_up_address_def)

lemma round_up_bounds:
  fixes v d :: nat assumes "0 < d"
  shows "v \<le> (v + (d - 1)) div d * d" "(v + (d - 1)) div d * d < v + d"
    "d dvd (v + (d - 1)) div d * d" "d dvd v \<Longrightarrow> (v + (d - 1)) div d * d = v"
proof -
  have e: "(v + (d - 1)) div d * d + (v + (d - 1)) mod d = v + (d - 1)" by (rule div_mult_mod_eq)
  have m: "(v + (d - 1)) mod d < d" using assms by simp
  show lo: "v \<le> (v + (d - 1)) div d * d" and hi: "(v + (d - 1)) div d * d < v + d" using e m assms by linarith+
  show "d dvd (v + (d - 1)) div d * d" by simp
  assume "d dvd v"
  then have "d dvd (v + (d - 1)) div d * d - v" by (intro dvd_diff_nat) simp_all
  moreover have "(v + (d - 1)) div d * d - v < d" using lo hi by linarith
  ultimately have "(v + (d - 1)) div d * d - v = 0" by (metis nat_dvd_not_less not_gr0)
  then show "(v + (d - 1)) div d * d = v" using lo by linarith
qed

text \<open>Rounding up to 16, the allocator's grain.\<close>

definition up16 :: "nat \<Rightarrow> nat" where
  "up16 n = (n + 15) div 16 * 16"

lemma up16_facts: "n \<le> up16 n" "up16 n < n + 16" "16 dvd up16 n" "16 dvd n \<Longrightarrow> up16 n = n"
  using round_up_bounds [of 16 n] by (simp_all add: up16_def)

lemma unat_align16: "unat v + 16 \<le> 2 ^ 64 \<Longrightarrow> unat (align_up v 16) = up16 (unat v)"
  using align_up_nat [of 4 v] by (simp add: up16_def)

lemma heap_constants [simp]:
  "minimum_free_segment_size = 112" "heap_slab_segment_bytes b = 4096" "is_power_of_two 16" "is_power_of_two 4096"
  "length HeapSmallBins = 5"
  by (simp_all add: minimum_free_segment_size_def heap_slab_segment_bytes_def align_up_def is_power_of_two_def
      HeapSmallBins_def)

lemma slab_stride_values:
  "slab_stride 0 = 80" "slab_stride (Suc 0) = 112" "slab_stride 2 = 176" "slab_stride 3 = 304" "slab_stride 4 = 560"
  by (simp_all add: slab_stride_def HeapSmallBins_def align_up_def numeral_2_eq_2 numeral_3_eq_3 numeral_eq_Suc nth_Cons')

lemma bin_cases: "(b :: nat) < 5 \<Longrightarrow> b \<in> {0, 1, 2, 3, 4}"
  by auto

lemma slab_stride_nat:
  assumes "b < 5"
  shows "16 dvd unat (slab_stride b)" "80 \<le> unat (slab_stride b)" "unat (slab_stride b) \<le> 560"
    "unat (HeapSmallBins ! b) + 40 \<le> unat (slab_stride b)" "32 \<le> unat (HeapSmallBins ! b)"
    "unat (HeapSmallBins ! b) \<le> 512"
  using bin_cases [OF assms] by (auto simp: slab_stride_values HeapSmallBins_def)


section \<open>The tiling\<close>

primrec tiling :: "(u64 \<Rightarrow> HeapSegment) \<Rightarrow> u64 option \<Rightarrow> u64 list \<Rightarrow> u64 option \<Rightarrow> nat \<Rightarrow> nat \<Rightarrow> bool" where
  "tiling S p [] q a e \<longleftrightarrow> a = e"
| "tiling S p (s # ss) q a e \<longleftrightarrow>
     unat s = a \<and> seg_magic (S s) = HeapSegmentMagic \<and> 112 \<le> unat (total_size (S s)) \<and>
     16 dvd unat (total_size (S s)) \<and> seg_prev (S s) = p \<and> seg_next (S s) = first_of ss q \<and>
     tiling S (Some s) ss q (a + unat (total_size (S s))) e"

abbreviation extent :: "(u64 \<Rightarrow> HeapSegment) \<Rightarrow> u64 \<Rightarrow> nat" where
  "extent S s \<equiv> unat (total_size (S s))"

lemma tiling_append:
  "tiling S p (xs @ ys) q a e \<longleftrightarrow>
   (\<exists>m. tiling S p xs (first_of ys q) a m \<and> tiling S (last_of p xs) ys q m e)"
  by (induction xs arbitrary: p a) (auto simp: first_of_append)

lemma tiling_range:
  "tiling S p ss q a e \<Longrightarrow> a \<le> e \<and> (\<forall>s \<in> set ss. a \<le> unat s \<and> unat s + extent S s \<le> e \<and> 112 \<le> extent S s \<and>
     16 dvd extent S s \<and> seg_magic (S s) = HeapSegmentMagic)"
  by (induction ss arbitrary: p a) fastforce+

lemma tiling_aligned: "tiling S p ss q a e \<Longrightarrow> 16 dvd a \<Longrightarrow> s \<in> set ss \<Longrightarrow> 16 dvd unat s"
  by (induction ss arbitrary: p a) auto

lemma tiling_end_aligned: "tiling S p ss q a e \<Longrightarrow> 16 dvd a \<Longrightarrow> 16 dvd e"
  by (induction ss arbitrary: p a) auto

lemma tiling_apart:
  "tiling S p ss q a e \<Longrightarrow> s \<in> set ss \<Longrightarrow> t \<in> set ss \<Longrightarrow> s \<noteq> t \<Longrightarrow>
   unat s + extent S s \<le> unat t \<or> unat t + extent S t \<le> unat s"
proof (induction ss arbitrary: p a)
  case (Cons x ss)
  have t: "tiling S (Some x) ss q (a + extent S x) e" and x: "unat x = a" using Cons.prems(1) by auto
  from tiling_range [OF t] have "y \<in> set ss \<Longrightarrow> unat x + extent S x \<le> unat y" for y using x by auto
  with Cons.IH [OF t] Cons.prems show ?case by auto
qed simp

lemma tiling_distinct: "tiling S p ss q a e \<Longrightarrow> distinct ss"
proof (induction ss arbitrary: p a)
  case (Cons x ss)
  have t: "tiling S (Some x) ss q (a + extent S x) e" and x: "unat x = a" "112 \<le> extent S x" using Cons.prems by auto
  have "y \<in> set ss \<Longrightarrow> x \<noteq> y" for y using tiling_range [OF t] x by auto
  with Cons.IH [OF t] show ?case by auto
qed simp

lemma tiling_inside:
  assumes "tiling S p ss q a e" "s \<in> set ss" "unat s < n" "n < unat s + extent S s" "t \<in> set ss"
  shows "unat t \<noteq> n"
  using tiling_apart [OF assms(1,2,5)] tiling_range [OF assms(1)] assms by fastforce

definition same_tile :: "HeapSegment \<Rightarrow> HeapSegment \<Rightarrow> bool" where
  "same_tile g g' \<longleftrightarrow> seg_magic g' = seg_magic g \<and> total_size g' = total_size g \<and> seg_next g' = seg_next g \<and>
     seg_prev g' = seg_prev g"

lemma tiling_cong: "(\<And>s. s \<in> set ss \<Longrightarrow> same_tile (S s) (S' s)) \<Longrightarrow> tiling S' p ss q a e = tiling S p ss q a e"
  by (induction ss arbitrary: p a) (auto simp: same_tile_def)

lemma tiling_refirst:
  assumes "tiling S p ys q a e" and "\<And>t. t \<in> set ys \<Longrightarrow>
    S' t = (if first_of ys None = Some t then (S t)\<lparr>seg_prev := p'\<rparr> else S t)"
  shows "tiling S' p' ys q a e"
proof (cases ys)
  case (Cons y zs)
  have d: "y \<notin> set zs" using tiling_distinct [OF assms(1)] Cons by simp
  have "tiling S' (Some y) zs q (a + extent S y) e = tiling S (Some y) zs q (a + extent S y) e"
    by (rule tiling_cong) (use assms(2) d Cons in \<open>auto simp: same_tile_def\<close>)
  then show ?thesis using assms Cons by simp
qed (use assms in simp)

text \<open>Surgery in the middle of the chain: the extent is kept, the first segment stays the first.\<close>

lemma tiling_middle:
  assumes t: "tiling S p (xs @ ms @ ys) q a e" and ne: "ms \<noteq> []" "ms' \<noteq> []" "hd ms' = hd ms"
    and xs: "\<And>t. t \<in> set xs \<Longrightarrow> S' t = S t"
    and ys: "\<And>t. t \<in> set ys \<Longrightarrow> S' t = (if first_of ys None = Some t then (S t)\<lparr>seg_prev := Some (last ms')\<rparr> else S t)"
    and ms: "\<And>b c. tiling S (last_of p xs) ms (first_of ys q) b c \<Longrightarrow> tiling S' (last_of p xs) ms' (first_of ys q) b c"
  shows "tiling S' p (xs @ ms' @ ys) q a e"
proof -
  obtain b c where x: "tiling S p xs (first_of ms (first_of ys q)) a b"
    and m: "tiling S (last_of p xs) ms (first_of ys q) b c" and y: "tiling S (last_of (last_of p xs) ms) ys q c e"
    using t by (auto simp: tiling_append first_of_append)
  have f: "first_of ms' d = first_of ms d'" for d d' using ne by (cases ms; cases ms') auto
  have l: "last_of (last_of p xs) ms' = Some (last ms')" using ne by (simp add: last_of_def)
  have "tiling S' p xs (first_of ms (first_of ys q)) a b"
    using x tiling_cong [of xs S S'] xs by (simp add: same_tile_def)
  moreover have "tiling S' (Some (last ms')) ys q c e" by (rule tiling_refirst [OF y ys])
  ultimately show ?thesis using ms [OF m] f [of "first_of ys q" "first_of ys q"] l
    by (auto simp: tiling_append first_of_append)
qed

section \<open>Contents of a segment\<close>

text \<open>The canary of a header record at an address.\<close>

definition tail_mark :: "u64 \<Rightarrow> HeapBlockHeader \<Rightarrow> u64" where
  "tail_mark header b =
     HeapTailCanaryBase XOR header XOR requested_size b XOR push_bit 48 (ucast (blk_kind b)) XOR
       push_bit 32 (ucast (blk_bin_index b))"

definition live_block :: "u64 \<Rightarrow> HeapBlockHeader \<Rightarrow> mem \<Rightarrow> bool" where
  "live_block header b M \<longleftrightarrow> blk_magic b = HeapBlockAllocatedMagic \<and> 0 < unat (requested_size b) \<and>
     load64 M (header + 32 + requested_size b) = tail_mark header b"

definition general_ok :: "HeapSegment \<Rightarrow> u64 \<Rightarrow> (u64 \<Rightarrow> HeapBlockHeader) \<Rightarrow> mem \<Rightarrow> bool" where
  "general_ok g s B M \<longleftrightarrow>
     (\<exists>header. block_list g = Some header \<and> allocation_count g = 1 \<and> seg_free_count g = 0 \<and> block_count g = 1 \<and>
        unat s + 96 \<le> unat header \<and> 16 dvd unat header \<and>
        unat header + 40 + unat (user_bytes g) \<le> unat s + unat (total_size g) \<and>
        blk_kind (B header) = HeapBlockGeneral \<and> blk_bin_index (B header) = HeapInvalidBinIndex \<and>
        requested_size (B header) = user_bytes g \<and> owner_segment (B header) = Some s \<and> live_block header (B header) M)"

definition slab_header :: "u64 \<Rightarrow> nat \<Rightarrow> nat \<Rightarrow> u64" where
  "slab_header s b i = s + 96 + of_nat i * slab_stride b"

definition slab_blocks :: "HeapSegment \<Rightarrow> nat \<Rightarrow> nat" where
  "slab_blocks g b = (unat (total_size g) - 96) div unat (slab_stride b)"

abbreviation bin_of :: "HeapSegment \<Rightarrow> nat" where
  "bin_of g \<equiv> unat (seg_bin_index g)"

definition slab_block_ok :: "HeapSegment \<Rightarrow> u64 \<Rightarrow> nat \<Rightarrow> HeapBlockHeader \<Rightarrow> mem \<Rightarrow> bool" where
  "slab_block_ok g s i b M \<longleftrightarrow>
     blk_kind b = HeapBlockSlab \<and> blk_bin_index b = seg_bin_index g \<and> owner_segment b = Some s \<and>
     (blk_magic b = HeapBlockFreedMagic \<or>
      live_block (slab_header s (bin_of g) i) b M \<and> unat (requested_size b) \<le> unat (user_bytes g))"

text \<open>\<open>fl\<close> is the slab's free list.\<close>

definition slab_ok :: "HeapSegment \<Rightarrow> u64 \<Rightarrow> (u64 \<Rightarrow> HeapBlockHeader) \<Rightarrow> mem \<Rightarrow> nat list \<Rightarrow> bool" where
  "slab_ok g s B M fl \<longleftrightarrow>
     bin_of g < 5 \<and> user_bytes g = HeapSmallBins ! bin_of g \<and> block_stride g = slab_stride (bin_of g) \<and>
     4096 \<le> unat (total_size g) \<and> unat (total_size g) < 4208 \<and>
     block_count g = of_nat (slab_blocks g (bin_of g)) \<and> seg_free_count g = of_nat (length fl) \<and>
     allocation_count g = of_nat (slab_blocks g (bin_of g) - length fl) \<and>
     distinct fl \<and> set fl = {i. i < slab_blocks g (bin_of g) \<and> blk_magic (B (slab_header s (bin_of g) i)) = HeapBlockFreedMagic} \<and>
     block_list g = first_of (map (slab_header s (bin_of g)) fl) None \<and>
     slist (\<lambda>x. next_free (B x)) (map (slab_header s (bin_of g)) fl) \<and>
     (\<forall>i < slab_blocks g (bin_of g). slab_block_ok g s i (B (slab_header s (bin_of g) i)) M)"

definition body_ok :: "HeapSegment \<Rightarrow> u64 \<Rightarrow> (u64 \<Rightarrow> HeapBlockHeader) \<Rightarrow> mem \<Rightarrow> bool" where
  "body_ok g s B M \<longleftrightarrow>
     seg_kind g = HeapSegmentFree \<or> seg_kind g = HeapSegmentGeneral \<and> general_ok g s B M \<or>
     seg_kind g = HeapSegmentSlab \<and> (\<exists>fl. slab_ok g s B M fl)"

text \<open>Everything of a segment but its links.\<close>

definition inner :: "HeapSegment \<Rightarrow> HeapSegment" where
  "inner g = g\<lparr>seg_next := None, seg_prev := None, available_next := None, available_prev := None, seg_flags := 0\<rparr>"

lemma inner_fields:
  assumes "inner g' = inner g"
  shows "seg_magic g' = seg_magic g" "seg_kind g' = seg_kind g" "seg_bin_index g' = seg_bin_index g"
    "total_size g' = total_size g" "block_list g' = block_list g" "user_bytes g' = user_bytes g"
    "block_stride g' = block_stride g" "block_count g' = block_count g" "seg_free_count g' = seg_free_count g"
    "allocation_count g' = allocation_count g"
proof -
  note a = arg_cong [OF assms]
  show "seg_magic g' = seg_magic g" "seg_kind g' = seg_kind g" "seg_bin_index g' = seg_bin_index g"
    "total_size g' = total_size g" "block_list g' = block_list g" "user_bytes g' = user_bytes g"
    "block_stride g' = block_stride g" "block_count g' = block_count g" "seg_free_count g' = seg_free_count g"
    "allocation_count g' = allocation_count g"
    using a [of seg_magic] a [of seg_kind] a [of seg_bin_index] a [of total_size] a [of block_list] a [of user_bytes]
      a [of block_stride] a [of block_count] a [of seg_free_count] a [of allocation_count]
    by (simp_all add: inner_def)
qed


lemma load64_range:
  assumes "\<And>x. unat a \<le> unat x \<Longrightarrow> unat x < unat a + 8 \<Longrightarrow> M' x = M x" "unat a + 8 \<le> 2 ^ 64"
  shows "load64 M' a = load64 M a"
  by (rule load64_touches [of M M' "- {unat a..<unat a + 8}"]) (use assms in \<open>auto simp: touches_def\<close>)

lemma unat_plus: "unat (a :: u64) + n < 2 ^ 64 \<Longrightarrow> unat (a + of_nat n) = unat a + n"
  by (simp add: unat_word_ariths unat_of_nat)

lemma unat_plus_word: "unat (a :: u64) + unat b < 2 ^ 64 \<Longrightarrow> unat (a + b) = unat a + unat b"
  by (simp add: unat_word_ariths)

lemma unat_payload: "unat (a :: u64) + 32 < 2 ^ 64 \<Longrightarrow> unat (a + 32) = unat a + 32"
  using unat_plus_word [of a 32] by simp

lemma unat_canary:
  fixes a n :: u64
  assumes "unat a + 32 + unat n < 2 ^ 64" shows "unat (a + 32 + n) = unat a + 32 + unat n"
proof -
  have "unat (a + 32) = unat a + 32" using assms by (intro unat_payload) linarith
  then show ?thesis using unat_plus_word [of "a + 32" n] assms by simp
qed

lemma slab_blocks_bounds:
  assumes "b < 5" "4096 \<le> unat (total_size g)" "unat (total_size g) < 4208"
  shows "0 < slab_blocks g b" "slab_blocks g b \<le> 51" "slab_blocks g b * unat (slab_stride b) + 96 \<le> unat (total_size g)"
proof -
  note st = slab_stride_nat [OF assms(1)]
  show "0 < slab_blocks g b" using st assms by (auto simp: slab_blocks_def div_greater_zero_iff)
  have "slab_blocks g b \<le> (unat (total_size g) - 96) div 80"
    unfolding slab_blocks_def using st by (intro div_le_mono2) auto
  also have "\<dots> \<le> 51" using assms by (simp add: div_le_mono order.trans)
  finally show "slab_blocks g b \<le> 51" .
  have "slab_blocks g b * unat (slab_stride b) \<le> unat (total_size g) - 96" by (simp add: slab_blocks_def)
  then show "slab_blocks g b * unat (slab_stride b) + 96 \<le> unat (total_size g)" using assms(2) by linarith
qed

lemma unat_slab_header:
  assumes "b < 5" "i < slab_blocks g b" "4096 \<le> unat (total_size g)" "unat (total_size g) < 4208"
    "unat s + unat (total_size g) < 2 ^ 64"
  shows "unat (slab_header s b i) = unat s + 96 + i * unat (slab_stride b)"
    "unat (slab_header s b i) + unat (slab_stride b) \<le> unat s + unat (total_size g)"
proof -
  note sb = slab_blocks_bounds [OF assms(1,3,4)]
  have "i * unat (slab_stride b) + unat (slab_stride b) = Suc i * unat (slab_stride b)" by simp
  also have "\<dots> \<le> slab_blocks g b * unat (slab_stride b)" using assms(2) by (intro mult_le_mono1) simp
  finally have le: "i * unat (slab_stride b) + unat (slab_stride b) + 96 \<le> unat (total_size g)" using sb(3) by linarith
  have m: "unat (of_nat i * slab_stride b :: u64) = i * unat (slab_stride b)"
    using le assms(4) sb(2) assms(2) by (simp add: unat_word_ariths unat_of_nat_less)
  have 1: "unat (s + 96 :: u64) = unat s + 96" using unat_plus_word [of s 96] le assms(5) by simp
  show e: "unat (slab_header s b i) = unat s + 96 + i * unat (slab_stride b)"
    unfolding slab_header_def using unat_plus_word [of "s + 96" "of_nat i * slab_stride b"] 1 m le assms(5) by simp
  show "unat (slab_header s b i) + unat (slab_stride b) \<le> unat s + unat (total_size g)" using e le by simp
qed

lemma slab_headers_apart:
  assumes "b < 5" "i < slab_blocks g b" "j < slab_blocks g b" "i \<noteq> j" "4096 \<le> unat (total_size g)"
    "unat (total_size g) < 4208" "unat s + unat (total_size g) < 2 ^ 64"
  shows "unat (slab_header s b i) + unat (slab_stride b) \<le> unat (slab_header s b j) \<or>
    unat (slab_header s b j) + unat (slab_stride b) \<le> unat (slab_header s b i)"
proof -
  have *: "a < c \<Longrightarrow> a * d + d \<le> c * d" for a c d :: nat
    by (metis Suc_leI add.commute mult_Suc mult_le_mono1)
  show ?thesis using *[of i j "unat (slab_stride b)"] *[of j i "unat (slab_stride b)"] assms(4)
      unat_slab_header(1) [OF assms(1,2,5,6,7)] unat_slab_header(1) [OF assms(1,3,5,6,7)]
    by (cases "i < j") auto
qed

lemma slab_header_inj:
  assumes "b < 5" "i < slab_blocks g b" "j < slab_blocks g b" "4096 \<le> unat (total_size g)"
    "unat (total_size g) < 4208" "unat s + unat (total_size g) < 2 ^ 64" "slab_header s b i = slab_header s b j"
  shows "i = j"
  using slab_headers_apart [OF assms(1-3) _ assms(4-6)] slab_stride_nat(2) [OF assms(1)] assms(7) by fastforce

section \<open>Frames\<close>

lemma live_block_frame:
  assumes "live_block hh b M" "unat hh + 40 + unat (requested_size b) < 2 ^ 64"
    "\<And>x. unat hh + 32 \<le> unat x \<Longrightarrow> unat x < unat hh + 40 + unat (requested_size b) \<Longrightarrow> M' x = M x"
  shows "live_block hh b M'"
proof -
  have u: "unat (hh + 32 + requested_size b) = unat hh + 32 + unat (requested_size b)"
    using assms(2) by (intro unat_canary) linarith
  have "load64 M' (hh + 32 + requested_size b) = load64 M (hh + 32 + requested_size b)"
    by (rule load64_range) (use u assms(2,3) in auto)
  then show ?thesis using assms(1) by (simp add: live_block_def)
qed

lemma general_ok_frame:
  assumes ok: "general_ok g s B M" and i: "inner g' = inner g" and top: "unat s + unat (total_size g) < 2 ^ 64"
    and fr: "\<And>x. unat s + 96 \<le> unat x \<Longrightarrow> unat x < unat s + unat (total_size g) \<Longrightarrow> B' x = B x \<and> M' x = M x"
  shows "general_ok g' s B' M'"
proof -
  obtain hh where h: "block_list g = Some hh" "unat s + 96 \<le> unat hh"
    "unat hh + 40 + unat (user_bytes g) \<le> unat s + unat (total_size g)" "requested_size (B hh) = user_bytes g"
    "live_block hh (B hh) M"
    using ok by (auto simp: general_ok_def)
  have B: "B' hh = B hh" using fr [of hh] h by simp
  have "live_block hh (B hh) M'"
    by (rule live_block_frame [OF h(5)]) (use h top fr in auto)
  then show ?thesis using ok h B by (auto simp: general_ok_def inner_fields [OF i])
qed

lemma slab_ok_frame:
  assumes ok: "slab_ok g s B M fl" and i: "inner g' = inner g" and top: "unat s + unat (total_size g) < 2 ^ 64"
    and fr: "\<And>x. unat s + 96 \<le> unat x \<Longrightarrow> unat x < unat s + unat (total_size g) \<Longrightarrow> B' x = B x \<and> M' x = M x"
  shows "slab_ok g' s B' M' fl"
proof -
  define b n where "b = bin_of g" and "n = slab_blocks g b"
  have b5: "b < 5" and sz: "4096 \<le> unat (total_size g)" "unat (total_size g) < 4208"
    using ok by (auto simp: slab_ok_def b_def)
  note st = slab_stride_nat [OF b5]
  have hd1: "unat s + 96 \<le> unat (slab_header s b i)" "unat (slab_header s b i) + unat (slab_stride b) \<le> unat s + unat (total_size g)"
    if "i < n" for i
    using unat_slab_header [OF b5 _ sz top, of i] that by (simp_all add: n_def)
  have B: "B' (slab_header s b i) = B (slab_header s b i)" if "i < n" for i
    using fr [of "slab_header s b i"] hd1 [OF that] st by simp
  have ub: "user_bytes g = HeapSmallBins ! b" using ok by (simp add: slab_ok_def b_def)
  have blk: "slab_block_ok g s i (B (slab_header s b i)) M'" if "i < n" for i
  proof -
    have o: "slab_block_ok g s i (B (slab_header s b i)) M" using ok that by (simp add: slab_ok_def b_def n_def)
    have "live_block (slab_header s b i) (B (slab_header s b i)) M'"
      if l: "live_block (slab_header s b i) (B (slab_header s b i)) M"
        "unat (requested_size (B (slab_header s b i))) \<le> unat (user_bytes g)"
      by (rule live_block_frame [OF l(1)]) (use l hd1 [OF \<open>i < n\<close>] st ub top fr in auto)
    then show ?thesis using o by (auto simp: slab_block_ok_def b_def)
  qed
  have fs: "set fl = {i. i < n \<and> blk_magic (B (slab_header s b i)) = HeapBlockFreedMagic}"
    using ok by (simp add: slab_ok_def b_def n_def)
  have sl: "slist (\<lambda>x. next_free (B' x)) (map (slab_header s b) fl) = slist (\<lambda>x. next_free (B x)) (map (slab_header s b) fl)"
    by (rule slist_cong) (use fs B in auto)
  note e = inner_fields [OF i]
  have e2: "slab_blocks g' x = slab_blocks g x" for x by (simp add: slab_blocks_def e)
  show ?thesis using ok fs B sl blk unfolding slab_ok_def slab_block_ok_def e e2 b_def [symmetric] n_def [symmetric]
    by auto
qed

lemma body_ok_frame:
  assumes "body_ok g s B M" "inner g' = inner g" "unat s + unat (total_size g) < 2 ^ 64"
    "\<And>x. unat s + 96 \<le> unat x \<Longrightarrow> unat x < unat s + unat (total_size g) \<Longrightarrow> B' x = B x \<and> M' x = M x"
  shows "body_ok g' s B' M'"
proof -
  have "general_ok g' s B' M'" if "general_ok g s B M" by (rule general_ok_frame [OF that assms(2,3)]) (rule assms(4))
  moreover have "slab_ok g' s B' M' fl" if "slab_ok g s B M fl" for fl
    by (rule slab_ok_frame [OF that assms(2,3)]) (rule assms(4))
  ultimately show ?thesis using assms(1) by (auto simp: body_ok_def inner_fields [OF assms(2)])
qed


section \<open>The invariant\<close>

definition slabs_of :: "(u64 \<Rightarrow> HeapSegment) \<Rightarrow> nat \<Rightarrow> u64 list \<Rightarrow> u64 set" where
  "slabs_of S b ss = {s \<in> set ss. seg_kind (S s) = HeapSegmentSlab \<and> bin_of (S s) = b \<and> seg_free_count (S s) \<noteq> 0}"

abbreviation avail_list :: "(u64 \<Rightarrow> HeapSegment) \<Rightarrow> u64 option \<Rightarrow> u64 list \<Rightarrow> bool" where
  "avail_list S first xs \<equiv> dll (\<lambda>s. available_next (S s)) (\<lambda>s. available_prev (S s)) first (last_of None xs) xs"

definition avail_ok :: "(u64 \<Rightarrow> HeapSegment) \<Rightarrow> u64 option list \<Rightarrow> u64 list \<Rightarrow> bool" where
  "avail_ok S heads ss \<longleftrightarrow> length heads = 5 \<and>
     (\<forall>b < 5. \<exists>xs. avail_list S (heads ! b) xs \<and> set xs = slabs_of S b ss) \<and>
     (\<forall>s \<in> set ss. seg_kind (S s) = HeapSegmentSlab \<longrightarrow> seg_flags (S s) = (if seg_free_count (S s) = 0 then 0 else 1))"

text \<open>The live allocations of a segment: payload address and requested size.\<close>

definition live_in :: "HeapSegment \<Rightarrow> u64 \<Rightarrow> (u64 \<Rightarrow> HeapBlockHeader) \<Rightarrow> (u64 \<times> u64) set" where
  "live_in g s B =
     (if seg_kind g = HeapSegmentGeneral then {(the (block_list g) + 32, user_bytes g)}
      else if seg_kind g = HeapSegmentSlab
      then (\<lambda>i. (slab_header s (bin_of g) i + 32, requested_size (B (slab_header s (bin_of g) i)))) `
        {i. i < slab_blocks g (bin_of g) \<and> blk_magic (B (slab_header s (bin_of g) i)) = HeapBlockAllocatedMagic}
      else {})"

definition live :: "KernelHeap \<Rightarrow> u64 list \<Rightarrow> (u64 \<times> u64) set" where
  "live h ss = (\<Union>s \<in> set ss. live_in (segs h s) s (blocks h))"

definition pool_apart :: "PhysicalMemory \<Rightarrow> nat \<Rightarrow> nat \<Rightarrow> bool" where
  "pool_apart p a e \<longleftrightarrow>
     (\<exists>fs. pages_ok p fs \<and> unat (managed_phys_base p) + page_count_of p * 4096 \<le> 2 ^ 47 \<and>
        (\<forall>i \<in> set fs. unat (page_address p i) + unat KernelVaBase + 4096 \<le> a \<or> e \<le> unat (page_address p i) + unat KernelVaBase))"

definition heap_inv :: "KernelHeap \<Rightarrow> u64 list \<Rightarrow> bool" where
  "heap_inv h ss \<longleftrightarrow> g_heap_initialized h \<and> ss \<noteq> [] \<and> g_heap_segment_list_head h = first_of ss None \<and>
     unat KernelVaBase < unat (g_heap_start_address h) \<and> 16 dvd unat (g_heap_start_address h) \<and> unat (g_heap_end_address h) + 2 ^ 46 \<le> 2 ^ 64 \<and>
     tiling (segs h) None ss None (unat (g_heap_start_address h)) (unat (g_heap_end_address h)) \<and>
     (\<forall>s \<in> set ss. body_ok (segs h s) s (blocks h) (bytes h)) \<and>
     avail_ok (segs h) (g_small_bin_available_heads h) ss \<and>
     pool_apart (pool h) (unat (g_heap_start_address h)) (unat (g_heap_end_address h))"

abbreviation free_seg :: "(u64 \<Rightarrow> HeapSegment) \<Rightarrow> u64 \<Rightarrow> bool" where
  "free_seg S s \<equiv> seg_kind (S s) = HeapSegmentFree"

definition apart_free :: "(u64 \<Rightarrow> HeapSegment) \<Rightarrow> u64 list \<Rightarrow> bool" where
  "apart_free S ss = successively (\<lambda>s t. \<not> (free_seg S s \<and> free_seg S t)) ss"

definition heap_ok :: "KernelHeap \<Rightarrow> u64 list \<Rightarrow> bool" where
  "heap_ok h ss \<longleftrightarrow> heap_inv h ss \<and> apart_free (segs h) ss"

lemma heap_state_simps [simp]:
  "segs (set_seg h s f) = (segs h)(s := f (segs h s))" "blocks (set_seg h s f) = blocks h" "pool (set_seg h s f) = pool h"
  "g_heap_segment_list_head (set_seg h s f) = g_heap_segment_list_head h"
  "g_small_bin_available_heads (set_seg h s f) = g_small_bin_available_heads h"
  "g_heap_start_address (set_seg h s f) = g_heap_start_address h" "g_heap_end_address (set_seg h s f) = g_heap_end_address h"
  "g_heap_initialized (set_seg h s f) = g_heap_initialized h"
  "segs (set_blk h b k) = segs h" "blocks (set_blk h b k) = (blocks h)(b := k (blocks h b))" "pool (set_blk h b k) = pool h"
  "g_heap_segment_list_head (set_blk h b k) = g_heap_segment_list_head h"
  "g_small_bin_available_heads (set_blk h b k) = g_small_bin_available_heads h"
  "g_heap_start_address (set_blk h b k) = g_heap_start_address h" "g_heap_end_address (set_blk h b k) = g_heap_end_address h"
  "g_heap_initialized (set_blk h b k) = g_heap_initialized h"
  "segs (set_bytes h m) = segs h" "blocks (set_bytes h m) = blocks h"
  "g_heap_segment_list_head (set_bytes h m) = g_heap_segment_list_head h"
  "g_small_bin_available_heads (set_bytes h m) = g_small_bin_available_heads h"
  "g_heap_start_address (set_bytes h m) = g_heap_start_address h" "g_heap_end_address (set_bytes h m) = g_heap_end_address h"
  "g_heap_initialized (set_bytes h m) = g_heap_initialized h"
  "bytes (set_bytes h m) = m" "bytes (set_seg h s f) = bytes h" "bytes (set_blk h b k) = bytes h"
  "bytes (h\<lparr>segs := S\<rparr>) = bytes h" "bytes (h\<lparr>blocks := B\<rparr>) = bytes h" "bytes (h\<lparr>g_small_bin_available_heads := A\<rparr>) = bytes h"
  by (simp_all add: set_seg_def set_blk_def set_bytes_def bytes_def)

lemma pages_ok_ram [simp]: "pages_ok (p\<lparr>ram := m\<rparr>) fs = pages_ok p fs"
  by (simp add: pages_ok_def geometry_ok_def free_list_def page_count_of_def refs_def page_address_def)

lemma pool_apart_ram [simp]: "pool_apart (p\<lparr>ram := m\<rparr>) a e = pool_apart p a e"
  by (simp add: pool_apart_def page_address_def page_count_of_def)

lemma heap_inv_seg:
  assumes "heap_inv h ss" "s \<in> set ss"
  shows "unat (g_heap_start_address h) \<le> unat s" "unat s + extent (segs h) s \<le> unat (g_heap_end_address h)"
    "112 \<le> extent (segs h) s" "16 dvd extent (segs h) s" "16 dvd unat s" "seg_magic (segs h s) = HeapSegmentMagic"
    "unat s + extent (segs h) s < 2 ^ 64" "body_ok (segs h s) s (blocks h) (bytes h)" "0 < unat s"
proof -
  have t: "tiling (segs h) None ss None (unat (g_heap_start_address h)) (unat (g_heap_end_address h))"
    and a: "16 dvd unat (g_heap_start_address h)" and b: "0 < unat (g_heap_start_address h)" using assms(1) by (auto simp: heap_inv_def)
  show "unat (g_heap_start_address h) \<le> unat s" "unat s + extent (segs h) s \<le> unat (g_heap_end_address h)"
    "112 \<le> extent (segs h) s" "16 dvd extent (segs h) s" "seg_magic (segs h s) = HeapSegmentMagic"
    using tiling_range [OF t] assms(2) by auto
  then show "unat s + extent (segs h) s < 2 ^ 64" using unat_u64_less [of "g_heap_end_address h"] by simp
  show "16 dvd unat s" by (rule tiling_aligned [OF t a assms(2)])
  show "body_ok (segs h s) s (blocks h) (bytes h)" using assms by (auto simp: heap_inv_def)
  show "0 < unat s" using \<open>unat (g_heap_start_address h) \<le> unat s\<close> b by linarith
qed

lemma heap_inv_tiling:
  "heap_inv h ss \<Longrightarrow> tiling (segs h) None ss None (unat (g_heap_start_address h)) (unat (g_heap_end_address h))"
  by (simp add: heap_inv_def)

section \<open>Reshaping the free segments\<close>

definition unlinked :: "HeapSegment \<Rightarrow> HeapSegment" where
  "unlinked g = g\<lparr>seg_next := None, seg_prev := None\<rparr>"

lemma unlinked_fields:
  assumes "unlinked g' = unlinked g"
  shows "inner g' = inner g" "available_next g' = available_next g" "available_prev g' = available_prev g"
    "seg_flags g' = seg_flags g" "seg_kind g' = seg_kind g" "total_size g' = total_size g"
proof -
  note a = arg_cong [OF assms]
  show "inner g' = inner g"
    using a [of "\<lambda>g. g\<lparr>available_next := None, available_prev := None, seg_flags := 0\<rparr>"] by (simp add: unlinked_def inner_def)
  show "available_next g' = available_next g" "available_prev g' = available_prev g"
    "seg_flags g' = seg_flags g" "seg_kind g' = seg_kind g" "total_size g' = total_size g"
    using a [of available_next] a [of available_prev] a [of seg_flags] a [of seg_kind] a [of total_size]
    by (simp_all add: unlinked_def)
qed

definition busy :: "(u64 \<Rightarrow> HeapSegment) \<Rightarrow> u64 list \<Rightarrow> u64 set" where
  "busy S ss = {s \<in> set ss. \<not> free_seg S s}"

definition reshape :: "(u64 \<Rightarrow> HeapSegment) \<Rightarrow> u64 list \<Rightarrow> (u64 \<Rightarrow> HeapSegment) \<Rightarrow> u64 list \<Rightarrow> bool" where
  "reshape S ss S' ss' \<longleftrightarrow> busy S' ss' = busy S ss \<and> (\<forall>s \<in> busy S ss. unlinked (S' s) = unlinked (S s))"

lemma reshape_refl: "reshape S ss S ss"
  by (simp add: reshape_def)

lemma reshape_trans: "reshape S ss S1 ss1 \<Longrightarrow> reshape S1 ss1 S2 ss2 \<Longrightarrow> reshape S ss S2 ss2"
  by (auto simp: reshape_def)

lemma avail_ok_cong:
  assumes ok: "avail_ok S heads ss"
    and sl: "{s \<in> set ss'. seg_kind (S' s) = HeapSegmentSlab} = {s \<in> set ss. seg_kind (S s) = HeapSegmentSlab}"
    and eq: "\<And>s. s \<in> set ss \<Longrightarrow> seg_kind (S s) = HeapSegmentSlab \<Longrightarrow>
      available_next (S' s) = available_next (S s) \<and> available_prev (S' s) = available_prev (S s) \<and>
      seg_flags (S' s) = seg_flags (S s) \<and> seg_bin_index (S' s) = seg_bin_index (S s) \<and>
      seg_free_count (S' s) = seg_free_count (S s)"
  shows "avail_ok S' heads ss'"
proof -
  have m: "s \<in> set ss' \<and> seg_kind (S' s) = HeapSegmentSlab \<longleftrightarrow> s \<in> set ss \<and> seg_kind (S s) = HeapSegmentSlab" for s
    using sl by blast
  have so: "slabs_of S' b ss' = slabs_of S b ss" for b
    unfolding slabs_of_def using m eq by (metis (no_types, lifting))
  have "avail_list S' f xs = avail_list S f xs" if "set xs = slabs_of S b ss" for f xs b
    by (rule dll_cong) (use that eq in \<open>auto simp: slabs_of_def\<close>)
  then show ?thesis using ok m eq unfolding avail_ok_def so by (metis (no_types, lifting))
qed

lemma reshape_avail:
  assumes "avail_ok S heads ss" "reshape S ss S' ss'"
  shows "avail_ok S' heads ss'"
proof (rule avail_ok_cong [OF assms(1)])
  have b: "busy S' ss' = busy S ss" and u: "\<And>s. s \<in> busy S ss \<Longrightarrow> unlinked (S' s) = unlinked (S s)"
    using assms(2) by (auto simp: reshape_def)
  have e: "{s \<in> set ss. seg_kind (S s) = HeapSegmentSlab} = {s \<in> busy S ss. seg_kind (S s) = HeapSegmentSlab}" for S :: "u64 \<Rightarrow> HeapSegment" and ss
    by (auto simp: busy_def)
  show "{s \<in> set ss'. seg_kind (S' s) = HeapSegmentSlab} = {s \<in> set ss. seg_kind (S s) = HeapSegmentSlab}"
    unfolding e b using unlinked_fields(5) [OF u] by auto
  fix s assume "s \<in> set ss" "seg_kind (S s) = HeapSegmentSlab"
  then have "s \<in> busy S ss" by (simp add: busy_def)
  note f = unlinked_fields [OF u [OF this]]
  show "available_next (S' s) = available_next (S s) \<and> available_prev (S' s) = available_prev (S s) \<and>
      seg_flags (S' s) = seg_flags (S s) \<and> seg_bin_index (S' s) = seg_bin_index (S s) \<and>
      seg_free_count (S' s) = seg_free_count (S s)"
    using f inner_fields [OF f(1)] by simp
qed

lemma live_busy: "live h ss = (\<Union>s \<in> busy (segs h) ss. live_in (segs h s) s (blocks h))"
  by (auto simp: live_def busy_def live_in_def)

lemma live_in_cong:
  assumes "inner g' = inner g" shows "live_in g' s B = live_in g s B"
  by (simp add: live_in_def slab_blocks_def inner_fields [OF assms])

lemma reshape_live:
  assumes "reshape (segs h) ss S' ss'" shows "live (h\<lparr>segs := S'\<rparr>) ss' = live h ss"
proof -
  have b: "busy S' ss' = busy (segs h) ss" and u: "\<And>s. s \<in> busy (segs h) ss \<Longrightarrow> unlinked (S' s) = unlinked (segs h s)"
    using assms by (auto simp: reshape_def)
  have "live_in (S' s) s (blocks h) = live_in (segs h s) s (blocks h)" if "s \<in> busy (segs h) ss" for s
    by (rule live_in_cong [OF unlinked_fields(1) [OF u [OF that]]])
  then show ?thesis by (simp add: live_busy b)
qed

lemma reshape_body:
  assumes "\<forall>s \<in> set ss. body_ok (S s) s B M" "\<And>s. s \<in> set ss \<Longrightarrow> unat s + extent S s < 2 ^ 64" "reshape S ss S' ss'"
  shows "\<forall>s \<in> set ss'. body_ok (S' s) s B M"
proof
  fix s assume s: "s \<in> set ss'"
  show "body_ok (S' s) s B M"
  proof (cases "free_seg S' s")
    case False
    then have "s \<in> busy S ss" using s assms(3) by (auto simp: reshape_def busy_def)
    then have u: "unlinked (S' s) = unlinked (S s)" and m: "s \<in> set ss" using assms(3) by (auto simp: reshape_def busy_def)
    show ?thesis
      by (rule body_ok_frame [OF _ unlinked_fields(1) [OF u] assms(2) [OF m]]) (use assms(1) m in auto)
  qed (simp add: body_ok_def)
qed

lemma reshape_inv:
  assumes inv: "heap_inv h ss" and r: "reshape (segs h) ss S' ss'"
    and t: "tiling S' None ss' None (unat (g_heap_start_address h)) (unat (g_heap_end_address h))"
    and f: "first_of ss' None = first_of ss None"
  shows "heap_inv (h\<lparr>segs := S'\<rparr>) ss'"
  using inv t f reshape_avail [OF _ r] reshape_body [OF _ heap_inv_seg(7) [OF inv] r]
  by (auto simp: heap_inv_def dest: sym)

end
