(* ===== verification/Kernel_Heap_Chain.thy ===== *)
theory Kernel_Heap_Chain
  imports Kernel_Heap_Inv
begin

unbundle bit_operations_syntax

text \<open>
  The operations on the segment chain: splitting a free segment in front or at the back, merging free
  neighbours, appending grown pages, and the searches along the chain. Each is shown to return, to keep
  the invariant and the live allocations.
\<close>

section \<open>Splitting\<close>

definition free_record :: "u64 \<Rightarrow> u64 option \<Rightarrow> u64 option \<Rightarrow> HeapSegment" where
  "free_record sz n p = zero_segment\<lparr>seg_magic := HeapSegmentMagic, seg_kind := HeapSegmentFree,
     seg_bin_index := HeapInvalidBinIndex, total_size := sz, seg_next := n, seg_prev := p\<rparr>"

lemma free_record_fields [simp]:
  "seg_magic (free_record sz n p) = HeapSegmentMagic" "seg_kind (free_record sz n p) = HeapSegmentFree"
  "total_size (free_record sz n p) = sz" "seg_next (free_record sz n p) = n" "seg_prev (free_record sz n p) = p"
  by (simp_all add: free_record_def)

definition cut :: "(u64 \<Rightarrow> HeapSegment) \<Rightarrow> u64 \<Rightarrow> u64 \<Rightarrow> u64 \<Rightarrow> HeapSegment" where
  "cut S s n =
     (\<lambda>t. if t = s then (S s)\<lparr>total_size := n, seg_next := Some (s + n)\<rparr>
          else if t = s + n then free_record (total_size (S s) - n) (seg_next (S s)) (Some s)
          else if seg_next (S s) = Some t then (S t)\<lparr>seg_prev := Some (s + n)\<rparr>
          else S t)"

lemma chain_neighbour:
  assumes "tiling S p (xs @ s # ys) q a e" "e < 2 ^ 64"
  shows "seg_next (S s) = first_of ys q" "seg_prev (S s) = last_of p xs" "unat s + extent S s \<le> e" "112 \<le> extent S s"
    "16 dvd extent S s"
  using assms tiling_range [OF assms(1)] by (auto simp: tiling_append)

lemma cut_point:
  assumes "tiling S p (xs @ s # ys) None a e" "e < 2 ^ 64" "0 < unat n" "unat n < extent S s"
  shows "unat (s + n) = unat s + unat n" "s + n \<noteq> s" "s + n \<notin> set (xs @ s # ys)" "seg_next (S s) \<noteq> Some s"
    "seg_next (S s) \<noteq> Some (s + n)" "unat (total_size (S s) - n) = extent S s - unat n"
proof -
  note nb = chain_neighbour [OF assms(1,2)]
  show u: "unat (s + n) = unat s + unat n" using nb(3) assms(2,4) by (intro unat_plus_word) linarith
  show "s + n \<noteq> s" using u assms(3) by auto
  show out: "s + n \<notin> set (xs @ s # ys)"
    using tiling_inside [OF assms(1), of s "unat s + unat n"] u assms(3,4) by auto
  have "distinct (xs @ s # ys)" by (rule tiling_distinct [OF assms(1)])
  then show "seg_next (S s) \<noteq> Some s" "seg_next (S s) \<noteq> Some (s + n)" using nb(1) out by (cases ys, auto)+
  show "unat (total_size (S s) - n) = extent S s - unat n"
    using assms(4) by (simp add: unat_sub word_le_nat_alt)
qed

text \<open>Operations that write segment headers only.\<close>

definition headers_only :: "KernelHeap \<Rightarrow> KernelHeap \<Rightarrow> bool" where
  "headers_only h h' \<longleftrightarrow> h' = h\<lparr>segs := segs h'\<rparr>"

lemma headers_only_intros:
  "headers_only h h" "headers_only h h' \<Longrightarrow> headers_only h (set_seg h' s f)"
  "headers_only h h' \<Longrightarrow> headers_only h (set_seg_prev h' n p)" "headers_only h h' \<Longrightarrow> headers_only h (heap_mark_segment_free h' s sz)"
  "headers_only h h' \<Longrightarrow> headers_only h (heap_mark_segment_allocated h' s k b)"
proof -
  show 1: "headers_only h h' \<Longrightarrow> headers_only h (set_seg h' s f)" for h' s f
    unfolding headers_only_def set_seg_def by (drule arg_cong [where f = "segs_update (\<lambda>_. (segs h')(s := f (segs h' s)))"]) simp
  show "headers_only h h" by (simp add: headers_only_def)
  assume "headers_only h h'"
  then show "headers_only h (set_seg_prev h' n p)" "headers_only h (heap_mark_segment_free h' s sz)"
    "headers_only h (heap_mark_segment_allocated h' s k b)"
    by (auto simp: set_seg_prev_def heap_mark_segment_free_def heap_mark_segment_allocated_def intro: 1 split: option.split)
qed

lemma headers_onlyD: "headers_only h h' \<Longrightarrow> segs h' = S \<Longrightarrow> h' = h\<lparr>segs := S\<rparr>"
  by (simp add: headers_only_def)

lemma segs_mark_free [simp]:
  "segs (heap_mark_segment_free h s sz) = (segs h)(s := free_record sz (seg_next (segs h s)) (seg_prev (segs h s)))"
  by (simp add: heap_mark_segment_free_def free_record_def)

lemma segs_set_seg_prev [simp]:
  "segs (set_seg_prev h None p) = segs h" "segs (set_seg_prev h (Some x) p) = (segs h)(x := (segs h x)\<lparr>seg_prev := Some p\<rparr>)"
  by (simp_all add: set_seg_prev_def)

lemma free_record_updates [simp]:
  "(free_record sz n p)\<lparr>seg_next := n'\<rparr> = free_record sz n' p" "(free_record sz n p)\<lparr>seg_prev := p'\<rparr> = free_record sz n p'"
  "(free_record sz n p)\<lparr>total_size := z\<rparr> = free_record z n p"
  by (simp_all add: free_record_def)

lemma split_tail_eq:
  assumes "tiling (segs h) p (xs @ s # ys) None a e" "e < 2 ^ 64" "0 < unat n" "unat n + 112 \<le> extent (segs h) s"
  shows "heap_split_segment_tail h s n = h\<lparr>segs := cut (segs h) s n\<rparr>"
proof -
  have z: "unat n < extent (segs h) s" using assms(4) by simp
  note c = cut_point [OF assms(1-3) z]
  have lt: "n < total_size (segs h s)" "\<not> total_size (segs h s) - n < 112"
    using assms(4) c(6) by (simp_all add: word_less_nat_alt)
  have ho: "headers_only h (heap_split_segment_tail h s n)"
    by (simp add: heap_split_segment_tail_def Let_def headers_only_intros)
  have "segs (heap_split_segment_tail h s n) t = cut (segs h) s n t" for t
  proof (cases "seg_next (segs h s)")
    case None
    then show ?thesis using c(2) lt by (simp add: heap_split_segment_tail_def cut_def Let_def)
  next
    case (Some x)
    then have "x \<noteq> s" "x \<noteq> s + n" using c(4,5) by auto
    then show ?thesis using c(2) lt Some by (simp add: heap_split_segment_tail_def cut_def Let_def)
  qed
  then show ?thesis by (intro headers_onlyD [OF ho] ext)
qed

lemma split_tail_small: "extent (segs h) s < unat n + 112 \<Longrightarrow> heap_split_segment_tail h s n = h"
  by (auto simp: heap_split_segment_tail_def Let_def word_le_nat_alt word_less_nat_alt unat_sub)

lemma split_prefix_eq:
  assumes "tiling (segs h) p (xs @ s # ys) None a e" "e < 2 ^ 64" "112 \<le> unat n" "unat n < extent (segs h) s"
    "free_seg (segs h) s"
  shows "heap_split_segment_prefix h s n =
    (s + n, h\<lparr>segs := (cut (segs h) s n)(s := free_record n (Some (s + n)) (seg_prev (segs h s)))\<rparr>)"
proof -
  have z: "0 < unat n" using assms(3) by simp
  note c = cut_point [OF assms(1,2) z assms(4)]
  let ?S = "(cut (segs h) s n)(s := free_record n (Some (s + n)) (seg_prev (segs h s)))"
  have g: "\<not> n < 112" "\<not> total_size (segs h s) \<le> n" using assms(3,4) by (simp_all add: word_le_nat_alt word_less_nat_alt)
  have ho: "headers_only h (snd (heap_split_segment_prefix h s n))"
    by (simp add: heap_split_segment_prefix_def Let_def headers_only_intros)
  have "segs (snd (heap_split_segment_prefix h s n)) t = ?S t" for t
  proof (cases "seg_next (segs h s)")
    case None
    then show ?thesis using c(2) g assms(5) by (simp add: heap_split_segment_prefix_def cut_def Let_def)
  next
    case (Some x)
    then have "x \<noteq> s" "x \<noteq> s + n" using c(4,5) by auto
    then show ?thesis using c(2) g assms(5) Some by (simp add: heap_split_segment_prefix_def cut_def Let_def)
  qed
  then have "snd (heap_split_segment_prefix h s n) = h\<lparr>segs := ?S\<rparr>" by (intro headers_onlyD [OF ho] ext)
  moreover have "fst (heap_split_segment_prefix h s n) = s + n"
    using g assms(5) by (simp add: heap_split_segment_prefix_def Let_def)
  ultimately show ?thesis by (simp add: prod_eq_iff)
qed

text \<open>The two halves tile what the segment tiled, whatever the front half has become.\<close>

lemma cut_tiling:
  assumes t: "tiling S p (xs @ s # ys) None a e" and e: "e < 2 ^ 64" and n: "112 \<le> unat n" "16 dvd unat n"
    "unat n + 112 \<le> extent S s"
    and g: "seg_magic g = HeapSegmentMagic" "total_size g = n" "seg_next g = Some (s + n)" "seg_prev g = seg_prev (S s)"
  shows "tiling ((cut S s n)(s := g)) p (xs @ s # (s + n) # ys) None a e"
proof -
  have z: "0 < unat n" "unat n < extent S s" using n by auto
  note c = cut_point [OF t e z]
  note nb = chain_neighbour [OF t e]
  have d: "distinct (xs @ s # ys)" by (rule tiling_distinct [OF t])
  have "tiling ((cut S s n)(s := g)) p (xs @ [s, s + n] @ ys) None a e"
  proof (rule tiling_middle [of S p xs "[s]" ys])
    show "tiling S p (xs @ [s] @ ys) None a e" using t by simp
    fix t assume "t \<in> set xs"
    then show "((cut S s n)(s := g)) t = S t" using c(3) d nb(1) by (cases ys) (auto simp: cut_def)
  next
    fix t assume "t \<in> set ys"
    then show "((cut S s n)(s := g)) t =
        (if first_of ys None = Some t then (S t)\<lparr>seg_prev := Some (last [s, s + n])\<rparr> else S t)"
      using c(2,3) d nb(1) by (auto simp: cut_def)
  next
    fix b c' assume m: "tiling S (last_of p xs) [s] (first_of ys None) b c'"
    have "16 dvd extent S s - unat n" using m n by (intro dvd_diff_nat) auto
    then show "tiling ((cut S s n)(s := g)) (last_of p xs) [s, s + n] (first_of ys None) b c'"
      using m c n g by (auto simp: cut_def)
  qed (use c(2) in simp_all)
  then show ?thesis by simp
qed

lemma reshapeI:
  assumes "\<And>x. x \<in> set ss \<Longrightarrow> \<not> free_seg S x \<Longrightarrow> x \<in> set ss' \<and> unlinked (S' x) = unlinked (S x)"
    and "\<And>x. x \<in> set ss' \<Longrightarrow> \<not> free_seg S' x \<Longrightarrow> x \<in> set ss \<and> \<not> free_seg S x"
  shows "reshape S ss S' ss'"
proof -
  have "\<not> free_seg S' x" if "x \<in> set ss" "\<not> free_seg S x" for x
    using assms(1) [OF that] unlinked_fields(5) [of "S' x" "S x"] that by simp
  then show ?thesis using assms by (auto simp: reshape_def busy_def)
qed

lemma cut_reshape:
  assumes t: "tiling S p (xs @ s # ys) None a e" and e: "e < 2 ^ 64" and n: "0 < unat n" "unat n < extent S s"
    and s: "free_seg S s" and g: "seg_kind g = HeapSegmentFree"
  shows "reshape S (xs @ s # ys) ((cut S s n)(s := g)) (xs @ s # (s + n) # ys)"
proof -
  note c = cut_point [OF t e n]
  have d: "distinct (xs @ s # ys)" by (rule tiling_distinct [OF t])
  let ?S = "(cut S s n)(s := g)"
  have o: "unlinked (?S x) = unlinked (S x)" if "x \<in> set xs \<union> set ys" for x
    using that d c(3) by (auto simp: cut_def unlinked_def)
  have f: "free_seg ?S (s + n)" "free_seg ?S s" using c(2) g by (simp_all add: cut_def)
  show ?thesis
  proof (rule reshapeI)
    fix x assume "x \<in> set (xs @ s # ys)" "\<not> free_seg S x"
    then show "x \<in> set (xs @ s # (s + n) # ys) \<and> unlinked (?S x) = unlinked (S x)" using o [of x] s by auto
  next
    fix x assume x: "x \<in> set (xs @ s # (s + n) # ys)" "\<not> free_seg ?S x"
    then have m: "x \<in> set xs \<union> set ys" using f by (metis Un_iff set_ConsD set_append)
    then show "x \<in> set (xs @ s # ys) \<and> \<not> free_seg S x" using x(2) unlinked_fields(5) [OF o [OF m]] by auto
  qed
qed

section \<open>Merging\<close>

definition fuse :: "(u64 \<Rightarrow> HeapSegment) \<Rightarrow> u64 \<Rightarrow> u64 \<Rightarrow> u64 \<Rightarrow> HeapSegment" where
  "fuse S s r =
     (\<lambda>t. if t = s then (S s)\<lparr>total_size := total_size (S s) + total_size (S r), seg_next := seg_next (S r)\<rparr>
          else if seg_next (S r) = Some t then (S t)\<lparr>seg_prev := Some s\<rparr>
          else S t)"

lemma join_eq:
  assumes "seg_next (segs h r) \<noteq> Some s" "s \<noteq> r"
  shows "set_seg_prev (set_seg (set_seg h s (\<lambda>g. g\<lparr>total_size := total_size g + total_size (segs h r)\<rparr>)) s
      (\<lambda>g. g\<lparr>seg_next := seg_next (segs h r)\<rparr>)) (seg_next (segs h r)) s = h\<lparr>segs := fuse (segs h) s r\<rparr>" (is "?h = _")
proof -
  have ho: "headers_only h ?h" by (simp add: headers_only_intros)
  have "segs ?h t = fuse (segs h) s r t" for t
    using assms by (cases "seg_next (segs h r)") (auto simp: fuse_def)
  then show ?thesis by (intro headers_onlyD [OF ho] ext)
qed

lemma join_facts:
  assumes t: "tiling S p (xs @ s # r # ys) None a e" and e: "e < 2 ^ 64"
  shows "seg_next (S r) = first_of ys None" "seg_prev (S r) = Some s" "seg_next (S s) = Some r"
    "seg_prev (S s) = last_of p xs" "s \<noteq> r" "seg_next (S r) \<noteq> Some s"
    "unat (total_size (S s) + total_size (S r)) = extent S s + extent S r"
    "unat s + extent S s + extent S r \<le> e"
proof -
  note n = chain_neighbour [of S p "xs @ [s]" r ys None a e] chain_neighbour [OF t e]
  have d: "distinct (xs @ s # r # ys)" by (rule tiling_distinct [OF t])
  show f: "seg_next (S r) = first_of ys None" "seg_prev (S r) = Some s" "seg_next (S s) = Some r"
    "seg_prev (S s) = last_of p xs" using n t e by simp_all
  show "s \<noteq> r" "seg_next (S r) \<noteq> Some s" using d f by (cases ys; auto)+
  have "unat r = unat s + extent S s" using t by (auto simp: tiling_append)
  then show u: "unat s + extent S s + extent S r \<le> e" using n t e by simp
  show "unat (total_size (S s) + total_size (S r)) = extent S s + extent S r"
    using u e by (intro unat_plus_word) linarith
qed

lemma join_tiling:
  assumes t: "tiling S p (xs @ s # r # ys) None a e" and e: "e < 2 ^ 64"
  shows "tiling (fuse S s r) p (xs @ s # ys) None a e"
proof -
  note j = join_facts [OF t e]
  have d: "distinct (xs @ s # r # ys)" by (rule tiling_distinct [OF t])
  have "tiling (fuse S s r) p (xs @ [s] @ ys) None a e"
  proof (rule tiling_middle [of S p xs "[s, r]" ys])
    show "tiling S p (xs @ [s, r] @ ys) None a e" using t by simp
    fix t assume "t \<in> set xs"
    then show "fuse S s r t = S t" using d j(1) by (cases ys) (auto simp: fuse_def)
  next
    fix t assume "t \<in> set ys"
    then show "fuse S s r t = (if first_of ys None = Some t then (S t)\<lparr>seg_prev := Some (last [s])\<rparr> else S t)"
      using d j(1) by (auto simp: fuse_def)
  next
    fix b c assume "tiling S (last_of p xs) [s, r] (first_of ys None) b c"
    then show "tiling (fuse S s r) (last_of p xs) [s] (first_of ys None) b c"
      using j by (auto simp: fuse_def)
  qed simp_all
  then show ?thesis by simp
qed

lemma join_reshape:
  assumes t: "tiling S p (xs @ s # r # ys) None a e" and e: "e < 2 ^ 64" and f: "free_seg S s" "free_seg S r"
  shows "reshape S (xs @ s # r # ys) (fuse S s r) (xs @ s # ys)"
proof -
  have o: "unlinked (fuse S s r x) = unlinked (S x)" if "x \<noteq> s" for x
    using that by (simp add: fuse_def unlinked_def)
  have js: "free_seg (fuse S s r) s" using f by (simp add: fuse_def)
  show ?thesis
  proof (rule reshapeI)
    fix x assume "x \<in> set (xs @ s # r # ys)" "\<not> free_seg S x"
    then show "x \<in> set (xs @ s # ys) \<and> unlinked (fuse S s r x) = unlinked (S x)" using o [of x] f by auto
  next
    fix x assume x: "x \<in> set (xs @ s # ys)" "\<not> free_seg (fuse S s r) x"
    then have "x \<noteq> s" using js by auto
    then show "x \<in> set (xs @ s # r # ys) \<and> \<not> free_seg S x" using x unlinked_fields(5) [OF o] by auto
  qed
qed

lemma kind_join [simp]: "seg_kind (fuse S s r x) = seg_kind (S x)"
  by (simp add: fuse_def)

lemma apart_free_cong: "(\<And>x. x \<in> set ss \<Longrightarrow> seg_kind (S' x) = seg_kind (S x)) \<Longrightarrow> apart_free S' ss = apart_free S ss"
  unfolding apart_free_def by (rule successively_cong) auto

lemma apart_free_join [simp]: "apart_free (fuse S s r) ss = apart_free S ss"
  by (rule apart_free_cong) simp

lemma apart_free_Nil [simp]: "apart_free S []" "apart_free S [x]"
  by (simp_all add: apart_free_def)

lemma apart_free_append:
  "apart_free S (xs @ ys) \<longleftrightarrow> apart_free S xs \<and> apart_free S ys \<and>
     (xs = [] \<or> ys = [] \<or> \<not> (free_seg S (last xs) \<and> free_seg S (hd ys)))"
  by (simp add: apart_free_def successively_append_iff)

lemma apart_free_Cons:
  "apart_free S (x # ys) \<longleftrightarrow> apart_free S ys \<and> (ys = [] \<or> \<not> (free_seg S x \<and> free_seg S (hd ys)))"
  by (cases ys) (auto simp: apart_free_def)

lemma coalesce_left_stop:
  "(\<And>l. seg_prev (segs h s) = Some l \<Longrightarrow> \<not> free_seg (segs h) l) \<Longrightarrow> coalesce_left h s = Some (s, h)"
  by (subst coalesce_left.simps) (auto split: option.split)

lemma coalesce_right_stop:
  "(\<And>l. seg_next (segs h s) = Some l \<Longrightarrow> \<not> free_seg (segs h) l) \<Longrightarrow> coalesce_right h s = Some (s, h)"
  by (subst coalesce_right.simps) (auto split: option.split)

lemma coalesce_left_step:
  assumes "tiling (segs h) p (xs @ l # s # ys) None a e" "e < 2 ^ 64" "free_seg (segs h) l"
  shows "coalesce_left h s = coalesce_left (h\<lparr>segs := fuse (segs h) l s\<rparr>) l"
proof -
  note j = join_facts [OF assms(1,2)]
  show ?thesis
    by (subst coalesce_left.simps) (simp only: j(2) option.case assms(3) simp_thms if_False Let_def join_eq [OF j(6,5)])
qed

lemma coalesce_right_step:
  assumes "tiling (segs h) p (xs @ s # r # ys) None a e" "e < 2 ^ 64" "free_seg (segs h) r"
  shows "coalesce_right h s = coalesce_right (h\<lparr>segs := fuse (segs h) s r\<rparr>) s"
proof -
  note j = join_facts [OF assms(1,2)]
  show ?thesis
    by (subst coalesce_right.simps) (simp only: j(3) option.case assms(3) simp_thms if_False Let_def join_eq [OF j(6,5)])
qed

lemma coalesce_right_ok:
  assumes t: "tiling (segs h) p (xs @ s # ys) None a e" and e: "e < 2 ^ 64" and f: "free_seg (segs h) s"
    and ap: "apart_free (segs h) (xs @ [s])" "apart_free (segs h) ys"
  shows "\<exists>S' ys'. coalesce_right h s = Some (s, h\<lparr>segs := S'\<rparr>) \<and> tiling S' p (xs @ s # ys') None a e \<and>
    reshape (segs h) (xs @ s # ys) S' (xs @ s # ys') \<and> apart_free S' (xs @ s # ys')"
proof (cases "ys \<noteq> [] \<and> free_seg (segs h) (hd ys)")
  case True
  then obtain r zs where y: "ys = r # zs" and r: "free_seg (segs h) r" by (cases ys) auto
  note t1 = t [unfolded y]
  note j = join_facts [OF t1 e]
  note jt = join_tiling [OF t1 e]
  let ?S = "fuse (segs h) s r"
  have nf: "zs = [] \<or> \<not> free_seg (segs h) (hd zs)" using ap(2) r y by (auto simp: apart_free_Cons)
  have "coalesce_right (h\<lparr>segs := ?S\<rparr>) s = Some (s, h\<lparr>segs := ?S\<rparr>)"
    by (rule coalesce_right_stop) (use chain_neighbour(1) [OF jt e] nf in \<open>cases zs, auto\<close>)
  then have "coalesce_right h s = Some (s, h\<lparr>segs := ?S\<rparr>)" using coalesce_right_step [OF t1 e r] by simp
  moreover have "apart_free ?S (xs @ s # zs)"
    using ap nf y by (auto simp: apart_free_append apart_free_Cons)
  ultimately show ?thesis using jt join_reshape [OF t1 e f r] y by blast
next
  case False
  have "coalesce_right h s = Some (s, h)"
    by (rule coalesce_right_stop) (use chain_neighbour(1) [OF t e] False in \<open>cases ys, auto\<close>)
  moreover have "apart_free (segs h) (xs @ s # ys)"
    using ap False by (auto simp: apart_free_append apart_free_Cons)
  ultimately show ?thesis using t reshape_refl by (intro exI [of _ "segs h"] exI [of _ ys]) simp
qed

lemma coalesce_ok:
  assumes t: "tiling (segs h) p (xs @ s # ys) None a e" and e: "e < 2 ^ 64" and f: "free_seg (segs h) s"
    and p: "p = None" and ap: "apart_free (segs h) xs" "apart_free (segs h) ys"
  shows "\<exists>s' S' ss'. heap_coalesce_free_segment h s = Some (s', h\<lparr>segs := S'\<rparr>) \<and> tiling S' p ss' None a e \<and>
    reshape (segs h) (xs @ s # ys) S' ss' \<and> apart_free S' ss'"
proof (cases "xs \<noteq> [] \<and> free_seg (segs h) (last xs)")
  case True
  then obtain ws l where x: "xs = ws @ [l]" and l: "free_seg (segs h) l" by (cases xs rule: rev_cases) auto
  have t1: "tiling (segs h) p (ws @ l # s # ys) None a e" using t x by simp
  note jt = join_tiling [OF t1 e]
  let ?h = "h\<lparr>segs := fuse (segs h) l s\<rparr>"
  have nf: "ws = [] \<or> \<not> free_seg (segs h) (last ws)" using ap(1) l x by (auto simp: apart_free_append)
  have "coalesce_left ?h l = Some (l, ?h)"
    by (rule coalesce_left_stop) (use chain_neighbour(2) [OF jt e] nf p in \<open>auto simp: last_of_def split: if_splits\<close>)
  then have c: "coalesce_left h s = Some (l, ?h)" using coalesce_left_step [OF t1 e l] by simp
  have "\<exists>S' ys'. coalesce_right ?h l = Some (l, ?h\<lparr>segs := S'\<rparr>) \<and> tiling S' p (ws @ l # ys') None a e \<and>
    reshape (segs ?h) (ws @ l # ys) S' (ws @ l # ys') \<and> apart_free S' (ws @ l # ys')"
    by (rule coalesce_right_ok) (use jt e l ap x in \<open>auto simp: apart_free_append apart_free_Cons\<close>)
  then obtain S' ys' where r: "coalesce_right ?h l = Some (l, h\<lparr>segs := S'\<rparr>)" "tiling S' p (ws @ l # ys') None a e"
    "reshape (fuse (segs h) l s) (ws @ l # ys) S' (ws @ l # ys')" "apart_free S' (ws @ l # ys')" by auto
  have "reshape (segs h) (xs @ s # ys) S' (ws @ l # ys')"
    using reshape_trans [OF join_reshape [OF t1 e l f] r(3)] x by simp
  then show ?thesis using c r f by (auto simp: heap_coalesce_free_segment_def)
next
  case False
  have c: "coalesce_left h s = Some (s, h)"
    by (rule coalesce_left_stop) (use chain_neighbour(2) [OF t e] False p in \<open>auto simp: last_of_def split: if_splits\<close>)
  have "apart_free (segs h) (xs @ [s])" using ap False by (auto simp: apart_free_append apart_free_Cons)
  from coalesce_right_ok [OF t e f this ap(2)] show ?thesis
    using c f by (auto simp: heap_coalesce_free_segment_def)
qed

text \<open>Merging in a heap that is well formed but for free neighbours of \<open>s\<close>.\<close>

lemma heap_end_less: "unat (g_heap_end_address h) < 2 ^ 64"
  using unat_u64_less [of "g_heap_end_address h"] by simp

lemma tiling_first:
  assumes "tiling S p xs q a e" "tiling S' p' ys q' a e" "a < e"
  shows "first_of xs None = first_of ys None"
proof -
  obtain x xs' y ys' where e: "xs = x # xs'" "ys = y # ys'" using assms by (cases xs; cases ys) auto
  then have "unat x = unat y" using assms by simp
  then have "x = y" by (simp add: word_unat_eq_iff)
  then show ?thesis using e by simp
qed

lemma coalesce_heap:
  assumes inv: "heap_inv h (xs @ s # ys)" and f: "free_seg (segs h) s"
    and ap: "apart_free (segs h) xs" "apart_free (segs h) ys"
  shows "\<exists>s' h' ss'. heap_coalesce_free_segment h s = Some (s', h') \<and> heap_ok h' ss' \<and> live h' ss' = live h (xs @ s # ys) \<and>
    headers_only h h' \<and> reshape (segs h) (xs @ s # ys) (segs h') ss'"
proof -
  note t = heap_inv_tiling [OF inv]
  from coalesce_ok [OF t heap_end_less f refl ap] obtain s' S' ss' where
    c: "heap_coalesce_free_segment h s = Some (s', h\<lparr>segs := S'\<rparr>)"
    and t': "tiling S' None ss' None (unat (g_heap_start_address h)) (unat (g_heap_end_address h))"
    and r: "reshape (segs h) (xs @ s # ys) S' ss'" and ap': "apart_free S' ss'" by blast
  have ne: "unat (g_heap_start_address h) < unat (g_heap_end_address h)"
    using heap_inv_seg(1-3) [OF inv, of s] by simp
  have "first_of ss' None = first_of (xs @ s # ys) None" using tiling_first [OF t' t ne] .
  from reshape_inv [OF inv r t' this] reshape_live [OF r] c ap' r show ?thesis
    by (intro exI [of _ s'] exI [of _ "h\<lparr>segs := S'\<rparr>"] exI [of _ ss']) (simp add: heap_ok_def headers_only_def)
qed


section \<open>Changing one segment\<close>

definition local_update :: "KernelHeap \<Rightarrow> KernelHeap \<Rightarrow> u64 \<Rightarrow> bool" where
  "local_update h h' s \<longleftrightarrow>
     (\<forall>x. unat x < unat s + 96 \<or> unat s + extent (segs h) s \<le> unat x \<longrightarrow> blocks h' x = blocks h x \<and> bytes h' x = bytes h x) \<and>
     g_heap_segment_list_head h' = g_heap_segment_list_head h \<and> g_heap_start_address h' = g_heap_start_address h \<and>
     g_heap_end_address h' = g_heap_end_address h \<and> g_heap_initialized h' = g_heap_initialized h \<and>
     (\<exists>r. pool h' = (pool h)\<lparr>ram := r\<rparr>)"

definition live_others :: "KernelHeap \<Rightarrow> u64 list \<Rightarrow> u64 \<Rightarrow> (u64 \<times> u64) set" where
  "live_others h ss s = (\<Union>t \<in> set ss - {s}. live_in (segs h t) t (blocks h))"

lemma live_split: "s \<in> set ss \<Longrightarrow> live h ss = live_others h ss s \<union> live_in (segs h s) s (blocks h)"
  by (auto simp: live_def live_others_def)

lemma live_in_frame:
  assumes "inner g' = inner g" "body_ok g s B M" "unat s + unat (total_size g) < 2 ^ 64"
    "\<And>x. unat s + 96 \<le> unat x \<Longrightarrow> unat x < unat s + unat (total_size g) \<Longrightarrow> B' x = B x"
  shows "live_in g' s B' = live_in g s B"
proof (cases "seg_kind g = HeapSegmentSlab")
  case True
  then obtain fl where sl: "slab_ok g s B M fl" using assms(2) by (auto simp: body_ok_def)
  have b: "bin_of g < 5" "4096 \<le> unat (total_size g)" "unat (total_size g) < 4208" using sl by (auto simp: slab_ok_def)
  have B: "B' (slab_header s (bin_of g) i) = B (slab_header s (bin_of g) i)" if "i < slab_blocks g (bin_of g)" for i
    using unat_slab_header [OF b(1) that b(2,3) assms(3)] slab_stride_nat(2) [OF b(1)] by (intro assms(4)) auto
  have e: "slab_blocks g' = slab_blocks g" by (intro ext) (simp add: slab_blocks_def inner_fields [OF assms(1)])
  show ?thesis unfolding live_in_def inner_fields [OF assms(1)] e using B True by (auto intro!: image_cong)
qed (simp add: live_in_def inner_fields [OF assms(1)])

lemma update_inv:
  assumes inv: "heap_inv h ss" and s: "s \<in> set ss" and lu: "local_update h h' s"
    and i: "\<And>t. t \<in> set ss \<Longrightarrow> t \<noteq> s \<Longrightarrow> inner (segs h' t) = inner (segs h t)"
    and st: "\<And>t. t \<in> set ss \<Longrightarrow> same_tile (segs h t) (segs h' t)"
    and b: "body_ok (segs h' s) s (blocks h') (bytes h')"
    and av: "avail_ok (segs h') (g_small_bin_available_heads h') ss"
  shows "heap_inv h' ss" "live h' ss = live_others h ss s \<union> live_in (segs h' s) s (blocks h')"
proof -
  note t = heap_inv_tiling [OF inv]
  have far: "blocks h' x = blocks h x \<and> bytes h' x = bytes h x"
    if "t \<in> set ss" "t \<noteq> s" "unat t + 96 \<le> unat x" "unat x < unat t + extent (segs h) t" for t x
    using tiling_apart [OF t that(1) s that(2)] that(3,4) lu by (auto simp: local_update_def)
  have bo: "body_ok (segs h' t) t (blocks h') (bytes h')" if m: "t \<in> set ss" for t
  proof (cases "t = s")
    case False
    show ?thesis
      by (rule body_ok_frame [OF heap_inv_seg(8) [OF inv m] i [OF m False] heap_inv_seg(7) [OF inv m]])
        (use far m False in blast)
  qed (use b in simp)
  have "tiling (segs h') None ss None (unat (g_heap_start_address h)) (unat (g_heap_end_address h))"
    using t tiling_cong [OF st] by simp
  moreover have "pool_apart (pool h') a e = pool_apart (pool h) a e" for a e
    using lu by (auto simp: local_update_def)
  ultimately show "heap_inv h' ss" using inv lu bo av by (simp add: heap_inv_def local_update_def)
  have "live_in (segs h' t) t (blocks h') = live_in (segs h t) t (blocks h)" if m: "t \<in> set ss" "t \<noteq> s" for t
    by (rule live_in_frame [OF i [OF m] heap_inv_seg(8) [OF inv m(1)] heap_inv_seg(7) [OF inv m(1)]]) (use far m in blast)
  then show "live h' ss = live_others h ss s \<union> live_in (segs h' s) s (blocks h')"
    using live_split [OF s, of h'] by (auto simp: live_others_def)
qed

lemma avail_ok_other:
  assumes "avail_ok S heads ss" "seg_kind (S s) \<noteq> HeapSegmentSlab" "seg_kind g \<noteq> HeapSegmentSlab"
  shows "avail_ok (S(s := g)) heads ss"
  by (rule avail_ok_cong [OF assms(1)]) (use assms(2,3) in auto)

lemma pool_set_bytes [simp]: "pool (set_bytes h m) = (pool h)\<lparr>ram := (\<lambda>x. m (x + KernelVaBase))\<rparr>"
  by (simp add: set_bytes_def)

lemma local_update_refl [simp]: "local_update h h s"
proof -
  have "pool h = (pool h)\<lparr>ram := ram (pool h)\<rparr>" by simp
  then show ?thesis unfolding local_update_def by blast
qed

text \<open>A header store, a payload store and a segment store inside the segment are local.\<close>

lemma local_update_steps:
  assumes "local_update h h' s"
  shows "local_update h (set_seg h' t f) s" "local_update h (h'\<lparr>g_small_bin_available_heads := A\<rparr>) s"
    "unat s + 96 \<le> unat b \<Longrightarrow> unat b < unat s + extent (segs h) s \<Longrightarrow> local_update h (set_blk h' b k) s"
    "touches (bytes h') m T \<Longrightarrow> T \<subseteq> {unat s + 96..<unat s + extent (segs h) s} \<Longrightarrow> local_update h (set_bytes h' m) s"
proof -
  show "local_update h (set_seg h' t f) s" "local_update h (h'\<lparr>g_small_bin_available_heads := A\<rparr>) s"
    using assms by (simp_all add: local_update_def)
  show "unat s + 96 \<le> unat b \<Longrightarrow> unat b < unat s + extent (segs h) s \<Longrightarrow> local_update h (set_blk h' b k) s"
    using assms by (auto simp: local_update_def)
  assume a: "touches (bytes h') m T" "T \<subseteq> {unat s + 96..<unat s + extent (segs h) s}"
  have "m x = bytes h' x" if "unat x < unat s + 96 \<or> unat s + extent (segs h) s \<le> unat x" for x
    using a that by (intro touchesD [OF a(1)]) auto
  moreover have "\<exists>r. (pool h')\<lparr>ram := q\<rparr> = (pool h)\<lparr>ram := r\<rparr>" for q
    using assms by (auto simp: local_update_def)
  ultimately show "local_update h (set_bytes h' m) s" using assms by (simp add: local_update_def)
qed


section \<open>Giving a segment back\<close>

lemma heap_okD:
  assumes "heap_ok h ss" shows "heap_inv h ss" "apart_free (segs h) ss"
  using assms by (simp_all add: heap_ok_def)

lemma release_ok:
  assumes ok: "heap_ok h ss" and s: "s \<in> set ss" and lu: "local_update h h1 s"
    and f: "segs h1 s = free_record (total_size (segs h s)) (seg_next (segs h s)) (seg_prev (segs h s))"
    and i: "\<And>t. t \<in> set ss \<Longrightarrow> t \<noteq> s \<Longrightarrow> inner (segs h1 t) = inner (segs h t) \<and> same_tile (segs h t) (segs h1 t)"
    and av: "avail_ok (segs h1) (g_small_bin_available_heads h1) ss"
  shows "\<exists>s' h' ss'. heap_coalesce_free_segment h1 s = Some (s', h') \<and> heap_ok h' ss' \<and> live h' ss' = live_others h ss s \<and>
    headers_only h1 h'"
proof -
  obtain xs ys where ss: "ss = xs @ s # ys" using s by (auto simp: in_set_conv_decomp)
  note inv = heap_okD(1) [OF ok]
  have d: "distinct ss" by (rule tiling_distinct [OF heap_inv_tiling [OF inv]])
  have st: "same_tile (segs h s) (segs h1 s)" using heap_inv_seg(6) [OF inv s] f by (simp add: same_tile_def)
  have fr: "free_seg (segs h1) s" using f by simp
  have "heap_inv h1 ss" "live h1 ss = live_others h ss s \<union> live_in (segs h1 s) s (blocks h1)"
    by (rule update_inv [OF inv s lu _ _ _ av]; use i st fr in \<open>auto simp: body_ok_def\<close>)+
  then have u: "heap_inv h1 (xs @ s # ys)" "live h1 (xs @ s # ys) = live_others h ss s"
    using fr ss by (simp_all add: live_in_def)
  have k: "seg_kind (segs h1 t) = seg_kind (segs h t)" if "t \<in> set xs \<union> set ys" for t
  proof -
    have "t \<in> set ss" "t \<noteq> s" using that d ss by auto
    then show ?thesis using inner_fields(2) i by blast
  qed
  have "apart_free (segs h1) xs" "apart_free (segs h1) ys"
    using heap_okD(2) [OF ok] ss k apart_free_cong [of xs "segs h1" "segs h"] apart_free_cong [of ys "segs h1" "segs h"]
    by (auto simp: apart_free_append apart_free_Cons)
  from coalesce_heap [OF u(1) fr this] u(2) show ?thesis by metis
qed

section \<open>Taking a segment\<close>

text \<open>A free segment cut down to a wanted size, the rest given back as a free segment.\<close>

lemma isolate_ok:
  assumes inv: "heap_inv h (xs @ s # ys)" and ap: "apart_free (segs h) xs" "apart_free (segs h) (s # ys)"
    and f: "free_seg (segs h) s"
    and n: "112 \<le> unat n" "16 dvd unat n" "unat n \<le> extent (segs h) s"
  shows "\<exists>ys'. heap_inv (heap_split_segment_tail h s n) (xs @ s # ys') \<and>
    live (heap_split_segment_tail h s n) (xs @ s # ys') = live h (xs @ s # ys) \<and>
    headers_only h (heap_split_segment_tail h s n) \<and> free_seg (segs (heap_split_segment_tail h s n)) s \<and>
    unat n \<le> extent (segs (heap_split_segment_tail h s n)) s \<and> extent (segs (heap_split_segment_tail h s n)) s < unat n + 112 \<and>
    extent (segs (heap_split_segment_tail h s n)) s \<le> extent (segs h) s \<and>
    apart_free (segs (heap_split_segment_tail h s n)) xs \<and> apart_free (segs (heap_split_segment_tail h s n)) ys' \<and>
    reshape (segs h) (xs @ s # ys) (segs (heap_split_segment_tail h s n)) (xs @ s # ys')"
proof (cases "unat n + 112 \<le> extent (segs h) s")
  case True
  note t = heap_inv_tiling [OF inv]
  note e = heap_end_less [of h]
  have z: "0 < unat n" "unat n < extent (segs h) s" using n True by auto
  note c = cut_point [OF t e z]
  have d: "distinct (xs @ s # ys)" by (rule tiling_distinct [OF t])
  let ?S = "cut (segs h) s n"
  have self: "?S(s := ?S s) = ?S" by simp
  have fs: "free_seg ?S s" using f by (simp add: cut_def)
  have t': "tiling ?S None (xs @ s # (s + n) # ys) None (unat (g_heap_start_address h)) (unat (g_heap_end_address h))"
  proof -
    have g: "seg_magic (?S s) = HeapSegmentMagic" "total_size (?S s) = n" "seg_next (?S s) = Some (s + n)"
      "seg_prev (?S s) = seg_prev (segs h s)"
      using heap_inv_seg(6) [OF inv, of s] by (simp_all add: cut_def)
    show ?thesis using cut_tiling [OF t e n(1,2) True g] by simp
  qed
  have r: "reshape (segs h) (xs @ s # ys) ?S (xs @ s # (s + n) # ys)"
    using cut_reshape [OF t e z f fs] by simp
  have eq: "heap_split_segment_tail h s n = h\<lparr>segs := ?S\<rparr>" by (rule split_tail_eq [OF t e z(1) True])
  have k: "seg_kind (?S x) = seg_kind (segs h x)" if "x \<in> set xs \<union> set ys" for x
    using that c(3) d by (auto simp: cut_def)
  have a: "apart_free (segs h) xs" "apart_free (segs h) ys" "ys = [] \<or> \<not> free_seg (segs h) (hd ys)"
    using ap f by (auto simp: apart_free_Cons)
  have "apart_free ?S xs" "apart_free ?S ys"
    using a k apart_free_cong [of xs ?S "segs h"] apart_free_cong [of ys ?S "segs h"] by auto
  moreover have "ys = [] \<or> \<not> free_seg ?S (hd ys)" using a(3) k by (cases ys) auto
  ultimately have "apart_free ?S xs" "apart_free ?S ((s + n) # ys)" by (auto simp: apart_free_Cons)
  moreover have "heap_inv (h\<lparr>segs := ?S\<rparr>) (xs @ s # (s + n) # ys)"
    by (rule reshape_inv [OF inv r t']) (simp add: first_of_append)
  moreover have "extent ?S s = unat n" by (simp add: cut_def)
  ultimately show ?thesis unfolding eq using reshape_live [OF r] r fs n
    by (intro exI [of _ "(s + n) # ys"]) (simp add: headers_only_def)
next
  case False
  then have "heap_split_segment_tail h s n = h" by (intro split_tail_small) simp
  then show ?thesis using inv ap f n False reshape_refl
    by (intro exI [of _ ys]) (auto simp: apart_free_Cons headers_only_def)
qed

lemma apart_free_busy:
  "apart_free S xs \<Longrightarrow> apart_free S ys \<Longrightarrow> \<not> free_seg S s \<Longrightarrow> apart_free S (xs @ s # ys)"
  by (auto simp: apart_free_append apart_free_Cons)

section \<open>Searching the chain\<close>

lemma and15_zero: "(x :: u64) AND 15 = 0 \<longleftrightarrow> 16 dvd unat x"
proof -
  have "x AND 15 = take_bit 4 x" by (simp add: take_bit_eq_mask mask_numeral)
  then have "unat (x AND 15) = unat x mod 16" by (simp add: take_bit_eq_mod unat_mod)
  then show ?thesis by (metis dvd_eq_mod_eq_0 unat_eq_zero)
qed

lemma seg_pointer_valid:
  assumes "heap_inv h ss" "s \<in> set ss" shows "heap_segment_pointer_valid h (Some s)"
proof -
  note g = heap_inv_seg [OF assms]
  have st: "0 < unat (g_heap_start_address h)" using assms(1) by (simp add: heap_inv_def)
  have a: "total_size (segs h s) AND 15 = 0" using g(4) by (simp add: and15_zero)
  have r: "heap_range_valid h s n" if "0 < unat n" "unat n \<le> extent (segs h) s" for n
  proof -
    have "s \<le> g_heap_end_address h" using g(2) by (simp add: word_le_nat_alt)
    then have "unat (g_heap_end_address h - s) = unat (g_heap_end_address h) - unat s" by (simp add: unat_sub)
    then show ?thesis using that g st by (auto simp: heap_range_valid_def word_le_nat_alt word_less_nat_alt)
  qed
  show ?thesis using g r [of 96] r [of "total_size (segs h s)"] a
    by (simp add: heap_segment_pointer_valid_def word_less_nat_alt)
qed

definition fits :: "KernelHeap \<Rightarrow> u64 \<Rightarrow> u64 \<Rightarrow> bool" where
  "fits h wanted s \<longleftrightarrow> free_seg (segs h) s \<and> wanted \<le> total_size (segs h s)"

lemma best_reserve_ok:
  assumes "heap_inv h (xs @ ys)"
  shows "\<exists>r. best_reserve h wanted (first_of ys None) best = Some r \<and>
    (r = None \<longrightarrow> best = None \<and> (\<forall>s \<in> set ys. \<not> fits h wanted s)) \<and>
    (\<forall>s w. r = Some (s, w) \<longrightarrow> best = r \<or> s \<in> set ys \<and> fits h wanted s)"
  using assms
proof (induction ys arbitrary: xs best)
  case Nil
  then show ?case by (subst best_reserve.simps) simp
next
  case (Cons s ys)
  have inv: "heap_inv h ((xs @ [s]) @ ys)" using Cons.prems by simp
  have v: "heap_segment_pointer_valid h (Some s)" by (rule seg_pointer_valid [OF Cons.prems]) simp
  have nx: "seg_next (segs h s) = first_of ys None"
    using chain_neighbour(1) [OF heap_inv_tiling [OF Cons.prems] heap_end_less] .
  define best1 where "best1 =
    (if seg_kind (segs h s) \<noteq> HeapSegmentFree \<or> total_size (segs h s) < wanted then best
     else (case best of
             None \<Rightarrow> Some (s, total_size (segs h s) - wanted)
           | Some (_, waste) \<Rightarrow>
               if total_size (segs h s) - wanted < waste then Some (s, total_size (segs h s) - wanted) else best))"
  have step: "best_reserve h wanted (first_of (s # ys) None) best = best_reserve h wanted (first_of ys None) best1"
    by (subst best_reserve.simps) (simp add: v nx best1_def Let_def)
  have b1: "best1 = best \<or> fits h wanted s \<and> (\<exists>w. best1 = Some (s, w))" "fits h wanted s \<longrightarrow> best1 \<noteq> None"
    by (auto simp: best1_def fits_def split: option.splits prod.splits)
  from Cons.IH [OF inv, of best1] obtain r where "best_reserve h wanted (first_of ys None) best1 = Some r"
    "r = None \<longrightarrow> best1 = None \<and> (\<forall>s \<in> set ys. \<not> fits h wanted s)"
    "\<forall>s w. r = Some (s, w) \<longrightarrow> best1 = r \<or> s \<in> set ys \<and> fits h wanted s" by blast
  then show ?case unfolding step using b1 by (intro exI [of _ r]) auto
qed

definition candidate :: "KernelHeap \<Rightarrow> u64 \<Rightarrow> u64 \<Rightarrow> u64 \<Rightarrow> bool" where
  "candidate h sz al s \<longleftrightarrow> free_seg (segs h) s \<and> layout_valid (heap_compute_general_layout h s sz al)"

definition waste_of :: "KernelHeap \<Rightarrow> u64 \<Rightarrow> u64 \<Rightarrow> u64 \<Rightarrow> u64" where
  "waste_of h sz al s =
     total_size (segs h s) - prefix_bytes (heap_compute_general_layout h s sz al) -
       required_bytes (heap_compute_general_layout h s sz al)"

lemma best_general_ok:
  assumes "heap_inv h (xs @ ys)"
  shows "\<exists>r. best_general h sz al (first_of ys None) best = Some r \<and>
    (r = None \<longrightarrow> best = None \<and> (\<forall>s \<in> set ys. \<not> candidate h sz al s)) \<and>
    (\<forall>s l w. r = Some (s, l, w) \<longrightarrow>
       (best = r \<or> s \<in> set ys \<and> candidate h sz al s \<and> l = heap_compute_general_layout h s sz al \<and> w = waste_of h sz al s) \<and>
       (\<forall>t \<in> set ys. candidate h sz al t \<longrightarrow> w \<le> waste_of h sz al t) \<and>
       (\<forall>t l' w'. best = Some (t, l', w') \<longrightarrow> w \<le> w'))"
  using assms
proof (induction ys arbitrary: xs best)
  case Nil
  then show ?case by (subst best_general.simps) simp
next
  case (Cons s ys)
  have inv: "heap_inv h ((xs @ [s]) @ ys)" using Cons.prems by simp
  have v: "heap_segment_pointer_valid h (Some s)" by (rule seg_pointer_valid [OF Cons.prems]) simp
  have nx: "seg_next (segs h s) = first_of ys None"
    using chain_neighbour(1) [OF heap_inv_tiling [OF Cons.prems] heap_end_less] .
  let ?l = "heap_compute_general_layout h s sz al"
  define best1 where "best1 =
    (if \<not> candidate h sz al s then best
     else (case best of
             None \<Rightarrow> Some (s, ?l, waste_of h sz al s)
           | Some (_, _, waste) \<Rightarrow> if waste_of h sz al s < waste then Some (s, ?l, waste_of h sz al s) else best))"
  have step: "best_general h sz al (first_of (s # ys) None) best = best_general h sz al (first_of ys None) best1"
    unfolding best1_def candidate_def waste_of_def by (subst best_general.simps) (simp add: v nx Let_def)
  have b1: "best1 = best \<or> candidate h sz al s \<and> best1 = Some (s, ?l, waste_of h sz al s)"
    "best1 = None \<Longrightarrow> best = None \<and> \<not> candidate h sz al s"
    "best1 = Some (t, l, w) \<Longrightarrow> candidate h sz al s \<longrightarrow> w \<le> waste_of h sz al s"
    "best1 = Some (t, l, w) \<Longrightarrow> best = Some (t', l', w') \<Longrightarrow> w \<le> w'" for t l w t' l' w'
    by (auto simp: best1_def split: option.splits prod.splits if_splits)
  from Cons.IH [OF inv, of best1] obtain r where r: "best_general h sz al (first_of ys None) best1 = Some r"
    "r = None \<Longrightarrow> best1 = None \<and> (\<forall>s \<in> set ys. \<not> candidate h sz al s)"
    "\<And>s l w. r = Some (s, l, w) \<Longrightarrow>
       (best1 = r \<or> s \<in> set ys \<and> candidate h sz al s \<and> l = heap_compute_general_layout h s sz al \<and> w = waste_of h sz al s) \<and>
       (\<forall>t \<in> set ys. candidate h sz al t \<longrightarrow> w \<le> waste_of h sz al t) \<and>
       (\<forall>t l' w'. best1 = Some (t, l', w') \<longrightarrow> w \<le> w')" by metis
  have n: "best = None \<and> (\<forall>s \<in> set (s # ys). \<not> candidate h sz al s)" if "r = None"
    using r(2) [OF that] b1(2) by auto
  have ls: "(best = r \<or> x \<in> set (s # ys) \<and> candidate h sz al x \<and> l = heap_compute_general_layout h x sz al \<and> w = waste_of h sz al x) \<and>
       (\<forall>t \<in> set (s # ys). candidate h sz al t \<longrightarrow> w \<le> waste_of h sz al t) \<and>
       (\<forall>t l' w'. best = Some (t, l', w') \<longrightarrow> w \<le> w')" if "r = Some (x, l, w)" for x l w
  proof -
    note q = r(3) [OF that]
    have "candidate h sz al s \<longrightarrow> w \<le> waste_of h sz al s"
    proof
      assume c: "candidate h sz al s"
      then obtain t l' w' where e: "best1 = Some (t, l', w')" using b1(2) by (metis prod_cases3 option.exhaust)
      then show "w \<le> waste_of h sz al s" using q b1(3) [OF e] c by (metis order.trans)
    qed
    moreover have "w \<le> w'" if b: "best = Some (t, l', w')" for t l' w'
    proof -
      obtain t1 l1 w1 where e: "best1 = Some (t1, l1, w1)" using b b1(2) by (metis prod_cases3 option.exhaust option.distinct(1))
      then show ?thesis using q b1(4) [OF e b] by (metis order.trans)
    qed
    ultimately show ?thesis using q b1(1) that by auto
  qed
  show ?case unfolding step by (intro exI [of _ r] conjI r(1) impI allI) (use n ls in blast)+
qed

end
