(* ===== verification/Kernel_Heap_Place.thy ===== *)
theory Kernel_Heap_Place
  imports Kernel_Heap_Chain
begin

unbundle bit_operations_syntax

text \<open>
  Where a general allocation is well_placed inside a free segment: the arithmetic of
  \<open>heap_compute_general_layout\<close> on natural numbers, for both the general and the tail-biased placement, and
  that computing the layout again after the prefix has been split off gives a placement without prefix.
\<close>

text \<open>A request within bounds: a power-of-two alignment of at least 16, sizes below 16 TiB.\<close>

definition sane :: "u64 \<Rightarrow> u64 \<Rightarrow> nat \<Rightarrow> bool" where
  "sane sz al k \<longleftrightarrow> al = 2 ^ k \<and> 4 \<le> k \<and> k < 44 \<and> 0 < unat sz \<and> unat sz < 2 ^ 43"

lemma sane_facts:
  assumes "sane sz al k"
  shows "is_power_of_two al" "unat al = 2 ^ k" "16 dvd (2 ^ k :: nat)" "(16 :: nat) \<le> 2 ^ k" "(2 :: nat) ^ k < 2 ^ 44" "sz \<noteq> 0"
proof -
  have k: "al = 2 ^ k" "4 \<le> k" "k < 44" and z: "0 < unat sz" using assms by (auto simp: sane_def)
  show "is_power_of_two al" "unat al = 2 ^ k" using k power_of_twoI [of k] unat_power2 [of k] by simp_all
  show 16: "16 dvd (2 ^ k :: nat)" using le_imp_power_dvd [OF k(2), of "2 :: nat"] by simp
  show "(16 :: nat) \<le> 2 ^ k" using power_increasing [OF k(2), of "2 :: nat"] by simp
  show "(2 :: nat) ^ k < 2 ^ 44" using k by (intro power_strict_increasing) auto
  show "sz \<noteq> 0" using z by auto
qed

text \<open>A free segment the placement is computed in.\<close>

definition spot :: "KernelHeap \<Rightarrow> u64 \<Rightarrow> bool" where
  "spot h s \<longleftrightarrow> free_seg (segs h) s \<and> unat s + extent (segs h) s + 2 ^ 46 \<le> 2 ^ 64 \<and> 16 dvd unat s \<and>
     16 dvd extent (segs h) s \<and> 112 \<le> extent (segs h) s"

definition well_placed :: "KernelHeap \<Rightarrow> u64 \<Rightarrow> u64 \<Rightarrow> nat \<Rightarrow> HeapAllocationLayout \<Rightarrow> bool" where
  "well_placed h s sz k l \<longleftrightarrow>
     (prefix_bytes l = 0 \<or> 112 \<le> unat (prefix_bytes l)) \<and> 16 dvd unat (prefix_bytes l) \<and>
     2 ^ k dvd unat (payload_start l) \<and> block_header_start l = payload_start l - 32 \<and>
     unat s + unat (prefix_bytes l) + 128 \<le> unat (payload_start l) \<and>
     unat (payload_start l) + unat sz + 8 \<le> unat s + unat (prefix_bytes l) + unat (required_bytes l) \<and>
     16 dvd unat (required_bytes l) \<and> unat (prefix_bytes l) + unat (required_bytes l) \<le> extent (segs h) s"

lemma tail_layout_numbers:
  assumes sp: "spot h s" and sn: "sane sz al k"
  defines "E \<equiv> unat s + extent (segs h) s"
  defines "T \<equiv> (E - unat sz - 8) div 2 ^ k * 2 ^ k"
  shows "tail_layout h s sz al =
    (if 2 ^ 21 \<le> (2 :: nat) ^ k \<and> 136 + unat sz \<le> extent (segs h) s \<and> unat s + 128 \<le> T \<and> (T = unat s + 128 \<or> unat s + 240 \<le> T)
     then Some \<lparr>layout_valid = True, segment_start = of_nat (T - 128), block_header_start = of_nat (T - 32), payload_start = of_nat T,
       prefix_bytes = of_nat (T - 128 - unat s), required_bytes = of_nat (E - (T - 128))\<rparr>
     else None)"
proof -
  note sf = sane_facts [OF sn]
  have k64: "k < 64" and szb: "unat sz < 2 ^ 43" using sn by (auto simp: sane_def)
  have al: "al = 2 ^ k" using sn by (simp add: sane_def)
  have b: "E + 2 ^ 46 \<le> 2 ^ 64" "112 \<le> extent (segs h) s" using sp by (auto simp: spot_def E_def)
  have uE: "unat (heap_segment_end_address h s) = E"
    unfolding heap_segment_end_address_def E_def using b by (intro unat_plus_word) (simp add: E_def)
  let ?e = "heap_segment_end_address h s"
  have se: "s \<le> ?e" "s < ?e" using uE b by (simp_all add: word_le_nat_alt word_less_nat_alt E_def)
  have d1: "unat (?e - s) = extent (segs h) s" using se(1) uE by (simp add: unat_sub E_def)
  have m: "unat (136 + sz :: u64) = 136 + unat sz" using szb by (simp add: unat_word_ariths)
  have m2: "unat (s + 128 :: u64) = unat s + 128" using b by (simp add: unat_word_ariths E_def)
  have al21: "0x200000 \<le> al \<longleftrightarrow> 2 ^ 21 \<le> (2 :: nat) ^ k" by (simp add: word_le_nat_alt sf(2))
  have c1: "128 + sz + 8 \<le> ?e - s \<longleftrightarrow> 136 + unat sz \<le> extent (segs h) s" by (simp add: word_le_nat_alt m d1)
  show ?thesis
  proof (cases "2 ^ 21 \<le> (2 :: nat) ^ k \<and> 136 + unat sz \<le> extent (segs h) s")
    case False
    then show ?thesis using al21 c1 by (auto simp: tail_layout_def Let_def)
  next
    case True
    have szE: "unat sz + 8 \<le> E" using True by (simp add: E_def)
    have "sz \<le> ?e" using szE uE by (simp add: word_le_nat_alt)
    then have u1: "unat (?e - sz) = E - unat sz" by (simp add: unat_sub uE)
    have "8 \<le> ?e - sz" using szE u1 by (simp add: word_le_nat_alt)
    then have u2: "unat (?e - sz - 8) = E - unat sz - 8" by (simp add: unat_sub u1)
    define t where "t = align_down_address (?e - sz - 8) al"
    have ut: "unat t = T" unfolding t_def al using align_down_nat [OF k64] u2 by (simp add: T_def)
    have "T \<le> E - unat sz - 8" unfolding T_def by (rule div_times_less_eq_dividend)
    then have Tle: "T + unat sz + 8 \<le> E" using szE by linarith
    have tT: "t = of_nat T" using ut by (metis of_nat_unat ucast_id)
    have c2: "s + 128 \<le> t \<longleftrightarrow> unat s + 128 \<le> T" by (simp add: word_le_nat_alt m2 ut)
    show ?thesis
    proof (cases "unat s + 128 \<le> T")
      case False
      then have "\<not> s + 128 \<le> t" using c2 by simp
      then show ?thesis using True False al21 c1 by (simp add: tail_layout_def Let_def t_def [symmetric])
    next
      case le: True
      have "(128 :: u64) \<le> t" using le ut by (simp add: word_le_nat_alt)
      then have u3: "unat (t - 128) = T - 128" by (simp add: unat_sub ut)
      then have s3: "s \<le> t - 128" using le by (simp add: word_le_nat_alt)
      then have u4: "unat (t - 128 - s) = T - 128 - unat s" by (simp add: unat_sub u3)
      have c3: "(t - 128 - s = 0 \<or> 112 \<le> t - 128 - s) \<longleftrightarrow> (T = unat s + 128 \<or> unat s + 240 \<le> T)"
        using le u4 by (auto simp: word_le_nat_alt unat_eq_zero [symmetric])
      have up: "align_up_address (t - 128 + 128) al = t"
      proof -
        have "unat (align_up t (2 ^ k)) = (T + (2 ^ k - 1)) div 2 ^ k * 2 ^ k"
          using align_up_nat [OF k64, of t] ut Tle b sf(5) by simp
        also have "\<dots> = T" using round_up_bounds(4) [of "2 ^ k" T] by (simp add: T_def)
        finally have "unat (align_up t (2 ^ k)) = unat t" using ut by simp
        then have "align_up t (2 ^ k) = t" by (simp add: word_unat_eq_iff)
        then show ?thesis by (simp add: align_up_address_eq al)
      qed
      have u5: "unat (t + sz + 8) = T + unat sz + 8" using ut Tle b szb by (simp add: unat_word_ariths)
      then have c4: "t + sz + 8 \<le> ?e" using Tle uE by (simp add: word_le_nat_alt)
      have u6: "unat (?e - (t - 128)) = E - (T - 128)"
        using u3 uE Tle by (subst unat_sub) (simp_all add: word_le_nat_alt)
      have "(32 :: u64) \<le> t" using le ut by (simp add: word_le_nat_alt)
      then have u7: "unat (t - 32) = T - 32" by (simp add: unat_sub ut)
      have eqs: "t - 128 = of_nat (T - 128)" "t - 32 = of_nat (T - 32)" "t - 128 - s = of_nat (T - 128 - unat s)"
        "?e - (t - 128) = of_nat (E - (T - 128))"
        using u3 u7 u4 u6 by (metis of_nat_unat ucast_id)+
      show ?thesis
      proof (cases "T = unat s + 128 \<or> unat s + 240 \<le> T")
        case ok: True
        have "tail_layout h s sz al = Some \<lparr>layout_valid = True, segment_start = t - 128, block_header_start = t - 32,
            payload_start = t, prefix_bytes = t - 128 - s, required_bytes = ?e - (t - 128)\<rparr>"
          unfolding tail_layout_def Let_def t_def [symmetric] heap_constants(1)
          using True ok le al21 c1 c2 c3 c4 s3 se up by simp
        moreover have "2 ^ 21 \<le> (2 :: nat) ^ k \<and> 136 + unat sz \<le> extent (segs h) s \<and> unat s + 128 \<le> T \<and>
            (T = unat s + 128 \<or> unat s + 240 \<le> T)" using True ok le by blast
        ultimately show ?thesis by (simp only: eqs [symmetric] tT [symmetric] if_P)
      next
        case False
        then have "\<not> (t - 128 - s = 0 \<or> 112 \<le> t - 128 - s)" using c3 by simp
        then show ?thesis using False by (simp add: tail_layout_def Let_def t_def [symmetric])
      qed
    qed
  qed
qed

lemma of_nat_unat64: "unat (w :: u64) = n \<Longrightarrow> w = of_nat n"
  by (metis of_nat_unat ucast_id)

lemma general_layout_numbers:
  assumes sp: "spot h s" and sn: "sane sz al k" and none: "tail_layout h s sz al = None"
  defines "P \<equiv> (unat s + 128 + (2 ^ k - 1)) div 2 ^ k * 2 ^ k"
  defines "q \<equiv> (if 112 \<le> P - 128 - unat s then P - 128 - unat s else 0)"
  defines "R \<equiv> up16 (P + unat sz + 8 - (unat s + q))"
  shows "heap_compute_general_layout h s sz al =
    \<lparr>layout_valid = (q + R \<le> extent (segs h) s), segment_start = of_nat (unat s + q), block_header_start = of_nat (P - 32),
     payload_start = of_nat P, prefix_bytes = of_nat q, required_bytes = of_nat R\<rparr>"
    and "unat s + 128 \<le> P" "P < unat s + 128 + 2 ^ k" "2 ^ k dvd P" "16 dvd q" "q + R < 2 ^ 46" "16 dvd R"
proof -
  note sf = sane_facts [OF sn]
  have k64: "k < 64" and szb: "unat sz < 2 ^ 43" and al: "al = 2 ^ k" using sn by (auto simp: sane_def)
  have b: "unat s + extent (segs h) s + 2 ^ 46 \<le> 2 ^ 64" "112 \<le> extent (segs h) s" "16 dvd unat s" "free_seg (segs h) s"
    using sp by (auto simp: spot_def)
  show P: "unat s + 128 \<le> P" "P < unat s + 128 + 2 ^ k" "2 ^ k dvd P"
    using round_up_bounds [of "2 ^ k" "unat s + 128"] by (simp_all add: P_def)
  have Pb: "P + unat sz + 8 < 2 ^ 64" using P(2) sf(5) szb b by simp
  have 16: "16 dvd P" using dvd_trans [OF sf(3) P(3)] .
  have "16 dvd P - (unat s + 128)" using 16 b(3) by (intro dvd_diff_nat) simp_all
  then show q16: "16 dvd q" by (simp add: q_def diff_diff_left add.commute)
  have qle: "unat s + q + 128 \<le> P" using P(1) by (auto simp: q_def)
  have Rb: "P + unat sz + 8 - (unat s + q) + 16 \<le> 2 ^ 45" using P(2) sf(5) szb by simp
  have R: "R < P + unat sz + 8 - (unat s + q) + 16" "16 dvd R" using up16_facts by (simp_all add: R_def)
  show "16 dvd R" by (rule R)
  have "q \<le> 2 ^ 44" using qle P(2) sf(5) by simp
  then show qR: "q + R < 2 ^ 46" using R(1) Rb by simp
  define p0 where "p0 = align_up_address (s + 96 + 32) al"
  have u0: "unat (s + 96 + 32) = unat s + 128" using b by (simp add: unat_word_ariths)
  have up0: "unat p0 = P"
    unfolding p0_def align_up_address_eq al using align_up_nat [OF k64, of "s + 96 + 32"] u0 b sf(5) by (simp add: P_def)
  have "(96 :: u64) \<le> p0" using up0 P(1) by (simp add: word_le_nat_alt)
  then have "unat (p0 - 96) = P - 96" by (simp add: unat_sub up0)
  moreover then have "(32 :: u64) \<le> p0 - 96" using P(1) by (simp add: word_le_nat_alt)
  ultimately have us: "unat (p0 - 96 - 32) = P - 128" using unat_sub [of 32 "p0 - 96"] by simp
  define sh where "sh = p0 - 96 - 32"
  have sle: "s \<le> sh" using us P(1) by (simp add: word_le_nat_alt sh_def)
  then have ud: "unat (sh - s) = P - 128 - unat s" using us by (simp add: unat_sub sh_def)
  define up where "up = (s < sh \<and> 112 \<le> sh - s)"
  have upq: "up \<longleftrightarrow> 112 \<le> P - 128 - unat s"
    using ud us unfolding up_def sh_def by (auto simp: word_le_nat_alt word_less_nat_alt)
  define st where "st = (if up then sh else s)"
  have ust: "unat st = unat s + q" using upq us P(1) by (auto simp: st_def q_def sh_def)
  define pr where "pr = (if up then sh - s else 0)"
  have upr: "unat pr = q" using upq ud by (auto simp: pr_def q_def)
  have st128: "unat (st + 96 + 32) = unat s + q + 128" using ust qle Pb by (simp add: unat_word_ariths)
  have pay: "align_up_address (st + 96 + 32) al = p0"
  proof (cases up)
    case True
    then have "unat (st + 96 + 32) = P" using st128 upq P(1) by (simp add: q_def)
    then have "unat (align_up (st + 96 + 32) (2 ^ k)) = (P + (2 ^ k - 1)) div 2 ^ k * 2 ^ k"
      using align_up_nat [OF k64, of "st + 96 + 32"] P(2) sf(5) b by simp
    also have "\<dots> = unat p0" using round_up_bounds(4) [OF _ P(3)] up0 by simp
    finally show ?thesis by (simp add: align_up_address_eq al word_unat_eq_iff)
  qed (simp add: st_def p0_def)
  have upay: "unat (p0 + sz + 8) = P + unat sz + 8" using up0 Pb by (simp add: unat_word_ariths)
  have "st \<le> p0 + sz + 8" using upay ust qle by (simp add: word_le_nat_alt)
  then have "unat (p0 + sz + 8 - st) = P + unat sz + 8 - (unat s + q)" by (simp add: unat_sub upay ust)
  then have urq: "unat (align_up (p0 + sz + 8 - st) 16) = R" using unat_align16 [of "p0 + sz + 8 - st"] Rb by (simp add: R_def)
  have val: "pr + align_up (p0 + sz + 8 - st) 16 \<le> total_size (segs h s) \<longleftrightarrow> q + R \<le> extent (segs h) s"
  proof -
    have "unat (pr + align_up (p0 + sz + 8 - st) 16) = q + R"
      using unat_plus_word [of pr "align_up (p0 + sz + 8 - st) 16"] upr urq qR by simp
    then show ?thesis by (simp add: word_le_nat_alt)
  qed
  have "(32 :: u64) \<le> p0" using up0 P(1) by (simp add: word_le_nat_alt)
  then have uh: "unat (p0 - 32) = P - 32" by (simp add: unat_sub up0)
  have "heap_compute_general_layout h s sz al = \<lparr>layout_valid = (pr + align_up (p0 + sz + 8 - st) 16 \<le> total_size (segs h s)),
      segment_start = st, block_header_start = p0 - 32, payload_start = p0, prefix_bytes = pr,
      required_bytes = align_up (p0 + sz + 8 - st) 16\<rparr>"
    unfolding heap_compute_general_layout_def none Let_def option.case heap_constants(1)
      p0_def [symmetric] sh_def [symmetric] up_def [symmetric] st_def [symmetric] pr_def [symmetric] pay
    using b(4) sf(1,6) by simp
  then show "heap_compute_general_layout h s sz al =
    \<lparr>layout_valid = (q + R \<le> extent (segs h) s), segment_start = of_nat (unat s + q), block_header_start = of_nat (P - 32),
     payload_start = of_nat P, prefix_bytes = of_nat q, required_bytes = of_nat R\<rparr>"
    unfolding val of_nat_unat64 [OF ust, symmetric] of_nat_unat64 [OF uh, symmetric] of_nat_unat64 [OF up0, symmetric]
      of_nat_unat64 [OF upr, symmetric] of_nat_unat64 [OF urq, symmetric] by simp
qed

lemma tail_layout_chosen:
  assumes "spot h s" "sane sz al k" "tail_layout h s sz al = Some l"
  shows "heap_compute_general_layout h s sz al = l"
  using assms sane_facts [OF assms(2)] by (simp add: heap_compute_general_layout_def spot_def)

lemma unat_of_nat64: "n < 2 ^ 64 \<Longrightarrow> unat (of_nat n :: u64) = n"
  by (simp add: unat_of_nat)

lemma candidate_placed:
  assumes sp: "spot h s" and sn: "sane sz al k" and c: "layout_valid (heap_compute_general_layout h s sz al)"
  shows "well_placed h s sz k (heap_compute_general_layout h s sz al)"
proof -
  have b: "unat s + extent (segs h) s + 2 ^ 46 \<le> 2 ^ 64" "16 dvd unat s" "16 dvd extent (segs h) s"
    using sp by (auto simp: spot_def)
  note sf = sane_facts [OF sn]
  show ?thesis
  proof (cases "tail_layout h s sz al")
    case None
    note g = general_layout_numbers [OF sp sn None]
    note L = g(1)
    define P where "P = (unat s + 128 + (2 ^ k - 1)) div 2 ^ k * 2 ^ k"
    define q where "q = (if 112 \<le> P - 128 - unat s then P - 128 - unat s else 0)"
    define R where "R = up16 (P + unat sz + 8 - (unat s + q))"
    note g = g [folded P_def, folded q_def, folded R_def]
    have v: "q + R \<le> extent (segs h) s" using c g(1) by simp
    have R: "P + unat sz + 8 - (unat s + q) \<le> R" unfolding R_def by (rule up16_facts)
    have qP: "unat s + q + 128 \<le> P" using g(2) by (auto simp: q_def)
    have u: "unat (of_nat P :: u64) = P" "unat (of_nat q :: u64) = q" "unat (of_nat R :: u64) = R"
      using v b R qP by (auto intro!: unat_of_nat64)
    have h: "of_nat (P - 32) = (of_nat P :: u64) - 32" using qP by (simp add: of_nat_diff)
    have q0: "q = 0 \<or> 112 \<le> q" by (auto simp: q_def)
    show ?thesis unfolding well_placed_def g(1) using u v g h q0 qP R by auto
  next
    case (Some l)
    define T where "T = (unat s + extent (segs h) s - unat sz - 8) div 2 ^ k * 2 ^ k"
    define E where "E = unat s + extent (segs h) s"
    note tl = tail_layout_numbers [OF sp sn, folded E_def]
    have T: "T = (E - unat sz - 8) div 2 ^ k * 2 ^ k" by (simp add: T_def E_def)
    have cd: "136 + unat sz \<le> extent (segs h) s" "unat s + 128 \<le> T" "T = unat s + 128 \<or> unat s + 240 \<le> T"
      and l: "l = \<lparr>layout_valid = True, segment_start = of_nat (T - 128), block_header_start = of_nat (T - 32), payload_start = of_nat T,
       prefix_bytes = of_nat (T - 128 - unat s), required_bytes = of_nat (E - (T - 128))\<rparr>"
      using tl Some unfolding T [symmetric] by (auto split: if_splits)
    have "T \<le> E - unat sz - 8" unfolding T by (rule div_times_less_eq_dividend)
    then have Tle: "T + unat sz + 8 \<le> E" using cd(1) by (simp add: E_def)
    have kT: "2 ^ k dvd T" by (simp add: T)
    then have 16: "16 dvd T" using dvd_trans [OF sf(3)] by blast
    have "16 dvd T - (unat s + 128)" "16 dvd E - (T - 128)"
      using 16 b by (auto simp: E_def intro!: dvd_diff_nat dvd_add)
    then have d: "16 dvd T - 128 - unat s" "16 dvd E - (T - 128)" by (simp_all add: diff_diff_left add.commute)
    have bd: "E < 2 ^ 64" using b by (simp add: E_def)
    have u: "unat (of_nat T :: u64) = T" "unat (of_nat (T - 128 - unat s) :: u64) = T - 128 - unat s"
      "unat (of_nat (E - (T - 128)) :: u64) = E - (T - 128)"
      by (intro unat_of_nat64; use Tle bd in linarith)+
    have h: "of_nat (T - 32) = (of_nat T :: u64) - 32" using cd(2) by (simp add: of_nat_diff)
    have e: "T - 128 - unat s + (E - (T - 128)) = extent (segs h) s" using cd(2) Tle by (simp add: E_def)
    have z: "(of_nat (T - 128 - unat s) :: u64) = 0 \<or> 112 \<le> T - 128 - unat s" using cd(3) by auto
    show ?thesis unfolding tail_layout_chosen [OF sp sn Some] l well_placed_def
      using u d h e z kT cd(2) Tle by (simp only: HeapAllocationLayout.simps) auto
  qed
qed


text \<open>After the prefix has been split off, the layout of the suffix is valid and has no prefix.\<close>

lemma layout_again:
  assumes sp: "spot h s" and sn: "sane sz al k" and c: "layout_valid (heap_compute_general_layout h s sz al)"
    and pre: "112 \<le> unat (prefix_bytes (heap_compute_general_layout h s sz al))"
    and s2: "s2 = s + prefix_bytes (heap_compute_general_layout h s sz al)"
    and sp2: "spot h2 s2" and x2: "total_size (segs h2 s2) = total_size (segs h s) - prefix_bytes (heap_compute_general_layout h s sz al)"
  shows "layout_valid (heap_compute_general_layout h2 s2 sz al) \<and> prefix_bytes (heap_compute_general_layout h2 s2 sz al) = 0"
proof -
  define l where "l = heap_compute_general_layout h s sz al"
  define E where "E = unat s + extent (segs h) s"
  define T where "T = (E - unat sz - 8) div 2 ^ k * 2 ^ k"
  have b: "E + 2 ^ 46 \<le> 2 ^ 64" using sp by (auto simp: spot_def E_def)
  have pl: "well_placed h s sz k l" unfolding l_def by (rule candidate_placed [OF sp sn c])
  have le: "unat (prefix_bytes l) + unat (required_bytes l) \<le> extent (segs h) s" using pl by (simp add: well_placed_def)
  have u2: "unat s2 = unat s + unat (prefix_bytes l)"
    unfolding s2 l_def [symmetric] using le b by (intro unat_plus_word) (simp add: E_def)
  have "prefix_bytes l \<le> total_size (segs h s)" using le by (simp add: word_le_nat_alt)
  then have x: "extent (segs h2) s2 = extent (segs h) s - unat (prefix_bytes l)" unfolding x2 l_def [symmetric] by (rule unat_sub)
  have E2: "unat s2 + extent (segs h2) s2 = E" using u2 x le by (simp add: E_def)
  note t2 = tail_layout_numbers [OF sp2 sn, unfolded E2, folded T_def]
  note t1 = tail_layout_numbers [OF sp sn, folded E_def, folded T_def]
  have TE: "T \<le> E - unat sz - 8" unfolding T_def by (rule div_times_less_eq_dividend)
  show ?thesis
  proof (cases "tail_layout h s sz al")
    case None
    define P where "P = (unat s + 128 + (2 ^ k - 1)) div 2 ^ k * 2 ^ k"
    define q where "q = (if 112 \<le> P - 128 - unat s then P - 128 - unat s else 0)"
    define R where "R = up16 (P + unat sz + 8 - (unat s + q))"
    note g = general_layout_numbers [OF sp sn None, folded P_def, folded q_def, folded R_def]
    have "q < 2 ^ 64" using g(6) by simp
    then have uq: "unat (prefix_bytes l) = q" unfolding l_def g(1) by (simp add: unat_of_nat64)
    have q: "112 \<le> q" "q = P - 128 - unat s" using pre uq by (auto simp: l_def q_def split: if_splits)
    have v: "q + R \<le> extent (segs h) s" using c g(1) by simp
    have Rg: "P + unat sz + 8 - (unat s + q) \<le> R" unfolding R_def by (rule up16_facts)
    have PE: "P + unat sz + 8 \<le> E" "P = unat s + q + 128" using v Rg q g(2) by (auto simp: E_def)
    have PT: "P \<le> T"
    proof -
      have "P div 2 ^ k * 2 ^ k \<le> (E - unat sz - 8) div 2 ^ k * 2 ^ k" using PE(1) by (intro mult_le_mono1 div_le_mono) linarith
      then show ?thesis using g(4) by (simp add: T_def)
    qed
    have k21: "\<not> 2 ^ 21 \<le> (2 :: nat) ^ k"
    proof
      assume "2 ^ 21 \<le> (2 :: nat) ^ k"
      moreover have "136 + unat sz \<le> extent (segs h) s" "unat s + 128 \<le> T" "unat s + 240 \<le> T"
        using PT PE(1) [unfolded E_def] PE(2) q(1) by linarith+
      ultimately have "tail_layout h s sz al \<noteq> None" unfolding t1 by (simp only: simp_thms if_True option.distinct)
      then show False using None by simp
    qed
    then have N2: "tail_layout h2 s2 sz al = None" unfolding t2 by simp
    have P2: "(unat s2 + 128 + (2 ^ k - 1)) div 2 ^ k * 2 ^ k = P"
      using round_up_bounds(4) [OF _ g(4)] u2 uq PE(2) by simp
    note g2 = general_layout_numbers [OF sp2 sn N2, unfolded P2]
    have z: "P - 128 - unat s2 = 0" using u2 uq PE(2) by simp
    have R2: "up16 (P + unat sz + 8 - (unat s2 + 0)) = R" using u2 uq by (simp add: R_def)
    have "R \<le> extent (segs h2) s2" using x uq v by simp
    then show ?thesis using g2(1) z R2 by simp
  next
    case (Some l')
    have ll: "l = l'" unfolding l_def by (rule tail_layout_chosen [OF sp sn Some])
    have cd: "2 ^ 21 \<le> (2 :: nat) ^ k" "136 + unat sz \<le> extent (segs h) s" "unat s + 128 \<le> T"
      "prefix_bytes l = of_nat (T - 128 - unat s)"
      using t1 Some ll by (auto split: if_splits)
    have Tle: "T + unat sz + 8 \<le> E" using TE cd(2) by (simp add: E_def)
    have uq: "unat (prefix_bytes l) = T - 128 - unat s"
      unfolding cd(4) by (intro unat_of_nat64) (use Tle b in simp)
    have s2T: "unat s2 + 128 = T" using u2 uq cd(3) by simp
    have "tail_layout h2 s2 sz al = Some \<lparr>layout_valid = True, segment_start = of_nat (T - 128), block_header_start = of_nat (T - 32),
       payload_start = of_nat T, prefix_bytes = of_nat (T - 128 - unat s2), required_bytes = of_nat (E - (T - 128))\<rparr>"
      unfolding t2 using cd(1) s2T Tle E2 by simp
    from tail_layout_chosen [OF sp2 sn this] s2T show ?thesis by simp
  qed
qed

text \<open>A segment large enough for any placement has one.\<close>

lemma roomy_candidate:
  assumes sp: "spot h s" and sn: "sane sz al k" and room: "136 + unat sz + 2 ^ k \<le> extent (segs h) s"
  shows "layout_valid (heap_compute_general_layout h s sz al)"
proof (cases "tail_layout h s sz al")
  case None
  define P where "P = (unat s + 128 + (2 ^ k - 1)) div 2 ^ k * 2 ^ k"
  define q where "q = (if 112 \<le> P - 128 - unat s then P - 128 - unat s else 0)"
  define R where "R = up16 (P + unat sz + 8 - (unat s + q))"
  note g = general_layout_numbers [OF sp sn None, folded P_def, folded q_def, folded R_def]
  have qP: "unat s + q + 128 \<le> P" using g(2) by (auto simp: q_def)
  have "16 dvd unat s + 128 + 2 ^ k" "16 dvd P" using sp sane_facts(3) [OF sn] g(4) by (auto simp: spot_def intro: dvd_trans)
  then have "16 dvd unat s + 128 + 2 ^ k - P" using g(3) by (intro dvd_diff_nat) auto
  moreover have "0 < unat s + 128 + 2 ^ k - P" using g(3) by simp
  ultimately have "16 \<le> unat s + 128 + 2 ^ k - P" by (rule dvd_imp_le)
  then have "P + 16 \<le> unat s + 128 + 2 ^ k" by simp
  moreover have "R < P + unat sz + 8 - (unat s + q) + 16" unfolding R_def by (rule up16_facts)
  ultimately have "q + R \<le> extent (segs h) s" using room qP by simp
  then show ?thesis using g(1) by simp
next
  case (Some l)
  then have "layout_valid l" using tail_layout_numbers [OF sp sn] by (auto split: if_splits)
  then show ?thesis using tail_layout_chosen [OF sp sn Some] by simp
qed

end
