(* ===== verification/Kernel_Heap_General.thy ===== *)
theory Kernel_Heap_General
  imports Kernel_Heap_Place
begin

unbundle bit_operations_syntax

text \<open>
  General allocations: \<open>heap_alloc_general_locked\<close> returns, keeps the heap well formed, and either finds a
  place, the best fit, or leaves the heap alone because no free segment has room.
\<close>

section \<open>Live allocations\<close>

lemma live_in_range:
  assumes "(q, n) \<in> live_in g s B" "body_ok g s B M" "unat s + unat (total_size g) < 2 ^ 64" "16 dvd unat s"
  shows "unat s + 128 \<le> unat q" "unat q + unat n + 8 \<le> unat s + unat (total_size g)" "16 dvd unat q" "0 < unat n"
proof -
  have "unat s + 128 \<le> unat q \<and> unat q + unat n + 8 \<le> unat s + unat (total_size g) \<and> 16 dvd unat q \<and> 0 < unat n"
  proof (cases "seg_kind g = HeapSegmentGeneral")
    case True
    then obtain d where d: "block_list g = Some d" "unat s + 96 \<le> unat d" "16 dvd unat d"
      "unat d + 40 + unat (user_bytes g) \<le> unat s + unat (total_size g)" "requested_size (B d) = user_bytes g" "live_block d (B d) M"
      using assms(2) by (auto simp: body_ok_def general_ok_def)
    have u: "unat (d + 32) = unat d + 32" using d assms(3) by (intro unat_payload) simp
    have qn: "q = d + 32" "n = user_bytes g" using assms(1) True d by (simp_all add: live_in_def)
    show ?thesis using d u by (auto simp: qn live_block_def)
  next
    case False
    then have k: "seg_kind g = HeapSegmentSlab" using assms(1) by (auto simp: live_in_def split: if_splits)
    then obtain fl where sl: "slab_ok g s B M fl" using assms(2) by (auto simp: body_ok_def)
    define b where "b = bin_of g"
    obtain i where i: "i < slab_blocks g b" "blk_magic (B (slab_header s b i)) = HeapBlockAllocatedMagic"
      and q: "q = slab_header s b i + 32" "n = requested_size (B (slab_header s b i))"
      using assms(1) False k by (auto simp: live_in_def b_def)
    have b5: "b < 5" "4096 \<le> unat (total_size g)" "unat (total_size g) < 4208" "user_bytes g = HeapSmallBins ! b"
      and bo: "slab_block_ok g s i (B (slab_header s b i)) M"
      using sl i by (auto simp: slab_ok_def b_def)
    note st = slab_stride_nat [OF b5(1)]
    note hd = unat_slab_header [OF b5(1) i(1) b5(2,3) assms(3)]
    have u: "unat q = unat (slab_header s b i) + 32" unfolding q using hd st assms(3) by (intro unat_payload) simp
    have r: "unat n \<le> unat (HeapSmallBins ! b)" "0 < unat n"
      using bo i(2) q b5(4) by (auto simp: slab_block_ok_def live_block_def b_def)
    have "16 dvd unat q" unfolding u hd(1) using st(1) assms(4) by (auto intro!: dvd_add)
    then show ?thesis using u r hd st by simp
  qed
  then show "unat s + 128 \<le> unat q" "unat q + unat n + 8 \<le> unat s + unat (total_size g)" "16 dvd unat q" "0 < unat n" by auto
qed

definition kept :: "KernelHeap \<Rightarrow> u64 list \<Rightarrow> KernelHeap \<Rightarrow> bool" where
  "kept h ss h' \<longleftrightarrow> (\<forall>(q, n) \<in> live h ss. \<forall>i < unat n. bytes h' (q + of_nat i) = bytes h (q + of_nat i))"

definition block_granted :: "KernelHeap \<Rightarrow> u64 list \<Rightarrow> KernelHeap \<Rightarrow> u64 list \<Rightarrow> u64 \<Rightarrow> u64 \<Rightarrow> bool" where
  "block_granted h ss h' ss' p sz \<longleftrightarrow> live h' ss' = insert (p, sz) (live h ss) \<and> p \<notin> fst ` live h ss \<and> kept h ss h'"

lemma live_other_range:
  assumes inv: "heap_inv h ss" and s: "s \<in> set ss" and q: "(q, n) \<in> live_others h ss s"
  shows "unat q + unat n + 8 \<le> unat s \<or> unat s + extent (segs h) s + 128 \<le> unat q" "unat q + unat n < 2 ^ 64"
proof -
  obtain t where t: "t \<in> set ss" "t \<noteq> s" "(q, n) \<in> live_in (segs h t) t (blocks h)" using q by (auto simp: live_others_def)
  note r = live_in_range [OF t(3) heap_inv_seg(8,7,5) [OF inv t(1)]]
  show "unat q + unat n + 8 \<le> unat s \<or> unat s + extent (segs h) s + 128 \<le> unat q"
    using r tiling_apart [OF heap_inv_tiling [OF inv] t(1) s t(2)] by auto
  show "unat q + unat n < 2 ^ 64" using r heap_inv_seg(7) [OF inv t(1)] by simp
qed

lemma local_kept:
  assumes inv: "heap_inv h ss" and s: "s \<in> set ss" and lu: "local_update h h' s" and q: "(q, n) \<in> live_others h ss s"
    and i: "i < unat n"
  shows "bytes h' (q + of_nat i) = bytes h (q + of_nat i)"
proof -
  note r = live_other_range [OF inv s q]
  have "unat (q + of_nat i) = unat q + i" using r(2) i by (intro unat_plus) simp
  then show ?thesis using r i lu by (auto simp: local_update_def)
qed

lemma headers_only_same:
  assumes "headers_only h h'"
  shows "bytes h' = bytes h" "blocks h' = blocks h" "pool h' = pool h" "g_heap_segment_list_head h' = g_heap_segment_list_head h"
    "g_heap_start_address h' = g_heap_start_address h" "g_heap_end_address h' = g_heap_end_address h"
    "g_heap_initialized h' = g_heap_initialized h" "g_small_bin_available_heads h' = g_small_bin_available_heads h"
proof -
  have e: "h' = h\<lparr>segs := segs h'\<rparr>" using assms by (simp add: headers_only_def)
  show "bytes h' = bytes h" "blocks h' = blocks h" "pool h' = pool h" "g_heap_segment_list_head h' = g_heap_segment_list_head h"
    "g_heap_start_address h' = g_heap_start_address h" "g_heap_end_address h' = g_heap_end_address h"
    "g_heap_initialized h' = g_heap_initialized h" "g_small_bin_available_heads h' = g_small_bin_available_heads h"
    by (subst e, simp)+
qed

lemma apart_free_upd [simp]: "s \<notin> set xs \<Longrightarrow> apart_free (S(s := g)) xs = apart_free S xs"
  by (rule apart_free_cong) auto

section \<open>Committing a free segment to one allocation\<close>

definition commit_general :: "KernelHeap \<Rightarrow> u64 \<Rightarrow> u64 \<Rightarrow> u64 \<Rightarrow> KernelHeap" where
  "commit_general h s header sz =
     (let h = heap_mark_segment_allocated h s HeapSegmentGeneral HeapInvalidBinIndex;
          h = set_seg h s (\<lambda>g. g\<lparr>user_bytes := sz, block_count := 1, allocation_count := 1\<rparr>);
          h = set_blk h header (\<lambda>_. zero_block_header\<lparr>blk_magic := HeapBlockAllocatedMagic, blk_kind := HeapBlockGeneral,
                blk_bin_index := HeapInvalidBinIndex, requested_size := sz, owner_segment := Some s\<rparr>);
          h = set_seg h s (\<lambda>g. g\<lparr>block_list := Some header\<rparr>)
      in heap_write_tail_canary h header)"

lemma write_canary_simps [simp]:
  "segs (heap_write_tail_canary h d) = segs h" "blocks (heap_write_tail_canary h d) = blocks h"
  "g_small_bin_available_heads (heap_write_tail_canary h d) = g_small_bin_available_heads h"
  "bytes (heap_write_tail_canary h d) = store64 (bytes h) (d + 32 + requested_size (blocks h d)) (tail_mark d (blocks h d))"
  by (simp_all add: heap_write_tail_canary_def heap_tail_canary_pointer_def heap_block_payload_pointer_def
      heap_expected_tail_canary_def tail_mark_def Let_def)

lemma local_update_canary:
  assumes "local_update h h' s" "unat s + 96 \<le> unat d" "unat d + 40 + unat (requested_size (blocks h' d)) \<le> unat s + extent (segs h) s"
    "unat s + extent (segs h) s < 2 ^ 64"
  shows "local_update h (heap_write_tail_canary h' d) s"
proof -
  have u: "unat (d + 32 + requested_size (blocks h' d)) = unat d + 32 + unat (requested_size (blocks h' d))"
    using assms by (intro unat_canary) linarith
  have "touches (bytes h') (bytes (heap_write_tail_canary h' d)) {unat s + 96..<unat s + extent (segs h) s}"
    unfolding write_canary_simps by (rule touches_store) (use assms u in auto)
  then have "local_update h (set_bytes h' (bytes (heap_write_tail_canary h' d))) s"
    by (rule local_update_steps(4) [OF assms(1)]) simp
  then show ?thesis by (simp add: heap_write_tail_canary_def)
qed

lemma commit_general_ok:
  assumes inv: "heap_inv h (xs @ s # ys)" and f: "free_seg (segs h) s" and ap: "apart_free (segs h) xs" "apart_free (segs h) ys"
    and d: "unat s + 96 \<le> unat d" "16 dvd unat d" "unat d + 40 + unat sz \<le> unat s + extent (segs h) s" "0 < unat sz"
  shows "heap_ok (commit_general h s d sz) (xs @ s # ys)"
    "block_granted h (xs @ s # ys) (commit_general h s d sz) (xs @ s # ys) (d + 32) sz"
proof -
  let ?ss = "xs @ s # ys" and ?h = "commit_general h s d sz"
  have s: "s \<in> set ?ss" by simp
  have ds: "distinct ?ss" by (rule tiling_distinct [OF heap_inv_tiling [OF inv]])
  note g = heap_inv_seg [OF inv s]
  define gs where "gs = zero_segment\<lparr>seg_magic := HeapSegmentMagic, seg_kind := HeapSegmentGeneral,
    seg_bin_index := HeapInvalidBinIndex, total_size := total_size (segs h s), seg_next := seg_next (segs h s),
    seg_prev := seg_prev (segs h s), user_bytes := sz, block_count := 1, allocation_count := 1, block_list := Some d\<rparr>"
  define bd where "bd = zero_block_header\<lparr>blk_magic := HeapBlockAllocatedMagic, blk_kind := HeapBlockGeneral,
    blk_bin_index := HeapInvalidBinIndex, requested_size := sz, owner_segment := Some s\<rparr>"
  have S: "segs ?h = (segs h)(s := gs)" and B: "blocks ?h = (blocks h)(d := bd)"
    and M: "bytes ?h = store64 (bytes h) (d + 32 + sz) (tail_mark d bd)"
    and A: "g_small_bin_available_heads ?h = g_small_bin_available_heads h"
    by (simp_all add: commit_general_def Let_def heap_mark_segment_allocated_def gs_def bd_def)
  have rq: "requested_size bd = sz" by (simp add: bd_def)
  have lu: "local_update h ?h s"
    unfolding commit_general_def Let_def heap_mark_segment_allocated_def
    by (intro local_update_canary local_update_steps local_update_refl) (use d g in simp_all)
  have gf: "seg_kind gs = HeapSegmentGeneral" "total_size gs = total_size (segs h s)" "user_bytes gs = sz" "block_list gs = Some d"
    "same_tile (segs h s) gs"
    using g by (simp_all add: gs_def same_tile_def)
  have body: "body_ok (segs ?h s) s (blocks ?h) (bytes ?h)"
    using d by (auto simp: body_ok_def general_ok_def live_block_def S B M gs_def bd_def zero_segment_def)
  have av: "avail_ok (segs ?h) (g_small_bin_available_heads ?h) ?ss"
    unfolding S A by (rule avail_ok_other) (use inv f gf in \<open>auto simp: heap_inv_def\<close>)
  note u = update_inv [OF inv s lu _ _ body av]
  have "heap_inv ?h ?ss" "live ?h ?ss = live_others h ?ss s \<union> live_in (segs ?h s) s (blocks ?h)"
    by (rule u; use gf in \<open>auto simp: S same_tile_def\<close>)+
  then have inv': "heap_inv ?h ?ss" and lv: "live ?h ?ss = insert (d + 32, sz) (live h ?ss)"
    using f gf live_split [OF s, of h] by (auto simp: S live_in_def)
  have "apart_free (segs ?h) xs" "apart_free (segs ?h) ys" "\<not> free_seg (segs ?h) s"
    using ap ds gf by (auto simp: S)
  then show "heap_ok ?h ?ss" using inv' apart_free_busy by (simp add: heap_ok_def)
  have lo: "live h ?ss = live_others h ?ss s" using live_split [OF s, of h] f by (simp add: live_in_def)
  have "d + 32 \<notin> fst ` live h ?ss"
  proof
    assume "d + 32 \<in> fst ` live h ?ss"
    then obtain n where n: "(d + 32, n) \<in> live_others h ?ss s" using lo by auto
    have "unat (d + 32) = unat d + 32" using d g by (intro unat_payload) simp
    then show False using live_other_range [OF inv s n] d by auto
  qed
  moreover have "kept h ?ss ?h" unfolding kept_def lo using local_kept [OF inv s lu] by auto
  ultimately show "block_granted h ?ss ?h ?ss (d + 32) sz" using lv by (simp add: block_granted_def)
qed

section \<open>Splitting off a prefix\<close>

lemma prefix_ok:
  assumes ok: "heap_ok h (xs @ s # ys)" and f: "free_seg (segs h) s"
    and n: "112 \<le> unat n" "16 dvd unat n" "unat n + 112 \<le> extent (segs h) s"
  shows "\<exists>h2. heap_split_segment_prefix h s n = (s + n, h2) \<and> heap_inv h2 (xs @ s # (s + n) # ys) \<and>
    live h2 (xs @ s # (s + n) # ys) = live h (xs @ s # ys) \<and> headers_only h h2 \<and> apart_free (segs h2) (xs @ [s]) \<and>
    apart_free (segs h2) ((s + n) # ys) \<and> free_seg (segs h2) (s + n) \<and>
    total_size (segs h2 (s + n)) = total_size (segs h s) - n"
proof -
  note inv = heap_okD(1) [OF ok]
  note t = heap_inv_tiling [OF inv]
  note e = heap_end_less [of h]
  have z: "0 < unat n" "unat n < extent (segs h) s" using n by auto
  note c = cut_point [OF t e z]
  have d: "distinct (xs @ s # ys)" by (rule tiling_distinct [OF t])
  define g where "g = free_record n (Some (s + n)) (seg_prev (segs h s))"
  let ?S = "(cut (segs h) s n)(s := g)"
  have gk: "seg_kind g = HeapSegmentFree" "seg_magic g = HeapSegmentMagic" "total_size g = n" "seg_next g = Some (s + n)"
    "seg_prev g = seg_prev (segs h s)" by (simp_all add: g_def)
  have eq: "heap_split_segment_prefix h s n = (s + n, h\<lparr>segs := ?S\<rparr>)"
    unfolding g_def by (rule split_prefix_eq [OF t e n(1) z(2) f])
  have t': "tiling ?S None (xs @ s # (s + n) # ys) None (unat (g_heap_start_address h)) (unat (g_heap_end_address h))"
    by (rule cut_tiling [OF t e n(1-3) gk(2-5)])
  have r: "reshape (segs h) (xs @ s # ys) ?S (xs @ s # (s + n) # ys)" by (rule cut_reshape [OF t e z f gk(1)])
  have k: "seg_kind (?S x) = seg_kind (segs h x)" if "x \<in> set xs \<union> set ys" for x
    using that c(3) d by (auto simp: cut_def)
  have ks: "seg_kind (?S s) = seg_kind (segs h s)" using f gk by simp
  have a: "apart_free (segs h) (xs @ [s])" "apart_free (segs h) ys" "ys = [] \<or> \<not> free_seg (segs h) (hd ys)"
    using heap_okD(2) [OF ok] f by (auto simp: apart_free_append apart_free_Cons)
  have "apart_free ?S (xs @ [s]) = apart_free (segs h) (xs @ [s])" 
  proof (rule apart_free_cong)
    fix x assume "x \<in> set (xs @ [s])"
    then show "seg_kind (?S x) = seg_kind (segs h x)" using k [of x] ks by (cases "x = s") auto
  qed
  moreover have "apart_free ?S ys = apart_free (segs h) ys" 
    using k by (intro apart_free_cong) blast
  moreover have "ys = [] \<or> \<not> free_seg ?S (hd ys)" using a(3) k [of "hd ys"] by (cases ys) auto
  ultimately have "apart_free ?S (xs @ [s])" "apart_free ?S ((s + n) # ys)" using a by (auto simp: apart_free_Cons)
  moreover have "heap_inv (h\<lparr>segs := ?S\<rparr>) (xs @ s # (s + n) # ys)"
    by (rule reshape_inv [OF inv r t']) (simp add: first_of_append)
  moreover have "free_seg ?S (s + n)" "total_size (?S (s + n)) = total_size (segs h s) - n"
    using c(2) by (simp_all add: cut_def)
  ultimately show ?thesis using eq reshape_live [OF r] by (simp add: headers_only_def)
qed

lemma spot_of:
  assumes "heap_inv h ss" "s \<in> set ss" "free_seg (segs h) s" shows "spot h s"
  using heap_inv_seg [OF assms(1,2)] assms by (auto simp: spot_def heap_inv_def)

section \<open>The general allocator\<close>

text \<open>The committing part, for a segment with a placement that needs no prefix.\<close>

lemma place_ok:
  assumes inv: "heap_inv h (xs @ s # ys)" and ap: "apart_free (segs h) xs" "apart_free (segs h) (s # ys)"
    and f: "free_seg (segs h) s" and sn: "sane sz al k" and pl: "well_placed h s sz k l" and z: "prefix_bytes l = 0"
  defines "h' \<equiv> commit_general (heap_split_segment_tail h s (required_bytes l)) s (block_header_start l) sz"
  shows "\<exists>ss'. heap_ok h' ss' \<and> block_granted h (xs @ s # ys) h' ss' (block_header_start l + 32) sz \<and>
    2 ^ k dvd unat (block_header_start l + 32) \<and> block_header_start l + 32 \<noteq> 0"
proof -
  have p: "2 ^ k dvd unat (payload_start l)" "block_header_start l = payload_start l - 32" "unat s + 128 \<le> unat (payload_start l)"
    "unat (payload_start l) + unat sz + 8 \<le> unat s + unat (required_bytes l)" "16 dvd unat (required_bytes l)"
    "unat (required_bytes l) \<le> extent (segs h) s"
    using pl z by (auto simp: well_placed_def)
  have sz0: "0 < unat sz" using sn by (simp add: sane_def)
  have req: "112 \<le> unat (required_bytes l)" using p(3,4) by simp
  let ?h1 = "heap_split_segment_tail h s (required_bytes l)"
  from isolate_ok [OF inv ap f req p(5,6)] obtain ys' where i: "heap_inv ?h1 (xs @ s # ys')"
    "live ?h1 (xs @ s # ys') = live h (xs @ s # ys)" "headers_only h ?h1" "free_seg (segs ?h1) s"
    "unat (required_bytes l) \<le> extent (segs ?h1) s" "apart_free (segs ?h1) xs" "apart_free (segs ?h1) ys'" by blast
  have "32 \<le> payload_start l" using p(3) by (simp add: word_le_nat_alt)
  then have u: "unat (block_header_start l) = unat (payload_start l) - 32" using p(2) by (simp add: unat_sub)
  have pay: "block_header_start l + 32 = payload_start l" using p(2) by simp
  have "16 dvd unat (payload_start l)" using dvd_trans [OF sane_facts(3) [OF sn] p(1)] .
  then have d16: "16 dvd unat (block_header_start l)" unfolding u by (intro dvd_diff_nat) simp_all
  have c: "heap_ok h' (xs @ s # ys')" "block_granted ?h1 (xs @ s # ys') h' (xs @ s # ys') (block_header_start l + 32) sz"
    unfolding h'_def by (rule commit_general_ok [OF i(1,4,6,7)]; use u p(3,4) i(5) d16 sz0 in simp)+
  have "block_granted h (xs @ s # ys) h' (xs @ s # ys') (block_header_start l + 32) sz"
    using c(2) i(2) headers_only_same(1) [OF i(3)] by (simp add: block_granted_def kept_def)
  moreover have "payload_start l \<noteq> 0" using p(3) by auto
  ultimately show ?thesis using c(1) p(1) unfolding pay by blast
qed

lemma alloc_general_ok:
  assumes ok: "heap_ok h ss" and sn: "sane sz al k"
  shows "\<exists>p h' ss'. heap_alloc_general_locked h sz al = Some (p, h') \<and> heap_ok h' ss' \<and>
    (p = 0 \<longrightarrow> h' = h \<and> ss' = ss \<and> (\<forall>s \<in> set ss. \<not> candidate h sz al s)) \<and>
    (p \<noteq> 0 \<longrightarrow> block_granted h ss h' ss' p sz \<and> 2 ^ k dvd unat p)"
proof -
  note inv = heap_okD(1) [OF ok]
  have hd: "g_heap_segment_list_head h = first_of ss None" using inv by (simp add: heap_inv_def)
  from best_general_ok [of h "[]" ss sz al None] inv obtain r where
    r: "best_general h sz al (first_of ss None) None = Some r"
    "r = None \<longrightarrow> (\<forall>s \<in> set ss. \<not> candidate h sz al s)"
    "\<And>s l w. r = Some (s, l, w) \<Longrightarrow> s \<in> set ss \<and> candidate h sz al s \<and> l = heap_compute_general_layout h s sz al" by auto
  show ?thesis
  proof (cases r)
    case None
    then show ?thesis using r ok hd by (simp add: heap_alloc_general_locked_def)
  next
    case (Some t)
    obtain s l w where t: "t = (s, l, w)" by (cases t) auto
    have s: "s \<in> set ss" and cd: "free_seg (segs h) s" "layout_valid l" and l: "l = heap_compute_general_layout h s sz al"
      using r(3) [of s l w] Some t by (auto simp: candidate_def)
    obtain xs ys where ss: "ss = xs @ s # ys" using s by (auto simp: in_set_conv_decomp)
    note sp = spot_of [OF inv s cd(1)]
    have pl: "well_placed h s sz k l" unfolding l by (rule candidate_placed [OF sp sn]) (use cd l in simp)
    show ?thesis
    proof (cases "112 \<le> unat (prefix_bytes l)")
      case False
      then have z: "prefix_bytes l = 0" using pl by (auto simp: well_placed_def)
      have ap: "apart_free (segs h) xs" "apart_free (segs h) (s # ys)" using heap_okD(2) [OF ok] ss by (auto simp: apart_free_append)
      have "heap_alloc_general_locked h sz al = Some (block_header_start l + 32,
          commit_general (heap_split_segment_tail h s (required_bytes l)) s (block_header_start l) sz)"
        using r(1) Some t hd z
        by (simp add: heap_alloc_general_locked_def commit_general_def heap_block_payload_pointer_def Let_def)
      with place_ok [OF inv [unfolded ss] ap cd(1) sn pl z] ss show ?thesis by auto
    next
      case True
      have n: "16 dvd unat (prefix_bytes l)" "unat (prefix_bytes l) + 112 \<le> extent (segs h) s"
        using pl by (auto simp: well_placed_def)
      let ?n = "prefix_bytes l"
      from prefix_ok [OF ok [unfolded ss] cd(1) True n] obtain h2 where h2: "heap_split_segment_prefix h s ?n = (s + ?n, h2)"
        "heap_inv h2 (xs @ s # (s + ?n) # ys)" "live h2 (xs @ s # (s + ?n) # ys) = live h (xs @ s # ys)" "headers_only h h2"
        "apart_free (segs h2) (xs @ [s])" "apart_free (segs h2) ((s + ?n) # ys)" "free_seg (segs h2) (s + ?n)"
        "total_size (segs h2 (s + ?n)) = total_size (segs h s) - ?n" by blast
      define s2 where "s2 = s + ?n"
      define l2 where "l2 = heap_compute_general_layout h2 s2 sz al"
      have inv2: "heap_inv h2 ((xs @ [s]) @ s2 # ys)" using h2(2) by (simp add: s2_def)
      have sp2: "spot h2 s2" by (rule spot_of [OF inv2]) (use h2(7) in \<open>auto simp: s2_def\<close>)
      have "layout_valid l2 \<and> prefix_bytes l2 = 0"
        unfolding l2_def by (rule layout_again [OF sp sn _ _ _ sp2]) (use cd l True h2(8) in \<open>auto simp: s2_def\<close>)
      moreover then have "well_placed h2 s2 sz k l2" unfolding l2_def by (intro candidate_placed [OF sp2 sn]) simp
      ultimately obtain ss' where c: "heap_ok (commit_general (heap_split_segment_tail h2 s2 (required_bytes l2)) s2 (block_header_start l2) sz) ss'"
        "block_granted h2 ((xs @ [s]) @ s2 # ys) (commit_general (heap_split_segment_tail h2 s2 (required_bytes l2)) s2 (block_header_start l2) sz) ss'
           (block_header_start l2 + 32) sz" "2 ^ k dvd unat (block_header_start l2 + 32)" "block_header_start l2 + 32 \<noteq> 0"
        using place_ok [OF inv2 h2(5) _ _ sn] h2(6,7) by (auto simp: s2_def)
      have "heap_alloc_general_locked h sz al = Some (block_header_start l2 + 32,
          commit_general (heap_split_segment_tail h2 s2 (required_bytes l2)) s2 (block_header_start l2) sz)"
        using r(1) Some t hd True h2(1)
        by (simp add: heap_alloc_general_locked_def commit_general_def heap_block_payload_pointer_def Let_def word_le_nat_alt
            l2_def s2_def)
      moreover have "block_granted h ss (commit_general (heap_split_segment_tail h2 s2 (required_bytes l2)) s2 (block_header_start l2) sz) ss'
           (block_header_start l2 + 32) sz"
        using c(2) h2(3) headers_only_same(1) [OF h2(4)] ss by (simp add: block_granted_def kept_def s2_def)
      ultimately show ?thesis using c by blast
    qed
  qed
qed

end
