(* ===== verification/Kernel_Heap_Slab.thy ===== *)
theory Kernel_Heap_Slab
  imports Kernel_Heap_General
begin

unbundle bit_operations_syntax

text \<open>
  Slabs: the lists of slabs with free blocks, the creation of a slab from a free segment, and the
  allocation and release of its blocks.
\<close>

section \<open>The available lists\<close>

text \<open>\<open>avail_but\<close>: the lists are right for every slab but \<open>s\<close>, which is in the list of bin \<open>b\<close>, or in none.\<close>

definition avail_but :: "(u64 \<Rightarrow> HeapSegment) \<Rightarrow> u64 option list \<Rightarrow> u64 list \<Rightarrow> u64 \<Rightarrow> nat option \<Rightarrow> bool" where
  "avail_but S heads ss s ob \<longleftrightarrow> length heads = 5 \<and>
     (\<forall>b < 5. \<exists>xs. avail_list S (heads ! b) xs \<and> set xs = (slabs_of S b ss - {s}) \<union> (if ob = Some b then {s} else {})) \<and>
     (\<forall>t \<in> set ss - {s}. seg_kind (S t) = HeapSegmentSlab \<longrightarrow> seg_flags (S t) = (if seg_free_count (S t) = 0 then 0 else 1))"

lemma dll_retail: "dll n p h t xs \<Longrightarrow> dll n p h (last_of None xs) xs"
  by (simp add: dll_def)

lemma avail_but_cong:
  assumes "avail_but S heads ss s ob" "\<And>t. t \<noteq> s \<Longrightarrow> S' t = S t"
    "ob = None \<or> available_next (S' s) = available_next (S s) \<and> available_prev (S' s) = available_prev (S s)"
  shows "avail_but S' heads ss s ob"
proof -
  have so: "slabs_of S' b ss - {s} = slabs_of S b ss - {s}" for b using assms(2) by (auto simp: slabs_of_def)
  have "avail_list S' f xs = avail_list S f xs" if "set xs = (slabs_of S b ss - {s}) \<union> (if ob = Some b then {s} else {})" for f xs b
  proof (rule dll_cong)
    fix x assume "x \<in> set xs"
    then show "available_next (S' x) = available_next (S x) \<and> available_prev (S' x) = available_prev (S x)"
      using assms(2,3) that by (cases "x = s") (auto split: if_splits)
  qed
  then have "\<exists>xs. avail_list S' (heads ! b) xs \<and> set xs = (slabs_of S b ss - {s}) \<union> (if ob = Some b then {s} else {})" if "b < 5" for b
    using assms(1) that unfolding avail_but_def by metis
  then show ?thesis using assms(1,2) unfolding avail_but_def so by auto
qed

lemma avail_butI:
  assumes "avail_ok S heads ss"
  shows "s \<in> set ss \<Longrightarrow> seg_kind (S s) = HeapSegmentSlab \<Longrightarrow> seg_free_count (S s) \<noteq> 0 \<Longrightarrow>
      avail_but S heads ss s (Some (bin_of (S s)))"
    and "seg_kind (S s) \<noteq> HeapSegmentSlab \<or> seg_free_count (S s) = 0 \<Longrightarrow> avail_but S heads ss s None"
proof -
  show "avail_but S heads ss s (Some (bin_of (S s)))"
    if "s \<in> set ss" "seg_kind (S s) = HeapSegmentSlab" "seg_free_count (S s) \<noteq> 0"
  proof -
    have "slabs_of S b ss = (slabs_of S b ss - {s}) \<union> (if Some (bin_of (S s)) = Some b then {s} else {})" for b
      using that by (auto simp: slabs_of_def)
    then show ?thesis using assms unfolding avail_but_def avail_ok_def by (metis Diff_iff)
  qed
  assume "seg_kind (S s) \<noteq> HeapSegmentSlab \<or> seg_free_count (S s) = 0"
  then have "slabs_of S b ss = (slabs_of S b ss - {s}) \<union> (if None = Some b then {s} else {})" for b
    by (auto simp: slabs_of_def)
  then show "avail_but S heads ss s None" using assms unfolding avail_but_def avail_ok_def by (metis Diff_iff)
qed

lemma avail_okI:
  assumes "avail_but S heads ss s ob"
    and "seg_kind (S s) \<noteq> HeapSegmentSlab \<and> ob = None \<or>
      seg_kind (S s) = HeapSegmentSlab \<and> s \<in> set ss \<and> seg_flags (S s) = (if seg_free_count (S s) = 0 then 0 else 1) \<and>
        ob = (if seg_free_count (S s) = 0 then None else Some (bin_of (S s)))"
  shows "avail_ok S heads ss"
proof -
  have "slabs_of S b ss = (slabs_of S b ss - {s}) \<union> (if ob = Some b then {s} else {})" for b
    using assms(2) by (auto simp: slabs_of_def split: if_splits)
  moreover have "seg_flags (S t) = (if seg_free_count (S t) = 0 then 0 else 1)"
    if "t \<in> set ss" "seg_kind (S t) = HeapSegmentSlab" for t
    using assms that by (cases "t = s") (auto simp: avail_but_def)
  ultimately show ?thesis using assms(1) unfolding avail_but_def avail_ok_def by metis
qed

definition unhook :: "(u64 \<Rightarrow> HeapSegment) \<Rightarrow> u64 \<Rightarrow> u64 \<Rightarrow> HeapSegment" where
  "unhook S s =
     (\<lambda>t. if t = s then (S s)\<lparr>available_prev := None, available_next := None, seg_flags := seg_flags (S s) AND NOT 1\<rparr>
          else (S t)\<lparr>available_next := (if available_prev (S s) = Some t then available_next (S s) else available_next (S t)),
                     available_prev := (if available_next (S s) = Some t then available_prev (S s) else available_prev (S t))\<rparr>)"

definition hook :: "(u64 \<Rightarrow> HeapSegment) \<Rightarrow> u64 option \<Rightarrow> u64 \<Rightarrow> u64 \<Rightarrow> HeapSegment" where
  "hook S first s =
     (\<lambda>t. if t = s then (S s)\<lparr>available_prev := None, available_next := first, seg_flags := seg_flags (S s) OR 1\<rparr>
          else (S t)\<lparr>available_prev := (if first = Some t then Some s else available_prev (S t))\<rparr>)"

lemma inner_hook [simp]: "inner (unhook S s t) = inner (S t)" "inner (hook S f s t) = inner (S t)"
  by (simp_all add: unhook_def hook_def inner_def)

lemma tile_hook [simp]: "same_tile (S t) (unhook S s t)" "same_tile (S t) (hook S f s t)"
  by (simp_all add: unhook_def hook_def same_tile_def)

lemma remove_available_eq:
  assumes av: "avail_but (segs h) (g_small_bin_available_heads h) ss s (Some (bin_of (segs h s)))"
    and k: "seg_kind (segs h s) = HeapSegmentSlab" "bin_of (segs h s) < 5" "seg_flags (segs h s) = 1"
  shows "heap_small_bin_remove_available h s = h\<lparr>segs := unhook (segs h) s,
    g_small_bin_available_heads := (if available_prev (segs h s) = None
      then (g_small_bin_available_heads h)[bin_of (segs h s) := available_next (segs h s)] else g_small_bin_available_heads h)\<rparr>"
    "avail_but (unhook (segs h) s) (if available_prev (segs h s) = None
      then (g_small_bin_available_heads h)[bin_of (segs h s) := available_next (segs h s)] else g_small_bin_available_heads h) ss s None"
proof -
  let ?S = "segs h" and ?A = "g_small_bin_available_heads h"
  define b where "b = bin_of (segs h s)"
  have b5: "b < 5" using k by (simp add: b_def)
  have len: "length ?A = 5" using av by (simp add: avail_but_def)
  obtain xs where xs: "avail_list ?S (?A ! b) xs" "set xs = slabs_of ?S b ss - {s} \<union> {s}"
    using av b5 unfolding avail_but_def b_def by fastforce
  have sx: "s \<in> set xs" using xs(2) by simp
  obtain us vs where uv: "xs = us @ s # vs" using sx by (auto simp: in_set_conv_decomp)
  have pn: "available_next (?S s) = first_of vs None" "available_prev (?S s) = last_of None us"
    using dll_next [OF xs(1) [unfolded uv]] dll_prev [OF xs(1) [unfolded uv]] by simp_all
  have d: "distinct (us @ s # vs)" using dll_distinct [OF xs(1)] uv by simp
  have p: "available_prev (?S s) = Some t \<Longrightarrow> t \<in> set us" "available_next (?S s) = Some t \<Longrightarrow> t \<in> set vs" for t
    using pn last_of_in first_of_in by fastforce+
  have ne: "available_prev (?S s) = Some t \<Longrightarrow> t \<noteq> s \<and> available_next (?S s) \<noteq> Some t"
    "available_next (?S s) = Some t \<Longrightarrow> t \<noteq> s" for t
    using p [of t] d by auto
  let ?r = "heap_small_bin_remove_available h s"
  have fl: "heap_segment_in_available_list (?S s)" using k(3) by (simp add: heap_segment_in_available_list_def)
  have A: "g_small_bin_available_heads ?r = (if available_prev (?S s) = None then ?A[b := available_next (?S s)] else ?A)"
    and S: "segs ?r t = unhook ?S s t" for t
    using k fl b5 ne unfolding heap_small_bin_remove_available_def Let_def b_def
    by (cases "available_prev (?S s)"; cases "available_next (?S s)"; auto simp: unhook_def)+
  have "?r = h\<lparr>segs := segs ?r, g_small_bin_available_heads := g_small_bin_available_heads ?r\<rparr>"
    unfolding heap_small_bin_remove_available_def Let_def set_seg_def by (auto split: option.splits)
  moreover have "segs ?r = unhook ?S s" by (rule ext) (rule S)
  ultimately show "?r = h\<lparr>segs := unhook (segs h) s,
    g_small_bin_available_heads := (if available_prev (segs h s) = None
      then (g_small_bin_available_heads h)[bin_of (segs h s) := available_next (segs h s)] else g_small_bin_available_heads h)\<rparr>"
    using A by (simp add: b_def)
  let ?A' = "if available_prev (?S s) = None then ?A[b := available_next (?S s)] else ?A"
  have so: "slabs_of (unhook ?S s) c ss = slabs_of ?S c ss" for c
    by (auto simp: slabs_of_def unhook_def)
  have "\<exists>zs. avail_list (unhook ?S s) (?A' ! c) zs \<and> set zs = slabs_of ?S c ss - {s}" if c: "c < 5" for c
  proof (cases "c = b")
    case True
    have "dll (\<lambda>x. available_next (unhook ?S s x)) (\<lambda>x. available_prev (unhook ?S s x))
        (if available_prev (?S s) = None then available_next (?S s) else ?A ! b)
        (if available_next (?S s) = None then available_prev (?S s) else last_of None xs) (remove1 s xs)"
      using dll_remove1 [OF xs(1) sx] by (rule dll_cong [THEN iffD2, rotated]) (auto simp: unhook_def)
    then have r: "avail_list (unhook ?S s) (if available_prev (?S s) = None then available_next (?S s) else ?A ! b) (remove1 s xs)"
      by (rule dll_retail)
    have m: "set (remove1 s xs) = slabs_of ?S b ss - {s}" using xs(2) dll_distinct [OF xs(1)] by auto
    have e: "?A' ! b = (if available_prev (?S s) = None then available_next (?S s) else ?A ! b)" using b5 len by simp
    show ?thesis unfolding True e by (rule exI [of _ "remove1 s xs"]) (rule conjI [OF r m])
  next
    case False
    obtain zs where zs: "avail_list ?S (?A ! c) zs" "set zs = slabs_of ?S c ss - {s}"
      using av c False unfolding avail_but_def b_def by fastforce
    have "x \<noteq> s \<and> available_prev (?S s) \<noteq> Some x \<and> available_next (?S s) \<noteq> Some x" if "x \<in> set zs" for x
    proof -
      have "x \<noteq> s" "x \<notin> slabs_of ?S b ss" using that zs(2) False by (auto simp: slabs_of_def)
      then have "x \<notin> set us \<and> x \<notin> set vs" using xs(2) uv by auto
      then show ?thesis using p [of x] \<open>x \<noteq> s\<close> by auto
    qed
    then have "avail_list (unhook ?S s) f zs = avail_list ?S f zs" for f by (intro dll_cong) (auto simp: unhook_def)
    then have r: "avail_list (unhook ?S s) (?A ! c) zs" using zs(1) by simp
    have e: "?A' ! c = ?A ! c" using False by simp
    show ?thesis unfolding e by (rule exI [of _ zs]) (rule conjI [OF r zs(2)])
  qed
  moreover have "length ?A' = 5" using len by simp
  moreover have "seg_flags (unhook ?S s t) = seg_flags (?S t)" "seg_kind (unhook ?S s t) = seg_kind (?S t)"
    "seg_free_count (unhook ?S s t) = seg_free_count (?S t)" if "t \<noteq> s" for t
    using that by (simp_all add: unhook_def)
  ultimately have "avail_but (unhook ?S s) ?A' ss s None"
    using av unfolding avail_but_def so by (simp del: nth_list_update)
  then show "avail_but (unhook (segs h) s) (if available_prev (segs h s) = None
      then (g_small_bin_available_heads h)[bin_of (segs h s) := available_next (segs h s)] else g_small_bin_available_heads h) ss s None"
    unfolding b_def .
qed


lemma insert_available_eq:
  assumes av: "avail_but (segs h) (g_small_bin_available_heads h) ss s None"
    and k: "seg_kind (segs h s) = HeapSegmentSlab" "bin_of (segs h s) < 5" "seg_flags (segs h s) = 0"
    and c: "seg_free_count (segs h s) \<noteq> 0" and s: "s \<in> set ss"
  defines "first \<equiv> g_small_bin_available_heads h ! bin_of (segs h s)"
  shows "heap_small_bin_insert_available h s = h\<lparr>segs := hook (segs h) first s,
      g_small_bin_available_heads := (g_small_bin_available_heads h)[bin_of (segs h s) := Some s]\<rparr>"
    "avail_ok (hook (segs h) first s) ((g_small_bin_available_heads h)[bin_of (segs h s) := Some s]) ss"
proof -
  let ?S = "segs h" and ?A = "g_small_bin_available_heads h"
  define b where "b = bin_of (segs h s)"
  have b5: "b < 5" using k by (simp add: b_def)
  have len: "length ?A = 5" using av by (simp add: avail_but_def)
  obtain xs where xs: "avail_list ?S (?A ! b) xs" "set xs = slabs_of ?S b ss - {s}"
    using av b5 unfolding avail_but_def by fastforce
  have sx: "s \<notin> set xs" using xs(2) by simp
  have fx: "first = first_of xs None" using dll_head [OF xs(1)] by (simp add: first_def b_def)
  have fin: "first = Some t \<Longrightarrow> t \<in> set xs" for t using fx first_of_in [of xs t] by simp
  then have fs: "first \<noteq> Some s" using sx by auto
  let ?r = "heap_small_bin_insert_available h s"
  have fl: "\<not> heap_segment_in_available_list (?S s)" using k(3) by (simp add: heap_segment_in_available_list_def)
  have A: "g_small_bin_available_heads ?r = ?A[b := Some s]" and S: "segs ?r t = hook ?S first s t" for t
    using k fl b5 c fs unfolding heap_small_bin_insert_available_def Let_def first_def b_def
    by (cases "?A ! bin_of (?S s)"; auto simp: hook_def)+
  have "?r = h\<lparr>segs := segs ?r, g_small_bin_available_heads := g_small_bin_available_heads ?r\<rparr>"
    unfolding heap_small_bin_insert_available_def Let_def set_seg_def by (auto split: option.splits)
  moreover have "segs ?r = hook ?S first s" by (rule ext) (rule S)
  ultimately show "?r = h\<lparr>segs := hook (segs h) first s,
      g_small_bin_available_heads := (g_small_bin_available_heads h)[bin_of (segs h s) := Some s]\<rparr>"
    using A by (simp add: b_def)
  have so: "slabs_of (hook ?S first s) x ss = slabs_of ?S x ss" for x
    by (auto simp: slabs_of_def hook_def)
  have "\<exists>zs. avail_list (hook ?S first s) (?A[b := Some s] ! x) zs \<and>
      set zs = (slabs_of ?S x ss - {s}) \<union> (if Some b = Some x then {s} else {})" if x: "x < 5" for x
  proof (cases "x = b")
    case True
    have "dll (\<lambda>y. available_next (hook ?S first s y)) (\<lambda>y. available_prev (hook ?S first s y)) (Some s)
        (if ?A ! b = None then Some s else last_of None xs) (s # xs)"
      using dll_prepend1 [OF xs(1) sx] by (rule dll_cong [THEN iffD2, rotated]) (auto simp: hook_def first_def b_def)
    then have "avail_list (hook ?S first s) (Some s) (s # xs)" by (rule dll_retail)
    moreover have "?A[b := Some s] ! b = Some s" using b5 len by simp
    ultimately show ?thesis unfolding True using xs(2) by (intro exI [of _ "s # xs"]) auto
  next
    case False
    obtain zs where zs: "avail_list ?S (?A ! x) zs" "set zs = slabs_of ?S x ss - {s}"
      using av x unfolding avail_but_def by fastforce
    have "y \<noteq> s \<and> first \<noteq> Some y" if "y \<in> set zs" for y
    proof -
      have "y \<noteq> s" "y \<notin> set xs" using that zs(2) xs(2) False by (auto simp: slabs_of_def)
      then show ?thesis using fin by auto
    qed
    then have "avail_list (hook ?S first s) f zs = avail_list ?S f zs" for f by (intro dll_cong) (auto simp: hook_def)
    moreover have "?A[b := Some s] ! x = ?A ! x" using False by simp
    ultimately show ?thesis using zs False by (intro exI [of _ zs]) auto
  qed
  moreover have "length (?A[b := Some s]) = 5" using len by simp
  moreover have "seg_flags (hook ?S first s t) = seg_flags (?S t)" "seg_kind (hook ?S first s t) = seg_kind (?S t)"
    "seg_free_count (hook ?S first s t) = seg_free_count (?S t)" if "t \<noteq> s" for t
    using that by (simp_all add: hook_def)
  ultimately have "avail_but (hook ?S first s) (?A[b := Some s]) ss s (Some b)"
    using av unfolding avail_but_def so by (simp del: nth_list_update)
  then have "avail_ok (hook ?S first s) (?A[b := Some s]) ss"
    by (rule avail_okI) (use k c s in \<open>simp add: hook_def b_def\<close>)
  then show "avail_ok (hook (segs h) first s) ((g_small_bin_available_heads h)[bin_of (segs h s) := Some s]) ss"
    unfolding b_def .
qed


section \<open>Making a slab\<close>

lemma fill_bytes_memcopy: "fill_bytes m p v n = memcopy m p (replicate n v)"
  by (induction n arbitrary: m p) auto

lemma touches_fill:
  assumes "unat p + n \<le> 2 ^ 64" "{unat p..<unat p + n} \<subseteq> T" shows "touches m (fill_bytes m p v n) T"
  unfolding touches_def
proof (intro allI impI)
  fix x :: u64 assume "unat x \<notin> T"
  then have "unat x < unat p \<or> unat p + n \<le> unat x" using assms(2) by (meson atLeastLessThan_iff not_le subsetD)
  then have "\<not> unat (x - p) < n" using assms(1) by (auto simp: unat_sub_if')
  moreover have "n \<le> 2 ^ 64" using assms(1) by simp
  ultimately show "fill_bytes m p v n x = m x" by (simp add: fill_bytes_memcopy memcopy_apply)
qed

lemma slab_block_base_eq: "16 dvd unat s \<Longrightarrow> unat s + 112 \<le> 2 ^ 64 \<Longrightarrow> slab_block_base s = s + 96"
proof -
  assume a: "16 dvd unat s" "unat s + 112 \<le> 2 ^ 64"
  have u: "unat (s + 96 :: u64) = unat s + 96" using a(2) by (simp add: unat_word_ariths)
  have "unat (align_up (s + 96) 16) = up16 (unat s + 96)" using unat_align16 [of "s + 96"] u a(2) by simp
  also have "\<dots> = unat s + 96" using a(1) by (intro up16_facts(4)) simp
  finally have "unat (align_up (s + 96) 16) = unat (s + 96)" using u by simp
  then show ?thesis by (simp add: slab_block_base_def align_up_address_eq word_unat_eq_iff)
qed

definition fresh_header :: "nat \<Rightarrow> u64 \<Rightarrow> u64 option \<Rightarrow> HeapBlockHeader" where
  "fresh_header b s nx = zero_block_header\<lparr>blk_magic := HeapBlockFreedMagic, blk_kind := HeapBlockSlab,
     blk_bin_index := of_nat b, owner_segment := Some s, next_free := nx\<rparr>"

lemma init_blocks_ok:
  assumes lu: "local_update h0 h s" and b: "b < 5" and ub: "user_bytes (segs h s) = HeapSmallBins ! b"
    and n: "n \<le> slab_blocks (segs h0 s) b" and sz: "4096 \<le> extent (segs h0) s" "extent (segs h0) s < 4208"
    and top: "unat s + extent (segs h0) s < 2 ^ 64" and al: "16 dvd unat s"
  shows "\<exists>h'. init_blocks h s b n first = (if n = 0 then first else Some (slab_header s b 0), h') \<and> local_update h0 h' s \<and>
    segs h' = segs h \<and> g_small_bin_available_heads h' = g_small_bin_available_heads h \<and>
    (\<forall>i < n. blocks h' (slab_header s b i) = fresh_header b s (if Suc i < n then Some (slab_header s b (Suc i)) else first)) \<and>
    (\<forall>i. n \<le> i \<longrightarrow> i < slab_blocks (segs h0 s) b \<longrightarrow> blocks h' (slab_header s b i) = blocks h (slab_header s b i))"
  using lu ub n
proof (induction n arbitrary: h first)
  case 0
  then show ?case by simp
next
  case (Suc n)
  let ?x = "slab_header s b n"
  have nb: "n < slab_blocks (segs h0 s) b" using Suc.prems(3) by simp
  note hd = unat_slab_header [OF b nb sz top]
  note st = slab_stride_nat [OF b]
  have base: "slab_block_base s = s + 96" by (rule slab_block_base_eq) (use al top sz in simp_all)
  have x: "slab_block_base s + of_nat n * slab_stride b = ?x" by (simp add: base slab_header_def)
  define h1 where "h1 = set_blk h ?x (\<lambda>_. fresh_header b s first)"
  define m where "m = fill_bytes (bytes h1) (?x + 32) HeapFreedPoison (unat (HeapSmallBins ! b + 8))"
  define h2 where "h2 = set_bytes h1 m"
  have step: "init_blocks h s b (Suc n) first = init_blocks h2 s b n (Some ?x)"
    using Suc.prems(2)
    by (simp add: x Let_def h2_def h1_def m_def fresh_header_def heap_block_payload_pointer_def)
  have lu1: "local_update h0 h1 s" unfolding h1_def
    by (rule local_update_steps(3) [OF Suc.prems(1)]) (use hd st in auto)
  have u: "unat (?x + 32) = unat ?x + 32" using hd st top by (intro unat_payload) simp
  have u8: "unat (HeapSmallBins ! b + 8) = unat (HeapSmallBins ! b) + 8" using st by (simp add: unat_word_ariths)
  have "touches (bytes h1) m {unat s + 96..<unat s + extent (segs h0) s}"
    unfolding m_def by (rule touches_fill) (use u u8 hd st top in auto)
  then have lu2: "local_update h0 h2 s" unfolding h2_def by (rule local_update_steps(4) [OF lu1]) simp
  have s2: "segs h2 = segs h" "blocks h2 = (blocks h)(?x := fresh_header b s first)"
    "g_small_bin_available_heads h2 = g_small_bin_available_heads h" by (simp_all add: h2_def h1_def)
  have p: "user_bytes (segs h2 s) = HeapSmallBins ! b" "n \<le> slab_blocks (segs h0 s) b"
    using Suc.prems s2 by simp_all
  from Suc.IH [OF lu2 p, of "Some ?x"] obtain h' where h': "init_blocks h2 s b n (Some ?x) = (if n = 0 then Some ?x else Some (slab_header s b 0), h')"
    "local_update h0 h' s" "segs h' = segs h2" "g_small_bin_available_heads h' = g_small_bin_available_heads h2"
    "\<forall>i < n. blocks h' (slab_header s b i) = fresh_header b s (if Suc i < n then Some (slab_header s b (Suc i)) else Some ?x)"
    "\<forall>i. n \<le> i \<longrightarrow> i < slab_blocks (segs h0 s) b \<longrightarrow> blocks h' (slab_header s b i) = blocks h2 (slab_header s b i)" by blast
  have inj: "slab_header s b i = ?x \<Longrightarrow> i < slab_blocks (segs h0 s) b \<Longrightarrow> i = n" for i
    using slab_header_inj [OF b _ nb sz top] by simp
  have new: "blocks h' (slab_header s b i) = fresh_header b s (if Suc i < Suc n then Some (slab_header s b (Suc i)) else first)" if i: "i < Suc n" for i
  proof (cases "i = n")
    case True
    then show ?thesis using h'(6) nb s2 by simp
  next
    case False
    then have l: "i < n" using i by simp
    have "(if Suc i < n then Some (slab_header s b (Suc i)) else Some ?x) = Some (slab_header s b (Suc i))" using l by (cases "Suc i = n") auto
    then show ?thesis using h'(5) l by simp
  qed
  have old: "blocks h' (slab_header s b i) = blocks h (slab_header s b i)" if "Suc n \<le> i" "i < slab_blocks (segs h0 s) b" for i
    using h'(6) that inj [of i] s2 by auto
  have "init_blocks h s b (Suc n) first = (if Suc n = 0 then first else Some (slab_header s b 0), h')"
    unfolding step h'(1) by simp
  moreover have "segs h' = segs h" "g_small_bin_available_heads h' = g_small_bin_available_heads h"
    using h'(3,4) s2 by simp_all
  ultimately show ?case using h'(2) new old by blast
qed

lemma slist_headers:
  "(\<And>i. j \<le> i \<Longrightarrow> i < n \<Longrightarrow> nx (f i) = (if Suc i < n then Some (f (Suc i)) else None)) \<Longrightarrow> slist nx (map f [j..<n])"
proof (induction "n - j" arbitrary: j)
  case (Suc k)
  then have e: "[j..<n] = j # [Suc j..<n]" by (simp add: upt_conv_Cons)
  have "slist nx (map f [Suc j..<n])" using Suc.hyps(1) [of "Suc j"] Suc.hyps(2) Suc.prems by simp
  moreover have "nx (f j) = first_of (map f [Suc j..<n]) None"
    using Suc.prems [of j] Suc.hyps(2) by (cases "Suc j < n") (auto simp: upt_conv_Cons)
  ultimately show ?case unfolding e by simp
qed simp


lemma unat32: "n \<le> 51 \<Longrightarrow> unat (of_nat n :: u32) = n"
  by (simp add: unat_of_nat)

lemma unat16: "b < 5 \<Longrightarrow> unat (of_nat b :: u16) = b"
  by (simp add: unat_of_nat)

lemma apart_free_frame:
  assumes "\<And>t. t \<noteq> s \<Longrightarrow> seg_kind (S' t) = seg_kind (S t)" "s \<notin> set xs"
  shows "apart_free S' xs = apart_free S xs"
  using assms by (intro apart_free_cong) metis

lemma init_slab_ok:
  assumes inv: "heap_inv h (xs @ s # ys)" and f: "free_seg (segs h) s" and ap: "apart_free (segs h) xs" "apart_free (segs h) ys"
    and sz: "4096 \<le> extent (segs h) s" "extent (segs h) s < 4208" and b: "b < 5"
  shows "\<exists>h'. heap_initialize_slab_segment h s b = (True, h') \<and> heap_ok h' (xs @ s # ys) \<and>
    live h' (xs @ s # ys) = live h (xs @ s # ys) \<and> kept h (xs @ s # ys) h' \<and> seg_kind (segs h' s) = HeapSegmentSlab \<and>
    bin_of (segs h' s) = b \<and> seg_free_count (segs h' s) \<noteq> 0"
proof -
  let ?ss = "xs @ s # ys"
  have s: "s \<in> set ?ss" by simp
  have ds: "distinct ?ss" by (rule tiling_distinct [OF heap_inv_tiling [OF inv]])
  note g = heap_inv_seg [OF inv s]
  note st = slab_stride_nat [OF b]
  define n where "n = slab_blocks (segs h s) b"
  note nb = slab_blocks_bounds [OF b sz, folded n_def]
  have base: "slab_block_base s = s + 96" by (rule slab_block_base_eq) (use g in simp_all)
  have av96: "heap_segment_end_address h s - slab_block_base s = total_size (segs h s) - 96"
    by (simp add: heap_segment_end_address_def base)
  have "unat (total_size (segs h s) - 96) = extent (segs h) s - 96" using sz by (simp add: unat_sub word_le_nat_alt)
  then have "unat ((total_size (segs h s) - 96) div slab_stride b) = n" by (simp add: unat_div n_def slab_blocks_def)
  then have nn: "ucast ((total_size (segs h s) - 96) div slab_stride b) = (of_nat n :: u32)"
    by (metis of_nat_unat)
  have n0: "(of_nat n :: u32) \<noteq> 0" using nb unat32 [OF nb(2)] by (metis unat_0 less_irrefl)
  define g1 where "g1 = zero_segment\<lparr>seg_magic := HeapSegmentMagic, seg_kind := HeapSegmentSlab, seg_bin_index := of_nat b,
    total_size := total_size (segs h s), seg_next := seg_next (segs h s), seg_prev := seg_prev (segs h s),
    user_bytes := HeapSmallBins ! b, block_stride := slab_stride b, block_count := of_nat n, seg_free_count := of_nat n,
    allocation_count := 0\<rparr>"
  define h1 where "h1 = set_seg h s (\<lambda>_. g1)"
  have h1: "set_seg (heap_mark_segment_allocated h s HeapSegmentSlab (of_nat b)) s (\<lambda>g. g\<lparr>user_bytes := HeapSmallBins ! b,
      block_stride := slab_stride b, block_count := of_nat n, seg_free_count := of_nat n, allocation_count := 0\<rparr>) = h1"
    by (simp add: h1_def heap_mark_segment_allocated_def set_seg_def g1_def)
  have lu1: "local_update h h1 s" unfolding h1_def by (rule local_update_steps(1) [OF local_update_refl])
  have ub: "user_bytes (segs h1 s) = HeapSmallBins ! b" by (simp add: h1_def g1_def)
  from init_blocks_ok [OF lu1 b ub _ sz g(7,5), of n None] obtain h2 where
    h2: "init_blocks h1 s b n None = (Some (slab_header s b 0), h2)" "local_update h h2 s" "segs h2 = segs h1"
    "g_small_bin_available_heads h2 = g_small_bin_available_heads h"
    "\<forall>i < n. blocks h2 (slab_header s b i) = fresh_header b s (if Suc i < n then Some (slab_header s b (Suc i)) else None)"
    using nb(1) by (auto simp: n_def h1_def)
  define h3 where "h3 = set_seg h2 s (\<lambda>g. g\<lparr>block_list := Some (slab_header s b 0)\<rparr>)"
  define g3 where "g3 = g1\<lparr>block_list := Some (slab_header s b 0)\<rparr>"
  have S3: "segs h3 = (segs h)(s := g3)" using h2(3) by (simp add: h3_def h1_def g3_def)
  have A3: "g_small_bin_available_heads h3 = g_small_bin_available_heads h" using h2(4) by (simp add: h3_def)
  have gf: "seg_kind g3 = HeapSegmentSlab" "bin_of g3 = b" "total_size g3 = total_size (segs h s)" "seg_free_count g3 = of_nat n"
    "seg_flags g3 = 0" "user_bytes g3 = HeapSmallBins ! b" "block_stride g3 = slab_stride b" "block_count g3 = of_nat n"
    "allocation_count g3 = 0" "block_list g3 = Some (slab_header s b 0)" "seg_bin_index g3 = of_nat b" "same_tile (segs h s) g3"
    using unat16 [OF b] g(6) by (simp_all add: g3_def g1_def zero_segment_def same_tile_def)
  have sb: "slab_blocks g3 b = n" by (simp add: n_def slab_blocks_def gf)
  have "slab_ok g3 s (blocks h3) (bytes h3) [0..<n]"
  proof -
    have B: "blocks h3 (slab_header s b i) = fresh_header b s (if Suc i < n then Some (slab_header s b (Suc i)) else None)" if "i < n" for i
      using h2(5) that by (simp add: h3_def)
    have "slist (\<lambda>x. next_free (blocks h3 x)) (map (slab_header s b) [0..<n])"
      by (rule slist_headers) (simp add: B fresh_header_def)
    moreover have "Some (slab_header s b 0) = first_of (map (slab_header s b) [0..<n]) None" using nb(1) by (simp add: upt_conv_Cons)
    moreover have "slab_block_ok g3 s i (blocks h3 (slab_header s b i)) (bytes h3)" if "i < n" for i
      using gf B [OF that] by (simp add: slab_block_ok_def fresh_header_def zero_block_header_def)
    moreover have "set [0..<n] = {i. i < n \<and> blk_magic (blocks h3 (slab_header s b i)) = HeapBlockFreedMagic}"
      using B by (auto simp: fresh_header_def)
    ultimately show ?thesis unfolding slab_ok_def gf(2) sb using b sz gf by (simp only: length_upt gf) simp
  qed
  then have body3: "body_ok g3 s (blocks h3) (bytes h3)" using gf(1) by (auto simp: body_ok_def)
  have "avail_but (segs h) (g_small_bin_available_heads h) ?ss s None"
    using avail_butI(2) [of "segs h" _ ?ss s] inv f by (simp add: heap_inv_def)
  then have ab: "avail_but (segs h3) (g_small_bin_available_heads h3) ?ss s None"
    unfolding A3 by (rule avail_but_cong) (simp_all add: S3)
  define h4 where "h4 = heap_small_bin_insert_available h3 s"
  have i4: "seg_kind (segs h3 s) = HeapSegmentSlab" "bin_of (segs h3 s) < 5" "seg_flags (segs h3 s) = 0" "seg_free_count (segs h3 s) \<noteq> 0"
    using gf b n0 by (simp_all add: S3)
  note ins = insert_available_eq [OF ab i4 s]
  define first where "first = g_small_bin_available_heads h3 ! bin_of (segs h3 s)"
  have S4: "segs h4 = hook (segs h3) first s" and B4: "blocks h4 = blocks h3" and M4: "bytes h4 = bytes h3"
    and A4: "avail_ok (segs h4) (g_small_bin_available_heads h4) ?ss"
    using ins unfolding h4_def first_def by (simp_all add: bytes_def)
  have lu3: "local_update h h3 s" unfolding h3_def by (rule local_update_steps(1) [OF h2(2)])
  have lu4: "local_update h h4 s"
    using lu3 ins(1) B4 M4 unfolding h4_def [symmetric] local_update_def by simp
  have in4: "inner (segs h4 t) = inner (segs h3 t)" for t by (simp add: S4)
  have body4: "body_ok (segs h4 s) s (blocks h4) (bytes h4)"
    unfolding B4 M4 by (rule body_ok_frame [OF body3]) (use in4 [of s] g gf in \<open>auto simp: S3\<close>)
  have t4: "same_tile (segs h t) (segs h4 t)" for t
  proof -
    have "same_tile (segs h t) (segs h3 t)" using gf(12) by (cases "t = s") (simp_all add: S3 same_tile_def)
    then show ?thesis using tile_hook(2) [of "segs h3" t first s] by (simp add: S4 same_tile_def)
  qed
  have i4': "inner (segs h4 t) = inner (segs h t)" if "t \<noteq> s" for t using in4 [of t] that by (simp add: S3)
  note u = update_inv [OF inv s lu4 i4' t4 body4 A4]
  note f4 = inner_fields [OF in4 [of s]]
  have lin: "live_in (segs h4 s) s (blocks h4) = {}"
  proof -
    have "blk_magic (blocks h3 (slab_header s b i)) = HeapBlockFreedMagic" if "i < n" for i
      using h2(5) that by (simp add: h3_def fresh_header_def)
    then have "live_in g3 s (blocks h3) = {}" using gf sb by (simp add: live_in_def)
    then show ?thesis using live_in_cong [OF in4 [of s]] by (simp add: B4 S3)
  qed
  have lo: "live h ?ss = live_others h ?ss s" using live_split [OF s, of h] f by (simp add: live_in_def)
  have "apart_free (segs h4) xs = apart_free (segs h) xs" "apart_free (segs h4) ys = apart_free (segs h) ys"
    by (rule apart_free_frame [of s]; use inner_fields(2) [OF i4'] ds in simp)+
  then have "heap_ok h4 ?ss" using u(1) ap apart_free_busy f4(2) gf(1) by (simp add: heap_ok_def S3)
  moreover have "kept h ?ss h4" unfolding kept_def lo using local_kept [OF inv s lu4] by auto
  moreover have "heap_initialize_slab_segment h s b = (True, h4)"
    unfolding heap_initialize_slab_segment_def Let_def av96 nn h1 unat32 [OF nb(2)] h2(1) prod.case
      h3_def [symmetric] h4_def [symmetric]
    using b n0 by simp
  ultimately show ?thesis using u(2) lin lo f4 gf n0 by (intro exI [of _ h4]) (simp add: S3)
qed


lemma kept_refl [simp]: "kept h ss h"
  by (auto simp: kept_def)

lemma kept_trans: "kept h ss h' \<Longrightarrow> live h ss \<subseteq> live h' ss' \<Longrightarrow> kept h' ss' h'' \<Longrightarrow> kept h ss h''"
  unfolding kept_def by fastforce

lemma create_slab_ok:
  assumes ok: "heap_ok h ss" and b: "b < 5"
  shows "\<exists>r h' ss'. heap_create_slab_segment h b = Some (r, h') \<and> heap_ok h' ss' \<and> live h' ss' = live h ss \<and> kept h ss h' \<and>
    (r = None \<longrightarrow> h' = h \<and> ss' = ss \<and> (\<forall>s \<in> set ss. \<not> fits h 4096 s)) \<and>
    (\<forall>s. r = Some s \<longrightarrow> s \<in> set ss' \<and> seg_kind (segs h' s) = HeapSegmentSlab \<and> bin_of (segs h' s) = b \<and>
       seg_free_count (segs h' s) \<noteq> 0)"
proof -
  note inv = heap_okD(1) [OF ok]
  have hd: "g_heap_segment_list_head h = first_of ss None" using inv by (simp add: heap_inv_def)
  from best_reserve_ok [of h "[]" ss 4096 None] inv obtain r where
    r: "best_reserve h 4096 (first_of ss None) None = Some r" "r = None \<longrightarrow> (\<forall>s \<in> set ss. \<not> fits h 4096 s)"
    "\<And>s w. r = Some (s, w) \<Longrightarrow> s \<in> set ss \<and> fits h 4096 s" by auto
  show ?thesis
  proof (cases r)
    case None
    then have "heap_create_slab_segment h b = Some (None, h)"
      using r(1) hd by (simp add: heap_create_slab_segment_def heap_reserve_segment_def)
    then show ?thesis using ok r(2) None by (intro exI [of _ None] exI [of _ h] exI [of _ ss]) simp
  next
    case (Some t)
    obtain s w where t: "t = (s, w)" by (cases t)
    have s: "s \<in> set ss" and f: "free_seg (segs h) s" "4096 \<le> extent (segs h) s"
      using r(3) [of s w] Some t by (auto simp: fits_def word_le_nat_alt)
    obtain xs ys where ss: "ss = xs @ s # ys" using s by (auto simp: in_set_conv_decomp)
    have ap: "apart_free (segs h) xs" "apart_free (segs h) (s # ys)" using heap_okD(2) [OF ok] ss by (auto simp: apart_free_append)
    let ?h1 = "heap_split_segment_tail h s 4096"
    from isolate_ok [OF inv [unfolded ss] ap f(1), of 4096] f(2) obtain ys' where i: "heap_inv ?h1 (xs @ s # ys')"
      "live ?h1 (xs @ s # ys') = live h ss" "headers_only h ?h1" "free_seg (segs ?h1) s"
      "4096 \<le> extent (segs ?h1) s" "extent (segs ?h1) s < 4208" "apart_free (segs ?h1) xs" "apart_free (segs ?h1) ys'"
      using ss by auto
    from init_slab_ok [OF i(1,4,7,8,5,6) b] obtain h' where h': "heap_initialize_slab_segment ?h1 s b = (True, h')"
      "heap_ok h' (xs @ s # ys')" "live h' (xs @ s # ys') = live ?h1 (xs @ s # ys')" "kept ?h1 (xs @ s # ys') h'"
      "seg_kind (segs h' s) = HeapSegmentSlab" "bin_of (segs h' s) = b" "seg_free_count (segs h' s) \<noteq> 0" by blast
    have "heap_create_slab_segment h b = Some (Some s, h')"
      using r(1) hd Some t h'(1) by (simp add: heap_create_slab_segment_def heap_reserve_segment_def)
    moreover have "kept h ss h'" using h'(4) i(2) headers_only_same(1) [OF i(3)] by (simp add: kept_def)
    ultimately show ?thesis using h' i(2)
      by (intro exI [of _ "Some s"] exI [of _ h'] exI [of _ "xs @ s # ys'"]) auto
  qed
qed

section \<open>Blocks of a slab\<close>

text \<open>The bytes of one block, behind its header, up to the next header.\<close>

definition block_span :: "u64 \<Rightarrow> nat \<Rightarrow> nat \<Rightarrow> nat set" where
  "block_span s b i = {unat (slab_header s b i) + 32..<unat (slab_header s b i) + unat (slab_stride b)}"

text \<open>A block that is not touched keeps its state.\<close>

lemma slab_block_frame:
  assumes ok: "slab_ok g s B M fl" and top: "unat s + unat (total_size g) < 2 ^ 64" and i: "i < slab_blocks g (bin_of g)"
    and j: "j < slab_blocks g (bin_of g)" "j \<noteq> i" and M: "touches M M' (block_span s (bin_of g) i)"
    and g': "seg_bin_index g' = seg_bin_index g" "user_bytes g' = user_bytes g"
  shows "slab_block_ok g' s j (B (slab_header s (bin_of g) j)) M'"
proof -
  define b where "b = bin_of g"
  have b: "b < 5" and sz: "4096 \<le> unat (total_size g)" "unat (total_size g) < 4208" and ub: "user_bytes g = HeapSmallBins ! b"
    and o: "slab_block_ok g s j (B (slab_header s b j)) M"
    using ok j(1) by (auto simp: slab_ok_def b_def)
  note st = slab_stride_nat [OF b]
  note hj = unat_slab_header [OF b j(1) [folded b_def] sz top]
  have apart: "unat x \<notin> block_span s b i" if "unat (slab_header s b j) \<le> unat x" "unat x < unat (slab_header s b j) + unat (slab_stride b)" for x :: u64
    using slab_headers_apart [OF b i [folded b_def] j(1) [folded b_def] j(2) [symmetric] sz top] that by (auto simp: block_span_def)
  have "live_block (slab_header s b j) (B (slab_header s b j)) M'"
    if l: "live_block (slab_header s b j) (B (slab_header s b j)) M" "unat (requested_size (B (slab_header s b j))) \<le> unat (user_bytes g)"
  proof (rule live_block_frame [OF l(1)])
    show "unat (slab_header s b j) + 40 + unat (requested_size (B (slab_header s b j))) < 2 ^ 64"
      using l(2) hj(2) st ub top by simp
    fix x :: u64 assume "unat (slab_header s b j) + 32 \<le> unat x"
      "unat x < unat (slab_header s b j) + 40 + unat (requested_size (B (slab_header s b j)))"
    then have "unat x \<notin> block_span s b i" using l(2) st ub by (intro apart) simp_all
    then show "M' x = M x" by (rule touchesD [OF M [folded b_def]])
  qed
  then show ?thesis using o g' by (auto simp: slab_block_ok_def b_def)
qed

lemma slab_live_kept:
  assumes inv: "heap_inv h ss" and s: "s \<in> set ss" and k: "seg_kind (segs h s) = HeapSegmentSlab" and b: "b = bin_of (segs h s)"
    and i: "i < slab_blocks (segs h s) b" and M: "touches (bytes h) M' (block_span s b i)"
    and q: "(q, n) \<in> live h ss" "q \<noteq> slab_header s b i + 32" and x: "x < unat n"
  shows "M' (q + of_nat x) = bytes h (q + of_nat x)"
proof -
  note g = heap_inv_seg [OF inv s]
  obtain fl where sl: "slab_ok (segs h s) s (blocks h) (bytes h) fl" using g(8) k by (auto simp: body_ok_def)
  have b5: "b < 5" and sz: "4096 \<le> extent (segs h) s" "extent (segs h) s < 4208" and ub: "user_bytes (segs h s) = HeapSmallBins ! b"
    using sl b by (auto simp: slab_ok_def)
  note st = slab_stride_nat [OF b5]
  note hi = unat_slab_header [OF b5 i sz g(7)]
  have "unat (q + of_nat x) \<notin> block_span s b i"
  proof (cases "(q, n) \<in> live_others h ss s")
    case True
    note r = live_other_range [OF inv s True]
    have "unat (q + of_nat x) = unat q + x" using r(2) x by (intro unat_plus) simp
    then show ?thesis using r(1) x hi st by (auto simp: block_span_def)
  next
    case False
    then have "(q, n) \<in> live_in (segs h s) s (blocks h)" using q(1) live_split [OF s] by auto
    then obtain j where j: "j < slab_blocks (segs h s) b" "blk_magic (blocks h (slab_header s b j)) = HeapBlockAllocatedMagic"
      "q = slab_header s b j + 32" "n = requested_size (blocks h (slab_header s b j))"
      using k b by (auto simp: live_in_def)
    have ne: "i \<noteq> j" using q(2) j(3) by auto
    have "slab_block_ok (segs h s) s j (blocks h (slab_header s b j)) (bytes h)" using sl j(1) b by (auto simp: slab_ok_def)
    then have r: "unat n \<le> unat (HeapSmallBins ! b)" using j(2,4) ub by (auto simp: slab_block_ok_def)
    note hj = unat_slab_header [OF b5 j(1) sz g(7)]
    have uq: "unat q = unat (slab_header s b j) + 32" unfolding j(3) using hj st g(7) by (intro unat_payload) simp
    then have "unat (q + of_nat x) = unat q + x" using hj st g(7) r x by (intro unat_plus) simp
    then show ?thesis using slab_headers_apart [OF b5 i j(1) ne sz g(7)] uq x r st by (auto simp: block_span_def)
  qed
  then show ?thesis by (rule touchesD [OF M])
qed


lemma slab_pop:
  assumes ok: "slab_ok g s B M (i # fl)" and top: "unat s + unat (total_size g) < 2 ^ 64"
    and g': "seg_bin_index g' = seg_bin_index g" "user_bytes g' = user_bytes g" "block_stride g' = block_stride g"
      "total_size g' = total_size g" "block_count g' = block_count g" "seg_free_count g' = seg_free_count g - 1"
      "allocation_count g' = allocation_count g + 1" "block_list g' = next_free (B (slab_header s (bin_of g) i))"
    and M: "touches M M' (block_span s (bin_of g) i)"
    and B': "B' = B(slab_header s (bin_of g) i := (B (slab_header s (bin_of g) i))
        \<lparr>next_free := None, blk_magic := HeapBlockAllocatedMagic, requested_size := z\<rparr>)"
    and z: "0 < unat z" "unat z \<le> unat (user_bytes g)"
      "load64 M' (slab_header s (bin_of g) i + 32 + z) = tail_mark (slab_header s (bin_of g) i) (B' (slab_header s (bin_of g) i))"
  shows "slab_ok g' s B' M' fl"
    "(\<lambda>j. (slab_header s (bin_of g) j + 32, requested_size (B' (slab_header s (bin_of g) j)))) `
       {j. j < slab_blocks g (bin_of g) \<and> blk_magic (B' (slab_header s (bin_of g) j)) = HeapBlockAllocatedMagic} =
     insert (slab_header s (bin_of g) i + 32, z)
       ((\<lambda>j. (slab_header s (bin_of g) j + 32, requested_size (B (slab_header s (bin_of g) j)))) `
       {j. j < slab_blocks g (bin_of g) \<and> blk_magic (B (slab_header s (bin_of g) j)) = HeapBlockAllocatedMagic})"
proof -
  define b n where "b = bin_of g" and "n = slab_blocks g b"
  let ?d = "slab_header s b"
  have b: "b < 5" and sz: "4096 \<le> unat (total_size g)" "unat (total_size g) < 4208"
    and fs: "set (i # fl) = {j. j < n \<and> blk_magic (B (?d j)) = HeapBlockFreedMagic}" and di: "distinct (i # fl)"
    and sl: "slist (\<lambda>x. next_free (B x)) (map ?d (i # fl))"
    and cnt: "seg_free_count g = of_nat (Suc (length fl))" "allocation_count g = of_nat (n - Suc (length fl))"
    and bo: "\<And>j. j < n \<Longrightarrow> slab_block_ok g s j (B (?d j)) M"
    using ok by (auto simp: slab_ok_def b_def n_def)
  have fsm: "(j = i \<or> j \<in> set fl) \<longleftrightarrow> j < n \<and> blk_magic (B (?d j)) = HeapBlockFreedMagic" for j
    using fs by (simp add: set_eq_iff)
  have inn: "i < n" and fri: "blk_magic (B (?d i)) = HeapBlockFreedMagic" using fsm [of i] by simp_all
  have inj: "?d j = ?d i \<Longrightarrow> j < n \<Longrightarrow> j = i" for j
    using slab_header_inj [OF b _ _ sz top] inn by (simp add: n_def)
  have Bo: "B' (?d j) = B (?d j)" if "j < n" "j \<noteq> i" for j using that inj [of j] by (auto simp: B' b_def)
  have Bi: "B' (?d i) = (B (?d i))\<lparr>next_free := None, blk_magic := HeapBlockAllocatedMagic, requested_size := z\<rparr>"
    by (simp add: B' b_def)
  have flb: "j < n \<and> j \<noteq> i" if "j \<in> set fl" for j using that fsm [of j] di by auto
  have len: "Suc (length fl) \<le> n"
  proof -
    have "card (set (i # fl)) \<le> card {..<n}" using fs by (intro card_mono) auto
    then show ?thesis using distinct_card [OF di] by simp
  qed
  have nx: "next_free (B (?d i)) = first_of (map ?d fl) None" and sl2: "slist (\<lambda>x. next_free (B x)) (map ?d fl)" using sl by simp_all
  have sl': "slist (\<lambda>x. next_free (B' x)) (map ?d fl)"
  proof -
    have "slist (\<lambda>x. next_free (B' x)) (map ?d fl) = slist (\<lambda>x. next_free (B x)) (map ?d fl)"
      by (rule slist_cong) (use Bo flb in auto)
    then show ?thesis using sl2 by simp
  qed
  have fs': "set fl = {j. j < n \<and> blk_magic (B' (?d j)) = HeapBlockFreedMagic}"
  proof -
    have "j \<in> set fl \<longleftrightarrow> j < n \<and> blk_magic (B' (?d j)) = HeapBlockFreedMagic" for j
      using fsm [of j] di Bo [of j] Bi by (cases "j = i") auto
    then show ?thesis by auto
  qed
  have bo': "slab_block_ok g' s j (B' (?d j)) M'" if j: "j < n" for j
  proof (cases "j = i")
    case True
    then show ?thesis using bo [OF inn] Bi z g' by (simp add: slab_block_ok_def live_block_def b_def)
  next
    case False
    show ?thesis unfolding Bo [OF j False] unfolding b_def
      by (rule slab_block_frame [OF ok top _ _ False M g'(1,2)]) (use j inn in \<open>simp_all add: n_def b_def\<close>)
  qed
  have n': "slab_blocks g' b = n" by (simp add: n_def slab_blocks_def g')
  have c': "seg_free_count g' = of_nat (length fl)" "allocation_count g' = of_nat (n - length fl)"
  proof -
    show "seg_free_count g' = of_nat (length fl)" using cnt g' by simp
    have "n - length fl = Suc (n - Suc (length fl))" using len by simp
    then show "allocation_count g' = of_nat (n - length fl)" using cnt g' by simp
  qed
  show "slab_ok g' s B' M' fl"
    unfolding slab_ok_def g'(1) b_def [symmetric] n'
    using ok b sz c' di fs' sl' nx bo' g' by (simp add: slab_ok_def b_def n_def)
  have A: "{j. j < n \<and> blk_magic (B' (?d j)) = HeapBlockAllocatedMagic} =
      insert i {j. j < n \<and> blk_magic (B (?d j)) = HeapBlockAllocatedMagic}"
  proof -
    have "j < n \<and> blk_magic (B' (?d j)) = HeapBlockAllocatedMagic \<longleftrightarrow> j = i \<or> j < n \<and> blk_magic (B (?d j)) = HeapBlockAllocatedMagic" for j
      using Bo [of j] Bi inn by (cases "j = i") auto
    then show ?thesis by auto
  qed
  have "(\<lambda>j. (?d j + 32, requested_size (B' (?d j)))) ` {j. j < n \<and> blk_magic (B (?d j)) = HeapBlockAllocatedMagic} =
      (\<lambda>j. (?d j + 32, requested_size (B (?d j)))) ` {j. j < n \<and> blk_magic (B (?d j)) = HeapBlockAllocatedMagic}"
  proof (rule image_cong)
    fix j assume "j \<in> {j. j < n \<and> blk_magic (B (?d j)) = HeapBlockAllocatedMagic}"
    then show "(?d j + 32, requested_size (B' (?d j))) = (?d j + 32, requested_size (B (?d j)))" using Bo [of j] fri by (cases "j = i") auto
  qed simp
  then have "(\<lambda>j. (?d j + 32, requested_size (B' (?d j)))) ` {j. j < n \<and> blk_magic (B' (?d j)) = HeapBlockAllocatedMagic} =
      insert (?d i + 32, z) ((\<lambda>j. (?d j + 32, requested_size (B (?d j)))) ` {j. j < n \<and> blk_magic (B (?d j)) = HeapBlockAllocatedMagic})"
    unfolding A using Bi by simp
  then show "(\<lambda>j. (slab_header s (bin_of g) j + 32, requested_size (B' (slab_header s (bin_of g) j)))) `
       {j. j < slab_blocks g (bin_of g) \<and> blk_magic (B' (slab_header s (bin_of g) j)) = HeapBlockAllocatedMagic} =
     insert (slab_header s (bin_of g) i + 32, z)
       ((\<lambda>j. (slab_header s (bin_of g) j + 32, requested_size (B (slab_header s (bin_of g) j)))) `
       {j. j < slab_blocks g (bin_of g) \<and> blk_magic (B (slab_header s (bin_of g) j)) = HeapBlockAllocatedMagic})"
    unfolding n_def b_def .
qed

lemma slab_push:
  assumes ok: "slab_ok g s B M fl" and top: "unat s + unat (total_size g) < 2 ^ 64" and i: "i < slab_blocks g (bin_of g)"
    and al: "blk_magic (B (slab_header s (bin_of g) i)) = HeapBlockAllocatedMagic"
    and g': "seg_bin_index g' = seg_bin_index g" "user_bytes g' = user_bytes g" "block_stride g' = block_stride g"
      "total_size g' = total_size g" "block_count g' = block_count g" "seg_free_count g' = seg_free_count g + 1"
      "allocation_count g' = allocation_count g - 1" "block_list g' = Some (slab_header s (bin_of g) i)"
    and M: "touches M M' (block_span s (bin_of g) i)"
    and B': "B' = B(slab_header s (bin_of g) i := (B (slab_header s (bin_of g) i))
        \<lparr>blk_magic := HeapBlockFreedMagic, requested_size := 0, next_free := block_list g\<rparr>)"
  shows "slab_ok g' s B' M' (i # fl)"
    "(\<lambda>j. (slab_header s (bin_of g) j + 32, requested_size (B' (slab_header s (bin_of g) j)))) `
       {j. j < slab_blocks g (bin_of g) \<and> blk_magic (B' (slab_header s (bin_of g) j)) = HeapBlockAllocatedMagic} =
     (\<lambda>j. (slab_header s (bin_of g) j + 32, requested_size (B (slab_header s (bin_of g) j)))) `
       {j. j < slab_blocks g (bin_of g) \<and> blk_magic (B (slab_header s (bin_of g) j)) = HeapBlockAllocatedMagic} -
     {(slab_header s (bin_of g) i + 32, requested_size (B (slab_header s (bin_of g) i)))}"
    "length fl < slab_blocks g (bin_of g)"
proof -
  define b n where "b = bin_of g" and "n = slab_blocks g b"
  let ?d = "slab_header s b"
  have b: "b < 5" and sz: "4096 \<le> unat (total_size g)" "unat (total_size g) < 4208"
    and fs: "set fl = {j. j < n \<and> blk_magic (B (?d j)) = HeapBlockFreedMagic}" and di: "distinct fl"
    and sl: "slist (\<lambda>x. next_free (B x)) (map ?d fl)" and bl: "block_list g = first_of (map ?d fl) None"
    and cnt: "seg_free_count g = of_nat (length fl)" "allocation_count g = of_nat (n - length fl)"
    and bo: "\<And>j. j < n \<Longrightarrow> slab_block_ok g s j (B (?d j)) M"
    using ok by (auto simp: slab_ok_def b_def n_def)
  have inn: "i < n" and ali: "blk_magic (B (?d i)) = HeapBlockAllocatedMagic" using i al by (simp_all add: n_def b_def)
  have inj: "?d j = ?d i \<Longrightarrow> j < n \<Longrightarrow> j = i" for j
    using slab_header_inj [OF b _ _ sz top] inn by (simp add: n_def)
  have Bo: "B' (?d j) = B (?d j)" if "j < n" "j \<noteq> i" for j using that inj [of j] by (auto simp: B' b_def)
  have Bi: "B' (?d i) = (B (?d i))\<lparr>blk_magic := HeapBlockFreedMagic, requested_size := 0, next_free := block_list g\<rparr>"
    by (simp add: B' b_def)
  have fsm: "j \<in> set fl \<longleftrightarrow> j < n \<and> blk_magic (B (?d j)) = HeapBlockFreedMagic" for j
    using fs by (simp add: set_eq_iff)
  have nf: "i \<notin> set fl" using fsm [of i] ali by simp
  have di': "distinct (i # fl)" using nf di by simp
  have fs': "set (i # fl) = {j. j < n \<and> blk_magic (B' (?d j)) = HeapBlockFreedMagic}"
  proof -
    have "j \<in> set (i # fl) \<longleftrightarrow> j < n \<and> blk_magic (B' (?d j)) = HeapBlockFreedMagic" for j
      using fsm [of j] nf Bo [of j] Bi inn by (cases "j = i") auto
    then show ?thesis by auto
  qed
  have len: "Suc (length fl) \<le> n"
  proof -
    have "card (set (i # fl)) \<le> card {..<n}" using fs' by (intro card_mono) auto
    then show ?thesis using distinct_card [OF di'] by simp
  qed
  then show "length fl < slab_blocks g (bin_of g)" by (simp add: n_def b_def)
  have sl': "slist (\<lambda>x. next_free (B' x)) (map ?d (i # fl))"
  proof -
    have "slist (\<lambda>x. next_free (B' x)) (map ?d fl) = slist (\<lambda>x. next_free (B x)) (map ?d fl)"
    proof (rule slist_cong)
      fix x assume "x \<in> set (map ?d fl)"
      then obtain j where j: "j \<in> set fl" "x = ?d j" by auto
      then have "j \<noteq> i" "j < n" using fsm [of j] nf by auto
      then show "next_free (B' x) = next_free (B x)" using Bo [of j] j by simp
    qed
    then show ?thesis using sl Bi bl by simp
  qed
  have bo': "slab_block_ok g' s j (B' (?d j)) M'" if j: "j < n" for j
  proof (cases "j = i")
    case True
    then show ?thesis using bo [OF inn] Bi g' by (simp add: slab_block_ok_def)
  next
    case False
    show ?thesis unfolding Bo [OF j False] unfolding b_def
      by (rule slab_block_frame [OF ok top _ _ False M g'(1,2)]) (use j inn in \<open>simp_all add: n_def b_def\<close>)
  qed
  have n': "slab_blocks g' b = n" by (simp add: n_def slab_blocks_def g')
  have c': "seg_free_count g' = of_nat (length (i # fl))" "allocation_count g' = of_nat (n - length (i # fl))"
  proof -
    show "seg_free_count g' = of_nat (length (i # fl))" using cnt g' by simp
    have "n - length fl = Suc (n - length (i # fl))" using len by simp
    then show "allocation_count g' = of_nat (n - length (i # fl))" using cnt g' by simp
  qed
  show "slab_ok g' s B' M' (i # fl)"
    unfolding slab_ok_def g'(1) b_def [symmetric] n'
    using ok b sz c' di' fs' sl' bo' g' by (simp add: slab_ok_def b_def n_def)
  have inj32: "(?d j + 32 = ?d i + 32) = (j = i)" if "j < n" for j using inj [of j] that by auto
  have "(\<lambda>j. (?d j + 32, requested_size (B' (?d j)))) ` {j. j < n \<and> blk_magic (B' (?d j)) = HeapBlockAllocatedMagic} =
      (\<lambda>j. (?d j + 32, requested_size (B (?d j)))) ` {j. j < n \<and> blk_magic (B (?d j)) = HeapBlockAllocatedMagic} -
      {(?d i + 32, requested_size (B (?d i)))}" (is "?L = ?R - _")
  proof -
    have A: "{j. j < n \<and> blk_magic (B' (?d j)) = HeapBlockAllocatedMagic} =
        {j. j < n \<and> blk_magic (B (?d j)) = HeapBlockAllocatedMagic} - {i}"
    proof -
      have "j < n \<and> blk_magic (B' (?d j)) = HeapBlockAllocatedMagic \<longleftrightarrow>
          (j < n \<and> blk_magic (B (?d j)) = HeapBlockAllocatedMagic) \<and> j \<noteq> i" for j
        using Bo [of j] Bi by (cases "j = i") auto
      then show ?thesis by auto
    qed
    have "?L = (\<lambda>j. (?d j + 32, requested_size (B (?d j)))) ` ({j. j < n \<and> blk_magic (B (?d j)) = HeapBlockAllocatedMagic} - {i})"
      unfolding A by (rule image_cong) (use Bo in auto)
    also have "\<dots> = ?R - {(?d i + 32, requested_size (B (?d i)))}"
      using inj32 by auto
    finally show ?thesis .
  qed
  then show "(\<lambda>j. (slab_header s (bin_of g) j + 32, requested_size (B' (slab_header s (bin_of g) j)))) `
       {j. j < slab_blocks g (bin_of g) \<and> blk_magic (B' (slab_header s (bin_of g) j)) = HeapBlockAllocatedMagic} =
     (\<lambda>j. (slab_header s (bin_of g) j + 32, requested_size (B (slab_header s (bin_of g) j)))) `
       {j. j < slab_blocks g (bin_of g) \<and> blk_magic (B (slab_header s (bin_of g) j)) = HeapBlockAllocatedMagic} -
     {(slab_header s (bin_of g) i + 32, requested_size (B (slab_header s (bin_of g) i)))}"
    unfolding n_def b_def .
qed


section \<open>Allocating a block\<close>

definition relist :: "KernelHeap \<Rightarrow> u64 \<Rightarrow> KernelHeap" where
  "relist h s = (if seg_free_count (segs h s) = 0 then heap_small_bin_remove_available h s else h)"

definition take_block :: "KernelHeap \<Rightarrow> u64 \<Rightarrow> u64 \<Rightarrow> u64 \<Rightarrow> KernelHeap" where
  "take_block h s header sz =
     (let h = set_seg h s (\<lambda>g. g\<lparr>block_list := next_free (blocks h header)\<rparr>);
          h = set_blk h header (\<lambda>b. b\<lparr>next_free := None, blk_magic := HeapBlockAllocatedMagic, requested_size := sz\<rparr>);
          h = set_seg h s (\<lambda>g. g\<lparr>seg_free_count := seg_free_count g - 1, allocation_count := allocation_count g + 1\<rparr>);
          h = relist h s;
          h = set_bytes h (fill_bytes (bytes h) (heap_block_payload_pointer header) HeapAllocatedPoison
                (unat (user_bytes (segs h s) + HeapTailCanaryBytes)))
      in heap_write_tail_canary h header)"

text \<open>The slab has lost its last free block or still has one: the lists are right again.\<close>

lemma relist_ok:
  assumes av: "avail_but (segs h) (g_small_bin_available_heads h) ss s (Some (bin_of (segs h s)))"
    and k: "seg_kind (segs h s) = HeapSegmentSlab" "bin_of (segs h s) < 5" "seg_flags (segs h s) = 1" and s: "s \<in> set ss"
  shows "avail_ok (segs (relist h s)) (g_small_bin_available_heads (relist h s)) ss"
    "inner (segs (relist h s) t) = inner (segs h t)" "same_tile (segs h t) (segs (relist h s) t)"
    "blocks (relist h s) = blocks h" "bytes (relist h s) = bytes h" "local_update h0 h s \<Longrightarrow> local_update h0 (relist h s) s"
proof -
  note r = remove_available_eq [OF av k]
  show "avail_ok (segs (relist h s)) (g_small_bin_available_heads (relist h s)) ss"
  proof (cases "seg_free_count (segs h s) = 0")
    case True
    have "avail_ok (unhook (segs h) s) (if available_prev (segs h s) = None
      then (g_small_bin_available_heads h)[bin_of (segs h s) := available_next (segs h s)] else g_small_bin_available_heads h) ss"
      by (rule avail_okI [OF r(2)]) (use True k s in \<open>simp add: unhook_def\<close>)
    then show ?thesis using True r(1) by (simp add: relist_def)
  next
    case False
    then have "relist h s = h" by (simp add: relist_def)
    moreover have "avail_ok (segs h) (g_small_bin_available_heads h) ss"
      by (rule avail_okI [OF av]) (use False k s in simp)
    ultimately show ?thesis by simp
  qed
  show "inner (segs (relist h s) t) = inner (segs h t)" "same_tile (segs h t) (segs (relist h s) t)"
    using r(1) by (simp_all add: relist_def) (simp add: same_tile_def)
  show b: "blocks (relist h s) = blocks h" "bytes (relist h s) = bytes h"
    using r(1) by (simp_all add: relist_def bytes_def)
  have o: "pool (relist h s) = pool h" "g_heap_segment_list_head (relist h s) = g_heap_segment_list_head h"
    "g_heap_start_address (relist h s) = g_heap_start_address h" "g_heap_end_address (relist h s) = g_heap_end_address h"
    "g_heap_initialized (relist h s) = g_heap_initialized h"
    using r(1) by (simp_all add: relist_def)
  show "local_update h0 h s \<Longrightarrow> local_update h0 (relist h s) s" unfolding local_update_def b o by simp
qed

lemma slab_facts:
  assumes inv: "heap_inv h ss" and s: "s \<in> set ss" and k: "seg_kind (segs h s) = HeapSegmentSlab"
  obtains fl where "slab_ok (segs h s) s (blocks h) (bytes h) fl" "bin_of (segs h s) < 5"
    "slab_blocks (segs h s) (bin_of (segs h s)) \<le> 51" "length fl \<le> slab_blocks (segs h s) (bin_of (segs h s))"
    "seg_flags (segs h s) = (if seg_free_count (segs h s) = 0 then 0 else 1)" "seg_free_count (segs h s) = 0 \<longleftrightarrow> fl = []"
    "unat (allocation_count (segs h s)) = slab_blocks (segs h s) (bin_of (segs h s)) - length fl"
proof -
  obtain fl where sl: "slab_ok (segs h s) s (blocks h) (bytes h) fl"
    using heap_inv_seg(8) [OF inv s] k by (auto simp: body_ok_def)
  define b n where "b = bin_of (segs h s)" and "n = slab_blocks (segs h s) b"
  have b: "b < 5" and sz: "4096 \<le> extent (segs h) s" "extent (segs h) s < 4208" and d: "distinct fl"
    and st: "set fl = {i. i < n \<and> blk_magic (blocks h (slab_header s b i)) = HeapBlockFreedMagic}"
    and c: "seg_free_count (segs h s) = of_nat (length fl)" "allocation_count (segs h s) = of_nat (n - length fl)"
    using sl by (auto simp: slab_ok_def b_def n_def)
  have n: "n \<le> 51" using slab_blocks_bounds(2) [OF b sz] by (simp add: n_def)
  have "card (set fl) \<le> card {..<n}" using st by (intro card_mono) auto
  then have len: "length fl \<le> n" using distinct_card [OF d] by simp
  have z: "seg_free_count (segs h s) = 0 \<longleftrightarrow> fl = []"
  proof -
    have "unat (seg_free_count (segs h s)) = length fl" using c len n by (simp add: unat32)
    then show ?thesis by (metis length_0_conv unat_eq_zero)
  qed
  have "unat (allocation_count (segs h s)) = n - length fl" unfolding c(2) using n by (intro unat32) simp
  then show ?thesis using that [OF sl] b n len inv s k z by (simp add: b_def n_def heap_inv_def avail_ok_def)
qed

lemma set_bytes_twice [simp]: "set_bytes (set_bytes h m) m' = set_bytes h m'"
  by (simp add: set_bytes_def)

lemma write_canary_eq:
  "heap_write_tail_canary h d = set_bytes h (store64 (bytes h) (d + 32 + requested_size (blocks h d)) (tail_mark d (blocks h d)))"
  by (simp add: heap_write_tail_canary_def heap_tail_canary_pointer_def heap_block_payload_pointer_def
      heap_expected_tail_canary_def tail_mark_def Let_def)

lemma touches_slab_block:
  assumes "b < 5" "i < slab_blocks g b" "4096 \<le> unat (total_size g)" "unat (total_size g) < 4208"
    "unat s + unat (total_size g) < 2 ^ 64"
  shows "unat n \<le> unat (HeapSmallBins ! b) + 8 \<Longrightarrow> touches m (fill_bytes m (slab_header s b i + 32) v (unat n)) (block_span s b i)"
    "unat z \<le> unat (HeapSmallBins ! b) \<Longrightarrow> touches m (store64 m (slab_header s b i + 32 + z) w) (block_span s b i)"
    "block_span s b i \<subseteq> {unat s + 96..<unat s + unat (total_size g)}"
proof -
  note st = slab_stride_nat [OF assms(1)]
  note hd = unat_slab_header [OF assms]
  have u: "unat (slab_header s b i + 32) = unat (slab_header s b i) + 32" using hd st assms(5) by (intro unat_payload) simp
  show "touches m (fill_bytes m (slab_header s b i + 32) v (unat n)) (block_span s b i)" if "unat n \<le> unat (HeapSmallBins ! b) + 8"
    by (rule touches_fill) (use u hd st assms(5) that in \<open>auto simp: block_span_def\<close>)
  show "touches m (store64 m (slab_header s b i + 32 + z) w) (block_span s b i)" if "unat z \<le> unat (HeapSmallBins ! b)"
  proof -
    have "unat (slab_header s b i + 32 + z) = unat (slab_header s b i) + 32 + unat z"
      using that hd st assms(5) by (intro unat_canary) simp
    then show ?thesis by (intro touches_store) (use hd st assms(5) that in \<open>auto simp: block_span_def\<close>)
  qed
  show "block_span s b i \<subseteq> {unat s + 96..<unat s + unat (total_size g)}" using hd by (auto simp: block_span_def)
qed

lemma live_in_slab:
  "seg_kind g = HeapSegmentSlab \<Longrightarrow> live_in g s B =
     (\<lambda>j. (slab_header s (bin_of g) j + 32, requested_size (B (slab_header s (bin_of g) j)))) `
       {j. j < slab_blocks g (bin_of g) \<and> blk_magic (B (slab_header s (bin_of g) j)) = HeapBlockAllocatedMagic}"
  by (simp add: live_in_def)

lemma take_block_ok:
  assumes ok: "heap_ok h ss" and s: "s \<in> set ss" and k: "seg_kind (segs h s) = HeapSegmentSlab"
    and fc: "seg_free_count (segs h s) \<noteq> 0" and z: "0 < unat sz" "unat sz \<le> unat (HeapSmallBins ! bin_of (segs h s))"
  shows "\<exists>d. block_list (segs h s) = Some d \<and> heap_ok (take_block h s d sz) ss \<and> block_granted h ss (take_block h s d sz) ss (d + 32) sz \<and>
    d + 32 \<noteq> 0"
proof -
  note inv = heap_okD(1) [OF ok]
  note gs = heap_inv_seg [OF inv s]
  define g b where "g = segs h s" and "b = bin_of g"
  obtain fl0 where sl0: "slab_ok g s (blocks h) (bytes h) fl0" and fl0: "fl0 \<noteq> []" and flg: "seg_flags g = 1" and b5: "b < 5"
    using slab_facts [OF inv s k] fc unfolding g_def b_def by metis
  obtain i fl where fl: "fl0 = i # fl" using fl0 by (cases fl0) auto
  note sl = sl0 [unfolded fl]
  have sz: "4096 \<le> unat (total_size g)" "unat (total_size g) < 4208" and ub: "user_bytes g = HeapSmallBins ! b"
    and i: "i < slab_blocks g b" and d: "block_list g = Some (slab_header s b i)"
    and fri: "blk_magic (blocks h (slab_header s b i)) = HeapBlockFreedMagic"
    using sl by (auto simp: slab_ok_def b_def)
  have top: "unat s + unat (total_size g) < 2 ^ 64" using gs(7) by (simp add: g_def)
  define hd1 where "hd1 = slab_header s b i"
  note hu = unat_slab_header [OF b5 i sz top, folded hd1_def]
  note st = slab_stride_nat [OF b5]
  note tb = touches_slab_block [OF b5 i sz top, folded hd1_def]
  define g1 where "g1 = g\<lparr>block_list := next_free (blocks h hd1), seg_free_count := seg_free_count g - 1,
    allocation_count := allocation_count g + 1\<rparr>"
  define B1 where "B1 = (blocks h)(hd1 := (blocks h hd1)\<lparr>next_free := None, blk_magic := HeapBlockAllocatedMagic, requested_size := sz\<rparr>)"
  define h1 where "h1 = set_seg (set_blk (set_seg h s (\<lambda>g. g\<lparr>block_list := next_free (blocks h hd1)\<rparr>)) hd1
      (\<lambda>b. b\<lparr>next_free := None, blk_magic := HeapBlockAllocatedMagic, requested_size := sz\<rparr>)) s
      (\<lambda>g. g\<lparr>seg_free_count := seg_free_count g - 1, allocation_count := allocation_count g + 1\<rparr>)"
  have h1: "segs h1 = (segs h)(s := g1)" "blocks h1 = B1" "bytes h1 = bytes h" "g_small_bin_available_heads h1 = g_small_bin_available_heads h"
    by (simp_all add: h1_def g1_def B1_def g_def)
  have lu1: "local_update h h1 s" unfolding h1_def
    by (intro local_update_steps local_update_refl) (use hu st in \<open>auto simp: g_def\<close>)
  have g1: "seg_kind g1 = HeapSegmentSlab" "seg_bin_index g1 = seg_bin_index g" "user_bytes g1 = user_bytes g" "block_stride g1 = block_stride g"
    "total_size g1 = total_size g" "block_count g1 = block_count g" "seg_free_count g1 = seg_free_count g - 1"
    "allocation_count g1 = allocation_count g + 1" "block_list g1 = next_free (blocks h hd1)" "seg_flags g1 = 1" "same_tile g g1"
    "available_next g1 = available_next g" "available_prev g1 = available_prev g"
    using k flg by (simp_all add: g1_def same_tile_def g_def)
  have "avail_but (segs h) (g_small_bin_available_heads h) ss s (Some b)"
    using avail_butI(1) [of "segs h" _ ss s] inv s k fc by (simp add: heap_inv_def b_def g_def)
  then have "avail_but (segs h1) (g_small_bin_available_heads h1) ss s (Some b)"
    unfolding h1(4) by (rule avail_but_cong) (simp_all add: h1(1) g1 g_def [symmetric])
  then have av: "avail_but (segs h1) (g_small_bin_available_heads h1) ss s (Some (bin_of (segs h1 s)))" by (simp add: h1(1) g1 b_def)
  note rl = relist_ok [OF av _ _ _ s]
  define h2 where "h2 = relist h1 s"
  have h2: "avail_ok (segs h2) (g_small_bin_available_heads h2) ss" "inner (segs h2 t) = inner (segs h1 t)"
    "same_tile (segs h1 t) (segs h2 t)" "blocks h2 = B1" "bytes h2 = bytes h" "local_update h h2 s" for t
    unfolding h2_def using rl(1,2,3,4,5) rl(6) [of h] lu1 b5 by (simp_all add: h1 g1 b_def)
  note f2 = inner_fields [OF h2(2) [of s]]
  have ub2: "user_bytes (segs h2 s) = HeapSmallBins ! b" using f2 g1 ub by (simp add: h1(1))
  define M1 where "M1 = fill_bytes (bytes h) (hd1 + 32) HeapAllocatedPoison (unat (HeapSmallBins ! b + 8))"
  define M2 where "M2 = store64 M1 (hd1 + 32 + sz) (tail_mark hd1 (B1 hd1))"
  define h3 where "h3 = set_bytes h2 M1"
  define h4 where "h4 = heap_write_tail_canary h3 hd1"
  have tk: "take_block h s hd1 sz = h4"
    unfolding take_block_def Let_def h1_def [symmetric] h2_def [symmetric] h4_def h3_def M1_def
    using ub2 h2(5) by (simp add: heap_block_payload_pointer_def)
  have rq: "requested_size (B1 hd1) = sz" by (simp add: B1_def)
  have h4: "segs h4 = segs h2" "blocks h4 = B1" "bytes h4 = M2" "g_small_bin_available_heads h4 = g_small_bin_available_heads h2"
    using h2(4) rq by (simp_all add: h4_def h3_def M2_def)
  have u8: "unat (HeapSmallBins ! b + 8) = unat (HeapSmallBins ! b) + 8" using st by (simp add: unat_word_ariths)
  have T1: "touches (bytes h) M1 (block_span s b i)" unfolding M1_def by (rule tb(1)) (simp add: u8)
  have "touches M1 M2 (block_span s b i)" unfolding M2_def by (rule tb(2)) (use z in \<open>simp add: b_def g_def\<close>)
  then have T: "touches (bytes h) M2 (block_span s b i)" by (rule touches_trans [OF T1]) simp
  have lu4: "local_update h h4 s"
  proof -
    have "local_update h (set_bytes h2 M2) s"
      by (rule local_update_steps(4) [OF h2(6), of _ "block_span s b i"]) (use T h2(5) tb(3) in \<open>simp_all add: g_def\<close>)
    moreover have "h4 = set_bytes h2 M2"
      using h2(4,5) rq by (simp add: h4_def h3_def M2_def write_canary_eq)
    ultimately show ?thesis by simp
  qed
  have z2: "unat sz \<le> unat (user_bytes g)" using z ub by (simp add: b_def g_def)
  have ld: "load64 M2 (hd1 + 32 + sz) = tail_mark hd1 (B1 hd1)" by (simp add: M2_def)
  have g2: "seg_bin_index (segs h2 s) = seg_bin_index g" "user_bytes (segs h2 s) = user_bytes g" "block_stride (segs h2 s) = block_stride g"
      "total_size (segs h2 s) = total_size g" "block_count (segs h2 s) = block_count g" "seg_free_count (segs h2 s) = seg_free_count g - 1"
      "allocation_count (segs h2 s) = allocation_count g + 1" "block_list (segs h2 s) = next_free (blocks h hd1)"
      "seg_kind (segs h2 s) = HeapSegmentSlab"
    using f2 g1 by (simp_all add: h1(1))
  note pop = slab_pop [OF sl top g2(1-8) [unfolded hd1_def b_def] T [unfolded b_def] B1_def [unfolded hd1_def b_def] z(1) z2
      ld [unfolded hd1_def b_def]]
  have body: "body_ok (segs h4 s) s (blocks h4) (bytes h4)" using pop(1) g2(9) unfolding h4 body_ok_def by auto
  have i4: "inner (segs h4 t) = inner (segs h t)" if "t \<noteq> s" for t using h2(2) [of t] that by (simp add: h4 h1(1))
  have t4: "same_tile (segs h t) (segs h4 t)" for t
  proof -
    have "same_tile (segs h t) (segs h1 t)" using g1(11) by (cases "t = s") (simp_all add: h1(1) g_def same_tile_def)
    then show ?thesis using h2(3) [of t] by (simp add: h4 same_tile_def)
  qed
  note u = update_inv [OF inv s lu4 i4 t4 body h2(1) [folded h4(1) h4(4)]]
  have sb: "slab_blocks (segs h2 s) = slab_blocks g" by (intro ext) (simp add: slab_blocks_def g2)
  have lin: "live_in (segs h4 s) s (blocks h4) = insert (hd1 + 32, sz) (live_in g s (blocks h))"
    using pop(2) live_in_slab [OF g2(9)] live_in_slab [OF k [folded g_def]] unfolding h4 sb g2(1) hd1_def b_def by simp
  then have lv: "live h4 ss = insert (hd1 + 32, sz) (live h ss)"
    using u(2) live_split [OF s, of h] by (simp add: g_def)
  have "apart_free (segs h4) ss = apart_free (segs h) ss"
  proof (rule apart_free_cong)
    fix x show "seg_kind (segs h4 x) = seg_kind (segs h x)"
      using inner_fields(2) [OF i4] g2(9) k by (cases "x = s") (simp_all add: h4)
  qed
  then have okk: "heap_ok h4 ss" using u(1) heap_okD(2) [OF ok] by (simp add: heap_ok_def)
  have u32: "unat (hd1 + 32) = unat hd1 + 32" using hu st top by (intro unat_payload) simp
  have fresh: "hd1 + 32 \<notin> fst ` live h ss"
  proof
    assume "hd1 + 32 \<in> fst ` live h ss"
    then obtain n where n: "(hd1 + 32, n) \<in> live h ss" by auto
    show False
    proof (cases "(hd1 + 32, n) \<in> live_others h ss s")
      case True
      from live_other_range(1) [OF inv s True] u32 hu st show False by (auto simp: g_def)
    next
      case False
      then have "(hd1 + 32, n) \<in> live_in g s (blocks h)" using n live_split [OF s, of h] by (auto simp: g_def)
      then obtain j where j: "j < slab_blocks g b" "blk_magic (blocks h (slab_header s b j)) = HeapBlockAllocatedMagic" "slab_header s b j = hd1"
        using live_in_slab [OF k [folded g_def]] by (auto simp: b_def)
      then show False using fri by (simp add: hd1_def)
    qed
  qed
  have "kept h ss h4" unfolding kept_def
  proof (clarify)
    fix q n x assume q: "(q, n) \<in> live h ss" "x < unat n"
    have "q \<noteq> hd1 + 32" using fresh q by force
    then show "bytes h4 (q + of_nat x) = bytes h (q + of_nat x)"
      unfolding h4 using slab_live_kept [OF inv s k _ _ T q(1) _ q(2)] i by (simp add: b_def g_def hd1_def)
  qed
  then have "block_granted h ss h4 ss (hd1 + 32) sz" using lv fresh by (simp add: block_granted_def)
  moreover have "hd1 + 32 \<noteq> 0" using u32 by (metis add_is_0 unat_0 zero_neq_numeral)
  ultimately show ?thesis using okk tk d by (intro exI [of _ hd1]) (simp add: g_def hd1_def)
qed

end
