(* ===== verification/Kernel_Heap_Ops.thy ===== *)
theory Kernel_Heap_Ops
  imports Kernel_Heap_Slab
begin

unbundle bit_operations_syntax

text \<open>
  The entry points of the kernel heap: small and general allocation with growth, release and
  resizing, each shown to return, to keep the heap well formed and to change the set of live
  allocations the way it promises.
\<close>

section \<open>Small allocations\<close>

lemma alloc_small_ok:
  assumes ok: "heap_ok h ss" and b: "b < 5" and z: "0 < unat sz" "unat sz \<le> unat (HeapSmallBins ! b)"
  shows "\<exists>p h' ss'. heap_alloc_small_locked h b sz = Some (p, h') \<and> heap_ok h' ss' \<and>
    (p = 0 \<longrightarrow> h' = h \<and> ss' = ss \<and> (\<forall>s \<in> set ss. \<not> fits h 4096 s)) \<and>
    (p \<noteq> 0 \<longrightarrow> block_granted h ss h' ss' p sz)"
proof -
  note inv = heap_okD(1) [OF ok]
  have use: "heap_alloc_small_locked h b sz = Some (d + 32, take_block h' s d sz)"
    if "(case g_small_bin_available_heads h ! b of Some s \<Rightarrow> Some (Some s, h) | None \<Rightarrow> heap_create_slab_segment h b) = Some (Some s, h')"
      "block_list (segs h' s) = Some d" "seg_free_count (segs h' s) \<noteq> 0" for s d h'
    using that unfolding heap_alloc_small_locked_def
    by (simp add: take_block_def relist_def heap_block_payload_pointer_def Let_def)
  show ?thesis
  proof (cases "g_small_bin_available_heads h ! b")
    case (Some s)
    have av: "avail_ok (segs h) (g_small_bin_available_heads h) ss" using inv by (simp add: heap_inv_def)
    then obtain xs where "avail_list (segs h) (Some s) xs" "set xs = slabs_of (segs h) b ss"
      using b Some unfolding avail_ok_def by metis
    then have "s \<in> slabs_of (segs h) b ss" using dll_head first_of_in by metis
    then have s: "s \<in> set ss" "seg_kind (segs h s) = HeapSegmentSlab" "bin_of (segs h s) = b" "seg_free_count (segs h s) \<noteq> 0"
      by (auto simp: slabs_of_def)
    from take_block_ok [OF ok s(1,2,4) z(1)] z(2) s(3) obtain d where d: "block_list (segs h s) = Some d"
      "heap_ok (take_block h s d sz) ss" "block_granted h ss (take_block h s d sz) ss (d + 32) sz" "d + 32 \<noteq> 0" by auto
    show ?thesis using use [OF _ d(1) s(4)] Some d by auto
  next
    case None
    from create_slab_ok [OF ok b] obtain r h' ss' where c: "heap_create_slab_segment h b = Some (r, h')" "heap_ok h' ss'"
      "live h' ss' = live h ss" "kept h ss h'" "r = None \<longrightarrow> h' = h \<and> ss' = ss \<and> (\<forall>s \<in> set ss. \<not> fits h 4096 s)"
      "\<And>s. r = Some s \<Longrightarrow> s \<in> set ss' \<and> seg_kind (segs h' s) = HeapSegmentSlab \<and> bin_of (segs h' s) = b \<and> seg_free_count (segs h' s) \<noteq> 0"
      by blast
    show ?thesis
    proof (cases r)
      case None
      then have "heap_alloc_small_locked h b sz = Some (0, h')"
        using c(1) \<open>g_small_bin_available_heads h ! b = None\<close> by (simp add: heap_alloc_small_locked_def)
      then show ?thesis using c None by blast
    next
      case (Some s)
      note s = c(6) [OF Some]
      from take_block_ok [OF c(2), of s sz] s z obtain d where d: "block_list (segs h' s) = Some d"
        "heap_ok (take_block h' s d sz) ss'" "block_granted h' ss' (take_block h' s d sz) ss' (d + 32) sz" "d + 32 \<noteq> 0" by auto
      have "block_granted h ss (take_block h' s d sz) ss' (d + 32) sz"
        using d(3) c(3) kept_trans [OF c(4), of ss'] by (auto simp: block_granted_def)
      moreover have "heap_alloc_small_locked h b sz = Some (d + 32, take_block h' s d sz)"
        by (rule use) (use None c(1) Some d(1) s in auto)
      ultimately show ?thesis using d by blast
    qed
  qed
qed

section \<open>Growth\<close>

lemma tail_from_ok:
  assumes "tiling S p (xs @ ys @ [t]) None a e" "S = segs h"
  shows "tail_from h (case first_of ys (Some t) of Some s \<Rightarrow> s) = Some t"
  using assms
proof (induction ys arbitrary: xs)
  case Nil
  have "seg_next (segs h t) = None" using Nil by (simp add: tiling_append)
  then show ?case by (subst tail_from.simps) simp
next
  case (Cons y ys)
  have n: "seg_next (segs h y) = first_of (ys @ [t]) None" using Cons.prems by (auto simp: tiling_append)
  have "tail_from h (case first_of ys (Some t) of Some s \<Rightarrow> s) = Some t"
    using Cons.IH [of "xs @ [y]"] Cons.prems by simp
  moreover have "first_of (ys @ [t]) None = Some (case first_of ys (Some t) of Some s \<Rightarrow> s)" by (cases ys) auto
  ultimately show ?case using n by (subst tail_from.simps) simp
qed

lemma tail_segment_ok:
  assumes t: "tiling (segs h) None (xs @ [t]) None a e" and f: "g_heap_segment_list_head h = first_of (xs @ [t]) None"
  shows "heap_tail_segment_locked h = Some (Some t)"
proof -
  have hd: "g_heap_segment_list_head h = Some (case first_of xs (Some t) of Some s \<Rightarrow> s)" using f by (cases xs) auto
  show ?thesis using tail_from_ok [of "segs h" None "[]" xs t _ _ h] t hd by (simp add: heap_tail_segment_locked_def)
qed

text \<open>The pages a reservation takes are the first of the free list, in a row.\<close>

lemma reserve_outcome:
  assumes ok: "pages_ok s fs" and r: "reserve_contiguous_pages s k = (a, s')"
  shows "(a = 0 \<and> s' = s) \<or> (\<exists>i. 0 < k \<and> unat k \<le> length fs \<and> take (unat k) fs = [i..<i + unat k] \<and> i < page_count_of s \<and>
    a = page_address s i)"
proof (cases "a = 0")
  case True
  show ?thesis
  proof (cases "s' = s")
    case False
    then obtain c where c: "0 < k" "\<not> list_size (free_pages s) < k" "list_head (free_pages s) = Some c"
      "contiguous_from (unat k) s (Some c) (phys_addr (page_array s c))"
      using r by (auto simp: reserve_contiguous_pages_def Let_def word_gt_0 split: if_splits option.splits)
    obtain ys where fs: "fs = c # ys" using c(3) ok by (cases fs) (auto simp: pages_ok_def free_list_def dest: dll_head)
    have cn: "c < page_count_of s" "phys_addr (page_array s c) = page_address s c"
      using pages_ok_mem [OF ok, of c] ok fs by (auto simp: pages_ok_def)
    have u: "unat k \<le> length fs"
      using c(2) ok pages_ok_length(2) [OF ok] by (simp add: pages_ok_def free_list_def word_less_nat_alt unat_of_nat_less)
    have tk: "take (unat k) fs = [c..<c + unat k]"
      using contiguous_from_iff [of s "[]" fs c "unat k"] ok c fs cn by simp
    from reserve_contiguous_ok [OF ok c(1) u tk] r True page_address_nonzero [OF pages_ok_geometry [OF ok] cn(1)]
    show ?thesis by auto
  qed (use True in simp)
next
  case False
  then obtain c where c: "0 < k" "\<not> list_size (free_pages s) < k" "list_head (free_pages s) = Some c"
    "contiguous_from (unat k) s (Some c) (phys_addr (page_array s c))" "a = phys_addr (page_array s c)"
    using r by (auto simp: reserve_contiguous_pages_def Let_def word_gt_0 split: if_splits option.splits prod.splits bool.splits)
  obtain ys where fs: "fs = c # ys" using c(3) ok by (cases fs) (auto simp: pages_ok_def free_list_def dest: dll_head)
  have cn: "c < page_count_of s" "phys_addr (page_array s c) = page_address s c"
    using pages_ok_mem [OF ok, of c] ok fs by (auto simp: pages_ok_def)
  have u: "unat k \<le> length fs"
    using c(2) ok pages_ok_length(2) [OF ok] by (simp add: pages_ok_def free_list_def word_less_nat_alt unat_of_nat_less)
  have tk: "take (unat k) fs = [c..<c + unat k]"
    using contiguous_from_iff [of s "[]" fs c "unat k"] ok c fs cn by simp
  show ?thesis using c cn u tk by auto
qed


text \<open>Exchanging the pool and the free segments, and moving the end of the arena.\<close>

lemma regrow_inv:
  assumes inv: "heap_inv h ss" and r: "reshape (segs h) ss S' ss'" and e: "unat e + 2 ^ 46 \<le> 2 ^ 64"
    and t: "tiling S' None ss' None (unat (g_heap_start_address h)) (unat e)" and f: "first_of ss' None = first_of ss None"
    and p: "pool_apart p' (unat (g_heap_start_address h)) (unat e)"
    and b: "\<And>x. unat (g_heap_start_address h) \<le> unat x \<Longrightarrow> unat x < unat (g_heap_end_address h) \<Longrightarrow>
      bytes (h\<lparr>pool := p'\<rparr>) x = bytes h x"
  defines "h' \<equiv> h\<lparr>segs := S', pool := p', g_heap_end_address := e\<rparr>"
  shows "heap_inv h' ss'" "live h' ss' = live h ss" "kept h ss h'"
proof -
  have hb: "bytes h' = bytes (h\<lparr>pool := p'\<rparr>)" by (simp add: h'_def bytes_def)
  have "\<forall>s \<in> set ss. body_ok (segs h s) s (blocks h) (bytes h')"
  proof
    fix s assume s: "s \<in> set ss"
    note g = heap_inv_seg [OF inv s]
    show "body_ok (segs h s) s (blocks h) (bytes h')"
      by (rule body_ok_frame [OF g(8) refl g(7)]) (use b g(1,2) hb in auto)
  qed
  then have bo: "\<forall>s \<in> set ss'. body_ok (S' s) s (blocks h) (bytes h')"
    by (rule reshape_body [OF _ heap_inv_seg(7) [OF inv] r])
  have av: "avail_ok S' (g_small_bin_available_heads h) ss'"
    using reshape_avail [OF _ r] inv by (simp add: heap_inv_def)
  have "ss' \<noteq> []" using inv f by (cases ss) (auto simp: heap_inv_def)
  then show "heap_inv h' ss'"
    using inv e t f p bo av by (auto simp: heap_inv_def h'_def)
  show "live h' ss' = live h ss" using reshape_live [OF r] by (simp add: live_def h'_def)
  show "kept h ss h'" unfolding kept_def
  proof (clarify)
    fix q n i assume q: "(q, n) \<in> live h ss" "i < unat n"
    then obtain s where s: "s \<in> set ss" "(q, n) \<in> live_in (segs h s) s (blocks h)" by (auto simp: live_def)
    note g = heap_inv_seg [OF inv s(1)]
    note l = live_in_range [OF s(2) g(8,7,5)]
    have "unat (q + of_nat i) = unat q + i" using l g(7) q(2) by (intro unat_plus) simp
    then show "bytes h' (q + of_nat i) = bytes h (q + of_nat i)" unfolding hb by (intro b) (use l g q(2) in auto)
  qed
qed

lemma fold_memzero_outside:
  "(\<And>i. i \<in> set is \<Longrightarrow> \<not> unat (y - f i) < 4096) \<Longrightarrow> fold (\<lambda>i m. memzero m (f i) 4096) is m y = m y"
proof (induction "is" arbitrary: m)
  case (Cons i xs)
  have "fold (\<lambda>i m. memzero m (f i) 4096) xs (memzero m (f i) 4096) y = memzero m (f i) 4096 y" using Cons by simp
  moreover have "memzero m (f i) 4096 y = m y" using Cons.prems [of i] by (simp add: memzero_apply)
  ultimately show ?case by (simp only: fold_simps)
qed simp

text \<open>Clearing a page that lies outside the arena does not change the arena.\<close>

lemma page_outside:
  fixes x a :: u64
  assumes "A \<le> unat x" "unat x < e" "unat a + unat KernelVaBase + 4096 \<le> A \<or> e \<le> unat a + unat KernelVaBase" "unat a < 2 ^ 47"
  shows "\<not> unat (x - KernelVaBase - a) < 4096"
proof -
  have k: "unat KernelVaBase = 2 ^ 64 - 2 ^ 48" by simp
  have u: "unat (a + KernelVaBase) = unat a + unat KernelVaBase" using assms(4) k by (intro unat_plus_word) simp
  have e: "x - KernelVaBase - a = x - (a + KernelVaBase)" by simp
  show ?thesis unfolding e using assms u k by (auto simp: unat_sub_if')
qed

lemma growth_pages:
  assumes ok: "pages_ok p fs" and lim: "unat (managed_phys_base p) + page_count_of p * 4096 \<le> 2 ^ 47"
    and k: "0 < k" "unat k \<le> length fs" "take (unat k) fs = [i..<i + unat k]"
  shows "i + unat k \<le> page_count_of p" "unat (page_address p i) = unat (managed_phys_base p) + i * 4096"
    "j < page_count_of p \<Longrightarrow> unat (page_address p j) = unat (managed_phys_base p) + j * 4096 \<and> unat (page_address p j) < 2 ^ 47"
    "{i..<i + unat k} \<subseteq> set fs" "j \<in> set (drop (unat k) fs) \<Longrightarrow> j < i \<or> i + unat k \<le> j"
proof -
  have u: "0 < unat k" using k(1) by (simp add: word_less_nat_alt)
  show sub: "{i..<i + unat k} \<subseteq> set fs" using k(3) by (metis set_take_subset set_upt)
  then have "i + unat k - 1 \<in> set fs" using u by auto
  then show le: "i + unat k \<le> page_count_of p" using pages_ok_mem [OF ok] by fastforce
  have pa: "unat (page_address p j) = unat (managed_phys_base p) + j * 4096 \<and> unat (page_address p j) < 2 ^ 47"
    if "j < page_count_of p" for j
  proof -
    have "unat (managed_phys_base p) + j * 4096 < 2 ^ 47" using lim that by linarith
    moreover have "unat (of_nat j * 0x1000 :: u64) = j * 4096" using calculation by (simp add: unat_word_ariths unat_of_nat)
    ultimately show ?thesis by (simp add: page_address_def unat_word_ariths)
  qed
  then show "unat (page_address p i) = unat (managed_phys_base p) + i * 4096" using le u by simp
  show "j < page_count_of p \<Longrightarrow> unat (page_address p j) = unat (managed_phys_base p) + j * 4096 \<and> unat (page_address p j) < 2 ^ 47"
    by (rule pa)
  have "distinct (take (unat k) fs @ drop (unat k) fs)" using pages_ok_distinct [OF ok] by simp
  then show "j \<in> set (drop (unat k) fs) \<Longrightarrow> j < i \<or> i + unat k \<le> j"
    using k(3) by (metis (mono_tags, lifting) IntI atLeastLessThan_iff distinct_append empty_iff not_le set_upt)
qed

text \<open>The two ways the arena grows: the free tail gets longer, or a new free segment follows a busy tail.\<close>

lemma tiling_longer:
  assumes t: "tiling S p (xs @ [t]) None a e" and w: "16 dvd unat w" "e + unat w < 2 ^ 64" and f: "free_seg S t"
  defines "S' \<equiv> S(t := (S t)\<lparr>total_size := total_size (S t) + w\<rparr>)"
  shows "tiling S' p (xs @ [t]) None a (e + unat w)" "reshape S (xs @ [t]) S' (xs @ [t])"
    "extent S' t = extent S t + unat w"
proof -
  have d: "t \<notin> set xs" using tiling_distinct [OF t] by simp
  have "unat t + extent S t = e" using t by (auto simp: tiling_append)
  then show x: "extent S' t = extent S t + unat w" unfolding S'_def using w(2) by (simp add: unat_plus_word)
  have "tiling S' p xs (Some t) a b = tiling S p xs (Some t) a b" for b
    by (rule tiling_cong) (use d in \<open>auto simp: S'_def same_tile_def\<close>)
  then show "tiling S' p (xs @ [t]) None a (e + unat w)"
    using t x w(1) by (auto simp: tiling_append) (auto simp: S'_def)
  show "reshape S (xs @ [t]) S' (xs @ [t])"
    by (rule reshapeI) (use d f in \<open>auto simp: S'_def split: if_splits\<close>)
qed

lemma tiling_appended:
  assumes t: "tiling S p (xs @ [t]) None a (unat n)" and w: "16 dvd unat w" "112 \<le> unat w" and b: "\<not> free_seg S t"
  defines "S' \<equiv> S(n := free_record w None (Some t), t := (S t)\<lparr>seg_next := Some n\<rparr>)"
  shows "tiling S' p (xs @ [t, n]) None a (unat n + unat w)" "reshape S (xs @ [t]) S' (xs @ [t, n])" "n \<noteq> t"
    "n \<notin> set xs"
proof -
  have d: "t \<notin> set xs" using tiling_distinct [OF t] by simp
  have o: "n \<notin> set (xs @ [t])" using tiling_range [OF t] by fastforce
  then show n: "n \<noteq> t" "n \<notin> set xs" by auto
  have "tiling S' p xs (Some t) a b = tiling S p xs (Some t) a b" for b
    by (rule tiling_cong) (use d o in \<open>auto simp: S'_def same_tile_def\<close>)
  then show "tiling S' p (xs @ [t, n]) None a (unat n + unat w)"
    using t n w by (auto simp: tiling_append) (auto simp: S'_def)
  show "reshape S (xs @ [t]) S' (xs @ [t, n])"
    by (rule reshapeI) (use d n in \<open>auto simp: S'_def unlinked_def split: if_splits\<close>)
qed

text \<open>The pool after a reservation, with the arena grown over the reserved pages or not.\<close>

lemma reserved_pool:
  assumes ok: "pages_ok p fs" and lim: "unat (managed_phys_base p) + page_count_of p * 4096 \<le> 2 ^ 47"
    and ap: "\<forall>j \<in> set fs. unat (page_address p j) + unat KernelVaBase + 4096 \<le> A \<or> e \<le> unat (page_address p j) + unat KernelVaBase"
    and Ae: "A < e"
    and k: "0 < k" "unat k \<le> length fs" "take (unat k) fs = [i..<i + unat k]"
    and r: "reserve_contiguous_pages p k = (page_address p i, p')"
  shows "pages_ok p' (drop (unat k) fs)" "same_pool p p'"
    "A \<le> unat x \<Longrightarrow> unat x < e \<Longrightarrow> ram p' (x - KernelVaBase) = ram p (x - KernelVaBase)"
    "unat (page_address p i) + unat k * 4096 \<le> 2 ^ 47"
    "e = unat (page_address p i) + unat KernelVaBase \<Longrightarrow> pool_apart p' A (e + unat k * 4096)"
    "pool_apart (release_contiguous_pages p' (page_address p i) k) A e"
    "ram (release_contiguous_pages p' (page_address p i) k) = ram p'"
proof -
  note g = growth_pages [OF ok lim k]
  from reserve_contiguous_ok [OF ok k] r have p': "pages_ok p' (drop (unat k) fs)" "same_pool p p'"
    "refs p' = (\<lambda>j. if j \<in> {i..<i + unat k} then 1 else refs p j)"
    "ram p' = fold (\<lambda>i m. memzero m (page_address p i) 4096) [i..<i + unat k] (ram p)" by auto
  show "pages_ok p' (drop (unat k) fs)" "same_pool p p'" using p' by auto
  note sp = same_poolD [OF p'(2)]
  show "ram p' (x - KernelVaBase) = ram p (x - KernelVaBase)" if x: "A \<le> unat x" "unat x < e" for x
    unfolding p'(4)
  proof (rule fold_memzero_outside)
    fix j assume "j \<in> set [i..<i + unat k]"
    then have j: "j \<in> set fs" using g(4) by auto
    then have "unat (page_address p j) < 2 ^ 47" using pages_ok_mem [OF ok] g(3) by blast
    then show "\<not> unat (x - KernelVaBase - page_address p j) < 4096" by (rule page_outside [OF x bspec [OF ap j]])
  qed
  show b: "unat (page_address p i) + unat k * 4096 \<le> 2 ^ 47" using g(1,2) lim by simp
  show "pool_apart p' A (e + unat k * 4096)" if e: "e = unat (page_address p i) + unat KernelVaBase"
    unfolding pool_apart_def
  proof (intro exI conjI ballI)
    show "pages_ok p' (drop (unat k) fs)" by (rule p'(1))
    show "unat (managed_phys_base p') + page_count_of p' * 4096 \<le> 2 ^ 47" using lim sp by simp
    fix j assume j: "j \<in> set (drop (unat k) fs)"
    then have m: "j \<in> set fs" by (rule in_set_dropD)
    have u: "unat (page_address p j) = unat (managed_phys_base p) + j * 4096" using pages_ok_mem [OF ok] g(3) m by blast
    show "unat (page_address p' j) + unat KernelVaBase + 4096 \<le> A \<or> e + unat k * 4096 \<le> unat (page_address p' j) + unat KernelVaBase"
      using g(5) [OF j] bspec [OF ap m] e u g(2) unfolding sp by auto
  qed
  have u: "0 < unat k" using k(1) by (simp add: word_less_nat_alt)
  have nz: "page_address p i \<noteq> 0" using page_address_nonzero [OF pages_ok_geometry [OF ok]] g(1) u by simp
  have rel: "release_contiguous_pages p' (page_address p i) k = release_pages (unat k) (page_address p i) p'"
    using p'(1) k(1) nz by (auto simp: release_contiguous_pages_def pages_ok_def geometry_ok_def)
  have le: "i + unat k \<le> page_count_of p'" using g(1) sp by simp
  have pa: "page_address p i = page_address p' i" using sp by simp
  have q: "pages_ok (release_pages (unat k) (page_address p i) p') ([i..<i + unat k] @ drop (unat k) fs)"
    "same_pool p' (release_pages (unat k) (page_address p i) p')" "ram (release_pages (unat k) (page_address p i) p') = ram p'"
    using release_pages_ok [OF p'(1) le _ pa] p'(3) by auto
  show "ram (release_contiguous_pages p' (page_address p i) k) = ram p'" using q rel by simp
  note sq = same_poolD [OF same_pool_trans [OF p'(2) q(2)]]
  have "[i..<i + unat k] @ drop (unat k) fs = fs" using k(3) by (metis append_take_drop_id)
  then show "pool_apart (release_contiguous_pages p' (page_address p i) k) A e"
    unfolding pool_apart_def rel sq using q(1) lim ap by auto
qed

lemma mark_free_eq: "heap_mark_segment_free h s sz = set_seg h s (\<lambda>g. free_record sz (seg_next g) (seg_prev g))"
  by (simp add: heap_mark_segment_free_def free_record_def)

definition roomy :: "KernelHeap \<Rightarrow> u64 list \<Rightarrow> nat \<Rightarrow> bool" where
  "roomy h ss n \<longleftrightarrow> (\<exists>s \<in> set ss. free_seg (segs h) s \<and> n \<le> extent (segs h) s)"

lemma same_place: "heap_inv h ss \<Longrightarrow> h\<lparr>segs := segs h, pool := p, g_heap_end_address := g_heap_end_address h\<rparr> = h\<lparr>pool := p\<rparr>"
  by simp

lemma kind_upd_apart:
  "apart_free S ss \<Longrightarrow> (\<And>x. x \<in> set ss \<Longrightarrow> seg_kind (S' x) = seg_kind (S x)) \<Longrightarrow> apart_free S' ss"
  using apart_free_cong by blast

text \<open>The arena grown over pages that follow it.\<close>

lemma grown_arena:
  assumes ok: "heap_ok h (xs @ [t])" and w: "16 dvd unat w" "112 \<le> unat w"
    and lim: "unat (g_heap_end_address h) + unat w + 2 ^ 46 \<le> 2 ^ 64"
    and pa: "pool_apart p' (unat (g_heap_start_address h)) (unat (g_heap_end_address h) + unat w)"
    and b: "\<And>x. unat (g_heap_start_address h) \<le> unat x \<Longrightarrow> unat x < unat (g_heap_end_address h) \<Longrightarrow>
      bytes (h\<lparr>pool := p'\<rparr>) x = bytes h x"
  defines "h1 \<equiv> h\<lparr>pool := p', g_heap_end_address := g_heap_end_address h + w\<rparr>"
  defines "h' \<equiv> (if free_seg (segs h) t then set_seg h1 t (\<lambda>g. g\<lparr>total_size := total_size g + w\<rparr>)
     else let n = g_heap_end_address h; h2 = heap_mark_segment_free h1 n w;
              h2 = set_seg h2 n (\<lambda>g. g\<lparr>seg_prev := Some t\<rparr>); h2 = set_seg h2 n (\<lambda>g. g\<lparr>seg_next := None\<rparr>)
          in set_seg h2 t (\<lambda>g. g\<lparr>seg_next := Some n\<rparr>))"
  shows "\<exists>ss'. heap_ok h' ss' \<and> live h' ss' = live h (xs @ [t]) \<and> kept h (xs @ [t]) h' \<and> roomy h' ss' (unat w)"
proof -
  note inv = heap_okD(1) [OF ok] and ap = heap_okD(2) [OF ok]
  note t = heap_inv_tiling [OF inv]
  let ?e = "g_heap_end_address h"
  have e: "unat (?e + w) = unat ?e + unat w" using lim by (intro unat_plus_word) simp
  have lim': "unat (?e + w) + 2 ^ 46 \<le> 2 ^ 64" using lim e by simp
  note pa' = pa [folded e]
  show ?thesis
  proof (cases "free_seg (segs h) t")
    case True
    have w': "unat ?e + unat w < 2 ^ 64" using lim by simp
    note g = tiling_longer [OF t w(1) w' True, folded e]
    let ?S = "(segs h)(t := (segs h t)\<lparr>total_size := total_size (segs h t) + w\<rparr>)"
    have eq: "h' = h\<lparr>segs := ?S, pool := p', g_heap_end_address := ?e + w\<rparr>"
      using True by (simp add: h'_def h1_def set_seg_def)
    note r = regrow_inv [OF inv g(2) lim' g(1) refl pa' b, folded eq]
    have "apart_free (segs h') (xs @ [t])" by (rule kind_upd_apart [OF ap]) (simp add: eq)
    then have "heap_ok h' (xs @ [t])" using r(1) by (simp add: heap_ok_def)
    moreover have "roomy h' (xs @ [t]) (unat w)" using g(3) True by (auto simp: roomy_def eq)
    ultimately show ?thesis using r(2,3) by blast
  next
    case False
    note g = tiling_appended [OF t w False, folded e]
    let ?S = "(segs h)(?e := free_record w None (Some t), t := (segs h t)\<lparr>seg_next := Some ?e\<rparr>)"
    have eq: "h' = h\<lparr>segs := ?S, pool := p', g_heap_end_address := ?e + w\<rparr>"
      using False g(3) by (simp add: h'_def h1_def mark_free_eq set_seg_def Let_def)
    have f: "first_of (xs @ [t, ?e]) None = first_of (xs @ [t]) None" by (cases xs) auto
    note r = regrow_inv [OF inv g(2) lim' g(1) f pa' b, folded eq]
    have "apart_free (segs h') (xs @ [t])" by (rule kind_upd_apart [OF ap]) (use g(3,4) in \<open>auto simp: eq\<close>)
    moreover have "\<not> free_seg (segs h') t" using False by (simp add: eq)
    ultimately have "apart_free (segs h') (xs @ [t, ?e])" by (auto simp: apart_free_append apart_free_Cons)
    then have "heap_ok h' (xs @ [t, ?e])" using r(1) by (simp add: heap_ok_def)
    moreover have "roomy h' (xs @ [t, ?e]) (unat w)" using g(3) by (auto simp: roomy_def eq)
    ultimately show ?thesis using r(2,3) by blast
  qed
qed

lemma append_growth_ok:
  assumes ok: "heap_ok h ss" and w: "4096 dvd unat w" "0 < unat w" "unat w < 2 ^ 44"
  shows "\<exists>st h' ss'. heap_append_growth_locked h w = Some (st, h') \<and> heap_ok h' ss' \<and> live h' ss' = live h ss \<and>
    kept h ss h' \<and> (st = StatusOK \<longrightarrow> roomy h' ss' (unat w))"
proof -
  note inv = heap_okD(1) [OF ok] and ap = heap_okD(2) [OF ok]
  let ?A = "unat (g_heap_start_address h)" and ?e = "unat (g_heap_end_address h)"
  define k :: u32 where "k = ucast (w div 4096)"
  have dw: "unat (w div 4096) = unat w div 4096" by (simp add: unat_div)
  have "unat w div 4096 < 2 ^ 32" using w(3) by (simp add: less_mult_imp_div_less)
  then have k: "unat k = unat w div 4096" using dw by (simp add: k_def unsigned_ucast_eq take_bit_nat_eq_self)
  have kw: "unat k * 4096 = unat w" using k w(1) by simp
  have g1: "w \<noteq> 0" "w mod 4096 = 0" using w by (auto simp: word_unat_eq_iff unat_mod)
  obtain p1 a where r: "reserve_contiguous_pages (pool h) k = (a, p1)" by fastforce
  from inv obtain fs where fs: "pages_ok (pool h) fs" "unat (managed_phys_base (pool h)) + page_count_of (pool h) * 4096 \<le> 2 ^ 47"
    "\<forall>j \<in> set fs. unat (page_address (pool h) j) + unat KernelVaBase + 4096 \<le> ?A \<or> ?e \<le> unat (page_address (pool h) j) + unat KernelVaBase"
    by (auto simp: heap_inv_def pool_apart_def)
  obtain xs t where ss: "ss = xs @ [t]" using inv by (cases ss rule: rev_cases) (auto simp: heap_inv_def)
  have Ae: "?A < ?e" using heap_inv_seg(1-3) [OF inv, of t] ss by simp
  show ?thesis
  proof (cases "a = 0")
    case True
    then have "p1 = pool h" using reserve_outcome [OF fs(1) r] page_address_nonzero [OF pages_ok_geometry [OF fs(1)]] by metis
    then have "heap_append_growth_locked h w = Some (StatusNoMemory, h)"
      using r True g1 by (simp add: heap_append_growth_locked_def k_def [symmetric] Let_def)
    then show ?thesis using ok by (auto simp: kept_def)
  next
    case False
    then obtain i where i: "0 < k" "unat k \<le> length fs" "take (unat k) fs = [i..<i + unat k]" "a = page_address (pool h) i"
      using reserve_outcome [OF fs(1) r] by auto
    note rp = reserved_pool [OF fs Ae i(1-3) r [unfolded i(4)], folded i(4)]
    have b: "bytes (h\<lparr>pool := q\<rparr>) x = bytes h x" if "?A \<le> unat x" "unat x < ?e" "ram q = ram p1" for x q
      using rp(3) [OF that(1,2)] that(3) by (simp add: bytes_def)
    show ?thesis
    proof (cases "physical_to_kernel a = g_heap_end_address h")
      case True
      have ka: "unat a + unat KernelVaBase < 2 ^ 64" using rp(4) by simp
      have e: "?e = unat a + unat KernelVaBase" using unat_plus_word [OF ka] True by (simp add: physical_to_kernel_def)
      have lim: "?e + unat w + 2 ^ 46 \<le> 2 ^ 64" using rp(4) kw e by simp
      have w16: "16 dvd unat w" "112 \<le> unat w" using w(1,2) by (auto intro: dvd_trans dest: dvd_imp_le)
      have tl: "heap_tail_segment_locked (h\<lparr>pool := p1\<rparr>) = Some (Some t)"
        by (rule tail_segment_ok [where xs = xs and a = ?A and e = ?e]) (use heap_inv_tiling [OF inv] inv ss in \<open>auto simp: heap_inv_def\<close>)
      let ?h = "if free_seg (segs h) t
        then set_seg (h\<lparr>pool := p1, g_heap_end_address := g_heap_end_address h + w\<rparr>) t (\<lambda>g. g\<lparr>total_size := total_size g + w\<rparr>)
        else let n = g_heap_end_address h;
                 h2 = heap_mark_segment_free (h\<lparr>pool := p1, g_heap_end_address := g_heap_end_address h + w\<rparr>) n w;
                 h2 = set_seg h2 n (\<lambda>g. g\<lparr>seg_prev := Some t\<rparr>); h2 = set_seg h2 n (\<lambda>g. g\<lparr>seg_next := None\<rparr>)
             in set_seg h2 t (\<lambda>g. g\<lparr>seg_next := Some n\<rparr>)"
      have "heap_append_growth_locked h w = Some (StatusOK, ?h)"
        using r \<open>a \<noteq> 0\<close> g1 True tl by (simp add: heap_append_growth_locked_def k_def [symmetric] Let_def)
      moreover have "\<exists>ss'. heap_ok ?h ss' \<and> live ?h ss' = live h (xs @ [t]) \<and> kept h (xs @ [t]) ?h \<and> roomy ?h ss' (unat w)"
        by (rule grown_arena [OF ok [unfolded ss] w16 lim rp(5) [OF e, unfolded kw] b]) simp_all
      ultimately show ?thesis unfolding ss by blast
    next
      case False
      let ?p = "release_contiguous_pages p1 a k"
      have "heap_append_growth_locked h w = Some (StatusFault, h\<lparr>pool := ?p\<rparr>)"
        using r \<open>a \<noteq> 0\<close> g1 False by (simp add: heap_append_growth_locked_def k_def [symmetric] Let_def)
      moreover have eq: "h\<lparr>segs := segs h, pool := ?p, g_heap_end_address := g_heap_end_address h\<rparr> = h\<lparr>pool := ?p\<rparr>" by simp
      have "unat (g_heap_end_address h) + 2 ^ 46 \<le> 2 ^ 64" using inv by (simp add: heap_inv_def)
      note rg = regrow_inv [OF inv reshape_refl this heap_inv_tiling [OF inv] refl rp(6) b [OF _ _ rp(7)], unfolded eq]
      moreover have "heap_ok (h\<lparr>pool := ?p\<rparr>) ss" using rg(1) ap by (simp add: heap_ok_def)
      ultimately show ?thesis by auto
    qed
  qed
qed


section \<open>Allocation\<close>

lemma small_bin:
  assumes "heap_small_bin_index_for_request sz al = Some b"
  shows "b < 5" "unat sz \<le> unat (HeapSmallBins ! b)" "0 < unat sz" "unat al \<le> 16"
  using assms by (auto simp: heap_small_bin_index_for_request_def find_Some_iff word_le_nat_alt word_less_nat_alt unat_gt_0
      split: if_splits)

text \<open>A request the arena can serve once it has grown.\<close>

definition valid_request :: "u64 \<Rightarrow> u64 \<Rightarrow> nat \<Rightarrow> bool" where
  "valid_request sz al k \<longleftrightarrow> sane sz al k \<and> k \<le> 42"

lemma small_room: "roomy h ss 4096 \<Longrightarrow> \<exists>s \<in> set ss. fits h 4096 s"
  by (auto simp: roomy_def fits_def word_le_nat_alt)

lemma heap_spot: "heap_inv h ss \<Longrightarrow> s \<in> set ss \<Longrightarrow> free_seg (segs h) s \<Longrightarrow> spot h s"
  using heap_inv_seg [of h ss s] by (auto simp: spot_def heap_inv_def)

lemma general_room:
  assumes "heap_ok h ss" "valid_request sz al k" "roomy h ss (136 + unat sz + 2 ^ k)"
  shows "\<exists>s \<in> set ss. candidate h sz al s"
  using assms roomy_candidate [of h _ sz al k] heap_spot [OF heap_okD(1) [OF assms(1)]]
  by (auto simp: roomy_def candidate_def valid_request_def)

lemma growth_numbers:
  assumes r: "valid_request sz al k"
  defines "w \<equiv> heap_growth_bytes_for_request sz al"
  shows "4096 dvd unat w" "0 < unat w" "unat w < 2 ^ 44"
    "if heap_small_bin_index_for_request sz al = None then 136 + unat sz + 2 ^ k \<le> unat w else 4096 \<le> unat w"
proof -
  have sn: "sane sz al k" and k: "k \<le> 42" using r by (auto simp: valid_request_def)
  note sf = sane_facts [OF sn]
  have sz: "unat sz < 2 ^ 43" using sn by (simp add: sane_def)
  have k2: "(2 :: nat) ^ k \<le> 2 ^ 42" using k by (intro power_increasing) auto
  define v where "v = (if heap_small_bin_index_for_request sz al \<noteq> None \<and> al \<le> 16 then heap_slab_segment_bytes 0
      else align_up (96 + 32 + sz + al + 8) 16)"
  have small: "heap_small_bin_index_for_request sz al \<noteq> None \<Longrightarrow> al \<le> 16" using small_bin(4) by (auto simp: word_le_nat_alt)
  have s: "unat (96 + 32 + sz + al + 8) = 136 + unat sz + 2 ^ k"
    using sz k2 sf(2) by (simp add: unat_word_ariths)
  have u: "unat (align_up (96 + 32 + sz + al + 8) 16) = up16 (136 + unat sz + 2 ^ k)"
    using unat_align16 [of "96 + 32 + sz + al + 8"] s sz k2 by simp
  have v: "if heap_small_bin_index_for_request sz al = None then 136 + unat sz + 2 ^ k \<le> unat v else unat v = 4096"
    "unat v < 2 ^ 43 + 2 ^ 42 + 8192"
    using small u up16_facts(1,2) [of "136 + unat sz + 2 ^ k"] sz k2 by (auto simp: v_def)
  define v' where "v' = (if v < 0x1000 then 0x1000 else v)"
  have v': "unat v \<le> unat v'" "4096 \<le> unat v'" "unat v' < 2 ^ 43 + 2 ^ 42 + 8192"
    using v(2) by (auto simp: v'_def word_less_nat_alt)
  have w: "w = align_up v' (2 ^ 12)" by (simp add: w_def heap_growth_bytes_for_request_def v_def v'_def Let_def)
  have "unat v' + 2 ^ 12 \<le> 2 ^ 64" using v'(3) by simp
  then have uw: "unat w = (unat v' + (4096 - 1)) div 4096 * 4096" using align_up_nat [of 12 v'] by (simp add: w)
  note rb = round_up_bounds [of 4096 "unat v'", simplified uw [symmetric]]
  have b: "unat v' \<le> unat w" "unat w < unat v' + 4096" "4096 dvd unat w" using rb(1-3) uw by simp_all
  then show "4096 dvd unat w" "0 < unat w" "unat w < 2 ^ 44" using v' by simp_all
  show "if heap_small_bin_index_for_request sz al = None then 136 + unat sz + 2 ^ k \<le> unat w else 4096 \<le> unat w"
    using v(1) v'(1) b(1) by (auto split: if_splits)
qed

definition block_served :: "KernelHeap \<Rightarrow> u64 list \<Rightarrow> KernelHeap \<Rightarrow> u64 list \<Rightarrow> u64 \<Rightarrow> u64 \<Rightarrow> nat \<Rightarrow> bool" where
  "block_served h ss h' ss' p sz k \<longleftrightarrow> heap_ok h' ss' \<and> block_granted h ss h' ss' p sz \<and> 2 ^ k dvd unat p"

lemma live_aligned: "heap_ok h ss \<Longrightarrow> (q, n) \<in> live h ss \<Longrightarrow> 16 dvd unat q"
  using live_in_range(3) [OF _ heap_inv_seg(8,7,5) [OF heap_okD(1)]] by (fastforce simp: live_def)

lemma attempt_ok:
  assumes ok: "heap_ok h ss" and r: "valid_request sz al k"
  shows "\<exists>p h'. alloc_attempt h sz al = Some (p, h') \<and>
    (if p = 0 then h' = h \<and> (\<forall>s \<in> set ss. \<not> candidate h sz al s) \<and>
       (heap_small_bin_index_for_request sz al \<noteq> None \<longrightarrow> (\<forall>s \<in> set ss. \<not> fits h 4096 s))
     else \<exists>ss'. block_served h ss h' ss' p sz k)"
proof -
  have sn: "sane sz al k" using r by (simp add: valid_request_def)
  from alloc_general_ok [OF ok sn] obtain p h' ss' where g: "heap_alloc_general_locked h sz al = Some (p, h')" "heap_ok h' ss'"
    "p = 0 \<Longrightarrow> h' = h \<and> ss' = ss \<and> (\<forall>s \<in> set ss. \<not> candidate h sz al s)" "p \<noteq> 0 \<Longrightarrow> block_granted h ss h' ss' p sz \<and> 2 ^ k dvd unat p" by blast
  have gs: "p \<noteq> 0 \<Longrightarrow> block_served h ss h' ss' p sz k" using g by (auto simp: block_served_def)
  show ?thesis
  proof (cases "heap_small_bin_index_for_request sz al")
    case None
    then have "alloc_attempt h sz al = Some (p, h')" using g(1) by (simp add: alloc_attempt_def)
    then show ?thesis using g gs None by auto
  next
    case (Some b)
    note sb = small_bin [OF Some]
    from alloc_small_ok [OF ok sb(1,3,2)] obtain p1 h1 ss1 where a: "heap_alloc_small_locked h b sz = Some (p1, h1)" "heap_ok h1 ss1"
      "p1 = 0 \<Longrightarrow> h1 = h \<and> ss1 = ss \<and> (\<forall>s \<in> set ss. \<not> fits h 4096 s)" "p1 \<noteq> 0 \<Longrightarrow> block_granted h ss h1 ss1 p1 sz" by blast
    show ?thesis
    proof (cases "p1 = 0")
      case True
      then have "alloc_attempt h sz al = Some (p, h')" using g(1) a Some by (simp add: alloc_attempt_def)
      then show ?thesis using g gs a(3) [OF True] by auto
    next
      case False
      then have e: "alloc_attempt h sz al = Some (p1, h1)" using a Some by (simp add: alloc_attempt_def)
      have "2 ^ k \<le> (16 :: nat)" "4 \<le> k" using sb(4) sane_facts(2) [OF sn] sn by (auto simp: sane_def)
      then have "2 ^ k = (16 :: nat)"
        using power_increasing [of 4 k "2 :: nat"] by simp
      moreover have "16 dvd unat p1" using live_aligned [OF a(2), of p1 sz] a(4) [OF False] by (auto simp: block_granted_def)
      ultimately have "block_served h ss h1 ss1 p1 sz k" using a False by (simp add: block_served_def)
      then show ?thesis using e False by auto
    qed
  qed
qed

lemma granted_after:
  assumes "live h1 ss1 = live h ss" "kept h ss h1" "block_granted h1 ss1 h' ss' p sz"
  shows "block_granted h ss h' ss' p sz"
  using assms kept_trans [OF assms(2), of ss1 h'] by (auto simp: block_granted_def)

text \<open>An allocation fails only when no free segment has room and the arena cannot grow.\<close>

definition exhausted :: "KernelHeap \<Rightarrow> u64 list \<Rightarrow> u64 \<Rightarrow> u64 \<Rightarrow> bool" where
  "exhausted h ss sz al \<longleftrightarrow> (\<forall>s \<in> set ss. \<not> candidate h sz al s) \<and>
     (\<exists>st h'. heap_grow_locked h sz al = Some (st, h') \<and> st \<noteq> StatusOK)"

lemma alloc_request_ok:
  assumes ok: "heap_ok h ss" and r: "valid_request sz al k"
  shows "\<exists>p h' ss'. heap_alloc_impl h sz al = Some (p, h') \<and> heap_ok h' ss' \<and>
    (if p = 0 then live h' ss' = live h ss \<and> kept h ss h' \<and> exhausted h ss sz al else block_served h ss h' ss' p sz k)"
proof -
  have sn: "sane sz al k" using r by (simp add: valid_request_def)
  note sf = sane_facts [OF sn]
  note gn = growth_numbers [OF r]
  have g0: "g_heap_initialized h" "sz \<noteq> 0" "\<not> al < 16" "is_power_of_two al"
    using heap_okD(1) [OF ok] sf by (auto simp: heap_inv_def word_less_nat_alt)
  from attempt_ok [OF ok r] obtain p h1 where a: "alloc_attempt h sz al = Some (p, h1)"
    "if p = 0 then h1 = h \<and> (\<forall>s \<in> set ss. \<not> candidate h sz al s) \<and>
       (heap_small_bin_index_for_request sz al \<noteq> None \<longrightarrow> (\<forall>s \<in> set ss. \<not> fits h 4096 s))
     else \<exists>ss'. block_served h ss h1 ss' p sz k" by blast
  show ?thesis
  proof (cases "p = 0")
    case False
    then have "heap_alloc_impl h sz al = Some (p, h1)" using a(1) g0 by (simp add: heap_alloc_impl_def)
    then show ?thesis using a(2) False by (auto simp: block_served_def)
  next
    case True
    from append_growth_ok [OF ok gn(1-3)] obtain st h2 ss2 where g: "heap_grow_locked h sz al = Some (st, h2)" "heap_ok h2 ss2"
      "live h2 ss2 = live h ss" "kept h ss h2" "st = StatusOK \<Longrightarrow> roomy h2 ss2 (unat (heap_growth_bytes_for_request sz al))"
      unfolding heap_grow_locked_def by blast
    show ?thesis
    proof (cases "st = StatusOK")
      case False
      then have "heap_alloc_impl h sz al = Some (0, h2)" using a True g0 g(1) by (simp add: heap_alloc_impl_def)
      moreover have "exhausted h ss sz al" using a(2) True g(1) False by (auto simp: exhausted_def)
      ultimately show ?thesis using g(2-4) by auto
    next
      case st: True
      from attempt_ok [OF g(2) r] obtain p3 h3 where b: "alloc_attempt h2 sz al = Some (p3, h3)"
        "if p3 = 0 then h3 = h2 \<and> (\<forall>s \<in> set ss2. \<not> candidate h2 sz al s) \<and>
           (heap_small_bin_index_for_request sz al \<noteq> None \<longrightarrow> (\<forall>s \<in> set ss2. \<not> fits h2 4096 s))
         else \<exists>ss'. block_served h2 ss2 h3 ss' p3 sz k" by blast
      have "p3 \<noteq> 0"
      proof
        assume z: "p3 = 0"
        show False
        proof (cases "heap_small_bin_index_for_request sz al")
          case None
          then have "roomy h2 ss2 (136 + unat sz + 2 ^ k)" using g(5) [OF st] gn(4) by (auto simp: roomy_def intro: order_trans)
          from general_room [OF g(2) r this] b(2) z show False by simp
        next
          case (Some x)
          then have "roomy h2 ss2 4096" using g(5) [OF st] gn(4) by (auto simp: roomy_def intro: order_trans)
          from small_room [OF this] b(2) z Some show False by simp
        qed
      qed
      moreover have "heap_alloc_impl h sz al = Some (p3, h3)" using a True g0 g(1) st b(1) by (simp add: heap_alloc_impl_def)
      ultimately show ?thesis using b(2) granted_after [OF g(3,4)] by (auto simp: block_served_def)
    qed
  qed
qed

text \<open>Every size and alignment the arena could ever hold: the entry point returns.\<close>

lemma alloc_ok:
  assumes ok: "heap_ok h ss" and sz: "unat sz < 2 ^ 43" and al: "unat al \<le> 2 ^ 42"
  shows "\<exists>p h' ss'. heap_alloc_impl h sz al = Some (p, h') \<and> heap_ok h' ss' \<and>
    (if p = 0 then live h' ss' = live h ss \<and> kept h ss h' \<and>
       (sz = 0 \<or> \<not> is_power_of_two (if al < 16 then 16 else al) \<or> exhausted h ss sz (if al < 16 then 16 else al))
     else block_granted h ss h' ss' p sz \<and> unat (if al < 16 then 16 else al) dvd unat p)"
proof (cases "sz = 0 \<or> \<not> is_power_of_two (if al < 16 then 16 else al)")
  case True
  then have "heap_alloc_impl h sz al = Some (0, h)" by (auto simp: heap_alloc_impl_def Let_def)
  then show ?thesis using ok True by (auto simp: kept_def)
next
  case False
  define a where "a = (if al < 16 then 16 else al)"
  have a: "16 \<le> unat a" "unat a \<le> 2 ^ 42" "is_power_of_two a" "sz \<noteq> 0"
    using False al by (auto simp: a_def word_less_nat_alt)
  obtain k where k: "k < 64" "a = 2 ^ k" "unat a = 2 ^ k" by (rule power_of_two_mask [OF a(3)])
  have "(2 :: nat) ^ 4 \<le> 2 ^ k" "(2 :: nat) ^ k \<le> 2 ^ 42" using a k(3) by simp_all
  then have "4 \<le> k" "k \<le> 42" by (simp_all only: power_increasing_iff [of "2 :: nat"] one_less_numeral_iff semiring_norm)
  then have r: "valid_request sz a k" using sz a(4) k by (simp add: valid_request_def sane_def unat_gt_0)
  have e: "heap_alloc_impl h sz al = heap_alloc_impl h sz a" by (auto simp: heap_alloc_impl_def a_def Let_def)
  from alloc_request_ok [OF ok r] obtain p h' ss' where "heap_alloc_impl h sz a = Some (p, h')" "heap_ok h' ss'"
    "if p = 0 then live h' ss' = live h ss \<and> kept h ss h' \<and> exhausted h ss sz a else block_served h ss h' ss' p sz k" by blast
  then show ?thesis unfolding e a_def [symmetric] k(3)
    by (intro exI [of _ p] exI [of _ h'] exI [of _ ss']) (auto simp: block_served_def split: if_splits)
qed

end
