(* ===== verification/Kernel_Heap_Free.thy ===== *)
theory Kernel_Heap_Free
  imports Kernel_Heap_Ops
begin

unbundle bit_operations_syntax

text \<open>
  Release of kernel heap memory: the checks every pointer passes before it is believed, the release of
  general allocations and of slab blocks, and the rejection of pointers that are not live.
\<close>

section \<open>Looking up a pointer\<close>

lemma range_valid:
  assumes inv: "heap_inv h ss" and a: "unat (g_heap_start_address h) \<le> unat a" "unat a + unat n \<le> unat (g_heap_end_address h)" "0 < unat n"
  shows "heap_range_valid h a n"
proof -
  have st: "0 < unat (g_heap_start_address h)" using inv by (simp add: heap_inv_def)
  have "a \<le> g_heap_end_address h" using a by (simp add: word_le_nat_alt)
  then have "unat (g_heap_end_address h - a) = unat (g_heap_end_address h) - unat a" by (simp add: unat_sub)
  then show ?thesis using a st by (auto simp: heap_range_valid_def word_le_nat_alt word_less_nat_alt)
qed

lemma segment_end: "heap_inv h ss \<Longrightarrow> s \<in> set ss \<Longrightarrow> unat (heap_segment_end_address h s) = unat s + extent (segs h) s"
  using heap_inv_seg(7) [of h ss s] by (simp add: heap_segment_end_address_def unat_plus_word)

lemma header_inside:
  assumes inv: "heap_inv h ss" and s: "s \<in> set ss" and d: "unat s + 96 \<le> unat d" "unat d + 32 \<le> unat s + extent (segs h) s"
  shows "heap_block_header_inside_segment h s d" "heap_range_valid h d 32"
proof -
  note g = heap_inv_seg [OF inv s]
  show r: "heap_range_valid h d 32" by (rule range_valid [OF inv]) (use g d in simp_all)
  have "unat (d + 32) = unat d + 32" using d g(7) by (intro unat_payload) simp
  then show "heap_block_header_inside_segment h s d"
    using r d segment_end [OF inv s] by (simp add: heap_block_header_inside_segment_def word_le_nat_alt)
qed

lemma canary_valid_iff:
  "heap_tail_canary_valid h d \<longleftrightarrow> load64 (bytes h) (d + 32 + requested_size (blocks h d)) = tail_mark d (blocks h d)"
  by (simp add: heap_tail_canary_valid_def heap_tail_canary_pointer_def heap_block_payload_pointer_def
      heap_expected_tail_canary_def tail_mark_def Let_def)

text \<open>What is known of the header of a live allocation.\<close>

lemma live_block_header:
  assumes inv: "heap_inv h ss" and s: "s \<in> set ss" and q: "(q, n) \<in> live_in (segs h s) s (blocks h)"
  shows "unat s + 96 \<le> unat (q - 32)" "unat q = unat (q - 32) + 32" "unat q + unat n + 8 \<le> unat s + extent (segs h) s"
    "live_block (q - 32) (blocks h (q - 32)) (bytes h)" "requested_size (blocks h (q - 32)) = n"
    "owner_segment (blocks h (q - 32)) = Some s"
    "blk_kind (blocks h (q - 32)) = (if seg_kind (segs h s) = HeapSegmentGeneral then HeapBlockGeneral else HeapBlockSlab)"
    "seg_kind (segs h s) = HeapSegmentGeneral \<Longrightarrow> block_list (segs h s) = Some (q - 32) \<and> n = user_bytes (segs h s)"
    "seg_kind (segs h s) \<noteq> HeapSegmentGeneral \<Longrightarrow> seg_kind (segs h s) = HeapSegmentSlab \<and>
       (\<exists>i. i < slab_blocks (segs h s) (bin_of (segs h s)) \<and> q - 32 = slab_header s (bin_of (segs h s)) i)"
proof -
  note g = heap_inv_seg [OF inv s]
  note r = live_in_range [OF q g(8,7,5)]
  have "unat (q - 32) = unat q - 32" using r(1) by (simp add: unat_sub word_le_nat_alt)
  then show "unat s + 96 \<le> unat (q - 32)" "unat q = unat (q - 32) + 32" "unat q + unat n + 8 \<le> unat s + extent (segs h) s"
    using r by simp_all
  have "live_block (q - 32) (blocks h (q - 32)) (bytes h) \<and> requested_size (blocks h (q - 32)) = n \<and>
    owner_segment (blocks h (q - 32)) = Some s \<and>
    blk_kind (blocks h (q - 32)) = (if seg_kind (segs h s) = HeapSegmentGeneral then HeapBlockGeneral else HeapBlockSlab) \<and>
    (seg_kind (segs h s) = HeapSegmentGeneral \<longrightarrow> block_list (segs h s) = Some (q - 32) \<and> n = user_bytes (segs h s)) \<and>
    (seg_kind (segs h s) \<noteq> HeapSegmentGeneral \<longrightarrow> seg_kind (segs h s) = HeapSegmentSlab \<and>
       (\<exists>i. i < slab_blocks (segs h s) (bin_of (segs h s)) \<and> q - 32 = slab_header s (bin_of (segs h s)) i))"
  proof (cases "seg_kind (segs h s) = HeapSegmentGeneral")
    case True
    then show ?thesis using q g(8) by (auto simp: live_in_def body_ok_def general_ok_def)
  next
    case False
    then have k: "seg_kind (segs h s) = HeapSegmentSlab" using q by (auto simp: live_in_def split: if_splits)
    then obtain fl where sl: "slab_ok (segs h s) s (blocks h) (bytes h) fl" using g(8) by (auto simp: body_ok_def)
    obtain i where i: "i < slab_blocks (segs h s) (bin_of (segs h s))" "q = slab_header s (bin_of (segs h s)) i + 32"
      "blk_magic (blocks h (slab_header s (bin_of (segs h s)) i)) = HeapBlockAllocatedMagic"
      "n = requested_size (blocks h (slab_header s (bin_of (segs h s)) i))"
      using q live_in_slab [OF k] by auto
    have "slab_block_ok (segs h s) s i (blocks h (slab_header s (bin_of (segs h s)) i)) (bytes h)"
      using sl i(1) by (simp add: slab_ok_def)
    then show ?thesis using i k by (auto simp: slab_block_ok_def)
  qed
  then show "live_block (q - 32) (blocks h (q - 32)) (bytes h)" "requested_size (blocks h (q - 32)) = n"
    "owner_segment (blocks h (q - 32)) = Some s"
    "blk_kind (blocks h (q - 32)) = (if seg_kind (segs h s) = HeapSegmentGeneral then HeapBlockGeneral else HeapBlockSlab)"
    "seg_kind (segs h s) = HeapSegmentGeneral \<Longrightarrow> block_list (segs h s) = Some (q - 32) \<and> n = user_bytes (segs h s)"
    "seg_kind (segs h s) \<noteq> HeapSegmentGeneral \<Longrightarrow> seg_kind (segs h s) = HeapSegmentSlab \<and>
       (\<exists>i. i < slab_blocks (segs h s) (bin_of (segs h s)) \<and> q - 32 = slab_header s (bin_of (segs h s)) i)"
    by blast+
qed

lemma lookup_live:
  assumes inv: "heap_inv h ss" and s: "s \<in> set ss" and q: "(q, n) \<in> live_in (segs h s) s (blocks h)"
  shows "heap_lookup_live_allocation_locked h q = Some (q - 32, s)" "q \<noteq> 0"
proof -
  note g = heap_inv_seg [OF inv s]
  note l = live_block_header [OF inv s q]
  have e: "unat (g_heap_end_address h) + 2 ^ 46 \<le> 2 ^ 64" using inv by (simp add: heap_inv_def)
  show nz: "q \<noteq> 0" using l(2) by auto
  have r1: "heap_range_valid h q 1" by (rule range_valid [OF inv]) (use g l in simp_all)
  have "unat (g_heap_start_address h + 32) = unat (g_heap_start_address h) + 32"
    using g l e by (intro unat_payload) simp
  then have r2: "\<not> q < g_heap_start_address h + 32" using g l by (simp add: word_less_nat_alt)
  note hi = header_inside [OF inv s l(1)]
  have hi': "heap_block_header_inside_segment h s (q - 32)" "heap_range_valid h (q - 32) 32" using hi l(2,3) by simp_all
  have mg: "blk_magic (blocks h (q - 32)) = HeapBlockAllocatedMagic" "heap_tail_canary_valid h (q - 32)"
    using l(4) by (auto simp: live_block_def canary_valid_iff)
  have k: "\<not> (blk_kind (blocks h (q - 32)) = HeapBlockGeneral \<and> seg_kind (segs h s) \<noteq> HeapSegmentGeneral)"
    "\<not> (blk_kind (blocks h (q - 32)) = HeapBlockSlab \<and> seg_kind (segs h s) \<noteq> HeapSegmentSlab)"
    using l(7,9) by (cases "seg_kind (segs h s) = HeapSegmentGeneral", auto)+
  show "heap_lookup_live_allocation_locked h q = Some (q - 32, s)"
    unfolding heap_lookup_live_allocation_locked_def Let_def l(6)
    using nz r1 r2 hi' mg k seg_pointer_valid [OF inv s] by simp
qed

section \<open>Released allocations\<close>

definition released :: "KernelHeap \<Rightarrow> u64 list \<Rightarrow> KernelHeap \<Rightarrow> u64 list \<Rightarrow> u64 \<Rightarrow> bool" where
  "released h ss h' ss' q \<longleftrightarrow> live h' ss' = {(p, n) \<in> live h ss. p \<noteq> q} \<and>
     (\<forall>(p, n) \<in> live h ss. p \<noteq> q \<longrightarrow> (\<forall>i < unat n. bytes h' (p + of_nat i) = bytes h (p + of_nat i)))"

lemma live_segment:
  assumes "(q, n) \<in> live h ss" obtains s where "s \<in> set ss" "(q, n) \<in> live_in (segs h s) s (blocks h)"
  using assms by (auto simp: live_def)

lemma live_size_unique:
  assumes inv: "heap_inv h ss" and "(q, n) \<in> live h ss" "(q, m) \<in> live h ss" shows "n = m"
proof -
  obtain s where s: "s \<in> set ss" "(q, n) \<in> live_in (segs h s) s (blocks h)" by (rule live_segment [OF assms(2)])
  obtain t where t: "t \<in> set ss" "(q, m) \<in> live_in (segs h t) t (blocks h)" by (rule live_segment [OF assms(3)])
  show ?thesis using live_block_header(5) [OF inv s] live_block_header(5) [OF inv t] by simp
qed

lemma live_others_apart:
  assumes inv: "heap_inv h ss" and s: "s \<in> set ss" and q: "(q, n) \<in> live_in (segs h s) s (blocks h)"
    and p: "(p, m) \<in> live_others h ss s"
  shows "p \<noteq> q"
  using live_other_range(1) [OF inv s p] live_in_range [OF q heap_inv_seg(8,7,5) [OF inv s]] by auto

lemma live_without:
  assumes inv: "heap_inv h ss" and s: "s \<in> set ss" and q: "(q, n) \<in> live_in (segs h s) s (blocks h)"
  shows "{(p, m) \<in> live h ss. p \<noteq> q} = live_others h ss s \<union> (live_in (segs h s) s (blocks h) - {(q, n)})"
proof -
  have "(q, m) \<in> live_in (segs h s) s (blocks h) \<Longrightarrow> m = n" for m
    using live_size_unique [OF inv, of q m n] q s by (auto simp: live_def)
  then show ?thesis using live_split [OF s, of h] live_others_apart [OF inv s q] by auto
qed

section \<open>General allocations\<close>

lemma general_capacity:
  assumes inv: "heap_inv h ss" and s: "s \<in> set ss" and d: "unat s + 96 \<le> unat d" "unat d + 40 \<le> unat s + extent (segs h) s"
  shows "unat (heap_general_capacity_bytes h s d) = unat s + extent (segs h) s - unat d - 40"
proof -
  note g = heap_inv_seg [OF inv s]
  have u: "unat (d + 32) = unat d + 32" using d g(7) by (intro unat_payload) simp
  have e: "unat (heap_segment_end_address h s) = unat s + extent (segs h) s" by (rule segment_end [OF inv s])
  have "unat (heap_segment_end_address h s - (d + 32)) = unat s + extent (segs h) s - unat d - 32"
    using u e d by (simp add: unat_sub word_le_nat_alt)
  then show ?thesis using u e d
    by (auto simp: heap_general_capacity_bytes_def heap_block_payload_pointer_def Let_def word_le_nat_alt word_less_nat_alt unat_sub)
qed

lemma release_block:
  assumes ok: "heap_ok h ss" and s: "s \<in> set ss" and lu: "local_update h h1 s"
    and q: "live_in (segs h s) s (blocks h) = {(q, n)}"
    and f: "segs h1 s = free_record (total_size (segs h s)) (seg_next (segs h s)) (seg_prev (segs h s))"
    and i: "\<And>t. t \<in> set ss \<Longrightarrow> t \<noteq> s \<Longrightarrow> inner (segs h1 t) = inner (segs h t) \<and> same_tile (segs h t) (segs h1 t)"
    and av: "avail_ok (segs h1) (g_small_bin_available_heads h1) ss"
  shows "\<exists>h' ss'. map_option snd (heap_coalesce_free_segment h1 s) = Some h' \<and> heap_ok h' ss' \<and> released h ss h' ss' q \<and> headers_only h1 h'"
proof -
  note inv = heap_okD(1) [OF ok]
  from release_ok [OF ok s lu f i av] obtain s' h' ss' where r: "heap_coalesce_free_segment h1 s = Some (s', h')" "heap_ok h' ss'"
    "live h' ss' = live_others h ss s" "headers_only h1 h'" by blast
  have q1: "(q, n) \<in> live_in (segs h s) s (blocks h)" using q by simp
  note w = live_without [OF inv s q1]
  have "released h ss h' ss' q" unfolding released_def
  proof (intro conjI ballI, simp_all add: split_paired_all)
    show "live h' ss' = {(p, m). (p, m) \<in> live h ss \<and> p \<noteq> q}" using r(3) w q by auto
    fix p m assume "(p, m) \<in> live h ss"
    show "p \<noteq> q \<longrightarrow> (\<forall>i < unat m. bytes h' (p + of_nat i) = bytes h (p + of_nat i))"
    proof (intro impI allI)
      fix i assume "p \<noteq> q" "i < unat m"
      then have "(p, m) \<in> live_others h ss s" using w q \<open>(p, m) \<in> live h ss\<close> by auto
      then show "bytes h' (p + of_nat i) = bytes h (p + of_nat i)"
        using local_kept [OF inv s lu _ \<open>i < unat m\<close>] headers_only_same(1) [OF r(4)] by simp
    qed
  qed
  then show ?thesis using r by auto
qed

lemma free_general_ok:
  assumes ok: "heap_ok h ss" and s: "s \<in> set ss" and k: "seg_kind (segs h s) = HeapSegmentGeneral"
    and q: "(q, n) \<in> live_in (segs h s) s (blocks h)"
  shows "\<exists>h' ss'. heap_free_general_locked h s (q - 32) = Some h' \<and> heap_ok h' ss' \<and> released h ss h' ss' q \<and>
    blk_magic (blocks h' (q - 32)) = HeapBlockFreedMagic"
proof -
  note inv = heap_okD(1) [OF ok]
  note g = heap_inv_seg [OF inv s]
  note l = live_block_header [OF inv s q]
  define d where "d = q - 32"
  have du: "unat s + 96 \<le> unat d" "unat d + 40 \<le> unat s + extent (segs h) s" "unat (d + 32) = unat d + 32"
    using l(1-3) by (simp_all add: d_def)
  note c = general_capacity [OF inv s du(1,2)]
  have "unat (heap_general_capacity_bytes h s d) + unat (8 :: u64) < 2 ^ 64" using c du g(7) by simp
  then have c8: "unat (heap_general_capacity_bytes h s d + 8) = unat s + extent (segs h) s - unat d - 32"
    using unat_plus_word c du by simp
  define h1 where "h1 = heap_mark_segment_free (set_blk (set_bytes h
      (fill_bytes (bytes h) (d + 32) HeapFreedPoison (unat (heap_general_capacity_bytes h s d + 8)))) d
      (\<lambda>b. b\<lparr>blk_magic := HeapBlockFreedMagic, requested_size := 0\<rparr>)) s (total_size (segs h s))"
  have S1: "segs h1 = (segs h)(s := free_record (total_size (segs h s)) (seg_next (segs h s)) (seg_prev (segs h s)))"
    by (simp add: h1_def)
  have lu0: "local_update h (set_bytes h (fill_bytes (bytes h) (d + 32) HeapFreedPoison (unat (heap_general_capacity_bytes h s d + 8)))) s"
    by (rule local_update_steps(4) [OF local_update_refl touches_fill subset_refl]) (use c8 du g(7) in auto)
  have lu: "local_update h h1 s"
    unfolding h1_def mark_free_eq by (intro local_update_steps(1,3) lu0) (use du in auto)
  have A1: "g_small_bin_available_heads h1 = g_small_bin_available_heads h" by (simp add: h1_def heap_mark_segment_free_def)
  have "avail_ok (segs h1) (g_small_bin_available_heads h1) ss"
    unfolding S1 A1 by (rule avail_ok_other) (use inv k in \<open>simp_all add: heap_inv_def\<close>)
  moreover have "live_in (segs h s) s (blocks h) = {(q, n)}" using k q by (auto simp: live_in_def)
  ultimately have "\<exists>h' ss'. map_option snd (heap_coalesce_free_segment h1 s) = Some h' \<and> heap_ok h' ss' \<and> released h ss h' ss' q \<and> headers_only h1 h'"
    by (intro release_block [OF ok s lu]) (simp_all add: S1 same_tile_def)
  moreover have "blk_magic (blocks h1 d) = HeapBlockFreedMagic" by (simp add: h1_def mark_free_eq)
  moreover have "heap_free_general_locked h s d = map_option snd (heap_coalesce_free_segment h1 s)"
    by (simp add: heap_free_general_locked_def h1_def heap_block_payload_pointer_def Let_def)
  ultimately show ?thesis using headers_only_same(2) by (auto simp: d_def)
qed


section \<open>Slab blocks\<close>

lemma slab_empty:
  assumes ok: "slab_ok g s B M fl" and z: "allocation_count g = 0" and k: "seg_kind g = HeapSegmentSlab"
  shows "live_in g s B = {}"
proof -
  define n where "n = slab_blocks g (bin_of g)"
  have b: "bin_of g < 5" and sz: "4096 \<le> unat (total_size g)" "unat (total_size g) < 4208" and d: "distinct fl"
    and st: "set fl = {i. i < n \<and> blk_magic (B (slab_header s (bin_of g) i)) = HeapBlockFreedMagic}"
    and c: "allocation_count g = of_nat (n - length fl)"
    using ok by (auto simp: slab_ok_def n_def)
  have "n \<le> 51" using slab_blocks_bounds(2) [OF b sz] by (simp add: n_def)
  then have "n - length fl = 0" using c z unat32 [of "n - length fl"] by simp
  then have "card {..<n} \<le> card (set fl)" using distinct_card [OF d] by simp
  then have "set fl = {..<n}" using st by (intro card_seteq) auto
  then have "blk_magic (B (slab_header s (bin_of g) i)) = HeapBlockFreedMagic" if "i < n" for i using st that by auto
  then show ?thesis using live_in_slab [OF k, of s B] by (auto simp: n_def)
qed

text \<open>A slab that was full goes back into its list.\<close>

definition enlist :: "bool \<Rightarrow> KernelHeap \<Rightarrow> u64 \<Rightarrow> KernelHeap" where
  "enlist was_full h s = (if was_full then heap_small_bin_insert_available h s else h)"

lemma enlist_ok:
  assumes av: "avail_but (segs h) (g_small_bin_available_heads h) ss s (if was_full then None else Some (bin_of (segs h s)))"
    and k: "seg_kind (segs h s) = HeapSegmentSlab" "bin_of (segs h s) < 5" "seg_flags (segs h s) = (if was_full then 0 else 1)"
    and c: "seg_free_count (segs h s) \<noteq> 0" and s: "s \<in> set ss"
  shows "avail_ok (segs (enlist was_full h s)) (g_small_bin_available_heads (enlist was_full h s)) ss"
    "inner (segs (enlist was_full h s) t) = inner (segs h t)" "same_tile (segs h t) (segs (enlist was_full h s) t)"
    "blocks (enlist was_full h s) = blocks h" "bytes (enlist was_full h s) = bytes h"
    "local_update h0 h s \<Longrightarrow> local_update h0 (enlist was_full h s) s"
proof -
  let ?e = "enlist was_full h s"
  obtain S A where e: "?e = h\<lparr>segs := S, g_small_bin_available_heads := A\<rparr>" and ok: "avail_ok S A ss"
    and t: "\<And>t. inner (S t) = inner (segs h t) \<and> same_tile (segs h t) (S t)"
  proof (cases was_full)
    case True
    note r = insert_available_eq [OF _ k(1,2) _ c s]
    show ?thesis
      by (rule that [of "(g_small_bin_available_heads h)[bin_of (segs h s) := Some s]"
            "hook (segs h) (g_small_bin_available_heads h ! bin_of (segs h s)) s"])
        (use True r av k in \<open>auto simp: enlist_def\<close>)
  next
    case False
    have "avail_ok (segs h) (g_small_bin_available_heads h) ss" by (rule avail_okI [OF av]) (use False k c s in simp)
    then show ?thesis using that [of "g_small_bin_available_heads h" "segs h"] False by (simp add: enlist_def same_tile_def)
  qed
  show "avail_ok (segs ?e) (g_small_bin_available_heads ?e) ss" "inner (segs ?e t) = inner (segs h t)" "same_tile (segs h t) (segs ?e t)"
    "blocks ?e = blocks h" "bytes ?e = bytes h" using ok t by (simp_all add: e bytes_def)
  show "local_update h0 h s \<Longrightarrow> local_update h0 ?e s" by (simp add: e local_update_def bytes_def)
qed

definition give_block :: "KernelHeap \<Rightarrow> u64 \<Rightarrow> u64 \<Rightarrow> KernelHeap" where
  "give_block h s header =
     (let was_full = seg_free_count (segs h s) = 0;
          h = set_bytes h (fill_bytes (bytes h) (heap_block_payload_pointer header) HeapFreedPoison
                (unat (user_bytes (segs h s) + HeapTailCanaryBytes)));
          h = set_blk h header (\<lambda>b. b\<lparr>blk_magic := HeapBlockFreedMagic, requested_size := 0,
                next_free := block_list (segs h s)\<rparr>);
          h = set_seg h s (\<lambda>g. g\<lparr>block_list := Some header, seg_free_count := seg_free_count g + 1,
                allocation_count := allocation_count g - 1\<rparr>)
      in enlist was_full h s)"

lemma give_block_ok:
  assumes ok: "heap_ok h ss" and s: "s \<in> set ss" and k: "seg_kind (segs h s) = HeapSegmentSlab"
    and q: "(q, n) \<in> live_in (segs h s) s (blocks h)"
  defines "h' \<equiv> give_block h s (q - 32)"
  shows "heap_ok h' ss" "released h ss h' ss q" "local_update h h' s" "seg_kind (segs h' s) = HeapSegmentSlab"
    "live_in (segs h' s) s (blocks h') = live_in (segs h s) s (blocks h) - {(q, n)}" "seg_free_count (segs h' s) \<noteq> 0"
    "blk_magic (blocks h' (q - 32)) = HeapBlockFreedMagic"
proof -
  note inv = heap_okD(1) [OF ok]
  note gs = heap_inv_seg [OF inv s]
  note l = live_block_header [OF inv s q]
  define g b where "g = segs h s" and "b = bin_of g"
  obtain fl where sl: "slab_ok g s (blocks h) (bytes h) fl" and flg: "seg_flags g = (if seg_free_count g = 0 then 0 else 1)"
    and b5: "b < 5" and n51: "slab_blocks g b \<le> 51" "length fl \<le> slab_blocks g b"
    using slab_facts [OF inv s k] unfolding g_def b_def by metis
  define d where "d = q - 32"
  obtain i where i: "i < slab_blocks g b" and di: "d = slab_header s b i" using l(9) k by (auto simp: g_def b_def d_def)
  have sz: "4096 \<le> unat (total_size g)" "unat (total_size g) < 4208" and ub: "user_bytes g = HeapSmallBins ! b"
    and fc: "seg_free_count g = of_nat (length fl)"
    using sl by (auto simp: slab_ok_def b_def)
  have al: "blk_magic (blocks h (slab_header s (bin_of g) i)) = HeapBlockAllocatedMagic"
    using l(4) di by (simp add: live_block_def d_def b_def)
  have top: "unat s + unat (total_size g) < 2 ^ 64" using gs(7) by (simp add: g_def)
  note tb = touches_slab_block [OF b5 i sz top, folded di]
  note hu = unat_slab_header [OF b5 i sz top, folded di]
  note st = slab_stride_nat [OF b5]
  define M1 where "M1 = fill_bytes (bytes h) (d + 32) HeapFreedPoison (unat (HeapSmallBins ! b + 8))"
  define B1 where "B1 = (blocks h)(d := (blocks h d)\<lparr>blk_magic := HeapBlockFreedMagic, requested_size := 0, next_free := block_list g\<rparr>)"
  define g1 where "g1 = g\<lparr>block_list := Some d, seg_free_count := seg_free_count g + 1, allocation_count := allocation_count g - 1\<rparr>"
  define h1 where "h1 = set_seg (set_blk (set_bytes h M1) d (\<lambda>b. b\<lparr>blk_magic := HeapBlockFreedMagic, requested_size := 0,
      next_free := block_list g\<rparr>)) s (\<lambda>g. g\<lparr>block_list := Some d, seg_free_count := seg_free_count g + 1,
      allocation_count := allocation_count g - 1\<rparr>)"
  have h1: "segs h1 = (segs h)(s := g1)" "blocks h1 = B1" "bytes h1 = M1" "g_small_bin_available_heads h1 = g_small_bin_available_heads h"
    by (simp_all add: h1_def g1_def B1_def g_def)
  have h'1: "h' = enlist (seg_free_count g = 0) h1 s"
    using ub by (simp add: h'_def give_block_def h1_def M1_def Let_def heap_block_payload_pointer_def g_def d_def)
  have u8: "unat (HeapSmallBins ! b + 8) = unat (HeapSmallBins ! b) + 8" using st by (simp add: unat_word_ariths)
  have T: "touches (bytes h) M1 (block_span s b i)" unfolding M1_def by (rule tb(1)) (simp add: u8)
  have lu0: "local_update h (set_bytes h M1) s"
    by (rule local_update_steps(4) [OF local_update_refl T]) (use tb(3) in \<open>simp add: g_def\<close>)
  have lu1: "local_update h h1 s" unfolding h1_def
    by (intro local_update_steps(1,3) lu0) (use hu st in \<open>auto simp: g_def\<close>)
  have g1: "seg_kind g1 = HeapSegmentSlab" "seg_bin_index g1 = seg_bin_index g" "user_bytes g1 = user_bytes g" "block_stride g1 = block_stride g"
    "total_size g1 = total_size g" "block_count g1 = block_count g" "seg_free_count g1 = seg_free_count g + 1"
    "allocation_count g1 = allocation_count g - 1" "block_list g1 = Some (slab_header s (bin_of g) i)" "seg_flags g1 = seg_flags g" "same_tile g g1"
    "available_next g1 = available_next g" "available_prev g1 = available_prev g"
    using k di by (simp_all add: g1_def same_tile_def g_def b_def)
  note push = slab_push [OF sl top _ al g1(2-9) T [unfolded b_def] B1_def [unfolded di b_def]]
  have "seg_free_count g1 = of_nat (length (i # fl))" using push(1) i by (simp add: slab_ok_def b_def)
  then have fc1: "seg_free_count g1 \<noteq> 0" using unat32 [of "length (i # fl)"] n51(1) push(3) i by (auto simp: b_def)
  have "avail_but (segs h) (g_small_bin_available_heads h) ss s (if seg_free_count g = 0 then None else Some b)"
    using avail_butI [of "segs h" "g_small_bin_available_heads h" ss s] inv s k by (simp add: heap_inv_def b_def g_def)
  then have "avail_but (segs h1) (g_small_bin_available_heads h1) ss s (if seg_free_count g = 0 then None else Some b)"
    unfolding h1(4) by (rule avail_but_cong) (simp_all add: h1(1) g1 g_def [symmetric])
  then have "avail_but (segs h1) (g_small_bin_available_heads h1) ss s (if seg_free_count g = 0 then None else Some (bin_of (segs h1 s)))"
    by (simp only: h1(1) g1(2) fun_upd_same b_def)
  note el = enlist_ok [OF this _ _ _ _ s, folded h'1]
  have h2: "avail_ok (segs h') (g_small_bin_available_heads h') ss" "inner (segs h' t) = inner (segs h1 t)"
    "same_tile (segs h1 t) (segs h' t)" "blocks h' = B1" "bytes h' = M1" "local_update h h' s" for t
    using el(1-5) el(6) [of h] lu1 b5 flg fc1 by (simp_all add: h1 g1 b_def)
  show "local_update h h' s" by (rule h2(6))
  note f2 = inner_fields [OF h2(2) [of s]]
  show ks: "seg_kind (segs h' s) = HeapSegmentSlab" "seg_free_count (segs h' s) \<noteq> 0" using f2 g1 fc1 by (simp_all add: h1(1))
  have sl': "slab_ok (segs h' s) s B1 M1 (i # fl)"
    by (rule slab_ok_frame [OF push(1)]) (use i top g1 h2(2) [of s] in \<open>simp_all add: b_def h1(1)\<close>)
  then have body: "body_ok (segs h' s) s (blocks h') (bytes h')" using ks unfolding h2(4,5) body_ok_def by auto
  show "blk_magic (blocks h' (q - 32)) = HeapBlockFreedMagic" unfolding h2(4) by (simp add: B1_def d_def)
  have i4: "inner (segs h' t) = inner (segs h t)" if "t \<noteq> s" for t using h2(2) [of t] that by (simp add: h1(1))
  have t4: "same_tile (segs h t) (segs h' t)" for t
  proof -
    have "same_tile (segs h t) (segs h1 t)" using g1(11) by (cases "t = s") (simp_all add: h1(1) g_def same_tile_def)
    then show ?thesis using h2(3) [of t] by (simp add: same_tile_def)
  qed
  note u = update_inv [OF inv s h2(6) i4 t4 body h2(1)]
  have sb: "slab_blocks (segs h' s) = slab_blocks g" "seg_bin_index (segs h' s) = seg_bin_index g"
    using f2 g1 by (auto simp: slab_blocks_def h1(1) intro!: ext)
  have qn: "q = d + 32" "n = requested_size (blocks h d)" using l(5) by (simp_all add: d_def)
  show lin: "live_in (segs h' s) s (blocks h') = live_in (segs h s) s (blocks h) - {(q, n)}"
    using push(2) i live_in_slab [OF ks(1)] live_in_slab [OF k] unfolding h2(4) sb g_def [symmetric] qn di b_def by simp
  have "apart_free (segs h') ss = apart_free (segs h) ss"
  proof (rule apart_free_cong)
    fix x show "seg_kind (segs h' x) = seg_kind (segs h x)"
      using inner_fields(2) [OF i4] ks(1) k by (cases "x = s") simp_all
  qed
  then show "heap_ok h' ss" using u(1) heap_okD(2) [OF ok] by (simp add: heap_ok_def)
  have lv: "live h' ss = {(p, m) \<in> live h ss. p \<noteq> q}" using u(2) lin live_without [OF inv s q] by simp
  have "bytes h' (p + of_nat x) = bytes h (p + of_nat x)" if "(p, m) \<in> live h ss" "p \<noteq> q" "x < unat m" for p m x
    unfolding h2(5) by (rule slab_live_kept [OF inv s k _ _ T that(1) _ that(3)])
      (use i that(2) qn di in \<open>auto simp: b_def g_def\<close>)
  then show "released h ss h' ss q" using lv by (auto simp: released_def)
qed

text \<open>An empty slab goes back to the free segments.\<close>

lemma retire_slab_ok:
  assumes ok: "heap_ok h ss" and s: "s \<in> set ss" and k: "seg_kind (segs h s) = HeapSegmentSlab"
    and fc: "seg_free_count (segs h s) \<noteq> 0" and z: "allocation_count (segs h s) = 0"
  defines "h1 \<equiv> heap_small_bin_remove_available h s"
  defines "h2 \<equiv> heap_mark_segment_free h1 s (total_size (segs h1 s))"
  shows "\<exists>h' ss'. map_option snd (heap_coalesce_free_segment h2 s) = Some h' \<and> heap_ok h' ss' \<and> live h' ss' = live h ss \<and> kept h ss h' \<and>
    blocks h' = blocks h"
proof -
  note inv = heap_okD(1) [OF ok]
  obtain fl where sl: "slab_ok (segs h s) s (blocks h) (bytes h) fl" and flg: "seg_flags (segs h s) = 1" and b5: "bin_of (segs h s) < 5"
    using slab_facts [OF inv s k] fc by metis
  have em: "live_in (segs h s) s (blocks h) = {}" by (rule slab_empty [OF sl z k])
  have "avail_but (segs h) (g_small_bin_available_heads h) ss s (Some (bin_of (segs h s)))"
    using avail_butI(1) [of "segs h" _ ss s] inv s k fc by (simp add: heap_inv_def)
  note r = remove_available_eq [OF this k b5 flg]
  let ?A = "if available_prev (segs h s) = None
      then (g_small_bin_available_heads h)[bin_of (segs h s) := available_next (segs h s)] else g_small_bin_available_heads h"
  have h1: "h1 = h\<lparr>segs := unhook (segs h) s, g_small_bin_available_heads := ?A\<rparr>" unfolding h1_def by (rule r(1))
  have un: "total_size (unhook (segs h) s s) = total_size (segs h s)" "seg_next (unhook (segs h) s s) = seg_next (segs h s)"
    "seg_prev (unhook (segs h) s s) = seg_prev (segs h s)" by (simp_all add: unhook_def)
  have S2: "segs h2 = (unhook (segs h) s)(s := free_record (total_size (segs h s)) (seg_next (segs h s)) (seg_prev (segs h s)))"
    by (simp add: h2_def h1 un)
  have A2: "g_small_bin_available_heads h2 = ?A" by (simp add: h2_def h1 mark_free_eq)
  have "local_update h h1 s" unfolding h1 local_update_def
    by (intro conjI exI [of _ "ram (pool h)"]) (simp_all add: bytes_def)
  then have lu: "local_update h h2 s" unfolding h2_def mark_free_eq by (rule local_update_steps(1))
  have "avail_but (segs h2) ?A ss s None" by (rule avail_but_cong [OF r(2)]) (simp_all add: S2)
  then have av: "avail_ok (segs h2) (g_small_bin_available_heads h2) ss"
    unfolding A2 by (rule avail_okI) (simp add: S2)
  have "\<exists>s' h' ss'. heap_coalesce_free_segment h2 s = Some (s', h') \<and> heap_ok h' ss' \<and> live h' ss' = live_others h ss s \<and> headers_only h2 h'"
    by (rule release_ok [OF ok s lu _ _ av]) (simp_all add: S2)
  then obtain s' h' ss' where c: "heap_coalesce_free_segment h2 s = Some (s', h')" "heap_ok h' ss'" "live h' ss' = live_others h ss s"
    "headers_only h2 h'" by blast
  have lo: "live h ss = live_others h ss s" using live_split [OF s, of h] em by simp
  have "kept h ss h'" unfolding kept_def
  proof (clarify)
    fix q n i assume "(q, n) \<in> live h ss" "i < unat n"
    then show "bytes h' (q + of_nat i) = bytes h (q + of_nat i)"
      using local_kept [OF inv s lu] lo headers_only_same(1) [OF c(4)] by simp
  qed
  moreover have "blocks h' = blocks h" unfolding headers_only_same(2) [OF c(4)] by (simp add: h2_def h1 mark_free_eq)
  ultimately show ?thesis using c lo by auto
qed

lemma released_kept:
  assumes "released h ss h1 ss1 q" "live h' ss' = live h1 ss1" "kept h1 ss1 h'"
  shows "released h ss h' ss' q"
  using assms unfolding released_def kept_def by fastforce

lemma free_small_ok:
  assumes ok: "heap_ok h ss" and s: "s \<in> set ss" and k: "seg_kind (segs h s) = HeapSegmentSlab"
    and q: "(q, n) \<in> live_in (segs h s) s (blocks h)"
  shows "\<exists>h' ss'. heap_free_small_locked h s (q - 32) = Some h' \<and> heap_ok h' ss' \<and> released h ss h' ss' q \<and>
    blk_magic (blocks h' (q - 32)) = HeapBlockFreedMagic"
proof -
  define h1 where "h1 = give_block h s (q - 32)"
  note g = give_block_ok [OF ok s k q, folded h1_def]
  have e: "heap_free_small_locked h s (q - 32) =
    (if allocation_count (segs h1 s) = 0
     then map_option snd (heap_coalesce_free_segment
       (heap_mark_segment_free (heap_small_bin_remove_available h1 s) s (total_size (segs (heap_small_bin_remove_available h1 s) s))) s)
     else Some h1)"
    by (simp add: heap_free_small_locked_def h1_def give_block_def enlist_def Let_def)
  show ?thesis
  proof (cases "allocation_count (segs h1 s) = 0")
    case True
    from retire_slab_ok [OF g(1) s g(4,6) True] obtain h' ss' where "map_option snd (heap_coalesce_free_segment
       (heap_mark_segment_free (heap_small_bin_remove_available h1 s) s (total_size (segs (heap_small_bin_remove_available h1 s) s))) s) = Some h'"
      "heap_ok h' ss'" "live h' ss' = live h1 ss" "kept h1 ss h'" "blocks h' = blocks h1" by blast
    then show ?thesis unfolding e using True released_kept [OF g(2)] g(7) by (metis (full_types))
  next
    case False
    then show ?thesis using e g(1,2,7) by auto
  qed
qed

text \<open>Releasing a live allocation takes exactly this one away and leaves the contents of the others.\<close>

lemma free_ok:
  assumes ok: "heap_ok h ss" and q: "(q, n) \<in> live h ss"
  shows "\<exists>h' ss'. heap_free_impl h q = Some h' \<and> heap_ok h' ss' \<and> released h ss h' ss' q \<and>
    blk_magic (blocks h' (q - 32)) = HeapBlockFreedMagic"
proof -
  note inv = heap_okD(1) [OF ok]
  obtain s where s: "s \<in> set ss" "(q, n) \<in> live_in (segs h s) s (blocks h)" by (rule live_segment [OF q])
  note lk = lookup_live [OF inv s]
  note l = live_block_header [OF inv s]
  have e: "heap_free_impl h q = (if seg_kind (segs h s) = HeapSegmentGeneral then heap_free_general_locked h s (q - 32)
      else heap_free_small_locked h s (q - 32))"
    using lk l(7) inv by (simp add: heap_free_impl_def heap_inv_def)
  show ?thesis
  proof (cases "seg_kind (segs h s) = HeapSegmentGeneral")
    case True
    then show ?thesis using e free_general_ok [OF ok s(1) True s(2)] by simp
  next
    case False
    then show ?thesis using e free_small_ok [OF ok s(1) _ s(2)] l(9) by simp
  qed
qed

section \<open>Pointers that are not live\<close>

text \<open>A pointer whose header does not carry the mark of an allocated block, or whose tail canary is
  destroyed, is refused: the heap does not change.\<close>

lemma refused:
  assumes "blk_magic (blocks h (q - 32)) \<noteq> HeapBlockAllocatedMagic \<or>
     load64 (bytes h) (q + requested_size (blocks h (q - 32))) \<noteq> tail_mark (q - 32) (blocks h (q - 32))"
  shows "heap_lookup_live_allocation_locked h q = None" "heap_free_impl h q = Some h"
proof -
  show n: "heap_lookup_live_allocation_locked h q = None"
    using assms by (auto simp: heap_lookup_live_allocation_locked_def Let_def canary_valid_iff split: option.split)
  then show "heap_free_impl h q = Some h" by (simp add: heap_free_impl_def)
qed


end
