(* ===== verification/Kernel_Heap_Write.thy ===== *)
theory Kernel_Heap_Write
  imports Kernel_Heap_Free
begin

unbundle bit_operations_syntax

text \<open>
  What the owner of an allocation may do: live allocations are disjoint, writing inside one leaves the
  heap well formed, and an allocation may be block_resized inside its segment.
\<close>

section \<open>Live allocations do not overlap\<close>

lemma live_bounds:
  assumes inv: "heap_inv h ss" and q: "(q, n) \<in> live h ss"
  shows "unat (g_heap_start_address h) + 128 \<le> unat q" "unat q + unat n + 8 \<le> unat (g_heap_end_address h)" "16 dvd unat q" "0 < unat n"
proof -
  obtain s where s: "s \<in> set ss" "(q, n) \<in> live_in (segs h s) s (blocks h)" by (rule live_segment [OF q])
  note g = heap_inv_seg [OF inv s(1)]
  note r = live_in_range [OF s(2) g(8,7,5)]
  show "unat (g_heap_start_address h) + 128 \<le> unat q" "unat q + unat n + 8 \<le> unat (g_heap_end_address h)" "16 dvd unat q" "0 < unat n"
    using g r by simp_all
qed

lemma live_disjoint:
  assumes inv: "heap_inv h ss" and q: "(q, n) \<in> live h ss" and p: "(p, m) \<in> live h ss" and ne: "p \<noteq> q"
  shows "unat q + unat n + 8 \<le> unat p \<or> unat p + unat m + 8 \<le> unat q"
proof -
  obtain s where s: "s \<in> set ss" "(q, n) \<in> live_in (segs h s) s (blocks h)" by (rule live_segment [OF q])
  note g = heap_inv_seg [OF inv s(1)]
  note l = live_block_header [OF inv s]
  show ?thesis
  proof (cases "(p, m) \<in> live_others h ss s")
    case True
    show ?thesis using live_other_range(1) [OF inv s(1) True] live_in_range [OF s(2) g(8,7,5)] by auto
  next
    case False
    then have pm: "(p, m) \<in> live_in (segs h s) s (blocks h)" using p live_split [OF s(1), of h] by auto
    note l2 = live_block_header [OF inv s(1) pm]
    have k: "seg_kind (segs h s) \<noteq> HeapSegmentGeneral"
    proof
      assume "seg_kind (segs h s) = HeapSegmentGeneral"
      then have "q - 32 = p - 32" using l(8) l2(8) by simp
      then show False using ne by simp
    qed
    let ?b = "bin_of (segs h s)"
    obtain fl where sl: "slab_ok (segs h s) s (blocks h) (bytes h) fl" using g(8) l(9) k by (auto simp: body_ok_def)
    obtain i j where i: "i < slab_blocks (segs h s) ?b" "q - 32 = slab_header s ?b i"
      and j: "j < slab_blocks (segs h s) ?b" "p - 32 = slab_header s ?b j" using l(9) l2(9) k by auto
    have b5: "?b < 5" and sz: "4096 \<le> extent (segs h) s" "extent (segs h) s < 4208" and ub: "user_bytes (segs h s) = HeapSmallBins ! ?b"
      using sl by (auto simp: slab_ok_def)
    have "slab_block_ok (segs h s) s x (blocks h (slab_header s ?b x)) (bytes h)" if "x < slab_blocks (segs h s) ?b" for x
      using sl that by (simp add: slab_ok_def)
    then have r: "unat n \<le> unat (HeapSmallBins ! ?b)" "unat m \<le> unat (HeapSmallBins ! ?b)"
      using i j l(4,5) l2(4,5) ub by (force simp: slab_block_ok_def live_block_def)+
    have "i \<noteq> j" using i(2) j(2) ne by (metis diff_add_cancel)
    then show ?thesis
      using slab_headers_apart [OF b5 i(1) j(1) _ sz g(7)] slab_stride_nat(4) [OF b5] r l(2) l2(2) i(2) j(2) by auto
  qed
qed

lemma live_kept_outside:
  assumes inv: "heap_inv h ss" and q: "(q, n) \<in> live h ss" and p: "(p, m) \<in> live h ss" "p \<noteq> q"
    and T: "touches (bytes h) M' {unat q..<unat q + unat n + 8}" and i: "i < unat m"
  shows "M' (p + of_nat i) = bytes h (p + of_nat i)"
proof -
  have "unat p + unat m < 2 ^ 64" using live_bounds(2) [OF inv p(1)] heap_end_less [of h] by linarith
  then have "unat (p + of_nat i) = unat p + i" using i by (intro unat_plus) simp
  then show ?thesis using live_disjoint [OF inv q p] i by (intro touchesD [OF T]) auto
qed

section \<open>Rewriting a live block\<close>

lemma slab_rewrite:
  assumes ok: "slab_ok g s B M fl" and top: "unat s + unat (total_size g) < 2 ^ 64" and i: "i < slab_blocks g (bin_of g)"
  defines "d \<equiv> slab_header s (bin_of g) i"
  assumes al: "blk_magic (B d) = HeapBlockAllocatedMagic" and M: "touches M M' (block_span s (bin_of g) i)"
    and z: "0 < unat z" "unat z \<le> unat (user_bytes g)"
  defines "B' \<equiv> B(d := (B d)\<lparr>requested_size := z\<rparr>)"
  assumes c: "load64 M' (d + 32 + z) = tail_mark d (B' d)"
  shows "slab_ok g s B' M' fl"
    "seg_kind g = HeapSegmentSlab \<Longrightarrow> live_in g s B' = live_in g s B - {(d + 32, requested_size (B d))} \<union> {(d + 32, z)}"
proof -
  define b n where "b = bin_of g" and "n = slab_blocks g b"
  have b: "b < 5" and sz: "4096 \<le> unat (total_size g)" "unat (total_size g) < 4208"
    and fs: "set fl = {j. j < n \<and> blk_magic (B (slab_header s b j)) = HeapBlockFreedMagic}"
    and bo: "\<And>j. j < n \<Longrightarrow> slab_block_ok g s j (B (slab_header s b j)) M"
    using ok by (auto simp: slab_ok_def b_def n_def)
  have inn: "i < n" using i by (simp add: n_def b_def)
  have inj: "slab_header s b j = d \<Longrightarrow> j < n \<Longrightarrow> j = i" for j
    using slab_header_inj [OF b _ _ sz top] inn by (simp add: n_def d_def b_def)
  have Bo: "B' (slab_header s b j) = B (slab_header s b j)" if "j < n" "j \<noteq> i" for j using that inj [of j] by (auto simp: B'_def)
  have Bm: "blk_magic (B' x) = blk_magic (B x)" "next_free (B' x) = next_free (B x)" for x by (simp_all add: B'_def)
  have bo': "slab_block_ok g s j (B' (slab_header s b j)) M'" if j: "j < n" for j
  proof (cases "j = i")
    case True
    have "slab_block_ok g s i (B d) M" using bo [OF inn] by (simp add: d_def b_def)
    then show ?thesis using z c al unfolding True by (simp add: slab_block_ok_def live_block_def B'_def d_def b_def)
  next
    case False
    show ?thesis unfolding Bo [OF j False] unfolding b_def
      by (rule slab_block_frame [OF ok top i _ False M]) (use j in \<open>simp_all add: n_def b_def\<close>)
  qed
  show "slab_ok g s B' M' fl"
    using ok bo' unfolding slab_ok_def b_def [symmetric] n_def [symmetric] Bm by simp
  assume k: "seg_kind g = HeapSegmentSlab"
  let ?A = "{j. j < n \<and> blk_magic (B (slab_header s b j)) = HeapBlockAllocatedMagic}"
  let ?f = "\<lambda>B j. (slab_header s b j + 32, requested_size (B (slab_header s b j)))"
  have iA: "i \<in> ?A" using inn al by (simp add: d_def b_def)
  have dd: "slab_header s b i = d" by (simp add: d_def b_def)
  have fi: "?f B j = ?f B i \<Longrightarrow> j \<in> ?A \<Longrightarrow> j = i" for j using inj [of j] dd by simp
  have "?f B' ` ?A = insert (?f B' i) (?f B' ` (?A - {i}))" using iA by blast
  also have "?f B' ` (?A - {i}) = ?f B ` (?A - {i})" by (rule image_cong) (use Bo in auto)
  also have "\<dots> = ?f B ` ?A - {?f B i}" using fi by auto
  finally have "?f B' ` ?A = insert (?f B' i) (?f B ` ?A - {?f B i})" .
  moreover have "?f B' i = (d + 32, z)" "?f B i = (d + 32, requested_size (B d))" by (simp_all add: dd B'_def)
  ultimately show "live_in g s B' = live_in g s B - {(d + 32, requested_size (B d))} \<union> {(d + 32, z)}"
    unfolding live_in_slab [OF k] b_def [symmetric] n_def [symmetric] Bm by simp
qed

text \<open>The general form: the block of a live allocation gets the size \<open>z\<close>, bytes change inside the block
  only, and the canary is in place again.\<close>

lemma rewrite_ok:
  assumes ok: "heap_ok h ss" and s: "s \<in> set ss" and k: "seg_kind (segs h s) = HeapSegmentSlab"
    and q: "(q, n) \<in> live_in (segs h s) s (blocks h)" and z: "0 < unat z" "unat z \<le> unat (HeapSmallBins ! bin_of (segs h s))"
    and T: "touches (bytes h) M' {unat q..<unat q + unat (HeapSmallBins ! bin_of (segs h s)) + 8}"
  defines "h' \<equiv> set_bytes (set_blk h (q - 32) (\<lambda>b. b\<lparr>requested_size := z\<rparr>)) M'"
  assumes c: "load64 M' (q + z) = tail_mark (q - 32) (blocks h' (q - 32))"
  shows "heap_ok h' ss" "live h' ss = {(p, m) \<in> live h ss. p \<noteq> q} \<union> {(q, z)}"
proof -
  note inv = heap_okD(1) [OF ok]
  note g = heap_inv_seg [OF inv s]
  note l = live_block_header [OF inv s q]
  define d b where "d = q - 32" and "b = bin_of (segs h s)"
  obtain fl where sl: "slab_ok (segs h s) s (blocks h) (bytes h) fl" using g(8) k by (auto simp: body_ok_def)
  obtain i where i: "i < slab_blocks (segs h s) b" "d = slab_header s b i" using l(9) k by (auto simp: d_def b_def)
  have b5: "b < 5" and sz: "4096 \<le> extent (segs h) s" "extent (segs h) s < 4208" and ub: "user_bytes (segs h s) = HeapSmallBins ! b"
    using sl by (auto simp: slab_ok_def b_def)
  note st = slab_stride_nat [OF b5]
  note hu = unat_slab_header [OF b5 i(1) sz g(7), folded i(2)]
  have qd: "q = d + 32" "unat q = unat d + 32" using l(2) by (simp_all add: d_def)
  have T': "touches (bytes h) M' (block_span s b i)"
    by (rule touches_mono [OF T]) (use qd st in \<open>auto simp: block_span_def i(2) [symmetric] b_def [symmetric]\<close>)
  have B': "blocks h' = (blocks h)(d := (blocks h d)\<lparr>requested_size := z\<rparr>)" by (simp add: h'_def d_def)
  have al: "blk_magic (blocks h d) = HeapBlockAllocatedMagic" using l(4) by (simp add: live_block_def d_def)
  have c': "load64 M' (d + 32 + z) = tail_mark d (((blocks h)(d := (blocks h d)\<lparr>requested_size := z\<rparr>)) d)"
    using c unfolding B' qd(1) by simp
  note rw = slab_rewrite [OF sl g(7) i(1) [unfolded b_def] al [unfolded i(2) b_def] T' [unfolded b_def] z(1) z(2) [folded b_def ub]
      c' [unfolded i(2) b_def]]
  have body: "body_ok (segs h' s) s (blocks h') (bytes h')"
    using rw(1) k unfolding body_ok_def B' i(2) b_def by (auto simp: h'_def)
  have lu: "local_update h h' s"
    unfolding h'_def by (rule local_update_steps(4) [where T = "block_span s b i"], rule local_update_steps(3) [OF local_update_refl])
      (use hu st T' touches_slab_block(3) [OF b5 i(1) sz g(7)] in \<open>auto simp: d_def [symmetric]\<close>)
  have S': "segs h' = segs h" "g_small_bin_available_heads h' = g_small_bin_available_heads h" by (simp_all add: h'_def)
  have av: "avail_ok (segs h') (g_small_bin_available_heads h') ss" using inv unfolding S' by (simp add: heap_inv_def)
  have "heap_inv h' ss" "live h' ss = live_others h ss s \<union> live_in (segs h' s) s (blocks h')"
    by (rule update_inv [OF inv s lu _ _ body av]; simp add: S' same_tile_def)+
  moreover have "live_in (segs h' s) s (blocks h') = live_in (segs h s) s (blocks h) - {(q, n)} \<union> {(q, z)}"
    using rw(2) k l(5) unfolding B' S' qd(1) i(2) b_def d_def by simp
  ultimately show "heap_ok h' ss" "live h' ss = {(p, m) \<in> live h ss. p \<noteq> q} \<union> {(q, z)}"
    using heap_okD(2) [OF ok] live_without [OF inv s q] by (auto simp: heap_ok_def S')
qed

section \<open>Writing inside an allocation\<close>

lemma set_blk_same: "requested_size (blocks h d) = n \<Longrightarrow> set_blk h d (\<lambda>b. b\<lparr>requested_size := n\<rparr>) = h"
  by (auto simp: set_blk_def)

lemma client_write_ok:
  assumes ok: "heap_ok h ss" and q: "(q, n) \<in> live h ss" and T: "touches (bytes h) M' {unat q..<unat q + unat n}"
  shows "heap_ok (set_bytes h M') ss" "live (set_bytes h M') ss = live h ss"
proof -
  note inv = heap_okD(1) [OF ok]
  obtain s where s: "s \<in> set ss" "(q, n) \<in> live_in (segs h s) s (blocks h)" by (rule live_segment [OF q])
  note g = heap_inv_seg [OF inv s(1)]
  note l = live_block_header [OF inv s]
  have qd: "q = q - 32 + 32" by simp
  have u: "unat (q + n) = unat q + unat n" using l(3) g(7) by (intro unat_plus_word) simp
  have ld: "load64 M' (q + n) = load64 (bytes h) (q + n)"
    by (rule load64_touches [OF T]) (use u l(3) g(7) in auto)
  have mk: "load64 (bytes h) (q + n) = tail_mark (q - 32) (blocks h (q - 32))"
    using l(4,5) by (simp add: live_block_def)
  have "heap_ok (set_bytes h M') ss \<and> live (set_bytes h M') ss = live h ss"
  proof (cases "seg_kind (segs h s) = HeapSegmentGeneral")
    case True
    have lu: "local_update h (set_bytes h M') s"
      by (rule local_update_steps(4) [OF local_update_refl T]) (use l(1-3) in auto)
    have "body_ok (segs h s) s (blocks h) (bytes h)" by (rule g(8))
    then have "general_ok (segs h s) s (blocks h) M'"
      using True l(8) [OF True] l(5) ld by (auto simp: body_ok_def general_ok_def live_block_def)
    then have body: "body_ok (segs (set_bytes h M') s) s (blocks (set_bytes h M')) (bytes (set_bytes h M'))"
      using True by (simp add: body_ok_def)
    have av: "avail_ok (segs (set_bytes h M')) (g_small_bin_available_heads (set_bytes h M')) ss" using inv by (simp add: heap_inv_def)
    have "heap_inv (set_bytes h M') ss"
      by (rule update_inv(1) [OF inv s(1) lu _ _ body av]) (simp_all add: same_tile_def)
    then show ?thesis using heap_okD(2) [OF ok] by (simp add: heap_ok_def live_def)
  next
    case False
    then have k: "seg_kind (segs h s) = HeapSegmentSlab" using l(9) by simp
    obtain fl where sl: "slab_ok (segs h s) s (blocks h) (bytes h) fl" using g(8) k by (auto simp: body_ok_def)
    obtain i where i: "i < slab_blocks (segs h s) (bin_of (segs h s))" "q - 32 = slab_header s (bin_of (segs h s)) i"
      using l(9) False by auto
    have "slab_block_ok (segs h s) s i (blocks h (q - 32)) (bytes h)" "user_bytes (segs h s) = HeapSmallBins ! bin_of (segs h s)"
      using sl i by (auto simp: slab_ok_def)
    then have n: "unat n \<le> unat (HeapSmallBins ! bin_of (segs h s))" "0 < unat n" using l(4,5) by (auto simp: slab_block_ok_def live_block_def)
    have T': "touches (bytes h) M' {unat q..<unat q + unat (HeapSmallBins ! bin_of (segs h s)) + 8}"
      by (rule touches_mono [OF T]) (use n in auto)
    note e = set_blk_same [OF l(5)]
    note r = rewrite_ok [OF ok s(1) k s(2) n(2,1) T', unfolded e]
    have lv: "{(p, m) \<in> live h ss. p \<noteq> q} \<union> {(q, n)} = live h ss"
      using q by (auto dest: live_size_unique [OF inv _ q])
    have c: "load64 M' (q + n) = tail_mark (q - 32) (blocks (set_bytes h M') (q - 32))" unfolding ld mk by simp
    show ?thesis by (intro conjI r(1) [OF c]) (simp only: r(2) [OF c] lv)
  qed
  then show "heap_ok (set_bytes h M') ss" "live (set_bytes h M') ss = live h ss" by auto
qed

section \<open>Resizing inside a slab\<close>

lemma resize_slab_ok:
  assumes ok: "heap_ok h ss" and s: "s \<in> set ss" and k: "seg_kind (segs h s) = HeapSegmentSlab"
    and q: "(q, n) \<in> live_in (segs h s) s (blocks h)" and z: "0 < unat z" "unat z \<le> unat (HeapSmallBins ! bin_of (segs h s))"
  defines "h' \<equiv> heap_write_tail_canary (set_blk h (q - 32) (\<lambda>b. b\<lparr>requested_size := z\<rparr>)) (q - 32)"
  shows "heap_ok h' ss" "live h' ss = {(p, m) \<in> live h ss. p \<noteq> q} \<union> {(q, z)}"
    "touches (bytes h) (bytes h') {unat q + unat z..<unat q + unat z + 8}"
    "unat q + unat (HeapSmallBins ! bin_of (segs h s)) + 8 \<le> unat s + extent (segs h) s"
proof -
  note inv = heap_okD(1) [OF ok]
  note g = heap_inv_seg [OF inv s]
  note l = live_block_header [OF inv s q]
  let ?b = "bin_of (segs h s)"
  obtain fl where sl: "slab_ok (segs h s) s (blocks h) (bytes h) fl" using g(8) k by (auto simp: body_ok_def)
  obtain i where i: "i < slab_blocks (segs h s) ?b" "q - 32 = slab_header s ?b i" using l(9) k by auto
  have b5: "?b < 5" and sz: "4096 \<le> extent (segs h) s" "extent (segs h) s < 4208" using sl by (auto simp: slab_ok_def)
  note st = slab_stride_nat [OF b5]
  note hu = unat_slab_header [OF b5 i(1) sz g(7), folded i(2)]
  show room: "unat q + unat (HeapSmallBins ! ?b) + 8 \<le> unat s + extent (segs h) s" using hu st l(2) by simp
  have u: "unat (q + z) = unat q + unat z" using room z g(7) by (intro unat_plus_word) simp
  define B where "B = blocks (set_blk h (q - 32) (\<lambda>b. b\<lparr>requested_size := z\<rparr>)) (q - 32)"
  define M where "M = store64 (bytes h) (q + z) (tail_mark (q - 32) B)"
  have "requested_size B = z" by (simp add: B_def)
  then have e: "h' = set_bytes (set_blk h (q - 32) (\<lambda>b. b\<lparr>requested_size := z\<rparr>)) M"
    by (simp add: h'_def write_canary_eq M_def B_def)
  have T: "touches (bytes h) M {unat q + unat z..<unat q + unat z + 8}"
    unfolding M_def by (rule touches_store) (use u room z g(7) in auto)
  then show "touches (bytes h) (bytes h') {unat q + unat z..<unat q + unat z + 8}" by (simp add: e)
  have "touches (bytes h) M {unat q..<unat q + unat (HeapSmallBins ! ?b) + 8}" by (rule touches_mono [OF T]) (use z in auto)
  note r = rewrite_ok [OF ok s k q z this, folded e]
  have "load64 M (q + z) = tail_mark (q - 32) (blocks h' (q - 32))" by (simp add: M_def e B_def)
  then show "heap_ok h' ss" "live h' ss = {(p, m) \<in> live h ss. p \<noteq> q} \<union> {(q, z)}" using r by auto
qed


end
