(* ===== verification/Kernel_Heap_Realloc.thy ===== *)
theory Kernel_Heap_Realloc
  imports Kernel_Heap_Write
begin

unbundle bit_operations_syntax

text \<open>
  Resizing: a general allocation shrinks or grows inside its place in the chain, a slab block inside its
  block, everything else moves. The contents survive up to the smaller of the two sizes.
\<close>

section \<open>Resizing a general allocation in place\<close>

text \<open>The chain \<open>S'\<close> has the busy segments of the heap, with another extent of \<open>s\<close> only.\<close>

definition regrown :: "(u64 \<Rightarrow> HeapSegment) \<Rightarrow> u64 list \<Rightarrow> u64 \<Rightarrow> (u64 \<Rightarrow> HeapSegment) \<Rightarrow> u64 list \<Rightarrow> bool" where
  "regrown S ss s S' ss' \<longleftrightarrow> busy S' ss' = busy S ss \<and> (\<forall>t \<in> busy S ss - {s}. unlinked (S' t) = unlinked (S t)) \<and>
     (\<exists>w. unlinked (S' s) = unlinked ((S s)\<lparr>total_size := w\<rparr>))"

lemma regrown_refl: "regrown S ss s S ss"
proof -
  have "unlinked (S s) = unlinked ((S s)\<lparr>total_size := total_size (S s)\<rparr>)" by simp
  then show ?thesis unfolding regrown_def by blast
qed

lemma regrownD:
  assumes "regrown S ss s S' ss'"
  shows "busy S' ss' = busy S ss" "t \<in> busy S ss \<Longrightarrow> t \<noteq> s \<Longrightarrow> unlinked (S' t) = unlinked (S t)"
  using assms by (auto simp: regrown_def)

lemma regrown_reshape:
  assumes r: "regrown S ss s S1 ss1" and s: "s \<in> busy S ss" and rs: "reshape S1 ss1 S2 ss2"
  shows "regrown S ss s S2 ss2" "total_size (S2 s) = total_size (S1 s)"
proof -
  have b: "busy S1 ss1 = busy S ss" and u: "\<And>t. t \<in> busy S ss \<Longrightarrow> unlinked (S2 t) = unlinked (S1 t)"
    using r rs by (auto simp: regrown_def reshape_def)
  show "total_size (S2 s) = total_size (S1 s)" using unlinked_fields(6) [OF u [OF s]] .
  show "regrown S ss s S2 ss2" using r rs u s unfolding regrown_def reshape_def by simp
qed

lemma regrown_fields:
  assumes "regrown S ss s S' ss'"
  shows "seg_kind (S' s) = seg_kind (S s)" "block_list (S' s) = block_list (S s)" "allocation_count (S' s) = allocation_count (S s)"
    "seg_free_count (S' s) = seg_free_count (S s)" "block_count (S' s) = block_count (S s)"
proof -
  obtain w where u: "unlinked (S' s) = unlinked ((S s)\<lparr>total_size := w\<rparr>)" using assms by (auto simp: regrown_def)
  note f = inner_fields [OF unlinked_fields(1) [OF u]]
  show "seg_kind (S' s) = seg_kind (S s)" "block_list (S' s) = block_list (S s)" "allocation_count (S' s) = allocation_count (S s)"
    "seg_free_count (S' s) = seg_free_count (S s)" "block_count (S' s) = block_count (S s)" using f by simp_all
qed

lemma regrown_kind:
  assumes "regrown S ss s S' ss'" "t \<in> busy S ss" shows "seg_kind (S' t) = seg_kind (S t)"
  using regrown_fields(1) [OF assms(1)] unlinked_fields(5) [OF regrownD(2) [OF assms]] by (cases "t = s") auto

lemma regrown_avail:
  assumes av: "avail_ok S heads ss" and r: "regrown S ss s S' ss'" and k: "seg_kind (S s) \<noteq> HeapSegmentSlab"
    and upd: "\<And>t. t \<noteq> s \<Longrightarrow> S2 t = S' t" "seg_kind (S2 s) = seg_kind (S' s)"
  shows "avail_ok S2 heads ss'"
proof (rule avail_ok_cong [OF av])
  have b: "busy S' ss' = busy S ss" using r by (simp add: regrown_def)
  have k2: "seg_kind (S2 t) = seg_kind (S' t)" for t using upd by (cases "t = s") auto
  have e: "{s \<in> set ss. seg_kind (S s) = HeapSegmentSlab} = {s \<in> busy S ss. seg_kind (S s) = HeapSegmentSlab}" for S :: "u64 \<Rightarrow> HeapSegment" and ss
    by (auto simp: busy_def)
  have "busy S2 ss' = busy S' ss'" by (simp add: busy_def k2)
  then show "{s \<in> set ss'. seg_kind (S2 s) = HeapSegmentSlab} = {s \<in> set ss. seg_kind (S s) = HeapSegmentSlab}"
    unfolding e b k2 using regrown_kind [OF r] by auto
  fix t assume t: "t \<in> set ss" "seg_kind (S t) = HeapSegmentSlab"
  then have "t \<in> busy S ss" "t \<noteq> s" using k by (auto simp: busy_def)
  then have u: "unlinked (S2 t) = unlinked (S t)" using regrownD(2) [OF r] upd(1) by simp
  note f = unlinked_fields [OF u]
  show "available_next (S2 t) = available_next (S t) \<and> available_prev (S2 t) = available_prev (S t) \<and>
      seg_flags (S2 t) = seg_flags (S t) \<and> seg_bin_index (S2 t) = seg_bin_index (S t) \<and>
      seg_free_count (S2 t) = seg_free_count (S t)"
    using f inner_fields [OF f(1)] by simp
qed

lemma resize_general_ok:
  assumes inv: "heap_inv h ss" and s: "s \<in> set ss" and k: "seg_kind (segs h s) = HeapSegmentGeneral"
    and q: "(q, n) \<in> live_in (segs h s) s (blocks h)"
    and t: "tiling S' None ss' None (unat (g_heap_start_address h)) (unat (g_heap_end_address h))"
    and r: "regrown (segs h) ss s S' ss'" and ap: "apart_free S' ss'"
    and z: "0 < unat z" "unat q + unat z + 8 \<le> unat s + extent S' s"
  defines "h' \<equiv> resize_header (h\<lparr>segs := S'\<rparr>) s (q - 32) z"
  shows "heap_ok h' ss'" "live h' ss' = {(p, m) \<in> live h ss. p \<noteq> q} \<union> {(q, z)}"
    "touches (bytes h) (bytes h') {unat q + unat z..<unat q + unat z + 8}"
proof -
  note g = heap_inv_seg [OF inv s]
  note l = live_block_header [OF inv s q]
  have sb: "s \<in> busy (segs h) ss" using s k by (simp add: busy_def)
  have s': "s \<in> set ss'" using r sb by (auto simp: regrown_def busy_def)
  note tr = tiling_range [OF t]
  have top: "unat s + extent S' s < 2 ^ 64" using tr s' heap_end_less [of h] by fastforce
  define d where "d = q - 32"
  define B' where "B' = (blocks h)(d := (blocks h d)\<lparr>requested_size := z\<rparr>)"
  define M' where "M' = store64 (bytes h) (q + z) (tail_mark d (B' d))"
  define S2 where "S2 = S'(s := (S' s)\<lparr>user_bytes := z\<rparr>)"
  have h': "segs h' = S2" "blocks h' = B'" "bytes h' = M'" "pool h' = (pool h)\<lparr>ram := (\<lambda>x. M' (x + KernelVaBase))\<rparr>"
    "g_small_bin_available_heads h' = g_small_bin_available_heads h" "g_heap_segment_list_head h' = g_heap_segment_list_head h"
    "g_heap_start_address h' = g_heap_start_address h" "g_heap_end_address h' = g_heap_end_address h" "g_heap_initialized h' = g_heap_initialized h"
    by (simp_all add: h'_def resize_header_def write_canary_eq Let_def S2_def B'_def M'_def d_def)
  have u: "unat (q + z) = unat q + unat z" using z top by (intro unat_plus_word) simp
  show T: "touches (bytes h) (bytes h') {unat q + unat z..<unat q + unat z + 8}"
    unfolding h' M'_def by (rule touches_store) (use u z top in auto)
  note rf = regrown_fields [OF r]
  have gen: "general_ok (S2 s) s B' M'"
  proof -
    have "general_ok (segs h s) s (blocks h) (bytes h)" using g(8) k by (simp add: body_ok_def)
    moreover have "block_list (S2 s) = Some d" using l(8) [OF k] rf by (simp add: S2_def d_def)
    moreover have "load64 M' (d + 32 + z) = tail_mark d (B' d)" by (simp add: M'_def d_def)
    ultimately show ?thesis
      using l(8) [OF k] rf z l(2) by (auto simp: general_ok_def live_block_def S2_def B'_def d_def)
  qed
  have far: "B' x = blocks h x \<and> M' x = bytes h x"
    if b: "x' \<in> busy (segs h) ss" "x' \<noteq> s" "unat x' + 96 \<le> unat x" "unat x < unat x' + extent (segs h) x'" for x' x
  proof -
    have m: "x' \<in> set ss'" "x' \<in> set ss" using b(1) r by (auto simp: regrown_def busy_def)
    have "extent S' x' = extent (segs h) x'" using unlinked_fields(6) [OF regrownD(2) [OF r b(1,2)]] by simp
    then have o: "unat x < unat s \<or> unat s + extent S' s \<le> unat x" using tiling_apart [OF t m(1) s' b(2)] b(3,4) by auto
    then have "x \<noteq> d" using l(1,2) z unfolding d_def by auto
    moreover have "M' x = bytes h x" by (rule touchesD [OF T [unfolded h']]) (use o l(1,2) z in auto)
    ultimately show ?thesis by (simp add: B'_def)
  qed
  have ub: "unlinked (S' x) = unlinked (segs h x)" if "x \<in> busy (segs h) ss" "x \<noteq> s" for x by (rule regrownD(2) [OF r that])
  have k2: "seg_kind (S2 x) = seg_kind (S' x)" for x by (simp add: S2_def)
  have bb: "busy S2 ss' = busy (segs h) ss" using r by (simp add: busy_def k2 regrown_def)
  have bo: "body_ok (S2 x) x B' M'" if x: "x \<in> set ss'" for x
  proof (cases "free_seg S2 x")
    case False
    then have b: "x \<in> busy (segs h) ss" using x bb by (auto simp: busy_def)
    then have m: "x \<in> set ss" by (simp add: busy_def)
    show ?thesis
    proof (cases "x = s")
      case True
      then show ?thesis using gen rf k by (simp add: body_ok_def S2_def)
    next
      case ne: False
      have "S2 x = S' x" using ne by (simp add: S2_def)
      then show ?thesis
        using body_ok_frame [OF heap_inv_seg(8) [OF inv m] unlinked_fields(1) [OF ub [OF b ne]] heap_inv_seg(7) [OF inv m]] far [OF b ne] by auto
    qed
  qed (simp add: body_ok_def)
  have "tiling S2 None ss' None (unat (g_heap_start_address h)) (unat (g_heap_end_address h))"
    using t tiling_cong [of ss' S' S2] by (simp add: S2_def same_tile_def)
  moreover have "first_of ss' None = first_of ss None"
    by (rule tiling_first [OF t heap_inv_tiling [OF inv]]) (use g(1,2,3) in simp)
  moreover have "avail_ok S2 (g_small_bin_available_heads h) ss'"
    by (rule regrown_avail [OF _ r]) (use inv k in \<open>auto simp: heap_inv_def S2_def\<close>)
  ultimately have "heap_inv h' ss'" using inv s' bo unfolding heap_inv_def h' by auto
  moreover have "apart_free S2 ss'" using ap apart_free_cong [of ss' S2 S'] k2 by simp
  ultimately show "heap_ok h' ss'" by (simp add: heap_ok_def h')
  have li: "live_in (S2 x) x B' = live_in (segs h x) x (blocks h)" if b: "x \<in> busy (segs h) ss" "x \<noteq> s" for x
  proof -
    have m: "x \<in> set ss" using b by (simp add: busy_def)
    have "S2 x = S' x" using b by (simp add: S2_def)
    then show ?thesis
      using live_in_frame [OF unlinked_fields(1) [OF ub [OF b]] heap_inv_seg(8) [OF inv m] heap_inv_seg(7) [OF inv m]] far [OF b] by auto
  qed
  have ls: "live_in (S2 s) s B' = {(q, z)}" using rf k l(8) by (simp add: live_in_def S2_def)
  have lo: "live_others h ss s = (\<Union>x \<in> busy (segs h) ss - {s}. live_in (segs h x) x (blocks h))"
    by (auto simp: live_others_def busy_def live_in_def)
  have "live h' ss' = (\<Union>x \<in> busy (segs h) ss. live_in (S2 x) x B')" unfolding live_busy h' bb ..
  also have "\<dots> = live_in (S2 s) s B' \<union> (\<Union>x \<in> busy (segs h) ss - {s}. live_in (S2 x) x B')" using sb by blast
  also have "(\<Union>x \<in> busy (segs h) ss - {s}. live_in (S2 x) x B') = live_others h ss s" unfolding lo using li by auto
  finally have "live h' ss' = live_others h ss s \<union> {(q, z)}" using ls by auto
  moreover have "live_in (segs h s) s (blocks h) = {(q, n)}" using k q by (auto simp: live_in_def)
  ultimately show "live h' ss' = {(p, m) \<in> live h ss. p \<noteq> q} \<union> {(q, z)}" using live_without [OF inv s q] by simp
qed

text \<open>\<open>settle\<close> merges the free segment behind \<open>s\<close> with the one behind it.\<close>

lemma settle_ok:
  assumes t: "tiling (segs h) None (xs @ s # zs) None a e" and e: "e < 2 ^ 64" and b: "\<not> free_seg (segs h) s"
    and ap: "apart_free (segs h) xs" "apart_free (segs h) (tl zs)"
  shows "\<exists>S' ss'. settle h s = Some (h\<lparr>segs := S'\<rparr>) \<and> tiling S' None ss' None a e \<and> reshape (segs h) (xs @ s # zs) S' ss' \<and>
    apart_free S' ss'"
proof (cases "zs \<noteq> [] \<and> free_seg (segs h) (hd zs)")
  case True
  then obtain n ys where z: "zs = n # ys" and f: "free_seg (segs h) n" by (cases zs) auto
  have nx: "seg_next (segs h s) = Some n" using chain_neighbour(1) [OF t e] z by simp
  have t': "tiling (segs h) None ((xs @ [s]) @ n # ys) None a e" using t z by simp
  have "apart_free (segs h) (xs @ [s])" using ap(1) b by (auto simp: apart_free_append)
  from coalesce_ok [OF t' e f refl this] ap(2) z obtain s' S' ss' where
    "heap_coalesce_free_segment h n = Some (s', h\<lparr>segs := S'\<rparr>)" "tiling S' None ss' None a e"
    "reshape (segs h) (xs @ s # zs) S' ss'" "apart_free S' ss'" by auto
  then show ?thesis using nx f by (auto simp: settle_def)
next
  case False
  then have "settle h s = Some h" using chain_neighbour(1) [OF t e] by (cases zs) (auto simp: settle_def)
  moreover have "apart_free (segs h) zs" using ap(2) False by (cases zs) (auto simp: apart_free_Cons)
  then have "apart_free (segs h) (xs @ s # zs)" by (rule apart_free_busy [OF ap(1) _ b])
  ultimately show ?thesis using t reshape_refl by (intro exI [of _ "segs h"] exI [of _ "xs @ s # zs"]) simp
qed

text \<open>Cutting a busy segment down to \<open>r\<close> bytes and settling the rest.\<close>

lemma carve_ok:
  assumes t: "tiling (segs h) None (xs @ s # ys) None a e" and e: "e < 2 ^ 64" and b: "\<not> free_seg (segs h) s"
    and ap: "apart_free (segs h) xs" "apart_free (segs h) ys" and r: "112 \<le> unat r" "16 dvd unat r" "unat r \<le> extent (segs h) s"
  shows "\<exists>S' ss'. settle (heap_split_segment_tail h s r) s = Some (h\<lparr>segs := S'\<rparr>) \<and> tiling S' None ss' None a e \<and>
    regrown (segs h) (xs @ s # ys) s S' ss' \<and> apart_free S' ss' \<and> unat r \<le> extent S' s"
proof (cases "unat r + 112 \<le> extent (segs h) s")
  case True
  let ?S = "cut (segs h) s r"
  have z: "0 < unat r" "unat r < extent (segs h) s" using r True by auto
  note c = cut_point [OF t e z]
  have d: "distinct (xs @ s # ys)" by (rule tiling_distinct [OF t])
  have eq: "heap_split_segment_tail h s r = h\<lparr>segs := ?S\<rparr>" by (rule split_tail_eq [OF t e z(1) True])
  have "seg_magic (segs h s) = HeapSegmentMagic" using tiling_range [OF t] by auto
  then have g: "seg_magic (?S s) = HeapSegmentMagic" "total_size (?S s) = r" "seg_next (?S s) = Some (s + r)"
    "seg_prev (?S s) = seg_prev (segs h s)" by (simp_all add: cut_def)
  have t': "tiling ?S None (xs @ s # (s + r) # ys) None a e" using cut_tiling [OF t e r(1,2) True g] by simp
  have k: "seg_kind (?S x) = seg_kind (segs h x)" if "x \<in> set (xs @ s # ys)" for x using that c(3) by (auto simp: cut_def)
  have ap': "apart_free ?S xs" "apart_free ?S ys"
    using ap k apart_free_cong [of xs ?S "segs h"] apart_free_cong [of ys ?S "segs h"] by auto
  have b': "\<not> free_seg ?S s" using b k by simp
  from settle_ok [of "h\<lparr>segs := ?S\<rparr>" xs s "(s + r) # ys" a e] t' e b' ap' obtain S' ss' where
    st: "settle (h\<lparr>segs := ?S\<rparr>) s = Some (h\<lparr>segs := S'\<rparr>)" "tiling S' None ss' None a e"
      "reshape ?S (xs @ s # (s + r) # ys) S' ss'" "apart_free S' ss'" by auto
  have fr: "free_seg ?S (s + r)" using c(2) by (simp add: cut_def)
  have bu: "busy ?S (xs @ s # (s + r) # ys) = busy (segs h) (xs @ s # ys)" using k fr by (auto simp: busy_def)
  have "unlinked (?S x) = unlinked (segs h x)" if "x \<in> set (xs @ s # ys)" "x \<noteq> s" for x
    using that c(3) by (auto simp: cut_def unlinked_def)
  moreover have "unlinked (?S s) = unlinked ((segs h s)\<lparr>total_size := r\<rparr>)" by (simp add: cut_def unlinked_def)
  ultimately have rg: "regrown (segs h) (xs @ s # ys) s ?S (xs @ s # (s + r) # ys)"
    unfolding regrown_def using bu by (auto simp: busy_def)
  have sb: "s \<in> busy (segs h) (xs @ s # ys)" using b by (simp add: busy_def)
  note rr = regrown_reshape [OF rg sb st(3)]
  have "extent S' s = unat r" using rr(2) by (simp add: cut_def)
  then show ?thesis unfolding eq using st rr(1) by (intro exI [of _ S'] exI [of _ ss']) simp
next
  case False
  then have eq: "heap_split_segment_tail h s r = h" by (intro split_tail_small) simp
  have "apart_free (segs h) (tl ys)" using ap(2) by (cases ys) (auto simp: apart_free_Cons)
  from settle_ok [OF t e b ap(1) this] obtain S' ss' where st: "settle h s = Some (h\<lparr>segs := S'\<rparr>)" "tiling S' None ss' None a e"
      "reshape (segs h) (xs @ s # ys) S' ss'" "apart_free S' ss'" by blast
  have sb: "s \<in> busy (segs h) (xs @ s # ys)" using b by (simp add: busy_def)
  note rr = regrown_reshape [OF regrown_refl sb st(3)]
  show ?thesis unfolding eq using st rr r by (intro exI [of _ S'] exI [of _ ss']) simp
qed

lemma join_regrown:
  assumes t: "tiling S p (xs @ s # n # ys) None a e" and e: "e < 2 ^ 64" and f: "free_seg S n"
  shows "regrown S (xs @ s # n # ys) s (fuse S s n) (xs @ s # ys)"
proof -
  have "unlinked (fuse S s n x) = unlinked (S x)" if "x \<noteq> s" for x using that by (simp add: fuse_def unlinked_def)
  moreover have "unlinked (fuse S s n s) = unlinked ((S s)\<lparr>total_size := total_size (S s) + total_size (S n)\<rparr>)"
    by (simp add: fuse_def unlinked_def)
  moreover have "busy (fuse S s n) (xs @ s # ys) = busy S (xs @ s # n # ys)" using f by (auto simp: busy_def)
  ultimately show ?thesis unfolding regrown_def by auto
qed

lemma regrown_trans:
  assumes a: "regrown S ss s S1 ss1" and b: "regrown S1 ss1 s S2 ss2" shows "regrown S ss s S2 ss2"
proof -
  obtain w where w: "unlinked (S1 s) = unlinked ((S s)\<lparr>total_size := w\<rparr>)" using a by (auto simp: regrown_def)
  obtain v where v: "unlinked (S2 s) = unlinked ((S1 s)\<lparr>total_size := v\<rparr>)" using b by (auto simp: regrown_def)
  have "unlinked (g\<lparr>total_size := v\<rparr>) = (unlinked g)\<lparr>total_size := v\<rparr>" for g v by (simp add: unlinked_def)
  then have "unlinked (S2 s) = unlinked ((S s)\<lparr>total_size := v\<rparr>)" using v w by simp
  then show ?thesis using a b unfolding regrown_def by auto
qed

section \<open>The in-place attempt\<close>

lemma join_set:
  assumes "seg_next (segs h n) \<noteq> Some s" "s \<noteq> n"
  shows "set_seg_prev (set_seg (set_seg h s (\<lambda>g. g\<lparr>total_size := total_size (segs h s) + total_size (segs h n)\<rparr>)) s
      (\<lambda>g. g\<lparr>seg_next := seg_next (segs h n)\<rparr>)) (seg_next (segs h n)) s = h\<lparr>segs := fuse (segs h) s n\<rparr>"
  using join_eq [OF assms] by (simp add: set_seg_def)

lemma in_place_ok:
  assumes ok: "heap_ok h ss" and s: "s \<in> set ss" and k: "seg_kind (segs h s) = HeapSegmentGeneral"
    and q: "(q, n) \<in> live_in (segs h s) s (blocks h)" and z: "0 < unat z" "unat z < 2 ^ 43"
  shows "\<exists>p h'. heap_realloc_general_in_place_locked h s (q - 32) q z = Some (p, h') \<and>
    (if p = 0 then h' = h else p = q \<and> (\<exists>ss'. heap_ok h' ss' \<and> live h' ss' = {(x, m) \<in> live h ss. x \<noteq> q} \<union> {(q, z)} \<and>
       touches (bytes h) (bytes h') {unat q + unat z..<unat q + unat z + 8}))"
proof -
  note inv = heap_okD(1) [OF ok] and ap = heap_okD(2) [OF ok]
  note g = heap_inv_seg [OF inv s]
  note l = live_block_header [OF inv s q]
  note t = heap_inv_tiling [OF inv]
  note e = heap_end_less [of h]
  have lim: "unat (g_heap_end_address h) + 2 ^ 46 \<le> 2 ^ 64" using inv by (simp add: heap_inv_def)
  obtain xs ys where ss: "ss = xs @ s # ys" using s by (auto simp: in_set_conv_decomp)
  have a: "apart_free (segs h) xs" "apart_free (segs h) ys" using ap ss by (auto simp: apart_free_append apart_free_Cons)
  have b: "\<not> free_seg (segs h) s" using k by simp
  define r where "r = align_up (q + z + 8 - s) 16"
  have u: "unat (q + z + 8 - s) = unat q + unat z + 8 - unat s"
  proof -
    have "unat (q + z) = unat q + unat z" using l(3) g(2) lim z by (intro unat_plus_word) simp
    then have v: "unat (q + z + 8) = unat q + unat z + 8" using unat_plus_word [of "q + z" 8] l(3) g(2) lim z by simp
    then have "s \<le> q + z + 8" using l(1,2) by (simp add: word_le_nat_alt)
    from unat_sub [OF this] show ?thesis unfolding v .
  qed
  have ur: "unat r = up16 (unat q + unat z + 8 - unat s)"
  proof -
    have "unat (q + z + 8 - s) + 16 \<le> 2 ^ 64" unfolding u using l(3) g(2) lim z(2) by simp
    from unat_align16 [OF this] show ?thesis unfolding r_def u .
  qed
  have r: "unat q + unat z + 8 \<le> unat s + unat r" "112 \<le> unat r" "16 dvd unat r"
    "16 dvd w \<Longrightarrow> unat q + unat z + 8 - unat s \<le> w \<Longrightarrow> unat r \<le> w" for w
  proof -
    show "unat q + unat z + 8 \<le> unat s + unat r" "112 \<le> unat r" "16 dvd unat r"
      using up16_facts(1,3) [of "unat q + unat z + 8 - unat s"] l(1,2) unfolding ur by auto
    assume w: "16 dvd w" "unat q + unat z + 8 - unat s \<le> w"
    have "up16 (unat q + unat z + 8 - unat s) \<le> up16 w" unfolding up16_def using w(2) by (intro mult_le_mono1 div_le_mono) simp
    then show "unat r \<le> w" unfolding ur up16_facts(4) [OF w(1)] .
  qed
  have cap: "unat (heap_general_capacity_bytes h s (q - 32)) = unat s + extent (segs h) s - unat q - 8"
    using general_capacity [OF inv s l(1)] l(2,3) by simp
  have nz: "q \<noteq> 0" using l(2) by auto
  note rg = resize_general_ok [OF inv s k q _ _ _ z(1)]
  have fin: ?thesis if "heap_realloc_general_in_place_locked h s (q - 32) q z = Some (q, resize_header (h\<lparr>segs := S'\<rparr>) s (q - 32) z)"
    "tiling S' None ss' None (unat (g_heap_start_address h)) (unat (g_heap_end_address h))" "regrown (segs h) ss s S' ss'"
    "apart_free S' ss'" "unat q + unat z + 8 \<le> unat s + extent S' s" for S' ss'
    using that(1) nz rg [OF that(2-5)] by auto
  show ?thesis
  proof (cases "z \<le> heap_general_capacity_bytes h s (q - 32)")
    case True
    then have le: "unat q + unat z + 8 \<le> unat s + extent (segs h) s" using cap l(3) by (simp add: word_le_nat_alt)
    have rl: "unat r \<le> extent (segs h) s" by (rule r(4)) (use g(4) le l(1,2) in auto)
    show ?thesis
    proof (cases "r < total_size (segs h s)")
      case lt: True
      from carve_ok [OF t [unfolded ss] e b a r(2,3) rl] obtain S' ss' where c:
        "settle (heap_split_segment_tail h s r) s = Some (h\<lparr>segs := S'\<rparr>)"
        "tiling S' None ss' None (unat (g_heap_start_address h)) (unat (g_heap_end_address h))"
        "regrown (segs h) ss s S' ss'" "apart_free S' ss'" "unat r \<le> extent S' s" unfolding ss by blast
      show ?thesis by (rule fin [OF _ c(2-4)])
        (use c(1,5) r(1) True lt in \<open>simp_all add: heap_realloc_general_in_place_locked_def r_def [symmetric] Let_def\<close>)
    next
      case False
      show ?thesis by (rule fin [OF _ t regrown_refl ap le])
        (use True False in \<open>simp add: heap_realloc_general_in_place_locked_def r_def [symmetric] Let_def\<close>)
    qed
  next
    case False
    note def = heap_realloc_general_in_place_locked_def r_def [symmetric] Let_def
    show ?thesis
    proof (cases "ys \<noteq> [] \<and> free_seg (segs h) (hd ys) \<and> r \<le> total_size (segs h s) + total_size (segs h (hd ys))")
      case True
      then obtain m zs where y: "ys = m # zs" and f: "free_seg (segs h) m" and fit: "r \<le> total_size (segs h s) + total_size (segs h m)"
        by (cases ys) auto
      have t1: "tiling (segs h) None (xs @ s # m # zs) None (unat (g_heap_start_address h)) (unat (g_heap_end_address h))"
        using t ss y by simp
      note j = join_facts [OF t1 e]
      let ?h = "h\<lparr>segs := fuse (segs h) s m\<rparr>"
      have az: "apart_free (segs ?h) xs" "apart_free (segs ?h) zs" using a y by (auto simp: apart_free_Cons)
      have b': "\<not> free_seg (segs ?h) s" using b by simp
      have rl: "unat r \<le> extent (segs ?h) s" using fit by (simp add: fuse_def word_le_nat_alt)
      have tj: "tiling (segs ?h) None (xs @ s # zs) None (unat (g_heap_start_address h)) (unat (g_heap_end_address h))"
        using join_tiling [OF t1 e] by simp
      from carve_ok [OF tj e b' az r(2,3) rl] obtain S' ss' where c:
        "settle (heap_split_segment_tail ?h s r) s = Some (h\<lparr>segs := S'\<rparr>)"
        "tiling S' None ss' None (unat (g_heap_start_address h)) (unat (g_heap_end_address h))"
        "regrown (fuse (segs h) s m) (xs @ s # zs) s S' ss'" "apart_free S' ss'" "unat r \<le> extent S' s" by auto
      have rg2: "regrown (segs h) ss s S' ss'" using regrown_trans [OF join_regrown [OF t1 e f] c(3)] ss y by simp
      have "heap_realloc_general_in_place_locked h s (q - 32) q z = Some (q, resize_header (h\<lparr>segs := S'\<rparr>) s (q - 32) z)"
        unfolding def j(3) using False f fit c(1) join_set [OF j(6,5)] by simp
      then show ?thesis by (rule fin [OF _ c(2) rg2 c(4)]) (use c(5) r(1) in simp)
    next
      case no: False
      have nx: "seg_next (segs h s) = first_of ys None" using chain_neighbour(1) [OF t [unfolded ss] e] .
      have "heap_realloc_general_in_place_locked h s (q - 32) q z = Some (0, h)"
        unfolding def nx using False no by (cases ys) auto
      then show ?thesis by auto
    qed
  qed
qed

section \<open>Moving an allocation\<close>

text \<open>The allocation \<open>q\<close> of \<open>n\<close> bytes has become \<open>p\<close> of \<open>z\<close> bytes, everything else is as it was.\<close>

definition block_resized :: "KernelHeap \<Rightarrow> u64 list \<Rightarrow> KernelHeap \<Rightarrow> u64 list \<Rightarrow> u64 \<Rightarrow> u64 \<Rightarrow> u64 \<Rightarrow> u64 \<Rightarrow> bool" where
  "block_resized h ss h' ss' q n p z \<longleftrightarrow> live h' ss' = {(x, m) \<in> live h ss. x \<noteq> q} \<union> {(p, z)} \<and>
     (p = q \<or> p \<notin> fst ` live h ss) \<and>
     (\<forall>(x, m) \<in> live h ss. x \<noteq> q \<longrightarrow> (\<forall>i < unat m. bytes h' (x + of_nat i) = bytes h (x + of_nat i))) \<and>
     (\<forall>i < min (unat n) (unat z). bytes h' (p + of_nat i) = bytes h (q + of_nat i))"

text \<open>In place, the bytes that changed are those of the new canary.\<close>

lemma resized_here:
  assumes ok: "heap_ok h' ss'" and lv: "live h' ss' = {(x, m) \<in> live h ss. x \<noteq> q} \<union> {(q, z)}"
    and T: "touches (bytes h) (bytes h') {unat q + unat z..<unat q + unat z + 8}"
  shows "block_resized h ss h' ss' q n q z"
proof -
  note inv = heap_okD(1) [OF ok]
  have q: "(q, z) \<in> live h' ss'" using lv by simp
  have lim: "unat x + unat m < 2 ^ 64" if "(x, m) \<in> live h' ss'" for x m
    using live_bounds(2) [OF inv that] heap_end_less [of h'] by linarith
  have "bytes h' (x + of_nat i) = bytes h (x + of_nat i)" if x: "(x, m) \<in> live h ss" "x \<noteq> q" "i < unat m" for x m i
  proof -
    have m: "(x, m) \<in> live h' ss'" using lv x by simp
    have "unat (x + of_nat i) = unat x + i" using lim [OF m] x(3) by (intro unat_plus) simp
    then show ?thesis using live_disjoint [OF inv q m x(2)] x(3) by (intro touchesD [OF T]) auto
  qed
  moreover have "bytes h' (q + of_nat i) = bytes h (q + of_nat i)" if i: "i < unat z" for i
  proof -
    have "unat (q + of_nat i) = unat q + i" using lim [OF q] i by (intro unat_plus) simp
    then show ?thesis using i by (intro touchesD [OF T]) auto
  qed
  ultimately show ?thesis using lv by (auto simp: block_resized_def)
qed

lemma copy_apply:
  assumes "k \<le> 2 ^ 64" "i < k"
  shows "memcopy M p (mem_bytes M q k) (p + of_nat i) = M (q + of_nat i)"
proof -
  have "unat (of_nat i :: u64) = i" using assms by (intro unat_of_nat64) simp
  then show ?thesis using assms by (simp add: memcopy_apply)
qed

lemma move_ok:
  assumes ok: "heap_ok h ss" and q: "(q, n) \<in> live h ss" and z: "0 < unat z" "unat z < 2 ^ 43"
  shows "\<exists>p h' ss'. heap_move h q n z = Some (p, h') \<and> heap_ok h' ss' \<and>
    (if p = 0 then live h' ss' = live h ss \<and> kept h ss h' else block_resized h ss h' ss' q n p z \<and> 16 dvd unat p)"
proof -
  have "unat (0 :: u64) \<le> 2 ^ 42" by simp
  from alloc_ok [OF ok z(2) this] obtain p h1 ss1 where a: "heap_alloc_impl h z 0 = Some (p, h1)" "heap_ok h1 ss1"
    "if p = 0 then live h1 ss1 = live h ss \<and> kept h ss h1 else block_granted h ss h1 ss1 p z \<and> 16 dvd unat p" by (auto split: if_splits)
  show ?thesis
  proof (cases "p = 0")
    case True
    then have "heap_move h q n z = Some (0, h1)" using a(1) by (simp add: heap_move_def)
    then show ?thesis using a True by auto
  next
    case False
    then have gr: "live h1 ss1 = insert (p, z) (live h ss)" "p \<notin> fst ` live h ss" "kept h ss h1" "16 dvd unat p"
      using a(3) by (auto simp: block_granted_def)
    have pq: "p \<noteq> q" using gr(2) q by force
    have pl: "(p, z) \<in> live h1 ss1" and ql: "(q, n) \<in> live h1 ss1" using gr(1) q by auto
    define k where "k = unat (if z < n then z else n)"
    have k: "k = min (unat n) (unat z)" by (simp add: k_def word_less_nat_alt min_def)
    define M where "M = memcopy (bytes h1) p (mem_bytes (bytes h1) q k)"
    have k64: "k \<le> 2 ^ 64" using unat_u64_less [of z] k by simp
    note inv1 = heap_okD(1) [OF a(2)]
    have T: "touches (bytes h1) M {unat p..<unat p + unat z}"
      unfolding touches_def
    proof (intro allI impI)
      fix x :: u64 assume "unat x \<notin> {unat p..<unat p + unat z}"
      then have "\<not> unat (x - p) < k" using live_bounds(2) [OF inv1 pl] heap_end_less [of h1] k by (auto simp: unat_sub_if')
      then show "M x = bytes h1 x" using k64 by (simp add: M_def memcopy_apply)
    qed
    note w = client_write_ok [OF a(2) pl T]
    have ql2: "(q, n) \<in> live (set_bytes h1 M) ss1" using w(2) ql by simp
    from free_ok [OF w(1) ql2] obtain h' ss' where f: "heap_free_impl (set_bytes h1 M) q = Some h'" "heap_ok h' ss'"
      "released (set_bytes h1 M) ss1 h' ss' q" by blast
    have mv: "heap_move h q n z = Some (p, h')"
      using a(1) f(1) False by (simp add: heap_move_def M_def k_def Let_def split: if_splits)
    have rl: "bytes h' (x + of_nat i) = M (x + of_nat i)" if "(x, m) \<in> live h1 ss1" "x \<noteq> q" "i < unat m" for x m i
      using f(3) that w(2) by (auto simp: released_def)
    have other: "bytes h' (x + of_nat i) = bytes h (x + of_nat i)" if x: "(x, m) \<in> live h ss" "x \<noteq> q" "i < unat m" for x m i
    proof -
      have xl: "(x, m) \<in> live h1 ss1" "x \<noteq> p" using gr(1,2) x(1) by force+
      have "M (x + of_nat i) = bytes h1 (x + of_nat i)"
        by (rule live_kept_outside [OF inv1 pl xl(1,2) touches_mono [OF T] x(3)]) auto
      then show ?thesis using rl [OF xl(1) x(2,3)] gr(3) x(1,3) by (auto simp: kept_def)
    qed
    have copied: "bytes h' (p + of_nat i) = bytes h (q + of_nat i)" if i: "i < min (unat n) (unat z)" for i
    proof -
      have "M (p + of_nat i) = bytes h1 (q + of_nat i)" unfolding M_def by (rule copy_apply [OF k64]) (use i k in simp)
      moreover have "bytes h1 (q + of_nat i) = bytes h (q + of_nat i)" using gr(3) q i by (auto simp: kept_def)
      ultimately show ?thesis using rl [OF pl pq] i by simp
    qed
    have "live h' ss' = {(x, m) \<in> live h ss. x \<noteq> q} \<union> {(p, z)}"
    proof -
      have "live h' ss' = {(x, m) \<in> live h1 ss1. x \<noteq> q}" using f(3) w(2) by (auto simp: released_def)
      then show ?thesis using gr(1) pq by auto
    qed
    then have "block_resized h ss h' ss' q n p z" using gr(2) other copied by (auto simp: block_resized_def)
    then show ?thesis using mv f(2) gr(4) False by auto
  qed
qed

text \<open>The entry point on a live allocation: the same place, another place, or, when there is no memory for
  another place, nothing.\<close>

lemma realloc_ok:
  assumes ok: "heap_ok h ss" and q: "(q, n) \<in> live h ss" and z: "0 < unat z" "unat z < 2 ^ 43"
  shows "\<exists>p h' ss'. heap_realloc_impl h q z = Some (p, h') \<and> heap_ok h' ss' \<and>
    (if p = 0 then live h' ss' = live h ss \<and> kept h ss h' else block_resized h ss h' ss' q n p z \<and> 16 dvd unat p)"
proof -
  note inv = heap_okD(1) [OF ok]
  obtain s where s: "s \<in> set ss" "(q, n) \<in> live_in (segs h s) s (blocks h)" by (rule live_segment [OF q])
  note lk = lookup_live [OF inv s]
  note l = live_block_header [OF inv s]
  have q16: "16 dvd unat q" by (rule live_aligned [OF ok q])
  have i: "g_heap_initialized h" "z \<noteq> 0" using inv z(1) by (auto simp: heap_inv_def)
  note mv = move_ok [OF ok q z]
  show ?thesis
  proof (cases "seg_kind (segs h s) = HeapSegmentGeneral")
    case True
    from in_place_ok [OF ok s(1) True s(2) z] obtain p h' where p: "heap_realloc_general_in_place_locked h s (q - 32) q z = Some (p, h')"
      "if p = 0 then h' = h else p = q \<and> (\<exists>ss'. heap_ok h' ss' \<and> live h' ss' = {(x, m) \<in> live h ss. x \<noteq> q} \<union> {(q, z)} \<and>
       touches (bytes h) (bytes h') {unat q + unat z..<unat q + unat z + 8})" by blast
    have e: "heap_realloc_impl h q z = (if p \<noteq> 0 then Some (p, h') else heap_move h q n z)"
      using lk i l(5,7) True p by (simp add: heap_realloc_impl_def)
    show ?thesis
    proof (cases "p = 0")
      case False
      then obtain ss' where o: "p = q" "heap_ok h' ss'" "live h' ss' = {(x, m) \<in> live h ss. x \<noteq> q} \<union> {(q, z)}"
        "touches (bytes h) (bytes h') {unat q + unat z..<unat q + unat z + 8}" using p(2) by auto
      then show ?thesis using e False resized_here [OF o(2-4)] q16 by auto
    qed (use e mv in simp)
  next
    case False
    then have k: "seg_kind (segs h s) = HeapSegmentSlab" using l(9) by simp
    define same where "same = (\<exists>b. heap_small_bin_index_for_request z 16 = Some b \<and> of_nat b = seg_bin_index (segs h s))"
    define h1 where "h1 = heap_write_tail_canary (set_blk h (q - 32) (\<lambda>b. b\<lparr>requested_size := z\<rparr>)) (q - 32)"
    have e: "heap_realloc_impl h q z = (if same then Some (q, h1) else heap_move h q n z)"
      using lk i l(5,7) False by (auto simp: heap_realloc_impl_def same_def h1_def split: option.split)
    show ?thesis
    proof (cases same)
      case True
      then obtain b where b: "heap_small_bin_index_for_request z 16 = Some b" "of_nat b = seg_bin_index (segs h s)" by (auto simp: same_def)
      note sb = small_bin [OF b(1)]
      have "bin_of (segs h s) = unat (of_nat b :: u16)" using b(2) by simp
      also have "\<dots> = b" using sb(1) by (simp add: unat_of_nat)
      finally have "unat z \<le> unat (HeapSmallBins ! bin_of (segs h s))" using sb(2) by simp
      note r = resize_slab_ok [OF ok s(1) k s(2) z(1) this, folded h1_def]
      show ?thesis using e True resized_here [OF r(1-3)] r(1) q16 lk(2) by auto
    qed (use e mv in simp)
  qed
qed

end
