(* ===== verification/Kernel_Heap_Client.thy ===== *)
theory Kernel_Heap_Client
  imports Kernel_Heap_Realloc
begin

unbundle bit_operations_syntax

text \<open>
  The kernel heap from its initialisation on: the states its users reach by allocating, releasing,
  resizing and writing their memory, while other parts of the kernel take and drop physical pages; the
  heap's own consistency check accepts every one of them.
\<close>

section \<open>Initialisation\<close>

text \<open>A board on which the early heap lies below the page pool, as both boards have it.\<close>

definition arena_of :: "board_config \<Rightarrow> nat \<Rightarrow> bool" where
  "arena_of cfg n \<longleftrightarrow> pool_of cfg n \<and> unat (PhysicalPagePoolBase cfg) + n * 4096 \<le> 2 ^ 47 \<and>
     0 < unat (EarlyHeapPhysicalBase cfg) \<and> 16 dvd unat (EarlyHeapPhysicalBase cfg) \<and> 112 \<le> unat (EarlyHeapSize cfg) \<and>
     16 dvd unat (EarlyHeapSize cfg) \<and>
     unat (EarlyHeapPhysicalBase cfg) + unat (EarlyHeapSize cfg) \<le> unat (PhysicalPagePoolBase cfg)"

lemma boards_arena: "arena_of raspi3_board 0x39000" "arena_of virt_board 0x8000"
  using boards_ok by (simp_all add: arena_of_def raspi3_board_def virt_board_def)

lemma init_reserved: "\<not> initialized p0 \<Longrightarrow> init cfg p0 = (StatusOK, p) \<Longrightarrow> reserved_heap_base p = EarlyHeapPhysicalBase cfg"
  by (auto simp: init_def Let_def split: if_splits)

text \<open>The first segment keeps the links it finds in memory, so the memory at the base of the arena has to be zero.\<close>

lemma heap_init_ok:
  assumes c: "arena_of cfg n" and p0: "\<not> initialized p0" "init cfg p0 = (StatusOK, p)" and g: "\<not> g_heap_initialized h" "pool h = p"
  defines "s \<equiv> physical_to_kernel (EarlyHeapPhysicalBase cfg)"
  assumes lk: "seg_next (segs h s) = None" "seg_prev (segs h s) = None"
  shows "\<exists>h'. heap_init_impl cfg h = (StatusOK, h') \<and> heap_ok h' [s] \<and> live h' [s] = {} \<and>
    segs h' s = free_record (EarlyHeapSize cfg) None None"
proof -
  have po: "pool_of cfg n" using c by (simp add: arena_of_def)
  from pool_init_ok [OF p0(1) po] p0(2) have p: "pages_ok p [0..<n - descriptor_pages n]" "page_count_of p = n"
    "managed_phys_base p = PhysicalPagePoolBase cfg" by auto
  let ?b = "EarlyHeapPhysicalBase cfg" and ?z = "EarlyHeapSize cfg"
  have u: "unat s = unat ?b + unat KernelVaBase"
    unfolding s_def physical_to_kernel_def by (rule unat_plus_word) (use c in \<open>simp add: arena_of_def\<close>)
  have z: "align_up ?z 16 = ?z"
  proof -
    have "unat ?z + 16 \<le> 2 ^ 64" using c by (simp add: arena_of_def)
    from unat_align16 [OF this] up16_facts(4) c show ?thesis by (simp add: arena_of_def word_unat_eq_iff)
  qed
  have bz: "?b \<noteq> 0" "\<not> ?z < 112" using c by (auto simp: arena_of_def word_less_nat_alt)
  have rb: "reserved_heap_physical_base cfg p = ?b"
    using init_reserved [OF p0] by (simp add: reserved_heap_physical_base_def)
  have e: "unat (s + ?z) = unat s + unat ?z" using u c by (intro unat_plus_word) (simp add: arena_of_def)
  define h' where "h' = (heap_mark_segment_free (h\<lparr>g_heap_start_address := s, g_heap_end_address := s + ?z,
     g_small_bin_available_heads := replicate 5 None, g_heap_segment_list_head := Some s\<rparr>) s ?z)\<lparr>g_heap_initialized := True\<rparr>"
  have i: "heap_init_impl cfg h = (StatusOK, h')"
    using g bz by (simp add: heap_init_impl_def rb z s_def h'_def Let_def)
  have h': "segs h' s = free_record ?z None None" "g_heap_segment_list_head h' = Some s" "g_heap_start_address h' = s"
    "g_heap_end_address h' = s + ?z" "g_small_bin_available_heads h' = replicate 5 None" "g_heap_initialized h'" "pool h' = p"
    using lk g by (simp_all add: h'_def mark_free_eq)
  have "pool_apart p (unat s) (unat (s + ?z))" unfolding pool_apart_def
  proof (intro exI conjI ballI)
    show "pages_ok p [0..<n - descriptor_pages n]" by (rule p(1))
    show "unat (managed_phys_base p) + page_count_of p * 4096 \<le> 2 ^ 47" using c p by (simp add: arena_of_def)
    fix j assume "j \<in> set [0..<n - descriptor_pages n]"
    then have "j < page_count_of p" using p(2) by simp
    then have "unat (page_address p j) = unat (managed_phys_base p) + j * 4096"
      using unat_page_address [OF pages_ok_geometry [OF p(1)]] by simp
    then show "unat (page_address p j) + unat KernelVaBase + 4096 \<le> unat s \<or> unat (s + ?z) \<le> unat (page_address p j) + unat KernelVaBase"
      using c p(3) u e by (simp add: arena_of_def)
  qed
  moreover have "avail_ok (segs h') (replicate 5 None) [s]"
    unfolding avail_ok_def using h'(1) by (auto simp: slabs_of_def dll_def intro!: exI [of _ "[]"])
  ultimately have "heap_inv h' [s]"
    using c u e unfolding heap_inv_def h'(2-5,7) by (simp add: h'(1,6) body_ok_def arena_of_def)
  then have "heap_ok h' [s]" by (simp add: heap_ok_def)
  moreover have "live h' [s] = {}" using h'(1) by (simp add: live_def live_in_def)
  ultimately show ?thesis using i h'(1) by (intro exI [of _ h'] conjI)
qed

section \<open>Pages of other users\<close>

text \<open>A page that lies outside the arena.\<close>

definition off_arena :: "KernelHeap \<Rightarrow> nat \<Rightarrow> bool" where
  "off_arena h i \<longleftrightarrow> unat (page_address (pool h) i) + unat KernelVaBase + 4096 \<le> unat (g_heap_start_address h) \<or>
     unat (g_heap_end_address h) \<le> unat (page_address (pool h) i) + unat KernelVaBase"

lemma pool_change_ok:
  assumes ok: "heap_ok h ss" and p: "pool_apart p (unat (g_heap_start_address h)) (unat (g_heap_end_address h))"
    and b: "\<And>x. unat (g_heap_start_address h) \<le> unat x \<Longrightarrow> unat x < unat (g_heap_end_address h) \<Longrightarrow>
      ram p (x - KernelVaBase) = ram (pool h) (x - KernelVaBase)"
  shows "heap_ok (h\<lparr>pool := p\<rparr>) ss" "live (h\<lparr>pool := p\<rparr>) ss = live h ss" "kept h ss (h\<lparr>pool := p\<rparr>)"
proof -
  note inv = heap_okD(1) [OF ok]
  have e: "unat (g_heap_end_address h) + 2 ^ 46 \<le> 2 ^ 64" using inv by (simp add: heap_inv_def)
  have eq: "h\<lparr>segs := segs h, pool := p, g_heap_end_address := g_heap_end_address h\<rparr> = h\<lparr>pool := p\<rparr>" by simp
  have b': "bytes (h\<lparr>pool := p\<rparr>) x = bytes h x" if "unat (g_heap_start_address h) \<le> unat x" "unat x < unat (g_heap_end_address h)" for x
    using b [OF that] by (simp add: bytes_def)
  note r = regrow_inv [OF inv reshape_refl e heap_inv_tiling [OF inv] refl p b', unfolded eq]
  show "heap_ok (h\<lparr>pool := p\<rparr>) ss" using r(1) heap_okD(2) [OF ok] by (simp add: heap_ok_def)
  show "live (h\<lparr>pool := p\<rparr>) ss = live h ss" "kept h ss (h\<lparr>pool := p\<rparr>)" using r(2,3) by auto
qed

lemma page_taken_ok:
  assumes ok: "heap_ok h ss" and a: "alloc_page (pool h) = (page_address (pool h) i, p)" and i: "i < page_count_of (pool h)"
  shows "heap_ok (h\<lparr>pool := p\<rparr>) ss" "live (h\<lparr>pool := p\<rparr>) ss = live h ss" "off_arena h i"
proof -
  from heap_okD(1) [OF ok] obtain fs where fs: "pages_ok (pool h) fs" "unat (managed_phys_base (pool h)) + page_count_of (pool h) * 4096 \<le> 2 ^ 47"
    "\<forall>j \<in> set fs. off_arena h j" by (auto simp: heap_inv_def pool_apart_def off_arena_def)
  obtain us where us: "fs = us @ [i]" using alloc_cases [OF fs(1) a i] by blast
  from alloc_page_ok [OF fs(1) [unfolded us]] a have p: "pages_ok p us" "same_pool (pool h) p"
    "ram p = memzero (ram (pool h)) (page_address (pool h) i) 4096" by auto
  note sp = same_poolD [OF p(2)]
  show off: "off_arena h i" using fs(3) us by simp
  have "unat (page_address (pool h) i) = unat (managed_phys_base (pool h)) + i * 4096"
    by (rule unat_page_address [OF pages_ok_geometry [OF fs(1)] i])
  then have lt: "unat (page_address (pool h) i) < 2 ^ 47" using fs(2) i by linarith
  have pa: "pool_apart p (unat (g_heap_start_address h)) (unat (g_heap_end_address h))"
    using p(1) fs(2,3) us unfolding pool_apart_def sp off_arena_def by auto
  have "ram p (x - KernelVaBase) = ram (pool h) (x - KernelVaBase)"
    if "unat (g_heap_start_address h) \<le> unat x" "unat x < unat (g_heap_end_address h)" for x
    using page_outside [OF that off [unfolded off_arena_def] lt] by (simp add: p(3) memzero_apply)
  note c = pool_change_ok [OF ok pa this]
  show "heap_ok (h\<lparr>pool := p\<rparr>) ss" "live (h\<lparr>pool := p\<rparr>) ss = live h ss" using c(1,2) by auto
qed

lemma page_dropped_ok:
  assumes ok: "heap_ok h ss" and i: "i < page_count_of (pool h)" and o: "off_arena h i"
    and x: "unat (page_address (pool h) i) \<le> unat x" "unat x < unat (page_address (pool h) i) + 4096"
  shows "heap_ok (h\<lparr>pool := free_page (pool h) x\<rparr>) ss" "live (h\<lparr>pool := free_page (pool h) x\<rparr>) ss = live h ss"
proof -
  from heap_okD(1) [OF ok] obtain fs where fs: "pages_ok (pool h) fs" "unat (managed_phys_base (pool h)) + page_count_of (pool h) * 4096 \<le> 2 ^ 47"
    "\<forall>j \<in> set fs. off_arena h j" by (auto simp: heap_inv_def pool_apart_def off_arena_def)
  note f = free_page_ok [OF fs(1) i x]
  note sp = same_poolD [OF f(4)]
  have "\<exists>gs. pages_ok (free_page (pool h) x) gs \<and> set gs \<subseteq> insert i (set fs)"
  proof (cases "refs (pool h) i = 0")
    case True
    then show ?thesis using f(1) fs(1) by (intro exI [of _ fs]) auto
  next
    case False
    then show ?thesis using f(2) by (intro exI [of _ "if refs (pool h) i = 1 then fs @ [i] else fs"]) auto
  qed
  then obtain gs where gs: "pages_ok (free_page (pool h) x) gs" "set gs \<subseteq> insert i (set fs)" by blast
  then have "pool_apart (free_page (pool h) x) (unat (g_heap_start_address h)) (unat (g_heap_end_address h))"
    unfolding pool_apart_def sp using fs(2,3) o by (auto simp: off_arena_def)
  then show "heap_ok (h\<lparr>pool := free_page (pool h) x\<rparr>) ss" "live (h\<lparr>pool := free_page (pool h) x\<rparr>) ss = live h ss"
    using f(5) by (auto intro!: pool_change_ok [OF ok])
qed

section \<open>Users of the heap\<close>

text \<open>\<open>kernel_heap_client h L\<close>: the heap can be in state \<open>h\<close> with the allocations \<open>L\<close> in use, when every user
  releases and resizes allocations in use only, writes inside them, and other parts of the kernel take
  pages from the pool and return pages outside the arena.\<close>

inductive kernel_heap_client :: "KernelHeap \<Rightarrow> (u64 \<times> u64) set \<Rightarrow> bool" where
  heap_start: "arena_of cfg n \<Longrightarrow> \<not> initialized p0 \<Longrightarrow> init cfg p0 = (StatusOK, pool h) \<Longrightarrow> \<not> g_heap_initialized h \<Longrightarrow>
    seg_next (segs h (physical_to_kernel (EarlyHeapPhysicalBase cfg))) = None \<Longrightarrow>
    seg_prev (segs h (physical_to_kernel (EarlyHeapPhysicalBase cfg))) = None \<Longrightarrow>
    heap_init_impl cfg h = (StatusOK, h') \<Longrightarrow> kernel_heap_client h' {}"
| heap_alloc: "kernel_heap_client h L \<Longrightarrow> unat sz < 2 ^ 43 \<Longrightarrow> unat al \<le> 2 ^ 42 \<Longrightarrow> heap_alloc_impl h sz al = Some (p, h') \<Longrightarrow>
    kernel_heap_client h' (if p = 0 then L else insert (p, sz) L)"
| heap_free: "kernel_heap_client h L \<Longrightarrow> (q, n) \<in> L \<Longrightarrow> heap_free_impl h q = Some h' \<Longrightarrow> kernel_heap_client h' (L - {(q, n)})"
| heap_realloc: "kernel_heap_client h L \<Longrightarrow> (q, n) \<in> L \<Longrightarrow> 0 < unat sz \<Longrightarrow> unat sz < 2 ^ 43 \<Longrightarrow> heap_realloc_impl h q sz = Some (p, h') \<Longrightarrow>
    kernel_heap_client h' (if p = 0 then L else insert (p, sz) (L - {(q, n)}))"
| heap_write: "kernel_heap_client h L \<Longrightarrow> (q, n) \<in> L \<Longrightarrow> touches (bytes h) m {unat q..<unat q + unat n} \<Longrightarrow> kernel_heap_client (set_bytes h m) L"
| heap_page: "kernel_heap_client h L \<Longrightarrow> i < page_count_of (pool h) \<Longrightarrow> alloc_page (pool h) = (page_address (pool h) i, p) \<Longrightarrow>
    kernel_heap_client (h\<lparr>pool := p\<rparr>) L"
| heap_unpage: "kernel_heap_client h L \<Longrightarrow> i < page_count_of (pool h) \<Longrightarrow> off_arena h i \<Longrightarrow> unat (page_address (pool h) i) \<le> unat x \<Longrightarrow>
    unat x < unat (page_address (pool h) i) + 4096 \<Longrightarrow> kernel_heap_client (h\<lparr>pool := free_page (pool h) x\<rparr>) L"

lemma kernel_heap_client_inv: "kernel_heap_client h L \<Longrightarrow> \<exists>ss. heap_ok h ss \<and> live h ss = L"
proof (induction rule: kernel_heap_client.induct)
  case (heap_start cfg n p0 h h')
  from heap_init_ok [OF heap_start(1-4) refl heap_start(5,6)] heap_start(7) show ?case by auto
next
  case (heap_alloc h L sz al p h')
  then obtain ss where ss: "heap_ok h ss" "live h ss = L" by blast
  from alloc_ok [OF ss(1) heap_alloc(2,3)] heap_alloc(4) ss(2) show ?case by (auto simp: block_granted_def split: if_splits)
next
  case (heap_free h L q n h')
  then obtain ss where ss: "heap_ok h ss" "live h ss = L" by blast
  have q: "(q, n) \<in> live h ss" using heap_free(2) ss(2) by simp
  from free_ok [OF ss(1) q] heap_free(3) obtain ss' where f: "heap_ok h' ss'" "live h' ss' = {(p, m) \<in> L. p \<noteq> q}"
    using ss(2) by (auto simp: released_def)
  have "{(p, m) \<in> L. p \<noteq> q} = L - {(q, n)}" using live_size_unique [OF heap_okD(1) [OF ss(1)] _ q] ss(2) by blast
  then show ?case using f by auto
next
  case (heap_realloc h L q n sz p h')
  then obtain ss where ss: "heap_ok h ss" "live h ss = L" by blast
  have q: "(q, n) \<in> live h ss" using heap_realloc(2) ss(2) by simp
  have L: "{(p, m) \<in> L. p \<noteq> q} = L - {(q, n)}" using live_size_unique [OF heap_okD(1) [OF ss(1)] _ q] ss(2) by blast
  from realloc_ok [OF ss(1) q heap_realloc(3,4)] heap_realloc(5) ss(2) L show ?case
    by (auto simp: block_resized_def split: if_splits)
next
  case (heap_write h L q n m)
  then obtain ss where ss: "heap_ok h ss" "live h ss = L" by blast
  from client_write_ok [OF ss(1), of q n m] heap_write(2,3) ss show ?case by (intro exI [of _ ss]) simp
next
  case (heap_page h L i p)
  then obtain ss where ss: "heap_ok h ss" "live h ss = L" by blast
  from page_taken_ok [OF ss(1) heap_page(3,2)] ss show ?case by auto
next
  case (heap_unpage h L i x)
  then obtain ss where ss: "heap_ok h ss" "live h ss = L" by blast
  from page_dropped_ok [OF ss(1) heap_unpage(2-5)] ss show ?case by auto
qed

end
