(* ===== verification/Kernel_Heap_Check.thy ===== *)
theory Kernel_Heap_Check
  imports Kernel_Heap_Client
begin

unbundle bit_operations_syntax

text \<open>
  The heap's own consistency check: it walks the chain, every slab's blocks and every free list, ends, and
  accepts every well-formed heap.
\<close>

section \<open>One general segment\<close>

lemma validate_general_ok:
  assumes inv: "heap_inv h ss" and s: "s \<in> set ss" and k: "seg_kind (segs h s) = HeapSegmentGeneral"
  shows "heap_validate_general_segment_locked h s"
proof -
  note g = heap_inv_seg [OF inv s]
  have "general_ok (segs h s) s (blocks h) (bytes h)" using g(8) k by (simp add: body_ok_def)
  then obtain d where d: "block_list (segs h s) = Some d" "allocation_count (segs h s) = 1" "seg_free_count (segs h s) = 0"
    "block_count (segs h s) = 1" "unat s + 96 \<le> unat d" "unat d + 40 + unat (user_bytes (segs h s)) \<le> unat s + extent (segs h) s"
    "blk_kind (blocks h d) = HeapBlockGeneral" "requested_size (blocks h d) = user_bytes (segs h s)" "owner_segment (blocks h d) = Some s"
    "live_block d (blocks h d) (bytes h)" by (auto simp: general_ok_def)
  have u: "unat (d + 32) = unat d + 32" using d(5,6) g(7) by (intro unat_payload) simp
  have v: "unat (d + 32 + user_bytes (segs h s)) = unat d + 32 + unat (user_bytes (segs h s))" using d(5,6) g(7) by (intro unat_canary) simp
  have w: "unat (d + 32 + user_bytes (segs h s) + 8) = unat d + 40 + unat (user_bytes (segs h s))"
    using unat_plus_word [of "d + 32 + user_bytes (segs h s)" 8] v d(6) g(7) by simp
  have "heap_block_header_inside_segment h s d" by (rule header_inside [OF inv s d(5)]) (use d(6) in simp)
  moreover have "\<not> d + 32 \<le> d" using u by (simp add: word_le_nat_alt)
  moreover have "\<not> heap_segment_end_address h s < d + 32 + user_bytes (segs h s) + 8"
    using w d(6) segment_end [OF inv s] by (simp add: word_less_nat_alt)
  moreover have "heap_tail_canary_valid h d" "blk_magic (blocks h d) = HeapBlockAllocatedMagic" "user_bytes (segs h s) \<noteq> 0"
    using d(8,10) by (auto simp: live_block_def canary_valid_iff)
  ultimately show ?thesis using d by (simp add: heap_validate_general_segment_locked_def heap_block_payload_pointer_def Let_def)
qed

section \<open>One slab\<close>

lemma scan_blocks_ok:
  assumes inv: "heap_inv h ss" and s: "s \<in> set ss" and k: "seg_kind (segs h s) = HeapSegmentSlab"
    and idx: "\<And>i. i \<in> set js \<Longrightarrow> i < slab_blocks (segs h s) (bin_of (segs h s))"
  defines "mg \<equiv> \<lambda>i. blk_magic (blocks h (slab_header s (bin_of (segs h s)) i))"
  shows "scan_blocks h s js a f = Some (a + of_nat (length (filter (\<lambda>i. mg i = HeapBlockAllocatedMagic) js)),
      f + of_nat (length (filter (\<lambda>i. mg i = HeapBlockFreedMagic) js)))"
  using idx
proof (induction js arbitrary: a f)
  case (Cons i js)
  note g = heap_inv_seg [OF inv s]
  let ?b = "bin_of (segs h s)"
  obtain fl where sl: "slab_ok (segs h s) s (blocks h) (bytes h) fl" using g(8) k by (auto simp: body_ok_def)
  have i: "i < slab_blocks (segs h s) ?b" using Cons.prems by simp
  have b5: "?b < 5" and sz: "4096 \<le> extent (segs h) s" "extent (segs h) s < 4208" and st: "block_stride (segs h s) = slab_stride ?b"
    and bo: "slab_block_ok (segs h s) s i (blocks h (slab_header s ?b i)) (bytes h)"
    using sl i by (auto simp: slab_ok_def)
  have "slab_block_base s = s + 96" by (rule slab_block_base_eq) (use g sz in simp_all)
  then have hd: "slab_block_base s + of_nat i * block_stride (segs h s) = slab_header s ?b i" by (simp add: st slab_header_def)
  note hu = unat_slab_header [OF b5 i sz g(7)]
  have ins: "heap_block_header_inside_segment h s (slab_header s ?b i)"
    by (rule header_inside [OF inv s]) (use hu slab_stride_nat(2) [OF b5] in simp_all)
  have IH: "scan_blocks h s js a f = Some (a + of_nat (length (filter (\<lambda>i. mg i = HeapBlockAllocatedMagic) js)),
      f + of_nat (length (filter (\<lambda>i. mg i = HeapBlockFreedMagic) js)))" for a f using Cons by simp
  from bo consider "mg i = HeapBlockFreedMagic" | "mg i = HeapBlockAllocatedMagic" "live_block (slab_header s ?b i) (blocks h (slab_header s ?b i)) (bytes h)"
    "unat (requested_size (blocks h (slab_header s ?b i))) \<le> unat (user_bytes (segs h s))"
    by (auto simp: slab_block_ok_def live_block_def mg_def)
  then show ?case
  proof cases
    case 1
    then show ?thesis using bo ins by (simp add: hd Let_def slab_block_ok_def IH mg_def)
  next
    case 2
    then have "requested_size (blocks h (slab_header s ?b i)) \<noteq> 0" "heap_tail_canary_valid h (slab_header s ?b i)"
      "\<not> user_bytes (segs h s) < requested_size (blocks h (slab_header s ?b i))"
      by (auto simp: live_block_def canary_valid_iff word_less_nat_alt)
    then show ?thesis using 2(1) bo ins by (simp add: hd Let_def slab_block_ok_def IH mg_def)
  qed
qed simp

lemma slist_drop: "slist nxt (xs @ ys) \<Longrightarrow> slist nxt ys"
  by (induction xs) auto

lemma walk_free_list_ok:
  assumes inv: "heap_inv h ss" and s: "s \<in> set ss" and k: "seg_kind (segs h s) = HeapSegmentSlab"
    and sl: "slab_ok (segs h s) s (blocks h) (bytes h) (done @ rest)"
    and seen: "length seen = 8" "\<And>i. i < 64 \<Longrightarrow> bit (seen ! 0) i \<longleftrightarrow> i \<in> set done"
  shows "walk_free_list h s (first_of (map (slab_header s (bin_of (segs h s))) rest) None) seen (of_nat (length done)) =
    Some (Some (of_nat (length (done @ rest))))"
  using sl seen
proof (induction rest arbitrary: "done" seen)
  case Nil
  then show ?case by (subst walk_free_list.simps) simp
next
  case (Cons i rest)
  note g = heap_inv_seg [OF inv s]
  let ?b = "bin_of (segs h s)" and ?d = "slab_header s (bin_of (segs h s))"
  let ?n = "slab_blocks (segs h s) ?b"
  have b5: "?b < 5" and sz: "4096 \<le> extent (segs h) s" "extent (segs h) s < 4208" and st: "block_stride (segs h s) = slab_stride ?b"
    and i: "i < ?n" "blk_magic (blocks h (?d i)) = HeapBlockFreedMagic" and ni: "i \<notin> set done" and bc: "block_count (segs h s) = of_nat ?n"
    and slst: "slist (\<lambda>x. next_free (blocks h x)) (map ?d (done @ i # rest))" and dis: "distinct (done @ i # rest)"
    and sub: "set (done @ i # rest) \<subseteq> {..<?n}"
    using Cons.prems(1) by (auto simp: slab_ok_def)
  have bo: "slab_block_ok (segs h s) s i (blocks h (?d i)) (bytes h)" using Cons.prems(1) i(1) by (simp add: slab_ok_def)
  have n51: "?n \<le> 51" by (rule slab_blocks_bounds(2) [OF b5 sz])
  have base: "slab_block_base s = s + 96" by (rule slab_block_base_eq) (use g sz in simp_all)
  note hu = unat_slab_header [OF b5 i(1) sz g(7)]
  note stn = slab_stride_nat [OF b5]
  have rel: "?d i - (s + 96) = of_nat i * slab_stride ?b" by (simp add: slab_header_def)
  have ui: "unat (of_nat i :: u64) = i" using i(1) n51 by (intro unat_of_nat64) simp
  have "i * unat (slab_stride ?b) \<le> 51 * 560" using i(1) n51 stn(3) by (intro mult_le_mono) auto
  then have um: "unat (of_nat i * slab_stride ?b :: u64) = i * unat (slab_stride ?b)" using ui by (simp add: unat_word_ariths)
  have dv: "of_nat i * slab_stride ?b div slab_stride ?b = (of_nat i :: u64)"
    using um stn(2) ui by (simp add: word_unat_eq_iff unat_div)
  have md: "of_nat i * slab_stride ?b mod slab_stride ?b = (0 :: u64)" using um by (simp add: word_unat_eq_iff unat_mod)
  have ix: "ucast (of_nat i :: u64) = (of_nat i :: u32)" using i(1) n51 by (simp add: word_unat_eq_iff ui unat32 unsigned_ucast_eq take_bit_nat_eq_self)
  have u32: "unat (of_nat i :: u32) = i" using i(1) n51 by (intro unat32) simp
  have w: "unat ((of_nat i :: u32) div 64) = 0" "unat ((of_nat i :: u32) mod 64) = i" using i(1) n51 by (simp_all add: unat_div unat_mod u32)
  have b96: "unat (s + 96) = unat s + 96" using unat_plus_word [of s 96] g(7) sz by simp
  have c1: "\<not> ?d i < s + 96" "\<not> heap_segment_end_address h s \<le> ?d i" "\<not> block_count (segs h s) \<le> of_nat i"
    using hu b96 segment_end [OF inv s] stn(2) i(1) n51 u32 unat32 [of ?n] by (simp_all add: word_less_nat_alt word_le_nat_alt bc)
  have bit0: "seen ! 0 AND push_bit i 1 = 0"
  proof (rule bit_word_eqI)
    fix j assume j: "j < LENGTH(64)"
    show "bit (seen ! 0 AND push_bit i 1) j = bit (0 :: u64) j"
      using Cons.prems(3) [of i] ni i(1) n51 j by (auto simp: bit_simps)
  qed
  define seen' where "seen' = seen[0 := seen ! 0 OR push_bit i 1]"
  have s': "length seen' = 8" "\<And>j. j < 64 \<Longrightarrow> bit (seen' ! 0) j \<longleftrightarrow> j \<in> set (done @ [i])"
    using Cons.prems(2,3) i(1) n51 by (auto simp: seen'_def bit_simps)
  have len: "length done + 1 \<le> ?n"
  proof -
    have "card (set (done @ i # rest)) \<le> card {..<?n}" using sub by (intro card_mono) auto
    then show ?thesis using distinct_card [OF dis] by simp
  qed
  have wk: "\<not> block_count (segs h s) < of_nat (length done) + 1"
  proof -
    have "unat (of_nat (length done + 1) :: u32) = length done + 1" using len n51 by (intro unat32) simp
    then show ?thesis using len n51 unat32 [of ?n] by (simp add: word_less_nat_alt bc add.commute)
  qed
  have nx: "next_free (blocks h (?d i)) = first_of (map ?d rest) None" using slist_drop [of _ "map ?d done"] slst by fastforce
  have IH: "walk_free_list h s (first_of (map ?d rest) None) seen' (of_nat (length (done @ [i]))) = Some (Some (of_nat (length ((done @ [i]) @ rest))))"
    by (rule Cons.IH) (use Cons.prems(1) s' in simp_all)
  have ow: "owner_segment (blocks h (?d i)) = Some s" using bo by (simp add: slab_block_ok_def)
  have "walk_free_list h s (first_of (map ?d (i # rest)) None) seen (of_nat (length done)) =
      walk_free_list h s (first_of (map ?d rest) None) seen' (of_nat (length done) + 1)"
    by (subst walk_free_list.simps) (simp add: Let_def base st rel dv md ix w c1 i(2) ow bit0 [simplified] wk nx seen'_def)
  then show ?case using IH by (simp add: add.commute)
qed

lemma filter_count:
  assumes "distinct fl" "set fl = {i. i < n \<and> P i}" shows "length (filter P [0..<n]) = length fl"
proof -
  have "set (filter P [0..<n]) = set fl" using assms(2) by auto
  then show ?thesis using distinct_card [of "filter P [0..<n]"] distinct_card [OF assms(1)] by simp
qed

lemma validate_slab_ok:
  assumes inv: "heap_inv h ss" and s: "s \<in> set ss" and k: "seg_kind (segs h s) = HeapSegmentSlab"
  shows "heap_validate_slab_segment_locked h s = Some True"
proof -
  note g = heap_inv_seg [OF inv s]
  define b n where "b = bin_of (segs h s)" and "n = slab_blocks (segs h s) b"
  obtain fl where sl: "slab_ok (segs h s) s (blocks h) (bytes h) fl" and n51: "n \<le> 51" and len: "length fl \<le> n"
    using slab_facts [OF inv s k] unfolding b_def n_def by metis
  have b5: "b < 5" and sz: "4096 \<le> extent (segs h) s" "extent (segs h) s < 4208" and st: "block_stride (segs h s) = slab_stride b"
    and ub: "user_bytes (segs h s) = HeapSmallBins ! b" and bc: "block_count (segs h s) = of_nat n"
    and fc: "seg_free_count (segs h s) = of_nat (length fl)" and ac: "allocation_count (segs h s) = of_nat (n - length fl)"
    and dis: "distinct fl" and fs: "set fl = {i. i < n \<and> blk_magic (blocks h (slab_header s b i)) = HeapBlockFreedMagic}"
    and bl: "block_list (segs h s) = first_of (map (slab_header s b) fl) None"
    and bo: "\<And>i. i < n \<Longrightarrow> slab_block_ok (segs h s) s i (blocks h (slab_header s b i)) (bytes h)"
    using sl by (auto simp: slab_ok_def b_def n_def)
  note stn = slab_stride_nat [OF b5]
  note sb = slab_blocks_bounds [OF b5 sz, folded n_def]
  have base: "slab_block_base s = s + 96" by (rule slab_block_base_eq) (use g sz in simp_all)
  have b96: "unat (s + 96) = unat s + 96" using unat_plus_word [of s 96] g(7) sz by simp
  have un: "unat (of_nat n :: u32) = n" using n51 by (intro unat32) simp
  have uc: "(ucast (of_nat n :: u32) :: u64) = of_nat n"
    using n51 by (simp add: word_unat_eq_iff unsigned_ucast_eq take_bit_nat_eq_self un unat_of_nat64)
  have um: "unat (of_nat n * slab_stride b :: u64) = n * unat (slab_stride b)"
    using sb(3) sz(2) n51 by (simp add: unat_word_ariths unat_of_nat64)
  have ue: "unat (s + 96 + of_nat n * slab_stride b) = unat s + 96 + n * unat (slab_stride b)"
    using unat_plus_word [of "s + 96" "of_nat n * slab_stride b"] b96 um sb(3) g(7) by simp
  have c: "slab_stride b \<noteq> 0" "(of_nat n :: u32) \<noteq> 0" "\<not> heap_segment_end_address h s \<le> s + 96"
    "\<not> heap_segment_end_address h s < s + 96 + of_nat n * slab_stride b" "\<not> (512 :: u32) < of_nat n"
    "of_nat (length fl) + of_nat (n - length fl) = (of_nat n :: u32)"
  proof -
    show "slab_stride b \<noteq> 0" using stn(2) by auto
    show "(of_nat n :: u32) \<noteq> 0" using un sb(1) by auto
    show "\<not> heap_segment_end_address h s \<le> s + 96" "\<not> heap_segment_end_address h s < s + 96 + of_nat n * slab_stride b"
      using segment_end [OF inv s] b96 ue sb(3) sz by (simp_all add: word_le_nat_alt word_less_nat_alt)
    show "\<not> (512 :: u32) < of_nat n" using un n51 by (simp add: word_less_nat_alt)
    show "of_nat (length fl) + of_nat (n - length fl) = (of_nat n :: u32)" using len by (simp flip: of_nat_add)
  qed
  let ?mg = "\<lambda>i. blk_magic (blocks h (slab_header s b i))"
  have lf: "length (filter (\<lambda>i. ?mg i = HeapBlockFreedMagic) [0..<n]) = length fl" by (rule filter_count [OF dis fs])
  have "?mg i = HeapBlockAllocatedMagic \<longleftrightarrow> \<not> ?mg i = HeapBlockFreedMagic" if "i < n" for i
    using bo [OF that] by (auto simp: slab_block_ok_def live_block_def)
  then have "filter (\<lambda>i. ?mg i = HeapBlockAllocatedMagic) [0..<n] = filter (\<lambda>i. \<not> ?mg i = HeapBlockFreedMagic) [0..<n]"
    by (intro filter_cong) auto
  then have la: "length (filter (\<lambda>i. ?mg i = HeapBlockAllocatedMagic) [0..<n]) = n - length fl"
    using sum_length_filter_compl [of "\<lambda>i. ?mg i = HeapBlockFreedMagic" "[0..<n]"] lf by simp
  have sc: "scan_blocks h s [0..<n] 0 0 = Some (of_nat (n - length fl), of_nat (length fl))"
    using scan_blocks_ok [OF inv s k, of "[0..<n]" 0 0] lf la by (simp add: b_def n_def)
  have wk: "walk_free_list h s (block_list (segs h s)) (replicate 8 0) 0 = Some (Some (of_nat (length fl)))"
    using walk_free_list_ok [OF inv s k, of "[]" fl "replicate 8 0"] sl by (simp add: bl b_def)
  show ?thesis
    unfolding heap_validate_slab_segment_locked_def Let_def b_def [symmetric] base st ub bc fc ac uc un
    using b5 c sc wk by simp
qed

section \<open>The chain\<close>

lemma validate_body_ok:
  assumes inv: "heap_inv h ss" and s: "s \<in> set ss" shows "heap_validate_body h s = Some True"
  using heap_inv_seg(8) [OF inv s] validate_general_ok [OF inv s] validate_slab_ok [OF inv s]
  by (auto simp: heap_validate_body_def body_ok_def)

lemma validate_chain_ok:
  assumes "heap_ok h (xs @ ys)" "tiling (segs h) (last_of None xs) ys None (unat a) (unat (g_heap_end_address h))"
  shows "validate_chain h (first_of ys None) (last_of None xs) a = Some True"
  using assms
proof (induction ys arbitrary: xs a)
  case Nil
  then show ?case by (subst validate_chain.simps) (simp add: word_unat_eq_iff)
next
  case (Cons s ys)
  note inv = heap_okD(1) [OF Cons.prems(1)]
  have m: "s \<in> set (xs @ s # ys)" by simp
  note g = heap_inv_seg [OF inv m]
  have sa: "s = a" and pv: "seg_prev (segs h s) = last_of None xs" and nx: "seg_next (segs h s) = first_of ys None"
    and t: "tiling (segs h) (Some s) ys None (unat a + extent (segs h) s) (unat (g_heap_end_address h))"
    using Cons.prems(2) by (auto simp: word_unat_eq_iff)
  have ue: "unat (heap_segment_end_address h s) = unat s + extent (segs h) s" by (rule segment_end [OF inv m])
  have n1: "\<not> (case first_of ys None of None \<Rightarrow> False | Some n \<Rightarrow> n \<noteq> heap_segment_end_address h s)"
  proof (cases ys)
    case (Cons n zs)
    then have "unat n = unat (heap_segment_end_address h s)" using t ue sa by simp
    then have "n = heap_segment_end_address h s" by (simp add: word_unat_eq_iff)
    then show ?thesis using Cons by simp
  qed simp
  have n2: "\<not> (seg_kind (segs h s) = HeapSegmentFree \<and> (case first_of ys None of None \<Rightarrow> False | Some n \<Rightarrow> seg_kind (segs h n) = HeapSegmentFree))"
    using heap_okD(2) [OF Cons.prems(1)] by (cases ys) (auto simp: apart_free_append apart_free_Cons)
  have "validate_chain h (first_of ys None) (last_of None (xs @ [s])) (heap_segment_end_address h s) = Some True"
    by (rule Cons.IH) (use Cons.prems(1) t ue sa in \<open>simp_all add: last_of_def\<close>)
  then have IH: "validate_chain h (first_of ys None) (Some s) (heap_segment_end_address h s) = Some True" by (simp add: last_of_def)
  have v: "heap_segment_pointer_valid h (Some s)" by (rule seg_pointer_valid [OF inv m])
  show ?case
    by (subst validate_chain.simps)
      (simp only: first_of_simps option.case v sa [symmetric] pv nx n1 n2 validate_body_ok [OF inv m] IH simp_thms if_False if_True
        Option.bind.bind_lunit not_True_eq_False)
qed

lemma validate_ok:
  assumes "heap_ok h ss" shows "heap_validate_locked h = Some True"
proof -
  note inv = heap_okD(1) [OF assms]
  have "validate_chain h (first_of ss None) (last_of None []) (g_heap_start_address h) = Some True"
    by (rule validate_chain_ok) (use assms heap_inv_tiling [OF inv] in \<open>simp_all add: last_of_def\<close>)
  moreover have "g_heap_initialized h" "g_heap_segment_list_head h = first_of ss None" "ss \<noteq> []" using inv by (auto simp: heap_inv_def)
  ultimately show ?thesis by (cases ss) (simp_all add: heap_validate_locked_def last_of_def)
qed


section \<open>Statistics\<close>

lemma stats_from_ok:
  assumes "heap_inv h (xs @ ys)" "total_bytes st = used_bytes st + free_bytes st"
  shows "\<exists>r. stats_from h (first_of ys None) st = Some r \<and> total_bytes r = used_bytes r + free_bytes r"
  using assms
proof (induction ys arbitrary: xs st)
  case Nil
  then show ?case by (subst stats_from.simps) simp
next
  case (Cons s ys)
  note inv = Cons.prems(1)
  have m: "s \<in> set (xs @ s # ys)" by simp
  have nx: "seg_next (segs h s) = first_of ys None" using chain_neighbour(1) [OF heap_inv_tiling [OF inv] heap_end_less] .
  let ?g = "segs h s" and ?p = "heap_segment_payload_bytes h s"
  define st1 where "st1 =
    (if seg_kind ?g = HeapSegmentFree then st\<lparr>total_bytes := total_bytes st + ?p, free_bytes := free_bytes st + ?p\<rparr>
     else if seg_kind ?g = HeapSegmentGeneral then st\<lparr>total_bytes := total_bytes st + ?p, used_bytes := used_bytes st + ?p\<rparr>
     else if seg_kind ?g = HeapSegmentSlab
     then st\<lparr>total_bytes := total_bytes st + ucast (block_count ?g) * block_stride ?g,
             used_bytes := used_bytes st + ucast (allocation_count ?g) * block_stride ?g,
             free_bytes := free_bytes st + ucast (seg_free_count ?g) * block_stride ?g\<rparr>
     else st)"
  have step: "stats_from h (first_of (s # ys) None) st = stats_from h (first_of ys None) st1"
    by (subst stats_from.simps) (simp add: nx st1_def Let_def)
  have slab: "(ucast (block_count ?g) :: u64) = ucast (allocation_count ?g) + ucast (seg_free_count ?g)" if k: "seg_kind ?g = HeapSegmentSlab"
  proof -
    obtain fl where sl: "slab_ok ?g s (blocks h) (bytes h) fl" and b: "slab_blocks ?g (bin_of ?g) \<le> 51" "length fl \<le> slab_blocks ?g (bin_of ?g)"
      by (rule slab_facts [OF inv m k])
    have u: "(ucast (of_nat x :: u32) :: u64) = of_nat x" if "x \<le> 51" for x
      using that by (simp add: word_unat_eq_iff unsigned_ucast_eq take_bit_nat_eq_self unat32 unat_of_nat64)
    show ?thesis using sl b u [of "length fl"] u [of "slab_blocks ?g (bin_of ?g)"] u [of "slab_blocks ?g (bin_of ?g) - length fl"]
      by (simp add: slab_ok_def flip: of_nat_add)
  qed
  have "total_bytes st1 = used_bytes st1 + free_bytes st1"
    using Cons.prems(2) slab by (simp add: st1_def algebra_simps)
  from Cons.IH [OF _ this, of "xs @ [s]"] inv show ?case unfolding step by simp
qed

lemma stats_ok:
  assumes "heap_ok h ss" shows "\<exists>st. heap_stats_impl h = Some st \<and> total_bytes st = used_bytes st + free_bytes st"
proof -
  note inv = heap_okD(1) [OF assms]
  have "g_heap_initialized h" "g_heap_segment_list_head h = first_of ss None" using inv by (auto simp: heap_inv_def)
  then show ?thesis using stats_from_ok [of h "[]" ss] inv by (simp add: heap_stats_impl_def heap_refresh_stats_def)
qed

end
