(* ===== verification/Kernel_Heap_Use.thy ===== *)
theory Kernel_Heap_Use
  imports Kernel_Heap_Check
begin

unbundle bit_operations_syntax

text \<open>
  The contract of the kernel heap as an interface, its interpretation on the model, and the properties of
  the heap from its initialisation on.
\<close>

section \<open>The contract\<close>

primrec release_each :: "('h \<Rightarrow> u64 \<Rightarrow> 'h option) \<Rightarrow> 'h \<Rightarrow> (u64 \<times> u64) list \<Rightarrow> 'h option" where
  "release_each release h [] = Some h"
| "release_each release h (b # bs) = (case release h (fst b) of None \<Rightarrow> None | Some h \<Rightarrow> release_each release h bs)"

text \<open>\<open>holds h L\<close>: the allocations \<open>L\<close> (address and size) are in use; \<open>view\<close> is the memory they are in.\<close>

locale block_allocator =
  fixes holds :: "'h \<Rightarrow> (u64 \<times> u64) set \<Rightarrow> bool" and view :: "'h \<Rightarrow> mem"
    and alloc :: "'h \<Rightarrow> u64 \<Rightarrow> u64 \<Rightarrow> (u64 \<times> 'h) option" and release :: "'h \<Rightarrow> u64 \<Rightarrow> 'h option"
    and poke :: "'h \<Rightarrow> mem \<Rightarrow> 'h"
  assumes alloc_law: "holds h L \<Longrightarrow> unat sz < 2 ^ 43 \<Longrightarrow> unat al \<le> 2 ^ 42 \<Longrightarrow>
      \<exists>p h'. alloc h sz al = Some (p, h') \<and> holds h' (if p = 0 then L else insert (p, sz) L) \<and> (p \<noteq> 0 \<longrightarrow> p \<notin> fst ` L) \<and>
        (\<forall>(q, n) \<in> L. \<forall>i < unat n. view h' (q + of_nat i) = view h (q + of_nat i))"
    and release_law: "holds h L \<Longrightarrow> (q, n) \<in> L \<Longrightarrow>
      \<exists>h'. release h q = Some h' \<and> holds h' (L - {(q, n)}) \<and>
        (\<forall>(p, m) \<in> L - {(q, n)}. \<forall>i < unat m. view h' (p + of_nat i) = view h (p + of_nat i))"
    and poke_law: "holds h L \<Longrightarrow> (q, n) \<in> L \<Longrightarrow> touches (view h) M {unat q..<unat q + unat n} \<Longrightarrow>
      holds (poke h M) L \<and> view (poke h M) = M"
    and apart_law: "holds h L \<Longrightarrow> (q, n) \<in> L \<Longrightarrow> (p, m) \<in> L \<Longrightarrow> p \<noteq> q \<Longrightarrow>
      unat q + unat n \<le> unat p \<or> unat p + unat m \<le> unat q"
    and bound_law: "holds h L \<Longrightarrow> (q, n) \<in> L \<Longrightarrow> unat q + unat n < 2 ^ 64"
begin

text \<open>Taking an allocation and giving it back leaves the allocations and their contents as they were.\<close>

lemma take_give:
  assumes h: "holds h L" "unat sz < 2 ^ 43" "unat al \<le> 2 ^ 42" and a: "alloc h sz al = Some (p, h1)" "p \<noteq> 0"
  shows "\<exists>h2. release h1 p = Some h2 \<and> holds h2 L \<and> (\<forall>(q, n) \<in> L. \<forall>i < unat n. view h2 (q + of_nat i) = view h (q + of_nat i))"
proof -
  from alloc_law [OF h] a have h1: "holds h1 (insert (p, sz) L)" "p \<notin> fst ` L"
    "\<forall>(q, n) \<in> L. \<forall>i < unat n. view h1 (q + of_nat i) = view h (q + of_nat i)" by auto
  from release_law [OF h1(1), of p sz] obtain h2 where h2: "release h1 p = Some h2" "holds h2 (insert (p, sz) L - {(p, sz)})"
    "\<forall>(q, m) \<in> insert (p, sz) L - {(p, sz)}. \<forall>i < unat m. view h2 (q + of_nat i) = view h1 (q + of_nat i)" by auto
  have "insert (p, sz) L - {(p, sz)} = L" using h1(2) by force
  then show ?thesis using h2 h1(3) by fastforce
qed

text \<open>What a user stores in its allocation stays there while others write into theirs.\<close>

lemma write_elsewhere:
  assumes h: "holds h L" "(q, n) \<in> L" "(p, m) \<in> L" "p \<noteq> q" "touches (view h) M {unat p..<unat p + unat m}" and i: "i < unat n"
  shows "view (poke h M) (q + of_nat i) = view h (q + of_nat i)"
proof -
  have "unat (q + of_nat i) = unat q + i" using bound_law [OF h(1,2)] i by (intro unat_plus) simp
  then show ?thesis
    using apart_law [OF h(1,2,3,4)] i poke_law [OF h(1,3,5)] by (auto intro!: touchesD [OF h(5)])
qed

text \<open>All allocations can be given back, in any order.\<close>

lemma release_each_all: "holds h L \<Longrightarrow> distinct bs \<Longrightarrow> set bs \<subseteq> L \<Longrightarrow> \<exists>h'. release_each release h bs = Some h' \<and> holds h' (L - set bs)"
proof (induction bs arbitrary: h L)
  case (Cons b bs)
  obtain q n where b: "b = (q, n)" by fastforce
  from release_law [OF Cons.prems(1), of q n] Cons.prems(3) b obtain h1 where r: "release h q = Some h1" "holds h1 (L - {(q, n)})" by auto
  have "\<exists>h'. release_each release h1 bs = Some h' \<and> holds h' (L - {(q, n)} - set bs)"
    by (rule Cons.IH [OF r(2)]) (use Cons.prems b in auto)
  moreover have "L - {(q, n)} - set bs = L - set (b # bs)" using b by auto
  ultimately show ?case using r(1) b by auto
qed simp

end

section \<open>The kernel heap provides it\<close>

definition heap_holds :: "KernelHeap \<Rightarrow> (u64 \<times> u64) set \<Rightarrow> bool" where
  "heap_holds h L \<longleftrightarrow> (\<exists>ss. heap_ok h ss \<and> live h ss = L)"

lemma client_holds: "kernel_heap_client h L \<Longrightarrow> heap_holds h L"
  using kernel_heap_client_inv by (simp add: heap_holds_def)

lemma holds_without: "heap_ok h ss \<Longrightarrow> (q, n) \<in> live h ss \<Longrightarrow> {(p, m) \<in> live h ss. p \<noteq> q} = live h ss - {(q, n)}"
  using live_size_unique [OF heap_okD(1)] by blast

lemma heap_alloc_law:
  assumes "heap_holds h L" "unat sz < 2 ^ 43" "unat al \<le> 2 ^ 42"
  shows "\<exists>p h'. heap_alloc_impl h sz al = Some (p, h') \<and> heap_holds h' (if p = 0 then L else insert (p, sz) L) \<and>
    (p \<noteq> 0 \<longrightarrow> p \<notin> fst ` L) \<and> (\<forall>(q, n) \<in> L. \<forall>i < unat n. bytes h' (q + of_nat i) = bytes h (q + of_nat i))"
proof -
  obtain ss where ss: "heap_ok h ss" "live h ss = L" using assms(1) by (auto simp: heap_holds_def)
  from alloc_ok [OF ss(1) assms(2,3)] obtain p h' ss' where a: "heap_alloc_impl h sz al = Some (p, h')" "heap_ok h' ss'"
    "if p = 0 then live h' ss' = live h ss \<and> kept h ss h' else block_granted h ss h' ss' p sz" by (auto split: if_splits)
  then have "heap_holds h' (if p = 0 then L else insert (p, sz) L)" "p \<noteq> 0 \<longrightarrow> p \<notin> fst ` L" "kept h ss h'"
    using ss(2) by (auto simp: heap_holds_def block_granted_def split: if_splits)
  then show ?thesis using a(1) ss(2) by (auto simp: kept_def)
qed

lemma heap_release_law:
  assumes "heap_holds h L" "(q, n) \<in> L"
  shows "\<exists>h'. heap_free_impl h q = Some h' \<and> heap_holds h' (L - {(q, n)}) \<and>
    (\<forall>(p, m) \<in> L - {(q, n)}. \<forall>i < unat m. bytes h' (p + of_nat i) = bytes h (p + of_nat i))"
proof -
  obtain ss where ss: "heap_ok h ss" "live h ss = L" using assms(1) by (auto simp: heap_holds_def)
  have q: "(q, n) \<in> live h ss" using ss(2) assms(2) by simp
  from free_ok [OF ss(1) q] obtain h' ss' where f: "heap_free_impl h q = Some h'" "heap_ok h' ss'" "released h ss h' ss' q" by blast
  note w = holds_without [OF ss(1) q]
  have "bytes h' (p + of_nat i) = bytes h (p + of_nat i)" if "(p, m) \<in> L - {(q, n)}" "i < unat m" for p m i
  proof -
    have "(p, m) \<in> live h ss" "p \<noteq> q" using that(1) w ss(2) by blast+
    then show ?thesis using f(3) that(2) by (auto simp: released_def)
  qed
  moreover have "heap_holds h' (L - {(q, n)})" using f w ss(2) by (auto simp: heap_holds_def released_def)
  ultimately show ?thesis using f(1) by auto
qed

interpretation kheap: block_allocator heap_holds bytes heap_alloc_impl heap_free_impl set_bytes
proof (unfold_locales, goal_cases)
  case (1 h L sz al)
  then show ?case by (rule heap_alloc_law)
next
  case (2 h L q n)
  then show ?case by (rule heap_release_law)
next
  case (3 h L q n M)
  then show ?case using client_write_ok by (fastforce simp: heap_holds_def)
next
  case (4 h L q n p m)
  then show ?case using live_disjoint [OF heap_okD(1)] by (fastforce simp: heap_holds_def)
next
  case (5 h L q n)
  then obtain ss where "heap_ok h ss" "(q, n) \<in> live h ss" by (auto simp: heap_holds_def)
  then show ?case using live_bounds(2) [OF heap_okD(1)] heap_end_less [of h] by fastforce
qed

section \<open>A heap in use\<close>

text \<open>The heap of the first board right after its initialisation, and with one allocation.\<close>

definition blank_heap :: KernelHeap where
  "blank_heap = \<lparr>segs = (\<lambda>_. zero_segment), blocks = (\<lambda>_. zero_block_header), g_heap_segment_list_head = None,
     g_small_bin_available_heads = [], g_heap_start_address = 0, g_heap_end_address = 0, g_heap_initialized = False,
     pool = snd (init raspi3_board blank_memory)\<rparr>"

lemma fresh_heap:
  "\<exists>h'. heap_init_impl raspi3_board blank_heap = (StatusOK, h') \<and> kernel_heap_client h' {} \<and> heap_ok h' [0xFFFF000002000000] \<and>
    live h' [0xFFFF000002000000] = {} \<and> segs h' 0xFFFF000002000000 = free_record 0x04000000 None None"
proof -
  have ni: "\<not> initialized blank_memory" by (simp add: blank_memory_def)
  obtain p where p: "init raspi3_board blank_memory = (StatusOK, p)" using pool_init_ok [OF ni boards_ok(1)] by blast
  have b: "pool blank_heap = p" "\<not> g_heap_initialized blank_heap" "seg_next (segs blank_heap x) = None" "seg_prev (segs blank_heap x) = None" for x
    by (simp_all add: blank_heap_def p zero_segment_def)
  have s: "physical_to_kernel (EarlyHeapPhysicalBase raspi3_board) = 0xFFFF000002000000"
    by (simp add: physical_to_kernel_def raspi3_board_def)
  from heap_init_ok [OF boards_arena(1) ni p b(2,1)] b(3,4) obtain h' where h': "heap_init_impl raspi3_board blank_heap = (StatusOK, h')"
    "heap_ok h' [0xFFFF000002000000]" "live h' [0xFFFF000002000000] = {}"
    "segs h' 0xFFFF000002000000 = free_record (EarlyHeapSize raspi3_board) None None" unfolding s by auto
  have "kernel_heap_client h' {}"
    by (rule heap_start [OF boards_arena(1) ni _ b(2) b(3) b(4) h'(1)]) (use p b in simp)
  then show ?thesis using h' by (auto simp: raspi3_board_def)
qed

lemma used_heap:
  "\<exists>h p h'. kernel_heap_client h {} \<and> heap_alloc_impl h 1000 64 = Some (p, h') \<and> p \<noteq> 0 \<and> kernel_heap_client h' {(p, 1000)} \<and>
    unat p mod 64 = 0"
proof -
  obtain h where h: "kernel_heap_client h {}" "heap_ok h [0xFFFF000002000000]" "live h [0xFFFF000002000000] = {}"
    "segs h 0xFFFF000002000000 = free_record 0x04000000 None None" using fresh_heap by blast
  have r: "valid_request 1000 64 6" by (simp add: valid_request_def sane_def)
  from alloc_request_ok [OF h(2) r] obtain p h' ss' where a: "heap_alloc_impl h 1000 64 = Some (p, h')"
    "if p = 0 then live h' ss' = live h [0xFFFF000002000000] \<and> kept h [0xFFFF000002000000] h' \<and> exhausted h [0xFFFF000002000000] 1000 64
     else block_served h [0xFFFF000002000000] h' ss' p 1000 6" by blast
  have "candidate h 1000 64 0xFFFF000002000000"
    unfolding candidate_def
    using roomy_candidate [of h "0xFFFF000002000000" 1000 64 6] heap_spot [OF heap_okD(1) [OF h(2)], of "0xFFFF000002000000"] r h(4)
    by (simp add: valid_request_def)
  then have p: "p \<noteq> 0" using a(2) by (auto simp: exhausted_def split: if_splits)
  have "kernel_heap_client h' (if p = 0 then {} else insert (p, 1000) {})" by (rule heap_alloc [OF h(1) _ _ a(1)]) simp_all
  then have "kernel_heap_client h' {(p, 1000)}" using p by simp
  moreover have "unat p mod 64 = 0" using a(2) p by (simp add: block_served_def dvd_eq_mod_eq_0)
  ultimately show ?thesis using h(1) a(1) p by (intro exI [of _ h] exI [of _ p] exI [of _ h'] conjI)
qed

section \<open>Properties\<close>

text \<open>C6: In every state the kernel can reach, the heap's own consistency check ends and accepts the heap, and
  the allocations in use are 16-byte aligned, inside the arena behind room for their headers and canaries, and
  do not overlap.\<close>

theorem kernel_heap_sound:
  assumes "kernel_heap_client h L"
  shows "heap_debug_validate_impl h = Some True \<and>
    (\<forall>q n. (q, n) \<in> L \<longrightarrow> 16 dvd unat q \<and> 0 < unat n \<and> unat (g_heap_start_address h) + 128 \<le> unat q \<and>
       unat q + unat n + 8 \<le> unat (g_heap_end_address h)) \<and>
    (\<forall>q n p m. (q, n) \<in> L \<longrightarrow> (p, m) \<in> L \<longrightarrow> p \<noteq> q \<longrightarrow> unat q + unat n + 8 \<le> unat p \<or> unat p + unat m + 8 \<le> unat q)"
proof -
  obtain ss where ss: "heap_ok h ss" "live h ss = L" using kernel_heap_client_inv [OF assms] by blast
  note inv = heap_okD(1) [OF ss(1)]
  show ?thesis unfolding ss(2) [symmetric]
    using validate_ok [OF ss(1)] live_bounds [OF inv] live_disjoint [OF inv] by (simp add: heap_debug_validate_impl_def)
qed

theorem kernel_heap_sound_witness:
  "\<exists>h p. kernel_heap_client h {(p, 1000)} \<and> heap_debug_validate_impl h = Some True \<and> 16 dvd unat p"
  using used_heap kernel_heap_sound by blast

text \<open>C7: An allocation always returns. It fails only for size 0, for an alignment that is no power of two, or
  when no free segment has room and the arena cannot grow; otherwise the block is new, aligned as asked and
  apart from every block in use. Either way every block in use keeps its contents.\<close>

theorem kernel_heap_alloc_correct:
  assumes "kernel_heap_client h L" "unat sz < 2 ^ 43" "unat al \<le> 2 ^ 42"
  shows "\<exists>p h'. heap_alloc_impl h sz al = Some (p, h') \<and>
    (\<forall>q n i. (q, n) \<in> L \<longrightarrow> i < unat n \<longrightarrow> bytes h' (q + of_nat i) = bytes h (q + of_nat i)) \<and>
    (if p = 0 then sz = 0 \<or> \<not> is_power_of_two (if al < 16 then 16 else al) \<or>
       (\<exists>ss. heap_ok h ss \<and> exhausted h ss sz (if al < 16 then 16 else al))
     else unat (if al < 16 then 16 else al) dvd unat p \<and> p \<notin> fst ` L \<and>
       (\<forall>q n. (q, n) \<in> L \<longrightarrow> unat q + unat n + 8 \<le> unat p \<or> unat p + unat sz + 8 \<le> unat q))"
proof -
  obtain ss where ss: "heap_ok h ss" "live h ss = L" using kernel_heap_client_inv [OF assms(1)] by blast
  from alloc_ok [OF ss(1) assms(2,3)] obtain p h' ss' where a: "heap_alloc_impl h sz al = Some (p, h')" "heap_ok h' ss'"
    "if p = 0 then live h' ss' = live h ss \<and> kept h ss h' \<and>
       (sz = 0 \<or> \<not> is_power_of_two (if al < 16 then 16 else al) \<or> exhausted h ss sz (if al < 16 then 16 else al))
     else block_granted h ss h' ss' p sz \<and> unat (if al < 16 then 16 else al) dvd unat p" by blast
  have "kept h ss h'" using a(3) by (auto simp: block_granted_def split: if_splits)
  moreover have "unat q + unat n + 8 \<le> unat p \<or> unat p + unat sz + 8 \<le> unat q" if "p \<noteq> 0" "(q, n) \<in> L" for q n
  proof -
    have g: "live h' ss' = insert (p, sz) L" "p \<notin> fst ` L" using a(3) that(1) ss(2) by (auto simp: block_granted_def)
    then have "p \<noteq> q" using that(2) by force
    then show ?thesis using live_disjoint [OF heap_okD(1) [OF a(2)], of q n p sz] g(1) that(2) by auto
  qed
  moreover have "p \<noteq> 0 \<Longrightarrow> p \<notin> fst ` L" using a(3) ss(2) by (auto simp: block_granted_def)
  ultimately show ?thesis using a(1,3) ss
    by (intro exI [of _ p] exI [of _ h']) (auto simp: kept_def split: if_splits)
qed

theorem kernel_heap_alloc_correct_witness:
  "\<exists>h p h'. kernel_heap_client h {} \<and> heap_alloc_impl h 1000 64 = Some (p, h') \<and> p \<noteq> 0 \<and> 64 dvd unat p"
proof -
  obtain h p h' where h: "kernel_heap_client h {}" "heap_alloc_impl h 1000 64 = Some (p, h')" "p \<noteq> 0" using used_heap by blast
  have "unat (1000 :: u64) < 2 ^ 43" "unat (64 :: u64) \<le> 2 ^ 42" by simp_all
  from kernel_heap_alloc_correct [OF h(1) this] h(2,3) have "64 dvd unat p" by auto
  then show ?thesis using h by blast
qed



text \<open>C9: Resizing a block in use always returns. It fails only by returning NULL with every block, the old
  one included, in use and unchanged; otherwise the block, moved or not, has the new size and its old
  contents up to the smaller size, is aligned, and every other block keeps its contents.\<close>

theorem kernel_heap_realloc_correct:
  assumes "kernel_heap_client h L" "(q, n) \<in> L" "0 < unat sz" "unat sz < 2 ^ 43"
  shows "\<exists>p h'. heap_realloc_impl h q sz = Some (p, h') \<and> kernel_heap_client h' (if p = 0 then L else insert (p, sz) (L - {(q, n)})) \<and>
    (\<forall>x m i. (x, m) \<in> L - {(q, n)} \<longrightarrow> i < unat m \<longrightarrow> bytes h' (x + of_nat i) = bytes h (x + of_nat i)) \<and>
    (if p = 0 then \<forall>i < unat n. bytes h' (q + of_nat i) = bytes h (q + of_nat i)
     else 16 dvd unat p \<and> (\<forall>i < min (unat n) (unat sz). bytes h' (p + of_nat i) = bytes h (q + of_nat i)))"
proof -
  obtain ss where ss: "heap_ok h ss" "live h ss = L" using kernel_heap_client_inv [OF assms(1)] by blast
  have q: "(q, n) \<in> live h ss" using ss(2) assms(2) by simp
  note w = holds_without [OF ss(1) q, unfolded ss(2)]
  from realloc_ok [OF ss(1) q assms(3,4)] obtain p h' ss' where r: "heap_realloc_impl h q sz = Some (p, h')"
    "if p = 0 then live h' ss' = live h ss \<and> kept h ss h' else block_resized h ss h' ss' q n p sz \<and> 16 dvd unat p" by blast
  have o: "bytes h' (x + of_nat i) = bytes h (x + of_nat i)" if "(x, m) \<in> L - {(q, n)}" "i < unat m" for x m i
  proof -
    have "(x, m) \<in> live h ss" "x \<noteq> q" using that(1) w ss(2) by blast+
    then show ?thesis using r(2) that(2) by (auto simp: kept_def block_resized_def split: if_splits)
  qed
  have "kernel_heap_client h' (if p = 0 then L else insert (p, sz) (L - {(q, n)}))" by (rule heap_realloc [OF assms r(1)])
  moreover have "\<forall>i < unat n. bytes h' (q + of_nat i) = bytes h (q + of_nat i)" if "p = 0"
    using r(2) that q by (auto simp: kept_def)
  ultimately show ?thesis using r o by (intro exI [of _ p] exI [of _ h']) (auto simp: block_resized_def)
qed

theorem kernel_heap_realloc_correct_witness:
  "\<exists>h p r h'. kernel_heap_client h {(p, 1000)} \<and> heap_realloc_impl h p 3000 = Some (r, h') \<and>
    (r = 0 \<or> 16 dvd unat r \<and> bytes h' (r + 999) = bytes h (p + 999))"
proof -
  obtain h p where h: "kernel_heap_client h {(p, 1000)}" using used_heap by blast
  have s: "(p, 1000) \<in> {(p, 1000 :: u64)}" "0 < unat (3000 :: u64)" "unat (3000 :: u64) < 2 ^ 43" by simp_all
  from kernel_heap_realloc_correct [OF h s] obtain r h' where r: "heap_realloc_impl h p 3000 = Some (r, h')"
    "r \<noteq> 0 \<Longrightarrow> 16 dvd unat r \<and> (\<forall>i < 1000. bytes h' (r + of_nat i) = bytes h (p + of_nat i))" by (auto split: if_splits)
  have "bytes h' (r + 999) = bytes h (p + 999)" if "r \<noteq> 0"
  proof -
    have "\<forall>i < 1000. bytes h' (r + of_nat i) = bytes h (p + of_nat i)" using r(2) [OF that] by simp
    from this [rule_format, of 999] show ?thesis by simp
  qed
  then show ?thesis using h r by blast
qed

text \<open>C10: A block whose owner has overrun its end is never believed: when the canary behind the requested bytes
  has changed, release and resizing leave the heap as it is.\<close>

theorem kernel_heap_overrun_refused:
  assumes "kernel_heap_client h L" "(q, n) \<in> L" "load64 m (q + n) \<noteq> load64 (bytes h) (q + n)" "sz \<noteq> 0"
  shows "heap_free_impl (set_bytes h m) q = Some (set_bytes h m) \<and>
    heap_realloc_impl (set_bytes h m) q sz = Some (0, set_bytes h m)"
proof -
  obtain ss where ss: "heap_ok h ss" "live h ss = L" using kernel_heap_client_inv [OF assms(1)] by blast
  note inv = heap_okD(1) [OF ss(1)]
  have q: "(q, n) \<in> live h ss" using ss(2) assms(2) by simp
  obtain s where s: "s \<in> set ss" "(q, n) \<in> live_in (segs h s) s (blocks h)" by (rule live_segment [OF q])
  note l = live_block_header [OF inv s]
  have "load64 (bytes h) (q + n) = tail_mark (q - 32) (blocks h (q - 32))" using l(4,5) by (simp add: live_block_def)
  then have "load64 (bytes (set_bytes h m)) (q + requested_size (blocks (set_bytes h m) (q - 32))) \<noteq>
      tail_mark (q - 32) (blocks (set_bytes h m) (q - 32))" using assms(3) l(5) by simp
  note rf = refused [OF disjI2 [OF this]]
  have "g_heap_initialized h" "q \<noteq> 0" using inv lookup_live(2) [OF inv s] by (auto simp: heap_inv_def)
  then show ?thesis using rf assms(4) by (simp add: heap_realloc_impl_def)
qed

theorem kernel_heap_overrun_refused_witness:
  "\<exists>h p m. kernel_heap_client h {(p, 1000)} \<and> heap_free_impl (set_bytes h m) p = Some (set_bytes h m)"
proof -
  obtain h p where h: "kernel_heap_client h {(p, 1000)}" using used_heap by blast
  let ?m = "store64 (bytes h) (p + 1000) (load64 (bytes h) (p + 1000) + 1)"
  have "(p, 1000) \<in> {(p, 1000 :: u64)}" "load64 ?m (p + 1000) \<noteq> load64 (bytes h) (p + 1000)" "(1 :: u64) \<noteq> 0" by simp_all
  from kernel_heap_overrun_refused [OF h this] show ?thesis using h by blast
qed

text \<open>C11: Taking a block and giving it back leaves the blocks in use and their contents as they were.\<close>

theorem kernel_heap_take_give:
  assumes "kernel_heap_client h L" "unat sz < 2 ^ 43" "unat al \<le> 2 ^ 42" "heap_alloc_impl h sz al = Some (p, h1)" "p \<noteq> 0"
  shows "\<exists>h2. heap_free_impl h1 p = Some h2 \<and> heap_holds h2 L \<and>
    (\<forall>(q, n) \<in> L. \<forall>i < unat n. bytes h2 (q + of_nat i) = bytes h (q + of_nat i))"
  by (rule kheap.take_give [OF client_holds [OF assms(1)] assms(2-5)])

theorem kernel_heap_take_give_witness:
  "\<exists>h p h1 h2. heap_alloc_impl h 1000 64 = Some (p, h1) \<and> heap_free_impl h1 p = Some h2 \<and> heap_holds h2 {}"
proof -
  obtain h p h1 where h: "kernel_heap_client h {}" "heap_alloc_impl h 1000 64 = Some (p, h1)" "p \<noteq> 0" using used_heap by blast
  have "unat (1000 :: u64) < 2 ^ 43" "unat (64 :: u64) \<le> 2 ^ 42" by simp_all
  from kernel_heap_take_give [OF h(1) this h(2,3)] show ?thesis using h(2) by blast
qed

text \<open>A block released in a state reached by the kernel can be followed by the release of all the others, in
  any order: every release returns and nothing stays in use.\<close>

theorem kernel_heap_release_all:
  assumes "kernel_heap_client h L" "distinct bs" "set bs = L"
  shows "\<exists>h'. release_each heap_free_impl h bs = Some h' \<and> heap_holds h' {}"
  using kheap.release_each_all [OF client_holds [OF assms(1)] assms(2)] assms(3) by simp

theorem kernel_heap_release_all_witness:
  "\<exists>h p h'. release_each heap_free_impl h [(p, 1000)] = Some h' \<and> heap_holds h' {}"
proof -
  obtain h p where h: "kernel_heap_client h {(p, 1000)}" using used_heap by blast
  have "distinct [(p, 1000 :: u64)]" "set [(p, 1000 :: u64)] = {(p, 1000)}" by simp_all
  from kernel_heap_release_all [OF h this] show ?thesis by blast
qed

section \<open>Limits of the code\<close>



end
