(* ===== verification/Kernel_Task.thy ===== *)
theory Kernel_Task
  imports Links "HOL-Library.Monad_Syntax"
begin

text \<open>
  The state the kernel's task management shares: threads and processes (\<^verbatim>\<open>src/kernel/include/thread.h\<close>,
  \<^verbatim>\<open>process.h\<close>, \<^verbatim>\<open>object.h\<close>), the globals of the scheduler, of the thread, process and object
  registries, and of the event broker (\<^verbatim>\<open>src/kernel/kernel_event.cpp\<close>). A pointer is an index into a
  store, \<open>None\<close> is \<open>NULL\<close>; freeing an object leaves a zeroed entry behind, as \<open>release_thread_slot\<close> does.
  Calls into subsystems whose result the code discards are recorded in order in \<open>calls\<close>. The answers of
  the kernel heap are an input: the \<open>n\<close>-th allocation is answered by \<open>heap_answers n\<close>.
\<close>

type_synonym ptr = nat

section \<open>Objects\<close>

datatype ObjectType = ObjectUnknown | ObjectProcess | ObjectThread | ObjectModule | ObjectEvent | ObjectMutex

abbreviation (input) ObjectFlagsNone :: u32 where "ObjectFlagsNone \<equiv> 0"
abbreviation (input) ObjectFlagsPermanent :: u32 where "ObjectFlagsPermanent \<equiv> 1"
abbreviation (input) ObjectFlagsKernel :: u32 where "ObjectFlagsKernel \<equiv> 2"

definition object_has_flag :: "u32 \<Rightarrow> u32 \<Rightarrow> bool" where
  "object_has_flag v flag \<longleftrightarrow> v AND flag \<noteq> 0"

record ObjectHeader =
  object_type :: ObjectType
  object_flags :: u32
  object_id :: u64
  object_refs :: u64

datatype object_ptr = ThreadObject ptr | ProcessObject ptr | OtherObject ptr

definition object_ref :: "ObjectHeader \<Rightarrow> ObjectHeader" where
  "object_ref h = h\<lparr>object_refs := object_refs h + 1\<rparr>"

definition object_unref :: "ObjectHeader \<Rightarrow> bool \<times> ObjectHeader" where
  "object_unref h =
     (if object_refs h = 0 then (False, h)
      else let h = h\<lparr>object_refs := object_refs h - 1\<rparr> in (object_refs h = 0, h))"

section \<open>Threads\<close>

datatype ThreadState = ThreadInitialized | ThreadReady | ThreadRunning | ThreadWaiting | ThreadSuspended | ThreadTerminated

fun thread_state_code :: "ThreadState \<Rightarrow> u32" where
  "thread_state_code ThreadInitialized = 0"
| "thread_state_code ThreadReady = 1"
| "thread_state_code ThreadRunning = 2"
| "thread_state_code ThreadWaiting = 3"
| "thread_state_code ThreadSuspended = 4"
| "thread_state_code ThreadTerminated = 5"

datatype WaitReason = WaitNone | WaitDelay | WaitEvent | WaitMutex | WaitSemaphore | WaitMessage | WaitIO

fun wait_code :: "WaitReason \<Rightarrow> u32" where
  "wait_code WaitNone = 0"
| "wait_code WaitDelay = 1"
| "wait_code WaitEvent = 2"
| "wait_code WaitMutex = 3"
| "wait_code WaitSemaphore = 4"
| "wait_code WaitMessage = 5"
| "wait_code WaitIO = 6"

abbreviation (input) ThreadPriorityNormal :: u8 where "ThreadPriorityNormal \<equiv> 16"
abbreviation (input) ThreadPriorityIdle :: u8 where "ThreadPriorityIdle \<equiv> 31"
abbreviation (input) ThreadPriorityLevelCount :: u8 where "ThreadPriorityLevelCount \<equiv> 32"
abbreviation (input) ThreadDefaultQuantumTicks :: u32 where "ThreadDefaultQuantumTicks \<equiv> 1"

text \<open>
  The saved machine context. Bits 63 and 62 of \<open>processor_state\<close> are the scheduler's flags. What the
  callee-saved registers, the kernel stack and the return address hold is the suspended kernel call chain:
  the entry trampoline of a fresh thread, or a call of \<open>aarch64_context_switch\<close> together with the operation
  that is to be completed when it returns.
\<close>

datatype switch_caller =
    FromYield
  | FromPriority
  | FromBlock
  | FromBlockFor WaitReason
  | FromSleep
  | FromExit
  | FromEventWait ptr ptr

datatype continuation = NoContext | KernelEntry u64 | InSwitch switch_caller

record AArch64ExceptionFrame =
  frame_registers :: "nat \<Rightarrow> u64"
  frame_sp :: u64
  frame_elr :: u64
  frame_spsr :: u64

record CpuContext =
  user_stack_pointer :: u64
  program_counter :: u64
  processor_state :: u64
  saved_exception_frame :: AArch64ExceptionFrame
  kernel_chain :: continuation

definition CpuContextUserModeFlag :: u64 where
  "CpuContextUserModeFlag = push_bit 63 1"

definition CpuContextResumeExceptionFrameFlag :: u64 where
  "CpuContextResumeExceptionFrameFlag = push_bit 62 1"

definition CpuContextProcessorStateMask :: u64 where
  "CpuContextProcessorStateMask = NOT (CpuContextUserModeFlag OR CpuContextResumeExceptionFrameFlag)"

record Thread =
  thread_header :: ObjectHeader
  thread_id :: u64
  thread_name :: string
  thread_state :: ThreadState
  base_priority :: u8
  current_priority :: u8
  quantum_ticks :: u32
  quantum_ticks_remaining :: u32
  in_ready_queue :: bool
  thread_parent :: "ptr option"
  user_stack_top :: u64
  user_stack_backing :: "ptr option"
  user_stack_bytes :: u64
  user_stack_slot_index :: u32
  kernel_stack_backing :: "ptr option"
  wait_object :: "object_ptr option"
  wait_status :: u32
  wake_tick :: u64
  thread_context :: CpuContext
  ready_next :: "ptr option"
  ready_prev :: "ptr option"
  sleep_next :: "ptr option"
  sleep_prev :: "ptr option"
  thread_next :: "ptr option"
  thread_prev :: "ptr option"
  process_next :: "ptr option"
  process_prev :: "ptr option"

definition zero_frame :: AArch64ExceptionFrame where
  "zero_frame = \<lparr>frame_registers = (\<lambda>_. 0), frame_sp = 0, frame_elr = 0, frame_spsr = 0\<rparr>"

definition zero_header :: ObjectHeader where
  "zero_header = \<lparr>object_type = ObjectUnknown, object_flags = 0, object_id = 0, object_refs = 0\<rparr>"

definition zero_thread :: Thread where
  "zero_thread =
     \<lparr>thread_header = zero_header, thread_id = 0, thread_name = '''', thread_state = ThreadInitialized,
      base_priority = 0, current_priority = 0, quantum_ticks = 0, quantum_ticks_remaining = 0, in_ready_queue = False,
      thread_parent = None, user_stack_top = 0, user_stack_backing = None, user_stack_bytes = 0, user_stack_slot_index = 0,
      kernel_stack_backing = None, wait_object = None, wait_status = 0, wake_tick = 0,
      thread_context = \<lparr>user_stack_pointer = 0, program_counter = 0, processor_state = 0,
        saved_exception_frame = zero_frame, kernel_chain = NoContext\<rparr>,
      ready_next = None, ready_prev = None, sleep_next = None, sleep_prev = None,
      thread_next = None, thread_prev = None, process_next = None, process_prev = None\<rparr>"

section \<open>Processes\<close>

datatype ProcessState = ProcessCreated | ProcessRunning | ProcessExiting | ProcessTerminated

fun process_state_code :: "ProcessState \<Rightarrow> u32" where
  "process_state_code ProcessCreated = 0"
| "process_state_code ProcessRunning = 1"
| "process_state_code ProcessExiting = 2"
| "process_state_code ProcessTerminated = 3"

text \<open>Of the address space the scheduler reads the root table; \<open>asid\<close> is set at creation.\<close>

record AddressSpace =
  page_table_root :: u64
  asid :: u16

record Process =
  process_header :: ObjectHeader
  process_id :: u64
  process_name :: string
  launch_arguments :: "ptr option"
  process_state :: ProcessState
  process_address_space :: AddressSpace
  user_stack_slot_bitmap :: u32
  user_stack_slot_bytes :: u64
  user_heap_base :: u64
  user_heap_reserved_bytes :: u64
  parent_process_id :: u64
  parent_process :: "ptr option"
  main_thread :: "ptr option"
  thread_list_head :: "ptr option"
  thread_list_tail :: "ptr option"
  thread_count :: u64
  handles :: "ptr option"
  exit_code :: u64
  next_process :: "ptr option"
  prev_process :: "ptr option"

definition zero_process :: Process where
  "zero_process =
     \<lparr>process_header = zero_header, process_id = 0, process_name = '''', launch_arguments = None,
      process_state = ProcessCreated, process_address_space = \<lparr>page_table_root = 0, asid = 0\<rparr>,
      user_stack_slot_bitmap = 0, user_stack_slot_bytes = 0, user_heap_base = 0, user_heap_reserved_bytes = 0,
      parent_process_id = 0, parent_process = None, main_thread = None, thread_list_head = None, thread_list_tail = None,
      thread_count = 0, handles = None, exit_code = 0, next_process = None, prev_process = None\<rparr>"

record ProcessExitRecord =
  exit_process_id :: u64
  exit_parent_id :: u64
  exit_status :: u64

section \<open>Events\<close>

datatype KernelEventPayload =
    EventRaw
  | EventProcess (ev_parent_process_id: u64) (ev_exit_code: u64) (ev_process_state: u32) (ev_process_flags: u32)
  | EventThread (ev_thread_parent_id: u64) (ev_previous_state: u32) (ev_current_state: u32) (ev_priority: u32)
  | EventFilesystem (ev_node_type: u32)
  | EventRegistration (ev_registration_kind: u32)

record KernelEventRecord =
  ev_version :: u32
  ev_sequence :: u64
  ev_uptime_msec :: u64
  ev_family :: u64
  ev_type :: u32
  ev_status :: int
  ev_source_process_id :: u64
  ev_source_thread_id :: u64
  ev_source_object_id :: u64
  ev_name :: string
  ev_path :: string
  ev_payload :: KernelEventPayload

record KernelEventSubscriptionRequest =
  req_version :: u32
  req_flags :: u32
  req_family_mask :: u64
  req_process_id :: u64
  req_thread_id :: u64
  req_name_prefix :: string
  req_path_prefix :: string

record EventSubscriber =
  subscription_id :: u64
  owner_process_id :: u64
  request :: KernelEventSubscriptionRequest
  queue :: "KernelEventRecord list"
  read_index :: nat
  write_index :: nat
  queued_count :: nat
  dropped_count :: u64
  newest_sequence :: u64
  waiting_thread :: "ptr option"
  subscriber_next :: "ptr option"
  subscriber_prev :: "ptr option"

record Broker =
  subscribers :: "ptr \<Rightarrow> EventSubscriber"
  g_subscriber_head :: "ptr option"
  g_subscriber_tail :: "ptr option"
  g_next_subscription_id :: u64
  g_next_sequence :: u64

definition zero_request :: KernelEventSubscriptionRequest where
  "zero_request = \<lparr>req_version = 0, req_flags = 0, req_family_mask = 0, req_process_id = 0, req_thread_id = 0,
     req_name_prefix = '''', req_path_prefix = ''''\<rparr>"

definition zero_subscriber :: EventSubscriber where
  "zero_subscriber = \<lparr>subscription_id = 0, owner_process_id = 0, request = zero_request, queue = [], read_index = 0,
     write_index = 0, queued_count = 0, dropped_count = 0, newest_sequence = 0, waiting_thread = None,
     subscriber_next = None, subscriber_prev = None\<rparr>"

section \<open>Heap-backed lists\<close>

text \<open>\<^verbatim>\<open>src/kernel/include/heap_list.h\<close>: the elements and the capacity of the block behind them.\<close>

record 'a HeapList =
  items :: "'a list"
  list_capacity :: nat

definition empty_list :: "'a HeapList" where
  "empty_list = \<lparr>items = [], list_capacity = 0\<rparr>"

partial_function (option) grow_list :: "nat \<Rightarrow> nat \<Rightarrow> nat option" where
  "grow_list requested grown =
     (if grown < requested
      then if 0xFFFFFFFFFFFFFFFF div 2 < grown then Some requested else grow_list requested (grown * 2)
      else Some grown)"

definition remove_at :: "nat \<Rightarrow> 'a HeapList \<Rightarrow> 'a HeapList" where
  "remove_at i l = (if length (items l) \<le> i then l else l\<lparr>items := take i (items l) @ drop (Suc i) (items l)\<rparr>)"

definition first_index :: "('a \<Rightarrow> bool) \<Rightarrow> 'a HeapList \<Rightarrow> nat" where
  "first_index P l = length (takeWhile (\<lambda>x. \<not> P x) (items l))"

section \<open>The kernel state\<close>

datatype kernel_call =
    KRetail string
  | FreeThread ptr
  | FreeStack ptr
  | FreeProcess ptr
  | FreeArguments ptr
  | FreeSubscriber ptr
  | FreeQueue ptr
  | MmUnmap ptr u64 u64
  | ResourceRelease ptr
  | ReleaseSurfaces ptr
  | ReleaseSharedMemory ptr
  | ReleaseFileMappings ptr
  | ReleaseUserHeap ptr
  | ReleaseLoaderResources ptr
  | DestroyAddressSpace ptr
  | DestroyModule ptr

record Kernel =
  threads :: "ptr \<Rightarrow> Thread"
  processes :: "ptr \<Rightarrow> Process"
  g_current_thread :: "ptr option"
  g_current_process :: "ptr option"
  g_idle_thread :: "ptr option"
  ready_head :: "nat \<Rightarrow> ptr option"
  ready_tail :: "nat \<Rightarrow> ptr option"
  g_ready_bitmap :: u32
  g_ready_count :: u64
  g_tick_count :: u64
  g_sleep_head :: "ptr option"
  g_sleep_tail :: "ptr option"
  g_retired_thread_head :: "ptr option"
  g_retired_thread_tail :: "ptr option"
  g_reschedule_pending :: bool
  g_lower_el_irq_preempt_trace_emitted :: bool
  g_lower_el_irq_resume_current_trace_emitted :: bool
  g_irqhandoff_bind_trace_count :: u32
  g_irqhandoff_ready_trace_count :: u32
  g_thread_count :: u64
  g_next_thread_id :: u64
  g_thread_head :: "ptr option"
  g_thread_tail :: "ptr option"
  process_count_value :: u64
  next_pid :: u64
  process_head :: "ptr option"
  process_tail :: "ptr option"
  exit_records :: "ProcessExitRecord HeapList"
  g_objects :: "object_ptr HeapList"
  other_objects :: "ptr \<Rightarrow> ObjectHeader"
  kernel_root_table :: u64
  ttbr0 :: u64
  broker :: Broker
  calls :: "kernel_call list"
  heap_answers :: "nat \<Rightarrow> ptr option"
  heap_requests :: nat

definition upd :: "ptr \<Rightarrow> (Thread \<Rightarrow> Thread) \<Rightarrow> Kernel \<Rightarrow> Kernel" where
  "upd t f k = k\<lparr>threads := (threads k)(t := f (threads k t))\<rparr>"

definition updp :: "ptr \<Rightarrow> (Process \<Rightarrow> Process) \<Rightarrow> Kernel \<Rightarrow> Kernel" where
  "updp p f k = k\<lparr>processes := (processes k)(p := f (processes k p))\<rparr>"

definition call :: "kernel_call \<Rightarrow> Kernel \<Rightarrow> Kernel" where
  "call c k = k\<lparr>calls := calls k @ [c]\<rparr>"

definition heap_alloc :: "Kernel \<Rightarrow> ptr option \<times> Kernel" where
  "heap_alloc k = (heap_answers k (heap_requests k), k\<lparr>heap_requests := Suc (heap_requests k)\<rparr>)"

definition heap_list_append :: "'a \<Rightarrow> 'a HeapList \<Rightarrow> Kernel \<Rightarrow> ((Status \<times> 'a HeapList) \<times> Kernel) option" where
  "heap_list_append x l k =
     (let n = length (items l) + 1
      in if n \<le> list_capacity l then Some ((StatusOK, l\<lparr>items := items l @ [x]\<rparr>), k)
         else do {
           grown \<leftarrow> grow_list n (if list_capacity l = 0 then 4 else list_capacity l);
           let (answer, k) = heap_alloc k;
           if answer = None then Some ((StatusNoMemory, l), k)
           else Some ((StatusOK, l\<lparr>items := items l @ [x], list_capacity := grown\<rparr>), k) })"

text \<open>Text stored in a fixed array: cut to the list_capacity less the terminator.\<close>

definition copy_text :: "nat \<Rightarrow> string option \<Rightarrow> string \<Rightarrow> string" where
  "copy_text capacity source fallback = take (capacity - 1) (case source of Some (c # cs) \<Rightarrow> c # cs | _ \<Rightarrow> fallback)"

text \<open>A search along the links of a list: the first object that satisfies \<open>P\<close>.\<close>

partial_function (option) find_link :: "(ptr \<Rightarrow> ptr option) \<Rightarrow> (ptr \<Rightarrow> bool) \<Rightarrow> ptr option \<Rightarrow> ptr option option" where
  "find_link nxt P cursor =
     (case cursor of
        None \<Rightarrow> Some None
      | Some x \<Rightarrow> if P x then Some (Some x) else find_link nxt P (nxt x))"

end
