(* ===== verification/Kernel_Event.thy ===== *)
theory Kernel_Event
  imports Kernel_Task
begin

text \<open>
  The event broker, \<^verbatim>\<open>src/kernel/kernel_event.cpp\<close>: subscribers in a linked list, each with a ring
  buffer that grows up to a limit and then drops its oldest record. Delivering a record wakes the thread
  that waits on the subscription, which calls back into \<open>Scheduler::enqueue\<close>; since the scheduler itself
  publishes, the callback is the argument \<open>wake\<close> here, and \<open>Kernel_Switch\<close> ties the knot.
  \<open>KernelEventBroker::wait\<close>, which blocks, is there too.
\<close>

type_synonym waker = "ptr \<Rightarrow> Kernel \<Rightarrow> Kernel option"

abbreviation (input) KERNEL_EVENT_ABI_VERSION :: u32 where "KERNEL_EVENT_ABI_VERSION \<equiv> 1"
abbreviation (input) KERNEL_EVENT_QUEUE_INITIAL_CAPACITY :: nat where "KERNEL_EVENT_QUEUE_INITIAL_CAPACITY \<equiv> 16"
abbreviation (input) KERNEL_EVENT_QUEUE_MAX_CAPACITY :: nat where "KERNEL_EVENT_QUEUE_MAX_CAPACITY \<equiv> 1024"
abbreviation (input) KERNEL_EVENT_NAME_CAPACITY :: nat where "KERNEL_EVENT_NAME_CAPACITY \<equiv> 64"
abbreviation (input) KERNEL_EVENT_PATH_CAPACITY :: nat where "KERNEL_EVENT_PATH_CAPACITY \<equiv> 160"
abbreviation (input) KERNEL_EVENT_FAMILY_PROCESS :: u64 where "KERNEL_EVENT_FAMILY_PROCESS \<equiv> 1"
abbreviation (input) KERNEL_EVENT_FAMILY_THREAD :: u64 where "KERNEL_EVENT_FAMILY_THREAD \<equiv> 2"
abbreviation (input) KERNEL_EVENT_FAMILY_FILESYSTEM :: u64 where "KERNEL_EVENT_FAMILY_FILESYSTEM \<equiv> 4"
abbreviation (input) KERNEL_EVENT_FAMILY_REGISTRATION :: u64 where "KERNEL_EVENT_FAMILY_REGISTRATION \<equiv> 8"
abbreviation (input) KERNEL_EVENT_FAMILY_ALL :: u64 where "KERNEL_EVENT_FAMILY_ALL \<equiv> 31"

datatype KernelEventType =
    KernelEventTypeNone
  | KernelEventTypeProcessCreated
  | KernelEventTypeProcessExited
  | KernelEventTypeThreadCreated
  | KernelEventTypeThreadExited
  | KernelEventTypeThreadReady
  | KernelEventTypeThreadRunning
  | KernelEventTypeFilesystemCreated
  | KernelEventTypeFilesystemRemoved
  | KernelEventTypeDeviceRegistered
  | KernelEventTypeDriverRegistered
  | KernelEventTypeFilesystemDriverRegistered

fun event_type_code :: "KernelEventType \<Rightarrow> u32" where
  "event_type_code KernelEventTypeNone = 0"
| "event_type_code KernelEventTypeProcessCreated = 1"
| "event_type_code KernelEventTypeProcessExited = 2"
| "event_type_code KernelEventTypeThreadCreated = 16"
| "event_type_code KernelEventTypeThreadExited = 17"
| "event_type_code KernelEventTypeThreadReady = 18"
| "event_type_code KernelEventTypeThreadRunning = 19"
| "event_type_code KernelEventTypeFilesystemCreated = 32"
| "event_type_code KernelEventTypeFilesystemRemoved = 33"
| "event_type_code KernelEventTypeDeviceRegistered = 48"
| "event_type_code KernelEventTypeDriverRegistered = 49"
| "event_type_code KernelEventTypeFilesystemDriverRegistered = 50"

definition blank_record :: KernelEventRecord where
  "blank_record = \<lparr>ev_version = 0, ev_sequence = 0, ev_uptime_msec = 0, ev_family = 0, ev_type = 0, ev_status = 0,
     ev_source_process_id = 0, ev_source_thread_id = 0, ev_source_object_id = 0, ev_name = '''', ev_path = '''',
     ev_payload = EventRaw\<rparr>"

definition ticks_to_milliseconds :: "u64 \<Rightarrow> u64" where
  "ticks_to_milliseconds tick_count = (tick_count * 100) div 1000"

section \<open>Subscribers\<close>

definition updb :: "(Broker \<Rightarrow> Broker) \<Rightarrow> Kernel \<Rightarrow> Kernel" where
  "updb f k = k\<lparr>broker := f (broker k)\<rparr>"

definition upds :: "ptr \<Rightarrow> (EventSubscriber \<Rightarrow> EventSubscriber) \<Rightarrow> Kernel \<Rightarrow> Kernel" where
  "upds s f = updb (\<lambda>b. b\<lparr>subscribers := (subscribers b)(s := f (subscribers b s))\<rparr>)"

definition sub :: "Kernel \<Rightarrow> ptr \<Rightarrow> EventSubscriber" where
  "sub k s = subscribers (broker k) s"

definition event_prefix :: "string \<Rightarrow> string \<Rightarrow> bool" where
  "event_prefix prefix content \<longleftrightarrow> take (length prefix) content = prefix"

definition reset_subscriber :: "ptr \<Rightarrow> Kernel \<Rightarrow> Kernel" where
  "reset_subscriber s k =
     (let k = (if queue (sub k s) \<noteq> [] then call (FreeQueue s) k else k)
      in upds s (\<lambda>_. zero_subscriber) k)"

definition link_subscriber :: "ptr \<Rightarrow> Kernel \<Rightarrow> Kernel" where
  "link_subscriber s k =
     (let k = upds s (\<lambda>x. x\<lparr>subscriber_prev := g_subscriber_tail (broker k), subscriber_next := None\<rparr>) k;
          k = (case g_subscriber_tail (broker k) of
                 Some t \<Rightarrow> upds t (\<lambda>x. x\<lparr>subscriber_next := Some s\<rparr>) k
               | None \<Rightarrow> updb (\<lambda>b. b\<lparr>g_subscriber_head := Some s\<rparr>) k)
      in updb (\<lambda>b. b\<lparr>g_subscriber_tail := Some s\<rparr>) k)"

definition unlink_subscriber :: "ptr \<Rightarrow> Kernel \<Rightarrow> Kernel" where
  "unlink_subscriber s k =
     (let nx = subscriber_next (sub k s); pv = subscriber_prev (sub k s);
          k = (case pv of Some p \<Rightarrow> upds p (\<lambda>x. x\<lparr>subscriber_next := nx\<rparr>) k
                        | None \<Rightarrow> updb (\<lambda>b. b\<lparr>g_subscriber_head := nx\<rparr>) k);
          k = (case nx of Some n \<Rightarrow> upds n (\<lambda>x. x\<lparr>subscriber_prev := pv\<rparr>) k
                        | None \<Rightarrow> updb (\<lambda>b. b\<lparr>g_subscriber_tail := pv\<rparr>) k)
      in upds s (\<lambda>x. x\<lparr>subscriber_next := None, subscriber_prev := None\<rparr>) k)"

partial_function (option) grow_capacity :: "nat \<Rightarrow> nat \<Rightarrow> nat option" where
  "grow_capacity target grown =
     (if grown < target
      then if 0xFFFFFFFF div 2 < grown then Some target
           else grow_capacity target (min (grown * 2) KERNEL_EVENT_QUEUE_MAX_CAPACITY)
      else Some grown)"

definition reserve_queue_capacity :: "ptr \<Rightarrow> nat \<Rightarrow> Kernel \<Rightarrow> (Status \<times> Kernel) option" where
  "reserve_queue_capacity s required k =
     (let x = sub k s; capacity = length (queue x); target = min required KERNEL_EVENT_QUEUE_MAX_CAPACITY
      in if required \<le> capacity then Some (StatusOK, k)
         else if target \<le> capacity then Some (StatusNoSpace, k)
         else do {
           grown \<leftarrow> grow_capacity target (if capacity = 0 then KERNEL_EVENT_QUEUE_INITIAL_CAPACITY else capacity);
           let (answer, k) = heap_alloc k;
           case answer of
             None \<Rightarrow> Some (StatusNoMemory, k)
           | Some _ \<Rightarrow>
               let moved = map (\<lambda>i. queue x ! ((read_index x + i) mod capacity)) [0..<queued_count x];
                   k = (if queue x \<noteq> [] then call (FreeQueue s) k else k)
               in Some (StatusOK, upds s (\<lambda>x. x\<lparr>queue := moved @ replicate (grown - length moved) blank_record,
                                             read_index := 0, write_index := queued_count x\<rparr>) k) })"

definition wake_waiter :: "waker \<Rightarrow> ptr \<Rightarrow> Kernel \<Rightarrow> Kernel option" where
  "wake_waiter wake s k =
     (case waiting_thread (sub k s) of
        None \<Rightarrow> Some k
      | Some w \<Rightarrow> wake w (upd w (\<lambda>t. t\<lparr>wait_object := None, wait_status := 0\<rparr>)
                             (upds s (\<lambda>x. x\<lparr>waiting_thread := None\<rparr>) k)))"

definition destroy_subscriber :: "waker \<Rightarrow> ptr \<Rightarrow> Kernel \<Rightarrow> Kernel option" where
  "destroy_subscriber wake s k = do {
     k \<leftarrow> wake_waiter wake s k;
     Some (call (FreeSubscriber s) (reset_subscriber s (unlink_subscriber s k))) }"

definition find_subscription :: "u64 \<Rightarrow> u64 \<Rightarrow> Kernel \<Rightarrow> ptr option option" where
  "find_subscription owner sid k =
     find_link (\<lambda>s. subscriber_next (sub k s)) (\<lambda>s. subscription_id (sub k s) = sid \<and> owner_process_id (sub k s) = owner)
       (g_subscriber_head (broker k))"

section \<open>Publishing\<close>

definition subscription_matches :: "EventSubscriber \<Rightarrow> KernelEventRecord \<Rightarrow> bool" where
  "subscription_matches s r \<longleftrightarrow>
     ev_family r AND req_family_mask (request s) \<noteq> 0
     \<and> (req_process_id (request s) = 0 \<or> ev_source_process_id r = req_process_id (request s))
     \<and> (req_thread_id (request s) = 0 \<or> ev_source_thread_id r = req_thread_id (request s))
     \<and> event_prefix (req_name_prefix (request s)) (ev_name r)
     \<and> event_prefix (req_path_prefix (request s)) (ev_path r)"

definition make_room :: "Status \<Rightarrow> EventSubscriber \<Rightarrow> EventSubscriber" where
  "make_room status x =
     (if queued_count x = length (queue x)
      then x\<lparr>read_index := (read_index x + 1) mod length (queue x), queued_count := queued_count x - 1,
             dropped_count := (if status \<noteq> StatusNoSpace then dropped_count x + 1 else dropped_count x)\<rparr>
      else x)"

definition put_record :: "KernelEventRecord \<Rightarrow> EventSubscriber \<Rightarrow> EventSubscriber" where
  "put_record r x =
     x\<lparr>queue := (queue x)[write_index x := r], write_index := (write_index x + 1) mod length (queue x),
       queued_count := queued_count x + 1, newest_sequence := ev_sequence r\<rparr>"

definition enqueue_record :: "waker \<Rightarrow> ptr \<Rightarrow> KernelEventRecord \<Rightarrow> Kernel \<Rightarrow> Kernel option" where
  "enqueue_record wake s r k = do {
     (status, k) \<leftarrow> reserve_queue_capacity s (queued_count (sub k s) + 1) k;
     if status \<noteq> StatusOK \<and> queue (sub k s) = [] then Some (upds s (\<lambda>x. x\<lparr>dropped_count := dropped_count x + 1\<rparr>) k)
     else
       let k = (if status = StatusNoSpace \<and> queue (sub k s) \<noteq> []
                then upds s (\<lambda>x. x\<lparr>dropped_count := dropped_count x + 1\<rparr>) k else k);
           k = upds s (\<lambda>x. put_record r (make_room status x)) k
       in wake_waiter wake s k }"

partial_function (option) publish_loop :: "waker \<Rightarrow> KernelEventRecord \<Rightarrow> ptr option \<Rightarrow> Kernel \<Rightarrow> Kernel option" where
  "publish_loop wake r cursor k =
     (case cursor of
        None \<Rightarrow> Some k
      | Some s \<Rightarrow> do {
          k \<leftarrow> (if subscription_matches (sub k s) r then enqueue_record wake s r k else Some k);
          publish_loop wake r (subscriber_next (sub k s)) k })"

definition publish_record :: "waker \<Rightarrow> KernelEventRecord \<Rightarrow> Kernel \<Rightarrow> Kernel option" where
  "publish_record wake r k =
     (let k = updb (\<lambda>b. b\<lparr>g_next_sequence := g_next_sequence b + 1\<rparr>) k;
          r = r\<lparr>ev_version := KERNEL_EVENT_ABI_VERSION, ev_sequence := g_next_sequence (broker k),
                ev_uptime_msec := ticks_to_milliseconds (g_tick_count k)\<rparr>
      in publish_loop wake r (g_subscriber_head (broker k)) k)"

definition publish_process_event :: "waker \<Rightarrow> KernelEventType \<Rightarrow> ptr \<Rightarrow> Kernel \<Rightarrow> Kernel option" where
  "publish_process_event wake type p k =
     (let x = processes k p
      in publish_record wake (blank_record
           \<lparr>ev_version := KERNEL_EVENT_ABI_VERSION, ev_family := KERNEL_EVENT_FAMILY_PROCESS, ev_type := event_type_code type,
            ev_status := status_code StatusOK, ev_source_process_id := process_id x, ev_source_thread_id := 0,
            ev_source_object_id := process_id x,
            ev_name := copy_text KERNEL_EVENT_NAME_CAPACITY (Some (process_name x)) '''',
            ev_path := copy_text KERNEL_EVENT_PATH_CAPACITY None '''',
            ev_payload := EventProcess (parent_process_id x) (exit_code x) (process_state_code (process_state x))
              (object_flags (process_header x))\<rparr>) k)"

definition parent_id :: "Kernel \<Rightarrow> ptr \<Rightarrow> u64" where
  "parent_id k t = (case thread_parent (threads k t) of Some p \<Rightarrow> process_id (processes k p) | None \<Rightarrow> 0)"

definition publish_thread_event ::
    "waker \<Rightarrow> KernelEventType \<Rightarrow> ptr \<Rightarrow> ThreadState \<Rightarrow> ThreadState \<Rightarrow> Kernel \<Rightarrow> Kernel option" where
  "publish_thread_event wake type t previous current k =
     publish_record wake (blank_record
       \<lparr>ev_version := KERNEL_EVENT_ABI_VERSION, ev_family := KERNEL_EVENT_FAMILY_THREAD, ev_type := event_type_code type,
        ev_status := status_code StatusOK, ev_source_process_id := parent_id k t, ev_source_thread_id := thread_id (threads k t),
        ev_source_object_id := thread_id (threads k t),
        ev_name := copy_text KERNEL_EVENT_NAME_CAPACITY (Some (thread_name (threads k t))) '''',
        ev_payload := EventThread (parent_id k t) (thread_state_code previous) (thread_state_code current)
          (ucast (current_priority (threads k t)))\<rparr>) k"

definition current_process :: "Kernel \<Rightarrow> ptr option \<times> Kernel" where
  "current_process k =
     (let k = (case g_current_thread k of
                 Some t \<Rightarrow> (case thread_parent (threads k t) of Some p \<Rightarrow> k\<lparr>g_current_process := Some p\<rparr> | None \<Rightarrow> k)
               | None \<Rightarrow> k)
      in (g_current_process k, k))"

definition current_process_id :: "Kernel \<Rightarrow> u64 \<times> Kernel" where
  "current_process_id k =
     (let (p, k) = current_process k in (case p of Some p \<Rightarrow> process_id (processes k p) | None \<Rightarrow> 0, k))"

definition current_thread_id :: "Kernel \<Rightarrow> u64" where
  "current_thread_id k = (case g_current_thread k of Some t \<Rightarrow> thread_id (threads k t) | None \<Rightarrow> 0)"

definition publish_vfs_event :: "waker \<Rightarrow> KernelEventType \<Rightarrow> string \<Rightarrow> u32 \<Rightarrow> Status \<Rightarrow> Kernel \<Rightarrow> Kernel option" where
  "publish_vfs_event wake type path node_type status k =
     (let (pid, k) = current_process_id k in publish_record wake (blank_record
       \<lparr>ev_version := KERNEL_EVENT_ABI_VERSION, ev_family := KERNEL_EVENT_FAMILY_FILESYSTEM, ev_type := event_type_code type,
        ev_status := status_code status, ev_source_process_id := pid, ev_source_thread_id := current_thread_id k,
        ev_source_object_id := 0, ev_path := copy_text KERNEL_EVENT_PATH_CAPACITY (Some path) '''',
        ev_payload := EventFilesystem node_type\<rparr>) k)"

fun registration_kind_for_type :: "KernelEventType \<Rightarrow> u32" where
  "registration_kind_for_type KernelEventTypeDeviceRegistered = 1"
| "registration_kind_for_type KernelEventTypeDriverRegistered = 2"
| "registration_kind_for_type KernelEventTypeFilesystemDriverRegistered = 3"
| "registration_kind_for_type _ = 0"

definition publish_registration_event :: "waker \<Rightarrow> KernelEventType \<Rightarrow> string \<Rightarrow> Status \<Rightarrow> Kernel \<Rightarrow> Kernel option" where
  "publish_registration_event wake type name status k =
     (let (pid, k) = current_process_id k in publish_record wake (blank_record
       \<lparr>ev_version := KERNEL_EVENT_ABI_VERSION, ev_family := KERNEL_EVENT_FAMILY_REGISTRATION, ev_type := event_type_code type,
        ev_status := status_code status, ev_source_process_id := pid, ev_source_thread_id := current_thread_id k,
        ev_source_object_id := 0, ev_name := copy_text KERNEL_EVENT_NAME_CAPACITY (Some name) '''',
        ev_payload := EventRegistration (registration_kind_for_type type)\<rparr>) k)"

section \<open>The interface of the broker\<close>

partial_function (option) destroy_subscribers :: "waker \<Rightarrow> Kernel \<Rightarrow> Kernel option" where
  "destroy_subscribers wake k =
     (case g_subscriber_head (broker k) of
        None \<Rightarrow> Some k
      | Some s \<Rightarrow> do { k \<leftarrow> destroy_subscriber wake s k; destroy_subscribers wake k })"

definition event_init :: "waker \<Rightarrow> Kernel \<Rightarrow> (Status \<times> Kernel) option" where
  "event_init wake k = do {
     k \<leftarrow> destroy_subscribers wake k;
     Some (StatusOK, updb (\<lambda>b. b\<lparr>g_next_subscription_id := 1, g_next_sequence := 0\<rparr>) k) }"

definition subscribe :: "u64 \<Rightarrow> KernelEventSubscriptionRequest option \<Rightarrow> Kernel \<Rightarrow> (Status \<times> u64) \<times> Kernel" where
  "subscribe owner req k =
     (case req of
        None \<Rightarrow> ((StatusInvalidArgument, 0), k)
      | Some q \<Rightarrow>
          if req_version q \<noteq> KERNEL_EVENT_ABI_VERSION then ((StatusInvalidArgument, 0), k)
          else if req_flags q \<noteq> 0 then ((StatusNotSupported, 0), k)
          else if req_family_mask q = 0 \<or> req_family_mask q AND NOT KERNEL_EVENT_FAMILY_ALL \<noteq> 0 then ((StatusInvalidArgument, 0), k)
          else let (answer, k) = heap_alloc k
               in case answer of
                    None \<Rightarrow> ((StatusNoMemory, 0), k)
                  | Some s \<Rightarrow>
                      let sid = g_next_subscription_id (broker k);
                          k = updb (\<lambda>b. b\<lparr>g_next_subscription_id := sid + 1\<rparr>) k;
                          q = q\<lparr>req_name_prefix := take (KERNEL_EVENT_NAME_CAPACITY - 1) (req_name_prefix q),
                                req_path_prefix := take (KERNEL_EVENT_PATH_CAPACITY - 1) (req_path_prefix q)\<rparr>;
                          k = upds s (\<lambda>_. zero_subscriber\<lparr>subscription_id := sid, owner_process_id := owner, request := q\<rparr>) k
                      in ((StatusOK, sid), link_subscriber s k))"

definition unsubscribe :: "waker \<Rightarrow> u64 \<Rightarrow> u64 \<Rightarrow> Kernel \<Rightarrow> (Status \<times> Kernel) option" where
  "unsubscribe wake owner sid k =
     (if sid = 0 then Some (StatusInvalidArgument, k)
      else do {
        found \<leftarrow> find_subscription owner sid k;
        case found of
          None \<Rightarrow> Some (StatusNotFound, k)
        | Some s \<Rightarrow> do { k \<leftarrow> destroy_subscriber wake s k; Some (StatusOK, k) } })"

record KernelEventSubscriptionInfo =
  info_version :: u32
  info_subscription_id :: u64
  info_owner_process_id :: u64
  info_family_mask :: u64
  info_process_id :: u64
  info_thread_id :: u64
  info_queued_count :: nat
  info_capacity :: nat
  info_next_sequence :: u64
  info_newest_sequence :: u64
  info_dropped_count :: u64
  info_name_prefix :: string
  info_path_prefix :: string

definition event_query :: "u64 \<Rightarrow> u64 \<Rightarrow> Kernel \<Rightarrow> (Status + KernelEventSubscriptionInfo) option" where
  "event_query owner sid k = do {
     found \<leftarrow> find_subscription owner sid k;
     case found of
       None \<Rightarrow> Some (Inl StatusNotFound)
     | Some s \<Rightarrow>
         let x = sub k s
         in Some (Inr \<lparr>info_version = KERNEL_EVENT_ABI_VERSION, info_subscription_id = subscription_id x,
              info_owner_process_id = owner_process_id x, info_family_mask = req_family_mask (request x),
              info_process_id = req_process_id (request x), info_thread_id = req_thread_id (request x),
              info_queued_count = queued_count x, info_capacity = length (queue x),
              info_next_sequence = (if queued_count x \<noteq> 0 then ev_sequence (queue x ! read_index x) else newest_sequence x + 1),
              info_newest_sequence = newest_sequence x, info_dropped_count = dropped_count x,
              info_name_prefix = copy_text KERNEL_EVENT_NAME_CAPACITY (Some (req_name_prefix (request x))) '''',
              info_path_prefix = copy_text KERNEL_EVENT_PATH_CAPACITY (Some (req_path_prefix (request x))) ''''\<rparr>) }"

primrec read_records :: "nat \<Rightarrow> EventSubscriber \<Rightarrow> KernelEventRecord list \<times> EventSubscriber" where
  "read_records 0 x = ([], x)"
| "read_records (Suc n) x =
     (let r = queue x ! read_index x;
          (rs, x) = read_records n (x\<lparr>read_index := (read_index x + 1) mod length (queue x), queued_count := queued_count x - 1\<rparr>)
      in (r # rs, x))"

definition event_read :: "u64 \<Rightarrow> u64 \<Rightarrow> nat \<Rightarrow> Kernel \<Rightarrow> ((Status \<times> KernelEventRecord list) \<times> Kernel) option" where
  "event_read owner sid capacity k = do {
     found \<leftarrow> find_subscription owner sid k;
     case found of
       None \<Rightarrow> Some ((StatusNotFound, []), k)
     | Some s \<Rightarrow>
         let (rs, x) = read_records (min capacity (queued_count (sub k s))) (sub k s)
         in Some ((StatusOK, rs), upds s (\<lambda>_. x) k) }"

partial_function (option) unsubscribe_loop :: "waker \<Rightarrow> u64 \<Rightarrow> ptr option \<Rightarrow> Kernel \<Rightarrow> Kernel option" where
  "unsubscribe_loop wake owner cursor k =
     (case cursor of
        None \<Rightarrow> Some k
      | Some s \<Rightarrow>
          let nx = subscriber_next (sub k s)
          in do { k \<leftarrow> (if owner_process_id (sub k s) = owner then destroy_subscriber wake s k else Some k);
                  unsubscribe_loop wake owner nx k })"

definition unsubscribe_process :: "waker \<Rightarrow> u64 \<Rightarrow> Kernel \<Rightarrow> Kernel option" where
  "unsubscribe_process wake owner k = unsubscribe_loop wake owner (g_subscriber_head (broker k)) k"

end
