(* ===== verification/Kernel_Sched.thy ===== *)
theory Kernel_Sched
  imports Kernel_Event
begin

text \<open>
  The queues of the scheduler, the first half of \<^verbatim>\<open>src/kernel/scheduler/scheduler.cpp\<close>: thirty-two ready
  queues with a bitmap of the non-empty ones, the sleep queue in the order of the wake ticks, and the list
  of retired threads, which reuses the ready link. Masking interrupts around each operation has no effect
  on this state. The operations that switch threads are in \<open>Kernel_Switch\<close>.
\<close>

section \<open>Tests\<close>

definition thread_is_runnable :: "Kernel \<Rightarrow> ptr option \<Rightarrow> bool" where
  "thread_is_runnable k thread =
     (case thread of
        None \<Rightarrow> False
      | Some t \<Rightarrow> thread_state (threads k t) \<notin> {ThreadWaiting, ThreadSuspended, ThreadTerminated})"

definition thread_can_enter_ready_queue :: "Kernel \<Rightarrow> ptr \<Rightarrow> bool" where
  "thread_can_enter_ready_queue k t \<longleftrightarrow> thread_is_runnable k (Some t) \<and> Some t \<noteq> g_idle_thread k"

definition thread_has_valid_priority :: "Kernel \<Rightarrow> ptr \<Rightarrow> bool" where
  "thread_has_valid_priority k t \<longleftrightarrow> current_priority (threads k t) < ThreadPriorityLevelCount"

definition full_quantum :: "Thread \<Rightarrow> Thread" where
  "full_quantum x =
     x\<lparr>quantum_ticks_remaining := (if quantum_ticks x = 0 then ThreadDefaultQuantumTicks else quantum_ticks x)\<rparr>"

definition reset_quantum :: "ptr \<Rightarrow> Kernel \<Rightarrow> Kernel" where
  "reset_quantum t k = upd t full_quantum k"

definition thread_in_sleep_queue :: "Kernel \<Rightarrow> ptr \<Rightarrow> bool" where
  "thread_in_sleep_queue k t \<longleftrightarrow>
     g_sleep_head k = Some t \<or> sleep_prev (threads k t) \<noteq> None \<or> sleep_next (threads k t) \<noteq> None"

definition ctz :: "u32 \<Rightarrow> nat" where
  "ctz w = length (takeWhile (\<lambda>i. \<not> bit w i) [0..<32])"

definition highest_ready_priority :: "Kernel \<Rightarrow> int" where
  "highest_ready_priority k = (if g_ready_bitmap k = 0 then -1 else int (ctz (g_ready_bitmap k)))"

abbreviation prio :: "Kernel \<Rightarrow> ptr \<Rightarrow> nat" where
  "prio k t \<equiv> unat (current_priority (threads k t))"

section \<open>Ready queues\<close>

definition ready_queue_push :: "ptr \<Rightarrow> bool \<Rightarrow> Kernel \<Rightarrow> Status \<times> Kernel" where
  "ready_queue_push t at_tail k =
     (if \<not> thread_can_enter_ready_queue k t \<or> \<not> thread_has_valid_priority k t then (StatusInvalidArgument, k)
      else if in_ready_queue (threads k t) then (StatusAlreadyExists, k)
      else
        let q = prio k t;
            k = upd t (\<lambda>x. x\<lparr>ready_prev := None, ready_next := None\<rparr>) k;
            k = (case ready_head k q of
                   None \<Rightarrow> k\<lparr>ready_head := (ready_head k)(q := Some t), ready_tail := (ready_tail k)(q := Some t)\<rparr>
                 | Some h \<Rightarrow>
                     if at_tail then
                       (case ready_tail k q of
                          None \<Rightarrow> k
                        | Some l \<Rightarrow> (upd l (\<lambda>x. x\<lparr>ready_next := Some t\<rparr>) (upd t (\<lambda>x. x\<lparr>ready_prev := Some l\<rparr>) k))
                            \<lparr>ready_tail := (ready_tail k)(q := Some t)\<rparr>)
                     else (upd h (\<lambda>x. x\<lparr>ready_prev := Some t\<rparr>) (upd t (\<lambda>x. x\<lparr>ready_next := Some h\<rparr>) k))
                            \<lparr>ready_head := (ready_head k)(q := Some t)\<rparr>);
            k = upd t (\<lambda>x. x\<lparr>in_ready_queue := True\<rparr>) k
        in (StatusOK, k\<lparr>g_ready_bitmap := g_ready_bitmap k OR push_bit q 1, g_ready_count := g_ready_count k + 1\<rparr>))"

definition ready_queue_remove :: "ptr \<Rightarrow> Kernel \<Rightarrow> Kernel" where
  "ready_queue_remove t k =
     (if \<not> in_ready_queue (threads k t) \<or> \<not> thread_has_valid_priority k t then k
      else
        let q = prio k t; nx = ready_next (threads k t); pv = ready_prev (threads k t);
            k = (case pv of Some p \<Rightarrow> upd p (\<lambda>x. x\<lparr>ready_next := nx\<rparr>) k | None \<Rightarrow> k\<lparr>ready_head := (ready_head k)(q := nx)\<rparr>);
            k = (case nx of Some n \<Rightarrow> upd n (\<lambda>x. x\<lparr>ready_prev := pv\<rparr>) k | None \<Rightarrow> k\<lparr>ready_tail := (ready_tail k)(q := pv)\<rparr>);
            k = upd t (\<lambda>x. x\<lparr>ready_prev := None, ready_next := None, in_ready_queue := False\<rparr>) k;
            k = (if g_ready_count k \<noteq> 0 then k\<lparr>g_ready_count := g_ready_count k - 1\<rparr> else k)
        in if ready_head k q = None then k\<lparr>g_ready_bitmap := g_ready_bitmap k AND NOT (push_bit q 1)\<rparr> else k)"

section \<open>The sleep queue\<close>

definition sleep_queue_remove :: "ptr \<Rightarrow> Kernel \<Rightarrow> Kernel" where
  "sleep_queue_remove t k =
     (if \<not> thread_in_sleep_queue k t then k
      else
        let nx = sleep_next (threads k t); pv = sleep_prev (threads k t);
            k = (case pv of Some p \<Rightarrow> upd p (\<lambda>x. x\<lparr>sleep_next := nx\<rparr>) k | None \<Rightarrow> k\<lparr>g_sleep_head := nx\<rparr>);
            k = (case nx of Some n \<Rightarrow> upd n (\<lambda>x. x\<lparr>sleep_prev := pv\<rparr>) k | None \<Rightarrow> k\<lparr>g_sleep_tail := pv\<rparr>)
        in upd t (\<lambda>x. x\<lparr>sleep_prev := None, sleep_next := None\<rparr>) k)"

definition sleep_queue_link :: "ptr \<Rightarrow> ptr option \<Rightarrow> Kernel \<Rightarrow> Kernel" where
  "sleep_queue_link t cursor k =
     (case cursor of
        None \<Rightarrow>
          let k = upd t (\<lambda>x. x\<lparr>sleep_prev := g_sleep_tail k\<rparr>) k;
              k = (case g_sleep_tail k of Some l \<Rightarrow> upd l (\<lambda>x. x\<lparr>sleep_next := Some t\<rparr>) k | None \<Rightarrow> k)
          in k\<lparr>g_sleep_tail := Some t\<rparr>
      | Some c \<Rightarrow>
          let k = upd t (\<lambda>x. x\<lparr>sleep_next := Some c, sleep_prev := sleep_prev (threads k c)\<rparr>) k;
              k = (case sleep_prev (threads k c) of
                     Some p \<Rightarrow> upd p (\<lambda>x. x\<lparr>sleep_next := Some t\<rparr>) k
                   | None \<Rightarrow> k\<lparr>g_sleep_head := Some t\<rparr>)
          in upd c (\<lambda>x. x\<lparr>sleep_prev := Some t\<rparr>) k)"

definition sleep_queue_insert_sorted :: "ptr \<Rightarrow> Kernel \<Rightarrow> Kernel option" where
  "sleep_queue_insert_sorted t k =
     (let k = upd t (\<lambda>x. x\<lparr>sleep_prev := None, sleep_next := None\<rparr>) (sleep_queue_remove t k)
      in case g_sleep_head k of
           None \<Rightarrow> Some (k\<lparr>g_sleep_head := Some t, g_sleep_tail := Some t\<rparr>)
         | Some h \<Rightarrow> do {
             cursor \<leftarrow> find_link (\<lambda>c. sleep_next (threads k c)) (\<lambda>c. \<not> wake_tick (threads k c) \<le> wake_tick (threads k t)) (Some h);
             Some (sleep_queue_link t cursor k) })"

section \<open>Moving threads between the queues\<close>

definition mark_parent_running :: "ptr \<Rightarrow> Kernel \<Rightarrow> Kernel" where
  "mark_parent_running t k =
     (case thread_parent (threads k t) of
        None \<Rightarrow> k
      | Some p \<Rightarrow> if process_state (processes k p) \<noteq> ProcessExiting \<and> process_state (processes k p) \<noteq> ProcessTerminated
                  then updp p (\<lambda>x. x\<lparr>process_state := ProcessRunning\<rparr>) k else k)"

definition request_reschedule :: "ptr \<Rightarrow> Kernel \<Rightarrow> Kernel" where
  "request_reschedule t k =
     (let k = (if g_current_thread k = g_idle_thread k then k\<lparr>g_reschedule_pending := True\<rparr> else k)
      in case g_current_thread k of
           Some c \<Rightarrow>
             if g_current_thread k \<noteq> g_idle_thread k \<and> current_priority (threads k t) < current_priority (threads k c)
             then k\<lparr>g_reschedule_pending := True\<rparr> else k
         | None \<Rightarrow> k)"

definition transition_thread_to_ready :: "waker \<Rightarrow> ptr \<Rightarrow> bool \<Rightarrow> Kernel \<Rightarrow> (Status \<times> Kernel) option" where
  "transition_thread_to_ready wake t at_tail k =
     (if thread_state (threads k t) = ThreadTerminated then Some (StatusBusy, k)
      else if in_ready_queue (threads k t) then Some (StatusAlreadyExists, k)
      else
        let k = sleep_queue_remove t k;
            k = upd t (\<lambda>x. x\<lparr>wait_object := None, wait_status := wait_code WaitNone, wake_tick := 0\<rparr>) k;
            k = mark_parent_running t k;
            previous = thread_state (threads k t);
            k = upd t (\<lambda>x. x\<lparr>thread_state := ThreadReady\<rparr>) k;
            k = (if quantum_ticks_remaining (threads k t) = 0 then reset_quantum t k else k);
            (status, k) = ready_queue_push t at_tail k
        in do {
          k \<leftarrow> (if status = StatusOK \<and> previous \<noteq> ThreadReady
                then publish_thread_event wake KernelEventTypeThreadReady t previous ThreadReady k else Some k);
          Some (status, if status = StatusOK then request_reschedule t k else k) })"

partial_function (option) wake_expired_sleepers :: "waker \<Rightarrow> Kernel \<Rightarrow> Kernel option" where
  "wake_expired_sleepers wake k =
     (case g_sleep_head k of
        None \<Rightarrow> Some k
      | Some t \<Rightarrow>
          if wake_tick (threads k t) \<le> g_tick_count k then do {
            let k = sleep_queue_remove t k;
            k \<leftarrow> (if thread_state (threads k t) = ThreadWaiting
                  then map_option snd (transition_thread_to_ready wake t True k) else Some k);
            wake_expired_sleepers wake k }
          else Some k)"

text \<open>The traces of the hand-over test: they count, and print while the count is small.\<close>

definition trace_irqhandoff_bind_window :: "ptr \<Rightarrow> Kernel \<Rightarrow> Kernel" where
  "trace_irqhandoff_bind_window t k =
     (if \<not> event_prefix ''irqhandoff.'' (thread_name (threads k t)) \<or> 4 \<le> g_irqhandoff_bind_trace_count k then k
      else call (KRetail ''irqhandoff bind'') (k\<lparr>g_irqhandoff_bind_trace_count := g_irqhandoff_bind_trace_count k + 1\<rparr>))"

definition trace_irqhandoff_ready_window :: "string \<Rightarrow> ptr \<Rightarrow> Kernel \<Rightarrow> Kernel" where
  "trace_irqhandoff_ready_window event t k =
     (if \<not> event_prefix ''irqhandoff.'' (thread_name (threads k t)) \<or> 12 \<le> g_irqhandoff_ready_trace_count k then k
      else call (KRetail event) (k\<lparr>g_irqhandoff_ready_trace_count := g_irqhandoff_ready_trace_count k + 1\<rparr>))"

partial_function (option) ready_queue_pop_best :: "Kernel \<Rightarrow> (ptr option \<times> Kernel) option" where
  "ready_queue_pop_best k =
     (if g_ready_bitmap k = 0 then Some (None, k)
      else let q = ctz (g_ready_bitmap k)
           in case ready_head k q of
                None \<Rightarrow> ready_queue_pop_best (k\<lparr>g_ready_bitmap := g_ready_bitmap k AND NOT (push_bit q 1)\<rparr>)
              | Some t \<Rightarrow>
                  let k = ready_queue_remove t (trace_irqhandoff_ready_window ''candidate'' t k)
                  in if thread_can_enter_ready_queue k t \<and> thread_state (threads k t) = ThreadReady
                     then Some (Some t, trace_irqhandoff_ready_window ''selected'' t k)
                     else ready_queue_pop_best (trace_irqhandoff_ready_window ''discarded'' t k))"

definition queue_retired_thread :: "ptr \<Rightarrow> Kernel \<Rightarrow> Kernel" where
  "queue_retired_thread t k =
     (let k = upd t (\<lambda>x. x\<lparr>ready_next := None\<rparr>) k;
          k = (case g_retired_thread_tail k of
                 Some l \<Rightarrow> upd l (\<lambda>x. x\<lparr>ready_next := Some t\<rparr>) k
               | None \<Rightarrow> k\<lparr>g_retired_thread_head := Some t\<rparr>)
      in k\<lparr>g_retired_thread_tail := Some t\<rparr>)"

definition forget :: "ptr \<Rightarrow> Kernel \<Rightarrow> Kernel" where
  "forget t k =
     (let k = (if in_ready_queue (threads k t) then ready_queue_remove t k else k);
          k = sleep_queue_remove t k;
          k = (if g_current_thread k = Some t then k\<lparr>g_current_thread := None, g_current_process := None\<rparr> else k)
      in upd t (\<lambda>x. x\<lparr>wait_object := None, wait_status := wait_code WaitNone, wake_tick := 0\<rparr>) k)"

end
