(* ===== verification/Kernel_Queues.thy ===== *)
theory Kernel_Queues
  imports Kernel_Sched
begin

text \<open>
  What the queue operations do to the queues as lists: the ready queues are \<open>qs\<close> (a list per priority),
  the sleep queue is \<open>ss\<close>, the retired threads are \<open>rs\<close>. Each operation comes with its effect on the list and
  with a frame: the fields of the threads and of the kernel it does not touch.
\<close>

section \<open>Reading updated states\<close>

named_theorems kernel_simps \<open>single field updates\<close>

lemmas [kernel_simps] = upd_def updp_def updb_def upds_def call_def heap_alloc_def reset_quantum_def

section \<open>Ready queues\<close>

abbreviation rnext :: "Kernel \<Rightarrow> ptr \<Rightarrow> ptr option" where "rnext k \<equiv> \<lambda>t. ready_next (threads k t)"
abbreviation rprev :: "Kernel \<Rightarrow> ptr \<Rightarrow> ptr option" where "rprev k \<equiv> \<lambda>t. ready_prev (threads k t)"

definition ready_lists :: "Kernel \<Rightarrow> (nat \<Rightarrow> ptr list) \<Rightarrow> bool" where
  "ready_lists k qs \<longleftrightarrow>
     (\<forall>q. dll (rnext k) (rprev k) (ready_head k q) (ready_tail k q) (qs q))
     \<and> (\<forall>q t. t \<in> set (qs q) \<longleftrightarrow> in_ready_queue (threads k t) \<and> prio k t = q)
     \<and> (\<forall>q. 32 \<le> q \<longrightarrow> qs q = [])
     \<and> (\<forall>q<32. bit (g_ready_bitmap k) q \<longleftrightarrow> qs q \<noteq> [])
     \<and> g_ready_count k = of_nat (\<Sum>q<32. length (qs q))"

definition ready_rest :: "Thread \<Rightarrow> Thread" where
  "ready_rest x = x\<lparr>ready_next := None, ready_prev := None, in_ready_queue := False\<rparr>"

definition only_ready :: "Kernel \<Rightarrow> Kernel \<Rightarrow> bool" where
  "only_ready k k' \<longleftrightarrow>
     (\<forall>x. ready_rest (threads k' x) = ready_rest (threads k x))
     \<and> k'\<lparr>threads := threads k, ready_head := ready_head k, ready_tail := ready_tail k, g_ready_bitmap := g_ready_bitmap k,
          g_ready_count := g_ready_count k, g_irqhandoff_ready_trace_count := g_irqhandoff_ready_trace_count k,
          calls := calls k\<rparr> = k"

named_theorems only_ready_rules \<open>how the frame of the ready queues composes\<close>

lemma only_ready_refl [only_ready_rules]: "only_ready k k"
  by (simp add: only_ready_def)

lemma only_ready_upd [only_ready_rules]:
  "(\<And>x. ready_rest (f x) = ready_rest x) \<Longrightarrow> only_ready k k1 \<Longrightarrow> only_ready k (upd t f k1)"
  by (cases k; cases k1) (auto simp: only_ready_def upd_def)

lemma only_ready_globals [only_ready_rules]:
  "only_ready k k1 \<Longrightarrow> only_ready k (k1\<lparr>ready_head := a\<rparr>)"
  "only_ready k k1 \<Longrightarrow> only_ready k (k1\<lparr>ready_tail := a\<rparr>)"
  "only_ready k k1 \<Longrightarrow> only_ready k (k1\<lparr>g_ready_bitmap := b\<rparr>)"
  "only_ready k k1 \<Longrightarrow> only_ready k (k1\<lparr>g_ready_count := c\<rparr>)"
  "only_ready k k1 \<Longrightarrow> only_ready k (k1\<lparr>g_irqhandoff_ready_trace_count := n\<rparr>)"
  "only_ready k k1 \<Longrightarrow> only_ready k (call e k1)"
  by (simp_all add: only_ready_def call_def)

lemma only_ready_branch [only_ready_rules]:
  "only_ready k k1 \<Longrightarrow> only_ready k k2 \<Longrightarrow> only_ready k (if b then k1 else k2)"
  "only_ready k k1 \<Longrightarrow> (\<And>p. only_ready k (g p)) \<Longrightarrow> only_ready k (case m of None \<Rightarrow> k1 | Some p \<Rightarrow> g p)"
  by (auto split: option.split)

lemma only_ready_remove: "only_ready k (ready_queue_remove t k)"
  unfolding ready_queue_remove_def Let_def by (intro only_ready_rules) (simp_all add: ready_rest_def)

lemma only_ready_push: "only_ready k (snd (ready_queue_push t at_tail k))"
  unfolding ready_queue_push_def Let_def if_distrib [of snd] snd_conv
  by (intro only_ready_rules) (simp_all add: ready_rest_def)

lemma only_ready_trans: "only_ready k k1 \<Longrightarrow> only_ready k1 k2 \<Longrightarrow> only_ready k k2"
  by (cases k; cases k1; cases k2) (auto simp: only_ready_def)

lemma ready_lists_dll: "ready_lists k qs \<Longrightarrow> dll (rnext k) (rprev k) (ready_head k q) (ready_tail k q) (qs q)"
  and ready_lists_mem: "ready_lists k qs \<Longrightarrow> t \<in> set (qs q) \<longleftrightarrow> in_ready_queue (threads k t) \<and> prio k t = q"
  and ready_lists_high: "ready_lists k qs \<Longrightarrow> 32 \<le> q \<Longrightarrow> qs q = []"
  and ready_lists_bit: "ready_lists k qs \<Longrightarrow> q < 32 \<Longrightarrow> bit (g_ready_bitmap k) q \<longleftrightarrow> qs q \<noteq> []"
  and ready_lists_count: "ready_lists k qs \<Longrightarrow> g_ready_count k = of_nat (\<Sum>q<32. length (qs q))"
  by (simp_all add: ready_lists_def)

lemma valid_priority_iff: "thread_has_valid_priority k t \<longleftrightarrow> prio k t < 32"
  by (simp add: thread_has_valid_priority_def word_less_nat_alt)

lemma sum_length_update:
  "q < (32::nat) \<Longrightarrow> (\<Sum>i<32. length ((qs(q := xs)) i)) + length (qs q) = (\<Sum>i<32. length (qs i)) + length xs"
  by (subst (1 2) sum.remove [of "{..<32}" q]) auto

lemma bit_or_shift: "q < 32 \<Longrightarrow> i < 32 \<Longrightarrow> bit (w OR push_bit q 1 :: u32) i \<longleftrightarrow> bit w i \<or> i = q"
  and bit_and_not_shift: "q < 32 \<Longrightarrow> i < 32 \<Longrightarrow> bit (w AND NOT (push_bit q 1) :: u32) i \<longleftrightarrow> bit w i \<and> i \<noteq> q"
  by (auto simp: bit_simps)

lemma ready_queue_push_refused:
  "in_ready_queue (threads k t) \<Longrightarrow> snd (ready_queue_push t at_tail k) = k"
  by (simp add: ready_queue_push_def)

lemma ready_queue_push_ok:
  fixes at_tail :: bool
  assumes r: "ready_lists k qs" and ok: "thread_can_enter_ready_queue k t" "prio k t < 32" "\<not> in_ready_queue (threads k t)"
  defines "q \<equiv> prio k t"
  defines "k' \<equiv> snd (ready_queue_push t at_tail k)"
  shows "fst (ready_queue_push t at_tail k) = StatusOK"
    and "ready_lists k' (qs(q := if at_tail then qs q @ [t] else t # qs q))"
    and "only_ready k k'"
    and "\<And>x. x \<noteq> t \<Longrightarrow> x \<notin> set (qs q) \<Longrightarrow> threads k' x = threads k x"
proof -
  have guard: "thread_has_valid_priority k t" using ok by (simp add: valid_priority_iff)
  have nin: "t \<notin> set (qs i)" for i using ready_lists_mem [OF r] ok by simp
  have d: "dll (rnext k) (rprev k) (ready_head k i) (ready_tail k i) (qs i)" for i by (rule ready_lists_dll [OF r])
  have ends: "ready_head k q = first_of (qs q) None" "ready_tail k q = last_of None (qs q)"
    using dll_head [OF d] dll_tail [OF d] by auto
  have hq: "h \<in> set (qs q)" if "ready_head k q = Some h" for h using ends that by (cases "qs q") auto
  have tq: "l \<in> set (qs q)" if "ready_tail k q = Some l" for l using ends that by (auto simp: last_of_def split: if_splits)
  have ht: "ready_head k q = None \<longleftrightarrow> ready_tail k q = None" using ends by simp
  let ?nx = "if at_tail then (\<lambda>y. if y = t then None else if ready_tail k q = Some y then Some t else rnext k y)
             else (\<lambda>y. if y = t then ready_head k q else rnext k y)"
  let ?pv = "if at_tail then (\<lambda>y. if y = t then ready_tail k q else rprev k y)
             else (\<lambda>y. if y = t then None else if ready_head k q = Some y then Some t else rprev k y)"
  let ?qs = "qs(q := if at_tail then qs q @ [t] else t # qs q)"
  have nx: "rnext k' = ?nx" and pv: "rprev k' = ?pv"
    using guard ok ht nin hq tq unfolding k'_def q_def
    by (auto simp: fun_eq_iff ready_queue_push_def Let_def kernel_simps split: option.splits)
  have heads: "ready_head k' i = (if i = q then if at_tail \<and> ready_tail k q \<noteq> None then ready_head k q else Some t else ready_head k i)"
    and tails: "ready_tail k' i = (if i = q then if at_tail \<or> ready_head k q = None then Some t else ready_tail k q else ready_tail k i)" for i
    using guard ok ht unfolding k'_def q_def
    by (auto simp: ready_queue_push_def Let_def kernel_simps split: option.splits)
  have inq: "in_ready_queue (threads k' x) \<longleftrightarrow> x = t \<or> in_ready_queue (threads k x)"
    and pr: "current_priority (threads k' x) = current_priority (threads k x)" for x
    using guard ok unfolding k'_def
    by (auto simp: ready_queue_push_def Let_def kernel_simps split: option.splits)
  have bm: "g_ready_bitmap k' = g_ready_bitmap k OR push_bit q 1" and ct: "g_ready_count k' = g_ready_count k + 1"
    using guard ok unfolding k'_def q_def
    by (auto simp: ready_queue_push_def Let_def kernel_simps split: option.splits)
  have dq: "dll (rnext k') (rprev k') (ready_head k' q) (ready_tail k' q) (?qs q)"
  proof (cases at_tail)
    case True
    then show ?thesis using dll_append1 [OF d nin, of q] ht unfolding nx pv heads tails
      by (cases "ready_tail k q") simp_all
  next
    case False
    then show ?thesis using dll_prepend1 [OF d nin, of q] unfolding nx pv heads tails
      by (cases "ready_head k q") simp_all
  qed
  have dr: "dll (rnext k') (rprev k') (ready_head k' i) (ready_tail k' i) (?qs i)" if "i \<noteq> q" for i
  proof -
    have out: "y \<in> set (qs i) \<Longrightarrow> y \<notin> set (qs q) \<and> y \<noteq> t" for y
      using ready_lists_mem [OF r, of y i] ready_lists_mem [OF r, of y q] nin [of i] that by auto
    have "dll (rnext k') (rprev k') (ready_head k i) (ready_tail k i) (qs i) = dll (rnext k) (rprev k) (ready_head k i) (ready_tail k i) (qs i)"
      by (rule dll_cong) (use out hq tq in \<open>auto simp: fun_cong [OF nx] fun_cong [OF pv]\<close>)
    then show ?thesis using that d by (simp add: heads tails)
  qed
  have q32: "q < 32" using ok by (simp add: q_def)
  have cnt: "(\<Sum>i<32. length (?qs i)) = Suc (\<Sum>i<32. length (qs i))"
    using sum_length_update [OF q32, of qs "?qs q"] by (cases at_tail) (simp_all del: sum.lessThan_Suc)
  show "ready_lists k' ?qs" unfolding ready_lists_def
  proof (intro conjI allI impI)
    show "dll (rnext k') (rprev k') (ready_head k' i) (ready_tail k' i) (?qs i)" for i
      using dq dr by (cases "i = q") auto
    show "x \<in> set (?qs i) \<longleftrightarrow> in_ready_queue (threads k' x) \<and> prio k' x = i" for i x
      using ready_lists_mem [OF r, of x i] ok(3) by (auto simp: inq pr q_def)
    show "32 \<le> i \<Longrightarrow> ?qs i = []" for i using ready_lists_high [OF r] q32 by auto
    show "i < 32 \<Longrightarrow> bit (g_ready_bitmap k') i \<longleftrightarrow> ?qs i \<noteq> []" for i
      using ready_lists_bit [OF r, of i] q32 unfolding bm by (subst bit_or_shift) auto
    show "g_ready_count k' = of_nat (\<Sum>i<32. length (?qs i))"
      unfolding ct cnt ready_lists_count [OF r] by (simp del: sum.lessThan_Suc)
  qed
  show "fst (ready_queue_push t at_tail k) = StatusOK"
    using guard ok by (simp add: ready_queue_push_def Let_def)
  show "only_ready k k'" unfolding k'_def by (rule only_ready_push)
  show "threads k' x = threads k x" if "x \<noteq> t" "x \<notin> set (qs q)" for x
  proof -
    have "ready_head k q \<noteq> Some x" "ready_tail k q \<noteq> Some x" using that hq tq by auto
    then show ?thesis using guard ok that(1) unfolding k'_def q_def
      by (auto simp: ready_queue_push_def Let_def kernel_simps split: option.splits)
  qed
qed


lemma ready_queue_remove_ok:
  assumes r: "ready_lists k qs" and t: "in_ready_queue (threads k t)" and small: "(\<Sum>i<32. length (qs i)) < 2 ^ 64"
  defines "q \<equiv> prio k t"
  defines "k' \<equiv> ready_queue_remove t k"
  shows "ready_lists k' (qs(q := remove1 t (qs q)))" and "only_ready k k'"
    and "\<not> in_ready_queue (threads k' t)" and "prio k t < 32" and "rnext k' t = None" and "rprev k' t = None"
    and "\<And>x. x \<notin> set (qs q) \<Longrightarrow> threads k' x = threads k x"
proof -
  have tin: "t \<in> set (qs q)" using ready_lists_mem [OF r] t by (simp add: q_def)
  then have q32: "q < 32" using ready_lists_high [OF r, of q] by (cases "q < 32") auto
  then show "prio k t < 32" by (simp add: q_def)
  have guard: "thread_has_valid_priority k t" using q32 by (simp add: valid_priority_iff q_def)
  have d: "dll (rnext k) (rprev k) (ready_head k i) (ready_tail k i) (qs i)" for i by (rule ready_lists_dll [OF r])
  obtain us vs where uv: "qs q = us @ t # vs" using tin by (auto simp: in_set_conv_decomp)
  have links: "rnext k t = first_of vs None" "rprev k t = last_of None us"
    using dll_next [OF d [of q, unfolded uv]] dll_prev [OF d [of q, unfolded uv]] by simp_all
  have near: "y \<in> set (qs q) \<and> y \<noteq> t" if "rnext k t = Some y \<or> rprev k t = Some y" for y
  proof -
    have "y \<in> set us \<union> set vs"
      using that unfolding links by (auto dest: first_of_in last_of_in)
    then show ?thesis using dll_distinct [OF d, of q] uv by auto
  qed
  let ?nx = "\<lambda>y. if y = t then None else if rprev k t = Some y then rnext k t else rnext k y"
  let ?pv = "\<lambda>y. if y = t then None else if rnext k t = Some y then rprev k t else rprev k y"
  let ?qs = "qs(q := remove1 t (qs q))"
  have nx: "rnext k' = ?nx" and pv: "rprev k' = ?pv"
    using guard t near [of t] unfolding k'_def q_def
    by (auto simp: fun_eq_iff ready_queue_remove_def Let_def kernel_simps split: option.splits)
  have heads: "ready_head k' i = (if i = q then if rprev k t = None then rnext k t else ready_head k q else ready_head k i)"
    and tails: "ready_tail k' i = (if i = q then if rnext k t = None then rprev k t else ready_tail k q else ready_tail k i)" for i
    using guard t unfolding k'_def q_def
    by (auto simp: ready_queue_remove_def Let_def kernel_simps split: option.splits)
  have inq: "in_ready_queue (threads k' x) \<longleftrightarrow> x \<noteq> t \<and> in_ready_queue (threads k x)"
    and pr: "current_priority (threads k' x) = current_priority (threads k x)" for x
    using guard t unfolding k'_def
    by (auto simp: ready_queue_remove_def Let_def kernel_simps split: option.splits)
  have dq: "dll (rnext k') (rprev k') (ready_head k' q) (ready_tail k' q) (?qs q)"
    using dll_remove1 [OF d tin] unfolding nx pv heads tails by simp
  have emp: "ready_head k' q = None \<longleftrightarrow> remove1 t (qs q) = []" using dll_head [OF dq] by simp
  have bm: "g_ready_bitmap k' = (if ready_head k' q = None then g_ready_bitmap k AND NOT (push_bit q 1) else g_ready_bitmap k)"
    and ct: "g_ready_count k' = (if g_ready_count k \<noteq> 0 then g_ready_count k - 1 else g_ready_count k)"
    using guard t unfolding k'_def q_def
    by (auto simp: ready_queue_remove_def Let_def kernel_simps split: option.splits)
  have dr: "dll (rnext k') (rprev k') (ready_head k' i) (ready_tail k' i) (?qs i)" if "i \<noteq> q" for i
  proof -
    have out: "y \<in> set (qs i) \<Longrightarrow> y \<notin> set (qs q) \<and> y \<noteq> t" for y
      using ready_lists_mem [OF r, of y i] ready_lists_mem [OF r, of y q] that tin by (auto simp: q_def)
    have "dll (rnext k') (rprev k') (ready_head k i) (ready_tail k i) (qs i) = dll (rnext k) (rprev k) (ready_head k i) (ready_tail k i) (qs i)"
      by (rule dll_cong) (use out near in \<open>auto simp: fun_cong [OF nx] fun_cong [OF pv]\<close>)
    then show ?thesis using that d by (simp add: heads tails)
  qed
  have "Suc (length (remove1 t (qs q))) = length (qs q)" using tin length_pos_if_in_set [OF tin] by (simp add: length_remove1)
  then have cnt: "Suc (\<Sum>i<32. length (?qs i)) = (\<Sum>i<32. length (qs i))"
    using sum_length_update [OF q32, of qs "remove1 t (qs q)"] by linarith
  have "unat (g_ready_count k) = (\<Sum>i<32. length (qs i))"
    using small by (rule unat_eq_of_nat [OF ready_lists_count [OF r]])
  then have "g_ready_count k \<noteq> 0" using cnt by (metis nat.distinct(1) unat_0)
  then have ct': "g_ready_count k' = of_nat (\<Sum>i<32. length (?qs i))"
    unfolding ct ready_lists_count [OF r] cnt [symmetric] by (simp del: sum.lessThan_Suc)
  show "ready_lists k' ?qs" unfolding ready_lists_def
  proof (intro conjI allI impI)
    show "dll (rnext k') (rprev k') (ready_head k' i) (ready_tail k' i) (?qs i)" for i
      using dq dr by (cases "i = q") auto
    show "x \<in> set (?qs i) \<longleftrightarrow> in_ready_queue (threads k' x) \<and> prio k' x = i" for i x
      using ready_lists_mem [OF r, of x i] dll_distinct [OF d, of q] by (auto simp: inq pr q_def)
    show "32 \<le> i \<Longrightarrow> ?qs i = []" for i using ready_lists_high [OF r] q32 by auto
    show "i < 32 \<Longrightarrow> bit (g_ready_bitmap k') i \<longleftrightarrow> ?qs i \<noteq> []" for i
      using ready_lists_bit [OF r, of i] q32 tin emp unfolding bm by (auto simp: bit_and_not_shift simp del: push_bit_of_1)
    show "g_ready_count k' = of_nat (\<Sum>i<32. length (?qs i))" by (rule ct')
  qed
  show "only_ready k k'" unfolding k'_def by (rule only_ready_remove)
  show "\<not> in_ready_queue (threads k' t)" "rnext k' t = None" "rprev k' t = None" using inq nx pv by (simp_all add: fun_eq_iff)
  show "threads k' x = threads k x" if "x \<notin> set (qs q)" for x
  proof -
    have "x \<noteq> t" "rnext k t \<noteq> Some x" "rprev k t \<noteq> Some x" using that tin near by auto
    then show ?thesis using guard t unfolding k'_def
      by (auto simp: ready_queue_remove_def Let_def kernel_simps split: option.splits)
  qed
qed


section \<open>The best ready thread\<close>

lemma ctz_less: "w \<noteq> 0 \<Longrightarrow> ctz w < 32"
  and bit_ctz: "w \<noteq> 0 \<Longrightarrow> bit w (ctz w)"
  and not_bit_below_ctz: "i < ctz w \<Longrightarrow> \<not> bit w i"
proof -
  let ?xs = "takeWhile (\<lambda>i. \<not> bit w i) [0..<32]"
  have nth: "i < length ?xs \<Longrightarrow> ?xs ! i = i" for i
    by (metis (no_types, lifting) add_0 length_takeWhile_le length_upt minus_nat.diff_0 nth_upt order_less_le_trans takeWhile_nth)
  show "i < ctz w \<Longrightarrow> \<not> bit w i" using nth [of i] set_takeWhileD [of "?xs ! i"] nth_mem [of i ?xs] unfolding ctz_def by metis
  assume w: "w \<noteq> 0"
  then obtain i where i: "bit w i" by (metis bit_0_eq bit_eqI bot_apply bot_bool_def)
  then have "i < 32" using bit_imp_le_length by fastforce
  then have ne: "length ?xs \<noteq> length [0..<32]" using i set_takeWhileD [of i "\<lambda>i. \<not> bit w i" "[0..<32]"]
    by (metis atLeastLessThan_iff le0 length_map set_upt takeWhile_eq_all_conv takeWhile_eq_take take_all_iff order_refl)
  then show less: "ctz w < 32" using length_takeWhile_le [of "\<lambda>i. \<not> bit w i" "[0..<32]"] unfolding ctz_def by simp
  show "bit w (ctz w)" using nth_length_takeWhile [of "\<lambda>i. \<not> bit w i" "[0..<32]"] less unfolding ctz_def by simp
qed

definition best_queue :: "(nat \<Rightarrow> ptr list) \<Rightarrow> nat" where
  "best_queue qs = (LEAST q. qs q \<noteq> [])"

lemma best_queue_props:
  assumes "qs q \<noteq> []"
  shows "qs (best_queue qs) \<noteq> []" and "best_queue qs \<le> q" and "i < best_queue qs \<Longrightarrow> qs i = []"
  using LeastI [of "\<lambda>q. qs q \<noteq> []", OF assms] Least_le [of "\<lambda>q. qs q \<noteq> []", OF assms] not_less_Least [of i "\<lambda>q. qs q \<noteq> []"]
  unfolding best_queue_def by auto

lemma bitmap_zero_iff:
  assumes "ready_lists k qs" shows "g_ready_bitmap k = 0 \<longleftrightarrow> (\<forall>q. qs q = [])"
proof
  assume "g_ready_bitmap k = 0"
  then show "\<forall>q. qs q = []" using ready_lists_bit [OF assms] ready_lists_high [OF assms]
    by (metis bit_0_eq bot_apply bot_bool_def not_le)
next
  assume "\<forall>q. qs q = []"
  then show "g_ready_bitmap k = 0" using ready_lists_bit [OF assms, of "ctz (g_ready_bitmap k)"] ctz_less bit_ctz by blast
qed

lemma ctz_bitmap:
  assumes r: "ready_lists k qs" and q: "qs q \<noteq> []"
  shows "g_ready_bitmap k \<noteq> 0" and "ctz (g_ready_bitmap k) = best_queue qs"
proof -
  show nz: "g_ready_bitmap k \<noteq> 0" using bitmap_zero_iff [OF r] q by auto
  have "qs (ctz (g_ready_bitmap k)) \<noteq> []" using ready_lists_bit [OF r] ctz_less [OF nz] bit_ctz [OF nz] by blast
  then have "best_queue qs \<le> ctz (g_ready_bitmap k)" by (rule best_queue_props(2))
  moreover have "\<not> best_queue qs < ctz (g_ready_bitmap k)"
    using not_bit_below_ctz ready_lists_bit [OF r] best_queue_props(1) [of qs q, OF q] ctz_less [OF nz] by (metis less_trans)
  ultimately show "ctz (g_ready_bitmap k) = best_queue qs" by simp
qed

lemma ready_lists_trace [simp]: "ready_lists (trace_irqhandoff_ready_window e t k) qs = ready_lists k qs"
  and trace_ready_simps [simp]: "threads (trace_irqhandoff_ready_window e t k) = threads k"
    "ready_head (trace_irqhandoff_ready_window e t k) = ready_head k"
    "g_ready_bitmap (trace_irqhandoff_ready_window e t k) = g_ready_bitmap k"
    "g_idle_thread (trace_irqhandoff_ready_window e t k) = g_idle_thread k"
  by (simp_all add: trace_irqhandoff_ready_window_def call_def ready_lists_def)

lemma only_ready_trace: "only_ready k (trace_irqhandoff_ready_window e t k)"
  unfolding trace_irqhandoff_ready_window_def by (intro only_ready_rules)

lemma only_readyD:
  assumes "only_ready k k'"
  shows "thread_state (threads k' x) = thread_state (threads k x)" "current_priority (threads k' x) = current_priority (threads k x)"
    "g_idle_thread k' = g_idle_thread k" "g_current_thread k' = g_current_thread k"
    "wake_tick (threads k' x) = wake_tick (threads k x)" "wait_status (threads k' x) = wait_status (threads k x)"
    "sleep_next (threads k' x) = sleep_next (threads k x)" "sleep_prev (threads k' x) = sleep_prev (threads k x)"
    "thread_next (threads k' x) = thread_next (threads k x)" "thread_prev (threads k' x) = thread_prev (threads k x)"
    "process_next (threads k' x) = process_next (threads k x)" "process_prev (threads k' x) = process_prev (threads k x)"
    "thread_parent (threads k' x) = thread_parent (threads k x)" "thread_context (threads k' x) = thread_context (threads k x)"
    "quantum_ticks_remaining (threads k' x) = quantum_ticks_remaining (threads k x)" "thread_id (threads k' x) = thread_id (threads k x)"
    "g_sleep_head k' = g_sleep_head k" "g_sleep_tail k' = g_sleep_tail k" "g_retired_thread_head k' = g_retired_thread_head k"
    "g_retired_thread_tail k' = g_retired_thread_tail k" "g_thread_head k' = g_thread_head k" "g_thread_tail k' = g_thread_tail k"
    "process_head k' = process_head k" "process_tail k' = process_tail k" "processes k' = processes k" "broker k' = broker k"
    "kernel_root_table k' = kernel_root_table k" "g_tick_count k' = g_tick_count k" "heap_answers k' = heap_answers k"
    "quantum_ticks (threads k' x) = quantum_ticks (threads k x)" "g_thread_count k' = g_thread_count k"
    "base_priority (threads k' x) = base_priority (threads k x)" "wait_object (threads k' x) = wait_object (threads k x)"
    "g_objects k' = g_objects k" "exit_records k' = exit_records k"
proof -
  have x: "ready_rest (threads k' x) = ready_rest (threads k x)" using assms by (simp add: only_ready_def)
  have e: "k'\<lparr>threads := threads k, ready_head := ready_head k, ready_tail := ready_tail k, g_ready_bitmap := g_ready_bitmap k,
          g_ready_count := g_ready_count k, g_irqhandoff_ready_trace_count := g_irqhandoff_ready_trace_count k,
          calls := calls k\<rparr> = k" using assms by (simp add: only_ready_def)
  show "thread_state (threads k' x) = thread_state (threads k x)" "current_priority (threads k' x) = current_priority (threads k x)"
    "wake_tick (threads k' x) = wake_tick (threads k x)" "wait_status (threads k' x) = wait_status (threads k x)"
    "sleep_next (threads k' x) = sleep_next (threads k x)" "sleep_prev (threads k' x) = sleep_prev (threads k x)"
    "thread_next (threads k' x) = thread_next (threads k x)" "thread_prev (threads k' x) = thread_prev (threads k x)"
    "process_next (threads k' x) = process_next (threads k x)" "process_prev (threads k' x) = process_prev (threads k x)"
    "thread_parent (threads k' x) = thread_parent (threads k x)" "thread_context (threads k' x) = thread_context (threads k x)"
    "quantum_ticks_remaining (threads k' x) = quantum_ticks_remaining (threads k x)" "thread_id (threads k' x) = thread_id (threads k x)"
    "quantum_ticks (threads k' x) = quantum_ticks (threads k x)"
    "base_priority (threads k' x) = base_priority (threads k x)" "wait_object (threads k' x) = wait_object (threads k x)"
    using x by (cases "threads k' x"; cases "threads k x"; simp add: ready_rest_def)+
  show "g_idle_thread k' = g_idle_thread k" "g_current_thread k' = g_current_thread k"
    "g_sleep_head k' = g_sleep_head k" "g_sleep_tail k' = g_sleep_tail k" "g_retired_thread_head k' = g_retired_thread_head k"
    "g_retired_thread_tail k' = g_retired_thread_tail k" "g_thread_head k' = g_thread_head k" "g_thread_tail k' = g_thread_tail k"
    "process_head k' = process_head k" "process_tail k' = process_tail k" "processes k' = processes k" "broker k' = broker k"
    "kernel_root_table k' = kernel_root_table k" "g_tick_count k' = g_tick_count k" "heap_answers k' = heap_answers k"
    "g_thread_count k' = g_thread_count k" "g_objects k' = g_objects k" "exit_records k' = exit_records k"
    using e by (cases k; cases k'; simp)+
qed


lemma ready_queue_pop_best_empty:
  "ready_lists k qs \<Longrightarrow> (\<And>q. qs q = []) \<Longrightarrow> ready_queue_pop_best k = Some (None, k)"
  by (subst ready_queue_pop_best.simps) (simp add: bitmap_zero_iff)

lemma ready_queue_pop_best_ok:
  assumes r: "ready_lists k qs" and ne: "qs q0 \<noteq> []" and small: "(\<Sum>i<32. length (qs i)) < 2 ^ 64"
    and fit: "\<And>q x. x \<in> set (qs q) \<Longrightarrow> thread_can_enter_ready_queue k x \<and> thread_state (threads k x) = ThreadReady"
  defines "q \<equiv> best_queue qs"
  defines "t \<equiv> hd (qs q)"
  obtains k' where "ready_queue_pop_best k = Some (Some t, k')" "ready_lists k' (qs(q := tl (qs q)))" "only_ready k k'"
    "\<not> in_ready_queue (threads k' t)" "rnext k' t = None" "rprev k' t = None"
    "\<And>x. x \<notin> set (qs q) \<Longrightarrow> threads k' x = threads k x"
proof -
  have q: "qs q \<noteq> []" unfolding q_def by (rule best_queue_props(1) [where q = q0]) (rule ne)
  then have tin: "t \<in> set (qs q)" by (simp add: t_def)
  have bm: "g_ready_bitmap k \<noteq> 0" "ctz (g_ready_bitmap k) = q" using ctz_bitmap [OF r ne] by (simp_all add: q_def)
  have hd: "ready_head k q = Some t" using dll_head [OF ready_lists_dll [OF r]] q by (cases "qs q") (auto simp: t_def)
  let ?k1 = "trace_irqhandoff_ready_window ''candidate'' t k"
  let ?k2 = "ready_queue_remove t ?k1"
  let ?k3 = "trace_irqhandoff_ready_window ''selected'' t ?k2"
  have r1: "ready_lists ?k1 qs" using r by simp
  have inq: "in_ready_queue (threads ?k1 t)" and pq: "prio ?k1 t = q" using ready_lists_mem [OF r, of t q] tin by simp_all
  note rem = ready_queue_remove_ok [OF r1 inq small, unfolded pq]
  have only: "only_ready k ?k3"
    by (rule only_ready_trans [OF only_ready_trans [OF only_ready_trace rem(2)] only_ready_trace])
  have ok: "thread_can_enter_ready_queue ?k2 t" "thread_state (threads ?k2 t) = ThreadReady"
    using fit [OF tin] only_readyD [OF rem(2)] by (simp_all add: thread_can_enter_ready_queue_def thread_is_runnable_def)
  have tl: "remove1 t (qs q) = tl (qs q)" using q by (cases "qs q") (auto simp: t_def)
  show ?thesis
  proof (rule that)
    show "ready_queue_pop_best k = Some (Some t, ?k3)"
      by (subst ready_queue_pop_best.simps) (simp add: bm hd ok Let_def)
    show "ready_lists ?k3 (qs(q := tl (qs q)))" using rem(1) by (simp add: tl)
    show "only_ready k ?k3" by (rule only)
  qed (use rem in simp_all)
qed

section \<open>The sleep queue\<close>

abbreviation snext :: "Kernel \<Rightarrow> ptr \<Rightarrow> ptr option" where "snext k \<equiv> \<lambda>t. sleep_next (threads k t)"
abbreviation sprev :: "Kernel \<Rightarrow> ptr \<Rightarrow> ptr option" where "sprev k \<equiv> \<lambda>t. sleep_prev (threads k t)"

definition sleep_list :: "Kernel \<Rightarrow> ptr list \<Rightarrow> bool" where
  "sleep_list k ss \<longleftrightarrow>
     dll (snext k) (sprev k) (g_sleep_head k) (g_sleep_tail k) ss
     \<and> (\<forall>t. t \<notin> set ss \<longrightarrow> snext k t = None \<and> sprev k t = None)
     \<and> sorted (map (\<lambda>t. wake_tick (threads k t)) ss)"

definition sleep_rest :: "Thread \<Rightarrow> Thread" where
  "sleep_rest x = x\<lparr>sleep_next := None, sleep_prev := None\<rparr>"

definition only_sleep :: "Kernel \<Rightarrow> Kernel \<Rightarrow> bool" where
  "only_sleep k k' \<longleftrightarrow>
     (\<forall>x. sleep_rest (threads k' x) = sleep_rest (threads k x))
     \<and> k'\<lparr>threads := threads k, g_sleep_head := g_sleep_head k, g_sleep_tail := g_sleep_tail k\<rparr> = k"

named_theorems only_sleep_rules \<open>how the frame of the sleep queue composes\<close>

lemma only_sleep_refl [only_sleep_rules]: "only_sleep k k"
  by (simp add: only_sleep_def)

lemma only_sleep_upd [only_sleep_rules]:
  "(\<And>x. sleep_rest (f x) = sleep_rest x) \<Longrightarrow> only_sleep k k1 \<Longrightarrow> only_sleep k (upd t f k1)"
  by (cases k; cases k1) (auto simp: only_sleep_def upd_def)

lemma only_sleep_globals [only_sleep_rules]:
  "only_sleep k k1 \<Longrightarrow> only_sleep k (k1\<lparr>g_sleep_head := a\<rparr>)"
  "only_sleep k k1 \<Longrightarrow> only_sleep k (k1\<lparr>g_sleep_tail := a\<rparr>)"
  by (simp_all add: only_sleep_def)

lemma only_sleep_branch [only_sleep_rules]:
  "only_sleep k k1 \<Longrightarrow> only_sleep k k2 \<Longrightarrow> only_sleep k (if b then k1 else k2)"
  "only_sleep k k1 \<Longrightarrow> (\<And>p. only_sleep k (g p)) \<Longrightarrow> only_sleep k (case m of None \<Rightarrow> k1 | Some p \<Rightarrow> g p)"
  by (auto split: option.split)

lemma only_sleep_trans: "only_sleep k k1 \<Longrightarrow> only_sleep k1 k2 \<Longrightarrow> only_sleep k k2"
  by (cases k; cases k1; cases k2) (auto simp: only_sleep_def)

lemma only_sleep_remove: "only_sleep k (sleep_queue_remove t k)"
  unfolding sleep_queue_remove_def Let_def by (intro only_sleep_rules) (simp_all add: sleep_rest_def)

lemma only_sleep_link: "only_sleep k (sleep_queue_link t c k)"
  unfolding sleep_queue_link_def Let_def by (intro only_sleep_rules) (simp_all add: sleep_rest_def)

lemma only_sleepD:
  assumes "only_sleep k k'"
  shows "\<And>x. sleep_rest (threads k' x) = sleep_rest (threads k x)"
    and "\<And>x. thread_state (threads k' x) = thread_state (threads k x)"
    and "\<And>x. wake_tick (threads k' x) = wake_tick (threads k x)"
    and "\<And>x. in_ready_queue (threads k' x) = in_ready_queue (threads k x)"
    and "k' = k\<lparr>threads := threads k', g_sleep_head := g_sleep_head k', g_sleep_tail := g_sleep_tail k'\<rparr>"
proof -
  show x: "sleep_rest (threads k' x) = sleep_rest (threads k x)" for x using assms by (simp add: only_sleep_def)
  show "thread_state (threads k' x) = thread_state (threads k x)" "wake_tick (threads k' x) = wake_tick (threads k x)"
    "in_ready_queue (threads k' x) = in_ready_queue (threads k x)" for x
    using x [of x] by (cases "threads k' x"; cases "threads k x"; simp add: sleep_rest_def)+
  show "k' = k\<lparr>threads := threads k', g_sleep_head := g_sleep_head k', g_sleep_tail := g_sleep_tail k'\<rparr>"
    using assms by (cases k; cases k') (simp add: only_sleep_def)
qed

lemma sleep_list_dll: "sleep_list k ss \<Longrightarrow> dll (snext k) (sprev k) (g_sleep_head k) (g_sleep_tail k) ss"
  and sleep_list_out: "sleep_list k ss \<Longrightarrow> t \<notin> set ss \<Longrightarrow> snext k t = None \<and> sprev k t = None"
  and sleep_list_sorted: "sleep_list k ss \<Longrightarrow> sorted (map (\<lambda>t. wake_tick (threads k t)) ss)"
  by (simp_all add: sleep_list_def)

lemma in_sleep_queue_iff:
  assumes s: "sleep_list k ss" shows "thread_in_sleep_queue k t \<longleftrightarrow> t \<in> set ss"
proof
  assume "t \<in> set ss"
  then obtain us vs where uv: "ss = us @ t # vs" by (auto simp: in_set_conv_decomp)
  note d = sleep_list_dll [OF s, unfolded uv]
  show "thread_in_sleep_queue k t"
    using dll_head [OF d] dll_prev [OF d] unfolding thread_in_sleep_queue_def by (cases us) (auto simp: last_of_def)
next
  assume "thread_in_sleep_queue k t"
  then show "t \<in> set ss" using sleep_list_out [OF s, of t] dll_head [OF sleep_list_dll [OF s]]
    unfolding thread_in_sleep_queue_def by (cases "t \<in> set ss") (auto dest: first_of_in)
qed

lemma sorted_remove1_map: "sorted (map f xs) \<Longrightarrow> sorted (map f (remove1 x xs))"
  by (induction xs) (auto dest: set_remove1_subset [THEN subsetD])

lemma sleep_queue_remove_ok:
  fixes t :: ptr
  assumes s: "sleep_list k ss"
  defines "k' \<equiv> sleep_queue_remove t k"
  shows "sleep_list k' (remove1 t ss)" and "only_sleep k k'"
proof -
  show only: "only_sleep k k'" unfolding k'_def by (rule only_sleep_remove)
  note d = sleep_list_dll [OF s]
  show "sleep_list k' (remove1 t ss)"
  proof (cases "t \<in> set ss")
    case False
    then have "k' = k" using in_sleep_queue_iff [OF s] by (simp add: k'_def sleep_queue_remove_def)
    then show ?thesis using s False by (simp add: remove1_idem)
  next
    case True
    then have inq: "thread_in_sleep_queue k t" using in_sleep_queue_iff [OF s] by simp
    obtain us vs where uv: "ss = us @ t # vs" using True by (auto simp: in_set_conv_decomp)
    have near: "snext k t \<noteq> Some t" "sprev k t \<noteq> Some t"
      using dll_next [OF d [unfolded uv]] dll_prev [OF d [unfolded uv]] dll_distinct [OF d] uv
      by (auto dest!: first_of_in last_of_in)
    have nx: "snext k' = (\<lambda>y. if y = t then None else if sprev k t = Some y then snext k t else snext k y)"
      and pv: "sprev k' = (\<lambda>y. if y = t then None else if snext k t = Some y then sprev k t else sprev k y)"
      and hd: "g_sleep_head k' = (if sprev k t = None then snext k t else g_sleep_head k)"
      and tl: "g_sleep_tail k' = (if snext k t = None then sprev k t else g_sleep_tail k)"
      using inq near unfolding k'_def
      by (auto simp: fun_eq_iff sleep_queue_remove_def Let_def kernel_simps split: option.splits)
    have "dll (snext k') (sprev k') (g_sleep_head k') (g_sleep_tail k') (remove1 t ss)"
      unfolding nx pv hd tl by (rule dll_remove1 [OF d True])
    moreover have "snext k' x = None \<and> sprev k' x = None" if "x \<notin> set (remove1 t ss)" for x
    proof -
      have "x = t \<or> x \<notin> set ss" using that dll_distinct [OF d] by auto
      moreover have "sprev k t \<noteq> Some x \<and> snext k t \<noteq> Some x" if "x \<notin> set ss"
        using that dll_next [OF d [unfolded uv]] dll_prev [OF d [unfolded uv]] uv by (auto dest!: first_of_in last_of_in)
      ultimately show ?thesis using sleep_list_out [OF s] by (auto simp: fun_cong [OF nx] fun_cong [OF pv])
    qed
    ultimately show ?thesis
      using sorted_remove1_map [OF sleep_list_sorted [OF s]] by (simp add: sleep_list_def only_sleepD(3) [OF only])
  qed
qed


lemma find_link_slist: "slist nxt xs \<Longrightarrow> find_link nxt P (first_of xs None) = Some (find P xs)"
  by (induction xs) (simp_all add: find_link.simps)

lemma find_link_dll: "dll nxt prv h t xs \<Longrightarrow> find_link nxt P h = Some (find P xs)"
  using find_link_slist [of nxt xs P] by (auto simp: dll_def dest: chain_slist)

lemma find_dropWhile: "find P xs = (case dropWhile (\<lambda>x. \<not> P x) xs of [] \<Rightarrow> None | x # _ \<Rightarrow> Some x)"
  by (induction xs) auto

lemma sorted_split_insert:
  fixes f :: "'a \<Rightarrow> 'b::linorder"
  shows "sorted (map f xs) \<Longrightarrow> sorted (map f (takeWhile (\<lambda>x. f x \<le> v) xs) @ v # map f (dropWhile (\<lambda>x. f x \<le> v) xs))"
proof (induction xs)
  case (Cons a xs)
  have le: "f a \<le> f y" if "y \<in> set xs" for y using Cons.prems that by simp
  show ?case
  proof (cases "f a \<le> v")
    case True
    then show ?thesis using Cons le by (auto dest: set_takeWhileD set_dropWhileD)
  next
    case False
    then have "v \<le> f y" if "y \<in> set xs" for y using le [OF that] by (meson le_cases order_trans)
    then show ?thesis using Cons.prems False by auto
  qed
qed simp

lemma sleep_queue_insert_sorted_ok:
  assumes s: "sleep_list k ss" and t: "t \<notin> set ss"
  defines "w \<equiv> wake_tick (threads k t)"
  defines "ss' \<equiv> takeWhile (\<lambda>x. wake_tick (threads k x) \<le> w) ss @ t # dropWhile (\<lambda>x. wake_tick (threads k x) \<le> w) ss"
  obtains k' where "sleep_queue_insert_sorted t k = Some k'" "sleep_list k' ss'" "only_sleep k k'"
proof -
  define us where "us = takeWhile (\<lambda>x. wake_tick (threads k x) \<le> w) ss"
  define vs where "vs = dropWhile (\<lambda>x. wake_tick (threads k x) \<le> w) ss"
  have split: "ss = us @ vs" and ss'_def: "ss' = us @ t # vs" by (simp_all add: us_def vs_def ss'_def)
  let ?k1 = "upd t (\<lambda>x. x\<lparr>sleep_prev := None, sleep_next := None\<rparr>) k"
  have idle: "sleep_queue_remove t k = k" using in_sleep_queue_iff [OF s] t by (simp add: sleep_queue_remove_def)
  have links: "snext ?k1 = snext k" "sprev ?k1 = sprev k" and wk: "wake_tick (threads ?k1 x) = wake_tick (threads k x)"
    and glob: "g_sleep_head ?k1 = g_sleep_head k" "g_sleep_tail ?k1 = g_sleep_tail k" for x
    using sleep_list_out [OF s t] by (auto simp: upd_def fun_eq_iff)
  have own: "snext ?k1 t = None" "sprev ?k1 t = None" by (simp_all add: upd_def)
  note d = sleep_list_dll [OF s]
  define cursor where "cursor = find (\<lambda>c. \<not> wake_tick (threads k c) \<le> w) ss"
  have cur: "cursor = (case vs of [] \<Rightarrow> None | c # _ \<Rightarrow> Some c)" unfolding cursor_def vs_def by (simp add: find_dropWhile)
  define k2 where "k2 = (if ss = [] then ?k1\<lparr>g_sleep_head := Some t, g_sleep_tail := Some t\<rparr> else sleep_queue_link t cursor ?k1)"
  have run: "sleep_queue_insert_sorted t k = Some k2"
  proof (cases ss)
    case Nil
    then show ?thesis using dll_head [OF d] glob by (simp add: sleep_queue_insert_sorted_def idle k2_def)
  next
    case (Cons h hs)
    have "find_link (snext ?k1) (\<lambda>c. \<not> wake_tick (threads ?k1 c) \<le> wake_tick (threads ?k1 t)) (Some h) = Some cursor"
      using find_link_dll [OF d] dll_head [OF d] Cons unfolding links wk cursor_def w_def by simp
    then show ?thesis using dll_head [OF d] glob Cons by (simp add: sleep_queue_insert_sorted_def idle k2_def)
  qed
  have only: "only_sleep k k2" unfolding k2_def
    by (intro only_sleep_rules only_sleep_trans [OF _ only_sleep_link]) (simp_all add: sleep_rest_def)
  have dl: "dll (snext k2) (sprev k2) (g_sleep_head k2) (g_sleep_tail k2) ss'
      \<and> (\<forall>x. x \<notin> set ss' \<longrightarrow> snext k2 x = None \<and> sprev k2 x = None)"
  proof (cases vs)
    case Nil
    then have us: "us = ss" and c: "cursor = None" and ss': "ss' = ss @ [t]" using split cur by (simp_all add: ss'_def)
    have tl: "g_sleep_tail k = last_of None ss" by (rule dll_tail [OF d])
    have nx: "snext k2 = (\<lambda>y. if y = t then None else if g_sleep_tail k = Some y then Some t else snext k y)"
      and pv: "sprev k2 = (\<lambda>y. if y = t then g_sleep_tail k else sprev k y)"
      and hd: "g_sleep_head k2 = (if g_sleep_tail k = None then Some t else g_sleep_head k)" and "g_sleep_tail k2 = Some t"
      using tl t c dll_head [OF d] sleep_list_out [OF s t]
      by (auto simp: k2_def fun_eq_iff sleep_queue_link_def Let_def upd_def split: option.splits dest!: last_of_in)
    moreover have "x \<notin> set ss \<Longrightarrow> g_sleep_tail k \<noteq> Some x" for x using tl by (auto dest!: last_of_in)
    ultimately show ?thesis using dll_append1 [OF d t] sleep_list_out [OF s] unfolding ss'
      by (simp add: fun_cong [OF nx] fun_cong [OF pv])
  next
    case (Cons c cs)
    have ne: "ss \<noteq> []" and c: "cursor = Some c" and ss': "ss' = us @ t # c # cs" and uv: "ss = us @ c # cs"
      using Cons split cur by (auto simp: ss'_def)
    have pc: "sprev k c = last_of None us" using dll_prev [OF d [unfolded uv]] by (simp only: uv [symmetric])
    have cin: "c \<in> set ss" by (subst uv) simp
    have nx: "snext k2 = (\<lambda>y. if y = t then Some c else if sprev k c = Some y then Some t else snext k y)"
      and pv: "sprev k2 = (\<lambda>y. if y = t then sprev k c else if y = c then Some t else sprev k y)"
      and hd: "g_sleep_head k2 = (if sprev k c = None then Some t else g_sleep_head k)" and "g_sleep_tail k2 = g_sleep_tail k"
      using pc t c cin ne split
      by (auto simp: k2_def fun_eq_iff sleep_queue_link_def Let_def upd_def split: option.splits dest!: last_of_in)
    moreover have "dll (snext k2) (sprev k2) (g_sleep_head k2) (g_sleep_tail k2) (us @ t # c # cs)"
      unfolding calculation(1-4) by (rule dll_insert_before [OF d [unfolded uv]]) (use t uv in auto)
    moreover have "snext k2 x = None \<and> sprev k2 x = None" if "x \<notin> set ss'" for x
    proof -
      have x: "x \<notin> set ss" "x \<noteq> t" "x \<noteq> c" using that uv unfolding ss' by auto
      then have "sprev k c \<noteq> Some x" using pc split by (auto dest!: last_of_in)
      then show ?thesis using sleep_list_out [OF s x(1)] x by (simp add: fun_cong [OF nx] fun_cong [OF pv])
    qed
    ultimately show ?thesis unfolding ss' by blast
  qed
  have "sorted (map (\<lambda>x. wake_tick (threads k x)) ss')"
    using sorted_split_insert [OF sleep_list_sorted [OF s], of w] by (simp add: ss'_def w_def us_def vs_def)
  then have "sleep_list k2 ss'" using dl by (simp add: sleep_list_def only_sleepD(3) [OF only])
  then show ?thesis using that run only by blast
qed

end
