(* ===== verification/Kernel_Process.thy ===== *)
theory Kernel_Process
  imports Kernel_Sched
begin

text \<open>
  The registries of threads, processes and kernel objects: \<^verbatim>\<open>src/kernel/thread.cpp\<close>,
  \<^verbatim>\<open>src/kernel/process.cpp\<close> and \<^verbatim>\<open>src/kernel/object.cpp\<close>. Destroying a thread may destroy its process and
  destroying a process destroys its threads: one recursive function over the jobs \<open>destroy_job\<close>. What the
  memory manager answers when an address space is made is an argument.
\<close>

section \<open>Kernel objects\<close>

definition header_of :: "Kernel \<Rightarrow> object_ptr \<Rightarrow> ObjectHeader" where
  "header_of k obj =
     (case obj of ThreadObject t \<Rightarrow> thread_header (threads k t) | ProcessObject p \<Rightarrow> process_header (processes k p)
                | OtherObject x \<Rightarrow> other_objects k x)"

definition set_header :: "object_ptr \<Rightarrow> ObjectHeader \<Rightarrow> Kernel \<Rightarrow> Kernel" where
  "set_header obj h k =
     (case obj of ThreadObject t \<Rightarrow> upd t (\<lambda>x. x\<lparr>thread_header := h\<rparr>) k
                | ProcessObject p \<Rightarrow> updp p (\<lambda>x. x\<lparr>process_header := h\<rparr>) k
                | OtherObject x \<Rightarrow> k\<lparr>other_objects := (other_objects k)(x := h)\<rparr>)"

definition object_init :: "Kernel \<Rightarrow> Status \<times> Kernel" where
  "object_init k = (StatusOK, k\<lparr>g_objects := empty_list\<rparr>)"

definition register_object :: "object_ptr \<Rightarrow> Kernel \<Rightarrow> (Status \<times> Kernel) option" where
  "register_object obj k =
     (if obj \<in> set (items (g_objects k)) then Some (StatusAlreadyExists, k)
      else do {
        ((status, l), k) \<leftarrow> heap_list_append obj (g_objects k) k;
        Some (status, k\<lparr>g_objects := l\<rparr>) })"

definition unregister_object :: "object_ptr \<Rightarrow> Kernel \<Rightarrow> Status \<times> Kernel" where
  "unregister_object obj k =
     (let i = first_index (\<lambda>x. x = obj) (g_objects k)
      in if i < length (items (g_objects k)) then (StatusOK, k\<lparr>g_objects := remove_at i (g_objects k)\<rparr>)
         else (StatusNotFound, k))"

definition find_object :: "ObjectType \<Rightarrow> u64 \<Rightarrow> Kernel \<Rightarrow> object_ptr option" where
  "find_object type oid k =
     find (\<lambda>x. object_type (header_of k x) = type \<and> object_id (header_of k x) = oid) (items (g_objects k))"

definition reference_object :: "object_ptr \<Rightarrow> Kernel \<Rightarrow> Status \<times> Kernel" where
  "reference_object obj k = (StatusOK, set_header obj (object_ref (header_of k obj)) k)"

definition object_count :: "Kernel \<Rightarrow> nat" where
  "object_count k = length (items (g_objects k))"

section \<open>The thread registry\<close>

definition contains_thread :: "ptr \<Rightarrow> Kernel \<Rightarrow> bool option" where
  "contains_thread t k = do {
     found \<leftarrow> find_link (\<lambda>x. thread_next (threads k x)) (\<lambda>x. x = t) (g_thread_head k);
     Some (found \<noteq> None) }"

definition find_thread :: "u64 \<Rightarrow> Kernel \<Rightarrow> ptr option option" where
  "find_thread i k = find_link (\<lambda>x. thread_next (threads k x)) (\<lambda>x. thread_id (threads k x) = i) (g_thread_head k)"

definition release_thread_slot :: "ptr \<Rightarrow> Kernel \<Rightarrow> Kernel" where
  "release_thread_slot t k = call (FreeThread t) (upd t (\<lambda>_. zero_thread) k)"

definition link_thread :: "ptr \<Rightarrow> Kernel \<Rightarrow> Kernel" where
  "link_thread t k =
     (let k = upd t (\<lambda>x. x\<lparr>thread_prev := g_thread_tail k, thread_next := None\<rparr>) k;
          k = (case g_thread_tail k of
                 Some l \<Rightarrow> upd l (\<lambda>x. x\<lparr>thread_next := Some t\<rparr>) k
               | None \<Rightarrow> k\<lparr>g_thread_head := Some t\<rparr>)
      in k\<lparr>g_thread_tail := Some t\<rparr>)"

definition unlink_thread :: "ptr \<Rightarrow> Kernel \<Rightarrow> Kernel" where
  "unlink_thread t k =
     (let nx = thread_next (threads k t); pv = thread_prev (threads k t);
          k = (case pv of Some p \<Rightarrow> upd p (\<lambda>x. x\<lparr>thread_next := nx\<rparr>) k | None \<Rightarrow> k\<lparr>g_thread_head := nx\<rparr>);
          k = (case nx of Some n \<Rightarrow> upd n (\<lambda>x. x\<lparr>thread_prev := pv\<rparr>) k | None \<Rightarrow> k\<lparr>g_thread_tail := pv\<rparr>)
      in upd t (\<lambda>x. x\<lparr>thread_next := None, thread_prev := None\<rparr>) k)"

definition thread_init :: "Kernel \<Rightarrow> Status \<times> Kernel" where
  "thread_init k = (StatusOK, k\<lparr>g_thread_count := 0, g_next_thread_id := 1, g_thread_head := None, g_thread_tail := None\<rparr>)"

section \<open>The process registry\<close>

definition contains_process :: "ptr \<Rightarrow> Kernel \<Rightarrow> bool option" where
  "contains_process p k = do {
     found \<leftarrow> find_link (\<lambda>x. next_process (processes k x)) (\<lambda>x. x = p) (process_head k);
     Some (found \<noteq> None) }"

definition find_process :: "u64 \<Rightarrow> Kernel \<Rightarrow> ptr option option" where
  "find_process i k = find_link (\<lambda>x. next_process (processes k x)) (\<lambda>x. process_id (processes k x) = i) (process_head k)"

definition find_process_by_name :: "string \<Rightarrow> Kernel \<Rightarrow> ptr option option" where
  "find_process_by_name name k =
     find_link (\<lambda>x. next_process (processes k x)) (\<lambda>x. process_name (processes k x) = name) (process_head k)"

definition release_process_slot :: "ptr \<Rightarrow> Kernel \<Rightarrow> Kernel" where
  "release_process_slot p k = call (FreeProcess p) (updp p (\<lambda>_. zero_process) k)"

definition link_process :: "ptr \<Rightarrow> Kernel \<Rightarrow> Kernel" where
  "link_process p k =
     (let k = updp p (\<lambda>x. x\<lparr>prev_process := process_tail k, next_process := None\<rparr>) k;
          k = (case process_tail k of
                 Some l \<Rightarrow> updp l (\<lambda>x. x\<lparr>next_process := Some p\<rparr>) k
               | None \<Rightarrow> k\<lparr>process_head := Some p\<rparr>)
      in k\<lparr>process_tail := Some p\<rparr>)"

definition unlink_process :: "ptr \<Rightarrow> Kernel \<Rightarrow> Kernel" where
  "unlink_process p k =
     (let nx = next_process (processes k p); pv = prev_process (processes k p);
          k = (case pv of Some l \<Rightarrow> updp l (\<lambda>x. x\<lparr>next_process := nx\<rparr>) k | None \<Rightarrow> k\<lparr>process_head := nx\<rparr>);
          k = (case nx of Some n \<Rightarrow> updp n (\<lambda>x. x\<lparr>prev_process := pv\<rparr>) k | None \<Rightarrow> k\<lparr>process_tail := pv\<rparr>)
      in updp p (\<lambda>x. x\<lparr>next_process := None, prev_process := None\<rparr>) k)"

definition process_init :: "Kernel \<Rightarrow> Status \<times> Kernel" where
  "process_init k =
     (StatusOK, k\<lparr>process_count_value := 0, next_pid := 1, process_head := None, process_tail := None, exit_records := empty_list\<rparr>)"

definition attach_thread :: "ptr \<Rightarrow> ptr \<Rightarrow> Kernel \<Rightarrow> (Status \<times> Kernel) option" where
  "attach_thread p t k = do {
     known \<leftarrow> contains_process p k;
     if \<not> known then Some (StatusNotFound, k)
     else if thread_parent (threads k t) = Some p then Some (StatusAlreadyExists, k)
     else if thread_parent (threads k t) \<noteq> None then Some (StatusBusy, k)
     else
       let l = thread_list_tail (processes k p);
           k = upd t (\<lambda>x. x\<lparr>thread_parent := Some p, process_prev := l, process_next := None\<rparr>) k;
           k = (case l of Some l \<Rightarrow> upd l (\<lambda>x. x\<lparr>process_next := Some t\<rparr>) k
                        | None \<Rightarrow> updp p (\<lambda>x. x\<lparr>thread_list_head := Some t\<rparr>) k);
           k = updp p (\<lambda>x. x\<lparr>thread_list_tail := Some t\<rparr>) k;
           k = updp p (\<lambda>x. if main_thread x = None then x\<lparr>main_thread := Some t\<rparr> else x) k
       in Some (StatusOK, updp p (\<lambda>x. x\<lparr>thread_count := thread_count x + 1\<rparr>) k) }"

definition detach_thread :: "ptr \<Rightarrow> ptr \<Rightarrow> Kernel \<Rightarrow> Status \<times> Kernel" where
  "detach_thread p t k =
     (if thread_parent (threads k t) \<noteq> Some p then (StatusNotFound, k)
      else
        let nx = process_next (threads k t); pv = process_prev (threads k t);
            k = (case pv of Some l \<Rightarrow> upd l (\<lambda>x. x\<lparr>process_next := nx\<rparr>) k
                          | None \<Rightarrow> updp p (\<lambda>x. x\<lparr>thread_list_head := nx\<rparr>) k);
            k = (case nx of Some n \<Rightarrow> upd n (\<lambda>x. x\<lparr>process_prev := pv\<rparr>) k
                          | None \<Rightarrow> updp p (\<lambda>x. x\<lparr>thread_list_tail := pv\<rparr>) k);
            k = upd t (\<lambda>x. x\<lparr>thread_parent := None, process_next := None, process_prev := None\<rparr>) k;
            k = updp p (\<lambda>x. if main_thread x = Some t then x\<lparr>main_thread := thread_list_head x\<rparr> else x) k
        in (StatusOK, updp p (\<lambda>x. if thread_count x \<noteq> 0 then x\<lparr>thread_count := thread_count x - 1\<rparr> else x) k))"

section \<open>Creating threads\<close>

definition undo_create :: "ptr \<Rightarrow> Kernel \<Rightarrow> Kernel" where
  "undo_create t k =
     (let k = (case kernel_stack_backing (threads k t) of Some s \<Rightarrow> call (FreeStack s) k | None \<Rightarrow> k)
      in release_thread_slot t (upd t (\<lambda>x. x\<lparr>kernel_stack_backing := None\<rparr>) k))"

text \<open>From the registration of the object to the end: shared by the three ways to make a thread.\<close>

definition publish_created :: "waker \<Rightarrow> ptr \<Rightarrow> ptr \<Rightarrow> Kernel \<Rightarrow> ((Status \<times> ptr option) \<times> Kernel) option" where
  "publish_created wake p t k = do {
     (status, k) \<leftarrow> register_object (ThreadObject t) k;
     if status \<noteq> StatusOK then Some ((status, None), undo_create t k)
     else do {
       let k = link_thread t k;
       let k = k\<lparr>g_thread_count := g_thread_count k + 1\<rparr>;
       (status, k) \<leftarrow> attach_thread p t k;
       if status \<noteq> StatusOK then
         let k = unlink_thread t k;
             k = k\<lparr>g_thread_count := g_thread_count k - 1\<rparr>;
             k = snd (unregister_object (ThreadObject t) k)
         in Some ((status, None), undo_create t k)
       else do {
         k \<leftarrow> publish_thread_event wake KernelEventTypeThreadCreated t ThreadInitialized (thread_state (threads k t)) k;
         Some ((StatusOK, Some t), k) } } }"

definition new_thread :: "u32 \<Rightarrow> ThreadState \<Rightarrow> u8 \<Rightarrow> u32 \<Rightarrow> string \<Rightarrow> u64 \<Rightarrow> Thread" where
  "new_thread flags state priority quantum name i =
     zero_thread\<lparr>thread_header := \<lparr>object_type = ObjectThread, object_flags = flags, object_id = i, object_refs = 1\<rparr>,
       thread_id := i, thread_state := state, base_priority := priority, current_priority := priority,
       quantum_ticks := quantum, quantum_ticks_remaining := quantum, thread_name := name\<rparr>"

definition allocate_thread :: "Thread \<Rightarrow> Kernel \<Rightarrow> (Status + ptr) \<times> Kernel" where
  "allocate_thread x k =
     (let (slot, k) = heap_alloc k
      in case slot of
           None \<Rightarrow> (Inl StatusNoMemory, k)
         | Some t \<Rightarrow> (Inr t, upd t (\<lambda>_. x) (k\<lparr>g_next_thread_id := g_next_thread_id k + 1\<rparr>)))"

definition allocate_stack :: "ptr \<Rightarrow> Kernel \<Rightarrow> bool \<times> Kernel" where
  "allocate_stack t k =
     (let (stack, k) = heap_alloc k
      in case stack of
           None \<Rightarrow> (False, release_thread_slot t k)
         | Some s \<Rightarrow> (True, upd t (\<lambda>x. x\<lparr>kernel_stack_backing := Some s\<rparr>) k))"

definition create_thread ::
    "waker \<Rightarrow> ptr option \<Rightarrow> string option \<Rightarrow> u64 \<Rightarrow> u8 \<Rightarrow> u32 \<Rightarrow> Kernel \<Rightarrow> ((Status \<times> ptr option) \<times> Kernel) option" where
  "create_thread wake parent name entry priority quantum k =
     (case parent of
        None \<Rightarrow> Some ((StatusInvalidArgument, None), k)
      | Some p \<Rightarrow>
          if entry = 0 then Some ((StatusInvalidArgument, None), k)
          else if ThreadPriorityLevelCount \<le> priority \<or> quantum = 0 then Some ((StatusInvalidArgument, None), k)
          else do {
            found \<leftarrow> find_process (process_id (processes k p)) k;
            if found \<noteq> Some p then Some ((StatusNotFound, None), k)
            else
              let (slot, k) = allocate_thread (new_thread ObjectFlagsKernel ThreadReady priority quantum
                                                 (copy_text 32 name ''thread'') (g_next_thread_id k)) k
              in case slot of
                   Inl status \<Rightarrow> Some ((status, None), k)
                 | Inr t \<Rightarrow>
                     let (ok, k) = allocate_stack t k
                     in if \<not> ok then Some ((StatusNoMemory, None), k)
                        else publish_created wake p t
                          (upd t (\<lambda>x. x\<lparr>thread_context := (thread_context x)\<lparr>user_stack_pointer := 0, kernel_chain := KernelEntry entry\<rparr>\<rparr>) k) })"

definition adopt_current_thread ::
    "waker \<Rightarrow> ptr option \<Rightarrow> string option \<Rightarrow> Kernel \<Rightarrow> ((Status \<times> ptr option) \<times> Kernel) option" where
  "adopt_current_thread wake parent name k =
     (case parent of
        None \<Rightarrow> Some ((StatusInvalidArgument, None), k)
      | Some p \<Rightarrow> do {
          found \<leftarrow> find_process (process_id (processes k p)) k;
          if found \<noteq> Some p then Some ((StatusNotFound, None), k)
          else
            let (slot, k) = allocate_thread (new_thread ObjectFlagsKernel ThreadRunning ThreadPriorityNormal ThreadDefaultQuantumTicks
                                               (copy_text 32 name ''boot'') (g_next_thread_id k)) k
            in case slot of
                 Inl status \<Rightarrow> Some ((status, None), k)
               | Inr t \<Rightarrow> publish_created wake p t k })"

definition create_user_thread ::
    "waker \<Rightarrow> ptr option \<Rightarrow> string option \<Rightarrow> u64 \<Rightarrow> u64 \<Rightarrow> u8 \<Rightarrow> u32 \<Rightarrow> Kernel \<Rightarrow> ((Status \<times> ptr option) \<times> Kernel) option" where
  "create_user_thread wake parent name entry stack_top priority quantum k =
     (case parent of
        None \<Rightarrow> Some ((StatusInvalidArgument, None), k)
      | Some p \<Rightarrow>
          if stack_top = 0 then Some ((StatusInvalidArgument, None), k)
          else if ThreadPriorityLevelCount \<le> priority \<or> quantum = 0 then Some ((StatusInvalidArgument, None), k)
          else do {
            found \<leftarrow> find_process (process_id (processes k p)) k;
            if found \<noteq> Some p then Some ((StatusNotFound, None), k)
            else
              let (slot, k) = allocate_thread ((new_thread ObjectFlagsNone ThreadReady priority quantum
                                                 (copy_text 32 name ''user'') (g_next_thread_id k))\<lparr>user_stack_top := stack_top\<rparr>) k
              in case slot of
                   Inl status \<Rightarrow> Some ((status, None), k)
                 | Inr t \<Rightarrow>
                     let (ok, k) = allocate_stack t k
                     in if \<not> ok then Some ((StatusNoMemory, None), k)
                        else publish_created wake p t
                          (upd t (\<lambda>x. x\<lparr>thread_context := (thread_context x)\<lparr>user_stack_pointer := stack_top, program_counter := entry,
                                                         processor_state := CpuContextUserModeFlag\<rparr>\<rparr>) k) })"

end
