(* ===== verification/Kernel_Teardown.thy ===== *)
theory Kernel_Teardown
  imports Kernel_Process
begin

text \<open>
  Processes from creation to the last trace of them: the rest of \<^verbatim>\<open>src/kernel/process.cpp\<close>,
  \<open>ThreadManager::destroy_thread\<close> of \<^verbatim>\<open>src/kernel/thread.cpp\<close> and the reference counts of
  \<^verbatim>\<open>src/kernel/object.cpp\<close>. Releasing surfaces, mappings, heap pages and translation tables belongs to
  other subsystems; the calls are recorded.
\<close>

section \<open>Creating processes\<close>

definition new_process :: "bool \<Rightarrow> string option \<Rightarrow> u64 \<Rightarrow> Process" where
  "new_process user_process name i =
     zero_process\<lparr>process_header := \<lparr>object_type = ObjectProcess,
         object_flags = (if user_process then ObjectFlagsNone else ObjectFlagsKernel), object_id = i, object_refs = 1\<rparr>,
       process_id := i, process_state := ProcessCreated,
       user_stack_slot_bytes := (if user_process then 0x40000 else 0),
       user_heap_base := (if user_process then 0x20000000 else 0),
       user_heap_reserved_bytes := (if user_process then 0x20000000 else 0),
       process_name := copy_text 32 name (if user_process then ''user'' else ''process'')\<rparr>"

definition create_process_with_mode ::
    "waker \<Rightarrow> Status + AddressSpace \<Rightarrow> AddressSpace option \<Rightarrow> string option \<Rightarrow> bool \<Rightarrow> Kernel \<Rightarrow> ((Status \<times> ptr option) \<times> Kernel) option" where
  "create_process_with_mode wake user_space bootstrap_space name user_process k =
     (let (slot, k) = heap_alloc k
      in case slot of
           None \<Rightarrow> Some ((StatusNoSpace, None), k)
         | Some p \<Rightarrow>
             let k = updp p (\<lambda>_. new_process user_process name (next_pid k)) (k\<lparr>next_pid := next_pid k + 1\<rparr>);
                 space = (if user_process then user_space
                          else case bootstrap_space of Some s \<Rightarrow> Inr s | None \<Rightarrow> Inr (process_address_space (processes k p)))
             in case space of
                  Inl status \<Rightarrow> Some ((status, None), release_process_slot p k)
                | Inr s \<Rightarrow>
                    let k = updp p (\<lambda>x. x\<lparr>process_address_space := s\<lparr>asid := ucast (process_id x AND 0xFFFF)\<rparr>\<rparr>) k
                    in do {
                      (status, k) \<leftarrow> register_object (ProcessObject p) k;
                      if status \<noteq> StatusOK then
                        let k = (if user_process then call (DestroyAddressSpace p) k else k)
                        in Some ((status, None), release_process_slot p k)
                      else do {
                        let k = link_process p k;
                        let k = k\<lparr>process_count_value := process_count_value k + 1\<rparr>;
                        k \<leftarrow> publish_process_event wake KernelEventTypeProcessCreated p k;
                        Some ((StatusOK, Some p), k) } })"

section \<open>Destroying threads and processes\<close>

definition release_user_stack :: "ptr \<Rightarrow> ptr \<Rightarrow> Kernel \<Rightarrow> Kernel" where
  "release_user_stack p t k =
     (let x = threads k t
      in case user_stack_backing x of
           None \<Rightarrow> k
         | Some backing \<Rightarrow>
             if user_stack_bytes x \<noteq> 0 \<and> user_stack_bytes x \<le> user_stack_top x then
               let k = call (MmUnmap p (user_stack_top x - user_stack_bytes x) (user_stack_bytes x)) k;
                   k = upd t (\<lambda>x. x\<lparr>user_stack_backing := None\<rparr>) (call (ResourceRelease backing) k);
                   k = (if user_stack_slot_index x < 32
                        then updp p (\<lambda>y. y\<lparr>user_stack_slot_bitmap :=
                               user_stack_slot_bitmap y AND NOT (push_bit (unat (user_stack_slot_index x)) 1)\<rparr>) k
                        else k)
               in upd t (\<lambda>x. x\<lparr>user_stack_bytes := 0, user_stack_slot_index := 0\<rparr>) k
             else k)"

definition drop_thread :: "ptr \<Rightarrow> Kernel \<Rightarrow> Kernel" where
  "drop_thread t k =
     (let k = unlink_thread t k;
          k = (if g_thread_count k \<noteq> 0 then k\<lparr>g_thread_count := g_thread_count k - 1\<rparr> else k);
          k = snd (unregister_object (ThreadObject t) k);
          k = (case kernel_stack_backing (threads k t) of
                 Some s \<Rightarrow> upd t (\<lambda>x. x\<lparr>kernel_stack_backing := None\<rparr>) (call (FreeStack s) k)
               | None \<Rightarrow> k)
      in release_thread_slot t k)"

text \<open>\<open>destroy_thread\<close> up to the release of the slot: an early return, or the process that owned the thread.\<close>

definition destroy_thread_body :: "waker \<Rightarrow> ptr \<Rightarrow> Kernel \<Rightarrow> ((Status + ptr option) \<times> Kernel) option" where
  "destroy_thread_body wake t k = do {
     known \<leftarrow> contains_thread t k;
     if \<not> known then Some (Inl StatusNotFound, k)
     else do {
       let previous = thread_state (threads k t);
       let k = upd t (\<lambda>x. x\<lparr>thread_state := ThreadTerminated\<rparr>) (forget t k);
       k \<leftarrow> publish_thread_event wake KernelEventTypeThreadExited t previous ThreadTerminated k;
       case thread_parent (threads k t) of
         None \<Rightarrow> Some (Inr None, drop_thread t k)
       | Some p \<Rightarrow>
           let (status, k) = detach_thread p t (release_user_stack p t k)
           in if status \<noteq> StatusOK then Some (Inl status, k) else Some (Inr (Some p), drop_thread t k) } }"

definition remember_exit_status :: "ptr \<Rightarrow> Kernel \<Rightarrow> Kernel option" where
  "remember_exit_status p k =
     (let x = processes k p;
          same = (\<lambda>r. exit_process_id r = process_id x \<and> exit_parent_id r = parent_process_id x);
          i = first_index same (exit_records k)
      in if parent_process_id x = 0 then Some k
         else if i < length (items (exit_records k)) then
           Some (k\<lparr>exit_records := (exit_records k)\<lparr>items := (items (exit_records k))[i := (items (exit_records k) ! i)\<lparr>exit_status := exit_code x\<rparr>]\<rparr>\<rparr>)
         else do {
           ((_, l), k) \<leftarrow> heap_list_append \<lparr>exit_process_id = process_id x, exit_parent_id = parent_process_id x, exit_status = exit_code x\<rparr>
                           (exit_records k) k;
           Some (k\<lparr>exit_records := l\<rparr>) })"

partial_function (option) orphan_loop :: "u64 \<Rightarrow> ptr option \<Rightarrow> Kernel \<Rightarrow> Kernel option" where
  "orphan_loop launcher cursor k =
     (case cursor of
        None \<Rightarrow> Some k
      | Some p \<Rightarrow>
          let k = (if parent_process_id (processes k p) = launcher
                   then updp p (\<lambda>x. x\<lparr>parent_process_id := 0, parent_process := None\<rparr>) k else k)
          in orphan_loop launcher (next_process (processes k p)) k)"

definition orphan_launched_processes :: "u64 \<Rightarrow> Kernel \<Rightarrow> Kernel option" where
  "orphan_launched_processes launcher k = (if launcher = 0 then Some k else orphan_loop launcher (process_head k) k)"

definition collect_process_resources :: "ptr \<Rightarrow> Kernel \<Rightarrow> Kernel" where
  "collect_process_resources p k =
     (if object_has_flag (object_flags (process_header (processes k p))) ObjectFlagsKernel then k
      else updp p (\<lambda>x. x\<lparr>handles := None\<rparr>)
             (call (DestroyAddressSpace p) (call (ReleaseLoaderResources p) (call (ReleaseUserHeap p)
               (call (ReleaseFileMappings p) (call (ReleaseSharedMemory p) (call (ReleaseSurfaces p) k)))))))"

text \<open>\<open>destroy_process\<close> from the point where its threads are gone.\<close>

definition process_gone :: "waker \<Rightarrow> u64 \<Rightarrow> ptr \<Rightarrow> Kernel \<Rightarrow> (Status \<times> Kernel) option" where
  "process_gone wake exiting p k = do {
     k \<leftarrow> publish_process_event wake KernelEventTypeProcessExited p k;
     k \<leftarrow> remember_exit_status p k;
     k \<leftarrow> orphan_launched_processes exiting k;
     let k = unlink_process p k;
     let k = (if process_count_value k \<noteq> 0 then k\<lparr>process_count_value := process_count_value k - 1\<rparr> else k);
     let k = collect_process_resources p k;
     let k = (case launch_arguments (processes k p) of
                Some a \<Rightarrow> updp p (\<lambda>x. x\<lparr>launch_arguments := None\<rparr>) (call (FreeArguments a) k)
              | None \<Rightarrow> k);
     let k = snd (unregister_object (ProcessObject p) k);
     k \<leftarrow> unsubscribe_process wake (process_id (processes k p)) k;
     Some (StatusOK, release_process_slot p k) }"

datatype destroy_job = DestroyThread ptr | DestroyProcess ptr | DestroyThreads ptr

partial_function (option) destroy :: "waker \<Rightarrow> destroy_job \<Rightarrow> Kernel \<Rightarrow> (Status \<times> Kernel) option" where
  "destroy wake job k =
     (case job of
        DestroyThread t \<Rightarrow> do {
          (r, k) \<leftarrow> destroy_thread_body wake t k;
          case r of
            Inl status \<Rightarrow> Some (status, k)
          | Inr None \<Rightarrow> Some (StatusOK, k)
          | Inr (Some p) \<Rightarrow>
              if thread_count (processes k p) = 0 \<and> process_state (processes k p) \<noteq> ProcessTerminated
                 \<and> \<not> object_has_flag (object_flags (process_header (processes k p))) ObjectFlagsPermanent
              then do { (_, k) \<leftarrow> destroy wake (DestroyProcess p) k; Some (StatusOK, k) }
              else Some (StatusOK, k) }
      | DestroyProcess p \<Rightarrow> do {
          known \<leftarrow> contains_process p k;
          if \<not> known then Some (StatusNotFound, k)
          else do {
            let exiting = process_id (processes k p);
            (status, k) \<leftarrow> destroy wake (DestroyThreads p) (updp p (\<lambda>x. x\<lparr>process_state := ProcessTerminated\<rparr>) k);
            if status \<noteq> StatusOK then Some (status, k) else process_gone wake exiting p k } }
      | DestroyThreads p \<Rightarrow>
          (case thread_list_head (processes k p) of
             None \<Rightarrow> Some (StatusOK, k)
           | Some t \<Rightarrow> do {
               (status, k) \<leftarrow> destroy wake (DestroyThread t) k;
               if status \<noteq> StatusOK then Some (status, k) else destroy wake (DestroyThreads p) k }))"

definition destroy_thread :: "waker \<Rightarrow> ptr \<Rightarrow> Kernel \<Rightarrow> (Status \<times> Kernel) option" where
  "destroy_thread wake t = destroy wake (DestroyThread t)"

definition destroy_process :: "waker \<Rightarrow> ptr \<Rightarrow> Kernel \<Rightarrow> (Status \<times> Kernel) option" where
  "destroy_process wake p = destroy wake (DestroyProcess p)"

definition terminate_thread :: "waker \<Rightarrow> u64 \<Rightarrow> Kernel \<Rightarrow> (Status \<times> Kernel) option" where
  "terminate_thread wake i k = do {
     found \<leftarrow> find_thread i k;
     case found of None \<Rightarrow> Some (StatusNotFound, k) | Some t \<Rightarrow> destroy_thread wake t k }"

definition terminate_process :: "waker \<Rightarrow> u64 \<Rightarrow> u64 \<Rightarrow> Kernel \<Rightarrow> (Status \<times> Kernel) option" where
  "terminate_process wake i code k = do {
     found \<leftarrow> find_process i k;
     case found of
       None \<Rightarrow> Some (StatusNotFound, k)
     | Some p \<Rightarrow> destroy_process wake p (updp p (\<lambda>x. x\<lparr>process_state := ProcessExiting, exit_code := code\<rparr>) k) }"

definition consume_exit_status :: "u64 \<Rightarrow> u64 \<Rightarrow> Kernel \<Rightarrow> (Status \<times> u64 option) \<times> Kernel" where
  "consume_exit_status i parent k =
     (let n = first_index (\<lambda>r. exit_process_id r = i \<and> exit_parent_id r = parent) (exit_records k)
      in if n < length (items (exit_records k))
         then ((StatusOK, Some (exit_status (items (exit_records k) ! n))), k\<lparr>exit_records := remove_at n (exit_records k)\<rparr>)
         else ((StatusNotFound, None), k))"

section \<open>Process trees\<close>

partial_function (option) tree_walk :: "Kernel \<Rightarrow> ptr \<Rightarrow> u64 \<Rightarrow> u64 \<Rightarrow> bool option" where
  "tree_walk k p root cursor =
     (if cursor = 0 then Some False
      else do {
        parent \<leftarrow> find_process cursor k;
        if cursor = root then Some True
        else (case parent of
                None \<Rightarrow> Some False
              | Some q \<Rightarrow> if q = p then Some False else tree_walk k p root (parent_process_id (processes k q))) })"

definition process_is_in_tree :: "Kernel \<Rightarrow> ptr \<Rightarrow> u64 \<Rightarrow> bool option" where
  "process_is_in_tree k p root =
     (if root = 0 then Some False
      else if process_id (processes k p) = root then Some True
      else tree_walk k p root (parent_process_id (processes k p)))"

definition is_permanent :: "Kernel \<Rightarrow> ptr \<Rightarrow> bool" where
  "is_permanent k p \<longleftrightarrow> object_has_flag (object_flags (process_header (processes k p))) ObjectFlagsPermanent"

definition mark_exiting :: "u64 \<Rightarrow> Process \<Rightarrow> Process" where
  "mark_exiting code x =
     x\<lparr>exit_code := code, process_state := (if process_state x \<noteq> ProcessTerminated then ProcessExiting else process_state x)\<rparr>"

partial_function (option) mark_loop :: "u64 \<Rightarrow> u64 \<Rightarrow> ptr option \<Rightarrow> nat \<Rightarrow> Kernel \<Rightarrow> (nat \<times> Kernel) option" where
  "mark_loop root code cursor marked k =
     (case cursor of
        None \<Rightarrow> Some (marked, k)
      | Some p \<Rightarrow> do {
          inside \<leftarrow> process_is_in_tree k p root;
          if \<not> inside \<or> is_permanent k p then mark_loop root code (next_process (processes k p)) marked k
          else let k = updp p (mark_exiting code) k
               in mark_loop root code (next_process (processes k p)) (Suc marked) k })"

definition mark_process_tree_for_exit :: "u64 \<Rightarrow> u64 \<Rightarrow> Kernel \<Rightarrow> (nat \<times> Kernel) option" where
  "mark_process_tree_for_exit root code k = mark_loop root code (process_head k) 0 k"

partial_function (option) terminate_loop :: "waker \<Rightarrow> u64 \<Rightarrow> u64 \<Rightarrow> ptr option \<Rightarrow> Kernel \<Rightarrow> Kernel option" where
  "terminate_loop wake root exempt cursor k =
     (case cursor of
        None \<Rightarrow> Some k
      | Some p \<Rightarrow>
          let nx = next_process (processes k p)
          in do {
            inside \<leftarrow> process_is_in_tree k p root;
            if \<not> inside \<or> process_id (processes k p) = exempt \<or> is_permanent k p then terminate_loop wake root exempt nx k
            else do { (_, k) \<leftarrow> destroy_process wake p k; terminate_loop wake root exempt nx k } })"

definition terminate_process_tree :: "waker \<Rightarrow> u64 \<Rightarrow> u64 \<Rightarrow> u64 \<Rightarrow> Kernel \<Rightarrow> (Status \<times> Kernel) option" where
  "terminate_process_tree wake root code exempt k = do {
     found \<leftarrow> find_process root k;
     case found of
       None \<Rightarrow> Some (StatusNotFound, k)
     | Some r \<Rightarrow>
         if is_permanent k r then Some (StatusBusy, k)
         else do {
           (marked, k) \<leftarrow> mark_process_tree_for_exit root code k;
           if marked = 0 then Some (StatusNotFound, k)
           else do { k \<leftarrow> terminate_loop wake root exempt (process_head k) k; Some (StatusOK, k) } } }"

partial_function (option) reap_exiting_loop :: "waker \<Rightarrow> ptr option \<Rightarrow> ptr option \<Rightarrow> Kernel \<Rightarrow> Kernel option" where
  "reap_exiting_loop wake current cursor k =
     (case cursor of
        None \<Rightarrow> Some k
      | Some p \<Rightarrow>
          let nx = next_process (processes k p)
          in if Some p = current \<or> process_state (processes k p) \<noteq> ProcessExiting \<or> is_permanent k p
             then reap_exiting_loop wake current nx k
             else do { (_, k) \<leftarrow> destroy_process wake p k; reap_exiting_loop wake current nx k })"

definition reap_exiting :: "waker \<Rightarrow> Kernel \<Rightarrow> (Status \<times> Kernel) option" where
  "reap_exiting wake k =
     (let (current, k) = current_process k
      in do { k \<leftarrow> reap_exiting_loop wake current (process_head k) k; Some (StatusOK, k) })"

section \<open>Reference counts\<close>

definition destroy_object :: "waker \<Rightarrow> object_ptr \<Rightarrow> Kernel \<Rightarrow> Kernel option" where
  "destroy_object wake obj k =
     (case (object_type (header_of k obj), obj) of
        (ObjectProcess, ProcessObject p) \<Rightarrow> map_option snd (destroy_process wake p k)
      | (ObjectThread, ThreadObject t) \<Rightarrow> map_option snd (destroy_thread wake t k)
      | (ObjectModule, OtherObject x) \<Rightarrow> Some (call (DestroyModule x) k)
      | _ \<Rightarrow> Some (set_header obj zero_header (snd (unregister_object obj k))))"

definition dereference_object :: "waker \<Rightarrow> object_ptr \<Rightarrow> Kernel \<Rightarrow> (Status \<times> Kernel) option" where
  "dereference_object wake obj k =
     (if object_has_flag (object_flags (header_of k obj)) ObjectFlagsPermanent \<and> object_refs (header_of k obj) \<le> 1
      then Some (StatusBusy, k)
      else
        let (dead, h) = object_unref (header_of k obj);
            k = set_header obj h k
        in if \<not> dead then Some (StatusOK, k)
           else do { k \<leftarrow> destroy_object wake obj k; Some (StatusOK, k) })"

end
