(* ===== verification/Kernel_Quiet.thy ===== *)
theory Kernel_Quiet
  imports Kernel_Queues Kernel_Teardown
begin

text \<open>
  Publishing while no thread waits on a subscription (\<open>quiet\<close>): the broker stores the record and nothing
  else happens. Under this condition the callback of the event broker into the scheduler is never taken,
  and the operations of the scheduler can be reasoned about one at a time.
\<close>

abbreviation bnext :: "Kernel \<Rightarrow> ptr \<Rightarrow> ptr option" where "bnext k \<equiv> \<lambda>s. subscriber_next (sub k s)"
abbreviation bprev :: "Kernel \<Rightarrow> ptr \<Rightarrow> ptr option" where "bprev k \<equiv> \<lambda>s. subscriber_prev (sub k s)"

definition quiet_list :: "Kernel \<Rightarrow> ptr list \<Rightarrow> bool" where
  "quiet_list k bs \<longleftrightarrow>
     dll (bnext k) (bprev k) (g_subscriber_head (broker k)) (g_subscriber_tail (broker k)) bs
     \<and> (\<forall>s. waiting_thread (sub k s) = None)"

definition quiet :: "Kernel \<Rightarrow> bool" where
  "quiet k \<longleftrightarrow> (\<exists>bs. quiet_list k bs)"

text \<open>The state up to what the broker writes: its own data, heap requests, recorded calls.\<close>

definition same_tasks :: "Kernel \<Rightarrow> Kernel \<Rightarrow> bool" where
  "same_tasks k k' \<longleftrightarrow> k' = k\<lparr>broker := broker k', heap_requests := heap_requests k', calls := calls k'\<rparr>"

named_theorems same_tasks_rules \<open>how the frame of the broker composes\<close>

lemma same_tasks_refl [same_tasks_rules]: "same_tasks k k"
  by (simp add: same_tasks_def)

lemma same_tasks_steps [same_tasks_rules]:
  "same_tasks k k1 \<Longrightarrow> same_tasks k (k1\<lparr>broker := b\<rparr>)"
  "same_tasks k k1 \<Longrightarrow> same_tasks k (k1\<lparr>heap_requests := n\<rparr>)"
  "same_tasks k k1 \<Longrightarrow> same_tasks k (call e k1)"
  "same_tasks k k1 \<Longrightarrow> same_tasks k (updb f k1)"
  "same_tasks k k1 \<Longrightarrow> same_tasks k (upds s g k1)"
  by (cases k; cases k1; simp add: same_tasks_def call_def updb_def upds_def)+

lemma same_tasks_branch [same_tasks_rules]:
  "same_tasks k k1 \<Longrightarrow> same_tasks k k2 \<Longrightarrow> same_tasks k (if b then k1 else k2)"
  "same_tasks k k1 \<Longrightarrow> (\<And>p. same_tasks k (g p)) \<Longrightarrow> same_tasks k (case m of None \<Rightarrow> k1 | Some p \<Rightarrow> g p)"
  by (auto split: option.split)

lemma same_tasks_trans: "same_tasks k k1 \<Longrightarrow> same_tasks k1 k2 \<Longrightarrow> same_tasks k k2"
  by (cases k; cases k1; cases k2) (simp add: same_tasks_def)

lemma sub_simps [simp]:
  "sub (upds s f k) x = (if x = s then f (sub k s) else sub k x)"
  "sub (call e k) x = sub k x" "sub (k\<lparr>heap_requests := n\<rparr>) x = sub k x"
  "broker (call e k) = broker k"
  "g_subscriber_head (broker (upds s f k)) = g_subscriber_head (broker k)"
  "g_subscriber_tail (broker (upds s f k)) = g_subscriber_tail (broker k)"
  by (simp_all add: sub_def upds_def updb_def call_def)

lemma quiet_list_cong:
  "(\<And>x. waiting_thread (sub k1 x) = waiting_thread (sub k x)) \<Longrightarrow> (\<And>x. bnext k1 x = bnext k x) \<Longrightarrow> (\<And>x. bprev k1 x = bprev k x) \<Longrightarrow>
   g_subscriber_head (broker k1) = g_subscriber_head (broker k) \<Longrightarrow> g_subscriber_tail (broker k1) = g_subscriber_tail (broker k) \<Longrightarrow>
   quiet_list k1 bs = quiet_list k bs"
  by (simp add: quiet_list_def)

section \<open>The queue of a subscriber\<close>

lemma grow_capacity_returns: "0 < grown \<Longrightarrow> target \<le> 1024 \<Longrightarrow> \<exists>g. grow_capacity target grown = Some g \<and> target \<le> g \<and> (grown \<le> 1024 \<longrightarrow> g \<le> 1024)"
proof (induction "target - grown" arbitrary: grown rule: less_induct)
  case less
  show ?case
  proof (cases "grown < target")
    case True
    have "\<exists>g. grow_capacity target (min (grown * 2) 1024) = Some g \<and> target \<le> g \<and> (min (grown * 2) 1024 \<le> 1024 \<longrightarrow> g \<le> 1024)"
      by (rule less.hyps) (use True less.prems in auto)
    then show ?thesis using True less.prems by (subst grow_capacity.simps) auto
  qed (subst grow_capacity.simps, simp)
qed

lemma reserve_queue_capacity_returns:
  "\<exists>status k'. reserve_queue_capacity s n k = Some (status, k') \<and> same_tasks k k' \<and> (\<forall>x. x \<noteq> s \<longrightarrow> sub k' x = sub k x)
     \<and> (\<exists>q r w. sub k' s = (sub k s)\<lparr>queue := q, read_index := r, write_index := w\<rparr>)
     \<and> g_subscriber_head (broker k') = g_subscriber_head (broker k) \<and> g_subscriber_tail (broker k') = g_subscriber_tail (broker k)"
proof -
  let ?x = "sub k s" and ?t = "min n 1024"
  have triv: "\<exists>q r w. ?x = ?x\<lparr>queue := q, read_index := r, write_index := w\<rparr>"
    by (rule exI [of _ "queue ?x"], rule exI [of _ "read_index ?x"], rule exI [of _ "write_index ?x"]) simp
  show ?thesis
  proof (cases "n \<le> length (queue ?x) \<or> ?t \<le> length (queue ?x)")
    case True
    then show ?thesis using triv by (auto simp: reserve_queue_capacity_def Let_def same_tasks_refl)
  next
    case False
    then obtain g where g: "grow_capacity ?t (if length (queue ?x) = 0 then 16 else length (queue ?x)) = Some g"
      using grow_capacity_returns [of "if length (queue ?x) = 0 then 16 else length (queue ?x)" ?t]
      by (cases "queue ?x = []") auto
    show ?thesis
    proof (cases "heap_answers k (heap_requests k)")
      case None
      have "reserve_queue_capacity s n k = Some (StatusNoMemory, k\<lparr>heap_requests := Suc (heap_requests k)\<rparr>)"
        using False g None by (simp add: reserve_queue_capacity_def Let_def heap_alloc_def)
      then show ?thesis using triv by (auto intro!: same_tasks_rules)
    next
      case (Some a)
      define k1 where "k1 = (let k1 = k\<lparr>heap_requests := Suc (heap_requests k)\<rparr> in if queue ?x \<noteq> [] then call (FreeQueue s) k1 else k1)"
      have 1: "same_tasks k k1" "sub k1 = sub k" "broker k1 = broker k"
        by (auto simp: k1_def Let_def fun_eq_iff intro!: same_tasks_rules)
      define moved where "moved = map (\<lambda>i. queue ?x ! ((read_index ?x + i) mod length (queue ?x))) [0..<queued_count ?x]"
      have "reserve_queue_capacity s n k = Some (StatusOK, upds s (\<lambda>x. x\<lparr>queue := moved @ replicate (g - length moved) blank_record,
          read_index := 0, write_index := queued_count x\<rparr>) k1)"
        using False g Some by (simp add: reserve_queue_capacity_def Let_def heap_alloc_def moved_def k1_def)
      then show ?thesis using 1 by (auto intro!: same_tasks_rules)
    qed
  qed
qed

lemma enqueue_record_quiet:
  assumes q: "quiet_list k bs"
  shows "\<exists>k'. enqueue_record wake s r k = Some k' \<and> same_tasks k k' \<and> quiet_list k' bs"
proof -
  obtain st k1 qq rr ww where 1: "reserve_queue_capacity s (queued_count (sub k s) + 1) k = Some (st, k1)" "same_tasks k k1"
      "\<And>x. x \<noteq> s \<Longrightarrow> sub k1 x = sub k x" "sub k1 s = (sub k s)\<lparr>queue := qq, read_index := rr, write_index := ww\<rparr>"
      "g_subscriber_head (broker k1) = g_subscriber_head (broker k)" "g_subscriber_tail (broker k1) = g_subscriber_tail (broker k)"
    using reserve_queue_capacity_returns [of s "queued_count (sub k s) + 1" k] by blast
  have w: "waiting_thread (sub k x) = None" for x using q by (simp add: quiet_list_def)
  have w1: "waiting_thread (sub k1 x) = None" "bnext k1 x = bnext k x" "bprev k1 x = bprev k x" for x
    using 1(3,4) w by (cases "x = s"; simp)+
  let ?k2 = "if st = StatusNoSpace \<and> queue (sub k1 s) \<noteq> [] then upds s (\<lambda>x. x\<lparr>dropped_count := dropped_count x + 1\<rparr>) k1 else k1"
  let ?k3 = "upds s (\<lambda>x. put_record r (make_room st x)) ?k2"
  have fld: "waiting_thread (put_record r (make_room st x)) = waiting_thread x"
    "subscriber_next (put_record r (make_room st x)) = subscriber_next x"
    "subscriber_prev (put_record r (make_room st x)) = subscriber_prev x" for x and st
    by (simp_all add: put_record_def make_room_def)
  have run: "enqueue_record wake s r k = Some (if st \<noteq> StatusOK \<and> queue (sub k1 s) = []
      then upds s (\<lambda>x. x\<lparr>dropped_count := dropped_count x + 1\<rparr>) k1 else ?k3)"
    using 1(1) w1(1) by (simp add: enqueue_record_def wake_waiter_def Let_def fld)
  have "same_tasks k1 ?k3" "same_tasks k1 (upds s (\<lambda>x. x\<lparr>dropped_count := dropped_count x + 1\<rparr>) k1)"
    by (intro same_tasks_rules)+
  moreover have "quiet_list ?k3 bs" "quiet_list (upds s (\<lambda>x. x\<lparr>dropped_count := dropped_count x + 1\<rparr>) k1) bs"
    using quiet_list_cong [of _ k bs, THEN iffD2, OF _ _ _ _ _ q] w w1 1(5,6) by (simp_all add: fld)
  ultimately show ?thesis unfolding run using same_tasks_trans [OF 1(2)] by (simp only: option.inject ex_simps simp_thms) (simp split: if_split)
qed


section \<open>Publishing\<close>

lemma publish_loop_quiet:
  assumes "quiet_list k bs" "bs = us @ vs" "cursor = first_of vs None"
  shows "\<exists>k'. publish_loop wake r cursor k = Some k' \<and> same_tasks k k' \<and> quiet_list k' bs"
  using assms
proof (induction vs arbitrary: us cursor k)
  case Nil
  then show ?case by (subst publish_loop.simps) (simp add: same_tasks_refl)
next
  case (Cons s vs)
  obtain k1 where k1: "(if subscription_matches (sub k s) r then enqueue_record wake s r k else Some k) = Some k1"
      "same_tasks k k1" "quiet_list k1 bs"
    using enqueue_record_quiet [OF Cons.prems(1), of wake s r] Cons.prems(1) same_tasks_refl [of k] by (cases "subscription_matches (sub k s) r") auto
  have d: "dll (bnext k1) (bprev k1) (g_subscriber_head (broker k1)) (g_subscriber_tail (broker k1)) (us @ s # vs)"
    using k1(3) Cons.prems(2) by (simp add: quiet_list_def)
  obtain k' where "publish_loop wake r (bnext k1 s) k1 = Some k'" "same_tasks k1 k'" "quiet_list k' bs"
    using Cons.IH [OF k1(3), of "us @ [s]" "bnext k1 s"] Cons.prems(2) dll_next [OF d] by auto
  then show ?case using k1 Cons.prems(3) same_tasks_trans by (subst publish_loop.simps) auto
qed

lemma publish_record_quiet:
  assumes "quiet k"
  obtains k' where "publish_record wake r k = Some k'" "same_tasks k k'" "quiet k'"
proof -
  obtain bs where q: "quiet_list k bs" using assms by (auto simp: quiet_def)
  let ?k1 = "updb (\<lambda>b. b\<lparr>g_next_sequence := g_next_sequence b + 1\<rparr>) k"
  have q1: "quiet_list ?k1 bs" using q by (simp add: quiet_list_def updb_def sub_def)
  let ?r = "r\<lparr>ev_version := 1, ev_sequence := g_next_sequence (broker ?k1), ev_uptime_msec := ticks_to_milliseconds (g_tick_count ?k1)\<rparr>"
  have hd: "g_subscriber_head (broker ?k1) = first_of bs None" using q1 by (auto simp: quiet_list_def dest: dll_head)
  obtain k' where k': "publish_loop wake ?r (g_subscriber_head (broker ?k1)) ?k1 = Some k'" "same_tasks ?k1 k'" "quiet_list k' bs"
    using publish_loop_quiet [OF q1, of "[]" bs] hd by (metis append_Nil)
  have "same_tasks k k'" by (rule same_tasks_trans [OF _ k'(2)]) (intro same_tasks_rules)
  then show ?thesis using that k' by (auto simp: publish_record_def Let_def quiet_def)
qed

lemma publish_thread_event_quiet:
  assumes "quiet k"
  obtains k' where "publish_thread_event wake ty t p c k = Some k'" "same_tasks k k'" "quiet k'"
  using publish_record_quiet [OF assms] unfolding publish_thread_event_def by metis

lemma publish_process_event_quiet:
  assumes "quiet k"
  obtains k' where "publish_process_event wake ty p k = Some k'" "same_tasks k k'" "quiet k'"
  using publish_record_quiet [OF assms] unfolding publish_process_event_def Let_def by metis

section \<open>Unsubscribing\<close>

lemma destroy_subscriber_quiet:
  assumes q: "quiet_list k bs" and s: "s \<in> set bs"
  shows "\<exists>k'. destroy_subscriber wake s k = Some k' \<and> same_tasks k k' \<and> quiet_list k' (remove1 s bs)
           \<and> (\<forall>x. x \<noteq> s \<longrightarrow> bnext k s \<noteq> Some x \<longrightarrow> bprev k s \<noteq> Some x \<longrightarrow> sub k' x = sub k x)"
proof -
  have d: "dll (bnext k) (bprev k) (g_subscriber_head (broker k)) (g_subscriber_tail (broker k)) bs"
    and w: "\<And>x. waiting_thread (sub k x) = None" using q by (auto simp: quiet_list_def)
  let ?k1 = "unlink_subscriber s k"
  let ?k' = "call (FreeSubscriber s) (reset_subscriber s ?k1)"
  obtain us vs where uv: "bs = us @ s # vs" using s by (auto simp: in_set_conv_decomp)
  have near: "bnext k s \<noteq> Some s" "bprev k s \<noteq> Some s"
    using dll_next [OF d [unfolded uv]] dll_prev [OF d [unfolded uv]] dll_distinct [OF d] uv by (auto dest!: first_of_in last_of_in)
  have run: "destroy_subscriber wake s k = Some ?k'" using w by (simp add: destroy_subscriber_def wake_waiter_def)
  have nx: "bnext ?k' = (\<lambda>y. if y = s then None else if bprev k s = Some y then bnext k s else bnext k y)"
    and pv: "bprev ?k' = (\<lambda>y. if y = s then None else if bnext k s = Some y then bprev k s else bprev k y)"
    and hd: "g_subscriber_head (broker ?k') = (if bprev k s = None then bnext k s else g_subscriber_head (broker k))"
    and tl: "g_subscriber_tail (broker ?k') = (if bnext k s = None then bprev k s else g_subscriber_tail (broker k))"
    using near
    by (auto simp: fun_eq_iff reset_subscriber_def unlink_subscriber_def Let_def sub_def kernel_simps zero_subscriber_def split: option.splits)
  have wt: "waiting_thread (sub ?k' x) = None" for x
    using w by (auto simp: reset_subscriber_def unlink_subscriber_def Let_def sub_def kernel_simps zero_subscriber_def split: option.splits)
  have "same_tasks k ?k'"
    unfolding reset_subscriber_def unlink_subscriber_def Let_def by (intro same_tasks_rules)
  moreover have "quiet_list ?k' (remove1 s bs)"
    using dll_remove1 [OF d s] wt unfolding quiet_list_def nx pv hd tl by simp
  moreover have "sub ?k' x = sub k x" if "x \<noteq> s" "bnext k s \<noteq> Some x" "bprev k s \<noteq> Some x" for x
    using that by (auto simp: reset_subscriber_def unlink_subscriber_def Let_def sub_def kernel_simps split: option.splits)
  ultimately show ?thesis using run by blast
qed

lemma unsubscribe_loop_quiet:
  assumes "quiet_list k (us @ vs)" "cursor = first_of vs None"
  shows "\<exists>k' bs. unsubscribe_loop wake owner cursor k = Some k' \<and> same_tasks k k' \<and> quiet_list k' bs"
  using assms
proof (induction vs arbitrary: us cursor k)
  case Nil
  then show ?case by (subst unsubscribe_loop.simps) (auto simp: same_tasks_refl)
next
  case (Cons s vs)
  have d: "dll (bnext k) (bprev k) (g_subscriber_head (broker k)) (g_subscriber_tail (broker k)) (us @ s # vs)"
    using Cons.prems(1) by (simp add: quiet_list_def)
  have nx: "bnext k s = first_of vs None" by (rule dll_next [OF d])
  show ?case
  proof (cases "owner_process_id (sub k s) = owner")
    case True
    have r: "remove1 s (us @ s # vs) = us @ vs" using dll_distinct [OF d] by (simp add: remove1_append)
    obtain k1 where k1: "destroy_subscriber wake s k = Some k1" "same_tasks k k1" "quiet_list k1 (us @ vs)"
      using destroy_subscriber_quiet [OF Cons.prems(1), of s wake] r by auto
    obtain k' bs where "unsubscribe_loop wake owner (bnext k s) k1 = Some k'" "same_tasks k1 k'" "quiet_list k' bs"
      using Cons.IH [OF k1(3) nx] by blast
    then show ?thesis using k1 Cons.prems(2) same_tasks_trans True by (subst unsubscribe_loop.simps) (auto simp: Let_def)
  next
    case False
    obtain k' bs where "unsubscribe_loop wake owner (bnext k s) k = Some k'" "same_tasks k k'" "quiet_list k' bs"
      using Cons.IH [of k "us @ [s]", OF _ nx] Cons.prems(1) by auto
    then show ?thesis using Cons.prems(2) False by (subst unsubscribe_loop.simps) (auto simp: Let_def)
  qed
qed

lemma unsubscribe_process_quiet:
  assumes "quiet k"
  obtains k' where "unsubscribe_process wake owner k = Some k'" "same_tasks k k'" "quiet k'"
proof -
  obtain bs where q: "quiet_list k bs" using assms by (auto simp: quiet_def)
  then have hd: "g_subscriber_head (broker k) = first_of bs None" by (auto simp: quiet_list_def dest: dll_head)
  have "quiet_list k ([] @ bs)" using q by simp
  from unsubscribe_loop_quiet [OF this hd, of wake owner] obtain k' bs' where
    "unsubscribe_process wake owner k = Some k'" "same_tasks k k'" "quiet_list k' bs'"
    by (auto simp: unsubscribe_process_def)
  then show ?thesis using that by (auto simp: quiet_def)
qed

end
