(* ===== verification/Kernel_Switch.thy ===== *)
theory Kernel_Switch
  imports Kernel_Teardown
begin

text \<open>
  Switching threads, the second half of \<^verbatim>\<open>src/kernel/scheduler/scheduler.cpp\<close>, with
  \<^verbatim>\<open>src/kernel/arch/aarch64/context_switch.S\<close> and \<open>KernelEventBroker::wait\<close>. An operation is followed from
  its call to the moment when a thread runs outside the scheduler again. That thread may be another one:
  \<open>switch_to_thread\<close> stores in the thread it leaves which operation it was in (\<open>switch_caller\<close>), loads the
  context of the next thread, and completes the operation that thread had been suspended in. \<open>landing\<close> says
  where the processor ends up.

  Waking an event waiter calls \<open>Scheduler::enqueue\<close>, which may publish again. \<open>enqueue\<close> has the number of
  nested wake-ups as an argument; a state without waiting subscribers needs none.
\<close>

datatype landing =
    Returned Status
  | Entered u64
  | EnteredUser u64
  | ResumedFrame AArch64ExceptionFrame
  | Halted

section \<open>The address space\<close>

definition mm_switch_to :: "ptr \<Rightarrow> Kernel \<Rightarrow> Status \<times> Kernel" where
  "mm_switch_to p k =
     (let root = page_table_root (process_address_space (processes k p))
      in if root = 0 \<or> kernel_root_table k = 0 then (StatusInvalidArgument, k) else (StatusOK, k\<lparr>ttbr0 := root\<rparr>))"

section \<open>Retired threads and the current thread\<close>

partial_function (option) reap_retired_threads :: "waker \<Rightarrow> Kernel \<Rightarrow> Kernel option" where
  "reap_retired_threads wake k =
     (case g_retired_thread_head k of
        None \<Rightarrow> Some k
      | Some t \<Rightarrow>
          if Some t = g_current_thread k then Some k
          else do {
            let k = k\<lparr>g_retired_thread_head := ready_next (threads k t)\<rparr>;
            let k = (if g_retired_thread_head k = None then k\<lparr>g_retired_thread_tail := None\<rparr> else k);
            (_, k) \<leftarrow> destroy_thread wake t (upd t (\<lambda>x. x\<lparr>ready_next := None\<rparr>) k);
            reap_retired_threads wake k })"

definition bind_current_thread :: "waker \<Rightarrow> ptr \<Rightarrow> Kernel \<Rightarrow> (Status \<times> Kernel) option" where
  "bind_current_thread wake t k =
     (let previous = thread_state (threads k t);
          (status, k) = (case thread_parent (threads k t) of
                           None \<Rightarrow> (StatusOK, k)
                         | Some p \<Rightarrow> (let (status, k) = mm_switch_to p k
                                      in (status, if status = StatusOK then updp p (\<lambda>x. x\<lparr>process_state := ProcessRunning\<rparr>) k else k)))
      in if status \<noteq> StatusOK then Some (status, k)
         else do {
           let k = upd t (\<lambda>x. x\<lparr>thread_state := ThreadRunning\<rparr>) k;
           let k = trace_irqhandoff_bind_window t k;
           k \<leftarrow> (if previous \<noteq> ThreadRunning
                 then publish_thread_event wake KernelEventTypeThreadRunning t previous ThreadRunning k else Some k);
           let k = k\<lparr>g_current_thread := Some t, g_current_process := thread_parent (threads k t)\<rparr>;
           Some (StatusOK, reset_quantum t k) })"

definition enqueue_with :: "waker \<Rightarrow> ptr option \<Rightarrow> Kernel \<Rightarrow> (Status \<times> Kernel) option" where
  "enqueue_with wake thread k = do {
     k \<leftarrow> reap_retired_threads wake k;
     case thread of
       None \<Rightarrow> Some (StatusInvalidArgument, k)
     | Some t \<Rightarrow> do {
         found \<leftarrow> find_thread (thread_id (threads k t)) k;
         if found \<noteq> Some t then Some (StatusNotFound, k)
         else if thread_state (threads k t) = ThreadTerminated then Some (StatusBusy, k)
         else if g_current_thread k = Some t then Some (StatusAlreadyExists, k)
         else if g_current_thread k = None then bind_current_thread wake t k
         else transition_thread_to_ready wake t True k } }"

primrec enqueue :: "nat \<Rightarrow> ptr option \<Rightarrow> Kernel \<Rightarrow> (Status \<times> Kernel) option" where
  "enqueue 0 thread k = None"
| "enqueue (Suc n) thread k = enqueue_with (\<lambda>w k. map_option snd (enqueue n (Some w) k)) thread k"

definition waking :: "nat \<Rightarrow> waker" where
  "waking n = (\<lambda>w k. map_option snd (enqueue n (Some w) k))"

section \<open>Choosing and switching\<close>

definition pick_next_thread :: "bool \<Rightarrow> Kernel \<Rightarrow> (ptr option \<times> Kernel) option" where
  "pick_next_thread keep_current k = do {
     (best, k) \<leftarrow> ready_queue_pop_best k;
     Some (if best \<noteq> None then best
           else if keep_current \<and> thread_is_runnable k (g_current_thread k) \<and> g_current_thread k \<noteq> g_idle_thread k
           then g_current_thread k
           else if g_idle_thread k \<noteq> None then g_idle_thread k else g_current_thread k, k) }"

definition on_current :: "(Thread \<Rightarrow> Thread) \<Rightarrow> Kernel \<Rightarrow> Kernel" where
  "on_current f k = (case g_current_thread k of Some c \<Rightarrow> upd c f k | None \<Rightarrow> k)"

definition end_wait :: "Thread \<Rightarrow> Thread" where
  "end_wait x = x\<lparr>wait_object := None, wait_status := wait_code WaitNone, wake_tick := 0\<rparr>"

definition undo_sleep :: "Status \<Rightarrow> Kernel \<Rightarrow> Kernel" where
  "undo_sleep status k =
     (case g_current_thread k of
        Some c \<Rightarrow> if status \<noteq> StatusOK then upd c (\<lambda>x. x\<lparr>thread_state := ThreadRunning\<rparr>) (sleep_queue_remove c k) else k
      | None \<Rightarrow> k)"

definition timed_out :: "WaitReason \<Rightarrow> Kernel \<Rightarrow> bool" where
  "timed_out reason k =
     (case g_current_thread k of
        Some c \<Rightarrow> wait_status (threads k c) = wait_code reason \<and> wake_tick (threads k c) \<noteq> 0
      | None \<Rightarrow> False)"

definition after_block :: "Status \<Rightarrow> Kernel \<Rightarrow> Kernel" where
  "after_block status k =
     (let k = on_current (\<lambda>x. x\<lparr>wait_object := None, wait_status := 0\<rparr>) k
      in if status \<noteq> StatusOK then on_current (\<lambda>x. x\<lparr>thread_state := ThreadRunning\<rparr>) k else k)"

definition finish_wait :: "switch_caller \<Rightarrow> Kernel \<Rightarrow> Kernel" where
  "finish_wait caller k =
     (case caller of
        FromEventWait s t \<Rightarrow> if waiting_thread (sub k s) = Some t then upds s (\<lambda>x. x\<lparr>waiting_thread := None\<rparr>) k else k
      | _ \<Rightarrow> k)"

text \<open>What each caller of \<open>switch_to_thread\<close> does with the status it returns.\<close>

fun after_switch :: "switch_caller \<Rightarrow> Status \<Rightarrow> Kernel \<Rightarrow> landing \<times> Kernel" where
  "after_switch FromYield status k = (Returned StatusOK, k)"
| "after_switch FromPriority status k = (Returned status, k)"
| "after_switch FromBlock status k = (Returned status, after_block status k)"
| "after_switch (FromBlockFor reason) status k =
     (Returned (if status \<noteq> StatusOK then status else if timed_out reason k then StatusBusy else StatusOK),
      undo_sleep status (on_current end_wait k))"
| "after_switch FromSleep status k = (Returned status, undo_sleep status (on_current end_wait k))"
| "after_switch FromExit status k = (Halted, k)"
| "after_switch (FromEventWait s t) status k =
     (Returned status, finish_wait (FromEventWait s t) (after_block status k))"

text \<open>\<open>aarch64_context_switch\<close>: the flags decide how the next thread continues.\<close>

definition resume :: "waker \<Rightarrow> ptr \<Rightarrow> Kernel \<Rightarrow> (landing \<times> Kernel) option" where
  "resume wake t k =
     (let c = thread_context (threads k t)
      in if bit (processor_state c) 62 then Some (ResumedFrame (saved_exception_frame c), k)
         else if bit (processor_state c) 63 then Some (EnteredUser (program_counter c), k)
         else (case kernel_chain c of
                 NoContext \<Rightarrow> Some (Halted, k)
               | KernelEntry entry \<Rightarrow> Some (Entered entry, k)
               | InSwitch caller \<Rightarrow> do { k \<leftarrow> reap_retired_threads wake k; Some (after_switch caller StatusOK k) }))"

definition save_chain :: "ptr option \<Rightarrow> switch_caller \<Rightarrow> Kernel \<Rightarrow> Kernel" where
  "save_chain previous caller k =
     (case previous of
        Some p \<Rightarrow> upd p (\<lambda>x. x\<lparr>thread_context := (thread_context x)\<lparr>kernel_chain := InSwitch caller\<rparr>\<rparr>) k
      | None \<Rightarrow> k)"

definition switch_to_thread :: "waker \<Rightarrow> switch_caller \<Rightarrow> ptr option \<Rightarrow> Kernel \<Rightarrow> (landing \<times> Kernel) option" where
  "switch_to_thread wake caller target k =
     (let previous = g_current_thread k
      in case target of
           None \<Rightarrow> Some (after_switch caller StatusNotFound k)
         | Some t \<Rightarrow>
             if Some t = previous
             then Some (after_switch caller StatusOK (reset_quantum t (upd t (\<lambda>x. x\<lparr>thread_state := ThreadRunning\<rparr>) k)))
             else do {
               (status, k) \<leftarrow> bind_current_thread wake t k;
               if status \<noteq> StatusOK then Some (after_switch caller status k)
               else resume wake t (save_chain previous caller k) })"

definition reschedule :: "waker \<Rightarrow> switch_caller \<Rightarrow> bool \<Rightarrow> Kernel \<Rightarrow> (landing \<times> Kernel) option" where
  "reschedule wake caller keep_current k = do {
     (target, k) \<leftarrow> pick_next_thread keep_current k;
     switch_to_thread wake caller target k }"

definition requeue_current :: "waker \<Rightarrow> bool \<Rightarrow> bool \<Rightarrow> Kernel \<Rightarrow> Kernel option" where
  "requeue_current wake at_tail reset k =
     (case g_current_thread k of
        None \<Rightarrow> Some k
      | Some c \<Rightarrow>
          if g_current_thread k \<noteq> g_idle_thread k \<and> thread_state (threads k c) = ThreadRunning then
            let k = upd c (\<lambda>x. x\<lparr>thread_state := ThreadReady\<rparr>) k;
                k = (if reset then reset_quantum c k else k);
                (status, k) = ready_queue_push c at_tail k
            in if status = StatusOK then publish_thread_event wake KernelEventTypeThreadReady c ThreadRunning ThreadReady k
               else Some k
          else Some k)"

definition dispatch :: "waker \<Rightarrow> switch_caller \<Rightarrow> bool \<Rightarrow> bool \<Rightarrow> bool \<Rightarrow> bool \<Rightarrow> Kernel \<Rightarrow> (landing \<times> Kernel) option" where
  "dispatch wake caller requeue at_tail reset keep_current k = do {
     k \<leftarrow> (if requeue then requeue_current wake at_tail reset k else Some k);
     reschedule wake caller keep_current k }"

text \<open>The thread with the better priority than the current one is ready.\<close>

definition better_ready :: "Kernel \<Rightarrow> ptr \<Rightarrow> bool" where
  "better_ready k c \<longleftrightarrow> 0 \<le> highest_ready_priority k
     \<and> (word_of_int (highest_ready_priority k) :: u8) < current_priority (threads k c)"

definition process_pending_reschedule :: "waker \<Rightarrow> Kernel \<Rightarrow> (landing \<times> Kernel) option" where
  "process_pending_reschedule wake k =
     (case g_current_thread k of
        None \<Rightarrow> if g_ready_count k \<noteq> 0 then reschedule wake FromYield False k else Some (Returned StatusOK, k)
      | Some c \<Rightarrow>
          if g_current_thread k = g_idle_thread k then
            if g_ready_count k \<noteq> 0 then reschedule wake FromYield False k else Some (Returned StatusOK, k)
          else if better_ready k c then dispatch wake FromYield True False False False k
          else if quantum_ticks_remaining (threads k c) = 0 \<and> g_ready_count k \<noteq> 0 then dispatch wake FromYield True True True False k
          else Some (Returned StatusOK, if quantum_ticks_remaining (threads k c) = 0 then reset_quantum c k else k))"

section \<open>Preemption from user mode\<close>

definition save_current_lower_el_exception_frame :: "AArch64ExceptionFrame option \<Rightarrow> Kernel \<Rightarrow> bool \<times> Kernel" where
  "save_current_lower_el_exception_frame frame k =
     (case (g_current_thread k, frame) of
        (Some c, Some f) \<Rightarrow>
          (True, upd c (\<lambda>x. x\<lparr>thread_context := (thread_context x)\<lparr>saved_exception_frame := f, program_counter := frame_elr f,
             processor_state := (frame_spsr f AND CpuContextProcessorStateMask) OR CpuContextResumeExceptionFrameFlag\<rparr>\<rparr>) k)
      | _ \<Rightarrow> (False, k))"

definition trace_lower_el_irq_preemption_once :: "string \<Rightarrow> AArch64ExceptionFrame option \<Rightarrow> Kernel \<Rightarrow> Kernel" where
  "trace_lower_el_irq_preemption_once reason frame k =
     (if g_lower_el_irq_preempt_trace_emitted k \<or> g_current_thread k = None \<or> frame = None then k
      else call (KRetail reason) (k\<lparr>g_lower_el_irq_preempt_trace_emitted := True\<rparr>))"

definition trace_lower_el_irq_resume_current_once :: "AArch64ExceptionFrame option \<Rightarrow> Kernel \<Rightarrow> Kernel" where
  "trace_lower_el_irq_resume_current_once frame k =
     (if g_lower_el_irq_resume_current_trace_emitted k \<or> g_current_thread k = None \<or> frame = None then k
      else call (KRetail ''resume-current'') (k\<lparr>g_lower_el_irq_resume_current_trace_emitted := True\<rparr>))"

definition preempt :: "waker \<Rightarrow> string \<Rightarrow> bool \<Rightarrow> AArch64ExceptionFrame option \<Rightarrow> Kernel \<Rightarrow> (landing \<times> Kernel) option" where
  "preempt wake reason expired frame k =
     (let (saved, k) = save_current_lower_el_exception_frame frame k
      in if \<not> saved then Some (Returned StatusOK, k\<lparr>g_reschedule_pending := True\<rparr>)
         else dispatch wake FromYield True expired expired False (trace_lower_el_irq_preemption_once reason frame k))"

definition process_pending_reschedule_from_lower_el_irq ::
    "waker \<Rightarrow> AArch64ExceptionFrame option \<Rightarrow> Kernel \<Rightarrow> (landing \<times> Kernel) option" where
  "process_pending_reschedule_from_lower_el_irq wake frame k =
     (if \<not> g_reschedule_pending k then Some (Returned StatusOK, k)
      else
        let k = k\<lparr>g_reschedule_pending := False\<rparr>
        in case g_current_thread k of
             None \<Rightarrow> if g_ready_count k \<noteq> 0 then reschedule wake FromYield False k else Some (Returned StatusOK, k)
           | Some c \<Rightarrow>
               if g_current_thread k = g_idle_thread k then
                 if g_ready_count k \<noteq> 0 then reschedule wake FromYield False k else Some (Returned StatusOK, k)
               else if better_ready k c then preempt wake ''higher-priority-ready'' False frame k
               else if quantum_ticks_remaining (threads k c) = 0 \<and> g_ready_count k \<noteq> 0 then preempt wake ''quantum-expired'' True frame k
               else if quantum_ticks_remaining (threads k c) = 0
               then Some (Returned StatusOK, trace_lower_el_irq_resume_current_once frame (reset_quantum c k))
               else Some (Returned StatusOK, trace_lower_el_irq_resume_current_once frame k))"

definition capture_current_user_context :: "u64 \<Rightarrow> u64 \<Rightarrow> u64 \<Rightarrow> Kernel \<Rightarrow> Kernel" where
  "capture_current_user_context sp pc state k =
     on_current (\<lambda>x. x\<lparr>thread_context := (thread_context x)\<lparr>user_stack_pointer := sp, program_counter := pc,
       processor_state := state AND CpuContextProcessorStateMask\<rparr>\<rparr>) k"

section \<open>The interface of the scheduler\<close>

definition exit_current_thread :: "nat \<Rightarrow> Kernel \<Rightarrow> (landing \<times> Kernel) option" where
  "exit_current_thread n k =
     (case g_current_thread k of
        None \<Rightarrow> Some (Halted, k)
      | Some c \<Rightarrow>
          if g_current_thread k = g_idle_thread k then Some (Halted, k)
          else reschedule (waking n) FromExit False (queue_retired_thread c (upd c (\<lambda>x. x\<lparr>thread_state := ThreadTerminated\<rparr>) k)))"

definition sched_init :: "Kernel \<Rightarrow> Status \<times> Kernel" where
  "sched_init k =
     (StatusOK, k\<lparr>g_current_thread := None, g_current_process := None, g_idle_thread := None, ready_head := (\<lambda>_. None),
        ready_tail := (\<lambda>_. None), g_ready_bitmap := 0, g_ready_count := 0, g_tick_count := 0, g_sleep_head := None,
        g_sleep_tail := None, g_retired_thread_head := None, g_retired_thread_tail := None, g_reschedule_pending := False,
        g_lower_el_irq_preempt_trace_emitted := False, g_lower_el_irq_resume_current_trace_emitted := False,
        g_irqhandoff_bind_trace_count := 0, g_irqhandoff_ready_trace_count := 0\<rparr>)"

definition add_flags :: "u32 \<Rightarrow> ObjectHeader \<Rightarrow> ObjectHeader" where
  "add_flags flags h = h\<lparr>object_flags := object_flags h OR flags\<rparr>"

definition bootstrap :: "nat \<Rightarrow> AddressSpace option \<Rightarrow> u64 \<Rightarrow> string option \<Rightarrow> string option \<Rightarrow> Kernel \<Rightarrow> (Status \<times> Kernel) option" where
  "bootstrap n space idle_entry pname tname k =
     (if g_current_thread k \<noteq> None then Some (StatusAlreadyExists, k)
      else do {
        ((status, made), k) \<leftarrow> create_process_with_mode (waking n) (Inl StatusNotSupported) space pname False k;
        case made of
          None \<Rightarrow> Some (status, k)
        | Some p \<Rightarrow> do {
            let k = updp p (\<lambda>x. x\<lparr>process_header := add_flags (ObjectFlagsPermanent OR ObjectFlagsKernel) (process_header x),
                               process_state := ProcessRunning\<rparr>) k;
            ((status, adopted), k) \<leftarrow> adopt_current_thread (waking n) (Some p) tname k;
            case adopted of
              None \<Rightarrow> do { (_, k) \<leftarrow> destroy_process (waking n) p k; Some (status, k) }
            | Some t \<Rightarrow> do {
                let k = upd t (\<lambda>x. x\<lparr>thread_header := add_flags (ObjectFlagsPermanent OR ObjectFlagsKernel) (thread_header x)\<rparr>) k;
                ((status, idle), k) \<leftarrow> create_thread (waking n) (Some p) (Some ''idle'') idle_entry ThreadPriorityIdle ThreadDefaultQuantumTicks k;
                case idle of
                  None \<Rightarrow> do { (_, k) \<leftarrow> destroy_process (waking n) p k; Some (status, k) }
                | Some i \<Rightarrow>
                    let k = upd i (\<lambda>x. x\<lparr>thread_header := add_flags (ObjectFlagsPermanent OR ObjectFlagsKernel) (thread_header x)\<rparr>) k
                    in bind_current_thread (waking n) t (k\<lparr>g_idle_thread := Some i\<rparr>) } } })"

text \<open>The current thread, unless it is the idle thread or not running: the guard of the operations below.\<close>

definition active_thread :: "Kernel \<Rightarrow> ptr option" where
  "active_thread k =
     (case g_current_thread k of
        None \<Rightarrow> None
      | Some c \<Rightarrow> if g_current_thread k = g_idle_thread k \<or> thread_state (threads k c) \<noteq> ThreadRunning then None else Some c)"

definition set_current_priority :: "nat \<Rightarrow> u8 \<Rightarrow> Kernel \<Rightarrow> (landing \<times> Kernel) option" where
  "set_current_priority n priority k =
     (if ThreadPriorityLevelCount \<le> priority then Some (Returned StatusInvalidArgument, k)
      else do {
        k \<leftarrow> reap_retired_threads (waking n) k;
        case active_thread k of
          None \<Rightarrow> Some (Returned StatusBusy, k)
        | Some c \<Rightarrow>
            let k = reset_quantum c (upd c (\<lambda>x. x\<lparr>base_priority := priority, current_priority := priority\<rparr>) k)
            in if better_ready k c then dispatch (waking n) FromPriority True False False False k
               else Some (Returned StatusOK, k) })"

definition set_thread_priority :: "nat \<Rightarrow> ptr option \<Rightarrow> u8 \<Rightarrow> Kernel \<Rightarrow> (landing \<times> Kernel) option" where
  "set_thread_priority n thread priority k =
     (if ThreadPriorityLevelCount \<le> priority then Some (Returned StatusInvalidArgument, k)
      else do {
        k \<leftarrow> reap_retired_threads (waking n) k;
        case thread of
          None \<Rightarrow> Some (Returned StatusNotFound, k)
        | Some t \<Rightarrow> do {
            found \<leftarrow> find_thread (thread_id (threads k t)) k;
            if found \<noteq> Some t then Some (Returned StatusNotFound, k)
            else if Some t = g_idle_thread k \<or> thread_state (threads k t) = ThreadTerminated then Some (Returned StatusBusy, k)
            else if Some t = g_current_thread k then set_current_priority n priority k
            else
              let k = (if in_ready_queue (threads k t) then ready_queue_remove t k else k);
                  k = reset_quantum t (upd t (\<lambda>x. x\<lparr>base_priority := priority, current_priority := priority\<rparr>) k)
              in if thread_state (threads k t) \<noteq> ThreadReady then Some (Returned StatusOK, k)
                 else
                   let (status, k) = ready_queue_push t True k
                   in if status \<noteq> StatusOK then Some (Returned status, k)
                      else Some (Returned StatusOK,
                        case g_current_thread k of
                          Some c \<Rightarrow> if g_current_thread k \<noteq> g_idle_thread k \<and> current_priority (threads k t) < current_priority (threads k c)
                                    then k\<lparr>g_reschedule_pending := True\<rparr> else k
                        | None \<Rightarrow> k) } })"

definition block_current_from :: "switch_caller \<Rightarrow> nat \<Rightarrow> WaitReason \<Rightarrow> object_ptr option \<Rightarrow> Kernel \<Rightarrow> (landing \<times> Kernel) option" where
  "block_current_from caller n reason obj k = do {
     k \<leftarrow> reap_retired_threads (waking n) k;
     case active_thread k of
       None \<Rightarrow> Some (Returned StatusBusy, finish_wait caller k)
     | Some c \<Rightarrow> reschedule (waking n) caller False
         (upd c (\<lambda>x. x\<lparr>wait_object := obj, wait_status := wait_code reason, thread_state := ThreadWaiting\<rparr>) k) }"

definition block_current :: "nat \<Rightarrow> WaitReason \<Rightarrow> object_ptr option \<Rightarrow> Kernel \<Rightarrow> (landing \<times> Kernel) option" where
  "block_current = block_current_from FromBlock"

definition fall_asleep :: "ptr \<Rightarrow> WaitReason \<Rightarrow> object_ptr option \<Rightarrow> u64 \<Rightarrow> Kernel \<Rightarrow> Kernel option" where
  "fall_asleep c reason obj delay_ticks k =
     sleep_queue_insert_sorted c
       (upd c (\<lambda>x. x\<lparr>wait_object := obj, wait_status := wait_code reason, wake_tick := g_tick_count k + delay_ticks,
                    thread_state := ThreadWaiting\<rparr>) k)"

definition block_current_for :: "nat \<Rightarrow> WaitReason \<Rightarrow> u64 \<Rightarrow> object_ptr option \<Rightarrow> Kernel \<Rightarrow> (landing \<times> Kernel) option" where
  "block_current_for n reason delay_ticks obj k =
     (if delay_ticks = 0 then block_current n reason obj k
      else do {
        k \<leftarrow> reap_retired_threads (waking n) k;
        case active_thread k of
          None \<Rightarrow> Some (Returned StatusBusy, k)
        | Some c \<Rightarrow> do {
            k \<leftarrow> fall_asleep c reason obj delay_ticks k;
            reschedule (waking n) (FromBlockFor reason) False k } })"

definition sleep_current :: "nat \<Rightarrow> u64 \<Rightarrow> Kernel \<Rightarrow> (landing \<times> Kernel) option" where
  "sleep_current n delay_ticks k =
     (if delay_ticks = 0 then Some (Returned StatusOK, k)
      else do {
        k \<leftarrow> reap_retired_threads (waking n) k;
        case active_thread k of
          None \<Rightarrow> Some (Returned StatusBusy, k)
        | Some c \<Rightarrow> do {
            k \<leftarrow> fall_asleep c WaitDelay None delay_ticks k;
            reschedule (waking n) FromSleep False k } })"

definition yield :: "nat \<Rightarrow> Kernel \<Rightarrow> (landing \<times> Kernel) option" where
  "yield n k = do {
     k \<leftarrow> reap_retired_threads (waking n) k;
     case g_current_thread k of
       None \<Rightarrow> Some (Returned StatusOK, k)
     | Some c \<Rightarrow>
         if g_current_thread k \<noteq> g_idle_thread k \<and> g_ready_count k = 0 then Some (Returned StatusOK, reset_quantum c k)
         else dispatch (waking n) FromYield (g_current_thread k \<noteq> g_idle_thread k) True True True k }"

definition timer_tick :: "nat \<Rightarrow> Kernel \<Rightarrow> Kernel option" where
  "timer_tick n k = do {
     k \<leftarrow> reap_retired_threads (waking n) (k\<lparr>g_tick_count := g_tick_count k + 1\<rparr>);
     k \<leftarrow> wake_expired_sleepers (waking n) k;
     case g_current_thread k of
       None \<Rightarrow> Some k
     | Some c \<Rightarrow>
         if g_current_thread k = g_idle_thread k then
           Some (if g_ready_count k \<noteq> 0 then k\<lparr>g_reschedule_pending := True\<rparr> else k)
         else if g_ready_count k = 0 then Some (reset_quantum c k)
         else
           let k = upd c (\<lambda>x. if 0 < quantum_ticks_remaining x then x\<lparr>quantum_ticks_remaining := quantum_ticks_remaining x - 1\<rparr> else x) k
           in Some (if quantum_ticks_remaining (threads k c) = 0 then k\<lparr>g_reschedule_pending := True\<rparr> else k) }"

primrec timer_ticks :: "nat \<Rightarrow> nat \<Rightarrow> Kernel \<Rightarrow> Kernel option" where
  "timer_ticks n 0 k = Some k"
| "timer_ticks n (Suc elapsed) k = do { k \<leftarrow> timer_tick n k; timer_ticks n elapsed k }"

text \<open>\<open>poll\<close> drains the devices first; what they do is outside this state.\<close>

definition poll :: "nat \<Rightarrow> u32 \<Rightarrow> Kernel \<Rightarrow> (landing \<times> Kernel) option" where
  "poll n elapsed_ticks k = do {
     k \<leftarrow> timer_ticks n (unat elapsed_ticks) k;
     if \<not> g_reschedule_pending k then Some (Returned StatusOK, k)
     else process_pending_reschedule (waking n) (k\<lparr>g_reschedule_pending := False\<rparr>) }"

definition reap_retired :: "nat \<Rightarrow> Kernel \<Rightarrow> Kernel option" where
  "reap_retired n k = reap_retired_threads (waking n) k"

definition handle_lower_el_timer_irq :: "nat \<Rightarrow> AArch64ExceptionFrame option \<Rightarrow> Kernel \<Rightarrow> (landing \<times> Kernel) option" where
  "handle_lower_el_timer_irq n frame k = do {
     k \<leftarrow> timer_tick n k;
     process_pending_reschedule_from_lower_el_irq (waking n) frame k }"

definition handle_current_el_timer_irq :: "nat \<Rightarrow> Kernel \<Rightarrow> (landing \<times> Kernel) option" where
  "handle_current_el_timer_irq n k = do {
     k \<leftarrow> timer_tick n k;
     process_pending_reschedule (waking n) k }"

text \<open>\<open>KernelEventBroker::wait\<close>.\<close>

definition event_wait :: "nat \<Rightarrow> u64 \<Rightarrow> u64 \<Rightarrow> Kernel \<Rightarrow> (landing \<times> Kernel) option" where
  "event_wait n owner sid k = do {
     found \<leftarrow> find_subscription owner sid k;
     case found of
       None \<Rightarrow> Some (Returned StatusNotFound, k)
     | Some s \<Rightarrow>
         if queued_count (sub k s) \<noteq> 0 then Some (Returned StatusOK, k)
         else (case g_current_thread k of
                 None \<Rightarrow> Some (Returned StatusBusy, k)
               | Some c \<Rightarrow>
                   if thread_state (threads k c) \<noteq> ThreadRunning then Some (Returned StatusBusy, k)
                   else if waiting_thread (sub k s) \<noteq> None \<and> waiting_thread (sub k s) \<noteq> Some c then Some (Returned StatusBusy, k)
                   else block_current_from (FromEventWait s c) n WaitEvent None (upds s (\<lambda>x. x\<lparr>waiting_thread := Some c\<rparr>) k)) }"

end
