(* ===== verification/Kernel_Inv.thy ===== *)
theory Kernel_Inv
  imports Kernel_Quiet Kernel_Switch
begin

text \<open>
  The invariant of task management. \<open>task_ok k qs ss rs ls ps ms\<close>: in state \<open>k\<close> the ready queues hold \<open>qs\<close>, the
  sleep queue \<open>ss\<close> in the order of the wake ticks, the retired list \<open>rs\<close>; the thread registry is \<open>ls\<close>, the
  process registry \<open>ps\<close>, and the threads of process \<open>p\<close> are \<open>ms p\<close>. A thread is in the queue its state says:
  ready threads that are queued have no wake tick, sleepers wait, retired threads are terminated, the idle
  thread is in none. Every queue operation is a lemma about these lists.
\<close>

abbreviation tnext :: "Kernel \<Rightarrow> ptr \<Rightarrow> ptr option" where "tnext k \<equiv> \<lambda>t. thread_next (threads k t)"
abbreviation tprev :: "Kernel \<Rightarrow> ptr \<Rightarrow> ptr option" where "tprev k \<equiv> \<lambda>t. thread_prev (threads k t)"
abbreviation mnext :: "Kernel \<Rightarrow> ptr \<Rightarrow> ptr option" where "mnext k \<equiv> \<lambda>t. process_next (threads k t)"
abbreviation mprev :: "Kernel \<Rightarrow> ptr \<Rightarrow> ptr option" where "mprev k \<equiv> \<lambda>t. process_prev (threads k t)"
abbreviation pnext :: "Kernel \<Rightarrow> ptr \<Rightarrow> ptr option" where "pnext k \<equiv> \<lambda>p. next_process (processes k p)"
abbreviation pprev :: "Kernel \<Rightarrow> ptr \<Rightarrow> ptr option" where "pprev k \<equiv> \<lambda>p. prev_process (processes k p)"

definition retired_list :: "Kernel \<Rightarrow> ptr list \<Rightarrow> bool" where
  "retired_list k rs \<longleftrightarrow>
     distinct rs \<and> g_retired_thread_head k = first_of rs None \<and> g_retired_thread_tail k = last_of None rs \<and> slist (rnext k) rs"

definition registry :: "Kernel \<Rightarrow> ptr list \<Rightarrow> bool" where
  "registry k ls \<longleftrightarrow>
     dll (tnext k) (tprev k) (g_thread_head k) (g_thread_tail k) ls
     \<and> set ls \<subseteq> {0<..<2 ^ 64} \<and> g_thread_count k = of_nat (length ls)"

definition family :: "Kernel \<Rightarrow> ptr list \<Rightarrow> ptr list \<Rightarrow> (ptr \<Rightarrow> ptr list) \<Rightarrow> bool" where
  "family k ls ps ms \<longleftrightarrow>
     dll (pnext k) (pprev k) (process_head k) (process_tail k) ps
     \<and> (\<forall>p. p \<in> set ps \<longrightarrow>
          dll (mnext k) (mprev k) (thread_list_head (processes k p)) (thread_list_tail (processes k p)) (ms p)
          \<and> thread_count (processes k p) = of_nat (length (ms p))
          \<and> page_table_root (process_address_space (processes k p)) \<noteq> 0)
     \<and> (\<forall>p t. p \<in> set ps \<longrightarrow> (t \<in> set (ms p) \<longleftrightarrow> t \<in> set ls \<and> thread_parent (threads k t) = Some p))
     \<and> (\<forall>t. t \<in> set ls \<longrightarrow> (\<exists>p. p \<in> set ps \<and> thread_parent (threads k t) = Some p))
     \<and> kernel_root_table k \<noteq> 0"

definition placed :: "Kernel \<Rightarrow> (nat \<Rightarrow> ptr list) \<Rightarrow> ptr list \<Rightarrow> ptr list \<Rightarrow> ptr list \<Rightarrow> bool" where
  "placed k qs ss rs ls \<longleftrightarrow>
     (\<forall>q t. t \<in> set (qs q) \<longrightarrow> thread_state (threads k t) = ThreadReady \<and> wake_tick (threads k t) = 0 \<and> t \<in> set ls \<and> g_idle_thread k \<noteq> Some t)
     \<and> (\<forall>t. t \<in> set ss \<longrightarrow> thread_state (threads k t) = ThreadWaiting \<and> t \<in> set ls \<and> g_idle_thread k \<noteq> Some t)
     \<and> (\<forall>t. t \<in> set rs \<longrightarrow> thread_state (threads k t) = ThreadTerminated \<and> t \<in> set ls \<and> g_idle_thread k \<noteq> Some t)
     \<and> (\<forall>t. t \<in> set ls \<longrightarrow> prio k t < 32)
     \<and> (\<exists>i. g_idle_thread k = Some i \<and> i \<in> set ls)"

definition task_ok ::
    "Kernel \<Rightarrow> (nat \<Rightarrow> ptr list) \<Rightarrow> ptr list \<Rightarrow> ptr list \<Rightarrow> ptr list \<Rightarrow> ptr list \<Rightarrow> (ptr \<Rightarrow> ptr list) \<Rightarrow> bool" where
  "task_ok k qs ss rs ls ps ms \<longleftrightarrow>
     ready_lists k qs \<and> sleep_list k ss \<and> retired_list k rs \<and> registry k ls \<and> family k ls ps ms \<and> placed k qs ss rs ls"

text \<open>A thread that is in no queue.\<close>

definition loose :: "ptr \<Rightarrow> (nat \<Rightarrow> ptr list) \<Rightarrow> ptr list \<Rightarrow> ptr list \<Rightarrow> bool" where
  "loose t qs ss rs \<longleftrightarrow> (\<forall>q. t \<notin> set (qs q)) \<and> t \<notin> set ss \<and> t \<notin> set rs"

section \<open>What the invariant reads\<close>

definition tview :: "Thread \<Rightarrow> Thread" where
  "tview x = x\<lparr>thread_header := zero_header, thread_id := 0, thread_name := [], base_priority := 0, quantum_ticks := 0,
     quantum_ticks_remaining := 0, user_stack_top := 0, user_stack_backing := None, user_stack_bytes := 0,
     user_stack_slot_index := 0, kernel_stack_backing := None, wait_object := None, wait_status := 0,
     thread_context := thread_context zero_thread\<rparr>"

definition pview :: "Process \<Rightarrow> Process" where
  "pview x = zero_process\<lparr>process_address_space := process_address_space x, thread_list_head := thread_list_head x,
     thread_list_tail := thread_list_tail x, thread_count := thread_count x, next_process := next_process x, prev_process := prev_process x\<rparr>"

definition view :: "Kernel \<Rightarrow> Kernel" where
  "view k = k\<lparr>threads := (\<lambda>t. tview (threads k t)), processes := (\<lambda>p. pview (processes k p)), g_current_process := None,
     g_tick_count := 0, g_reschedule_pending := False, g_lower_el_irq_preempt_trace_emitted := False,
     g_lower_el_irq_resume_current_trace_emitted := False, g_irqhandoff_bind_trace_count := 0, g_irqhandoff_ready_trace_count := 0,
     g_next_thread_id := 0, process_count_value := 0, next_pid := 0, exit_records := empty_list, g_objects := empty_list,
     other_objects := (\<lambda>_. zero_header), ttbr0 := 0, broker := \<lparr>subscribers = (\<lambda>_. zero_subscriber), g_subscriber_head = None,
     g_subscriber_tail = None, g_next_subscription_id = 0, g_next_sequence = 0\<rparr>, calls := [], heap_answers := (\<lambda>_. None), heap_requests := 0\<rparr>"

lemma task_ok_of_view: "task_ok (view k) qs ss rs ls ps ms = task_ok k qs ss rs ls ps ms"
  by (simp add: task_ok_def ready_lists_def sleep_list_def retired_list_def registry_def family_def placed_def view_def tview_def pview_def)

lemma task_ok_view: "view k' = view k \<Longrightarrow> task_ok k' qs ss rs ls ps ms = task_ok k qs ss rs ls ps ms"
  by (metis task_ok_of_view)

lemma viewD:
  assumes "view k' = view k"
  shows "thread_state (threads k' x) = thread_state (threads k x)" "current_priority (threads k' x) = current_priority (threads k x)"
    "wake_tick (threads k' x) = wake_tick (threads k x)" "in_ready_queue (threads k' x) = in_ready_queue (threads k x)"
    "thread_parent (threads k' x) = thread_parent (threads k x)"
    "g_idle_thread k' = g_idle_thread k" "g_current_thread k' = g_current_thread k" "g_ready_count k' = g_ready_count k"
    "g_ready_bitmap k' = g_ready_bitmap k" "g_retired_thread_head k' = g_retired_thread_head k"
    "process_head k' = process_head k" "kernel_root_table k' = kernel_root_table k"
    "process_address_space (processes k' p) = process_address_space (processes k p)"
    "rnext k' x = rnext k x"
proof -
  have t: "tview (threads k' x) = tview (threads k x)" using arg_cong [OF assms, of "\<lambda>k. threads k x"] by (simp add: view_def)
  have p: "pview (processes k' p) = pview (processes k p)" using arg_cong [OF assms, of "\<lambda>k. processes k p"] by (simp add: view_def)
  show "thread_state (threads k' x) = thread_state (threads k x)" "current_priority (threads k' x) = current_priority (threads k x)"
    "wake_tick (threads k' x) = wake_tick (threads k x)" "in_ready_queue (threads k' x) = in_ready_queue (threads k x)"
    "thread_parent (threads k' x) = thread_parent (threads k x)" "rnext k' x = rnext k x"
    using t by (cases "threads k' x"; cases "threads k x"; simp add: tview_def)+
  show "process_address_space (processes k' p) = process_address_space (processes k p)"
    using p by (cases "processes k' p"; cases "processes k p"; simp add: pview_def zero_process_def)
  show "g_idle_thread k' = g_idle_thread k" "g_current_thread k' = g_current_thread k" "g_ready_count k' = g_ready_count k"
    "g_ready_bitmap k' = g_ready_bitmap k" "g_retired_thread_head k' = g_retired_thread_head k"
    "process_head k' = process_head k" "kernel_root_table k' = kernel_root_table k"
    using arg_cong [OF assms, of g_idle_thread] arg_cong [OF assms, of g_current_thread] arg_cong [OF assms, of g_ready_count]
      arg_cong [OF assms, of g_ready_bitmap] arg_cong [OF assms, of g_retired_thread_head] arg_cong [OF assms, of process_head]
      arg_cong [OF assms, of kernel_root_table] by (simp_all add: view_def)
qed

text \<open>Steps the invariant does not see.\<close>

lemma view_upd: "(\<And>x. tview (f x) = tview x) \<Longrightarrow> view (upd t f k) = view k"
  by (simp add: view_def upd_def fun_eq_iff)

lemma view_updp: "(\<And>x. pview (f x) = pview x) \<Longrightarrow> view (updp p f k) = view k"
  by (simp add: view_def updp_def fun_eq_iff)

lemma view_globals [simp]:
  "view (k\<lparr>g_current_process := a\<rparr>) = view k" "view (k\<lparr>g_tick_count := b\<rparr>) = view k"
  "view (k\<lparr>g_reschedule_pending := c\<rparr>) = view k" "view (k\<lparr>g_lower_el_irq_preempt_trace_emitted := c\<rparr>) = view k"
  "view (k\<lparr>g_lower_el_irq_resume_current_trace_emitted := c\<rparr>) = view k" "view (k\<lparr>g_irqhandoff_bind_trace_count := d\<rparr>) = view k"
  "view (k\<lparr>g_irqhandoff_ready_trace_count := d\<rparr>) = view k" "view (k\<lparr>process_count_value := b\<rparr>) = view k"
  "view (k\<lparr>exit_records := e\<rparr>) = view k" "view (k\<lparr>g_objects := l\<rparr>) = view k" "view (k\<lparr>ttbr0 := b\<rparr>) = view k"
  "view (k\<lparr>heap_requests := n\<rparr>) = view k" "view (call x k) = view k" "view (updb f k) = view k" "view (upds s g k) = view k"
  "view (k\<lparr>g_next_thread_id := b\<rparr>) = view k"
  by (simp_all add: view_def call_def updb_def upds_def)

lemma view_same_tasks: "same_tasks k k' \<Longrightarrow> view k' = view k"
  by (cases k; cases k') (simp add: same_tasks_def view_def)

lemma view_reset_quantum [simp]: "view (reset_quantum t k) = view k"
  unfolding reset_quantum_def by (rule view_upd) (simp add: tview_def full_quantum_def)

lemma view_request_reschedule [simp]: "view (request_reschedule t k) = view k"
  by (simp add: request_reschedule_def Let_def split: option.split)

lemma view_mark_parent_running [simp]: "view (mark_parent_running t k) = view k"
  unfolding mark_parent_running_def by (simp add: view_updp pview_def split: option.split)

lemma view_trace [simp]: "view (trace_irqhandoff_bind_window t k) = view k" "view (trace_irqhandoff_ready_window e t k) = view k"
  "view (trace_lower_el_irq_preemption_once r f k) = view k" "view (trace_lower_el_irq_resume_current_once f k) = view k"
  by (simp_all add: trace_irqhandoff_bind_window_def trace_irqhandoff_ready_window_def trace_lower_el_irq_preemption_once_def
      trace_lower_el_irq_resume_current_once_def)

lemma view_save_chain [simp]: "view (save_chain p c k) = view k"
  unfolding save_chain_def by (simp add: view_upd tview_def split: option.split)


section \<open>Consequences\<close>

lemma task_okD:
  assumes "task_ok k qs ss rs ls ps ms"
  shows "ready_lists k qs" "sleep_list k ss" "retired_list k rs" "registry k ls" "family k ls ps ms" "placed k qs ss rs ls"
  using assms by (simp_all add: task_ok_def)

lemma task_ok_idle:
  assumes "task_ok k qs ss rs ls ps ms"
  obtains i where "g_idle_thread k = Some i" "i \<in> set ls" "loose i qs ss rs"
  using task_okD(6) [OF assms] unfolding placed_def loose_def by (metis)

lemma loose_state:
  assumes "task_ok k qs ss rs ls ps ms" "thread_state (threads k t) \<notin> {ThreadReady, ThreadWaiting, ThreadTerminated}"
  shows "loose t qs ss rs"
  using task_okD(6) [OF assms(1)] assms(2) by (auto simp: placed_def loose_def)

lemma loose_not_ready: "task_ok k qs ss rs ls ps ms \<Longrightarrow> loose t qs ss rs \<Longrightarrow> \<not> in_ready_queue (threads k t)"
  using ready_lists_mem [OF task_okD(1)] by (auto simp: loose_def)

lemma queues_small:
  assumes ok: "task_ok k qs ss rs ls ps ms" shows "(\<Sum>q<32. length (qs q)) < 2 ^ 64"
proof -
  have d: "distinct (qs q)" for q using ready_lists_dll [OF task_okD(1) [OF ok]] by (rule dll_distinct)
  have dj: "set (qs i) \<inter> set (qs j) = {}" if "i \<noteq> j" for i j
    using ready_lists_mem [OF task_okD(1) [OF ok]] that by auto
  have "(\<Sum>q<32. length (qs q)) = (\<Sum>q<32. card (set (qs q)))" by (simp only: distinct_card [OF d])
  also have "\<dots> = card (\<Union>q<32. set (qs q))" by (rule card_UN_disjoint [symmetric]) (use dj in auto)
  also have "\<dots> \<le> card (set ls)"
    using task_okD(6) [OF ok] by (intro card_mono) (auto simp: placed_def)
  also have "\<dots> \<le> card {0::nat<..<2 ^ 64}"
    using task_okD(4) [OF ok] by (intro card_mono) (auto simp: registry_def)
  finally show ?thesis by simp
qed

lemma ready_count_zero:
  assumes ok: "task_ok k qs ss rs ls ps ms" shows "g_ready_count k = 0 \<longleftrightarrow> (\<forall>q. qs q = [])"
proof -
  have "unat (g_ready_count k) = (\<Sum>q<32. length (qs q))"
    by (rule unat_eq_of_nat [OF ready_lists_count [OF task_okD(1) [OF ok]] queues_small [OF ok]])
  then have "g_ready_count k = 0 \<longleftrightarrow> (\<forall>q<32. qs q = [])"
    unfolding unat_eq_0 [symmetric] by (simp only: sum_eq_0_iff finite_lessThan length_0_conv) auto
  then show ?thesis using ready_lists_high [OF task_okD(1) [OF ok]] by (metis not_le)
qed

section \<open>Steps on a thread that is in no queue\<close>

definition links_of :: "Thread \<Rightarrow> bool \<times> ptr option list" where
  "links_of x = (in_ready_queue x, [sleep_next x, sleep_prev x, thread_next x, thread_prev x, process_next x, process_prev x, thread_parent x])"

lemma task_ok_loose_upd:
  assumes ok: "task_ok k qs ss rs ls ps ms" and t: "loose t qs ss rs" and f: "\<And>x. links_of (f x) = links_of x"
    and pr: "t \<in> set ls \<Longrightarrow> unat (current_priority (f (threads k t))) < 32"
  shows "task_ok (upd t f k) qs ss rs ls ps ms"
proof -
  have same: "in_ready_queue (f x) = in_ready_queue x" "sleep_next (f x) = sleep_next x" "sleep_prev (f x) = sleep_prev x"
    "thread_next (f x) = thread_next x" "thread_prev (f x) = thread_prev x" "process_next (f x) = process_next x"
    "process_prev (f x) = process_prev x" "thread_parent (f x) = thread_parent x" for x
    using f [of x] by (simp_all add: links_of_def)
  have out: "\<And>q. t \<notin> set (qs q)" "t \<notin> set ss" "t \<notin> set rs" using t by (auto simp: loose_def)
  have r: "dll (rnext (upd t f k)) (rprev (upd t f k)) h l (qs q) = dll (rnext k) (rprev k) h l (qs q)" for h l q
    by (rule dll_cong) (use out in \<open>auto simp: upd_def\<close>)
  have "ready_lists (upd t f k) qs"
    using task_okD(1) [OF ok] out(1) loose_not_ready [OF ok t] unfolding ready_lists_def r by (auto simp: upd_def same)
  moreover have "sleep_list (upd t f k) ss"
  proof -
    have w: "map (\<lambda>x. wake_tick (threads (upd t f k) x)) ss = map (\<lambda>x. wake_tick (threads k x)) ss" using out(2) by (auto simp: upd_def)
    have "snext (upd t f k) x = snext k x" "sprev (upd t f k) x = sprev k x" "g_sleep_head (upd t f k) = g_sleep_head k"
      "g_sleep_tail (upd t f k) = g_sleep_tail k" for x by (simp_all add: upd_def same)
    then show ?thesis using task_okD(2) [OF ok] unfolding sleep_list_def w by simp
  qed
  moreover have "retired_list (upd t f k) rs"
  proof -
    have "slist (rnext (upd t f k)) rs = slist (rnext k) rs" by (rule slist_cong) (use out(3) in \<open>auto simp: upd_def\<close>)
    moreover have "g_retired_thread_head (upd t f k) = g_retired_thread_head k" "g_retired_thread_tail (upd t f k) = g_retired_thread_tail k"
      by (simp_all add: upd_def)
    ultimately show ?thesis using task_okD(3) [OF ok] by (simp add: retired_list_def)
  qed
  moreover have "registry (upd t f k) ls"
  proof -
    have "tnext (upd t f k) x = tnext k x" "tprev (upd t f k) x = tprev k x" "g_thread_head (upd t f k) = g_thread_head k"
      "g_thread_tail (upd t f k) = g_thread_tail k" "g_thread_count (upd t f k) = g_thread_count k" for x by (simp_all add: upd_def same)
    then show ?thesis using task_okD(4) [OF ok] unfolding registry_def by simp
  qed
  moreover have "family (upd t f k) ls ps ms"
  proof -
    have "mnext (upd t f k) x = mnext k x" "mprev (upd t f k) x = mprev k x" "thread_parent (threads (upd t f k) x) = thread_parent (threads k x)"
      "processes (upd t f k) = processes k" "process_head (upd t f k) = process_head k" "process_tail (upd t f k) = process_tail k"
      "kernel_root_table (upd t f k) = kernel_root_table k" for x by (simp_all add: upd_def same)
    then show ?thesis using task_okD(5) [OF ok] unfolding family_def by simp
  qed
  moreover have "placed (upd t f k) qs ss rs ls"
    using task_okD(6) [OF ok] out pr by (auto simp: placed_def upd_def)
  ultimately show ?thesis by (simp add: task_ok_def)
qed

lemma task_ok_set_state:
  "task_ok k qs ss rs ls ps ms \<Longrightarrow> loose t qs ss rs \<Longrightarrow> task_ok (upd t (\<lambda>x. x\<lparr>thread_state := s\<rparr>) k) qs ss rs ls ps ms"
  by (rule task_ok_loose_upd) (auto simp: links_of_def task_ok_def placed_def)

lemma task_ok_current [simp]: "task_ok (k\<lparr>g_current_thread := c\<rparr>) qs ss rs ls ps ms = task_ok k qs ss rs ls ps ms"
  by (simp add: task_ok_def ready_lists_def sleep_list_def retired_list_def registry_def family_def placed_def)


section \<open>Steps on the queues\<close>

lemma task_ok_only_ready:
  assumes ok: "task_ok k qs ss rs ls ps ms" and o: "only_ready k k'" and r: "ready_lists k' qs'"
    and rs: "\<And>x. x \<in> set rs \<Longrightarrow> rnext k' x = rnext k x"
    and mem: "\<And>q x. x \<in> set (qs' q) \<Longrightarrow> \<forall>i. x \<notin> set (qs i) \<Longrightarrow> thread_state (threads k x) = ThreadReady \<and> wake_tick (threads k x) = 0 \<and> x \<in> set ls \<and> g_idle_thread k \<noteq> Some x"
  shows "task_ok k' qs' ss rs ls ps ms"
proof -
  note d = only_readyD [OF o]
  have "sleep_list k' ss" using task_okD(2) [OF ok] by (simp add: sleep_list_def d)
  moreover have "retired_list k' rs"
    using task_okD(3) [OF ok] slist_cong [of rs "rnext k'" "rnext k", OF rs] by (simp add: retired_list_def d)
  moreover have "registry k' ls" using task_okD(4) [OF ok] by (simp add: registry_def d)
  moreover have "family k' ls ps ms" using task_okD(5) [OF ok] by (simp add: family_def d)
  moreover have "thread_state (threads k x) = ThreadReady \<and> wake_tick (threads k x) = 0 \<and> x \<in> set ls \<and> g_idle_thread k \<noteq> Some x"
    if "x \<in> set (qs' q)" for q x using mem [OF that] task_okD(6) [OF ok] by (auto simp: placed_def)
  then have "placed k' qs' ss rs ls" using task_okD(6) [OF ok] by (simp add: placed_def d)
  ultimately show ?thesis using r by (simp add: task_ok_def)
qed

lemma queued_facts:
  assumes "task_ok k qs ss rs ls ps ms" "x \<in> set (qs i)"
  shows "thread_state (threads k x) = ThreadReady" "wake_tick (threads k x) = 0" "x \<in> set ls" "g_idle_thread k \<noteq> Some x"
    and "x \<notin> set ss" "x \<notin> set rs" "\<And>j. j \<noteq> i \<Longrightarrow> x \<notin> set (qs j)"
proof -
  show "thread_state (threads k x) = ThreadReady" "wake_tick (threads k x) = 0" "x \<in> set ls" "g_idle_thread k \<noteq> Some x"
    using task_okD(6) [OF assms(1)] assms(2) by (simp_all add: placed_def)
  then show "x \<notin> set ss" "x \<notin> set rs" using task_okD(6) [OF assms(1)] by (auto simp: placed_def)
  show "\<And>j. j \<noteq> i \<Longrightarrow> x \<notin> set (qs j)" using ready_lists_mem [OF task_okD(1) [OF assms(1)]] assms(2) by auto
qed

lemma task_ok_push:
  assumes ok: "task_ok k qs ss rs ls ps ms" and t: "loose t qs ss rs" "t \<in> set ls" "thread_state (threads k t) = ThreadReady"
    "wake_tick (threads k t) = 0" "g_idle_thread k \<noteq> Some t"
  defines "q \<equiv> prio k t"
  obtains k' where "ready_queue_push t at_tail k = (StatusOK, k')" "only_ready k k'"
    "task_ok k' (qs(q := if at_tail then qs q @ [t] else t # qs q)) ss rs ls ps ms"
proof -
  let ?k' = "snd (ready_queue_push t at_tail k)"
  have p: "prio k t < 32" using task_okD(6) [OF ok] t(2) by (simp add: placed_def)
  have e: "thread_can_enter_ready_queue k t" using t(3,5) by (auto simp: thread_can_enter_ready_queue_def thread_is_runnable_def)
  note P = ready_queue_push_ok [OF task_okD(1) [OF ok] e p loose_not_ready [OF ok t(1)], where at_tail = at_tail]
  note st = queued_facts [OF ok]
  have "rnext ?k' x = rnext k x" if "x \<in> set rs" for x
    using P(4) [of x] st(6) [of x "prio k t"] t(1) that by (cases "x = t"; cases "x \<in> set (qs (prio k t))") (auto simp: loose_def)
  then have "task_ok ?k' (qs(q := if at_tail then qs q @ [t] else t # qs q)) ss rs ls ps ms"
    using P(2) t unfolding q_def by (intro task_ok_only_ready [OF ok P(3)]) (auto split: if_splits)
  then show ?thesis using that P(1,3) by (metis prod.collapse)
qed

lemma task_ok_unready:
  assumes ok: "task_ok k qs ss rs ls ps ms" and t: "in_ready_queue (threads k t)"
  defines "q \<equiv> prio k t"
  shows "task_ok (ready_queue_remove t k) (qs(q := remove1 t (qs q))) ss rs ls ps ms"
    and "loose t (qs(q := remove1 t (qs q))) ss rs" and "only_ready k (ready_queue_remove t k)"
proof -
  note R = ready_queue_remove_ok [OF task_okD(1) [OF ok] t queues_small [OF ok]]
  have tq: "t \<in> set (qs q)" using ready_lists_mem [OF task_okD(1) [OF ok]] t by (simp add: q_def)
  note st = queued_facts [OF ok]
  have "rnext (ready_queue_remove t k) x = rnext k x" if "x \<in> set rs" for x
    using R(7) [of x] st(6) [of x "prio k t"] that by (cases "x \<in> set (qs (prio k t))") auto
  then show "task_ok (ready_queue_remove t k) (qs(q := remove1 t (qs q))) ss rs ls ps ms"
    using R(1) unfolding q_def by (intro task_ok_only_ready [OF ok R(2)]) (auto split: if_splits dest: set_remove1_subset [THEN subsetD])
  show "only_ready k (ready_queue_remove t k)" by (rule R(2))
  have "t \<notin> set (remove1 t (qs q))" using dll_distinct [OF ready_lists_dll [OF task_okD(1) [OF ok]], of q] by simp
  then show "loose t (qs(q := remove1 t (qs q))) ss rs" using st(5-7) [OF tq] by (auto simp: loose_def)
qed

lemma task_ok_pop:
  assumes ok: "task_ok k qs ss rs ls ps ms" and ne: "qs q0 \<noteq> []"
  defines "q \<equiv> best_queue qs"
  defines "t \<equiv> hd (qs q)"
  obtains k' where "ready_queue_pop_best k = Some (Some t, k')" "task_ok k' (qs(q := tl (qs q))) ss rs ls ps ms"
    "only_ready k k'" "loose t (qs(q := tl (qs q))) ss rs" "t \<in> set (qs q)"
proof -
  note st = queued_facts [OF ok]
  have fit: "x \<in> set (qs i) \<Longrightarrow> thread_can_enter_ready_queue k x \<and> thread_state (threads k x) = ThreadReady" for x i
    using st(1,4) [of x i] by (auto simp: thread_can_enter_ready_queue_def thread_is_runnable_def)
  obtain k' where P: "ready_queue_pop_best k = Some (Some t, k')" "ready_lists k' (qs(q := tl (qs q)))" "only_ready k k'"
      "\<not> in_ready_queue (threads k' t)" "\<And>x. x \<notin> set (qs q) \<Longrightarrow> threads k' x = threads k x"
    unfolding q_def t_def by (rule ready_queue_pop_best_ok [OF task_okD(1) [OF ok] ne queues_small [OF ok]]) (use fit in auto)
  have q: "qs q \<noteq> []" unfolding q_def by (rule best_queue_props(1) [where q = q0]) (rule ne)
  have tq: "t \<in> set (qs q)" using q by (simp add: t_def)
  have "rnext k' x = rnext k x" if "x \<in> set rs" for x using P(5) [of x] st(6) [of x q] that by (cases "x \<in> set (qs q)") auto
  then have "task_ok k' (qs(q := tl (qs q))) ss rs ls ps ms"
    using P(2) by (intro task_ok_only_ready [OF ok P(3)]) (auto split: if_splits dest: list.set_sel(2) [OF q])
  moreover have "loose t (qs(q := tl (qs q))) ss rs"
    using P(4) ready_lists_mem [OF P(2), of t] st(5,6) [OF tq] by (simp add: loose_def)
  ultimately show ?thesis using that P(1,3) tq by blast
qed


lemma only_sleep_fields:
  assumes "only_sleep k k'"
  shows "thread_state (threads k' x) = thread_state (threads k x)" "current_priority (threads k' x) = current_priority (threads k x)"
    "wake_tick (threads k' x) = wake_tick (threads k x)" "in_ready_queue (threads k' x) = in_ready_queue (threads k x)"
    "ready_next (threads k' x) = ready_next (threads k x)" "ready_prev (threads k' x) = ready_prev (threads k x)"
    "thread_next (threads k' x) = thread_next (threads k x)" "thread_prev (threads k' x) = thread_prev (threads k x)"
    "process_next (threads k' x) = process_next (threads k x)" "process_prev (threads k' x) = process_prev (threads k x)"
    "thread_parent (threads k' x) = thread_parent (threads k x)" "thread_context (threads k' x) = thread_context (threads k x)"
    "quantum_ticks_remaining (threads k' x) = quantum_ticks_remaining (threads k x)" "thread_id (threads k' x) = thread_id (threads k x)"
    "ready_head k' = ready_head k" "ready_tail k' = ready_tail k" "g_ready_bitmap k' = g_ready_bitmap k" "g_ready_count k' = g_ready_count k"
    "g_idle_thread k' = g_idle_thread k" "g_current_thread k' = g_current_thread k" "g_retired_thread_head k' = g_retired_thread_head k"
    "g_retired_thread_tail k' = g_retired_thread_tail k" "g_thread_head k' = g_thread_head k" "g_thread_tail k' = g_thread_tail k"
    "process_head k' = process_head k" "process_tail k' = process_tail k" "processes k' = processes k" "broker k' = broker k"
    "kernel_root_table k' = kernel_root_table k" "g_tick_count k' = g_tick_count k" "g_thread_count k' = g_thread_count k"
proof -
  have x: "sleep_rest (threads k' x) = sleep_rest (threads k x)" using assms by (simp add: only_sleep_def)
  have e: "k'\<lparr>threads := threads k, g_sleep_head := g_sleep_head k, g_sleep_tail := g_sleep_tail k\<rparr> = k"
    using assms by (simp add: only_sleep_def)
  show "thread_state (threads k' x) = thread_state (threads k x)" "current_priority (threads k' x) = current_priority (threads k x)"
    "wake_tick (threads k' x) = wake_tick (threads k x)" "in_ready_queue (threads k' x) = in_ready_queue (threads k x)"
    "ready_next (threads k' x) = ready_next (threads k x)" "ready_prev (threads k' x) = ready_prev (threads k x)"
    "thread_next (threads k' x) = thread_next (threads k x)" "thread_prev (threads k' x) = thread_prev (threads k x)"
    "process_next (threads k' x) = process_next (threads k x)" "process_prev (threads k' x) = process_prev (threads k x)"
    "thread_parent (threads k' x) = thread_parent (threads k x)" "thread_context (threads k' x) = thread_context (threads k x)"
    "quantum_ticks_remaining (threads k' x) = quantum_ticks_remaining (threads k x)" "thread_id (threads k' x) = thread_id (threads k x)"
    using x by (cases "threads k' x"; cases "threads k x"; simp add: sleep_rest_def)+
  show "ready_head k' = ready_head k" "ready_tail k' = ready_tail k" "g_ready_bitmap k' = g_ready_bitmap k" "g_ready_count k' = g_ready_count k"
    "g_idle_thread k' = g_idle_thread k" "g_current_thread k' = g_current_thread k" "g_retired_thread_head k' = g_retired_thread_head k"
    "g_retired_thread_tail k' = g_retired_thread_tail k" "g_thread_head k' = g_thread_head k" "g_thread_tail k' = g_thread_tail k"
    "process_head k' = process_head k" "process_tail k' = process_tail k" "processes k' = processes k" "broker k' = broker k"
    "kernel_root_table k' = kernel_root_table k" "g_tick_count k' = g_tick_count k" "g_thread_count k' = g_thread_count k"
    using e by (cases k; cases k'; simp)+
qed

lemma task_ok_only_sleep:
  assumes ok: "task_ok k qs ss rs ls ps ms" and o: "only_sleep k k'" and s: "sleep_list k' ss'"
    and mem: "\<And>x. x \<in> set ss' \<Longrightarrow> x \<notin> set ss \<Longrightarrow> thread_state (threads k x) = ThreadWaiting \<and> x \<in> set ls \<and> g_idle_thread k \<noteq> Some x"
  shows "task_ok k' qs ss' rs ls ps ms"
proof -
  note d = only_sleep_fields [OF o]
  have "ready_lists k' qs" using task_okD(1) [OF ok] by (simp add: ready_lists_def d)
  moreover have "retired_list k' rs" using task_okD(3) [OF ok] by (simp add: retired_list_def d)
  moreover have "registry k' ls" using task_okD(4) [OF ok] by (simp add: registry_def d)
  moreover have "family k' ls ps ms" using task_okD(5) [OF ok] by (simp add: family_def d)
  moreover have "thread_state (threads k x) = ThreadWaiting \<and> x \<in> set ls \<and> g_idle_thread k \<noteq> Some x" if "x \<in> set ss'" for x
    using mem [OF that] task_okD(6) [OF ok] by (auto simp: placed_def)
  then have "placed k' qs ss' rs ls" using task_okD(6) [OF ok] by (simp add: placed_def d)
  ultimately show ?thesis using s by (simp add: task_ok_def)
qed

lemma sleeper_facts:
  assumes "task_ok k qs ss rs ls ps ms" "x \<in> set ss"
  shows "thread_state (threads k x) = ThreadWaiting" "x \<in> set ls" "g_idle_thread k \<noteq> Some x" "x \<notin> set rs" "x \<notin> set (qs q)"
  using task_okD(6) [OF assms(1)] assms(2) by (auto simp: placed_def)

lemma task_ok_unsleep:
  assumes ok: "task_ok k qs ss rs ls ps ms"
  shows "task_ok (sleep_queue_remove t k) qs (remove1 t ss) rs ls ps ms" and "only_sleep k (sleep_queue_remove t k)"
proof -
  note S = sleep_queue_remove_ok [OF task_okD(2) [OF ok], of t]
  show "task_ok (sleep_queue_remove t k) qs (remove1 t ss) rs ls ps ms"
    by (rule task_ok_only_sleep [OF ok S(2) S(1)]) (use set_remove1_subset [of t ss] in blast)+
  show "only_sleep k (sleep_queue_remove t k)" by (rule S(2))
qed

lemma task_ok_sleep:
  assumes ok: "task_ok k qs ss rs ls ps ms"
    and t: "loose t qs ss rs" "t \<in> set ls" "thread_state (threads k t) = ThreadWaiting" "g_idle_thread k \<noteq> Some t"
  defines "early \<equiv> \<lambda>x. wake_tick (threads k x) \<le> wake_tick (threads k t)"
  obtains k' where "sleep_queue_insert_sorted t k = Some k'" "only_sleep k k'"
    "task_ok k' qs (takeWhile early ss @ t # dropWhile early ss) rs ls ps ms"
proof -
  have out: "t \<notin> set ss" using t(1) by (simp add: loose_def)
  obtain k' where S: "sleep_queue_insert_sorted t k = Some k'" "sleep_list k' (takeWhile early ss @ t # dropWhile early ss)" "only_sleep k k'"
    unfolding early_def by (rule sleep_queue_insert_sorted_ok [OF task_okD(2) [OF ok] out])
  have "task_ok k' qs (takeWhile early ss @ t # dropWhile early ss) rs ls ps ms"
    by (rule task_ok_only_sleep [OF ok S(3) S(2)])
      (use t in \<open>auto dest: set_takeWhileD set_dropWhileD\<close>)
  then show ?thesis using that S by blast
qed

section \<open>The retired list\<close>

lemma task_ok_retire:
  assumes ok: "task_ok k qs ss rs ls ps ms"
    and t: "loose t qs ss rs" "t \<in> set ls" "thread_state (threads k t) = ThreadTerminated" "g_idle_thread k \<noteq> Some t"
  shows "task_ok (queue_retired_thread t k) qs ss (rs @ [t]) ls ps ms"
proof -
  let ?k = "queue_retired_thread t k"
  note rl = task_okD(3) [OF ok, unfolded retired_list_def]
  have tl: "g_retired_thread_tail k = last_of None rs" and hd: "g_retired_thread_head k = first_of rs None" using rl by auto
  have th: "threads ?k x = (if x = t then (threads k x)\<lparr>ready_next := None\<rparr>
      else if last_of None rs = Some x then (threads k x)\<lparr>ready_next := Some t\<rparr> else threads k x)" for x
    using t(1) tl by (auto simp: queue_retired_thread_def Let_def upd_def loose_def split: option.splits dest: last_of_in)
  have glob: "g_retired_thread_tail ?k = Some t" "g_retired_thread_head ?k = (if rs = [] then Some t else first_of rs None)"
    using tl hd by (auto simp: queue_retired_thread_def Let_def upd_def split: option.splits)
  have same: "ready_head ?k = ready_head k" "ready_tail ?k = ready_tail k" "g_ready_bitmap ?k = g_ready_bitmap k" "g_ready_count ?k = g_ready_count k"
    "g_idle_thread ?k = g_idle_thread k" "g_sleep_head ?k = g_sleep_head k" "g_sleep_tail ?k = g_sleep_tail k"
    "g_thread_head ?k = g_thread_head k" "g_thread_tail ?k = g_thread_tail k" "process_head ?k = process_head k"
    "process_tail ?k = process_tail k" "processes ?k = processes k" "kernel_root_table ?k = kernel_root_table k" "g_thread_count ?k = g_thread_count k"
    by (simp_all add: queue_retired_thread_def Let_def upd_def split: option.split)
  have fld: "thread_state (threads ?k x) = thread_state (threads k x)" "current_priority (threads ?k x) = current_priority (threads k x)"
    "wake_tick (threads ?k x) = wake_tick (threads k x)" "in_ready_queue (threads ?k x) = in_ready_queue (threads k x)"
    "ready_prev (threads ?k x) = ready_prev (threads k x)" "sleep_next (threads ?k x) = sleep_next (threads k x)" "sleep_prev (threads ?k x) = sleep_prev (threads k x)"
    "thread_next (threads ?k x) = thread_next (threads k x)" "thread_prev (threads ?k x) = thread_prev (threads k x)"
    "process_next (threads ?k x) = process_next (threads k x)" "process_prev (threads ?k x) = process_prev (threads k x)"
    "thread_parent (threads ?k x) = thread_parent (threads k x)" for x
    by (simp_all add: th)
  have nq: "rnext ?k x = rnext k x" if "x \<in> set (qs q)" for x q
    using queued_facts(6) [OF ok that] that t(1) by (auto simp: th loose_def dest: last_of_in)
  have "dll (rnext ?k) (rprev ?k) h l (qs q) = dll (rnext k) (rprev k) h l (qs q)" for h l q
    by (rule dll_cong) (simp add: nq fld)
  then have "ready_lists ?k qs" using task_okD(1) [OF ok] by (simp add: ready_lists_def same fld)
  moreover have "retired_list ?k (rs @ [t])"
  proof -
    have "slist (rnext ?k) (rs @ [t]) = slist (\<lambda>y. if y = t then None else if last_of None rs = Some y then Some t else rnext k y) (rs @ [t])"
      by (rule slist_cong) (simp add: th)
    then show ?thesis using rl slist_snoc [of "rnext k" rs t] t(1) glob by (cases rs) (auto simp: retired_list_def loose_def first_of_append)
  qed
  moreover have "sleep_list ?k ss" using task_okD(2) [OF ok] by (simp add: sleep_list_def same fld)
  moreover have "registry ?k ls" using task_okD(4) [OF ok] by (simp add: registry_def same fld)
  moreover have "family ?k ls ps ms" using task_okD(5) [OF ok] by (simp add: family_def same fld)
  moreover have "placed ?k qs ss (rs @ [t]) ls" using task_okD(6) [OF ok] t by (auto simp: placed_def same fld)
  ultimately show ?thesis by (simp add: task_ok_def)
qed

end
