(* ===== verification/Kernel_Destroy.thy ===== *)
theory Kernel_Destroy
  imports Kernel_Inv
begin

text \<open>
  Destroying threads and processes keeps the invariant: the thread leaves every list it is in, no link to
  it remains, and the last thread of a process takes the process with it. The teardown returns, and with
  success.
\<close>

lemma quiet_broker: "broker k' = broker k \<Longrightarrow> quiet k' = quiet k"
  by (simp add: quiet_def quiet_list_def sub_def)

text \<open>A thread without its links; what a teardown leaves alone of the threads outside \<open>T\<close>.\<close>

definition lrest :: "Thread \<Rightarrow> Thread" where
  "lrest x = x\<lparr>ready_next := None, ready_prev := None, in_ready_queue := False, sleep_next := None, sleep_prev := None,
     thread_next := None, thread_prev := None, process_next := None, process_prev := None\<rparr>"

definition spares :: "ptr set \<Rightarrow> Kernel \<Rightarrow> Kernel \<Rightarrow> bool" where
  "spares T k k' \<longleftrightarrow>
     (\<forall>x. x \<notin> T \<longrightarrow> lrest (threads k' x) = lrest (threads k x))
     \<and> g_idle_thread k' = g_idle_thread k \<and> g_tick_count k' = g_tick_count k
     \<and> (g_current_thread k' = g_current_thread k \<or> g_current_thread k' = None \<and> (\<exists>c \<in> T. g_current_thread k = Some c))"

named_theorems spares_rules \<open>how the frame of a teardown composes\<close>

lemma spares_refl [spares_rules]: "spares T k k"
  by (simp add: spares_def)

lemma spares_trans: "spares T k k1 \<Longrightarrow> spares U k1 k2 \<Longrightarrow> spares (T \<union> U) k k2"
  unfolding spares_def by (metis Un_iff)

lemma spares_mono: "spares T k k1 \<Longrightarrow> T \<subseteq> U \<Longrightarrow> spares U k k1"
  by (auto simp: spares_def)

lemma spares_upd [spares_rules]:
  "spares T k k1 \<Longrightarrow> t \<in> T \<or> (\<forall>x. lrest (f x) = lrest x) \<Longrightarrow> spares T k (upd t f k1)"
  by (auto simp: spares_def upd_def)

lemma spares_steps [spares_rules]:
  "spares T k k1 \<Longrightarrow> spares T k (updp p g k1)" "spares T k k1 \<Longrightarrow> spares T k (call e k1)"
  "spares T k k1 \<Longrightarrow> spares T k (k1\<lparr>g_thread_head := a\<rparr>)" "spares T k k1 \<Longrightarrow> spares T k (k1\<lparr>g_thread_tail := a\<rparr>)"
  "spares T k k1 \<Longrightarrow> spares T k (k1\<lparr>g_thread_count := n\<rparr>)" "spares T k k1 \<Longrightarrow> spares T k (k1\<lparr>g_objects := l\<rparr>)"
  "spares T k k1 \<Longrightarrow> spares T k (k1\<lparr>g_retired_thread_head := a\<rparr>)" "spares T k k1 \<Longrightarrow> spares T k (k1\<lparr>g_retired_thread_tail := a\<rparr>)"
  "spares T k k1 \<Longrightarrow> spares T k (k1\<lparr>process_head := a\<rparr>)" "spares T k k1 \<Longrightarrow> spares T k (k1\<lparr>process_tail := a\<rparr>)"
  "spares T k k1 \<Longrightarrow> spares T k (k1\<lparr>process_count_value := n\<rparr>)" "spares T k k1 \<Longrightarrow> spares T k (k1\<lparr>exit_records := e'\<rparr>)"
  "spares T k k1 \<Longrightarrow> spares T k (k1\<lparr>g_current_process := a\<rparr>)" "spares T k k1 \<Longrightarrow> spares T k (k1\<lparr>heap_requests := m\<rparr>)"
  by (simp_all add: spares_def updp_def call_def)

lemma spares_branch [spares_rules]:
  "(b \<Longrightarrow> spares T k k1) \<Longrightarrow> (\<not> b \<Longrightarrow> spares T k k2) \<Longrightarrow> spares T k (if b then k1 else k2)"
  "spares T k k1 \<Longrightarrow> (\<And>p. spares T k (g p)) \<Longrightarrow> spares T k (case m of None \<Rightarrow> k1 | Some p \<Rightarrow> g p)"
  by (auto split: option.split)

lemma spares_same_tasks: "same_tasks k k' \<Longrightarrow> spares T k k'"
  by (cases k; cases k') (simp add: same_tasks_def spares_def)

lemma spares_only_ready: "only_ready k k' \<Longrightarrow> spares T k k'"
  unfolding spares_def
proof (intro conjI allI impI)
  assume o: "only_ready k k'"
  show "lrest (threads k' x) = lrest (threads k x)" for x
  proof -
    have "ready_rest (threads k' x) = ready_rest (threads k x)" using o by (simp add: only_ready_def)
    moreover have "lrest y = lrest (ready_rest y)" for y by (simp add: lrest_def ready_rest_def)
    ultimately show ?thesis by metis
  qed
qed (simp_all add: only_readyD)

lemma spares_only_sleep: "only_sleep k k' \<Longrightarrow> spares T k k'"
  unfolding spares_def
proof (intro conjI allI impI)
  assume o: "only_sleep k k'"
  show "lrest (threads k' x) = lrest (threads k x)" for x
  proof -
    have "sleep_rest (threads k' x) = sleep_rest (threads k x)" using o by (simp add: only_sleep_def)
    moreover have "lrest y = lrest (sleep_rest y)" for y by (simp add: lrest_def sleep_rest_def)
    ultimately show ?thesis by metis
  qed
qed (simp_all add: only_sleep_fields)

lemma sparesD:
  assumes "spares T k k'" "x \<notin> T"
  shows "thread_state (threads k' x) = thread_state (threads k x)" "current_priority (threads k' x) = current_priority (threads k x)"
    "wake_tick (threads k' x) = wake_tick (threads k x)" "wait_status (threads k' x) = wait_status (threads k x)"
    "thread_context (threads k' x) = thread_context (threads k x)" "thread_parent (threads k' x) = thread_parent (threads k x)"
    "thread_id (threads k' x) = thread_id (threads k x)" "quantum_ticks_remaining (threads k' x) = quantum_ticks_remaining (threads k x)"
proof -
  have "lrest (threads k' x) = lrest (threads k x)" using assms by (simp add: spares_def)
  then show "thread_state (threads k' x) = thread_state (threads k x)" "current_priority (threads k' x) = current_priority (threads k x)"
    "wake_tick (threads k' x) = wake_tick (threads k x)" "wait_status (threads k' x) = wait_status (threads k x)"
    "thread_context (threads k' x) = thread_context (threads k x)" "thread_parent (threads k' x) = thread_parent (threads k x)"
    "thread_id (threads k' x) = thread_id (threads k x)" "quantum_ticks_remaining (threads k' x) = quantum_ticks_remaining (threads k x)"
    by (cases "threads k' x"; cases "threads k x"; simp add: lrest_def)+
qed

section \<open>Forgetting a thread\<close>

lemma forget_ok:
  assumes ok: "task_ok k qs ss rs ls ps ms" and t: "t \<notin> set rs"
  defines "qs' \<equiv> \<lambda>q. remove1 t (qs q)"
  shows "task_ok (forget t k) qs' (remove1 t ss) rs ls ps ms" "loose t qs' (remove1 t ss) rs"
    "spares {t} k (forget t k)" "broker (forget t k) = broker k" "g_current_thread (forget t k) \<noteq> Some t"
proof -
  let ?k1 = "if in_ready_queue (threads k t) then ready_queue_remove t k else k"
  let ?k2 = "sleep_queue_remove t ?k1"
  let ?k3 = "if g_current_thread ?k2 = Some t then ?k2\<lparr>g_current_thread := None, g_current_process := None\<rparr> else ?k2"
  have f: "forget t k = upd t (\<lambda>x. x\<lparr>wait_object := None, wait_status := wait_code WaitNone, wake_tick := 0\<rparr>) ?k3"
    by (simp add: forget_def Let_def)
  have o1: "only_ready k ?k1" and ok1: "task_ok ?k1 qs' ss rs ls ps ms" and out: "\<forall>q. t \<notin> set (qs' q)"
  proof -
    have d: "distinct (qs q)" for q using dll_distinct [OF ready_lists_dll [OF task_okD(1) [OF ok]]] .
    then show "\<forall>q. t \<notin> set (qs' q)" by (simp add: qs'_def)
    show "only_ready k ?k1" by (simp add: only_ready_refl only_ready_remove)
    show "task_ok ?k1 qs' ss rs ls ps ms"
    proof (cases "in_ready_queue (threads k t)")
      case True
      have "qs' = qs(prio k t := remove1 t (qs (prio k t)))"
        using ready_lists_mem [OF task_okD(1) [OF ok], of t] by (auto simp: qs'_def fun_eq_iff remove1_idem)
      then show ?thesis using task_ok_unready(1) [OF ok True] True by simp
    next
      case False
      have "qs' = qs" using ready_lists_mem [OF task_okD(1) [OF ok], of t] False by (auto simp: qs'_def fun_eq_iff remove1_idem)
      then show ?thesis using ok False by simp
    qed
  qed
  note S = task_ok_unsleep [OF ok1, of t]
  have "distinct ss" using dll_distinct [OF sleep_list_dll [OF task_okD(2) [OF ok]]] .
  then show l: "loose t qs' (remove1 t ss) rs" using out t by (simp add: loose_def)
  have ok3: "task_ok ?k3 qs' (remove1 t ss) rs ls ps ms"
    using S(1) task_ok_view [of "?k2\<lparr>g_current_thread := None, g_current_process := None\<rparr>" "?k2\<lparr>g_current_thread := None\<rparr>"] by simp
  then show "task_ok (forget t k) qs' (remove1 t ss) rs ls ps ms" unfolding f
    by (rule task_ok_loose_upd [OF _ l]) (use task_okD(6) [OF ok3] in \<open>auto simp: links_of_def placed_def\<close>)
  have "spares {t} k ?k2"
    using spares_trans [OF spares_only_ready [OF o1, of "{t}"] spares_only_sleep [OF S(2), of "{t}"]] by simp
  then show "spares {t} k (forget t k)" unfolding f by (auto simp: spares_def upd_def)
  show "g_current_thread (forget t k) \<noteq> Some t" unfolding f by (simp add: upd_def)
  show "broker (forget t k) = broker k" unfolding f using only_readyD(26) [OF o1] only_sleep_fields(28) [OF S(2)] by (simp add: upd_def)
qed


section \<open>Removing a thread from the registries\<close>

lemma view_release_user_stack [simp]: "view (release_user_stack p t k) = view k"
proof -
  have t: "view (upd t (\<lambda>x. x\<lparr>user_stack_backing := b\<rparr>) k') = view k'"
    "view (upd t (\<lambda>x. x\<lparr>user_stack_bytes := 0, user_stack_slot_index := 0\<rparr>) k') = view k'"
    "view (updp p (\<lambda>y. y\<lparr>user_stack_slot_bitmap := f y\<rparr>) k') = view k'" for k' b f
    by (rule view_upd view_updp; simp add: tview_def pview_def)+
  show ?thesis by (simp add: release_user_stack_def Let_def t split: option.split)
qed

lemma release_user_stack_frame:
  "spares {t} k (release_user_stack p t k)" "broker (release_user_stack p t k) = broker k"
  unfolding release_user_stack_def Let_def
  by (intro spares_rules; simp) (simp add: upd_def updp_def call_def split: option.split)

lemma family_parent:
  assumes "task_ok k qs ss rs ls ps ms" "t \<in> set ls"
  obtains p where "p \<in> set ps" "thread_parent (threads k t) = Some p" "t \<in> set (ms p)"
  using task_okD(5) [OF assms(1)] assms(2) unfolding family_def by metis

lemma count_pred: "x \<in> set xs \<Longrightarrow> length xs < 2 ^ 64 \<Longrightarrow> c = (of_nat (length xs) :: u64) \<Longrightarrow>
    c \<noteq> 0 \<and> c - 1 = of_nat (length (remove1 x xs))"
proof -
  assume x: "x \<in> set xs" and l: "length xs < 2 ^ 64" and c: "c = (of_nat (length xs) :: u64)"
  have "unat c = length xs" by (rule unat_eq_of_nat [OF c l])
  then have "c \<noteq> 0" using x by auto
  moreover have "Suc (length (remove1 x xs)) = length xs" using x length_pos_if_in_set [OF x] by (simp add: length_remove1)
  ultimately show ?thesis unfolding c by (metis add_diff_cancel_right' of_nat_Suc add.commute)
qed

lemma registered_small:
  assumes "task_ok k qs ss rs ls ps ms" shows "length ls < 2 ^ 64" "distinct ls"
proof -
  show d: "distinct ls" using task_okD(4) [OF assms] by (auto simp: registry_def dest: dll_distinct)
  have "card (set ls) \<le> card {0::nat<..<2 ^ 64}" using task_okD(4) [OF assms] by (intro card_mono) (auto simp: registry_def)
  then show "length ls < 2 ^ 64" using distinct_card [OF d] by simp
qed

lemma members_small:
  assumes ok: "task_ok k qs ss rs ls ps ms" and p: "p \<in> set ps"
  shows "length (ms p) < 2 ^ 64" "distinct (ms p)" "set (ms p) \<subseteq> set ls"
proof -
  show d: "distinct (ms p)" using task_okD(5) [OF ok] p by (auto simp: family_def dest: dll_distinct)
  show s: "set (ms p) \<subseteq> set ls" using task_okD(5) [OF ok] p by (auto simp: family_def)
  have "length (ms p) \<le> length ls" using card_mono [OF _ s] distinct_card [OF d] distinct_card [OF registered_small(2) [OF ok]] by simp
  then show "length (ms p) < 2 ^ 64" using registered_small(1) [OF ok] by simp
qed

lemma unlink_thread_threads:
  assumes "tnext k t \<noteq> Some t" "tprev k t \<noteq> Some t"
  shows "threads (unlink_thread t k) x = (if x = t then (threads k t)\<lparr>thread_next := None, thread_prev := None\<rparr>
      else (threads k x)\<lparr>thread_next := (if tprev k t = Some x then tnext k t else tnext k x),
                        thread_prev := (if tnext k t = Some x then tprev k t else tprev k x)\<rparr>)"
  using assms by (cases "tnext k t"; cases "tprev k t") (simp_all add: unlink_thread_def Let_def upd_def)

lemma unlink_thread_globals:
  "g_thread_head (unlink_thread t k) = (if tprev k t = None then tnext k t else g_thread_head k)"
  "g_thread_tail (unlink_thread t k) = (if tnext k t = None then tprev k t else g_thread_tail k)"
  "(unlink_thread t k)\<lparr>threads := threads k, g_thread_head := g_thread_head k, g_thread_tail := g_thread_tail k\<rparr> = k"
  by (cases "tnext k t"; cases "tprev k t"; simp add: unlink_thread_def Let_def upd_def)+

lemma drop_thread_eq:
  fixes t :: ptr and k :: Kernel
  defines "u \<equiv> unlink_thread t k"
  shows "threads (drop_thread t k) = (threads u)(t := zero_thread)"
    and "g_thread_count (drop_thread t k) = (if g_thread_count u \<noteq> 0 then g_thread_count u - 1 else g_thread_count u)"
    and "(drop_thread t k)\<lparr>threads := threads u, g_thread_count := g_thread_count u, g_objects := g_objects u, calls := calls u\<rparr> = u"
  by (cases "kernel_stack_backing (threads u t)"; cases "g_thread_count u = 0";
      simp add: drop_thread_def Let_def unregister_object_def release_thread_slot_def upd_def call_def flip: u_def)+

lemma pview_fields:
  assumes "pview x = y"
  shows "thread_list_head x = thread_list_head y" "thread_list_tail x = thread_list_tail y" "thread_count x = thread_count y"
    "process_address_space x = process_address_space y" "next_process x = next_process y" "prev_process x = prev_process y"
  using assms by (auto simp: pview_def)

text \<open>Detaching the thread from its process, unlinking and releasing it.\<close>

lemma detach_drop_ok:
  assumes ok: "task_ok k qs ss rs ls ps ms" and l: "loose t qs ss rs" and t: "t \<in> set ls" "g_idle_thread k \<noteq> Some t"
    and p: "p \<in> set ps" "thread_parent (threads k t) = Some p"
  defines "k1 \<equiv> snd (detach_thread p t k)"
  defines "k2 \<equiv> drop_thread t k1"
  shows "fst (detach_thread p t k) = StatusOK"
    and "task_ok k2 qs ss rs (remove1 t ls) ps (ms(p := remove1 t (ms p)))" and "spares {t} k k2" "broker k2 = broker k"
    and "g_current_thread k2 = g_current_thread k"
    and "process_state (processes k2 p) = process_state (processes k p)" "process_header (processes k2 p) = process_header (processes k p)"
proof -
  show "fst (detach_thread p t k) = StatusOK" using p by (simp add: detach_thread_def Let_def)
  have tm: "t \<in> set (ms p)" using task_okD(5) [OF ok] p t by (auto simp: family_def)
  have dm: "dll (mnext k) (mprev k) (thread_list_head (processes k p)) (thread_list_tail (processes k p)) (ms p)"
    and cm: "thread_count (processes k p) = of_nat (length (ms p))" using task_okD(5) [OF ok] p by (auto simp: family_def)
  have dt: "dll (tnext k) (tprev k) (g_thread_head k) (g_thread_tail k) ls"
    and ct: "g_thread_count k = of_nat (length ls)" using task_okD(4) [OF ok] by (auto simp: registry_def)
  obtain us vs where uv: "ms p = us @ t # vs" using tm by (auto simp: in_set_conv_decomp)
  obtain us' vs' where uv': "ls = us' @ t # vs'" using t by (auto simp: in_set_conv_decomp)
  have nm: "mnext k t \<noteq> Some t" "mprev k t \<noteq> Some t"
    using dll_next [OF dm [unfolded uv]] dll_prev [OF dm [unfolded uv]] dll_distinct [OF dm] uv by (auto dest!: first_of_in last_of_in)
  have nt: "tnext k t \<noteq> Some t" "tprev k t \<noteq> Some t"
    using dll_next [OF dt [unfolded uv']] dll_prev [OF dt [unfolded uv']] dll_distinct [OF dt] uv' by (auto dest!: first_of_in last_of_in)
  have nonzero: "thread_count (processes k p) \<noteq> 0" "g_thread_count k \<noteq> 0"
    using count_pred [OF tm members_small(1) [OF ok p(1)] cm] count_pred [OF t(1) registered_small(1) [OF ok] ct] by auto
  have th1: "threads k1 x = (if x = t then (threads k t)\<lparr>thread_parent := None, process_next := None, process_prev := None\<rparr>
      else (threads k x)\<lparr>process_next := (if mprev k t = Some x then mnext k t else mnext k x),
                        process_prev := (if mnext k t = Some x then mprev k t else mprev k x)\<rparr>)" for x
    using p nm unfolding k1_def
    by (auto simp: detach_thread_def Let_def upd_def updp_def split: option.splits)
  have pr1: "pview (processes k1 x) = (if x = p then (pview (processes k p))\<lparr>
      thread_list_head := (if mprev k t = None then mnext k t else thread_list_head (processes k p)),
      thread_list_tail := (if mnext k t = None then mprev k t else thread_list_tail (processes k p)),
      thread_count := thread_count (processes k p) - 1\<rparr> else pview (processes k x))" for x
    using p nonzero unfolding k1_def
    by (auto simp: detach_thread_def Let_def upd_def updp_def pview_def split: option.splits)
  have st1: "process_state (processes k1 p) = process_state (processes k p)" "process_header (processes k1 p) = process_header (processes k p)"
    using p unfolding k1_def by (auto simp: detach_thread_def Let_def upd_def updp_def split: option.splits)
  have gl1: "k1\<lparr>threads := threads k, processes := processes k\<rparr> = k"
    using p unfolding k1_def by (auto simp: detach_thread_def Let_def upd_def updp_def split: option.splits)
  have g1: "tnext k1 x = tnext k x" "tprev k1 x = tprev k x" for x by (simp_all add: th1)
  have gg1: "g_thread_head k1 = g_thread_head k" "g_thread_tail k1 = g_thread_tail k" "g_thread_count k1 = g_thread_count k"
    using gl1 by (cases k; cases k1; simp)+
  define u where "u = unlink_thread t k1"
  have uc: "g_thread_count u = g_thread_count k1" using unlink_thread_globals(3) [where t = t and k = k1] by (cases k1; cases u) (simp add: u_def)
  have th2: "threads k2 x = (if x = t then zero_thread
      else (threads k1 x)\<lparr>thread_next := (if tprev k t = Some x then tnext k t else tnext k x),
                         thread_prev := (if tnext k t = Some x then tprev k t else tprev k x)\<rparr>)" for x
    using unlink_thread_threads [of k1 t x] nt unfolding k2_def drop_thread_eq(1) by (simp add: g1)
  have d3: "k2\<lparr>threads := threads u, g_thread_count := g_thread_count u, g_objects := g_objects u, calls := calls u\<rparr> = u"
    unfolding k2_def u_def by (rule drop_thread_eq(3))
  have gl2: "k2\<lparr>threads := threads k1, g_thread_head := g_thread_head k1, g_thread_tail := g_thread_tail k1, g_thread_count := g_thread_count k1,
      g_objects := g_objects k1, calls := calls k1\<rparr> = k1"
    using unlink_thread_globals(3) [where t = t and k = k1, folded u_def] d3 by (cases k1; cases u; cases k2) simp
  have "g_thread_head k2 = g_thread_head u" "g_thread_tail k2 = g_thread_tail u" using d3 by (cases u; cases k2; simp)+
  then have gg2: "g_thread_head k2 = (if tprev k t = None then tnext k t else g_thread_head k)"
    "g_thread_tail k2 = (if tnext k t = None then tprev k t else g_thread_tail k)" "g_thread_count k2 = g_thread_count k - 1"
    using unlink_thread_globals(1,2) [where t = t and k = k1] drop_thread_eq(2) [of t k1] nonzero
    by (simp_all add: g1 gg1 u_def [symmetric] k2_def [symmetric] uc)
  have same: "ready_head k2 = ready_head k" "ready_tail k2 = ready_tail k" "g_ready_bitmap k2 = g_ready_bitmap k" "g_ready_count k2 = g_ready_count k"
    "g_idle_thread k2 = g_idle_thread k" "g_sleep_head k2 = g_sleep_head k" "g_sleep_tail k2 = g_sleep_tail k" "g_current_thread k2 = g_current_thread k"
    "g_retired_thread_head k2 = g_retired_thread_head k" "g_retired_thread_tail k2 = g_retired_thread_tail k" "process_head k2 = process_head k"
    "process_tail k2 = process_tail k" "kernel_root_table k2 = kernel_root_table k" "g_tick_count k2 = g_tick_count k" "broker k2 = broker k"
    "processes k2 = processes k1"
    using gl1 gl2 by (cases k; cases k1; cases k2; simp)+
  show "spares {t} k k2" unfolding spares_def same by (auto simp: th1 th2 lrest_def)
  show "broker k2 = broker k" "g_current_thread k2 = g_current_thread k" by (rule same)+
  show "process_state (processes k2 p) = process_state (processes k p)" "process_header (processes k2 p) = process_header (processes k p)"
    by (simp_all add: same st1)
  have fld: "thread_state (threads k2 x) = thread_state (threads k x)" "current_priority (threads k2 x) = current_priority (threads k x)"
    "wake_tick (threads k2 x) = wake_tick (threads k x)" "thread_parent (threads k2 x) = thread_parent (threads k x)"
    "rnext k2 x = rnext k x" "rprev k2 x = rprev k x" "in_ready_queue (threads k2 x) = in_ready_queue (threads k x)"
    if "x \<noteq> t" for x using that by (simp_all add: th1 th2)
  have sl: "snext k2 x = snext k x" "sprev k2 x = sprev k x" for x
    using l sleep_list_out [OF task_okD(2) [OF ok], of t] by (auto simp: th1 th2 zero_thread_def loose_def)
  have out: "\<And>q. t \<notin> set (qs q)" "t \<notin> set ss" "t \<notin> set rs" using l by (auto simp: loose_def)
  have nr: "\<not> in_ready_queue (threads k2 t)" "\<not> in_ready_queue (threads k t)" using loose_not_ready [OF ok l] by (simp_all add: th2 zero_thread_def)
  have "dll (rnext k2) (rprev k2) h m (qs q) = dll (rnext k) (rprev k) h m (qs q)" for h m q
    by (rule dll_cong) (use out(1) fld in metis)
  then have "ready_lists k2 qs"
    using task_okD(1) [OF ok] out(1) nr fld(2,7) unfolding ready_lists_def same by (metis (no_types, lifting))
  moreover have "sleep_list k2 ss"
  proof -
    have w: "map (\<lambda>x. wake_tick (threads k2 x)) ss = map (\<lambda>x. wake_tick (threads k x)) ss" by (intro map_cong refl fld(3)) (use out(2) in auto)
    then show ?thesis using task_okD(2) [OF ok] unfolding sleep_list_def same sl w by simp
  qed
  moreover have "retired_list k2 rs"
  proof -
    have "slist (rnext k2) rs = slist (rnext k) rs" by (rule slist_cong) (use out(3) fld(5) in metis)
    then show ?thesis using task_okD(3) [OF ok] unfolding retired_list_def same by simp
  qed
  moreover have "registry k2 (remove1 t ls)"
  proof -
    have nx: "tnext k2 = (\<lambda>y. if y = t then None else if tprev k t = Some y then tnext k t else tnext k y)"
      and pv: "tprev k2 = (\<lambda>y. if y = t then None else if tnext k t = Some y then tprev k t else tprev k y)"
      by (auto simp: fun_eq_iff th2 g1 zero_thread_def)
    have "g_thread_count k - 1 = of_nat (length (remove1 t ls))" using count_pred [OF t(1) registered_small(1) [OF ok] ct] by simp
    then show ?thesis using dll_remove1 [OF dt t(1)] task_okD(4) [OF ok] set_remove1_subset [of t ls]
      unfolding registry_def nx pv gg2 by auto
  qed
  moreover have "family k2 (remove1 t ls) ps (ms(p := remove1 t (ms p)))"
  proof -
    have nx: "mnext k2 = (\<lambda>y. if y = t then None else if mprev k t = Some y then mnext k t else mnext k y)"
      and pv: "mprev k2 = (\<lambda>y. if y = t then None else if mnext k t = Some y then mprev k t else mprev k y)"
      by (auto simp: fun_eq_iff th1 th2 zero_thread_def)
    have own: "thread_list_head (processes k2 p) = (if mprev k t = None then mnext k t else thread_list_head (processes k p))"
      "thread_list_tail (processes k2 p) = (if mnext k t = None then mprev k t else thread_list_tail (processes k p))"
      "thread_count (processes k2 p) = of_nat (length (remove1 t (ms p)))"
      using pview_fields [OF pr1 [of p, simplified]] count_pred [OF tm members_small(1) [OF ok p(1)] cm]
      by (simp_all add: same pview_def)
    have oth: "thread_list_head (processes k2 x) = thread_list_head (processes k x)" "thread_list_tail (processes k2 x) = thread_list_tail (processes k x)"
      "thread_count (processes k2 x) = thread_count (processes k x)" if "x \<noteq> p" for x
      using pview_fields [OF pr1 [of x]] that by (simp_all add: same pview_def)
    have all: "page_table_root (process_address_space (processes k2 x)) = page_table_root (process_address_space (processes k x))"
      "pnext k2 x = pnext k x" "pprev k2 x = pprev k x" for x
      using pview_fields [OF pr1 [of x]] by (auto simp: same pview_def split: if_splits)
    have mem: "x \<in> set (ms i) \<longleftrightarrow> x \<in> set ls \<and> thread_parent (threads k x) = Some i" if "i \<in> set ps" for x i
      using task_okD(5) [OF ok] that by (simp add: family_def)
    have rest: "dll (mnext k2) (mprev k2) h m (ms i) = dll (mnext k) (mprev k) h m (ms i)" if i: "i \<in> set ps" "i \<noteq> p" for h m i
    proof (rule dll_cong)
      fix x assume x: "x \<in> set (ms i)"
      then have "x \<notin> set (ms p)" using mem [OF i(1)] mem [OF p(1)] i(2) by auto
      then have "x \<noteq> t" "mprev k t \<noteq> Some x" "mnext k t \<noteq> Some x"
        using tm uv dll_next [OF dm [unfolded uv]] dll_prev [OF dm [unfolded uv]] by (auto dest!: first_of_in last_of_in)
      then show "mnext k2 x = mnext k x \<and> mprev k2 x = mprev k x" by (simp add: fun_cong [OF nx] fun_cong [OF pv])
    qed
    have dp: "dll (mnext k2) (mprev k2) (thread_list_head (processes k2 p)) (thread_list_tail (processes k2 p)) (remove1 t (ms p))"
      using dll_remove1 [OF dm tm] unfolding nx pv own by simp
    have fam: "dll (pnext k) (pprev k) (process_head k) (process_tail k) ps" "kernel_root_table k \<noteq> 0"
      "\<And>i. i \<in> set ps \<Longrightarrow> dll (mnext k) (mprev k) (thread_list_head (processes k i)) (thread_list_tail (processes k i)) (ms i)
         \<and> thread_count (processes k i) = of_nat (length (ms i)) \<and> page_table_root (process_address_space (processes k i)) \<noteq> 0"
      "\<And>x. x \<in> set ls \<Longrightarrow> \<exists>i. i \<in> set ps \<and> thread_parent (threads k x) = Some i"
      using task_okD(5) [OF ok] unfolding family_def by blast+
    have dl: "distinct ls" "distinct (ms p)" by (rule registered_small(2) [OF ok], rule members_small(2) [OF ok p(1)])
    show ?thesis unfolding family_def
    proof (intro conjI allI impI)
      show "dll (pnext k2) (pprev k2) (process_head k2) (process_tail k2) ps" using fam(1) all(2,3) same(11,12) by simp
      fix i assume i: "i \<in> set ps"
      show "dll (mnext k2) (mprev k2) (thread_list_head (processes k2 i)) (thread_list_tail (processes k2 i)) ((ms(p := remove1 t (ms p))) i)"
        using dp fam(3) [OF i] rest [OF i] oth by (cases "i = p") simp_all
      show "thread_count (processes k2 i) = of_nat (length ((ms(p := remove1 t (ms p))) i))"
        using own fam(3) [OF i] oth by (cases "i = p") simp_all
      show "page_table_root (process_address_space (processes k2 i)) \<noteq> 0" using fam(3) [OF i] by (simp add: all)
      show "x \<in> set ((ms(p := remove1 t (ms p))) i) \<longleftrightarrow> x \<in> set (remove1 t ls) \<and> thread_parent (threads k2 x) = Some i" for x
        using mem [OF i, of x] mem [OF p(1), of x] fld(4) [of x] dl p(2) by (cases "x = t") (auto simp: th2 zero_thread_def)
    next
      fix x assume x: "x \<in> set (remove1 t ls)"
      then have "x \<in> set ls" "x \<noteq> t" using dl by auto
      then show "\<exists>i. i \<in> set ps \<and> thread_parent (threads k2 x) = Some i" using fam(4) fld(4) by simp
    qed (simp add: fam same)
  qed
  moreover have "placed k2 qs ss rs (remove1 t ls)"
  proof -
    have m: "x \<in> set (remove1 t ls) \<longleftrightarrow> x \<in> set ls \<and> x \<noteq> t" for x using registered_small(2) [OF ok] by auto
    have "x \<noteq> t" if "x \<in> set (qs q)" for x q using out(1) that by auto
    then have q2: "thread_state (threads k2 x) = ThreadReady \<and> wake_tick (threads k2 x) = 0 \<and> x \<noteq> t" if "x \<in> set (qs q)" for x q
      using that queued_facts(1,2) [OF ok that] fld(1,3) by simp
    have s2: "thread_state (threads k2 x) = thread_state (threads k x)" if "x \<in> set ss \<or> x \<in> set rs" for x
      using that out(2,3) fld(1) by metis
    show ?thesis using task_okD(6) [OF ok] t(2) out(2,3) q2 s2 unfolding placed_def same m
      by (auto simp: fld)
  qed
  ultimately show "task_ok k2 qs ss rs (remove1 t ls) ps (ms(p := remove1 t (ms p)))" by (simp add: task_ok_def)
qed


lemma find_eq_None [simp]: "find (\<lambda>x. x = t) xs = None \<longleftrightarrow> t \<notin> set xs"
  by (auto simp: find_None_iff)

lemma contains_thread_ok: "task_ok k qs ss rs ls ps ms \<Longrightarrow> contains_thread t k = Some (t \<in> set ls)"
  using find_link_dll [of "tnext k" "tprev k" "g_thread_head k" "g_thread_tail k" ls "\<lambda>x. x = t"] task_okD(4) [of k qs ss rs ls ps ms]
  by (simp add: registry_def contains_thread_def del: not_None_eq)

lemma contains_process_ok: "task_ok k qs ss rs ls ps ms \<Longrightarrow> contains_process p k = Some (p \<in> set ps)"
  using find_link_dll [of "pnext k" "pprev k" "process_head k" "process_tail k" ps "\<lambda>x. x = p"] task_okD(5) [of k qs ss rs ls ps ms]
  by (simp add: family_def contains_process_def del: not_None_eq)

section \<open>Destroying a thread\<close>

lemma destroy_thread_body_ok:
  assumes ok: "task_ok k qs ss rs ls ps ms" and q: "quiet k" and t: "t \<in> set ls" "t \<notin> set rs" "g_idle_thread k \<noteq> Some t"
    and p: "p \<in> set ps" "thread_parent (threads k t) = Some p"
  obtains k' where "destroy_thread_body wake t k = Some (Inr (Some p), k')"
    "task_ok k' (\<lambda>q. remove1 t (qs q)) (remove1 t ss) rs (remove1 t ls) ps (ms(p := remove1 t (ms p)))" "quiet k'" "spares {t} k k'"
    "process_state (processes k' p) = process_state (processes k p)" "process_header (processes k' p) = process_header (processes k p)"
    "g_current_thread k' \<noteq> Some t"
proof -
  let ?qs = "\<lambda>q. remove1 t (qs q)" and ?ss = "remove1 t ss"
  note F = forget_ok [OF ok t(2)]
  let ?k1 = "upd t (\<lambda>x. x\<lparr>thread_state := ThreadTerminated\<rparr>) (forget t k)"
  have ok1: "task_ok ?k1 ?qs ?ss rs ls ps ms" by (rule task_ok_set_state [OF F(1,2)])
  have q1: "quiet ?k1" using q F(4) quiet_broker [of ?k1 k] by (simp add: upd_def)
  have s1: "spares {t} k ?k1" by (intro spares_rules F(3)) simp
  have c1: "g_current_thread ?k1 \<noteq> Some t" using F(5) by (simp add: upd_def)
  have p1: "processes (forget t k) = processes k"
  proof -
    have "processes (ready_queue_remove t k) = processes k" "processes (sleep_queue_remove t k') = processes k'" for k'
      using only_readyD(25) [OF only_ready_remove] only_sleep_fields(27) [OF only_sleep_remove] by blast+
    then show ?thesis by (simp add: forget_def Let_def upd_def)
  qed
  have fp: "thread_parent (threads (ready_queue_remove t k) t) = thread_parent (threads k t)"
    "thread_parent (threads (sleep_queue_remove t k') t) = thread_parent (threads k' t)" for k'
    using only_readyD(13) [OF only_ready_remove] only_sleep_fields(11) [OF only_sleep_remove] by blast+
  have par1: "thread_parent (threads ?k1 t) = Some p" using p(2) by (simp add: forget_def Let_def upd_def fp)
  obtain k2 where k2: "publish_thread_event wake KernelEventTypeThreadExited t (thread_state (threads k t)) ThreadTerminated ?k1 = Some k2"
      "same_tasks ?k1 k2" "quiet k2" by (rule publish_thread_event_quiet [OF q1])
  have th2: "threads k2 = threads ?k1" "processes k2 = processes ?k1" "g_current_thread k2 = g_current_thread ?k1"
    using k2(2) by (cases ?k1; cases k2; simp add: same_tasks_def)+
  let ?k3 = "release_user_stack p t k2"
  have v3: "view ?k3 = view ?k1" using view_same_tasks [OF k2(2)] by simp
  have ok3: "task_ok ?k3 ?qs ?ss rs ls ps ms" using task_ok_view [OF v3] ok1 by simp
  have par3: "thread_parent (threads ?k3 t) = Some p" and id3: "g_idle_thread ?k3 \<noteq> Some t" and c3: "g_current_thread ?k3 \<noteq> Some t"
    using viewD(5,6,7) [OF v3] par1 c1 F(3) t(3) by (auto simp: spares_def upd_def)
  have s3: "spares {t} k ?k3"
    using spares_trans [OF s1 spares_trans [OF spares_same_tasks [OF k2(2), of "{t}"] release_user_stack_frame(1) [of t k2 p]]] by simp
  have b3: "broker ?k3 = broker k2" by (rule release_user_stack_frame(2))
  have p3: "process_state (processes ?k3 p) = process_state (processes k p)" "process_header (processes ?k3 p) = process_header (processes k p)"
    by (simp_all add: release_user_stack_def Let_def upd_def updp_def call_def th2 p1 split: option.split)
  note D = detach_drop_ok [OF ok3 F(2) t(1) id3 p(1) par3]
  let ?k4 = "drop_thread t (snd (detach_thread p t ?k3))"
  have "destroy_thread_body wake t k = Some (Inr (Some p), ?k4)"
    using D(1) k2(1) par1 by (simp add: destroy_thread_body_def contains_thread_ok [OF ok] t(1) th2 split_beta Let_def)
  moreover have "quiet ?k4" using quiet_broker [of ?k4 k2] D(4) b3 k2(3) by simp
  moreover have "spares {t} k ?k4" using spares_trans [OF s3 D(3)] by simp
  moreover have "g_current_thread ?k4 \<noteq> Some t" using c3 D(5) by simp
  ultimately show ?thesis using that D(2,6,7) p3 by simp
qed


section \<open>The end of a process\<close>

text \<open>Steps that touch neither the invariant, nor the broker, nor any thread.\<close>

definition hidden :: "Kernel \<Rightarrow> Kernel \<Rightarrow> bool" where
  "hidden k k' \<longleftrightarrow> view k' = view k \<and> broker k' = broker k \<and> threads k' = threads k \<and> g_tick_count k' = g_tick_count k"

lemma hidden_refl: "hidden k k"
  by (simp add: hidden_def)

lemma hidden_trans: "hidden k k1 \<Longrightarrow> hidden k1 k2 \<Longrightarrow> hidden k k2"
  by (simp add: hidden_def)

lemma hidden_spares: "hidden k k' \<Longrightarrow> spares T k k'"
  using viewD(6,7) [of k' k] by (auto simp: hidden_def spares_def)

lemma grow_list_returns: "0 < grown \<Longrightarrow> \<exists>g. grow_list n grown = Some g"
proof (induction "n - grown" arbitrary: grown rule: less_induct)
  case less
  show ?case
  proof (cases "grown < n \<and> \<not> 0xFFFFFFFFFFFFFFFF div 2 < grown")
    case True
    then have "\<exists>g. grow_list n (grown * 2) = Some g" using less by (intro less.hyps) auto
    then show ?thesis using True by (subst grow_list.simps) auto
  qed (subst grow_list.simps, auto)
qed

lemma heap_list_append_returns: "\<exists>r n. heap_list_append x l k = Some (r, k\<lparr>heap_requests := n\<rparr>)"
proof (cases "length (items l) + 1 \<le> list_capacity l")
  case True
  then show ?thesis by (auto simp: heap_list_append_def Let_def intro!: exI [of _ "heap_requests k"])
next
  case False
  obtain g where "grow_list (length (items l) + 1) (if list_capacity l = 0 then 4 else list_capacity l) = Some g"
    using grow_list_returns [of "if list_capacity l = 0 then 4 else list_capacity l"] by (cases "list_capacity l = 0") auto
  then show ?thesis using False by (auto simp: heap_list_append_def Let_def heap_alloc_def)
qed

lemma remember_exit_status_ok: "\<exists>k'. remember_exit_status p k = Some k' \<and> hidden k k' \<and> processes k' = processes k"
proof -
  have h: "hidden k (k\<lparr>exit_records := l\<rparr>)" "hidden k (k\<lparr>heap_requests := n, exit_records := l\<rparr>)" for l n
    by (simp_all add: hidden_def)
  let ?x = "\<lparr>exit_process_id = process_id (processes k p), exit_parent_id = parent_process_id (processes k p), exit_status = exit_code (processes k p)\<rparr>"
  obtain r n where "heap_list_append ?x (exit_records k) k = Some (r, k\<lparr>heap_requests := n\<rparr>)"
    using heap_list_append_returns [of ?x "exit_records k" k] by auto
  then show ?thesis using h hidden_refl by (auto simp: remember_exit_status_def Let_def split_beta)
qed

lemma orphan_loop_ok:
  "dll (pnext k) (pprev k) h t (us @ vs) \<Longrightarrow> cursor = first_of vs None \<Longrightarrow> \<exists>k'. orphan_loop i cursor k = Some k' \<and> hidden k k'"
proof (induction vs arbitrary: us cursor k)
  case Nil
  then show ?case by (subst orphan_loop.simps) (simp add: hidden_refl)
next
  case (Cons p vs)
  let ?k = "if parent_process_id (processes k p) = i then updp p (\<lambda>x. x\<lparr>parent_process_id := 0, parent_process := None\<rparr>) k else k"
  have h: "hidden k ?k" using view_updp [of "\<lambda>x. x\<lparr>parent_process_id := 0, parent_process := None\<rparr>" p k]
    by (simp add: hidden_def pview_def updp_def)
  have e: "pnext ?k x = pnext k x" "pprev ?k x = pprev k x" for x by (simp_all add: updp_def)
  have "dll (pnext ?k) (pprev ?k) h t ((us @ [p]) @ vs)" using Cons.prems(1) unfolding e by simp
  then obtain k' where "orphan_loop i (pnext ?k p) ?k = Some k'" "hidden ?k k'"
    using Cons.IH dll_next [OF Cons.prems(1)] e by metis
  then show ?case using Cons.prems(2) hidden_trans [OF h] by (subst orphan_loop.simps) (auto simp: Let_def)
qed

lemma orphan_launched_processes_ok:
  assumes "task_ok k qs ss rs ls ps ms"
  shows "\<exists>k'. orphan_launched_processes i k = Some k' \<and> hidden k k'"
proof -
  have d: "dll (pnext k) (pprev k) (process_head k) (process_tail k) ([] @ ps)" using task_okD(5) [OF assms] by (simp add: family_def)
  show ?thesis using orphan_loop_ok [OF d dll_head [OF d, simplified], of i] hidden_refl
    by (cases "i = 0") (auto simp: orphan_launched_processes_def)
qed

lemma collect_process_resources_ok: "hidden k (collect_process_resources p k)"
proof -
  have "view (collect_process_resources p k) = view k"
    by (simp add: collect_process_resources_def view_updp [of "\<lambda>x. x\<lparr>handles := None\<rparr>"] pview_def)
  then show ?thesis by (simp add: hidden_def collect_process_resources_def updp_def call_def)
qed

text \<open>Unlinking a process without threads and releasing it.\<close>

lemma unlink_process_ok:
  assumes ok: "task_ok k qs ss rs ls ps ms" and p: "p \<in> set ps" "ms p = []"
  defines "k' \<equiv> unlink_process p k"
  shows "task_ok k' qs ss rs ls (remove1 p ps) ms" "threads k' = threads k" "broker k' = broker k" "spares {} k k'"
    "g_current_thread k' = g_current_thread k"
proof -
  have d: "dll (pnext k) (pprev k) (process_head k) (process_tail k) ps" using task_okD(5) [OF ok] by (simp add: family_def)
  obtain us vs where uv: "ps = us @ p # vs" using p by (auto simp: in_set_conv_decomp)
  have near: "pnext k p \<noteq> Some p" "pprev k p \<noteq> Some p"
    using dll_next [OF d [unfolded uv]] dll_prev [OF d [unfolded uv]] dll_distinct [OF d] uv by (auto dest!: first_of_in last_of_in)
  have pr: "processes k' x = (if x = p then (processes k p)\<lparr>next_process := None, prev_process := None\<rparr>
      else (processes k x)\<lparr>next_process := (if pprev k p = Some x then pnext k p else pnext k x),
                          prev_process := (if pnext k p = Some x then pprev k p else pprev k x)\<rparr>)" for x
    using near unfolding k'_def by (cases "pnext k p"; cases "pprev k p") (simp_all add: unlink_process_def Let_def updp_def)
  have hd: "process_head k' = (if pprev k p = None then pnext k p else process_head k)"
    and tl: "process_tail k' = (if pnext k p = None then pprev k p else process_tail k)"
    and rest: "k'\<lparr>processes := processes k, process_head := process_head k, process_tail := process_tail k\<rparr> = k"
    unfolding k'_def by (cases "pnext k p"; cases "pprev k p"; simp add: unlink_process_def Let_def updp_def)+
  have same: "threads k' = threads k" "broker k' = broker k" "g_current_thread k' = g_current_thread k" "g_idle_thread k' = g_idle_thread k"
    "g_tick_count k' = g_tick_count k" "ready_head k' = ready_head k" "ready_tail k' = ready_tail k" "g_ready_bitmap k' = g_ready_bitmap k"
    "g_ready_count k' = g_ready_count k" "g_sleep_head k' = g_sleep_head k" "g_sleep_tail k' = g_sleep_tail k"
    "g_retired_thread_head k' = g_retired_thread_head k" "g_retired_thread_tail k' = g_retired_thread_tail k"
    "g_thread_head k' = g_thread_head k" "g_thread_tail k' = g_thread_tail k" "g_thread_count k' = g_thread_count k"
    "kernel_root_table k' = kernel_root_table k"
    using rest by (cases k; cases k'; simp)+
  show "threads k' = threads k" "broker k' = broker k" "g_current_thread k' = g_current_thread k" by (rule same)+
  show "spares {} k k'" by (simp add: spares_def same)
  have nx: "pnext k' = (\<lambda>y. if y = p then None else if pprev k p = Some y then pnext k p else pnext k y)"
    and pv: "pprev k' = (\<lambda>y. if y = p then None else if pnext k p = Some y then pprev k p else pprev k y)"
    by (simp_all add: fun_eq_iff pr)
  have fld: "thread_list_head (processes k' x) = thread_list_head (processes k x)" "thread_list_tail (processes k' x) = thread_list_tail (processes k x)"
    "thread_count (processes k' x) = thread_count (processes k x)" "process_address_space (processes k' x) = process_address_space (processes k x)" for x
    by (simp_all add: pr)
  have m: "x \<in> set (remove1 p ps) \<longleftrightarrow> x \<in> set ps \<and> x \<noteq> p" for x using dll_distinct [OF d] by auto
  have none: "thread_parent (threads k x) \<noteq> Some p" if "x \<in> set ls" for x using task_okD(5) [OF ok] p that unfolding family_def by auto
  have "dll (pnext k') (pprev k') (process_head k') (process_tail k') (remove1 p ps)"
    unfolding nx pv hd tl by (rule dll_remove1 [OF d p(1)])
  moreover have "\<exists>i. (i \<in> set ps \<and> i \<noteq> p) \<and> thread_parent (threads k x) = Some i" if "x \<in> set ls" for x
    using task_okD(5) [OF ok] none [OF that] that unfolding family_def by auto
  ultimately have "family k' ls (remove1 p ps) ms"
    using task_okD(5) [OF ok] unfolding family_def same fld m by simp
  moreover have "ready_lists k' qs" "sleep_list k' ss" "retired_list k' rs" "registry k' ls" "placed k' qs ss rs ls"
    using task_okD(1-4,6) [OF ok] by (simp_all add: ready_lists_def sleep_list_def retired_list_def registry_def placed_def same)
  ultimately show "task_ok k' qs ss rs ls (remove1 p ps) ms" by (simp add: task_ok_def)
qed

lemma release_process_slot_ok:
  assumes ok: "task_ok k qs ss rs ls ps ms" and p: "p \<notin> set ps"
  shows "task_ok (release_process_slot p k) qs ss rs ls ps ms"
proof -
  let ?k = "release_process_slot p k"
  have e: "processes ?k x = (if x = p then zero_process else processes k x)" for x by (simp add: release_process_slot_def updp_def call_def)
  have d: "dll (pnext ?k) (pprev ?k) h t ps = dll (pnext k) (pprev k) h t ps" for h t
    by (rule dll_cong) (use p e in auto)
  have same: "threads ?k = threads k" "kernel_root_table ?k = kernel_root_table k" "process_head ?k = process_head k" "process_tail ?k = process_tail k"
    by (simp_all add: release_process_slot_def updp_def call_def)
  have "family ?k ls ps ms" using task_okD(5) [OF ok] p unfolding family_def d same by (auto simp: e)
  moreover have "ready_lists ?k qs" "sleep_list ?k ss" "retired_list ?k rs" "registry ?k ls" "placed ?k qs ss rs ls"
    using task_okD(1-4,6) [OF ok]
    by (simp_all add: ready_lists_def sleep_list_def retired_list_def registry_def placed_def release_process_slot_def updp_def call_def)
  ultimately show ?thesis by (simp add: task_ok_def)
qed


lemma hidden_task_ok: "hidden k k' \<Longrightarrow> task_ok k' qs ss rs ls ps ms = task_ok k qs ss rs ls ps ms"
  by (rule task_ok_view) (simp add: hidden_def)

lemma hidden_quiet: "hidden k k' \<Longrightarrow> quiet k' = quiet k"
  by (rule quiet_broker) (simp add: hidden_def)

lemma hidden_current: "hidden k k' \<Longrightarrow> g_current_thread k' = g_current_thread k"
  by (rule viewD(7)) (simp add: hidden_def)

lemma family_list: "task_ok k qs ss rs ls ps ms \<Longrightarrow> dll (pnext k) (pprev k) (process_head k) (process_tail k) ps"
  and family_threads: "task_ok k qs ss rs ls ps ms \<Longrightarrow> p \<in> set ps \<Longrightarrow>
    dll (mnext k) (mprev k) (thread_list_head (processes k p)) (thread_list_tail (processes k p)) (ms p)"
  and family_count: "task_ok k qs ss rs ls ps ms \<Longrightarrow> p \<in> set ps \<Longrightarrow> thread_count (processes k p) = of_nat (length (ms p))"
  by (simp_all add: task_ok_def family_def)

lemma process_gone_ok:
  assumes ok: "task_ok k qs ss rs ls ps ms" and q: "quiet k" and p: "p \<in> set ps" "ms p = []"
  obtains k' where "process_gone wake e p k = Some (StatusOK, k')" "task_ok k' qs ss rs ls (remove1 p ps) ms" "quiet k'" "spares {} k k'"
    "g_current_thread k' = g_current_thread k"
proof -
  obtain k1 where k1: "publish_process_event wake KernelEventTypeProcessExited p k = Some k1" "same_tasks k k1" "quiet k1"
    by (rule publish_process_event_quiet [OF q])
  have ok1: "task_ok k1 qs ss rs ls ps ms" using task_ok_view [OF view_same_tasks [OF k1(2)]] ok by simp
  obtain k2 where k2: "remember_exit_status p k1 = Some k2" "hidden k1 k2" using remember_exit_status_ok by blast
  have ok2: "task_ok k2 qs ss rs ls ps ms" using hidden_task_ok [OF k2(2)] ok1 by simp
  obtain k3 where k3: "orphan_launched_processes e k2 = Some k3" "hidden k2 k3" using orphan_launched_processes_ok [OF ok2] by blast
  have ok3: "task_ok k3 qs ss rs ls ps ms" using hidden_task_ok [OF k3(2)] ok2 by simp
  let ?k4 = "unlink_process p k3"
  note U = unlink_process_ok [OF ok3 p]
  define k5 where "k5 = (if process_count_value ?k4 \<noteq> 0 then ?k4\<lparr>process_count_value := process_count_value ?k4 - 1\<rparr> else ?k4)"
  define k6 where "k6 = collect_process_resources p k5"
  define k7 where "k7 = (case launch_arguments (processes k6 p) of Some a \<Rightarrow> updp p (\<lambda>x. x\<lparr>launch_arguments := None\<rparr>) (call (FreeArguments a) k6) | None \<Rightarrow> k6)"
  define k8 where "k8 = snd (unregister_object (ProcessObject p) k7)"
  have "hidden ?k4 k5" by (simp add: k5_def Let_def hidden_def)
  moreover have "hidden k5 k6" unfolding k6_def by (rule collect_process_resources_ok)
  moreover have "hidden k6 k7"
  proof -
    have "view k7 = view k6"
      by (simp add: k7_def view_updp [of "\<lambda>x. x\<lparr>launch_arguments := None\<rparr>"] pview_def split: option.split)
    then show ?thesis by (simp add: hidden_def k7_def updp_def call_def split: option.split)
  qed
  moreover have "hidden k7 k8" by (simp add: k8_def unregister_object_def Let_def hidden_def)
  ultimately have h8: "hidden ?k4 k8" by (blast intro: hidden_trans)
  have ok8: "task_ok k8 qs ss rs ls (remove1 p ps) ms" using hidden_task_ok [OF h8] U(1) by simp
  have q8: "quiet k8" using hidden_quiet [OF h8] quiet_broker [OF U(3)] hidden_quiet [OF k3(2)] hidden_quiet [OF k2(2)] k1(3) by simp
  obtain k9 where k9: "unsubscribe_process wake (process_id (processes k8 p)) k8 = Some k9" "same_tasks k8 k9" "quiet k9"
    by (rule unsubscribe_process_quiet [OF q8])
  have ok9: "task_ok k9 qs ss rs ls (remove1 p ps) ms" using task_ok_view [OF view_same_tasks [OF k9(2)]] ok8 by simp
  have out: "p \<notin> set (remove1 p ps)" using dll_distinct [OF family_list [OF ok]] by simp
  let ?k10 = "release_process_slot p k9"
  have "process_gone wake e p k = Some (StatusOK, ?k10)"
    unfolding process_gone_def Let_def k1(1) k2(1) k3(1) Option.bind.bind_lunit k5_def [symmetric] k6_def [symmetric] k7_def [symmetric] k8_def [symmetric] k9(1) ..
  moreover have "quiet ?k10" using quiet_broker [of ?k10 k9] k9(3) by (simp add: release_process_slot_def updp_def call_def)
  moreover have "spares {} k ?k10"
  proof -
    have "spares {} k k9"
      using spares_trans [OF spares_trans [OF spares_trans [OF spares_trans [OF spares_trans [OF
        spares_same_tasks [OF k1(2), of "{}"] hidden_spares [OF k2(2), of "{}"]] hidden_spares [OF k3(2), of "{}"]] U(4)]
        hidden_spares [OF h8, of "{}"]] spares_same_tasks [OF k9(2), of "{}"]] by simp
    then show ?thesis unfolding release_process_slot_def by (intro spares_rules)
  qed
  moreover have "g_current_thread ?k10 = g_current_thread k"
    using viewD(7) [OF view_same_tasks [OF k9(2)]] hidden_current [OF h8] U(5) hidden_current [OF k3(2)] hidden_current [OF k2(2)]
      viewD(7) [OF view_same_tasks [OF k1(2)]] by (simp add: release_process_slot_def updp_def call_def)
  ultimately show ?thesis using that release_process_slot_ok [OF ok9 out] by blast
qed

section \<open>Teardown returns and keeps the invariant\<close>

text \<open>What is left of a list when the threads \<open>T\<close> are gone.\<close>

definition without :: "ptr set \<Rightarrow> ptr list \<Rightarrow> ptr list" where
  "without T xs = filter (\<lambda>x. x \<notin> T) xs"

lemma remove1_without: "distinct xs \<Longrightarrow> remove1 t xs = without {t} xs"
  by (induction xs) (auto simp: without_def filter_id_conv intro!: filter_True [symmetric])

lemma without_without [simp]: "without T (without U xs) = without (T \<union> U) xs"
  by (auto simp: without_def intro!: filter_cong)

lemma without_empty [simp]: "without {} xs = xs"
  by (simp add: without_def)

lemma task_ok_distinct:
  assumes "task_ok k qs ss rs ls ps ms" shows "distinct (qs q)" "distinct ss" "distinct rs" "distinct ls" "distinct ps"
  using dll_distinct [OF ready_lists_dll [OF task_okD(1) [OF assms]]] dll_distinct [OF sleep_list_dll [OF task_okD(2) [OF assms]]]
    task_okD(3-5) [OF assms] by (auto simp: retired_list_def registry_def family_def dest: dll_distinct)

lemma destroy_process_empty:
  assumes ok: "task_ok k qs ss rs ls ps ms" and q: "quiet k" and p: "p \<in> set ps" "ms p = []"
  obtains k' where "destroy wake (DestroyProcess p) k = Some (StatusOK, k')" "task_ok k' qs ss rs ls (remove1 p ps) ms" "quiet k'"
    "spares {} k k'" "g_current_thread k' = g_current_thread k"
proof -
  let ?k1 = "updp p (\<lambda>x. x\<lparr>process_state := ProcessTerminated\<rparr>) k"
  have v: "view ?k1 = view k" by (rule view_updp) (simp add: pview_def)
  have ok1: "task_ok ?k1 qs ss rs ls ps ms" using task_ok_view [OF v] ok by simp
  have q1: "quiet ?k1" using quiet_broker [of ?k1 k] q by (simp add: updp_def)
  have "thread_list_head (processes ?k1 p) = None"
    using dll_head [OF family_threads [OF ok1 p(1)]] p(2) by simp
  then have d: "destroy wake (DestroyThreads p) ?k1 = Some (StatusOK, ?k1)" by (subst destroy.simps) simp
  obtain k' where g: "process_gone wake (process_id (processes k p)) p ?k1 = Some (StatusOK, k')" "task_ok k' qs ss rs ls (remove1 p ps) ms"
      "quiet k'" "spares {} ?k1 k'" "g_current_thread k' = g_current_thread ?k1"
    by (rule process_gone_ok [OF ok1 q1 p])
  have "destroy wake (DestroyProcess p) k = Some (StatusOK, k')"
    by (subst destroy.simps) (simp add: contains_process_ok [OF ok] p d g(1))
  moreover have "spares {} k k'" using g(4) by (simp add: spares_def updp_def)
  moreover have "g_current_thread k' = g_current_thread k" using g(5) by (simp add: updp_def)
  ultimately show ?thesis using that g(2,3) by blast
qed

lemma destroy_thread_ok:
  assumes ok: "task_ok k qs ss rs ls ps ms" and q: "quiet k" and t: "t \<in> set ls" "t \<notin> set rs" "g_idle_thread k \<noteq> Some t"
  obtains k' p ps' where "destroy_thread wake t k = Some (StatusOK, k')" "p \<in> set ps" "thread_parent (threads k t) = Some p"
    "task_ok k' (\<lambda>q. without {t} (qs q)) (without {t} ss) rs (without {t} ls) ps' (ms(p := without {t} (ms p)))" "quiet k'" "spares {t} k k'"
    "g_current_thread k' \<noteq> Some t"
    "ps' = ps \<and> process_state (processes k' p) = process_state (processes k p)
       \<or> ps' = remove1 p ps \<and> set (ms p) \<subseteq> {t} \<and> process_state (processes k p) \<noteq> ProcessTerminated"
proof -
  obtain p where p: "p \<in> set ps" "thread_parent (threads k t) = Some p" "t \<in> set (ms p)" by (rule family_parent [OF ok t(1)])
  obtain k1 where B: "destroy_thread_body wake t k = Some (Inr (Some p), k1)"
    "task_ok k1 (\<lambda>q. remove1 t (qs q)) (remove1 t ss) rs (remove1 t ls) ps (ms(p := remove1 t (ms p)))" "quiet k1" "spares {t} k k1"
    "process_state (processes k1 p) = process_state (processes k p)" "process_header (processes k1 p) = process_header (processes k p)"
    "g_current_thread k1 \<noteq> Some t"
    by (rule destroy_thread_body_ok [OF ok q t p(1,2)])
  note dd = task_ok_distinct [OF ok] members_small(2) [OF ok p(1)]
  note ok1 = B(2) [unfolded remove1_without [OF dd(1)] remove1_without [OF dd(2)] remove1_without [OF dd(4)] remove1_without [OF dd(6)]]
  let ?ends = "thread_count (processes k1 p) = 0 \<and> process_state (processes k1 p) \<noteq> ProcessTerminated
      \<and> \<not> object_has_flag (object_flags (process_header (processes k1 p))) ObjectFlagsPermanent"
  show ?thesis
  proof (cases ?ends)
    case False
    have "destroy_thread wake t k = Some (StatusOK, k1)" unfolding destroy_thread_def
      by (subst destroy.simps) (use B(1) False in auto)
    then show ?thesis using that p ok1 B(3-7) by blast
  next
    case True
    have c: "thread_count (processes k1 p) = of_nat (length (without {t} (ms p)))" using family_count [OF ok1 p(1)] by simp
    have "unat (thread_count (processes k1 p)) = length (without {t} (ms p))"
      by (rule unat_eq_of_nat [OF c]) (use members_small(1) [OF ok1 p(1)] in simp)
    then have e: "(ms(p := without {t} (ms p))) p = []" using True by simp
    then have sub: "set (ms p) \<subseteq> {t}" by (auto simp: without_def filter_empty_conv)
    obtain k2 where D: "destroy wake (DestroyProcess p) k1 = Some (StatusOK, k2)"
      "task_ok k2 (\<lambda>q. without {t} (qs q)) (without {t} ss) rs (without {t} ls) (remove1 p ps) (ms(p := without {t} (ms p)))" "quiet k2"
      "spares {} k1 k2" "g_current_thread k2 = g_current_thread k1"
      by (rule destroy_process_empty [OF ok1 B(3) p(1) e])
    have "destroy_thread wake t k = Some (StatusOK, k2)" unfolding destroy_thread_def
      by (subst destroy.simps) (use B(1) True D(1) in simp)
    then show ?thesis using that p D(2,3,5) B(7) spares_trans [OF B(4) D(4)] sub True B(5) by (metis sup_bot.right_neutral)
  qed
qed


lemma destroy_threads_ok:
  assumes "task_ok k qs ss rs ls ps ms" "quiet k" "p \<in> set ps" "process_state (processes k p) = ProcessTerminated" "ms p = xs"
    "set xs \<inter> set rs = {}" "\<And>t. t \<in> set xs \<Longrightarrow> g_idle_thread k \<noteq> Some t"
  shows "\<exists>k'. destroy wake (DestroyThreads p) k = Some (StatusOK, k')
    \<and> task_ok k' (\<lambda>q. without (set xs) (qs q)) (without (set xs) ss) rs (without (set xs) ls) ps (ms(p := []))
    \<and> quiet k' \<and> spares (set xs) k k' \<and> (\<forall>t \<in> set xs. g_current_thread k' \<noteq> Some t)"
  using assms
proof (induction xs arbitrary: k qs ss ls ms)
  case Nil
  have "thread_list_head (processes k p) = None" using dll_head [OF family_threads [OF Nil(1,3)]] Nil(5) by simp
  then have "destroy wake (DestroyThreads p) k = Some (StatusOK, k)" by (subst destroy.simps) simp
  moreover have "ms(p := []) = ms" using Nil(5) by (simp add: fun_upd_idem)
  ultimately show ?case using Nil(1,2) by (simp add: spares_refl)
next
  case (Cons t xs)
  have tm: "t \<in> set (ms p)" and tl: "t \<in> set ls" using Cons.prems(5) members_small(3) [OF Cons.prems(1,3)] by auto
  have par: "thread_parent (threads k t) = Some p" using task_okD(5) [OF Cons.prems(1)] Cons.prems(3) tm by (simp add: family_def)
  have trs: "t \<notin> set rs" using Cons.prems(6) by auto
  obtain k1 p' ps' where D: "destroy_thread wake t k = Some (StatusOK, k1)" "p' \<in> set ps" "thread_parent (threads k t) = Some p'"
    "task_ok k1 (\<lambda>q. without {t} (qs q)) (without {t} ss) rs (without {t} ls) ps' (ms(p' := without {t} (ms p')))" "quiet k1" "spares {t} k k1"
    "g_current_thread k1 \<noteq> Some t"
    "ps' = ps \<and> process_state (processes k1 p') = process_state (processes k p')
       \<or> ps' = remove1 p' ps \<and> set (ms p') \<subseteq> {t} \<and> process_state (processes k p') \<noteq> ProcessTerminated"
    by (rule destroy_thread_ok [OF Cons.prems(1,2) tl trs]) (use Cons.prems(7) in auto)
  have p': "p' = p" using D(3) par by simp
  have ps': "ps' = ps" "process_state (processes k1 p) = ProcessTerminated" using D(8) Cons.prems(4) p' by auto
  have x: "without {t} (ms p) = xs" using members_small(2) [OF Cons.prems(1,3)] Cons.prems(5) by (auto simp: without_def intro!: filter_True)
  note ok1 = D(4) [unfolded p' ps'(1)]
  have id1: "g_idle_thread k1 = g_idle_thread k" using D(6) by (simp add: spares_def)
  have "\<exists>k'. destroy wake (DestroyThreads p) k1 = Some (StatusOK, k')
    \<and> task_ok k' (\<lambda>q. without (set xs) (without {t} (qs q))) (without (set xs) (without {t} ss)) rs (without (set xs) (without {t} ls)) ps
        ((ms(p := without {t} (ms p)))(p := []))
    \<and> quiet k' \<and> spares (set xs) k1 k' \<and> (\<forall>t \<in> set xs. g_current_thread k' \<noteq> Some t)"
    by (rule Cons.IH [OF ok1 D(5) Cons.prems(3) ps'(2)]) (use x Cons.prems(6,7) id1 in auto)
  moreover have u: "set xs \<union> {t} = set (t # xs)" by auto
  ultimately obtain k' where I: "destroy wake (DestroyThreads p) k1 = Some (StatusOK, k')"
    "task_ok k' (\<lambda>q. without (set (t # xs)) (qs q)) (without (set (t # xs)) ss) rs (without (set (t # xs)) ls) ps (ms(p := []))"
    "quiet k'" "spares (set xs) k1 k'" "\<forall>t \<in> set xs. g_current_thread k' \<noteq> Some t"
    unfolding without_without u fun_upd_upd by (elim exE conjE)
  have "thread_list_head (processes k p) = Some t" using dll_head [OF family_threads [OF Cons.prems(1,3)]] Cons.prems(5) by simp
  then have "destroy wake (DestroyThreads p) k = Some (StatusOK, k')"
    by (subst destroy.simps) (use D(1) I(1) in \<open>simp add: destroy_thread_def\<close>)
  moreover have "spares (set (t # xs)) k k'" using spares_trans [OF D(6) I(4)] by simp
  moreover have "g_current_thread k' \<noteq> Some t" using D(7) I(4) by (auto simp: spares_def)
  ultimately show ?case using I(2,3,5) by (simp del: fun_upd_apply)
qed

theorem destroy_process_ok:
  assumes ok: "task_ok k qs ss rs ls ps ms" and q: "quiet k" and p: "p \<in> set ps" "set (ms p) \<inter> set rs = {}"
    and i: "\<And>t. t \<in> set (ms p) \<Longrightarrow> g_idle_thread k \<noteq> Some t"
  obtains k' where "destroy_process wake p k = Some (StatusOK, k')"
    "task_ok k' (\<lambda>q. without (set (ms p)) (qs q)) (without (set (ms p)) ss) rs (without (set (ms p)) ls) (remove1 p ps) (ms(p := []))"
    "quiet k'" "spares (set (ms p)) k k'" "\<And>t. t \<in> set (ms p) \<Longrightarrow> g_current_thread k' \<noteq> Some t"
proof -
  let ?k1 = "updp p (\<lambda>x. x\<lparr>process_state := ProcessTerminated\<rparr>) k"
  have v: "view ?k1 = view k" by (rule view_updp) (simp add: pview_def)
  have ok1: "task_ok ?k1 qs ss rs ls ps ms" using task_ok_view [OF v] ok by simp
  have q1: "quiet ?k1" using quiet_broker [of ?k1 k] q by (simp add: updp_def)
  have s1: "spares {} k ?k1" by (intro spares_rules)
  have id1: "g_idle_thread ?k1 = g_idle_thread k" "process_state (processes ?k1 p) = ProcessTerminated" by (simp_all add: updp_def)
  obtain k2 where D: "destroy wake (DestroyThreads p) ?k1 = Some (StatusOK, k2)"
    "task_ok k2 (\<lambda>q. without (set (ms p)) (qs q)) (without (set (ms p)) ss) rs (without (set (ms p)) ls) ps (ms(p := []))"
    "quiet k2" "spares (set (ms p)) ?k1 k2" "\<forall>t \<in> set (ms p). g_current_thread k2 \<noteq> Some t"
    using destroy_threads_ok [OF ok1 q1 p(1) id1(2) refl p(2), of wake] i id1(1) by auto
  obtain k' where G: "process_gone wake (process_id (processes k p)) p k2 = Some (StatusOK, k')"
    "task_ok k' (\<lambda>q. without (set (ms p)) (qs q)) (without (set (ms p)) ss) rs (without (set (ms p)) ls) (remove1 p ps) (ms(p := []))"
    "quiet k'" "spares {} k2 k'" "g_current_thread k' = g_current_thread k2"
    by (rule process_gone_ok [OF D(2,3) p(1)]) simp
  have "destroy_process wake p k = Some (StatusOK, k')" unfolding destroy_process_def
    by (subst destroy.simps) (simp add: contains_process_ok [OF ok] p D(1) G(1))
  moreover have "spares (set (ms p)) k k'" using spares_trans [OF spares_trans [OF s1 D(4)] G(4)] by simp
  ultimately show ?thesis using that G(2,3,5) D(5) by metis
qed


section \<open>Reaping\<close>

lemma unretire_ok:
  assumes ok: "task_ok k qs ss (t # rs) ls ps ms"
  defines "k1 \<equiv> k\<lparr>g_retired_thread_head := ready_next (threads k t)\<rparr>"
  defines "k2 \<equiv> if g_retired_thread_head k1 = None then k1\<lparr>g_retired_thread_tail := None\<rparr> else k1"
  defines "k3 \<equiv> upd t (\<lambda>x. x\<lparr>ready_next := None\<rparr>) k2"
  shows "task_ok k3 qs ss rs ls ps ms" "loose t qs ss rs" "broker k3 = broker k" "spares {} k k3" "g_current_thread k3 = g_current_thread k"
proof -
  have rl: "distinct (t # rs)" "g_retired_thread_tail k = last_of None (t # rs)" "rnext k t = first_of rs None" "slist (rnext k) rs"
    using task_okD(3) [OF ok] by (auto simp: retired_list_def)
  have st: "thread_state (threads k t) = ThreadTerminated" using task_okD(6) [OF ok] by (simp add: placed_def)
  then show l: "loose t qs ss rs" using task_okD(6) [OF ok] rl(1) by (auto simp: loose_def placed_def)
  have "retired_list k2 rs"
    using rl unfolding retired_list_def k2_def k1_def by (cases rs) (auto simp: last_of_def)
  moreover have "ready_lists k2 qs" "sleep_list k2 ss" "registry k2 ls" "family k2 ls ps ms" "placed k2 qs ss rs ls"
    using task_okD(1,2,4-6) [OF ok]
    by (simp_all add: k2_def k1_def ready_lists_def sleep_list_def registry_def family_def placed_def)
  ultimately have ok2: "task_ok k2 qs ss rs ls ps ms" by (simp add: task_ok_def)
  show "task_ok k3 qs ss rs ls ps ms" unfolding k3_def
    by (rule task_ok_loose_upd [OF ok2 l]) (use task_okD(6) [OF ok2] in \<open>auto simp: links_of_def placed_def\<close>)
  show "spares {} k k3" unfolding k3_def k2_def k1_def by (intro spares_rules) (simp add: lrest_def)
  show "broker k3 = broker k" "g_current_thread k3 = g_current_thread k" by (simp_all add: k3_def k2_def k1_def upd_def)
qed

lemma without_disjoint: "T \<inter> set xs = {} \<Longrightarrow> without T xs = xs"
  by (auto simp: without_def intro!: filter_True)

theorem reap_retired_threads_ok:
  assumes "task_ok k qs ss rs ls ps ms" "quiet k" "\<And>c. g_current_thread k = Some c \<Longrightarrow> c \<notin> set rs"
  shows "\<exists>k' ps' ms'. reap_retired_threads wake k = Some k' \<and> task_ok k' qs ss [] (without (set rs) ls) ps' ms' \<and> quiet k'
    \<and> spares (set rs) k k' \<and> g_current_thread k' = g_current_thread k"
  using assms
proof (induction rs arbitrary: k ls ps ms)
  case Nil
  then have "g_retired_thread_head k = None" by (simp add: task_ok_def retired_list_def)
  then have "reap_retired_threads wake k = Some k" by (subst reap_retired_threads.simps) simp
  then show ?case using Nil by (auto simp: spares_refl)
next
  case (Cons t rs)
  let ?k1 = "k\<lparr>g_retired_thread_head := ready_next (threads k t)\<rparr>"
  let ?k2 = "if g_retired_thread_head ?k1 = None then ?k1\<lparr>g_retired_thread_tail := None\<rparr> else ?k1"
  let ?k3 = "upd t (\<lambda>x. x\<lparr>ready_next := None\<rparr>) ?k2"
  note U = unretire_ok [OF Cons.prems(1)]
  have hd: "g_retired_thread_head k = Some t" using Cons.prems(1) by (simp add: task_ok_def retired_list_def)
  have nc: "Some t \<noteq> g_current_thread k" using Cons.prems(3) [of t] by auto
  have q3: "quiet ?k3" using quiet_broker [OF U(3)] Cons.prems(2) by simp
  have tl: "t \<in> set ls" "g_idle_thread k \<noteq> Some t" using task_okD(6) [OF Cons.prems(1)] by (simp_all add: placed_def)
  have id3: "g_idle_thread ?k3 \<noteq> Some t" using U(4) tl(2) by (simp add: spares_def)
  have nr: "t \<notin> set rs" using U(2) by (simp add: loose_def)
  obtain k4 p ps' where D0: "destroy_thread wake t ?k3 = Some (StatusOK, k4)" "p \<in> set ps" "thread_parent (threads ?k3 t) = Some p"
    "task_ok k4 (\<lambda>q. without {t} (qs q)) (without {t} ss) rs (without {t} ls) ps' (ms(p := without {t} (ms p)))" "quiet k4" "spares {t} ?k3 k4"
    "g_current_thread k4 \<noteq> Some t"
    "ps' = ps \<and> process_state (processes k4 p) = process_state (processes ?k3 p)
       \<or> ps' = remove1 p ps \<and> set (ms p) \<subseteq> {t} \<and> process_state (processes ?k3 p) \<noteq> ProcessTerminated"
    by (rule destroy_thread_ok [OF U(1) q3 tl(1) nr id3])
  note D = D0(1,4-6)
  have wq: "without {t} (qs q) = qs q" "without {t} ss = ss" for q using U(2) by (auto simp: loose_def intro!: without_disjoint)
  have c4: "g_current_thread k4 = g_current_thread k" using D(4) U(5) nc by (auto simp: spares_def)
  obtain k' ps'' ms'' where I: "reap_retired_threads wake k4 = Some k'" "task_ok k' qs ss [] (without (set rs) (without {t} ls)) ps'' ms''"
    "quiet k'" "spares (set rs) k4 k'" "g_current_thread k' = g_current_thread k4"
    using Cons.IH [OF D(2) [unfolded wq] D(3)] c4 Cons.prems(3) by auto
  have "reap_retired_threads wake k = Some k'"
    by (subst reap_retired_threads.simps) (use hd nc D(1) I(1) in simp)
  moreover have "spares (set (t # rs)) k k'" using spares_trans [OF spares_trans [OF U(4) D(4)] I(4)] by simp
  moreover have "without (set rs) (without {t} ls) = without (set (t # rs)) ls" by (simp add: Un_commute [of _ "{t}"])
  ultimately show ?case using I(2,3,5) c4 by (metis)
qed

end
