(* ===== verification/Kernel_Run.thy ===== *)
theory Kernel_Run
  imports Kernel_Destroy
begin

text \<open>
  The operations of the scheduler on a system that runs. \<open>sound\<close>: the invariant of \<open>Kernel_Inv\<close> holds, no
  thread waits on a subscription, and a thread outside the sleep queue has no wake tick. \<open>steady\<close>: besides,
  a registered thread is current and its state is running. Each operation returns on a steady state, the
  state where the processor lands is steady again, and the lists of the invariant say what the operation
  did to the queues.
\<close>

definition awake :: "Kernel \<Rightarrow> ptr list \<Rightarrow> ptr list \<Rightarrow> bool" where
  "awake k ss ls \<longleftrightarrow> (\<forall>t. t \<in> set ls \<longrightarrow> t \<notin> set ss \<longrightarrow> wake_tick (threads k t) = 0)"

definition sound :: "Kernel \<Rightarrow> (nat \<Rightarrow> ptr list) \<Rightarrow> ptr list \<Rightarrow> ptr list \<Rightarrow> ptr list \<Rightarrow> bool" where
  "sound k qs ss rs ls \<longleftrightarrow> (\<exists>ps ms. task_ok k qs ss rs ls ps ms) \<and> quiet k \<and> awake k ss ls"

definition steady :: "Kernel \<Rightarrow> ptr \<Rightarrow> (nat \<Rightarrow> ptr list) \<Rightarrow> ptr list \<Rightarrow> ptr list \<Rightarrow> ptr list \<Rightarrow> bool" where
  "steady k c qs ss rs ls \<longleftrightarrow>
     sound k qs ss rs ls \<and> g_current_thread k = Some c \<and> c \<in> set ls \<and> thread_state (threads k c) = ThreadRunning"

lemma soundE:
  assumes "sound k qs ss rs ls"
  obtains ps ms where "task_ok k qs ss rs ls ps ms" "quiet k" "awake k ss ls"
  using assms by (auto simp: sound_def)

lemma soundI: "task_ok k qs ss rs ls ps ms \<Longrightarrow> quiet k \<Longrightarrow> awake k ss ls \<Longrightarrow> sound k qs ss rs ls"
  by (auto simp: sound_def)

lemma steadyD:
  assumes "steady k c qs ss rs ls"
  shows "sound k qs ss rs ls" "g_current_thread k = Some c" "c \<in> set ls" "thread_state (threads k c) = ThreadRunning"
    "loose c qs ss rs" "wake_tick (threads k c) = 0"
proof -
  show s: "sound k qs ss rs ls" "g_current_thread k = Some c" "c \<in> set ls" "thread_state (threads k c) = ThreadRunning"
    using assms by (simp_all add: steady_def)
  show l: "loose c qs ss rs" using s(1,4) by (auto elim!: soundE intro: loose_state)
  show "wake_tick (threads k c) = 0" using s(1,3) l by (auto simp: sound_def awake_def loose_def)
qed

section \<open>Steps that keep a state sound\<close>

lemma sound_view:
  assumes "view k' = view k" "broker k' = broker k" shows "sound k' qs ss rs ls = sound k qs ss rs ls"
  unfolding sound_def awake_def task_ok_view [OF assms(1)] quiet_broker [OF assms(2)] viewD(3) [OF assms(1)] ..

lemma sound_same_tasks:
  assumes "same_tasks k k'" "quiet k'" "sound k qs ss rs ls" shows "sound k' qs ss rs ls"
  using assms(2,3) unfolding sound_def awake_def task_ok_view [OF view_same_tasks [OF assms(1)]] viewD(3) [OF view_same_tasks [OF assms(1)]]
  by blast

lemma sound_current [simp]: "sound (k\<lparr>g_current_thread := c\<rparr>) qs ss rs ls = sound k qs ss rs ls"
  by (simp add: sound_def quiet_broker [of "k\<lparr>g_current_thread := c\<rparr>" k] awake_def)

lemma sound_loose_upd:
  assumes "sound k qs ss rs ls" "loose t qs ss rs" "\<And>x. links_of (f x) = links_of x"
    "t \<in> set ls \<Longrightarrow> unat (current_priority (f (threads k t))) < 32" "t \<in> set ls \<Longrightarrow> wake_tick (f (threads k t)) = 0"
  shows "sound (upd t f k) qs ss rs ls"
proof -
  obtain ps ms where k: "task_ok k qs ss rs ls ps ms" "quiet k" "awake k ss ls" using assms(1) by (rule soundE)
  have "task_ok (upd t f k) qs ss rs ls ps ms" by (rule task_ok_loose_upd [OF k(1) assms(2-4)])
  moreover have "quiet (upd t f k)" using quiet_broker [of "upd t f k" k] k(2) by (simp add: upd_def)
  moreover have "awake (upd t f k) ss ls" using k(3) assms(5) by (auto simp: awake_def upd_def)
  ultimately show ?thesis by (rule soundI)
qed

lemma sound_prio: "sound k qs ss rs ls \<Longrightarrow> t \<in> set ls \<Longrightarrow> prio k t < 32"
  by (auto elim!: soundE simp: task_ok_def placed_def)

lemma sound_awake: "sound k qs ss rs ls \<Longrightarrow> t \<in> set ls \<Longrightarrow> t \<notin> set ss \<Longrightarrow> wake_tick (threads k t) = 0"
  by (simp add: sound_def awake_def)

lemma sound_set_state:
  "sound k qs ss rs ls \<Longrightarrow> loose t qs ss rs \<Longrightarrow> sound (upd t (\<lambda>x. x\<lparr>thread_state := s\<rparr>) k) qs ss rs ls"
  by (rule sound_loose_upd) (auto simp: links_of_def sound_prio sound_awake loose_def)

lemma sound_idle:
  assumes "sound k qs ss rs ls"
  obtains i where "g_idle_thread k = Some i" "i \<in> set ls" "loose i qs ss rs"
  using assms by (auto elim!: soundE task_ok_idle)

lemma broker_steps [simp]:
  "broker (upd t f k) = broker k" "broker (updp p g k) = broker k" "broker (reset_quantum t k) = broker k"
  "broker (trace_irqhandoff_bind_window t k) = broker k" "broker (trace_irqhandoff_ready_window e t k) = broker k"
  "broker (save_chain c s k) = broker k" "broker (request_reschedule t k) = broker k" "broker (mark_parent_running t k) = broker k"
  by (simp_all add: upd_def updp_def reset_quantum_def trace_irqhandoff_bind_window_def trace_irqhandoff_ready_window_def
      save_chain_def request_reschedule_def mark_parent_running_def call_def Let_def split: option.split)

lemma sound_steps [simp]:
  "sound (reset_quantum t k) qs ss rs ls = sound k qs ss rs ls"
  "sound (trace_irqhandoff_bind_window t k) qs ss rs ls = sound k qs ss rs ls"
  "sound (trace_irqhandoff_ready_window e t k) qs ss rs ls = sound k qs ss rs ls"
  "sound (save_chain c s k) qs ss rs ls = sound k qs ss rs ls"
  "sound (request_reschedule t k) qs ss rs ls = sound k qs ss rs ls"
  "sound (mark_parent_running t k) qs ss rs ls = sound k qs ss rs ls"
  "sound (k\<lparr>g_reschedule_pending := b\<rparr>) qs ss rs ls = sound k qs ss rs ls"
  "sound (k\<lparr>g_tick_count := n\<rparr>) qs ss rs ls = sound k qs ss rs ls"
  "sound (k\<lparr>g_current_process := p\<rparr>) qs ss rs ls = sound k qs ss rs ls"
  "sound (k\<lparr>ttbr0 := n\<rparr>) qs ss rs ls = sound k qs ss rs ls"
  by (rule sound_view; simp)+

section \<open>Reaping\<close>

lemma reap_ok:
  assumes s: "steady k c qs ss rs ls"
  obtains k' where "reap_retired_threads wake k = Some k'" "steady k' c qs ss [] (without (set rs) ls)" "spares (set rs) k k'"
proof -
  note D = steadyD [OF s]
  obtain ps ms where k: "task_ok k qs ss rs ls ps ms" "quiet k" "awake k ss ls" using D(1) by (rule soundE)
  have crs: "c \<notin> set rs" using D(5) by (simp add: loose_def)
  obtain k' ps' ms' where r: "reap_retired_threads wake k = Some k'" "task_ok k' qs ss [] (without (set rs) ls) ps' ms'" "quiet k'"
    "spares (set rs) k k'" "g_current_thread k' = g_current_thread k"
    using reap_retired_threads_ok [OF k(1,2), of wake] D(2) crs by auto
  have "awake k' ss (without (set rs) ls)" using k(3) sparesD(3) [OF r(4)] by (auto simp: awake_def without_def)
  then have "sound k' qs ss [] (without (set rs) ls)" using r(2,3) by (blast intro: soundI)
  then have "steady k' c qs ss [] (without (set rs) ls)"
    using D crs sparesD(1) [OF r(4) crs] r(5) by (simp add: steady_def without_def)
  then show ?thesis using that r(1,4) by blast
qed

section \<open>Switching\<close>

lemma bind_current_thread_ok:
  assumes s: "sound k qs ss rs ls" and t: "t \<in> set ls" "loose t qs ss rs"
  obtains k' where "bind_current_thread wake t k = Some (StatusOK, k')" "steady k' t qs ss rs ls"
    "\<And>x. thread_context (threads k' x) = thread_context (threads k x)"
proof -
  obtain ps ms where ok: "task_ok k qs ss rs ls ps ms" using s by (rule soundE)
  obtain p where p: "p \<in> set ps" "thread_parent (threads k t) = Some p" by (rule family_parent [OF ok t(1)])
  let ?root = "page_table_root (process_address_space (processes k p))"
  have "?root \<noteq> 0" "kernel_root_table k \<noteq> 0" using task_okD(5) [OF ok] p(1) by (simp_all add: family_def)
  then have m: "mm_switch_to p k = (StatusOK, k\<lparr>ttbr0 := ?root\<rparr>)" by (simp add: mm_switch_to_def Let_def)
  define k1 where "k1 = updp p (\<lambda>x. x\<lparr>process_state := ProcessRunning\<rparr>) (k\<lparr>ttbr0 := ?root\<rparr>)"
  have v1: "view k1 = view (k\<lparr>ttbr0 := ?root\<rparr>)" unfolding k1_def by (rule view_updp) (simp add: pview_def)
  have s1: "sound k1 qs ss rs ls" using sound_view [of k1 k] s v1 by (simp add: k1_def)
  define k2 where "k2 = trace_irqhandoff_bind_window t (upd t (\<lambda>x. x\<lparr>thread_state := ThreadRunning\<rparr>) k1)"
  have s2: "sound k2 qs ss rs ls" unfolding k2_def using sound_set_state [OF s1 t(2)] by simp
  have th2: "threads k2 = threads (upd t (\<lambda>x. x\<lparr>thread_state := ThreadRunning\<rparr>) k)"
    by (simp add: k2_def k1_def trace_irqhandoff_bind_window_def call_def upd_def updp_def)
  obtain k3 where k3: "(if thread_state (threads k t) \<noteq> ThreadRunning
      then publish_thread_event wake KernelEventTypeThreadRunning t (thread_state (threads k t)) ThreadRunning k2 else Some k2) = Some k3"
      "same_tasks k2 k3" "quiet k3"
  proof (cases "thread_state (threads k t) = ThreadRunning")
    case True then show ?thesis using that s2 by (auto simp: same_tasks_refl sound_def)
  next
    case False
    have "quiet k2" using s2 by (simp add: sound_def)
    then obtain k3 where "publish_thread_event wake KernelEventTypeThreadRunning t (thread_state (threads k t)) ThreadRunning k2 = Some k3"
      "same_tasks k2 k3" "quiet k3" by (rule publish_thread_event_quiet)
    then show ?thesis using that False by simp
  qed
  have th3: "threads k3 = threads k2" using k3(2) by (cases k2; cases k3) (simp add: same_tasks_def)
  let ?k4 = "reset_quantum t (k3\<lparr>g_current_thread := Some t, g_current_process := thread_parent (threads k3 t)\<rparr>)"
  have "bind_current_thread wake t k = Some (StatusOK, ?k4)"
    unfolding bind_current_thread_def p(2) option.case m Let_def prod.case k1_def [symmetric] k2_def [symmetric]
    using k3(1) by (auto simp: k1_def [symmetric] k2_def [symmetric] split: if_splits)
  moreover have "steady ?k4 t qs ss rs ls"
    using sound_same_tasks [OF k3(2,3) s2] t(1)
    by (simp add: steady_def) (simp add: reset_quantum_def full_quantum_def upd_def th3 th2)
  moreover have "thread_context (threads ?k4 x) = thread_context (threads k x)" for x
    by (simp add: reset_quantum_def full_quantum_def upd_def th3 th2)
  ultimately show ?thesis using that by blast
qed


lemma steady_on_current:
  assumes s: "steady k t qs ss rs ls" and f: "\<And>x. links_of (f x) = links_of x" "\<And>x. current_priority (f x) = current_priority x"
    "\<And>x. wake_tick (f x) = 0 \<or> wake_tick (f x) = wake_tick x" "\<And>x. thread_state (f x) = thread_state x"
  shows "steady (on_current f k) t qs ss rs ls"
proof -
  note D = steadyD [OF s]
  have "sound (upd t f k) qs ss rs ls"
    by (rule sound_loose_upd [OF D(1,5) f(1)]) (use f(3) [of "threads k t"] D(6) in \<open>auto simp: f(2) sound_prio [OF D(1)]\<close>)
  then show ?thesis using D by (simp add: steady_def on_current_def) (simp add: upd_def f(4))
qed

lemma steady_broker:
  assumes "steady k t qs ss rs ls" "same_tasks k k'" "quiet k'" shows "steady k' t qs ss rs ls"
  using assms(1) sound_same_tasks [OF assms(2,3)] viewD(1,7) [OF view_same_tasks [OF assms(2)]] by (simp add: steady_def)

lemma quiet_clear_waiter:
  assumes "quiet k" shows "quiet (upds s (\<lambda>x. x\<lparr>waiting_thread := None\<rparr>) k)"
proof -
  have "waiting_thread (sub k x) = None" for x using assms by (auto simp: quiet_def quiet_list_def)
  then have "quiet_list (upds s (\<lambda>x. x\<lparr>waiting_thread := None\<rparr>) k) bs = quiet_list k bs" for bs by (intro quiet_list_cong) auto
  then show ?thesis using assms by (simp add: quiet_def)
qed

lemma finish_wait_ok:
  assumes s: "steady k t qs ss rs ls" shows "steady (finish_wait caller k) t qs ss rs ls"
proof -
  have "steady (upds sid (\<lambda>x. x\<lparr>waiting_thread := None\<rparr>) k) t qs ss rs ls" for sid
  proof (rule steady_broker [OF s])
    show "same_tasks k (upds sid (\<lambda>x. x\<lparr>waiting_thread := None\<rparr>) k)" by (intro same_tasks_rules)
    show "quiet (upds sid (\<lambda>x. x\<lparr>waiting_thread := None\<rparr>) k)" using steadyD(1) [OF s] by (intro quiet_clear_waiter) (simp add: sound_def)
  qed
  then show ?thesis using s by (cases caller) (simp_all add: finish_wait_def)
qed

lemma after_switch_ok:
  assumes "steady k t qs ss rs ls"
  shows "steady (snd (after_switch caller StatusOK k)) t qs ss rs ls"
proof -
  have b: "steady (after_block StatusOK k) t qs ss rs ls"
    unfolding after_block_def Let_def by simp (rule steady_on_current [OF assms]; simp add: links_of_def)
  have e: "steady (undo_sleep StatusOK (on_current end_wait k)) t qs ss rs ls"
  proof -
    have "steady (on_current end_wait k) t qs ss rs ls" by (rule steady_on_current [OF assms]) (simp_all add: end_wait_def links_of_def)
    then show ?thesis by (simp add: undo_sleep_def split: option.split)
  qed
  show ?thesis by (cases caller) (use assms b e finish_wait_ok [OF b] in auto)
qed

text \<open>The retired threads are gone after a switch that completes a suspended operation.\<close>

definition reaped :: "ptr list \<Rightarrow> ptr list \<Rightarrow> ptr list \<Rightarrow> ptr list \<Rightarrow> bool" where
  "reaped rs ls rs' ls' \<longleftrightarrow> rs' = rs \<and> ls' = ls \<or> rs' = [] \<and> ls' = without (set rs) ls"

lemma reaped_same [simp]: "reaped rs ls rs ls"
  by (simp add: reaped_def)

lemma resume_ok:
  assumes s: "steady k t qs ss rs ls"
  obtains land k' rs' ls' where "resume wake t k = Some (land, k')" "steady k' t qs ss rs' ls'" "reaped rs ls rs' ls'"
proof -
  obtain k1 where r: "reap_retired_threads wake k = Some k1" "steady k1 t qs ss [] (without (set rs) ls)" by (rule reap_ok [OF s])
  have "\<exists>land k' rs' ls'. resume wake t k = Some (land, k') \<and> steady k' t qs ss rs' ls' \<and> reaped rs ls rs' ls'"
  proof (cases "kernel_chain (thread_context (threads k t))")
    case (InSwitch caller)
    obtain land k2 where a: "after_switch caller StatusOK k1 = (land, k2)" by fastforce
    then have "steady k2 t qs ss [] (without (set rs) ls)" using after_switch_ok [OF r(2), of caller] by simp
    then show ?thesis using s r(1) a InSwitch by (auto simp: resume_def Let_def reaped_def)
  qed (use s reaped_same [of rs ls] in \<open>(simp add: resume_def Let_def, blast)+\<close>)
  then show ?thesis using that by blast
qed

lemma switch_to_thread_ok:
  assumes s: "sound k qs ss rs ls" and t: "t \<in> set ls" "loose t qs ss rs"
  obtains land k' rs' ls' where "switch_to_thread wake caller (Some t) k = Some (land, k')" "steady k' t qs ss rs' ls'" "reaped rs ls rs' ls'"
proof (cases "g_current_thread k = Some t")
  case True
  let ?k1 = "reset_quantum t (upd t (\<lambda>x. x\<lparr>thread_state := ThreadRunning\<rparr>) k)"
  have "steady ?k1 t qs ss rs ls"
    using sound_set_state [OF s t(2)] True t(1) by (simp add: steady_def) (simp add: reset_quantum_def full_quantum_def upd_def)
  then have "steady (snd (after_switch caller StatusOK ?k1)) t qs ss rs ls" by (rule after_switch_ok)
  then show ?thesis using that [of "fst (after_switch caller StatusOK ?k1)" "snd (after_switch caller StatusOK ?k1)" rs ls] True
    by (simp add: switch_to_thread_def)
next
  case False
  obtain k1 where b: "bind_current_thread wake t k = Some (StatusOK, k1)" "steady k1 t qs ss rs ls"
    by (rule bind_current_thread_ok [OF s t])
  let ?k2 = "save_chain (g_current_thread k) caller k1"
  have th: "thread_state (threads ?k2 x) = thread_state (threads k1 x)" "g_current_thread ?k2 = g_current_thread k1" for x
    using viewD(1,7) [of ?k2 k1] by simp_all
  have "steady ?k2 t qs ss rs ls" using b(2) by (simp add: steady_def th)
  then obtain land k' rs' ls' where "resume wake t ?k2 = Some (land, k')" "steady k' t qs ss rs' ls'" "reaped rs ls rs' ls'"
    by (rule resume_ok)
  then show ?thesis using that b(1) False by (auto simp: switch_to_thread_def Let_def)
qed


section \<open>Choosing the next thread\<close>

text \<open>The thread the ready queues \<open>qs\<close> select, and what they hold then.\<close>

definition successor :: "Kernel \<Rightarrow> (nat \<Rightarrow> ptr list) \<Rightarrow> ptr" where
  "successor k qs = (if \<forall>q. qs q = [] then the (g_idle_thread k) else hd (qs (best_queue qs)))"

definition served :: "(nat \<Rightarrow> ptr list) \<Rightarrow> nat \<Rightarrow> ptr list" where
  "served qs = qs(best_queue qs := tl (qs (best_queue qs)))"

lemma served_empty: "\<forall>q. qs q = [] \<Longrightarrow> served qs = qs"
  by (auto simp: served_def)

lemma pick_next_thread_ok:
  assumes s: "sound k qs ss rs ls" and keep: "\<not> keep \<or> g_current_thread k = g_idle_thread k \<or> (\<exists>q. qs q \<noteq> [])"
  obtains k' where "pick_next_thread keep k = Some (Some (successor k qs), k')" "sound k' (served qs) ss rs ls"
    "successor k qs \<in> set ls" "loose (successor k qs) (served qs) ss rs" "g_current_thread k' = g_current_thread k"
    "g_idle_thread k' = g_idle_thread k"
proof -
  obtain ps ms where ok: "task_ok k qs ss rs ls ps ms" "quiet k" "awake k ss ls" using s by (rule soundE)
  obtain i where i: "g_idle_thread k = Some i" "i \<in> set ls" "loose i qs ss rs" by (rule sound_idle [OF s])
  show ?thesis
  proof (cases "\<forall>q. qs q = []")
    case True
    have p: "ready_queue_pop_best k = Some (None, k)"
      by (rule ready_queue_pop_best_empty [OF task_okD(1) [OF ok(1)]]) (simp add: True)
    have "pick_next_thread keep k = Some (Some i, k)" using p keep i(1) True by (auto simp: pick_next_thread_def)
    moreover have "successor k qs = i" using True i(1) by (simp add: successor_def)
    ultimately show ?thesis using that s i served_empty [OF True] by simp
  next
    case False
    then obtain q0 where q0: "qs q0 \<noteq> []" by auto
    let ?t = "hd (qs (best_queue qs))"
    obtain k' where P: "ready_queue_pop_best k = Some (Some ?t, k')" "task_ok k' (served qs) ss rs ls ps ms" "only_ready k k'"
        "loose ?t (served qs) ss rs" "?t \<in> set (qs (best_queue qs))"
      unfolding served_def by (rule task_ok_pop [OF ok(1) q0])
    have "quiet k'" using quiet_broker [OF only_readyD(26) [OF P(3)]] ok(2) by simp
    moreover have "awake k' ss ls" using ok(3) by (simp add: awake_def only_readyD [OF P(3)])
    ultimately have "sound k' (served qs) ss rs ls" using P(2) by (blast intro: soundI)
    moreover have "successor k qs = ?t" unfolding successor_def by (rule if_not_P) (rule False)
    moreover have "pick_next_thread keep k = Some (Some ?t, k')" using P(1) by (simp add: pick_next_thread_def)
    moreover have "?t \<in> set ls" by (rule queued_facts(3) [OF ok(1) P(5)])
    ultimately show ?thesis using that P(4) only_readyD [OF P(3)] by simp
  qed
qed

lemma reschedule_ok:
  assumes s: "sound k qs ss rs ls" and keep: "\<not> keep \<or> g_current_thread k = g_idle_thread k \<or> (\<exists>q. qs q \<noteq> [])"
  obtains land k' rs' ls' where "reschedule wake caller keep k = Some (land, k')"
    "steady k' (successor k qs) (served qs) ss rs' ls'" "reaped rs ls rs' ls'"
proof -
  obtain k1 where P: "pick_next_thread keep k = Some (Some (successor k qs), k1)" "sound k1 (served qs) ss rs ls"
    "successor k qs \<in> set ls" "loose (successor k qs) (served qs) ss rs" "g_current_thread k1 = g_current_thread k"
    "g_idle_thread k1 = g_idle_thread k"
    by (rule pick_next_thread_ok [OF s keep])
  obtain land k' rs' ls' where "switch_to_thread wake caller (Some (successor k qs)) k1 = Some (land, k')"
    "steady k' (successor k qs) (served qs) ss rs' ls'" "reaped rs ls rs' ls'" by (rule switch_to_thread_ok [OF P(2-4)])
  then show ?thesis using that P(1) by (simp add: reschedule_def)
qed

section \<open>Requeueing the current thread\<close>

definition requeued :: "Kernel \<Rightarrow> ptr \<Rightarrow> bool \<Rightarrow> (nat \<Rightarrow> ptr list) \<Rightarrow> nat \<Rightarrow> ptr list" where
  "requeued k t at_tail qs = qs(prio k t := if at_tail then qs (prio k t) @ [t] else t # qs (prio k t))"

lemma requeued_nonempty: "\<exists>q. requeued k t at_tail qs q \<noteq> []"
  by (rule exI [of _ "prio k t"]) (simp add: requeued_def)

lemma sound_push:
  assumes s: "sound k qs ss rs ls" and t: "loose t qs ss rs" "t \<in> set ls" "thread_state (threads k t) = ThreadReady" "g_idle_thread k \<noteq> Some t"
  obtains k' where "ready_queue_push t at_tail k = (StatusOK, k')" "sound k' (requeued k t at_tail qs) ss rs ls" "only_ready k k'"
proof -
  obtain ps ms where ok: "task_ok k qs ss rs ls ps ms" "quiet k" "awake k ss ls" using s by (rule soundE)
  have w: "wake_tick (threads k t) = 0" using sound_awake [OF s t(2)] t(1) by (simp add: loose_def)
  obtain k' where P: "ready_queue_push t at_tail k = (StatusOK, k')" "only_ready k k'" "task_ok k' (requeued k t at_tail qs) ss rs ls ps ms"
    unfolding requeued_def by (rule task_ok_push [OF ok(1) t(1-3) w t(4)])
  have "quiet k'" using quiet_broker [OF only_readyD(26) [OF P(2)]] ok(2) by simp
  moreover have "awake k' ss ls" using ok(3) by (simp add: awake_def only_readyD [OF P(2)])
  ultimately show ?thesis using that P by (blast intro: soundI)
qed

lemma requeue_current_ok:
  assumes s: "steady k c qs ss rs ls" and c: "g_idle_thread k \<noteq> Some c"
  obtains k' where "requeue_current wake at_tail reset k = Some k'" "sound k' (requeued k c at_tail qs) ss rs ls"
    "g_idle_thread k' = g_idle_thread k" "g_current_thread k' = Some c"
proof -
  note D = steadyD [OF s]
  define k1 where "k1 = upd c (\<lambda>x. x\<lparr>thread_state := ThreadReady\<rparr>) k"
  define k2 where "k2 = (if reset then reset_quantum c k1 else k1)"
  have s2: "sound k2 qs ss rs ls" using sound_set_state [OF D(1,5)] by (simp add: k2_def k1_def)
  have g2: "thread_state (threads k2 c) = ThreadReady" "prio k2 c = prio k c" "g_idle_thread k2 = g_idle_thread k" "g_current_thread k2 = Some c"
    using D(2) by (simp_all add: k2_def k1_def reset_quantum_def full_quantum_def upd_def)
  obtain k3 where P: "ready_queue_push c at_tail k2 = (StatusOK, k3)" "sound k3 (requeued k2 c at_tail qs) ss rs ls" "only_ready k2 k3"
    by (rule sound_push [OF s2 D(5,3) g2(1)]) (simp_all add: g2(3) c)
  have "quiet k3" using P(2) by (simp add: sound_def)
  then obtain k' where Q: "publish_thread_event wake KernelEventTypeThreadReady c ThreadRunning ThreadReady k3 = Some k'" "same_tasks k3 k'" "quiet k'"
    by (rule publish_thread_event_quiet)
  have "requeue_current wake at_tail reset k = Some k'"
    unfolding requeue_current_def using D(2,4) c P(1) Q(1) by (simp add: k1_def [symmetric] k2_def [symmetric] Let_def)
  moreover have "sound k' (requeued k c at_tail qs) ss rs ls" using sound_same_tasks [OF Q(2,3) P(2)] unfolding requeued_def g2(2) .
  ultimately show ?thesis using that only_readyD [OF P(3)] g2 viewD(6,7) [OF view_same_tasks [OF Q(2)]] by simp
qed

lemma dispatch_requeue_ok:
  fixes at_tail :: bool
  assumes s: "steady k c qs ss rs ls" and c: "g_idle_thread k \<noteq> Some c"
  defines "qs' \<equiv> requeued k c at_tail qs"
  obtains land k' rs' ls' where "dispatch wake caller True at_tail reset keep k = Some (land, k')"
    "steady k' (hd (qs' (best_queue qs'))) (served qs') ss rs' ls'" "reaped rs ls rs' ls'"
proof -
  obtain k1 where R: "requeue_current wake at_tail reset k = Some k1" "sound k1 qs' ss rs ls"
    "g_idle_thread k1 = g_idle_thread k" "g_current_thread k1 = Some c" unfolding qs'_def by (rule requeue_current_ok [OF s c])
  have ne: "\<exists>q. qs' q \<noteq> []" unfolding qs'_def by (rule requeued_nonempty)
  obtain land k' rs' ls' where "reschedule wake caller keep k1 = Some (land, k')"
    "steady k' (successor k1 qs') (served qs') ss rs' ls'" "reaped rs ls rs' ls'"
    by (rule reschedule_ok [OF R(2)]) (use ne in auto)
  moreover have "successor k1 qs' = hd (qs' (best_queue qs'))" using ne by (auto simp: successor_def)
  ultimately show ?thesis using that R(1) by (simp add: dispatch_def)
qed

section \<open>Yielding, blocking, exiting\<close>

lemma reaped_nil: "reaped [] ls rs' ls' \<longleftrightarrow> rs' = [] \<and> ls' = ls"
  by (auto simp: reaped_def)

lemma successor_cong: "g_idle_thread k' = g_idle_thread k \<Longrightarrow> successor k' = successor k"
  by (simp add: successor_def fun_eq_iff)

lemma spares_same:
  assumes "spares T k k'" shows "g_idle_thread k' = g_idle_thread k" "g_tick_count k' = g_tick_count k" "successor k' = successor k"
  using assms by (simp_all add: spares_def successor_def fun_eq_iff)

lemma spares_prio: "spares T k k' \<Longrightarrow> t \<notin> T \<Longrightarrow> prio k' t = prio k t"
  by (simp add: sparesD)

lemma steady_not_retired: "steady k c qs ss rs ls \<Longrightarrow> c \<notin> set rs"
  using steadyD(5) by (auto simp: loose_def)

lemma steady_reset [simp]: "steady (reset_quantum t k) c qs ss rs ls = steady k c qs ss rs ls"
proof -
  have "g_current_thread (reset_quantum t k) = g_current_thread k" "thread_state (threads (reset_quantum t k) c) = thread_state (threads k c)"
    by (simp_all add: reset_quantum_def full_quantum_def upd_def)
  then show ?thesis by (simp add: steady_def)
qed

lemma steady_flags [simp]:
  "steady (k\<lparr>g_reschedule_pending := b\<rparr>) c qs ss rs ls = steady k c qs ss rs ls"
  "steady (k\<lparr>g_tick_count := n\<rparr>) c qs ss rs ls = steady k c qs ss rs ls"
  by (simp_all add: steady_def)

lemma requeued_alone:
  fixes k :: Kernel and c :: ptr
  assumes "\<forall>q. qs q = []"
  defines "qs' \<equiv> requeued k c True qs"
  shows "hd (qs' (best_queue qs')) = c" "served qs' = qs"
proof -
  have q: "qs' q = (if q = prio k c then [c] else [])" for q using assms(1) by (simp add: qs'_def requeued_def)
  have "qs' (best_queue qs') \<noteq> []" by (rule best_queue_props(1) [of _ "prio k c"]) (simp add: q)
  then have "best_queue qs' = prio k c" by (metis q)
  then show "hd (qs' (best_queue qs')) = c" "served qs' = qs" using assms(1) by (auto simp: q served_def fun_eq_iff)
qed

lemma yield_ok:
  assumes s: "steady k c qs ss rs ls" and c: "g_idle_thread k \<noteq> Some c"
  defines "qs' \<equiv> requeued k c True qs"
  obtains land k' where "yield n k = Some (land, k')" "steady k' (hd (qs' (best_queue qs'))) (served qs') ss [] (without (set rs) ls)"
proof -
  obtain k1 where r: "reap_retired_threads (waking n) k = Some k1" "steady k1 c qs ss [] (without (set rs) ls)" "spares (set rs) k k1"
    by (rule reap_ok [OF s])
  have c1: "g_idle_thread k1 \<noteq> Some c" using c by (simp add: spares_same(1) [OF r(3)])
  have q': "requeued k1 c True qs = qs'" unfolding qs'_def requeued_def spares_prio [OF r(3) steady_not_retired [OF s]] ..
  note D = steadyD [OF r(2)]
  obtain ps ms where ok: "task_ok k1 qs ss [] (without (set rs) ls) ps ms" using D(1) by (rule soundE)
  show ?thesis
  proof (cases "g_ready_count k1 = 0")
    case True
    then have e: "\<forall>q. qs q = []" using ready_count_zero [OF ok] by simp
    have "yield n k = Some (Returned StatusOK, reset_quantum c k1)" using r(1) D(2) c1 True by (simp add: yield_def)
    then show ?thesis using that r(2) requeued_alone [OF e, of k c] by (simp add: qs'_def)
  next
    case False
    obtain land k' rs' ls' where d: "dispatch (waking n) FromYield True True True True k1 = Some (land, k')"
      "steady k' (hd (qs' (best_queue qs'))) (served qs') ss rs' ls'" "reaped [] (without (set rs) ls) rs' ls'"
      using dispatch_requeue_ok [OF r(2) c1, of "waking n" FromYield True True True thesis] unfolding q' by metis
    then show ?thesis using that r(1) D(2) c1 False by (simp add: yield_def reaped_nil)
  qed
qed

lemma yield_idle_ok:
  assumes s: "steady k c qs ss rs ls" and c: "g_idle_thread k = Some c"
  obtains land k' where "yield n k = Some (land, k')" "steady k' (successor k qs) (served qs) ss [] (without (set rs) ls)"
proof -
  obtain k1 where r: "reap_retired_threads (waking n) k = Some k1" "steady k1 c qs ss [] (without (set rs) ls)" "spares (set rs) k k1"
    by (rule reap_ok [OF s])
  note D = steadyD [OF r(2)]
  have c1: "g_idle_thread k1 = Some c" using c by (simp add: spares_same(1) [OF r(3)])
  obtain land k' rs' ls' where "reschedule (waking n) FromYield True k1 = Some (land, k')"
    "steady k' (successor k1 qs) (served qs) ss rs' ls'" "reaped [] (without (set rs) ls) rs' ls'"
    by (rule reschedule_ok [OF D(1), of True]) (use D(2) c1 in auto)
  then show ?thesis using that r(1) D(2) c1 spares_same(3) [OF r(3)] by (simp add: yield_def reaped_nil dispatch_def)
qed

lemma exit_current_thread_ok:
  assumes s: "steady k c qs ss rs ls" and c: "g_idle_thread k \<noteq> Some c"
  obtains land k' rs' ls' where "exit_current_thread n k = Some (land, k')" "steady k' (successor k qs) (served qs) ss rs' ls'"
    "reaped (rs @ [c]) ls rs' ls'"
proof -
  note D = steadyD [OF s]
  let ?k1 = "upd c (\<lambda>x. x\<lparr>thread_state := ThreadTerminated\<rparr>) k"
  let ?k2 = "queue_retired_thread c ?k1"
  have s1: "sound ?k1 qs ss rs ls" by (rule sound_set_state [OF D(1,5)])
  obtain ps ms where ok1: "task_ok ?k1 qs ss rs ls ps ms" "quiet ?k1" "awake ?k1 ss ls" using s1 by (rule soundE)
  have "task_ok ?k2 qs ss (rs @ [c]) ls ps ms" by (rule task_ok_retire [OF ok1(1) D(5,3)]) (use c in \<open>simp_all add: upd_def\<close>)
  moreover have "broker ?k2 = broker ?k1" "g_current_thread ?k2 = Some c" "g_idle_thread ?k2 = g_idle_thread k"
    using D(2) by (simp_all add: queue_retired_thread_def Let_def upd_def split: option.split)
  note g = this
  moreover have "awake ?k2 ss ls"
    using ok1(3) unfolding awake_def by (auto simp: queue_retired_thread_def Let_def upd_def split: option.split)
  ultimately have s2: "sound ?k2 qs ss (rs @ [c]) ls" using quiet_broker [of ?k2 ?k1] ok1(2) by (blast intro: soundI)
  obtain land k' rs' ls' where "reschedule (waking n) FromExit False ?k2 = Some (land, k')"
    "steady k' (successor ?k2 qs) (served qs) ss rs' ls'" "reaped (rs @ [c]) ls rs' ls'" by (rule reschedule_ok [OF s2, of False]) auto
  moreover have "successor ?k2 = successor k" using g(3) by (simp add: successor_def fun_eq_iff)
  ultimately show ?thesis using that D(2) c by (simp add: exit_current_thread_def)
qed

lemma active_thread_ok:
  "steady k c qs ss rs ls \<Longrightarrow> active_thread k = (if g_idle_thread k = Some c then None else Some c)"
  by (auto simp: active_thread_def steady_def)

lemma block_current_from_ok:
  assumes s: "steady k c qs ss rs ls" and c: "g_idle_thread k \<noteq> Some c"
  obtains land k' where "block_current_from caller n reason obj k = Some (land, k')"
    "steady k' (successor k qs) (served qs) ss [] (without (set rs) ls)"
proof -
  obtain k1 where r: "reap_retired_threads (waking n) k = Some k1" "steady k1 c qs ss [] (without (set rs) ls)" "spares (set rs) k k1"
    by (rule reap_ok [OF s])
  note D = steadyD [OF r(2)]
  have c1: "active_thread k1 = Some c" using c by (simp add: active_thread_ok [OF r(2)] spares_same(1) [OF r(3)])
  let ?k2 = "upd c (\<lambda>x. x\<lparr>wait_object := obj, wait_status := wait_code reason, thread_state := ThreadWaiting\<rparr>) k1"
  have s2: "sound ?k2 qs ss [] (without (set rs) ls)"
    by (rule sound_loose_upd [OF D(1,5)]) (use D(6) sound_prio [OF D(1,3)] in \<open>simp_all add: links_of_def\<close>)
  obtain land k' rs' ls' where "reschedule (waking n) caller False ?k2 = Some (land, k')"
    "steady k' (successor ?k2 qs) (served qs) ss rs' ls'" "reaped [] (without (set rs) ls) rs' ls'"
    by (rule reschedule_ok [OF s2, of False]) auto
  moreover have "successor ?k2 = successor k" by (rule successor_cong) (simp add: upd_def spares_same(1) [OF r(3)])
  ultimately show ?thesis using that r(1) c1 by (simp add: block_current_from_def reaped_nil)
qed

section \<open>Sleeping\<close>

text \<open>The sleep queue with a new sleeper: behind the threads that wake no later.\<close>

definition asleep :: "Kernel \<Rightarrow> u64 \<Rightarrow> ptr \<Rightarrow> ptr list \<Rightarrow> ptr list" where
  "asleep k w c ss = takeWhile (\<lambda>x. wake_tick (threads k x) \<le> w) ss @ c # dropWhile (\<lambda>x. wake_tick (threads k x) \<le> w) ss"

lemma asleep_cong: "(\<And>x. x \<in> set ss \<Longrightarrow> wake_tick (threads k' x) = wake_tick (threads k x)) \<Longrightarrow> asleep k' w c ss = asleep k w c ss"
  unfolding asleep_def by (simp cong: takeWhile_cong dropWhile_cong)

lemma set_asleep [simp]: "set (asleep k w c ss) = insert c (set ss)"
proof -
  have "set (takeWhile P ss) \<union> set (dropWhile P ss) = set ss" for P by (metis set_append takeWhile_dropWhile_id)
  then show ?thesis by (simp add: asleep_def)
qed

lemma fall_asleep_ok:
  assumes s: "steady k c qs ss rs ls" and c: "g_idle_thread k \<noteq> Some c"
  obtains k' where "fall_asleep c reason obj delay k = Some k'" "sound k' qs (asleep k (g_tick_count k + delay) c ss) rs ls"
    "g_idle_thread k' = g_idle_thread k" "g_current_thread k' = Some c"
proof -
  note D = steadyD [OF s]
  obtain ps ms where ok: "task_ok k qs ss rs ls ps ms" "quiet k" "awake k ss ls" using D(1) by (rule soundE)
  have out: "c \<notin> set ss" using D(5) by (simp add: loose_def)
  let ?w = "g_tick_count k + delay"
  define k1 where "k1 = upd c (\<lambda>x. x\<lparr>wait_object := obj, wait_status := wait_code reason, wake_tick := ?w, thread_state := ThreadWaiting\<rparr>) k"
  have ok1: "task_ok k1 qs ss rs ls ps ms" unfolding k1_def
    by (rule task_ok_loose_upd [OF ok(1) D(5)]) (use sound_prio [OF D(1,3)] in \<open>simp_all add: links_of_def\<close>)
  have g1: "thread_state (threads k1 c) = ThreadWaiting" "wake_tick (threads k1 c) = ?w" "g_idle_thread k1 = g_idle_thread k"
    "g_current_thread k1 = Some c" using D(2) by (simp_all add: k1_def upd_def)
  have w1: "wake_tick (threads k1 x) = wake_tick (threads k x)" if "x \<noteq> c" for x using that by (simp add: k1_def upd_def)
  have a: "asleep k1 ?w c ss = asleep k ?w c ss" by (rule asleep_cong) (use out w1 in metis)
  obtain k' where S: "sleep_queue_insert_sorted c k1 = Some k'" "only_sleep k1 k'" "task_ok k' qs (asleep k1 ?w c ss) rs ls ps ms"
    unfolding asleep_def by (rule task_ok_sleep [OF ok1 D(5,3) g1(1)]) (use c in \<open>simp_all add: g1\<close>)
  note F = only_sleep_fields [OF S(2)]
  have "quiet k'" using quiet_broker [of k' k1] quiet_broker [of k1 k] F(28) ok(2) by (simp add: k1_def)
  moreover have "awake k' (asleep k ?w c ss) ls" using ok(3) w1 by (simp add: awake_def F(3))
  ultimately have "sound k' qs (asleep k ?w c ss) rs ls" using S(3) unfolding a by (blast intro: soundI)
  moreover have "fall_asleep c reason obj delay k = Some k'" using S(1) by (simp add: fall_asleep_def k1_def)
  ultimately show ?thesis using that g1 F(19,20) by simp
qed

lemma doze_ok:
  assumes s: "steady k c qs ss rs ls" and c: "g_idle_thread k \<noteq> Some c"
  obtains k1 k2 land k' where "reap_retired_threads (waking n) k = Some k1" "active_thread k1 = Some c"
    "fall_asleep c reason obj delay k1 = Some k2" "reschedule (waking n) caller False k2 = Some (land, k')"
    "steady k' (successor k qs) (served qs) (asleep k (g_tick_count k + delay) c ss) [] (without (set rs) ls)"
proof -
  obtain k1 where r: "reap_retired_threads (waking n) k = Some k1" "steady k1 c qs ss [] (without (set rs) ls)" "spares (set rs) k k1"
    by (rule reap_ok [OF s])
  note E = spares_same [OF r(3)]
  have c1: "active_thread k1 = Some c" using c by (simp add: active_thread_ok [OF r(2)] E(1))
  obtain ps ms where ok: "task_ok k qs ss rs ls ps ms" using steadyD(1) [OF s] by (rule soundE)
  have a: "asleep k1 (g_tick_count k + delay) c ss = asleep k (g_tick_count k + delay) c ss"
    by (rule asleep_cong) (rule sparesD(3) [OF r(3)], rule sleeper_facts(4) [OF ok])
  obtain k2 where f: "fall_asleep c reason obj delay k1 = Some k2" "sound k2 qs (asleep k1 (g_tick_count k1 + delay) c ss) [] (without (set rs) ls)"
    "g_idle_thread k2 = g_idle_thread k1" "g_current_thread k2 = Some c"
    by (rule fall_asleep_ok [OF r(2)]) (simp_all add: E(1) c)
  note s2 = f(2) [unfolded E(2) a]
  obtain land k' rs' ls' where "reschedule (waking n) caller False k2 = Some (land, k')"
    "steady k' (successor k2 qs) (served qs) (asleep k (g_tick_count k + delay) c ss) rs' ls'" "reaped [] (without (set rs) ls) rs' ls'"
    by (rule reschedule_ok [OF s2, of False]) auto
  moreover have "successor k2 = successor k" by (rule successor_cong) (simp add: f(3) E(1))
  ultimately show ?thesis using that r(1) c1 f(1) by (simp add: reaped_nil)
qed

lemma sleep_current_ok:
  assumes s: "steady k c qs ss rs ls" and c: "g_idle_thread k \<noteq> Some c" and d: "delay \<noteq> 0"
  obtains land k' where "sleep_current n delay k = Some (land, k')"
    "steady k' (successor k qs) (served qs) (asleep k (g_tick_count k + delay) c ss) [] (without (set rs) ls)"
proof -
  obtain k1 k2 land k' where "reap_retired_threads (waking n) k = Some k1" "active_thread k1 = Some c"
    "fall_asleep c WaitDelay None delay k1 = Some k2" "reschedule (waking n) FromSleep False k2 = Some (land, k')"
    "steady k' (successor k qs) (served qs) (asleep k (g_tick_count k + delay) c ss) [] (without (set rs) ls)"
    by (rule doze_ok [OF s c])
  then show ?thesis using that d by (simp add: sleep_current_def)
qed

lemma block_current_for_ok:
  assumes s: "steady k c qs ss rs ls" and c: "g_idle_thread k \<noteq> Some c" and d: "delay \<noteq> 0"
  obtains land k' where "block_current_for n reason delay obj k = Some (land, k')"
    "steady k' (successor k qs) (served qs) (asleep k (g_tick_count k + delay) c ss) [] (without (set rs) ls)"
proof -
  obtain k1 k2 land k' where "reap_retired_threads (waking n) k = Some k1" "active_thread k1 = Some c"
    "fall_asleep c reason obj delay k1 = Some k2" "reschedule (waking n) (FromBlockFor reason) False k2 = Some (land, k')"
    "steady k' (successor k qs) (served qs) (asleep k (g_tick_count k + delay) c ss) [] (without (set rs) ls)"
    by (rule doze_ok [OF s c])
  then show ?thesis using that d by (simp add: block_current_for_def)
qed

section \<open>Waking\<close>

lemma transition_ok:
  assumes s: "sound k qs ss rs ls" and t: "t \<in> set ls" "t \<notin> set rs" "\<And>q. t \<notin> set (qs q)" "g_idle_thread k \<noteq> Some t"
    "thread_state (threads k t) \<noteq> ThreadTerminated"
  obtains k' where "transition_thread_to_ready wake t at_tail k = Some (StatusOK, k')"
    "sound k' (requeued k t at_tail qs) (remove1 t ss) rs ls" "g_current_thread k' = g_current_thread k" "g_idle_thread k' = g_idle_thread k"
    "g_tick_count k' = g_tick_count k" "\<And>x. current_priority (threads k' x) = current_priority (threads k x)"
    "\<And>x. x \<noteq> t \<Longrightarrow> wake_tick (threads k' x) = wake_tick (threads k x) \<and> thread_state (threads k' x) = thread_state (threads k x)"
proof -
  obtain ps ms where ok: "task_ok k qs ss rs ls ps ms" "quiet k" "awake k ss ls" using s by (rule soundE)
  define k1 where "k1 = sleep_queue_remove t k"
  note S = task_ok_unsleep [OF ok(1), of t, folded k1_def]
  note F = only_sleep_fields [OF S(2)]
  define k2 where "k2 = upd t (\<lambda>x. x\<lparr>wait_object := None, wait_status := wait_code WaitNone, wake_tick := 0\<rparr>) k1"
  have "distinct ss" using task_ok_distinct [OF ok(1)] by simp
  then have l: "loose t qs (remove1 t ss) rs" using t(2,3) by (simp add: loose_def)
  have ok2: "task_ok k2 qs (remove1 t ss) rs ls ps ms" unfolding k2_def
    by (rule task_ok_loose_upd [OF S(1) l]) (use sound_prio [OF s t(1)] in \<open>simp_all add: links_of_def F(2)\<close>)
  have "quiet k2" using quiet_broker [of k2 k] F(28) ok(2) by (simp add: k2_def)
  moreover have "awake k2 (remove1 t ss) ls"
    using ok(3) \<open>distinct ss\<close> by (auto simp: awake_def k2_def upd_def F(3))
  ultimately have s2: "sound k2 qs (remove1 t ss) rs ls" using ok2 by (blast intro: soundI)
  define k3 where "k3 = mark_parent_running t k2"
  have v3: "view k3 = view k2" by (simp add: k3_def)
  define k4 where "k4 = upd t (\<lambda>x. x\<lparr>thread_state := ThreadReady\<rparr>) k3"
  define k5 where "k5 = (if quantum_ticks_remaining (threads k4 t) = 0 then reset_quantum t k4 else k4)"
  have s5: "sound k5 qs (remove1 t ss) rs ls"
  proof -
    have "sound k4 qs (remove1 t ss) rs ls" unfolding k4_def by (rule sound_set_state [OF _ l]) (simp add: k3_def s2)
    then show ?thesis by (simp add: k5_def)
  qed
  have v5: "view k5 = view k4" by (simp add: k5_def)
  have tick5: "g_tick_count k5 = g_tick_count k"
    by (simp add: k5_def k4_def k3_def k2_def reset_quantum_def mark_parent_running_def upd_def updp_def F(30) split: option.split)
  have g5: "thread_state (threads k5 x) = (if x = t then ThreadReady else thread_state (threads k x))" 
    "current_priority (threads k5 x) = current_priority (threads k x)" "x \<noteq> t \<Longrightarrow> wake_tick (threads k5 x) = wake_tick (threads k x)"
    "g_idle_thread k5 = g_idle_thread k" "g_current_thread k5 = g_current_thread k" for x
  proof -
    note V = viewD [OF v5] and W = viewD [OF v3]
    show "thread_state (threads k5 x) = (if x = t then ThreadReady else thread_state (threads k x))"
      by (simp add: V W k4_def upd_def k2_def F)
    show "current_priority (threads k5 x) = current_priority (threads k x)" by (simp add: V W k4_def upd_def k2_def F)
    show "x \<noteq> t \<Longrightarrow> wake_tick (threads k5 x) = wake_tick (threads k x)" by (simp add: V W k4_def upd_def k2_def F)
    show "g_idle_thread k5 = g_idle_thread k" "g_current_thread k5 = g_current_thread k" by (simp_all add: V W k4_def upd_def k2_def F)
  qed
  obtain k6 where P: "ready_queue_push t at_tail k5 = (StatusOK, k6)" "sound k6 (requeued k5 t at_tail qs) (remove1 t ss) rs ls" "only_ready k5 k6"
    by (rule sound_push [OF s5 l t(1)]) (use t(4) in \<open>simp_all add: g5\<close>)
  note R = only_readyD [OF P(3)]
  have rq: "requeued k5 t at_tail qs = requeued k t at_tail qs" by (simp only: requeued_def g5)
  let ?pre = "thread_state (threads k3 t)"
  obtain k7 where Q: "(if ?pre \<noteq> ThreadReady then publish_thread_event wake KernelEventTypeThreadReady t ?pre ThreadReady k6 else Some k6) = Some k7"
    "same_tasks k6 k7" "quiet k7"
  proof (cases "?pre = ThreadReady")
    case True then show ?thesis using that P(2) by (auto simp: same_tasks_refl sound_def)
  next
    case False
    have "quiet k6" using P(2) by (simp add: sound_def)
    then obtain k7 where "publish_thread_event wake KernelEventTypeThreadReady t ?pre ThreadReady k6 = Some k7" "same_tasks k6 k7" "quiet k7"
      by (rule publish_thread_event_quiet)
    then show ?thesis using that False by simp
  qed
  note V7 = viewD [OF view_same_tasks [OF Q(2)]]
  let ?k8 = "request_reschedule t k7"
  have v8: "view ?k8 = view k7" by simp
  note V8 = viewD [OF v8]
  have nr: "\<not> in_ready_queue (threads k t)" using ready_lists_mem [OF task_okD(1) [OF ok(1)], of t "prio k t"] t(3) by simp
  have tick7: "g_tick_count k7 = g_tick_count k6" using Q(2) by (cases k6; cases k7) (simp add: same_tasks_def)
  have tick8: "g_tick_count ?k8 = g_tick_count k7" by (simp add: request_reschedule_def Let_def split: option.split)
  have "transition_thread_to_ready wake t at_tail k = Some (StatusOK, ?k8)"
    unfolding transition_thread_to_ready_def Let_def k1_def [symmetric] k2_def [symmetric] k3_def [symmetric] k4_def [symmetric] k5_def [symmetric]
    using t(5) nr Q(1) by (simp add: P(1) split: if_splits)
  moreover have "sound ?k8 (requeued k t at_tail qs) (remove1 t ss) rs ls" using sound_same_tasks [OF Q(2,3) P(2)] by (simp add: rq)
  ultimately show ?thesis using that g5 R tick5 tick7 tick8 by (simp add: V7 V8)
qed


lemma unsleep_idem:
  assumes "sleep_list k ss" shows "sleep_queue_remove t (sleep_queue_remove t k) = sleep_queue_remove t k"
proof -
  note S = sleep_queue_remove_ok(1) [OF assms, of t]
  have "t \<notin> set (remove1 t ss)" using dll_distinct [OF sleep_list_dll [OF assms]] by simp
  then have "\<not> thread_in_sleep_queue (sleep_queue_remove t k) t" using in_sleep_queue_iff [OF S] by simp
  then show ?thesis by (simp only: sleep_queue_remove_def [of t "sleep_queue_remove t k"] if_True not_False_eq_True)
qed

lemma transition_unsleep:
  assumes "sleep_list k ss" "thread_state (threads k t) \<noteq> ThreadTerminated" "\<not> in_ready_queue (threads k t)"
  shows "transition_thread_to_ready wake t at_tail (sleep_queue_remove t k) = transition_thread_to_ready wake t at_tail k"
  unfolding transition_thread_to_ready_def unsleep_idem [OF assms(1)] only_sleepD(2,4) [OF only_sleep_remove]
  by (simp only: assms(2,3) if_False)

text \<open>The ready queues when the threads \<open>ts\<close> have been woken in this order.\<close>

definition woken :: "Kernel \<Rightarrow> ptr list \<Rightarrow> (nat \<Rightarrow> ptr list) \<Rightarrow> nat \<Rightarrow> ptr list" where
  "woken k ts qs = (\<lambda>q. qs q @ filter (\<lambda>t. prio k t = q) ts)"

lemma woken_Nil [simp]: "woken k [] qs = qs"
  by (simp add: woken_def)

lemma woken_Cons: "(\<And>x. current_priority (threads k' x) = current_priority (threads k x)) \<Longrightarrow> woken k' ts (requeued k t True qs) = woken k (t # ts) qs"
  by (auto simp: woken_def requeued_def fun_eq_iff)

lemma wake_expired_sleepers_ok:
  assumes "sound k qs ss rs ls"
  defines "due \<equiv> \<lambda>x. wake_tick (threads k x) \<le> g_tick_count k"
  shows "\<exists>k'. wake_expired_sleepers wake k = Some k' \<and> sound k' (woken k (takeWhile due ss) qs) (dropWhile due ss) rs ls
     \<and> g_current_thread k' = g_current_thread k \<and> g_idle_thread k' = g_idle_thread k \<and> g_tick_count k' = g_tick_count k
     \<and> (\<forall>x. current_priority (threads k' x) = current_priority (threads k x))
     \<and> (\<forall>x. x \<notin> set (takeWhile due ss) \<longrightarrow> wake_tick (threads k' x) = wake_tick (threads k x) \<and> thread_state (threads k' x) = thread_state (threads k x))"
  unfolding due_def using assms(1)
proof (induction ss arbitrary: k qs)
  case Nil
  then have "g_sleep_head k = None" by (auto elim!: soundE simp: task_ok_def sleep_list_def dest!: dll_head)
  then have "wake_expired_sleepers wake k = Some k" by (subst wake_expired_sleepers.simps) simp
  then show ?case using Nil by simp
next
  case (Cons t ss)
  obtain ps ms where ok: "task_ok k qs (t # ss) rs ls ps ms" using Cons.prems by (rule soundE)
  have hd: "g_sleep_head k = Some t" using dll_head [OF sleep_list_dll [OF task_okD(2) [OF ok]]] by simp
  note T = sleeper_facts [OF ok, of t, simplified]
  show ?case
  proof (cases "wake_tick (threads k t) \<le> g_tick_count k")
    case False
    then have "wake_expired_sleepers wake k = Some k" using hd by (subst wake_expired_sleepers.simps) simp
    then show ?thesis using False Cons.prems by simp
  next
    case True
    have nt: "thread_state (threads k t) \<noteq> ThreadTerminated" using T(1) by simp
    obtain k1 where k1: "transition_thread_to_ready wake t True k = Some (StatusOK, k1)"
      "sound k1 (requeued k t True qs) (remove1 t (t # ss)) rs ls" "g_current_thread k1 = g_current_thread k" "g_idle_thread k1 = g_idle_thread k"
      "g_tick_count k1 = g_tick_count k" "\<And>x. current_priority (threads k1 x) = current_priority (threads k x)"
      "\<And>x. x \<noteq> t \<Longrightarrow> wake_tick (threads k1 x) = wake_tick (threads k x) \<and> thread_state (threads k1 x) = thread_state (threads k x)"
      using transition_ok [OF Cons.prems T(2,4,5,3) nt, of wake True thesis] by blast
    have out: "t \<notin> set ss" using task_ok_distinct(2) [OF ok] by simp
    have tw: "takeWhile (\<lambda>x. wake_tick (threads k1 x) \<le> g_tick_count k1) ss = takeWhile (\<lambda>x. wake_tick (threads k x) \<le> g_tick_count k) ss"
      "dropWhile (\<lambda>x. wake_tick (threads k1 x) \<le> g_tick_count k1) ss = dropWhile (\<lambda>x. wake_tick (threads k x) \<le> g_tick_count k) ss"
      unfolding k1(5) using k1(7) out by (metis (no_types, lifting) takeWhile_cong, metis (no_types, lifting) dropWhile_cong)
    have st: "thread_state (threads (sleep_queue_remove t k) t) = ThreadWaiting" using T(1) only_sleepD(2) [OF only_sleep_remove] by simp
    have "sound k1 (requeued k t True qs) ss rs ls" using k1(2) by simp
    note IH = Cons.IH [OF this, unfolded tw woken_Cons [OF k1(6)]]
    have "\<not> in_ready_queue (threads k t)" using ready_lists_mem [OF task_okD(1) [OF ok], of t "prio k t"] T(5) by simp
    then have "wake_expired_sleepers wake k = wake_expired_sleepers wake k1"
      using True hd st k1(1) T(1) transition_unsleep [OF task_okD(2) [OF ok], of t wake True]
      by (subst wake_expired_sleepers.simps) (simp add: Let_def)
    then show ?thesis using IH True k1(3-7) by auto
  qed
qed

lemma sleepers_by_tick:
  assumes "sound k qs ss rs ls"
  shows "takeWhile (\<lambda>x. wake_tick (threads k x) \<le> w) ss = filter (\<lambda>x. wake_tick (threads k x) \<le> w) ss"
    and "dropWhile (\<lambda>x. wake_tick (threads k x) \<le> w) ss = filter (\<lambda>x. w < wake_tick (threads k x)) ss"
proof -
  have "sorted (map (\<lambda>x. wake_tick (threads k x)) ss)" using assms by (auto elim!: soundE simp: task_ok_def dest: sleep_list_sorted)
  then have "takeWhile (\<lambda>x. wake_tick (threads k x) \<le> w) ss = filter (\<lambda>x. wake_tick (threads k x) \<le> w) ss
    \<and> dropWhile (\<lambda>x. wake_tick (threads k x) \<le> w) ss = filter (\<lambda>x. w < wake_tick (threads k x)) ss"
  proof (induction ss)
    case (Cons x ss)
    have "filter (\<lambda>y. wake_tick (threads k y) \<le> w) ss = [] \<and> filter (\<lambda>y. w < wake_tick (threads k y)) ss = ss" if "w < wake_tick (threads k x)"
      using Cons.prems that by (auto simp: filter_empty_conv filter_id_conv)
    then show ?case using Cons by (auto simp: not_le)
  qed simp
  then show "takeWhile (\<lambda>x. wake_tick (threads k x) \<le> w) ss = filter (\<lambda>x. wake_tick (threads k x) \<le> w) ss"
    "dropWhile (\<lambda>x. wake_tick (threads k x) \<le> w) ss = filter (\<lambda>x. w < wake_tick (threads k x)) ss" by auto
qed

section \<open>The timer\<close>

lemma timer_tick_ok:
  assumes s: "steady k c qs ss rs ls"
  defines "now \<equiv> g_tick_count k + 1"
  defines "due \<equiv> filter (\<lambda>x. wake_tick (threads k x) \<le> now) ss"
  defines "ss' \<equiv> filter (\<lambda>x. now < wake_tick (threads k x)) ss"
  obtains k' where "timer_tick n k = Some k'" "steady k' c (woken k due qs) ss' [] (without (set rs) ls)" "g_tick_count k' = now"
    "\<And>x. x \<in> set ss \<Longrightarrow> current_priority (threads k' x) = current_priority (threads k x)"
    "\<And>x. x \<in> set ss' \<Longrightarrow> wake_tick (threads k' x) = wake_tick (threads k x)" "g_idle_thread k' = g_idle_thread k"
proof -
  obtain ps ms where ok: "task_ok k qs ss rs ls ps ms" using steadyD(1) [OF s] by (rule soundE)
  have nr: "x \<notin> set rs" if "x \<in> set ss" for x using sleeper_facts(4) [OF ok that] .
  have s0: "steady (k\<lparr>g_tick_count := now\<rparr>) c qs ss rs ls" using s by simp
  obtain k1 where r: "reap_retired_threads (waking n) (k\<lparr>g_tick_count := now\<rparr>) = Some k1" "steady k1 c qs ss [] (without (set rs) ls)"
    "spares (set rs) (k\<lparr>g_tick_count := now\<rparr>) k1" by (rule reap_ok [OF s0])
  have e: "g_tick_count k1 = now" "g_idle_thread k1 = g_idle_thread k"
    "\<And>x. x \<in> set ss \<Longrightarrow> wake_tick (threads k1 x) = wake_tick (threads k x)"
    "\<And>x. x \<in> set ss \<Longrightarrow> current_priority (threads k1 x) = current_priority (threads k x)"
    using spares_same(1,2) [OF r(3)] sparesD(2,3) [OF r(3) nr] by simp_all
  have tw: "filter (\<lambda>x. wake_tick (threads k1 x) \<le> now) ss = due" "filter (\<lambda>x. now < wake_tick (threads k1 x)) ss = ss'"
    unfolding due_def ss'_def by (auto intro!: filter_cong simp: e(3))
  have wk: "woken k1 due qs = woken k due qs" using e(4) by (auto simp: woken_def due_def fun_eq_iff intro!: filter_cong)
  obtain k2 where w: "wake_expired_sleepers (waking n) k1 = Some k2" "sound k2 (woken k due qs) ss' [] (without (set rs) ls)"
    "g_current_thread k2 = g_current_thread k1" "g_idle_thread k2 = g_idle_thread k1" "g_tick_count k2 = now"
    "\<And>x. current_priority (threads k2 x) = current_priority (threads k1 x)"
    "\<And>x. x \<notin> set due \<Longrightarrow> wake_tick (threads k2 x) = wake_tick (threads k1 x) \<and> thread_state (threads k2 x) = thread_state (threads k1 x)"
    using wake_expired_sleepers_ok [OF steadyD(1) [OF r(2)], of "waking n"] unfolding sleepers_by_tick [OF steadyD(1) [OF r(2)]] e(1) tw wk by blast
  note D = steadyD [OF r(2)]
  have cd: "c \<notin> set due" using D(5) by (auto simp: loose_def due_def)
  have s2: "steady k2 c (woken k due qs) ss' [] (without (set rs) ls)" using w D cd by (simp add: steady_def)
  let ?k3 = "upd c (\<lambda>x. if 0 < quantum_ticks_remaining x then x\<lparr>quantum_ticks_remaining := quantum_ticks_remaining x - 1\<rparr> else x) k2"
  have v3: "view ?k3 = view k2" by (rule view_upd) (simp add: tview_def)
  have s3: "steady ?k3 c (woken k due qs) ss' [] (without (set rs) ls)"
    using s2 sound_view [OF v3] viewD(1,7) [OF v3] by (simp add: steady_def)
  have v: "current_priority (threads x y) = current_priority (threads k2 y) \<and> wake_tick (threads x y) = wake_tick (threads k2 y) \<and> g_idle_thread x = g_idle_thread k2"
    if "view x = view k2" for x y using viewD [OF that] by simp
  have "\<exists>k'. timer_tick n k = Some k' \<and> steady k' c (woken k due qs) ss' [] (without (set rs) ls) \<and> view k' = view k2 \<and> g_tick_count k' = now"
    using r(1) w(1) s2 s3 v3 w(3) D(2) unfolding timer_tick_def now_def [symmetric]
    by (simp add: Let_def w(5)) (simp add: reset_quantum_def upd_def w(5))
  then obtain k' where "timer_tick n k = Some k'" "steady k' c (woken k due qs) ss' [] (without (set rs) ls)" "view k' = view k2" "g_tick_count k' = now"
    by blast
  moreover have "x \<in> set ss' \<Longrightarrow> x \<in> set ss \<and> x \<notin> set due" for x by (auto simp: ss'_def due_def)
  ultimately show ?thesis using that v [of k'] w(4,6,7) e by simp
qed


lemma filter_sorted_split:
  fixes f :: "'a \<Rightarrow> 'b::linorder"
  assumes "sorted (map f xs)" "a \<le> b"
  shows "filter (\<lambda>x. f x \<le> a) xs @ filter (\<lambda>x. f x \<le> b) (filter (\<lambda>x. a < f x) xs) = filter (\<lambda>x. f x \<le> b) xs"
  using assms(1)
proof (induction xs)
  case (Cons x xs)
  have "filter (\<lambda>x. f x \<le> a) xs = []" if "a < f x" using Cons.prems that by (auto simp: filter_empty_conv)
  then show ?case using Cons assms(2) by (auto simp: not_le)
qed simp

lemma woken_append: "woken k us (woken k ts qs) = woken k (ts @ us) qs"
  by (simp add: woken_def)

lemma woken_cong:
  "(\<And>x. x \<in> set ts \<Longrightarrow> current_priority (threads k' x) = current_priority (threads k x)) \<Longrightarrow> woken k' ts qs = woken k ts qs"
  by (auto simp: woken_def fun_eq_iff intro!: filter_cong)

lemma timer_ticks_ok:
  assumes "steady k c qs ss rs ls" "unat (g_tick_count k) + Suc d < 2 ^ 64"
  shows "\<exists>k'. timer_ticks n (Suc d) k = Some k'
    \<and> steady k' c (woken k (filter (\<lambda>x. wake_tick (threads k x) \<le> g_tick_count k + of_nat (Suc d)) ss) qs)
         (filter (\<lambda>x. g_tick_count k + of_nat (Suc d) < wake_tick (threads k x)) ss) [] (without (set rs) ls)
    \<and> g_tick_count k' = g_tick_count k + of_nat (Suc d)"
  using assms
proof (induction d arbitrary: k qs ss rs ls)
  case 0
  obtain k' where "timer_tick n k = Some k'"
    "steady k' c (woken k (filter (\<lambda>x. wake_tick (threads k x) \<le> g_tick_count k + 1) ss) qs)
       (filter (\<lambda>x. g_tick_count k + 1 < wake_tick (threads k x)) ss) [] (without (set rs) ls)" "g_tick_count k' = g_tick_count k + 1"
    by (rule timer_tick_ok [OF 0(1)])
  then show ?case by simp
next
  case (Suc d)
  let ?now = "g_tick_count k + 1" and ?late = "g_tick_count k + of_nat (Suc (Suc d))"
  let ?due = "filter (\<lambda>x. wake_tick (threads k x) \<le> ?now) ss" and ?ss = "filter (\<lambda>x. ?now < wake_tick (threads k x)) ss"
  obtain k1 where k1: "timer_tick n k = Some k1" "steady k1 c (woken k ?due qs) ?ss [] (without (set rs) ls)" "g_tick_count k1 = ?now"
    "\<And>x. x \<in> set ss \<Longrightarrow> current_priority (threads k1 x) = current_priority (threads k x)"
    "\<And>x. x \<in> set ?ss \<Longrightarrow> wake_tick (threads k1 x) = wake_tick (threads k x)" "g_idle_thread k1 = g_idle_thread k"
    using timer_tick_ok [OF Suc.prems(1), where n = n and thesis = thesis] by blast
  have now: "unat ?now = unat (g_tick_count k) + 1" using Suc.prems(2) by (subst unat_add_lem [THEN iffD1]) auto
  have late: "?now + of_nat (Suc d) = ?late" by (simp add: algebra_simps)
  have le: "?now \<le> ?late"
  proof -
    have "unat ?late = unat (g_tick_count k) + Suc (Suc d)"
      by (rule unat_eq_of_nat) (use Suc.prems(2) in \<open>simp_all\<close>)
    then show ?thesis using now by (simp del: of_nat_Suc add: word_le_nat_alt)
  qed
  have sorted: "sorted (map (\<lambda>x. wake_tick (threads k x)) ss)"
    using steadyD(1) [OF Suc.prems(1)] by (auto elim!: soundE simp: task_ok_def dest: sleep_list_sorted)
  have f: "filter (\<lambda>x. wake_tick (threads k1 x) \<le> ?late) ?ss = filter (\<lambda>x. wake_tick (threads k x) \<le> ?late) ?ss"
    by (rule filter_cong [OF refl]) (simp only: k1(5))
  have g: "filter (\<lambda>x. ?late < wake_tick (threads k1 x)) ?ss = filter (\<lambda>x. ?late < wake_tick (threads k x)) ss"
  proof -
    have "filter (\<lambda>x. ?late < wake_tick (threads k1 x)) ?ss = filter (\<lambda>x. ?late < wake_tick (threads k x)) ?ss"
      by (rule filter_cong [OF refl]) (simp only: k1(5))
    also have "\<dots> = filter (\<lambda>x. ?late < wake_tick (threads k x)) ss"
      unfolding filter_filter using le by (intro filter_cong [OF refl]) auto
    finally show ?thesis .
  qed
  have w: "woken k1 (filter (\<lambda>x. wake_tick (threads k1 x) \<le> ?late) ?ss) (woken k ?due qs)
      = woken k (filter (\<lambda>x. wake_tick (threads k x) \<le> ?late) ss) qs"
  proof -
    have "woken k1 (filter (\<lambda>x. wake_tick (threads k x) \<le> ?late) ?ss) = woken k (filter (\<lambda>x. wake_tick (threads k x) \<le> ?late) ?ss)"
      by (rule ext, rule woken_cong, rule k1(4)) simp
    then show ?thesis unfolding f using filter_sorted_split [OF sorted le] by (simp only: woken_append)
  qed
  have "unat (g_tick_count k1) + Suc d < 2 ^ 64" using Suc.prems(2) unfolding k1(3) now by simp
  note IH = Suc.IH [OF k1(2) this, unfolded k1(3) late w g]
  moreover have "timer_ticks n (Suc (Suc d)) k = timer_ticks n (Suc d) k1" using k1(1) by simp
  ultimately show ?case by simp
qed

section \<open>Preemption\<close>

definition running :: "Kernel \<Rightarrow> bool" where
  "running k \<longleftrightarrow> (\<exists>c qs ss rs ls. steady k c qs ss rs ls)"

lemma runningI: "steady k c qs ss rs ls \<Longrightarrow> running k"
  unfolding running_def by blast

lemma reschedule_running:
  assumes "steady k c qs ss rs ls"
  shows "\<exists>land k'. reschedule wake caller False k = Some (land, k') \<and> running k'"
proof -
  obtain land k' rs' ls' where "reschedule wake caller False k = Some (land, k')"
    "steady k' (successor k qs) (served qs) ss rs' ls'" "reaped rs ls rs' ls'"
    by (rule reschedule_ok [OF steadyD(1) [OF assms], of False]) auto
  then show ?thesis by (blast intro: runningI)
qed

lemma dispatch_running:
  assumes "steady k c qs ss rs ls" "g_idle_thread k \<noteq> Some c"
  shows "\<exists>land k'. dispatch wake caller True at_tail reset keep k = Some (land, k') \<and> running k'"
proof -
  let ?qs = "requeued k c at_tail qs"
  obtain land k' rs' ls' where "dispatch wake caller True at_tail reset keep k = Some (land, k')"
    "steady k' (hd (?qs (best_queue ?qs))) (served ?qs) ss rs' ls'" "reaped rs ls rs' ls'" by (rule dispatch_requeue_ok [OF assms])
  then show ?thesis by (blast intro: runningI)
qed

lemma process_pending_reschedule_running:
  assumes "steady k c qs ss rs ls"
  shows "\<exists>land k'. process_pending_reschedule wake k = Some (land, k') \<and> running k'"
  using reschedule_running [OF assms] dispatch_running [OF assms] steadyD(2) [OF assms] assms
  by (auto simp: process_pending_reschedule_def intro: runningI)

lemma view_context: "(\<And>x. tview (f x) = tview x) \<Longrightarrow> steady k c qs ss rs ls \<Longrightarrow> steady (upd t f k) c qs ss rs ls"
  using sound_view [of "upd t f k" k] viewD(1,7) [of "upd t f k" k] by (simp add: steady_def view_upd)

lemma steady_trace [simp]:
  "steady (trace_lower_el_irq_preemption_once r f k) c qs ss rs ls = steady k c qs ss rs ls"
  "steady (trace_lower_el_irq_resume_current_once f k) c qs ss rs ls = steady k c qs ss rs ls"
  using sound_view [of "trace_lower_el_irq_preemption_once r f k" k] sound_view [of "trace_lower_el_irq_resume_current_once f k" k]
  by (simp_all add: steady_def)
    (simp_all add: trace_lower_el_irq_preemption_once_def trace_lower_el_irq_resume_current_once_def call_def)

lemma preempt_running:
  assumes s: "steady k c qs ss rs ls" and c: "g_idle_thread k \<noteq> Some c"
  shows "\<exists>land k'. preempt wake reason expired frame k = Some (land, k') \<and> running k'"
proof (cases frame)
  case None then show ?thesis using s steadyD(2) [OF s] by (auto simp: preempt_def save_current_lower_el_exception_frame_def intro!: runningI)
next
  case (Some f)
  let ?k = "upd c (\<lambda>x. x\<lparr>thread_context := (thread_context x)\<lparr>saved_exception_frame := f, program_counter := frame_elr f,
     processor_state := (frame_spsr f AND CpuContextProcessorStateMask) OR CpuContextResumeExceptionFrameFlag\<rparr>\<rparr>) k"
  let ?k1 = "trace_lower_el_irq_preemption_once reason frame ?k"
  have "steady ?k1 c qs ss rs ls" using view_context [OF _ s] by (simp add: tview_def)
  moreover have "g_idle_thread ?k1 \<noteq> Some c" using c by (simp add: trace_lower_el_irq_preemption_once_def upd_def call_def)
  ultimately have "\<exists>land k'. dispatch wake FromYield True expired expired False ?k1 = Some (land, k') \<and> running k'" by (rule dispatch_running)
  then show ?thesis using steadyD(2) [OF s] by (simp add: preempt_def save_current_lower_el_exception_frame_def Some)
qed

lemma lower_el_irq_running:
  assumes "steady k c qs ss rs ls"
  shows "\<exists>land k'. process_pending_reschedule_from_lower_el_irq wake frame k = Some (land, k') \<and> running k'"
proof -
  let ?k = "k\<lparr>g_reschedule_pending := False\<rparr>"
  have s: "steady ?k c qs ss rs ls" using assms by simp
  show ?thesis using reschedule_running [OF s] preempt_running [OF s] steadyD(2) [OF s] s assms
    by (auto simp: process_pending_reschedule_from_lower_el_irq_def Let_def intro!: runningI)
qed

section \<open>Every operation returns\<close>

lemma find_thread_ok:
  assumes "sound k qs ss rs ls"
  obtains found where "find_thread i k = Some found" "\<And>t. found = Some t \<Longrightarrow> t \<in> set ls"
proof -
  obtain ps ms where ok: "task_ok k qs ss rs ls ps ms" using assms by (rule soundE)
  have d: "dll (tnext k) (tprev k) (g_thread_head k) (g_thread_tail k) ls" using task_okD(4) [OF ok] by (simp add: registry_def)
  have "find_thread i k = Some (find (\<lambda>x. thread_id (threads k x) = i) ls)" unfolding find_thread_def by (rule find_link_dll [OF d])
  then show ?thesis by (rule that) (auto simp: find_Some_iff)
qed

text \<open>\<open>enqueue\<close> of a thread that may run: it goes to the end of the queue of its priority.\<close>

lemma enqueue_ok:
  assumes s: "steady k c qs ss rs ls" and t: "find_thread (thread_id (threads k t)) k = Some (Some t)" "t \<noteq> c" "g_idle_thread k \<noteq> Some t"
    "thread_state (threads k t) \<noteq> ThreadTerminated" "\<And>q. t \<notin> set (qs q)"
  obtains k' where "transition_thread_to_ready wake t True k = Some (StatusOK, k')" "steady k' c (requeued k t True qs) (remove1 t ss) rs ls"
proof -
  note D = steadyD [OF s]
  obtain ps ms where ok: "task_ok k qs ss rs ls ps ms" using D(1) by (rule soundE)
  have tl: "t \<in> set ls" by (rule find_thread_ok [OF D(1), of "thread_id (threads k t)"]) (use t(1) in auto)
  have nr: "t \<notin> set rs" using task_okD(6) [OF ok] t(4) by (auto simp: placed_def)
  obtain k' where k': "transition_thread_to_ready wake t True k = Some (StatusOK, k')"
    "sound k' (requeued k t True qs) (remove1 t ss) rs ls" "g_current_thread k' = g_current_thread k" "g_idle_thread k' = g_idle_thread k"
    "g_tick_count k' = g_tick_count k" "\<And>x. current_priority (threads k' x) = current_priority (threads k x)"
    "\<And>x. x \<noteq> t \<Longrightarrow> wake_tick (threads k' x) = wake_tick (threads k x) \<and> thread_state (threads k' x) = thread_state (threads k x)"
    using transition_ok [OF D(1) tl nr t(5,3,4), of wake True thesis] by blast
  then have "steady k' c (requeued k t True qs) (remove1 t ss) rs ls" using D t(2) by (auto simp: steady_def)
  then show ?thesis using that k'(1) by blast
qed

lemma transition_idle:
  assumes s: "steady k c qs ss rs ls" and i: "g_idle_thread k = Some t" "t \<noteq> c"
  shows "\<exists>status k'. transition_thread_to_ready wake t True k = Some (status, k') \<and> steady k' c qs ss rs ls"
proof -
  note D = steadyD [OF s]
  obtain ps ms where ok: "task_ok k qs ss rs ls ps ms" using D(1) by (rule soundE)
  have l: "loose t qs ss rs" by (rule sound_idle [OF D(1)]) (use i in auto)
  have "\<not> thread_in_sleep_queue k t" using in_sleep_queue_iff [OF task_okD(2) [OF ok]] l by (simp add: loose_def)
  then have u: "sleep_queue_remove t k = k" by (simp only: sleep_queue_remove_def if_True not_False_eq_True)
  define k2 where "k2 = upd t (\<lambda>x. x\<lparr>wait_object := None, wait_status := wait_code WaitNone, wake_tick := 0\<rparr>) k"
  have s2: "sound k2 qs ss rs ls" unfolding k2_def
    by (rule sound_loose_upd [OF D(1) l]) (simp_all add: links_of_def sound_prio [OF D(1)])
  define k3 where "k3 = mark_parent_running t k2"
  have s3: "sound k3 qs ss rs ls" using s2 by (simp add: k3_def)
  define k4 where "k4 = upd t (\<lambda>x. x\<lparr>thread_state := ThreadReady\<rparr>) k3"
  define k5 where "k5 = (if quantum_ticks_remaining (threads k4 t) = 0 then reset_quantum t k4 else k4)"
  have s5: "sound k5 qs ss rs ls" using sound_set_state [OF s3 l] by (simp add: k5_def k4_def)
  have "threads k3 = threads k2" "g_current_thread k3 = g_current_thread k" "g_idle_thread k3 = g_idle_thread k"
    by (simp_all add: k3_def k2_def mark_parent_running_def upd_def updp_def split: option.split)
  note g3 = this
  have c5: "g_current_thread k5 = Some c" "thread_state (threads k5 c) = ThreadRunning" "g_idle_thread k5 = Some t"
    using D(2,4) i g3 by (simp_all add: k5_def k4_def k2_def reset_quantum_def full_quantum_def upd_def)
  have "ready_queue_push t True k5 = (StatusInvalidArgument, k5)"
    using c5(3) by (simp add: ready_queue_push_def thread_can_enter_ready_queue_def)
  then have "transition_thread_to_ready wake t True k = Some (StatusInvalidArgument, k5)
    \<or> transition_thread_to_ready wake t True k = Some (StatusBusy, k) \<or> transition_thread_to_ready wake t True k = Some (StatusAlreadyExists, k)"
    unfolding transition_thread_to_ready_def Let_def u k2_def [symmetric] k3_def [symmetric] k4_def [symmetric] k5_def [symmetric] by simp
  then show ?thesis using s s5 c5 D(3) by (auto simp: steady_def)
qed

lemma enqueue_running:
  assumes s: "steady k c qs ss rs ls"
  shows "\<exists>status k'. enqueue (Suc n) thread k = Some (status, k') \<and> running k'"
proof -
  let ?w = "\<lambda>w k. map_option snd (enqueue n (Some w) k)"
  obtain k1 where r: "reap_retired_threads ?w k = Some k1" "steady k1 c qs ss [] (without (set rs) ls)" "spares (set rs) k k1"
    by (rule reap_ok [OF s])
  note D = steadyD [OF r(2)]
  have T: "\<exists>status k'. transition_thread_to_ready ?w t True k1 = Some (status, k') \<and> running k'"
    if t: "find_thread (thread_id (threads k1 t)) k1 = Some (Some t)" "t \<noteq> c" "thread_state (threads k1 t) \<noteq> ThreadTerminated" for t
  proof (cases "g_idle_thread k1 = Some t \<or> in_ready_queue (threads k1 t)")
    case True
    then consider (idle) "g_idle_thread k1 = Some t" | (ready) "in_ready_queue (threads k1 t)" by blast
    then show ?thesis
    proof cases
      case idle
      from transition_idle [OF r(2) idle t(2), of ?w] show ?thesis by (blast intro: runningI)
    next
      case ready
      then show ?thesis using t(3) runningI [OF r(2)] by (simp add: transition_thread_to_ready_def)
    qed
  next
    case False
    obtain ps ms where ok: "task_ok k1 qs ss [] (without (set rs) ls) ps ms" using D(1) by (rule soundE)
    have "t \<notin> set (qs q)" for q using ready_lists_mem [OF task_okD(1) [OF ok]] False by auto
    then obtain k' where "transition_thread_to_ready ?w t True k1 = Some (StatusOK, k')" "steady k' c (requeued k1 t True qs) (remove1 t ss) [] (without (set rs) ls)"
      using enqueue_ok [OF r(2) t(1,2) _ t(3)] False by metis
    then show ?thesis by (blast intro: runningI)
  qed
  have e: "enqueue (Suc n) thread k = (case thread of None \<Rightarrow> Some (StatusInvalidArgument, k1) | Some t \<Rightarrow> do {
         found \<leftarrow> find_thread (thread_id (threads k1 t)) k1;
         if found \<noteq> Some t then Some (StatusNotFound, k1)
         else if thread_state (threads k1 t) = ThreadTerminated then Some (StatusBusy, k1)
         else if c = t then Some (StatusAlreadyExists, k1)
         else transition_thread_to_ready ?w t True k1 })"
    using r(1) D(2) by (simp add: enqueue_with_def split: option.split cong: if_cong)
  note run1 = runningI [OF r(2)]
  show ?thesis
  proof (cases thread)
    case None then show ?thesis using run1 unfolding e by simp
  next
    case (Some t)
    obtain found where f: "find_thread (thread_id (threads k1 t)) k1 = Some found" using find_thread_ok [OF D(1)] by metis
    show ?thesis
    proof (cases "found = Some t \<and> thread_state (threads k1 t) \<noteq> ThreadTerminated \<and> c \<noteq> t")
      case True then show ?thesis using T [of t] f Some unfolding e by simp
    next
      case False then show ?thesis using run1 f Some unfolding e by auto
    qed
  qed
qed


definition with_priority :: "u8 \<Rightarrow> Thread \<Rightarrow> Thread" where
  "with_priority p x = x\<lparr>base_priority := p, current_priority := p\<rparr>"

lemma priority_level: "\<not> ThreadPriorityLevelCount \<le> (p :: u8) \<Longrightarrow> unat p < 32"
  by (simp add: not_le word_less_nat_alt)

lemma sound_set_priority:
  assumes s: "sound k qs ss rs ls" and nr: "\<not> in_ready_queue (threads k t)" and p: "unat p < 32"
  shows "sound (upd t (with_priority p) k) qs ss rs ls"
proof -
  obtain ps ms where ok: "task_ok k qs ss rs ls ps ms" "quiet k" "awake k ss ls" using s by (rule soundE)
  let ?k = "upd t (with_priority p) k"
  have f: "thread_state (threads ?k x) = thread_state (threads k x)" "wake_tick (threads ?k x) = wake_tick (threads k x)"
    "in_ready_queue (threads ?k x) = in_ready_queue (threads k x)" "ready_next (threads ?k x) = ready_next (threads k x)"
    "ready_prev (threads ?k x) = ready_prev (threads k x)" "sleep_next (threads ?k x) = sleep_next (threads k x)"
    "sleep_prev (threads ?k x) = sleep_prev (threads k x)" "thread_next (threads ?k x) = thread_next (threads k x)"
    "thread_prev (threads ?k x) = thread_prev (threads k x)" "process_next (threads ?k x) = process_next (threads k x)"
    "process_prev (threads ?k x) = process_prev (threads k x)" "thread_parent (threads ?k x) = thread_parent (threads k x)"
    "x \<noteq> t \<Longrightarrow> current_priority (threads ?k x) = current_priority (threads k x)" "current_priority (threads ?k t) = p" for x
    by (simp_all add: upd_def with_priority_def)
  have g: "ready_head ?k = ready_head k" "ready_tail ?k = ready_tail k" "g_ready_bitmap ?k = g_ready_bitmap k" "g_ready_count ?k = g_ready_count k"
    "g_sleep_head ?k = g_sleep_head k" "g_sleep_tail ?k = g_sleep_tail k" "g_retired_thread_head ?k = g_retired_thread_head k"
    "g_retired_thread_tail ?k = g_retired_thread_tail k" "g_thread_head ?k = g_thread_head k" "g_thread_tail ?k = g_thread_tail k"
    "g_thread_count ?k = g_thread_count k" "process_head ?k = process_head k" "process_tail ?k = process_tail k" "processes ?k = processes k"
    "kernel_root_table ?k = kernel_root_table k" "g_idle_thread ?k = g_idle_thread k" by (simp_all add: upd_def)
  have m: "in_ready_queue (threads k x) \<and> prio ?k x = q \<longleftrightarrow> in_ready_queue (threads k x) \<and> prio k x = q" for x q
    using nr f(13) by (cases "x = t") auto
  have "ready_lists ?k qs" using task_okD(1) [OF ok(1)] by (simp add: ready_lists_def f(1-12) g m)
  moreover have "sleep_list ?k ss" using task_okD(2) [OF ok(1)] by (simp add: sleep_list_def f(1-12) g)
  moreover have "retired_list ?k rs" using task_okD(3) [OF ok(1)] by (simp add: retired_list_def f(1-12) g)
  moreover have "registry ?k ls" using task_okD(4) [OF ok(1)] by (simp add: registry_def f(1-12) g)
  moreover have "family ?k ls ps ms" using task_okD(5) [OF ok(1)] by (simp add: family_def f(1-12) g)
  moreover have "prio ?k x < 32" if "x \<in> set ls" for x
    using task_okD(6) [OF ok(1)] that p f(13,14) by (cases "x = t") (simp_all add: placed_def)
  then have "placed ?k qs ss rs ls" using task_okD(6) [OF ok(1)] by (simp add: placed_def f(1-12) g)
  ultimately have "task_ok ?k qs ss rs ls ps ms" by (simp add: task_ok_def)
  moreover have "quiet ?k" using ok(2) quiet_broker [of ?k k] by simp
  moreover have "awake ?k ss ls" using ok(3) by (simp add: awake_def f)
  ultimately show ?thesis by (rule soundI)
qed

lemma set_current_priority_running:
  assumes s: "steady k c qs ss rs ls"
  shows "\<exists>land k'. set_current_priority n p k = Some (land, k') \<and> running k'"
proof (cases "ThreadPriorityLevelCount \<le> p")
  case True then show ?thesis using runningI [OF s] by (simp add: set_current_priority_def)
next
  case False
  obtain k1 where r: "reap_retired_threads (waking n) k = Some k1" "steady k1 c qs ss [] (without (set rs) ls)" by (rule reap_ok [OF s])
  note D = steadyD [OF r(2)]
  obtain ps ms where ok: "task_ok k1 qs ss [] (without (set rs) ls) ps ms" using D(1) by (rule soundE)
  let ?k2 = "reset_quantum c (upd c (with_priority p) k1)"
  have s2: "steady ?k2 c qs ss [] (without (set rs) ls)"
  proof -
    have "sound (upd c (with_priority p) k1) qs ss [] (without (set rs) ls)"
      using sound_set_priority [OF D(1) loose_not_ready [OF ok D(5)] priority_level [OF False]] by simp
    then show ?thesis using D unfolding steady_reset by (simp add: steady_def) (simp add: upd_def with_priority_def)
  qed
  have i2: "g_idle_thread ?k2 = g_idle_thread k1" by (simp add: reset_quantum_def upd_def)
  have e: "set_current_priority n p k = (if g_idle_thread k1 = Some c then Some (Returned StatusBusy, k1)
      else if better_ready ?k2 c then dispatch (waking n) FromPriority True False False False ?k2 else Some (Returned StatusOK, ?k2))"
    using False r(1) by (simp add: set_current_priority_def active_thread_ok [OF r(2)] with_priority_def [abs_def])
  show ?thesis
  proof (cases "g_idle_thread k1 = Some c")
    case True then show ?thesis unfolding e using runningI [OF r(2)] by simp
  next
    case False
    then have "\<exists>land k'. dispatch (waking n) FromPriority True False False False ?k2 = Some (land, k') \<and> running k'"
      using dispatch_running [OF s2] i2 by simp
    then show ?thesis unfolding e using False runningI [OF s2] by simp
  qed
qed

lemma steady_other:
  assumes "steady k c qs ss rs ls" "sound k' qs' ss' rs' ls'" "g_current_thread k' = g_current_thread k" "c \<in> set ls'"
    "thread_state (threads k' c) = thread_state (threads k c)"
  shows "steady k' c qs' ss' rs' ls'"
  using assms by (simp add: steady_def)

lemma change_priority_running:
  assumes s: "steady k c qs ss rs ls" and t: "t \<in> set ls" "t \<noteq> c" "g_idle_thread k \<noteq> Some t" "thread_state (threads k t) \<noteq> ThreadTerminated"
    and p: "unat p < 32"
  defines "k2 \<equiv> if in_ready_queue (threads k t) then ready_queue_remove t k else k"
  defines "k3 \<equiv> reset_quantum t (upd t (with_priority p) k2)"
  shows "running k3" "thread_state (threads k3 t) = ThreadReady \<Longrightarrow> \<exists>k'. ready_queue_push t True k3 = (StatusOK, k') \<and> running k'"
proof -
  note D = steadyD [OF s]
  obtain ps ms where ok: "task_ok k qs ss rs ls ps ms" "quiet k" "awake k ss ls" using D(1) by (rule soundE)
  have o2: "only_ready k k2" unfolding k2_def by (simp add: only_ready_refl only_ready_remove)
  note R = only_readyD [OF o2]
  obtain qs' where ok2: "task_ok k2 qs' ss rs ls ps ms" "\<And>q. t \<notin> set (qs' q)"
  proof (cases "in_ready_queue (threads k t)")
    case True
    note U = task_ok_unready [OF ok(1) True]
    show ?thesis using that U(1,2) True by (auto simp: k2_def loose_def)
  next
    case False
    show ?thesis using that [of qs] ok(1) False ready_lists_mem [OF task_okD(1) [OF ok(1)]] by (auto simp: k2_def)
  qed
  have "quiet k2" using quiet_broker [OF R(26)] ok(2) by simp
  moreover have "awake k2 ss ls" using ok(3) by (simp add: awake_def R)
  ultimately have s2: "sound k2 qs' ss rs ls" using ok2(1) by (blast intro: soundI)
  have nr: "\<not> in_ready_queue (threads k2 t)" using ready_lists_mem [OF task_okD(1) [OF ok2(1)]] ok2(2) by auto
  have s3: "sound k3 qs' ss rs ls" using sound_set_priority [OF s2 nr p] by (simp add: k3_def)
  have g3: "g_current_thread k3 = g_current_thread k" "g_idle_thread k3 = g_idle_thread k"
    "thread_state (threads k3 x) = thread_state (threads k x)" for x
    using R by (simp_all add: k3_def reset_quantum_def full_quantum_def upd_def with_priority_def)
  show "running k3" by (rule runningI, rule steady_other [OF s s3]) (simp_all add: g3 D(3))
  assume r: "thread_state (threads k3 t) = ThreadReady"
  have "t \<notin> set ss" "t \<notin> set rs" using task_okD(6) [OF ok(1)] r by (auto simp: g3 placed_def)
  then have l: "loose t qs' ss rs" using ok2(2) by (simp add: loose_def)
  have i3: "g_idle_thread k3 \<noteq> Some t" using t(3) by (simp add: g3)
  obtain k' where P: "ready_queue_push t True k3 = (StatusOK, k')" "sound k' (requeued k3 t True qs') ss rs ls" "only_ready k3 k'"
    by (rule sound_push [OF s3 l t(1) r i3])
  have "steady k' c (requeued k3 t True qs') ss rs ls"
    by (rule steady_other [OF s P(2)]) (simp_all add: only_readyD [OF P(3)] g3 D(3))
  then show "\<exists>k'. ready_queue_push t True k3 = (StatusOK, k') \<and> running k'" using P(1) runningI by blast
qed

lemma set_thread_priority_running:
  assumes s: "steady k c qs ss rs ls"
  shows "\<exists>land k'. set_thread_priority n thread p k = Some (land, k') \<and> running k'"
proof (cases "ThreadPriorityLevelCount \<le> p")
  case True then show ?thesis using runningI [OF s] by (simp add: set_thread_priority_def)
next
  case p: False
  obtain k1 where r: "reap_retired_threads (waking n) k = Some k1" "steady k1 c qs ss [] (without (set rs) ls)" by (rule reap_ok [OF s])
  note D = steadyD [OF r(2)] and run1 = runningI [OF r(2)]
  show ?thesis
  proof (cases thread)
    case None then show ?thesis using p r(1) run1 by (simp add: set_thread_priority_def)
  next
    case (Some t)
    obtain found where f: "find_thread (thread_id (threads k1 t)) k1 = Some found" "\<And>x. found = Some x \<Longrightarrow> x \<in> set (without (set rs) ls)"
      using find_thread_ok [OF D(1)] by metis
    show ?thesis
    proof (cases "found = Some t \<and> g_idle_thread k1 \<noteq> Some t \<and> thread_state (threads k1 t) \<noteq> ThreadTerminated")
      case False
      then show ?thesis using p r(1) run1 Some f(1) by (auto simp: set_thread_priority_def)
    next
      case True
      show ?thesis
      proof (cases "t = c")
        case tc: True
        have "set_thread_priority n thread p k = set_current_priority n p k1"
          using p r(1) Some f(1) True tc D(2) by (auto simp: set_thread_priority_def)
        then show ?thesis using set_current_priority_running [OF r(2)] by simp
      next
        case tc: False
        define k2 where "k2 = (if in_ready_queue (threads k1 t) then ready_queue_remove t k1 else k1)"
        define k3 where "k3 = reset_quantum t (upd t (with_priority p) k2)"
        have tl: "t \<in> set (without (set rs) ls)" using f(2) True by simp
        have C: "running k3" "thread_state (threads k3 t) = ThreadReady \<Longrightarrow> \<exists>k'. ready_queue_push t True k3 = (StatusOK, k') \<and> running k'"
          unfolding k2_def k3_def by (rule change_priority_running [OF r(2) tl tc _ _ priority_level [OF p]]; use True in simp)+
        have pend: "running (k'\<lparr>g_reschedule_pending := True\<rparr>)" if "running k'" for k' using that by (auto simp: running_def)
        have e: "set_thread_priority n thread p k = (if thread_state (threads k3 t) \<noteq> ThreadReady then Some (Returned StatusOK, k3)
           else let (status, k) = ready_queue_push t True k3
                in if status \<noteq> StatusOK then Some (Returned status, k)
                   else Some (Returned StatusOK,
                        case g_current_thread k of
                          Some c \<Rightarrow> if g_current_thread k \<noteq> g_idle_thread k \<and> current_priority (threads k t) < current_priority (threads k c)
                                    then k\<lparr>g_reschedule_pending := True\<rparr> else k
                        | None \<Rightarrow> k))"
          using p r(1) Some f(1) True tc D(2)
          unfolding set_thread_priority_def k3_def k2_def with_priority_def by (auto simp: Let_def)
        show ?thesis using C pend unfolding e by (auto split: option.split)
      qed
    qed
  qed
qed


end
