(* ===== verification/Kernel_Machine.thy ===== *)
theory Kernel_Machine
  imports Kernel_Run
begin

text \<open>
  The scheduler as a service: requests of threads, ticks of the timer and interrupts arrive in any order,
  and destroying threads and processes that do not run is interleaved with them. Every request returns, and
  in every reachable state the invariant of task management holds.
\<close>

section \<open>Requests\<close>

datatype request =
    Yield
  | Block WaitReason "object_ptr option"
  | BlockFor WaitReason u64 "object_ptr option"
  | Sleep u64
  | Exit
  | Enqueue "ptr option"
  | SetCurrentPriority u8
  | SetPriority "ptr option" u8
  | Tick
  | Poll u32
  | LowerIrq "AArch64ExceptionFrame option"
  | CurrentIrq
  | Reap
  | Capture u64 u64 u64

fun serve :: "nat \<Rightarrow> request \<Rightarrow> Kernel \<Rightarrow> Kernel option" where
  "serve n Yield k = map_option snd (yield n k)"
| "serve n (Block reason obj) k = map_option snd (block_current n reason obj k)"
| "serve n (BlockFor reason delay obj) k = map_option snd (block_current_for n reason delay obj k)"
| "serve n (Sleep delay) k = map_option snd (sleep_current n delay k)"
| "serve n Exit k = map_option snd (exit_current_thread n k)"
| "serve n (Enqueue t) k = map_option snd (enqueue (Suc n) t k)"
| "serve n (SetCurrentPriority p) k = map_option snd (set_current_priority n p k)"
| "serve n (SetPriority t p) k = map_option snd (set_thread_priority n t p k)"
| "serve n Tick k = timer_tick n k"
| "serve n (Poll elapsed) k = map_option snd (poll n elapsed k)"
| "serve n (LowerIrq frame) k = map_option snd (handle_lower_el_timer_irq n frame k)"
| "serve n CurrentIrq k = map_option snd (handle_current_el_timer_irq n k)"
| "serve n Reap k = reap_retired n k"
| "serve n (Capture sp pc state) k = Some (capture_current_user_context sp pc state k)"

primrec run_all :: "('r \<Rightarrow> 's \<Rightarrow> 's option) \<Rightarrow> 'r list \<Rightarrow> 's \<Rightarrow> 's option" where
  "run_all step [] k = Some k"
| "run_all step (r # rs) k = do { k \<leftarrow> step r k; run_all step rs k }"

text \<open>The contract of a service: a request in a good state returns, in a good state.\<close>

locale service =
  fixes good :: "'s \<Rightarrow> bool" and step :: "'r \<Rightarrow> 's \<Rightarrow> 's option"
  assumes step_returns: "good k \<Longrightarrow> \<exists>k'. step r k = Some k' \<and> good k'"
begin

lemma run_all_returns: "good k \<Longrightarrow> \<exists>k'. run_all step rs k = Some k' \<and> good k'"
proof (induction rs arbitrary: k)
  case (Cons r rs)
  obtain k1 where "step r k = Some k1" "good k1" using step_returns [OF Cons.prems] by blast
  then show ?case using Cons.IH by simp
qed simp

end

section \<open>Every request returns\<close>

lemma runningE:
  assumes "running k" obtains c qs ss rs ls where "steady k c qs ss rs ls"
  using assms by (auto simp: running_def)

lemma reap_running:
  assumes "running k" shows "\<exists>k'. reap_retired_threads wake k = Some k' \<and> running k'"
proof -
  obtain c qs ss rs ls where s: "steady k c qs ss rs ls" using assms by (rule runningE)
  obtain k' where "reap_retired_threads wake k = Some k'" "steady k' c qs ss [] (without (set rs) ls)" by (rule reap_ok [OF s])
  then show ?thesis by (blast intro: runningI)
qed

lemma timer_tick_running:
  assumes "running k" shows "\<exists>k'. timer_tick n k = Some k' \<and> running k'"
proof -
  obtain c qs ss rs ls where s: "steady k c qs ss rs ls" using assms by (rule runningE)
  show ?thesis using timer_tick_ok [OF s, where n = n and thesis = ?thesis] by (blast intro: runningI)
qed

lemma timer_ticks_running: "running k \<Longrightarrow> \<exists>k'. timer_ticks n d k = Some k' \<and> running k'"
proof (induction d arbitrary: k)
  case (Suc d)
  obtain k1 where "timer_tick n k = Some k1" "running k1" using timer_tick_running [OF Suc.prems] by blast
  then show ?case using Suc.IH by simp
qed simp

lemma yield_running:
  assumes "running k" shows "\<exists>land k'. yield n k = Some (land, k') \<and> running k'"
proof -
  obtain c qs ss rs ls where s: "steady k c qs ss rs ls" using assms by (rule runningE)
  show ?thesis
  proof (cases "g_idle_thread k = Some c")
    case True
    show ?thesis using yield_idle_ok [OF s True, of n ?thesis] by (blast intro: runningI)
  next
    case False
    show ?thesis using yield_ok [OF s False, of n ?thesis] by (blast intro: runningI)
  qed
qed

lemma exit_running:
  assumes "running k" shows "\<exists>land k'. exit_current_thread n k = Some (land, k') \<and> running k'"
proof -
  obtain c qs ss rs ls where s: "steady k c qs ss rs ls" using assms by (rule runningE)
  show ?thesis
  proof (cases "g_idle_thread k = Some c")
    case True
    then show ?thesis using assms steadyD(2) [OF s] by (simp add: exit_current_thread_def)
  next
    case False
    show ?thesis using exit_current_thread_ok [OF s False, of n ?thesis] by (blast intro: runningI)
  qed
qed

text \<open>The idle thread may not block: it gets \<open>StatusBusy\<close>.\<close>

lemma idle_busy:
  assumes s: "steady k c qs ss rs ls" and i: "g_idle_thread k = Some c"
  obtains k1 where "reap_retired_threads wake k = Some k1" "active_thread k1 = None" "running k1" "running (finish_wait caller k1)"
proof -
  obtain k1 where r: "reap_retired_threads wake k = Some k1" "steady k1 c qs ss [] (without (set rs) ls)" "spares (set rs) k k1"
    by (rule reap_ok [OF s])
  moreover have "active_thread k1 = None" using i by (simp add: active_thread_ok [OF r(2)] spares_same(1) [OF r(3)])
  ultimately show ?thesis using that runningI finish_wait_ok by blast
qed

lemma block_running:
  assumes "running k" shows "\<exists>land k'. block_current_from caller n reason obj k = Some (land, k') \<and> running k'"
proof -
  obtain c qs ss rs ls where s: "steady k c qs ss rs ls" using assms by (rule runningE)
  show ?thesis
  proof (cases "g_idle_thread k = Some c")
    case True
    obtain k1 where "reap_retired_threads (waking n) k = Some k1" "active_thread k1 = None" "running k1" "running (finish_wait caller k1)"
      by (rule idle_busy [OF s True])
    then show ?thesis by (simp add: block_current_from_def)
  next
    case False
    show ?thesis using block_current_from_ok [OF s False, of caller n reason obj ?thesis] by (blast intro: runningI)
  qed
qed

lemma sleep_running:
  assumes "running k"
  shows "\<exists>land k'. sleep_current n delay k = Some (land, k') \<and> running k'"
    and "\<exists>land k'. block_current_for n reason delay obj k = Some (land, k') \<and> running k'"
proof -
  obtain c qs ss rs ls where s: "steady k c qs ss rs ls" using assms by (rule runningE)
  have "(\<exists>land k'. sleep_current n delay k = Some (land, k') \<and> running k')
    \<and> (\<exists>land k'. block_current_for n reason delay obj k = Some (land, k') \<and> running k')"
  proof (cases "delay = 0")
    case True
    then show ?thesis using assms block_running [OF assms] by (simp add: sleep_current_def block_current_for_def block_current_def)
  next
    case d: False
    show ?thesis
    proof (cases "g_idle_thread k = Some c")
      case True
      obtain k1 where "reap_retired_threads (waking n) k = Some k1" "active_thread k1 = None" "running k1" "running (finish_wait FromYield k1)"
        by (rule idle_busy [OF s True])
      then show ?thesis using d by (simp add: sleep_current_def block_current_for_def)
    next
      case False
      show ?thesis using sleep_current_ok [OF s False d, of n ?thesis] block_current_for_ok [OF s False d, of n reason obj ?thesis]
        by (blast intro: runningI)
    qed
  qed
  then show "\<exists>land k'. sleep_current n delay k = Some (land, k') \<and> running k'"
    "\<exists>land k'. block_current_for n reason delay obj k = Some (land, k') \<and> running k'" by blast+
qed

lemma pending_running:
  assumes "running k"
  shows "\<exists>land k'. process_pending_reschedule wake k = Some (land, k') \<and> running k'"
    and "\<exists>land k'. process_pending_reschedule_from_lower_el_irq wake frame k = Some (land, k') \<and> running k'"
  using assms process_pending_reschedule_running lower_el_irq_running by (blast elim: runningE)+

lemma poll_running:
  assumes "running k" shows "\<exists>land k'. poll n elapsed k = Some (land, k') \<and> running k'"
proof -
  obtain k1 where k1: "timer_ticks n (unat elapsed) k = Some k1" "running k1" using timer_ticks_running [OF assms] by blast
  have "running (k1\<lparr>g_reschedule_pending := False\<rparr>)" using k1(2) by (auto simp: running_def)
  then show ?thesis using k1 pending_running(1) [of "k1\<lparr>g_reschedule_pending := False\<rparr>"] by (auto simp: poll_def)
qed

lemma irq_running:
  assumes "running k"
  shows "\<exists>land k'. handle_lower_el_timer_irq n frame k = Some (land, k') \<and> running k'"
    and "\<exists>land k'. handle_current_el_timer_irq n k = Some (land, k') \<and> running k'"
proof -
  obtain k1 where "timer_tick n k = Some k1" "running k1" using timer_tick_running [OF assms] by blast
  then show "\<exists>land k'. handle_lower_el_timer_irq n frame k = Some (land, k') \<and> running k'"
    "\<exists>land k'. handle_current_el_timer_irq n k = Some (land, k') \<and> running k'"
    using pending_running by (simp_all add: handle_lower_el_timer_irq_def handle_current_el_timer_irq_def)
qed

lemma capture_running: "running k \<Longrightarrow> running (capture_current_user_context sp pc state k)"
proof (erule runningE)
  fix c qs ss rs ls assume s: "steady k c qs ss rs ls"
  have "steady (capture_current_user_context sp pc state k) c qs ss rs ls" unfolding capture_current_user_context_def
    by (rule steady_on_current [OF s]) (simp_all add: links_of_def)
  then show ?thesis by (rule runningI)
qed

lemma map_snd_returns: "\<exists>a k'. x = Some (a, k') \<and> P k' \<Longrightarrow> \<exists>k'. map_option snd x = Some k' \<and> P k'"
  by auto

interpretation sched: service running "serve n" for n
proof
  fix k :: Kernel and r :: request
  assume k: "running k"
  note returns = yield_running exit_running block_running sleep_running poll_running irq_running
  show "\<exists>k'. serve n r k = Some k' \<and> running k'"
  proof (cases r)
    case (Enqueue t) then show ?thesis using k enqueue_running by (simp del: enqueue.simps) (blast elim: runningE intro: map_snd_returns)
  next
    case (SetCurrentPriority p) then show ?thesis using k set_current_priority_running by simp (blast elim: runningE intro: map_snd_returns)
  next
    case (SetPriority t p) then show ?thesis using k set_thread_priority_running by simp (blast elim: runningE intro: map_snd_returns)
  next
    case Tick then show ?thesis using timer_tick_running [OF k] by simp
  next
    case Reap then show ?thesis using reap_running [OF k] by (simp add: reap_retired_def)
  next
    case (Capture sp pc state) then show ?thesis using capture_running [OF k] by simp
  qed (simp_all only: serve.simps block_current_def, (rule map_snd_returns, rule returns [OF k])+)
qed

section \<open>Reachable states\<close>

text \<open>What may happen to a thread from outside: it does not run, is not idle and has not exited.\<close>

definition can_be_destroyed :: "Kernel \<Rightarrow> ptr \<Rightarrow> bool" where
  "can_be_destroyed k t \<longleftrightarrow> g_current_thread k \<noteq> Some t \<and> g_idle_thread k \<noteq> Some t \<and> thread_state (threads k t) \<noteq> ThreadTerminated"

inductive kernel_step :: "nat \<Rightarrow> Kernel \<Rightarrow> Kernel \<Rightarrow> bool" for n where
  served: "serve n r k = Some k' \<Longrightarrow> kernel_step n k k'"
| thread_destroyed: "find_thread i k = Some (Some t) \<Longrightarrow> can_be_destroyed k t \<Longrightarrow> terminate_thread (waking n) i k = Some (status, k') \<Longrightarrow>
    kernel_step n k k'"
| process_destroyed: "find_process i k = Some (Some p) \<Longrightarrow> (\<And>t. thread_parent (threads k t) = Some p \<Longrightarrow> can_be_destroyed k t) \<Longrightarrow>
    terminate_process (waking n) i code k = Some (status, k') \<Longrightarrow> kernel_step n k k'"

lemma terminate_thread_running:
  assumes "running k" "find_thread i k = Some (Some t)" "can_be_destroyed k t"
  shows "\<exists>k'. terminate_thread wake i k = Some (StatusOK, k') \<and> running k'"
proof -
  obtain c qs ss rs ls where s: "steady k c qs ss rs ls" using assms(1) by (rule runningE)
  note D = steadyD [OF s]
  obtain ps ms where ok: "task_ok k qs ss rs ls ps ms" "quiet k" "awake k ss ls" using D(1) by (rule soundE)
  have t: "t \<in> set ls" "t \<notin> set rs" "g_idle_thread k \<noteq> Some t" "t \<noteq> c"
  proof -
    show "t \<in> set ls" using find_thread_ok [OF D(1), of i] assms(2) by (metis option.inject)
    show "t \<notin> set rs" "g_idle_thread k \<noteq> Some t" "t \<noteq> c"
      using task_okD(6) [OF ok(1)] assms(3) D(2) by (auto simp: can_be_destroyed_def placed_def)
  qed
  obtain k' p ps' where K: "destroy_thread wake t k = Some (StatusOK, k')" "p \<in> set ps" "thread_parent (threads k t) = Some p"
    "task_ok k' (\<lambda>q. without {t} (qs q)) (without {t} ss) rs (without {t} ls) ps' (ms(p := without {t} (ms p)))" "quiet k'" "spares {t} k k'"
    "g_current_thread k' \<noteq> Some t"
    "ps' = ps \<and> process_state (processes k' p) = process_state (processes k p)
       \<or> ps' = remove1 p ps \<and> set (ms p) \<subseteq> {t} \<and> process_state (processes k p) \<noteq> ProcessTerminated"
    by (rule destroy_thread_ok [OF ok(1,2) t(1-3)])
  have "awake k' (without {t} ss) (without {t} ls)" using ok(3) sparesD(3) [OF K(6)] by (auto simp: awake_def without_def)
  then have "sound k' (\<lambda>q. without {t} (qs q)) (without {t} ss) rs (without {t} ls)" using K(4,5) by (blast intro: soundI)
  then have "steady k' c (\<lambda>q. without {t} (qs q)) (without {t} ss) rs (without {t} ls)"
    by (rule steady_other [OF s]) (use K(6) D(2,3) t(4) sparesD(1) [OF K(6), of c] in \<open>auto simp: spares_def without_def\<close>)
  moreover have "terminate_thread wake i k = Some (StatusOK, k')" using assms(2) K(1) by (simp add: terminate_thread_def)
  ultimately show ?thesis by (blast intro: runningI)
qed

lemma terminate_process_running:
  assumes "running k" "find_process i k = Some (Some p)" "\<And>t. thread_parent (threads k t) = Some p \<Longrightarrow> can_be_destroyed k t"
  shows "\<exists>k'. terminate_process wake i code k = Some (StatusOK, k') \<and> running k'"
proof -
  obtain c qs ss rs ls where s: "steady k c qs ss rs ls" using assms(1) by (rule runningE)
  note D = steadyD [OF s]
  obtain ps ms where ok: "task_ok k qs ss rs ls ps ms" "quiet k" "awake k ss ls" using D(1) by (rule soundE)
  have p: "p \<in> set ps"
    using assms(2) find_link_dll [OF family_list [OF ok(1)]] by (auto simp: find_process_def find_Some_iff)
  let ?k1 = "updp p (\<lambda>x. x\<lparr>process_state := ProcessExiting, exit_code := code\<rparr>) k"
  have v: "view ?k1 = view k" by (rule view_updp) (simp add: pview_def)
  have ok1: "task_ok ?k1 qs ss rs ls ps ms" "quiet ?k1" using task_ok_view [OF v] quiet_broker [of ?k1 k] ok by simp_all
  have mem: "can_be_destroyed k t" if "t \<in> set (ms p)" for t
    using task_okD(5) [OF ok(1)] p that assms(3) by (simp add: family_def)
  have rs: "set (ms p) \<inter> set rs = {}" using mem task_okD(6) [OF ok(1)] by (auto simp: can_be_destroyed_def placed_def)
  obtain k' where K: "destroy_process wake p ?k1 = Some (StatusOK, k')"
    "task_ok k' (\<lambda>q. without (set (ms p)) (qs q)) (without (set (ms p)) ss) rs (without (set (ms p)) ls) (remove1 p ps) (ms(p := []))"
    "quiet k'" "spares (set (ms p)) ?k1 k'"
    using destroy_process_ok [OF ok1 p rs, of wake thesis] mem by (auto simp: can_be_destroyed_def updp_def)
  have sp: "spares (set (ms p)) k k'" using K(4) by (simp add: spares_def updp_def)
  have cm: "c \<notin> set (ms p)" using mem D(2) by (auto simp: can_be_destroyed_def)
  have "awake k' (without (set (ms p)) ss) (without (set (ms p)) ls)" using ok(3) sparesD(3) [OF sp] by (auto simp: awake_def without_def)
  then have "sound k' (\<lambda>q. without (set (ms p)) (qs q)) (without (set (ms p)) ss) rs (without (set (ms p)) ls)" using K(2,3) by (blast intro: soundI)
  then have "steady k' c (\<lambda>q. without (set (ms p)) (qs q)) (without (set (ms p)) ss) rs (without (set (ms p)) ls)"
    by (rule steady_other [OF s]) (use sp D(2,3) cm sparesD(1) [OF sp, of c] in \<open>auto simp: spares_def without_def\<close>)
  moreover have "terminate_process wake i code k = Some (StatusOK, k')" using assms(2) K(1) by (simp add: terminate_process_def)
  ultimately show ?thesis by (blast intro: runningI)
qed

lemma kernel_step_running:
  assumes "kernel_step n k k'" "running k" shows "running k'"
  using assms(1)
proof cases
  case (served r)
  then show ?thesis using sched.step_returns [OF assms(2), of n r] by simp
next
  case (thread_destroyed i t status)
  then show ?thesis using terminate_thread_running [OF assms(2) thread_destroyed(1,2), of "waking n"] by simp
next
  case (process_destroyed i p code status)
  then show ?thesis using terminate_process_running [OF assms(2) process_destroyed(1,2), of "waking n" code] by simp
qed

section \<open>A system\<close>

text \<open>
  The system process 10 has the boot thread 1, which runs, and the idle thread 2; process 11 has thread 3,
  ready at the same priority and last suspended in \<open>block_current_for\<close>, and thread 4, asleep until tick 3.
\<close>

definition sample_thread :: "ThreadState \<Rightarrow> u8 \<Rightarrow> ptr \<Rightarrow> Thread" where
  "sample_thread s p process = zero_thread\<lparr>thread_state := s, base_priority := p, current_priority := p, thread_parent := Some process,
     quantum_ticks := 5, quantum_ticks_remaining := 5\<rparr>"

definition sample_threads :: "ptr \<Rightarrow> Thread" where
  "sample_threads =
     (\<lambda>_. zero_thread)
       (1 := (sample_thread ThreadRunning 16 10)\<lparr>thread_id := 1, thread_next := Some 2, process_next := Some 2\<rparr>,
        2 := (sample_thread ThreadReady 31 10)\<lparr>thread_id := 2, thread_prev := Some 1, thread_next := Some 3, process_prev := Some 1,
               thread_context := (thread_context zero_thread)\<lparr>kernel_chain := KernelEntry 4096\<rparr>\<rparr>,
        3 := (sample_thread ThreadReady 16 11)\<lparr>thread_id := 3, in_ready_queue := True, thread_prev := Some 2, thread_next := Some 4,
               process_next := Some 4, thread_context := (thread_context zero_thread)\<lparr>kernel_chain := InSwitch (FromBlockFor WaitEvent)\<rparr>\<rparr>,
        4 := (sample_thread ThreadWaiting 5 11)\<lparr>thread_id := 4, wake_tick := 3, thread_prev := Some 3, process_prev := Some 3,
               thread_context := (thread_context zero_thread)\<lparr>kernel_chain := InSwitch FromSleep\<rparr>\<rparr>)"

definition sample_processes :: "ptr \<Rightarrow> Process" where
  "sample_processes =
     (\<lambda>_. zero_process)
       (10 := zero_process\<lparr>process_id := 1, process_state := ProcessRunning, process_address_space := \<lparr>page_table_root = 8192, asid = 0\<rparr>,
                thread_list_head := Some 1, thread_list_tail := Some 2, thread_count := 2, next_process := Some 11\<rparr>,
        11 := zero_process\<lparr>process_id := 2, process_state := ProcessRunning, process_address_space := \<lparr>page_table_root = 12288, asid = 1\<rparr>,
                thread_list_head := Some 3, thread_list_tail := Some 4, thread_count := 2, prev_process := Some 10\<rparr>)"

definition sample_kernel :: Kernel where
  "sample_kernel =
     \<lparr>threads = sample_threads, processes = sample_processes, g_current_thread = Some 1, g_current_process = Some 10, g_idle_thread = Some 2,
      ready_head = (\<lambda>_. None)(16 := Some 3), ready_tail = (\<lambda>_. None)(16 := Some 3), g_ready_bitmap = 65536, g_ready_count = 1, g_tick_count = 0,
      g_sleep_head = Some 4, g_sleep_tail = Some 4, g_retired_thread_head = None, g_retired_thread_tail = None, g_reschedule_pending = False,
      g_lower_el_irq_preempt_trace_emitted = False, g_lower_el_irq_resume_current_trace_emitted = False,
      g_irqhandoff_bind_trace_count = 0, g_irqhandoff_ready_trace_count = 0, g_thread_count = 4, g_next_thread_id = 5,
      g_thread_head = Some 1, g_thread_tail = Some 4, process_count_value = 2, next_pid = 3, process_head = Some 10, process_tail = Some 11,
      exit_records = empty_list, g_objects = empty_list, other_objects = (\<lambda>_. zero_header), kernel_root_table = 4096, ttbr0 = 8192,
      broker = \<lparr>subscribers = (\<lambda>_. zero_subscriber), g_subscriber_head = None, g_subscriber_tail = None, g_next_subscription_id = 1, g_next_sequence = 1\<rparr>,
      calls = [], heap_answers = (\<lambda>_. None), heap_requests = 0\<rparr>"

definition sample_ready :: "nat \<Rightarrow> ptr list" where
  "sample_ready = (\<lambda>_. [])(16 := [3])"

definition sample_members :: "ptr \<Rightarrow> ptr list" where
  "sample_members = (\<lambda>_. [])(10 := [1, 2], 11 := [3, 4])"

lemmas sample_defs = sample_kernel_def sample_threads_def sample_processes_def sample_thread_def zero_thread_def zero_process_def

lemma sample_task_ok: "task_ok sample_kernel sample_ready [4] [] [1, 2, 3, 4] [10, 11] sample_members"
  unfolding task_ok_def
proof (intro conjI)
  have b: "bit (65536 :: u32) q \<longleftrightarrow> q = 16" if "q < 32" for q
  proof -
    have "(65536 :: u32) = push_bit 16 1" by simp
    then show ?thesis using that by (simp only: bit_push_bit_iff bit_1_iff) auto
  qed
  have "(\<Sum>q<32. length (sample_ready q)) = (\<Sum>q<(32::nat). if q = 16 then 1 else 0)" by (rule sum.cong) (simp_all add: sample_ready_def)
  then have n: "(\<Sum>q<32. length (sample_ready q)) = 1" by simp
  show "ready_lists sample_kernel sample_ready"
    unfolding ready_lists_def
  proof (intro conjI allI impI)
    show "g_ready_count sample_kernel = of_nat (\<Sum>q<32. length (sample_ready q))" unfolding n by (simp add: sample_kernel_def)
    show "q < 32 \<Longrightarrow> bit (g_ready_bitmap sample_kernel) q \<longleftrightarrow> sample_ready q \<noteq> []" for q
      using b [of q] by (simp add: sample_kernel_def sample_ready_def)
  qed (auto simp: sample_defs sample_ready_def dll_def)
  show "sleep_list sample_kernel [4]" by (simp add: sleep_list_def dll_def) (simp add: sample_defs)
  show "retired_list sample_kernel []" by (simp add: retired_list_def sample_kernel_def)
  show "registry sample_kernel [1, 2, 3, 4]" by (simp add: registry_def dll_def) (simp add: sample_defs)
  show "family sample_kernel [1, 2, 3, 4] [10, 11] sample_members"
    unfolding family_def by (auto simp: sample_defs sample_members_def dll_def)
  show "placed sample_kernel sample_ready [4] [] [1, 2, 3, 4]"
    unfolding placed_def by (auto simp: sample_defs sample_ready_def)
qed

lemma sample_steady: "steady sample_kernel 1 sample_ready [4] [] [1, 2, 3, 4]"
proof -
  have "quiet_list sample_kernel []" by (simp add: quiet_list_def dll_def sub_def sample_kernel_def zero_subscriber_def)
  then have "quiet sample_kernel" unfolding quiet_def by blast
  moreover have "awake sample_kernel [4] [1, 2, 3, 4]" by (auto simp: awake_def sample_defs)
  ultimately have "sound sample_kernel sample_ready [4] [] [1, 2, 3, 4]" using sample_task_ok by (blast intro: soundI)
  then show ?thesis by (simp add: steady_def) (simp add: sample_defs)
qed


section \<open>Properties\<close>



text \<open>C2: A running system serves any sequence of requests: each operation returns, whatever the queues hold, and leaves the
  system running.\<close>

theorem requests_return:
  assumes "running k" shows "\<exists>k'. run_all (serve n) requests k = Some k' \<and> running k'"
  by (rule sched.run_all_returns [OF assms])

theorem requests_return_witness:
  "\<exists>k'. run_all (serve 0) [Sleep 7, Tick, LowerIrq None, Exit, Poll 3, Yield] sample_kernel = Some k' \<and> running k'"
  by (rule requests_return [OF runningI [OF sample_steady]])

text \<open>C3: Yielding is round robin within a priority and strict between priorities: the current thread goes to the end of the
  queue of its priority, and the head of the best non-empty queue runs; the threads that had exited are gone.\<close>

theorem yield_round_robin:
  assumes "steady k c qs ss rs ls" "g_idle_thread k \<noteq> Some c"
  shows "\<exists>land k'. yield n k = Some (land, k')
    \<and> (let qs' = qs(prio k c := qs (prio k c) @ [c]); b = LEAST q. qs' q \<noteq> []
       in steady k' (hd (qs' b)) (qs'(b := tl (qs' b))) ss [] (filter (\<lambda>t. t \<notin> set rs) ls))"
  by (rule yield_ok [OF assms, of n])
    (simp add: requeued_def served_def best_queue_def without_def Let_def)

theorem yield_round_robin_witness:
  "\<exists>land k'. yield 0 sample_kernel = Some (land, k') \<and> g_current_thread k' = Some 3 \<and> thread_state (threads k' 3) = ThreadRunning"
proof -
  have c: "g_idle_thread sample_kernel \<noteq> Some 1" and p: "prio sample_kernel 1 = 16" by (simp_all add: sample_defs)
  let ?qs = "sample_ready(16 := sample_ready 16 @ [1])"
  have b: "(LEAST q. ?qs q \<noteq> []) = 16" by (rule Least_equality) (simp_all add: sample_ready_def split: if_splits)
  have h: "hd (?qs 16) = 3" by (simp add: sample_ready_def)
  show ?thesis using yield_round_robin [OF sample_steady c, of 0] unfolding p Let_def b h by (auto dest: steadyD(2,4))
qed

text \<open>C4: After \<open>d\<close> timer ticks exactly the sleepers whose wake tick has come have left the sleep queue; they are in the ready
  queues of their priorities, behind the threads that were there, in the order of their wake ticks; the running thread
  still runs.\<close>

theorem ticks_wake_due_sleepers:
  assumes "steady k c qs ss rs ls" "0 < d" "unat (g_tick_count k) + d < 2 ^ 64"
  shows "\<exists>k'. timer_ticks n d k = Some k'
    \<and> (let due = (\<lambda>t. wake_tick (threads k t) \<le> g_tick_count k + of_nat d)
       in steady k' c (\<lambda>q. qs q @ filter (\<lambda>t. prio k t = q) (filter due ss)) (filter (\<lambda>t. \<not> due t) ss) [] (filter (\<lambda>t. t \<notin> set rs) ls))"
proof -
  obtain e where d: "d = Suc e" using assms(2) by (cases d) auto
  show ?thesis using timer_ticks_ok [OF assms(1) assms(3) [unfolded d], of n]
    unfolding d Let_def woken_def without_def not_le by blast
qed

theorem ticks_wake_due_sleepers_witness:
  "\<exists>k2 k3. timer_ticks 0 2 sample_kernel = Some k2 \<and> \<not> in_ready_queue (threads k2 4)
    \<and> timer_ticks 0 3 sample_kernel = Some k3 \<and> in_ready_queue (threads k3 4)"
proof -
  have w: "wake_tick (threads sample_kernel 4) = 3" "g_tick_count sample_kernel = 0" "prio sample_kernel 4 = 5" by (simp_all add: sample_defs)
  have mem: "in_ready_queue (threads k t) \<longleftrightarrow> t \<in> set (qs (prio k t))" if "steady k c qs ss rs ls" for k c qs ss rs ls t
    using that by (auto simp: steady_def sound_def task_ok_def ready_lists_def)
  obtain k2 where k2: "timer_ticks 0 2 sample_kernel = Some k2" "steady k2 1 sample_ready [4] [] [1, 2, 3, 4]"
    using ticks_wake_due_sleepers [OF sample_steady, of 2 0] by (auto simp: w)
  obtain k3 where k3: "timer_ticks 0 3 sample_kernel = Some k3" "steady k3 1 (\<lambda>q. sample_ready q @ filter (\<lambda>t. prio sample_kernel t = q) [4]) [] [] [1, 2, 3, 4]"
  proof -
    have "filter (\<lambda>t. wake_tick (threads sample_kernel t) \<le> g_tick_count sample_kernel + of_nat 3) [4] = [4]"
      "filter (\<lambda>t. \<not> wake_tick (threads sample_kernel t) \<le> g_tick_count sample_kernel + of_nat 3) [4] = []"
      "filter (\<lambda>t. t \<notin> set []) [1, 2, 3, 4 :: ptr] = [1, 2, 3, 4]" by (simp_all add: w)
    moreover have "unat (g_tick_count sample_kernel) + 3 < 2 ^ 64" by (simp add: w)
    ultimately show ?thesis using that ticks_wake_due_sleepers [OF sample_steady, of 3 0] by (simp only: Let_def) auto
  qed
  have "4 \<in> set (sample_ready 5 @ filter (\<lambda>t. prio sample_kernel t = 5) [4])" by (simp add: w(3))
  then have "in_ready_queue (threads k3 4)"
    using k3(2) unfolding steady_def sound_def task_ok_def ready_lists_def by blast
  moreover have "\<not> in_ready_queue (threads k2 4)" using mem [OF k2(2), of 4] by (simp add: sample_ready_def)
  ultimately show ?thesis using k2(1) k3(1) by blast
qed






end
