(* ===== verification/Kernel_Ring.thy ===== *)
theory Kernel_Ring
  imports Kernel_Machine
begin

text \<open>
  The queue of a subscriber as a bounded queue that loses its oldest record when it is full: \<open>contents\<close> is the
  sequence of the records in the ring buffer. Growing the buffer keeps it, reading takes a prefix of it, and
  publishing appends to it; a record that is lost is counted.
\<close>

definition contents :: "EventSubscriber \<Rightarrow> KernelEventRecord list" where
  "contents x = map (\<lambda>i. queue x ! ((read_index x + i) mod length (queue x))) [0..<queued_count x]"

definition ring_ok :: "EventSubscriber \<Rightarrow> bool" where
  "ring_ok x \<longleftrightarrow>
     queued_count x \<le> length (queue x) \<and> length (queue x) \<le> KERNEL_EVENT_QUEUE_MAX_CAPACITY
     \<and> (queue x \<noteq> [] \<longrightarrow> read_index x < length (queue x) \<and> write_index x = (read_index x + queued_count x) mod length (queue x))"

lemma length_contents [simp]: "length (contents x) = queued_count x"
  by (simp add: contents_def)

lemma ring_ok_zero [simp]: "ring_ok zero_subscriber" "contents zero_subscriber = []"
  by (simp_all add: ring_ok_def contents_def zero_subscriber_def)

lemma mod_shift_inj:
  fixes a i j n :: nat
  assumes "(a + i) mod n = (a + j) mod n" "i < n" "j < n" shows "i = j"
proof (rule ccontr)
  have less: False if "(a + x) mod n = (a + y) mod n" "x < y" "y < n" for x y
  proof -
    have "n dvd (a + y) - (a + x)" using that by (subst mod_eq_dvd_iff_nat [symmetric]) auto
    then show False using that(2,3) by (auto dest!: dvd_imp_le)
  qed
  assume "i \<noteq> j"
  then consider "i < j" | "j < i" by linarith
  then show False using less [of i j] less [of j i] assms by cases auto
qed

section \<open>Taking and putting\<close>

definition take_record :: "EventSubscriber \<Rightarrow> EventSubscriber" where
  "take_record x = x\<lparr>read_index := (read_index x + 1) mod length (queue x), queued_count := queued_count x - 1\<rparr>"

lemma take_record_ok:
  assumes "ring_ok x" "0 < queued_count x"
  shows "ring_ok (take_record x)" "contents x = queue x ! read_index x # contents (take_record x)"
    "queue (take_record x) = queue x" "queued_count (take_record x) = queued_count x - 1"
proof -
  have q: "queue x \<noteq> []" and r: "read_index x < length (queue x)" using assms by (auto simp: ring_ok_def)
  obtain c where c: "queued_count x = Suc c" using assms(2) by (cases "queued_count x") auto
  show "ring_ok (take_record x)" using assms(1) q by (auto simp: ring_ok_def take_record_def c mod_simps)
  have "contents x = queue x ! read_index x # map (\<lambda>i. queue x ! ((read_index x + Suc i) mod length (queue x))) [0..<c]"
    unfolding contents_def c using r by (simp only: upt_conv_Cons map_Suc_upt [symmetric] list.map zero_less_Suc map_map o_def) simp
  then show "contents x = queue x ! read_index x # contents (take_record x)"
    by (simp add: contents_def take_record_def c mod_simps)
  show "queue (take_record x) = queue x" "queued_count (take_record x) = queued_count x - 1" by (simp_all add: take_record_def)
qed

lemma read_records_ok:
  assumes "ring_ok x" "n \<le> queued_count x"
  shows "fst (read_records n x) = take n (contents x)" "contents (snd (read_records n x)) = drop n (contents x)"
    "ring_ok (snd (read_records n x))"
proof -
  have "fst (read_records n x) = take n (contents x) \<and> contents (snd (read_records n x)) = drop n (contents x) \<and> ring_ok (snd (read_records n x))"
    using assms
  proof (induction n arbitrary: x)
    case (Suc n)
    note T = take_record_ok [OF Suc.prems(1)]
    have "0 < queued_count x" "n \<le> queued_count (take_record x)" using Suc.prems(2) T(4) by auto
    then show ?case using Suc.IH [OF T(1)] T(2) by (simp only: read_records.simps Let_def split_beta take_record_def [symmetric] fst_conv snd_conv take_Suc_Cons drop_Suc_Cons)
  qed simp
  then show "fst (read_records n x) = take n (contents x)" "contents (snd (read_records n x)) = drop n (contents x)"
    "ring_ok (snd (read_records n x))" by blast+
qed

lemma put_record_ok:
  assumes "ring_ok x" "queued_count x < length (queue x)"
  shows "ring_ok (put_record r x)" "contents (put_record r x) = contents x @ [r]"
proof -
  let ?n = "length (queue x)"
  have q: "queue x \<noteq> []" and w: "write_index x = (read_index x + queued_count x) mod ?n" "write_index x < ?n"
    using assms by (auto simp: ring_ok_def intro!: mod_less_divisor)
  show "ring_ok (put_record r x)" using assms q w by (auto simp: ring_ok_def put_record_def mod_simps)
  have "(queue x)[write_index x := r] ! ((read_index x + i) mod ?n) = queue x ! ((read_index x + i) mod ?n)" if "i < queued_count x" for i
    using mod_shift_inj [of "read_index x" i ?n "queued_count x"] that assms(2) w by (intro nth_list_update_neq) auto
  then show "contents (put_record r x) = contents x @ [r]" using w by (simp add: contents_def put_record_def)
qed

lemma make_room_ok:
  assumes "ring_ok x" "queue x \<noteq> []"
  shows "ring_ok (make_room status x)" "queued_count (make_room status x) < length (queue (make_room status x))"
    "contents (make_room status x) = (if queued_count x = length (queue x) then tl (contents x) else contents x)"
proof -
  have "ring_ok (make_room status x) \<and> queued_count (make_room status x) < length (queue (make_room status x))
    \<and> contents (make_room status x) = (if queued_count x = length (queue x) then tl (contents x) else contents x)"
  proof (cases "queued_count x = length (queue x)")
    case True
    then have p: "0 < queued_count x" using assms(2) by simp
    note T = take_record_ok [OF assms(1) p]
    have m: "make_room status x = (take_record x)\<lparr>dropped_count := (if status \<noteq> StatusNoSpace then dropped_count x + 1 else dropped_count x)\<rparr>"
      using True by (simp add: make_room_def take_record_def)
    have c: "contents (y\<lparr>dropped_count := d\<rparr>) = contents y" "ring_ok (y\<lparr>dropped_count := d\<rparr>) = ring_ok y" for y d
      by (simp_all add: contents_def ring_ok_def)
    show ?thesis unfolding m c using T True p by simp
  next
    case False
    then show ?thesis using assms by (auto simp: make_room_def ring_ok_def)
  qed
  then show "ring_ok (make_room status x)" "queued_count (make_room status x) < length (queue (make_room status x))"
    "contents (make_room status x) = (if queued_count x = length (queue x) then tl (contents x) else contents x)" by blast+
qed

section \<open>Growing\<close>

text \<open>Whether the buffer of a subscriber has room for one more record, or can be given some.\<close>

definition has_room :: "Kernel \<Rightarrow> ptr \<Rightarrow> bool" where
  "has_room k s \<longleftrightarrow>
     queued_count (sub k s) < length (queue (sub k s))
     \<or> length (queue (sub k s)) < KERNEL_EVENT_QUEUE_MAX_CAPACITY \<and> heap_answers k (heap_requests k) \<noteq> None"

lemma moved_contents:
  assumes "length moved = queued_count x" "queued_count x < grown" "grown \<le> KERNEL_EVENT_QUEUE_MAX_CAPACITY"
  defines "y \<equiv> x\<lparr>queue := moved @ replicate (grown - length moved) blank_record, read_index := 0, write_index := queued_count x\<rparr>"
  shows "ring_ok y" "contents y = moved" "queued_count y < length (queue y)" "dropped_count y = dropped_count x" "waiting_thread y = waiting_thread x"
    "queued_count y = queued_count x"
proof -
  show "ring_ok y" "queued_count y < length (queue y)" "dropped_count y = dropped_count x" "waiting_thread y = waiting_thread x"
    "queued_count y = queued_count x" using assms(1-3) by (auto simp: y_def ring_ok_def)
  show "contents y = moved"
    by (rule nth_equalityI) (use assms(1,2) in \<open>simp_all add: y_def contents_def nth_append\<close>)
qed

lemma reserve_queue_capacity_ok:
  assumes ok: "ring_ok (sub k s)"
  defines "x \<equiv> sub k s"
  shows "\<exists>status k'. reserve_queue_capacity s (queued_count x + 1) k = Some (status, k') \<and> ring_ok (sub k' s) \<and> contents (sub k' s) = contents x
     \<and> dropped_count (sub k' s) = dropped_count x \<and> waiting_thread (sub k' s) = waiting_thread x
     \<and> (if has_room k s then status = StatusOK \<and> queued_count (sub k' s) < length (queue (sub k' s))
        else status \<noteq> StatusOK \<and> sub k' s = x \<and> queued_count x = length (queue x))"
proof -
  let ?cap = "length (queue x)"
  have le: "queued_count x \<le> ?cap" "?cap \<le> KERNEL_EVENT_QUEUE_MAX_CAPACITY" using ok by (auto simp: ring_ok_def x_def)
  consider (room) "queued_count x < ?cap" | (most) "queued_count x = ?cap" "?cap = KERNEL_EVENT_QUEUE_MAX_CAPACITY"
    | (grow) "queued_count x = ?cap" "?cap < KERNEL_EVENT_QUEUE_MAX_CAPACITY" using le by linarith
  then show ?thesis
  proof cases
    case room
    then show ?thesis using ok by (auto simp: reserve_queue_capacity_def Let_def has_room_def x_def)
  next
    case most
    then show ?thesis using ok by (auto simp: reserve_queue_capacity_def Let_def has_room_def x_def)
  next
    case grow
    define moved where "moved = map (\<lambda>i. queue x ! ((read_index x + i) mod ?cap)) [0..<queued_count x]"
    have m: "length moved = queued_count x" "moved = contents x" by (simp_all add: moved_def contents_def)
    have t: "min (queued_count x + 1) KERNEL_EVENT_QUEUE_MAX_CAPACITY = queued_count x + 1" using grow by simp
    obtain grown where g: "grow_capacity (queued_count x + 1) (if ?cap = 0 then KERNEL_EVENT_QUEUE_INITIAL_CAPACITY else ?cap) = Some grown"
      "queued_count x + 1 \<le> grown" "grown \<le> KERNEL_EVENT_QUEUE_MAX_CAPACITY"
      using grow_capacity_returns [of "if ?cap = 0 then KERNEL_EVENT_QUEUE_INITIAL_CAPACITY else ?cap" "queued_count x + 1"] grow
      by (cases "queue x = []") auto
    note M = moved_contents [OF m(1) _ g(3)]
    have h: "heap_alloc k = (heap_answers k (heap_requests k), k\<lparr>heap_requests := Suc (heap_requests k)\<rparr>)" by (simp add: heap_alloc_def)
    show ?thesis
    proof (cases "heap_answers k (heap_requests k)")
      case None
      then show ?thesis using grow g(1) ok t h by (auto simp: reserve_queue_capacity_def Let_def has_room_def x_def split: if_splits)
    next
      case (Some b)
      let ?y = "x\<lparr>queue := moved @ replicate (grown - length moved) blank_record, read_index := 0, write_index := queued_count x\<rparr>"
      have r: "has_room k s" using grow Some by (simp add: has_room_def x_def)
      have "\<exists>k'. reserve_queue_capacity s (queued_count x + 1) k = Some (StatusOK, k') \<and> sub k' s = ?y"
        unfolding reserve_queue_capacity_def x_def [symmetric] Let_def t h moved_def [symmetric]
        using grow g(1) Some by (simp split: if_split) (auto simp: x_def)
      then show ?thesis using M r g(2) m(2) by fastforce
    qed
  qed
qed

section \<open>Publishing to one subscriber\<close>

definition lossy_put :: "bool \<Rightarrow> 'a \<Rightarrow> 'a list \<Rightarrow> 'a list \<times> nat" where
  "lossy_put room r xs = (if room then (xs @ [r], 0) else if xs = [] then ([], 1) else (tl xs @ [r], 1))"

lemma ring_ok_dropped [simp]: "ring_ok (x\<lparr>dropped_count := d\<rparr>) = ring_ok x" "contents (x\<lparr>dropped_count := d\<rparr>) = contents x"
  by (simp_all add: ring_ok_def contents_def)

lemma put_fields [simp]: "dropped_count (put_record r x) = dropped_count x" "waiting_thread (put_record r x) = waiting_thread x"
  "waiting_thread (make_room st x) = waiting_thread x"
  by (simp_all add: put_record_def make_room_def)

lemma enqueue_record_ok:
  assumes ok: "ring_ok (sub k s)" and w: "waiting_thread (sub k s) = None"
  shows "\<exists>k'. enqueue_record wake s r k = Some k' \<and> ring_ok (sub k' s)
    \<and> contents (sub k' s) = fst (lossy_put (has_room k s) r (contents (sub k s)))
    \<and> dropped_count (sub k' s) = dropped_count (sub k s) + of_nat (snd (lossy_put (has_room k s) r (contents (sub k s))))"
proof -
  obtain status k1 where R: "reserve_queue_capacity s (queued_count (sub k s) + 1) k = Some (status, k1)" "ring_ok (sub k1 s)"
    "contents (sub k1 s) = contents (sub k s)" "dropped_count (sub k1 s) = dropped_count (sub k s)" "waiting_thread (sub k1 s) = None"
    "if has_room k s then status = StatusOK \<and> queued_count (sub k1 s) < length (queue (sub k1 s))
     else status \<noteq> StatusOK \<and> sub k1 s = sub k s \<and> queued_count (sub k s) = length (queue (sub k s))"
    using reserve_queue_capacity_ok [OF ok] w by auto
  have empty: "contents (sub k s) = [] \<longleftrightarrow> queued_count (sub k s) = 0" by (metis length_contents length_0_conv)
  show ?thesis
  proof (cases "has_room k s")
    case True
    then have st: "status = StatusOK" and rm: "queued_count (sub k1 s) < length (queue (sub k1 s))" using R(6) by auto
    have mk: "make_room StatusOK (sub k1 s) = sub k1 s" using rm by (simp add: make_room_def)
    note P = put_record_ok [OF R(2) rm, of r]
    show ?thesis using R(1,3-5) st mk P True by (simp add: enqueue_record_def wake_waiter_def lossy_put_def Let_def)
  next
    case False
    then have st: "status \<noteq> StatusOK" and sb: "sub k1 s = sub k s" and full: "queued_count (sub k s) = length (queue (sub k s))" using R(6) by auto
    show ?thesis
    proof (cases "queue (sub k s) = []")
      case True
      then show ?thesis using R(1,2) st sb False full empty by (simp add: enqueue_record_def lossy_put_def)
    next
      case q: False
      let ?x = "\<lambda>d. (sub k s)\<lparr>dropped_count := d\<rparr>"
      have M: "ring_ok (make_room status (?x d))" "queued_count (make_room status (?x d)) < length (queue (make_room status (?x d)))"
        "contents (make_room status (?x d)) = (if queued_count (sub k s) = length (queue (sub k s)) then tl (contents (sub k s)) else contents (sub k s))" for d
        using make_room_ok [of "?x d" status] ok q by simp_all
      have "contents (make_room status (?x d)) = tl (contents (sub k s))" for d using M(3) full by simp
      moreover have "ring_ok (make_room status (?x d))" "queued_count (make_room status (?x d)) < length (queue (make_room status (?x d)))" for d
        using M(1,2) by auto
      ultimately have P: "ring_ok (put_record r (make_room status (?x d)))" "contents (put_record r (make_room status (?x d))) = tl (contents (sub k s)) @ [r]" for d
        using put_record_ok by auto
      have D: "dropped_count (make_room status (?x d)) = (if status \<noteq> StatusNoSpace then d + 1 else d)" for d
        using full by (simp add: make_room_def)
      have ne: "contents (sub k s) \<noteq> []" using q full empty by simp
      show ?thesis using R(1) st sb q w P [of "dropped_count (sub k s)"] P [of "dropped_count (sub k s) + 1"] D [of "dropped_count (sub k s)"]
          D [of "dropped_count (sub k s) + 1"] ne False
        by (cases "status = StatusNoSpace") (simp_all add: enqueue_record_def wake_waiter_def lossy_put_def Let_def)
    qed
  qed
qed

lemma enqueue_record_frame:
  assumes w: "waiting_thread (sub k s) = None" and e: "enqueue_record wake s r k = Some k'" and x: "x \<noteq> s"
  shows "sub k' x = sub k x"
proof -
  obtain status k1 qq rr ww where R: "reserve_queue_capacity s (queued_count (sub k s) + 1) k = Some (status, k1)" "\<And>x. x \<noteq> s \<Longrightarrow> sub k1 x = sub k x"
    "sub k1 s = (sub k s)\<lparr>queue := qq, read_index := rr, write_index := ww\<rparr>"
    using reserve_queue_capacity_returns [of s "queued_count (sub k s) + 1" k] by blast
  have "waiting_thread (sub k1 s) = None" using w R(3) by simp
  then show ?thesis using e R(1,2) x by (auto simp: enqueue_record_def wake_waiter_def Let_def split: if_splits)
qed

section \<open>Publishing to everyone\<close>

text \<open>What a subscriber has after a record was published: the record at the end if it asked for it, and a loss only if its buffer was full.\<close>

definition delivered :: "KernelEventRecord \<Rightarrow> EventSubscriber \<Rightarrow> EventSubscriber \<Rightarrow> bool" where
  "delivered r x y \<longleftrightarrow>
     (if subscription_matches x r
      then (\<exists>room. (queued_count x < length (queue x) \<longrightarrow> room) \<and> contents y = fst (lossy_put room r (contents x))
              \<and> dropped_count y = dropped_count x + of_nat (snd (lossy_put room r (contents x))))
      else y = x)"

lemma publish_loop_delivers:
  assumes "quiet_list k bs" "bs = us @ vs" "cursor = first_of vs None" "\<And>s. s \<in> set bs \<Longrightarrow> ring_ok (sub k s)"
  shows "\<exists>k'. publish_loop wake r cursor k = Some k' \<and> same_tasks k k' \<and> quiet_list k' bs
    \<and> (\<forall>s. s \<in> set bs \<longrightarrow> ring_ok (sub k' s)) \<and> (\<forall>s. s \<in> set vs \<longrightarrow> delivered r (sub k s) (sub k' s)) \<and> (\<forall>s. s \<notin> set vs \<longrightarrow> sub k' s = sub k s)"
  using assms
proof (induction vs arbitrary: us cursor k)
  case Nil
  then show ?case by (subst publish_loop.simps) (simp add: same_tasks_refl)
next
  case (Cons s vs)
  have d: "dll (bnext k) (bprev k) (g_subscriber_head (broker k)) (g_subscriber_tail (broker k)) bs" and w: "waiting_thread (sub k s) = None"
    using Cons.prems(1) by (auto simp: quiet_list_def)
  have sb: "s \<in> set bs" "ring_ok (sub k s)" and out: "s \<notin> set vs" using Cons.prems(2,4) dll_distinct [OF d] by auto
  define k1 where "k1 = (if subscription_matches (sub k s) r then the (enqueue_record wake s r k) else k)"
  obtain k2 where E: "enqueue_record wake s r k = Some k2" "same_tasks k k2" "quiet_list k2 bs"
    using enqueue_record_quiet [OF Cons.prems(1)] by blast
  obtain k3 where O: "enqueue_record wake s r k = Some k3" "ring_ok (sub k3 s)" "contents (sub k3 s) = fst (lossy_put (has_room k s) r (contents (sub k s)))"
    "dropped_count (sub k3 s) = dropped_count (sub k s) + of_nat (snd (lossy_put (has_room k s) r (contents (sub k s))))"
    using enqueue_record_ok [OF sb(2) w] by blast
  have k32: "k3 = k2" using E(1) O(1) by simp
  have room: "queued_count (sub k s) < length (queue (sub k s)) \<longrightarrow> has_room k s" by (simp add: has_room_def)
  have 1: "same_tasks k k1" "quiet_list k1 bs" "ring_ok (sub k1 s)" "delivered r (sub k s) (sub k1 s)" "\<And>x. x \<noteq> s \<Longrightarrow> sub k1 x = sub k x"
    "(if subscription_matches (sub k s) r then enqueue_record wake s r k else Some k) = Some k1"
    using E O(2-4) [unfolded k32] Cons.prems(1) sb(2) enqueue_record_frame [OF w E(1)] room
    by (auto simp: k1_def same_tasks_refl delivered_def)
  have nx: "bnext k1 s = first_of vs None"
    using 1(2) Cons.prems(2) by (auto simp: quiet_list_def dll_def chain_append)
  have "ring_ok (sub k1 x)" if "x \<in> set bs" for x using that 1(3,5) Cons.prems(4) by (cases "x = s") auto
  then obtain k' where I: "publish_loop wake r (bnext k1 s) k1 = Some k'" "same_tasks k1 k'" "quiet_list k' bs"
    "\<forall>s. s \<in> set bs \<longrightarrow> ring_ok (sub k' s)" "\<forall>s. s \<in> set vs \<longrightarrow> delivered r (sub k1 s) (sub k' s)" "\<forall>s. s \<notin> set vs \<longrightarrow> sub k' s = sub k1 s"
    using Cons.IH [of k1 "us @ [s]" "bnext k1 s"] 1(2) Cons.prems(2) nx by auto
  have "publish_loop wake r cursor k = Some k'" using 1(6) I(1) Cons.prems(3) by (subst publish_loop.simps) simp
  moreover have "delivered r (sub k x) (sub k' x)" if "x \<in> set (s # vs)" for x
    using that I(5,6) 1(4,5) out by (cases "x = s") auto
  moreover have "sub k' x = sub k x" if "x \<notin> set (s # vs)" for x using that I(6) 1(5) by auto
  ultimately show ?case using same_tasks_trans [OF 1(1) I(2)] I(3,4) by blast
qed

text \<open>C24: Publishing an event stamps it with the next sequence number and appends it to the queue of exactly the subscribers whose
  filter it matches; every queue stays a well-formed ring buffer. A queue loses a record only if its buffer was full: then
  it loses its oldest record and counts the loss.\<close>

theorem publish_delivers:
  assumes "quiet_list k bs" "\<And>s. s \<in> set bs \<Longrightarrow> ring_ok (sub k s)"
  defines "stamped \<equiv> \<lambda>r. r\<lparr>ev_version := KERNEL_EVENT_ABI_VERSION, ev_sequence := g_next_sequence (broker k) + 1,
    ev_uptime_msec := ticks_to_milliseconds (g_tick_count k)\<rparr>"
  shows "\<exists>k'. publish_record wake r k = Some k' \<and> quiet_list k' bs
    \<and> (\<forall>s. s \<in> set bs \<longrightarrow> ring_ok (sub k' s) \<and> delivered (stamped r) (sub k s) (sub k' s))"
proof -
  let ?k1 = "updb (\<lambda>b. b\<lparr>g_next_sequence := g_next_sequence b + 1\<rparr>) k"
  have s1: "sub ?k1 = sub k" "g_subscriber_head (broker ?k1) = g_subscriber_head (broker k)" "g_subscriber_tail (broker ?k1) = g_subscriber_tail (broker k)"
    "g_next_sequence (broker ?k1) = g_next_sequence (broker k) + 1" "g_tick_count ?k1 = g_tick_count k"
    by (simp_all add: sub_def updb_def fun_eq_iff)
  have q1: "quiet_list ?k1 bs" using assms(1) by (simp add: quiet_list_def s1)
  have h: "g_subscriber_head (broker k) = first_of bs None" using assms(1) by (auto simp: quiet_list_def dest: dll_head)
  have "\<And>s. s \<in> set bs \<Longrightarrow> ring_ok (sub ?k1 s)" using assms(2) by (simp add: s1)
  then obtain k' where "publish_loop wake (stamped r) (g_subscriber_head (broker k)) ?k1 = Some k'" "quiet_list k' bs"
    "\<forall>s. s \<in> set bs \<longrightarrow> ring_ok (sub k' s)" "\<forall>s. s \<in> set bs \<longrightarrow> delivered (stamped r) (sub k s) (sub k' s)"
    using publish_loop_delivers [OF q1, of "[]" bs "g_subscriber_head (broker k)" wake "stamped r"] h unfolding s1 by auto
  then show ?thesis unfolding publish_record_def Let_def s1 stamped_def by blast
qed

text \<open>Reading a subscription returns its oldest records in the order they were published, at most as many as asked for, and leaves
  the rest; no other queue changes.\<close>

theorem event_read_in_order:
  assumes "find_subscription owner sid k = Some (Some s)" "ring_ok (sub k s)"
  shows "\<exists>k'. event_read owner sid n k = Some ((StatusOK, take n (contents (sub k s))), k')
    \<and> contents (sub k' s) = drop n (contents (sub k s)) \<and> ring_ok (sub k' s) \<and> (\<forall>x. x \<noteq> s \<longrightarrow> sub k' x = sub k x)"
proof -
  let ?n = "min n (queued_count (sub k s))"
  note R = read_records_ok [OF assms(2), of ?n]
  have t: "take ?n (contents (sub k s)) = take n (contents (sub k s))" "drop ?n (contents (sub k s)) = drop n (contents (sub k s))"
    by (simp_all add: min_def)
  show ?thesis using R assms(1) by (simp add: event_read_def split_beta t)
qed

section \<open>Subscribers of the sample system\<close>

text \<open>Subscriber 20 of process 1 asks for thread events; two of the three places of its buffer are taken.\<close>

definition sample_record :: "u64 \<Rightarrow> KernelEventRecord" where
  "sample_record n = blank_record\<lparr>ev_family := KERNEL_EVENT_FAMILY_THREAD, ev_sequence := n\<rparr>"

definition sample_subscriber :: EventSubscriber where
  "sample_subscriber = zero_subscriber\<lparr>subscription_id := 1, owner_process_id := 1,
     request := zero_request\<lparr>req_family_mask := KERNEL_EVENT_FAMILY_THREAD\<rparr>,
     queue := [sample_record 6, sample_record 0, sample_record 5], read_index := 2, write_index := 1, queued_count := 2\<rparr>"

definition sample_subscribed :: Kernel where
  "sample_subscribed = sample_kernel\<lparr>broker := \<lparr>subscribers = (\<lambda>_. zero_subscriber)(20 := sample_subscriber), g_subscriber_head = Some 20,
     g_subscriber_tail = Some 20, g_next_subscription_id = 2, g_next_sequence = 6\<rparr>\<rparr>"

lemma sample_subscribed_facts:
  "quiet_list sample_subscribed [20]" "sub sample_subscribed 20 = sample_subscriber" "ring_ok sample_subscriber"
  "contents sample_subscriber = [sample_record 5, sample_record 6]" "find_subscription 1 1 sample_subscribed = Some (Some 20)"
proof -
  have w: "waiting_thread (sub sample_subscribed s) = None" "subscriber_next (sub sample_subscribed s) = None"
    "subscriber_prev (sub sample_subscribed s) = None" for s
    by (simp_all add: sub_def sample_subscribed_def sample_subscriber_def zero_subscriber_def)
  have h: "g_subscriber_head (broker sample_subscribed) = Some 20" "g_subscriber_tail (broker sample_subscribed) = Some 20"
    by (simp_all add: sample_subscribed_def)
  show "quiet_list sample_subscribed [20]" by (simp add: quiet_list_def dll_def w h)
  show s: "sub sample_subscribed 20 = sample_subscriber" by (simp add: sub_def sample_subscribed_def)
  have f: "length (queue sample_subscriber) = 3" "queued_count sample_subscriber = 2" "read_index sample_subscriber = 2" "write_index sample_subscriber = 1"
    by (simp_all add: sample_subscriber_def zero_subscriber_def)
  show "ring_ok sample_subscriber" unfolding ring_ok_def f by simp
  show "contents sample_subscriber = [sample_record 5, sample_record 6]"
    unfolding contents_def f by (simp add: sample_subscriber_def upt_rec)
  show "find_subscription 1 1 sample_subscribed = Some (Some 20)"
    unfolding find_subscription_def h
    by (subst find_link.simps) (simp add: s sample_subscriber_def zero_subscriber_def)
qed

theorem publish_delivers_witness:
  "\<exists>k'. publish_record (waking 0) (sample_record 0) sample_subscribed = Some k'
     \<and> map ev_sequence (contents (sub k' 20)) = [5, 6, 7] \<and> dropped_count (sub k' 20) = 0"
proof -
  have sq: "g_next_sequence (broker sample_subscribed) = 6" by (simp add: sample_subscribed_def)
  obtain k' where k': "publish_record (waking 0) (sample_record 0) sample_subscribed = Some k'"
    "delivered ((sample_record 0)\<lparr>ev_version := KERNEL_EVENT_ABI_VERSION, ev_sequence := 7,
       ev_uptime_msec := ticks_to_milliseconds (g_tick_count sample_subscribed)\<rparr>) sample_subscriber (sub k' 20)"
    using publish_delivers [OF sample_subscribed_facts(1), of "waking 0" "sample_record 0"] sample_subscribed_facts(2,3) by (auto simp: sq)
  have "subscription_matches sample_subscriber ((sample_record 0)\<lparr>ev_version := v, ev_sequence := n, ev_uptime_msec := m\<rparr>)" for v n m
    by (simp add: subscription_matches_def sample_subscriber_def zero_subscriber_def zero_request_def sample_record_def event_prefix_def)
  moreover have "queued_count sample_subscriber < length (queue sample_subscriber)" "dropped_count sample_subscriber = 0"
    by (simp_all add: sample_subscriber_def zero_subscriber_def)
  ultimately show ?thesis
    using k' by (auto simp: delivered_def lossy_put_def sample_subscribed_facts(4)) (simp_all add: sample_record_def)
qed

theorem event_read_in_order_witness:
  "\<exists>k'. event_read 1 1 1 sample_subscribed = Some ((StatusOK, [sample_record 5]), k') \<and> contents (sub k' 20) = [sample_record 6]"
  using event_read_in_order [OF sample_subscribed_facts(5), of 1] by (auto simp: sample_subscribed_facts)

end
